(* ===== verification/Prelude.thy ===== *)
theory Prelude
  imports Main "HOL-Library.Word"
begin

text \<open>
  Shared vocabulary of the development: the collections of rewrite rules that the component
  theories extend, the error codes of \<^verbatim>\<open>include/tk/errno.h\<close>, the object attributes of
  \<^verbatim>\<open>include/tk/syscall.h\<close>, and generic lemmas on lists, sorted insertion and words.
\<close>

unbundle bit_operations_syntax

named_theorems frame \<open>state components an operation leaves alone\<close>
named_theorems queue_ops \<open>effects of the queue operations on the queue store\<close>

subsection \<open>Types and constants of the C sources\<close>

type_synonym UB = "8 word"
type_synonym UW = "32 word"
type_synonym D  = "64 word"
type_synonym ER = int
type_synonym ID = int

text \<open>
  \<^verbatim>\<open>ERCD(mer, ser)\<close>: main code in the upper half word. The codes below are the values the
  macro yields for a zero sub-code.
\<close>

definition ERCD :: "int \<Rightarrow> int \<Rightarrow> int" where
  "ERCD mer ser =
     sint ((push_bit 16 (word_of_int mer :: UW)) OR ((word_of_int ser :: UW) AND 0xFFFF))"

abbreviation (input) E_OK :: int where "E_OK \<equiv> 0"
abbreviation (input) E_SYS :: int where "E_SYS \<equiv> -327680"
abbreviation (input) E_NOCOP :: int where "E_NOCOP \<equiv> -393216"
abbreviation (input) E_NOSPT :: int where "E_NOSPT \<equiv> -589824"
abbreviation (input) E_RSATR :: int where "E_RSATR \<equiv> -720896"
abbreviation (input) E_PAR :: int where "E_PAR \<equiv> -1114112"
abbreviation (input) E_ID :: int where "E_ID \<equiv> -1179648"
abbreviation (input) E_CTX :: int where "E_CTX \<equiv> -1638400"
abbreviation (input) E_ILUSE :: int where "E_ILUSE \<equiv> -1835008"
abbreviation (input) E_NOMEM :: int where "E_NOMEM \<equiv> -2162688"
abbreviation (input) E_LIMIT :: int where "E_LIMIT \<equiv> -2228224"
abbreviation (input) E_OBJ :: int where "E_OBJ \<equiv> -2686976"
abbreviation (input) E_NOEXS :: int where "E_NOEXS \<equiv> -2752512"
abbreviation (input) E_QOVR :: int where "E_QOVR \<equiv> -2818048"
abbreviation (input) E_RLWAI :: int where "E_RLWAI \<equiv> -3211264"
abbreviation (input) E_TMOUT :: int where "E_TMOUT \<equiv> -3276800"
abbreviation (input) E_DLT :: int where "E_DLT \<equiv> -3342336"
abbreviation (input) E_DISWAI :: int where "E_DISWAI \<equiv> -3407872"

lemma error_codes:
  "ERCD (-5) 0 = E_SYS" "ERCD (-6) 0 = E_NOCOP" "ERCD (-9) 0 = E_NOSPT"
  "ERCD (-11) 0 = E_RSATR" "ERCD (-17) 0 = E_PAR" "ERCD (-18) 0 = E_ID"
  "ERCD (-25) 0 = E_CTX" "ERCD (-28) 0 = E_ILUSE" "ERCD (-33) 0 = E_NOMEM"
  "ERCD (-34) 0 = E_LIMIT" "ERCD (-41) 0 = E_OBJ" "ERCD (-42) 0 = E_NOEXS"
  "ERCD (-43) 0 = E_QOVR" "ERCD (-49) 0 = E_RLWAI" "ERCD (-50) 0 = E_TMOUT"
  "ERCD (-51) 0 = E_DLT" "ERCD (-52) 0 = E_DISWAI"
  by (simp_all add: ERCD_def)

abbreviation (input) INT_MAX :: int where "INT_MAX \<equiv> 2147483647"

abbreviation (input) NUM_PRI :: nat where "NUM_PRI \<equiv> 140"
abbreviation (input) MIN_PRI :: int where "MIN_PRI \<equiv> 1"
abbreviation (input) MAX_PRI :: int where "MAX_PRI \<equiv> 140"

text \<open>Timeouts in microseconds are signed 64-bit values.\<close>

abbreviation (input) TMO_FEVR :: D where "TMO_FEVR \<equiv> -1"
abbreviation (input) TMO_POL :: D where "TMO_POL \<equiv> 0"

abbreviation (input) TSK_SELF :: int where "TSK_SELF \<equiv> 0"
abbreviation (input) TPRI_INI :: int where "TPRI_INI \<equiv> 0"
abbreviation (input) TPRI_RUN :: int where "TPRI_RUN \<equiv> 0"

abbreviation (input) TA_NULL :: UW where "TA_NULL \<equiv> 0"
abbreviation (input) TA_TFIFO :: UW where "TA_TFIFO \<equiv> 0"
abbreviation (input) TA_TPRI :: UW where "TA_TPRI \<equiv> 0x1"
abbreviation (input) TA_CNT :: UW where "TA_CNT \<equiv> 0x2"
abbreviation (input) TA_MPRI :: UW where "TA_MPRI \<equiv> 0x2"
abbreviation (input) TA_INHERIT :: UW where "TA_INHERIT \<equiv> 0x2"
abbreviation (input) TA_CEILING :: UW where "TA_CEILING \<equiv> 0x3"
abbreviation (input) TA_WMUL :: UW where "TA_WMUL \<equiv> 0x8"
abbreviation (input) TA_DSNAME :: UW where "TA_DSNAME \<equiv> 0x40"
abbreviation (input) TA_NODISWAI :: UW where "TA_NODISWAI \<equiv> 0x80"

abbreviation (input) TWF_ORW :: UW where "TWF_ORW \<equiv> 0x1"
abbreviation (input) TWF_CLR :: UW where "TWF_CLR \<equiv> 0x10"
abbreviation (input) TWF_BITCLR :: UW where "TWF_BITCLR \<equiv> 0x20"

abbreviation (input) TTW_SLP :: UW where "TTW_SLP \<equiv> 0x1"
abbreviation (input) TTW_DLY :: UW where "TTW_DLY \<equiv> 0x2"
abbreviation (input) TTW_SEM :: UW where "TTW_SEM \<equiv> 0x4"
abbreviation (input) TTW_FLG :: UW where "TTW_FLG \<equiv> 0x8"
abbreviation (input) TTW_MBX :: UW where "TTW_MBX \<equiv> 0x40"
abbreviation (input) TTW_MTX :: UW where "TTW_MTX \<equiv> 0x80"
abbreviation (input) TTW_SMBF :: UW where "TTW_SMBF \<equiv> 0x100"
abbreviation (input) TTW_RMBF :: UW where "TTW_RMBF \<equiv> 0x200"
abbreviation (input) TTW_CAL :: UW where "TTW_CAL \<equiv> 0x400"
abbreviation (input) TTW_ACP :: UW where "TTW_ACP \<equiv> 0x800"
abbreviation (input) TTW_RDV :: UW where "TTW_RDV \<equiv> 0x1000"

text \<open>Unit conversions of \<^verbatim>\<open>timer.h\<close>.\<close>

definition to_usec :: "D \<Rightarrow> D" where
  "to_usec msec = msec * 1000"

definition to_usec_tmo :: "UW \<Rightarrow> D" where
  "to_usec_tmo ms = (if 0 <s ms then to_usec (scast ms) else scast ms)"

definition to_msec :: "D \<Rightarrow> D" where
  "to_msec usec = (usec + 999) div 1000"

subsection \<open>Lists\<close>

lemma distinct_remove1_set [simp]:
  "distinct xs \<Longrightarrow> set (remove1 x xs) = set xs - {x}"
  by (rule set_remove1_eq)

lemma remove1_notin [simp]: "x \<notin> set xs \<Longrightarrow> remove1 x xs = xs"
  by (rule remove1_idem)

text \<open>Insertion of an element directly before another one that the list holds.\<close>

fun insert_before :: "'a \<Rightarrow> 'a \<Rightarrow> 'a list \<Rightarrow> 'a list" where
  "insert_before e q [] = []"
| "insert_before e q (x # xs) = (if x = q then e # x # xs else x # insert_before e q xs)"

lemma insert_before_notin [simp]: "q \<notin> set xs \<Longrightarrow> insert_before e q xs = xs"
  by (induction xs) auto

lemma set_insert_before [simp]:
  "set (insert_before e q xs) = (if q \<in> set xs then insert e (set xs) else set xs)"
  by (induction xs) auto

lemma distinct_insert_before:
  "distinct xs \<Longrightarrow> e \<notin> set xs \<Longrightarrow> distinct (insert_before e q xs)"
  by (induction xs) auto

lemma insert_before_split:
  "q \<notin> set ys \<Longrightarrow> insert_before e q (ys @ q # zs) = ys @ e # q # zs"
  by (induction ys) auto

lemma insert_before_eq_Nil [simp]: "insert_before e q xs = [] \<longleftrightarrow> xs = []"
  by (cases xs) auto

text \<open>Insertion behind every element that does not compare greater: a sorted insertion.\<close>

fun insert_by :: "('a \<Rightarrow> 'a \<Rightarrow> bool) \<Rightarrow> 'a \<Rightarrow> 'a list \<Rightarrow> 'a list" where
  "insert_by gt e [] = [e]"
| "insert_by gt e (x # xs) = (if gt x e then e # x # xs else x # insert_by gt e xs)"

lemma set_insert_by [simp]: "set (insert_by gt e xs) = insert e (set xs)"
  by (induction xs) auto

lemma distinct_insert_by [simp]:
  "distinct (insert_by gt e xs) \<longleftrightarrow> e \<notin> set xs \<and> distinct xs"
  by (induction xs) auto

lemma insert_by_neq_Nil [simp]: "insert_by gt e xs \<noteq> []"
  by (cases xs) auto

lemma insert_by_takeWhile:
  "insert_by gt e xs = takeWhile (\<lambda>x. \<not> gt x e) xs @ e # dropWhile (\<lambda>x. \<not> gt x e) xs"
  by (induction xs) auto

lemma hd_insert_by:
  "hd (insert_by gt e xs) = (if xs = [] \<or> gt (hd xs) e then e else hd xs)"
  by (cases xs) auto

lemma sorted_wrt_insert_by:
  fixes f :: "'a \<Rightarrow> 'b :: linorder"
  assumes "sorted (map f xs)" and gt: "\<And>x. x \<in> set xs \<Longrightarrow> gt x e \<longleftrightarrow> f e < f x"
  shows "sorted (map f (insert_by gt e xs))"
  using assms by (induction xs) (auto simp: less_imp_le not_less)

lemma insert_by_cong:
  "(\<And>x. x \<in> set xs \<Longrightarrow> gt x e = gt' x e) \<Longrightarrow> insert_by gt e xs = insert_by gt' e xs"
  by (induction xs) auto

lemma hd_remove1:
  "xs \<noteq> [] \<Longrightarrow> hd xs \<noteq> x \<Longrightarrow> hd (remove1 x xs) = hd xs \<and> remove1 x xs \<noteq> []"
  by (cases xs) auto

lemma sorted_map_remove1: "sorted (map f xs) \<Longrightarrow> sorted (map f (remove1 x xs))"
  by (induction xs) (auto dest: notin_set_remove1 in_set_remove1 set_remove1_subset [THEN subsetD])

lemma sorted_map_cong: "(\<And>x. x \<in> set xs \<Longrightarrow> f x = g x) \<Longrightarrow> sorted (map f xs) = sorted (map g xs)"
  by (metis map_cong)

lemma concat_upt_split:
  assumes "p < n"
  shows "concat (map f [0..<n]) = concat (map f [0..<p]) @ f p @ concat (map f [Suc p..<n])"
proof -
  have "[0..<n] = [0..<p] @ p # [Suc p..<n]"
    using assms by (metis le0 less_imp_le upt_add_eq_append upt_conv_Cons le_add_diff_inverse)
  then show ?thesis by simp
qed

end
