(* ===== verification/Simulation.thy ===== *)
theory Simulation
  imports Prelude
begin

text \<open>
  The interface between a stateful component and its abstract specification. \<open>exec\<close> runs one call
  on the component's state, \<open>valid\<close> says where a caller may issue it, \<open>abs\<close> is the value the state
  stands for, and \<open>spec\<close> does to that value what the call promises. A component that keeps its
  invariant and follows the specification call by call does so over every run.
\<close>

primrec valid_calls :: "('c \<Rightarrow> 's \<Rightarrow> 's) \<Rightarrow> ('c \<Rightarrow> 's \<Rightarrow> bool) \<Rightarrow> 'c list \<Rightarrow> 's \<Rightarrow> bool" where
  "valid_calls exec valid [] s \<longleftrightarrow> True"
| "valid_calls exec valid (c # cs) s \<longleftrightarrow> valid c s \<and> valid_calls exec valid cs (exec c s)"

locale simulation =
  fixes inv :: "'s \<Rightarrow> bool" and exec :: "'c \<Rightarrow> 's \<Rightarrow> 's" and valid :: "'c \<Rightarrow> 's \<Rightarrow> bool"
    and abs :: "'s \<Rightarrow> 'a" and spec :: "'c \<Rightarrow> 'a \<Rightarrow> 'a"
  assumes exec_inv: "inv s \<Longrightarrow> valid c s \<Longrightarrow> inv (exec c s)"
    and exec_abs: "inv s \<Longrightarrow> valid c s \<Longrightarrow> abs (exec c s) = spec c (abs s)"
begin

lemma run_inv: "inv s \<Longrightarrow> valid_calls exec valid cs s \<Longrightarrow> inv (fold exec cs s)"
  by (induction cs arbitrary: s) (auto intro: exec_inv)

lemma run_abs: "inv s \<Longrightarrow> valid_calls exec valid cs s \<Longrightarrow> abs (fold exec cs s) = fold spec cs (abs s)"
  by (induction cs arbitrary: s) (auto simp: exec_inv exec_abs)

end

end
