(* ===== verification/Queue.thy ===== *)
theory Queue
  imports Prelude
begin

text \<open>
  The doubly linked rings of \<^verbatim>\<open>include/sys/queue.h\<close> and the search routines of
  \<^verbatim>\<open>lib/libsys/src/quesearch*.c\<close>, at two levels.
  \<^item> Pointer level: a heap of \<open>next\<close>/\<open>prev\<close> links; each inline function is translated
    assignment by assignment (\<open>p_QueInit\<close>, \<open>p_QueInsert\<close>, ...).
  \<^item> List level: a store that maps every queue head to the list of its entries
    (\<open>QueInsert\<close>, \<open>QueRemove\<close>, ...). The kernel theories use this level.
  The relation \<open>rings\<close> ties the two; the lemmas \<open>rings_*\<close> show that every pointer
  operation implements the list operation, for all rings of the heap at once. The locale
  \<open>queue_impl\<close> is the interface, interpreted on the pointer operations.
\<close>

subsection \<open>Pointer level\<close>

record 'a qheap =
  nxt :: "'a \<Rightarrow> 'a"
  prv :: "'a \<Rightarrow> 'a"

definition p_QueInit :: "'a \<Rightarrow> 'a qheap \<Rightarrow> 'a qheap" where
  "p_QueInit que H = H\<lparr>nxt := (nxt H)(que := que), prv := (prv H)(que := que)\<rparr>"

definition p_isQueEmpty :: "'a \<Rightarrow> 'a qheap \<Rightarrow> bool" where
  "p_isQueEmpty que H = (nxt H que = que)"

definition p_QueInsert :: "'a \<Rightarrow> 'a \<Rightarrow> 'a qheap \<Rightarrow> 'a qheap" where
  "p_QueInsert entry que H =
     (let H1 = H\<lparr>prv := (prv H)(entry := prv H que)\<rparr>;
          H2 = H1\<lparr>nxt := (nxt H1)(entry := que)\<rparr>;
          H3 = H2\<lparr>nxt := (nxt H2)(prv H2 que := entry)\<rparr>
      in H3\<lparr>prv := (prv H3)(que := entry)\<rparr>)"

definition p_QueRemove :: "'a \<Rightarrow> 'a qheap \<Rightarrow> 'a qheap" where
  "p_QueRemove entry H =
     (if nxt H entry \<noteq> entry
      then let H1 = H\<lparr>nxt := (nxt H)(prv H entry := nxt H entry)\<rparr>
           in H1\<lparr>prv := (prv H1)(nxt H1 entry := prv H1 entry)\<rparr>
      else H)"

definition p_QueRemoveNext :: "'a \<Rightarrow> 'a qheap \<Rightarrow> 'a option \<times> 'a qheap" where
  "p_QueRemoveNext que H =
     (if nxt H que = que then (None, H)
      else let entry = nxt H que;
               H1 = H\<lparr>nxt := (nxt H)(que := nxt H entry)\<rparr>;
               H2 = H1\<lparr>prv := (prv H1)(nxt H1 entry := que)\<rparr>
           in (Some entry, H2))"

text \<open>
  \<^verbatim>\<open>QUESEARCH\<close> and \<^verbatim>\<open>QUESEARCHREV\<close>: the loop follows the links and may not end on a heap that
  is no ring, so it is a partial function. \<open>hit q\<close> is the comparison of the value at the offset
  with \<^verbatim>\<open>val\<close>.
\<close>

partial_function (option) p_search_loop ::
  "('a \<Rightarrow> 'a) \<Rightarrow> ('a \<Rightarrow> bool) \<Rightarrow> 'a \<Rightarrow> 'a \<Rightarrow> 'a option" where
  "p_search_loop link hit stop que =
     (if que = stop then Some que
      else if hit que then Some que
      else p_search_loop link hit stop (link que))"

definition p_QueSearch :: "'a qheap \<Rightarrow> ('a \<Rightarrow> bool) \<Rightarrow> 'a \<Rightarrow> 'a \<Rightarrow> 'a option" where
  "p_QueSearch H hit start stop = p_search_loop (nxt H) hit stop (nxt H start)"

definition p_QueSearchRev :: "'a qheap \<Rightarrow> ('a \<Rightarrow> bool) \<Rightarrow> 'a \<Rightarrow> 'a \<Rightarrow> 'a option" where
  "p_QueSearchRev H hit start stop = p_search_loop (prv H) hit stop (prv H start)"

subsection \<open>Rings\<close>

fun chain :: "('a \<Rightarrow> 'a) \<Rightarrow> 'a \<Rightarrow> 'a list \<Rightarrow> 'a \<Rightarrow> bool" where
  "chain f a [] b \<longleftrightarrow> f a = b"
| "chain f a (x # xs) b \<longleftrightarrow> f a = x \<and> chain f x xs b"

definition ring :: "'a qheap \<Rightarrow> 'a \<Rightarrow> 'a list \<Rightarrow> bool" where
  "ring H h xs \<longleftrightarrow> distinct (h # xs) \<and> chain (nxt H) h xs h \<and> chain (prv H) h (rev xs) h"

lemma chain_append [simp]:
  "chain f a (xs @ ys) b \<longleftrightarrow>
     (case ys of [] \<Rightarrow> chain f a xs b | y # ys' \<Rightarrow> chain f a xs y \<and> chain f y ys' b)"
  by (induction xs arbitrary: a) (auto split: list.splits)

lemma chain_upd_other [simp]:
  "c \<noteq> a \<Longrightarrow> c \<notin> set xs \<Longrightarrow> chain (f(c := d)) a xs b = chain f a xs b"
  by (induction xs arbitrary: a) auto

lemma chain_split_last:
  "chain f a (xs @ [x]) b \<longleftrightarrow> chain f a xs x \<and> f x = b"
  by simp

lemma chain_upd_last:
  "chain f a xs b \<Longrightarrow> distinct (a # xs) \<Longrightarrow> chain (f(last (a # xs) := c)) a xs c"
proof (induction xs arbitrary: a)
  case Nil
  then show ?case by simp
next
  case (Cons x xs)
  have "chain (f(last (x # xs) := c)) x xs c" using Cons by (intro Cons.IH) auto
  moreover have "a \<noteq> last (x # xs)" using Cons.prems(2) last_in_set [of "x # xs"] by fastforce
  moreover have "last (a # x # xs) = last (x # xs)" by simp
  ultimately show ?case using Cons.prems by (simp only: chain.simps fun_upd_other simp_thms)
qed

lemma chain_last: "chain f a xs b \<Longrightarrow> f (last (a # xs)) = b"
  by (induction xs arbitrary: a) auto

lemma chain_hd: "chain f a xs b \<Longrightarrow> f a = hd (xs @ [b])"
  by (cases xs) auto

lemma ring_next_head: "ring H h xs \<Longrightarrow> nxt H h = hd (xs @ [h])"
  unfolding ring_def by (blast intro: chain_hd)

lemma ring_prev_head: "ring H h xs \<Longrightarrow> prv H h = last (h # xs)"
  unfolding ring_def by (metis chain_hd hd_append hd_rev last.simps rev_is_Nil_conv list.sel(1))

lemma ring_empty_iff: "ring H h xs \<Longrightarrow> p_isQueEmpty h H \<longleftrightarrow> xs = []"
  by (cases xs) (auto simp: p_isQueEmpty_def ring_def)

lemma ring_init: "ring (p_QueInit h H) h []"
  by (simp add: ring_def p_QueInit_def)

lemma chain_cong:
  "chain f a ys b \<Longrightarrow> (\<And>x. x \<in> set (a # ys) \<Longrightarrow> g x = f x) \<Longrightarrow> chain g a ys b"
  by (induction ys arbitrary: a) auto

text \<open>A ring that the written links do not touch stays as it is.\<close>

lemma ring_frame:
  assumes "ring H h xs"
    and "\<And>x. x \<in> set (h # xs) \<Longrightarrow> nxt H' x = nxt H x \<and> prv H' x = prv H x"
  shows "ring H' h xs"
proof -
  have "chain (nxt H') h xs h" "chain (prv H') h (rev xs) h"
    using assms by (auto simp: ring_def intro: chain_cong)
  with assms(1) show ?thesis by (simp add: ring_def)
qed

subsection \<open>The pointer operations on one ring\<close>

lemma p_QueInsert_links:
  assumes "e \<noteq> q"
  shows "nxt (p_QueInsert e q H) = (nxt H)(e := q, prv H q := e)"
    and "prv (p_QueInsert e q H) = (prv H)(e := prv H q, q := e)"
  using assms by (simp_all add: p_QueInsert_def Let_def fun_upd_twist)

text \<open>Insertion prior to the head appends to the ring.\<close>

lemma ring_insert_head:
  assumes r: "ring H h xs" and e: "e \<notin> set (h # xs)"
  shows "ring (p_QueInsert e h H) h (xs @ [e])"
proof -
  from e have ne: "e \<noteq> h" "h \<noteq> e" by auto
  have prev: "prv H h = last (h # xs)" using r by (rule ring_prev_head)
  have last_in: "last (h # xs) \<in> set (h # xs)" by (rule last_in_set) simp
  have d: "distinct (h # xs)" and cn: "chain (nxt H) h xs h" and cp: "chain (prv H) h (rev xs) h"
    using r by (auto simp: ring_def)
  have "chain ((nxt H)(last (h # xs) := e)) h xs e"
    using cn d by (rule chain_upd_last)
  then have n: "chain ((nxt H)(e := h, last (h # xs) := e)) h xs e"
    using e last_in by (subst fun_upd_twist) (auto simp: ne)
  have "chain (prv (p_QueInsert e h H)) h (e # rev xs) h"
  proof (cases xs rule: rev_cases)
    case Nil
    then show ?thesis using ne prev by (simp add: p_QueInsert_links)
  next
    case (snoc ys y)
    with cp e d prev ne show ?thesis
      by (auto simp: p_QueInsert_links)
  qed
  moreover have "chain (nxt (p_QueInsert e h H)) h (xs @ [e]) h"
    using n ne last_in e by (auto simp: p_QueInsert_links prev)
  ultimately show ?thesis
    using d e ne by (simp add: ring_def)
qed

text \<open>Insertion prior to an entry puts the new entry directly before it.\<close>

lemma ring_insert_entry:
  assumes r: "ring H h (ys @ q # zs)" and e: "e \<notin> set (h # ys @ q # zs)"
  shows "ring (p_QueInsert e q H) h (ys @ e # q # zs)"
proof -
  let ?H = "p_QueInsert e q H"
  have ne: "e \<noteq> q" "e \<noteq> h" "h \<noteq> e" using e by auto
  have d: "distinct (h # ys @ q # zs)" and cn: "chain (nxt H) h ys q" "chain (nxt H) q zs h"
    and cp: "chain (prv H) h (rev zs) q" "chain (prv H) q (rev ys) h"
    using r by (auto simp: ring_def)
  have prev: "prv H q = last (h # ys)"
    using cp(2) by (cases ys rule: rev_cases) auto
  have last_in: "last (h # ys) \<in> set (h # ys)" by (rule last_in_set) simp
  have "chain ((nxt H)(last (h # ys) := e)) h ys e"
    using cn(1) d by (intro chain_upd_last) auto
  then have "chain (nxt ?H) h ys e"
    using e last_in by (subst p_QueInsert_links [OF ne(1)], subst prev, subst fun_upd_twist) auto
  moreover have "chain (nxt ?H) q zs h"
  proof (rule chain_cong [OF cn(2)])
    fix x assume "x \<in> set (q # zs)"
    then have "x \<noteq> e" "x \<noteq> prv H q" using e d last_in unfolding prev by auto
    then show "nxt ?H x = nxt H x" by (simp add: p_QueInsert_links [OF ne(1)])
  qed
  moreover have "nxt ?H e = q"
    using e last_in by (subst p_QueInsert_links [OF ne(1)], subst prev) auto
  moreover have "chain (prv ?H) h (rev zs) q"
    using cp(1) e d by (subst p_QueInsert_links [OF ne(1)]) auto
  moreover have "chain (prv ?H) e (rev ys) h"
    using cp(2) e d ne
    by (cases ys rule: rev_cases) (auto simp: p_QueInsert_links [OF ne(1)] prev)
  moreover have "prv ?H q = e"
    by (simp add: p_QueInsert_links [OF ne(1)])
  ultimately show ?thesis
    using d e ne by (simp add: ring_def)
qed

lemma p_QueRemove_links:
  assumes "nxt H e \<noteq> e" "prv H e \<noteq> e"
  shows "nxt (p_QueRemove e H) = (nxt H)(prv H e := nxt H e)"
    and "prv (p_QueRemove e H) = (prv H)(nxt H e := prv H e)"
  using assms by (simp_all add: p_QueRemove_def Let_def)

lemma ring_remove_entry:
  assumes r: "ring H h (ys @ e # zs)"
  shows "ring (p_QueRemove e H) h (ys @ zs)"
    and "nxt H e = hd (zs @ [h])" and "prv H e = last (h # ys)"
proof -
  let ?H = "p_QueRemove e H"
  have d: "distinct (h # ys @ e # zs)" and cn: "chain (nxt H) h ys e" "chain (nxt H) e zs h"
    and cp: "chain (prv H) h (rev zs) e" "chain (prv H) e (rev ys) h"
    using r by (auto simp: ring_def)
  show n: "nxt H e = hd (zs @ [h])" using cn(2) by (rule chain_hd)
  show p: "prv H e = last (h # ys)"
    using cp(2) by (cases ys rule: rev_cases) auto
  have hd_in: "hd (zs @ [h]) \<in> set (zs @ [h])" by (rule hd_in_set) simp
  have last_in: "last (h # ys) \<in> set (h # ys)" by (rule last_in_set) simp
  have ne: "nxt H e \<noteq> e" "prv H e \<noteq> e"
    using n p hd_in last_in d by auto
  have "chain (nxt ?H) h ys (nxt H e)"
    using chain_upd_last [OF cn(1)] d by (simp add: p_QueRemove_links [OF ne] p)
  moreover have "chain (nxt ?H) (hd zs) (tl zs) h" if "zs \<noteq> []"
  proof (rule chain_cong [where f = "nxt H"])
    show "chain (nxt H) (hd zs) (tl zs) h" using cn(2) that by (cases zs) auto
    fix x assume "x \<in> set (hd zs # tl zs)"
    then have "x \<noteq> prv H e" using that d last_in unfolding p by auto
    then show "nxt ?H x = nxt H x" by (simp add: p_QueRemove_links [OF ne])
  qed
  moreover have "chain (prv ?H) h (rev zs) (last (h # ys))"
  proof (cases zs)
    case Nil
    then show ?thesis by (simp add: p_QueRemove_links [OF ne] n p)
  next
    case (Cons z zs')
    with cp(1) d show ?thesis by (auto simp: p_QueRemove_links [OF ne] n p)
  qed
  moreover have "chain (prv ?H) (last ys) (rev (butlast ys)) h" if "ys \<noteq> []"
  proof (rule chain_cong [where f = "prv H"])
    show "chain (prv H) (last ys) (rev (butlast ys)) h"
      using cp(2) that by (cases ys rule: rev_cases) auto
    fix x assume "x \<in> set (last ys # rev (butlast ys))"
    then have "x \<in> set ys" using that by (auto dest: in_set_butlastD)
    then have "x \<noteq> nxt H e" using d hd_in unfolding n by auto
    then show "prv ?H x = prv H x" by (simp add: p_QueRemove_links [OF ne])
  qed
  ultimately show "ring ?H h (ys @ zs)"
    using d n by (cases zs; cases ys rule: rev_cases) (auto simp: ring_def)
qed

text \<open>\<^verbatim>\<open>QueRemoveNext\<close> writes the same links as \<^verbatim>\<open>QueRemove\<close> of the first entry.\<close>

lemma p_QueRemoveNext_eq:
  assumes r: "ring H h (x # xs)"
  shows "p_QueRemoveNext h H = (Some x, p_QueRemove x H)"
proof -
  have n: "nxt H h = x" and "x \<noteq> h" using r by (auto simp: ring_def)
  have p: "prv H x = h" using ring_remove_entry(3) [of H h "[]" x xs] r by simp
  have nx: "nxt H x = hd (xs @ [h])" using ring_remove_entry(2) [of H h "[]" x xs] r by simp
  have "nxt H x \<noteq> x" using nx r by (cases xs) (auto simp: ring_def)
  with n p \<open>x \<noteq> h\<close> show ?thesis
    by (simp add: p_QueRemoveNext_def p_QueRemove_def Let_def)
qed

lemma p_QueRemoveNext_empty: "ring H h [] \<Longrightarrow> p_QueRemoveNext h H = (None, H)"
  by (simp add: p_QueRemoveNext_def ring_def)

text \<open>The search loops end on a ring, at the first hit or at the head.\<close>

lemma search_loop_chain:
  "chain f a xs b \<Longrightarrow> b \<notin> set xs \<Longrightarrow>
     p_search_loop f hit b (f a) = Some (hd (dropWhile (\<lambda>x. \<not> hit x) xs @ [b]))"
proof (induction xs arbitrary: a)
  case Nil
  then show ?case by (simp add: p_search_loop.simps)
next
  case (Cons x xs)
  then have ih: "p_search_loop f hit b (f x) = Some (hd (dropWhile (\<lambda>x. \<not> hit x) xs @ [b]))"
    by auto
  with Cons.prems show ?case
    by (subst p_search_loop.simps) auto
qed

lemma p_QueSearch_ring:
  "ring H h xs \<Longrightarrow> p_QueSearch H hit h h = Some (hd (dropWhile (\<lambda>x. \<not> hit x) xs @ [h]))"
  by (auto simp: ring_def p_QueSearch_def intro: search_loop_chain)

lemma p_QueSearchRev_ring:
  "ring H h xs \<Longrightarrow>
     p_QueSearchRev H hit h h = Some (hd (dropWhile (\<lambda>x. \<not> hit x) (rev xs) @ [h]))"
  using search_loop_chain [of "prv H" h "rev xs" h hit] by (auto simp: ring_def p_QueSearchRev_def)

subsection \<open>List level\<close>

text \<open>
  A node is a queue head (a \<^verbatim>\<open>QUEUE\<close> of a control block or of a table) or an entry (the
  \<^verbatim>\<open>QUEUE\<close> at the top of a task control block). \<open>QueInsert\<close> takes the node to insert prior to,
  as the code does; the C code finds the ring of an entry through its links, the list operation
  updates whichever list holds the entry.
\<close>

datatype ('h, 't) qnode = QHead 'h | QEnt 't

type_synonym ('h, 't) qstore = "'h \<Rightarrow> 't list"

definition QueInit :: "'h \<Rightarrow> ('h, 't) qstore \<Rightarrow> ('h, 't) qstore" where
  "QueInit h qs = qs(h := [])"

definition isQueEmpty :: "'h \<Rightarrow> ('h, 't) qstore \<Rightarrow> bool" where
  "isQueEmpty h qs = (qs h = [])"

definition que_next :: "'h \<Rightarrow> ('h, 't) qstore \<Rightarrow> ('h, 't) qnode" where
  "que_next h qs = (case qs h of [] \<Rightarrow> QHead h | t # _ \<Rightarrow> QEnt t)"

definition QueInsert :: "'t \<Rightarrow> ('h, 't) qnode \<Rightarrow> ('h, 't) qstore \<Rightarrow> ('h, 't) qstore" where
  "QueInsert t node qs =
     (case node of
        QHead h \<Rightarrow> qs(h := qs h @ [t])
      | QEnt u \<Rightarrow> (\<lambda>h. insert_before t u (qs h)))"

definition QueRemove :: "'t \<Rightarrow> ('h, 't) qstore \<Rightarrow> ('h, 't) qstore" where
  "QueRemove t qs = (\<lambda>h. remove1 t (qs h))"

definition QueRemoveNext :: "'h \<Rightarrow> ('h, 't) qstore \<Rightarrow> 't option \<times> ('h, 't) qstore" where
  "QueRemoveNext h qs = (case qs h of [] \<Rightarrow> (None, qs) | t # ts \<Rightarrow> (Some t, qs(h := ts)))"

definition que_search :: "('t \<Rightarrow> bool) \<Rightarrow> 'h \<Rightarrow> ('h, 't) qstore \<Rightarrow> ('h, 't) qnode" where
  "que_search hit h qs =
     (case dropWhile (\<lambda>t. \<not> hit t) (qs h) of [] \<Rightarrow> QHead h | t # _ \<Rightarrow> QEnt t)"

definition queued :: "'t \<Rightarrow> ('h, 't) qstore \<Rightarrow> bool" where
  "queued t qs = (\<exists>h. t \<in> set (qs h))"

lemma QueInit_apply [queue_ops, simp]: "QueInit h qs h' = (if h' = h then [] else qs h')"
  by (simp add: QueInit_def)

lemma QueInsert_head [queue_ops, simp]:
  "QueInsert t (QHead h) qs h' = (if h' = h then qs h @ [t] else qs h')"
  by (simp add: QueInsert_def)

lemma QueInsert_ent [queue_ops]: "QueInsert t (QEnt u) qs h = insert_before t u (qs h)"
  by (simp add: QueInsert_def)

lemma QueRemove_apply [queue_ops]: "QueRemove t qs h = remove1 t (qs h)"
  by (simp add: QueRemove_def)

text \<open>Inserting prior to the node a search found is a sorted insertion into that queue.\<close>

definition disjoint_queues :: "('h, 't) qstore \<Rightarrow> bool" where
  "disjoint_queues qs \<longleftrightarrow>
     (\<forall>h. distinct (qs h)) \<and> (\<forall>h h'. h \<noteq> h' \<longrightarrow> set (qs h) \<inter> set (qs h') = {})"

lemma disjoint_queuesD:
  assumes "disjoint_queues qs" and "t \<in> set (qs h)"
  shows "t \<in> set (qs h') \<longleftrightarrow> h' = h"
  using assms by (auto simp: disjoint_queues_def)

lemma disjoint_queues_distinct: "disjoint_queues qs \<Longrightarrow> distinct (qs h)"
  by (simp add: disjoint_queues_def)

lemma insert_search:
  assumes "disjoint_queues qs"
  shows "QueInsert t (que_search (\<lambda>u. gt u t) h qs) qs = qs(h := insert_by gt t (qs h))"
proof (cases "dropWhile (\<lambda>u. \<not> gt u t) (qs h)")
  case Nil
  then have "insert_by gt t (qs h) = qs h @ [t]"
    by (metis append_Nil2 insert_by_takeWhile takeWhile_dropWhile_id)
  with Nil show ?thesis by (simp add: que_search_def QueInsert_def del: dropWhile_eq_Nil_conv)
next
  case (Cons q zs)
  define ys where "ys = takeWhile (\<lambda>u. \<not> gt u t) (qs h)"
  have split: "qs h = ys @ q # zs" by (metis Cons takeWhile_dropWhile_id ys_def)
  have q: "q \<notin> set ys" "\<And>h'. h' \<noteq> h \<Longrightarrow> q \<notin> set (qs h')"
    using disjoint_queues_distinct [OF assms, of h] disjoint_queuesD [OF assms, of q h]
    by (auto simp: split)
  have "insert_by gt t (qs h) = ys @ t # q # zs"
    by (metis Cons insert_by_takeWhile ys_def)
  moreover have "que_search (\<lambda>u. gt u t) h qs = QEnt q"
    by (simp add: que_search_def Cons)
  ultimately show ?thesis
    using q split by (auto simp: QueInsert_ent insert_before_split)
qed

text \<open>Inserting prior to the first entry puts the entry at the head of the queue.\<close>

lemma insert_next:
  assumes "disjoint_queues qs"
  shows "QueInsert t (que_next h qs) qs = qs(h := t # qs h)"
proof -
  have "que_next h qs = que_search (\<lambda>u. True) h qs"
    by (simp add: que_next_def que_search_def split: list.splits)
  moreover have "insert_by (\<lambda>_ _. True) t (qs h) = t # qs h"
    by (cases "qs h") auto
  ultimately show ?thesis
    using insert_search [OF assms, of t "\<lambda>_ _. True" h] by simp
qed

subsection \<open>The pointer operations implement the list operations\<close>

definition rings :: "('h, 't) qnode qheap \<Rightarrow> ('h, 't) qstore \<Rightarrow> bool" where
  "rings H qs \<longleftrightarrow>
     (\<forall>h. ring H (QHead h) (map QEnt (qs h))) \<and>
     (\<forall>h h'. h \<noteq> h' \<longrightarrow> set (qs h) \<inter> set (qs h') = {})"

lemma rings_ring: "rings H qs \<Longrightarrow> ring H (QHead h) (map QEnt (qs h))"
  by (simp add: rings_def)

lemma rings_disjoint: "rings H qs \<Longrightarrow> disjoint_queues qs"
  by (auto simp: rings_def disjoint_queues_def ring_def distinct_map)

lemma rings_I_one:
  assumes "rings H qs" and "ring H' (QHead h) (map QEnt xs)"
    and "\<And>h' x. h' \<noteq> h \<Longrightarrow> x \<in> set (QHead h' # map QEnt (qs h')) \<Longrightarrow>
           nxt H' x = nxt H x \<and> prv H' x = prv H x"
    and "\<And>h'. h' \<noteq> h \<Longrightarrow> set xs \<inter> set (qs h') = {}"
  shows "rings H' (qs(h := xs))"
  unfolding rings_def
proof (intro conjI allI impI)
  fix h'
  show "ring H' (QHead h') (map QEnt ((qs(h := xs)) h'))"
  proof (cases "h' = h")
    case True
    with assms(2) show ?thesis by simp
  next
    case False
    then have "ring H' (QHead h') (map QEnt (qs h'))"
      using assms(3) by (intro ring_frame [OF rings_ring [OF assms(1), of h']]) blast
    with False show ?thesis by simp
  qed
next
  fix h1 h2 :: 'a
  assume "h1 \<noteq> h2"
  with assms(1,4) show "set ((qs(h := xs)) h1) \<inter> set ((qs(h := xs)) h2) = {}"
    by (auto simp: rings_def)
qed

lemma rings_insert_head:
  assumes r: "rings H qs" and t: "\<not> queued t qs"
  shows "rings (p_QueInsert (QEnt t) (QHead h) H) (QueInsert t (QHead h) qs)"
proof -
  have ring: "ring H (QHead h) (map QEnt (qs h))" using r by (rule rings_ring)
  have "ring (p_QueInsert (QEnt t) (QHead h) H) (QHead h) (map QEnt (qs h) @ [QEnt t])"
    using t by (intro ring_insert_head ring) (auto simp: queued_def)
  moreover have "prv H (QHead h) = last (QHead h # map QEnt (qs h))"
    using ring by (rule ring_prev_head)
  moreover have "last (QHead h # map QEnt (qs h)) \<in> set (QHead h # map QEnt (qs h))"
    by (rule last_in_set) simp
  ultimately have "rings (p_QueInsert (QEnt t) (QHead h) H) (qs(h := qs h @ [t]))"
    using t r
    by (intro rings_I_one [OF r])
       (auto simp: p_QueInsert_links queued_def rings_def simp del: last.simps
             dest: disjoint_queuesD [OF rings_disjoint [OF r], THEN iffD1])
  then show ?thesis by (simp add: QueInsert_def)
qed

lemma rings_insert_entry:
  assumes r: "rings H qs" and t: "\<not> queued t qs" and u: "u \<in> set (qs h)"
  shows "rings (p_QueInsert (QEnt t) (QEnt u) H) (QueInsert t (QEnt u) qs)"
proof -
  obtain ys zs where split: "qs h = ys @ u # zs" using u by (meson split_list)
  have ring: "ring H (QHead h) (map QEnt ys @ QEnt u # map QEnt zs)"
    using rings_ring [OF r, of h] by (simp add: split)
  have dj: "disjoint_queues qs" using r by (rule rings_disjoint)
  then have uys: "u \<notin> set ys" and other: "\<And>h'. h' \<noteq> h \<Longrightarrow> u \<notin> set (qs h')"
    using disjoint_queues_distinct [OF dj, of h] disjoint_queuesD [OF dj u]
    by (auto simp: split)
  have prev: "prv H (QEnt u) = last (QHead h # map QEnt ys)"
    using ring_remove_entry(3) [OF ring] .
  have upd: "QueInsert t (QEnt u) qs = qs(h := ys @ t # u # zs)"
    using uys other by (auto simp: QueInsert_ent split insert_before_split)
  have tu: "t \<noteq> u" using t u by (auto simp: queued_def)
  have "ring (p_QueInsert (QEnt t) (QEnt u) H) (QHead h)
          (map QEnt ys @ QEnt t # QEnt u # map QEnt zs)"
    using t tu arg_cong [OF split, of set]
    by (intro ring_insert_entry ring) (auto simp: queued_def)
  moreover have "last (QHead h # map QEnt ys) \<in> set (QHead h # map QEnt ys)"
    by (rule last_in_set) simp
  ultimately have "rings (p_QueInsert (QEnt t) (QEnt u) H) (qs(h := ys @ t # u # zs))"
    using t r other tu prev
    by (intro rings_I_one [OF r])
       (auto simp: p_QueInsert_links queued_def rings_def split dest: disjoint_queuesD [OF dj]
             simp del: last.simps)
  with upd show ?thesis by simp
qed

lemma rings_remove:
  assumes r: "rings H qs" and t: "t \<in> set (qs h)"
  shows "rings (p_QueRemove (QEnt t) H) (QueRemove t qs)"
proof -
  obtain ys zs where split: "qs h = ys @ t # zs" using t by (meson split_list)
  have ring: "ring H (QHead h) (map QEnt ys @ QEnt t # map QEnt zs)"
    using rings_ring [OF r, of h] by (simp add: split)
  note rm = ring_remove_entry [OF ring]
  have dj: "disjoint_queues qs" using r by (rule rings_disjoint)
  then have d: "t \<notin> set ys" "t \<notin> set zs" and other: "\<And>h'. h' \<noteq> h \<Longrightarrow> t \<notin> set (qs h')"
    using disjoint_queues_distinct [OF dj, of h] disjoint_queuesD [OF dj t]
    by (auto simp: split)
  have upd: "QueRemove t qs = qs(h := ys @ zs)"
    using d other by (auto simp: QueRemove_def split remove1_append)
  have "hd (map QEnt zs @ [QHead h]) \<noteq> QEnt t" "last (QHead h # map QEnt ys) \<noteq> QEnt t"
    using d by (cases zs; cases ys rule: rev_cases; auto)+
  then have links: "nxt (p_QueRemove (QEnt t) H) = (nxt H)(prv H (QEnt t) := nxt H (QEnt t))"
      "prv (p_QueRemove (QEnt t) H) = (prv H)(nxt H (QEnt t) := prv H (QEnt t))"
    unfolding rm(2,3) [symmetric] by (auto intro: p_QueRemove_links)
  have nx: "nxt H (QEnt t) \<in> set (map QEnt zs @ [QHead h])" 
    unfolding rm(2) by (rule hd_in_set) simp
  have pv: "prv H (QEnt t) \<in> set (QHead h # map QEnt ys)"
    unfolding rm(3) by (rule last_in_set) simp
  have "rings (p_QueRemove (QEnt t) H) (qs(h := ys @ zs))"
  proof (rule rings_I_one [OF r])
    show "ring (p_QueRemove (QEnt t) H) (QHead h) (map QEnt (ys @ zs))" using rm(1) by simp
    fix h' assume h': "h' \<noteq> h"
    then have dis: "set (qs h') \<inter> set (qs h) = {}" using dj by (auto simp: disjoint_queues_def)
    then show "set (ys @ zs) \<inter> set (qs h') = {}" by (auto simp: split)
    fix x assume "x \<in> set (QHead h' # map QEnt (qs h'))"
    then have "x \<noteq> prv H (QEnt t)" "x \<noteq> nxt H (QEnt t)"
      using nx pv dis h' by (auto simp: split)
    then show "nxt (p_QueRemove (QEnt t) H) x = nxt H x \<and> prv (p_QueRemove (QEnt t) H) x = prv H x"
      by (simp add: links)
  qed
  with upd show ?thesis by simp
qed

text \<open>Removing an entry that was initialised with \<^verbatim>\<open>QueInit\<close> and never queued does nothing.\<close>

lemma rings_remove_single:
  assumes "\<not> queued t qs" and "nxt H (QEnt t) = QEnt t"
  shows "p_QueRemove (QEnt t) H = H" and "QueRemove t qs = qs"
  using assms by (auto simp: p_QueRemove_def QueRemove_def queued_def)

lemma rings_remove_next:
  assumes r: "rings H qs"
  shows "fst (p_QueRemoveNext (QHead h) H) = map_option QEnt (fst (QueRemoveNext h qs))"
    and "rings (snd (p_QueRemoveNext (QHead h) H)) (snd (QueRemoveNext h qs))"
proof -
  have ring: "ring H (QHead h) (map QEnt (qs h))" using r by (rule rings_ring)
  have "fst (p_QueRemoveNext (QHead h) H) = map_option QEnt (fst (QueRemoveNext h qs)) \<and>
    rings (snd (p_QueRemoveNext (QHead h) H)) (snd (QueRemoveNext h qs))"
  proof (cases "qs h")
    case Nil
    with ring r show ?thesis by (simp add: QueRemoveNext_def p_QueRemoveNext_empty)
  next
    case (Cons t ts)
    have "rings (p_QueRemove (QEnt t) H) (QueRemove t qs)"
      using Cons by (intro rings_remove [OF r, of t h]) simp
    moreover have "QueRemove t qs = qs(h := ts)"
      using disjoint_queuesD [OF rings_disjoint [OF r], of t h] Cons
      by (auto simp: QueRemove_def fun_eq_iff)
    ultimately show ?thesis
      using Cons p_QueRemoveNext_eq [of H "QHead h" "QEnt t" "map QEnt ts"] ring
      by (simp add: QueRemoveNext_def)
  qed
  then show "fst (p_QueRemoveNext (QHead h) H) = map_option QEnt (fst (QueRemoveNext h qs))"
    and "rings (snd (p_QueRemoveNext (QHead h) H)) (snd (QueRemoveNext h qs))" by simp_all
qed

lemma rings_search:
  assumes "rings H qs" and "\<And>t. t \<in> set (qs h) \<Longrightarrow> hit (QEnt t) = hit' t"
  shows "p_QueSearch H hit (QHead h) (QHead h) = Some (que_search hit' h qs)"
proof -
  have "dropWhile (\<lambda>x. \<not> hit x) (map QEnt (qs h)) = map QEnt (dropWhile (\<lambda>t. \<not> hit' t) (qs h))"
    using assms(2) by (simp add: dropWhile_map o_def cong: dropWhile_cong)
  then show ?thesis
    using p_QueSearch_ring [OF rings_ring [OF assms(1), of h], of hit]
    by (cases "dropWhile (\<lambda>t. \<not> hit' t) (qs h)")
       (simp_all add: que_search_def del: dropWhile_eq_Nil_conv)
qed

subsection \<open>The interface of a queue implementation\<close>

text \<open>
  A run of queue operations, as the kernel issues them. An operation is valid where the code's
  callers may issue it: an entry is inserted only while it is on no queue, prior to a head or to
  a queued entry, and removed only while it is queued.
\<close>

datatype ('h, 't) qop =
  OpInsert 't "('h, 't) qnode"
| OpRemove 't
| OpRemoveNext 'h

fun valid_qop :: "('h, 't) qop \<Rightarrow> ('h, 't) qstore \<Rightarrow> bool" where
  "valid_qop (OpInsert t (QHead h)) qs \<longleftrightarrow> \<not> queued t qs"
| "valid_qop (OpInsert t (QEnt u)) qs \<longleftrightarrow> \<not> queued t qs \<and> queued u qs"
| "valid_qop (OpRemove t) qs \<longleftrightarrow> queued t qs"
| "valid_qop (OpRemoveNext h) qs \<longleftrightarrow> True"

fun list_qop :: "('h, 't) qop \<Rightarrow> ('h, 't) qstore \<Rightarrow> ('h, 't) qstore" where
  "list_qop (OpInsert t n) qs = QueInsert t n qs"
| "list_qop (OpRemove t) qs = QueRemove t qs"
| "list_qop (OpRemoveNext h) qs = snd (QueRemoveNext h qs)"

fun ptr_qop :: "('h, 't) qop \<Rightarrow> ('h, 't) qnode qheap \<Rightarrow> ('h, 't) qnode qheap" where
  "ptr_qop (OpInsert t n) H = p_QueInsert (QEnt t) n H"
| "ptr_qop (OpRemove t) H = p_QueRemove (QEnt t) H"
| "ptr_qop (OpRemoveNext h) H = snd (p_QueRemoveNext (QHead h) H)"

fun valid_run :: "('h, 't) qop list \<Rightarrow> ('h, 't) qstore \<Rightarrow> bool" where
  "valid_run [] qs \<longleftrightarrow> True"
| "valid_run (c # cs) qs \<longleftrightarrow> valid_qop c qs \<and> valid_run cs (list_qop c qs)"

locale queue_impl =
  fixes R :: "'heap \<Rightarrow> ('h, 't) qstore \<Rightarrow> bool"
    and exec :: "('h, 't) qop \<Rightarrow> 'heap \<Rightarrow> 'heap"
    and is_empty :: "'h \<Rightarrow> 'heap \<Rightarrow> bool"
    and first :: "'h \<Rightarrow> 'heap \<Rightarrow> ('h, 't) qnode"
  assumes exec: "R H qs \<Longrightarrow> valid_qop c qs \<Longrightarrow> R (exec c H) (list_qop c qs)"
    and is_empty: "R H qs \<Longrightarrow> is_empty h H \<longleftrightarrow> qs h = []"
    and first: "R H qs \<Longrightarrow> first h H = que_next h qs"
begin

lemma run:
  "R H qs \<Longrightarrow> valid_run cs qs \<Longrightarrow> R (fold exec cs H) (fold list_qop cs qs)"
  by (induction cs arbitrary: H qs) (auto intro: exec)

lemma run_is_empty:
  "R H qs \<Longrightarrow> valid_run cs qs \<Longrightarrow> is_empty h (fold exec cs H) \<longleftrightarrow> fold list_qop cs qs h = []"
  by (rule is_empty [OF run])

lemma run_first:
  "R H qs \<Longrightarrow> valid_run cs qs \<Longrightarrow> first h (fold exec cs H) = que_next h (fold list_qop cs qs)"
  by (rule first [OF run])

end

lemma rings_exec:
  assumes r: "rings H qs" and v: "valid_qop c qs"
  shows "rings (ptr_qop c H) (list_qop c qs)"
proof (cases c)
  case (OpInsert t n)
  with r v show ?thesis
    by (cases n) (auto simp: queued_def intro: rings_insert_head rings_insert_entry)
next
  case (OpRemove t)
  with r v show ?thesis by (auto simp: queued_def intro: rings_remove)
next
  case (OpRemoveNext h)
  with rings_remove_next [OF r] show ?thesis by simp
qed

lemma rings_first: "rings H qs \<Longrightarrow> nxt H (QHead h) = que_next h qs"
  by (cases "qs h") (auto simp: que_next_def dest!: rings_ring [of _ _ h] ring_next_head)

interpretation ring_queue: queue_impl rings ptr_qop "\<lambda>h. p_isQueEmpty (QHead h)" "\<lambda>h H. nxt H (QHead h)"
proof unfold_locales
  fix H :: "('a, 'b) qnode qheap" and qs :: "('a, 'b) qstore" and c h
  assume r: "rings H qs"
  show "rings (ptr_qop c H) (list_qop c qs)" if "valid_qop c qs" using r that by (rule rings_exec)
  show "p_isQueEmpty (QHead h) H \<longleftrightarrow> qs h = []"
    using ring_empty_iff [OF rings_ring [OF r, of h]] by simp
  show "nxt H (QHead h) = que_next h qs" using r by (rule rings_first)
qed

text \<open>A heap in which every node is initialised represents the store of empty queues.\<close>

definition fresh_heap :: "'a qheap" where
  "fresh_heap = \<lparr>nxt = (\<lambda>x. x), prv = (\<lambda>x. x)\<rparr>"

lemma rings_fresh: "rings fresh_heap (\<lambda>_. [])"
  by (simp add: rings_def ring_def fresh_heap_def)

text \<open>
  The whole run: a heap of initialised nodes, any number of queue calls, each issued where it may
  be, and then the questions a caller can ask of any queue.
\<close>

definition run_heap :: "('h, 't) qop list \<Rightarrow> ('h, 't) qnode qheap" where
  "run_heap cs = fold ptr_qop cs fresh_heap"

definition run_lists :: "('h, 't) qop list \<Rightarrow> ('h, 't) qstore" where
  "run_lists cs = fold list_qop cs (\<lambda>_. [])"

lemma run_rings: "valid_run cs (\<lambda>_. []) \<Longrightarrow> rings (run_heap cs) (run_lists cs)"
  unfolding run_heap_def run_lists_def by (rule ring_queue.run [OF rings_fresh])

text \<open>Walking the links backwards ends at the head as well and meets the last hit first.\<close>

lemma rings_search_rev:
  assumes "rings H qs" and "\<And>t. t \<in> set (qs h) \<Longrightarrow> hit (QEnt t) = hit' t"
  shows "p_QueSearchRev H hit (QHead h) (QHead h) =
    Some (case dropWhile (\<lambda>t. \<not> hit' t) (rev (qs h)) of [] \<Rightarrow> QHead h | t # _ \<Rightarrow> QEnt t)"
proof -
  have "dropWhile (\<lambda>x. \<not> hit x) (rev (map QEnt (qs h))) =
      map QEnt (dropWhile (\<lambda>t. \<not> hit' t) (rev (qs h)))"
    unfolding rev_map dropWhile_map o_def
    by (rule arg_cong [where f = "map QEnt"], rule dropWhile_cong) (use assms(2) in auto)
  then show ?thesis
    using p_QueSearchRev_ring [OF rings_ring [OF assms(1), of h], of hit]
    by (cases "dropWhile (\<lambda>t. \<not> hit' t) (rev (qs h))")
       (simp_all del: dropWhile_eq_Nil_conv)
qed

text \<open>
  C26: The linked queues implement lists: after any valid run of insertions (at the end or prior to
  an entry) and removals on any number of queues, every queue is empty exactly when its list is,
  the next entry is the first of the list, \<^verbatim>\<open>QueRemoveNext\<close> takes that one, and both searches end,
  at the first or last entry that matches, or at the head when there is none.
\<close>

theorem queue_calls_refine:
  assumes "valid_run cs (\<lambda>_. [])"
  shows "(p_isQueEmpty (QHead h) (run_heap cs) \<longleftrightarrow> isQueEmpty h (run_lists cs)) \<and>
    nxt (run_heap cs) (QHead h) = que_next h (run_lists cs) \<and>
    fst (p_QueRemoveNext (QHead h) (run_heap cs)) =
      map_option QEnt (fst (QueRemoveNext h (run_lists cs))) \<and>
    p_QueSearch (run_heap cs) (case_qnode (\<lambda>_. False) hit) (QHead h) (QHead h) =
      Some (que_search hit h (run_lists cs)) \<and>
    p_QueSearchRev (run_heap cs) (case_qnode (\<lambda>_. False) hit) (QHead h) (QHead h) =
      Some (case dropWhile (\<lambda>t. \<not> hit t) (rev (run_lists cs h)) of [] \<Rightarrow> QHead h | t # _ \<Rightarrow> QEnt t)"
proof -
  note r = run_rings [OF assms]
  show ?thesis
    using ring_queue.is_empty [OF r] ring_queue.first [OF r] rings_remove_next(1) [OF r]
      rings_search [OF r, of h "case_qnode (\<lambda>_. False) hit" hit]
      rings_search_rev [OF r, of h "case_qnode (\<lambda>_. False) hit" hit]
    by (simp add: isQueEmpty_def)
qed

theorem queue_calls_refine_witness:
  "valid_run [OpInsert (1::nat) (QHead False), OpInsert 2 (QHead False), OpInsert 3 (QEnt 2),
              OpInsert 4 (QHead True), OpRemove 1] (\<lambda>_. []) \<and>
   run_lists [OpInsert (1::nat) (QHead False), OpInsert 2 (QHead False), OpInsert 3 (QEnt 2),
              OpInsert 4 (QHead True), OpRemove 1] False = [3, 2] \<and>
   p_QueSearch (run_heap [OpInsert (1::nat) (QHead False), OpInsert 2 (QHead False),
              OpInsert 3 (QEnt 2), OpInsert 4 (QHead True), OpRemove 1])
     (case_qnode (\<lambda>_. False) even) (QHead False) (QHead False) = Some (QEnt 2)"
proof -
  let ?cs = "[OpInsert (1::nat) (QHead False), OpInsert 2 (QHead False), OpInsert 3 (QEnt 2),
              OpInsert 4 (QHead True), OpRemove 1]"
  have v: "valid_run ?cs (\<lambda>_. [])" and l: "run_lists ?cs False = [3, 2]"
    by (auto simp: run_lists_def queued_def QueInsert_ent QueRemove_apply intro: exI [of _ False])
  show ?thesis
    using v l queue_calls_refine [OF v, of False even] by (simp add: que_search_def)
qed

end
