(* ===== verification/Bitop.thy ===== *)
theory Bitop
  imports Prelude
begin

text \<open>
  The bit operations of \<^verbatim>\<open>lib/libsys/src\<close> that the ready queue and the resource groups use,
  for the little-endian target (\<^verbatim>\<open>BIGENDIAN\<close> is 0 in \<^verbatim>\<open>machine_depend.h\<close>). An array is the byte
  memory from its base; \<open>word_at\<close> is the 32-bit read the search makes. The main lemma states that
  the word-wise binary search finds the first set bit of a range, and nothing else.
\<close>

type_synonym bytes = "nat \<Rightarrow> UB"

definition BitSet :: "bytes \<Rightarrow> nat \<Rightarrow> bytes" where
  "BitSet base offset =
     base(drop_bit 3 offset := base (drop_bit 3 offset) OR push_bit (offset AND 7) 0x01)"

definition BitClr :: "bytes \<Rightarrow> nat \<Rightarrow> bytes" where
  "BitClr base offset =
     base(drop_bit 3 offset := base (drop_bit 3 offset) AND NOT (push_bit (offset AND 7) 0x01))"

definition word_at :: "bytes \<Rightarrow> nat \<Rightarrow> UW" where
  "word_at base i =
     ucast (base (4 * i)) OR push_bit 8 (ucast (base (4 * i + 1)))
       OR push_bit 16 (ucast (base (4 * i + 2))) OR push_bit 24 (ucast (base (4 * i + 3)))"

text \<open>The bit at a position of the array, which is what callers mean by it.\<close>

definition bit_at :: "bytes \<Rightarrow> nat \<Rightarrow> bool" where
  "bit_at base n = bit (base (n div 8)) (n mod 8)"

lemma and_7_mod_8: "(n::nat) AND 7 = n mod 8"
  using take_bit_eq_mask [of 3 n] by (simp add: take_bit_eq_mod mask_eq_exp_minus_1)

lemma and_31_mod_32: "(n::nat) AND 31 = n mod 32"
  using take_bit_eq_mask [of 5 n] by (simp add: take_bit_eq_mod mask_eq_exp_minus_1)

lemma drop_bit_3_div_8: "drop_bit 3 (n::nat) = n div 8"
  by (simp add: drop_bit_eq_div)

lemma bit_at_BitSet [simp]: "bit_at (BitSet base n) m \<longleftrightarrow> m = n \<or> bit_at base m"
proof -
  have "m div 8 = n div 8 \<Longrightarrow> m mod 8 = n mod 8 \<longleftrightarrow> m = n"
    by (metis div_mult_mod_eq)
  then show ?thesis
    by (auto simp: bit_at_def BitSet_def bit_or_iff bit_exp_iff
        and_7_mod_8 drop_bit_3_div_8)
qed

lemma bit_at_BitClr [simp]: "bit_at (BitClr base n) m \<longleftrightarrow> m \<noteq> n \<and> bit_at base m"
proof -
  have "m div 8 = n div 8 \<Longrightarrow> m mod 8 = n mod 8 \<longleftrightarrow> m = n"
    by (metis div_mult_mod_eq)
  then show ?thesis
    by (auto simp: bit_at_def BitClr_def bit_and_iff bit_not_iff bit_exp_iff
        and_7_mod_8 drop_bit_3_div_8)
qed

lemma bit_word_at: "n < 32 \<Longrightarrow> bit (word_at base i) n = bit_at base (32 * i + n)"
proof -
  assume n: "n < 32"
  have byte: "\<And>b. \<not> bit (b :: UB) m" if "8 \<le> m" for m
    using that by (simp add: bit_word.rep_eq bit_take_bit_iff)
  have pos: "(32 * i + n) div 8 = 4 * i + n div 8" "(32 * i + n) mod 8 = n mod 8"
    using div_mult_self4 [of 8 "4 * i" n] mod_mult_self4 [of 8 "4 * i" n] by simp_all
  consider "n < 8" | "8 \<le> n" "n < 16" | "16 \<le> n" "n < 24" | "24 \<le> n" by linarith
  then show ?thesis
  proof cases
    case 1
    then have "n div 8 = 0" "n mod 8 = n" by simp_all
    with 1 show ?thesis
      by (simp add: pos word_at_def bit_at_def bit_or_iff bit_push_bit_iff bit_ucast_iff)
  next
    case 2
    then have "n div 8 = 1" by (intro div_nat_eqI) simp_all
    moreover from this have "n mod 8 = n - 8" using minus_mult_div_eq_mod [of n 8] by simp
    ultimately show ?thesis using 2
      by (auto simp add: pos word_at_def bit_at_def bit_or_iff bit_push_bit_iff bit_ucast_iff byte)
  next
    case 3
    then have "n div 8 = 2" by (intro div_nat_eqI) simp_all
    moreover from this have "n mod 8 = n - 16" using minus_mult_div_eq_mod [of n 8] by simp
    ultimately show ?thesis using 3
      by (auto simp add: pos word_at_def bit_at_def bit_or_iff bit_push_bit_iff bit_ucast_iff byte)
  next
    case 4
    with n have "n div 8 = 3" by (intro div_nat_eqI) simp_all
    moreover from this have "n mod 8 = n - 24" using minus_mult_div_eq_mod [of n 8] by simp
    ultimately show ?thesis using 4 n
      by (auto simp add: pos word_at_def bit_at_def bit_or_iff bit_push_bit_iff bit_ucast_iff byte)
  qed
qed

subsection \<open>The word-aligned search\<close>

text \<open>
  The binary search for the lowest bit of a non-zero word (\<^verbatim>\<open>bitsearch1.c\<close>, lines 70--88): each
  stage drops a half whose bits are all clear and moves the position on.
\<close>

definition bs1_stage :: "UW \<Rightarrow> nat \<Rightarrow> UW \<times> int \<Rightarrow> UW \<times> int" where
  "bs1_stage m k = (\<lambda>(v, position). if v AND m = 0 then (drop_bit k v, position + int k) else (v, position))"

definition bs1_word :: "UW \<Rightarrow> int \<Rightarrow> int" where
  "bs1_word v position =
     (let (v, position) = bs1_stage 0xffff 16 (v, position);
          (v, position) = bs1_stage 0xff 8 (v, position);
          (v, position) = bs1_stage 0xf 4 (v, position);
          (v, position) = bs1_stage 0x3 2 (v, position)
      in if v AND 0x1 = 0 then position + 1 else position)"

function bs1_loop :: "bytes \<Rightarrow> nat \<Rightarrow> int \<Rightarrow> nat \<Rightarrow> UW \<Rightarrow> int \<Rightarrow> int" where
  "bs1_loop base offset width cp v position =
     (if position < width then
        if v \<noteq> 0 then
          let position = (if position = 0 then position - int (offset AND 31) else position);
              position = bs1_word v position
          in if position < width then position else -1
        else
          bs1_loop base offset width (cp + 1) (word_at base (cp + 1))
            (if position \<noteq> 0 then position + 32 else 32 - int (offset AND 31))
      else -1)"
  by pat_completeness auto
termination
  by (relation "measure (\<lambda>(base, offset, width, cp, v, position). nat (width - position))")
     (auto simp: and_31_mod_32 simp flip: zless_nat_conj)

declare bs1_loop.simps [simp del]

definition BitSearch1_w :: "bytes \<Rightarrow> nat \<Rightarrow> int \<Rightarrow> int" where
  "BitSearch1_w base offset width =
     (let cp = offset div 32;
          v = (if offset AND 31 \<noteq> 0
               then word_at base cp AND NOT (push_bit (offset AND 31) 1 - 1)
               else word_at base cp)
      in bs1_loop base offset width cp v 0)"

subsection \<open>The search finds the first set bit\<close>

definition low_bit :: "UW \<Rightarrow> nat" where
  "low_bit v = (LEAST i. bit v i)"

lemma word_neq_0_iff: "(v :: UW) \<noteq> 0 \<longleftrightarrow> (\<exists>i. bit v i)"
  using bit_imp_le_length [of v] by (auto simp: bit_eq_iff)

lemma low_bit: "v \<noteq> 0 \<Longrightarrow> bit v (low_bit v)"
  unfolding low_bit_def word_neq_0_iff by (rule LeastI_ex)

lemma low_bit_le: "bit v i \<Longrightarrow> low_bit v \<le> i"
  unfolding low_bit_def by (rule Least_le)

lemma low_bit_not: "i < low_bit v \<Longrightarrow> \<not> bit v i"
  using low_bit_le by fastforce

lemma low_bit_eqI: "bit v i \<Longrightarrow> (\<And>j. j < i \<Longrightarrow> \<not> bit v j) \<Longrightarrow> low_bit v = i"
  by (metis low_bit low_bit_le low_bit_not not_less_iff_gr_or_eq order_le_less word_neq_0_iff)

lemma low_bit_less_32: "v \<noteq> 0 \<Longrightarrow> low_bit v < 32"
  using bit_imp_le_length [OF low_bit, of v] by simp

lemma and_mask_eq_0_iff:
  assumes "k \<le> 32"
  shows "v AND mask k = (0 :: UW) \<longleftrightarrow> (\<forall>i < k. \<not> bit v i)"
  using assms bit_imp_le_length [of v] by (auto simp: bit_eq_iff bit_and_iff bit_mask_iff)

lemma bs1_stage:
  assumes v: "v \<noteq> 0" and k: "low_bit v < 2 * k" "k \<le> 16"
    and st: "bs1_stage (mask k) k (v, pos) = (v', pos')"
  shows "v' \<noteq> 0 \<and> low_bit v' < k \<and> pos' + int (low_bit v') = pos + int (low_bit v)"
proof (cases "v AND mask k = 0")
  case True
  then have low: "\<forall>i < k. \<not> bit v i" using k(2) by (simp add: and_mask_eq_0_iff)
  then have ge: "k \<le> low_bit v" using low_bit [OF v] by (meson not_le)
  have v': "v' = drop_bit k v" "pos' = pos + int k"
    using st True by (auto simp: bs1_stage_def)
  have lv: "low_bit v' = low_bit v - k"
    unfolding v'(1) using ge low_bit [OF v] low_bit_not [of _ v]
    by (intro low_bit_eqI) (auto simp: bit_drop_bit_eq)
  have "bit v' (low_bit v - k)"
    unfolding v'(1) using ge low_bit [OF v] by (simp add: bit_drop_bit_eq)
  then have "v' \<noteq> 0" by (auto simp: word_neq_0_iff)
  with lv v' ge k show ?thesis by auto
next
  case False
  then obtain i where "i < k" "bit v i" using k(2) by (auto simp: and_mask_eq_0_iff)
  then have "low_bit v < k" using low_bit_le by (meson le_less_trans)
  with False v st show ?thesis by (auto simp: bs1_stage_def)
qed

lemma bs1_word:
  assumes "v \<noteq> 0"
  shows "bs1_word v pos = pos + int (low_bit v)"
proof -
  have masks: "mask 16 = (0xffff :: UW)" "mask 8 = (0xff :: UW)" "mask 4 = (0xf :: UW)"
    "mask 2 = (0x3 :: UW)" by (simp_all add: mask_eq_exp_minus_1)
  obtain v1 p1 where s1: "bs1_stage 0xffff 16 (v, pos) = (v1, p1)" by fastforce
  obtain v2 p2 where s2: "bs1_stage 0xff 8 (v1, p1) = (v2, p2)" by fastforce
  obtain v3 p3 where s3: "bs1_stage 0xf 4 (v2, p2) = (v3, p3)" by fastforce
  obtain v4 p4 where s4: "bs1_stage 0x3 2 (v3, p3) = (v4, p4)" by fastforce
  have r1: "v1 \<noteq> 0 \<and> low_bit v1 < 16 \<and> p1 + int (low_bit v1) = pos + int (low_bit v)"
    using bs1_stage [of v 16 pos v1 p1] s1 assms low_bit_less_32 [OF assms] by (simp add: masks)
  then have r2: "v2 \<noteq> 0 \<and> low_bit v2 < 8 \<and> p2 + int (low_bit v2) = pos + int (low_bit v)"
    using bs1_stage [of v1 8 p1 v2 p2] s2 by (simp add: masks)
  then have r3: "v3 \<noteq> 0 \<and> low_bit v3 < 4 \<and> p3 + int (low_bit v3) = pos + int (low_bit v)"
    using bs1_stage [of v2 4 p2 v3 p3] s3 by (simp add: masks)
  then have r4: "v4 \<noteq> 0 \<and> low_bit v4 < 2 \<and> p4 + int (low_bit v4) = pos + int (low_bit v)"
    using bs1_stage [of v3 2 p3 v4 p4] s4 by (simp add: masks)
  have "v4 AND 1 = 0 \<longleftrightarrow> \<not> bit v4 0" by (simp add: bit_0 and_one_eq odd_iff_mod_2_eq_one)
  then have "(if v4 AND 1 = 0 then p4 + 1 else p4) = p4 + int (low_bit v4)"
    using r4 low_bit [of v4] low_bit_le [of v4 0] by (auto simp: less_2_cases_iff)
  with r4 show ?thesis
    by (simp add: bs1_word_def s1 s2 s3 s4)
qed

text \<open>
  What the search answers from position \<open>p\<close> on: the position of the first set bit below the width,
  or \<open>-1\<close> when the range is clear.
\<close>

definition first_bit :: "bytes \<Rightarrow> nat \<Rightarrow> nat \<Rightarrow> int \<Rightarrow> int \<Rightarrow> bool" where
  "first_bit base offset p width r \<longleftrightarrow>
     (if r = -1 then \<forall>i. p \<le> i \<and> int i < width \<longrightarrow> \<not> bit_at base (offset + i)
      else \<exists>j. r = int j \<and> p \<le> j \<and> r < width \<and> bit_at base (offset + j) \<and>
             (\<forall>i. p \<le> i \<and> i < j \<longrightarrow> \<not> bit_at base (offset + i)))"

lemma first_bit_found:
  assumes "bit_at base (offset + j)" and "p \<le> j"
    and "\<And>i. p \<le> i \<Longrightarrow> i < j \<Longrightarrow> \<not> bit_at base (offset + i)"
  shows "first_bit base offset p width (if int j < width then int j else -1)"
proof (cases "int j < width")
  case True
  with assms show ?thesis by (simp add: first_bit_def)
next
  case False
  then have "i < j" if "int i < width" for i using that by simp
  with False assms(3) show ?thesis by (simp add: first_bit_def)
qed

lemma first_bit_skip:
  assumes "first_bit base offset q width r" and "p \<le> q"
    and clear: "\<And>i. p \<le> i \<Longrightarrow> i < q \<Longrightarrow> \<not> bit_at base (offset + i)"
  shows "first_bit base offset p width r"
proof -
  have skip: "q \<le> i" if "p \<le> i" "bit_at base (offset + i)" for i
    using clear [of i] that by (meson not_le)
  show ?thesis
  proof (cases "r = -1")
    case True
    with assms(1) skip show ?thesis by (auto simp: first_bit_def)
  next
    case False
    with assms(1) obtain j where j: "r = int j \<and> q \<le> j \<and> r < width \<and> bit_at base (offset + j) \<and>
      (\<forall>i. q \<le> i \<and> i < j \<longrightarrow> \<not> bit_at base (offset + i))"
      unfolding first_bit_def if_not_P [OF False] by blast
    then have "\<forall>i. p \<le> i \<and> i < j \<longrightarrow> \<not> bit_at base (offset + i)"
      using skip by blast
    with j assms(2) show ?thesis
      unfolding first_bit_def if_not_P [OF False] by (intro exI [of _ j]) auto
  qed
qed

lemma bs1_loop_first_bit:
  assumes "0 < p" and "offset + p = 32 * cp"
  shows "first_bit base offset p width (bs1_loop base offset width cp (word_at base cp) (int p))"
  using assms
proof (induction "nat (width - int p)" arbitrary: p cp rule: less_induct)
  case less
  let ?v = "word_at base cp"
  have bit: "bit ?v n \<longleftrightarrow> bit_at base (offset + (p + n))" if "n < 32" for n
    using bit_word_at [OF that, of base cp] less.prems(2) by (simp add: add.assoc [symmetric])
  show ?case
  proof (cases "int p < width")
    case False
    then show ?thesis by (auto simp: bs1_loop.simps [of _ _ _ cp] first_bit_def)
  next
    case True
    show ?thesis
    proof (cases "?v = 0")
      case False
      have "bs1_loop base offset width cp ?v (int p) =
          (if int p + int (low_bit ?v) < width then int p + int (low_bit ?v) else -1)"
        using True False less.prems(1) by (simp add: bs1_loop.simps [of _ _ _ cp] bs1_word Let_def)
      moreover have "bit_at base (offset + (p + low_bit ?v))"
        using bit [OF low_bit_less_32 [OF False]] low_bit [OF False] by simp
      moreover have "\<not> bit_at base (offset + i)" if "p \<le> i" "i < p + low_bit ?v" for i
        using bit [of "i - p"] low_bit_not [of "i - p" ?v] low_bit_less_32 [OF False] that by simp
      ultimately show ?thesis
        using first_bit_found [of base offset "p + low_bit ?v" p width] by (simp cong: if_cong)
    next
      case v: True
      have clear: "\<not> bit_at base (offset + i)" if "p \<le> i" "i < p + 32" for i
        using bit [of "i - p"] v that by simp
      have "first_bit base offset (p + 32) width
          (bs1_loop base offset width (cp + 1) (word_at base (cp + 1)) (int (p + 32)))"
        using less.prems True by (intro less.hyps) auto
      moreover have "bs1_loop base offset width cp ?v (int p) =
          bs1_loop base offset width (cp + 1) (word_at base (cp + 1)) (int (p + 32))"
        using True v less.prems(1) by (simp add: bs1_loop.simps [of _ _ _ cp])
      ultimately show ?thesis
        using clear by (auto intro: first_bit_skip [where q = "p + 32"])
    qed
  qed
qed

theorem BitSearch1_w_first_bit:
  "first_bit base offset 0 width (BitSearch1_w base offset width)"
proof -
  let ?o = "offset mod 32" and ?cp = "offset div 32"
  define v where "v = (if offset AND 31 \<noteq> 0
    then word_at base ?cp AND NOT (push_bit (offset AND 31) 1 - 1) else word_at base ?cp)"
  have res: "BitSearch1_w base offset width = bs1_loop base offset width ?cp v 0"
    by (simp add: BitSearch1_w_def v_def Let_def)
  have "push_bit (offset AND 31) 1 - 1 = (mask ?o :: UW)"
    by (simp add: and_31_mod_32 mask_eq_exp_minus_1)
  then have v: "v = word_at base ?cp AND NOT (mask ?o)"
    by (auto simp: v_def and_31_mod_32)
  have vbit: "bit v n \<longleftrightarrow> ?o \<le> n \<and> bit_at base (offset + (n - ?o))" if "n < 32" for n
  proof (cases "?o \<le> n")
    case True
    then have "32 * ?cp + n = offset + (n - ?o)" using mult_div_mod_eq [of 32 offset] by linarith
    with True that bit_word_at [OF that, of base ?cp] show ?thesis
      by (simp add: v bit_and_iff bit_not_iff bit_mask_iff)
  next
    case False
    then show ?thesis using that by (simp add: v bit_and_iff bit_not_iff bit_mask_iff)
  qed
  have ob: "?o < 32" by simp
  show ?thesis
  proof (cases "0 < width")
    case False
    then show ?thesis by (simp add: res bs1_loop.simps [of _ _ _ ?cp] first_bit_def)
  next
    case True
    show ?thesis
    proof (cases "v = 0")
      case False
      let ?l = "low_bit v"
      have l: "?o \<le> ?l" "bit_at base (offset + (?l - ?o))"
        using vbit [OF low_bit_less_32 [OF False]] low_bit [OF False] by auto
      have "BitSearch1_w base offset width =
          (if int ?l - int ?o < width then int ?l - int ?o else -1)"
        using True False by (simp add: res bs1_loop.simps [of _ _ _ ?cp] bs1_word Let_def and_31_mod_32)
      moreover have "\<not> bit_at base (offset + i)" if "i < ?l - ?o" for i
        using vbit [of "?o + i"] low_bit_not [of "?o + i" v] low_bit_less_32 [OF False] that by auto
      ultimately show ?thesis
        using l first_bit_found [of base offset "?l - ?o" 0 width]
        by (simp add: of_nat_diff cong: if_cong)
    next
      case v0: True
      have clear: "\<not> bit_at base (offset + i)" if "i < 32 - ?o" for i
        using vbit [of "?o + i"] v0 that by auto
      have "offset + (32 - ?o) = 32 * (?cp + 1)" using ob by presburger
      then have "first_bit base offset (32 - ?o) width
          (bs1_loop base offset width (?cp + 1) (word_at base (?cp + 1)) (int (32 - ?o)))"
        by (intro bs1_loop_first_bit) simp_all
      moreover have "BitSearch1_w base offset width =
          bs1_loop base offset width (?cp + 1) (word_at base (?cp + 1)) (int (32 - ?o))"
        using True v0
        by (simp add: res bs1_loop.simps [of _ _ _ ?cp] and_31_mod_32 of_nat_diff)
      ultimately show ?thesis
        using clear by (auto intro: first_bit_skip [where q = "32 - ?o"])
    qed
  qed
qed

lemma first_bit_find:
  assumes "first_bit base offset 0 width r"
  shows "r = (case find (\<lambda>i. bit_at base (offset + i)) [0..<nat width] of None \<Rightarrow> -1 | Some i \<Rightarrow> int i)"
proof (cases "find (\<lambda>i. bit_at base (offset + i)) [0..<nat width]")
  case None
  then have "\<not> bit_at base (offset + i)" if "int i < width" for i using that by (auto simp: find_None_iff)
  then have "r = -1" using assms by (auto simp: first_bit_def split: if_splits)
  with None show ?thesis by simp
next
  case (Some i)
  then have i: "int i < width" "bit_at base (offset + i)" "\<And>j. j < i \<Longrightarrow> \<not> bit_at base (offset + j)"
    by (auto simp: find_Some_iff)
  have "r = int i"
  proof (cases "r = -1")
    case True then show ?thesis using assms i by (auto simp: first_bit_def)
  next
    case False
    then obtain j where j: "r = int j" "bit_at base (offset + j)" "\<And>m. m < j \<Longrightarrow> \<not> bit_at base (offset + m)"
      using assms by (auto simp: first_bit_def)
    have "j = i" using i(2,3) j(2,3) by (metis nat_neq_iff)
    with j show ?thesis by simp
  qed
  with Some show ?thesis by simp
qed

text \<open>
  C27: The search agrees with the reference that looks at one bit after the other: it gives the
  smallest offset below the width whose bit is set, and -1 where no bit of the range is set; the
  range may start inside a word, end inside another and be empty.
\<close>

theorem BitSearch1_w_reference:
  "BitSearch1_w base offset width =
     (case find (\<lambda>i. bit_at base (offset + i)) [0..<nat width] of None \<Rightarrow> -1 | Some i \<Rightarrow> int i)"
  by (rule first_bit_find [OF BitSearch1_w_first_bit])

end
