(* ===== verification/Kernel_State.thy ===== *)
theory Kernel_State
  imports Queue Bitop
begin

text \<open>
  The data of T-Kernel/OS (\<^verbatim>\<open>kernel/tkernel/src\<close>): task control block, control blocks of the
  synchronisation objects, timer event blocks, the global variables of the kernel, and the checks
  of \<^verbatim>\<open>config.h\<close>, \<^verbatim>\<open>check.h\<close> and \<^verbatim>\<open>cpu_status.h\<close>.

  A pointer to a control block is its index in its table (\<open>tid\<close> for a TCB); a pointer that may be
  \<^verbatim>\<open>NULL\<close> is an \<open>option\<close>. The \<^verbatim>\<open>QUEUE\<close> heads of all control blocks and of the ready queue live in
  one store \<open>que\<close>, addressed by \<open>qhead\<close>, whose operations are those of theory Queue. Variables that
  a waiting task's system call keeps on its stack and that others write through a pointer
  (\<^verbatim>\<open>*tcb->wercd\<close>) are fields of the TCB; the user's variables behind \<^verbatim>\<open>p_flgptn\<close> and
  \<^verbatim>\<open>ppk_msg\<close> are cells of \<open>mem_uint\<close> and \<open>mem_ptr\<close>, sizes that are returned through pointers cells of
  \<open>mem_int\<close>, and the bytes of messages that are copied cells of \<open>mem_byte\<close>.
\<close>

type_synonym tid = nat

subsection \<open>Task states and wait factors\<close>

datatype tstat = TS_NONEXIST | TS_READY | TS_WAIT | TS_SUSPEND | TS_WAITSUS | TS_DORMANT

fun tstat_code :: "tstat \<Rightarrow> UW" where
  "tstat_code TS_NONEXIST = 0"
| "tstat_code TS_READY = 1"
| "tstat_code TS_WAIT = 2"
| "tstat_code TS_SUSPEND = 4"
| "tstat_code TS_WAITSUS = 6"
| "tstat_code TS_DORMANT = 8"

definition task_alive :: "tstat \<Rightarrow> bool" where
  "task_alive s = (tstat_code s AND (tstat_code TS_READY OR tstat_code TS_WAIT OR tstat_code TS_SUSPEND) \<noteq> 0)"

text \<open>\<^verbatim>\<open>state & TS_WAIT\<close>\<close>

definition ts_wait :: "tstat \<Rightarrow> bool" where
  "ts_wait s = (tstat_code s AND tstat_code TS_WAIT \<noteq> 0)"

lemma task_alive_simps [simp]:
  "task_alive TS_NONEXIST = False" "task_alive TS_READY = True" "task_alive TS_WAIT = True"
  "task_alive TS_SUSPEND = True" "task_alive TS_WAITSUS = True" "task_alive TS_DORMANT = False"
  by (simp_all add: task_alive_def)

lemma ts_wait_simps [simp]:
  "ts_wait TS_NONEXIST = False" "ts_wait TS_READY = False" "ts_wait TS_WAIT = True"
  "ts_wait TS_SUSPEND = False" "ts_wait TS_WAITSUS = True" "ts_wait TS_DORMANT = False"
  by (simp_all add: ts_wait_def)

lemma ts_wait_iff: "ts_wait s \<longleftrightarrow> s = TS_WAIT \<or> s = TS_WAITSUS"
  by (cases s) auto

text \<open>
  The wait specifications (\<^verbatim>\<open>WSPEC\<close>): one constructor per static object of the sources, and
  \<open>WSPEC_TEV\<close> for the local object that \<^verbatim>\<open>_tk_wai_tev_u\<close> builds with its own wait factor.
\<close>

datatype wspec =
  WSPEC_SLP | WSPEC_DLY | WSPEC_TEV UW
| WSPEC_SEM_TFIFO | WSPEC_SEM_TPRI
| WSPEC_FLG_TFIFO | WSPEC_FLG_TPRI
| WSPEC_MBX_TFIFO | WSPEC_MBX_TPRI
| WSPEC_MTX_TFIFO | WSPEC_MTX_TPRI | WSPEC_MTX_INHERIT
| WSPEC_SMBF_TFIFO | WSPEC_SMBF_TPRI | WSPEC_RMBF
| WSPEC_CAL_TFIFO | WSPEC_CAL_TPRI | WSPEC_ACP | WSPEC_RDV

fun tskwait :: "wspec \<Rightarrow> UW" where
  "tskwait WSPEC_SLP = TTW_SLP"
| "tskwait WSPEC_DLY = TTW_DLY"
| "tskwait (WSPEC_TEV w) = w"
| "tskwait WSPEC_SEM_TFIFO = TTW_SEM"
| "tskwait WSPEC_SEM_TPRI = TTW_SEM"
| "tskwait WSPEC_FLG_TFIFO = TTW_FLG"
| "tskwait WSPEC_FLG_TPRI = TTW_FLG"
| "tskwait WSPEC_MBX_TFIFO = TTW_MBX"
| "tskwait WSPEC_MBX_TPRI = TTW_MBX"
| "tskwait WSPEC_MTX_TFIFO = TTW_MTX"
| "tskwait WSPEC_MTX_TPRI = TTW_MTX"
| "tskwait WSPEC_MTX_INHERIT = TTW_MTX"
| "tskwait WSPEC_SMBF_TFIFO = TTW_SMBF"
| "tskwait WSPEC_SMBF_TPRI = TTW_SMBF"
| "tskwait WSPEC_RMBF = TTW_RMBF"
| "tskwait WSPEC_CAL_TFIFO = TTW_CAL"
| "tskwait WSPEC_CAL_TPRI = TTW_CAL"
| "tskwait WSPEC_ACP = TTW_ACP"
| "tskwait WSPEC_RDV = TTW_RDV"

text \<open>
  Wait information of the TCB: a union in C, written and read under one member only. The exception are
  \<open>WINFO_CAL\<close> and \<open>WINFO_RDV\<close>, whose members \<^verbatim>\<open>msg\<close> and \<^verbatim>\<open>p_rmsgsz\<close> lie at the same offsets.
\<close>

datatype winfo =
  WINFO_NONE
| WINFO_SEM int
| WINFO_FLG UW UW nat
| WINFO_MBX nat
| WINFO_RMBF nat nat
| WINFO_SMBF nat int
| WINFO_CAL UW nat int nat
| WINFO_ACP UW nat nat nat
| WINFO_RDV UW nat int nat

fun sem_cnt :: "winfo \<Rightarrow> int" where
  "sem_cnt (WINFO_SEM c) = c"
| "sem_cnt _ = 0"

fun flg_waiptn :: "winfo \<Rightarrow> UW" where
  "flg_waiptn (WINFO_FLG w m p) = w"
| "flg_waiptn _ = 0"

fun flg_wfmode :: "winfo \<Rightarrow> UW" where
  "flg_wfmode (WINFO_FLG w m p) = m"
| "flg_wfmode _ = 0"

fun flg_p_flgptn :: "winfo \<Rightarrow> nat" where
  "flg_p_flgptn (WINFO_FLG w m p) = p"
| "flg_p_flgptn _ = 0"

fun mbx_ppk_msg :: "winfo \<Rightarrow> nat" where
  "mbx_ppk_msg (WINFO_MBX p) = p"
| "mbx_ppk_msg _ = 0"

fun rmbf_msg :: "winfo \<Rightarrow> nat" where
  "rmbf_msg (WINFO_RMBF m p) = m"
| "rmbf_msg _ = 0"

fun rmbf_p_msgsz :: "winfo \<Rightarrow> nat" where
  "rmbf_p_msgsz (WINFO_RMBF m p) = p"
| "rmbf_p_msgsz _ = 0"

fun smbf_msg :: "winfo \<Rightarrow> nat" where
  "smbf_msg (WINFO_SMBF m n) = m"
| "smbf_msg _ = 0"

fun smbf_msgsz :: "winfo \<Rightarrow> int" where
  "smbf_msgsz (WINFO_SMBF m n) = n"
| "smbf_msgsz _ = 0"

fun cal_calptn :: "winfo \<Rightarrow> UW" where
  "cal_calptn (WINFO_CAL c m n p) = c"
| "cal_calptn _ = 0"

fun cal_cmsgsz :: "winfo \<Rightarrow> int" where
  "cal_cmsgsz (WINFO_CAL c m n p) = n"
| "cal_cmsgsz _ = 0"

fun cal_rdv_msg :: "winfo \<Rightarrow> nat" where
  "cal_rdv_msg (WINFO_CAL c m n p) = m"
| "cal_rdv_msg (WINFO_RDV r m n p) = m"
| "cal_rdv_msg _ = 0"

fun cal_rdv_p_rmsgsz :: "winfo \<Rightarrow> nat" where
  "cal_rdv_p_rmsgsz (WINFO_CAL c m n p) = p"
| "cal_rdv_p_rmsgsz (WINFO_RDV r m n p) = p"
| "cal_rdv_p_rmsgsz _ = 0"

fun acp_acpptn :: "winfo \<Rightarrow> UW" where
  "acp_acpptn (WINFO_ACP a m r p) = a"
| "acp_acpptn _ = 0"

fun acp_msg :: "winfo \<Rightarrow> nat" where
  "acp_msg (WINFO_ACP a m r p) = m"
| "acp_msg _ = 0"

fun acp_p_rdvno :: "winfo \<Rightarrow> nat" where
  "acp_p_rdvno (WINFO_ACP a m r p) = r"
| "acp_p_rdvno _ = 0"

fun acp_p_cmsgsz :: "winfo \<Rightarrow> nat" where
  "acp_p_cmsgsz (WINFO_ACP a m r p) = p"
| "acp_p_cmsgsz _ = 0"

fun rdv_rdvno :: "winfo \<Rightarrow> UW" where
  "rdv_rdvno (WINFO_RDV r m n p) = r"
| "rdv_rdvno _ = 0"

fun rdv_maxrmsz :: "winfo \<Rightarrow> int" where
  "rdv_maxrmsz (WINFO_RDV r m n p) = n"
| "rdv_maxrmsz _ = 0"

subsection \<open>Control blocks\<close>

text \<open>The frame that \<^verbatim>\<open>setup_context\<close> writes on the system stack, and the context block.\<close>

record sstackframe =
  fr_r0 :: int
  fr_r1 :: nat
  fr_rng :: UW
  fr_pc :: nat
  fr_thumb :: bool
  fr_usp :: "nat option"

record tcb =
  tskid :: ID
  exinf :: nat
  tskatr :: UW
  tskentry :: nat
  resid :: ID
  stksz :: int
  sstksz :: int
  reqdct :: nat
  isysmode :: int
  sysmode :: int
  ipriority :: nat
  bpriority :: nat
  priority :: nat
  state :: tstat
  nodiswai :: bool
  klockwait :: bool
  klocked :: bool
  wspec :: wspec
  wid :: ID
  wupcnt :: int
  suscnt :: int
  wercd :: ER
  winfo :: winfo
  waitmask :: UW
  mtxlist :: "nat list"
  wrdvno :: UW
  tskevt :: UB
  svclocked :: "tid list"
  texhdr :: nat
  texmask :: UW
  pendtex :: UW
  exectex :: UW
  texflg :: UW
  execssid :: int
  slicetime :: D
  slicecnt :: D
  stime :: D
  utime :: D
  istack :: nat
  isstack :: nat
  ssframe :: sstackframe
  uatb :: nat
  lsid :: int
  tskname :: "UB list"

record semcb =
  semid :: ID
  sem_exinf :: nat
  sematr :: UW
  semcnt :: int
  maxsem :: int
  sem_name :: "UB list"

record flgcb =
  flgid :: ID
  flg_exinf :: nat
  flgatr :: UW
  flgptn :: UW
  flg_name :: "UB list"

text \<open>Messages are user memory: \<open>Msg a\<close> is the packet at \<open>a\<close>, \<open>MqHead i\<close> the head in mailbox \<open>i\<close>.\<close>

datatype msgaddr = MqHead nat | Msg nat

record mbxcb =
  mbxid :: ID
  mbx_exinf :: nat
  mbxatr :: UW
  mq_tail :: nat
  mbx_name :: "UB list"

record mtxcb =
  mtxid :: ID
  mtx_exinf :: nat
  mtxatr :: UW
  ceilpri :: nat
  mtxtsk :: "tid option"
  mtx_name :: "UB list"

text \<open>The ring of a message buffer is memory of the kernel, by offset; \<open>None\<close> is the pointer NULL.\<close>

record mbfcb =
  mbfid :: ID
  mbf_exinf :: nat
  mbfatr :: UW
  bufsz :: int
  maxmsz :: int
  frbufsz :: int
  mbf_head :: int
  mbf_tail :: int
  mbf_buffer :: "(nat \<Rightarrow> UB) option"
  mbf_name :: "UB list"

record porcb =
  porid :: ID
  por_exinf :: nat
  poratr :: UW
  maxcmsz :: int
  maxrmsz :: int
  por_name :: "UB list"

record cyccb =
  cyc_exinf :: nat
  cycatr :: UW
  cychdr :: nat
  cycstat :: UW
  cyctim :: D
  cyc_name :: "UB list"

record almcb =
  alm_exinf :: nat
  almatr :: UW
  almhdr :: nat
  almstat :: UW
  alm_name :: "UB list"

text \<open>Timer event blocks by address, with the callbacks of the sources.\<close>

datatype tmeb_ref = TskTmeb tid | CycTmeb nat | AlmTmeb nat

datatype callback = CB_wait_release_tmout | CB_call_cychdr | CB_call_almhdr

record tmeb =
  tm_time :: D
  tm_callback :: callback

text \<open>Queue heads by address.\<close>

datatype lockid = ObjLock nat | SvcLock tid

datatype qhead =
  RdyQ nat
| FreeTcb
| SemQ nat
| FlgQ nat
| MbxQ nat
| MtxQ nat
| LockQ lockid
| SmbfQ nat
| RmbfQ nat
| CalQ nat
| AcpQ nat

subsection \<open>The kernel state\<close>

record kernel =
  max_tskid :: ID
  max_semid :: ID
  max_flgid :: ID
  max_mbxid :: ID
  max_mtxid :: ID
  max_mbfid :: ID
  max_porid :: ID
  max_cycid :: ID
  max_almid :: ID
  max_resid :: ID
  default_sstksz :: int
  svc_call_limit :: int
  available_cop :: UW
  dispatch_disabled :: int
  isDI :: bool
  isTaskIndependent :: bool
  ctxtsk :: "tid option"
  schedtsk :: "tid option"
  top_priority :: nat
  rq_null :: "tid option"
  rq_bitmap :: bytes
  klocktsk :: "tid option"
  tcb_table :: "tid \<Rightarrow> tcb"
  que :: "(qhead, tid) qstore"
  lock_held :: "lockid \<Rightarrow> bool"
  TIMER_PERIOD :: D
  current_time :: D
  real_time_ofs :: D
  timer_queue :: "tmeb_ref list"
  tmebs :: "tmeb_ref \<Rightarrow> tmeb"
  hw_timer_usec :: UW
  hw_timer_nsec :: UW
  semcb_table :: "nat \<Rightarrow> semcb"
  free_semcb :: "nat list"
  flgcb_table :: "nat \<Rightarrow> flgcb"
  free_flgcb :: "nat list"
  mbxcb_table :: "nat \<Rightarrow> mbxcb"
  free_mbxcb :: "nat list"
  msgque :: "msgaddr \<Rightarrow> nat"
  msgpri :: "nat \<Rightarrow> int"
  mtxcb_table :: "nat \<Rightarrow> mtxcb"
  free_mtxcb :: "nat list"
  mbfcb_table :: "nat \<Rightarrow> mbfcb"
  free_mbfcb :: "nat list"
  porcb_table :: "nat \<Rightarrow> porcb"
  free_porcb :: "nat list"
  cyccb_table :: "nat \<Rightarrow> cyccb"
  free_cyccb :: "nat list"
  almcb_table :: "nat \<Rightarrow> almcb"
  free_almcb :: "nat list"
  mem_uint :: "nat \<Rightarrow> UW"
  mem_ptr :: "nat \<Rightarrow> nat"
  mem_int :: "nat \<Rightarrow> int"
  mem_byte :: "nat \<Rightarrow> UB"

definition NUM_TSKID :: "kernel \<Rightarrow> nat" where
  "NUM_TSKID k = nat (max_tskid k)"

definition upd_tcb :: "tid \<Rightarrow> (tcb \<Rightarrow> tcb) \<Rightarrow> kernel \<Rightarrow> kernel" where
  "upd_tcb t f k = k\<lparr>tcb_table := (tcb_table k)(t := f (tcb_table k t))\<rparr>"

abbreviation tcb :: "kernel \<Rightarrow> tid \<Rightarrow> tcb" where
  "tcb k t \<equiv> tcb_table k t"

text \<open>The task in execution, where the code dereferences \<^verbatim>\<open>ctxtsk\<close>.\<close>

definition self :: "kernel \<Rightarrow> tid" where
  "self k = the (ctxtsk k)"

subsection \<open>Identifiers, priorities and checks\<close>

definition INDEX :: "ID \<Rightarrow> nat" where
  "INDEX oid = nat (oid - 1)"

definition ID_of :: "nat \<Rightarrow> ID" where
  "ID_of index = int index + 1"

lemma INDEX_ID_of [simp]: "INDEX (ID_of i) = i"
  by (simp add: INDEX_def ID_of_def)

definition CHK_TSKID :: "ID \<Rightarrow> kernel \<Rightarrow> bool" where
  "CHK_TSKID oid k \<longleftrightarrow> 1 \<le> oid \<and> oid \<le> max_tskid k"

definition CHK_PRI :: "int \<Rightarrow> bool" where
  "CHK_PRI pri \<longleftrightarrow> MIN_PRI \<le> pri \<and> pri \<le> MAX_PRI"

definition int_priority :: "int \<Rightarrow> nat" where
  "int_priority x = nat (x - MIN_PRI)"

definition ext_tskpri :: "nat \<Rightarrow> int" where
  "ext_tskpri x = int x + MIN_PRI"

definition get_tcb :: "ID \<Rightarrow> tid" where
  "get_tcb oid = INDEX oid"

definition get_tcb_self :: "ID \<Rightarrow> kernel \<Rightarrow> tid" where
  "get_tcb_self oid k = (if oid = TSK_SELF then self k else get_tcb oid)"

text \<open>Context predicates of \<^verbatim>\<open>cpu_status.h\<close>.\<close>

definition in_indp :: "kernel \<Rightarrow> bool" where
  "in_indp k \<longleftrightarrow> isTaskIndependent k \<or> ctxtsk k = None"

definition in_ddsp :: "kernel \<Rightarrow> bool" where
  "in_ddsp k \<longleftrightarrow> dispatch_disabled k \<noteq> 0 \<or> in_indp k \<or> isDI k"

text \<open>
  A check macro either returns an error code from the system call or lets it go on; a list of
  checks answers the first error.
\<close>

definition CHECK :: "bool \<Rightarrow> ER \<Rightarrow> ER option" where
  "CHECK ok err = (if ok then None else Some err)"

definition CHECK_TSKID :: "ID \<Rightarrow> kernel \<Rightarrow> ER option" where
  "CHECK_TSKID oid k =
     (if \<not> in_indp k \<and> oid = TSK_SELF then Some E_OBJ
      else if \<not> CHK_TSKID oid k then Some E_ID
      else None)"

definition CHECK_TSKID_SELF :: "ID \<Rightarrow> kernel \<Rightarrow> ER option" where
  "CHECK_TSKID_SELF oid k =
     CHECK ((\<not> in_indp k \<and> oid = TSK_SELF) \<or> CHK_TSKID oid k) E_ID"

definition CHECK_SEMID :: "ID \<Rightarrow> kernel \<Rightarrow> ER option" where
  "CHECK_SEMID oid k = CHECK (1 \<le> oid \<and> oid \<le> max_semid k) E_ID"

definition CHECK_FLGID :: "ID \<Rightarrow> kernel \<Rightarrow> ER option" where
  "CHECK_FLGID oid k = CHECK (1 \<le> oid \<and> oid \<le> max_flgid k) E_ID"

definition CHECK_MBXID :: "ID \<Rightarrow> kernel \<Rightarrow> ER option" where
  "CHECK_MBXID oid k = CHECK (1 \<le> oid \<and> oid \<le> max_mbxid k) E_ID"

definition CHECK_MTXID :: "ID \<Rightarrow> kernel \<Rightarrow> ER option" where
  "CHECK_MTXID oid k = CHECK (1 \<le> oid \<and> oid \<le> max_mtxid k) E_ID"

definition CHECK_MBFID :: "ID \<Rightarrow> kernel \<Rightarrow> ER option" where
  "CHECK_MBFID oid k = CHECK (1 \<le> oid \<and> oid \<le> max_mbfid k) E_ID"

definition CHECK_PORID :: "ID \<Rightarrow> kernel \<Rightarrow> ER option" where
  "CHECK_PORID oid k = CHECK (1 \<le> oid \<and> oid \<le> max_porid k) E_ID"

definition CHECK_CYCID :: "ID \<Rightarrow> kernel \<Rightarrow> ER option" where
  "CHECK_CYCID oid k = CHECK (1 \<le> oid \<and> oid \<le> max_cycid k) E_ID"

definition CHECK_ALMID :: "ID \<Rightarrow> kernel \<Rightarrow> ER option" where
  "CHECK_ALMID oid k = CHECK (1 \<le> oid \<and> oid \<le> max_almid k) E_ID"

definition CHECK_RESID :: "ID \<Rightarrow> kernel \<Rightarrow> ER option" where
  "CHECK_RESID oid k = CHECK (1 \<le> oid \<and> oid \<le> max_resid k) E_ID"

definition CHECK_NONSELF :: "ID \<Rightarrow> kernel \<Rightarrow> ER option" where
  "CHECK_NONSELF oid k = CHECK (\<not> (\<not> in_indp k \<and> oid = tskid (tcb k (self k)))) E_OBJ"

definition CHECK_PRI :: "int \<Rightarrow> ER option" where
  "CHECK_PRI pri = CHECK (CHK_PRI pri) E_PAR"

definition CHECK_PRI_INI :: "int \<Rightarrow> ER option" where
  "CHECK_PRI_INI pri = CHECK (pri = TPRI_INI \<or> CHK_PRI pri) E_PAR"

definition CHECK_PRI_RUN :: "int \<Rightarrow> ER option" where
  "CHECK_PRI_RUN pri = CHECK (pri = TPRI_RUN \<or> CHK_PRI pri) E_PAR"

definition CHECK_TMOUT :: "D \<Rightarrow> ER option" where
  "CHECK_TMOUT tmout = CHECK (TMO_FEVR \<le>s tmout) E_PAR"

definition CHECK_PAR :: "bool \<Rightarrow> ER option" where
  "CHECK_PAR ok = CHECK ok E_PAR"

definition CHECK_RSATR :: "UW \<Rightarrow> UW \<Rightarrow> ER option" where
  "CHECK_RSATR atr maxatr = CHECK (atr AND NOT maxatr = 0) E_RSATR"

definition CHECK_INTSK :: "kernel \<Rightarrow> ER option" where
  "CHECK_INTSK k = CHECK (\<not> in_indp k) E_CTX"

definition CHECK_DISPATCH :: "kernel \<Rightarrow> ER option" where
  "CHECK_DISPATCH k = CHECK (\<not> in_ddsp k) E_CTX"

definition CHECK_DISPATCH_POL :: "D \<Rightarrow> kernel \<Rightarrow> ER option" where
  "CHECK_DISPATCH_POL tmout k = CHECK (tmout = TMO_POL \<or> \<not> in_ddsp k) E_CTX"

fun first_error :: "ER option list \<Rightarrow> ER option" where
  "first_error [] = None"
| "first_error (c # cs) = (case c of Some e \<Rightarrow> Some e | None \<Rightarrow> first_error cs)"

text \<open>A system call: the checks in order, then the body.\<close>

definition checked :: "ER option list \<Rightarrow> kernel \<Rightarrow> ER \<times> kernel \<Rightarrow> ER \<times> kernel" where
  "checked cs k body = (case first_error cs of Some e \<Rightarrow> (e, k) | None \<Rightarrow> body)"

text \<open>The same for calls that run wait-release or priority-change hooks, which may not end.\<close>

definition checked_opt ::
  "ER option list \<Rightarrow> kernel \<Rightarrow> (ER \<times> kernel) option \<Rightarrow> (ER \<times> kernel) option" where
  "checked_opt cs k body = (case first_error cs of Some e \<Rightarrow> Some (e, k) | None \<Rightarrow> body)"

lemma CHECK_simps [simp]: "CHECK True e = None" "CHECK False e = Some e"
  by (simp_all add: CHECK_def)

lemma CHECK_None_iff [simp]: "CHECK ok e = None \<longleftrightarrow> ok"
  by (simp add: CHECK_def)

lemma first_error_None_iff: "first_error cs = None \<longleftrightarrow> (\<forall>c \<in> set cs. c = None)"
  by (induction cs) (auto split: option.splits)

subsection \<open>Dispatching\<close>

text \<open>
  \<^verbatim>\<open>dispatch()\<close> switches to \<^verbatim>\<open>schedtsk\<close> (\<^verbatim>\<open>dispatch_entry\<close> in \<^verbatim>\<open>cpu_support.S\<close>; with no task to
  run it idles with \<^verbatim>\<open>ctxtsk\<close> being \<^verbatim>\<open>NULL\<close>). \<^verbatim>\<open>END_CRITICAL_SECTION\<close> does so unless interrupts
  were disabled on entry, the code runs in a task-independent part, or dispatching is disabled.
\<close>

definition dispatch :: "kernel \<Rightarrow> kernel" where
  "dispatch k = k\<lparr>ctxtsk := schedtsk k\<rparr>"

definition END_CRITICAL_SECTION :: "kernel \<Rightarrow> kernel" where
  "END_CRITICAL_SECTION k =
     (if \<not> isDI k \<and> ctxtsk k \<noteq> schedtsk k \<and> \<not> isTaskIndependent k \<and> dispatch_disabled k = 0
      then dispatch k else k)"

lemma upd_tcb_sel [frame, simp]:
  "tcb_table (upd_tcb t f k) = (tcb_table k)(t := f (tcb k t))"
  "que (upd_tcb t f k) = que k"
  "max_tskid (upd_tcb t f k) = max_tskid k"
  "ctxtsk (upd_tcb t f k) = ctxtsk k"
  "schedtsk (upd_tcb t f k) = schedtsk k"
  "top_priority (upd_tcb t f k) = top_priority k"
  "rq_null (upd_tcb t f k) = rq_null k"
  "rq_bitmap (upd_tcb t f k) = rq_bitmap k"
  "klocktsk (upd_tcb t f k) = klocktsk k"
  "timer_queue (upd_tcb t f k) = timer_queue k"
  "tmebs (upd_tcb t f k) = tmebs k"
  "current_time (upd_tcb t f k) = current_time k"
  "TIMER_PERIOD (upd_tcb t f k) = TIMER_PERIOD k"
  "semcb_table (upd_tcb t f k) = semcb_table k"
  "flgcb_table (upd_tcb t f k) = flgcb_table k"
  "mbxcb_table (upd_tcb t f k) = mbxcb_table k"
  "mtxcb_table (upd_tcb t f k) = mtxcb_table k"
  "mbfcb_table (upd_tcb t f k) = mbfcb_table k"
  "porcb_table (upd_tcb t f k) = porcb_table k"
  "isDI (upd_tcb t f k) = isDI k"
  "isTaskIndependent (upd_tcb t f k) = isTaskIndependent k"
  "dispatch_disabled (upd_tcb t f k) = dispatch_disabled k"
  by (simp_all add: upd_tcb_def)

lemma NUM_TSKID_upd [simp]:
  "NUM_TSKID (upd_tcb t f k) = NUM_TSKID k"
  by (simp add: NUM_TSKID_def)

lemma END_CRITICAL_SECTION_cases:
  "END_CRITICAL_SECTION k = k \<or> END_CRITICAL_SECTION k = k\<lparr>ctxtsk := schedtsk k\<rparr>"
  by (simp add: END_CRITICAL_SECTION_def dispatch_def)

end
