(* ===== verification/Ready_Queue.thy ===== *)
theory Ready_Queue
  imports Kernel_State
begin

text \<open>
  The ready queue of \<^verbatim>\<open>ready_queue.h\<close>: one task queue per priority, a bitmap of the non-empty
  queues and the index of the highest one. The invariant \<open>rq_ok\<close> says that bitmap and index agree
  with the queues; every operation keeps it. The abstraction \<open>rdy_list\<close> is the single list of ready
  tasks in the order they are to run; the operations refine sorted insertion, removal and rotation
  of that list.
\<close>

subsection \<open>Operations\<close>

definition ready_queue_initialize :: "kernel \<Rightarrow> kernel" where
  "ready_queue_initialize k =
     k\<lparr>top_priority := NUM_PRI,
       que := fold (\<lambda>i. QueInit (RdyQ i)) [0..<NUM_PRI] (que k),
       rq_null := None,
       klocktsk := None,
       rq_bitmap := (\<lambda>i. if i < 20 then 0 else rq_bitmap k i)\<rparr>"

text \<open>
  \<^verbatim>\<open>tskque[NUM_PRI]\<close> is the \<^verbatim>\<open>null\<close> field. An empty queue at \<^verbatim>\<open>top_priority\<close>, where the code
  would return the queue head itself, does not occur under \<open>rq_ok\<close>.
\<close>

definition ready_queue_top :: "kernel \<Rightarrow> tid option" where
  "ready_queue_top k =
     (case klocktsk k of
        Some t \<Rightarrow> Some t
      | None \<Rightarrow>
          if top_priority k = NUM_PRI then rq_null k
          else case que k (RdyQ (top_priority k)) of [] \<Rightarrow> None | t # _ \<Rightarrow> Some t)"

definition ready_queue_top_priority :: "kernel \<Rightarrow> nat" where
  "ready_queue_top_priority k = top_priority k"

definition ready_queue_insert :: "tid \<Rightarrow> kernel \<Rightarrow> bool \<times> kernel" where
  "ready_queue_insert t k =
     (let pri = priority (tcb k t);
          k = upd_tcb t (\<lambda>c. c\<lparr>slicecnt := 0\<rparr>) k;
          k = k\<lparr>que := QueInsert t (QHead (RdyQ pri)) (que k)\<rparr>;
          k = k\<lparr>rq_bitmap := BitSet (rq_bitmap k) pri\<rparr>;
          k = (if klocked (tcb k t) then k\<lparr>klocktsk := Some t\<rparr> else k)
      in if pri < top_priority k then (True, k\<lparr>top_priority := pri\<rparr>) else (False, k))"

definition ready_queue_insert_top :: "tid \<Rightarrow> kernel \<Rightarrow> kernel" where
  "ready_queue_insert_top t k =
     (let pri = priority (tcb k t);
          k = k\<lparr>que := QueInsert t (que_next (RdyQ pri) (que k)) (que k)\<rparr>;
          k = k\<lparr>rq_bitmap := BitSet (rq_bitmap k) pri\<rparr>;
          k = (if klocked (tcb k t) then k\<lparr>klocktsk := Some t\<rparr> else k)
      in if pri < top_priority k then k\<lparr>top_priority := pri\<rparr> else k)"

definition ready_queue_delete :: "tid \<Rightarrow> kernel \<Rightarrow> kernel" where
  "ready_queue_delete t k =
     (let pri = priority (tcb k t);
          k = (if klocktsk k = Some t then k\<lparr>klocktsk := None\<rparr> else k);
          k = k\<lparr>que := QueRemove t (que k)\<rparr>
      in if klockwait (tcb k t) then upd_tcb t (\<lambda>c. c\<lparr>klockwait := False\<rparr>) k
         else if \<not> isQueEmpty (RdyQ pri) (que k) then k
         else
           let k = k\<lparr>rq_bitmap := BitClr (rq_bitmap k) pri\<rparr>
           in if pri \<noteq> top_priority k then k
              else
                let i = BitSearch1_w (rq_bitmap k) pri (int NUM_PRI - int pri)
                in if 0 \<le> i then k\<lparr>top_priority := pri + nat i\<rparr>
                   else k\<lparr>top_priority := NUM_PRI\<rparr>)"

definition ready_queue_rotate :: "nat \<Rightarrow> kernel \<Rightarrow> kernel" where
  "ready_queue_rotate pri k =
     (case QueRemoveNext (RdyQ pri) (que k) of
        (None, q) \<Rightarrow> k\<lparr>que := q\<rparr>
      | (Some t, q) \<Rightarrow>
          upd_tcb t (\<lambda>c. c\<lparr>slicecnt := 0\<rparr>) (k\<lparr>que := QueInsert t (QHead (RdyQ pri)) q\<rparr>))"

definition ready_queue_move_last :: "tid \<Rightarrow> kernel \<Rightarrow> tid option \<times> kernel" where
  "ready_queue_move_last t k =
     (let h = RdyQ (priority (tcb k t));
          k = k\<lparr>que := QueRemove t (que k)\<rparr>;
          k = k\<lparr>que := QueInsert t (QHead h) (que k)\<rparr>;
          k = upd_tcb t (\<lambda>c. c\<lparr>slicecnt := 0\<rparr>) k
      in (case que k h of [] \<Rightarrow> None | u # _ \<Rightarrow> Some u, k))"

subsection \<open>The invariant\<close>

definition rq_bits :: "kernel \<Rightarrow> bool" where
  "rq_bits k \<longleftrightarrow> (\<forall>p < NUM_PRI. bit_at (rq_bitmap k) p \<longleftrightarrow> que k (RdyQ p) \<noteq> [])"

definition rq_top :: "kernel \<Rightarrow> bool" where
  "rq_top k \<longleftrightarrow>
     top_priority k \<le> NUM_PRI \<and>
     (\<forall>p < top_priority k. que k (RdyQ p) = []) \<and>
     (top_priority k < NUM_PRI \<longrightarrow> que k (RdyQ (top_priority k)) \<noteq> [])"

definition rq_ok :: "kernel \<Rightarrow> bool" where
  "rq_ok k \<longleftrightarrow> rq_bits k \<and> rq_top k \<and> rq_null k = None"

lemma fold_QueInit:
  "fold (\<lambda>i. QueInit (RdyQ i)) is q h = (case h of RdyQ p \<Rightarrow> if p \<in> set is then [] else q h | _ \<Rightarrow> q h)"
  by (induction "is" arbitrary: q) (auto split: qhead.splits)

lemma rq_ok_initialize: "rq_ok (ready_queue_initialize k)"
proof -
  have "p div 8 < 20" if "p < NUM_PRI" for p using that by simp
  then show ?thesis
    by (auto simp: rq_ok_def rq_bits_def rq_top_def ready_queue_initialize_def fold_QueInit bit_at_def)
qed

text \<open>With no kernel lock held, the top is the first task of the first non-empty queue.\<close>

lemma ready_queue_top_eq:
  assumes "rq_ok k" "klocktsk k = None"
  shows "ready_queue_top k =
    (if top_priority k = NUM_PRI then None else Some (hd (que k (RdyQ (top_priority k)))))"
  using assms by (auto simp: ready_queue_top_def rq_ok_def rq_top_def split: list.splits)

lemma ready_queue_top_None_iff:
  assumes "rq_ok k" "klocktsk k = None"
  shows "ready_queue_top k = None \<longleftrightarrow> (\<forall>p < NUM_PRI. que k (RdyQ p) = [])"
  using assms by (force simp: ready_queue_top_eq rq_ok_def rq_top_def)

subsection \<open>Insertion\<close>

lemma ready_queue_insert_que:
  "que (snd (ready_queue_insert t k)) =
     (que k)(RdyQ (priority (tcb k t)) := que k (RdyQ (priority (tcb k t))) @ [t])"
  by (auto simp: ready_queue_insert_def Let_def fun_eq_iff)

lemma ready_queue_insert_fst: "fst (ready_queue_insert t k) \<longleftrightarrow> priority (tcb k t) < top_priority k"
  by (simp add: ready_queue_insert_def Let_def)

lemma ready_queue_insert_frame [frame]:
  "tcb_table (snd (ready_queue_insert t k)) = (tcb_table k)(t := (tcb k t)\<lparr>slicecnt := 0\<rparr>)"
  "klocktsk (snd (ready_queue_insert t k)) = (if klocked (tcb k t) then Some t else klocktsk k)"
  "top_priority (snd (ready_queue_insert t k)) = min (priority (tcb k t)) (top_priority k)"
  "rq_null (snd (ready_queue_insert t k)) = rq_null k"
  "rq_bitmap (snd (ready_queue_insert t k)) = BitSet (rq_bitmap k) (priority (tcb k t))"
  "ctxtsk (snd (ready_queue_insert t k)) = ctxtsk k"
  "schedtsk (snd (ready_queue_insert t k)) = schedtsk k"
  "timer_queue (snd (ready_queue_insert t k)) = timer_queue k"
  "tmebs (snd (ready_queue_insert t k)) = tmebs k"
  "current_time (snd (ready_queue_insert t k)) = current_time k"
  "TIMER_PERIOD (snd (ready_queue_insert t k)) = TIMER_PERIOD k"
  "max_tskid (snd (ready_queue_insert t k)) = max_tskid k"
  by (auto simp: ready_queue_insert_def Let_def)

lemma rq_ok_insert:
  assumes "rq_ok k" "priority (tcb k t) < NUM_PRI"
  shows "rq_ok (snd (ready_queue_insert t k))"
  using assms
  by (auto simp: rq_ok_def rq_bits_def rq_top_def ready_queue_insert_que frame min_def)

lemma ready_queue_insert_top_que:
  assumes "disjoint_queues (que k)"
  shows "que (ready_queue_insert_top t k) =
     (que k)(RdyQ (priority (tcb k t)) := t # que k (RdyQ (priority (tcb k t))))"
  using insert_next [OF assms] by (simp add: ready_queue_insert_top_def Let_def)

lemma rq_ok_insert_top:
  assumes "rq_ok k" "priority (tcb k t) < NUM_PRI" "disjoint_queues (que k)"
  shows "rq_ok (ready_queue_insert_top t k)"
  using assms(1,2) insert_next [OF assms(3)]
  by (auto simp: rq_ok_def rq_bits_def rq_top_def ready_queue_insert_top_def Let_def min_def)

subsection \<open>Deletion\<close>

lemma ready_queue_delete_que: "que (ready_queue_delete t k) = QueRemove t (que k)"
  by (auto simp: ready_queue_delete_def Let_def)

lemma ready_queue_delete_frame [frame]:
  "tcb_table (ready_queue_delete t k) =
     (tcb_table k)(t := (tcb k t)\<lparr>klockwait := False\<rparr>)"
  "klocktsk (ready_queue_delete t k) = (if klocktsk k = Some t then None else klocktsk k)"
  "rq_null (ready_queue_delete t k) = rq_null k"
  "ctxtsk (ready_queue_delete t k) = ctxtsk k"
  "schedtsk (ready_queue_delete t k) = schedtsk k"
  "timer_queue (ready_queue_delete t k) = timer_queue k"
  "tmebs (ready_queue_delete t k) = tmebs k"
  "current_time (ready_queue_delete t k) = current_time k"
  "TIMER_PERIOD (ready_queue_delete t k) = TIMER_PERIOD k"
  "max_tskid (ready_queue_delete t k) = max_tskid k"
  by (auto simp: ready_queue_delete_def Let_def)

lemma QueRemove_other:
  assumes "disjoint_queues qs" "t \<in> set (qs h)" "h' \<noteq> h"
  shows "QueRemove t qs h' = qs h'"
  using assms by (simp add: QueRemove_apply disjoint_queuesD [OF assms(1,2)])

text \<open>The search for the next priority: where \<^verbatim>\<open>BitSearch1_w\<close> leaves the index.\<close>

lemma bitsearch_top:
  fixes qs :: "nat \<Rightarrow> 'b list"
  assumes bits: "\<forall>p < NUM_PRI. bit_at bm p \<longleftrightarrow> qs p \<noteq> []"
    and low: "\<forall>p < pri. qs p = []" and pri: "pri < NUM_PRI"
    and i: "i = BitSearch1_w bm pri (int NUM_PRI - int pri)"
    and tp: "tp = (if 0 \<le> i then pri + nat i else NUM_PRI)"
  shows "tp \<le> NUM_PRI \<and> (\<forall>p < tp. qs p = []) \<and> (tp < NUM_PRI \<longrightarrow> qs tp \<noteq> [])"
proof -
  have fb: "first_bit bm pri 0 (int NUM_PRI - int pri) i"
    unfolding i by (rule BitSearch1_w_first_bit)
  show ?thesis
  proof (cases "i = -1")
    case True
    have "qs p = []" if "p < NUM_PRI" for p
    proof (cases "p < pri")
      case False
      with that True fb have "\<not> bit_at bm (pri + (p - pri))"
        unfolding first_bit_def if_P [OF True] by (elim allE [of _ "p - pri"]) auto
      with False that bits show ?thesis by simp
    qed (use low in simp)
    with True tp show ?thesis by simp
  next
    case False
    with fb obtain j where j: "i = int j" "int j < int NUM_PRI - int pri" "bit_at bm (pri + j)"
        and before: "\<And>m. m < j \<Longrightarrow> \<not> bit_at bm (pri + m)"
      by (auto simp: first_bit_def)
    then have tp: "tp = pri + j" "tp < NUM_PRI" using tp by auto
    have "qs p = []" if "p < tp" for p
    proof (cases "p < pri")
      case False
      then have "\<not> bit_at bm (pri + (p - pri))" using before [of "p - pri"] that tp by simp
      with False that tp bits show ?thesis by simp
    qed (use low in simp)
    with j tp bits show ?thesis by auto
  qed
qed

lemma rq_ok_delete:
  assumes ok: "rq_ok k" and dj: "disjoint_queues (que k)"
    and t: "t \<in> set (que k (RdyQ pri))" and pri: "pri = priority (tcb k t)" "pri < NUM_PRI"
    and nk: "\<not> klockwait (tcb k t)"
  shows "rq_ok (ready_queue_delete t k)"
proof -
  let ?k = "ready_queue_delete t k" and ?q = "\<lambda>p. remove1 t (que k (RdyQ p))"
  have que: "que ?k (RdyQ p) = ?q p" for p
    by (simp add: ready_queue_delete_que QueRemove_apply)
  have other: "?q p = que k (RdyQ p)" if "p \<noteq> pri" for p
    using disjoint_queuesD [OF dj t, of "RdyQ p"] that by simp
  have bits: "\<forall>p < NUM_PRI. bit_at (rq_bitmap k) p \<longleftrightarrow> que k (RdyQ p) \<noteq> []"
    and top: "top_priority k \<le> NUM_PRI" "\<forall>p < top_priority k. que k (RdyQ p) = []"
      "top_priority k < NUM_PRI \<Longrightarrow> que k (RdyQ (top_priority k)) \<noteq> []" and nul: "rq_null k = None"
    using ok by (auto simp: rq_ok_def rq_bits_def rq_top_def)
  have le: "top_priority k \<le> pri" using top(2) t by (cases "pri < top_priority k") auto
  show ?thesis
  proof (cases "?q pri = []")
    case False
    then have "rq_bitmap ?k = rq_bitmap k" "top_priority ?k = top_priority k"
      using nk pri by (auto simp: ready_queue_delete_def Let_def isQueEmpty_def QueRemove_apply)
    moreover have "?q p = [] \<longleftrightarrow> que k (RdyQ p) = []" for p
      using False other [of p] t by (cases "p = pri") auto
    ultimately show ?thesis
      using bits top nul by (simp add: rq_ok_def rq_bits_def rq_top_def que frame)
  next
    case True
    then have bm: "rq_bitmap ?k = BitClr (rq_bitmap k) pri"
      using nk pri by (auto simp: ready_queue_delete_def Let_def isQueEmpty_def QueRemove_apply)
    have bits': "\<forall>p < NUM_PRI. bit_at (rq_bitmap ?k) p \<longleftrightarrow> ?q p \<noteq> []"
      using bits True other by (auto simp: bm)
    have "top_priority ?k \<le> NUM_PRI \<and> (\<forall>p < top_priority ?k. ?q p = []) \<and>
      (top_priority ?k < NUM_PRI \<longrightarrow> ?q (top_priority ?k) \<noteq> [])"
    proof (cases "pri = top_priority k")
      case False
      then have "top_priority ?k = top_priority k"
        using nk pri True by (auto simp: ready_queue_delete_def Let_def isQueEmpty_def QueRemove_apply)
      moreover have "?q p = que k (RdyQ p)" if "p \<le> top_priority k" for p
        using that False le by (intro other) simp
      ultimately show ?thesis using top by (metis less_imp_le_nat order_refl)
    next
      case same: True
      let ?i = "BitSearch1_w (BitClr (rq_bitmap k) pri) pri (int NUM_PRI - int pri)"
      have tp: "top_priority ?k = (if 0 \<le> ?i then pri + nat ?i else NUM_PRI)"
        using nk pri True same
        by (auto simp: ready_queue_delete_def Let_def isQueEmpty_def QueRemove_apply)
      have low: "\<forall>p < pri. ?q p = []" using top(2) same other by simp
      show ?thesis by (rule bitsearch_top [OF bits' [unfolded bm] low pri(2) refl tp])
    qed
    with bits' nul show ?thesis by (simp add: rq_ok_def rq_bits_def rq_top_def que frame)
  qed
qed

subsection \<open>Rotation\<close>

lemma ready_queue_rotate_que:
  "que (ready_queue_rotate pri k) = (que k)(RdyQ pri := rotate1 (que k (RdyQ pri)))"
  by (auto simp: ready_queue_rotate_def QueRemoveNext_def fun_eq_iff split: list.splits)

lemma ready_queue_rotate_frame [frame]:
  "klocktsk (ready_queue_rotate pri k) = klocktsk k"
  "rq_null (ready_queue_rotate pri k) = rq_null k"
  "top_priority (ready_queue_rotate pri k) = top_priority k"
  "rq_bitmap (ready_queue_rotate pri k) = rq_bitmap k"
  "ctxtsk (ready_queue_rotate pri k) = ctxtsk k"
  "schedtsk (ready_queue_rotate pri k) = schedtsk k"
  "timer_queue (ready_queue_rotate pri k) = timer_queue k"
  "tmebs (ready_queue_rotate pri k) = tmebs k"
  "current_time (ready_queue_rotate pri k) = current_time k"
  "TIMER_PERIOD (ready_queue_rotate pri k) = TIMER_PERIOD k"
  "max_tskid (ready_queue_rotate pri k) = max_tskid k"
  by (auto simp: ready_queue_rotate_def split: prod.splits option.splits)

lemma ready_queue_rotate_tcb:
  "tcb_table (ready_queue_rotate pri k) =
     (case que k (RdyQ pri) of [] \<Rightarrow> tcb_table k
      | t # _ \<Rightarrow> (tcb_table k)(t := (tcb k t)\<lparr>slicecnt := 0\<rparr>))"
  by (auto simp: ready_queue_rotate_def QueRemoveNext_def split: list.splits)

lemma rq_ok_rotate: "rq_ok k \<Longrightarrow> rq_ok (ready_queue_rotate pri k)"
  by (auto simp: rq_ok_def rq_bits_def rq_top_def ready_queue_rotate_que frame)

lemma ready_queue_move_last_que:
  assumes "disjoint_queues (que k)" "t \<in> set (que k (RdyQ (priority (tcb k t))))"
  shows "que (snd (ready_queue_move_last t k)) =
    (que k)(RdyQ (priority (tcb k t)) := remove1 t (que k (RdyQ (priority (tcb k t)))) @ [t])"
  using assms QueRemove_other [OF assms]
  by (auto simp: ready_queue_move_last_def Let_def fun_eq_iff QueRemove_apply)

lemma ready_queue_move_last_frame [frame]:
  "klocktsk (snd (ready_queue_move_last t k)) = klocktsk k"
  "rq_null (snd (ready_queue_move_last t k)) = rq_null k"
  "top_priority (snd (ready_queue_move_last t k)) = top_priority k"
  "rq_bitmap (snd (ready_queue_move_last t k)) = rq_bitmap k"
  "ctxtsk (snd (ready_queue_move_last t k)) = ctxtsk k"
  "schedtsk (snd (ready_queue_move_last t k)) = schedtsk k"
  "timer_queue (snd (ready_queue_move_last t k)) = timer_queue k"
  "tmebs (snd (ready_queue_move_last t k)) = tmebs k"
  "current_time (snd (ready_queue_move_last t k)) = current_time k"
  "TIMER_PERIOD (snd (ready_queue_move_last t k)) = TIMER_PERIOD k"
  "max_tskid (snd (ready_queue_move_last t k)) = max_tskid k"
  "tcb_table (snd (ready_queue_move_last t k)) = (tcb_table k)(t := (tcb k t)\<lparr>slicecnt := 0\<rparr>)"
  by (auto simp: ready_queue_move_last_def Let_def)

lemma rq_ok_move_last:
  assumes "rq_ok k" "disjoint_queues (que k)" "t \<in> set (que k (RdyQ (priority (tcb k t))))"
  shows "rq_ok (snd (ready_queue_move_last t k))"
  using assms(1,3)
  by (auto simp: rq_ok_def rq_bits_def rq_top_def ready_queue_move_last_que [OF assms(2,3)] frame)

lemma ready_queue_move_last_fst:
  assumes "disjoint_queues (que k)" "t \<in> set (que k (RdyQ (priority (tcb k t))))"
  shows "fst (ready_queue_move_last t k) =
    Some (hd (remove1 t (que k (RdyQ (priority (tcb k t)))) @ [t]))"
  by (cases "remove1 t (que k (RdyQ (priority (tcb k t))))")
     (simp_all add: ready_queue_move_last_def Let_def QueRemove_apply)

subsection \<open>The ready queue as one priority-ordered list\<close>

definition rdy_list :: "kernel \<Rightarrow> tid list" where
  "rdy_list k = concat (map (\<lambda>p. que k (RdyQ p)) [0..<NUM_PRI])"

text \<open>Every queued task carries the priority of its queue.\<close>

definition rq_pris :: "kernel \<Rightarrow> bool" where
  "rq_pris k \<longleftrightarrow> (\<forall>p < NUM_PRI. \<forall>t \<in> set (que k (RdyQ p)). priority (tcb k t) = p)"

lemma rq_prisD: "rq_pris k \<Longrightarrow> p < NUM_PRI \<Longrightarrow> t \<in> set (que k (RdyQ p)) \<Longrightarrow> priority (tcb k t) = p"
  by (simp add: rq_pris_def)

lemma map_upd_notin:
  "p \<notin> set ps \<Longrightarrow> map (\<lambda>q. if q = p then a else f q) ps = map f ps"
  by (induction ps) auto

lemma insert_by_append_low:
  "(\<forall>x \<in> set xs. \<not> gt x e) \<Longrightarrow> insert_by gt e (xs @ ys) = xs @ insert_by gt e ys"
  by (induction xs) auto

lemma insert_by_all_high: "(\<forall>x \<in> set xs. gt x e) \<Longrightarrow> insert_by gt e xs = e # xs"
  by (cases xs) auto

lemma rdy_list_insert:
  assumes "rq_pris k" "priority (tcb k t) < NUM_PRI"
  shows "rdy_list (snd (ready_queue_insert t k)) =
    insert_by (\<lambda>u v. priority (tcb k v) < priority (tcb k u)) t (rdy_list k)"
proof -
  let ?p = "priority (tcb k t)" and ?gt = "\<lambda>u v. priority (tcb k v) < priority (tcb k u)"
  let ?f = "\<lambda>p. que k (RdyQ p)"
  have low: "\<forall>x \<in> set (concat (map ?f [0..<?p]) @ ?f ?p). \<not> ?gt x t"
    using assms(2) by (fastforce dest: rq_prisD [OF assms(1), rotated])
  have high: "\<forall>x \<in> set (concat (map ?f [Suc ?p..<NUM_PRI])). ?gt x t"
    using assms(2) by (fastforce dest: rq_prisD [OF assms(1), rotated])
  have "rdy_list (snd (ready_queue_insert t k)) =
      (concat (map ?f [0..<?p]) @ ?f ?p) @ t # concat (map ?f [Suc ?p..<NUM_PRI])"
    unfolding rdy_list_def ready_queue_insert_que
    by (subst concat_upt_split [OF assms(2)]) (simp add: map_upd_notin)
  also have "\<dots> = insert_by ?gt t (rdy_list k)"
    unfolding rdy_list_def concat_upt_split [OF assms(2)]
    using insert_by_append_low [where gt = ?gt, OF low] insert_by_all_high [where gt = ?gt, OF high]
    by simp
  finally show ?thesis .
qed

lemma remove1_concat_upt:
  assumes "p < n" "\<And>q. q < n \<Longrightarrow> q \<noteq> p \<Longrightarrow> t \<notin> set (f q)"
  shows "concat (map (\<lambda>q. remove1 t (f q)) [0..<n]) = remove1 t (concat (map f [0..<n]))"
proof -
  have "concat (map (\<lambda>q. remove1 t (f q)) [0..<p]) = concat (map f [0..<p])"
    "concat (map (\<lambda>q. remove1 t (f q)) [Suc p..<n]) = concat (map f [Suc p..<n])"
    using assms by (auto intro!: arg_cong [where f = concat])
  moreover have "t \<notin> set (concat (map f [0..<p]))" "t \<notin> set (concat (map f [Suc p..<n]))"
    using assms by auto
  ultimately show ?thesis
    by (simp add: concat_upt_split [OF assms(1)] remove1_append)
qed

lemma rdy_list_delete:
  assumes "disjoint_queues (que k)" "t \<in> set (que k (RdyQ p))" "p < NUM_PRI"
  shows "rdy_list (ready_queue_delete t k) = remove1 t (rdy_list k)"
  unfolding rdy_list_def ready_queue_delete_que QueRemove_apply
  using disjoint_queuesD [OF assms(1,2)] by (intro remove1_concat_upt [OF assms(3)]) auto

lemma rdy_list_top:
  assumes "rq_ok k" "klocktsk k = None"
  shows "ready_queue_top k = (case rdy_list k of [] \<Rightarrow> None | t # _ \<Rightarrow> Some t)"
proof (cases "top_priority k = NUM_PRI")
  case True
  then have "rdy_list k = []"
    using assms by (auto simp: rdy_list_def rq_ok_def rq_top_def)
  with True assms show ?thesis by (simp add: ready_queue_top_eq)
next
  case False
  with assms(1) have lt: "top_priority k < NUM_PRI" and ne: "que k (RdyQ (top_priority k)) \<noteq> []"
    and low: "concat (map (\<lambda>p. que k (RdyQ p)) [0..<top_priority k]) = []"
    by (auto simp: rq_ok_def rq_top_def)
  have "rdy_list k = que k (RdyQ (top_priority k)) @
      concat (map (\<lambda>p. que k (RdyQ p)) [Suc (top_priority k)..<NUM_PRI])"
    unfolding rdy_list_def by (subst concat_upt_split [OF lt]) (simp only: low append_Nil)
  with ne False assms show ?thesis
    by (cases "que k (RdyQ (top_priority k))") (simp_all add: ready_queue_top_eq)
qed

lemma rdy_list_sorted:
  assumes "rq_pris k"
  shows "sorted (map (\<lambda>t. priority (tcb k t)) (rdy_list k))"
proof -
  have "sorted (map (\<lambda>t. priority (tcb k t)) (concat (map (\<lambda>p. que k (RdyQ p)) [0..<n])))"
    if "n \<le> NUM_PRI" for n
    using that
  proof (induction n)
    case (Suc n)
    with assms have "map (\<lambda>t. priority (tcb k t)) (que k (RdyQ n)) = replicate (length (que k (RdyQ n))) n"
      by (auto simp: rq_pris_def intro!: replicate_eqI)
    moreover have "\<forall>t \<in> set (concat (map (\<lambda>p. que k (RdyQ p)) [0..<n])). priority (tcb k t) \<le> n"
      using Suc.prems by (fastforce dest: rq_prisD [OF assms, rotated])
    ultimately show ?case
      using Suc by (auto simp: sorted_append)
  qed simp
  then show ?thesis by (simp add: rdy_list_def)
qed

end
