(* ===== verification/Task.thy ===== *)
theory Task
  imports Ready_Queue
begin

text \<open>
  Task control (\<^verbatim>\<open>task.c\<close>): state transitions into and out of the ready queue, time slices, and the
  choice of the task to run next (\<^verbatim>\<open>schedtsk\<close>). \<^verbatim>\<open>dispatch_request()\<close> is empty on this target.

  A priority change or a released wait runs the hook of the wait specification, a function pointer
  in the code. Hooks are called through a table \<open>hooks\<close>, an argument of the operations that call
  them; theory Hooks ties the table to the hook functions of the objects. A hook may call
  \<open>change_task_priority\<close> again (priority inheritance), so a call may not end: \<open>None\<close>.
\<close>

record hooks =
  chg_pri_hook :: "wspec \<Rightarrow> (tid \<Rightarrow> int \<Rightarrow> kernel \<Rightarrow> kernel option) option"
  rel_wai_hook :: "wspec \<Rightarrow> (tid \<Rightarrow> kernel \<Rightarrow> kernel option) option"

text \<open>
  \<^verbatim>\<open>task_initialize\<close>: the values found in the system configuration (\<open>None\<close> when the entry is missing)
  and whether \<^verbatim>\<open>Imalloc\<close> found memory are arguments.
\<close>

definition task_initialize ::
  "int option \<Rightarrow> int option \<Rightarrow> int option \<Rightarrow> bool \<Rightarrow> kernel \<Rightarrow> ER \<times> kernel" where
  "task_initialize tmaxtskid tsysstksz tsvclimit mem k =
     (let k = (case tmaxtskid of Some n \<Rightarrow> k\<lparr>max_tskid := n\<rparr> | None \<Rightarrow> k)
      in if tmaxtskid = None \<or> max_tskid k < 1 then (E_SYS, k)
      else let k = (case tsysstksz of Some n \<Rightarrow> k\<lparr>default_sstksz := n\<rparr> | None \<Rightarrow> k)
      in if tsysstksz = None \<or> default_sstksz k < 1024 then (E_SYS, k)
      else let k = (case tsvclimit of Some n \<Rightarrow> k\<lparr>svc_call_limit := n\<rparr> | None \<Rightarrow> k)
      in if tsvclimit = None \<or> svc_call_limit k < 0 \<or> svc_call_limit k > 3 then (E_SYS, k)
      else if \<not> mem then (E_NOMEM, k)
      else
        let k = k\<lparr>ctxtsk := None, schedtsk := None\<rparr>;
            k = ready_queue_initialize k;
            k = k\<lparr>dispatch_disabled := 0\<rparr>;
            k = k\<lparr>que := QueInit FreeTcb (que k)\<rparr>;
            k = fold (\<lambda>i k.
                  let k = upd_tcb i (\<lambda>c. c\<lparr>tskid := ID_of i, state := TS_NONEXIST, wrdvno := word_of_int (ID_of i), svclocked := []\<rparr>) k;
                      k = k\<lparr>lock_held := (lock_held k)(SvcLock i := False)\<rparr>
                  in k\<lparr>que := QueInsert i (QHead FreeTcb) (que k)\<rparr>)
                [0..<NUM_TSKID k] k
        in (E_OK, k))"

text \<open>
  \<^verbatim>\<open>setup_context\<close> and \<^verbatim>\<open>setup_stacd\<close> of \<^verbatim>\<open>cpu_task.h\<close>: the fields of the start-up frame.
\<close>

definition setup_context :: "tid \<Rightarrow> kernel \<Rightarrow> kernel" where
  "setup_context t k =
     upd_tcb t (\<lambda>c.
       let rng = drop_bit 8 (tskatr c AND 0x300)
       in c\<lparr>ssframe := (ssframe c)
             \<lparr>fr_rng := rng, fr_thumb := odd (tskentry c), fr_pc := tskentry c - tskentry c mod 2,
              fr_usp := (if 0 < rng then Some (istack c) else fr_usp (ssframe c))\<rparr>\<rparr>) k"

definition setup_stacd :: "tid \<Rightarrow> int \<Rightarrow> kernel \<Rightarrow> kernel" where
  "setup_stacd t stacd k =
     upd_tcb t (\<lambda>c. c\<lparr>ssframe := (ssframe c)\<lparr>fr_r0 := stacd, fr_r1 := exinf c\<rparr>\<rparr>) k"

definition dormant_tcb :: "tcb \<Rightarrow> tcb" where
  "dormant_tcb c = c
     \<lparr>state := TS_DORMANT,
      bpriority := ipriority c, priority := ipriority c,
      sysmode := isysmode c, wupcnt := 0, suscnt := 0, waitmask := 0,
      nodiswai := False, klockwait := False, klocked := False,
      slicetime := 0, stime := 0, utime := 0,
      mtxlist := [], tskevt := 0, reqdct := 0,
      texhdr := 0, texmask := 0, pendtex := 0, exectex := 0, texflg := 0, execssid := 0\<rparr>"

definition make_dormant :: "tid \<Rightarrow> kernel \<Rightarrow> kernel" where
  "make_dormant t k = setup_context t (upd_tcb t dormant_tcb k)"

text \<open>Scheduling by time slice; the result is the new head task.\<close>

definition time_slice_schedule :: "tid option \<Rightarrow> kernel \<Rightarrow> tid option \<times> kernel" where
  "time_slice_schedule tsk k =
     (case tsk of
        None \<Rightarrow> (None, k)
      | Some t \<Rightarrow>
          if 0 < slicetime (tcb k t) then
            let k = upd_tcb t (\<lambda>c. c\<lparr>slicecnt := slicecnt c + TIMER_PERIOD k\<rparr>) k
            in if slicetime (tcb k t) < slicecnt (tcb k t) then ready_queue_move_last t k
               else (Some t, k)
          else (Some t, k))"

definition reschedule :: "kernel \<Rightarrow> kernel" where
  "reschedule k =
     (let toptsk = ready_queue_top k
      in if schedtsk k \<noteq> toptsk then
           let k = (if schedtsk k = ctxtsk k then snd (time_slice_schedule (schedtsk k) k) else k)
           in k\<lparr>schedtsk := toptsk\<rparr>
         else k)"

definition make_ready :: "tid \<Rightarrow> kernel \<Rightarrow> kernel" where
  "make_ready t k =
     (let k = upd_tcb t (\<lambda>c. c\<lparr>state := TS_READY\<rparr>) k;
          (raised, k) = ready_queue_insert t k
      in if raised then
           let k = (if schedtsk k = ctxtsk k then snd (time_slice_schedule (schedtsk k) k) else k)
           in k\<lparr>schedtsk := Some t\<rparr>
         else k)"

definition make_non_ready :: "tid \<Rightarrow> kernel \<Rightarrow> kernel" where
  "make_non_ready t k =
     (let k = ready_queue_delete t k
      in if schedtsk k = Some t then k\<lparr>schedtsk := ready_queue_top k\<rparr> else k)"

text \<open>The cast to \<^verbatim>\<open>UB\<close> of the new priority is written out.\<close>

definition set_priority :: "tid \<Rightarrow> nat \<Rightarrow> kernel \<Rightarrow> kernel" where
  "set_priority t pri k = upd_tcb t (\<lambda>c. c\<lparr>priority := pri mod 256\<rparr>) k"

definition change_task_priority :: "hooks \<Rightarrow> tid \<Rightarrow> nat \<Rightarrow> kernel \<Rightarrow> kernel option" where
  "change_task_priority hk t pri k =
     (if state (tcb k t) = TS_READY then
        let k = ready_queue_delete t k;
            k = set_priority t pri k;
            k = snd (ready_queue_insert t k)
        in Some (reschedule k)
      else
        let oldpri = priority (tcb k t);
            k = set_priority t pri k
        in if ts_wait (state (tcb k t)) then
             case chg_pri_hook hk (wspec (tcb k t)) of
               Some hook \<Rightarrow> hook t (int oldpri) k
             | None \<Rightarrow> Some k
           else Some k)"

definition rotate_ready_queue :: "nat \<Rightarrow> kernel \<Rightarrow> kernel" where
  "rotate_ready_queue pri k = reschedule (ready_queue_rotate pri k)"

definition rotate_ready_queue_run :: "kernel \<Rightarrow> kernel" where
  "rotate_ready_queue_run k =
     (if schedtsk k \<noteq> None
      then reschedule (ready_queue_rotate (ready_queue_top_priority k) k)
      else k)"

text \<open>The debugger's view of one queue: the number of entries, and as many IDs as there is room for.\<close>

definition que_ids :: "tid list \<Rightarrow> int \<Rightarrow> kernel \<Rightarrow> int \<times> ID list" where
  "que_ids ts nent k = (int (length ts), map (\<lambda>t. tskid (tcb k t)) (take (nat nent) ts))"

text \<open>The same for a list of object IDs.\<close>

definition id_list :: "ID list \<Rightarrow> int \<Rightarrow> int \<times> ID list" where
  "id_list ids nent = (int (length ids), take (nat nent) ids)"

text \<open>\<^verbatim>\<open>strncpy\<close> into a name field: the bytes up to the first zero, padded with zeros.\<close>

definition strncpy :: "UB list \<Rightarrow> nat \<Rightarrow> UB list" where
  "strncpy s n = take n (takeWhile (\<lambda>b. b \<noteq> 0) s @ replicate n 0)"

definition td_rdy_que :: "int \<Rightarrow> int \<Rightarrow> kernel \<Rightarrow> int \<times> ID list" where
  "td_rdy_que pri nent k =
     (case CHECK_PRI pri of
        Some e \<Rightarrow> (e, [])
      | None \<Rightarrow> que_ids (que k (RdyQ (int_priority pri))) nent k)"

end
