(* ===== verification/Timer.thy ===== *)
theory Timer
  imports Task
begin

text \<open>
  Timer control (\<^verbatim>\<open>timer.c\<close>, \<^verbatim>\<open>timer.h\<close>). System time is a 64-bit count of microseconds; sums wrap
  around, and two times compare by the sign of their difference (\<^verbatim>\<open>ll_cmp\<close>). The timer event queue
  is the list of its event blocks. Callbacks are run by an argument of the handler.
\<close>

definition ll_cmp :: "D \<Rightarrow> D \<Rightarrow> D" where
  "ll_cmp a b = a - b"

definition toLSYSTIM :: "UW \<Rightarrow> UW \<Rightarrow> D" where
  "toLSYSTIM hi lo = (push_bit 32 (scast hi) OR ucast lo) * 1000"

definition upd_tmeb :: "tmeb_ref \<Rightarrow> (tmeb \<Rightarrow> tmeb) \<Rightarrow> kernel \<Rightarrow> kernel" where
  "upd_tmeb e f k = k\<lparr>tmebs := (tmebs k)(e := f (tmebs k e))\<rparr>"

definition adjust_time :: "kernel \<Rightarrow> D" where
  "adjust_time k = ucast (hw_timer_usec k)"

text \<open>
  \<^verbatim>\<open>timer_initialize\<close>: the configured period in milliseconds and the optional microsecond part; the
  limits are \<^verbatim>\<open>MIN_TIMER_PERIOD\<close> and \<^verbatim>\<open>MAX_TIMER_PERIOD\<close> of the target.
\<close>

definition timer_initialize :: "int list \<Rightarrow> kernel \<Rightarrow> ER \<times> kernel" where
  "timer_initialize t k =
     (if t = [] then (E_SYS, k)
      else
        let t1 = (case t of [_] \<Rightarrow> 0 | _ \<Rightarrow> t ! 1);
            k = k\<lparr>TIMER_PERIOD := to_usec (word_of_int (t ! 0)) + word_of_int t1\<rparr>
        in if TIMER_PERIOD k < 10 \<or> 50000 < TIMER_PERIOD k then (E_SYS, k)
           else (E_OK, k\<lparr>current_time := 0, real_time_ofs := 0, timer_queue := []\<rparr>))"

definition enqueue_tmeb :: "tmeb_ref \<Rightarrow> kernel \<Rightarrow> kernel" where
  "enqueue_tmeb event k =
     k\<lparr>timer_queue :=
         insert_by (\<lambda>q e. ll_cmp (tm_time (tmebs k e)) (tm_time (tmebs k q)) <s 0) event (timer_queue k)\<rparr>"

text \<open>With \<^verbatim>\<open>TMO_FEVR\<close> the block is initialised as a ring of its own: it is on no queue.\<close>

definition timer_insert :: "tmeb_ref \<Rightarrow> D \<Rightarrow> callback \<Rightarrow> kernel \<Rightarrow> kernel" where
  "timer_insert event tmout cb k =
     (let k = upd_tmeb event (\<lambda>e. e\<lparr>tm_callback := cb\<rparr>) k
      in if tmout = TMO_FEVR then k
         else enqueue_tmeb event
           (upd_tmeb event (\<lambda>e. e\<lparr>tm_time := current_time k + tmout + adjust_time k\<rparr>) k))"

definition timer_insert_reltim :: "tmeb_ref \<Rightarrow> D \<Rightarrow> callback \<Rightarrow> kernel \<Rightarrow> kernel" where
  "timer_insert_reltim event tmout cb k =
     (let k = upd_tmeb event (\<lambda>e. e\<lparr>tm_callback := cb\<rparr>) k
      in enqueue_tmeb event
           (upd_tmeb event (\<lambda>e. e\<lparr>tm_time := current_time k + tmout + adjust_time k\<rparr>) k))"

definition timer_insert_abs :: "tmeb_ref \<Rightarrow> D \<Rightarrow> callback \<Rightarrow> kernel \<Rightarrow> kernel" where
  "timer_insert_abs event time cb k =
     enqueue_tmeb event (upd_tmeb event (\<lambda>e. e\<lparr>tm_callback := cb, tm_time := time\<rparr>) k)"

definition timer_delete :: "tmeb_ref \<Rightarrow> kernel \<Rightarrow> kernel" where
  "timer_delete event k = k\<lparr>timer_queue := remove1 event (timer_queue k)\<rparr>"

text \<open>First half of the interrupt handler: clock, execution time, time slice.\<close>

definition timer_tick :: "kernel \<Rightarrow> kernel" where
  "timer_tick k =
     (let k = k\<lparr>current_time := current_time k + TIMER_PERIOD k\<rparr>
      in case ctxtsk k of
           None \<Rightarrow> k
         | Some t \<Rightarrow>
             let k = upd_tcb t (\<lambda>c. if 0 < sysmode c then c\<lparr>stime := stime c + TIMER_PERIOD k\<rparr>
                                    else c\<lparr>utime := utime c + TIMER_PERIOD k\<rparr>) k
             in if schedtsk k = ctxtsk k
                then let (tsk, k) = time_slice_schedule (ctxtsk k) k in k\<lparr>schedtsk := tsk\<rparr>
                else k)"

text \<open>
  Second half: run the events that are due. A callback may queue events again (cyclic handlers), so
  the loop carries fuel; \<open>timer_events_enough\<close> in theory Timer_Queue says how much is enough.
\<close>

fun timer_events ::
  "nat \<Rightarrow> (callback \<Rightarrow> tmeb_ref \<Rightarrow> kernel \<Rightarrow> kernel option) \<Rightarrow> kernel \<Rightarrow> kernel option" where
  "timer_events 0 run k = None"
| "timer_events (Suc n) run k =
     (case timer_queue k of
        [] \<Rightarrow> Some k
      | event # _ \<Rightarrow>
          if 0 <s ll_cmp (tm_time (tmebs k event)) (current_time k) then Some k
          else
            case run (tm_callback (tmebs k event)) event (timer_delete event k) of
              None \<Rightarrow> None
            | Some k \<Rightarrow> timer_events n run k)"

definition timer_handler ::
  "nat \<Rightarrow> (callback \<Rightarrow> tmeb_ref \<Rightarrow> kernel \<Rightarrow> kernel option) \<Rightarrow> kernel \<Rightarrow> kernel option" where
  "timer_handler n run k =
     map_option END_CRITICAL_SECTION (timer_events n run (timer_tick k))"

end
