(* ===== verification/Wait.thy ===== *)
theory Wait
  imports Timer
begin

text \<open>
  Common routines for synchronisation (\<^verbatim>\<open>wait.c\<close>, \<^verbatim>\<open>wait.h\<close>): entering a wait on an object queue with
  a timeout, the four ways to release it, and the priority-ordered insertion into wait queues. The
  generic control block is passed as its queue head, its ID and its attribute word.
\<close>

definition make_non_wait :: "tid \<Rightarrow> kernel \<Rightarrow> kernel" where
  "make_non_wait t k =
     (if state (tcb k t) = TS_WAIT then make_ready t k
      else upd_tcb t (\<lambda>c. c\<lparr>state := TS_SUSPEND\<rparr>) k)"

definition que_remove :: "tid \<Rightarrow> kernel \<Rightarrow> kernel" where
  "que_remove t k = k\<lparr>que := QueRemove t (que k)\<rparr>"

definition que_append :: "tid \<Rightarrow> qhead \<Rightarrow> kernel \<Rightarrow> kernel" where
  "que_append t h k = k\<lparr>que := QueInsert t (QHead h) (que k)\<rparr>"

definition wait_release :: "tid \<Rightarrow> kernel \<Rightarrow> kernel" where
  "wait_release t k = make_non_wait t (que_remove t (timer_delete (TskTmeb t) k))"

definition set_wercd :: "tid \<Rightarrow> ER \<Rightarrow> kernel \<Rightarrow> kernel" where
  "set_wercd t ercd k = upd_tcb t (\<lambda>c. c\<lparr>wercd := ercd\<rparr>) k"

definition wait_release_ok :: "tid \<Rightarrow> kernel \<Rightarrow> kernel" where
  "wait_release_ok t k = set_wercd t E_OK (wait_release t k)"

definition wait_release_ok_ercd :: "tid \<Rightarrow> ER \<Rightarrow> kernel \<Rightarrow> kernel" where
  "wait_release_ok_ercd t ercd k = set_wercd t ercd (wait_release t k)"

definition call_rel_wai_hook :: "hooks \<Rightarrow> tid \<Rightarrow> kernel \<Rightarrow> kernel option" where
  "call_rel_wai_hook hk t k =
     (case rel_wai_hook hk (wspec (tcb k t)) of Some hook \<Rightarrow> hook t k | None \<Rightarrow> Some k)"

definition wait_release_ng :: "hooks \<Rightarrow> tid \<Rightarrow> ER \<Rightarrow> kernel \<Rightarrow> kernel option" where
  "wait_release_ng hk t ercd k =
     map_option (set_wercd t ercd) (call_rel_wai_hook hk t (wait_release t k))"

definition wait_release_tmout :: "hooks \<Rightarrow> tid \<Rightarrow> kernel \<Rightarrow> kernel option" where
  "wait_release_tmout hk t k = call_rel_wai_hook hk t (make_non_wait t (que_remove t k))"

definition wait_cancel :: "tid \<Rightarrow> kernel \<Rightarrow> kernel" where
  "wait_cancel t k = que_remove t (timer_delete (TskTmeb t) k)"

text \<open>The state change that \<^verbatim>\<open>make_wait\<close> and \<^verbatim>\<open>make_wait_reltim\<close> share.\<close>

definition enter_wait :: "tid \<Rightarrow> UW \<Rightarrow> kernel \<Rightarrow> kernel" where
  "enter_wait t atr k =
     (let k = (case state (tcb k t) of
                 TS_READY \<Rightarrow> upd_tcb t (\<lambda>c. c\<lparr>state := TS_WAIT\<rparr>) (make_non_ready t k)
               | TS_SUSPEND \<Rightarrow> upd_tcb t (\<lambda>c. c\<lparr>state := TS_WAITSUS\<rparr>) k
               | _ \<Rightarrow> k)
      in upd_tcb t (\<lambda>c. c\<lparr>nodiswai := (atr AND TA_NODISWAI \<noteq> 0)\<rparr>) k)"

definition make_wait :: "D \<Rightarrow> UW \<Rightarrow> kernel \<Rightarrow> kernel" where
  "make_wait tmout atr k =
     timer_insert (TskTmeb (self k)) tmout CB_wait_release_tmout (enter_wait (self k) atr k)"

definition make_wait_reltim :: "D \<Rightarrow> UW \<Rightarrow> kernel \<Rightarrow> kernel" where
  "make_wait_reltim tmout atr k =
     timer_insert_reltim (TskTmeb (self k)) tmout CB_wait_release_tmout (enter_wait (self k) atr k)"

text \<open>
  \<^verbatim>\<open>wait_delete\<close> runs until the queue is empty. Each round takes one task off the queue, so the
  length of the queue is enough rounds (\<open>wait_delete_empties\<close>).
\<close>

fun wait_delete_loop :: "nat \<Rightarrow> qhead \<Rightarrow> kernel \<Rightarrow> kernel" where
  "wait_delete_loop 0 h k = k"
| "wait_delete_loop (Suc n) h k =
     (case que k h of
        [] \<Rightarrow> k
      | t # _ \<Rightarrow> wait_delete_loop n h (set_wercd t E_DLT (wait_release t k)))"

definition wait_delete :: "qhead \<Rightarrow> kernel \<Rightarrow> kernel" where
  "wait_delete h k = wait_delete_loop (length (que k h)) h k"

definition wait_tskid :: "qhead \<Rightarrow> kernel \<Rightarrow> ID" where
  "wait_tskid h k = (case que k h of [] \<Rightarrow> 0 | t # _ \<Rightarrow> tskid (tcb k t))"

definition queue_insert_tpri :: "tid \<Rightarrow> qhead \<Rightarrow> kernel \<Rightarrow> kernel" where
  "queue_insert_tpri t h k =
     k\<lparr>que := QueInsert t
         (que_search (\<lambda>u. priority (tcb k t) < priority (tcb k u)) h (que k)) (que k)\<rparr>"

definition gcb_make_wait :: "qhead \<Rightarrow> ID \<Rightarrow> UW \<Rightarrow> D \<Rightarrow> kernel \<Rightarrow> kernel" where
  "gcb_make_wait h objid objatr tmout k =
     (let t = self k;
          k = upd_tcb t (\<lambda>c. c\<lparr>wid := objid\<rparr>) k;
          k = make_wait tmout objatr k
      in if objatr AND TA_TPRI \<noteq> 0 then queue_insert_tpri t h k else que_append t h k)"

definition is_diswai :: "UW \<Rightarrow> tcb \<Rightarrow> UW \<Rightarrow> bool" where
  "is_diswai objatr c tw \<longleftrightarrow> waitmask c AND tw \<noteq> 0 \<and> objatr AND TA_NODISWAI = 0"

definition gcb_make_wait_with_diswai :: "qhead \<Rightarrow> ID \<Rightarrow> UW \<Rightarrow> D \<Rightarrow> kernel \<Rightarrow> kernel" where
  "gcb_make_wait_with_diswai h objid objatr tmout k =
     (let t = self k
      in if is_diswai objatr (tcb k t) (tskwait (wspec (tcb k t))) then set_wercd t E_DISWAI k
         else
           let k = set_wercd t E_TMOUT k
           in if tmout \<noteq> TMO_POL then gcb_make_wait h objid objatr tmout k else k)"

definition gcb_change_priority :: "qhead \<Rightarrow> tid \<Rightarrow> kernel \<Rightarrow> kernel" where
  "gcb_change_priority h t k = queue_insert_tpri t h (que_remove t k)"

definition gcb_top_of_wait_queue :: "qhead \<Rightarrow> UW \<Rightarrow> tid \<Rightarrow> kernel \<Rightarrow> tid" where
  "gcb_top_of_wait_queue h objatr t k =
     (case que k h of
        [] \<Rightarrow> t
      | q # _ \<Rightarrow>
          if objatr AND TA_TPRI = 0 then q
          else if priority (tcb k t) < priority (tcb k q) then t else q)"

end
