(* ===== verification/Kernel_Inv.thy ===== *)
theory Kernel_Inv
  imports Wait
begin

text \<open>
  The invariant of the scheduler and its primitives. Every task is on the one queue its state calls
  for (\<open>home\<close>): the free queue, the ready queue of its priority, or the wait queue of the object it
  waits for. The ready queue is consistent, \<^verbatim>\<open>schedtsk\<close> is its top, and a task's timer event is queued
  only while the task waits. Inside a critical section a task may be between two queues: \<open>kinv X\<close>
  exempts the tasks of \<open>X\<close>.
\<close>

subsection \<open>What an operation leaves alone\<close>

text \<open>
  \<open>objs k\<close> keeps what belongs neither to the scheduler nor to the queues nor to the timer; \<open>core c\<close>
  keeps of a TCB what the state transitions do not touch.
\<close>

definition objs :: "kernel \<Rightarrow> kernel" where
  "objs k = k\<lparr>tcb_table := undefined, que := undefined, schedtsk := None,
     top_priority := 0, rq_bitmap := undefined, klocktsk := None, timer_queue := [], tmebs := undefined\<rparr>"

definition core :: "tcb \<Rightarrow> tcb" where
  "core c = c\<lparr>slicecnt := 0, state := TS_NONEXIST, klockwait := False, wercd := 0\<rparr>"

lemma objs_eqD:
  assumes "objs k' = objs k"
  shows "max_tskid k' = max_tskid k" "max_semid k' = max_semid k" "max_flgid k' = max_flgid k"
    "max_mbxid k' = max_mbxid k" "max_mtxid k' = max_mtxid k" "max_cycid k' = max_cycid k"
    "max_almid k' = max_almid k" "dispatch_disabled k' = dispatch_disabled k" "isDI k' = isDI k"
    "isTaskIndependent k' = isTaskIndependent k" "rq_null k' = rq_null k"
    "lock_held k' = lock_held k" "TIMER_PERIOD k' = TIMER_PERIOD k" "current_time k' = current_time k"
    "real_time_ofs k' = real_time_ofs k" "hw_timer_usec k' = hw_timer_usec k"
    "semcb_table k' = semcb_table k" "free_semcb k' = free_semcb k"
    "flgcb_table k' = flgcb_table k" "free_flgcb k' = free_flgcb k"
    "mbxcb_table k' = mbxcb_table k" "free_mbxcb k' = free_mbxcb k"
    "msgque k' = msgque k" "msgpri k' = msgpri k"
    "mtxcb_table k' = mtxcb_table k" "free_mtxcb k' = free_mtxcb k"
    "cyccb_table k' = cyccb_table k" "free_cyccb k' = free_cyccb k"
    "almcb_table k' = almcb_table k" "free_almcb k' = free_almcb k"
    "mem_uint k' = mem_uint k" "mem_ptr k' = mem_ptr k" "NUM_TSKID k' = NUM_TSKID k"
    "ctxtsk k' = ctxtsk k" "max_mbfid k' = max_mbfid k" "max_porid k' = max_porid k"
    "mbfcb_table k' = mbfcb_table k" "free_mbfcb k' = free_mbfcb k"
    "porcb_table k' = porcb_table k" "free_porcb k' = free_porcb k"
    "mem_int k' = mem_int k" "mem_byte k' = mem_byte k"
  using arg_cong [OF assms, where f = "\<lambda>k. (max_tskid k, max_semid k, max_flgid k, max_mbxid k,
      max_mtxid k, max_cycid k, max_almid k, dispatch_disabled k, isDI k, isTaskIndependent k,
      rq_null k, lock_held k, TIMER_PERIOD k, current_time k)"]
    arg_cong [OF assms, where f = "\<lambda>k. (real_time_ofs k, hw_timer_usec k, semcb_table k, free_semcb k,
      flgcb_table k, free_flgcb k, mbxcb_table k, free_mbxcb k, msgque k, msgpri k)"]
    arg_cong [OF assms, where f = "\<lambda>k. (mtxcb_table k, free_mtxcb k, cyccb_table k, free_cyccb k,
      almcb_table k, free_almcb k, mem_uint k, mem_ptr k, ctxtsk k)"]
    arg_cong [OF assms, where f = "\<lambda>k. (max_mbfid k, max_porid k, mbfcb_table k, free_mbfcb k,
      porcb_table k, free_porcb k, mem_int k, mem_byte k)"]
  by (simp_all add: objs_def NUM_TSKID_def)

lemma core_eqD:
  assumes "core c' = core c"
  shows "tskid c' = tskid c" "exinf c' = exinf c" "tskatr c' = tskatr c" "priority c' = priority c"
    "bpriority c' = bpriority c" "ipriority c' = ipriority c" "nodiswai c' = nodiswai c"
    "klocked c' = klocked c" "wspec c' = wspec c" "wid c' = wid c" "wupcnt c' = wupcnt c"
    "suscnt c' = suscnt c" "winfo c' = winfo c" "waitmask c' = waitmask c" "mtxlist c' = mtxlist c"
    "tskevt c' = tskevt c" "svclocked c' = svclocked c" "slicetime c' = slicetime c"
    "sysmode c' = sysmode c" "resid c' = resid c" "tskname c' = tskname c" "reqdct c' = reqdct c"
    "wrdvno c' = wrdvno c"
  using arg_cong [OF assms, where f = "\<lambda>c. (tskid c, exinf c, tskatr c, priority c, bpriority c,
      ipriority c, nodiswai c, klocked c, wspec c, wid c, wupcnt c)"]
    arg_cong [OF assms, where f = "\<lambda>c. (suscnt c, winfo c, waitmask c, mtxlist c, tskevt c, svclocked c,
      slicetime c, sysmode c, resid c, tskname c, reqdct c, wrdvno c)"]
  by (simp_all add: core_def)

lemma core_upd [simp]:
  "core (c\<lparr>slicecnt := s\<rparr>) = core c" "core (c\<lparr>state := st\<rparr>) = core c"
  "core (c\<lparr>klockwait := b\<rparr>) = core c" "core (c\<lparr>wercd := e\<rparr>) = core c"
  by (simp_all add: core_def)

lemma objs_upd [simp]:
  "objs (k\<lparr>que := a\<rparr>) = objs k" "objs (k\<lparr>tcb_table := b\<rparr>) = objs k"
  "objs (k\<lparr>schedtsk := d\<rparr>) = objs k" "objs (k\<lparr>top_priority := e\<rparr>) = objs k"
  "objs (k\<lparr>rq_bitmap := f\<rparr>) = objs k" "objs (k\<lparr>klocktsk := g\<rparr>) = objs k"
  "objs (k\<lparr>timer_queue := h\<rparr>) = objs k" "objs (k\<lparr>tmebs := i\<rparr>) = objs k"
  by (simp_all add: objs_def)

lemma objs_upd_tcb [simp]: "objs (upd_tcb t f k) = objs k"
  by (simp add: upd_tcb_def)

lemma objs_upd_tmeb [simp]: "objs (upd_tmeb e f k) = objs k"
  by (simp add: upd_tmeb_def)

text \<open>The ready queue operations and the time slice touch neither.\<close>

lemma ready_queue_objs [simp]:
  "objs (snd (ready_queue_insert t k)) = objs k"
  "objs (ready_queue_insert_top t k) = objs k"
  "objs (ready_queue_delete t k) = objs k"
  "objs (ready_queue_rotate p k) = objs k"
  "objs (snd (ready_queue_move_last t k)) = objs k"
  by (auto simp: ready_queue_insert_def ready_queue_insert_top_def ready_queue_delete_def
      ready_queue_rotate_def ready_queue_move_last_def Let_def split: option.splits prod.splits)

lemma ready_queue_rotate_tcb_slice:
  "tcb (ready_queue_rotate p k) u = (tcb k u)\<lparr>slicecnt := slicecnt (tcb (ready_queue_rotate p k) u)\<rparr>"
  by (auto simp: ready_queue_rotate_def split: option.splits prod.splits)

lemma ready_queue_core [simp]:
  "core (tcb (snd (ready_queue_insert t k)) u) = core (tcb k u)"
  "core (tcb (ready_queue_delete t k) u) = core (tcb k u)"
  "core (tcb (ready_queue_rotate p k) u) = core (tcb k u)"
  "core (tcb (snd (ready_queue_move_last t k)) u) = core (tcb k u)"
  by (simp_all add: frame, subst ready_queue_rotate_tcb_slice, simp)

lemma time_slice_schedule_objs [simp]: "objs (snd (time_slice_schedule ts k)) = objs k"
  by (auto simp: time_slice_schedule_def Let_def split: option.splits)

lemma time_slice_schedule_tcb:
  "tcb (snd (time_slice_schedule ts k)) u =
     (tcb k u)\<lparr>slicecnt := slicecnt (tcb (snd (time_slice_schedule ts k)) u)\<rparr>"
  by (auto simp: time_slice_schedule_def Let_def frame split: option.splits)

lemma time_slice_schedule_core [simp]:
  "core (tcb (snd (time_slice_schedule ts k)) u) = core (tcb k u)"
  by (subst time_slice_schedule_tcb) simp

lemma time_slice_schedule_state [simp]:
  "state (tcb (snd (time_slice_schedule ts k)) u) = state (tcb k u)"
  "klockwait (tcb (snd (time_slice_schedule ts k)) u) = klockwait (tcb k u)"
  "wercd (tcb (snd (time_slice_schedule ts k)) u) = wercd (tcb k u)"
  by (subst time_slice_schedule_tcb, simp)+

lemma time_slice_schedule_frame [simp]:
  "schedtsk (snd (time_slice_schedule ts k)) = schedtsk k"
  "klocktsk (snd (time_slice_schedule ts k)) = klocktsk k"
  "top_priority (snd (time_slice_schedule ts k)) = top_priority k"
  "rq_bitmap (snd (time_slice_schedule ts k)) = rq_bitmap k"
  "timer_queue (snd (time_slice_schedule ts k)) = timer_queue k"
  "tmebs (snd (time_slice_schedule ts k)) = tmebs k"
  by (auto simp: time_slice_schedule_def Let_def frame split: option.splits)

lemmas time_slice_schedule_sel [simp] =
  objs_eqD [OF time_slice_schedule_objs] core_eqD [OF time_slice_schedule_core]

lemma reschedule_objs [simp]: "objs (reschedule k) = objs k"
  by (simp add: reschedule_def Let_def)

lemma reschedule_core [simp]:
  "core (tcb (reschedule k) u) = core (tcb k u)"
  "state (tcb (reschedule k) u) = state (tcb k u)"
  "klockwait (tcb (reschedule k) u) = klockwait (tcb k u)"
  "wercd (tcb (reschedule k) u) = wercd (tcb k u)"
  "timer_queue (reschedule k) = timer_queue k"
  "tmebs (reschedule k) = tmebs k"
  by (simp_all add: reschedule_def Let_def)

lemmas reschedule_sel [simp] = objs_eqD [OF reschedule_objs] core_eqD [OF reschedule_core(1)]

lemma make_ready_objs [simp]: "objs (make_ready t k) = objs k"
  by (simp add: make_ready_def Let_def split_beta)

lemma make_ready_core [simp]:
  "core (tcb (make_ready t k) u) = core (tcb k u)"
  "state (tcb (make_ready t k) u) = (if u = t then TS_READY else state (tcb k u))"
  "klockwait (tcb (make_ready t k) u) = klockwait (tcb k u)"
  "wercd (tcb (make_ready t k) u) = wercd (tcb k u)"
  "timer_queue (make_ready t k) = timer_queue k"
  "tmebs (make_ready t k) = tmebs k"
  by (simp_all add: make_ready_def Let_def split_beta frame)

lemmas make_ready_sel [simp] = objs_eqD [OF make_ready_objs] core_eqD [OF make_ready_core(1)]

lemma make_non_ready_objs [simp]: "objs (make_non_ready t k) = objs k"
  by (simp add: make_non_ready_def Let_def)

lemma make_non_ready_core [simp]:
  "core (tcb (make_non_ready t k) u) = core (tcb k u)"
  "state (tcb (make_non_ready t k) u) = state (tcb k u)"
  "wercd (tcb (make_non_ready t k) u) = wercd (tcb k u)"
  "timer_queue (make_non_ready t k) = timer_queue k"
  "tmebs (make_non_ready t k) = tmebs k"
  "que (make_non_ready t k) = QueRemove t (que k)"
  by (simp_all add: make_non_ready_def Let_def frame ready_queue_delete_que)

lemmas make_non_ready_sel [simp] = objs_eqD [OF make_non_ready_objs] core_eqD [OF make_non_ready_core(1)]

subsection \<open>The invariant\<close>

text \<open>The queue a task in wait state is on: the object that its wait specification and ID name.\<close>

fun wait_home :: "wspec \<Rightarrow> ID \<Rightarrow> qhead option" where
  "wait_home WSPEC_SLP oid = None"
| "wait_home WSPEC_DLY oid = None"
| "wait_home (WSPEC_TEV w) oid = None"
| "wait_home WSPEC_SEM_TFIFO oid = Some (SemQ (INDEX oid))"
| "wait_home WSPEC_SEM_TPRI oid = Some (SemQ (INDEX oid))"
| "wait_home WSPEC_FLG_TFIFO oid = Some (FlgQ (INDEX oid))"
| "wait_home WSPEC_FLG_TPRI oid = Some (FlgQ (INDEX oid))"
| "wait_home WSPEC_MBX_TFIFO oid = Some (MbxQ (INDEX oid))"
| "wait_home WSPEC_MBX_TPRI oid = Some (MbxQ (INDEX oid))"
| "wait_home WSPEC_MTX_TFIFO oid = Some (MtxQ (INDEX oid))"
| "wait_home WSPEC_MTX_TPRI oid = Some (MtxQ (INDEX oid))"
| "wait_home WSPEC_MTX_INHERIT oid = Some (MtxQ (INDEX oid))"
| "wait_home WSPEC_SMBF_TFIFO oid = Some (SmbfQ (INDEX oid))"
| "wait_home WSPEC_SMBF_TPRI oid = Some (SmbfQ (INDEX oid))"
| "wait_home WSPEC_RMBF oid = Some (RmbfQ (INDEX oid))"
| "wait_home WSPEC_CAL_TFIFO oid = Some (CalQ (INDEX oid))"
| "wait_home WSPEC_CAL_TPRI oid = Some (CalQ (INDEX oid))"
| "wait_home WSPEC_ACP oid = Some (AcpQ (INDEX oid))"
| "wait_home WSPEC_RDV oid = None"

definition home :: "tcb \<Rightarrow> qhead option" where
  "home c =
     (case state c of
        TS_NONEXIST \<Rightarrow> Some FreeTcb
      | TS_READY \<Rightarrow> Some (RdyQ (priority c))
      | TS_WAIT \<Rightarrow> wait_home (wspec c) (wid c)
      | TS_WAITSUS \<Rightarrow> wait_home (wspec c) (wid c)
      | _ \<Rightarrow> None)"

definition qinv :: "tid set \<Rightarrow> kernel \<Rightarrow> bool" where
  "qinv X k \<longleftrightarrow>
     (\<forall>h. distinct (que k h)) \<and>
     (\<forall>h t. t \<in> set (que k h) \<longleftrightarrow> t < NUM_TSKID k \<and> t \<notin> X \<and> home (tcb k t) = Some h)"

definition wf_tcb :: "tcb \<Rightarrow> bool" where
  "wf_tcb c \<longleftrightarrow> \<not> klocked c \<and> \<not> klockwait c \<and>
     (state c \<noteq> TS_NONEXIST \<longrightarrow> priority c < NUM_PRI \<and> bpriority c < NUM_PRI)"

definition tasks_ok :: "kernel \<Rightarrow> bool" where
  "tasks_ok k \<longleftrightarrow> (\<forall>t < NUM_TSKID k. wf_tcb (tcb k t) \<and> tskid (tcb k t) = ID_of t)"

definition timers_ok :: "kernel \<Rightarrow> bool" where
  "timers_ok k \<longleftrightarrow>
     distinct (timer_queue k) \<and>
     (\<forall>t. TskTmeb t \<in> set (timer_queue k) \<longrightarrow>
        t < NUM_TSKID k \<and> ts_wait (state (tcb k t)) \<and>
        tm_callback (tmebs k (TskTmeb t)) = CB_wait_release_tmout)"

definition kinvq :: "tid set \<Rightarrow> kernel \<Rightarrow> bool" where
  "kinvq X k \<longleftrightarrow> qinv X k \<and> tasks_ok k \<and> timers_ok k \<and> rq_ok k \<and> klocktsk k = None"

definition kinv :: "tid set \<Rightarrow> kernel \<Rightarrow> bool" where
  "kinv X k \<longleftrightarrow> kinvq X k \<and> schedtsk k = ready_queue_top k"

lemma home_simps [simp]:
  "state c = TS_NONEXIST \<Longrightarrow> home c = Some FreeTcb"
  "state c = TS_READY \<Longrightarrow> home c = Some (RdyQ (priority c))"
  "state c = TS_WAIT \<Longrightarrow> home c = wait_home (wspec c) (wid c)"
  "state c = TS_WAITSUS \<Longrightarrow> home c = wait_home (wspec c) (wid c)"
  "state c = TS_SUSPEND \<Longrightarrow> home c = None"
  "state c = TS_DORMANT \<Longrightarrow> home c = None"
  by (simp_all add: home_def)

lemma wait_home_neq [simp]:
  "wait_home w i \<noteq> Some (RdyQ p)" "wait_home w i \<noteq> Some FreeTcb" "wait_home w i \<noteq> Some (LockQ l)"
  by (cases w; simp)+

lemma home_RdyQ_iff [simp]: "home c = Some (RdyQ p) \<longleftrightarrow> state c = TS_READY \<and> priority c = p"
  by (cases "state c") auto

lemma home_FreeTcb_iff [simp]: "home c = Some FreeTcb \<longleftrightarrow> state c = TS_NONEXIST"
  by (cases "state c") auto

lemma home_cong:
  assumes "core c' = core c" "state c' = state c"
  shows "home c' = home c"
  unfolding home_def assms(2) core_eqD [OF assms(1)] by (rule refl)

lemma home_ready_cong:
  "state c' = TS_READY \<Longrightarrow> priority c' = p \<Longrightarrow> home c' = Some (RdyQ p)"
  by simp

lemma qinv_distinct: "qinv X k \<Longrightarrow> distinct (que k h)"
  by (simp add: qinv_def)

lemma qinv_mem:
  "qinv X k \<Longrightarrow> t \<in> set (que k h) \<longleftrightarrow> t < NUM_TSKID k \<and> t \<notin> X \<and> home (tcb k t) = Some h"
  by (simp add: qinv_def)

lemma qinv_disjoint: "qinv X k \<Longrightarrow> disjoint_queues (que k)"
  by (auto simp: disjoint_queues_def qinv_def)

lemma qinv_cong:
  assumes "que k' = que k" "NUM_TSKID k' = NUM_TSKID k"
    "\<And>t. t < NUM_TSKID k \<Longrightarrow> t \<notin> X \<Longrightarrow> home (tcb k' t) = home (tcb k t)"
  shows "qinv X k' = qinv X k"
  unfolding qinv_def assms(1,2) using assms(3) by (metis (no_types, lifting))

lemma rq_ok_cong:
  assumes "\<And>p. que k' (RdyQ p) = que k (RdyQ p)" "rq_bitmap k' = rq_bitmap k"
    "top_priority k' = top_priority k" "rq_null k' = rq_null k"
  shows "rq_ok k' = rq_ok k"
  using assms by (simp add: rq_ok_def rq_bits_def rq_top_def)

lemma ready_queue_top_cong:
  assumes "\<And>p. que k' (RdyQ p) = que k (RdyQ p)" "klocktsk k' = klocktsk k"
    "top_priority k' = top_priority k" "rq_null k' = rq_null k"
  shows "ready_queue_top k' = ready_queue_top k"
  unfolding ready_queue_top_def assms by (rule refl)

lemma timers_ok_cong:
  assumes "timer_queue k' = timer_queue k" "tmebs k' = tmebs k" "NUM_TSKID k' = NUM_TSKID k"
    "\<And>t. TskTmeb t \<in> set (timer_queue k) \<Longrightarrow> ts_wait (state (tcb k t)) \<Longrightarrow> ts_wait (state (tcb k' t))"
  shows "timers_ok k \<Longrightarrow> timers_ok k'"
  using assms by (auto simp: timers_ok_def)

lemma wf_tcb_cong:
  assumes "core c' = core c" "state c' = state c" "klockwait c' = klockwait c"
  shows "wf_tcb c' = wf_tcb c"
  using core_eqD [OF assms(1)] assms(2,3) by (simp add: wf_tcb_def)

lemma kinvqD:
  assumes "kinvq X k"
  shows "qinv X k" "tasks_ok k" "timers_ok k" "rq_ok k" "klocktsk k = None"
    "disjoint_queues (que k)"
  using assms qinv_disjoint by (auto simp: kinvq_def)

lemma kinv_kinvq: "kinv X k \<Longrightarrow> kinvq X k"
  by (simp add: kinv_def)

lemmas kinvD = kinvqD [OF kinv_kinvq]

lemma kinv_mem:
  "kinv X k \<Longrightarrow> t \<in> set (que k h) \<longleftrightarrow> t < NUM_TSKID k \<and> t \<notin> X \<and> home (tcb k t) = Some h"
  by (rule qinv_mem) (rule kinvD)

lemma tasks_ok_priority:
  "tasks_ok k \<Longrightarrow> t < NUM_TSKID k \<Longrightarrow> state (tcb k t) \<noteq> TS_NONEXIST \<Longrightarrow> priority (tcb k t) < NUM_PRI"
  by (simp add: tasks_ok_def wf_tcb_def)

text \<open>An exempt task without a queue of its own need not be exempt.\<close>

lemma qinv_no_home:
  "t \<notin> X \<Longrightarrow> home (tcb k t) = None \<Longrightarrow> qinv (insert t X) k = qinv X k"
  by (auto simp: qinv_def)

lemma kinv_no_home: "home (tcb k t) = None \<Longrightarrow> kinv {t} k = kinv {} k"
  using qinv_no_home [of t "{}" k] by (simp add: kinv_def kinvq_def)

subsection \<open>Changes of one TCB\<close>

lemma kinvq_upd_tcb:
  assumes "kinvq X k"
    and home: "t \<notin> X \<Longrightarrow> home (f (tcb k t)) = home (tcb k t)"
    and wf: "t < NUM_TSKID k \<Longrightarrow> wf_tcb (tcb k t) \<Longrightarrow> wf_tcb (f (tcb k t)) \<and> tskid (f (tcb k t)) = tskid (tcb k t)"
    and tm: "TskTmeb t \<in> set (timer_queue k) \<Longrightarrow> ts_wait (state (tcb k t)) \<Longrightarrow> ts_wait (state (f (tcb k t)))"
  shows "kinvq X (upd_tcb t f k)"
proof -
  note inv = kinvqD [OF assms(1)]
  have "qinv X (upd_tcb t f k)" using inv(1) home by (subst qinv_cong) auto
  moreover have "tasks_ok (upd_tcb t f k)" using inv(2) wf by (auto simp: tasks_ok_def)
  moreover have "timers_ok (upd_tcb t f k)" using tm by (intro timers_ok_cong [OF _ _ _ _ inv(3)]) auto
  moreover have "rq_ok (upd_tcb t f k)" using inv(4) by (subst rq_ok_cong) auto
  ultimately show ?thesis using inv(5) by (simp add: kinvq_def)
qed

lemma ready_queue_top_upd_tcb [simp]: "ready_queue_top (upd_tcb t f k) = ready_queue_top k"
  by (rule ready_queue_top_cong) simp_all

lemma kinv_upd_tcb:
  assumes "kinv X k"
    and "t \<notin> X \<Longrightarrow> home (f (tcb k t)) = home (tcb k t)"
    and "t < NUM_TSKID k \<Longrightarrow> wf_tcb (tcb k t) \<Longrightarrow> wf_tcb (f (tcb k t)) \<and> tskid (f (tcb k t)) = tskid (tcb k t)"
    and "TskTmeb t \<in> set (timer_queue k) \<Longrightarrow> ts_wait (state (tcb k t)) \<Longrightarrow> ts_wait (state (f (tcb k t)))"
  shows "kinv X (upd_tcb t f k)"
  using assms kinvq_upd_tcb [of X k t f] by (simp add: kinv_def)

text \<open>The frequent case: fields that neither the queues nor the scheduler look at.\<close>

lemma kinv_upd_tcb_other:
  assumes "kinv X k" "state (f (tcb k t)) = state (tcb k t)" "priority (f (tcb k t)) = priority (tcb k t)"
    "bpriority (f (tcb k t)) = bpriority (tcb k t)" "klocked (f (tcb k t)) = klocked (tcb k t)"
    "klockwait (f (tcb k t)) = klockwait (tcb k t)" "tskid (f (tcb k t)) = tskid (tcb k t)"
    "\<not> ts_wait (state (tcb k t)) \<or> t \<in> X \<or> (wspec (f (tcb k t)) = wspec (tcb k t) \<and> wid (f (tcb k t)) = wid (tcb k t))"
  shows "kinv X (upd_tcb t f k)"
  using assms(2-) by (intro kinv_upd_tcb [OF assms(1)]) (auto simp: home_def wf_tcb_def split: tstat.splits)

lemma kinv_objs_cong:
  assumes "kinv X k" "tcb_table k' = tcb_table k" "que k' = que k" "schedtsk k' = schedtsk k"
    "top_priority k' = top_priority k" "rq_bitmap k' = rq_bitmap k" "klocktsk k' = klocktsk k"
    "rq_null k' = rq_null k" "timer_queue k' = timer_queue k" "tmebs k' = tmebs k"
    "NUM_TSKID k' = NUM_TSKID k"
  shows "kinv X k'"
proof -
  note inv = kinvD [OF assms(1)]
  have "qinv X k'" using inv(1) assms by (subst qinv_cong [of k' k]) simp_all
  moreover have "tasks_ok k'" "timers_ok k'" using inv assms by (simp_all add: tasks_ok_def timers_ok_def)
  moreover have "rq_ok k'" using inv(4) assms by (subst rq_ok_cong [of k' k]) simp_all
  moreover have "ready_queue_top k' = ready_queue_top k"
    using assms by (intro ready_queue_top_cong) simp_all
  ultimately show ?thesis using assms(1,4) inv(5) assms(7) by (simp add: kinv_def kinvq_def)
qed

subsection \<open>Ready queue and scheduler primitives\<close>

text \<open>Transport of the invariant to a state whose tasks differ in nothing the invariant reads.\<close>

lemma kinvq_transport:
  assumes "kinvq X k" "qinv Y k'" "rq_ok k'" "klocktsk k' = None"
    and "objs k' = objs k" "timer_queue k' = timer_queue k" "tmebs k' = tmebs k"
    and core: "\<And>u. core (tcb k' u) = core (tcb k u)"
    and st: "\<And>u. state (tcb k' u) = state (tcb k u)" "\<And>u. klockwait (tcb k' u) = klockwait (tcb k u)"
  shows "kinvq Y k'"
proof -
  note inv = kinvqD [OF assms(1)]
  have "tasks_ok k'"
    using inv(2) wf_tcb_cong [OF core st] core_eqD(1) [OF core] objs_eqD [OF assms(5)]
    by (simp add: tasks_ok_def)
  moreover have "timers_ok k'"
    using inv(3) assms(6,7) st objs_eqD [OF assms(5)] by (simp add: timers_ok_def)
  ultimately show ?thesis using assms(2-4) by (simp add: kinvq_def)
qed

lemma kinvq_ready_mem:
  assumes "kinvq X k" "t < NUM_TSKID k" "t \<notin> X" "state (tcb k t) = TS_READY"
  shows "t \<in> set (que k (RdyQ (priority (tcb k t))))" "priority (tcb k t) < NUM_PRI"
  using assms qinv_mem [OF kinvqD(1) [OF assms(1)]] tasks_ok_priority [OF kinvqD(2) [OF assms(1)]]
  by auto

lemma kinvq_rq_pris: "kinvq X k \<Longrightarrow> rq_pris k"
  by (auto simp: rq_pris_def qinv_mem [OF kinvqD(1)])

lemma kinvq_move_last:
  assumes inv: "kinvq X k" and t: "t \<in> set (que k (RdyQ (priority (tcb k t))))"
  shows "kinvq X (snd (ready_queue_move_last t k))"
proof (rule kinvq_transport [OF inv])
  note iv = kinvqD [OF inv]
  have "home (tcb (snd (ready_queue_move_last t k)) u) = home (tcb k u)" for u
    by (rule home_cong) (simp_all add: frame)
  then show "qinv X (snd (ready_queue_move_last t k))"
    using iv(1) t objs_eqD(33) [OF ready_queue_objs(5)]
    by (auto simp: qinv_def ready_queue_move_last_que [OF iv(6) t])
  show "rq_ok (snd (ready_queue_move_last t k))" by (rule rq_ok_move_last [OF iv(4,6) t])
qed (simp_all add: frame kinvqD(5) [OF inv])

lemma kinvq_rotate:
  assumes inv: "kinvq X k"
  shows "kinvq X (ready_queue_rotate p k)"
proof (rule kinvq_transport [OF inv])
  note iv = kinvqD [OF inv]
  have "state (tcb (ready_queue_rotate p k) u) = state (tcb k u)" for u
    by (subst ready_queue_rotate_tcb_slice) simp
  moreover have "klockwait (tcb (ready_queue_rotate p k) u) = klockwait (tcb k u)" for u
    by (subst ready_queue_rotate_tcb_slice) simp
  ultimately show "\<And>u. state (tcb (ready_queue_rotate p k) u) = state (tcb k u)"
    "\<And>u. klockwait (tcb (ready_queue_rotate p k) u) = klockwait (tcb k u)" by simp_all
  then have "home (tcb (ready_queue_rotate p k) u) = home (tcb k u)" for u
    by (intro home_cong) (simp_all add: frame)
  then show "qinv X (ready_queue_rotate p k)"
    using iv(1) objs_eqD(33) [OF ready_queue_objs(4)]
    by (auto simp: qinv_def ready_queue_rotate_que)
  show "rq_ok (ready_queue_rotate p k)" by (rule rq_ok_rotate [OF iv(4)])
qed (simp_all add: frame kinvqD(5) [OF inv])

lemma time_slice_schedule_Some:
  "time_slice_schedule (Some t) k =
     (let k' = upd_tcb t (\<lambda>c. c\<lparr>slicecnt := slicecnt c + TIMER_PERIOD k\<rparr>) k
      in if 0 < slicetime (tcb k t) then
           if slicetime (tcb k t) < slicecnt (tcb k t) + TIMER_PERIOD k then ready_queue_move_last t k'
           else (Some t, k')
         else (Some t, k))"
  by (simp add: time_slice_schedule_def Let_def)

lemma kinvq_upd_slicecnt: "kinvq X k \<Longrightarrow> kinvq X (upd_tcb t (\<lambda>c. c\<lparr>slicecnt := n\<rparr>) k)"
  by (erule kinvq_upd_tcb) (auto intro: home_cong simp: wf_tcb_def)

lemma kinvq_time_slice:
  assumes inv: "kinvq X k" and t: "t \<in> set (que k (RdyQ (priority (tcb k t))))"
  shows "kinvq X (snd (time_slice_schedule (Some t) k))"
    and "h \<noteq> RdyQ (priority (tcb k t)) \<Longrightarrow> que (snd (time_slice_schedule (Some t) k)) h = que k h"
    and "hd (que k (RdyQ (priority (tcb k t)))) = t \<Longrightarrow>
      fst (time_slice_schedule (Some t) k) =
        Some (hd (que (snd (time_slice_schedule (Some t) k)) (RdyQ (priority (tcb k t)))))"
    and "hd (que k (RdyQ (priority (tcb k t)))) \<noteq> t \<Longrightarrow>
      hd (que (snd (time_slice_schedule (Some t) k)) (RdyQ (priority (tcb k t)))) =
      hd (que k (RdyQ (priority (tcb k t))))"
proof -
  let ?f = "\<lambda>c. c\<lparr>slicecnt := slicecnt c + TIMER_PERIOD k\<rparr>"
  let ?k = "upd_tcb t ?f k"
  have inv': "kinvq X ?k" using inv by (rule kinvq_upd_tcb) (auto intro: home_cong simp: wf_tcb_def)
  have t': "t \<in> set (que ?k (RdyQ (priority (tcb ?k t))))" using t by simp
  note que = ready_queue_move_last_que [OF kinvqD(6) [OF inv'] t']
  show "kinvq X (snd (time_slice_schedule (Some t) k))"
    using inv inv' kinvq_move_last [OF inv' t'] by (simp add: time_slice_schedule_Some Let_def)
  show "que (snd (time_slice_schedule (Some t) k)) h = que k h" if "h \<noteq> RdyQ (priority (tcb k t))"
    using that by (simp add: time_slice_schedule_Some Let_def que)
  show "fst (time_slice_schedule (Some t) k) =
      Some (hd (que (snd (time_slice_schedule (Some t) k)) (RdyQ (priority (tcb k t)))))"
    if "hd (que k (RdyQ (priority (tcb k t)))) = t"
    using that ready_queue_move_last_fst [OF kinvqD(6) [OF inv'] t']
    by (simp add: time_slice_schedule_Some Let_def que)
  have ne: "que k (RdyQ (priority (tcb k t))) \<noteq> []" using t by auto
  show "hd (que (snd (time_slice_schedule (Some t) k)) (RdyQ (priority (tcb k t)))) =
      hd (que k (RdyQ (priority (tcb k t))))"
    if "hd (que k (RdyQ (priority (tcb k t)))) \<noteq> t"
    using hd_remove1 [OF ne that] by (simp add: time_slice_schedule_Some Let_def que)
qed

text \<open>The scheduled task is ready and heads the first non-empty queue.\<close>

lemma kinvq_top:
  assumes inv: "kinvq X k" and top: "ready_queue_top k = Some s"
  shows "s < NUM_TSKID k" "s \<notin> X" "state (tcb k s) = TS_READY" "priority (tcb k s) = top_priority k"
    "top_priority k < NUM_PRI" "hd (que k (RdyQ (top_priority k))) = s"
    "s \<in> set (que k (RdyQ (priority (tcb k s))))"
proof -
  note iv = kinvqD [OF inv]
  have ne: "top_priority k \<noteq> NUM_PRI" and hd: "hd (que k (RdyQ (top_priority k))) = s"
    using top ready_queue_top_eq [OF iv(4,5)] by (auto split: if_splits)
  then have lt: "top_priority k < NUM_PRI" and q: "que k (RdyQ (top_priority k)) \<noteq> []"
    using iv(4) by (auto simp: rq_ok_def rq_top_def)
  then have mem: "s \<in> set (que k (RdyQ (top_priority k)))" using hd by auto
  then show "s < NUM_TSKID k" "s \<notin> X" "state (tcb k s) = TS_READY" "priority (tcb k s) = top_priority k"
    by (simp_all add: qinv_mem [OF iv(1)])
  with mem show "s \<in> set (que k (RdyQ (priority (tcb k s))))" by simp
  show "top_priority k < NUM_PRI" "hd (que k (RdyQ (top_priority k))) = s" by (fact lt hd)+
qed

lemmas kinv_sched = kinvq_top [OF kinv_kinvq]

lemma kinvq_delete:
  assumes inv: "kinvq X k" and t: "t \<in> set (que k (RdyQ (priority (tcb k t))))"
  shows "kinvq (insert t X) (ready_queue_delete t k)"
proof (rule kinvq_transport [OF inv])
  note iv = kinvqD [OF inv]
  have tt: "t < NUM_TSKID k" "t \<notin> X" "state (tcb k t) = TS_READY"
    using t by (simp_all add: qinv_mem [OF iv(1)])
  then have kw: "\<not> klockwait (tcb k t)" and pri: "priority (tcb k t) < NUM_PRI"
    using iv(2) by (auto simp: tasks_ok_def wf_tcb_def)
  have "home (tcb (ready_queue_delete t k) u) = home (tcb k u)" for u
    by (rule home_cong) (simp_all add: frame)
  then show "qinv (insert t X) (ready_queue_delete t k)"
    using iv(1) objs_eqD(33) [OF ready_queue_objs(3)]
    by (auto simp: qinv_def ready_queue_delete_que QueRemove_apply)
  show "rq_ok (ready_queue_delete t k)" by (rule rq_ok_delete [OF iv(4,6) t refl pri kw])
  show "klockwait (tcb (ready_queue_delete t k) u) = klockwait (tcb k u)" for u
    using kw by (simp add: frame)
qed (simp_all add: frame kinvqD(5) [OF inv])

lemma kinvq_insert:
  assumes inv: "kinvq (insert t X) k" and t: "t < NUM_TSKID k" "t \<notin> X" "state (tcb k t) = TS_READY"
  shows "kinvq X (snd (ready_queue_insert t k))"
proof (rule kinvq_transport [OF inv])
  note iv = kinvqD [OF inv]
  have kl: "\<not> klocked (tcb k t)" and pri: "priority (tcb k t) < NUM_PRI"
    using iv(2) t by (auto simp: tasks_ok_def wf_tcb_def)
  have "home (tcb (snd (ready_queue_insert t k)) u) = home (tcb k u)" for u
    by (rule home_cong) (simp_all add: frame)
  then show "qinv X (snd (ready_queue_insert t k))"
    using iv(1) t objs_eqD(33) [OF ready_queue_objs(1)]
    by (auto simp: qinv_def ready_queue_insert_que)
  show "rq_ok (snd (ready_queue_insert t k))" by (rule rq_ok_insert [OF iv(4) pri])
  show "klocktsk (snd (ready_queue_insert t k)) = None"
    using kl iv(5) by (simp add: frame)
qed (simp_all add: frame)

text \<open>The top after the removal of another task is the same.\<close>

lemma kinvq_delete_top:
  assumes inv: "kinvq X k" and t: "t \<in> set (que k (RdyQ (priority (tcb k t))))"
    and top: "ready_queue_top k \<noteq> Some t"
  shows "ready_queue_top (ready_queue_delete t k) = ready_queue_top k"
proof -
  note iv = kinvqD [OF inv] and iv' = kinvqD [OF kinvq_delete [OF inv t]]
  have pri: "priority (tcb k t) < NUM_PRI"
    using t iv(2) by (auto simp: qinv_mem [OF iv(1)] tasks_ok_def wf_tcb_def)
  have "rdy_list (ready_queue_delete t k) = remove1 t (rdy_list k)"
    by (rule rdy_list_delete [OF iv(6) t pri])
  with top show ?thesis
    by (simp add: rdy_list_top [OF iv(4,5)] rdy_list_top [OF iv'(4,5)] split: list.splits)
qed

lemma kinv_make_non_ready:
  assumes inv: "kinv X k" and t: "t < NUM_TSKID k" "t \<notin> X" "state (tcb k t) = TS_READY"
  shows "kinv (insert t X) (make_non_ready t k)"
proof -
  note q = kinv_kinvq [OF inv]
  note mem = kinvq_ready_mem(1) [OF q t]
  have top: "ready_queue_top (k\<lparr>schedtsk := s\<rparr>) = ready_queue_top k" for k s
    by (rule ready_queue_top_cong) simp_all
  let ?d = "ready_queue_delete t k"
  have d: "kinvq (insert t X) ?d" by (rule kinvq_delete [OF q mem])
  have "kinvq (insert t X) (?d\<lparr>schedtsk := s\<rparr>)" for s
    using d by (rule kinvq_transport) (use kinvqD [OF d] in \<open>auto simp: qinv_def NUM_TSKID_def rq_ok_def rq_bits_def rq_top_def\<close>)
  moreover have "schedtsk k \<noteq> Some t \<Longrightarrow> ready_queue_top ?d = schedtsk k"
    using kinvq_delete_top [OF q mem] inv by (simp add: kinv_def)
  ultimately show ?thesis
    using d by (simp add: make_non_ready_def Let_def kinv_def top frame)
qed

lemma kinvq_insert_top:
  assumes inv: "kinvq (insert t X) k" and t: "t < NUM_TSKID k" "t \<notin> X" "state (tcb k t) = TS_READY"
  shows "ready_queue_top (snd (ready_queue_insert t k)) =
    (if priority (tcb k t) < top_priority k then Some t else ready_queue_top k)"
proof -
  note iv = kinvqD [OF inv] and iv' = kinvqD [OF kinvq_insert [OF inv t]]
  have pri: "priority (tcb k t) < NUM_PRI"
    using iv(2) t by (auto simp: tasks_ok_def wf_tcb_def)
  show ?thesis
  proof (cases "priority (tcb k t) < top_priority k")
    case True
    then have "que k (RdyQ (priority (tcb k t))) = []" using iv(4) by (auto simp: rq_ok_def rq_top_def)
    with True pri show ?thesis
      by (simp add: ready_queue_top_eq [OF iv'(4,5)] frame ready_queue_insert_que)
  next
    case False
    then have "top_priority k < NUM_PRI" using pri by simp
    moreover from this have "que k (RdyQ (top_priority k)) \<noteq> []"
      using iv(4) by (auto simp: rq_ok_def rq_top_def)
    ultimately show ?thesis using False
      by (auto simp: ready_queue_top_eq [OF iv'(4,5)] ready_queue_top_eq [OF iv(4,5)] frame
          ready_queue_insert_que hd_append min_def)
  qed
qed

lemma kinvq_schedtsk:
  assumes "kinvq X k"
  shows "kinvq X (k\<lparr>schedtsk := s\<rparr>)"
  using assms
  by (rule kinvq_transport) (use kinvqD [OF assms] in \<open>auto simp: qinv_def NUM_TSKID_def rq_ok_def rq_bits_def rq_top_def\<close>)

lemma ready_queue_top_schedtsk [simp]: "ready_queue_top (k\<lparr>schedtsk := s\<rparr>) = ready_queue_top k"
  by (rule ready_queue_top_cong) simp_all

text \<open>
  Time slicing of the task that was scheduled, done when another task takes over: it keeps the
  invariant, and the top if that is another task.
\<close>

definition preempt :: "tid option \<Rightarrow> kernel \<Rightarrow> kernel" where
  "preempt s k =
     (let k = (if schedtsk k = ctxtsk k then snd (time_slice_schedule (schedtsk k) k) else k)
      in k\<lparr>schedtsk := s\<rparr>)"

lemma kinv_preempt:
  assumes inv: "kinvq X k" and top: "ready_queue_top k = s" "schedtsk k \<noteq> s"
    and old: "\<And>u. schedtsk k = Some u \<Longrightarrow> u \<in> set (que k (RdyQ (priority (tcb k u))))"
  shows "kinv X (preempt s k)"
proof (cases "schedtsk k = ctxtsk k \<and> schedtsk k \<noteq> None")
  case False
  then have "preempt s k = k\<lparr>schedtsk := s\<rparr>"
    by (auto simp: preempt_def Let_def time_slice_schedule_def)
  with inv top kinvq_schedtsk [OF inv] show ?thesis by (simp add: kinv_def)
next
  case True
  then obtain u where u: "schedtsk k = Some u" "ctxtsk k = Some u" by (metis option.exhaust)
  let ?k = "snd (time_slice_schedule (Some u) k)"
  note mem = old [OF u(1)]
  note ts = kinvq_time_slice [OF inv mem]
  note iv = kinvqD [OF inv] and iv' = kinvqD [OF ts(1)]
  have "ready_queue_top ?k = s"
  proof (cases "top_priority k = priority (tcb k u)")
    case same: True
    have "hd (que k (RdyQ (priority (tcb k u)))) \<noteq> u"
      using top u same by (auto simp: ready_queue_top_eq [OF iv(4,5)] qinv_mem [OF iv(1)]
          dest: tasks_ok_priority [OF iv(2)] split: if_splits)
         (use mem iv(4) in \<open>auto simp: rq_ok_def rq_top_def qinv_mem [OF iv(1)] dest!: tasks_ok_priority [OF iv(2)]\<close>)
    with ts(4) same show ?thesis
      unfolding top(1) [symmetric] ready_queue_top_eq [OF iv(4,5)] ready_queue_top_eq [OF iv'(4,5)]
      by simp
  next
    case False
    with ts(2) show ?thesis
      unfolding top(1) [symmetric] ready_queue_top_eq [OF iv(4,5)] ready_queue_top_eq [OF iv'(4,5)]
      by simp
  qed
  moreover have "preempt s k = ?k\<lparr>schedtsk := s\<rparr>" using u by (simp add: preempt_def Let_def)
  ultimately show ?thesis using kinvq_schedtsk [OF ts(1)] by (simp add: kinv_def)
qed

lemma make_ready_preempt:
  "make_ready t k =
     (let (raised, k) = ready_queue_insert t (upd_tcb t (\<lambda>c. c\<lparr>state := TS_READY\<rparr>) k)
      in if raised then preempt (Some t) k else k)"
  by (simp add: make_ready_def preempt_def Let_def split_beta)

lemma reschedule_preempt:
  "reschedule k = (if schedtsk k = ready_queue_top k then k else preempt (ready_queue_top k) k)"
  by (simp add: reschedule_def preempt_def Let_def)

lemma kinv_reschedule:
  assumes "kinvq X k" "\<And>u. schedtsk k = Some u \<Longrightarrow> u \<in> set (que k (RdyQ (priority (tcb k u))))"
  shows "kinv X (reschedule k)"
  using assms kinv_preempt [OF assms(1) refl] by (auto simp: reschedule_preempt kinv_def)

lemma kinv_make_ready:
  assumes inv: "kinv (insert t X) k" and t: "t < NUM_TSKID k" "t \<notin> X"
    and st: "state (tcb k t) \<noteq> TS_NONEXIST" and tm: "TskTmeb t \<notin> set (timer_queue k)"
  shows "kinv X (make_ready t k)"
proof -
  let ?u = "upd_tcb t (\<lambda>c. c\<lparr>state := TS_READY\<rparr>) k"
  let ?i = "snd (ready_queue_insert t ?u)"
  have inv': "kinv (insert t X) ?u" using inv by (rule kinv_upd_tcb) (use st tm in \<open>auto simp: wf_tcb_def\<close>)
  note q = kinv_kinvq [OF inv']
  have t': "t < NUM_TSKID ?u" "t \<notin> X" "state (tcb ?u t) = TS_READY" using t by simp_all
  note qi = kinvq_insert [OF q t'] and top = kinvq_insert_top [OF q t']
  have sched: "schedtsk ?i = ready_queue_top ?u" using inv' by (simp add: kinv_def frame)
  show ?thesis
  proof (cases "priority (tcb ?u t) < top_priority ?u")
    case False
    with qi top sched show ?thesis
      by (simp add: make_ready_preempt Let_def split_beta ready_queue_insert_fst kinv_def)
  next
    case True
    have "kinv X (preempt (Some t) ?i)"
    proof (rule kinv_preempt [OF qi])
      show "ready_queue_top ?i = Some t" using True top by simp
      have old: "u \<noteq> t \<and> u \<in> set (que ?u (RdyQ (priority (tcb ?u u))))" if "schedtsk ?i = Some u" for u
        using kinvq_top(2,7) [OF q] that sched by auto
      then show "schedtsk ?i \<noteq> Some t" by auto
      show "u \<in> set (que ?i (RdyQ (priority (tcb ?i u))))" if "schedtsk ?i = Some u" for u
        using old [OF that] by (auto simp: ready_queue_insert_que frame)
    qed
    with True show ?thesis by (simp add: make_ready_preempt Let_def split_beta ready_queue_insert_fst)
  qed
qed

end
