(* ===== verification/Wait_Inv.thy ===== *)
theory Wait_Inv
  imports Kernel_Inv
begin

text \<open>
  The wait primitives of theory Wait keep the invariant, and what they do to the wait queues: a
  released task leaves the queue it waited on, a waiting task joins the queue of its object, and no
  other wait queue changes.
\<close>

subsection \<open>Frames\<close>

lemma que_remove_frame [simp]:
  "objs (que_remove t k) = objs k" "tcb_table (que_remove t k) = tcb_table k"
  "schedtsk (que_remove t k) = schedtsk k" "timer_queue (que_remove t k) = timer_queue k"
  "tmebs (que_remove t k) = tmebs k" "que (que_remove t k) h = remove1 t (que k h)"
  by (simp_all add: que_remove_def QueRemove_apply)

lemma que_append_frame [simp]:
  "objs (que_append t h k) = objs k" "tcb_table (que_append t h k) = tcb_table k"
  "schedtsk (que_append t h k) = schedtsk k" "timer_queue (que_append t h k) = timer_queue k"
  "tmebs (que_append t h k) = tmebs k" "que (que_append t h k) = (que k)(h := que k h @ [t])"
  by (auto simp: que_append_def)

lemma queue_insert_tpri_frame [simp]:
  "objs (queue_insert_tpri t h k) = objs k" "tcb_table (queue_insert_tpri t h k) = tcb_table k"
  "schedtsk (queue_insert_tpri t h k) = schedtsk k"
  "timer_queue (queue_insert_tpri t h k) = timer_queue k" "tmebs (queue_insert_tpri t h k) = tmebs k"
  by (simp_all add: queue_insert_tpri_def)

lemma queue_insert_tpri_que:
  assumes "disjoint_queues (que k)"
  shows "que (queue_insert_tpri t h k) =
    (que k)(h := insert_by (\<lambda>u t. priority (tcb k t) < priority (tcb k u)) t (que k h))"
  using insert_search [OF assms] by (simp add: queue_insert_tpri_def)

lemma timer_delete_frame [simp]:
  "objs (timer_delete e k) = objs k" "tcb_table (timer_delete e k) = tcb_table k"
  "que (timer_delete e k) = que k" "schedtsk (timer_delete e k) = schedtsk k"
  "tmebs (timer_delete e k) = tmebs k" "timer_queue (timer_delete e k) = remove1 e (timer_queue k)"
  by (simp_all add: timer_delete_def)

lemma upd_tmeb_frame [simp]:
  "tcb_table (upd_tmeb e f k) = tcb_table k" "que (upd_tmeb e f k) = que k"
  "schedtsk (upd_tmeb e f k) = schedtsk k" "timer_queue (upd_tmeb e f k) = timer_queue k"
  "current_time (upd_tmeb e f k) = current_time k" "tmebs (upd_tmeb e f k) = (tmebs k)(e := f (tmebs k e))"
  by (simp_all add: upd_tmeb_def)

lemma enqueue_tmeb_frame [simp]:
  "objs (enqueue_tmeb e k) = objs k" "tcb_table (enqueue_tmeb e k) = tcb_table k"
  "que (enqueue_tmeb e k) = que k" "schedtsk (enqueue_tmeb e k) = schedtsk k"
  "tmebs (enqueue_tmeb e k) = tmebs k"
  by (simp_all add: enqueue_tmeb_def)

lemma timer_insert_frame [simp]:
  "objs (timer_insert e tm cb k) = objs k" "tcb_table (timer_insert e tm cb k) = tcb_table k"
  "que (timer_insert e tm cb k) = que k" "schedtsk (timer_insert e tm cb k) = schedtsk k"
  by (simp_all add: timer_insert_def Let_def)

lemma timer_insert_reltim_frame [simp]:
  "objs (timer_insert_reltim e tm cb k) = objs k" "tcb_table (timer_insert_reltim e tm cb k) = tcb_table k"
  "que (timer_insert_reltim e tm cb k) = que k" "schedtsk (timer_insert_reltim e tm cb k) = schedtsk k"
  by (simp_all add: timer_insert_reltim_def Let_def)

lemmas wait_prim_sel [simp] =
  objs_eqD [OF que_remove_frame(1)] objs_eqD [OF que_append_frame(1)]
  objs_eqD [OF queue_insert_tpri_frame(1)] objs_eqD [OF timer_delete_frame(1)]
  objs_eqD [OF timer_insert_frame(1)] objs_eqD [OF timer_insert_reltim_frame(1)]
  objs_eqD [OF objs_upd_tcb]

lemma make_non_wait_frame [simp]:
  "objs (make_non_wait t k) = objs k"
  "core (tcb (make_non_wait t k) u) = core (tcb k u)"
  "state (tcb (make_non_wait t k) u) =
     (if u = t then if state (tcb k t) = TS_WAIT then TS_READY else TS_SUSPEND else state (tcb k u))"
  "wercd (tcb (make_non_wait t k) u) = wercd (tcb k u)"
  "timer_queue (make_non_wait t k) = timer_queue k" "tmebs (make_non_wait t k) = tmebs k"
  by (simp_all add: make_non_wait_def)

lemmas make_non_wait_sel [simp] =
  objs_eqD [OF make_non_wait_frame(1)] core_eqD [OF make_non_wait_frame(2)]

lemma wait_release_frame [simp]:
  "objs (wait_release t k) = objs k"
  "core (tcb (wait_release t k) u) = core (tcb k u)"
  "state (tcb (wait_release t k) u) =
     (if u = t then if state (tcb k t) = TS_WAIT then TS_READY else TS_SUSPEND else state (tcb k u))"
  "wercd (tcb (wait_release t k) u) = wercd (tcb k u)"
  "timer_queue (wait_release t k) = remove1 (TskTmeb t) (timer_queue k)"
  "tmebs (wait_release t k) = tmebs k"
  by (simp_all add: wait_release_def)

lemmas wait_release_sel [simp] =
  objs_eqD [OF wait_release_frame(1)] core_eqD [OF wait_release_frame(2)]

lemma set_wercd_frame [simp]:
  "objs (set_wercd t e k) = objs k" "que (set_wercd t e k) = que k"
  "core (tcb (set_wercd t e k) u) = core (tcb k u)"
  "state (tcb (set_wercd t e k) u) = state (tcb k u)"
  "wercd (tcb (set_wercd t e k) u) = (if u = t then e else wercd (tcb k u))"
  "schedtsk (set_wercd t e k) = schedtsk k"
  "timer_queue (set_wercd t e k) = timer_queue k" "tmebs (set_wercd t e k) = tmebs k"
  by (simp_all add: set_wercd_def)

lemmas set_wercd_sel [simp] =
  objs_eqD [OF set_wercd_frame(1)] core_eqD [OF set_wercd_frame(3)]

lemma wait_release_ok_objs [simp]: "objs (wait_release_ok t k) = objs k"
  by (simp add: wait_release_ok_def)

lemmas wait_release_ok_sel [simp] = objs_eqD [OF wait_release_ok_objs]

lemma enter_wait_frame [simp]:
  "objs (enter_wait t atr k) = objs k"
  "wercd (tcb (enter_wait t atr k) u) = wercd (tcb k u)"
  "timer_queue (enter_wait t atr k) = timer_queue k" "tmebs (enter_wait t atr k) = tmebs k"
  "state (tcb (enter_wait t atr k) u) =
     (if u = t then (case state (tcb k t) of TS_READY \<Rightarrow> TS_WAIT | TS_SUSPEND \<Rightarrow> TS_WAITSUS | s \<Rightarrow> s)
      else state (tcb k u))"
  by (auto simp: enter_wait_def Let_def split: tstat.splits)

lemma enter_wait_core:
  "core (tcb (enter_wait t atr k) u) =
     (if u = t then core ((tcb k t)\<lparr>nodiswai := (atr AND TA_NODISWAI \<noteq> 0)\<rparr>) else core (tcb k u))"
proof -
  have c: "core (c\<lparr>nodiswai := b\<rparr>) = (core c)\<lparr>nodiswai := b\<rparr>" for c b by (simp add: core_def)
  show ?thesis by (auto simp: enter_wait_def Let_def c split: tstat.splits)
qed

lemmas enter_wait_objs [simp] = objs_eqD [OF enter_wait_frame(1)]

lemma enter_wait_sel [simp]:
  "wspec (tcb (enter_wait t atr k) u) = wspec (tcb k u)"
  "wid (tcb (enter_wait t atr k) u) = wid (tcb k u)"
  "winfo (tcb (enter_wait t atr k) u) = winfo (tcb k u)"
  "priority (tcb (enter_wait t atr k) u) = priority (tcb k u)"
  "bpriority (tcb (enter_wait t atr k) u) = bpriority (tcb k u)"
  "mtxlist (tcb (enter_wait t atr k) u) = mtxlist (tcb k u)"
  "tskid (tcb (enter_wait t atr k) u) = tskid (tcb k u)"
  "waitmask (tcb (enter_wait t atr k) u) = waitmask (tcb k u)"
  "wupcnt (tcb (enter_wait t atr k) u) = wupcnt (tcb k u)"
  using core_eqD [OF enter_wait_core [of t atr k u, THEN trans, OF if_distrib [of core, symmetric]]]
  by simp_all

subsection \<open>Queues of the wait primitives\<close>

fun rdyq :: "qhead \<Rightarrow> bool" where
  "rdyq (RdyQ p) = True"
| "rdyq h = False"

lemma not_rdyq_RdyQ: "\<not> rdyq h \<Longrightarrow> h \<noteq> RdyQ p"
  by auto

lemma make_ready_que:
  assumes inv: "kinv (insert t X) k" and h: "\<not> rdyq h"
    and st: "state (tcb k t) \<noteq> TS_NONEXIST" and tm: "TskTmeb t \<notin> set (timer_queue k)"
  shows "que (make_ready t k) h = que k h"
proof -
  let ?u = "upd_tcb t (\<lambda>c. c\<lparr>state := TS_READY\<rparr>) k"
  let ?i = "snd (ready_queue_insert t ?u)"
  have inv': "kinv (insert t X) ?u"
    using inv by (rule kinv_upd_tcb) (use st tm in \<open>auto simp: wf_tcb_def\<close>)
  have i: "que ?i h = que k h" using h by (auto simp: ready_queue_insert_que)
  have "que (preempt (Some t) ?i) h = que k h"
  proof (cases "schedtsk ?u")
    case None
    then show ?thesis using i by (simp add: preempt_def Let_def time_slice_schedule_def frame)
  next
    case (Some s)
    let ?s = "RdyQ (priority (tcb k s))"
    have top: "ready_queue_top ?u = Some s" using inv' Some by (simp add: kinv_def)
    note s = kinvq_top [OF kinv_kinvq [OF inv'] top]
    have st: "s \<noteq> t" using s(2) by auto
    have dj: "disjoint_queues (que ?u)" by (rule kinvD [OF inv'])
    have mem: "s \<in> set (que k ?s)" using s(7) st by simp
    have rem: "QueRemove s (que ?i) h' = que ?i h'" if "h' \<noteq> ?s" for h'
      using disjoint_queuesD [OF dj, of s ?s h'] mem that st
      by (auto simp: QueRemove_apply ready_queue_insert_que)
    have "que (snd (time_slice_schedule (Some s) ?i)) h = que k h"
      using i h rem st by (auto simp: time_slice_schedule_Some ready_queue_move_last_def Let_def frame)
    with i Some show ?thesis by (cases "ctxtsk k = Some s") (auto simp: preempt_def Let_def frame)
  qed
  with i show ?thesis by (simp add: make_ready_preempt Let_def split_beta)
qed

lemma wait_release_parts:
  "wait_release t k =
     (let k = que_remove t (timer_delete (TskTmeb t) k)
      in if state (tcb k t) = TS_WAIT then make_ready t k else upd_tcb t (\<lambda>c. c\<lparr>state := TS_SUSPEND\<rparr>) k)"
  by (simp add: wait_release_def make_non_wait_def Let_def)

subsection \<open>Preservation\<close>

lemma ready_queue_top_remove:
  assumes "kinvq X k" "state (tcb k t) \<noteq> TS_READY"
  shows "ready_queue_top (que_remove t k) = ready_queue_top k"
proof -
  have "t \<notin> set (que k (RdyQ p))" for p
    using assms(2) by (simp add: qinv_mem [OF kinvqD(1) [OF assms(1)]])
  then show ?thesis by (intro ready_queue_top_cong) (simp_all add: que_remove_def QueRemove_apply)
qed

lemma kinv_que_remove:
  assumes inv: "kinv X k" and st: "state (tcb k t) \<noteq> TS_READY"
  shows "kinv (insert t X) (que_remove t k)"
proof -
  note q = kinv_kinvq [OF inv]
  have r: "t \<notin> set (que k (RdyQ p))" for p
    using st by (simp add: qinv_mem [OF kinvqD(1) [OF q]])
  have "kinvq (insert t X) (que_remove t k)"
  proof (rule kinvq_transport [OF q])
    show "qinv (insert t X) (que_remove t k)"
      using kinvqD(1) [OF q] by (auto simp: qinv_def)
    show "rq_ok (que_remove t k)" using kinvqD(4) [OF q]
      by (subst rq_ok_cong [of _ k]) (simp_all add: r, simp_all add: que_remove_def)
  qed (use kinvqD(5) [OF q] in \<open>simp_all add: que_remove_def\<close>)
  with inv ready_queue_top_remove [OF q st] show ?thesis by (simp add: kinv_def)
qed

lemma kinv_timer_delete:
  assumes inv: "kinv X k"
  shows "kinv X (timer_delete e k)"
proof -
  note iv = kinvD [OF inv]
  have "qinv X (timer_delete e k)" using iv(1) by (subst qinv_cong [of _ k]) simp_all
  moreover have "timers_ok (timer_delete e k)" using iv(3) by (auto simp: timers_ok_def)
  moreover have "rq_ok (timer_delete e k)"
    using iv(4) by (subst rq_ok_cong [of _ k]) (simp_all add: timer_delete_def)
  moreover have "ready_queue_top (timer_delete e k) = ready_queue_top k"
    by (rule ready_queue_top_cong) (simp_all add: timer_delete_def)
  ultimately show ?thesis
    using iv(2,5) inv by (simp add: kinv_def kinvq_def tasks_ok_def) (simp add: timer_delete_def)
qed

text \<open>Joining a wait queue, at whatever place.\<close>

lemma kinv_join:
  assumes inv: "kinv {t} k" and t: "t < NUM_TSKID k" and home: "home (tcb k t) = Some h" "\<not> rdyq h"
    and q: "set ts = insert t (set (que k h))" "distinct ts"
  shows "kinv {} (k\<lparr>que := (que k)(h := ts)\<rparr>)"
proof -
  let ?k = "k\<lparr>que := (que k)(h := ts)\<rparr>"
  note iv = kinvD [OF inv]
  have N: "NUM_TSKID ?k = NUM_TSKID k" by (simp add: NUM_TSKID_def)
  have "qinv {} ?k" using iv(1) t home q by (auto simp: qinv_def N)
  moreover have "rq_ok ?k" using iv(4) home by (subst rq_ok_cong [of _ k]) auto
  moreover have "ready_queue_top ?k = ready_queue_top k"
    using home by (intro ready_queue_top_cong) auto
  ultimately show ?thesis
    using iv(2,3,5) inv by (simp add: kinv_def kinvq_def tasks_ok_def timers_ok_def N)
qed

lemma kinv_notin: "kinv {t} k \<Longrightarrow> t \<notin> set (que k h)"
  by (simp add: kinv_mem)

lemma kinv_que_append:
  assumes "kinv {t} k" "t < NUM_TSKID k" "home (tcb k t) = Some h" "\<not> rdyq h"
  shows "kinv {} (que_append t h k)"
proof -
  have "que_append t h k = k\<lparr>que := (que k)(h := que k h @ [t])\<rparr>"
    by (simp add: que_append_def QueInsert_def)
  with kinv_join [OF assms, of "que k h @ [t]"] kinv_notin [OF assms(1)] kinvD(1) [OF assms(1)]
  show ?thesis by (simp add: qinv_distinct)
qed

lemma kinv_queue_insert_tpri:
  assumes "kinv {t} k" "t < NUM_TSKID k" "home (tcb k t) = Some h" "\<not> rdyq h"
  shows "kinv {} (queue_insert_tpri t h k)"
proof -
  let ?ts = "insert_by (\<lambda>u t. priority (tcb k t) < priority (tcb k u)) t (que k h)"
  have "queue_insert_tpri t h k = k\<lparr>que := (que k)(h := ?ts)\<rparr>"
    using insert_search [OF kinvD(6) [OF assms(1)],
        of t "\<lambda>u t. priority (tcb k t) < priority (tcb k u)" h]
    by (simp add: queue_insert_tpri_def)
  with kinv_join [OF assms, of ?ts] kinv_notin [OF assms(1)] kinvD(1) [OF assms(1)]
  show ?thesis by (simp add: qinv_distinct)
qed

lemma kinv_make_non_wait:
  assumes inv: "kinv (insert t X) k" and t: "t < NUM_TSKID k" "t \<notin> X" "ts_wait (state (tcb k t))"
    and tm: "TskTmeb t \<notin> set (timer_queue k)"
  shows "kinv X (make_non_wait t k)"
proof (cases "state (tcb k t) = TS_WAIT")
  case True
  then show ?thesis using kinv_make_ready [OF inv t(1,2) _ tm] by (simp add: make_non_wait_def)
next
  case False
  let ?k = "upd_tcb t (\<lambda>c. c\<lparr>state := TS_SUSPEND\<rparr>) k"
  have "state (tcb k t) \<noteq> TS_NONEXIST" using t(3) by auto
  then have "kinv (insert t X) ?k"
    using tm by (intro kinv_upd_tcb [OF inv]) (auto simp: wf_tcb_def)
  moreover have "kinv (insert t X) ?k = kinv X ?k"
    using qinv_no_home [of t X ?k] t(2) by (simp add: kinv_def kinvq_def)
  ultimately show ?thesis using False by (simp add: make_non_wait_def)
qed

lemma wait_state_simps: "ts_wait s \<Longrightarrow> s \<noteq> TS_READY \<and> s \<noteq> TS_NONEXIST"
  by auto

lemma kinv_wait_release:
  assumes inv: "kinv {} k" and t: "t < NUM_TSKID k" "ts_wait (state (tcb k t))"
  shows "kinv {} (wait_release t k)"
    and "\<not> rdyq h \<Longrightarrow> que (wait_release t k) h = remove1 t (que k h)"
proof -
  let ?k = "que_remove t (timer_delete (TskTmeb t) k)"
  have inv': "kinv {t} ?k"
    using kinv_que_remove [OF kinv_timer_delete [OF inv]] wait_state_simps [OF t(2)] by simp
  have tm: "TskTmeb t \<notin> set (timer_queue ?k)"
    using kinvD(3) [OF inv] by (simp add: timers_ok_def)
  show "kinv {} (wait_release t k)"
    unfolding wait_release_def by (rule kinv_make_non_wait [OF inv']) (use t tm in simp_all)
  show "que (wait_release t k) h = remove1 t (que k h)" if "\<not> rdyq h"
    using make_ready_que [OF inv' that _ tm] wait_state_simps [OF t(2)]
    by (simp add: wait_release_parts Let_def)
qed

lemma kinv_set_wercd: "kinv X k \<Longrightarrow> kinv X (set_wercd t e k)"
  unfolding set_wercd_def by (erule kinv_upd_tcb_other) simp_all

text \<open>Members of a wait queue are tasks that wait.\<close>

lemma kinv_waiter:
  assumes "kinv {} k" "t \<in> set (que k h)" "\<not> rdyq h" "h \<noteq> FreeTcb"
  shows "t < NUM_TSKID k" "ts_wait (state (tcb k t))"
  using assms by (auto simp: kinv_mem home_def split: tstat.splits)

subsection \<open>Entering a wait\<close>

lemma kinv_upd_tmeb_notin:
  assumes inv: "kinv X k" and e: "e \<notin> set (timer_queue k)"
  shows "kinv X (upd_tmeb e f k)"
proof -
  note iv = kinvD [OF inv]
  have N: "NUM_TSKID (upd_tmeb e f k) = NUM_TSKID k" by (simp add: upd_tmeb_def NUM_TSKID_def)
  have "qinv X (upd_tmeb e f k)" using iv(1) by (subst qinv_cong [of _ k]) (simp_all add: N)
  moreover have "timers_ok (upd_tmeb e f k)" using iv(3) e by (auto simp: timers_ok_def N)
  moreover have "rq_ok (upd_tmeb e f k)"
    using iv(4) by (subst rq_ok_cong [of _ k]) (simp_all add: upd_tmeb_def)
  moreover have "ready_queue_top (upd_tmeb e f k) = ready_queue_top k"
    by (rule ready_queue_top_cong) (simp_all add: upd_tmeb_def)
  ultimately show ?thesis
    using iv(2,5) inv by (simp add: kinv_def kinvq_def tasks_ok_def N) (simp add: upd_tmeb_def)
qed

lemma kinv_enqueue_tmeb:
  assumes inv: "kinv X k" and e: "e \<notin> set (timer_queue k)"
    and t: "\<And>t. e = TskTmeb t \<Longrightarrow> t < NUM_TSKID k \<and> ts_wait (state (tcb k t)) \<and>
      tm_callback (tmebs k e) = CB_wait_release_tmout"
  shows "kinv X (enqueue_tmeb e k)"
proof -
  note iv = kinvD [OF inv]
  have N: "NUM_TSKID (enqueue_tmeb e k) = NUM_TSKID k" by (simp add: enqueue_tmeb_def NUM_TSKID_def)
  have "qinv X (enqueue_tmeb e k)" using iv(1) by (subst qinv_cong [of _ k]) (simp_all add: N)
  moreover have "timers_ok (enqueue_tmeb e k)"
    using iv(3) e t by (auto simp: timers_ok_def N) (auto simp: enqueue_tmeb_def)
  moreover have "rq_ok (enqueue_tmeb e k)"
    using iv(4) by (subst rq_ok_cong [of _ k]) (simp_all add: enqueue_tmeb_def)
  moreover have "ready_queue_top (enqueue_tmeb e k) = ready_queue_top k"
    by (rule ready_queue_top_cong) (simp_all add: enqueue_tmeb_def)
  ultimately show ?thesis
    using iv(2,5) inv by (simp add: kinv_def kinvq_def tasks_ok_def N) (simp add: enqueue_tmeb_def)
qed

lemma kinv_timer_insert_task:
  assumes inv: "kinv X k" and e: "TskTmeb t \<notin> set (timer_queue k)"
    and t: "t < NUM_TSKID k" "ts_wait (state (tcb k t))"
  shows "kinv X (timer_insert (TskTmeb t) tm CB_wait_release_tmout k)"
    and "kinv X (timer_insert_reltim (TskTmeb t) tm CB_wait_release_tmout k)"
  using e t
  by (auto simp: timer_insert_def timer_insert_reltim_def Let_def NUM_TSKID_def upd_tmeb_def [abs_def]
      intro!: kinv_enqueue_tmeb kinv_upd_tmeb_notin [unfolded upd_tmeb_def] inv)

lemma kinv_ready_no_timer:
  "kinv X k \<Longrightarrow> state (tcb k t) = TS_READY \<Longrightarrow> TskTmeb t \<notin> set (timer_queue k)"
  using kinvD(3) by (fastforce simp: timers_ok_def)

lemma kinv_enter_wait:
  assumes inv: "kinv {} k" and t: "t < NUM_TSKID k" "state (tcb k t) = TS_READY"
  shows "kinv {t} (enter_wait t atr k)"
    and "\<not> rdyq h \<Longrightarrow> que (enter_wait t atr k) h = que k h"
proof -
  have tm: "TskTmeb t \<notin> set (timer_queue k)" by (rule kinv_ready_no_timer [OF inv t(2)])
  have e: "enter_wait t atr k = upd_tcb t (\<lambda>c. c\<lparr>state := TS_WAIT, nodiswai := (atr AND TA_NODISWAI \<noteq> 0)\<rparr>)
      (make_non_ready t k)"
    using t by (simp add: enter_wait_def upd_tcb_def)
  have "kinv {t} (make_non_ready t k)" using kinv_make_non_ready [OF inv t(1) _ t(2)] by simp
  then show "kinv {t} (enter_wait t atr k)"
    unfolding e by (rule kinv_upd_tcb) (simp_all add: wf_tcb_def t)
  have "t \<notin> set (que k h)" if "\<not> rdyq h"
    using that t by (cases h) (auto simp: kinv_mem [OF inv])
  then show "que (enter_wait t atr k) h = que k h" if "\<not> rdyq h"
    using that by (simp add: e QueRemove_apply)
qed

lemma make_wait_frame [simp]:
  "objs (make_wait tm atr k) = objs k"
  "wercd (tcb (make_wait tm atr k) u) = wercd (tcb k u)"
  "que (make_wait tm atr k) = que (enter_wait (self k) atr k)"
  "tcb_table (make_wait tm atr k) = tcb_table (enter_wait (self k) atr k)"
  "objs (make_wait_reltim tm atr k) = objs k"
  "que (make_wait_reltim tm atr k) = que (enter_wait (self k) atr k)"
  "tcb_table (make_wait_reltim tm atr k) = tcb_table (enter_wait (self k) atr k)"
  by (simp_all add: make_wait_def make_wait_reltim_def)

lemmas make_wait_sel [simp] = objs_eqD [OF make_wait_frame(1)] objs_eqD [OF make_wait_frame(5)]

lemma kinv_make_wait:
  assumes inv: "kinv {} k" and t: "self k < NUM_TSKID k" "state (tcb k (self k)) = TS_READY"
  shows "kinv {self k} (make_wait tm atr k)" and "kinv {self k} (make_wait_reltim tm atr k)"
  using t kinv_ready_no_timer [OF inv t(2)]
  by (simp_all add: make_wait_def make_wait_reltim_def kinv_timer_insert_task kinv_enter_wait(1) [OF inv t])

text \<open>The waiting discipline of an object: by priority, or first come first served.\<close>

definition wait_insert :: "kernel \<Rightarrow> UW \<Rightarrow> tid \<Rightarrow> tid list \<Rightarrow> tid list" where
  "wait_insert k atr t ts =
     (if atr AND TA_TPRI \<noteq> 0
      then insert_by (\<lambda>u t. priority (tcb k t) < priority (tcb k u)) t ts
      else ts @ [t])"

lemma self_upd_tcb [simp]: "self (upd_tcb t f k) = self k"
  by (simp add: self_def)

lemma self_objs: "objs k' = objs k \<Longrightarrow> self k' = self k"
  unfolding self_def by (drule objs_eqD(34)) simp

lemma gcb_make_wait_frame [simp]:
  "objs (gcb_make_wait h oid atr tm k) = objs k"
  "wercd (tcb (gcb_make_wait h oid atr tm k) u) = wercd (tcb k u)"
  "wspec (tcb (gcb_make_wait h oid atr tm k) u) = wspec (tcb k u)"
  "winfo (tcb (gcb_make_wait h oid atr tm k) u) = winfo (tcb k u)"
  "priority (tcb (gcb_make_wait h oid atr tm k) u) = priority (tcb k u)"
  "bpriority (tcb (gcb_make_wait h oid atr tm k) u) = bpriority (tcb k u)"
  "mtxlist (tcb (gcb_make_wait h oid atr tm k) u) = mtxlist (tcb k u)"
  "wid (tcb (gcb_make_wait h oid atr tm k) u) = (if u = self k then oid else wid (tcb k u))"
  "state (tcb (gcb_make_wait h oid atr tm k) u) =
     (if u = self k then (case state (tcb k u) of TS_READY \<Rightarrow> TS_WAIT | TS_SUSPEND \<Rightarrow> TS_WAITSUS | s \<Rightarrow> s)
      else state (tcb k u))"
  by (simp_all add: gcb_make_wait_def Let_def)

lemmas gcb_make_wait_sel [simp] = objs_eqD [OF gcb_make_wait_frame(1)]

lemma kinv_gcb_make_wait:
  assumes inv: "kinv {} k" and t: "self k < NUM_TSKID k" "state (tcb k (self k)) = TS_READY"
    and h: "wait_home (wspec (tcb k (self k))) oid = Some h" "\<not> rdyq h"
  shows "kinv {} (gcb_make_wait h oid atr tm k)"
    and "\<not> rdyq h' \<Longrightarrow> que (gcb_make_wait h oid atr tm k) h' =
      (if h' = h then wait_insert k atr (self k) (que k h) else que k h')"
proof -
  let ?t = "self k"
  let ?u = "upd_tcb ?t (\<lambda>c. c\<lparr>wid := oid\<rparr>) k"
  let ?k = "make_wait tm atr ?u"
  have inv': "kinv {} ?u" using inv by (rule kinv_upd_tcb_other) (use t in auto)
  have w: "kinv {?t} ?k" using kinv_make_wait(1) [OF inv'] t by simp
  have home: "home (tcb ?k ?t) = Some h" using t h by simp
  have que: "que ?k h' = que k h'" if "\<not> rdyq h'" for h'
    using kinv_enter_wait(2) [OF inv', of ?t h'] that t by simp
  have N: "?t < NUM_TSKID ?k" using t by simp
  show "kinv {} (gcb_make_wait h oid atr tm k)"
    using kinv_que_append [OF w N home h(2)] kinv_queue_insert_tpri [OF w N home h(2)]
    by (simp add: gcb_make_wait_def Let_def)
  assume h': "\<not> rdyq h'"
  have pri: "priority (tcb ?k u) = priority (tcb k u)" for u by simp
  show "que (gcb_make_wait h oid atr tm k) h' =
      (if h' = h then wait_insert k atr (self k) (que k h) else que k h')"
  proof (cases "atr AND TA_TPRI = 0")
    case True
    then have "gcb_make_wait h oid atr tm k = que_append ?t h ?k"
      by (simp add: gcb_make_wait_def Let_def)
    with True que [OF h'] que [OF h(2)] show ?thesis by (simp add: wait_insert_def)
  next
    case False
    then have "gcb_make_wait h oid atr tm k = queue_insert_tpri ?t h ?k"
      by (simp add: gcb_make_wait_def Let_def)
    moreover have "que (queue_insert_tpri ?t h ?k) =
        (que ?k)(h := insert_by (\<lambda>u t. priority (tcb k t) < priority (tcb k u)) ?t (que ?k h))"
      unfolding queue_insert_tpri_que [OF kinvD(6) [OF w]] pri by (rule refl)
    ultimately show ?thesis using False que [OF h'] que [OF h(2)]
      by (simp only: wait_insert_def fun_upd_apply) simp
  qed
qed

lemma kinv_gcb_make_wait_with_diswai:
  assumes inv: "kinv {} k" and t: "self k < NUM_TSKID k" "state (tcb k (self k)) = TS_READY"
    and h: "wait_home (wspec (tcb k (self k))) oid = Some h" "\<not> rdyq h"
  shows "kinv {} (gcb_make_wait_with_diswai h oid atr tm k)"
  unfolding gcb_make_wait_with_diswai_def Let_def
  using t h by (auto intro!: kinv_set_wercd inv kinv_gcb_make_wait(1) simp: self_objs [OF set_wercd_frame(1)])

subsection \<open>Deleting the waited object, changing the place in a queue, leaving the kernel\<close>

text \<open>
  \<open>released T e k k'\<close>: the tasks of \<open>T\<close>, which waited, have been released with the result \<open>e\<close>; nothing
  else happened to the tasks and the wait queues.
\<close>

definition released :: "tid set \<Rightarrow> ER \<Rightarrow> kernel \<Rightarrow> kernel \<Rightarrow> bool" where
  "released T e k k' \<longleftrightarrow>
     kinv {} k' \<and> NUM_TSKID k' = NUM_TSKID k \<and> ctxtsk k' = ctxtsk k \<and>
     (\<forall>t \<in> T. t < NUM_TSKID k \<and> ts_wait (state (tcb k t))) \<and>
     (\<forall>u. core (tcb k' u) = core (tcb k u)) \<and>
     (\<forall>u. wercd (tcb k' u) = (if u \<in> T then e else wercd (tcb k u))) \<and>
     (\<forall>u. state (tcb k' u) =
        (if u \<in> T then if state (tcb k u) = TS_WAIT then TS_READY else TS_SUSPEND
         else state (tcb k u))) \<and>
     (\<forall>h. \<not> rdyq h \<longrightarrow> que k' h = filter (\<lambda>u. u \<notin> T) (que k h)) \<and>
     timer_queue k' = filter (\<lambda>ev. ev \<notin> TskTmeb ` T) (timer_queue k) \<and> tmebs k' = tmebs k"

lemma releasedD:
  assumes "released T e k k'"
  shows "kinv {} k'" "NUM_TSKID k' = NUM_TSKID k" "ctxtsk k' = ctxtsk k"
    "t \<in> T \<Longrightarrow> t < NUM_TSKID k" "t \<in> T \<Longrightarrow> ts_wait (state (tcb k t))"
    "core (tcb k' u) = core (tcb k u)"
    "wercd (tcb k' u) = (if u \<in> T then e else wercd (tcb k u))"
    "state (tcb k' u) =
        (if u \<in> T then if state (tcb k u) = TS_WAIT then TS_READY else TS_SUSPEND
         else state (tcb k u))"
    "\<not> rdyq h \<Longrightarrow> que k' h = filter (\<lambda>u. u \<notin> T) (que k h)"
    "ev \<in> set (timer_queue k') \<longleftrightarrow> ev \<in> set (timer_queue k) \<and> ev \<notin> TskTmeb ` T"
    "timer_queue k' = filter (\<lambda>ev. ev \<notin> TskTmeb ` T) (timer_queue k)" "tmebs k' = tmebs k"
proof -
  show "timer_queue k' = filter (\<lambda>ev. ev \<notin> TskTmeb ` T) (timer_queue k)" using assms unfolding released_def by blast
  then show "ev \<in> set (timer_queue k') \<longleftrightarrow> ev \<in> set (timer_queue k) \<and> ev \<notin> TskTmeb ` T" by simp
qed (use assms in \<open>unfold released_def, blast+\<close>)

lemma released_refl: "kinv {} k \<Longrightarrow> released {} e k k"
  by (simp add: released_def)

lemma filter_notin_insert: "filter (\<lambda>u. u \<notin> T) (filter (\<lambda>u. u \<notin> S) xs) = filter (\<lambda>u. u \<notin> S \<union> T) xs"
  by (simp add: conj_commute)

lemma released_trans:
  assumes r: "released S e k k'" and s: "released T e k' k''"
  shows "released (S \<union> T) e k k''"
proof -
  have dis: "u \<notin> S \<and> u < NUM_TSKID k \<and> ts_wait (state (tcb k u))" if "u \<in> T" for u
    using releasedD(4,5) [OF s that] releasedD(2) [OF r] releasedD(8) [OF r, of u]
    by (auto split: if_splits)
  show ?thesis
    unfolding released_def
    using releasedD(1) [OF s] dis
    by (auto simp: releasedD(2-3,6-9,11,12) [OF r] releasedD(2-3,6-9,11,12) [OF s] conj_commute image_Un
        dest: releasedD(4,5) [OF r])
qed

lemma remove1_filter: "distinct xs \<Longrightarrow> remove1 t xs = filter (\<lambda>u. u \<noteq> t) xs"
  by (simp add: distinct_remove1_removeAll removeAll_filter_not_eq eq_commute)

lemma released_single:
  assumes inv: "kinv {} k" and t: "t < NUM_TSKID k" "ts_wait (state (tcb k t))"
  shows "released {t} e k (set_wercd t e (wait_release t k))"
  unfolding released_def
  using t kinv_set_wercd [OF kinv_wait_release(1) [OF inv t]] kinv_wait_release(2) [OF inv t]
    qinv_distinct [OF kinvD(1) [OF inv]] kinvD(3) [OF inv]
  by (auto simp: remove1_filter timers_ok_def)

lemma released_wait_release:
  assumes "kinv {} k" "t < NUM_TSKID k" "ts_wait (state (tcb k t))"
  shows "released {t} (wercd (tcb k t)) k (wait_release t k)"
  using releasedD [OF released_single [OF assms, of "wercd (tcb k t)"]] kinv_wait_release(1) [OF assms]
    kinv_wait_release(2) [OF assms] kinvD(3) [OF assms(1)] qinv_distinct [OF kinvD(1) [OF assms(1)]] assms(2,3)
  by (auto simp: released_def remove1_filter timers_ok_def)

text \<open>A change outside scheduler, queues and timers does not matter.\<close>

lemma released_cong:
  assumes "released T e k k'" "kinv {} k''" "NUM_TSKID k'' = NUM_TSKID k'" "ctxtsk k'' = ctxtsk k'"
    "tcb_table k'' = tcb_table k'" "que k'' = que k'" "timer_queue k'' = timer_queue k'" "tmebs k'' = tmebs k'"
  shows "released T e k k''"
  using assms unfolding released_def by simp

lemma wait_delete_loop_released:
  assumes "kinv {} k" "\<not> rdyq h" "h \<noteq> FreeTcb" "length (que k h) \<le> n"
  shows "released (set (que k h)) E_DLT k (wait_delete_loop n h k) \<and> objs (wait_delete_loop n h k) = objs k"
  using assms
proof (induction n arbitrary: k)
  case 0
  then show ?case by (simp add: released_refl)
next
  case (Suc n)
  show ?case
  proof (cases "que k h")
    case Nil
    with Suc.prems show ?thesis by (simp add: released_refl)
  next
    case (Cons t ts)
    let ?k = "set_wercd t E_DLT (wait_release t k)"
    have t: "t < NUM_TSKID k" "ts_wait (state (tcb k t))"
      using kinv_waiter [OF Suc.prems(1) _ Suc.prems(2,3), of t] Cons by simp_all
    have rel: "released {t} E_DLT k ?k" by (rule released_single [OF Suc.prems(1) t])
    have q: "que ?k h = ts"
      using kinv_wait_release(2) [OF Suc.prems(1) t Suc.prems(2)] Cons by simp
    have "released (set ts) E_DLT ?k (wait_delete_loop n h ?k) \<and> objs (wait_delete_loop n h ?k) = objs ?k"
      using Suc.IH [of ?k] releasedD(1) [OF rel] Suc.prems Cons q by simp
    with released_trans [OF rel, of "set ts"] Cons show ?thesis by simp
  qed
qed

lemma wait_delete_released:
  assumes "kinv {} k" "\<not> rdyq h" "h \<noteq> FreeTcb"
  shows "released (set (que k h)) E_DLT k (wait_delete h k)"
  using wait_delete_loop_released [OF assms order_refl] by (simp add: wait_delete_def)

lemma wait_delete_empties:
  assumes "kinv {} k" "\<not> rdyq h" "h \<noteq> FreeTcb"
  shows "que (wait_delete h k) h = []"
  using releasedD(9) [OF wait_delete_released [OF assms] assms(2)] by simp

lemma wait_delete_loop_objs [simp]: "objs (wait_delete_loop n h k) = objs k"
  by (induction n arbitrary: k) (auto split: list.splits)

lemma wait_delete_objs [simp]: "objs (wait_delete h k) = objs k"
  by (simp add: wait_delete_def)

lemmas wait_delete_sel [simp] = objs_eqD [OF wait_delete_objs]

text \<open>
  A system call ends with the dispatch check: from then on the task in execution is the scheduled
  one, unless dispatching is not possible.
\<close>

definition ctx_ok :: "kernel \<Rightarrow> bool" where
  "ctx_ok k \<longleftrightarrow> isDI k \<or> isTaskIndependent k \<or> dispatch_disabled k \<noteq> 0 \<or> ctxtsk k = schedtsk k"

definition kernel_ok :: "kernel \<Rightarrow> bool" where
  "kernel_ok k \<longleftrightarrow> kinv {} k \<and> ctx_ok k"

lemma kinv_ctxtsk: "kinv X k \<Longrightarrow> kinv X (k\<lparr>ctxtsk := c\<rparr>)"
  by (erule kinv_objs_cong) (simp_all add: NUM_TSKID_def)

lemma kernel_ok_END_CRITICAL_SECTION: "kinv {} k \<Longrightarrow> kernel_ok (END_CRITICAL_SECTION k)"
  by (auto simp: kernel_ok_def ctx_ok_def END_CRITICAL_SECTION_def dispatch_def kinv_ctxtsk)

lemma kernel_ok_kinv: "kernel_ok k \<Longrightarrow> kinv {} k"
  by (simp add: kernel_ok_def)

text \<open>Where a call may wait, the calling task is the scheduled task.\<close>

lemma kernel_ok_self:
  assumes "kernel_ok k" "\<not> in_ddsp k"
  shows "ctxtsk k = Some (self k)" "self k < NUM_TSKID k" "state (tcb k (self k)) = TS_READY"
    "schedtsk k = Some (self k)"
proof -
  have c: "ctxtsk k = Some (self k)" "ctxtsk k = schedtsk k"
    using assms by (auto simp: in_ddsp_def in_indp_def kernel_ok_def ctx_ok_def self_def)
  then show "ctxtsk k = Some (self k)" "schedtsk k = Some (self k)" by simp_all
  then have "ready_queue_top k = Some (self k)" using assms(1) by (simp add: kernel_ok_def kinv_def)
  with kinv_sched(1,3) [OF kernel_ok_kinv [OF assms(1)]]
  show "self k < NUM_TSKID k" "state (tcb k (self k)) = TS_READY" by simp_all
qed

lemma END_CRITICAL_SECTION_frame [simp]:
  "tcb_table (END_CRITICAL_SECTION k) = tcb_table k" "que (END_CRITICAL_SECTION k) = que k"
  "semcb_table (END_CRITICAL_SECTION k) = semcb_table k"
  "free_semcb (END_CRITICAL_SECTION k) = free_semcb k"
  "flgcb_table (END_CRITICAL_SECTION k) = flgcb_table k"
  "free_flgcb (END_CRITICAL_SECTION k) = free_flgcb k"
  "mbxcb_table (END_CRITICAL_SECTION k) = mbxcb_table k"
  "free_mbxcb (END_CRITICAL_SECTION k) = free_mbxcb k"
  "mtxcb_table (END_CRITICAL_SECTION k) = mtxcb_table k"
  "free_mtxcb (END_CRITICAL_SECTION k) = free_mtxcb k"
  "msgque (END_CRITICAL_SECTION k) = msgque k" "msgpri (END_CRITICAL_SECTION k) = msgpri k"
  "mem_uint (END_CRITICAL_SECTION k) = mem_uint k" "mem_ptr (END_CRITICAL_SECTION k) = mem_ptr k"
  "timer_queue (END_CRITICAL_SECTION k) = timer_queue k" "tmebs (END_CRITICAL_SECTION k) = tmebs k"
  "current_time (END_CRITICAL_SECTION k) = current_time k"
  "schedtsk (END_CRITICAL_SECTION k) = schedtsk k"
  "max_tskid (END_CRITICAL_SECTION k) = max_tskid k" "NUM_TSKID (END_CRITICAL_SECTION k) = NUM_TSKID k"
  "max_semid (END_CRITICAL_SECTION k) = max_semid k" "max_flgid (END_CRITICAL_SECTION k) = max_flgid k"
  "max_mbxid (END_CRITICAL_SECTION k) = max_mbxid k" "max_mtxid (END_CRITICAL_SECTION k) = max_mtxid k"
  "cyccb_table (END_CRITICAL_SECTION k) = cyccb_table k"
  "almcb_table (END_CRITICAL_SECTION k) = almcb_table k"
  "mbfcb_table (END_CRITICAL_SECTION k) = mbfcb_table k" "free_mbfcb (END_CRITICAL_SECTION k) = free_mbfcb k"
  "porcb_table (END_CRITICAL_SECTION k) = porcb_table k" "free_porcb (END_CRITICAL_SECTION k) = free_porcb k"
  "max_mbfid (END_CRITICAL_SECTION k) = max_mbfid k" "max_porid (END_CRITICAL_SECTION k) = max_porid k"
  "mem_int (END_CRITICAL_SECTION k) = mem_int k" "mem_byte (END_CRITICAL_SECTION k) = mem_byte k"
  by (simp_all add: END_CRITICAL_SECTION_def dispatch_def NUM_TSKID_def)

subsection \<open>Waiting on an object, as the calls do it\<close>

lemma kernel_ok_dispatch:
  "kernel_ok k \<Longrightarrow> CHECK_DISPATCH k = None \<Longrightarrow>
    ctxtsk k = Some (self k) \<and> self k < NUM_TSKID k \<and> state (tcb k (self k)) = TS_READY"
  using kernel_ok_self [of k] by (simp add: CHECK_DISPATCH_def)

lemma kinv_ready_notin:
  "kinv X k \<Longrightarrow> state (tcb k t) = TS_READY \<Longrightarrow> \<not> rdyq h \<Longrightarrow> t \<notin> set (que k h)"
  by (cases h) (auto simp: kinv_mem)

lemma gcb_make_wait_with_diswai_frame [simp]:
  "objs (gcb_make_wait_with_diswai h oid atr tm k) = objs k"
  "winfo (tcb (gcb_make_wait_with_diswai h oid atr tm k) u) = winfo (tcb k u)"
  "wspec (tcb (gcb_make_wait_with_diswai h oid atr tm k) u) = wspec (tcb k u)"
  "priority (tcb (gcb_make_wait_with_diswai h oid atr tm k) u) = priority (tcb k u)"
  by (simp_all add: gcb_make_wait_with_diswai_def Let_def)

lemmas gcb_make_wait_with_diswai_sel [simp] = objs_eqD [OF gcb_make_wait_with_diswai_frame(1)]

text \<open>Either nothing but the result cell changes, or the task waits on the object.\<close>

lemma gcb_make_wait_with_diswai_cases:
  obtains e where "gcb_make_wait_with_diswai h oid atr tm k = set_wercd (self k) e k"
  | "gcb_make_wait_with_diswai h oid atr tm k = gcb_make_wait h oid atr tm (set_wercd (self k) E_TMOUT k)"
proof (cases "is_diswai atr (tcb k (self k)) (tskwait (wspec (tcb k (self k))))")
  case True
  then show thesis by (intro that(1) [of E_DISWAI]) (simp add: gcb_make_wait_with_diswai_def Let_def)
next
  case False
  then show thesis
    by (cases "tm = TMO_POL") (auto simp: gcb_make_wait_with_diswai_def Let_def intro: that(1) [of E_TMOUT] that(2))
qed

lemma wait_insert_simps [simp]:
  "set (wait_insert k atr t ts) = insert t (set ts)" "wait_insert k atr t ts \<noteq> []"
  by (simp_all add: wait_insert_def)

lemma wait_insert_set_wercd [simp]: "wait_insert (set_wercd t e k) = wait_insert k"
  by (simp add: wait_insert_def fun_eq_iff)

lemma wait_insert_hd:
  "hd (wait_insert k atr t ts) = t \<or> ts \<noteq> [] \<and> hd (wait_insert k atr t ts) = hd ts \<and>
    (atr AND TA_TPRI \<noteq> 0 \<longrightarrow> \<not> priority (tcb k t) < priority (tcb k (hd ts)))"
  by (auto simp: wait_insert_def hd_insert_by hd_append)

lemma gcb_top_hd:
  "gcb_top_of_wait_queue h atr t k =
    (if que k h = [] \<or> (atr AND TA_TPRI \<noteq> 0 \<and> priority (tcb k t) < priority (tcb k (hd (que k h)))) then t
     else hd (que k h))"
  by (auto simp: gcb_top_of_wait_queue_def split: list.splits)

lemma wait_insert_sorted:
  assumes "sorted (map (\<lambda>t. priority (tcb k t)) ts)" "atr AND TA_TPRI \<noteq> 0"
  shows "sorted (map (\<lambda>t. priority (tcb k t)) (wait_insert k atr t ts))"
  using assms by (simp add: wait_insert_def sorted_wrt_insert_by)

subsection \<open>A change of priority of a waiting task\<close>

lemma gcb_change_priority_frame [simp]:
  "objs (gcb_change_priority h t k) = objs k" "tcb_table (gcb_change_priority h t k) = tcb_table k"
  "schedtsk (gcb_change_priority h t k) = schedtsk k"
  "timer_queue (gcb_change_priority h t k) = timer_queue k" "tmebs (gcb_change_priority h t k) = tmebs k"
  by (simp_all add: gcb_change_priority_def)

lemmas gcb_change_priority_sel [simp] = objs_eqD [OF gcb_change_priority_frame(1)]

abbreviation (input) by_priority :: "kernel \<Rightarrow> tid \<Rightarrow> tid \<Rightarrow> bool" where
  "by_priority k \<equiv> \<lambda>u t. priority (tcb k t) < priority (tcb k u)"

lemma kinv_gcb_change_priority:
  assumes inv: "kinv {} k" and t: "t \<in> set (que k h)" and h: "\<not> rdyq h" "h \<noteq> FreeTcb"
  shows "kinv {} (gcb_change_priority h t k)"
    and "que (gcb_change_priority h t k) =
      (que k)(h := insert_by (by_priority k) t (remove1 t (que k h)))"
proof -
  have w: "t < NUM_TSKID k" "ts_wait (state (tcb k t))" "home (tcb k t) = Some h"
    using kinv_waiter [OF inv t h] t by (simp_all add: kinv_mem [OF inv])
  have r: "kinv {t} (que_remove t k)"
    using kinv_que_remove [OF inv] wait_state_simps [OF w(2)] by simp
  show "kinv {} (gcb_change_priority h t k)"
    unfolding gcb_change_priority_def by (rule kinv_queue_insert_tpri [OF r _ _ h(1)]) (use w in simp_all)
  have other: "remove1 t (que k h') = que k h'" if "h' \<noteq> h" for h'
    using disjoint_queuesD [OF kinvD(6) [OF inv] t, of h'] that by simp
  show "que (gcb_change_priority h t k) =
      (que k)(h := insert_by (by_priority k) t (remove1 t (que k h)))"
    using other by (auto simp: gcb_change_priority_def queue_insert_tpri_que [OF kinvD(6) [OF r]] fun_eq_iff)
qed

lemma set_priority_frame [simp]:
  "objs (set_priority t p k) = objs k" "que (set_priority t p k) = que k"
  "schedtsk (set_priority t p k) = schedtsk k" "timer_queue (set_priority t p k) = timer_queue k"
  "tmebs (set_priority t p k) = tmebs k"
  "tcb (set_priority t p k) u = (if u = t then (tcb k t)\<lparr>priority := p mod 256\<rparr> else tcb k u)"
  by (simp_all add: set_priority_def)

lemmas set_priority_sel [simp] = objs_eqD [OF set_priority_frame(1)]

lemma kinv_set_priority:
  assumes "kinv X k" "state (tcb k t) \<noteq> TS_READY \<or> t \<in> X" "p < NUM_PRI"
  shows "kinv X (set_priority t p k)"
  unfolding set_priority_def
  using assms(2,3) by (intro kinv_upd_tcb [OF assms(1)]) (auto simp: home_def wf_tcb_def split: tstat.splits)

subsection \<open>Effects of waiting, summarised\<close>

text \<open>
  \<open>task_waits h ws wi oid atr k k'\<close>: the running task has joined the wait queue \<open>h\<close> under the wait
  specification \<open>ws\<close> and with the wait information \<open>wi\<close>. \<open>task_polls k k'\<close>: it has not, and at most
  its own wait data changed.
\<close>

definition same_tcb :: "tcb \<Rightarrow> tcb \<Rightarrow> bool" where
  "same_tcb c' c \<longleftrightarrow> winfo c' = winfo c \<and> wid c' = wid c \<and> wspec c' = wspec c \<and>
     priority c' = priority c \<and> bpriority c' = bpriority c \<and> mtxlist c' = mtxlist c"

definition task_waits ::
  "qhead \<Rightarrow> wspec \<Rightarrow> winfo \<Rightarrow> ID \<Rightarrow> UW \<Rightarrow> kernel \<Rightarrow> kernel \<Rightarrow> bool" where
  "task_waits h ws wi oid atr k k' \<longleftrightarrow>
     kinv {} k' \<and> objs k' = objs k \<and>
     (let c = tcb k (self k); c' = tcb k' (self k)
      in state c' = TS_WAIT \<and> wspec c' = ws \<and> winfo c' = wi \<and> wid c' = oid \<and> wercd c' = E_TMOUT \<and>
         priority c' = priority c \<and> bpriority c' = bpriority c \<and> mtxlist c' = mtxlist c) \<and>
     (\<forall>u. u \<noteq> self k \<longrightarrow> same_tcb (tcb k' u) (tcb k u) \<and> state (tcb k' u) = state (tcb k u)) \<and>
     (\<forall>h'. \<not> rdyq h' \<longrightarrow>
        que k' h' = (if h' = h then wait_insert k atr (self k) (que k h) else que k h'))"

definition task_polls :: "kernel \<Rightarrow> kernel \<Rightarrow> bool" where
  "task_polls k k' \<longleftrightarrow>
     kinv {} k' \<and> objs k' = objs k \<and> que k' = que k \<and>
     (\<forall>u. state (tcb k' u) = state (tcb k u) \<and> priority (tcb k' u) = priority (tcb k u) \<and>
          bpriority (tcb k' u) = bpriority (tcb k u) \<and> mtxlist (tcb k' u) = mtxlist (tcb k u)) \<and>
     (\<forall>u. u \<noteq> self k \<longrightarrow> tcb k' u = tcb k u)"

lemma same_tcb_core:
  assumes "core c' = core c"
  shows "same_tcb c' c"
  using core_eqD [OF assms] by (simp add: same_tcb_def)

lemma is_diswai_cong: "waitmask c' = waitmask c \<Longrightarrow> is_diswai a c' w = is_diswai a c w"
  by (simp add: is_diswai_def)

lemma enter_wait_other: "u \<noteq> t \<Longrightarrow> core (tcb (enter_wait t atr k) u) = core (tcb k u)"
  by (simp add: enter_wait_core)

lemma gcb_make_wait_other:
  assumes "u \<noteq> self k"
  shows "same_tcb (tcb (gcb_make_wait h oid atr tm k) u) (tcb k u)"
  using assms by (simp add: same_tcb_def)

lemma gcb_wait_waits:
  assumes inv: "kinv {} k" and t: "self k < NUM_TSKID k" "state (tcb k (self k)) = TS_READY"
    and h: "wait_home ws oid = Some h" "\<not> rdyq h"
    and k0: "k0 = upd_tcb (self k) (\<lambda>tc. tc\<lparr>wspec := ws, wercd := e, winfo := wi\<rparr>) k"
    and go: "\<not> is_diswai atr (tcb k (self k)) (tskwait ws)" "tm \<noteq> TMO_POL"
  shows "task_waits h ws wi oid atr k (gcb_make_wait_with_diswai h oid atr tm k0)"
proof -
  let ?t = "self k" and ?w = "set_wercd (self k) E_TMOUT k0"
  have "kinv {} k0" unfolding k0 using t by (intro kinv_upd_tcb_other [OF inv]) simp_all
  then have w: "kinv {} ?w" by (rule kinv_set_wercd)
  have s0: "self k0 = ?t" "tskwait (wspec (tcb k0 ?t)) = tskwait ws" by (simp_all add: k0)
  have s: "self ?w = ?t" "?t < NUM_TSKID ?w" "state (tcb ?w ?t) = TS_READY"
    "wait_home (wspec (tcb ?w ?t)) oid = Some h" "objs ?w = objs k" "que ?w = que k"
    "priority (tcb ?w u) = priority (tcb k u)" "winfo (tcb ?w ?t) = wi" "wspec (tcb ?w ?t) = ws"
    "bpriority (tcb ?w u) = bpriority (tcb k u)" "mtxlist (tcb ?w u) = mtxlist (tcb k u)"
    "wercd (tcb ?w ?t) = E_TMOUT"
    for u using t h(1) s0(1) by (simp_all add: self_objs [OF set_wercd_frame(1)]) (simp_all add: k0)
  have o: "u \<noteq> ?t \<Longrightarrow> core (tcb ?w u) = core (tcb k u) \<and> state (tcb ?w u) = state (tcb k u)" for u
    by (simp add: k0)
  have dis: "is_diswai atr (tcb k0 ?t) (tskwait ws) = is_diswai atr (tcb k ?t) (tskwait ws)"
    by (rule is_diswai_cong) (simp add: k0)
  have eq: "gcb_make_wait_with_diswai h oid atr tm k0 = gcb_make_wait h oid atr tm ?w"
    using go by (simp add: gcb_make_wait_with_diswai_def Let_def s0 dis)
  note g = kinv_gcb_make_wait [OF w, unfolded s(1), OF s(2,3,4) h(2)]
  have "priority (tcb k0 u) = priority (tcb k u)" for u by (simp add: k0)
  then have wi: "wait_insert k0 = wait_insert k" by (simp add: wait_insert_def fun_eq_iff)
  have "same_tcb (tcb (gcb_make_wait h oid atr tm ?w) u) (tcb k u) \<and>
      state (tcb (gcb_make_wait h oid atr tm ?w) u) = state (tcb k u)" if "u \<noteq> ?t" for u
    using o [OF that] core_eqD [of "tcb ?w u" "tcb k u"] that
    by (simp add: same_tcb_def s(1) del: set_wercd_frame set_wercd_sel)
  then show ?thesis
    unfolding eq task_waits_def Let_def
    using g(1) g(2) [of _ atr tm] s
    by (simp add: wi del: set_wercd_frame set_wercd_sel)
qed

lemma gcb_wait_polls:
  assumes inv: "kinv {} k" and t: "state (tcb k (self k)) = TS_READY"
    and k0: "k0 = upd_tcb (self k) (\<lambda>tc. tc\<lparr>wspec := ws, wercd := e, winfo := wi\<rparr>) k"
    and no: "is_diswai atr (tcb k (self k)) (tskwait ws) \<or> tm = TMO_POL"
  shows "task_polls k (gcb_make_wait_with_diswai h oid atr tm k0)"
    and "wercd (tcb (gcb_make_wait_with_diswai h oid atr tm k0) (self k)) =
      (if is_diswai atr (tcb k (self k)) (tskwait ws) then E_DISWAI else E_TMOUT)"
proof -
  let ?t = "self k"
  have s0: "self k0 = ?t" "tskwait (wspec (tcb k0 ?t)) = tskwait ws" by (simp_all add: k0)
  have dis: "is_diswai atr (tcb k0 ?t) (tskwait ws) = is_diswai atr (tcb k ?t) (tskwait ws)"
    by (rule is_diswai_cong) (simp add: k0)
  have eq: "gcb_make_wait_with_diswai h oid atr tm k0 =
      set_wercd ?t (if is_diswai atr (tcb k ?t) (tskwait ws) then E_DISWAI else E_TMOUT) k0"
    using no by (auto simp: gcb_make_wait_with_diswai_def Let_def s0 dis)
  show "wercd (tcb (gcb_make_wait_with_diswai h oid atr tm k0) (self k)) =
      (if is_diswai atr (tcb k (self k)) (tskwait ws) then E_DISWAI else E_TMOUT)"
    by (simp add: eq)
  have "kinv {} k0" unfolding k0 using t by (intro kinv_upd_tcb_other [OF inv]) simp_all
  then have "kinv {} (set_wercd ?t e' k0)" for e' by (rule kinv_set_wercd)
  then show "task_polls k (gcb_make_wait_with_diswai h oid atr tm k0)"
    unfolding eq by (simp add: task_polls_def k0) (simp add: set_wercd_def)
qed

text \<open>The calls that queue the caller themselves, first come first served.\<close>

lemma plain_wait_waits:
  assumes inv: "kinv {} k" and t: "self k < NUM_TSKID k" "state (tcb k (self k)) = TS_READY"
    and h: "wait_home ws oid = Some h" "\<not> rdyq h"
    and k0: "k0 = upd_tcb (self k) (\<lambda>tc. tc\<lparr>wspec := ws, wid := oid, wercd := E_TMOUT, winfo := wi\<rparr>) k"
  shows "task_waits h ws wi oid 0 k (que_append (self k) h (make_wait tm atr k0))"
proof -
  let ?t = "self k" and ?m = "make_wait tm atr k0"
  have inv0: "kinv {} k0" unfolding k0 using t by (intro kinv_upd_tcb_other [OF inv]) simp_all
  have s0: "self k0 = ?t" "?t < NUM_TSKID k0" "state (tcb k0 ?t) = TS_READY" using t by (simp_all add: k0)
  have w: "kinv {?t} ?m" using kinv_make_wait(1) [OF inv0] s0 by simp
  have tcb0: "tcb k0 u = tcb k u" if "u \<noteq> ?t" for u using that by (simp add: k0)
  have own: "state (tcb ?m ?t) = TS_WAIT" "wspec (tcb ?m ?t) = ws" "winfo (tcb ?m ?t) = wi" "wid (tcb ?m ?t) = oid"
    "wercd (tcb ?m ?t) = E_TMOUT" "priority (tcb ?m ?t) = priority (tcb k ?t)"
    "bpriority (tcb ?m ?t) = bpriority (tcb k ?t)" "mtxlist (tcb ?m ?t) = mtxlist (tcb k ?t)"
    using t s0(1) by (simp_all add: k0)
  have q: "que ?m h' = que k h'" if "\<not> rdyq h'" for h'
    using kinv_enter_wait(2) [OF inv0, of ?t h'] s0 that by (simp add: k0)
  have "kinv {} (que_append ?t h ?m)"
    by (rule kinv_que_append [OF w _ _ h(2)]) (use own h(1) t s0(1) in \<open>simp_all add: k0\<close>)
  moreover have "same_tcb (tcb ?m u) (tcb k u) \<and> state (tcb ?m u) = state (tcb k u)" if "u \<noteq> ?t" for u
    using that tcb0 [OF that] s0(1) by (simp add: same_tcb_def)
  ultimately show ?thesis
    using own q q [OF h(2)] by (simp add: task_waits_def Let_def wait_insert_def) (simp add: k0)
qed

text \<open>What holds of every waiter of an object, and of the order of its queue.\<close>

definition wq_ok :: "qhead \<Rightarrow> UW \<Rightarrow> ID \<Rightarrow> wspec \<Rightarrow> kernel \<Rightarrow> bool" where
  "wq_ok h atr oid ws k \<longleftrightarrow>
     (\<forall>t \<in> set (que k h). wid (tcb k t) = oid \<and> wspec (tcb k t) = ws) \<and>
     (atr AND TA_TPRI \<noteq> 0 \<longrightarrow> sorted (map (\<lambda>t. priority (tcb k t)) (que k h)))"

lemma wq_ok_empty [simp]: "que k h = [] \<Longrightarrow> wq_ok h atr oid ws k"
  by (simp add: wq_ok_def)

lemma wq_ok_cong:
  assumes "que k' h = que k h" "\<And>t. t \<in> set (que k h) \<Longrightarrow> same_tcb (tcb k' t) (tcb k t)"
  shows "wq_ok h atr oid ws k' = wq_ok h atr oid ws k"
  unfolding wq_ok_def assms(1)
  using assms(2) sorted_map_cong [of "que k h" "\<lambda>t. priority (tcb k' t)" "\<lambda>t. priority (tcb k t)"]
  by (auto simp: same_tcb_def)

lemma wq_ok_released:
  assumes "wq_ok h atr oid ws k" "released T e k k'" "\<not> rdyq h"
  shows "wq_ok h atr oid ws k'"
  using assms(1) core_eqD [OF releasedD(6) [OF assms(2)]] releasedD(9) [OF assms(2,3)]
  by (auto simp: wq_ok_def intro: sorted_filter)

lemma released_other:
  assumes inv: "kinv {} k" and r: "released T e k k'" and T: "T \<subseteq> set (que k h)" "h' \<noteq> h" "\<not> rdyq h'"
  shows "que k' h' = que k h'"
proof -
  have "u \<notin> T" if "u \<in> set (que k h')" for u
    using T disjoint_queuesD [OF kinvD(6) [OF inv] that, of h] by auto
  then show ?thesis using releasedD(9) [OF r T(3)] by (simp add: filter_id_conv)
qed

lemma released_same: "released T e k k' \<Longrightarrow> same_tcb (tcb k' t) (tcb k t)"
  by (rule same_tcb_core) (rule releasedD)

lemma self_notin:
  "kinv X k \<Longrightarrow> state (tcb k (self k)) = TS_READY \<Longrightarrow> \<not> rdyq h \<Longrightarrow> u \<in> set (que k h) \<Longrightarrow> u \<noteq> self k"
  using kinv_ready_notin by blast

lemma task_waitsD:
  assumes "task_waits h ws wi oid atr k k'"
  shows "kinv {} k'" "objs k' = objs k" "state (tcb k' (self k)) = TS_WAIT"
    "wspec (tcb k' (self k)) = ws" "winfo (tcb k' (self k)) = wi" "wid (tcb k' (self k)) = oid"
    "wercd (tcb k' (self k)) = E_TMOUT" "priority (tcb k' (self k)) = priority (tcb k (self k))"
    "bpriority (tcb k' (self k)) = bpriority (tcb k (self k))"
    "mtxlist (tcb k' (self k)) = mtxlist (tcb k (self k))"
    "u \<noteq> self k \<Longrightarrow> same_tcb (tcb k' u) (tcb k u)" "u \<noteq> self k \<Longrightarrow> state (tcb k' u) = state (tcb k u)"
    "\<not> rdyq h' \<Longrightarrow> que k' h' = (if h' = h then wait_insert k atr (self k) (que k h) else que k h')"
    "priority (tcb k' v) = priority (tcb k v)"
  using assms unfolding task_waits_def Let_def same_tcb_def by (blast, blast, blast, blast, blast, blast,
      blast, blast, blast, blast, blast, blast, blast, metis)

lemma task_pollsD:
  assumes "task_polls k k'"
  shows "kinv {} k'" "objs k' = objs k" "que k' = que k" "state (tcb k' u) = state (tcb k u)"
    "priority (tcb k' u) = priority (tcb k u)" "bpriority (tcb k' u) = bpriority (tcb k u)"
    "mtxlist (tcb k' u) = mtxlist (tcb k u)" "u \<noteq> self k \<Longrightarrow> tcb k' u = tcb k u"
  using assms unfolding task_polls_def by blast+

lemma wq_ok_waits:
  assumes w: "task_waits h ws wi oid atr k k'" and ok: "wq_ok h atr oid ws k" and h: "\<not> rdyq h"
  shows "wq_ok h atr oid ws k'"
proof -
  note d = task_waitsD [OF w]
  have "wid (tcb k' u) = oid \<and> wspec (tcb k' u) = ws" if "u \<in> set (que k' h)" for u
    using that ok d(11) [of u] d(4,6) d(13) [OF h]
    by (cases "u = self k") (auto simp: wq_ok_def same_tcb_def)
  moreover have "sorted (map (\<lambda>t. priority (tcb k' t)) (que k' h))" if "atr AND TA_TPRI \<noteq> 0"
    using ok that wait_insert_sorted [of k "que k h" atr "self k"] d(13) [OF h]
    by (simp add: wq_ok_def d(14))
  ultimately show ?thesis by (simp add: wq_ok_def)
qed

lemma wq_chg_pri:
  assumes inv: "kinv {} k" and t: "t \<in> set (que k h)" and h: "\<not> rdyq h" "h \<noteq> FreeTcb" and p: "p < NUM_PRI"
    and ok: "wq_ok h atr oid ws k" and tpri: "atr AND TA_TPRI \<noteq> 0"
  shows "kinv {} (gcb_change_priority h t (set_priority t p k))"
    and "wq_ok h atr oid ws (gcb_change_priority h t (set_priority t p k))"
    and "set (que (gcb_change_priority h t (set_priority t p k)) h') = set (que k h')"
    and "h' \<noteq> h \<Longrightarrow> que (gcb_change_priority h t (set_priority t p k)) h' = que k h'"
proof -
  let ?k1 = "set_priority t p k" and ?k2 = "gcb_change_priority h t (set_priority t p k)"
  have k1: "kinv {} ?k1"
    using kinv_set_priority [OF inv _ p] wait_state_simps [OF kinv_waiter(2) [OF inv t h]] by simp
  have t1: "t \<in> set (que ?k1 h)" using t by simp
  note g = kinv_gcb_change_priority [OF k1 t1 h]
  have d: "distinct (que k h)" by (rule qinv_distinct [OF kinvD(1) [OF inv]])
  show "kinv {} ?k2" by (rule g)
  show "set (que ?k2 h') = set (que k h')" using g(2) t d by auto
  show "h' \<noteq> h \<Longrightarrow> que ?k2 h' = que k h'" using g(2) by simp
  have "sorted (map (\<lambda>u. priority (tcb k u)) (remove1 t (que k h)))"
    using ok tpri by (simp add: wq_ok_def sorted_map_remove1)
  then have "sorted (map (\<lambda>u. priority (tcb ?k1 u)) (remove1 t (que k h)))"
    using d by (subst sorted_map_cong [of _ _ "\<lambda>u. priority (tcb k u)"]) auto
  then have "sorted (map (\<lambda>u. priority (tcb ?k1 u)) (que ?k2 h))"
    using g(2) by (simp add: sorted_wrt_insert_by del: set_priority_frame(6))
  moreover have "wid (tcb ?k2 u) = oid \<and> wspec (tcb ?k2 u) = ws" if "u \<in> set (que ?k2 h)" for u
    using that ok g(2) t d by (auto simp: wq_ok_def)
  ultimately show "wq_ok h atr oid ws ?k2" by (simp add: wq_ok_def)
qed

subsection \<open>A change of priority, seen from outside\<close>

text \<open>
  A change of priority may release waiters of a semaphore or senders of a message buffer (tasks that
  are \<open>wakeable\<close>), may change the order of wait queues and, with priority inheritance, the priorities
  of other tasks. \<open>pri_changed k k'\<close>: nothing else happened.
\<close>

definition fixed_part :: "tcb \<Rightarrow> tcb" where
  "fixed_part c = core (c\<lparr>priority := 0\<rparr>)"

definition fixed_objs :: "kernel \<Rightarrow> kernel" where
  "fixed_objs k = objs (k\<lparr>semcb_table := undefined, mbfcb_table := undefined\<rparr>)"

fun wakes :: "qhead \<Rightarrow> bool" where
  "wakes (SemQ i) = True"
| "wakes (SmbfQ i) = True"
| "wakes h = False"

definition wakeable :: "tid \<Rightarrow> kernel \<Rightarrow> bool" where
  "wakeable t k \<longleftrightarrow> (\<exists>h. wakes h \<and> t \<in> set (que k h))"

lemma wakes_not_rdyq: "wakes h \<Longrightarrow> \<not> rdyq h"
  by (cases h) simp_all

definition pri_changed :: "kernel \<Rightarrow> kernel \<Rightarrow> bool" where
  "pri_changed k k' \<longleftrightarrow>
     kinv {} k' \<and> fixed_objs k' = fixed_objs k \<and>
     (\<forall>u. fixed_part (tcb k' u) = fixed_part (tcb k u)) \<and>
     (\<forall>u. state (tcb k' u) = state (tcb k u) \<or>
          wakeable u k \<and> ts_wait (state (tcb k u)) \<and> state (tcb k' u) \<in> {TS_READY, TS_SUSPEND}) \<and>
     (\<forall>h. \<not> rdyq h \<longrightarrow> set (que k' h) \<subseteq> set (que k h)) \<and>
     (\<forall>h. \<not> rdyq h \<longrightarrow> \<not> wakes h \<longrightarrow> set (que k' h) = set (que k h)) \<and>
     tmebs k' = tmebs k \<and>
     timer_queue k' = filter (\<lambda>ev. \<forall>u. ev = TskTmeb u \<longrightarrow> ts_wait (state (tcb k' u))) (timer_queue k)"

lemma fixed_part_eqD:
  assumes "fixed_part c' = fixed_part c"
  shows "tskid c' = tskid c" "exinf c' = exinf c" "tskatr c' = tskatr c" 
    "bpriority c' = bpriority c" "ipriority c' = ipriority c" "nodiswai c' = nodiswai c"
    "klocked c' = klocked c" "wspec c' = wspec c" "wid c' = wid c" "wupcnt c' = wupcnt c"
    "suscnt c' = suscnt c" "winfo c' = winfo c" "waitmask c' = waitmask c" "mtxlist c' = mtxlist c"
    "tskevt c' = tskevt c" "svclocked c' = svclocked c" "sysmode c' = sysmode c" "wrdvno c' = wrdvno c"
proof -
  have c: "core (c'\<lparr>priority := 0\<rparr>) = core (c\<lparr>priority := 0\<rparr>)"
    using assms by (simp add: fixed_part_def)
  show "tskid c' = tskid c" "exinf c' = exinf c" "tskatr c' = tskatr c" 
    "bpriority c' = bpriority c" "ipriority c' = ipriority c" "nodiswai c' = nodiswai c"
    "klocked c' = klocked c" "wspec c' = wspec c" "wid c' = wid c" "wupcnt c' = wupcnt c"
    "suscnt c' = suscnt c" "winfo c' = winfo c" "waitmask c' = waitmask c" "mtxlist c' = mtxlist c"
    "tskevt c' = tskevt c" "svclocked c' = svclocked c" "sysmode c' = sysmode c" "wrdvno c' = wrdvno c"
    using core_eqD [OF c] by simp_all
qed

lemma fixed_part_upd [simp]:
  "fixed_part (c\<lparr>priority := p\<rparr>) = fixed_part c" "fixed_part (c\<lparr>wercd := e\<rparr>) = fixed_part c"
  "fixed_part (c\<lparr>state := s\<rparr>) = fixed_part c"
  by (cases c, simp_all add: fixed_part_def core_def)+

lemma fixed_part_alt: "fixed_part c = (core c)\<lparr>priority := 0\<rparr>"
  by (cases c) (simp add: fixed_part_def core_def)

lemma fixed_part_core: "core c' = core c \<Longrightarrow> fixed_part c' = fixed_part c"
  by (simp add: fixed_part_alt)

lemma fixed_objs_eqD:
  assumes "fixed_objs k' = fixed_objs k"
  shows "max_tskid k' = max_tskid k" "max_semid k' = max_semid k" "max_flgid k' = max_flgid k"
    "max_mbxid k' = max_mbxid k" "max_mtxid k' = max_mtxid k" "dispatch_disabled k' = dispatch_disabled k"
    "isDI k' = isDI k" "isTaskIndependent k' = isTaskIndependent k" "free_semcb k' = free_semcb k"
    "flgcb_table k' = flgcb_table k" "free_flgcb k' = free_flgcb k"
    "mbxcb_table k' = mbxcb_table k" "free_mbxcb k' = free_mbxcb k"
    "msgque k' = msgque k" "msgpri k' = msgpri k"
    "mtxcb_table k' = mtxcb_table k" "free_mtxcb k' = free_mtxcb k" "NUM_TSKID k' = NUM_TSKID k"
    "ctxtsk k' = ctxtsk k" "self k' = self k" "current_time k' = current_time k"
    "lock_held k' = lock_held k" "TIMER_PERIOD k' = TIMER_PERIOD k"
    "max_mbfid k' = max_mbfid k" "max_porid k' = max_porid k" "free_mbfcb k' = free_mbfcb k"
    "porcb_table k' = porcb_table k" "free_porcb k' = free_porcb k"
proof -
  have c: "objs (k'\<lparr>semcb_table := undefined, mbfcb_table := undefined\<rparr>) = objs (k\<lparr>semcb_table := undefined, mbfcb_table := undefined\<rparr>)"
    using assms by (simp add: fixed_objs_def)
  show "max_tskid k' = max_tskid k" "max_semid k' = max_semid k" "max_flgid k' = max_flgid k"
    "max_mbxid k' = max_mbxid k" "max_mtxid k' = max_mtxid k" "dispatch_disabled k' = dispatch_disabled k"
    "isDI k' = isDI k" "isTaskIndependent k' = isTaskIndependent k" "free_semcb k' = free_semcb k"
    "flgcb_table k' = flgcb_table k" "free_flgcb k' = free_flgcb k"
    "mbxcb_table k' = mbxcb_table k" "free_mbxcb k' = free_mbxcb k"
    "msgque k' = msgque k" "msgpri k' = msgpri k"
    "mtxcb_table k' = mtxcb_table k" "free_mtxcb k' = free_mtxcb k" 
    "ctxtsk k' = ctxtsk k" "current_time k' = current_time k"
    "lock_held k' = lock_held k" "TIMER_PERIOD k' = TIMER_PERIOD k"
    "max_mbfid k' = max_mbfid k" "max_porid k' = max_porid k" "free_mbfcb k' = free_mbfcb k"
    "porcb_table k' = porcb_table k" "free_porcb k' = free_porcb k"
    using objs_eqD [OF c] by simp_all
  then show "NUM_TSKID k' = NUM_TSKID k" "self k' = self k" by (simp_all add: NUM_TSKID_def self_def)
qed

lemma fixed_objs_alt: "fixed_objs k = (objs k)\<lparr>semcb_table := undefined, mbfcb_table := undefined\<rparr>"
  by (cases k) (simp add: fixed_objs_def objs_def)

lemma fixed_objs_objs: "objs k' = objs k \<Longrightarrow> fixed_objs k' = fixed_objs k"
  by (simp add: fixed_objs_alt)

lemma pri_changedD:
  assumes "pri_changed k k'"
  shows "kinv {} k'" "fixed_objs k' = fixed_objs k" "fixed_part (tcb k' u) = fixed_part (tcb k u)"
    "state (tcb k' u) = state (tcb k u) \<or>
          wakeable u k \<and> ts_wait (state (tcb k u)) \<and> state (tcb k' u) \<in> {TS_READY, TS_SUSPEND}"
    "\<not> rdyq h \<Longrightarrow> set (que k' h) \<subseteq> set (que k h)"
    "\<not> rdyq h \<Longrightarrow> \<not> wakes h \<Longrightarrow> set (que k' h) = set (que k h)"
    "ev \<in> set (timer_queue k') \<Longrightarrow> ev \<in> set (timer_queue k)" "tmebs k' = tmebs k"
    "timer_queue k' = filter (\<lambda>ev. \<forall>u. ev = TskTmeb u \<longrightarrow> ts_wait (state (tcb k' u))) (timer_queue k)"
proof -
  show "timer_queue k' = filter (\<lambda>ev. \<forall>u. ev = TskTmeb u \<longrightarrow> ts_wait (state (tcb k' u))) (timer_queue k)"
    using assms by (simp add: pri_changed_def)
  then show "ev \<in> set (timer_queue k') \<Longrightarrow> ev \<in> set (timer_queue k)" by simp
qed (use assms in \<open>auto simp: pri_changed_def\<close>)

text \<open>Only waiting tasks have a timeout, so a queue of events that stays does so for all of them.\<close>

lemma timers_filter:
  assumes "kinv X k'" "timer_queue k' = timer_queue k"
  shows "timer_queue k' = filter (\<lambda>ev. \<forall>u. ev = TskTmeb u \<longrightarrow> ts_wait (state (tcb k' u))) (timer_queue k)"
  using kinvD(3) [OF assms(1)] unfolding assms(2) [symmetric] by (subst filter_True) (auto simp: timers_ok_def)

lemma pri_changed_refl: "kinv {} k \<Longrightarrow> pri_changed k k"
  using timers_filter [of "{}" k k] by (simp add: pri_changed_def)

lemma wakeable_sub: "pri_changed k k' \<Longrightarrow> wakeable u k' \<Longrightarrow> wakeable u k"
  using pri_changedD(5) wakes_not_rdyq unfolding wakeable_def by (metis subsetD)

lemma pri_changed_trans:
  assumes "pri_changed k k'" "pri_changed k' k''"
  shows "pri_changed k k''"
proof -
  note a = pri_changedD [OF assms(1)] and b = pri_changedD [OF assms(2)]
  have "state (tcb k'' u) = state (tcb k u) \<or>
          wakeable u k \<and> ts_wait (state (tcb k u)) \<and> state (tcb k'' u) \<in> {TS_READY, TS_SUSPEND}" for u
    using a(4) [of u] b(4) [of u] wakeable_sub [OF assms(1), of u] by auto
  moreover have "set (que k'' h) \<subseteq> set (que k h)" if "\<not> rdyq h" for h using a(5) [OF that] b(5) [OF that] by simp
  moreover have "set (que k'' h) = set (que k h)" if "\<not> rdyq h" "\<not> wakes h" for h
    using a(6) [OF that(1)] b(6) [OF that(1)] that(2) by simp
  moreover have "timer_queue k'' = filter (\<lambda>ev. \<forall>u. ev = TskTmeb u \<longrightarrow> ts_wait (state (tcb k'' u))) (timer_queue k)"
    unfolding b(9) a(9) filter_filter
  proof (rule filter_cong [OF refl], rule iffI)
    show "(\<forall>u. ev = TskTmeb u \<longrightarrow> ts_wait (state (tcb k' u))) \<and> (\<forall>u. ev = TskTmeb u \<longrightarrow> ts_wait (state (tcb k'' u)))"
      if "\<forall>u. ev = TskTmeb u \<longrightarrow> ts_wait (state (tcb k'' u))" for ev
      using that b(4) by (metis empty_iff insert_iff ts_wait_simps(2,4))
  qed simp
  ultimately show ?thesis using a(1-8) b(1-8) by (simp add: pri_changed_def)
qed

lemma pri_changed_state:
  assumes "pri_changed k k'"
  shows "state (tcb k' u) = TS_NONEXIST \<longleftrightarrow> state (tcb k u) = TS_NONEXIST"
    and "state (tcb k' u) = TS_DORMANT \<longleftrightarrow> state (tcb k u) = TS_DORMANT"
    and "\<not> ts_wait (state (tcb k u)) \<Longrightarrow> state (tcb k' u) = state (tcb k u)"
  using pri_changedD(4) [OF assms, of u] by (auto simp: wait_state_simps)

lemma released_wakeable:
  assumes "released T e k k'" "wakeable u k'"
  shows "wakeable u k"
  using assms(2) releasedD(9) [OF assms(1)] wakes_not_rdyq unfolding wakeable_def
  by (metis (no_types, lifting) filter_is_subset subsetD)

lemma wakeable_cong: "(\<And>h. \<not> rdyq h \<Longrightarrow> que k' h = que k h) \<Longrightarrow> wakeable u k' = wakeable u k"
  unfolding wakeable_def using wakes_not_rdyq by metis

text \<open>A change of the place in a queue, or of nothing but the priority.\<close>

lemma pri_changed_set_priority:
  assumes "kinv {} k" "state (tcb k t) \<noteq> TS_READY" "p < NUM_PRI"
  shows "pri_changed k (set_priority t p k)"
  using kinv_set_priority [of "{}" k t p] assms timers_filter [of "{}" "set_priority t p k" k]
  by (simp add: pri_changed_def fixed_objs_alt)

lemma pri_changed_reorder:
  assumes "kinv {} k" "t \<in> set (que k h)" "\<not> rdyq h" "h \<noteq> FreeTcb" "p < NUM_PRI"
  shows "pri_changed k (gcb_change_priority h t (set_priority t p k))"
proof -
  have st: "state (tcb k t) \<noteq> TS_READY" using kinv_waiter [OF assms(1-4)] wait_state_simps by blast
  have kv: "kinv {} (set_priority t p k)" using kinv_set_priority [OF assms(1)] st assms(5) by simp
  note g = kinv_gcb_change_priority [OF kv, of t h, simplified, OF assms(2-4)]
  have "set (que (gcb_change_priority h t (set_priority t p k)) h') = set (que k h')" for h'
    using g(2) assms(2) qinv_distinct [OF kinvD(1) [OF assms(1)], of h] by auto
  with g(1) timers_filter [OF g(1), of k] show ?thesis by (simp add: pri_changed_def fixed_objs_alt)
qed

lemma reschedule_que:
  assumes "kinvq X k" "\<And>u. schedtsk k = Some u \<Longrightarrow> u \<in> set (que k (RdyQ (priority (tcb k u))))" "\<not> rdyq h"
  shows "que (reschedule k) h = que k h"
proof (cases "schedtsk k")
  case None
  then show ?thesis by (simp add: reschedule_def time_slice_schedule_def Let_def)
next
  case (Some s)
  have "h \<noteq> RdyQ (priority (tcb k s))" using assms(3) by auto
  then have "que (snd (time_slice_schedule (schedtsk k) k)) h = que k h"
    using kinvq_time_slice(2) [OF assms(1) assms(2) [OF Some]] Some by simp
  then show ?thesis by (cases "schedtsk k = ctxtsk k") (simp_all add: reschedule_def Let_def)
qed

text \<open>The same for a task on the ready queue.\<close>

lemma change_ready_priority:
  assumes inv: "kinv {} k" and t: "t < NUM_TSKID k" "state (tcb k t) = TS_READY" and p: "p < NUM_PRI"
  obtains k' where "change_task_priority hk t p k = Some k'" "pri_changed k k'"
    "\<And>u. core (tcb k' u) = core (tcb (set_priority t p k) u)" "\<And>u. state (tcb k' u) = state (tcb k u)"
    "\<And>h. \<not> rdyq h \<Longrightarrow> que k' h = que k h" "objs k' = objs k"
    "\<And>u. wercd (tcb k' u) = wercd (tcb k u)"
    "timer_queue k' = timer_queue k"
proof -
  note q = kinv_kinvq [OF inv]
  note mem = kinvq_ready_mem [OF q t(1) _ t(2)]
  let ?d = "ready_queue_delete t k" and ?s = "set_priority t p (ready_queue_delete t k)"
  let ?i = "snd (ready_queue_insert t ?s)"
  have d: "kinvq {t} ?d" using kinvq_delete [OF q mem(1)] by simp
  have st: "state (tcb ?d t) = TS_READY" using t(2) by (simp add: frame)
  have s: "kinvq {t} ?s" unfolding set_priority_def
    by (rule kinvq_upd_tcb [OF d]) (use st p in \<open>auto simp: wf_tcb_def\<close>)
  have "NUM_TSKID ?s = NUM_TSKID k" by (simp add: NUM_TSKID_def frame)
  then have i: "kinvq {} ?i" using kinvq_insert [of t "{}" ?s] s t st by simp
  have c: "core (tcb ?i u) = core (tcb (set_priority t p k) u)" for u
    by (simp add: core_def ready_queue_delete_frame ready_queue_insert_frame)
  have sti: "state (tcb ?i u) = state (tcb k u)" for u
    by (simp add: ready_queue_delete_frame ready_queue_insert_frame)
  have sched: "schedtsk ?i = schedtsk k" by (simp add: frame)
  have old: "u \<in> set (que ?i (RdyQ (priority (tcb ?i u))))" if "schedtsk ?i = Some u" for u
  proof -
    have "ready_queue_top k = Some u" using inv sched that by (simp add: kinv_def)
    from kinvq_top [OF q this] have u: "u < NUM_TSKID k" "state (tcb k u) = TS_READY" by simp_all
    show ?thesis by (rule kinvq_ready_mem(1) [OF i]) (use u sti in \<open>simp_all add: NUM_TSKID_def frame\<close>)
  qed
  have kv: "kinv {} (reschedule ?i)" by (rule kinv_reschedule [OF i old])
  have qq: "que (reschedule ?i) h = que k h" if "\<not> rdyq h" for h
  proof -
    have "que ?i h = que k h"
      using that kinv_mem [OF inv, of t h] t
      by (auto simp: ready_queue_insert_que ready_queue_delete_que QueRemove_apply)
    then show ?thesis using reschedule_que [OF i old that] by simp
  qed
  have c': "core (tcb (reschedule ?i) u) = core (tcb (set_priority t p k) u)" for u using c by simp
  have "pri_changed k (reschedule ?i)"
    unfolding pri_changed_def
    using kv sti qq fixed_part_core [OF c'] timers_filter [OF kv, of k] by (simp add: fixed_objs_alt frame)
  then show thesis
    using c' sti qq t(2)
    by (intro that [of "reschedule ?i"]) (simp_all add: change_task_priority_def Let_def frame)
qed

text \<open>Releasing waiters that may be released.\<close>

lemma pri_changed_released:
  assumes inv: "kinv {} k" and r: "released T e k k'" and T: "T \<subseteq> set (que k q)" "wakes q"
    and o: "fixed_objs k' = fixed_objs k"
  shows "pri_changed k k'"
proof -
  have "state (tcb k' u) = state (tcb k u) \<or>
      wakeable u k \<and> ts_wait (state (tcb k u)) \<and> state (tcb k' u) \<in> {TS_READY, TS_SUSPEND}" for u
    using releasedD(8) [OF r, of u] releasedD(5) [OF r, of u] T by (auto simp: wakeable_def split: if_splits)
  moreover have "set (que k' h) = set (que k h)" if "\<not> rdyq h" "\<not> wakes h" for h
    using released_other [OF inv r T(1) _ that(1)] that(2) T(2) by metis
  moreover have "timer_queue k' = filter (\<lambda>ev. \<forall>u. ev = TskTmeb u \<longrightarrow> ts_wait (state (tcb k' u))) (timer_queue k)"
    unfolding releasedD(11) [OF r]
  proof (rule filter_cong [OF refl])
    fix ev assume "ev \<in> set (timer_queue k)"
    then show "ev \<notin> TskTmeb ` T \<longleftrightarrow> (\<forall>u. ev = TskTmeb u \<longrightarrow> ts_wait (state (tcb k' u)))"
      using kinvD(3) [OF inv] releasedD(8) [OF r] by (cases ev) (auto simp: timers_ok_def)
  qed
  ultimately show ?thesis
    using releasedD(1,9,12) [OF r] fixed_part_core [OF releasedD(6) [OF r]] o by (auto simp: pri_changed_def)
qed

end
