(* ===== verification/Example_State.thy ===== *)
theory Example_State
  imports Wait_Inv
begin

text \<open>
  A concrete kernel state, for the instances of the theorems: task 0 runs at priority 10,
  tasks 1 and 2 are ready at priorities 20 and 30, task 3 is dormant and task 4 does not exist; three control blocks of every object class, all free.
\<close>

definition ex_tcb :: "nat \<Rightarrow> nat \<Rightarrow> tstat \<Rightarrow> tcb" where
  "ex_tcb i pri st =
     \<lparr>tskid = ID_of i, exinf = 0, tskatr = 0x102, tskentry = 4096, resid = 1, stksz = 1024,
      sstksz = 1024, reqdct = 0, isysmode = 1, sysmode = 1, ipriority = pri, bpriority = pri,
      priority = pri, state = st, nodiswai = False, klockwait = False, klocked = False,
      wspec = WSPEC_SLP, wid = 0, wupcnt = 0, suscnt = 0, wercd = 0, winfo = WINFO_NONE,
      waitmask = 0, mtxlist = [], wrdvno = of_nat i + 1, tskevt = 0, svclocked = [], texhdr = 0, texmask = 0, pendtex = 0,
      exectex = 0, texflg = 0, execssid = 0, slicetime = 0, slicecnt = 0, stime = 0, utime = 0,
      istack = 8192, isstack = 16384,
      ssframe = \<lparr>fr_r0 = 0, fr_r1 = 0, fr_rng = 0, fr_pc = 0, fr_thumb = False, fr_usp = None\<rparr>,
      uatb = 0, lsid = 0, tskname = []\<rparr>"

definition ex_state :: kernel where
  "ex_state =
     \<lparr>max_tskid = 5, max_semid = 3, max_flgid = 3, max_mbxid = 3, max_mtxid = 3, max_mbfid = 3, max_porid = 3, max_cycid = 3,
      max_almid = 3, max_resid = 1, default_sstksz = 4096, svc_call_limit = 3, available_cop = 0,
      dispatch_disabled = 0, isDI = False, isTaskIndependent = False,
      ctxtsk = Some 0, schedtsk = Some 0, top_priority = 10, rq_null = None,
      rq_bitmap = BitSet (BitSet (BitSet (\<lambda>_. 0) 10) 20) 30,
      klocktsk = None,
      tcb_table = (\<lambda>i. if i = 0 then ex_tcb 0 10 TS_READY else if i = 1 then ex_tcb 1 20 TS_READY
        else if i = 2 then ex_tcb 2 30 TS_READY else if i = 3 then ex_tcb 3 15 TS_DORMANT
        else ex_tcb i 40 TS_NONEXIST),
      que = (\<lambda>h. if h = RdyQ 10 then [0] else if h = RdyQ 20 then [1] else if h = RdyQ 30 then [2]
        else if h = FreeTcb then [4] else []),
      lock_held = (\<lambda>_. False), TIMER_PERIOD = 10000, current_time = 0, real_time_ofs = 0,
      timer_queue = [],
      tmebs = (\<lambda>_. \<lparr>tm_time = 0, tm_callback = CB_wait_release_tmout\<rparr>),
      hw_timer_usec = 0, hw_timer_nsec = 0,
      semcb_table = (\<lambda>_. \<lparr>semid = 0, sem_exinf = 0, sematr = 0, semcnt = 0, maxsem = 0, sem_name = []\<rparr>),
      free_semcb = [0, 1, 2],
      flgcb_table = (\<lambda>_. \<lparr>flgid = 0, flg_exinf = 0, flgatr = 0, flgptn = 0, flg_name = []\<rparr>),
      free_flgcb = [0, 1, 2],
      mbxcb_table = (\<lambda>_. \<lparr>mbxid = 0, mbx_exinf = 0, mbxatr = 0, mq_tail = 0, mbx_name = []\<rparr>),
      free_mbxcb = [0, 1, 2], msgque = (\<lambda>_. 0), msgpri = (\<lambda>_. 0),
      mtxcb_table = (\<lambda>_. \<lparr>mtxid = 0, mtx_exinf = 0, mtxatr = 0, ceilpri = 0, mtxtsk = None, mtx_name = []\<rparr>),
      free_mtxcb = [0, 1, 2],
      mbfcb_table = (\<lambda>_. \<lparr>mbfid = 0, mbf_exinf = 0, mbfatr = 0, bufsz = 0, maxmsz = 0, frbufsz = 0, mbf_head = 0,
        mbf_tail = 0, mbf_buffer = None, mbf_name = []\<rparr>),
      free_mbfcb = [0, 1, 2],
      porcb_table = (\<lambda>_. \<lparr>porid = 0, por_exinf = 0, poratr = 0, maxcmsz = 0, maxrmsz = 0, por_name = []\<rparr>),
      free_porcb = [0, 1, 2],
      cyccb_table = (\<lambda>_. \<lparr>cyc_exinf = 0, cycatr = 0, cychdr = 0, cycstat = 0, cyctim = 0, cyc_name = []\<rparr>),
      free_cyccb = [0, 1, 2],
      almcb_table = (\<lambda>_. \<lparr>alm_exinf = 0, almatr = 0, almhdr = 0, almstat = 0, alm_name = []\<rparr>),
      free_almcb = [0, 1, 2],
      mem_uint = (\<lambda>_. 0), mem_ptr = (\<lambda>_. 0), mem_int = (\<lambda>_. 0), mem_byte = (\<lambda>_. 0)\<rparr>"

lemma ex_tcb_sel [simp]:
  "tskid (ex_tcb i p s) = ID_of i" "priority (ex_tcb i p s) = p" "bpriority (ex_tcb i p s) = p"
  "state (ex_tcb i p s) = s" "klocked (ex_tcb i p s) = False" "klockwait (ex_tcb i p s) = False"
  by (simp_all add: ex_tcb_def)

lemma ex_state_sel [simp]:
  "max_tskid ex_state = 5" "max_semid ex_state = 3" "max_flgid ex_state = 3" "max_mbxid ex_state = 3"
  "max_mtxid ex_state = 3" "max_cycid ex_state = 3" "max_almid ex_state = 3"
  "ctxtsk ex_state = Some 0" "schedtsk ex_state = Some 0" "dispatch_disabled ex_state = 0"
  "isDI ex_state = False" "isTaskIndependent ex_state = False" "klocktsk ex_state = None"
  "top_priority ex_state = 10" "timer_queue ex_state = []" "current_time ex_state = 0"
  "TIMER_PERIOD ex_state = 10000" "NUM_TSKID ex_state = 5" "self ex_state = 0"
  "free_semcb ex_state = [0, 1, 2]" "semid (semcb_table ex_state i) = 0"
  "free_flgcb ex_state = [0, 1, 2]" "flgid (flgcb_table ex_state i) = 0"
  "free_mbxcb ex_state = [0, 1, 2]" "mbxid (mbxcb_table ex_state i) = 0"
  "free_mtxcb ex_state = [0, 1, 2]" "mtxid (mtxcb_table ex_state i) = 0"
  "free_mbfcb ex_state = [0, 1, 2]" "mbfid (mbfcb_table ex_state i) = 0"
  "free_porcb ex_state = [0, 1, 2]" "porid (porcb_table ex_state i) = 0"
  "max_mbfid ex_state = 3" "max_porid ex_state = 3"
  by (simp_all add: ex_state_def NUM_TSKID_def self_def)

lemma ex_state_que:
  "que ex_state h = (if h = RdyQ 10 then [0] else if h = RdyQ 20 then [1] else if h = RdyQ 30 then [2]
    else if h = FreeTcb then [4] else [])"
  by (simp add: ex_state_def)

lemma ex_state_tcb:
  "tcb ex_state 0 = ex_tcb 0 10 TS_READY" "tcb ex_state (Suc 0) = ex_tcb 1 20 TS_READY"
  "tcb ex_state 2 = ex_tcb 2 30 TS_READY" "tcb ex_state 3 = ex_tcb 3 15 TS_DORMANT"
  "tcb ex_state 4 = ex_tcb 4 40 TS_NONEXIST"
  by (simp_all add: ex_state_def)

lemma less_5_cases: "t < 5 \<longleftrightarrow> t = 0 \<or> t = Suc 0 \<or> t = 2 \<or> t = 3 \<or> t = (4 :: nat)"
  by auto

lemma ex_state_kernel_ok: "kernel_ok ex_state"
proof -
  have "qinv {} ex_state"
    unfolding qinv_def
  proof (intro conjI allI)
    show "distinct (que ex_state h)" for h by (simp add: ex_state_que)
    show "t \<in> set (que ex_state h) \<longleftrightarrow>
        t < NUM_TSKID ex_state \<and> t \<notin> {} \<and> home (tcb ex_state t) = Some h" for h t
    proof (cases "t < 5")
      case True
      then have "home (tcb ex_state t) = (if t = 0 then Some (RdyQ 10) else if t = 1 then Some (RdyQ 20)
          else if t = 2 then Some (RdyQ 30) else if t = 3 then None else Some FreeTcb)"
        unfolding less_5_cases by (elim disjE) (simp_all add: ex_state_tcb)
      with True show ?thesis by (auto simp: ex_state_que)
    qed (auto simp: ex_state_que)
  qed
  moreover have "tasks_ok ex_state"
    by (auto simp: tasks_ok_def less_5_cases ex_state_tcb wf_tcb_def)
  moreover have "timers_ok ex_state" by (simp add: timers_ok_def)
  moreover have "rq_ok ex_state"
  proof -
    have "rq_bits ex_state"
    proof -
      have zero: "\<not> bit_at (\<lambda>_. 0) p" for p by (simp add: bit_at_def)
      have "rq_bitmap ex_state = BitSet (BitSet (BitSet (\<lambda>_. 0) 10) 20) 30" by (simp add: ex_state_def)
      then show ?thesis by (simp add: rq_bits_def ex_state_que zero)
    qed
    then show ?thesis by (auto simp: rq_ok_def rq_top_def ex_state_que) (simp add: ex_state_def)
  qed
  moreover have "ready_queue_top ex_state = Some 0"
    by (simp add: ready_queue_top_def ex_state_que)
  ultimately show ?thesis by (simp add: kernel_ok_def kinv_def kinvq_def ctx_ok_def)
qed

end
