(* ===== verification/Ready_Order.thy ===== *)
theory Ready_Order
  imports Simulation Example_State
begin

text \<open>
  The order in which ready tasks are to run, as one list. A run of ready queue operations keeps the
  linked queues, the bitmap and \<^verbatim>\<open>top_priority\<close> in step with that list.
\<close>

subsection \<open>The remaining operations on the list of ready tasks\<close>

lemma rdy_list_split:
  assumes "p < NUM_PRI"
  shows "rdy_list k = concat (map (\<lambda>q. que k (RdyQ q)) [0..<p]) @ que k (RdyQ p) @
    concat (map (\<lambda>q. que k (RdyQ q)) [Suc p..<NUM_PRI])"
  unfolding rdy_list_def by (rule concat_upt_split [OF assms])

lemma rdy_list_upd:
  assumes "p < NUM_PRI" "que k' = (que k)(RdyQ p := xs)"
  shows "rdy_list k' = concat (map (\<lambda>q. que k (RdyQ q)) [0..<p]) @ xs @
    concat (map (\<lambda>q. que k (RdyQ q)) [Suc p..<NUM_PRI])"
  by (subst rdy_list_split [OF assms(1)]) (simp add: assms(2) map_upd_notin)

lemma rdy_list_pris:
  assumes "rq_pris k" "p < NUM_PRI"
  shows "\<forall>x \<in> set (concat (map (\<lambda>q. que k (RdyQ q)) [0..<p])). priority (tcb k x) < p"
    and "\<forall>x \<in> set (que k (RdyQ p)). priority (tcb k x) = p"
    and "\<forall>x \<in> set (concat (map (\<lambda>q. que k (RdyQ q)) [Suc p..<NUM_PRI])). p < priority (tcb k x)"
proof -
  show "\<forall>x \<in> set (concat (map (\<lambda>q. que k (RdyQ q)) [0..<p])). priority (tcb k x) < p"
    using assms(2) by (fastforce dest: rq_prisD [OF assms(1), rotated])
  show "\<forall>x \<in> set (que k (RdyQ p)). priority (tcb k x) = p"
    using assms(2) by (fastforce dest: rq_prisD [OF assms(1), rotated])
  show "\<forall>x \<in> set (concat (map (\<lambda>q. que k (RdyQ q)) [Suc p..<NUM_PRI])). p < priority (tcb k x)"
    using assms(2) by (fastforce dest: rq_prisD [OF assms(1), rotated])
qed

lemma rdy_list_filter:
  assumes "rq_pris k" "p < NUM_PRI"
  shows "filter (\<lambda>t. priority (tcb k t) < p) (rdy_list k) = concat (map (\<lambda>q. que k (RdyQ q)) [0..<p])"
    and "filter (\<lambda>t. priority (tcb k t) = p) (rdy_list k) = que k (RdyQ p)"
    and "filter (\<lambda>t. p < priority (tcb k t)) (rdy_list k) =
      concat (map (\<lambda>q. que k (RdyQ q)) [Suc p..<NUM_PRI])"
proof -
  let ?lo = "concat (map (\<lambda>q. que k (RdyQ q)) [0..<p])" and ?mid = "que k (RdyQ p)"
    and ?hi = "concat (map (\<lambda>q. que k (RdyQ q)) [Suc p..<NUM_PRI])"
  note pris = rdy_list_pris [OF assms]
  have lo: "filter P ?lo = (if b then ?lo else [])" if "\<And>x. priority (tcb k x) < p \<Longrightarrow> P x = b" for P b
    using pris(1) that by (auto intro!: filter_True filter_False simp del: set_concat)
  have mid: "filter P ?mid = (if b then ?mid else [])"
    if "\<And>x. priority (tcb k x) = p \<Longrightarrow> P x = b" for P b
    using pris(2) that by (auto intro!: filter_True filter_False)
  have hi: "filter P ?hi = (if b then ?hi else [])" if "\<And>x. p < priority (tcb k x) \<Longrightarrow> P x = b" for P b
    using pris(3) that by (auto intro!: filter_True filter_False simp del: set_concat)
  show "filter (\<lambda>t. priority (tcb k t) < p) (rdy_list k) = ?lo"
    unfolding rdy_list_split [OF assms(2)] filter_append
    by (subst lo [where b = True], simp, subst mid [where b = False], simp, subst hi [where b = False]) simp_all
  show "filter (\<lambda>t. priority (tcb k t) = p) (rdy_list k) = ?mid"
    unfolding rdy_list_split [OF assms(2)] filter_append
    by (subst lo [where b = False], simp, subst mid [where b = True], simp, subst hi [where b = False]) simp_all
  show "filter (\<lambda>t. p < priority (tcb k t)) (rdy_list k) = ?hi"
    unfolding rdy_list_split [OF assms(2)] filter_append
    by (subst lo [where b = False], simp, subst mid [where b = False], simp, subst hi [where b = True]) simp_all
qed

lemma insert_by_parts:
  assumes "\<forall>x \<in> set xs. \<not> gt x e" "\<forall>x \<in> set ys. gt x e"
  shows "insert_by gt e (xs @ ys) = xs @ e # ys"
  using insert_by_append_low [where gt = gt, OF assms(1)] insert_by_all_high [where gt = gt, OF assms(2)]
  by simp

lemma rdy_list_insert_top:
  assumes "rq_pris k" "priority (tcb k t) < NUM_PRI" "disjoint_queues (que k)"
  shows "rdy_list (ready_queue_insert_top t k) =
    insert_by (\<lambda>u v. priority (tcb k v) \<le> priority (tcb k u)) t (rdy_list k)"
proof -
  note pris = rdy_list_pris [OF assms(1,2)]
  show ?thesis
    unfolding rdy_list_upd [OF assms(2) ready_queue_insert_top_que [OF assms(3)]]
    unfolding rdy_list_split [OF assms(2), of k]
    by (subst insert_by_parts) (use pris in \<open>auto simp: not_le simp del: set_concat\<close>)
qed

lemma rdy_list_rotate:
  assumes "rq_pris k" "p < NUM_PRI"
  shows "rdy_list (ready_queue_rotate p k) =
    filter (\<lambda>t. priority (tcb k t) < p) (rdy_list k) @
    rotate1 (filter (\<lambda>t. priority (tcb k t) = p) (rdy_list k)) @
    filter (\<lambda>t. p < priority (tcb k t)) (rdy_list k)"
  unfolding rdy_list_filter [OF assms] by (rule rdy_list_upd [OF assms(2) ready_queue_rotate_que])

lemma rdy_list_move_last:
  assumes "rq_pris k" "priority (tcb k t) < NUM_PRI" "disjoint_queues (que k)"
    and t: "t \<in> set (que k (RdyQ (priority (tcb k t))))"
  shows "rdy_list (snd (ready_queue_move_last t k)) =
    insert_by (\<lambda>u v. priority (tcb k v) < priority (tcb k u)) t (remove1 t (rdy_list k))"
proof -
  let ?p = "priority (tcb k t)"
  note pris = rdy_list_pris [OF assms(1,2)]
  have lo: "t \<notin> set (concat (map (\<lambda>q. que k (RdyQ q)) [0..<?p]))" using pris(1) by fastforce
  have "remove1 t (rdy_list k) = (concat (map (\<lambda>q. que k (RdyQ q)) [0..<?p]) @
      remove1 t (que k (RdyQ ?p))) @ concat (map (\<lambda>q. que k (RdyQ q)) [Suc ?p..<NUM_PRI])"
    using lo t by (simp add: rdy_list_split [OF assms(2)] remove1_append del: set_concat)
  moreover have "\<forall>x \<in> set (concat (map (\<lambda>q. que k (RdyQ q)) [0..<?p]) @ remove1 t (que k (RdyQ ?p))).
      \<not> ?p < priority (tcb k x)"
    using pris(1,2) set_remove1_subset [of t "que k (RdyQ ?p)"] by (fastforce simp del: set_concat)
  ultimately show ?thesis
    unfolding rdy_list_upd [OF assms(2) ready_queue_move_last_que [OF assms(3) t]]
    by (simp only:) (subst insert_by_parts, use pris(3) in \<open>simp_all del: set_concat\<close>)
qed

subsection \<open>Runs of operations\<close>

datatype rqop =
  RqInsert tid | RqInsertTop tid | RqDelete tid | RqRotate nat | RqMoveLast tid

fun rq_exec :: "rqop \<Rightarrow> kernel \<Rightarrow> kernel" where
  "rq_exec (RqInsert t) k = snd (ready_queue_insert t k)"
| "rq_exec (RqInsertTop t) k = ready_queue_insert_top t k"
| "rq_exec (RqDelete t) k = ready_queue_delete t k"
| "rq_exec (RqRotate p) k = ready_queue_rotate p k"
| "rq_exec (RqMoveLast t) k = snd (ready_queue_move_last t k)"

text \<open>
  A task is inserted while it is on no queue, with a legal priority, and deleted or moved while it
  is on the ready queue; the rotated priority is a legal one.
\<close>

fun rq_valid :: "rqop \<Rightarrow> kernel \<Rightarrow> bool" where
  "rq_valid (RqInsert t) k \<longleftrightarrow> priority (tcb k t) < NUM_PRI \<and> \<not> queued t (que k)"
| "rq_valid (RqInsertTop t) k \<longleftrightarrow> priority (tcb k t) < NUM_PRI \<and> \<not> queued t (que k)"
| "rq_valid (RqDelete t) k \<longleftrightarrow> t \<in> set (rdy_list k)"
| "rq_valid (RqRotate p) k \<longleftrightarrow> p < NUM_PRI"
| "rq_valid (RqMoveLast t) k \<longleftrightarrow> t \<in> set (rdy_list k)"

text \<open>What the operations promise: a stable list by priority.\<close>

fun rq_spec :: "(tid \<Rightarrow> nat) \<Rightarrow> rqop \<Rightarrow> tid list \<Rightarrow> tid list" where
  "rq_spec pri (RqInsert t) ts = insert_by (\<lambda>u v. pri v < pri u) t ts"
| "rq_spec pri (RqInsertTop t) ts = insert_by (\<lambda>u v. pri v \<le> pri u) t ts"
| "rq_spec pri (RqDelete t) ts = remove1 t ts"
| "rq_spec pri (RqRotate p) ts =
     [t \<leftarrow> ts. pri t < p] @ rotate1 [t \<leftarrow> ts. pri t = p] @ [t \<leftarrow> ts. p < pri t]"
| "rq_spec pri (RqMoveLast t) ts = insert_by (\<lambda>u v. pri v < pri u) t (remove1 t ts)"

text \<open>The invariant of runs without kernel locks, for fixed priorities of the tasks.\<close>

definition rq_run_ok :: "(tid \<Rightarrow> nat) \<Rightarrow> kernel \<Rightarrow> bool" where
  "rq_run_ok pri k \<longleftrightarrow>
     rq_ok k \<and> rq_pris k \<and> disjoint_queues (que k) \<and> klocktsk k = None \<and>
     (\<forall>t. priority (tcb k t) = pri t \<and> \<not> klocked (tcb k t) \<and> \<not> klockwait (tcb k t))"

lemma rdy_list_queue:
  assumes "rq_pris k" "t \<in> set (rdy_list k)"
  shows "priority (tcb k t) < NUM_PRI" "t \<in> set (que k (RdyQ (priority (tcb k t))))"
  using assms(2) rq_prisD [OF assms(1)] by (auto simp: rdy_list_def)

lemma disjoint_queues_upd:
  assumes "disjoint_queues qs" "distinct xs" "\<And>x. x \<in> set xs \<Longrightarrow> x \<in> set (qs h) \<or> \<not> queued x qs"
  shows "disjoint_queues (qs(h := xs))"
  using assms unfolding disjoint_queues_def queued_def by simp blast

lemma rq_run_ok_upd:
  assumes ok: "rq_run_ok pri k" and rq: "rq_ok k'"
    and que: "que k' = (que k)(RdyQ p := xs)" and kl: "klocktsk k' = None"
    and tcb: "\<And>t. priority (tcb k' t) = priority (tcb k t)" "\<And>t. klocked (tcb k' t) = klocked (tcb k t)"
      "\<And>t. klockwait (tcb k' t) \<Longrightarrow> klockwait (tcb k t)"
    and xs: "distinct xs" "\<And>x. x \<in> set xs \<Longrightarrow> x \<in> set (que k (RdyQ p)) \<or> \<not> queued x (que k) \<and> pri x = p"
  shows "rq_run_ok pri k'"
proof -
  have "disjoint_queues (que k')"
    unfolding que using ok xs by (intro disjoint_queues_upd) (auto simp: rq_run_ok_def)
  moreover have "rq_pris k'"
    using ok by (auto simp: rq_run_ok_def rq_pris_def que tcb dest!: xs(2))
  ultimately show ?thesis using ok rq kl tcb by (auto simp: rq_run_ok_def)
qed

lemma rq_delete_que:
  assumes "disjoint_queues (que k)" "t \<in> set (que k h)"
  shows "que (ready_queue_delete t k) = (que k)(h := remove1 t (que k h))"
  using QueRemove_other [OF assms] by (auto simp: ready_queue_delete_que fun_eq_iff QueRemove_apply)

lemma rq_exec_ok:
  assumes ok: "rq_run_ok pri k" and v: "rq_valid c k"
  shows "rq_run_ok pri (rq_exec c k)"
proof -
  have rq: "rq_ok k" and ps: "rq_pris k" and dj: "disjoint_queues (que k)" and kl: "klocktsk k = None"
    and t: "\<And>t. priority (tcb k t) = pri t" "\<And>t. \<not> klocked (tcb k t)" "\<And>t. \<not> klockwait (tcb k t)"
    using ok by (auto simp: rq_run_ok_def)
  have new: "distinct (que k h @ [t])" "distinct (t # que k h)" if "\<not> queued t (que k)" for t h
    using that dj by (auto simp: queued_def disjoint_queues_distinct)
  show ?thesis
  proof (cases c)
    case (RqInsert t)
    with v show ?thesis
      by (auto intro!: rq_run_ok_upd [OF ok _ ready_queue_insert_que _ _ _ _ new(1)] rq_ok_insert [OF rq]
          simp: frame kl t split: if_splits)
  next
    case (RqInsertTop t)
    have "tcb_table (ready_queue_insert_top t k) = tcb_table k" "klocktsk (ready_queue_insert_top t k) = None"
      by (simp_all add: ready_queue_insert_top_def Let_def kl t)
    with RqInsertTop v show ?thesis
      by (auto intro!: rq_run_ok_upd [OF ok _ ready_queue_insert_top_que [OF dj] _ _ _ _ new(2)]
          rq_ok_insert_top [OF rq _ dj] simp: t)
  next
    case (RqDelete x)
    with v have x: "pri x < NUM_PRI" "x \<in> set (que k (RdyQ (pri x)))"
      using rdy_list_queue [OF ps, of x] t by auto
    have "rq_ok (ready_queue_delete x k)" by (rule rq_ok_delete [OF rq dj x(2)]) (use x t in auto)
    with RqDelete show ?thesis
      by (auto intro!: rq_run_ok_upd [OF ok _ rq_delete_que [OF dj x(2)]]
          simp: frame kl t disjoint_queues_distinct [OF dj] split: if_splits
          dest: set_remove1_subset [THEN subsetD])
  next
    case (RqRotate p)
    then show ?thesis
      by (auto intro!: rq_run_ok_upd [OF ok _ ready_queue_rotate_que] rq_ok_rotate [OF rq]
          simp: frame kl ready_queue_rotate_tcb disjoint_queues_distinct [OF dj]
          split: list.splits if_splits)
  next
    case (RqMoveLast x)
    with v have x: "pri x < NUM_PRI" "x \<in> set (que k (RdyQ (priority (tcb k x))))"
      using rdy_list_queue [OF ps, of x] t by auto
    have "rq_ok (snd (ready_queue_move_last x k))" by (rule rq_ok_move_last [OF rq dj x(2)])
    with RqMoveLast x show ?thesis
      by (auto intro!: rq_run_ok_upd [OF ok _ ready_queue_move_last_que [OF dj x(2)]]
          simp: frame kl t disjoint_queues_distinct [OF dj] split: if_splits)
  qed
qed

lemma rq_exec_list:
  assumes ok: "rq_run_ok pri k" and v: "rq_valid c k"
  shows "rdy_list (rq_exec c k) = rq_spec pri c (rdy_list k)"
proof -
  have ps: "rq_pris k" and dj: "disjoint_queues (que k)" and pri: "(\<lambda>t. priority (tcb k t)) = pri"
    using ok by (auto simp: rq_run_ok_def)
  note P = fun_cong [OF pri]
  show ?thesis
  proof (cases c)
    case (RqInsert t)
    with v rdy_list_insert [OF ps, of t] P show ?thesis by simp
  next
    case (RqInsertTop t)
    with v rdy_list_insert_top [OF ps _ dj, of t] P show ?thesis by simp
  next
    case (RqDelete t)
    with v rdy_list_queue [OF ps, of t] rdy_list_delete [OF dj, of t] show ?thesis by auto
  next
    case (RqRotate p)
    with v rdy_list_rotate [OF ps, of p] P show ?thesis by simp
  next
    case (RqMoveLast t)
    with v rdy_list_queue [OF ps, of t] rdy_list_move_last [OF ps _ dj, of t] P show ?thesis by simp
  qed
qed

interpretation rq: simulation "rq_run_ok pri" rq_exec rq_valid rdy_list "rq_spec pri"
  by unfold_locales (rule rq_exec_ok rq_exec_list; assumption)+

lemma initialize_run_ok:
  assumes "disjoint_queues (que k)" "\<forall>t. \<not> klocked (tcb k t) \<and> \<not> klockwait (tcb k t)"
  shows "rq_run_ok (\<lambda>t. priority (tcb k t)) (ready_queue_initialize k)"
    and "rdy_list (ready_queue_initialize k) = []"
proof -
  have q: "que (ready_queue_initialize k) =
      (\<lambda>h. case h of RdyQ p \<Rightarrow> if p < NUM_PRI then [] else que k h | _ \<Rightarrow> que k h)"
    by (auto simp: ready_queue_initialize_def fold_QueInit fun_eq_iff split: qhead.splits)
  have "disjoint_queues (que (ready_queue_initialize k))"
    using assms(1) unfolding q disjoint_queues_def by (auto split: qhead.splits)
  then show "rq_run_ok (\<lambda>t. priority (tcb k t)) (ready_queue_initialize k)"
    using assms(2) rq_ok_initialize [of k]
    by (auto simp: rq_run_ok_def rq_pris_def q) (simp_all add: ready_queue_initialize_def)
  show "rdy_list (ready_queue_initialize k) = []" by (simp add: rdy_list_def q)
qed

lemma run_ok_sorted: "rq_run_ok pri k \<Longrightarrow> sorted (map pri (rdy_list k))"
  using rdy_list_sorted [of k] by (simp add: rq_run_ok_def)

lemma run_ok_top:
  assumes "rq_run_ok pri k"
  shows "ready_queue_top k = (case rdy_list k of [] \<Rightarrow> None | t # _ \<Rightarrow> Some t)"
    and "ready_queue_top_priority k = (case rdy_list k of [] \<Rightarrow> NUM_PRI | t # _ \<Rightarrow> pri t)"
proof -
  have rq: "rq_ok k" and kl: "klocktsk k = None" and ps: "rq_pris k"
    and t: "\<And>t. priority (tcb k t) = pri t"
    using assms by (auto simp: rq_run_ok_def)
  show top: "ready_queue_top k = (case rdy_list k of [] \<Rightarrow> None | t # _ \<Rightarrow> Some t)"
    by (rule rdy_list_top [OF rq kl])
  have tp: "top_priority k \<le> NUM_PRI" "top_priority k < NUM_PRI \<Longrightarrow> que k (RdyQ (top_priority k)) \<noteq> []"
    using rq by (auto simp: rq_ok_def rq_top_def)
  show "ready_queue_top_priority k = (case rdy_list k of [] \<Rightarrow> NUM_PRI | t # _ \<Rightarrow> pri t)"
  proof (cases "top_priority k = NUM_PRI")
    case True
    then show ?thesis using top ready_queue_top_eq [OF rq kl]
      by (simp add: ready_queue_top_priority_def split: list.splits)
  next
    case False
    with tp have lt: "top_priority k < NUM_PRI" "que k (RdyQ (top_priority k)) \<noteq> []" by auto
    then have "pri (hd (que k (RdyQ (top_priority k)))) = top_priority k"
      using rq_prisD [OF ps, of "top_priority k"] t by simp
    moreover have "rdy_list k \<noteq> [] \<and> hd (rdy_list k) = hd (que k (RdyQ (top_priority k)))"
      using top ready_queue_top_eq [OF rq kl] False by (auto split: list.splits)
    ultimately show ?thesis by (cases "rdy_list k") (simp_all add: ready_queue_top_priority_def)
  qed
qed

text \<open>
  C22: The ready queue is a stable list of tasks by priority: after any run of insertions at the end
  and at the top of a priority, deletions, rotations and moves to the end, starting from the
  initialised queue, the ready tasks in the order of the linked queues are those of the list
  operations, in order of priority; the top is the first of them, and \<^verbatim>\<open>top_priority\<close>, read from the
  bitmap with the bit search, is its priority or \<^verbatim>\<open>NUM_PRI\<close> when no task is ready.
\<close>

theorem ready_queue_refines_list:
  fixes k :: kernel
  defines "k0 \<equiv> ready_queue_initialize k" and "pri \<equiv> \<lambda>t. priority (tcb k t)"
  assumes "disjoint_queues (que k)" "\<forall>t. \<not> klocked (tcb k t) \<and> \<not> klockwait (tcb k t)"
    and "valid_calls rq_exec rq_valid cs k0"
  shows "rdy_list (fold rq_exec cs k0) = fold (rq_spec pri) cs [] \<and>
    sorted (map pri (rdy_list (fold rq_exec cs k0))) \<and>
    ready_queue_top (fold rq_exec cs k0) =
      (case fold (rq_spec pri) cs [] of [] \<Rightarrow> None | t # _ \<Rightarrow> Some t) \<and>
    ready_queue_top_priority (fold rq_exec cs k0) =
      (case fold (rq_spec pri) cs [] of [] \<Rightarrow> NUM_PRI | t # _ \<Rightarrow> pri t)"
proof -
  have init: "rq_run_ok pri k0" "rdy_list k0 = []"
    using assms(3,4) rq_ok_initialize [of k] by (simp_all add: k0_def pri_def initialize_run_ok)
  let ?k = "fold rq_exec cs k0"
  note ok = rq.run_inv [OF init(1) assms(5)] and list = rq.run_abs [OF init(1) assms(5), unfolded init(2)]
  show ?thesis
    using run_ok_sorted [OF ok] run_ok_top [OF ok] by (simp add: list)
qed

lemma ex_state_lock_free:
  "disjoint_queues (que ex_state) \<and> (\<forall>t. \<not> klocked (tcb ex_state t) \<and> \<not> klockwait (tcb ex_state t))"
  by (auto simp: disjoint_queues_def ex_state_que) (auto simp: ex_state_def split: if_splits)

theorem ready_queue_refines_list_witness:
  "valid_calls rq_exec rq_valid [RqInsert 2, RqInsert 0, RqRotate 30, RqDelete 0] (ready_queue_initialize ex_state) \<and>
   ready_queue_top (fold rq_exec [RqInsert 2, RqInsert 0, RqRotate 30, RqDelete 0]
     (ready_queue_initialize ex_state)) = Some 2"
proof -
  let ?k = "ready_queue_initialize ex_state" and ?pri = "\<lambda>t. priority (tcb ex_state t)"
  let ?cs = "[RqInsert 2, RqInsert 0, RqRotate 30, RqDelete 0]"
  note pre = ex_state_lock_free [THEN conjunct1] ex_state_lock_free [THEN conjunct2]
  note init = initialize_run_ok [OF pre]
  have q: "que ?k h = (if h = FreeTcb then [4] else [])" for h
    by (auto simp: ready_queue_initialize_def fold_QueInit ex_state_que split: qhead.splits)
  have tcb: "tcb ?k t = tcb ex_state t" for t by (simp add: ready_queue_initialize_def)
  have v1: "rq_valid (RqInsert 2) ?k" by (simp add: tcb ex_state_tcb queued_def q)
  have q1: "que (rq_exec (RqInsert 2) ?k) h = (if h = FreeTcb then [4] else if h = RdyQ 30 then [2] else [])"
    and t1: "priority (tcb (rq_exec (RqInsert 2) ?k) 0) = 10" for h
    by (simp_all add: ready_queue_insert_que frame tcb ex_state_tcb q)
  have v2: "rq_valid (RqInsert 0) (rq_exec (RqInsert 2) ?k)"
    using t1 by (simp add: queued_def q1 del: rq_exec.simps)
  note ok1 = rq_exec_ok [OF init(1) v1]
  note ok2 = rq_exec_ok [OF ok1 v2]
  note ok3 = rq_exec_ok [OF ok2, of "RqRotate 30"]
  have l3: "rdy_list (rq_exec (RqRotate 30) (rq_exec (RqInsert 0) (rq_exec (RqInsert 2) ?k))) = [0, 2]"
    using rq_exec_list [OF ok2, of "RqRotate 30"] rq_exec_list [OF ok1 v2] rq_exec_list [OF init(1) v1]
    by (simp add: init(2) ex_state_tcb del: rq_exec.simps)
  have v: "valid_calls rq_exec rq_valid ?cs ?k"
    using v1 v2 l3 by (simp del: rq_exec.simps rq_valid.simps(1))
  show ?thesis
    using v ready_queue_refines_list [OF pre v] by (simp add: ex_state_tcb del: rq_exec.simps)
qed

end
