(* ===== verification/Task_Sync.thy ===== *)
theory Task_Sync
  imports Example_State
begin

text \<open>
  Task-dependent synchronisation (\<^verbatim>\<open>task_sync.c\<close>): suspend and resume, sleep and wakeup, task events. Sleep
  and event waits are on no queue; their wait specification has no hooks.
\<close>

definition tk_sus_tsk :: "ID \<Rightarrow> kernel \<Rightarrow> ER \<times> kernel" where
  "tk_sus_tsk oid k =
     checked [CHECK_TSKID oid k, CHECK_NONSELF oid k] k
       (let t = get_tcb oid; st = state (tcb k t)
        in if \<not> task_alive st
           then ((if st = TS_NONEXIST then E_NOEXS else E_OBJ), END_CRITICAL_SECTION k)
           else if Some t = ctxtsk k \<and> 2 \<le> dispatch_disabled k then (E_CTX, END_CRITICAL_SECTION k)
           else if suscnt (tcb k t) = INT_MAX then (E_QOVR, END_CRITICAL_SECTION k)
           else
             let k = upd_tcb t (\<lambda>c. c\<lparr>suscnt := suscnt c + 1\<rparr>) k;
                 k = (if st = TS_READY then upd_tcb t (\<lambda>c. c\<lparr>state := TS_SUSPEND\<rparr>) (make_non_ready t k)
                      else if st = TS_WAIT then upd_tcb t (\<lambda>c. c\<lparr>state := TS_WAITSUS\<rparr>) k
                      else k)
             in (E_OK, END_CRITICAL_SECTION k))"

definition tk_rsm_tsk :: "ID \<Rightarrow> kernel \<Rightarrow> ER \<times> kernel" where
  "tk_rsm_tsk oid k =
     checked [CHECK_TSKID oid k, CHECK_NONSELF oid k] k
       (let t = get_tcb oid
        in case state (tcb k t) of
             TS_NONEXIST \<Rightarrow> (E_NOEXS, END_CRITICAL_SECTION k)
           | TS_DORMANT \<Rightarrow> (E_OBJ, END_CRITICAL_SECTION k)
           | TS_READY \<Rightarrow> (E_OBJ, END_CRITICAL_SECTION k)
           | TS_WAIT \<Rightarrow> (E_OBJ, END_CRITICAL_SECTION k)
           | TS_SUSPEND \<Rightarrow>
               let k = upd_tcb t (\<lambda>c. c\<lparr>suscnt := suscnt c - 1\<rparr>) k
               in (E_OK, END_CRITICAL_SECTION (if suscnt (tcb k t) = 0 then make_ready t k else k))
           | TS_WAITSUS \<Rightarrow>
               let k = upd_tcb t (\<lambda>c. c\<lparr>suscnt := suscnt c - 1\<rparr>) k
               in (E_OK, END_CRITICAL_SECTION
                    (if suscnt (tcb k t) = 0 then upd_tcb t (\<lambda>c. c\<lparr>state := TS_WAIT\<rparr>) k else k)))"

definition tk_frsm_tsk :: "ID \<Rightarrow> kernel \<Rightarrow> ER \<times> kernel" where
  "tk_frsm_tsk oid k =
     checked [CHECK_TSKID oid k, CHECK_NONSELF oid k] k
       (let t = get_tcb oid
        in case state (tcb k t) of
             TS_NONEXIST \<Rightarrow> (E_NOEXS, END_CRITICAL_SECTION k)
           | TS_DORMANT \<Rightarrow> (E_OBJ, END_CRITICAL_SECTION k)
           | TS_READY \<Rightarrow> (E_OBJ, END_CRITICAL_SECTION k)
           | TS_WAIT \<Rightarrow> (E_OBJ, END_CRITICAL_SECTION k)
           | TS_SUSPEND \<Rightarrow>
               (E_OK, END_CRITICAL_SECTION (make_ready t (upd_tcb t (\<lambda>c. c\<lparr>suscnt := 0\<rparr>) k)))
           | TS_WAITSUS \<Rightarrow>
               (E_OK, END_CRITICAL_SECTION (upd_tcb t (\<lambda>c. c\<lparr>suscnt := 0, state := TS_WAIT\<rparr>) k)))"

text \<open>
  The result of a call that waits is read from the caller's cell. \<^verbatim>\<open>QueInit(&ctxtsk->tskque)\<close> makes the
  link of the task a ring of its own: it is on no queue.
\<close>

definition sleep_wait :: "wspec \<Rightarrow> D \<Rightarrow> kernel \<Rightarrow> kernel" where
  "sleep_wait ws tmout k =
     make_wait tmout TA_NULL (upd_tcb (self k) (\<lambda>c. c\<lparr>wspec := ws, wid := 0, wercd := E_TMOUT\<rparr>) k)"

definition tk_slp_tsk_u :: "D \<Rightarrow> kernel \<Rightarrow> ER \<times> kernel" where
  "tk_slp_tsk_u tmout k =
     checked [CHECK_TMOUT tmout, CHECK_DISPATCH k] k
       (let t = self k
        in if waitmask (tcb k t) AND TTW_SLP \<noteq> 0 then (E_DISWAI, END_CRITICAL_SECTION k)
           else if 0 < wupcnt (tcb k t)
           then (E_OK, END_CRITICAL_SECTION (upd_tcb t (\<lambda>c. c\<lparr>wupcnt := wupcnt c - 1\<rparr>) k))
           else if tmout = TMO_POL then (E_TMOUT, END_CRITICAL_SECTION k)
           else
             let k = sleep_wait WSPEC_SLP tmout k
             in (wercd (tcb k t), END_CRITICAL_SECTION k))"

definition tk_slp_tsk :: "UW \<Rightarrow> kernel \<Rightarrow> ER \<times> kernel" where
  "tk_slp_tsk tmout k = tk_slp_tsk_u (to_usec_tmo tmout) k"

definition tk_wup_tsk :: "ID \<Rightarrow> kernel \<Rightarrow> ER \<times> kernel" where
  "tk_wup_tsk oid k =
     checked [CHECK_TSKID oid k, CHECK_NONSELF oid k] k
       (let t = get_tcb oid; st = state (tcb k t)
        in if \<not> task_alive st
           then ((if st = TS_NONEXIST then E_NOEXS else E_OBJ), END_CRITICAL_SECTION k)
           else if ts_wait st \<and> wspec (tcb k t) = WSPEC_SLP
           then (E_OK, END_CRITICAL_SECTION (wait_release_ok t k))
           else if wupcnt (tcb k t) = INT_MAX then (E_QOVR, END_CRITICAL_SECTION k)
           else (E_OK, END_CRITICAL_SECTION (upd_tcb t (\<lambda>c. c\<lparr>wupcnt := wupcnt c + 1\<rparr>) k)))"

definition tk_can_wup :: "ID \<Rightarrow> kernel \<Rightarrow> int \<times> kernel" where
  "tk_can_wup oid k =
     checked [CHECK_TSKID_SELF oid k] k
       (let t = get_tcb_self oid k
        in case state (tcb k t) of
             TS_NONEXIST \<Rightarrow> (E_NOEXS, END_CRITICAL_SECTION k)
           | TS_DORMANT \<Rightarrow> (E_OBJ, END_CRITICAL_SECTION k)
           | _ \<Rightarrow> (wupcnt (tcb k t), END_CRITICAL_SECTION (upd_tcb t (\<lambda>c. c\<lparr>wupcnt := 0\<rparr>) k)))"

definition toTTW :: "UW \<Rightarrow> UW" where
  "toTTW evtmask = push_bit 16 evtmask"

definition tk_wai_tev_u :: "UW \<Rightarrow> D \<Rightarrow> kernel \<Rightarrow> int \<times> kernel" where
  "tk_wai_tev_u waiptn tmout k =
     checked [CHECK_TMOUT tmout, CHECK_PAR (waiptn AND NOT 0xFF = 0 \<and> waiptn AND 0xFF \<noteq> 0),
              CHECK_DISPATCH k] k
       (let t = self k
        in if waitmask (tcb k t) AND toTTW waiptn \<noteq> 0 then (E_DISWAI, END_CRITICAL_SECTION k)
           else if ucast (tskevt (tcb k t)) AND waiptn \<noteq> 0
           then (uint (tskevt (tcb k t)),
                 END_CRITICAL_SECTION (upd_tcb t (\<lambda>c. c\<lparr>tskevt := tskevt c AND NOT (ucast waiptn)\<rparr>) k))
           else if tmout = TMO_POL then (E_TMOUT, END_CRITICAL_SECTION k)
           else
             let k = sleep_wait (WSPEC_TEV (toTTW waiptn)) tmout k
             in (wercd (tcb k t), END_CRITICAL_SECTION k))"

definition tk_wai_tev :: "UW \<Rightarrow> UW \<Rightarrow> kernel \<Rightarrow> int \<times> kernel" where
  "tk_wai_tev waiptn tmout k = tk_wai_tev_u waiptn (to_usec_tmo tmout) k"

definition tk_sig_tev :: "ID \<Rightarrow> int \<Rightarrow> kernel \<Rightarrow> ER \<times> kernel" where
  "tk_sig_tev oid ev k =
     checked [CHECK_TSKID_SELF oid k, CHECK_PAR (1 \<le> ev \<and> ev \<le> 8)] k
       (let evtmsk = push_bit (nat (ev - 1)) (1 :: UW); t = get_tcb_self oid k; st = state (tcb k t)
        in if \<not> task_alive st
           then ((if st = TS_NONEXIST then E_NOEXS else E_OBJ), END_CRITICAL_SECTION k)
           else if ts_wait st \<and> tskwait (wspec (tcb k t)) AND toTTW evtmsk \<noteq> 0
           then (E_OK, END_CRITICAL_SECTION
                  (wait_release_ok_ercd t (uint (ucast (tskevt (tcb k t)) OR evtmsk)) k))
           else (E_OK, END_CRITICAL_SECTION
                  (upd_tcb t (\<lambda>c. c\<lparr>tskevt := tskevt c OR ucast evtmsk\<rparr>) k)))"

end
