(* ===== verification/Task_Sync_Inv.thy ===== *)
theory Task_Sync_Inv
  imports Task_Sync
begin

text \<open>
  The calls of theory Task_Sync: they keep the kernel consistent and the counters of every task within
  range and in agreement with its state, suspensions nest, and a wakeup or an event is either
  delivered to the task that waits for it or kept for its next wait.
\<close>

definition ts_sus :: "tstat \<Rightarrow> bool" where
  "ts_sus s \<longleftrightarrow> s = TS_SUSPEND \<or> s = TS_WAITSUS"

lemma ts_sus_simps [simp]:
  "ts_sus TS_NONEXIST = False" "ts_sus TS_READY = False" "ts_sus TS_WAIT = False"
  "ts_sus TS_SUSPEND = True" "ts_sus TS_WAITSUS = True" "ts_sus TS_DORMANT = False"
  by (simp_all add: ts_sus_def)

subsection \<open>The counters of a task\<close>

text \<open>
  A task is suspended exactly while requests to suspend it are outstanding; a sleeping task has no
  wakeup left to consume, and a task that waits for events has none of them pending.
\<close>

definition sync_tcb :: "tcb \<Rightarrow> bool" where
  "sync_tcb c \<longleftrightarrow>
     (ts_sus (state c) \<longleftrightarrow> 0 < suscnt c) \<and> 0 \<le> suscnt c \<and> suscnt c \<le> INT_MAX \<and>
     0 \<le> wupcnt c \<and> wupcnt c \<le> INT_MAX \<and>
     (ts_wait (state c) \<longrightarrow> wspec c = WSPEC_SLP \<longrightarrow> wupcnt c = 0) \<and>
     (ts_wait (state c) \<longrightarrow> (\<forall>w. wspec c = WSPEC_TEV w \<longrightarrow> toTTW (ucast (tskevt c)) AND w = 0))"

definition sync_ok :: "kernel \<Rightarrow> bool" where
  "sync_ok k \<longleftrightarrow>
     (\<forall>t < NUM_TSKID k. sync_tcb (tcb k t)) \<and> (\<forall>t. ctxtsk k = Some t \<longrightarrow> t < NUM_TSKID k)"

lemma sync_tcb_cong:
  assumes "core c' = core c" "ts_sus (state c') = ts_sus (state c)" "ts_wait (state c') \<Longrightarrow> ts_wait (state c)"
  shows "sync_tcb c \<Longrightarrow> sync_tcb c'"
  using core_eqD [OF assms(1)] assms(2,3) by (auto simp: sync_tcb_def)

text \<open>A step that touches one task.\<close>

lemma sync_ok_step:
  assumes "sync_ok k" "NUM_TSKID k' = NUM_TSKID k \<and> ctxtsk k' = ctxtsk k" "\<And>u. u \<noteq> t \<Longrightarrow> core (tcb k' u) = core (tcb k u)"
    "\<And>u. u \<noteq> t \<Longrightarrow> state (tcb k' u) = state (tcb k u)"
    "t < NUM_TSKID k \<Longrightarrow> sync_tcb (tcb k t) \<Longrightarrow> sync_tcb (tcb k' t)"
  shows "sync_ok k'"
proof -
  have "sync_tcb (tcb k' u)" if "u < NUM_TSKID k" for u
    using assms(1,3-5) that sync_tcb_cong [of "tcb k' u" "tcb k u"]
    by (cases "u = t") (auto simp: sync_ok_def)
  with assms(1) show ?thesis by (simp add: sync_ok_def assms(2))
qed

lemma sync_ok_END: "kinv {} k \<Longrightarrow> sync_ok k \<Longrightarrow> sync_ok (END_CRITICAL_SECTION k)"
  using END_CRITICAL_SECTION_cases [of k] kinv_sched(1) [of "{}" k]
  by (auto simp: sync_ok_def kinv_def NUM_TSKID_def)

definition sync_sys :: "kernel \<Rightarrow> bool" where
  "sync_sys k \<longleftrightarrow> kernel_ok k \<and> sync_ok k"

lemma sync_sys_END: "kinv {} k \<Longrightarrow> sync_ok k \<Longrightarrow> sync_sys (END_CRITICAL_SECTION k)"
  by (simp add: sync_sys_def kernel_ok_END_CRITICAL_SECTION sync_ok_END)

lemma sync_sysD:
  assumes "sync_sys k"
  shows "kernel_ok k" "kinv {} k" "sync_ok k" "ctxtsk k = Some t \<Longrightarrow> t < NUM_TSKID k" "t < NUM_TSKID k \<Longrightarrow> sync_tcb (tcb k t)"
  using assms by (auto simp: sync_sys_def sync_ok_def kernel_ok_kinv)

lemma sync_sys_same_END: "sync_sys k \<Longrightarrow> sync_sys (END_CRITICAL_SECTION k)"
  by (rule sync_sys_END) (rule sync_sysD, assumption)+

lemma sync_sys_checked:
  "sync_sys k \<Longrightarrow> (first_error cs = None \<Longrightarrow> sync_sys (snd r)) \<Longrightarrow> sync_sys (snd (checked cs k r))"
  by (auto simp: checked_def split: option.splits)

lemma CHECK_TSKID_less: "CHECK_TSKID oid k = None \<Longrightarrow> get_tcb oid < NUM_TSKID k"
  by (auto simp: CHECK_TSKID_def CHK_TSKID_def get_tcb_def INDEX_def NUM_TSKID_def split: if_splits)

subsection \<open>The primitives\<close>

lemma sync_upd:
  assumes s: "sync_sys k"
    and f: "state (f (tcb k t)) = state (tcb k t)" "priority (f (tcb k t)) = priority (tcb k t)"
      "bpriority (f (tcb k t)) = bpriority (tcb k t)" "klocked (f (tcb k t)) = klocked (tcb k t)"
      "klockwait (f (tcb k t)) = klockwait (tcb k t)" "tskid (f (tcb k t)) = tskid (tcb k t)"
      "wspec (f (tcb k t)) = wspec (tcb k t)" "wid (f (tcb k t)) = wid (tcb k t)"
    and c: "t < NUM_TSKID k \<Longrightarrow> sync_tcb (tcb k t) \<Longrightarrow> sync_tcb (f (tcb k t))"
  shows "sync_sys (END_CRITICAL_SECTION (upd_tcb t f k))"
proof (rule sync_sys_END)
  show "kinv {} (upd_tcb t f k)" by (rule kinv_upd_tcb_other [OF sync_sysD(2) [OF s]]) (use f in simp_all)
  show "sync_ok (upd_tcb t f k)" by (rule sync_ok_step [OF sync_sysD(3) [OF s], of _ t]) (use c in simp_all)
qed

lemma kinv_suspend:
  assumes inv: "kinv {} k" and t: "t < NUM_TSKID k" "state (tcb k t) = TS_READY"
  shows "kinv {} (upd_tcb t (\<lambda>c. c\<lparr>state := TS_SUSPEND\<rparr>) (make_non_ready t k))"
proof -
  let ?k = "upd_tcb t (\<lambda>c. c\<lparr>state := TS_SUSPEND\<rparr>) (make_non_ready t k)"
  have nr: "kinv {t} (make_non_ready t k)" using kinv_make_non_ready [OF inv t(1) _ t(2)] by simp
  have "TskTmeb t \<notin> set (timer_queue (make_non_ready t k))"
    using kinv_ready_no_timer [OF inv t(2)] by simp
  then have "kinv {t} ?k"
    by (intro kinv_upd_tcb [OF nr]) (auto simp: wf_tcb_def t)
  then show ?thesis by (simp add: kinv_no_home)
qed

lemma kinv_resume:
  assumes inv: "kinv {} k" and t: "t < NUM_TSKID k" "state (tcb k t) = TS_SUSPEND"
  shows "kinv {} (make_ready t k)" and "\<not> rdyq h \<Longrightarrow> que (make_ready t k) h = que k h"
proof -
  have i: "kinv {t} k" using inv t by (simp add: kinv_no_home)
  have tm: "TskTmeb t \<notin> set (timer_queue k)" using kinvD(3) [OF inv] t by (auto simp: timers_ok_def)
  show "kinv {} (make_ready t k)" using kinv_make_ready [OF i t(1) _ _ tm] t by simp
  show "que (make_ready t k) h = que k h" if "\<not> rdyq h"
    using make_ready_que [OF i that _ tm] t by simp
qed

lemma sync_wait_release:
  assumes s: "sync_sys k" and t: "t < NUM_TSKID k" "ts_wait (state (tcb k t))"
  shows "sync_sys (END_CRITICAL_SECTION (set_wercd t e (wait_release t k)))"
proof (rule sync_sys_END)
  let ?k = "set_wercd t e (wait_release t k)"
  have r: "released {t} e k ?k" by (rule released_single [OF sync_sysD(2) [OF s] t])
  show "kinv {} ?k" by (rule releasedD [OF r])
  show "sync_ok ?k"
    by (rule sync_ok_step [OF sync_sysD(3) [OF s], of _ t])
      (use t in \<open>auto simp: ts_wait_iff intro: sync_tcb_cong [OF releasedD(6) [OF r]]\<close>)
qed

text \<open>A wait on no queue: sleep and task events.\<close>

lemma sleep_wait_frame [simp]:
  "objs (sleep_wait ws tm k) = objs k"
  "tcb (sleep_wait ws tm k) u =
     tcb (enter_wait (self k) TA_NULL (upd_tcb (self k) (\<lambda>c. c\<lparr>wspec := ws, wid := 0, wercd := E_TMOUT\<rparr>) k)) u"
  by (simp_all add: sleep_wait_def)

lemma sleep_wait_state:
  assumes "state (tcb k (self k)) = TS_READY"
  shows "state (tcb (sleep_wait ws tm k) u) = (if u = self k then TS_WAIT else state (tcb k u))"
    "wspec (tcb (sleep_wait ws tm k) u) = (if u = self k then ws else wspec (tcb k u))"
    "wercd (tcb (sleep_wait ws tm k) u) = (if u = self k then E_TMOUT else wercd (tcb k u))"
    "u \<noteq> self k \<Longrightarrow> core (tcb (sleep_wait ws tm k) u) = core (tcb k u)"
    "suscnt (tcb (sleep_wait ws tm k) (self k)) = suscnt (tcb k (self k))"
    "wupcnt (tcb (sleep_wait ws tm k) (self k)) = wupcnt (tcb k (self k))"
    "tskevt (tcb (sleep_wait ws tm k) (self k)) = tskevt (tcb k (self k))"
  using assms by (simp_all add: enter_wait_other enter_wait_def)

lemma kinv_sleep_wait:
  assumes inv: "kinv {} k" and t: "self k < NUM_TSKID k" "state (tcb k (self k)) = TS_READY"
    and ws: "wait_home ws 0 = None"
  shows "kinv {} (sleep_wait ws tm k)"
    and "\<not> rdyq h \<Longrightarrow> que (sleep_wait ws tm k) h = que k h"
proof -
  let ?u = "upd_tcb (self k) (\<lambda>c. c\<lparr>wspec := ws, wid := 0, wercd := E_TMOUT\<rparr>) k"
  have u: "kinv {} ?u" by (rule kinv_upd_tcb_other [OF inv]) (use t in simp_all)
  have w: "kinv {self k} (sleep_wait ws tm k)"
    using kinv_make_wait(1) [OF u] t by (simp add: sleep_wait_def)
  have "home (tcb (sleep_wait ws tm k) (self k)) = None"
    using t ws by (simp add: home_def)
  with w show "kinv {} (sleep_wait ws tm k)" by (simp add: kinv_no_home)
  show "que (sleep_wait ws tm k) h = que k h" if "\<not> rdyq h"
    using kinv_enter_wait(2) [OF u, of "self k" h] that t by (simp add: sleep_wait_def)
qed

lemma sync_sleep_wait:
  assumes s: "sync_sys k" and t: "self k < NUM_TSKID k" "state (tcb k (self k)) = TS_READY"
    and ws: "wait_home ws 0 = None" "ws = WSPEC_SLP \<Longrightarrow> wupcnt (tcb k (self k)) = 0"
      "\<And>w. ws = WSPEC_TEV w \<Longrightarrow> toTTW (ucast (tskevt (tcb k (self k)))) AND w = 0"
  shows "sync_sys (END_CRITICAL_SECTION (sleep_wait ws tm k))"
proof (rule sync_sys_END)
  show "kinv {} (sleep_wait ws tm k)" by (rule kinv_sleep_wait(1) [OF sync_sysD(2) [OF s] t ws(1)])
  note st = sleep_wait_state [OF t(2)]
  show "sync_ok (sleep_wait ws tm k)"
    by (rule sync_ok_step [OF sync_sysD(3) [OF s], of _ "self k"])
      (use t ws in \<open>auto simp: st objs_eqD [OF sleep_wait_frame(1)] sync_tcb_def simp del: sleep_wait_frame(2)\<close>)
qed

subsection \<open>The calls keep the invariant\<close>

lemma sync_self:
  assumes "sync_sys k" "CHECK_DISPATCH k = None"
  shows "ctxtsk k = Some (self k)" "self k < NUM_TSKID k" "state (tcb k (self k)) = TS_READY"
  using kernel_ok_dispatch [OF sync_sysD(1) [OF assms(1)] assms(2)] by simp_all

lemma tk_sus_tsk_sys:
  assumes s: "sync_sys k"
  shows "sync_sys (snd (tk_sus_tsk oid k))"
  unfolding tk_sus_tsk_def
proof (rule sync_sys_checked [OF s])
  let ?t = "get_tcb oid"
  assume "first_error [CHECK_TSKID oid k, CHECK_NONSELF oid k] = None"
  then have t: "?t < NUM_TSKID k" using CHECK_TSKID_less [of oid k] by (simp add: first_error_None_iff del: first_error.simps)
  note c = sync_sysD(5) [OF s t]
  let ?f = "\<lambda>c. c\<lparr>suscnt := suscnt c + 1\<rparr>"
  have up: "kinv {} (upd_tcb ?t ?f k)" by (rule kinv_upd_tcb_other [OF sync_sysD(2) [OF s]]) simp_all
  have "sync_sys (END_CRITICAL_SECTION (upd_tcb ?t ?f k))"
    if "suscnt (tcb k ?t) \<noteq> INT_MAX" "ts_sus (state (tcb k ?t))"
    by (rule sync_upd [OF s]) (use that c in \<open>simp_all add: sync_tcb_def\<close>)
  moreover have "sync_sys (END_CRITICAL_SECTION (upd_tcb ?t (\<lambda>c. c\<lparr>state := TS_SUSPEND\<rparr>)
      (make_non_ready ?t (upd_tcb ?t ?f k))))"
    if "suscnt (tcb k ?t) \<noteq> INT_MAX" "state (tcb k ?t) = TS_READY"
  proof (rule sync_sys_END [OF kinv_suspend [OF up]])
    show "sync_ok (upd_tcb ?t (\<lambda>c. c\<lparr>state := TS_SUSPEND\<rparr>) (make_non_ready ?t (upd_tcb ?t ?f k)))"
      by (rule sync_ok_step [OF sync_sysD(3) [OF s], of _ ?t]) (use that c in \<open>auto simp: sync_tcb_def\<close>)
  qed (use t that in simp_all)
  moreover have "sync_sys (END_CRITICAL_SECTION (upd_tcb ?t (\<lambda>c. c\<lparr>state := TS_WAITSUS\<rparr>) (upd_tcb ?t ?f k)))"
    if "suscnt (tcb k ?t) \<noteq> INT_MAX" "state (tcb k ?t) = TS_WAIT"
  proof (rule sync_sys_END)
    show "kinv {} (upd_tcb ?t (\<lambda>c. c\<lparr>state := TS_WAITSUS\<rparr>) (upd_tcb ?t ?f k))"
      by (rule kinv_upd_tcb [OF up]) (use that in \<open>auto simp: wf_tcb_def home_def\<close>)
    show "sync_ok (upd_tcb ?t (\<lambda>c. c\<lparr>state := TS_WAITSUS\<rparr>) (upd_tcb ?t ?f k))"
      by (rule sync_ok_step [OF sync_sysD(3) [OF s], of _ ?t]) (use that c in \<open>auto simp: sync_tcb_def\<close>)
  qed
  ultimately show "sync_sys (snd (let t = ?t; st = state (tcb k t)
      in if \<not> task_alive st then ((if st = TS_NONEXIST then E_NOEXS else E_OBJ), END_CRITICAL_SECTION k)
         else if Some t = ctxtsk k \<and> 2 \<le> dispatch_disabled k then (E_CTX, END_CRITICAL_SECTION k)
         else if suscnt (tcb k t) = INT_MAX then (E_QOVR, END_CRITICAL_SECTION k)
         else let k = upd_tcb t ?f k;
                  k = (if st = TS_READY then upd_tcb t (\<lambda>c. c\<lparr>state := TS_SUSPEND\<rparr>) (make_non_ready t k)
                       else if st = TS_WAIT then upd_tcb t (\<lambda>c. c\<lparr>state := TS_WAITSUS\<rparr>) k else k)
              in (E_OK, END_CRITICAL_SECTION k)))"
    using sync_sys_same_END [OF s] by (cases "state (tcb k ?t)") (auto simp: Let_def)
qed

text \<open>The two ways to end a suspension, with the count that remains.\<close>

lemma sync_resume:
  assumes s: "sync_sys k" and t: "t < NUM_TSKID k"
    and n: "0 \<le> n" "n < suscnt (tcb k t)"
  shows "state (tcb k t) = TS_SUSPEND \<Longrightarrow> sync_sys (END_CRITICAL_SECTION
      (if n = 0 then make_ready t (upd_tcb t (\<lambda>c. c\<lparr>suscnt := n\<rparr>) k) else upd_tcb t (\<lambda>c. c\<lparr>suscnt := n\<rparr>) k))"
    and "state (tcb k t) = TS_WAITSUS \<Longrightarrow> sync_sys (END_CRITICAL_SECTION
      (if n = 0 then upd_tcb t (\<lambda>c. c\<lparr>suscnt := n, state := TS_WAIT\<rparr>) k else upd_tcb t (\<lambda>c. c\<lparr>suscnt := n\<rparr>) k))"
proof -
  note c = sync_sysD(5) [OF s t]
  let ?k = "upd_tcb t (\<lambda>c. c\<lparr>suscnt := n\<rparr>) k"
  have up: "kinv {} ?k" by (rule kinv_upd_tcb_other [OF sync_sysD(2) [OF s]]) simp_all
  have pos: "sync_sys (END_CRITICAL_SECTION ?k)" if "n \<noteq> 0"
    by (rule sync_upd [OF s]) (use that n c in \<open>auto simp: sync_tcb_def\<close>)
  show "sync_sys (END_CRITICAL_SECTION (if n = 0 then make_ready t ?k else ?k))"
    if st: "state (tcb k t) = TS_SUSPEND"
  proof (cases "n = 0")
    case True
    have "kinv {} (make_ready t ?k)" by (rule kinv_resume(1) [OF up]) (use t st in simp_all)
    moreover have "sync_ok (make_ready t ?k)"
      by (rule sync_ok_step [OF sync_sysD(3) [OF s], of _ t]) (use True c in \<open>auto simp: sync_tcb_def\<close>)
    ultimately show ?thesis using True by (simp add: sync_sys_END)
  qed (use pos in simp)
  show "sync_sys (END_CRITICAL_SECTION (if n = 0 then upd_tcb t (\<lambda>c. c\<lparr>suscnt := n, state := TS_WAIT\<rparr>) k else ?k))"
    if st: "state (tcb k t) = TS_WAITSUS"
  proof (cases "n = 0")
    case True
    have "kinv {} (upd_tcb t (\<lambda>c. c\<lparr>suscnt := n, state := TS_WAIT\<rparr>) k)"
      by (rule kinv_upd_tcb [OF sync_sysD(2) [OF s]]) (use st in \<open>auto simp: wf_tcb_def home_def\<close>)
    moreover have "sync_ok (upd_tcb t (\<lambda>c. c\<lparr>suscnt := n, state := TS_WAIT\<rparr>) k)"
      by (rule sync_ok_step [OF sync_sysD(3) [OF s], of _ t]) (use True c st in \<open>auto simp: sync_tcb_def\<close>)
    ultimately show ?thesis using True by (simp add: sync_sys_END)
  qed (use pos in simp)
qed

lemma upd_tcb_twice: "upd_tcb t f (upd_tcb t g k) = upd_tcb t (\<lambda>c. f (g c)) k"
  by (simp add: upd_tcb_def)

lemma upd_tcb_cong: "f (tcb k t) = g (tcb k t) \<Longrightarrow> upd_tcb t f k = upd_tcb t g k"
  by (simp add: upd_tcb_def)

lemma suscnt_minus: "upd_tcb t (\<lambda>c. c\<lparr>suscnt := suscnt c - 1\<rparr>) k =
  upd_tcb t (\<lambda>c. c\<lparr>suscnt := suscnt (tcb k t) - 1\<rparr>) k"
  by (rule upd_tcb_cong) simp

lemma tk_rsm_tsk_sys:
  assumes s: "sync_sys k"
  shows "sync_sys (snd (tk_rsm_tsk oid k))"
  unfolding tk_rsm_tsk_def
proof (rule sync_sys_checked [OF s], goal_cases)
  case 1
  let ?t = "get_tcb oid"
  have t: "?t < NUM_TSKID k" using 1 CHECK_TSKID_less [of oid k] by (simp add: first_error_None_iff del: first_error.simps)
  note r = sync_resume [OF s t, of "suscnt (tcb k ?t) - 1"] and c = sync_sysD(5) [OF s t]
  show ?case
    using sync_sys_same_END [OF s] r c
    by (cases "state (tcb k ?t)") (auto simp: Let_def suscnt_minus upd_tcb_twice sync_tcb_def)
qed

lemma tk_frsm_tsk_sys:
  assumes s: "sync_sys k"
  shows "sync_sys (snd (tk_frsm_tsk oid k))"
  unfolding tk_frsm_tsk_def
proof (rule sync_sys_checked [OF s], goal_cases)
  case 1
  let ?t = "get_tcb oid"
  have t: "?t < NUM_TSKID k" using 1 CHECK_TSKID_less [of oid k] by (simp add: first_error_None_iff del: first_error.simps)
  note r = sync_resume [OF s t, of 0] and c = sync_sysD(5) [OF s t]
  show ?case
    using sync_sys_same_END [OF s] r c
    by (cases "state (tcb k ?t)") (auto simp: Let_def sync_tcb_def)
qed

lemma tk_slp_tsk_u_sys:
  assumes s: "sync_sys k"
  shows "sync_sys (snd (tk_slp_tsk_u tmout k))"
  unfolding tk_slp_tsk_u_def
proof (rule sync_sys_checked [OF s], goal_cases)
  case 1
  then have d: "CHECK_DISPATCH k = None" by (simp add: first_error_None_iff del: first_error.simps)
  note t = sync_self [OF s d] and c = sync_sysD(5) [OF s sync_self(2) [OF s d]]
  have "sync_sys (END_CRITICAL_SECTION (upd_tcb (self k) (\<lambda>c. c\<lparr>wupcnt := wupcnt c - 1\<rparr>) k))"
    if "0 < wupcnt (tcb k (self k))"
    by (rule sync_upd [OF s]) (use that c t in \<open>simp_all add: sync_tcb_def\<close>)
  moreover have "sync_sys (END_CRITICAL_SECTION (sleep_wait WSPEC_SLP tmout k))"
    if "\<not> 0 < wupcnt (tcb k (self k))"
    by (rule sync_sleep_wait [OF s t(2,3)]) (use that c in \<open>simp_all add: sync_tcb_def\<close>)
  ultimately show ?case using sync_sys_same_END [OF s] by (simp add: Let_def)
qed

lemma tk_wup_tsk_sys:
  assumes s: "sync_sys k"
  shows "sync_sys (snd (tk_wup_tsk oid k))"
  unfolding tk_wup_tsk_def
proof (rule sync_sys_checked [OF s], goal_cases)
  case 1
  let ?t = "get_tcb oid"
  have t: "?t < NUM_TSKID k" using 1 CHECK_TSKID_less [of oid k] by (simp add: first_error_None_iff del: first_error.simps)
  note c = sync_sysD(5) [OF s t]
  have "sync_sys (END_CRITICAL_SECTION (upd_tcb ?t (\<lambda>c. c\<lparr>wupcnt := wupcnt c + 1\<rparr>) k))"
    if "wupcnt (tcb k ?t) \<noteq> INT_MAX" "\<not> (ts_wait (state (tcb k ?t)) \<and> wspec (tcb k ?t) = WSPEC_SLP)"
    by (rule sync_upd [OF s]) (use that c in \<open>auto simp: sync_tcb_def\<close>)
  then show ?case
    using sync_sys_same_END [OF s] sync_wait_release [OF s t]
    by (auto simp: Let_def wait_release_ok_def)
qed

lemma CHECK_TSKID_SELF_less:
  assumes "sync_sys k" "CHECK_TSKID_SELF oid k = None"
  shows "get_tcb_self oid k < NUM_TSKID k"
  using assms(2) sync_sysD(4) [OF assms(1), of "self k"]
  by (auto simp: CHECK_TSKID_SELF_def CHK_TSKID_def get_tcb_self_def get_tcb_def INDEX_def NUM_TSKID_def
      in_indp_def self_def)

lemma tk_can_wup_sys:
  assumes s: "sync_sys k"
  shows "sync_sys (snd (tk_can_wup oid k))"
  unfolding tk_can_wup_def
proof (rule sync_sys_checked [OF s], goal_cases)
  case 1
  let ?t = "get_tcb_self oid k"
  have "sync_sys (END_CRITICAL_SECTION (upd_tcb ?t (\<lambda>c. c\<lparr>wupcnt := 0\<rparr>) k))"
    by (rule sync_upd [OF s]) (simp_all add: sync_tcb_def)
  then show ?case using sync_sys_same_END [OF s] by (auto simp: Let_def split: tstat.splits)
qed

lemma tk_wai_tev_u_sys:
  assumes s: "sync_sys k"
  shows "sync_sys (snd (tk_wai_tev_u waiptn tmout k))"
  unfolding tk_wai_tev_u_def
proof (rule sync_sys_checked [OF s], goal_cases)
  case 1
  then have d: "CHECK_DISPATCH k = None" by (simp add: first_error_None_iff del: first_error.simps)
  note t = sync_self [OF s d] and c = sync_sysD(5) [OF s sync_self(2) [OF s d]]
  have "sync_sys (END_CRITICAL_SECTION
      (upd_tcb (self k) (\<lambda>c. c\<lparr>tskevt := tskevt c AND NOT (ucast waiptn)\<rparr>) k))"
    by (rule sync_upd [OF s]) (use c t in \<open>simp_all add: sync_tcb_def\<close>)
  moreover have "sync_sys (END_CRITICAL_SECTION (sleep_wait (WSPEC_TEV (toTTW waiptn)) tmout k))"
    if "ucast (tskevt (tcb k (self k))) AND waiptn = 0"
    by (rule sync_sleep_wait [OF s t(2,3)])
      (use that in \<open>auto simp: toTTW_def simp flip: push_bit_and\<close>)
  ultimately show ?case using sync_sys_same_END [OF s] by (simp add: Let_def)
qed

lemma toTTW_or_ucast:
  fixes e :: UB and m :: UW
  assumes "toTTW (ucast e) AND w = 0" "w AND toTTW m = 0"
  shows "toTTW (ucast (e OR ucast m)) AND w = 0"
proof (rule bit_word_eqI)
  fix n assume "n < LENGTH(32)"
  have "\<not> (bit (toTTW (ucast e)) n \<and> bit w n)" "\<not> (bit w n \<and> bit (toTTW m) n)"
    using assms by (metis bit_and_iff bit_0_eq bot_apply bot_bool_def)+
  then show "bit (toTTW (ucast (e OR ucast m)) AND w) n = bit (0 :: UW) n"
    by (auto simp: toTTW_def bit_and_iff bit_or_iff bit_push_bit_iff bit_ucast_iff)
qed

lemma tk_sig_tev_sys:
  assumes s: "sync_sys k"
  shows "sync_sys (snd (tk_sig_tev oid ev k))"
  unfolding tk_sig_tev_def
proof (rule sync_sys_checked [OF s], goal_cases)
  case 1
  let ?t = "get_tcb_self oid k" and ?m = "push_bit (nat (ev - 1)) (1 :: UW)"
  have chk: "CHECK_TSKID_SELF oid k = None" and ev: "1 \<le> ev" "ev \<le> 8"
    using 1 by (simp_all add: first_error_None_iff CHECK_PAR_def del: first_error.simps)
  have t: "?t < NUM_TSKID k" by (rule CHECK_TSKID_SELF_less [OF s chk])
  have m: "toTTW (ucast (e OR ucast ?m)) AND w = 0"
    if "toTTW (ucast (e :: UB)) AND w = 0" "w AND toTTW ?m = 0" for e w
    by (rule toTTW_or_ucast [OF that])
  have "sync_sys (END_CRITICAL_SECTION (upd_tcb ?t (\<lambda>c. c\<lparr>tskevt := tskevt c OR ucast ?m\<rparr>) k))"
    if "\<not> (ts_wait (state (tcb k ?t)) \<and> tskwait (wspec (tcb k ?t)) AND toTTW ?m \<noteq> 0)"
    by (rule sync_upd [OF s]) (use that m in \<open>auto simp: sync_tcb_def\<close>)
  then show ?case
    using sync_sys_same_END [OF s] sync_wait_release [OF s t]
    by (auto simp: Let_def wait_release_ok_ercd_def)
qed

end
