(* ===== verification/Task_Sync_Runs.thy ===== *)
theory Task_Sync_Runs
  imports Task_Sync_Inv
begin

text \<open>
  Sequences of synchronisation calls, by any tasks: the counters of suspensions and of wakeups after
  a run are those that the results of its calls account for.
\<close>

subsection \<open>Runs of calls\<close>

datatype sync_call =
  SusTsk ID | RsmTsk ID | FrsmTsk ID | SlpTsk D | WupTsk ID | CanWup ID | WaiTev UW D | SigTev ID int

fun sync_exec :: "sync_call \<Rightarrow> kernel \<Rightarrow> int \<times> kernel" where
  "sync_exec (SusTsk oid) k = tk_sus_tsk oid k"
| "sync_exec (RsmTsk oid) k = tk_rsm_tsk oid k"
| "sync_exec (FrsmTsk oid) k = tk_frsm_tsk oid k"
| "sync_exec (SlpTsk tmout) k = tk_slp_tsk_u tmout k"
| "sync_exec (WupTsk oid) k = tk_wup_tsk oid k"
| "sync_exec (CanWup oid) k = tk_can_wup oid k"
| "sync_exec (WaiTev waiptn tmout) k = tk_wai_tev_u waiptn tmout k"
| "sync_exec (SigTev oid ev) k = tk_sig_tev oid ev k"

abbreviation sync_run :: "sync_call list \<Rightarrow> kernel \<Rightarrow> kernel" where
  "sync_run cs \<equiv> fold (\<lambda>c k. snd (sync_exec c k)) cs"

lemma sync_exec_sys: "sync_sys k \<Longrightarrow> sync_sys (snd (sync_exec c k))"
  by (cases c) (simp_all add: tk_sus_tsk_sys tk_rsm_tsk_sys tk_frsm_tsk_sys tk_slp_tsk_u_sys tk_wup_tsk_sys
      tk_can_wup_sys tk_wai_tev_u_sys tk_sig_tev_sys)

lemma sync_run_sys: "sync_sys k \<Longrightarrow> sync_sys (sync_run cs k)"
  by (induction cs arbitrary: k) (simp_all add: sync_exec_sys)

text \<open>What a call does to the number of outstanding requests to suspend a task, by its result.\<close>

definition sus_count :: "tid \<Rightarrow> sync_call \<Rightarrow> int \<Rightarrow> int \<Rightarrow> int" where
  "sus_count t c r n =
     (case c of
        SusTsk oid \<Rightarrow> if get_tcb oid = t \<and> r = E_OK then n + 1 else n
      | RsmTsk oid \<Rightarrow> if get_tcb oid = t \<and> r = E_OK then n - 1 else n
      | FrsmTsk oid \<Rightarrow> if get_tcb oid = t \<and> r = E_OK then 0 else n
      | _ \<Rightarrow> n)"

fun sus_requests :: "tid \<Rightarrow> sync_call list \<Rightarrow> kernel \<Rightarrow> int \<Rightarrow> int" where
  "sus_requests t [] k n = n"
| "sus_requests t (c # cs) k n =
     sus_requests t cs (snd (sync_exec c k)) (sus_count t c (fst (sync_exec c k)) n)"

lemma sleep_wait_suscnt [simp]:
  "suscnt (tcb (sleep_wait ws tm k) u) = suscnt (tcb k u)"
  by (simp add: sleep_wait_frame enter_wait_def Let_def split: tstat.splits)

lemma sync_exec_suscnt:
  "suscnt (tcb (snd (sync_exec c k)) t) = sus_count t c (fst (sync_exec c k)) (suscnt (tcb k t))"
proof (cases c)
  case (SusTsk oid)
  then show ?thesis
    by (auto simp: tk_sus_tsk_def checked_def sus_count_def Let_def CHECK_TSKID_def CHECK_NONSELF_def
        CHECK_def split: option.splits)
next
  case (RsmTsk oid)
  then show ?thesis
    by (auto simp: tk_rsm_tsk_def checked_def sus_count_def Let_def CHECK_TSKID_def CHECK_NONSELF_def
        CHECK_def split: option.splits tstat.splits)
next
  case (FrsmTsk oid)
  then show ?thesis
    by (auto simp: tk_frsm_tsk_def checked_def sus_count_def Let_def CHECK_TSKID_def CHECK_NONSELF_def
        CHECK_def split: option.splits tstat.splits)
next
  case (SlpTsk tmout)
  then show ?thesis
    by (auto simp: tk_slp_tsk_u_def checked_def sus_count_def Let_def split: option.splits
        simp del: sleep_wait_frame(2))
next
  case (WupTsk oid)
  then show ?thesis
    by (auto simp: tk_wup_tsk_def checked_def sus_count_def Let_def wait_release_ok_def split: option.splits)
next
  case (CanWup oid)
  then show ?thesis
    by (auto simp: tk_can_wup_def checked_def sus_count_def Let_def split: option.splits tstat.splits)
next
  case (WaiTev w tmout)
  then show ?thesis
    by (auto simp: tk_wai_tev_u_def checked_def sus_count_def Let_def split: option.splits
        simp del: sleep_wait_frame(2))
next
  case (SigTev oid ev)
  then show ?thesis
    by (auto simp: tk_sig_tev_def checked_def sus_count_def Let_def wait_release_ok_ercd_def
        split: option.splits)
qed

lemma sync_run_suscnt: "suscnt (tcb (sync_run cs k) t) = sus_requests t cs k (suscnt (tcb k t))"
  by (induction cs arbitrary: k) (simp_all add: sync_exec_suscnt del: sync_exec.simps)

text \<open>
  Wakeups: the level of a task is the number of wakeups it may still consume, minus one while it
  sleeps. A wakeup raises it, a sleep lowers it, and cancelling takes away the pending ones.
\<close>

definition sleeping :: "tid \<Rightarrow> kernel \<Rightarrow> bool" where
  "sleeping t k \<longleftrightarrow> ts_wait (state (tcb k t)) \<and> wspec (tcb k t) = WSPEC_SLP"

definition wup_level :: "tid \<Rightarrow> kernel \<Rightarrow> int" where
  "wup_level t k = wupcnt (tcb k t) - (if sleeping t k then 1 else 0)"

definition wup_effect :: "tid \<Rightarrow> sync_call \<Rightarrow> kernel \<Rightarrow> int" where
  "wup_effect t c k =
     (let (r, k') = sync_exec c k
      in case c of
           WupTsk oid \<Rightarrow> if get_tcb oid = t \<and> r = E_OK then 1 else 0
         | SlpTsk tmout \<Rightarrow>
             if ctxtsk k = Some t \<and> (r = E_OK \<or> r = E_TMOUT \<and> sleeping t k') then -1 else 0
         | CanWup oid \<Rightarrow> if get_tcb_self oid k = t \<and> 0 \<le> r then - r else 0
         | _ \<Rightarrow> 0)"

fun wup_balance :: "tid \<Rightarrow> sync_call list \<Rightarrow> kernel \<Rightarrow> int" where
  "wup_balance t [] k = 0"
| "wup_balance t (c # cs) k = wup_effect t c k + wup_balance t cs (snd (sync_exec c k))"

text \<open>Calls that neither wake up nor sleep.\<close>

lemma wup_level_cong:
  assumes "wupcnt (tcb k' t) = wupcnt (tcb k t)" "sleeping t k' = sleeping t k"
  shows "wup_level t k' = wup_level t k"
  using assms by (simp add: wup_level_def)

lemma sleep_wait_wupcnt [simp]:
  "wupcnt (tcb (sleep_wait ws tm k) u) = wupcnt (tcb k u)"
  by (simp add: sleep_wait_frame enter_wait_def Let_def split: tstat.splits)

lemma sleep_wait_wspec:
  "wspec (tcb (sleep_wait ws tm k) u) = (if u = self k then ws else wspec (tcb k u))"
  by (simp add: sleep_wait_frame enter_wait_def Let_def split: tstat.splits)

lemma wup_level_sus: "wup_level t (snd (tk_sus_tsk oid k)) = wup_level t k"
  by (rule wup_level_cong)
    (auto simp: tk_sus_tsk_def checked_def sleeping_def Let_def ts_wait_iff split: option.splits)

lemma wup_level_rsm: "wup_level t (snd (tk_rsm_tsk oid k)) = wup_level t k"
  by (rule wup_level_cong)
    (auto simp: tk_rsm_tsk_def checked_def sleeping_def Let_def ts_wait_iff split: option.splits tstat.splits)

lemma wup_level_frsm: "wup_level t (snd (tk_frsm_tsk oid k)) = wup_level t k"
  by (rule wup_level_cong)
    (auto simp: tk_frsm_tsk_def checked_def sleeping_def Let_def ts_wait_iff split: option.splits tstat.splits)

lemma wup_level_slp:
  assumes s: "sync_sys k" and t: "t < NUM_TSKID k"
  shows "wup_level t (snd (tk_slp_tsk_u tmout k)) = wup_level t k + wup_effect t (SlpTsk tmout) k"
proof (cases "first_error [CHECK_TMOUT tmout, CHECK_DISPATCH k]")
  case (Some e)
  then have "e \<noteq> E_OK" "e \<noteq> E_TMOUT"
    by (auto simp: CHECK_TMOUT_def CHECK_DISPATCH_def CHECK_def split: if_splits)
  with Some show ?thesis by (simp add: wup_effect_def tk_slp_tsk_u_def checked_def)
next
  case None
  then have d: "CHECK_DISPATCH k = None" by (simp add: first_error_None_iff del: first_error.simps)
  note self = sync_self [OF s d] and c = sync_sysD(5) [OF s sync_self(2) [OF s d]]
  let ?k = "END_CRITICAL_SECTION (sleep_wait WSPEC_SLP tmout k)"
  note st = sleep_wait_state(1,2,3) [OF self(3)]
  have awake: "\<not> sleeping (self k) k" using self(3) by (simp add: sleeping_def)
  have "tk_slp_tsk_u tmout k =
      (if waitmask (tcb k (self k)) AND TTW_SLP \<noteq> 0 then (E_DISWAI, END_CRITICAL_SECTION k)
       else if 0 < wupcnt (tcb k (self k))
       then (E_OK, END_CRITICAL_SECTION (upd_tcb (self k) (\<lambda>c. c\<lparr>wupcnt := wupcnt c - 1\<rparr>) k))
       else if tmout = TMO_POL then (E_TMOUT, END_CRITICAL_SECTION k) else (E_TMOUT, ?k))"
    using None by (simp add: tk_slp_tsk_u_def checked_def Let_def st)
  moreover have "sleeping u ?k \<longleftrightarrow> u = self k \<or> sleeping u k" for u
    by (simp add: sleeping_def st del: sleep_wait_frame(2))
  ultimately show ?thesis
    using awake self(1) c
    by (auto simp: wup_effect_def wup_level_def sleeping_def split: if_splits simp del: sleep_wait_frame(2))
qed

lemma wup_level_wup:
  assumes s: "sync_sys k"
  shows "wup_level t (snd (tk_wup_tsk oid k)) = wup_level t k + wup_effect t (WupTsk oid) k"
proof (cases "first_error [CHECK_TSKID oid k, CHECK_NONSELF oid k]")
  case (Some e)
  then have "e \<noteq> E_OK"
    by (auto simp: CHECK_TSKID_def CHECK_NONSELF_def CHECK_def split: if_splits)
  with Some show ?thesis by (simp add: wup_effect_def tk_wup_tsk_def checked_def)
next
  case None
  have "wup_level t (END_CRITICAL_SECTION (wait_release_ok u k)) = wup_level t k + (if u = t then 1 else 0)"
    if "sleeping u k" for u
    using that by (auto simp: wup_level_def sleeping_def wait_release_ok_def)
  with None show ?thesis
    by (auto simp: wup_effect_def tk_wup_tsk_def checked_def Let_def sleeping_def [symmetric])
       (auto simp: wup_level_def sleeping_def)
qed

lemma wup_level_can:
  assumes s: "sync_sys k" and t: "t < NUM_TSKID k"
  shows "wup_level t (snd (tk_can_wup oid k)) = wup_level t k + wup_effect t (CanWup oid) k"
proof (cases "first_error [CHECK_TSKID_SELF oid k]")
  case (Some e)
  then have "e < 0" by (auto simp: CHECK_TSKID_SELF_def CHECK_def split: if_splits)
  with Some show ?thesis by (simp add: wup_effect_def tk_can_wup_def checked_def)
next
  case None
  have "0 \<le> wupcnt (tcb k t)" using sync_sysD(5) [OF s t] by (simp add: sync_tcb_def)
  with None show ?thesis
    by (cases "state (tcb k (get_tcb_self oid k))")
      (auto simp: wup_effect_def wup_level_def sleeping_def tk_can_wup_def checked_def Let_def)
qed

lemma wup_level_wai:
  assumes s: "sync_sys k"
  shows "wup_level t (snd (tk_wai_tev_u w tmout k)) = wup_level t k"
proof (cases "first_error [CHECK_TMOUT tmout, CHECK_PAR (w AND NOT 0xFF = 0 \<and> w AND 0xFF \<noteq> 0),
    CHECK_DISPATCH k]")
  case (Some e)
  then show ?thesis by (simp add: tk_wai_tev_u_def checked_def)
next
  case None
  then have d: "CHECK_DISPATCH k = None" by (simp add: first_error_None_iff del: first_error.simps)
  note self = sync_self [OF s d] and st = sleep_wait_state(1,2) [OF sync_self(3) [OF s d]]
  show ?thesis
    by (rule wup_level_cong)
      (use None self in \<open>auto simp: tk_wai_tev_u_def checked_def Let_def sleeping_def st
        simp del: sleep_wait_frame(2)\<close>)
qed

lemma wup_level_sig:
  assumes s: "sync_sys k"
  shows "wup_level t (snd (tk_sig_tev oid ev k)) = wup_level t k"
proof (cases "first_error [CHECK_TSKID_SELF oid k, CHECK_PAR (1 \<le> ev \<and> ev \<le> 8)]")
  case (Some e)
  then show ?thesis by (simp add: tk_sig_tev_def checked_def)
next
  case None
  then have ev: "1 \<le> ev" "ev \<le> 8" by (simp_all add: first_error_None_iff CHECK_PAR_def del: first_error.simps)
  have "TTW_SLP AND toTTW m = 0" for m
    by (rule bit_word_eqI) (auto simp: toTTW_def bit_and_iff bit_push_bit_iff bit_1_iff)
  with None show ?thesis
    by (intro wup_level_cong)
      (auto simp: tk_sig_tev_def checked_def Let_def sleeping_def wait_release_ok_ercd_def)
qed

lemma wup_level_step:
  assumes "sync_sys k" "t < NUM_TSKID k"
  shows "wup_level t (snd (sync_exec c k)) = wup_level t k + wup_effect t c k"
proof (cases c)
  case (SusTsk oid) then show ?thesis by (simp add: wup_level_sus wup_effect_def split_beta)
next
  case (RsmTsk oid) then show ?thesis by (simp add: wup_level_rsm wup_effect_def split_beta)
next
  case (FrsmTsk oid) then show ?thesis by (simp add: wup_level_frsm wup_effect_def split_beta)
next
  case (SlpTsk tm) then show ?thesis using wup_level_slp [OF assms] by simp
next
  case (WupTsk oid) then show ?thesis using wup_level_wup [OF assms(1)] by simp
next
  case (CanWup oid) then show ?thesis using wup_level_can [OF assms] by simp
next
  case (WaiTev w tm) then show ?thesis by (simp add: wup_level_wai [OF assms(1)] wup_effect_def split_beta)
next
  case (SigTev oid ev) then show ?thesis by (simp add: wup_level_sig [OF assms(1)] wup_effect_def split_beta)
qed

lemma sync_exec_NUM [simp]: "NUM_TSKID (snd (sync_exec c k)) = NUM_TSKID k"
  by (cases c)
    (auto simp: tk_sus_tsk_def tk_rsm_tsk_def tk_frsm_tsk_def tk_slp_tsk_u_def tk_wup_tsk_def tk_can_wup_def
      tk_wai_tev_u_def tk_sig_tev_def checked_def Let_def wait_release_ok_def wait_release_ok_ercd_def
      objs_eqD [OF sleep_wait_frame(1)] split: option.splits tstat.splits)

lemma sync_run_NUM [simp]: "NUM_TSKID (sync_run cs k) = NUM_TSKID k"
  by (induction cs arbitrary: k) simp_all

lemma wup_level_run:
  "sync_sys k \<Longrightarrow> t < NUM_TSKID k \<Longrightarrow> wup_level t (sync_run cs k) = wup_level t k + wup_balance t cs k"
  by (induction cs arbitrary: k) (simp_all add: wup_level_step sync_exec_sys del: sync_exec.simps)

text \<open>
  Whether a task waits after a run: it begins to by a sleep or a wait for events that does not come back at
  once, and stops when a wakeup or an event it waits for is sent.
\<close>

definition wait_step :: "tid \<Rightarrow> sync_call \<Rightarrow> int \<Rightarrow> kernel \<Rightarrow> bool \<Rightarrow> bool" where
  "wait_step t c r k b \<longleftrightarrow>
     (case c of
        SlpTsk tmout \<Rightarrow> b \<or> (ctxtsk k = Some t \<and> tmout \<noteq> TMO_POL \<and> r = E_TMOUT)
      | WaiTev w tmout \<Rightarrow> b \<or> (ctxtsk k = Some t \<and> tmout \<noteq> TMO_POL \<and> r = E_TMOUT)
      | WupTsk oid \<Rightarrow> b \<and> \<not> (get_tcb oid = t \<and> r = E_OK \<and> wspec (tcb k t) = WSPEC_SLP)
      | SigTev oid ev \<Rightarrow> b \<and> \<not> (get_tcb_self oid k = t \<and> r = E_OK \<and>
          tskwait (wspec (tcb k t)) AND toTTW (push_bit (nat (ev - 1)) 1) \<noteq> 0)
      | _ \<Rightarrow> b)"

fun waits_after :: "tid \<Rightarrow> sync_call list \<Rightarrow> kernel \<Rightarrow> bool \<Rightarrow> bool" where
  "waits_after t [] k b = b"
| "waits_after t (c # cs) k b =
     waits_after t cs (snd (sync_exec c k)) (wait_step t c (fst (sync_exec c k)) k b)"

definition alive_waits :: "tid \<Rightarrow> kernel \<Rightarrow> bool \<times> bool" where
  "alive_waits t k = (task_alive (state (tcb k t)), ts_wait (state (tcb k t)))"

lemma alive_waits_suspension:
  "alive_waits t (snd (tk_sus_tsk oid k)) = alive_waits t k"
  "alive_waits t (snd (tk_rsm_tsk oid k)) = alive_waits t k"
  "alive_waits t (snd (tk_frsm_tsk oid k)) = alive_waits t k"
  "alive_waits t (snd (tk_can_wup oid k)) = alive_waits t k"
  by (auto simp: alive_waits_def tk_sus_tsk_def tk_rsm_tsk_def tk_frsm_tsk_def tk_can_wup_def checked_def Let_def
      ts_wait_iff split: option.splits tstat.splits)

lemma error_not:
  "first_error [CHECK_TMOUT tmout, CHECK_DISPATCH k] = Some e \<Longrightarrow> e \<noteq> E_TMOUT"
  "first_error [CHECK_TMOUT tmout, CHECK_PAR p, CHECK_DISPATCH k] = Some e \<Longrightarrow> e \<noteq> E_TMOUT"
  "first_error [CHECK_TSKID oid k, CHECK_NONSELF oid k] = Some e \<Longrightarrow> e \<noteq> E_OK"
  "first_error [CHECK_TSKID_SELF oid k, CHECK_PAR p] = Some e \<Longrightarrow> e \<noteq> E_OK"
  by (auto simp: CHECK_TMOUT_def CHECK_DISPATCH_def CHECK_PAR_def CHECK_TSKID_def CHECK_NONSELF_def CHECK_TSKID_SELF_def
      CHECK_def split: if_splits)

lemma alive_waits_sleep:
  assumes "state (tcb k (self k)) = TS_READY"
  shows "alive_waits t (END_CRITICAL_SECTION (sleep_wait ws tm k)) =
    (if t = self k then (True, True) else alive_waits t k)"
  by (simp add: alive_waits_def sleep_wait_state(1) [OF assms] del: sleep_wait_frame(2))

lemma alive_waits_step:
  assumes s: "sync_sys k" and t: "t < NUM_TSKID k"
  shows "alive_waits t (snd (sync_exec c k)) =
    (task_alive (state (tcb k t)), wait_step t c (fst (sync_exec c k)) k (ts_wait (state (tcb k t))))"
proof (cases c)
  case (SlpTsk tm)
  show ?thesis
  proof (cases "first_error [CHECK_TMOUT tm, CHECK_DISPATCH k]")
    case (Some e)
    with error_not(1) [OF Some] SlpTsk show ?thesis by (simp add: wait_step_def alive_waits_def tk_slp_tsk_u_def checked_def)
  next
    case None
    then have d: "CHECK_DISPATCH k = None" by (simp add: first_error_None_iff del: first_error.simps)
    note self = sync_self [OF s d]
    show ?thesis
      using None self SlpTsk by (auto simp: wait_step_def tk_slp_tsk_u_def checked_def Let_def sleep_wait_state [OF self(3)]
          alive_waits_sleep [OF self(3)] simp del: sleep_wait_frame(2) first_error.simps) (auto simp: alive_waits_def)
  qed
next
  case (WaiTev w tm)
  let ?p = "w AND NOT 0xFF = 0 \<and> w AND 0xFF \<noteq> 0"
  show ?thesis
  proof (cases "first_error [CHECK_TMOUT tm, CHECK_PAR ?p, CHECK_DISPATCH k]")
    case (Some e)
    with error_not(2) [OF Some] WaiTev show ?thesis by (simp add: wait_step_def alive_waits_def tk_wai_tev_u_def checked_def)
  next
    case None
    then have d: "CHECK_DISPATCH k = None" by (simp add: first_error_None_iff del: first_error.simps)
    note self = sync_self [OF s d]
    have "uint x \<noteq> E_TMOUT" for x :: "8 word" using uint_ge_0 [of x] by linarith
    then show ?thesis
      using None self WaiTev by (auto simp: wait_step_def tk_wai_tev_u_def checked_def Let_def sleep_wait_state [OF self(3)]
          alive_waits_sleep [OF self(3)] simp del: sleep_wait_frame(2) first_error.simps) (auto simp: alive_waits_def)
  qed
next
  case (WupTsk oid)
  show ?thesis
  proof (cases "first_error [CHECK_TSKID oid k, CHECK_NONSELF oid k]")
    case (Some e)
    with error_not(3) [OF Some] WupTsk show ?thesis by (simp add: wait_step_def alive_waits_def tk_wup_tsk_def checked_def)
  next
    case None
    with WupTsk show ?thesis
      by (auto simp: wait_step_def alive_waits_def tk_wup_tsk_def checked_def Let_def wait_release_ok_def ts_wait_iff simp del: first_error.simps)
  qed
next
  case (SigTev oid ev)
  show ?thesis
  proof (cases "first_error [CHECK_TSKID_SELF oid k, CHECK_PAR (1 \<le> ev \<and> ev \<le> 8)]")
    case (Some e)
    with error_not(4) [OF Some] SigTev show ?thesis by (simp add: wait_step_def alive_waits_def tk_sig_tev_def checked_def)
  next
    case None
    with SigTev show ?thesis
      by (auto simp: wait_step_def alive_waits_def tk_sig_tev_def checked_def Let_def wait_release_ok_ercd_def ts_wait_iff simp del: first_error.simps)
  qed
qed (simp_all add: wait_step_def alive_waits_suspension, simp_all add: alive_waits_def)

lemma alive_waits_run:
  "sync_sys k \<Longrightarrow> t < NUM_TSKID k \<Longrightarrow> alive_waits t (sync_run cs k) =
    (task_alive (state (tcb k t)), waits_after t cs k (ts_wait (state (tcb k t))))"
proof (induction cs arbitrary: k)
  case (Cons c cs)
  from alive_waits_step [OF Cons.prems, of c]
  have "task_alive (state (tcb (snd (sync_exec c k)) t)) = task_alive (state (tcb k t))"
    "ts_wait (state (tcb (snd (sync_exec c k)) t)) = wait_step t c (fst (sync_exec c k)) k (ts_wait (state (tcb k t)))"
    unfolding alive_waits_def by simp_all
  with Cons.IH [of "snd (sync_exec c k)"] Cons.prems show ?case by (simp add: sync_exec_sys del: sync_exec.simps)
qed (simp add: alive_waits_def)

subsection \<open>Properties\<close>

text \<open>
  C23: Whatever sequence of synchronisation calls tasks issue, the kernel stays consistent and the
  counters of every task stay within the range of an \<^verbatim>\<open>INT\<close>: no call overflows the suspend or the
  wakeup count or makes it negative, a task is suspended exactly while requests are counted, and a
  task sleeps or waits for events only while none of them is pending.
\<close>

theorem task_sync_counters_bounded:
  assumes "sync_sys k"
  shows "sync_sys (sync_run cs k) \<and>
    (\<forall>t < NUM_TSKID k. 0 \<le> suscnt (tcb (sync_run cs k) t) \<and> suscnt (tcb (sync_run cs k) t) \<le> INT_MAX \<and>
       0 \<le> wupcnt (tcb (sync_run cs k) t) \<and> wupcnt (tcb (sync_run cs k) t) \<le> INT_MAX) \<and>
    sync_sys (snd (tk_slp_tsk ms k)) \<and> sync_sys (snd (tk_wai_tev waiptn ms k))"
  using sync_run_sys [OF assms, of cs] sync_sysD(5) [OF sync_run_sys [OF assms, of cs]]
    tk_slp_tsk_u_sys [OF assms] tk_wai_tev_u_sys [OF assms]
  by (simp add: sync_tcb_def tk_slp_tsk_def tk_wai_tev_def)

lemma ex_state_sync_sys: "sync_sys ex_state"
proof -
  have "sync_tcb (tcb ex_state t)" for t
    by (simp add: ex_state_def ex_tcb_def sync_tcb_def)
  then show ?thesis by (simp add: sync_sys_def ex_state_kernel_ok sync_ok_def)
qed

theorem task_sync_counters_bounded_witness:
  "sync_sys ex_state \<and> sync_sys (sync_run [SusTsk 2, SusTsk 2, WupTsk 3, SlpTsk 100] ex_state)"
  using ex_state_sync_sys task_sync_counters_bounded [OF ex_state_sync_sys] by blast

text \<open>
  C24: Suspensions nest. After any sequence of calls a task has as many outstanding suspensions as requests
  to suspend it succeeded less requests to resume it, a forced resume counting as all of them. Its state
  follows: while any are outstanding it is suspended (waiting or not, as its own sleeps and wakeups leave
  it) and neither scheduled nor on a ready queue; with the last one gone it goes on with a wait that has not
  ended, and is otherwise ready and on the ready queue of its priority, and on no other.
\<close>

theorem suspension_nests:
  assumes "sync_sys k" "t < NUM_TSKID k"
    and "k' = sync_run cs k" "n = sus_requests t cs k (suscnt (tcb k t))" "w = waits_after t cs k (ts_wait (state (tcb k t)))"
  shows "suscnt (tcb k' t) = n \<and> (ts_sus (state (tcb k' t)) \<longleftrightarrow> 0 < n) \<and> (0 < n \<longrightarrow> schedtsk k' \<noteq> Some t) \<and>
    (task_alive (state (tcb k t)) \<longrightarrow>
       state (tcb k' t) = (if w then if 0 < n then TS_WAITSUS else TS_WAIT else if 0 < n then TS_SUSPEND else TS_READY) \<and>
       (\<forall>p. t \<in> set (que k' (RdyQ p)) \<longleftrightarrow> n = 0 \<and> \<not> w \<and> p = priority (tcb k' t)))"
proof -
  note s = sync_run_sys [OF assms(1), of cs, folded assms(3)]
  have N: "t < NUM_TSKID k'" using assms(2,3) by simp
  have c: "sync_tcb (tcb k' t)" by (rule sync_sysD(5) [OF s N])
  have n: "suscnt (tcb k' t) = n" using sync_run_suscnt by (simp add: assms(3,4))
  have r: "state (tcb k' t) = TS_READY" if "schedtsk k' = Some t"
    using kinv_sched(3) [OF sync_sysD(2) [OF s]] sync_sysD(2) [OF s] that by (simp add: kinv_def)
  have "state (tcb k' t) = (if w then if 0 < n then TS_WAITSUS else TS_WAIT else if 0 < n then TS_SUSPEND else TS_READY)"
    if "task_alive (state (tcb k t))"
    using alive_waits_run [OF assms(1,2), of cs] that c n
    by (cases "state (tcb k' t)") (auto simp: alive_waits_def sync_tcb_def assms(3,5))
  moreover have "t \<in> set (que k' (RdyQ p)) \<longleftrightarrow> state (tcb k' t) = TS_READY \<and> p = priority (tcb k' t)" for p
    using kinv_mem [OF sync_sysD(2) [OF s], of t "RdyQ p"] N by (auto simp: home_def split: tstat.splits)
  ultimately show ?thesis using c n r by (auto simp: sync_tcb_def)
qed



theorem suspension_nests_witness:
  "state (tcb (sync_run [SusTsk 2] ex_state) 1) = TS_SUSPEND \<and> state (tcb (sync_run [SusTsk 2, RsmTsk 2] ex_state) 1) = TS_READY \<and>
   1 \<in> set (que (sync_run [SusTsk 2, RsmTsk 2] ex_state) (RdyQ 20))"
proof -
  let ?k = "snd (tk_sus_tsk 2 ex_state)"
  have st: "state (tcb ex_state 1) = TS_READY" "suscnt (tcb ex_state 1) = 0" "priority (tcb ex_state 1) = 20" "get_tcb 2 = 1"
    by (simp_all add: ex_state_tcb get_tcb_def INDEX_def) (simp add: ex_tcb_def)
  have e: "fst (tk_sus_tsk 2 ex_state) = E_OK"
    by (simp add: tk_sus_tsk_def checked_def CHECK_TSKID_def CHK_TSKID_def CHECK_NONSELF_def Let_def
        get_tcb_def INDEX_def ex_state_tcb in_indp_def ID_of_def) (simp add: ex_tcb_def)
  note n = suspension_nests [OF ex_state_sync_sys _ refl refl refl, of 1]
  have k: "state (tcb ?k 1) = TS_SUSPEND" "schedtsk ?k \<noteq> Some 1" "suscnt (tcb ?k 1) = 1"
    using n [of "[SusTsk 2]"] e st by (simp_all add: sus_count_def wait_step_def)
  have o: "max_tskid ?k = 5" "isDI ?k = False" "isTaskIndependent ?k = False" "dispatch_disabled ?k = 0"
    "priority (tcb ?k 1) = 20"
    using st by (auto simp: tk_sus_tsk_def checked_def Let_def END_CRITICAL_SECTION_def dispatch_def split: option.splits)
  note sk = tk_sus_tsk_sys [OF ex_state_sync_sys, of 2]
  have "ctxtsk ?k = schedtsk ?k"
    using sync_sysD(1) [OF sk] o by (simp add: kernel_ok_def ctx_ok_def)
  then have "tskid (tcb ?k u) \<noteq> 2" if "ctxtsk ?k = Some u" for u
    using that k(2) sync_sysD(4) [OF sk that] kinvD(2) [OF sync_sysD(2) [OF sk]] by (auto simp: tasks_ok_def ID_of_def)
  then have "CHECK_NONSELF 2 ?k = None" by (auto simp: CHECK_NONSELF_def in_indp_def self_def)
  then have "fst (tk_rsm_tsk 2 ?k) = E_OK"
    using k(1) o(1) st by (simp add: tk_rsm_tsk_def checked_def CHECK_TSKID_def CHK_TSKID_def Let_def)
  moreover have "priority (tcb (snd (tk_rsm_tsk 2 ?k)) 1) = 20"
    using o by (auto simp: tk_rsm_tsk_def checked_def Let_def split: option.splits tstat.splits)
  ultimately show ?thesis
    using n [of "[SusTsk 2, RsmTsk 2]"] e st k by (simp add: sus_count_def wait_step_def)
qed

text \<open>
  C25: No wakeup is lost and none counts twice: over any sequence of calls the wakeups a task was
  given, less the sleeps it entered or passed and less those cancelled, are the ones it may still
  consume; it sleeps exactly when that balance is below zero.
\<close>

theorem wakeups_conserved:
  assumes "sync_sys k" "t < NUM_TSKID k"
  shows "wup_level t (sync_run cs k) = wup_level t k + wup_balance t cs k \<and>
    (sleeping t (sync_run cs k) \<longleftrightarrow> wup_level t k + wup_balance t cs k < 0) \<and>
    (\<not> sleeping t (sync_run cs k) \<longrightarrow>
       wupcnt (tcb (sync_run cs k) t) = wup_level t k + wup_balance t cs k)"
proof -
  have "sync_tcb (tcb (sync_run cs k) t)" using sync_sysD(5) [OF sync_run_sys [OF assms(1)]] assms(2) by simp
  then show ?thesis
    unfolding wup_level_run [OF assms, of cs, symmetric] by (auto simp: wup_level_def sleeping_def sync_tcb_def)
qed

theorem wakeups_conserved_witness:
  "wup_level 1 ex_state + wup_balance 1 [WupTsk 2] ex_state = 1 \<and>
   wupcnt (tcb (sync_run [WupTsk 2] ex_state) 1) = 1"
proof -
  have "fst (tk_wup_tsk 2 ex_state) = E_OK"
    by (simp add: tk_wup_tsk_def checked_def CHECK_TSKID_def CHK_TSKID_def CHECK_NONSELF_def Let_def
        get_tcb_def INDEX_def ex_state_tcb in_indp_def ID_of_def) (simp add: ex_tcb_def)
  then have "wup_level 1 ex_state + wup_balance 1 [WupTsk 2] ex_state = 1"
    by (simp add: wup_effect_def wup_level_def split_beta get_tcb_def INDEX_def sleeping_def ex_state_tcb)
       (simp add: ex_tcb_def)
  then show ?thesis
    using wakeups_conserved [OF ex_state_sync_sys, of 1 "[WupTsk 2]"] by (simp del: fold.simps wup_balance.simps)
qed

text \<open>
  Sending an event that the task waits for ends the wait, and the waiting call returns the
  pending events with the new one; otherwise the event is added to the pending ones and the task goes
  on as it was. An error has no effect on any task.
\<close>

theorem tk_sig_tev_result:
  "let t = get_tcb_self oid k; (r, k') = tk_sig_tev oid ev k; e = nat (ev - 1)
   in if r \<noteq> E_OK then tcb_table k' = tcb_table k
      else if ts_wait (state (tcb k t)) \<and> bit (tskwait (wspec (tcb k t))) (16 + e)
      then state (tcb k' t) = (if state (tcb k t) = TS_WAIT then TS_READY else TS_SUSPEND) \<and>
        wercd (tcb k' t) = uint (tskevt (tcb k t) OR push_bit e 1) \<and> tskevt (tcb k' t) = tskevt (tcb k t)
      else tcb_table k' = (tcb_table k)(t := (tcb k t)\<lparr>tskevt := tskevt (tcb k t) OR push_bit e 1\<rparr>)"
proof (cases "first_error [CHECK_TSKID_SELF oid k, CHECK_PAR (1 \<le> ev \<and> ev \<le> 8)]")
  case (Some err)
  then have "err \<noteq> E_OK" by (auto simp: CHECK_TSKID_SELF_def CHECK_PAR_def CHECK_def split: if_splits)
  with Some show ?thesis by (simp add: tk_sig_tev_def checked_def)
next
  case None
  define e where "e = nat (ev - 1)"
  from None have "1 \<le> ev" "ev \<le> 8" by (simp_all add: first_error_None_iff CHECK_PAR_def del: first_error.simps)
  then have e: "e < 8" by (simp add: e_def)
  have bit: "w AND toTTW (push_bit e 1) \<noteq> 0 \<longleftrightarrow> bit w (16 + e)" for w :: UW
  proof -
    have "w AND toTTW (push_bit e 1) = (if bit w (16 + e) then push_bit (16 + e) 1 else 0)"
      by (rule bit_word_eqI) (use e in \<open>auto simp: toTTW_def bit_and_iff bit_push_bit_iff bit_exp_iff\<close>)
    moreover have "push_bit (16 + e) (1 :: UW) \<noteq> 0" using e by (simp add: push_bit_eq_0_iff)
    ultimately show ?thesis by simp
  qed
  have w: "ucast (push_bit e (1 :: UW)) = (push_bit e 1 :: UB)"
    using e by (intro bit_word_eqI) (auto simp: bit_ucast_iff bit_push_bit_iff bit_exp_iff)
  have "uint (ucast p OR push_bit e (1 :: UW)) = uint (p OR push_bit e 1 :: UB)" for p :: UB
  proof -
    have "ucast p OR push_bit e (1 :: UW) = ucast (p OR push_bit e 1)"
      using e by (intro bit_word_eqI) (auto simp: bit_ucast_iff bit_or_iff bit_push_bit_iff bit_exp_iff)
    then show ?thesis by (simp add: uint_up_ucast is_up)
  qed
  with None w bit show ?thesis
    unfolding tk_sig_tev_def checked_def e_def [symmetric]
    by (auto simp: Let_def wait_release_ok_ercd_def)
qed


text \<open>
  Waiting for events: the errors of a bad timeout, a bad pattern and a context that may not wait
  come first and have no effect; a pending event of the pattern ends the call with all pending events
  and clears those of the pattern; otherwise a poll fails and any other call makes the task wait, on
  no queue and with its timeout running unless it waits forever.
\<close>

theorem tk_wai_tev_u_result:
  assumes "sync_sys k"
  shows "let t = self k; c = tcb k t; (r, k') = tk_wai_tev_u waiptn tmout k
    in if \<not> TMO_FEVR \<le>s tmout \<or> waiptn AND NOT 0xFF \<noteq> 0 \<or> waiptn AND 0xFF = 0 then r = E_PAR \<and> k' = k
       else if in_ddsp k then r = E_CTX \<and> k' = k
       else if waitmask c AND toTTW waiptn \<noteq> 0 then r = E_DISWAI \<and> tcb_table k' = tcb_table k
       else if ucast (tskevt c) AND waiptn \<noteq> 0
       then r = uint (tskevt c) \<and>
         tcb_table k' = (tcb_table k)(t := c\<lparr>tskevt := tskevt c AND NOT (ucast waiptn)\<rparr>)
       else if tmout = TMO_POL then r = E_TMOUT \<and> tcb_table k' = tcb_table k
       else state (tcb k' t) = TS_WAIT \<and> wspec (tcb k' t) = WSPEC_TEV (toTTW waiptn) \<and>
         (\<forall>h. t \<notin> set (que k' h)) \<and> (TskTmeb t \<in> set (timer_queue k') \<longleftrightarrow> tmout \<noteq> TMO_FEVR) \<and>
         (\<forall>u. u \<noteq> t \<longrightarrow> core (tcb k' u) = core (tcb k u) \<and> state (tcb k' u) = state (tcb k u))"
proof -
  let ?cs = "[CHECK_TMOUT tmout, CHECK_PAR (waiptn AND NOT 0xFF = 0 \<and> waiptn AND 0xFF \<noteq> 0), CHECK_DISPATCH k]"
  let ?w = "sleep_wait (WSPEC_TEV (toTTW waiptn)) tmout k"
  have wait: "state (tcb ?w (self k)) = TS_WAIT \<and> wspec (tcb ?w (self k)) = WSPEC_TEV (toTTW waiptn) \<and>
      (\<forall>h. self k \<notin> set (que ?w h)) \<and> (TskTmeb (self k) \<in> set (timer_queue ?w) \<longleftrightarrow> tmout \<noteq> TMO_FEVR) \<and>
      (\<forall>u. u \<noteq> self k \<longrightarrow> core (tcb ?w u) = core (tcb k u) \<and> state (tcb ?w u) = state (tcb k u))"
    if "CHECK_DISPATCH k = None"
  proof -
    note t = sync_self [OF assms that] and st = sleep_wait_state [OF sync_self(3) [OF assms that]]
    have kv: "kinv {} ?w" by (rule kinv_sleep_wait(1) [OF sync_sysD(2) [OF assms] t(2,3)]) simp
    have "home (tcb ?w (self k)) = None" using st(1,2) by (simp add: home_def del: sleep_wait_frame(2))
    then have "self k \<notin> set (que ?w h)" for h by (simp add: kinv_mem [OF kv])
    moreover have "TskTmeb (self k) \<in> set (timer_queue ?w) \<longleftrightarrow> tmout \<noteq> TMO_FEVR"
      using kinv_ready_no_timer [OF sync_sysD(2) [OF assms] t(3)]
      by (simp add: sleep_wait_def make_wait_def timer_insert_def enqueue_tmeb_def Let_def)
    ultimately show ?thesis using st(1,2,4) by (simp del: sleep_wait_frame(2))
  qed
  show ?thesis
  proof (cases "CHECK_DISPATCH k = None")
    case True
    then have "\<not> in_ddsp k" by (simp add: CHECK_DISPATCH_def)
    then show ?thesis
      using wait [OF True]
      by (simp add: tk_wai_tev_u_def checked_def CHECK_TMOUT_def CHECK_PAR_def CHECK_DISPATCH_def CHECK_def
          Let_def del: sleep_wait_frame(2))
  next
    case False
    then have "in_ddsp k" by (simp add: CHECK_DISPATCH_def)
    then show ?thesis
      by (simp add: tk_wai_tev_u_def checked_def CHECK_TMOUT_def CHECK_PAR_def CHECK_DISPATCH_def CHECK_def
          Let_def)
  qed
qed

theorem tk_wai_tev_u_result_witness:
  "sync_sys ex_state \<and> state (tcb (snd (tk_wai_tev_u 3 TMO_FEVR ex_state)) 0) = TS_WAIT"
proof -
  have "waitmask (tcb ex_state 0) = 0" "tskevt (tcb ex_state 0) = 0"
    by (simp_all add: ex_state_tcb) (simp_all add: ex_tcb_def)
  then show ?thesis
    using ex_state_sync_sys tk_wai_tev_u_result [OF ex_state_sync_sys, of 3 TMO_FEVR]
    by (simp add: split_beta in_ddsp_def in_indp_def Let_def)
qed

end
