(* ===== verification/Object_Pool.thy ===== *)
theory Object_Pool
  imports Prelude
begin

text \<open>
  The tables of control blocks: the free queue of a class of objects holds the indices whose control
  block has ID 0. The locale \<open>object_class\<close> is the contract of the create and delete calls of such a
  class, as the interface says it; the classes interpret it on their own calls.
\<close>

definition pool_ok :: "nat list \<Rightarrow> (nat \<Rightarrow> int) \<Rightarrow> nat \<Rightarrow> bool" where
  "pool_ok free oid n \<longleftrightarrow>
     distinct free \<and> (\<forall>i. i \<in> set free \<longleftrightarrow> i < n \<and> oid i = 0) \<and>
     (\<forall>i < n. oid i = 0 \<or> oid i = int i + 1)"

lemma pool_ok_take:
  assumes "pool_ok (i # free) oid n"
  shows "pool_ok free (oid(i := int i + 1)) n" "i < n" "oid i = 0"
  using assms by (auto simp: pool_ok_def)

lemma pool_ok_return:
  assumes "pool_ok free oid n" "i < n" "oid i \<noteq> 0"
  shows "pool_ok (free @ [i]) (oid(i := 0)) n"
  using assms by (auto simp: pool_ok_def)

lemma pool_ok_cong:
  "(\<And>i. oid' i = oid i) \<Longrightarrow> pool_ok free oid' n = pool_ok free oid n"
  by (simp add: pool_ok_def)

lemma pool_ok_live: "pool_ok free oid n \<Longrightarrow> i < n \<Longrightarrow> oid i \<noteq> 0 \<Longrightarrow> oid i = int i + 1"
  by (auto simp: pool_ok_def)

lemma pool_ok_empty_iff:
  assumes "pool_ok free oid n"
  shows "free = [] \<longleftrightarrow> (\<forall>i < n. oid i \<noteq> 0)"
proof -
  have mem: "\<And>i. i \<in> set free \<longleftrightarrow> i < n \<and> oid i = 0" using assms unfolding pool_ok_def by metis
  then show ?thesis by (cases free) (simp, metis list.set_intros(1) list.discI)
qed

text \<open>The IDs in use.\<close>

definition pool_ids :: "(nat \<Rightarrow> int) \<Rightarrow> nat \<Rightarrow> int set" where
  "pool_ids oid n = {x. \<exists>i < n. oid i = x \<and> x \<noteq> 0}"

lemma pool_ids_iff:
  assumes "pool_ok free oid n"
  shows "x \<in> pool_ids oid n \<longleftrightarrow> 1 \<le> x \<and> x \<le> int n \<and> oid (nat (x - 1)) \<noteq> 0"
proof
  assume "x \<in> pool_ids oid n"
  then obtain i where "i < n" "oid i = x" "x \<noteq> 0" by (auto simp: pool_ids_def)
  moreover from this have "x = int i + 1" using pool_ok_live [OF assms, of i] by simp
  ultimately show "1 \<le> x \<and> x \<le> int n \<and> oid (nat (x - 1)) \<noteq> 0" by auto
next
  assume x: "1 \<le> x \<and> x \<le> int n \<and> oid (nat (x - 1)) \<noteq> 0"
  then have "nat (x - 1) < n" by auto
  with x pool_ok_live [OF assms this] show "x \<in> pool_ids oid n"
    by (auto simp: pool_ids_def intro!: exI [of _ "nat (x - 1)"])
qed

lemma pool_ids_mem:
  assumes "pool_ok free oid n"
  shows "x \<in> pool_ids oid n \<longleftrightarrow> (\<exists>j < n. x = int j + 1 \<and> oid j \<noteq> 0)"
  using assms by (force simp: pool_ids_def pool_ok_def)

lemma pool_ids_upd:
  assumes "pool_ok free oid n" "i < n"
  shows "pool_ids (oid(i := int i + 1)) n = insert (int i + 1) (pool_ids oid n)"
    and "pool_ids (oid(i := 0)) n = pool_ids oid n - {int i + 1}"
proof -
  have live: "oid j = 0 \<or> oid j = int j + 1" if "j < n" for j
    using assms(1) that by (simp add: pool_ok_def)
  have mem: "x \<in> pool_ids (oid(i := c)) n \<longleftrightarrow>
      (\<exists>j < n. x = int j + 1 \<and> (if j = i then c \<noteq> 0 else oid j \<noteq> 0))" if "c = 0 \<or> c = int i + 1" for x c
  proof
    assume "x \<in> pool_ids (oid(i := c)) n"
    then obtain j where "j < n" "(oid(i := c)) j = x" "x \<noteq> 0" by (auto simp: pool_ids_def)
    then show "\<exists>j < n. x = int j + 1 \<and> (if j = i then c \<noteq> 0 else oid j \<noteq> 0)"
      using that live [of j] by (intro exI [of _ j]) (auto split: if_splits)
  next
    assume "\<exists>j < n. x = int j + 1 \<and> (if j = i then c \<noteq> 0 else oid j \<noteq> 0)"
    then obtain j where "j < n" "x = int j + 1" "if j = i then c \<noteq> 0 else oid j \<noteq> 0" by auto
    then show "x \<in> pool_ids (oid(i := c)) n"
      using that live [of j] by (auto simp: pool_ids_def split: if_splits intro!: exI [of _ j])
  qed
  show "pool_ids (oid(i := int i + 1)) n = insert (int i + 1) (pool_ids oid n)"
    using assms(2) by (auto simp: set_eq_iff mem pool_ids_mem [OF assms(1)] split: if_splits)
  show "pool_ids (oid(i := 0)) n = pool_ids oid n - {int i + 1}"
    by (auto simp: set_eq_iff mem pool_ids_mem [OF assms(1)] split: if_splits)
qed

lemma pool_ids_full_iff:
  assumes "pool_ok free oid n"
  shows "pool_ids oid n = {1..int n} \<longleftrightarrow> free = []"
proof -
  have "pool_ids oid n = {1..int n} \<longleftrightarrow> (\<forall>i < n. oid i \<noteq> 0)"
  proof
    assume all: "pool_ids oid n = {1..int n}"
    have "int i + 1 \<in> pool_ids oid n" if "i < n" for i using that by (simp add: all)
    then show "\<forall>i < n. oid i \<noteq> 0" by (auto simp: pool_ids_mem [OF assms])
  qed (auto simp: set_eq_iff pool_ids_iff [OF assms])
  then show ?thesis using pool_ok_empty_iff [OF assms] by simp
qed

subsection \<open>The contract of create and delete\<close>

locale object_class =
  fixes inv :: "'s \<Rightarrow> bool"
    and live :: "'s \<Rightarrow> int set"
    and limit :: "'s \<Rightarrow> nat"
    and create :: "'a \<Rightarrow> 's \<Rightarrow> int \<times> 's"
    and delete :: "int \<Rightarrow> 's \<Rightarrow> int \<times> 's"
    and valid :: "'a \<Rightarrow> bool"
    and full :: int
    and noexs :: "int \<Rightarrow> 's \<Rightarrow> int"
  assumes range: "inv s \<Longrightarrow> live s \<subseteq> {1..int (limit s)}"
    and inv_create: "inv s \<Longrightarrow> inv (snd (create a s))"
    and inv_delete: "inv s \<Longrightarrow> inv (snd (delete x s))"
    and limit_create: "inv s \<Longrightarrow> limit (snd (create a s)) = limit s"
    and limit_delete: "inv s \<Longrightarrow> limit (snd (delete x s)) = limit s"
    and create_new: "inv s \<Longrightarrow> valid a \<Longrightarrow> live s \<noteq> {1..int (limit s)} \<Longrightarrow>
      fst (create a s) \<in> {1..int (limit s)} - live s \<and>
      live (snd (create a s)) = insert (fst (create a s)) (live s)"
    and create_full: "inv s \<Longrightarrow> valid a \<Longrightarrow> live s = {1..int (limit s)} \<Longrightarrow>
      fst (create a s) = full \<and> live (snd (create a s)) = live s"
    and create_invalid: "inv s \<Longrightarrow> \<not> valid a \<Longrightarrow> fst (create a s) < 0 \<and> live (snd (create a s)) = live s"
    and delete_live: "inv s \<Longrightarrow> x \<in> live s \<Longrightarrow>
      fst (delete x s) = 0 \<and> live (snd (delete x s)) = live s - {x}"
    and delete_dead: "inv s \<Longrightarrow> x \<notin> live s \<Longrightarrow>
      fst (delete x s) = noexs x s \<and> live (snd (delete x s)) = live s"
    and errors: "full < 0" "inv s \<Longrightarrow> noexs x s < 0"
begin

text \<open>Creating works exactly while fewer than the limit exist.\<close>

lemma live_finite: "inv s \<Longrightarrow> finite (live s)"
  using range finite_subset by blast

lemma live_card: "inv s \<Longrightarrow> card (live s) \<le> limit s"
  using card_mono [OF _ range, of s] by simp

lemma full_iff: "inv s \<Longrightarrow> live s = {1..int (limit s)} \<longleftrightarrow> card (live s) = limit s"
  using card_subset_eq [OF _ range, of s] by auto

lemma create_ok_iff:
  assumes "inv s" "valid a"
  shows "0 < fst (create a s) \<longleftrightarrow> card (live s) < limit s"
proof (cases "live s = {1..int (limit s)}")
  case True
  then show ?thesis using create_full [OF assms] errors(1) full_iff [OF assms(1)] by simp
next
  case False
  then have "card (live s) \<noteq> limit s" using full_iff [OF assms(1)] by simp
  then show ?thesis
    using create_new [OF assms False] live_card [OF assms(1)] by auto
qed

lemma create_delete:
  assumes "inv s" "valid a" "card (live s) < limit s"
  shows "fst (delete (fst (create a s)) (snd (create a s))) = 0"
    and "live (snd (delete (fst (create a s)) (snd (create a s)))) = live s"
proof -
  have ne: "live s \<noteq> {1..int (limit s)}" using assms(3) full_iff [OF assms(1)] by auto
  note c = create_new [OF assms(1,2) ne]
  have mem: "fst (create a s) \<in> live (snd (create a s))" using c by simp
  note d = delete_live [OF inv_create [OF assms(1)] mem]
  show "fst (delete (fst (create a s)) (snd (create a s))) = 0" using d by simp
  show "live (snd (delete (fst (create a s)) (snd (create a s)))) = live s" using c d by auto
qed

text \<open>A second deletion finds nothing.\<close>

lemma delete_twice:
  assumes "inv s" "x \<in> live s"
  shows "fst (delete x (snd (delete x s))) < 0"
  using delete_live [OF assms] delete_dead [OF inv_delete [OF assms(1)], of x x]
    errors(2) [OF inv_delete [OF assms(1)]] by simp

end

end
