(* ===== verification/Semaphore.thy ===== *)
theory Semaphore
  imports Example_State Object_Pool
begin

text \<open>
  Semaphores (\<^verbatim>\<open>semaphore.c\<close>). The invariant \<open>sem_inv\<close> says that the count stays within bounds, that
  waiters are known by their wait specification, and that no wakeup is lost: whoever could be served
  next asks for more than the count.
\<close>

subsection \<open>Operations\<close>

record t_csem =
  csem_exinf :: nat
  csem_sematr :: UW
  csem_isemcnt :: int
  csem_maxsem :: int
  csem_dsname :: "UB list"

record t_rsem =
  rsem_exinf :: nat
  rsem_wtsk :: ID
  rsem_semcnt :: int

definition get_semcb :: "ID \<Rightarrow> nat" where
  "get_semcb oid = INDEX oid"

definition upd_sem :: "nat \<Rightarrow> (semcb \<Rightarrow> semcb) \<Rightarrow> kernel \<Rightarrow> kernel" where
  "upd_sem i f k = k\<lparr>semcb_table := (semcb_table k)(i := f (semcb_table k i))\<rparr>"

abbreviation sem :: "kernel \<Rightarrow> nat \<Rightarrow> semcb" where
  "sem k i \<equiv> semcb_table k i"

definition semaphore_initialize :: "int option \<Rightarrow> bool \<Rightarrow> kernel \<Rightarrow> ER \<times> kernel" where
  "semaphore_initialize tmaxsemid mem k =
     (let k = (case tmaxsemid of Some n \<Rightarrow> k\<lparr>max_semid := n\<rparr> | None \<Rightarrow> k)
      in if tmaxsemid = None \<or> max_semid k < 1 then (E_SYS, k)
      else if \<not> mem then (E_NOMEM, k)
      else
        let k = k\<lparr>free_semcb := []\<rparr>;
            k = fold (\<lambda>i k.
                  let k = upd_sem i (\<lambda>c. c\<lparr>semid := 0\<rparr>) k
                  in k\<lparr>free_semcb := free_semcb k @ [i]\<rparr>)
                [0..<nat (max_semid k)] k
        in (E_OK, k))"

text \<open>
  The loops step through the queue as it was on entry: the link of an entry is read before the entry
  leaves, and a release takes no other entry off the queue.
\<close>

fun sem_release_loop :: "nat \<Rightarrow> tid list \<Rightarrow> kernel \<Rightarrow> kernel" where
  "sem_release_loop i [] k = k"
| "sem_release_loop i (u # ts) k =
     (if semcnt (sem k i) < sem_cnt (winfo (tcb k u)) then k
      else
        let k = wait_release_ok u k;
            k = upd_sem i (\<lambda>c. c\<lparr>semcnt := semcnt c - sem_cnt (winfo (tcb k u))\<rparr>) k
        in sem_release_loop i ts k)"

definition sem_chg_pri :: "tid \<Rightarrow> int \<Rightarrow> kernel \<Rightarrow> kernel option" where
  "sem_chg_pri t oldpri k =
     (let i = get_semcb (wid (tcb k t));
          k = (if 0 \<le> oldpri then gcb_change_priority (SemQ i) t k else k)
      in if sematr (sem k i) AND TA_CNT \<noteq> 0 then Some k
         else Some (sem_release_loop i (que k (SemQ i)) k))"

definition sem_rel_wai :: "tid \<Rightarrow> kernel \<Rightarrow> kernel option" where
  "sem_rel_wai t k = sem_chg_pri t (-1) k"

definition VALID_SEMATR :: UW where
  "VALID_SEMATR = TA_TPRI OR TA_CNT OR TA_NODISWAI OR TA_DSNAME"

definition tk_cre_sem :: "t_csem \<Rightarrow> kernel \<Rightarrow> ER \<times> kernel" where
  "tk_cre_sem pk k =
     checked
       [CHECK_RSATR (csem_sematr pk) VALID_SEMATR,
        CHECK_PAR (0 \<le> csem_isemcnt pk),
        CHECK_PAR (0 < csem_maxsem pk),
        CHECK_PAR (csem_isemcnt pk \<le> csem_maxsem pk)] k
       (case free_semcb k of
          [] \<Rightarrow> (E_LIMIT, END_CRITICAL_SECTION k)
        | i # rest \<Rightarrow>
            let k = k\<lparr>free_semcb := rest\<rparr>;
                k = k\<lparr>que := QueInit (SemQ i) (que k)\<rparr>;
                k = upd_sem i (\<lambda>c. c\<lparr>semid := ID_of i, sem_exinf := csem_exinf pk,
                      sematr := csem_sematr pk, semcnt := csem_isemcnt pk, maxsem := csem_maxsem pk\<rparr>) k;
                k = (if csem_sematr pk AND TA_DSNAME \<noteq> 0
                     then upd_sem i (\<lambda>c. c\<lparr>sem_name := strncpy (csem_dsname pk) 8\<rparr>) k else k)
            in (ID_of i, END_CRITICAL_SECTION k))"

definition tk_del_sem :: "ID \<Rightarrow> kernel \<Rightarrow> ER \<times> kernel" where
  "tk_del_sem oid k =
     checked [CHECK_SEMID oid k] k
       (let i = get_semcb oid
        in if semid (sem k i) = 0 then (E_NOEXS, END_CRITICAL_SECTION k)
           else
             let k = wait_delete (SemQ i) k;
                 k = k\<lparr>free_semcb := free_semcb k @ [i]\<rparr>;
                 k = upd_sem i (\<lambda>c. c\<lparr>semid := 0\<rparr>) k
             in (E_OK, END_CRITICAL_SECTION k))"

fun sem_signal_loop :: "nat \<Rightarrow> tid list \<Rightarrow> kernel \<Rightarrow> kernel" where
  "sem_signal_loop i [] k = k"
| "sem_signal_loop i (t # ts) k =
     (if semcnt (sem k i) < sem_cnt (winfo (tcb k t)) then
        if sematr (sem k i) AND TA_CNT = 0 then k else sem_signal_loop i ts k
      else
        let k = wait_release_ok t k;
            k = upd_sem i (\<lambda>c. c\<lparr>semcnt := semcnt c - sem_cnt (winfo (tcb k t))\<rparr>) k
        in if semcnt (sem k i) \<le> 0 then k else sem_signal_loop i ts k)"

definition tk_sig_sem :: "ID \<Rightarrow> int \<Rightarrow> kernel \<Rightarrow> ER \<times> kernel" where
  "tk_sig_sem oid cnt k =
     checked [CHECK_SEMID oid k, CHECK_PAR (0 < cnt)] k
       (let i = get_semcb oid
        in if semid (sem k i) = 0 then (E_NOEXS, END_CRITICAL_SECTION k)
           else if maxsem (sem k i) - semcnt (sem k i) < cnt then (E_QOVR, END_CRITICAL_SECTION k)
           else
             let k = upd_sem i (\<lambda>c. c\<lparr>semcnt := semcnt c + cnt\<rparr>) k
             in (E_OK, END_CRITICAL_SECTION (sem_signal_loop i (que k (SemQ i)) k)))"

text \<open>
  The result of a call that waits is what \<^verbatim>\<open>*wercd\<close> holds when the task runs again; the value given
  here is the one on entry to the wait, \<open>E_TMOUT\<close>.
\<close>

definition tk_wai_sem_u :: "ID \<Rightarrow> int \<Rightarrow> D \<Rightarrow> kernel \<Rightarrow> ER \<times> kernel" where
  "tk_wai_sem_u oid cnt tmout k =
     checked [CHECK_SEMID oid k, CHECK_PAR (0 < cnt), CHECK_TMOUT tmout, CHECK_DISPATCH k] k
       (let i = get_semcb oid; t = self k; c = sem k i
        in if semid c = 0 then (E_NOEXS, END_CRITICAL_SECTION k)
           else if maxsem c < cnt then (E_PAR, END_CRITICAL_SECTION k)
           else if is_diswai (sematr c) (tcb k t) TTW_SEM then (E_DISWAI, END_CRITICAL_SECTION k)
           else if (sematr c AND TA_CNT \<noteq> 0 \<or> gcb_top_of_wait_queue (SemQ i) (sematr c) t k = t)
                \<and> cnt \<le> semcnt c
           then (E_OK, END_CRITICAL_SECTION (upd_sem i (\<lambda>c. c\<lparr>semcnt := semcnt c - cnt\<rparr>) k))
           else
             let k = upd_tcb t (\<lambda>tc. tc\<lparr>wspec := (if sematr c AND TA_TPRI \<noteq> 0 then WSPEC_SEM_TPRI
                                                     else WSPEC_SEM_TFIFO),
                                        wercd := E_OK, winfo := WINFO_SEM cnt\<rparr>) k;
                 k = gcb_make_wait_with_diswai (SemQ i) (semid c) (sematr c) tmout k
             in (wercd (tcb k t), END_CRITICAL_SECTION k))"

definition tk_wai_sem :: "ID \<Rightarrow> int \<Rightarrow> UW \<Rightarrow> kernel \<Rightarrow> ER \<times> kernel" where
  "tk_wai_sem oid cnt tmout k = tk_wai_sem_u oid cnt (to_usec_tmo tmout) k"

definition sem_info :: "nat \<Rightarrow> kernel \<Rightarrow> t_rsem" where
  "sem_info i k = \<lparr>rsem_exinf = sem_exinf (sem k i), rsem_wtsk = wait_tskid (SemQ i) k,
     rsem_semcnt = semcnt (sem k i)\<rparr>"

definition tk_ref_sem :: "ID \<Rightarrow> kernel \<Rightarrow> (ER \<times> t_rsem option) \<times> kernel" where
  "tk_ref_sem oid k =
     (case CHECK_SEMID oid k of
        Some e \<Rightarrow> ((e, None), k)
      | None \<Rightarrow>
          let i = get_semcb oid
          in (if semid (sem k i) = 0 then (E_NOEXS, None) else (E_OK, Some (sem_info i k)),
              END_CRITICAL_SECTION k))"

definition semaphore_getname :: "ID \<Rightarrow> kernel \<Rightarrow> ER \<times> UB list option" where
  "semaphore_getname oid k =
     (case CHECK_SEMID oid k of
        Some e \<Rightarrow> (e, None)
      | None \<Rightarrow>
          let i = get_semcb oid
          in if semid (sem k i) = 0 then (E_NOEXS, None)
             else if sematr (sem k i) AND TA_DSNAME = 0 then (E_OBJ, None)
             else (E_OK, Some (sem_name (sem k i))))"

definition td_lst_sem :: "int \<Rightarrow> kernel \<Rightarrow> int \<times> ID list" where
  "td_lst_sem nent k =
     id_list (filter (\<lambda>oid. oid \<noteq> 0) (map (\<lambda>i. semid (sem k i)) [0..<nat (max_semid k)])) nent"

definition td_ref_sem :: "ID \<Rightarrow> kernel \<Rightarrow> ER \<times> t_rsem option" where
  "td_ref_sem oid k =
     (case CHECK_SEMID oid k of
        Some e \<Rightarrow> (e, None)
      | None \<Rightarrow>
          let i = get_semcb oid
          in if semid (sem k i) = 0 then (E_NOEXS, None) else (E_OK, Some (sem_info i k)))"

definition td_sem_que :: "ID \<Rightarrow> int \<Rightarrow> kernel \<Rightarrow> int \<times> ID list" where
  "td_sem_que oid nent k =
     (case CHECK_SEMID oid k of
        Some e \<Rightarrow> (e, [])
      | None \<Rightarrow>
          let i = get_semcb oid
          in if semid (sem k i) = 0 then (E_NOEXS, []) else que_ids (que k (SemQ i)) nent k)"

subsection \<open>Serving the waiters: the abstract view\<close>

text \<open>
  \<open>serve skip w c ts\<close> serves the waiters \<open>ts\<close>, in order, from the count \<open>c\<close>; \<open>w t\<close> is what \<open>t\<close> asks
  for. A waiter who asks too much is passed over if \<open>skip\<close> holds (\<^verbatim>\<open>TA_CNT\<close>), else he blocks the
  others (\<^verbatim>\<open>TA_FIRST\<close>). The result is the remaining count and the waiters served.
\<close>

fun serve :: "bool \<Rightarrow> ('t \<Rightarrow> int) \<Rightarrow> int \<Rightarrow> 't list \<Rightarrow> int \<times> 't list" where
  "serve skip w c [] = (c, [])"
| "serve skip w c (t # ts) =
     (if c < w t then if skip then serve skip w c ts else (c, [])
      else let (c', rs) = serve skip w (c - w t) ts in (c', t # rs))"

lemma serve_set: "set (snd (serve skip w c ts)) \<subseteq> set ts"
  by (induction skip w c ts rule: serve.induct) (auto simp: split_beta Let_def)

lemma serve_distinct: "distinct ts \<Longrightarrow> distinct (snd (serve skip w c ts))"
proof (induction ts arbitrary: c)
  case (Cons a ts)
  then show ?case using serve_set [of skip w "c - w a" ts] by (auto simp: split_beta Let_def)
qed simp

lemma serve_exhausted:
  "c \<le> 0 \<Longrightarrow> (\<And>t. t \<in> set ts \<Longrightarrow> 0 < w t) \<Longrightarrow> serve skip w c ts = (c, [])"
  by (induction ts) fastforce+

lemma serve_count: "fst (serve skip w c ts) = c - sum_list (map w (snd (serve skip w c ts)))"
  by (induction skip w c ts rule: serve.induct) (auto simp: split_beta Let_def)

lemma serve_nonneg: "0 \<le> c \<Longrightarrow> 0 \<le> fst (serve skip w c ts)"
  by (induction skip w c ts rule: serve.induct) (auto simp: split_beta Let_def)

lemma serve_le: "(\<And>t. t \<in> set ts \<Longrightarrow> 0 < w t) \<Longrightarrow> fst (serve skip w c ts) \<le> c"
proof (induction ts arbitrary: c)
  case (Cons a ts)
  then have "fst (serve skip w c ts) \<le> c" "fst (serve skip w (c - w a) ts) \<le> c - w a" "0 < w a"
    by simp_all
  then show ?case by (cases skip) (simp_all add: split_beta Let_def)
qed simp

text \<open>Nobody is left waiting who could be served.\<close>

lemma serve_skip_rest:
  "(\<And>t. t \<in> set ts \<Longrightarrow> 0 < w t) \<Longrightarrow> t \<in> set ts \<Longrightarrow> t \<notin> set (snd (serve True w c ts)) \<Longrightarrow>
   fst (serve True w c ts) < w t"
proof (induction ts arbitrary: c)
  case (Cons a ts)
  note le = serve_le [of ts w True]
  show ?case
  proof (cases "c < w a")
    case True
    with Cons show ?thesis using le [of c] by fastforce
  next
    case False
    with Cons show ?thesis by (auto simp: split_beta Let_def)
  qed
qed simp

lemma serve_first_prefix:
  "\<exists>rest. ts = snd (serve False w c ts) @ rest \<and> (rest \<noteq> [] \<longrightarrow> fst (serve False w c ts) < w (hd rest))"
  by (induction ts arbitrary: c) (auto simp: split_beta Let_def)

lemma serve_first_rest:
  assumes "distinct ts" "filter (\<lambda>u. u \<notin> set (snd (serve False w c ts))) ts = t # rest"
  shows "fst (serve False w c ts) < w t"
proof -
  let ?r = "snd (serve False w c ts)"
  obtain rest' where r: "ts = ?r @ rest'" "rest' \<noteq> [] \<longrightarrow> fst (serve False w c ts) < w (hd rest')"
    using serve_first_prefix by blast
  have "filter (\<lambda>u. u \<notin> set ?r) ts = filter (\<lambda>u. u \<notin> set ?r) (?r @ rest')" using r(1) by simp
  also have "\<dots> = rest'"
  proof -
    have "set ?r \<inter> set rest' = {}" using assms(1) r(1) by (metis distinct_append)
    then show ?thesis by (auto simp: filter_id_conv)
  qed
  finally show ?thesis using assms(2) r(2) by auto
qed

lemma serve_cong: "(\<And>t. t \<in> set ts \<Longrightarrow> w t = w' t) \<Longrightarrow> serve skip w c ts = serve skip w' c ts"
  by (induction skip w c ts rule: serve.induct) auto

text \<open>The loops of the code do what \<open>serve\<close> says.\<close>

definition sem_want :: "kernel \<Rightarrow> tid \<Rightarrow> int" where
  "sem_want k t = sem_cnt (winfo (tcb k t))"

lemma upd_sem_frame [simp]:
  "objs (upd_sem i f k) = upd_sem i f (objs k)" "tcb_table (upd_sem i f k) = tcb_table k"
  "que (upd_sem i f k) = que k" "semcb_table (upd_sem i f k) = (semcb_table k)(i := f (sem k i))"
  "timer_queue (upd_sem i f k) = timer_queue k" "ctxtsk (upd_sem i f k) = ctxtsk k"
  "NUM_TSKID (upd_sem i f k) = NUM_TSKID k" "max_semid (upd_sem i f k) = max_semid k"
  "free_semcb (upd_sem i f k) = free_semcb k" "schedtsk (upd_sem i f k) = schedtsk k"
  "self (upd_sem i f k) = self k" "tmebs (upd_sem i f k) = tmebs k"
  by (simp_all add: upd_sem_def objs_def NUM_TSKID_def self_def)

lemma kinv_upd_sem [intro]: "kinv X k \<Longrightarrow> kinv X (upd_sem i f k)"
  by (erule kinv_objs_cong) (simp_all add: upd_sem_def NUM_TSKID_def)

lemma released_ok:
  assumes "kinv {} k" "t < NUM_TSKID k" "ts_wait (state (tcb k t))"
  shows "released {t} E_OK k (upd_sem i f (wait_release_ok t k))"
  by (rule released_cong [OF released_single [OF assms]])
     (use kinv_set_wercd [OF kinv_wait_release(1) [OF assms]] in
       \<open>auto simp: wait_release_ok_def simp flip: set_wercd_def\<close>)

lemma released_want: "released T e k k' \<Longrightarrow> sem_want k' t = sem_want k t"
  using core_eqD(13) [OF releasedD(6)] by (simp add: sem_want_def)

text \<open>One round of either loop.\<close>

lemma sem_round:
  assumes inv: "kinv {} k" and t: "t \<in> set (que k (SemQ i))"
    and k': "k' = upd_sem i (\<lambda>c. c\<lparr>semcnt := semcnt c - sem_cnt (winfo (tcb (wait_release_ok t k) t))\<rparr>)
      (wait_release_ok t k)"
  shows "released {t} E_OK k k'"
    and "objs k' = objs (upd_sem i (\<lambda>c. c\<lparr>semcnt := semcnt c - sem_want k t\<rparr>) k)"
proof -
  have w: "t < NUM_TSKID k" "ts_wait (state (tcb k t))" using kinv_waiter [OF inv t] by simp_all
  show "released {t} E_OK k k'" unfolding k' by (rule released_ok [OF inv w])
  show "objs k' = objs (upd_sem i (\<lambda>c. c\<lparr>semcnt := semcnt c - sem_want k t\<rparr>) k)"
    unfolding k' by (simp add: sem_want_def wait_release_ok_def)
qed

lemma upd_sem_upd_sem [simp]: "upd_sem i f (upd_sem i g k) = upd_sem i (f \<circ> g) k"
  by (simp add: upd_sem_def)

lemma upd_sem_objs_cong:
  assumes "objs k' = objs k"
  shows "objs (upd_sem i f k') = objs (upd_sem i f k)"
  using assms by simp

text \<open>
  \<open>served i skip ts k k'\<close>: of the waiters \<open>ts\<close> of semaphore \<open>i\<close> those that \<open>serve\<close> picks have been
  released with \<open>E_OK\<close>, and the count has gone down by what they asked for.
\<close>

definition served :: "nat \<Rightarrow> bool \<Rightarrow> tid list \<Rightarrow> kernel \<Rightarrow> kernel \<Rightarrow> bool" where
  "served i skip ts k k' \<longleftrightarrow>
     (let (c, rs) = serve skip (sem_want k) (semcnt (sem k i)) ts
      in released (set rs) E_OK k k' \<and> objs k' = objs (upd_sem i (\<lambda>s. s\<lparr>semcnt := c\<rparr>) k))"

lemma served_refl:
  assumes "kinv {} k" "serve skip (sem_want k) (semcnt (sem k i)) ts = (semcnt (sem k i), [])"
  shows "served i skip ts k k"
proof -
  have "upd_sem i (\<lambda>s. s\<lparr>semcnt := semcnt (sem k i)\<rparr>) k = k" by (simp add: upd_sem_def)
  then show ?thesis using assms
    by (simp add: served_def Let_def released_refl del: upd_sem_frame)
qed

lemma served_round:
  assumes inv: "kinv {} k" and t: "t \<in> set (que k (SemQ i))" and enough: "sem_want k t \<le> semcnt (sem k i)"
    and k': "k' = upd_sem i (\<lambda>c. c\<lparr>semcnt := semcnt c - sem_cnt (winfo (tcb (wait_release_ok t k) t))\<rparr>)
      (wait_release_ok t k)"
    and rest: "served i skip ts k' k''"
  shows "served i skip (t # ts) k k''"
proof -
  note r = sem_round [OF inv t k']
  have s: "sem k' i = (sem k i)\<lparr>semcnt := semcnt (sem k i) - sem_want k t\<rparr>"
    using objs_eqD(17) [OF r(2)] by simp
  have w: "sem_want k' = sem_want k" using released_want [OF r(1)] by (simp add: fun_eq_iff)
  obtain c rs where sv: "serve skip (sem_want k) (semcnt (sem k i) - sem_want k t) ts = (c, rs)"
    by fastforce
  have rel: "released (set rs) E_OK k' k''"
    and ob: "objs k'' = objs (upd_sem i (\<lambda>s. s\<lparr>semcnt := c\<rparr>) k')"
    using rest by (simp_all add: served_def s w sv Let_def)
  have "released ({t} \<union> set rs) E_OK k k''" by (rule released_trans [OF r(1) rel])
  moreover have "objs k'' = objs (upd_sem i (\<lambda>s. s\<lparr>semcnt := c\<rparr>) k)"
    using ob upd_sem_objs_cong [OF r(2), of i "\<lambda>s. s\<lparr>semcnt := c\<rparr>"] by (simp add: comp_def)
  ultimately show ?thesis using enough by (simp add: served_def sv Let_def)
qed

lemma sem_release_loop_served:
  assumes "kinv {} k" "set ts \<subseteq> set (que k (SemQ i))" "distinct ts"
  shows "served i False ts k (sem_release_loop i ts k)"
  using assms
proof (induction ts arbitrary: k)
  case Nil
  then show ?case by (simp add: served_refl)
next
  case (Cons t ts)
  show ?case
  proof (cases "semcnt (sem k i) < sem_want k t")
    case True
    then show ?thesis using Cons.prems by (simp add: served_refl) (simp add: sem_want_def)
  next
    case False
    let ?k = "upd_sem i (\<lambda>c. c\<lparr>semcnt := semcnt c - sem_cnt (winfo (tcb (wait_release_ok t k) t))\<rparr>)
      (wait_release_ok t k)"
    have t: "t \<in> set (que k (SemQ i))" using Cons.prems by simp
    note r = sem_round [OF Cons.prems(1) t refl]
    have "set ts \<subseteq> set (que ?k (SemQ i))"
      using Cons.prems releasedD(9) [OF r(1), of "SemQ i"] by auto
    then have "served i False ts ?k (sem_release_loop i ts ?k)"
      using Cons.IH [of ?k] releasedD(1) [OF r(1)] Cons.prems by simp
    from served_round [OF Cons.prems(1) t _ refl this] False show ?thesis
      by (simp add: sem_want_def Let_def)
  qed
qed

lemma sem_signal_loop_served:
  assumes "kinv {} k" "set ts \<subseteq> set (que k (SemQ i))" "distinct ts"
    and "\<And>t. t \<in> set ts \<Longrightarrow> 0 < sem_want k t" and "skip \<longleftrightarrow> sematr (sem k i) AND TA_CNT \<noteq> 0"
  shows "served i skip ts k (sem_signal_loop i ts k)"
  using assms
proof (induction ts arbitrary: k)
  case Nil
  then show ?case by (simp add: served_refl)
next
  case (Cons t ts)
  show ?case
  proof (cases "semcnt (sem k i) < sem_want k t")
    case True
    show ?thesis
    proof (cases skip)
      case sk: True
      then have "served i skip ts k (sem_signal_loop i ts k)"
        using Cons.prems by (intro Cons.IH) auto
      then have "served i skip (t # ts) k (sem_signal_loop i ts k)"
        using True sk by (simp add: served_def)
      with True sk Cons.prems(5) show ?thesis by (simp add: sem_want_def)
    next
      case False
      with True Cons.prems show ?thesis by (simp add: served_refl) (simp add: sem_want_def)
    qed
  next
    case False
    let ?k = "upd_sem i (\<lambda>c. c\<lparr>semcnt := semcnt c - sem_cnt (winfo (tcb (wait_release_ok t k) t))\<rparr>)
      (wait_release_ok t k)"
    have t: "t \<in> set (que k (SemQ i))" using Cons.prems by simp
    note r = sem_round [OF Cons.prems(1) t refl]
    have k: "kinv {} ?k" by (rule releasedD(1) [OF r(1)])
    have pos: "0 < sem_want ?k u" if "u \<in> set ts" for u
      using Cons.prems(4) [of u] that released_want [OF r(1)] by simp
    have "served i skip ts ?k (if semcnt (sem ?k i) \<le> 0 then ?k else sem_signal_loop i ts ?k)"
    proof (cases "semcnt (sem ?k i) \<le> 0")
      case True
      then show ?thesis
        using serve_exhausted [OF True, of ts "sem_want ?k"] pos k by (simp add: served_refl del: upd_sem_frame)
    next
      case False
      have "set ts \<subseteq> set (que ?k (SemQ i))"
        using Cons.prems releasedD(9) [OF r(1), of "SemQ i"] by auto
      then have "served i skip ts ?k (sem_signal_loop i ts ?k)"
        using k pos Cons.prems(3,5) by (intro Cons.IH) simp_all
      with False show ?thesis by (simp del: upd_sem_frame)
    qed
    from served_round [OF Cons.prems(1) t _ refl this] False show ?thesis
      by (simp add: sem_want_def Let_def)
  qed
qed

subsection \<open>The invariant of semaphores\<close>

definition sem_wspec :: "UW \<Rightarrow> wspec" where
  "sem_wspec atr = (if atr AND TA_TPRI \<noteq> 0 then WSPEC_SEM_TPRI else WSPEC_SEM_TFIFO)"

definition sem_wf :: "nat \<Rightarrow> kernel \<Rightarrow> bool" where
  "sem_wf i k \<longleftrightarrow>
     0 \<le> semcnt (sem k i) \<and> semcnt (sem k i) \<le> maxsem (sem k i) \<and>
     (\<forall>t \<in> set (que k (SemQ i)).
        0 < sem_want k t \<and> sem_want k t \<le> maxsem (sem k i) \<and>
        wid (tcb k t) = semid (sem k i) \<and> wspec (tcb k t) = sem_wspec (sematr (sem k i)))"

definition sem_sorted :: "nat \<Rightarrow> kernel \<Rightarrow> bool" where
  "sem_sorted i k \<longleftrightarrow>
     (sematr (sem k i) AND TA_TPRI \<noteq> 0 \<longrightarrow> sorted (map (\<lambda>t. priority (tcb k t)) (que k (SemQ i))))"

text \<open>No lost wakeup: whoever is to be served next asks for more than there is.\<close>

definition sem_blocked :: "nat \<Rightarrow> kernel \<Rightarrow> bool" where
  "sem_blocked i k \<longleftrightarrow>
     (if sematr (sem k i) AND TA_CNT \<noteq> 0
      then \<forall>t \<in> set (que k (SemQ i)). semcnt (sem k i) < sem_want k t
      else que k (SemQ i) \<noteq> [] \<longrightarrow> semcnt (sem k i) < sem_want k (hd (que k (SemQ i))))"

definition sem_ok :: "nat \<Rightarrow> kernel \<Rightarrow> bool" where
  "sem_ok i k \<longleftrightarrow>
     (if semid (sem k i) = 0 then que k (SemQ i) = []
      else sem_wf i k \<and> sem_sorted i k \<and> sem_blocked i k)"

definition sem_inv :: "kernel \<Rightarrow> bool" where
  "sem_inv k \<longleftrightarrow>
     pool_ok (free_semcb k) (\<lambda>i. semid (sem k i)) (nat (max_semid k)) \<and>
     (\<forall>i < nat (max_semid k). sem_ok i k)"

lemmas sem_ok_defs = sem_ok_def sem_wf_def sem_sorted_def sem_blocked_def sem_want_def

lemma sem_ok_cong:
  assumes "sem k' i = sem k i" "que k' (SemQ i) = que k (SemQ i)"
    "\<And>t. t \<in> set (que k (SemQ i)) \<Longrightarrow> winfo (tcb k' t) = winfo (tcb k t) \<and> wid (tcb k' t) = wid (tcb k t) \<and>
      wspec (tcb k' t) = wspec (tcb k t) \<and> priority (tcb k' t) = priority (tcb k t)"
  shows "sem_ok i k' = sem_ok i k"
  using assms(3) sorted_map_cong [of "que k (SemQ i)" "\<lambda>t. priority (tcb k' t)" "\<lambda>t. priority (tcb k t)"]
  unfolding sem_ok_defs assms(1,2) by (cases "que k (SemQ i)") auto

lemma sem_inv_cong:
  assumes "\<And>i. sem k' i = sem k i" "\<And>i. que k' (SemQ i) = que k (SemQ i)"
    "free_semcb k' = free_semcb k" "max_semid k' = max_semid k"
    "\<And>i t. t \<in> set (que k (SemQ i)) \<Longrightarrow> winfo (tcb k' t) = winfo (tcb k t) \<and> wid (tcb k' t) = wid (tcb k t) \<and>
      wspec (tcb k' t) = wspec (tcb k t) \<and> priority (tcb k' t) = priority (tcb k t)"
  shows "sem_inv k' = sem_inv k"
  using sem_ok_cong [of k' _ k] assms by (simp add: sem_inv_def)

lemma served_parts:
  assumes "served i skip ts k k'"
  shows "released (set (snd (serve skip (sem_want k) (semcnt (sem k i)) ts))) E_OK k k'"
    and "objs k' = objs (upd_sem i (\<lambda>s. s\<lparr>semcnt := fst (serve skip (sem_want k) (semcnt (sem k i)) ts)\<rparr>) k)"
  using assms by (simp_all add: served_def split_beta Let_def)

lemma served_kinv: "served i skip ts k k' \<Longrightarrow> kinv {} k'"
  by (rule releasedD(1) [OF served_parts(1)])

lemma served_sem:
  assumes "served i skip ts k k'"
  shows "sem k' j = (if j = i then (sem k i)\<lparr>semcnt := fst (serve skip (sem_want k) (semcnt (sem k i)) ts)\<rparr>
                     else sem k j)"
    "max_semid k' = max_semid k" "free_semcb k' = free_semcb k"
  using objs_eqD(2,17,18) [OF served_parts(2) [OF assms]] by simp_all

text \<open>After serving, the semaphore is in order; the other ones are untouched.\<close>

lemma served_ok:
  assumes inv: "kinv {} k" and s: "served i skip (que k (SemQ i)) k k'"
    and wf: "semid (sem k i) \<noteq> 0" "sem_wf i k" "sem_sorted i k"
    and skip: "skip \<longleftrightarrow> sematr (sem k i) AND TA_CNT \<noteq> 0"
  shows "sem_ok i k'"
proof -
  let ?q = "que k (SemQ i)" and ?sv = "serve skip (sem_want k) (semcnt (sem k i)) (que k (SemQ i))"
  note r = served_parts(1) [OF s] and c = served_sem(1) [OF s, of i]
  have q: "que k' (SemQ i) = filter (\<lambda>u. u \<notin> set (snd ?sv)) ?q" using releasedD(9) [OF r] by simp
  have pos: "\<And>t. t \<in> set ?q \<Longrightarrow> 0 < sem_want k t" using wf(2) by (simp add: sem_wf_def)
  have w: "sem_want k' t = sem_want k t" for t by (rule released_want [OF r])
  have core: "wid (tcb k' t) = wid (tcb k t)" "wspec (tcb k' t) = wspec (tcb k t)"
      "priority (tcb k' t) = priority (tcb k t)" for t
    using core_eqD [OF releasedD(6) [OF r, of t]] by simp_all
  have le: "fst ?sv \<le> semcnt (sem k i)" by (rule serve_le [OF pos])
  have ge: "0 \<le> fst ?sv" using wf(2) by (intro serve_nonneg) (simp add: sem_wf_def)
  have "sem_wf i k'" using wf(2) le ge by (auto simp: sem_wf_def q c w core)
  moreover have "sem_sorted i k'"
    using wf(3) by (auto simp: sem_sorted_def q c core intro: sorted_filter)
  moreover have "sem_blocked i k'"
  proof (cases skip)
    case True
    then show ?thesis
      using skip serve_skip_rest [of ?q "sem_want k", OF pos] by (auto simp: sem_blocked_def q c w)
  next
    case False
    have "fst ?sv < sem_want k (hd (que k' (SemQ i)))" if ne: "que k' (SemQ i) \<noteq> []"
    proof -
      obtain t rest where tr: "que k' (SemQ i) = t # rest" using ne by (meson list.exhaust)
      moreover have "filter (\<lambda>u. u \<notin> set (snd (serve False (sem_want k) (semcnt (sem k i)) ?q))) ?q = t # rest"
        using tr q False by simp
      from serve_first_rest [OF qinv_distinct [OF kinvD(1) [OF inv]] this] False
      have "fst ?sv < sem_want k t" by simp
      ultimately show ?thesis by simp
    qed
    with False skip show ?thesis by (simp add: sem_blocked_def c w)
  qed
  ultimately show ?thesis using wf(1) by (simp add: sem_ok_def c)
qed

lemma released_sem_other:
  assumes inv: "kinv {} k" and r: "released T e k k'" and T: "T \<subseteq> set (que k h)" "h \<noteq> SemQ j"
    and c: "sem k' j = sem k j"
  shows "sem_ok j k' = sem_ok j k"
proof (rule sem_ok_cong [OF c])
  have "t \<notin> T" if "t \<in> set (que k (SemQ j))" for t
    using T disjoint_queuesD [OF kinvD(6) [OF inv] that, of h] by auto
  then show "que k' (SemQ j) = que k (SemQ j)"
    using releasedD(9) [OF r, of "SemQ j"] by (simp add: filter_id_conv)
qed (use core_eqD [OF releasedD(6) [OF r]] in simp)

lemma served_other:
  assumes "kinv {} k" "served i skip (que k (SemQ i)) k k'" "j \<noteq> i"
  shows "sem_ok j k' = sem_ok j k"
  using released_sem_other [OF assms(1) served_parts(1) [OF assms(2)] serve_set, of j]
    served_sem(1) [OF assms(2), of j] assms(3) by simp

lemma served_sem_inv:
  assumes inv: "kinv {} k" and s: "served i skip (que k (SemQ i)) k k'"
    and wf: "semid (sem k i) \<noteq> 0" "sem_wf i k" "sem_sorted i k"
    and skip: "skip \<longleftrightarrow> sematr (sem k i) AND TA_CNT \<noteq> 0"
    and pool: "pool_ok (free_semcb k) (\<lambda>i. semid (sem k i)) (nat (max_semid k))"
    and others: "\<And>j. j < nat (max_semid k) \<Longrightarrow> j \<noteq> i \<Longrightarrow> sem_ok j k"
  shows "sem_inv k'"
proof -
  have "semid (sem k' j) = semid (sem k j)" for j using served_sem(1) [OF s, of j] by simp
  then have "pool_ok (free_semcb k') (\<lambda>i. semid (sem k' i)) (nat (max_semid k'))"
    using pool served_sem(2,3) [OF s] by simp
  moreover have "sem_ok j k'" if "j < nat (max_semid k)" for j
    using served_ok [OF inv s wf skip] served_other [OF inv s] others [OF that] by (cases "j = i") auto
  ultimately show ?thesis by (simp add: sem_inv_def served_sem(2) [OF s])
qed

lemma released_sem_inv:
  assumes "kinv {} k" "released T e k k'" "T \<subseteq> set (que k h)" "\<And>j. h \<noteq> SemQ j"
    and "semcb_table k' = semcb_table k" "free_semcb k' = free_semcb k" "max_semid k' = max_semid k"
  shows "sem_inv k' = sem_inv k"
  using released_sem_other [OF assms(1-3)] assms(4-7) by (simp add: sem_inv_def)

subsection \<open>The calls keep the invariant\<close>

lemma sem_inv_END [simp]: "sem_inv (END_CRITICAL_SECTION k) = sem_inv k"
  by (rule sem_inv_cong) simp_all

lemma CHECK_SEMID_index:
  "CHECK_SEMID oid k = None \<Longrightarrow> get_semcb oid < nat (max_semid k) \<and> oid = ID_of (get_semcb oid)"
  by (auto simp: CHECK_SEMID_def get_semcb_def INDEX_def ID_of_def)

lemma sem_inv_live:
  assumes "sem_inv k" "i < nat (max_semid k)" "semid (sem k i) \<noteq> 0"
  shows "semid (sem k i) = ID_of i" "sem_wf i k" "sem_sorted i k" "sem_blocked i k"
  using assms pool_ok_live [of "free_semcb k" "\<lambda>i. semid (sem k i)"]
  by (auto simp: sem_inv_def sem_ok_def ID_of_def)

lemma sem_inv_pool: "sem_inv k \<Longrightarrow> pool_ok (free_semcb k) (\<lambda>i. semid (sem k i)) (nat (max_semid k))"
  by (simp add: sem_inv_def)

lemma sem_inv_ok: "sem_inv k \<Longrightarrow> i < nat (max_semid k) \<Longrightarrow> sem_ok i k"
  by (simp add: sem_inv_def)

text \<open>Replacing one semaphore's control block and queue.\<close>

lemma sem_inv_one:
  assumes inv: "sem_inv k" and i: "sem_ok i k'"
    and pool: "pool_ok (free_semcb k') (\<lambda>i. semid (sem k' i)) (nat (max_semid k'))"
    and same: "max_semid k' = max_semid k" "\<And>j. j \<noteq> i \<Longrightarrow> sem k' j = sem k j"
      "\<And>j. j \<noteq> i \<Longrightarrow> que k' (SemQ j) = que k (SemQ j)"
      "\<And>j t. j \<noteq> i \<Longrightarrow> t \<in> set (que k (SemQ j)) \<Longrightarrow>
        winfo (tcb k' t) = winfo (tcb k t) \<and> wid (tcb k' t) = wid (tcb k t) \<and>
        wspec (tcb k' t) = wspec (tcb k t) \<and> priority (tcb k' t) = priority (tcb k t)"
  shows "sem_inv k'"
proof -
  have "sem_ok j k'" if "j < nat (max_semid k)" for j
  proof (cases "j = i")
    case False
    then have "sem_ok j k' = sem_ok j k" by (intro sem_ok_cong same) auto
    with inv that show ?thesis by (simp add: sem_inv_ok)
  qed (simp add: i)
  then show ?thesis using pool by (simp add: sem_inv_def same(1))
qed

definition sem_sys :: "kernel \<Rightarrow> bool" where
  "sem_sys k \<longleftrightarrow> kernel_ok k \<and> sem_inv k"

lemma sem_sysI: "kinv {} k \<Longrightarrow> sem_inv k \<Longrightarrow> sem_sys (END_CRITICAL_SECTION k)"
  by (simp add: sem_sys_def kernel_ok_END_CRITICAL_SECTION)

lemma sem_sysD: "sem_sys k \<Longrightarrow> kernel_ok k" "sem_sys k \<Longrightarrow> kinv {} k" "sem_sys k \<Longrightarrow> sem_inv k"
  by (simp_all add: sem_sys_def kernel_ok_kinv)

lemma semid_upd_sem:
  "(\<And>c. semid (f c) = semid c) \<Longrightarrow> (\<lambda>j. semid (sem (upd_sem i f k) j)) = (\<lambda>j. semid (sem k j))"
  by (auto simp: fun_eq_iff)

text \<open>What a successful signal does.\<close>

lemma tk_sig_sem_served:
  assumes sys: "sem_sys k" and ok: "CHECK_SEMID oid k = None" "0 < cnt"
    and i: "i = get_semcb oid" "semid (sem k i) \<noteq> 0" "cnt \<le> maxsem (sem k i) - semcnt (sem k i)"
    and k1: "k1 = upd_sem i (\<lambda>c. c\<lparr>semcnt := semcnt c + cnt\<rparr>) k"
  obtains k2 where "tk_sig_sem oid cnt k = (E_OK, END_CRITICAL_SECTION k2)"
    "served i (sematr (sem k i) AND TA_CNT \<noteq> 0) (que k (SemQ i)) k1 k2"
proof
  have il: "i < nat (max_semid k)" using CHECK_SEMID_index [OF ok(1)] i(1) by simp
  note live = sem_inv_live [OF sem_sysD(3) [OF sys] il i(2)]
  show "tk_sig_sem oid cnt k = (E_OK, END_CRITICAL_SECTION (sem_signal_loop i (que k (SemQ i)) k1))"
    using ok i by (simp add: tk_sig_sem_def checked_def CHECK_PAR_def Let_def k1)
  show "served i (sematr (sem k i) AND TA_CNT \<noteq> 0) (que k (SemQ i)) k1
      (sem_signal_loop i (que k (SemQ i)) k1)"
  proof (rule sem_signal_loop_served)
    show "kinv {} k1" unfolding k1 by (rule kinv_upd_sem [OF sem_sysD(2) [OF sys]])
    show "distinct (que k (SemQ i))" by (rule qinv_distinct [OF kinvD(1) [OF sem_sysD(2) [OF sys]]])
  qed (use live(2) in \<open>auto simp: k1 sem_wf_def sem_want_def\<close>)
qed

lemma tk_sig_sem_sys:
  assumes sys: "sem_sys k"
  shows "sem_sys (snd (tk_sig_sem oid cnt k))"
proof -
  let ?i = "get_semcb oid"
  let ?k1 = "upd_sem ?i (\<lambda>c. c\<lparr>semcnt := semcnt c + cnt\<rparr>) k"
  show ?thesis
  proof (cases "CHECK_SEMID oid k = None \<and> 0 < cnt \<and> semid (sem k ?i) \<noteq> 0 \<and>
      cnt \<le> maxsem (sem k ?i) - semcnt (sem k ?i)")
    case False
    then have "snd (tk_sig_sem oid cnt k) \<in> {k, END_CRITICAL_SECTION k}"
      by (auto simp: tk_sig_sem_def checked_def CHECK_PAR_def CHECK_def Let_def split: option.splits)
    then show ?thesis using sys sem_sysI [OF sem_sysD(2,3) [OF sys]] by auto
  next
    case True
    then have ok: "CHECK_SEMID oid k = None" "0 < cnt" "semid (sem k ?i) \<noteq> 0"
      "cnt \<le> maxsem (sem k ?i) - semcnt (sem k ?i)" by simp_all
    have il: "?i < nat (max_semid k)" using CHECK_SEMID_index [OF ok(1)] by simp
    note live = sem_inv_live [OF sem_sysD(3) [OF sys] il ok(3)]
    obtain k2 where r: "tk_sig_sem oid cnt k = (E_OK, END_CRITICAL_SECTION k2)"
        and s: "served ?i (sematr (sem k ?i) AND TA_CNT \<noteq> 0) (que k (SemQ ?i)) ?k1 k2"
      by (rule tk_sig_sem_served [OF sys ok(1,2) refl ok(3,4) refl])
    have k1: "kinv {} ?k1" by (rule kinv_upd_sem [OF sem_sysD(2) [OF sys]])
    have "sem_inv k2"
    proof (rule served_sem_inv [OF k1])
      show "served ?i (sematr (sem k ?i) AND TA_CNT \<noteq> 0) (que ?k1 (SemQ ?i)) ?k1 k2" using s by simp
      show "pool_ok (free_semcb ?k1) (\<lambda>i. semid (sem ?k1 i)) (nat (max_semid ?k1))"
        using sem_inv_pool [OF sem_sysD(3) [OF sys]] by (simp add: semid_upd_sem del: upd_sem_frame(4))
      show "sem_ok j ?k1" if "j < nat (max_semid ?k1)" "j \<noteq> ?i" for j
        using sem_inv_ok [OF sem_sysD(3) [OF sys], of j] that by (subst sem_ok_cong [of _ _ k]) auto
    qed (use ok live in \<open>auto simp: sem_wf_def sem_sorted_def sem_want_def\<close>)
    with r served_kinv [OF s] show ?thesis by (simp add: sem_sysI)
  qed
qed

text \<open>Waiting.\<close>

lemma sem_wait_home [simp]: "wait_home (sem_wspec atr) oid = Some (SemQ (INDEX oid))"
  by (simp add: sem_wspec_def)

text \<open>The state in which the code puts the task to wait.\<close>

definition sem_wait_state :: "nat \<Rightarrow> int \<Rightarrow> kernel \<Rightarrow> kernel" where
  "sem_wait_state i cnt k =
     upd_tcb (self k) (\<lambda>tc. tc\<lparr>wspec := sem_wspec (sematr (sem k i)), wercd := E_OK, winfo := WINFO_SEM cnt\<rparr>) k"

lemma sem_wait_inv:
  assumes sys: "sem_sys k" and t: "CHECK_DISPATCH k = None"
    and i: "i < nat (max_semid k)" "semid (sem k i) \<noteq> 0" "0 < cnt" "cnt \<le> maxsem (sem k i)"
    and blk: "sematr (sem k i) AND TA_CNT \<noteq> 0 \<or>
        gcb_top_of_wait_queue (SemQ i) (sematr (sem k i)) (self k) k = self k \<Longrightarrow> semcnt (sem k i) < cnt"
    and k': "k' = gcb_make_wait_with_diswai (SemQ i) (semid (sem k i)) (sematr (sem k i)) tmout
      (sem_wait_state i cnt k)"
  shows "kinv {} k'" "sem_inv k'"
proof -
  let ?t = "self k" and ?k = "sem_wait_state i cnt k" and ?atr = "sematr (sem k i)"
  let ?id = "semid (sem k i)"
  note inv = sem_sysD(2) [OF sys]
  have t: "?t < NUM_TSKID k" "state (tcb k ?t) = TS_READY"
    using kernel_ok_dispatch [OF sem_sysD(1) [OF sys] t] by simp_all
  note live = sem_inv_live [OF sem_sysD(3) [OF sys] i(1,2)]
  have notin: "?t \<notin> set (que k h)" if "\<not> rdyq h" for h by (rule kinv_ready_notin [OF inv t(2) that])
  have k: "kinv {} ?k"
    unfolding sem_wait_state_def using t by (intro kinv_upd_tcb_other [OF inv]) simp_all
  have s: "self ?k = ?t" "?t < NUM_TSKID ?k" "state (tcb ?k ?t) = TS_READY"
    "wait_home (wspec (tcb ?k ?t)) ?id = Some (SemQ i)" "sem ?k = sem k" "que ?k = que k"
    "free_semcb ?k = free_semcb k" "max_semid ?k = max_semid k"
    "priority (tcb ?k u) = priority (tcb k u)" for u
    using t live(1) by (simp_all add: sem_wait_state_def upd_tcb_def self_def NUM_TSKID_def)
  have other: "u \<noteq> ?t \<Longrightarrow> tcb ?k u = tcb k u" for u by (simp add: sem_wait_state_def)
  have ne: "u \<noteq> ?t" if "u \<in> set (que k (SemQ j))" for u j using notin [of "SemQ j"] that by auto
  have inv0: "sem_inv (set_wercd ?t e ?k)" for e
    using sem_sysD(3) [OF sys] other [OF ne]
    by (subst sem_inv_cong [of _ k]) (simp_all add: s)
  show "kinv {} k'"
    unfolding k' by (rule kinv_gcb_make_wait_with_diswai [OF k]) (use s in simp_all)
  show "sem_inv k'"
  proof (cases rule: gcb_make_wait_with_diswai_cases [of "SemQ i" ?id ?atr tmout ?k])
    case (1 e)
    then show ?thesis using inv0 k' s(1) by simp
  next
    case 2
    let ?w = "set_wercd ?t E_TMOUT ?k"
    have w: "kinv {} ?w" by (rule kinv_set_wercd [OF k])
    have k'2: "k' = gcb_make_wait (SemQ i) ?id ?atr tmout ?w" using 2 k' s(1) by simp
    have sw: "self ?w = ?t" using s(1) by (simp add: self_objs [OF set_wercd_frame(1)])
    have q: "que k' h = (if h = SemQ i then wait_insert k ?atr ?t (que k (SemQ i)) else que k h)"
      if "\<not> rdyq h" for h
      using kinv_gcb_make_wait(2) [OF w, of ?id "SemQ i" h ?atr tmout] that s sw
      by (simp add: k'2) (simp add: wait_insert_def s)
    have f: "sem k' = sem k" "free_semcb k' = free_semcb k" "max_semid k' = max_semid k"
      "winfo (tcb k' u) = winfo (tcb ?k u)" "wspec (tcb k' u) = wspec (tcb ?k u)"
      "priority (tcb k' u) = priority (tcb k u)" "wid (tcb k' u) = (if u = ?t then ?id else wid (tcb ?k u))" for u
      unfolding k'2 by (simp_all add: s sw)
    have me: "sem_want k' ?t = cnt" "wspec (tcb k' ?t) = sem_wspec ?atr" "wid (tcb k' ?t) = ?id"
      by (simp_all add: f sem_want_def) (simp_all add: sem_wait_state_def)
    have rest: "sem_want k' u = sem_want k u" "wspec (tcb k' u) = wspec (tcb k u)" "wid (tcb k' u) = wid (tcb k u)"
      "winfo (tcb k' u) = winfo (tcb k u)" if "u \<noteq> ?t" for u
      using that by (simp_all add: f sem_want_def other)
    have "sem_wf i k'"
      unfolding sem_wf_def
    proof (intro conjI ballI)
      fix u assume u: "u \<in> set (que k' (SemQ i))"
      show "0 < sem_want k' u" "sem_want k' u \<le> maxsem (sem k' i)" "wid (tcb k' u) = semid (sem k' i)"
        "wspec (tcb k' u) = sem_wspec (sematr (sem k' i))"
        using u live(2) i(3,4) by (cases "u = ?t"; simp add: q me rest f(1) sem_wf_def)+
    qed (use live(2) in \<open>simp_all add: f(1) sem_wf_def\<close>)
    moreover have "sem_sorted i k'"
      using live(3) wait_insert_sorted [of k "que k (SemQ i)" ?atr ?t] by (simp add: sem_sorted_def q f(1,6))
    moreover have "sem_blocked i k'"
    proof (cases "?atr AND TA_CNT = 0")
      case False
      have "semcnt (sem k i) < sem_want k' u" if "u \<in> set (que k' (SemQ i))" for u
        using that live(4) blk False by (cases "u = ?t") (simp_all add: q me rest sem_blocked_def)
      with False show ?thesis by (simp add: sem_blocked_def f(1))
    next
      case True
      let ?h = "hd (wait_insert k ?atr ?t (que k (SemQ i)))"
      have "semcnt (sem k i) < sem_want k' ?h"
      proof (cases "?h = ?t")
        case h: True
        have "?t \<notin> set (que k (SemQ i))" by (rule notin) simp
        then have "gcb_top_of_wait_queue (SemQ i) ?atr ?t k = ?t"
          using h by (auto simp: gcb_top_hd wait_insert_def hd_insert_by hd_append split: if_splits)
        then show ?thesis using blk h me by simp
      next
        case False
        then show ?thesis using wait_insert_hd [of k ?atr ?t "que k (SemQ i)"] True live(4) rest
          by (auto simp: sem_blocked_def)
      qed
      then show ?thesis using True by (simp add: sem_blocked_def q f(1))
    qed
    ultimately have ok: "sem_ok i k'" using i(2) by (simp add: sem_ok_def f(1))
    show ?thesis
    proof (rule sem_inv_one [OF sem_sysD(3) [OF sys] ok])
      show "pool_ok (free_semcb k') (\<lambda>i. semid (sem k' i)) (nat (max_semid k'))"
        using sem_inv_pool [OF sem_sysD(3) [OF sys]] by (simp add: f(1-3))
      fix j u assume "j \<noteq> i" "u \<in> set (que k (SemQ j))"
      then have "u \<noteq> ?t" using notin [of "SemQ j"] by auto
      then show "winfo (tcb k' u) = winfo (tcb k u) \<and> wid (tcb k' u) = wid (tcb k u) \<and>
          wspec (tcb k' u) = wspec (tcb k u) \<and> priority (tcb k' u) = priority (tcb k u)"
        by (simp add: rest f(6))
    qed (simp_all add: f(1,3) q)
  qed
qed

lemma tk_wai_sem_u_cases:
  assumes "first_error [CHECK_SEMID oid k, CHECK_PAR (0 < cnt), CHECK_TMOUT tmout, CHECK_DISPATCH k] = None"
    and i: "i = get_semcb oid" "semid (sem k i) \<noteq> 0" "cnt \<le> maxsem (sem k i)"
      "\<not> is_diswai (sematr (sem k i)) (tcb k (self k)) TTW_SEM"
  shows "tk_wai_sem_u oid cnt tmout k =
    (if (sematr (sem k i) AND TA_CNT \<noteq> 0 \<or>
         gcb_top_of_wait_queue (SemQ i) (sematr (sem k i)) (self k) k = self k) \<and> cnt \<le> semcnt (sem k i)
     then (E_OK, END_CRITICAL_SECTION (upd_sem i (\<lambda>c. c\<lparr>semcnt := semcnt c - cnt\<rparr>) k))
     else
       let k' = gcb_make_wait_with_diswai (SemQ i) (semid (sem k i)) (sematr (sem k i)) tmout
                  (sem_wait_state i cnt k)
       in (wercd (tcb k' (self k)), END_CRITICAL_SECTION k'))"
  using assms(1,3-5) unfolding i(1)
  by (simp only: tk_wai_sem_u_def checked_def sem_wait_state_def sem_wspec_def option.case Let_def not_less
      if_False if_True simp_thms) simp

lemma tk_wai_sem_u_sys:
  assumes sys: "sem_sys k"
  shows "sem_sys (snd (tk_wai_sem_u oid cnt tmout k))"
proof -
  let ?i = "get_semcb oid"
  let ?checks = "[CHECK_SEMID oid k, CHECK_PAR (0 < cnt), CHECK_TMOUT tmout, CHECK_DISPATCH k]"
  show ?thesis
  proof (cases "first_error ?checks = None \<and> semid (sem k ?i) \<noteq> 0 \<and> cnt \<le> maxsem (sem k ?i) \<and>
      \<not> is_diswai (sematr (sem k ?i)) (tcb k (self k)) TTW_SEM")
    case False
    then have "snd (tk_wai_sem_u oid cnt tmout k) \<in> {k, END_CRITICAL_SECTION k}"
      by (cases "first_error ?checks") (auto simp: tk_wai_sem_u_def checked_def Let_def)
    then show ?thesis using sys sem_sysI [OF sem_sysD(2,3) [OF sys]] by auto
  next
    case True
    then have ck: "first_error ?checks = None" and ok: "semid (sem k ?i) \<noteq> 0" "cnt \<le> maxsem (sem k ?i)"
      "\<not> is_diswai (sematr (sem k ?i)) (tcb k (self k)) TTW_SEM" by simp_all
    have il: "?i < nat (max_semid k)" and pos: "0 < cnt" and dsp: "CHECK_DISPATCH k = None"
      using ck CHECK_SEMID_index [of oid k]
      by (simp_all add: CHECK_PAR_def first_error_None_iff del: first_error.simps)
    note live = sem_inv_live [OF sem_sysD(3) [OF sys] il ok(1)]
    note eq = tk_wai_sem_u_cases [OF ck refl ok]
    show ?thesis
    proof (cases "(sematr (sem k ?i) AND TA_CNT \<noteq> 0 \<or>
         gcb_top_of_wait_queue (SemQ ?i) (sematr (sem k ?i)) (self k) k = self k) \<and> cnt \<le> semcnt (sem k ?i)")
      case True
      let ?k = "upd_sem ?i (\<lambda>c. c\<lparr>semcnt := semcnt c - cnt\<rparr>) k"
      have "sem_wf ?i ?k" using live(2) pos True by (auto simp: sem_wf_def sem_want_def)
      moreover have "sem_sorted ?i ?k" using live(3) by (simp add: sem_sorted_def)
      moreover have "sem_blocked ?i ?k"
        using live(4) pos by (auto simp: sem_blocked_def sem_want_def split: if_splits)
      ultimately have "sem_ok ?i ?k" using ok(1) by (simp add: sem_ok_def)
      then have "sem_inv ?k"
        by (rule sem_inv_one [OF sem_sysD(3) [OF sys]])
           (use sem_inv_pool [OF sem_sysD(3) [OF sys]] in \<open>simp_all add: semid_upd_sem del: upd_sem_frame(4)\<close>,
             simp)
      with eq True kinv_upd_sem [OF sem_sysD(2) [OF sys]] show ?thesis by (simp add: sem_sysI)
    next
      case False
      have "semcnt (sem k ?i) < cnt" if "sematr (sem k ?i) AND TA_CNT \<noteq> 0 \<or>
          gcb_top_of_wait_queue (SemQ ?i) (sematr (sem k ?i)) (self k) k = self k"
        using that False by auto
      from sem_wait_inv [OF sys dsp il ok(1) pos ok(2) this refl, of tmout] False show ?thesis
        unfolding eq by (simp only: if_False Let_def snd_conv sem_sysI)
    qed
  qed
qed

text \<open>Creation and deletion.\<close>

definition sem_new :: "t_csem \<Rightarrow> nat \<Rightarrow> semcb \<Rightarrow> semcb" where
  "sem_new pk i c =
     (let c = c\<lparr>semid := ID_of i, sem_exinf := csem_exinf pk, sematr := csem_sematr pk,
               semcnt := csem_isemcnt pk, maxsem := csem_maxsem pk\<rparr>
      in if csem_sematr pk AND TA_DSNAME \<noteq> 0 then c\<lparr>sem_name := strncpy (csem_dsname pk) 8\<rparr> else c)"

definition csem_valid :: "t_csem \<Rightarrow> bool" where
  "csem_valid pk \<longleftrightarrow> csem_sematr pk AND NOT VALID_SEMATR = 0 \<and> 0 \<le> csem_isemcnt pk \<and>
     0 < csem_maxsem pk \<and> csem_isemcnt pk \<le> csem_maxsem pk"

lemma tk_cre_sem_eq:
  assumes "csem_valid pk" "free_semcb k = i # rest" "que k (SemQ i) = []"
  shows "tk_cre_sem pk k =
    (ID_of i, END_CRITICAL_SECTION (upd_sem i (sem_new pk i) (k\<lparr>free_semcb := rest\<rparr>)))"
proof -
  have "QueInit (SemQ i) (que k) = que k" using assms(3) by (auto simp: fun_eq_iff)
  then show ?thesis using assms(1,2)
    by (simp add: tk_cre_sem_def csem_valid_def checked_def CHECK_RSATR_def CHECK_PAR_def Let_def
        upd_sem_def sem_new_def)
qed

lemma tk_cre_sem_fail:
  assumes "\<not> csem_valid pk \<or> free_semcb k = []"
  shows "snd (tk_cre_sem pk k) \<in> {k, END_CRITICAL_SECTION k}"
    "fst (tk_cre_sem pk k) \<in> (if csem_valid pk then {E_LIMIT} else {E_RSATR, E_PAR})"
  using assms
  by (auto simp: tk_cre_sem_def csem_valid_def checked_def CHECK_RSATR_def CHECK_PAR_def CHECK_def
      split: option.splits)

lemma kinv_free_semcb: "kinv X k \<Longrightarrow> kinv X (k\<lparr>free_semcb := f\<rparr>)"
  by (erule kinv_objs_cong) (simp_all add: NUM_TSKID_def)

lemma sem_free_empty:
  assumes "sem_inv k" "i \<in> set (free_semcb k)"
  shows "i < nat (max_semid k)" "semid (sem k i) = 0" "que k (SemQ i) = []"
  using assms sem_inv_ok [OF assms(1), of i] by (auto simp: sem_inv_def pool_ok_def sem_ok_def)

lemma pool_upd: "(\<lambda>j. semid (if j = i then c else f j)) = (\<lambda>j. semid (f j))(i := semid c)"
  by auto

lemma sem_new_sel [simp]:
  "semid (sem_new pk i c) = ID_of i" "semcnt (sem_new pk i c) = csem_isemcnt pk"
  "maxsem (sem_new pk i c) = csem_maxsem pk" "sematr (sem_new pk i c) = csem_sematr pk"
  "sem_exinf (sem_new pk i c) = csem_exinf pk"
  by (simp_all add: sem_new_def Let_def)

lemma tk_cre_sem_sys:
  assumes sys: "sem_sys k"
  shows "sem_sys (snd (tk_cre_sem pk k))"
proof (cases "csem_valid pk \<and> free_semcb k \<noteq> []")
  case False
  then show ?thesis using tk_cre_sem_fail(1) [of pk k] sys sem_sysI [OF sem_sysD(2,3) [OF sys]] by auto
next
  case True
  then obtain i rest where f: "free_semcb k = i # rest" by (cases "free_semcb k") auto
  let ?k = "upd_sem i (sem_new pk i) (k\<lparr>free_semcb := rest\<rparr>)"
  note inv = sem_sysD(3) [OF sys]
  have i: "i < nat (max_semid k)" "semid (sem k i) = 0" "que k (SemQ i) = []"
    using sem_free_empty [OF inv, of i] f by simp_all
  have ne: "ID_of i \<noteq> 0" by (simp add: ID_of_def)
  have "sem_ok i ?k" using True i(3) ne by (simp add: sem_ok_defs csem_valid_def)
  moreover have "pool_ok rest (\<lambda>j. semid (sem ?k j)) (nat (max_semid k))"
    using pool_ok_take(1) [of i rest] sem_inv_pool [OF inv] f by (simp add: pool_upd ID_of_def)
  ultimately have "sem_inv ?k"
    by (intro sem_inv_one [OF inv, of i]) simp_all
  with tk_cre_sem_eq [OF _ f i(3)] True kinv_upd_sem [OF kinv_free_semcb [OF sem_sysD(2) [OF sys]]]
  show ?thesis by (simp add: sem_sysI)
qed

lemma tk_del_sem_eq:
  assumes "CHECK_SEMID oid k = None" "semid (sem k (get_semcb oid)) \<noteq> 0" "i = get_semcb oid"
  shows "tk_del_sem oid k =
    (E_OK, END_CRITICAL_SECTION (upd_sem i (\<lambda>c. c\<lparr>semid := 0\<rparr>)
      ((wait_delete (SemQ i) k)\<lparr>free_semcb := free_semcb k @ [i]\<rparr>)))"
  using assms by (simp add: tk_del_sem_def checked_def Let_def)

lemma tk_del_sem_sys:
  assumes sys: "sem_sys k"
  shows "sem_sys (snd (tk_del_sem oid k))"
proof (cases "CHECK_SEMID oid k = None \<and> semid (sem k (get_semcb oid)) \<noteq> 0")
  case False
  then have "snd (tk_del_sem oid k) \<in> {k, END_CRITICAL_SECTION k}"
    by (auto simp: tk_del_sem_def checked_def Let_def split: option.splits)
  then show ?thesis using sys sem_sysI [OF sem_sysD(2,3) [OF sys]] by auto
next
  case True
  let ?i = "get_semcb oid"
  let ?w = "wait_delete (SemQ ?i) k"
  let ?k = "upd_sem ?i (\<lambda>c. c\<lparr>semid := 0\<rparr>) (?w\<lparr>free_semcb := free_semcb k @ [?i]\<rparr>)"
  note inv = sem_sysD(3) [OF sys] and kv = sem_sysD(2) [OF sys]
  have i: "?i < nat (max_semid k)" using CHECK_SEMID_index True by simp
  have rel: "released (set (que k (SemQ ?i))) E_DLT k ?w"
    by (rule wait_delete_released [OF kv]) simp_all
  have others: "sem_ok j ?w = sem_ok j k" if "j \<noteq> ?i" for j
    by (rule released_sem_other [OF kv rel order_refl]) (use that in simp_all)
  have "sem_ok j ?k" if "j < nat (max_semid k)" for j
  proof (cases "j = ?i")
    case True
    then show ?thesis using wait_delete_empties [OF kv, of "SemQ ?i"] by (simp add: sem_ok_def)
  next
    case False
    then have "sem_ok j ?k = sem_ok j ?w" by (intro sem_ok_cong) simp_all
    with False others sem_inv_ok [OF inv that] show ?thesis by simp
  qed
  moreover have "pool_ok (free_semcb k @ [?i]) (\<lambda>j. semid (sem ?k j)) (nat (max_semid k))"
    using pool_ok_return [OF sem_inv_pool [OF inv] i] True by (simp add: pool_upd)
  ultimately have "sem_inv ?k" by (simp add: sem_inv_def)
  moreover have "kinv {} ?k" by (intro kinv_upd_sem kinv_free_semcb releasedD(1) [OF rel])
  ultimately show ?thesis using tk_del_sem_eq [OF _ _ refl, of oid k] True by (simp add: sem_sysI)
qed

subsection \<open>The hooks\<close>

text \<open>A waiter of a semaphore, as the invariants know it.\<close>

lemma sem_waiter:
  assumes inv: "kinv {} k" "sem_inv k" and t: "t \<in> set (que k (SemQ i))" and i: "i < nat (max_semid k)"
  shows "semid (sem k i) \<noteq> 0" "get_semcb (wid (tcb k t)) = i" "t < NUM_TSKID k" "ts_wait (state (tcb k t))"
    "wspec (tcb k t) = sem_wspec (sematr (sem k i))"
proof -
  show ne: "semid (sem k i) \<noteq> 0" using sem_inv_ok [OF inv(2) i] t by (auto simp: sem_ok_def)
  note live = sem_inv_live [OF inv(2) i ne]
  show "get_semcb (wid (tcb k t)) = i" using live(1,2) t by (simp add: sem_wf_def get_semcb_def)
  show "wspec (tcb k t) = sem_wspec (sematr (sem k i))" using live(2) t by (simp add: sem_wf_def)
  show "t < NUM_TSKID k" "ts_wait (state (tcb k t))" using kinv_waiter [OF inv(1) t] by simp_all
qed

lemma released_sem_parts:
  assumes "kinv {} k" "released T e k k'" "sem k' i = sem k i"
  shows "sem_wf i k \<Longrightarrow> sem_wf i k'" "sem_sorted i k \<Longrightarrow> sem_sorted i k'"
    "sematr (sem k i) AND TA_CNT \<noteq> 0 \<Longrightarrow> sem_blocked i k \<Longrightarrow> sem_blocked i k'"
  using core_eqD [OF releasedD(6) [OF assms(2)]] releasedD(9) [OF assms(2), of "SemQ i"]
  by (auto simp: sem_wf_def sem_sorted_def sem_blocked_def sem_want_def assms(3) intro: sorted_filter)

lemma sem_rel_wai_served:
  assumes inv: "kinv {} k" "sem_inv k" and t: "t \<in> set (que k (SemQ i))" and i: "i < nat (max_semid k)"
  obtains k' where "sem_rel_wai t (wait_release t k) = Some k'" "kinv {} k'" "sem_inv k'"
    "k' = wait_release t k \<or> (\<exists>skip ts. set ts \<subseteq> set (que (wait_release t k) (SemQ i)) \<and>
       served i skip ts (wait_release t k) k')"
proof -
  let ?k = "wait_release t k" and ?cnt = "sematr (sem k i) AND TA_CNT \<noteq> 0"
  let ?k' = "if ?cnt then ?k else sem_release_loop i (que ?k (SemQ i)) ?k"
  note w = sem_waiter [OF inv t i]
  note live = sem_inv_live [OF inv(2) i w(1)]
  have rel: "released {t} (wercd (tcb k t)) k ?k" by (rule released_wait_release [OF inv(1) w(3,4)])
  note kv = releasedD(1) [OF rel]
  note parts = released_sem_parts [OF inv(1) rel, of i, simplified]
  have others: "sem_ok j ?k = sem_ok j k" if "j \<noteq> i" for j
    by (rule released_sem_other [OF inv(1) rel, of "SemQ i"]) (use that t in simp_all)
  have pool: "pool_ok (free_semcb ?k) (\<lambda>i. semid (sem ?k i)) (nat (max_semid ?k))"
    using sem_inv_pool [OF inv(2)] by simp
  have sv: "served i False (que ?k (SemQ i)) ?k (sem_release_loop i (que ?k (SemQ i)) ?k)"
    by (rule sem_release_loop_served [OF kv order_refl qinv_distinct [OF kinvD(1) [OF kv]]])
  have "sem_inv ?k'"
  proof (cases ?cnt)
    case True
    then have "sem_ok i ?k" using live w(1) parts by (simp add: sem_ok_def)
    then have "sem_ok j ?k" if "j < nat (max_semid k)" for j
      using others [of j] sem_inv_ok [OF inv(2) that] by (cases "j = i") auto
    with pool True show ?thesis by (simp add: sem_inv_def)
  next
    case False
    have "sem_inv (sem_release_loop i (que ?k (SemQ i)) ?k)"
      by (rule served_sem_inv [OF kv sv _ _ _ _ pool])
         (use False live w(1) parts others sem_inv_ok [OF inv(2)] in simp_all)
    with False show ?thesis by simp
  qed
  moreover have "sem_rel_wai t ?k = Some ?k'"
    using w(2) by (simp add: sem_rel_wai_def sem_chg_pri_def Let_def)
  moreover have "kinv {} ?k'" using kv served_kinv [OF sv] by simp
  moreover have "?k' = ?k \<or> (\<exists>skip ts. set ts \<subseteq> set (que ?k (SemQ i)) \<and> served i skip ts ?k ?k')"
    using sv by auto
  ultimately show thesis using that [of ?k'] by blast
qed

lemma sorted_insert_by_priority:
  "sorted (map (\<lambda>t. priority (tcb k t)) ts) \<Longrightarrow>
   sorted (map (\<lambda>t. priority (tcb k t)) (insert_by (by_priority k) t ts))"
  by (simp add: sorted_wrt_insert_by)

lemma sem_chg_pri_served:
  assumes inv: "kinv {} k" "sem_inv k" and t: "t \<in> set (que k (SemQ i))" and i: "i < nat (max_semid k)"
    and hook: "sematr (sem k i) AND TA_TPRI \<noteq> 0" and p: "p < NUM_PRI"
  obtains k' where "sem_chg_pri t (int old) (set_priority t p k) = Some k'" "pri_changed k k'" "sem_inv k'"
    "\<And>u. core (tcb k' u) = core (tcb (set_priority t p k) u)"
    "\<And>h. \<not> rdyq h \<Longrightarrow> h \<noteq> SemQ i \<Longrightarrow> que k' h = que k h" "mbfcb_table k' = mbfcb_table k"
proof -
  let ?q = "que k (SemQ i)" and ?k1 = "set_priority t p k"
  let ?k2 = "gcb_change_priority (SemQ i) t ?k1"
  let ?cnt = "sematr (sem k i) AND TA_CNT \<noteq> 0"
  let ?k3 = "sem_release_loop i (que ?k2 (SemQ i)) ?k2"
  note w = sem_waiter [OF inv t i]
  note live = sem_inv_live [OF inv(2) i w(1)]
  have k1: "kinv {} ?k1"
    using kinv_set_priority [OF inv(1) _ p] wait_state_simps [OF w(4)] by simp
  note g = kinv_gcb_change_priority [OF k1, of t "SemQ i", simplified, OF t]
  have d: "distinct ?q" by (rule qinv_distinct [OF kinvD(1) [OF inv(1)]])
  have q: "que ?k2 (SemQ i) = insert_by (by_priority ?k1) t (remove1 t ?q)" using g(2) by simp
  have pc: "pri_changed k ?k2" by (rule pri_changed_reorder [OF inv(1) t _ _ p]) simp_all
  have q': "\<And>h. \<not> rdyq h \<Longrightarrow> h \<noteq> SemQ i \<Longrightarrow> que ?k2 h = que k h" using g(2) by simp
  have same: "u \<noteq> t \<Longrightarrow> tcb ?k2 u = tcb k u" "sem_want ?k2 = sem_want k" "wid (tcb ?k2 u) = wid (tcb k u)"
      "wspec (tcb ?k2 u) = wspec (tcb k u)" for u
    by (auto simp: sem_want_def)
  have wf: "sem_wf i ?k2" using live(2) t d by (auto simp: sem_wf_def q same)
  have "sorted (map (\<lambda>u. priority (tcb ?k1 u)) (remove1 t ?q))"
  proof -
    have "sorted (map (\<lambda>u. priority (tcb k u)) (remove1 t ?q))"
      using live(3) hook by (simp add: sem_sorted_def sorted_map_remove1)
    then show ?thesis using d by (subst sorted_map_cong [of _ _ "\<lambda>u. priority (tcb k u)"]) auto
  qed
  then have "sem_sorted i ?k2"
    unfolding sem_sorted_def q using sorted_insert_by_priority [of ?k1] by simp
  note wf = wf this
  have others: "sem_ok j ?k2 = sem_ok j k" if "j \<noteq> i" for j
  proof (rule sem_ok_cong)
    show "que ?k2 (SemQ j) = que k (SemQ j)" using g(2) that by simp
    have "t \<notin> set (que k (SemQ j))" using disjoint_queuesD [OF kinvD(6) [OF inv(1)] t, of "SemQ j"] that by simp
    then show "winfo (tcb ?k2 u) = winfo (tcb k u) \<and> wid (tcb ?k2 u) = wid (tcb k u) \<and>
        wspec (tcb ?k2 u) = wspec (tcb k u) \<and> priority (tcb ?k2 u) = priority (tcb k u)"
      if "u \<in> set (que k (SemQ j))" for u using that by auto
  qed simp
  have pool: "pool_ok (free_semcb ?k2) (\<lambda>i. semid (sem ?k2 i)) (nat (max_semid ?k2))"
    using sem_inv_pool [OF inv(2)] by simp
  have eq: "sem_chg_pri t (int old) ?k1 = Some (if ?cnt then ?k2 else ?k3)"
    using w(2) by (simp add: sem_chg_pri_def Let_def)
  show thesis
  proof (cases ?cnt)
    case True
    then have "sem_blocked i ?k2" using live(4) t d by (auto simp: sem_blocked_def q same)
    then have "sem_ok i ?k2" using wf by (simp add: sem_ok_def w(1))
    then have "sem_ok j ?k2" if "j < nat (max_semid k)" for j
      using others [of j] sem_inv_ok [OF inv(2) that] by (cases "j = i") auto
    then have "sem_inv ?k2" using pool by (simp add: sem_inv_def)
    then show thesis
      using True eq pc q' by (intro that [of ?k2]) simp_all
  next
    case False
    have sv: "served i False (que ?k2 (SemQ i)) ?k2 ?k3"
      by (rule sem_release_loop_served [OF g(1) order_refl qinv_distinct [OF kinvD(1) [OF g(1)]]])
    have "sem_inv ?k3"
      by (rule served_sem_inv [OF g(1) sv _ _ _ _ pool])
         (use False wf w(1) others sem_inv_ok [OF inv(2)] in simp_all)
    moreover have T: "set (snd (serve False (sem_want ?k2) (semcnt (sem ?k2 i)) (que ?k2 (SemQ i)))) \<subseteq> set (que ?k2 (SemQ i))"
      by (rule serve_set)
    moreover have "pri_changed k ?k3"
    proof (rule pri_changed_trans [OF pc pri_changed_released [OF g(1) served_parts(1) [OF sv] T _]])
      have "objs ?k3 = objs (upd_sem i (\<lambda>s. s\<lparr>semcnt := semcnt (sem ?k3 i)\<rparr>) ?k2)"
        using served_parts(2) [OF sv] served_sem(1) [OF sv, of i] by simp
      then show "fixed_objs ?k3 = fixed_objs ?k2"
        by (simp add: fixed_objs_alt objs_def upd_sem_def)
    qed simp
    moreover have "core (tcb ?k3 u) = core (tcb ?k1 u)" for u
      using releasedD(6) [OF served_parts(1) [OF sv], of u] by simp
    moreover have "que ?k3 h = que k h" if "\<not> rdyq h" "h \<noteq> SemQ i" for h
      using released_other [OF g(1) served_parts(1) [OF sv] T that(2,1)] q' [OF that] by simp
    moreover have "mbfcb_table ?k3 = mbfcb_table k"
      using objs_eqD(37) [OF served_parts(2) [OF sv]] by (simp add: upd_sem_def)
    ultimately show thesis
      using False eq by (intro that [of ?k3]) simp_all
  qed
qed

subsection \<open>Semaphores as a class of objects\<close>

definition sem_ids :: "kernel \<Rightarrow> ID set" where
  "sem_ids k = pool_ids (\<lambda>i. semid (sem k i)) (nat (max_semid k))"

definition sem_absent :: "ID \<Rightarrow> kernel \<Rightarrow> ER" where
  "sem_absent oid k = (if 1 \<le> oid \<and> oid \<le> max_semid k then E_NOEXS else E_ID)"

lemma sem_ids_iff:
  "sem_sys k \<Longrightarrow> oid \<in> sem_ids k \<longleftrightarrow> CHECK_SEMID oid k = None \<and> semid (sem k (get_semcb oid)) \<noteq> 0"
  using pool_ids_iff [OF sem_inv_pool [OF sem_sysD(3)]]
  by (auto simp: sem_ids_def CHECK_SEMID_def get_semcb_def INDEX_def)

lemma sem_create_live:
  assumes sys: "sem_sys k" and v: "csem_valid pk" and f: "free_semcb k = i # rest"
  shows "fst (tk_cre_sem pk k) = ID_of i" "sem_ids (snd (tk_cre_sem pk k)) = insert (ID_of i) (sem_ids k)"
    "max_semid (snd (tk_cre_sem pk k)) = max_semid k" "i < nat (max_semid k)" "ID_of i \<notin> sem_ids k"
proof -
  note inv = sem_sysD(3) [OF sys]
  have i: "i < nat (max_semid k)" "semid (sem k i) = 0" "que k (SemQ i) = []"
    using sem_free_empty [OF inv, of i] f by simp_all
  note eq = tk_cre_sem_eq [OF v f i(3)]
  show "fst (tk_cre_sem pk k) = ID_of i" "max_semid (snd (tk_cre_sem pk k)) = max_semid k"
    by (simp_all add: eq)
  show "sem_ids (snd (tk_cre_sem pk k)) = insert (ID_of i) (sem_ids k)"
    using pool_ids_upd(1) [OF sem_inv_pool [OF inv] i(1)]
    by (simp add: eq sem_ids_def pool_upd ID_of_def)
  show "i < nat (max_semid k)" by (rule i)
  show "ID_of i \<notin> sem_ids k" using sem_ids_iff [OF sys, of "ID_of i"] i(2) by (simp add: get_semcb_def)
qed

lemma sem_ids_full_iff:
  assumes "sem_sys k"
  shows "sem_ids k = {1..int (nat (max_semid k))} \<longleftrightarrow> free_semcb k = []"
  unfolding sem_ids_def by (rule pool_ids_full_iff [OF sem_inv_pool [OF sem_sysD(3) [OF assms]]])

interpretation sem_class: object_class sem_sys sem_ids "\<lambda>k. nat (max_semid k)" tk_cre_sem tk_del_sem
  csem_valid E_LIMIT sem_absent
proof unfold_locales
  fix k :: kernel and pk :: t_csem and oid :: int
  assume sys: "sem_sys k"
  note pool = sem_inv_pool [OF sem_sysD(3) [OF sys]]
  show "sem_ids k \<subseteq> {1..int (nat (max_semid k))}"
    using pool_ids_iff [OF pool] by (auto simp: sem_ids_def)
  show "sem_sys (snd (tk_cre_sem pk k))" by (rule tk_cre_sem_sys [OF sys])
  show "sem_sys (snd (tk_del_sem oid k))" by (rule tk_del_sem_sys [OF sys])
  have fail: "fst (tk_cre_sem pk k) \<in> (if csem_valid pk then {E_LIMIT} else {E_RSATR, E_PAR}) \<and>
      sem_ids (snd (tk_cre_sem pk k)) = sem_ids k \<and> max_semid (snd (tk_cre_sem pk k)) = max_semid k"
    if "\<not> csem_valid pk \<or> free_semcb k = []"
    using tk_cre_sem_fail [OF that] by (auto simp: sem_ids_def)
  show "nat (max_semid (snd (tk_cre_sem pk k))) = nat (max_semid k)"
    using fail sem_create_live(3) [OF sys] by (cases "csem_valid pk"; cases "free_semcb k") auto
  show "fst (tk_cre_sem pk k) \<in> {1..int (nat (max_semid k))} - sem_ids k \<and>
      sem_ids (snd (tk_cre_sem pk k)) = insert (fst (tk_cre_sem pk k)) (sem_ids k)"
    if v: "csem_valid pk" and "sem_ids k \<noteq> {1..int (nat (max_semid k))}"
  proof -
    obtain i rest where f: "free_semcb k = i # rest"
      using \<open>sem_ids k \<noteq> _\<close> sem_ids_full_iff [OF sys] by (cases "free_semcb k") auto
    show ?thesis using sem_create_live [OF sys v f] by (auto simp: ID_of_def)
  qed
  show "fst (tk_cre_sem pk k) = E_LIMIT \<and> sem_ids (snd (tk_cre_sem pk k)) = sem_ids k"
    if "csem_valid pk" "sem_ids k = {1..int (nat (max_semid k))}"
    using fail that sem_ids_full_iff [OF sys] by simp
  show "fst (tk_cre_sem pk k) < 0 \<and> sem_ids (snd (tk_cre_sem pk k)) = sem_ids k" if "\<not> csem_valid pk"
    using fail that by auto
  show "nat (max_semid (snd (tk_del_sem oid k))) = nat (max_semid k)"
    by (auto simp: tk_del_sem_def checked_def Let_def split: option.splits)
  show "fst (tk_del_sem oid k) = 0 \<and> sem_ids (snd (tk_del_sem oid k)) = sem_ids k - {oid}"
    if "oid \<in> sem_ids k"
  proof -
    have ok: "CHECK_SEMID oid k = None" "semid (sem k (get_semcb oid)) \<noteq> 0"
      using that sem_ids_iff [OF sys] by simp_all
    have il: "get_semcb oid < nat (max_semid k)" "oid = ID_of (get_semcb oid)"
      using CHECK_SEMID_index [OF ok(1)] by simp_all
    show ?thesis
      using pool_ids_upd(2) [OF pool il(1)] il(2)
      by (simp add: tk_del_sem_eq [OF ok refl] sem_ids_def pool_upd ID_of_def)
  qed
  show "fst (tk_del_sem oid k) = sem_absent oid k \<and> sem_ids (snd (tk_del_sem oid k)) = sem_ids k"
    if "oid \<notin> sem_ids k"
    using that sem_ids_iff [OF sys, of oid]
    by (auto simp: tk_del_sem_def checked_def Let_def CHECK_SEMID_def sem_absent_def CHECK_def sem_ids_def)
  show "sem_absent oid k < 0" by (simp add: sem_absent_def)
qed simp

subsection \<open>What waiting does\<close>

definition wai_sem_ok :: "ID \<Rightarrow> int \<Rightarrow> D \<Rightarrow> kernel \<Rightarrow> bool" where
  "wai_sem_ok oid cnt tmout k \<longleftrightarrow>
     first_error [CHECK_SEMID oid k, CHECK_PAR (0 < cnt), CHECK_TMOUT tmout, CHECK_DISPATCH k] = None \<and>
     semid (sem k (get_semcb oid)) \<noteq> 0 \<and> cnt \<le> maxsem (sem k (get_semcb oid)) \<and>
     \<not> is_diswai (sematr (sem k (get_semcb oid))) (tcb k (self k)) TTW_SEM"

text \<open>The request can be granted at once: no waiter goes before, and the count is high enough.\<close>

definition sem_grant :: "nat \<Rightarrow> int \<Rightarrow> kernel \<Rightarrow> bool" where
  "sem_grant i cnt k \<longleftrightarrow>
     (sematr (sem k i) AND TA_CNT \<noteq> 0 \<or>
      gcb_top_of_wait_queue (SemQ i) (sematr (sem k i)) (self k) k = self k) \<and> cnt \<le> semcnt (sem k i)"

text \<open>Task \<open>t\<close> waits for \<open>cnt\<close> resources of semaphore \<open>i\<close>, queued by the discipline of the object.\<close>

definition sem_waits :: "nat \<Rightarrow> int \<Rightarrow> tid \<Rightarrow> kernel \<Rightarrow> kernel \<Rightarrow> bool" where
  "sem_waits i cnt t k k' \<longleftrightarrow>
     state (tcb k' t) = TS_WAIT \<and> sem_want k' t = cnt \<and> wid (tcb k' t) = semid (sem k i) \<and>
     que k' (SemQ i) = wait_insert k (sematr (sem k i)) t (que k (SemQ i)) \<and> sem k' = sem k"

lemma sem_wait_waits:
  assumes sys: "sem_sys k" and ok: "wai_sem_ok oid cnt tmout k" and tm: "tmout \<noteq> TMO_POL"
    and i: "i = get_semcb oid"
    and k': "k' = gcb_make_wait_with_diswai (SemQ i) (semid (sem k i)) (sematr (sem k i)) tmout
      (sem_wait_state i cnt k)"
  shows "sem_waits i cnt (self k) k k'" "wercd (tcb k' (self k)) = E_TMOUT"
proof -
  let ?t = "self k" and ?k = "sem_wait_state i cnt k" and ?atr = "sematr (sem k i)"
  have ck: "CHECK_SEMID oid k = None" "CHECK_DISPATCH k = None" "semid (sem k i) \<noteq> 0"
    "\<not> is_diswai ?atr (tcb k ?t) TTW_SEM"
    using ok by (simp_all add: wai_sem_ok_def i first_error_None_iff del: first_error.simps)
  have t: "?t < NUM_TSKID k" "state (tcb k ?t) = TS_READY"
    using kernel_ok_dispatch [OF sem_sysD(1) [OF sys] ck(2)] by simp_all
  have il: "i < nat (max_semid k)" using CHECK_SEMID_index [OF ck(1)] by (simp add: i)
  note live = sem_inv_live [OF sem_sysD(3) [OF sys] il ck(3)]
  have k: "kinv {} ?k"
    unfolding sem_wait_state_def using t by (intro kinv_upd_tcb_other [OF sem_sysD(2) [OF sys]]) simp_all
  have s: "self ?k = ?t" "?t < NUM_TSKID ?k" "state (tcb ?k ?t) = TS_READY"
    "wait_home (wspec (tcb ?k ?t)) (semid (sem k i)) = Some (SemQ i)" "sem ?k = sem k" "que ?k = que k"
    "priority (tcb ?k u) = priority (tcb k u)" for u
    using t live(1) by (simp_all add: sem_wait_state_def upd_tcb_def self_def NUM_TSKID_def)
  have w: "tskwait (wspec (tcb ?k ?t)) = TTW_SEM" "winfo (tcb ?k ?t) = WINFO_SEM cnt"
    "waitmask (tcb ?k ?t) = waitmask (tcb k ?t)"
    by (simp_all add: sem_wait_state_def sem_wspec_def)
  let ?w = "set_wercd ?t E_TMOUT ?k"
  have k'2: "k' = gcb_make_wait (SemQ i) (semid (sem k i)) ?atr tmout ?w"
    using tm ck(4) is_diswai_cong [OF w(3), of ?atr TTW_SEM]
    by (simp add: k' gcb_make_wait_with_diswai_def Let_def s(1) w(1))
  have sw: "self ?w = ?t" using s(1) by (simp add: self_objs [OF set_wercd_frame(1)])
  have "que k' (SemQ i) = wait_insert k ?atr ?t (que k (SemQ i))"
    using kinv_gcb_make_wait(2) [OF kinv_set_wercd [OF k], where oid = "semid (sem k i)" and h = "SemQ i"
        and h' = "SemQ i" and tm = tmout and atr = ?atr] s sw
    by (simp add: k'2) (simp add: wait_insert_def s)
  then show "sem_waits i cnt ?t k k'"
    by (simp add: sem_waits_def k'2 sw s w sem_want_def)
  show "wercd (tcb k' ?t) = E_TMOUT" by (simp add: k'2 sw)
qed

lemma tk_wai_sem_u_eq:
  assumes "wai_sem_ok oid cnt tmout k" and i: "i = get_semcb oid"
  shows "tk_wai_sem_u oid cnt tmout k =
    (if sem_grant i cnt k
     then (E_OK, END_CRITICAL_SECTION (upd_sem i (\<lambda>c. c\<lparr>semcnt := semcnt c - cnt\<rparr>) k))
     else
       let k' = gcb_make_wait_with_diswai (SemQ i) (semid (sem k i)) (sematr (sem k i)) tmout
                  (sem_wait_state i cnt k)
       in (wercd (tcb k' (self k)), END_CRITICAL_SECTION k'))"
  using assms(1) unfolding sem_grant_def
  by (intro tk_wai_sem_u_cases i) (simp_all add: wai_sem_ok_def i del: first_error.simps)

lemma tk_wai_sem_u_wait:
  assumes "sem_sys k" "wai_sem_ok oid cnt tmout k" "tmout \<noteq> TMO_POL" "\<not> sem_grant (get_semcb oid) cnt k"
  obtains k' where "tk_wai_sem_u oid cnt tmout k = (E_TMOUT, END_CRITICAL_SECTION k')"
    "sem_waits (get_semcb oid) cnt (self k) k k'"
  using that sem_wait_waits [OF assms(1-3) refl refl]
  unfolding tk_wai_sem_u_eq [OF assms(2) refl] if_not_P [OF assms(4)] Let_def by metis

text \<open>A polling request that cannot be granted changes nothing but the result.\<close>

lemma tk_wai_sem_u_poll:
  assumes ok: "wai_sem_ok oid cnt TMO_POL k" and no: "\<not> sem_grant (get_semcb oid) cnt k"
  shows "fst (tk_wai_sem_u oid cnt TMO_POL k) = E_TMOUT"
    "que (snd (tk_wai_sem_u oid cnt TMO_POL k)) = que k"
    "sem (snd (tk_wai_sem_u oid cnt TMO_POL k)) = sem k"
    "state (tcb (snd (tk_wai_sem_u oid cnt TMO_POL k)) u) = state (tcb k u)"
proof -
  let ?i = "get_semcb oid"
  let ?k = "sem_wait_state ?i cnt k"
  have w: "tskwait (wspec (tcb ?k (self k))) = TTW_SEM" "waitmask (tcb ?k (self k)) = waitmask (tcb k (self k))"
    "self ?k = self k" "que ?k = que k" "sem ?k = sem k" "state (tcb ?k u) = state (tcb k u)" for u
    by (simp_all add: sem_wait_state_def sem_wspec_def upd_tcb_def self_def)
  have "gcb_make_wait_with_diswai (SemQ ?i) (semid (sem k ?i)) (sematr (sem k ?i)) TMO_POL ?k =
      set_wercd (self k) E_TMOUT ?k"
    using ok is_diswai_cong [OF w(2), of "sematr (sem k ?i)" TTW_SEM]
    by (simp add: gcb_make_wait_with_diswai_def Let_def w wai_sem_ok_def)
  then have "tk_wai_sem_u oid cnt TMO_POL k =
      (E_TMOUT, END_CRITICAL_SECTION (set_wercd (self k) E_TMOUT ?k))"
    unfolding tk_wai_sem_u_eq [OF ok refl] if_not_P [OF no] Let_def by simp
  then show "fst (tk_wai_sem_u oid cnt TMO_POL k) = E_TMOUT"
    "que (snd (tk_wai_sem_u oid cnt TMO_POL k)) = que k"
    "sem (snd (tk_wai_sem_u oid cnt TMO_POL k)) = sem k"
    "state (tcb (snd (tk_wai_sem_u oid cnt TMO_POL k)) u) = state (tcb k u)"
    by (simp_all add: w)
qed

subsection \<open>A concrete run\<close>

text \<open>A semaphore is created and task 0 waits for two of its resources; task 1 runs then.\<close>

definition ex_csem :: t_csem where
  "ex_csem = \<lparr>csem_exinf = 0, csem_sematr = TA_TFIFO, csem_isemcnt = 0, csem_maxsem = 5, csem_dsname = []\<rparr>"

definition ex_sem :: kernel where
  "ex_sem = snd (tk_cre_sem ex_csem ex_state)"

definition ex_sem_wait :: kernel where
  "ex_sem_wait = snd (tk_wai_sem_u 1 2 TMO_FEVR ex_sem)"

lemma ex_state_sem_sys: "sem_sys ex_state"
  by (auto simp: sem_sys_def ex_state_kernel_ok sem_inv_def pool_ok_def sem_ok_def ex_state_que)

lemma ex_csem_valid: "csem_valid ex_csem"
  by (simp add: csem_valid_def ex_csem_def)

lemma ex_sem_eq:
  "ex_sem = upd_sem 0 (sem_new ex_csem 0) (ex_state\<lparr>free_semcb := [1, 2]\<rparr>)"
  "fst (tk_cre_sem ex_csem ex_state) = 1"
proof -
  have "tk_cre_sem ex_csem ex_state =
      (ID_of 0, END_CRITICAL_SECTION (upd_sem 0 (sem_new ex_csem 0) (ex_state\<lparr>free_semcb := [1, 2]\<rparr>)))"
    by (rule tk_cre_sem_eq [OF ex_csem_valid]) (simp_all add: ex_state_que)
  then show "ex_sem = upd_sem 0 (sem_new ex_csem 0) (ex_state\<lparr>free_semcb := [1, 2]\<rparr>)"
    "fst (tk_cre_sem ex_csem ex_state) = 1"
    by (simp_all add: ex_sem_def END_CRITICAL_SECTION_def ID_of_def)
qed

lemma ex_sem_sel [simp]:
  "semid (sem ex_sem 0) = 1" "semcnt (sem ex_sem 0) = 0" "maxsem (sem ex_sem 0) = 5"
  "sematr (sem ex_sem 0) = 0" "que ex_sem = que ex_state" "tcb ex_sem = tcb ex_state"
  "self ex_sem = 0" "max_semid ex_sem = 3" "ctxtsk ex_sem = Some 0" "free_semcb ex_sem = [1, 2]"
  "NUM_TSKID ex_sem = 5" "schedtsk ex_sem = Some 0" "isDI ex_sem = False"
  "isTaskIndependent ex_sem = False" "dispatch_disabled ex_sem = 0"
  by (simp_all add: ex_sem_eq ex_csem_def ID_of_def) (simp_all add: self_def NUM_TSKID_def upd_sem_def)

lemma ex_sem_sys: "sem_sys ex_sem"
  unfolding ex_sem_def by (rule tk_cre_sem_sys [OF ex_state_sem_sys])

lemma ex_sem_wai_ok: "wai_sem_ok 1 2 TMO_FEVR ex_sem"
  by (simp add: wai_sem_ok_def CHECK_SEMID_def CHECK_PAR_def CHECK_TMOUT_def CHECK_DISPATCH_def in_ddsp_def
      in_indp_def get_semcb_def INDEX_def is_diswai_def ex_state_tcb ex_tcb_def)

lemma ex_sem_no_grant: "\<not> sem_grant 0 2 ex_sem"
  by (simp add: sem_grant_def)

lemma ex_sem_wait_facts:
  "sem_waits 0 2 0 ex_sem ex_sem_wait" "sem_sys ex_sem_wait" "max_semid ex_sem_wait = 3"
  "fst (tk_wai_sem_u 1 2 TMO_FEVR ex_sem) = E_TMOUT"
proof -
  have i: "get_semcb 1 = 0" by (simp add: get_semcb_def INDEX_def)
  obtain k' where "tk_wai_sem_u 1 2 TMO_FEVR ex_sem = (E_TMOUT, END_CRITICAL_SECTION k')"
      "sem_waits 0 2 0 ex_sem k'"
    by (rule tk_wai_sem_u_wait [OF ex_sem_sys ex_sem_wai_ok]) (use ex_sem_no_grant i in auto)
  then show "sem_waits 0 2 0 ex_sem ex_sem_wait" "fst (tk_wai_sem_u 1 2 TMO_FEVR ex_sem) = E_TMOUT"
    by (simp_all add: ex_sem_wait_def sem_waits_def sem_want_def)
  show "sem_sys ex_sem_wait" unfolding ex_sem_wait_def by (rule tk_wai_sem_u_sys [OF ex_sem_sys])
  show "max_semid ex_sem_wait = 3"
    using ex_sem_no_grant i
    by (simp add: ex_sem_wait_def tk_wai_sem_u_eq [OF ex_sem_wai_ok refl] Let_def sem_wait_state_def)
qed

lemma ex_sem_wait_sel [simp]:
  "que ex_sem_wait (SemQ 0) = [0]" "sem ex_sem_wait = sem ex_sem" "sem_want ex_sem_wait 0 = 2"
  "state (tcb ex_sem_wait 0) = TS_WAIT"
  using ex_sem_wait_facts(1) by (simp_all add: sem_waits_def wait_insert_def ex_state_que)

subsection \<open>Properties\<close>

text \<open>
  C1: Semaphore calls keep the kernel and the semaphores consistent. After creating, deleting,
  signalling or waiting with any arguments, every task is on the queue its state calls for, the
  scheduled task is the first one of highest priority, every count lies between 0 and its maximum, and
  no wakeup is lost: the waiters that could be served next all ask for more than the count.
\<close>

theorem sem_calls_invariant:
  assumes "sem_sys k"
  shows "sem_sys (snd (tk_cre_sem pk k)) \<and> sem_sys (snd (tk_del_sem oid k)) \<and>
    sem_sys (snd (tk_sig_sem oid cnt k)) \<and> sem_sys (snd (tk_wai_sem_u oid cnt tmout k)) \<and>
    sem_sys (snd (tk_wai_sem oid cnt ms k))"
  using tk_cre_sem_sys [OF assms] tk_del_sem_sys [OF assms] tk_sig_sem_sys [OF assms]
    tk_wai_sem_u_sys [OF assms] by (simp add: tk_wai_sem_def)

theorem sem_calls_invariant_witness:
  "sem_sys (snd (tk_cre_sem ex_csem ex_sem_wait)) \<and> sem_sys (snd (tk_del_sem 1 ex_sem_wait)) \<and>
    sem_sys (snd (tk_sig_sem 1 3 ex_sem_wait)) \<and> sem_sys (snd (tk_wai_sem_u 1 2 10 ex_sem_wait)) \<and>
    sem_sys (snd (tk_wai_sem 1 2 10 ex_sem_wait))"
  using sem_calls_invariant [OF ex_sem_wait_facts(2)] by blast

text \<open>
  C2: A signal serves the waiters as \<open>serve\<close> says: in queue order, from the old count plus the
  returned resources, passing over those who ask too much if the semaphore has \<^verbatim>\<open>TA_CNT\<close> and stopping
  at the first of them otherwise. Exactly the served tasks leave the queue; they become ready (or stay
  suspended), get \<open>E_OK\<close> as the result of their call, and their timeouts are cancelled.
\<close>

theorem tk_sig_sem_result:
  assumes sys: "sem_sys k" and ok: "CHECK_SEMID oid k = None" "0 < cnt"
    and i: "i = get_semcb oid" "semid (sem k i) \<noteq> 0" "cnt \<le> maxsem (sem k i) - semcnt (sem k i)"
    and sv: "serve (sematr (sem k i) AND TA_CNT \<noteq> 0) (sem_want k) (semcnt (sem k i) + cnt) (que k (SemQ i)) = (c, rs)"
    and r: "tk_sig_sem oid cnt k = (e, k')"
  shows "e = E_OK \<and> semcnt (sem k' i) = c \<and>
    que k' (SemQ i) = filter (\<lambda>t. t \<notin> set rs) (que k (SemQ i)) \<and>
    (\<forall>t. if t \<in> set rs then wercd (tcb k' t) = E_OK \<and> TskTmeb t \<notin> set (timer_queue k') \<and>
            state (tcb k' t) = (if state (tcb k t) = TS_WAIT then TS_READY else TS_SUSPEND)
          else state (tcb k' t) = state (tcb k t))"
proof -
  obtain k2 where k2: "tk_sig_sem oid cnt k = (E_OK, END_CRITICAL_SECTION k2)"
      and s: "served i (sematr (sem k i) AND TA_CNT \<noteq> 0) (que k (SemQ i))
        (upd_sem i (\<lambda>c. c\<lparr>semcnt := semcnt c + cnt\<rparr>) k) k2"
    by (rule tk_sig_sem_served [OF sys ok i refl])
  have w: "sem_want (upd_sem i f k) = sem_want k" for f by (simp add: sem_want_def fun_eq_iff)
  have sv': "serve (sematr (sem k i) AND TA_CNT \<noteq> 0) (sem_want (upd_sem i f k))
      (semcnt (sem k i) + cnt) (que k (SemQ i)) = (c, rs)" for f
    unfolding w by (rule sv)
  have rel: "released (set rs) E_OK (upd_sem i (\<lambda>c. c\<lparr>semcnt := semcnt c + cnt\<rparr>) k) k2"
    using served_parts(1) [OF s] by (simp add: sv' del: upd_sem_frame(1))
  have "semcnt (sem k2 i) = c" using served_sem(1) [OF s, of i] by (simp add: sv' del: upd_sem_frame(1))
  with r k2 releasedD(7,8,10) [OF rel] releasedD(9) [OF rel, of "SemQ i"] show ?thesis
    by auto
qed

theorem tk_sig_sem_result_witness:
  "let k' = snd (tk_sig_sem 1 3 ex_sem_wait)
   in semcnt (sem k' 0) = 1 \<and> que k' (SemQ 0) = [] \<and> state (tcb k' 0) = TS_READY"
proof -
  have i: "get_semcb 1 = 0" by (simp add: get_semcb_def INDEX_def)
  have c: "CHECK_SEMID 1 ex_sem_wait = None" by (simp add: CHECK_SEMID_def ex_sem_wait_facts)
  show ?thesis
    using tk_sig_sem_result [OF ex_sem_wait_facts(2) c _ i [symmetric] _ _ _ prod.collapse [symmetric],
        of 3 1 "[0]"] by (auto simp: Let_def)
qed

text \<open>
  C3: A wait takes the resources at once exactly when the count is high enough and no waiter goes
  before the caller. Otherwise a poll fails with \<open>E_TMOUT\<close> and changes neither queues nor states, and
  any other call puts the task to wait on the semaphore's queue, at the end or by priority as the
  attribute says, remembering what it asked for, and leaves the count alone.
\<close>

theorem tk_wai_sem_u_result:
  assumes sys: "sem_sys k" and ok: "wai_sem_ok oid cnt tmout k" and i: "i = get_semcb oid"
    and r: "tk_wai_sem_u oid cnt tmout k = (e, k')"
  shows "if sem_grant i cnt k then
           e = E_OK \<and> semcnt (sem k' i) = semcnt (sem k i) - cnt \<and> que k' = que k \<and> tcb k' = tcb k
         else if tmout = TMO_POL then
           e = E_TMOUT \<and> sem k' = sem k \<and> que k' = que k \<and> (\<forall>t. state (tcb k' t) = state (tcb k t))
         else sem_waits i cnt (self k) k k'"
proof -
  have "sem_waits i cnt (self k) k k'" if no: "\<not> sem_grant i cnt k" "tmout \<noteq> TMO_POL"
  proof -
    obtain k2 where "tk_wai_sem_u oid cnt tmout k = (E_TMOUT, END_CRITICAL_SECTION k2)"
        "sem_waits i cnt (self k) k k2"
      by (rule tk_wai_sem_u_wait [OF sys ok no(2)]) (use no i in auto)
    with r show ?thesis by (auto simp: sem_waits_def sem_want_def)
  qed
  moreover have "tmout = TMO_POL \<Longrightarrow> \<not> sem_grant i cnt k \<Longrightarrow> ?thesis"
    using tk_wai_sem_u_poll [of oid cnt k] ok r by (simp add: i)
  moreover have "sem_grant i cnt k \<Longrightarrow> ?thesis"
    using r tk_wai_sem_u_eq [OF ok i] by auto
  ultimately show ?thesis by auto
qed

theorem tk_wai_sem_u_result_witness:
  "sem_waits 0 2 0 ex_sem (snd (tk_wai_sem_u 1 2 TMO_FEVR ex_sem)) \<and> \<not> sem_grant 0 2 ex_sem"
  using tk_wai_sem_u_result [OF ex_sem_sys ex_sem_wai_ok refl prod.collapse [symmetric]] ex_sem_no_grant
  by (simp add: get_semcb_def INDEX_def)

text \<open>
  C4: Creation and deletion of a semaphore. A packet with an attribute that does not exist or counts that do
  not fit each other is refused with the error of the first failing check, without effect; when as many
  semaphores exist as configured the call fails with \<open>E_LIMIT\<close>. Otherwise, and only then, the call returns an
  ID in range that no semaphore has; the semaphore has the attribute, count and maximum of the packet and
  nobody waits for it; and deleting it brings back the set of semaphores there was.
\<close>

theorem sem_create_delete:
  assumes sys: "sem_sys k"
  shows "let (oid, k1) = tk_cre_sem pk k; c = sem k1 (get_semcb oid)
    in if csem_sematr pk AND NOT VALID_SEMATR \<noteq> 0 then oid = E_RSATR \<and> k1 = k
       else if csem_isemcnt pk < 0 \<or> csem_maxsem pk \<le> 0 \<or> csem_maxsem pk < csem_isemcnt pk then oid = E_PAR \<and> k1 = k
       else if card (sem_ids k) = nat (max_semid k) then oid = E_LIMIT \<and> sem_ids k1 = sem_ids k \<and> semcb_table k1 = semcb_table k
       else 1 \<le> oid \<and> oid \<le> max_semid k \<and> oid \<notin> sem_ids k \<and> sem_ids k1 = insert oid (sem_ids k) \<and>
         sematr c = csem_sematr pk \<and> semcnt c = csem_isemcnt pk \<and> maxsem c = csem_maxsem pk \<and>
         que k1 (SemQ (get_semcb oid)) = [] \<and>
         (let (e, k2) = tk_del_sem oid k1 in e = E_OK \<and> sem_ids k2 = sem_ids k)"
proof (cases "csem_valid pk")
  case False
  then show ?thesis
    by (auto simp: tk_cre_sem_def csem_valid_def checked_def CHECK_RSATR_def CHECK_PAR_def CHECK_def)
next
  case v: True
  have le: "card (sem_ids k) \<le> nat (max_semid k)" by (rule sem_class.live_card [OF sys])
  note full = sem_class.full_iff [OF sys]
  have pk: "\<not> csem_sematr pk AND NOT VALID_SEMATR \<noteq> 0"
    "\<not> (csem_isemcnt pk < 0 \<or> csem_maxsem pk \<le> 0 \<or> csem_maxsem pk < csem_isemcnt pk)"
    using v by (auto simp: csem_valid_def)
  show ?thesis
  proof (cases "free_semcb k")
    case Nil
    then have "card (sem_ids k) = nat (max_semid k)" using full sem_ids_full_iff [OF sys] by simp
    moreover have "tk_cre_sem pk k = (E_LIMIT, END_CRITICAL_SECTION k)"
      using v Nil by (simp add: tk_cre_sem_def csem_valid_def checked_def CHECK_RSATR_def CHECK_PAR_def)
    ultimately show ?thesis using pk by (simp add: sem_ids_def)
  next
    case (Cons i rest)
    then have nf: "card (sem_ids k) \<noteq> nat (max_semid k)" using full sem_ids_full_iff [OF sys] by simp
    then have lt: "card (sem_ids k) < nat (max_semid k)" using le by simp
    have "sem_ids k \<noteq> {1..int (nat (max_semid k))}" using nf full by simp
    note new = sem_class.create_new [OF sys v this]
    note del = sem_class.create_delete [OF sys v lt]
    have q: "que k (SemQ i) = []" using sem_free_empty(3) [OF sem_sysD(3) [OF sys]] Cons by simp
    note eq = tk_cre_sem_eq [OF v Cons q]
    have "get_semcb (ID_of i) = i" by (simp add: get_semcb_def)
    then have c: "sematr (sem (snd (tk_cre_sem pk k)) (get_semcb (fst (tk_cre_sem pk k)))) = csem_sematr pk"
      "semcnt (sem (snd (tk_cre_sem pk k)) (get_semcb (fst (tk_cre_sem pk k)))) = csem_isemcnt pk"
      "maxsem (sem (snd (tk_cre_sem pk k)) (get_semcb (fst (tk_cre_sem pk k)))) = csem_maxsem pk"
      "que (snd (tk_cre_sem pk k)) (SemQ (get_semcb (fst (tk_cre_sem pk k)))) = []"
      using q by (simp_all add: eq sem_new_def Let_def)
    show ?thesis using pk nf new del c by (simp add: split_beta Let_def split: if_splits)
  qed
qed

theorem sem_create_delete_witness:
  "sem_ids ex_state = {} \<and> fst (tk_cre_sem ex_csem ex_state) = 1 \<and> semcnt (sem ex_sem 0) = csem_isemcnt ex_csem \<and>
    sem_ids ex_sem = {1} \<and> tk_cre_sem (ex_csem\<lparr>csem_isemcnt := 9999\<rparr>) ex_state = (E_PAR, ex_state) \<and>
    sem_ids (snd (tk_del_sem 1 ex_sem)) = {}"
proof -
  have e: "sem_ids ex_state = {}" "fst (tk_cre_sem ex_csem ex_state) = 1" "get_semcb 1 = 0"
    by (simp_all add: sem_ids_def pool_ids_def ex_sem_eq(2) get_semcb_def INDEX_def)
  have v: "\<not> csem_sematr ex_csem AND NOT VALID_SEMATR \<noteq> 0"
    "\<not> (csem_isemcnt ex_csem < 0 \<or> csem_maxsem ex_csem \<le> 0 \<or> csem_maxsem ex_csem < csem_isemcnt ex_csem)"
    using ex_csem_valid by (auto simp: csem_valid_def)
  have big: "csem_maxsem ex_csem < 9999" by (simp add: ex_csem_def)
  show ?thesis
    using sem_create_delete [OF ex_state_sem_sys, of ex_csem] sem_create_delete [OF ex_state_sem_sys, of "ex_csem\<lparr>csem_isemcnt := 9999\<rparr>"] e v big
    by (simp add: split_beta Let_def prod_eq_iff flip: ex_sem_def)
qed

text \<open>
  C5: The errors of a signal: the code for each way to fail, in the order of the checks, and a failed
  signal changes no task, no queue and no semaphore. In particular the count never passes the maximum:
  the call fails with \<open>E_QOVR\<close> exactly when it would.
\<close>

theorem tk_sig_sem_errors:
  "fst (tk_sig_sem oid cnt k) =
     (let c = sem k (get_semcb oid)
      in if \<not> (1 \<le> oid \<and> oid \<le> max_semid k) then E_ID
         else if cnt \<le> 0 then E_PAR
         else if semid c = 0 then E_NOEXS
         else if maxsem c < semcnt c + cnt then E_QOVR
         else E_OK) \<and>
   (fst (tk_sig_sem oid cnt k) = E_OK \<or>
    (let k' = snd (tk_sig_sem oid cnt k) in tcb k' = tcb k \<and> que k' = que k \<and> sem k' = sem k))"
  by (auto simp: tk_sig_sem_def checked_def CHECK_SEMID_def CHECK_PAR_def CHECK_def Let_def)

end
