(* ===== verification/Eventflag.thy ===== *)
theory Eventflag
  imports Example_State Object_Pool
begin

text \<open>
  Event flags (\<^verbatim>\<open>eventflag.c\<close>). The invariant \<open>flg_inv\<close> says that the condition of no waiter holds of
  the flag pattern, so that a set is what wakes tasks up; a flag without \<^verbatim>\<open>TA_WMUL\<close> has one waiter at
  most.
\<close>

subsection \<open>Operations\<close>

record t_cflg =
  cflg_exinf :: nat
  cflg_flgatr :: UW
  cflg_iflgptn :: UW
  cflg_dsname :: "UB list"

record t_rflg =
  rflg_exinf :: nat
  rflg_wtsk :: ID
  rflg_flgptn :: UW

definition get_flgcb :: "ID \<Rightarrow> nat" where
  "get_flgcb oid = INDEX oid"

definition upd_flg :: "nat \<Rightarrow> (flgcb \<Rightarrow> flgcb) \<Rightarrow> kernel \<Rightarrow> kernel" where
  "upd_flg i f k = k\<lparr>flgcb_table := (flgcb_table k)(i := f (flgcb_table k i))\<rparr>"

abbreviation flg :: "kernel \<Rightarrow> nat \<Rightarrow> flgcb" where
  "flg k i \<equiv> flgcb_table k i"

definition eventflag_initialize :: "int option \<Rightarrow> bool \<Rightarrow> kernel \<Rightarrow> ER \<times> kernel" where
  "eventflag_initialize tmaxflgid mem k =
     (let k = (case tmaxflgid of Some n \<Rightarrow> k\<lparr>max_flgid := n\<rparr> | None \<Rightarrow> k)
      in if tmaxflgid = None \<or> max_flgid k < 1 then (E_SYS, k)
      else if \<not> mem then (E_NOMEM, k)
      else
        let k = k\<lparr>free_flgcb := []\<rparr>;
            k = fold (\<lambda>i k.
                  let k = upd_flg i (\<lambda>c. c\<lparr>flgid := 0\<rparr>) k
                  in k\<lparr>free_flgcb := free_flgcb k @ [i]\<rparr>)
                [0..<nat (max_flgid k)] k
        in (E_OK, k))"

definition eventflag_cond :: "UW \<Rightarrow> UW \<Rightarrow> UW \<Rightarrow> bool" where
  "eventflag_cond ptn waiptn wfmode =
     (if wfmode AND TWF_ORW \<noteq> 0 then ptn AND waiptn \<noteq> 0 else ptn AND waiptn = waiptn)"

definition flg_chg_pri :: "tid \<Rightarrow> int \<Rightarrow> kernel \<Rightarrow> kernel option" where
  "flg_chg_pri t oldpri k = Some (gcb_change_priority (FlgQ (get_flgcb (wid (tcb k t)))) t k)"

definition VALID_FLGATR :: UW where
  "VALID_FLGATR = TA_TPRI OR TA_WMUL OR TA_NODISWAI OR TA_DSNAME"

definition tk_cre_flg :: "t_cflg \<Rightarrow> kernel \<Rightarrow> ER \<times> kernel" where
  "tk_cre_flg pk k =
     checked [CHECK_RSATR (cflg_flgatr pk) VALID_FLGATR] k
       (case free_flgcb k of
          [] \<Rightarrow> (E_LIMIT, END_CRITICAL_SECTION k)
        | i # rest \<Rightarrow>
            let k = k\<lparr>free_flgcb := rest\<rparr>;
                k = k\<lparr>que := QueInit (FlgQ i) (que k)\<rparr>;
                k = upd_flg i (\<lambda>c. c\<lparr>flgid := ID_of i, flg_exinf := cflg_exinf pk,
                      flgatr := cflg_flgatr pk, flgptn := cflg_iflgptn pk\<rparr>) k;
                k = (if cflg_flgatr pk AND TA_DSNAME \<noteq> 0
                     then upd_flg i (\<lambda>c. c\<lparr>flg_name := strncpy (cflg_dsname pk) 8\<rparr>) k else k)
            in (ID_of i, END_CRITICAL_SECTION k))"

definition tk_del_flg :: "ID \<Rightarrow> kernel \<Rightarrow> ER \<times> kernel" where
  "tk_del_flg oid k =
     checked [CHECK_FLGID oid k] k
       (let i = get_flgcb oid
        in if flgid (flg k i) = 0 then (E_NOEXS, END_CRITICAL_SECTION k)
           else
             let k = wait_delete (FlgQ i) k;
                 k = k\<lparr>free_flgcb := free_flgcb k @ [i]\<rparr>;
                 k = upd_flg i (\<lambda>c. c\<lparr>flgid := 0\<rparr>) k
             in (E_OK, END_CRITICAL_SECTION k))"

fun flg_set_loop :: "nat \<Rightarrow> tid list \<Rightarrow> kernel \<Rightarrow> kernel" where
  "flg_set_loop i [] k = k"
| "flg_set_loop i (t # ts) k =
     (let waiptn = flg_waiptn (winfo (tcb k t)); wfmode = flg_wfmode (winfo (tcb k t))
      in if eventflag_cond (flgptn (flg k i)) waiptn wfmode then
           let k = k\<lparr>mem_uint := (mem_uint k)(flg_p_flgptn (winfo (tcb k t)) := flgptn (flg k i))\<rparr>;
               k = wait_release_ok t k;
               k = (if wfmode AND TWF_BITCLR \<noteq> 0
                    then upd_flg i (\<lambda>c. c\<lparr>flgptn := flgptn c AND NOT waiptn\<rparr>) k else k)
           in if wfmode AND TWF_BITCLR \<noteq> 0 \<and> flgptn (flg k i) = 0 then k
              else if wfmode AND TWF_CLR \<noteq> 0 then upd_flg i (\<lambda>c. c\<lparr>flgptn := 0\<rparr>) k
              else flg_set_loop i ts k
         else flg_set_loop i ts k)"

definition tk_set_flg :: "ID \<Rightarrow> UW \<Rightarrow> kernel \<Rightarrow> ER \<times> kernel" where
  "tk_set_flg oid setptn k =
     checked [CHECK_FLGID oid k] k
       (let i = get_flgcb oid
        in if flgid (flg k i) = 0 then (E_NOEXS, END_CRITICAL_SECTION k)
           else
             let k = upd_flg i (\<lambda>c. c\<lparr>flgptn := flgptn c OR setptn\<rparr>) k
             in (E_OK, END_CRITICAL_SECTION (flg_set_loop i (que k (FlgQ i)) k)))"

definition tk_clr_flg :: "ID \<Rightarrow> UW \<Rightarrow> kernel \<Rightarrow> ER \<times> kernel" where
  "tk_clr_flg oid clrptn k =
     checked [CHECK_FLGID oid k] k
       (let i = get_flgcb oid
        in if flgid (flg k i) = 0 then (E_NOEXS, END_CRITICAL_SECTION k)
           else (E_OK, END_CRITICAL_SECTION (upd_flg i (\<lambda>c. c\<lparr>flgptn := flgptn c AND clrptn\<rparr>) k)))"

text \<open>The result of a call that waits is read from the caller's cell, as for semaphores.\<close>

definition tk_wai_flg_u :: "ID \<Rightarrow> UW \<Rightarrow> UW \<Rightarrow> nat \<Rightarrow> D \<Rightarrow> kernel \<Rightarrow> ER \<times> kernel" where
  "tk_wai_flg_u oid waiptn wfmode p_flgptn tmout k =
     checked [CHECK_FLGID oid k, CHECK_PAR (waiptn \<noteq> 0),
              CHECK_PAR (wfmode AND NOT (TWF_ORW OR TWF_CLR OR TWF_BITCLR) = 0),
              CHECK_TMOUT tmout, CHECK_DISPATCH k] k
       (let i = get_flgcb oid; t = self k; c = flg k i
        in if flgid c = 0 then (E_NOEXS, END_CRITICAL_SECTION k)
           else if flgatr c AND TA_WMUL = 0 \<and> \<not> isQueEmpty (FlgQ i) (que k)
           then (E_OBJ, END_CRITICAL_SECTION k)
           else if is_diswai (flgatr c) (tcb k t) TTW_FLG then (E_DISWAI, END_CRITICAL_SECTION k)
           else if eventflag_cond (flgptn c) waiptn wfmode then
             let k = k\<lparr>mem_uint := (mem_uint k)(p_flgptn := flgptn c)\<rparr>;
                 k = (if wfmode AND TWF_BITCLR \<noteq> 0
                      then upd_flg i (\<lambda>c. c\<lparr>flgptn := flgptn c AND NOT waiptn\<rparr>) k else k);
                 k = (if wfmode AND TWF_CLR \<noteq> 0 then upd_flg i (\<lambda>c. c\<lparr>flgptn := 0\<rparr>) k else k)
             in (E_OK, END_CRITICAL_SECTION k)
           else
             let k = upd_tcb t (\<lambda>tc. tc\<lparr>wspec := (if flgatr c AND TA_TPRI \<noteq> 0 then WSPEC_FLG_TPRI
                                                     else WSPEC_FLG_TFIFO),
                                        wercd := E_OK, winfo := WINFO_FLG waiptn wfmode p_flgptn\<rparr>) k;
                 k = gcb_make_wait_with_diswai (FlgQ i) (flgid c) (flgatr c) tmout k
             in (wercd (tcb k t), END_CRITICAL_SECTION k))"

definition tk_wai_flg :: "ID \<Rightarrow> UW \<Rightarrow> UW \<Rightarrow> nat \<Rightarrow> UW \<Rightarrow> kernel \<Rightarrow> ER \<times> kernel" where
  "tk_wai_flg oid waiptn wfmode p_flgptn tmout k =
     tk_wai_flg_u oid waiptn wfmode p_flgptn (to_usec_tmo tmout) k"

definition flg_info :: "nat \<Rightarrow> kernel \<Rightarrow> t_rflg" where
  "flg_info i k = \<lparr>rflg_exinf = flg_exinf (flg k i), rflg_wtsk = wait_tskid (FlgQ i) k,
     rflg_flgptn = flgptn (flg k i)\<rparr>"

definition tk_ref_flg :: "ID \<Rightarrow> kernel \<Rightarrow> (ER \<times> t_rflg option) \<times> kernel" where
  "tk_ref_flg oid k =
     (case CHECK_FLGID oid k of
        Some e \<Rightarrow> ((e, None), k)
      | None \<Rightarrow>
          let i = get_flgcb oid
          in (if flgid (flg k i) = 0 then (E_NOEXS, None) else (E_OK, Some (flg_info i k)),
              END_CRITICAL_SECTION k))"

definition eventflag_getname :: "ID \<Rightarrow> kernel \<Rightarrow> ER \<times> UB list option" where
  "eventflag_getname oid k =
     (case CHECK_FLGID oid k of
        Some e \<Rightarrow> (e, None)
      | None \<Rightarrow>
          let i = get_flgcb oid
          in if flgid (flg k i) = 0 then (E_NOEXS, None)
             else if flgatr (flg k i) AND TA_DSNAME = 0 then (E_OBJ, None)
             else (E_OK, Some (flg_name (flg k i))))"

definition td_lst_flg :: "int \<Rightarrow> kernel \<Rightarrow> int \<times> ID list" where
  "td_lst_flg nent k =
     id_list (filter (\<lambda>oid. oid \<noteq> 0) (map (\<lambda>i. flgid (flg k i)) [0..<nat (max_flgid k)])) nent"

definition td_ref_flg :: "ID \<Rightarrow> kernel \<Rightarrow> ER \<times> t_rflg option" where
  "td_ref_flg oid k =
     (case CHECK_FLGID oid k of
        Some e \<Rightarrow> (e, None)
      | None \<Rightarrow>
          let i = get_flgcb oid
          in if flgid (flg k i) = 0 then (E_NOEXS, None) else (E_OK, Some (flg_info i k)))"

definition td_flg_que :: "ID \<Rightarrow> int \<Rightarrow> kernel \<Rightarrow> int \<times> ID list" where
  "td_flg_que oid nent k =
     (case CHECK_FLGID oid k of
        Some e \<Rightarrow> (e, [])
      | None \<Rightarrow>
          let i = get_flgcb oid
          in if flgid (flg k i) = 0 then (E_NOEXS, []) else que_ids (que k (FlgQ i)) nent k)"

subsection \<open>Setting a flag: the abstract view\<close>

text \<open>The pattern after a waiter has been served, and all waiters of the list in turn.\<close>

definition flg_clear :: "UW \<Rightarrow> UW \<Rightarrow> UW \<Rightarrow> UW" where
  "flg_clear ptn waiptn wfmode =
     (if wfmode AND TWF_CLR \<noteq> 0 then 0
      else if wfmode AND TWF_BITCLR \<noteq> 0 then ptn AND NOT waiptn else ptn)"

fun flg_serve :: "('t \<Rightarrow> UW) \<Rightarrow> ('t \<Rightarrow> UW) \<Rightarrow> UW \<Rightarrow> 't list \<Rightarrow> UW \<times> ('t \<times> UW) list" where
  "flg_serve w m p [] = (p, [])"
| "flg_serve w m p (t # ts) =
     (if eventflag_cond p (w t) (m t)
      then let (q, rs) = flg_serve w m (flg_clear p (w t) (m t)) ts in (q, (t, p) # rs)
      else flg_serve w m p ts)"

lemma eventflag_cond_zero [simp]: "w \<noteq> 0 \<Longrightarrow> \<not> eventflag_cond 0 w m"
  by (simp add: eventflag_cond_def)

lemma eventflag_cond_mono:
  assumes "eventflag_cond q w m" "q AND p = q"
  shows "eventflag_cond p w m"
proof (cases "m AND TWF_ORW = 0")
  case True
  then have "q AND w = w" using assms(1) by (simp add: eventflag_cond_def)
  then have "p AND w = w" using assms(2) by (metis and.assoc and.commute)
  with True show ?thesis by (simp add: eventflag_cond_def)
next
  case False
  then have "q AND w \<noteq> 0" using assms(1) by (simp add: eventflag_cond_def)
  then have "p AND w \<noteq> 0" using assms(2) by (metis and.assoc and_zero_eq)
  with False show ?thesis by (simp add: eventflag_cond_def)
qed

lemma flg_clear_sub: "flg_clear p w m AND p = flg_clear p w m"
  by (simp add: flg_clear_def and.assoc and.commute and.left_commute)

lemma flg_serve_zero: "(\<And>t. t \<in> set ts \<Longrightarrow> w t \<noteq> 0) \<Longrightarrow> flg_serve w m 0 ts = (0, [])"
  by (induction ts) auto

lemma flg_serve_sub: "fst (flg_serve w m p ts) AND p = fst (flg_serve w m p ts)"
proof (induction ts arbitrary: p)
  case (Cons t ts)
  let ?q = "flg_clear p (w t) (m t)"
  have "fst (flg_serve w m ?q ts) AND p = fst (flg_serve w m ?q ts)"
    using Cons [of ?q] flg_clear_sub [of p "w t" "m t"] by (metis and.assoc)
  then show ?case using Cons [of p] by (auto simp: split_beta Let_def)
qed simp

lemma flg_serve_set: "fst ` set (snd (flg_serve w m p ts)) \<subseteq> set ts"
proof (induction ts arbitrary: p)
  case (Cons t ts)
  then show ?case using Cons [of p] Cons [of "flg_clear p (w t) (m t)"] by (auto simp: split_beta Let_def)
qed simp

text \<open>Nobody is left whose condition holds of the pattern in the end.\<close>

lemma flg_serve_rest:
  "t \<in> set ts \<Longrightarrow> t \<notin> fst ` set (snd (flg_serve w m p ts)) \<Longrightarrow>
   \<not> eventflag_cond (fst (flg_serve w m p ts)) (w t) (m t)"
proof (induction ts arbitrary: p)
  case (Cons a ts)
  show ?case
  proof (cases "eventflag_cond p (w a) (m a)")
    case True
    then show ?thesis using Cons by (auto simp: split_beta Let_def)
  next
    case False
    show ?thesis
    proof (cases "t \<in> set ts")
      case True
      then show ?thesis using Cons False by simp
    next
      case no: False
      then have "t = a" using Cons.prems by simp
      with False show ?thesis using eventflag_cond_mono [OF _ flg_serve_sub [of w m p ts]] by auto
    qed
  qed
qed simp

text \<open>Whoever is served had his condition met by the pattern he gets.\<close>

lemma flg_serve_cond:
  "(t, v) \<in> set (snd (flg_serve w m p ts)) \<Longrightarrow> eventflag_cond v (w t) (m t)"
proof (induction ts arbitrary: p)
  case (Cons a ts)
  then show ?case by (auto simp: split_beta Let_def split: if_splits)
qed simp

subsection \<open>The loop does what \<open>flg_serve\<close> says\<close>

definition flg_want :: "kernel \<Rightarrow> tid \<Rightarrow> UW" where
  "flg_want k t = flg_waiptn (winfo (tcb k t))"

definition flg_mode :: "kernel \<Rightarrow> tid \<Rightarrow> UW" where
  "flg_mode k t = flg_wfmode (winfo (tcb k t))"

definition flg_addr :: "kernel \<Rightarrow> tid \<Rightarrow> nat" where
  "flg_addr k t = flg_p_flgptn (winfo (tcb k t))"

text \<open>The patterns are stored through the waiters' pointers, in the order of service.\<close>

definition store_patterns :: "kernel \<Rightarrow> (tid \<times> UW) list \<Rightarrow> (nat \<Rightarrow> UW) \<Rightarrow> nat \<Rightarrow> UW" where
  "store_patterns k rs m = fold (\<lambda>(t, v) m. m(flg_addr k t := v)) rs m"

lemma upd_flg_frame [simp]:
  "objs (upd_flg i f k) = upd_flg i f (objs k)" "tcb_table (upd_flg i f k) = tcb_table k"
  "que (upd_flg i f k) = que k" "flgcb_table (upd_flg i f k) = (flgcb_table k)(i := f (flg k i))"
  "timer_queue (upd_flg i f k) = timer_queue k" "ctxtsk (upd_flg i f k) = ctxtsk k"
  "NUM_TSKID (upd_flg i f k) = NUM_TSKID k" "max_flgid (upd_flg i f k) = max_flgid k"
  "free_flgcb (upd_flg i f k) = free_flgcb k" "schedtsk (upd_flg i f k) = schedtsk k"
  "self (upd_flg i f k) = self k" "tmebs (upd_flg i f k) = tmebs k" "mem_uint (upd_flg i f k) = mem_uint k"
  by (simp_all add: upd_flg_def objs_def NUM_TSKID_def self_def)

lemma upd_flg_upd_flg [simp]: "upd_flg i f (upd_flg i g k) = upd_flg i (f \<circ> g) k"
  by (simp add: upd_flg_def)

lemma kinv_upd_flg [intro]: "kinv X k \<Longrightarrow> kinv X (upd_flg i f k)"
  by (erule kinv_objs_cong) (simp_all add: upd_flg_def NUM_TSKID_def)

lemma kinv_mem_uint [intro]: "kinv X k \<Longrightarrow> kinv X (k\<lparr>mem_uint := m\<rparr>)"
  by (erule kinv_objs_cong) (simp_all add: NUM_TSKID_def)

definition flg_served :: "nat \<Rightarrow> tid list \<Rightarrow> kernel \<Rightarrow> kernel \<Rightarrow> bool" where
  "flg_served i ts k k' \<longleftrightarrow>
     (let (p, rs) = flg_serve (flg_want k) (flg_mode k) (flgptn (flg k i)) ts
      in released (fst ` set rs) E_OK k k' \<and>
         objs k' = objs (upd_flg i (\<lambda>c. c\<lparr>flgptn := p\<rparr>)
           (k\<lparr>mem_uint := store_patterns k rs (mem_uint k)\<rparr>)))"

lemma flg_served_none:
  assumes "kinv {} k" "flg_serve (flg_want k) (flg_mode k) (flgptn (flg k i)) ts = (flgptn (flg k i), [])"
  shows "flg_served i ts k k"
proof -
  have "upd_flg i (\<lambda>c. c\<lparr>flgptn := flgptn (flg k i)\<rparr>) k = k" by (simp add: upd_flg_def)
  then show ?thesis
    using assms by (simp add: flg_served_def Let_def released_refl store_patterns_def del: upd_flg_frame)
qed

lemma flg_round:
  assumes inv: "kinv {} k" and t: "t \<in> set (que k (FlgQ i))"
    and k': "k' = upd_flg i f (wait_release_ok t (k\<lparr>mem_uint := m\<rparr>))"
  shows "released {t} E_OK k k'" "objs k' = objs (upd_flg i f (k\<lparr>mem_uint := m\<rparr>))"
proof -
  have w: "t < NUM_TSKID k" "ts_wait (state (tcb k t))" using kinv_waiter [OF inv t] by simp_all
  let ?m = "k\<lparr>mem_uint := m\<rparr>"
  have m: "kinv {} ?m" using inv by (rule kinv_mem_uint)
  have N: "NUM_TSKID ?m = NUM_TSKID k" by (simp add: NUM_TSKID_def)
  have "released {t} E_OK ?m (wait_release_ok t ?m)"
    using released_single [OF m, of t E_OK] w by (simp add: N wait_release_ok_def)
  then have "released {t} E_OK k (wait_release_ok t ?m)"
    using N unfolding released_def by simp
  then show "released {t} E_OK k k'"
    unfolding k' by (rule released_cong) (auto intro: releasedD(1) \<open>released {t} E_OK ?m (wait_release_ok t ?m)\<close>)
  show "objs k' = objs (upd_flg i f (k\<lparr>mem_uint := m\<rparr>))"
    unfolding k' by (simp add: wait_release_ok_def)
qed

lemma released_flg_want:
  assumes "released T e k k'"
  shows "flg_want k' = flg_want k" "flg_mode k' = flg_mode k" "flg_addr k' = flg_addr k"
  using core_eqD(13) [OF releasedD(6) [OF assms]]
  by (simp_all add: flg_want_def flg_mode_def flg_addr_def fun_eq_iff)

lemma flg_served_round:
  assumes inv: "kinv {} k" and t: "t \<in> set (que k (FlgQ i))"
    and cond: "eventflag_cond (flgptn (flg k i)) (flg_want k t) (flg_mode k t)"
    and f: "flgptn (f (flg k i)) = flg_clear (flgptn (flg k i)) (flg_want k t) (flg_mode k t)"
      "\<And>c p. (f c)\<lparr>flgptn := p\<rparr> = c\<lparr>flgptn := p\<rparr>"
    and k': "k' = upd_flg i f (wait_release_ok t (k\<lparr>mem_uint := (mem_uint k)(flg_addr k t := flgptn (flg k i))\<rparr>))"
    and rest: "flg_served i ts k' k''"
  shows "flg_served i (t # ts) k k''"
proof -
  let ?m = "(mem_uint k)(flg_addr k t := flgptn (flg k i))"
  note r = flg_round [OF inv t k']
  have fl: "flgptn (flg k' i) = flg_clear (flgptn (flg k i)) (flg_want k t) (flg_mode k t)"
    using objs_eqD(19) [OF r(2)] f(1) by simp
  have mem: "mem_uint k' = ?m" using objs_eqD(31) [OF r(2)] by simp
  note w = released_flg_want [OF r(1)]
  obtain p rs where sv: "flg_serve (flg_want k) (flg_mode k) (flgptn (flg k' i)) ts = (p, rs)" by fastforce
  have st: "store_patterns k' rs = store_patterns k rs" by (simp add: store_patterns_def w fun_eq_iff)
  have rel: "released (fst ` set rs) E_OK k' k''"
    and ob: "objs k'' = objs (upd_flg i (\<lambda>c. c\<lparr>flgptn := p\<rparr>) (k'\<lparr>mem_uint := store_patterns k rs ?m\<rparr>))"
    using rest by (simp_all add: flg_served_def w sv Let_def st mem)
  have "released (insert t (fst ` set rs)) E_OK k k''" using released_trans [OF r(1) rel] by simp
  moreover have "objs k'' = objs (upd_flg i (\<lambda>c. c\<lparr>flgptn := p\<rparr>) (k\<lparr>mem_uint := store_patterns k rs ?m\<rparr>))"
  proof -
    have o: "objs (k\<lparr>mem_uint := m\<rparr>) = (objs k)\<lparr>mem_uint := m\<rparr>" for k m by (simp add: objs_def)
    have "(\<lambda>c. c\<lparr>flgptn := p\<rparr>) \<circ> f = (\<lambda>c. c\<lparr>flgptn := p\<rparr>)" using f(2) by (simp add: fun_eq_iff)
    moreover have "(upd_flg i f k)\<lparr>mem_uint := m\<rparr> = upd_flg i f (k\<lparr>mem_uint := m\<rparr>)" for k m
      by (simp add: upd_flg_def)
    ultimately show ?thesis using ob r(2) by (simp add: o)
  qed
  moreover have "store_patterns k ((t, flgptn (flg k i)) # rs) (mem_uint k) = store_patterns k rs ?m"
    by (simp add: store_patterns_def)
  ultimately show ?thesis
    using cond sv fl by (simp add: flg_served_def Let_def split_beta)
qed

lemma flg_set_loop_served:
  assumes "kinv {} k" "set ts \<subseteq> set (que k (FlgQ i))" "distinct ts"
    and "\<And>t. t \<in> set ts \<Longrightarrow> flg_want k t \<noteq> 0"
  shows "flg_served i ts k (flg_set_loop i ts k)"
  using assms
proof (induction ts arbitrary: k)
  case Nil
  then show ?case by (simp add: flg_served_none)
next
  case (Cons t ts)
  show ?case
  proof (cases "eventflag_cond (flgptn (flg k i)) (flg_want k t) (flg_mode k t)")
    case False
    then have "flg_served i ts k (flg_set_loop i ts k)" using Cons.prems by (intro Cons.IH) auto
    then show ?thesis
      using False by (simp add: flg_served_def) (simp add: flg_want_def flg_mode_def)
  next
    case True
    let ?p = "flgptn (flg k i)" and ?w = "flg_want k t" and ?m = "flg_mode k t"
    let ?k0 = "wait_release_ok t (k\<lparr>mem_uint := (mem_uint k)(flg_addr k t := ?p)\<rparr>)"
    let ?bit = "?m AND TWF_BITCLR \<noteq> 0" and ?clr = "?m AND TWF_CLR \<noteq> 0"
    let ?f = "\<lambda>c. c\<lparr>flgptn := flg_clear (flgptn c) ?w ?m\<rparr>"
    let ?k1 = "upd_flg i ?f ?k0"
    have t: "t \<in> set (que k (FlgQ i))" using Cons.prems by simp
    note r = flg_round [OF Cons.prems(1) t refl, of ?f]
    have k1: "kinv {} ?k1" by (rule releasedD(1) [OF r(1)])
    have fl: "flgptn (flg ?k1 i) = flg_clear ?p ?w ?m" by simp
    have want: "u \<in> set ts \<Longrightarrow> flg_want ?k1 u \<noteq> 0" for u
      using Cons.prems(4) released_flg_want [OF r(1)] by simp
    note step = flg_served_round [OF Cons.prems(1) t True _ _ refl, of ?f ts]
    have loop: "flg_set_loop i (t # ts) k =
        (if (?bit \<and> ?p AND NOT ?w = 0) \<or> ?clr then ?k1 else flg_set_loop i ts ?k1)"
    proof -
      let ?kb = "if ?bit then upd_flg i (\<lambda>c. c\<lparr>flgptn := flgptn c AND NOT ?w\<rparr>) ?k0 else ?k0"
      have l: "flg_set_loop i (t # ts) k =
          (if ?bit \<and> flgptn (flg ?kb i) = 0 then ?kb
           else if ?clr then upd_flg i (\<lambda>c. c\<lparr>flgptn := 0\<rparr>) ?kb else flg_set_loop i ts ?kb)"
        using True unfolding flg_want_def flg_mode_def flg_addr_def by (simp only: flg_set_loop.simps Let_def if_True)
      have z: "?bit \<Longrightarrow> flgptn (flg ?kb i) = ?p AND NOT ?w" by simp
      have kb: "?kb = upd_flg i (\<lambda>c. c\<lparr>flgptn := flgptn (flg ?kb i)\<rparr>) ?k0"
        by (simp add: upd_flg_def)
      have k1: "?k1 = upd_flg i (\<lambda>c. c\<lparr>flgptn := flg_clear ?p ?w ?m\<rparr>) ?k0"
        by (simp add: upd_flg_def)
      have clr: "?clr \<Longrightarrow> upd_flg i (\<lambda>c. c\<lparr>flgptn := 0\<rparr>) ?kb = ?k1"
        by (simp add: flg_clear_def comp_def)
      have bit: "?bit \<Longrightarrow> \<not> ?clr \<or> ?p AND NOT ?w = 0 \<Longrightarrow> ?kb = ?k1"
        unfolding k1 by (subst kb) (auto simp: flg_clear_def)
      have no: "\<not> ?bit \<Longrightarrow> \<not> ?clr \<Longrightarrow> ?kb = ?k1"
        unfolding k1 by (subst kb) (auto simp: flg_clear_def)
      show ?thesis
        unfolding l using z clr bit no by (cases ?bit; cases ?clr) (auto simp del: upd_flg_frame)
    qed
    show ?thesis
    proof (cases "(?bit \<and> ?p AND NOT ?w = 0) \<or> ?clr")
      case True
      then have z: "flgptn (flg ?k1 i) = 0" unfolding fl by (auto simp: flg_clear_def)
      have "flg_served i ts ?k1 ?k1"
        by (rule flg_served_none [OF k1]) (simp add: z flg_serve_zero want del: upd_flg_frame)
      then show ?thesis unfolding loop if_P [OF True] by (rule step [rotated 2]) simp_all
    next
      case False
      have "set ts \<subseteq> set (que ?k1 (FlgQ i))"
        using Cons.prems releasedD(9) [OF r(1), of "FlgQ i"] by auto
      then have "flg_served i ts ?k1 (flg_set_loop i ts ?k1)"
        using k1 want Cons.prems(3) by (intro Cons.IH) simp_all
      then show ?thesis unfolding loop if_not_P [OF False] by (rule step [rotated 2]) simp_all
    qed
  qed
qed

subsection \<open>The invariant of event flags\<close>

definition flg_wspec :: "UW \<Rightarrow> wspec" where
  "flg_wspec atr = (if atr AND TA_TPRI \<noteq> 0 then WSPEC_FLG_TPRI else WSPEC_FLG_TFIFO)"

definition flg_ok :: "nat \<Rightarrow> kernel \<Rightarrow> bool" where
  "flg_ok i k \<longleftrightarrow>
     (if flgid (flg k i) = 0 then que k (FlgQ i) = []
      else wq_ok (FlgQ i) (flgatr (flg k i)) (flgid (flg k i)) (flg_wspec (flgatr (flg k i))) k \<and>
        (flgatr (flg k i) AND TA_WMUL = 0 \<longrightarrow> length (que k (FlgQ i)) \<le> 1) \<and>
        (\<forall>t \<in> set (que k (FlgQ i)). flg_want k t \<noteq> 0 \<and>
           \<not> eventflag_cond (flgptn (flg k i)) (flg_want k t) (flg_mode k t)))"

definition flg_inv :: "kernel \<Rightarrow> bool" where
  "flg_inv k \<longleftrightarrow>
     pool_ok (free_flgcb k) (\<lambda>i. flgid (flg k i)) (nat (max_flgid k)) \<and>
     (\<forall>i < nat (max_flgid k). flg_ok i k)"

definition flg_sys :: "kernel \<Rightarrow> bool" where
  "flg_sys k \<longleftrightarrow> kernel_ok k \<and> flg_inv k"

lemma same_tcb_flg: "same_tcb (tcb k' t) (tcb k t) \<Longrightarrow> flg_want k' t = flg_want k t \<and> flg_mode k' t = flg_mode k t"
  by (simp add: same_tcb_def flg_want_def flg_mode_def)

lemma flg_ok_cong:
  assumes "flg k' i = flg k i" "que k' (FlgQ i) = que k (FlgQ i)"
    "\<And>t. t \<in> set (que k (FlgQ i)) \<Longrightarrow> same_tcb (tcb k' t) (tcb k t)"
  shows "flg_ok i k' = flg_ok i k"
proof -
  have w: "wq_ok (FlgQ i) a d w k' = wq_ok (FlgQ i) a d w k" for a d w
    by (rule wq_ok_cong [OF assms(2)]) (rule assms(3))
  show ?thesis unfolding flg_ok_def assms(1,2) w using same_tcb_flg [OF assms(3)] by auto
qed

lemma flg_inv_cong:
  assumes "\<And>i. flg k' i = flg k i" "\<And>i. que k' (FlgQ i) = que k (FlgQ i)"
    "free_flgcb k' = free_flgcb k" "max_flgid k' = max_flgid k"
    "\<And>i t. t \<in> set (que k (FlgQ i)) \<Longrightarrow> same_tcb (tcb k' t) (tcb k t)"
  shows "flg_inv k' = flg_inv k"
  using flg_ok_cong [of k' _ k] assms by (simp add: flg_inv_def)

lemma flg_inv_one:
  assumes inv: "flg_inv k" and i: "flg_ok i k'"
    and pool: "pool_ok (free_flgcb k') (\<lambda>i. flgid (flg k' i)) (nat (max_flgid k'))"
    and same: "max_flgid k' = max_flgid k" "\<And>j. j \<noteq> i \<Longrightarrow> flg k' j = flg k j"
      "\<And>j. j \<noteq> i \<Longrightarrow> que k' (FlgQ j) = que k (FlgQ j)"
      "\<And>j t. j \<noteq> i \<Longrightarrow> t \<in> set (que k (FlgQ j)) \<Longrightarrow> same_tcb (tcb k' t) (tcb k t)"
  shows "flg_inv k'"
proof -
  have "flg_ok j k'" if "j < nat (max_flgid k)" for j
  proof (cases "j = i")
    case False
    then have "flg_ok j k' = flg_ok j k" by (intro flg_ok_cong same) auto
    with inv that show ?thesis by (simp add: flg_inv_def)
  qed (simp add: i)
  then show ?thesis using pool by (simp add: flg_inv_def same(1))
qed

lemma flg_inv_pool: "flg_inv k \<Longrightarrow> pool_ok (free_flgcb k) (\<lambda>i. flgid (flg k i)) (nat (max_flgid k))"
  by (simp add: flg_inv_def)

lemma flg_inv_ok: "flg_inv k \<Longrightarrow> i < nat (max_flgid k) \<Longrightarrow> flg_ok i k"
  by (simp add: flg_inv_def)

lemma flg_sysI: "kinv {} k \<Longrightarrow> flg_inv k \<Longrightarrow> flg_sys (END_CRITICAL_SECTION k)"
  using flg_inv_cong [of "END_CRITICAL_SECTION k" k]
  by (simp add: flg_sys_def kernel_ok_END_CRITICAL_SECTION same_tcb_def)

lemma flg_sysD: "flg_sys k \<Longrightarrow> kernel_ok k" "flg_sys k \<Longrightarrow> kinv {} k" "flg_sys k \<Longrightarrow> flg_inv k"
  by (simp_all add: flg_sys_def kernel_ok_kinv)

lemma flg_sys_quiet: "flg_sys k \<Longrightarrow> k' \<in> {k, END_CRITICAL_SECTION k} \<Longrightarrow> flg_sys k'"
  using flg_sysI flg_sysD by blast

lemma CHECK_FLGID_index:
  "CHECK_FLGID oid k = None \<Longrightarrow> get_flgcb oid < nat (max_flgid k) \<and> oid = ID_of (get_flgcb oid)"
  by (auto simp: CHECK_FLGID_def get_flgcb_def INDEX_def ID_of_def)

lemma flg_inv_live:
  assumes "flg_inv k" "i < nat (max_flgid k)" "flgid (flg k i) \<noteq> 0"
  shows "flgid (flg k i) = ID_of i"
    "wq_ok (FlgQ i) (flgatr (flg k i)) (flgid (flg k i)) (flg_wspec (flgatr (flg k i))) k"
    "flgatr (flg k i) AND TA_WMUL = 0 \<Longrightarrow> length (que k (FlgQ i)) \<le> 1"
    "t \<in> set (que k (FlgQ i)) \<Longrightarrow> flg_want k t \<noteq> 0"
    "t \<in> set (que k (FlgQ i)) \<Longrightarrow> \<not> eventflag_cond (flgptn (flg k i)) (flg_want k t) (flg_mode k t)"
  using assms pool_ok_live [of "free_flgcb k" "\<lambda>i. flgid (flg k i)"]
  by (auto simp: flg_inv_def flg_ok_def ID_of_def)

lemma flgid_upd: "(\<lambda>j. flgid (if j = i then c else f j)) = (\<lambda>j. flgid (f j))(i := flgid c)"
  by auto

lemma flgid_upd_same:
  "(\<And>c. flgid (f c) = flgid c) \<Longrightarrow> (\<lambda>j. flgid (flg (upd_flg i f k) j)) = (\<lambda>j. flgid (flg k j))"
  by (auto simp: fun_eq_iff)

lemma released_flg_ok_other:
  assumes "kinv {} k" "released T e k k'" "T \<subseteq> set (que k h)" "h \<noteq> FlgQ j" "flg k' j = flg k j"
  shows "flg_ok j k' = flg_ok j k"
  using assms released_other [OF assms(1-3), of "FlgQ j"] released_same [OF assms(2)]
  by (intro flg_ok_cong) auto

lemma released_flg_inv:
  assumes "kinv {} k" "released T e k k'" "T \<subseteq> set (que k h)" "\<And>j. h \<noteq> FlgQ j"
    and "flgcb_table k' = flgcb_table k" "free_flgcb k' = free_flgcb k" "max_flgid k' = max_flgid k"
  shows "flg_inv k' = flg_inv k"
  using released_flg_ok_other [OF assms(1-3)] assms(4-7) by (simp add: flg_inv_def)

lemma flg_served_parts:
  assumes "flg_served i ts k k'"
    and sv: "flg_serve (flg_want k) (flg_mode k) (flgptn (flg k i)) ts = (p, rs)"
  shows "released (fst ` set rs) E_OK k k'"
    "objs k' = objs (upd_flg i (\<lambda>c. c\<lparr>flgptn := p\<rparr>) (k\<lparr>mem_uint := store_patterns k rs (mem_uint k)\<rparr>))"
    "flg k' = (flg k)(i := (flg k i)\<lparr>flgptn := p\<rparr>)" "max_flgid k' = max_flgid k"
    "free_flgcb k' = free_flgcb k" "mem_uint k' = store_patterns k rs (mem_uint k)"
proof -
  show "released (fst ` set rs) E_OK k k'" and ob:
    "objs k' = objs (upd_flg i (\<lambda>c. c\<lparr>flgptn := p\<rparr>) (k\<lparr>mem_uint := store_patterns k rs (mem_uint k)\<rparr>))"
    using assms by (simp_all add: flg_served_def)
  show "flg k' = (flg k)(i := (flg k i)\<lparr>flgptn := p\<rparr>)" "max_flgid k' = max_flgid k"
    "free_flgcb k' = free_flgcb k" "mem_uint k' = store_patterns k rs (mem_uint k)"
    using objs_eqD(3,19,20,31) [OF ob] by (simp_all add: fun_upd_def)
qed

subsection \<open>The calls keep the invariant\<close>

text \<open>After a set the flag is in order again.\<close>

lemma flg_served_inv:
  assumes inv: "kinv {} k" and s: "flg_served i (que k (FlgQ i)) k k'"
    and live: "flgid (flg k i) \<noteq> 0"
      "wq_ok (FlgQ i) (flgatr (flg k i)) (flgid (flg k i)) (flg_wspec (flgatr (flg k i))) k"
      "flgatr (flg k i) AND TA_WMUL = 0 \<Longrightarrow> length (que k (FlgQ i)) \<le> 1"
      "\<And>t. t \<in> set (que k (FlgQ i)) \<Longrightarrow> flg_want k t \<noteq> 0"
    and pool: "pool_ok (free_flgcb k) (\<lambda>i. flgid (flg k i)) (nat (max_flgid k))"
    and others: "\<And>j. j < nat (max_flgid k) \<Longrightarrow> j \<noteq> i \<Longrightarrow> flg_ok j k"
  shows "kinv {} k'" "flg_inv k'"
proof -
  let ?q = "que k (FlgQ i)"
  obtain p rs where sv: "flg_serve (flg_want k) (flg_mode k) (flgptn (flg k i)) ?q = (p, rs)" by fastforce
  note parts = flg_served_parts [OF s sv]
  note r = parts(1)
  show "kinv {} k'" by (rule releasedD(1) [OF r])
  have T: "fst ` set rs \<subseteq> set ?q" using flg_serve_set [of "flg_want k" "flg_mode k" "flgptn (flg k i)" ?q] sv by simp
  have q: "que k' (FlgQ i) = filter (\<lambda>u. u \<notin> fst ` set rs) ?q" by (rule releasedD(9) [OF r]) simp
  note w = released_flg_want [OF r]
  have "\<not> eventflag_cond p (flg_want k t) (flg_mode k t)" if "t \<in> set (que k' (FlgQ i))" for t
    using flg_serve_rest [of t ?q "flg_want k" "flg_mode k" "flgptn (flg k i)"] sv that by (auto simp: q)
  moreover have "length (que k' (FlgQ i)) \<le> 1" if "flgatr (flg k i) AND TA_WMUL = 0"
    using live(3) [OF that] length_filter_le [of _ ?q] unfolding q by (rule le_trans [rotated])
  moreover have "flg_want k t \<noteq> 0" if "t \<in> set (que k' (FlgQ i))" for t
    using live(4) [of t] that by (simp add: q)
  ultimately have "flg_ok i k'"
    using live(1) wq_ok_released [OF live(2) r] by (simp add: flg_ok_def parts(3) w)
  moreover have "flg_ok j k'" if "j < nat (max_flgid k)" "j \<noteq> i" for j
    using released_flg_ok_other [OF inv r T, of j] others [OF that] that by (simp add: parts(3))
  moreover have "pool_ok (free_flgcb k') (\<lambda>i. flgid (flg k' i)) (nat (max_flgid k'))"
  proof -
    have "(\<lambda>i. flgid (flg k' i)) = (\<lambda>i. flgid (flg k i))" by (auto simp: parts(3) fun_eq_iff)
    with pool show ?thesis by (simp add: parts(4,5))
  qed
  ultimately show "flg_inv k'" by (auto simp: flg_inv_def parts(4))
qed

lemma flg_set_served:
  assumes sys: "flg_sys k" and i: "i < nat (max_flgid k)" "flgid (flg k i) \<noteq> 0"
    and k1: "k1 = upd_flg i (\<lambda>c. c\<lparr>flgptn := flgptn c OR setptn\<rparr>) k"
  shows "flg_served i (que k (FlgQ i)) k1 (flg_set_loop i (que k (FlgQ i)) k1)"
proof (rule flg_set_loop_served)
  show "kinv {} k1" unfolding k1 by (rule kinv_upd_flg [OF flg_sysD(2) [OF sys]])
  show "distinct (que k (FlgQ i))" by (rule qinv_distinct [OF kinvD(1) [OF flg_sysD(2) [OF sys]]])
  show "flg_want k1 t \<noteq> 0" if "t \<in> set (que k (FlgQ i))" for t
    using flg_inv_live(4) [OF flg_sysD(3) [OF sys] i that] by (simp add: k1 flg_want_def)
qed (simp add: k1)

lemma tk_set_flg_sys:
  assumes sys: "flg_sys k"
  shows "flg_sys (snd (tk_set_flg oid setptn k))"
proof (cases "CHECK_FLGID oid k = None \<and> flgid (flg k (get_flgcb oid)) \<noteq> 0")
  case False
  then have "snd (tk_set_flg oid setptn k) \<in> {k, END_CRITICAL_SECTION k}"
    by (auto simp: tk_set_flg_def checked_def Let_def split: option.splits)
  then show ?thesis by (rule flg_sys_quiet [OF sys])
next
  case True
  let ?i = "get_flgcb oid"
  let ?k1 = "upd_flg ?i (\<lambda>c. c\<lparr>flgptn := flgptn c OR setptn\<rparr>) k"
  let ?k2 = "flg_set_loop ?i (que k (FlgQ ?i)) ?k1"
  have il: "?i < nat (max_flgid k)" using CHECK_FLGID_index True by simp
  note inv = flg_sysD(3) [OF sys]
  have live: "flgid (flg k ?i) \<noteq> 0" using True by simp
  note lv = flg_inv_live [OF inv il live]
  have k1: "kinv {} ?k1" by (rule kinv_upd_flg [OF flg_sysD(2) [OF sys]])
  have s: "flg_served ?i (que ?k1 (FlgQ ?i)) ?k1 ?k2" using flg_set_served [OF sys il live refl] by simp
  have ok: "wq_ok h a d w ?k1 = wq_ok h a d w k" for h a d w by (simp add: wq_ok_def)
  have others: "flg_ok j ?k1" if "j < nat (max_flgid ?k1)" "j \<noteq> ?i" for j
    using flg_inv_ok [OF inv] that by (subst flg_ok_cong [of _ _ k]) (simp_all add: same_tcb_def)
  have pool: "pool_ok (free_flgcb ?k1) (\<lambda>i. flgid (flg ?k1 i)) (nat (max_flgid ?k1))"
    using flg_inv_pool [OF inv] by (simp add: flgid_upd_same del: upd_flg_frame(4))
  have "kinv {} ?k2" "flg_inv ?k2"
    using flg_served_inv [OF k1 s _ _ _ _ pool others] lv live by (simp_all add: ok flg_want_def)
  with True show ?thesis by (simp add: tk_set_flg_def checked_def Let_def flg_sysI)
qed

lemma tk_clr_flg_sys:
  assumes sys: "flg_sys k"
  shows "flg_sys (snd (tk_clr_flg oid clrptn k))"
proof (cases "CHECK_FLGID oid k = None \<and> flgid (flg k (get_flgcb oid)) \<noteq> 0")
  case False
  then have "snd (tk_clr_flg oid clrptn k) \<in> {k, END_CRITICAL_SECTION k}"
    by (auto simp: tk_clr_flg_def checked_def Let_def split: option.splits)
  then show ?thesis by (rule flg_sys_quiet [OF sys])
next
  case True
  let ?i = "get_flgcb oid"
  let ?k = "upd_flg ?i (\<lambda>c. c\<lparr>flgptn := flgptn c AND clrptn\<rparr>) k"
  note inv = flg_sysD(3) [OF sys]
  have sub: "(p AND clrptn) AND p = p AND clrptn" for p :: UW by (simp add: and.commute and.left_commute)
  have ok: "wq_ok h a d w ?k = wq_ok h a d w k" for h a d w by (simp add: wq_ok_def)
  have "flg_ok ?i ?k"
    using flg_inv_ok [OF inv, of ?i] CHECK_FLGID_index [of oid k] True
      eventflag_cond_mono [OF _ sub [of "flgptn (flg k ?i)"]]
    by (auto simp: flg_ok_def ok) (auto simp: flg_want_def flg_mode_def)
  then have "flg_inv ?k"
    by (rule flg_inv_one [OF inv]) (use flg_inv_pool [OF inv] in \<open>simp_all add: flgid_upd_same same_tcb_def del: upd_flg_frame(4)\<close>, simp)
  with True kinv_upd_flg [OF flg_sysD(2) [OF sys]] show ?thesis
    by (simp add: tk_clr_flg_def checked_def Let_def flg_sysI)
qed

text \<open>Waiting on a flag.\<close>

definition wai_flg_ok :: "ID \<Rightarrow> UW \<Rightarrow> UW \<Rightarrow> D \<Rightarrow> kernel \<Rightarrow> bool" where
  "wai_flg_ok oid waiptn wfmode tmout k \<longleftrightarrow>
     first_error [CHECK_FLGID oid k, CHECK_PAR (waiptn \<noteq> 0),
       CHECK_PAR (wfmode AND NOT (TWF_ORW OR TWF_CLR OR TWF_BITCLR) = 0),
       CHECK_TMOUT tmout, CHECK_DISPATCH k] = None \<and>
     (let c = flg k (get_flgcb oid)
      in flgid c \<noteq> 0 \<and> \<not> (flgatr c AND TA_WMUL = 0 \<and> \<not> isQueEmpty (FlgQ (get_flgcb oid)) (que k)) \<and>
         \<not> is_diswai (flgatr c) (tcb k (self k)) TTW_FLG)"

definition flg_wait_state :: "nat \<Rightarrow> UW \<Rightarrow> UW \<Rightarrow> nat \<Rightarrow> kernel \<Rightarrow> kernel" where
  "flg_wait_state i w m p k =
     upd_tcb (self k) (\<lambda>tc. tc\<lparr>wspec := flg_wspec (flgatr (flg k i)), wercd := E_OK, winfo := WINFO_FLG w m p\<rparr>) k"

text \<open>The state after a condition that held at once.\<close>

definition flg_take :: "nat \<Rightarrow> UW \<Rightarrow> UW \<Rightarrow> nat \<Rightarrow> kernel \<Rightarrow> kernel" where
  "flg_take i w m p k =
     upd_flg i (\<lambda>c. c\<lparr>flgptn := flg_clear (flgptn c) w m\<rparr>)
       (k\<lparr>mem_uint := (mem_uint k)(p := flgptn (flg k i))\<rparr>)"

lemma flg_take_code:
  "(let k = k\<lparr>mem_uint := (mem_uint k)(p := flgptn (flg k i))\<rparr>;
        k = (if m AND TWF_BITCLR \<noteq> 0 then upd_flg i (\<lambda>c. c\<lparr>flgptn := flgptn c AND NOT w\<rparr>) k else k)
    in if m AND TWF_CLR \<noteq> 0 then upd_flg i (\<lambda>c. c\<lparr>flgptn := 0\<rparr>) k else k) = flg_take i w m p k"
  by (simp add: flg_take_def flg_clear_def Let_def comp_def) (simp add: upd_flg_def)

lemma tk_wai_flg_u_eq:
  assumes ok: "wai_flg_ok oid w m tmout k" and i: "i = get_flgcb oid"
  shows "tk_wai_flg_u oid w m p tmout k =
    (if eventflag_cond (flgptn (flg k i)) w m then (E_OK, END_CRITICAL_SECTION (flg_take i w m p k))
     else
       let k' = gcb_make_wait_with_diswai (FlgQ i) (flgid (flg k i)) (flgatr (flg k i)) tmout
                  (flg_wait_state i w m p k)
       in (wercd (tcb k' (self k)), END_CRITICAL_SECTION k'))"
proof -
  have c: "first_error [CHECK_FLGID oid k, CHECK_PAR (w \<noteq> 0),
       CHECK_PAR (m AND NOT (TWF_ORW OR TWF_CLR OR TWF_BITCLR) = 0),
       CHECK_TMOUT tmout, CHECK_DISPATCH k] = None"
    "(flgid (flg k i) = 0) = False"
    "(flgatr (flg k i) AND TA_WMUL = 0 \<and> \<not> isQueEmpty (FlgQ i) (que k)) = False"
    "is_diswai (flgatr (flg k i)) (tcb k (self k)) TTW_FLG = False"
    using ok by (simp_all add: wai_flg_ok_def i Let_def del: first_error.simps)
  show ?thesis
    unfolding tk_wai_flg_u_def checked_def c(1) option.case i [symmetric]
    by (simp only: c Let_def if_False flg_take_code [unfolded Let_def] flg_wait_state_def flg_wspec_def)
qed

lemma flg_wait_home [simp]: "wait_home (flg_wspec atr) oid = Some (FlgQ (INDEX oid))"
  "tskwait (flg_wspec atr) = TTW_FLG"
  by (simp_all add: flg_wspec_def)

lemma wai_flg_okD:
  assumes sys: "flg_sys k" and ok: "wai_flg_ok oid w m tmout k" and i: "i = get_flgcb oid"
  shows "i < nat (max_flgid k)" "flgid (flg k i) = ID_of i" "flgid (flg k i) \<noteq> 0" "w \<noteq> 0"
    "self k < NUM_TSKID k" "state (tcb k (self k)) = TS_READY"
    "\<not> is_diswai (flgatr (flg k i)) (tcb k (self k)) TTW_FLG"
    "flgatr (flg k i) AND TA_WMUL = 0 \<Longrightarrow> que k (FlgQ i) = []"
proof -
  have c: "CHECK_FLGID oid k = None" "CHECK_DISPATCH k = None" "w \<noteq> 0" "flgid (flg k i) \<noteq> 0"
    using ok by (simp_all add: wai_flg_ok_def i first_error_None_iff CHECK_PAR_def Let_def del: first_error.simps)
  show il: "i < nat (max_flgid k)" using CHECK_FLGID_index [OF c(1)] by (simp add: i)
  show "flgid (flg k i) \<noteq> 0" "w \<noteq> 0" by (fact c)+
  show "flgid (flg k i) = ID_of i" by (rule flg_inv_live(1) [OF flg_sysD(3) [OF sys] il c(4)])
  show "self k < NUM_TSKID k" "state (tcb k (self k)) = TS_READY"
    using kernel_ok_dispatch [OF flg_sysD(1) [OF sys] c(2)] by simp_all
  show "\<not> is_diswai (flgatr (flg k i)) (tcb k (self k)) TTW_FLG"
    "flgatr (flg k i) AND TA_WMUL = 0 \<Longrightarrow> que k (FlgQ i) = []"
    using ok by (auto simp: wai_flg_ok_def i Let_def isQueEmpty_def)
qed

lemma flg_wait_inv:
  assumes sys: "flg_sys k" and ok: "wai_flg_ok oid w m tmout k" and i: "i = get_flgcb oid"
    and no: "\<not> eventflag_cond (flgptn (flg k i)) w m"
    and k': "k' = gcb_make_wait_with_diswai (FlgQ i) (flgid (flg k i)) (flgatr (flg k i)) tmout
      (flg_wait_state i w m p k)"
  shows "kinv {} k'" "flg_inv k'"
    "tmout \<noteq> TMO_POL \<Longrightarrow> task_waits (FlgQ i) (flg_wspec (flgatr (flg k i))) (WINFO_FLG w m p)
       (flgid (flg k i)) (flgatr (flg k i)) k k'"
    "tmout = TMO_POL \<Longrightarrow> task_polls k k' \<and> wercd (tcb k' (self k)) = E_TMOUT"
proof -
  let ?atr = "flgatr (flg k i)" and ?ws = "flg_wspec (flgatr (flg k i))"
  note d = wai_flg_okD [OF sys ok i]
  note inv = flg_sysD(2) [OF sys] and fi = flg_sysD(3) [OF sys]
  note live = flg_inv_live [OF fi d(1,3)]
  have home: "wait_home ?ws (flgid (flg k i)) = Some (FlgQ i)" using d(2) by simp
  have waits: "task_waits (FlgQ i) ?ws (WINFO_FLG w m p) (flgid (flg k i)) ?atr k k'" if "tmout \<noteq> TMO_POL"
    unfolding k' by (rule gcb_wait_waits [OF inv d(5,6) home _ flg_wait_state_def]) (use d(7) that in simp_all)
  then show "tmout \<noteq> TMO_POL \<Longrightarrow> task_waits (FlgQ i) ?ws (WINFO_FLG w m p) (flgid (flg k i)) ?atr k k'" .
  have polls: "task_polls k k' \<and> wercd (tcb k' (self k)) = E_TMOUT" if "tmout = TMO_POL"
    using gcb_wait_polls [OF inv d(6) flg_wait_state_def, where atr = ?atr and tm = tmout and h = "FlgQ i"
        and oid = "flgid (flg k i)"] that d(7)
    unfolding k' by simp
  then show "tmout = TMO_POL \<Longrightarrow> task_polls k k' \<and> wercd (tcb k' (self k)) = E_TMOUT" .
  have "kinv {} k' \<and> flg_inv k'"
  proof (cases "tmout = TMO_POL")
    case True
    note td = task_pollsD [OF polls [OF True, THEN conjunct1]]
    have "same_tcb (tcb k' t) (tcb k t)" if "t \<in> set (que k (FlgQ j))" for t j
      using td(8) [of t] self_notin [OF inv d(6) _ that] by (simp add: same_tcb_def)
    then have "flg_inv k' = flg_inv k"
      by (intro flg_inv_cong) (simp_all add: td(3) objs_eqD [OF td(2)])
    with td(1) fi show ?thesis by simp
  next
    case False
    note wt = waits [OF False]
    note td = task_waitsD [OF wt]
    note ob = objs_eqD [OF td(2)]
    have q: "que k' (FlgQ j) = (if j = i then wait_insert k ?atr (self k) (que k (FlgQ i)) else que k (FlgQ j))" for j
      using td(13) [of "FlgQ j"] by simp
    have me: "flg_want k' (self k) = w" "flg_mode k' (self k) = m"
      using td(5) by (simp_all add: flg_want_def flg_mode_def)
    have rest: "flg_want k' u = flg_want k u \<and> flg_mode k' u = flg_mode k u" if "u \<noteq> self k" for u
      using same_tcb_flg [OF td(11) [OF that]] .
    have "flg_want k' u \<noteq> 0 \<and> \<not> eventflag_cond (flgptn (flg k i)) (flg_want k' u) (flg_mode k' u)"
      if "u \<in> set (que k' (FlgQ i))" for u
      using that live(4,5) [of u] me rest [of u] no d(4) by (cases "u = self k") (auto simp: q)
    moreover have "length (que k' (FlgQ i)) \<le> 1" if "?atr AND TA_WMUL = 0"
      using d(8) [OF that] by (simp add: q wait_insert_def)
    ultimately have "flg_ok i k'"
      using wq_ok_waits [OF wt live(2)] d(3) by (auto simp: flg_ok_def ob)
    then have "flg_inv k'"
    proof (rule flg_inv_one [OF fi])
      show "pool_ok (free_flgcb k') (\<lambda>i. flgid (flg k' i)) (nat (max_flgid k'))"
        using flg_inv_pool [OF fi] by (simp add: ob)
      show "same_tcb (tcb k' t) (tcb k t)" if "j \<noteq> i" "t \<in> set (que k (FlgQ j))" for j t
        using td(11) self_notin [OF inv d(6) _ that(2)] by simp
    qed (simp_all add: ob q)
    with td(1) show ?thesis by simp
  qed
  then show "kinv {} k'" "flg_inv k'" by simp_all
qed

lemma flg_take_inv:
  assumes sys: "flg_sys k" and i: "i < nat (max_flgid k)"
  shows "kinv {} (flg_take i w m p k)" "flg_inv (flg_take i w m p k)"
proof -
  let ?k = "flg_take i w m p k"
  note fi = flg_sysD(3) [OF sys]
  show "kinv {} ?k" unfolding flg_take_def by (intro kinv_upd_flg kinv_mem_uint flg_sysD(2) [OF sys])
  have s: "que ?k = que k" "tcb ?k = tcb k" "max_flgid ?k = max_flgid k" "free_flgcb ?k = free_flgcb k"
    "flg ?k j = (if j = i then (flg k i)\<lparr>flgptn := flg_clear (flgptn (flg k i)) w m\<rparr> else flg k j)" for j
    by (simp_all add: flg_take_def)
  have ok: "wq_ok h a d w ?k = wq_ok h a d w k" for h a d w by (simp add: wq_ok_def s)
  have "flg_ok i ?k"
    using flg_inv_ok [OF fi i]
    by (auto simp: flg_ok_def ok s flg_want_def flg_mode_def
        dest: eventflag_cond_mono [OF _ flg_clear_sub [of "flgptn (flg k i)" w m]])
  then show "flg_inv ?k"
  proof (rule flg_inv_one [OF fi])
    have "(\<lambda>j. flgid (flg ?k j)) = (\<lambda>j. flgid (flg k j))" by (auto simp: s fun_eq_iff)
    then show "pool_ok (free_flgcb ?k) (\<lambda>i. flgid (flg ?k i)) (nat (max_flgid ?k))"
      using flg_inv_pool [OF fi] by (simp add: s(3,4))
  qed (simp_all add: s same_tcb_def)
qed

lemma tk_wai_flg_u_quiet:
  "\<not> wai_flg_ok oid w m tmout k \<Longrightarrow> snd (tk_wai_flg_u oid w m p tmout k) \<in> {k, END_CRITICAL_SECTION k}"
  unfolding wai_flg_ok_def tk_wai_flg_u_def checked_def Let_def
  by (cases "first_error [CHECK_FLGID oid k, CHECK_PAR (w \<noteq> 0),
       CHECK_PAR (m AND NOT (TWF_ORW OR TWF_CLR OR TWF_BITCLR) = 0),
       CHECK_TMOUT tmout, CHECK_DISPATCH k]") (auto simp del: first_error.simps)

lemma tk_wai_flg_u_sys:
  assumes sys: "flg_sys k"
  shows "flg_sys (snd (tk_wai_flg_u oid w m p tmout k))"
proof (cases "wai_flg_ok oid w m tmout k")
  case False
  then show ?thesis by (rule flg_sys_quiet [OF sys tk_wai_flg_u_quiet])
next
  case True
  show ?thesis
    unfolding tk_wai_flg_u_eq [OF True refl]
    using flg_take_inv [OF sys wai_flg_okD(1) [OF sys True refl]] flg_wait_inv(1,2) [OF sys True refl _ refl]
    by (simp add: Let_def flg_sysI)
qed

text \<open>Creation and deletion.\<close>

definition flg_new :: "t_cflg \<Rightarrow> nat \<Rightarrow> flgcb \<Rightarrow> flgcb" where
  "flg_new pk i c =
     (let c = c\<lparr>flgid := ID_of i, flg_exinf := cflg_exinf pk, flgatr := cflg_flgatr pk, flgptn := cflg_iflgptn pk\<rparr>
      in if cflg_flgatr pk AND TA_DSNAME \<noteq> 0 then c\<lparr>flg_name := strncpy (cflg_dsname pk) 8\<rparr> else c)"

definition cflg_valid :: "t_cflg \<Rightarrow> bool" where
  "cflg_valid pk \<longleftrightarrow> cflg_flgatr pk AND NOT VALID_FLGATR = 0"

lemma flg_new_sel [simp]:
  "flgid (flg_new pk i c) = ID_of i" "flgatr (flg_new pk i c) = cflg_flgatr pk"
  "flgptn (flg_new pk i c) = cflg_iflgptn pk"
  by (simp_all add: flg_new_def Let_def)

lemma tk_cre_flg_eq:
  assumes "cflg_valid pk" "free_flgcb k = i # rest" "que k (FlgQ i) = []"
  shows "tk_cre_flg pk k =
    (ID_of i, END_CRITICAL_SECTION (upd_flg i (flg_new pk i) (k\<lparr>free_flgcb := rest\<rparr>)))"
proof -
  have "QueInit (FlgQ i) (que k) = que k" using assms(3) by (auto simp: fun_eq_iff)
  then show ?thesis using assms(1,2)
    by (simp add: tk_cre_flg_def cflg_valid_def checked_def CHECK_RSATR_def Let_def upd_flg_def flg_new_def)
qed

lemma tk_cre_flg_fail:
  assumes "\<not> cflg_valid pk \<or> free_flgcb k = []"
  shows "snd (tk_cre_flg pk k) \<in> {k, END_CRITICAL_SECTION k}"
    "fst (tk_cre_flg pk k) = (if cflg_valid pk then E_LIMIT else E_RSATR)"
  using assms
  by (auto simp: tk_cre_flg_def cflg_valid_def checked_def CHECK_RSATR_def CHECK_def split: option.splits)

lemma kinv_free_flgcb: "kinv X k \<Longrightarrow> kinv X (k\<lparr>free_flgcb := f\<rparr>)"
  by (erule kinv_objs_cong) (simp_all add: NUM_TSKID_def)

lemma flg_free_empty:
  assumes "flg_inv k" "i \<in> set (free_flgcb k)"
  shows "i < nat (max_flgid k)" "flgid (flg k i) = 0" "que k (FlgQ i) = []"
  using assms flg_inv_ok [OF assms(1), of i] by (auto simp: flg_inv_def pool_ok_def flg_ok_def)

lemma tk_cre_flg_sys:
  assumes sys: "flg_sys k"
  shows "flg_sys (snd (tk_cre_flg pk k))"
proof (cases "cflg_valid pk \<and> free_flgcb k \<noteq> []")
  case False
  then have f: "\<not> cflg_valid pk \<or> free_flgcb k = []" by blast
  show ?thesis by (rule flg_sys_quiet [OF sys tk_cre_flg_fail(1) [OF f]])
next
  case True
  then obtain i rest where f: "free_flgcb k = i # rest" by (cases "free_flgcb k") auto
  let ?k = "upd_flg i (flg_new pk i) (k\<lparr>free_flgcb := rest\<rparr>)"
  note inv = flg_sysD(3) [OF sys]
  have i: "i < nat (max_flgid k)" "flgid (flg k i) = 0" "que k (FlgQ i) = []"
    using flg_free_empty [OF inv, of i] f by simp_all
  have "flg_ok i ?k" using i(3) by (simp add: flg_ok_def)
  moreover have "pool_ok rest (\<lambda>j. flgid (flg ?k j)) (nat (max_flgid k))"
    using pool_ok_take(1) [of i rest] flg_inv_pool [OF inv] f by (simp add: flgid_upd ID_of_def)
  ultimately have "flg_inv ?k"
    by (intro flg_inv_one [OF inv, of i]) (simp_all add: same_tcb_def)
  with tk_cre_flg_eq [OF _ f i(3)] True kinv_upd_flg [OF kinv_free_flgcb [OF flg_sysD(2) [OF sys]]]
  show ?thesis by (simp add: flg_sysI)
qed

lemma tk_del_flg_eq:
  assumes "CHECK_FLGID oid k = None" "flgid (flg k (get_flgcb oid)) \<noteq> 0" "i = get_flgcb oid"
  shows "tk_del_flg oid k =
    (E_OK, END_CRITICAL_SECTION (upd_flg i (\<lambda>c. c\<lparr>flgid := 0\<rparr>)
      ((wait_delete (FlgQ i) k)\<lparr>free_flgcb := free_flgcb k @ [i]\<rparr>)))"
  using assms by (simp add: tk_del_flg_def checked_def Let_def)

lemma tk_del_flg_sys:
  assumes sys: "flg_sys k"
  shows "flg_sys (snd (tk_del_flg oid k))"
proof (cases "CHECK_FLGID oid k = None \<and> flgid (flg k (get_flgcb oid)) \<noteq> 0")
  case False
  then have "snd (tk_del_flg oid k) \<in> {k, END_CRITICAL_SECTION k}"
    by (auto simp: tk_del_flg_def checked_def Let_def split: option.splits)
  then show ?thesis by (rule flg_sys_quiet [OF sys])
next
  case True
  let ?i = "get_flgcb oid"
  let ?w = "wait_delete (FlgQ ?i) k"
  let ?k = "upd_flg ?i (\<lambda>c. c\<lparr>flgid := 0\<rparr>) (?w\<lparr>free_flgcb := free_flgcb k @ [?i]\<rparr>)"
  note inv = flg_sysD(3) [OF sys] and kv = flg_sysD(2) [OF sys]
  have i: "?i < nat (max_flgid k)" using CHECK_FLGID_index True by simp
  have rel: "released (set (que k (FlgQ ?i))) E_DLT k ?w"
    by (rule wait_delete_released [OF kv]) simp_all
  have "flg_ok j ?k" if "j < nat (max_flgid k)" for j
  proof (cases "j = ?i")
    case True
    then show ?thesis using wait_delete_empties [OF kv, of "FlgQ ?i"] by (simp add: flg_ok_def)
  next
    case False
    then have "flg_ok j ?k = flg_ok j ?w" by (intro flg_ok_cong) (simp_all add: same_tcb_def)
    also have "\<dots> = flg_ok j k"
      by (rule released_flg_ok_other [OF kv rel order_refl]) (use False in simp_all)
    finally show ?thesis using flg_inv_ok [OF inv that] by simp
  qed
  moreover have "pool_ok (free_flgcb k @ [?i]) (\<lambda>j. flgid (flg ?k j)) (nat (max_flgid k))"
    using pool_ok_return [OF flg_inv_pool [OF inv] i] True by (simp add: flgid_upd)
  ultimately have "flg_inv ?k" by (simp add: flg_inv_def)
  moreover have "kinv {} ?k" by (intro kinv_upd_flg kinv_free_flgcb releasedD(1) [OF rel])
  ultimately show ?thesis using tk_del_flg_eq [OF _ _ refl, of oid k] True by (simp add: flg_sysI)
qed

subsection \<open>The hook\<close>

lemma flg_waiter:
  assumes inv: "kinv {} k" "flg_inv k" and t: "t \<in> set (que k (FlgQ i))" and i: "i < nat (max_flgid k)"
  shows "flgid (flg k i) \<noteq> 0" "get_flgcb (wid (tcb k t)) = i" "t < NUM_TSKID k" "ts_wait (state (tcb k t))"
    "wspec (tcb k t) = flg_wspec (flgatr (flg k i))"
proof -
  show ne: "flgid (flg k i) \<noteq> 0" using flg_inv_ok [OF inv(2) i] t by (auto simp: flg_ok_def)
  note live = flg_inv_live [OF inv(2) i ne]
  show "get_flgcb (wid (tcb k t)) = i" "wspec (tcb k t) = flg_wspec (flgatr (flg k i))"
    using live(1,2) t by (simp_all add: wq_ok_def get_flgcb_def)
  show "t < NUM_TSKID k" "ts_wait (state (tcb k t))" using kinv_waiter [OF inv(1) t] by simp_all
qed

lemma flg_chg_pri_inv:
  assumes inv: "kinv {} k" "flg_inv k" and t: "t \<in> set (que k (FlgQ i))" and i: "i < nat (max_flgid k)"
    and tpri: "flgatr (flg k i) AND TA_TPRI \<noteq> 0" and p: "p < NUM_PRI"
  obtains k' where "flg_chg_pri t old (set_priority t p k) = Some k'" "pri_changed k k'" "flg_inv k'"
    "\<And>u. core (tcb k' u) = core (tcb (set_priority t p k) u)"
    "\<And>h. \<not> rdyq h \<Longrightarrow> h \<noteq> FlgQ i \<Longrightarrow> que k' h = que k h" "objs k' = objs k"
proof -
  let ?k = "gcb_change_priority (FlgQ i) t (set_priority t p k)"
  note w = flg_waiter [OF inv t i]
  note live = flg_inv_live [OF inv(2) i w(1)]
  note g = wq_chg_pri [OF inv(1) t _ _ p live(2) tpri, simplified]
  have d: "flg_want ?k = flg_want k" "flg_mode ?k = flg_mode k"
    by (auto simp: flg_want_def flg_mode_def fun_eq_iff)
  have len: "length (que ?k (FlgQ i)) = length (que k (FlgQ i))"
    using distinct_card [OF qinv_distinct [OF kinvD(1) [OF g(1)]], of "FlgQ i"]
      distinct_card [OF qinv_distinct [OF kinvD(1) [OF inv(1)]], of "FlgQ i"] g(3) [of "FlgQ i"] by simp
  have "flg_ok i ?k"
    using live(3-5) g(2) w(1) by (auto simp: flg_ok_def d len g(3))
  then have "flg_inv ?k"
  proof (rule flg_inv_one [OF inv(2)])
    show "que ?k (FlgQ j) = que k (FlgQ j)" if "j \<noteq> i" for j using that g(4) by simp
    show "same_tcb (tcb ?k u) (tcb k u)" if "j \<noteq> i" "u \<in> set (que k (FlgQ j))" for j u
    proof -
      have "u \<noteq> t" using disjoint_queuesD [OF kinvD(6) [OF inv(1)] t, of "FlgQ j"] that by auto
      then show ?thesis by (simp add: same_tcb_def)
    qed
  qed (use flg_inv_pool [OF inv(2)] in simp_all)
  moreover have "flg_chg_pri t old (set_priority t p k) = Some ?k"
    using w(2) by (simp add: flg_chg_pri_def)
  moreover have "pri_changed k ?k" by (rule pri_changed_reorder [OF inv(1) t _ _ p]) simp_all
  ultimately show thesis using g(4) by (intro that [of ?k]) simp_all
qed

text \<open>Releasing a waiter needs no hook: the others' conditions still fail.\<close>

lemma flg_wait_release_inv:
  assumes inv: "kinv {} k" "flg_inv k" and r: "released T e k k'" and o: "objs k' = objs k"
  shows "flg_inv k'"
proof -
  note ob = objs_eqD [OF o]
  have "flg_ok i k'" if "i < nat (max_flgid k)" for i
  proof (cases "flgid (flg k i) = 0")
    case True
    then show ?thesis
      using flg_inv_ok [OF inv(2) that] releasedD(9) [OF r, of "FlgQ i"] by (simp add: flg_ok_def ob)
  next
    case False
    note live = flg_inv_live [OF inv(2) that False]
    have q: "que k' (FlgQ i) = filter (\<lambda>u. u \<notin> T) (que k (FlgQ i))" by (rule releasedD(9) [OF r]) simp
    show ?thesis
      using False live wq_ok_released [OF live(2) r] released_flg_want [OF r]
      by (auto simp: flg_ok_def ob q intro: le_trans [OF length_filter_le])
  qed
  then show ?thesis using flg_inv_pool [OF inv(2)] by (simp add: flg_inv_def ob)
qed

subsection \<open>Event flags as a class of objects\<close>

definition flg_ids :: "kernel \<Rightarrow> ID set" where
  "flg_ids k = pool_ids (\<lambda>i. flgid (flg k i)) (nat (max_flgid k))"

definition flg_absent :: "ID \<Rightarrow> kernel \<Rightarrow> ER" where
  "flg_absent oid k = (if 1 \<le> oid \<and> oid \<le> max_flgid k then E_NOEXS else E_ID)"

lemma flg_ids_iff:
  "flg_sys k \<Longrightarrow> oid \<in> flg_ids k \<longleftrightarrow> CHECK_FLGID oid k = None \<and> flgid (flg k (get_flgcb oid)) \<noteq> 0"
  using pool_ids_iff [OF flg_inv_pool [OF flg_sysD(3)]]
  by (auto simp: flg_ids_def CHECK_FLGID_def get_flgcb_def INDEX_def)

lemma flg_create_live:
  assumes sys: "flg_sys k" and v: "cflg_valid pk" and f: "free_flgcb k = i # rest"
  shows "fst (tk_cre_flg pk k) = ID_of i" "flg_ids (snd (tk_cre_flg pk k)) = insert (ID_of i) (flg_ids k)"
    "max_flgid (snd (tk_cre_flg pk k)) = max_flgid k" "i < nat (max_flgid k)" "ID_of i \<notin> flg_ids k"
proof -
  note inv = flg_sysD(3) [OF sys]
  have i: "i < nat (max_flgid k)" "flgid (flg k i) = 0" "que k (FlgQ i) = []"
    using flg_free_empty [OF inv, of i] f by simp_all
  note eq = tk_cre_flg_eq [OF v f i(3)]
  show "fst (tk_cre_flg pk k) = ID_of i" "max_flgid (snd (tk_cre_flg pk k)) = max_flgid k"
    by (simp_all add: eq)
  show "flg_ids (snd (tk_cre_flg pk k)) = insert (ID_of i) (flg_ids k)"
    using pool_ids_upd(1) [OF flg_inv_pool [OF inv] i(1)]
    by (simp add: eq flg_ids_def flgid_upd ID_of_def)
  show "i < nat (max_flgid k)" by (rule i)
  show "ID_of i \<notin> flg_ids k" using flg_ids_iff [OF sys, of "ID_of i"] i(2) by (simp add: get_flgcb_def)
qed

lemma flg_ids_full_iff:
  "flg_sys k \<Longrightarrow> flg_ids k = {1..int (nat (max_flgid k))} \<longleftrightarrow> free_flgcb k = []"
  unfolding flg_ids_def by (rule pool_ids_full_iff [OF flg_inv_pool [OF flg_sysD(3)]])

interpretation flg_class: object_class flg_sys flg_ids "\<lambda>k. nat (max_flgid k)" tk_cre_flg tk_del_flg
  cflg_valid E_LIMIT flg_absent
proof unfold_locales
  fix k :: kernel and pk :: t_cflg and oid :: int
  assume sys: "flg_sys k"
  note pool = flg_inv_pool [OF flg_sysD(3) [OF sys]]
  show "flg_ids k \<subseteq> {1..int (nat (max_flgid k))}"
    using pool_ids_iff [OF pool] by (auto simp: flg_ids_def)
  show "flg_sys (snd (tk_cre_flg pk k))" by (rule tk_cre_flg_sys [OF sys])
  show "flg_sys (snd (tk_del_flg oid k))" by (rule tk_del_flg_sys [OF sys])
  have fail: "fst (tk_cre_flg pk k) = (if cflg_valid pk then E_LIMIT else E_RSATR) \<and>
      flg_ids (snd (tk_cre_flg pk k)) = flg_ids k \<and> max_flgid (snd (tk_cre_flg pk k)) = max_flgid k"
    if "\<not> cflg_valid pk \<or> free_flgcb k = []"
    using tk_cre_flg_fail [OF that] by (auto simp: flg_ids_def)
  show "nat (max_flgid (snd (tk_cre_flg pk k))) = nat (max_flgid k)"
    using fail flg_create_live(3) [OF sys] by (cases "cflg_valid pk"; cases "free_flgcb k") auto
  show "fst (tk_cre_flg pk k) \<in> {1..int (nat (max_flgid k))} - flg_ids k \<and>
      flg_ids (snd (tk_cre_flg pk k)) = insert (fst (tk_cre_flg pk k)) (flg_ids k)"
    if v: "cflg_valid pk" and "flg_ids k \<noteq> {1..int (nat (max_flgid k))}"
  proof -
    obtain i rest where f: "free_flgcb k = i # rest"
      using \<open>flg_ids k \<noteq> _\<close> flg_ids_full_iff [OF sys] by (cases "free_flgcb k") auto
    show ?thesis using flg_create_live [OF sys v f] by (auto simp: ID_of_def)
  qed
  show "fst (tk_cre_flg pk k) = E_LIMIT \<and> flg_ids (snd (tk_cre_flg pk k)) = flg_ids k"
    if "cflg_valid pk" "flg_ids k = {1..int (nat (max_flgid k))}"
    using fail that flg_ids_full_iff [OF sys] by simp
  show "fst (tk_cre_flg pk k) < 0 \<and> flg_ids (snd (tk_cre_flg pk k)) = flg_ids k" if "\<not> cflg_valid pk"
    using fail that by auto
  show "nat (max_flgid (snd (tk_del_flg oid k))) = nat (max_flgid k)"
    by (auto simp: tk_del_flg_def checked_def Let_def split: option.splits)
  show "fst (tk_del_flg oid k) = 0 \<and> flg_ids (snd (tk_del_flg oid k)) = flg_ids k - {oid}"
    if "oid \<in> flg_ids k"
  proof -
    have ok: "CHECK_FLGID oid k = None" "flgid (flg k (get_flgcb oid)) \<noteq> 0"
      using that flg_ids_iff [OF sys] by simp_all
    have il: "get_flgcb oid < nat (max_flgid k)" "oid = ID_of (get_flgcb oid)"
      using CHECK_FLGID_index [OF ok(1)] by simp_all
    show ?thesis
      using pool_ids_upd(2) [OF pool il(1)] il(2)
      by (simp add: tk_del_flg_eq [OF ok refl] flg_ids_def flgid_upd ID_of_def)
  qed
  show "fst (tk_del_flg oid k) = flg_absent oid k \<and> flg_ids (snd (tk_del_flg oid k)) = flg_ids k"
    if "oid \<notin> flg_ids k"
    using that flg_ids_iff [OF sys, of oid]
    by (auto simp: tk_del_flg_def checked_def Let_def CHECK_FLGID_def flg_absent_def CHECK_def flg_ids_def)
  show "flg_absent oid k < 0" by (simp add: flg_absent_def)
qed simp

subsection \<open>A concrete run\<close>

text \<open>An event flag is created and task 0 waits for one of two bits.\<close>

definition ex_cflg :: t_cflg where
  "ex_cflg = \<lparr>cflg_exinf = 0, cflg_flgatr = TA_WMUL, cflg_iflgptn = 4, cflg_dsname = []\<rparr>"

definition ex_flg :: kernel where
  "ex_flg = snd (tk_cre_flg ex_cflg ex_state)"

definition ex_flg_wait :: kernel where
  "ex_flg_wait = snd (tk_wai_flg_u 1 3 0x21 100 TMO_FEVR ex_flg)"

lemma ex_state_flg_sys: "flg_sys ex_state"
  by (auto simp: flg_sys_def ex_state_kernel_ok flg_inv_def pool_ok_def flg_ok_def ex_state_que)

lemma ex_cflg_valid: "cflg_valid ex_cflg"
  by (simp add: cflg_valid_def ex_cflg_def VALID_FLGATR_def)

lemma ex_flg_eq: "ex_flg = upd_flg 0 (flg_new ex_cflg 0) (ex_state\<lparr>free_flgcb := [1, 2]\<rparr>)"
proof -
  have "tk_cre_flg ex_cflg ex_state =
      (ID_of 0, END_CRITICAL_SECTION (upd_flg 0 (flg_new ex_cflg 0) (ex_state\<lparr>free_flgcb := [1, 2]\<rparr>)))"
    by (rule tk_cre_flg_eq [OF ex_cflg_valid]) (simp_all add: ex_state_que)
  then show ?thesis by (simp add: ex_flg_def END_CRITICAL_SECTION_def)
qed

lemma ex_flg_sel [simp]:
  "flgid (flg ex_flg 0) = 1" "flgptn (flg ex_flg 0) = 4" "flgatr (flg ex_flg 0) = 8"
  "que ex_flg = que ex_state" "tcb ex_flg = tcb ex_state" "self ex_flg = 0" "max_flgid ex_flg = 3"
  "ctxtsk ex_flg = Some 0" "NUM_TSKID ex_flg = 5" "schedtsk ex_flg = Some 0" "isDI ex_flg = False"
  "isTaskIndependent ex_flg = False" "dispatch_disabled ex_flg = 0"
  by (simp_all add: ex_flg_eq ex_cflg_def ID_of_def) (simp_all add: self_def NUM_TSKID_def upd_flg_def)

lemma ex_flg_sys: "flg_sys ex_flg"
  unfolding ex_flg_def by (rule tk_cre_flg_sys [OF ex_state_flg_sys])

lemma ex_flg_index [simp]: "get_flgcb 1 = 0"
  by (simp add: get_flgcb_def INDEX_def)

lemma ex_flg_wai_ok: "wai_flg_ok 1 3 0x21 TMO_FEVR ex_flg"
  by (simp add: wai_flg_ok_def CHECK_FLGID_def CHECK_PAR_def CHECK_TMOUT_def CHECK_DISPATCH_def in_ddsp_def
      in_indp_def is_diswai_def ex_state_tcb ex_tcb_def isQueEmpty_def Let_def)

lemma ex_flg_wait_facts:
  "task_waits (FlgQ 0) WSPEC_FLG_TFIFO (WINFO_FLG 3 0x21 100) 1 8 ex_flg
     (gcb_make_wait_with_diswai (FlgQ 0) 1 8 TMO_FEVR (flg_wait_state 0 3 0x21 100 ex_flg))"
  "ex_flg_wait = END_CRITICAL_SECTION
     (gcb_make_wait_with_diswai (FlgQ 0) 1 8 TMO_FEVR (flg_wait_state 0 3 0x21 100 ex_flg))"
proof -
  have no: "\<not> eventflag_cond (flgptn (flg ex_flg 0)) 3 0x21"
    by (simp add: eventflag_cond_def)
  show "task_waits (FlgQ 0) WSPEC_FLG_TFIFO (WINFO_FLG 3 0x21 100) 1 8 ex_flg
     (gcb_make_wait_with_diswai (FlgQ 0) 1 8 TMO_FEVR (flg_wait_state 0 3 0x21 100 ex_flg))"
    using flg_wait_inv(3) [OF ex_flg_sys ex_flg_wai_ok ex_flg_index [symmetric] no refl]
    by (simp add: flg_wspec_def)
  show "ex_flg_wait = END_CRITICAL_SECTION
     (gcb_make_wait_with_diswai (FlgQ 0) 1 8 TMO_FEVR (flg_wait_state 0 3 0x21 100 ex_flg))"
    using no by (simp add: ex_flg_wait_def tk_wai_flg_u_eq [OF ex_flg_wai_ok refl] Let_def)
qed

lemma ex_flg_wait_sel [simp]:
  "que ex_flg_wait (FlgQ 0) = [0]" "flg ex_flg_wait = flg ex_flg" "flg_want ex_flg_wait 0 = 3"
  "flg_mode ex_flg_wait 0 = 0x21" "flg_addr ex_flg_wait 0 = 100"
  "state (tcb ex_flg_wait 0) = TS_WAIT" "max_flgid ex_flg_wait = 3" "flg_sys ex_flg_wait"
proof -
  note d = task_waitsD [OF ex_flg_wait_facts(1), unfolded ex_flg_sel]
  show "que ex_flg_wait (FlgQ 0) = [0]" "flg ex_flg_wait = flg ex_flg" "flg_want ex_flg_wait 0 = 3"
    "flg_mode ex_flg_wait 0 = 0x21" "flg_addr ex_flg_wait 0 = 100"
    "state (tcb ex_flg_wait 0) = TS_WAIT" "max_flgid ex_flg_wait = 3"
    using d(3,5) d(13) [of "FlgQ 0"] objs_eqD [OF d(2)]
    by (simp_all add: ex_flg_wait_facts(2) flg_want_def flg_mode_def flg_addr_def wait_insert_def ex_state_que)
  show "flg_sys ex_flg_wait" unfolding ex_flg_wait_def by (rule tk_wai_flg_u_sys [OF ex_flg_sys])
qed

subsection \<open>Properties\<close>

text \<open>
  C6: Event flag calls keep the kernel and the flags consistent. After creating, deleting, setting,
  clearing or waiting with any arguments, the condition of no waiting task holds of the pattern of its
  flag (so none is left waiting that should run), and a flag without \<^verbatim>\<open>TA_WMUL\<close> has at most one waiter.
\<close>

theorem flg_calls_invariant:
  assumes "flg_sys k"
  shows "flg_sys (snd (tk_cre_flg pk k)) \<and> flg_sys (snd (tk_del_flg oid k)) \<and>
    flg_sys (snd (tk_set_flg oid p k)) \<and> flg_sys (snd (tk_clr_flg oid p k)) \<and>
    flg_sys (snd (tk_wai_flg_u oid w m a tmout k)) \<and> flg_sys (snd (tk_wai_flg oid w m a ms k))"
  using tk_cre_flg_sys [OF assms] tk_del_flg_sys [OF assms] tk_set_flg_sys [OF assms]
    tk_clr_flg_sys [OF assms] tk_wai_flg_u_sys [OF assms] by (simp add: tk_wai_flg_def)

theorem flg_calls_invariant_witness:
  "flg_sys (snd (tk_cre_flg ex_cflg ex_flg_wait)) \<and> flg_sys (snd (tk_del_flg 1 ex_flg_wait)) \<and>
    flg_sys (snd (tk_set_flg 1 2 ex_flg_wait)) \<and> flg_sys (snd (tk_clr_flg 1 2 ex_flg_wait)) \<and>
    flg_sys (snd (tk_wai_flg_u 1 8 TWF_CLR 200 10 ex_flg_wait)) \<and>
    flg_sys (snd (tk_wai_flg 1 8 TWF_CLR 200 10 ex_flg_wait))"
  using flg_calls_invariant [OF ex_flg_wait_sel(8)] by blast

text \<open>
  C7: Setting bits serves the waiters in queue order as \<open>flg_serve\<close> says: each one whose condition holds
  of the pattern at its turn is released with \<open>E_OK\<close>, finds that pattern behind its pointer (the last one
  stored, if pointers coincide), and has the flag cleared as its mode asks before the next waiter's turn.
  Nobody else is released.
\<close>

theorem tk_set_flg_result:
  assumes sys: "flg_sys k" and ok: "CHECK_FLGID oid k = None"
    and i: "i = get_flgcb oid" "flgid (flg k i) \<noteq> 0"
    and sv: "flg_serve (flg_want k) (flg_mode k) (flgptn (flg k i) OR setptn) (que k (FlgQ i)) = (p, rs)"
    and r: "tk_set_flg oid setptn k = (e, k')"
  shows "e = E_OK \<and> flgptn (flg k' i) = p \<and>
    que k' (FlgQ i) = filter (\<lambda>t. t \<notin> fst ` set rs) (que k (FlgQ i)) \<and>
    mem_uint k' = store_patterns k rs (mem_uint k) \<and>
    (\<forall>t. if t \<in> fst ` set rs then wercd (tcb k' t) = E_OK \<and>
            state (tcb k' t) = (if state (tcb k t) = TS_WAIT then TS_READY else TS_SUSPEND)
          else state (tcb k' t) = state (tcb k t))"
proof -
  let ?k1 = "upd_flg i (\<lambda>c. c\<lparr>flgptn := flgptn c OR setptn\<rparr>) k"
  let ?k2 = "flg_set_loop i (que k (FlgQ i)) ?k1"
  have il: "i < nat (max_flgid k)" using CHECK_FLGID_index [OF ok] i(1) by simp
  have s: "flg_served i (que k (FlgQ i)) ?k1 ?k2" by (rule flg_set_served [OF sys il i(2) refl])
  have w: "flg_want ?k1 = flg_want k" "flg_mode ?k1 = flg_mode k" "store_patterns ?k1 = store_patterns k"
    by (simp_all add: flg_want_def flg_mode_def store_patterns_def flg_addr_def fun_eq_iff)
  have sv1: "flg_serve (flg_want ?k1) (flg_mode ?k1) (flgptn (flg ?k1 i)) (que k (FlgQ i)) = (p, rs)"
    using sv by (simp add: w)
  note parts = flg_served_parts [OF s sv1]
  have "tk_set_flg oid setptn k = (E_OK, END_CRITICAL_SECTION ?k2)"
    using ok i by (simp add: tk_set_flg_def checked_def Let_def)
  then have "e = E_OK" and k': "k' = END_CRITICAL_SECTION ?k2" using r by simp_all
  then show ?thesis
    using parts(3,6) releasedD(7,8) [OF parts(1)] releasedD(9) [OF parts(1), of "FlgQ i"]
    by (simp add: w)
qed

theorem tk_set_flg_result_witness:
  "let k' = snd (tk_set_flg 1 2 ex_flg_wait)
   in flgptn (flg k' 0) = 4 \<and> mem_uint k' 100 = 6 \<and> que k' (FlgQ 0) = [] \<and> state (tcb k' 0) = TS_READY"
proof -
  have c: "CHECK_FLGID 1 ex_flg_wait = None" by (simp add: CHECK_FLGID_def)
  show ?thesis
    using tk_set_flg_result [OF ex_flg_wait_sel(8) c ex_flg_index [symmetric] _ _ prod.collapse [symmetric],
        of 2 4 "[(0, 6)]"]
    by (simp add: Let_def eventflag_cond_def flg_clear_def store_patterns_def)
qed

text \<open>
  C8: A wait whose condition holds returns at once with the pattern and clears the flag as the mode asks;
  otherwise a poll fails with \<open>E_TMOUT\<close> leaving the queues alone, and any other call joins the queue of
  the flag by the flag's attribute, remembering bits, mode and the pointer for the result.
\<close>

theorem tk_wai_flg_u_result:
  assumes sys: "flg_sys k" and ok: "wai_flg_ok oid w m tmout k" and i: "i = get_flgcb oid"
    and r: "tk_wai_flg_u oid w m p tmout k = (e, k')"
  shows "if eventflag_cond (flgptn (flg k i)) w m then
           e = E_OK \<and> mem_uint k' p = flgptn (flg k i) \<and>
           flgptn (flg k' i) = flg_clear (flgptn (flg k i)) w m \<and> que k' = que k \<and> tcb k' = tcb k
         else if tmout = TMO_POL then
           e = E_TMOUT \<and> flg k' = flg k \<and> que k' = que k \<and> (\<forall>t. state (tcb k' t) = state (tcb k t))
         else state (tcb k' (self k)) = TS_WAIT \<and> flg k' = flg k \<and>
           winfo (tcb k' (self k)) = WINFO_FLG w m p \<and>
           que k' (FlgQ i) = wait_insert k (flgatr (flg k i)) (self k) (que k (FlgQ i))"
proof (cases "eventflag_cond (flgptn (flg k i)) w m")
  case True
  then show ?thesis using r by (auto simp: tk_wai_flg_u_eq [OF ok i] flg_take_def)
next
  case False
  note inv = flg_wait_inv [OF sys ok i False refl, of p]
  show ?thesis
  proof (cases "tmout = TMO_POL")
    case True
    note d = task_pollsD [OF inv(4) [OF True, THEN conjunct1]]
    have e: "e = E_TMOUT" and k': "k' = END_CRITICAL_SECTION (gcb_make_wait_with_diswai (FlgQ i) (flgid (flg k i))
        (flgatr (flg k i)) tmout (flg_wait_state i w m p k))"
      using r [unfolded tk_wai_flg_u_eq [OF ok i] Let_def] False inv(4) [OF True] by simp_all
    show ?thesis
      using False True e d(3,4) objs_eqD(19) [OF d(2)] by (simp add: k')
  next
    case nopoll: False
    note d = task_waitsD [OF inv(3) [OF nopoll]]
    show ?thesis
      using False nopoll r d(3,5) d(13) [of "FlgQ i"] objs_eqD [OF d(2)]
      by (auto simp: tk_wai_flg_u_eq [OF ok i] Let_def)
  qed
qed

theorem tk_wai_flg_u_result_witness:
  "winfo (tcb ex_flg_wait 0) = WINFO_FLG 3 0x21 100 \<and> que ex_flg_wait (FlgQ 0) = [0]"
  using tk_wai_flg_u_result [OF ex_flg_sys ex_flg_wai_ok ex_flg_index [symmetric] prod.collapse [symmetric],
      of 100]
  by (simp add: eventflag_cond_def wait_insert_def ex_state_que flip: ex_flg_wait_def)

end
