(* ===== verification/Mailbox.thy ===== *)
theory Mailbox
  imports Example_State Object_Pool "HOL-Library.Multiset"
begin

text \<open>
  Mailboxes (\<^verbatim>\<open>mailbox.c\<close>). Messages stay in the user's memory, linked through their first word
  (\<open>msgque\<close>, with the head in the control block); \<open>mails\<close> is the abstract view, a list of message
  addresses per mailbox, and \<open>mbx_inv M k\<close> says that the pointers of \<open>k\<close> represent it.
\<close>

subsection \<open>Operations\<close>

record t_cmbx =
  cmbx_exinf :: nat
  cmbx_mbxatr :: UW
  cmbx_dsname :: "UB list"

record t_rmbx =
  rmbx_exinf :: nat
  rmbx_wtsk :: ID
  rmbx_pk_msg :: nat

definition get_mbxcb :: "ID \<Rightarrow> nat" where
  "get_mbxcb oid = INDEX oid"

definition upd_mbx :: "nat \<Rightarrow> (mbxcb \<Rightarrow> mbxcb) \<Rightarrow> kernel \<Rightarrow> kernel" where
  "upd_mbx i f k = k\<lparr>mbxcb_table := (mbxcb_table k)(i := f (mbxcb_table k i))\<rparr>"

abbreviation mbx :: "kernel \<Rightarrow> nat \<Rightarrow> mbxcb" where
  "mbx k i \<equiv> mbxcb_table k i"

definition mailbox_initialize :: "int option \<Rightarrow> bool \<Rightarrow> kernel \<Rightarrow> ER \<times> kernel" where
  "mailbox_initialize tmaxmbxid mem k =
     (let k = (case tmaxmbxid of Some n \<Rightarrow> k\<lparr>max_mbxid := n\<rparr> | None \<Rightarrow> k)
      in if tmaxmbxid = None \<or> max_mbxid k < 1 then (E_SYS, k)
      else if \<not> mem then (E_NOMEM, k)
      else
        let k = k\<lparr>free_mbxcb := []\<rparr>;
            k = fold (\<lambda>i k.
                  let k = upd_mbx i (\<lambda>c. c\<lparr>mbxid := 0\<rparr>) k
                  in k\<lparr>free_mbxcb := free_mbxcb k @ [i]\<rparr>)
                [0..<nat (max_mbxid k)] k
        in (E_OK, k))"

definition headmsg :: "nat \<Rightarrow> kernel \<Rightarrow> nat" where
  "headmsg i k = msgque k (MqHead i)"

definition nextmsg :: "nat \<Rightarrow> kernel \<Rightarrow> nat" where
  "nextmsg m k = msgque k (Msg m)"

definition set_next :: "msgaddr \<Rightarrow> nat \<Rightarrow> kernel \<Rightarrow> kernel" where
  "set_next a m k = k\<lparr>msgque := (msgque k)(a := m)\<rparr>"

text \<open>
  The search loop of \<^verbatim>\<open>queue_insert_mpri\<close>: the address of the link to change and the message it holds.
  A message that was sent twice makes the links cyclic, and then the loop may not end.
\<close>

partial_function (option) mpri_loop ::
  "(msgaddr \<Rightarrow> nat) \<Rightarrow> (nat \<Rightarrow> int) \<Rightarrow> int \<Rightarrow> msgaddr \<Rightarrow> (msgaddr \<times> nat) option" where
  "mpri_loop q pri p prevmsg =
     (let msg = q prevmsg
      in if msg = 0 \<or> pri msg > p then Some (prevmsg, msg)
         else mpri_loop q pri p (Msg msg))"

definition queue_insert_mpri :: "nat \<Rightarrow> msgaddr \<Rightarrow> kernel \<Rightarrow> kernel option" where
  "queue_insert_mpri m head k =
     map_option (\<lambda>(prevmsg, msg). set_next prevmsg m (set_next (Msg m) msg k))
       (mpri_loop (msgque k) (msgpri k) (msgpri k m) head)"

definition mbx_chg_pri :: "tid \<Rightarrow> int \<Rightarrow> kernel \<Rightarrow> kernel option" where
  "mbx_chg_pri t oldpri k = Some (gcb_change_priority (MbxQ (get_mbxcb (wid (tcb k t)))) t k)"

definition VALID_MBXATR :: UW where
  "VALID_MBXATR = TA_MPRI OR TA_TPRI OR TA_NODISWAI OR TA_DSNAME"

definition tk_cre_mbx :: "t_cmbx \<Rightarrow> kernel \<Rightarrow> ER \<times> kernel" where
  "tk_cre_mbx pk k =
     checked [CHECK_RSATR (cmbx_mbxatr pk) VALID_MBXATR] k
       (case free_mbxcb k of
          [] \<Rightarrow> (E_LIMIT, END_CRITICAL_SECTION k)
        | i # rest \<Rightarrow>
            let k = k\<lparr>free_mbxcb := rest\<rparr>;
                k = k\<lparr>que := QueInit (MbxQ i) (que k)\<rparr>;
                k = upd_mbx i (\<lambda>c. c\<lparr>mbxid := ID_of i, mbx_exinf := cmbx_exinf pk,
                      mbxatr := cmbx_mbxatr pk\<rparr>) k;
                k = set_next (MqHead i) 0 k;
                k = (if cmbx_mbxatr pk AND TA_DSNAME \<noteq> 0
                     then upd_mbx i (\<lambda>c. c\<lparr>mbx_name := strncpy (cmbx_dsname pk) 8\<rparr>) k else k)
            in (ID_of i, END_CRITICAL_SECTION k))"

definition tk_del_mbx :: "ID \<Rightarrow> kernel \<Rightarrow> ER \<times> kernel" where
  "tk_del_mbx oid k =
     checked [CHECK_MBXID oid k] k
       (let i = get_mbxcb oid
        in if mbxid (mbx k i) = 0 then (E_NOEXS, END_CRITICAL_SECTION k)
           else
             let k = wait_delete (MbxQ i) k;
                 k = k\<lparr>free_mbxcb := free_mbxcb k @ [i]\<rparr>;
                 k = upd_mbx i (\<lambda>c. c\<lparr>mbxid := 0\<rparr>) k
             in (E_OK, END_CRITICAL_SECTION k))"

definition mbx_append :: "nat \<Rightarrow> nat \<Rightarrow> kernel \<Rightarrow> kernel" where
  "mbx_append i m k =
     (let k = set_next (Msg m) 0 k;
          k = (if headmsg i k = 0 then set_next (MqHead i) m k
               else set_next (Msg (mq_tail (mbx k i))) m k)
      in upd_mbx i (\<lambda>c. c\<lparr>mq_tail := m\<rparr>) k)"

definition tk_snd_mbx :: "ID \<Rightarrow> nat \<Rightarrow> kernel \<Rightarrow> (ER \<times> kernel) option" where
  "tk_snd_mbx oid m k =
     checked_opt [CHECK_MBXID oid k] k
       (let i = get_mbxcb oid
        in if mbxid (mbx k i) = 0 then Some (E_NOEXS, END_CRITICAL_SECTION k)
           else if mbxatr (mbx k i) AND TA_MPRI \<noteq> 0 \<and> msgpri k m \<le> 0
           then Some (E_PAR, END_CRITICAL_SECTION k)
           else case que k (MbxQ i) of
             t # _ \<Rightarrow>
               let k = k\<lparr>mem_ptr := (mem_ptr k)(mbx_ppk_msg (winfo (tcb k t)) := m)\<rparr>
               in Some (E_OK, END_CRITICAL_SECTION (wait_release_ok t k))
           | [] \<Rightarrow>
               if mbxatr (mbx k i) AND TA_MPRI \<noteq> 0
               then map_option (\<lambda>k. (E_OK, END_CRITICAL_SECTION k)) (queue_insert_mpri m (MqHead i) k)
               else Some (E_OK, END_CRITICAL_SECTION (mbx_append i m k)))"

definition mbx_take :: "nat \<Rightarrow> nat \<Rightarrow> kernel \<Rightarrow> kernel" where
  "mbx_take i ppk_msg k =
     (let k = k\<lparr>mem_ptr := (mem_ptr k)(ppk_msg := headmsg i k)\<rparr>
      in set_next (MqHead i) (nextmsg (mem_ptr k ppk_msg) k) k)"

text \<open>The result of a call that waits is read from the caller's cell, as for semaphores.\<close>

definition tk_rcv_mbx_u :: "ID \<Rightarrow> nat \<Rightarrow> D \<Rightarrow> kernel \<Rightarrow> ER \<times> kernel" where
  "tk_rcv_mbx_u oid ppk_msg tmout k =
     checked [CHECK_MBXID oid k, CHECK_TMOUT tmout, CHECK_DISPATCH k] k
       (let i = get_mbxcb oid; t = self k; c = mbx k i
        in if mbxid c = 0 then (E_NOEXS, END_CRITICAL_SECTION k)
           else if is_diswai (mbxatr c) (tcb k t) TTW_MBX then (E_DISWAI, END_CRITICAL_SECTION k)
           else if headmsg i k \<noteq> 0 then (E_OK, END_CRITICAL_SECTION (mbx_take i ppk_msg k))
           else
             let k = upd_tcb t (\<lambda>tc. tc\<lparr>wspec := (if mbxatr c AND TA_TPRI \<noteq> 0 then WSPEC_MBX_TPRI
                                                     else WSPEC_MBX_TFIFO),
                                        wercd := E_OK, winfo := WINFO_MBX ppk_msg\<rparr>) k;
                 k = gcb_make_wait_with_diswai (MbxQ i) (mbxid c) (mbxatr c) tmout k
             in (wercd (tcb k t), END_CRITICAL_SECTION k))"

definition tk_rcv_mbx :: "ID \<Rightarrow> nat \<Rightarrow> UW \<Rightarrow> kernel \<Rightarrow> ER \<times> kernel" where
  "tk_rcv_mbx oid ppk_msg tmout k = tk_rcv_mbx_u oid ppk_msg (to_usec_tmo tmout) k"

definition mbx_info :: "nat \<Rightarrow> kernel \<Rightarrow> t_rmbx" where
  "mbx_info i k = \<lparr>rmbx_exinf = mbx_exinf (mbx k i), rmbx_wtsk = wait_tskid (MbxQ i) k,
     rmbx_pk_msg = headmsg i k\<rparr>"

definition tk_ref_mbx :: "ID \<Rightarrow> kernel \<Rightarrow> (ER \<times> t_rmbx option) \<times> kernel" where
  "tk_ref_mbx oid k =
     (case CHECK_MBXID oid k of
        Some e \<Rightarrow> ((e, None), k)
      | None \<Rightarrow>
          let i = get_mbxcb oid
          in (if mbxid (mbx k i) = 0 then (E_NOEXS, None) else (E_OK, Some (mbx_info i k)),
              END_CRITICAL_SECTION k))"

definition mailbox_getname :: "ID \<Rightarrow> kernel \<Rightarrow> ER \<times> UB list option" where
  "mailbox_getname oid k =
     (case CHECK_MBXID oid k of
        Some e \<Rightarrow> (e, None)
      | None \<Rightarrow>
          let i = get_mbxcb oid
          in if mbxid (mbx k i) = 0 then (E_NOEXS, None)
             else if mbxatr (mbx k i) AND TA_DSNAME = 0 then (E_OBJ, None)
             else (E_OK, Some (mbx_name (mbx k i))))"

definition td_lst_mbx :: "int \<Rightarrow> kernel \<Rightarrow> int \<times> ID list" where
  "td_lst_mbx nent k =
     id_list (filter (\<lambda>oid. oid \<noteq> 0) (map (\<lambda>i. mbxid (mbx k i)) [0..<nat (max_mbxid k)])) nent"

definition td_ref_mbx :: "ID \<Rightarrow> kernel \<Rightarrow> ER \<times> t_rmbx option" where
  "td_ref_mbx oid k =
     (case CHECK_MBXID oid k of
        Some e \<Rightarrow> (e, None)
      | None \<Rightarrow>
          let i = get_mbxcb oid
          in if mbxid (mbx k i) = 0 then (E_NOEXS, None) else (E_OK, Some (mbx_info i k)))"

definition td_mbx_que :: "ID \<Rightarrow> int \<Rightarrow> kernel \<Rightarrow> int \<times> ID list" where
  "td_mbx_que oid nent k =
     (case CHECK_MBXID oid k of
        Some e \<Rightarrow> (e, [])
      | None \<Rightarrow>
          let i = get_mbxcb oid
          in if mbxid (mbx k i) = 0 then (E_NOEXS, []) else que_ids (que k (MbxQ i)) nent k)"

subsection \<open>Linked messages\<close>

fun mchain :: "(msgaddr \<Rightarrow> nat) \<Rightarrow> msgaddr \<Rightarrow> nat list \<Rightarrow> bool" where
  "mchain q a [] \<longleftrightarrow> q a = 0"
| "mchain q a (m # ms) \<longleftrightarrow> q a = m \<and> m \<noteq> 0 \<and> mchain q (Msg m) ms"

lemma mchain_upd:
  "b \<noteq> a \<Longrightarrow> b \<notin> Msg ` set ms \<Longrightarrow> mchain (q(b := x)) a ms = mchain q a ms"
  by (induction ms arbitrary: a) auto

lemma mchain_head: "mchain q a ms \<Longrightarrow> q a = (case ms of [] \<Rightarrow> 0 | m # _ \<Rightarrow> m)"
  by (cases ms) simp_all

lemma mchain_nonzero: "mchain q a ms \<Longrightarrow> 0 \<notin> set ms"
  by (induction ms arbitrary: a) auto

lemma mchain_unique: "mchain q a ms \<Longrightarrow> mchain q a ns \<Longrightarrow> ms = ns"
proof (induction ms arbitrary: a ns)
  case Nil
  then show ?case by (cases ns) auto
next
  case (Cons m ms)
  then show ?case by (cases ns) auto
qed

text \<open>Splicing a message between two parts of a chain.\<close>

definition mchain_end :: "msgaddr \<Rightarrow> nat list \<Rightarrow> msgaddr" where
  "mchain_end a ms = (if ms = [] then a else Msg (last ms))"

lemma mchain_splice:
  assumes "mchain q a (ys @ zs)" "distinct (ys @ zs)" "m \<notin> set (ys @ zs)" "m \<noteq> 0"
    "a \<noteq> Msg m" "a \<notin> Msg ` set (ys @ zs)"
  shows "mchain (q(Msg m := (case zs of [] \<Rightarrow> 0 | z # _ \<Rightarrow> z), mchain_end a ys := m)) a (ys @ m # zs)"
  using assms
proof (induction ys arbitrary: a)
  case Nil
  show ?case
  proof (cases zs)
    case (Cons z zs')
    have "mchain (q(Msg m := z, a := m)) (Msg z) zs' = mchain q (Msg z) zs'"
      using Nil Cons by (subst mchain_upd, force, force)+ simp
    then show ?thesis using Nil Cons by (simp add: mchain_end_def fun_upd_def)
  qed (use Nil in \<open>simp add: mchain_end_def\<close>)
next
  case (Cons y ys)
  have "mchain (q(Msg m := (case zs of [] \<Rightarrow> 0 | z # _ \<Rightarrow> z), mchain_end (Msg y) ys := m)) (Msg y) (ys @ m # zs)"
    by (rule Cons.IH) (use Cons.prems in auto)
  moreover have "mchain_end (Msg y) ys = mchain_end a (y # ys)" by (simp add: mchain_end_def)
  moreover have "mchain_end (Msg y) ys \<noteq> a"
    using Cons.prems by (auto simp: mchain_end_def)
  ultimately show ?case using Cons.prems by (simp add: fun_upd_def)
qed

lemma mchain_end_mem: "mchain_end a (takeWhile P ms) = a \<or> mchain_end a (takeWhile P ms) \<in> Msg ` set ms"
  using set_takeWhileD [of "last (takeWhile P ms)" P ms] last_in_set [of "takeWhile P ms"]
  by (auto simp: mchain_end_def)

lemma mpri_loop_result:
  assumes "mchain q a ms"
  shows "mpri_loop q pri p a =
    Some (mchain_end a (takeWhile (\<lambda>x. \<not> pri x > p) ms),
      case dropWhile (\<lambda>x. \<not> pri x > p) ms of [] \<Rightarrow> 0 | z # _ \<Rightarrow> z)"
  using assms
proof (induction ms arbitrary: a)
  case Nil
  then show ?case by (subst mpri_loop.simps) (simp add: mchain_end_def)
next
  case (Cons m ms)
  then show ?case
    by (subst mpri_loop.simps) (auto simp: mchain_end_def Let_def)
qed


lemma mpri_insert:
  assumes c: "mchain q a ms" and d: "distinct ms" "m \<notin> set ms" "m \<noteq> 0" "a \<noteq> Msg m" "a \<notin> Msg ` set ms"
    and l: "mpri_loop q pri (pri m) a = Some (pm, nm)"
  shows "mchain (q(Msg m := nm, pm := m)) a (insert_by (\<lambda>x e. pri x > pri e) m ms)"
proof -
  let ?P = "\<lambda>x. \<not> pri x > pri m"
  have r: "pm = mchain_end a (takeWhile ?P ms)" "nm = (case dropWhile ?P ms of [] \<Rightarrow> 0 | z # _ \<Rightarrow> z)"
    using l mpri_loop_result [OF c, of pri "pri m"] by simp_all
  show ?thesis
    unfolding r insert_by_takeWhile by (rule mchain_splice) (use c d in simp_all)
qed

subsection \<open>The invariant of mailboxes\<close>

type_synonym mails = "nat \<Rightarrow> nat list"

definition mbx_wspec :: "UW \<Rightarrow> wspec" where
  "mbx_wspec atr = (if atr AND TA_TPRI \<noteq> 0 then WSPEC_MBX_TPRI else WSPEC_MBX_TFIFO)"

definition mbx_ok :: "mails \<Rightarrow> nat \<Rightarrow> kernel \<Rightarrow> bool" where
  "mbx_ok M i k \<longleftrightarrow>
     (if mbxid (mbx k i) = 0 then que k (MbxQ i) = [] \<and> M i = []
      else wq_ok (MbxQ i) (mbxatr (mbx k i)) (mbxid (mbx k i)) (mbx_wspec (mbxatr (mbx k i))) k \<and>
        mchain (msgque k) (MqHead i) (M i) \<and>
        (que k (MbxQ i) \<noteq> [] \<longrightarrow> M i = []) \<and>
        (if mbxatr (mbx k i) AND TA_MPRI \<noteq> 0 then sorted (map (msgpri k) (M i))
         else M i \<noteq> [] \<longrightarrow> mq_tail (mbx k i) = last (M i)))"

definition mails_ok :: "mails \<Rightarrow> bool" where
  "mails_ok M \<longleftrightarrow> (\<forall>i. distinct (M i)) \<and> (\<forall>i j. i \<noteq> j \<longrightarrow> set (M i) \<inter> set (M j) = {})"

definition mbx_inv :: "mails \<Rightarrow> kernel \<Rightarrow> bool" where
  "mbx_inv M k \<longleftrightarrow>
     pool_ok (free_mbxcb k) (\<lambda>i. mbxid (mbx k i)) (nat (max_mbxid k)) \<and> mails_ok M \<and>
     (\<forall>i < nat (max_mbxid k). mbx_ok M i k)"

definition mbx_sys :: "mails \<Rightarrow> kernel \<Rightarrow> bool" where
  "mbx_sys M k \<longleftrightarrow> kernel_ok k \<and> mbx_inv M k"

lemma upd_mbx_frame [simp]:
  "objs (upd_mbx i f k) = upd_mbx i f (objs k)" "tcb_table (upd_mbx i f k) = tcb_table k"
  "que (upd_mbx i f k) = que k" "mbxcb_table (upd_mbx i f k) = (mbxcb_table k)(i := f (mbx k i))"
  "timer_queue (upd_mbx i f k) = timer_queue k" "ctxtsk (upd_mbx i f k) = ctxtsk k"
  "NUM_TSKID (upd_mbx i f k) = NUM_TSKID k" "max_mbxid (upd_mbx i f k) = max_mbxid k"
  "free_mbxcb (upd_mbx i f k) = free_mbxcb k" "schedtsk (upd_mbx i f k) = schedtsk k"
  "self (upd_mbx i f k) = self k" "tmebs (upd_mbx i f k) = tmebs k" "msgque (upd_mbx i f k) = msgque k"
  "msgpri (upd_mbx i f k) = msgpri k" "mem_ptr (upd_mbx i f k) = mem_ptr k"
  by (simp_all add: upd_mbx_def objs_def NUM_TSKID_def self_def)

lemma set_next_frame [simp]:
  "objs (set_next a m k) = set_next a m (objs k)" "tcb_table (set_next a m k) = tcb_table k"
  "que (set_next a m k) = que k" "mbxcb_table (set_next a m k) = mbxcb_table k"
  "timer_queue (set_next a m k) = timer_queue k" "ctxtsk (set_next a m k) = ctxtsk k"
  "NUM_TSKID (set_next a m k) = NUM_TSKID k" "max_mbxid (set_next a m k) = max_mbxid k"
  "free_mbxcb (set_next a m k) = free_mbxcb k" "schedtsk (set_next a m k) = schedtsk k"
  "self (set_next a m k) = self k" "msgque (set_next a m k) = (msgque k)(a := m)"
  "msgpri (set_next a m k) = msgpri k" "mem_ptr (set_next a m k) = mem_ptr k"
  by (simp_all add: set_next_def objs_def NUM_TSKID_def self_def)

lemma kinv_upd_mbx [intro]: "kinv X k \<Longrightarrow> kinv X (upd_mbx i f k)"
  by (erule kinv_objs_cong) (simp_all add: upd_mbx_def NUM_TSKID_def)

lemma kinv_set_next [intro]: "kinv X k \<Longrightarrow> kinv X (set_next a m k)"
  by (erule kinv_objs_cong) (simp_all add: set_next_def NUM_TSKID_def)

lemma kinv_mem_ptr [intro]: "kinv X k \<Longrightarrow> kinv X (k\<lparr>mem_ptr := m\<rparr>)"
  by (erule kinv_objs_cong) (simp_all add: NUM_TSKID_def)

lemma kinv_free_mbxcb: "kinv X k \<Longrightarrow> kinv X (k\<lparr>free_mbxcb := f\<rparr>)"
  by (erule kinv_objs_cong) (simp_all add: NUM_TSKID_def)

lemma mchain_cong:
  "q' a = q a \<Longrightarrow> (\<And>m. m \<in> set ms \<Longrightarrow> q' (Msg m) = q (Msg m)) \<Longrightarrow> mchain q' a ms = mchain q a ms"
  by (induction ms arbitrary: a) auto

lemma mbx_ok_cong:
  assumes "mbx k' i = mbx k i" "que k' (MbxQ i) = que k (MbxQ i)"
    "\<And>t. t \<in> set (que k (MbxQ i)) \<Longrightarrow> same_tcb (tcb k' t) (tcb k t)"
    "M' i = M i" "msgque k' (MqHead i) = msgque k (MqHead i)"
    "\<And>m. m \<in> set (M i) \<Longrightarrow> msgque k' (Msg m) = msgque k (Msg m) \<and> msgpri k' m = msgpri k m"
  shows "mbx_ok M' i k' = mbx_ok M i k"
proof -
  have w: "wq_ok (MbxQ i) a d w k' = wq_ok (MbxQ i) a d w k" for a d w
    by (rule wq_ok_cong [OF assms(2)]) (rule assms(3))
  have c: "mchain (msgque k') (MqHead i) (M i) = mchain (msgque k) (MqHead i) (M i)"
    by (rule mchain_cong) (simp_all add: assms(5,6))
  have p: "map (msgpri k') (M i) = map (msgpri k) (M i)" by (simp add: assms(6))
  show ?thesis unfolding mbx_ok_def assms(1,2,4) w c p ..
qed

lemma mbx_inv_cong:
  assumes "\<And>i. mbx k' i = mbx k i" "\<And>i. que k' (MbxQ i) = que k (MbxQ i)"
    "free_mbxcb k' = free_mbxcb k" "max_mbxid k' = max_mbxid k" "msgque k' = msgque k" "msgpri k' = msgpri k"
    "\<And>i t. t \<in> set (que k (MbxQ i)) \<Longrightarrow> same_tcb (tcb k' t) (tcb k t)"
  shows "mbx_inv M k' = mbx_inv M k"
  using mbx_ok_cong [of k' _ k M M] assms by (simp add: mbx_inv_def)

text \<open>One mailbox changes, and with it the links of its own messages.\<close>

lemma mbx_inv_one:
  assumes inv: "mbx_inv M k" and i: "mbx_ok M' i k'" and m: "mails_ok M'" "\<And>j. j \<noteq> i \<Longrightarrow> M' j = M j"
    and pool: "pool_ok (free_mbxcb k') (\<lambda>i. mbxid (mbx k' i)) (nat (max_mbxid k'))"
    and same: "max_mbxid k' = max_mbxid k" "\<And>j. j \<noteq> i \<Longrightarrow> mbx k' j = mbx k j"
      "\<And>j. j \<noteq> i \<Longrightarrow> que k' (MbxQ j) = que k (MbxQ j)"
      "\<And>j t. j \<noteq> i \<Longrightarrow> t \<in> set (que k (MbxQ j)) \<Longrightarrow> same_tcb (tcb k' t) (tcb k t)"
    and links: "msgpri k' = msgpri k"
      "\<And>a. a \<noteq> MqHead i \<Longrightarrow> a \<notin> Msg ` (set (M i) \<union> set (M' i)) \<Longrightarrow> msgque k' a = msgque k a"
  shows "mbx_inv M' k'"
proof -
  have "mbx_ok M' j k'" if "j < nat (max_mbxid k)" for j
  proof (cases "j = i")
    case False
    have "set (M i) \<inter> set (M j) = {}" "set (M' i) \<inter> set (M j) = {}"
      using False inv m(1) m(2) [OF False] unfolding mbx_inv_def mails_ok_def by metis+
    then have "mbx_ok M' j k' = mbx_ok M j k"
      using False by (intro mbx_ok_cong same m(2)) (auto intro!: links(2) simp: links(1))
    with inv that show ?thesis by (simp add: mbx_inv_def)
  qed (simp add: i)
  then show ?thesis using pool m(1) by (simp add: mbx_inv_def same(1))
qed

lemma mbx_inv_pool: "mbx_inv M k \<Longrightarrow> pool_ok (free_mbxcb k) (\<lambda>i. mbxid (mbx k i)) (nat (max_mbxid k))"
  and mbx_inv_ok: "mbx_inv M k \<Longrightarrow> i < nat (max_mbxid k) \<Longrightarrow> mbx_ok M i k"
  and mbx_inv_mails: "mbx_inv M k \<Longrightarrow> mails_ok M"
  by (simp_all add: mbx_inv_def)

lemma mbx_sysI: "kinv {} k \<Longrightarrow> mbx_inv M k \<Longrightarrow> mbx_sys M (END_CRITICAL_SECTION k)"
  using mbx_inv_cong [of "END_CRITICAL_SECTION k" k]
  by (simp add: mbx_sys_def kernel_ok_END_CRITICAL_SECTION same_tcb_def)

lemma mbx_sysD: "mbx_sys M k \<Longrightarrow> kernel_ok k" "mbx_sys M k \<Longrightarrow> kinv {} k" "mbx_sys M k \<Longrightarrow> mbx_inv M k"
  by (simp_all add: mbx_sys_def kernel_ok_kinv)

lemma mbx_sys_quiet: "mbx_sys M k \<Longrightarrow> k' \<in> {k, END_CRITICAL_SECTION k} \<Longrightarrow> mbx_sys M k'"
  using mbx_sysI mbx_sysD by blast

lemma CHECK_MBXID_index:
  "CHECK_MBXID oid k = None \<Longrightarrow> get_mbxcb oid < nat (max_mbxid k) \<and> oid = ID_of (get_mbxcb oid)"
  by (auto simp: CHECK_MBXID_def get_mbxcb_def INDEX_def ID_of_def)

lemma mbx_inv_live:
  assumes "mbx_inv M k" "i < nat (max_mbxid k)" "mbxid (mbx k i) \<noteq> 0"
  shows "mbxid (mbx k i) = ID_of i"
    "wq_ok (MbxQ i) (mbxatr (mbx k i)) (mbxid (mbx k i)) (mbx_wspec (mbxatr (mbx k i))) k"
    "mchain (msgque k) (MqHead i) (M i)" "que k (MbxQ i) \<noteq> [] \<Longrightarrow> M i = []"
    "mbxatr (mbx k i) AND TA_MPRI \<noteq> 0 \<Longrightarrow> sorted (map (msgpri k) (M i))"
    "mbxatr (mbx k i) AND TA_MPRI = 0 \<Longrightarrow> M i \<noteq> [] \<Longrightarrow> mq_tail (mbx k i) = last (M i)"
  using assms pool_ok_live [of "free_mbxcb k" "\<lambda>i. mbxid (mbx k i)"]
  by (auto simp: mbx_inv_def mbx_ok_def ID_of_def)

lemma mbx_inv_headmsg:
  assumes "mbx_inv M k" "i < nat (max_mbxid k)" "mbxid (mbx k i) \<noteq> 0"
  shows "headmsg i k = (case M i of [] \<Rightarrow> 0 | m # _ \<Rightarrow> m)"
  using mchain_head [OF mbx_inv_live(3) [OF assms]] by (simp add: headmsg_def)

lemma mbxid_upd: "(\<lambda>j. mbxid (if j = i then c else f j)) = (\<lambda>j. mbxid (f j))(i := mbxid c)"
  by auto

lemma mbxid_upd_same:
  "(\<And>c. mbxid (f c) = mbxid c) \<Longrightarrow> (\<lambda>j. mbxid (mbx (upd_mbx i f k) j)) = (\<lambda>j. mbxid (mbx k j))"
  by (auto simp: fun_eq_iff)

lemma mails_okD:
  "mails_ok M \<Longrightarrow> m \<in> set (M i) \<Longrightarrow> m \<in> set (M j) \<Longrightarrow> i = j" "mails_ok M \<Longrightarrow> distinct (M i)"
  by (auto simp: mails_ok_def)

lemma mails_ok_upd:
  "mails_ok M \<Longrightarrow> distinct ms \<Longrightarrow> (\<And>j. j \<noteq> i \<Longrightarrow> set ms \<inter> set (M j) = {}) \<Longrightarrow> mails_ok (M(i := ms))"
  by (auto simp: mails_ok_def)

lemma mails_ok_sub: "mails_ok M \<Longrightarrow> distinct ms \<Longrightarrow> set ms \<subseteq> set (M i) \<Longrightarrow> mails_ok (M(i := ms))"
  by (rule mails_ok_upd, assumption+) (use mails_okD(1) [of M] in blast)

text \<open>A message that no mailbox holds may be added to one.\<close>

definition posted :: "mails \<Rightarrow> nat \<Rightarrow> bool" where
  "posted M m \<longleftrightarrow> (\<exists>j. m \<in> set (M j))"

lemma mails_ok_add:
  "mails_ok M \<Longrightarrow> \<not> posted M m \<Longrightarrow> distinct ms \<Longrightarrow> set ms \<subseteq> insert m (set (M i)) \<Longrightarrow> mails_ok (M(i := ms))"
  by (rule mails_ok_upd, assumption+) (use mails_okD(1) [of M] in \<open>auto simp: posted_def\<close>)

lemma released_mbx_inv:
  assumes inv: "mbx_inv M k" and r: "released T e k k'"
    and ob: "mbxcb_table k' = mbxcb_table k" "free_mbxcb k' = free_mbxcb k" "max_mbxid k' = max_mbxid k"
      "msgque k' = msgque k" "msgpri k' = msgpri k"
  shows "mbx_inv M k'"
proof -
  have q: "que k' (MbxQ i) = filter (\<lambda>u. u \<notin> T) (que k (MbxQ i))" for i by (rule releasedD(9) [OF r]) simp
  have "mbx_ok M i k'" if "i < nat (max_mbxid k)" for i
    using mbx_inv_ok [OF inv that] wq_ok_released [OF _ r, of "MbxQ i"] by (auto simp: mbx_ok_def ob q)
  then show ?thesis using inv by (simp add: mbx_inv_def ob)
qed


subsection \<open>Sending\<close>

definition mbx_send :: "kernel \<Rightarrow> nat \<Rightarrow> nat \<Rightarrow> nat list \<Rightarrow> nat list" where
  "mbx_send k i m ms =
     (if mbxatr (mbx k i) AND TA_MPRI \<noteq> 0 then insert_by (\<lambda>x e. msgpri k x > msgpri k e) m ms
      else ms @ [m])"

definition snd_ok :: "ID \<Rightarrow> nat \<Rightarrow> kernel \<Rightarrow> bool" where
  "snd_ok oid m k \<longleftrightarrow>
     CHECK_MBXID oid k = None \<and> mbxid (mbx k (get_mbxcb oid)) \<noteq> 0 \<and>
     \<not> (mbxatr (mbx k (get_mbxcb oid)) AND TA_MPRI \<noteq> 0 \<and> msgpri k m \<le> 0)"

lemma tk_snd_mbx_quiet:
  "\<not> snd_ok oid m k \<Longrightarrow> \<exists>e k'. tk_snd_mbx oid m k = Some (e, k') \<and> k' \<in> {k, END_CRITICAL_SECTION k}"
  by (auto simp: snd_ok_def tk_snd_mbx_def checked_opt_def Let_def split: option.splits)

lemma snd_okD:
  assumes "snd_ok oid m k" "mbx_inv M k" "i = get_mbxcb oid"
  shows "i < nat (max_mbxid k)" "mbxid (mbx k i) \<noteq> 0"
  using assms CHECK_MBXID_index [of oid k] by (simp_all add: snd_ok_def)

text \<open>A waiting task gets the message at once.\<close>

definition deliver :: "tid \<Rightarrow> nat \<Rightarrow> kernel \<Rightarrow> kernel" where
  "deliver t m k = wait_release_ok t (k\<lparr>mem_ptr := (mem_ptr k)(mbx_ppk_msg (winfo (tcb k t)) := m)\<rparr>)"

lemma mbx_deliver:
  assumes inv: "kinv {} k" "mbx_inv M k" and t: "t \<in> set (que k (MbxQ i))"
  shows "released {t} E_OK k (deliver t m k)" "mbx_inv M (deliver t m k)"
    "objs (deliver t m k) = objs (k\<lparr>mem_ptr := (mem_ptr k)(mbx_ppk_msg (winfo (tcb k t)) := m)\<rparr>)"
proof -
  let ?m = "k\<lparr>mem_ptr := (mem_ptr k)(mbx_ppk_msg (winfo (tcb k t)) := m)\<rparr>"
  have w: "t < NUM_TSKID k" "ts_wait (state (tcb k t))" using kinv_waiter [OF inv(1) t] by simp_all
  have N: "NUM_TSKID ?m = NUM_TSKID k" by (simp add: NUM_TSKID_def)
  have "released {t} E_OK ?m (deliver t m k)"
    using released_single [OF kinv_mem_ptr [OF inv(1)], of t _ E_OK] w
    by (simp add: N wait_release_ok_def deliver_def)
  then show r: "released {t} E_OK k (deliver t m k)" using N unfolding released_def by simp
  show ob: "objs (deliver t m k) = objs ?m" by (simp add: wait_release_ok_def deliver_def)
  show "mbx_inv M (deliver t m k)"
    using objs_eqD [OF ob] by (intro released_mbx_inv [OF inv(2) r]) simp_all
qed

text \<open>With no task waiting, the message joins the queue.\<close>

lemma mbx_append_links:
  assumes "mbx_inv M k" "i < nat (max_mbxid k)" "mbxid (mbx k i) \<noteq> 0" "mbxatr (mbx k i) AND TA_MPRI = 0"
  shows "mbx_append i m k =
    upd_mbx i (\<lambda>c. c\<lparr>mq_tail := m\<rparr>) (set_next (mchain_end (MqHead i) (M i)) m (set_next (Msg m) 0 k))"
  using mbx_inv_headmsg [OF assms(1-3)] mbx_inv_live(6) [OF assms] mchain_nonzero [OF mbx_inv_live(3) [OF assms(1-3)]]
  by (cases "M i") (auto simp: mbx_append_def Let_def mchain_end_def headmsg_def)

lemma mbx_only_links:
  "set_next a m k = k\<lparr>mbxcb_table := mbx k, msgque := (msgque k)(a := m)\<rparr>"
  "upd_mbx i f k = k\<lparr>mbxcb_table := (mbx k)(i := f (mbx k i)), msgque := msgque k\<rparr>"
  by (simp_all add: set_next_def upd_mbx_def)

lemma mbx_enqueue:
  assumes inv: "kinv {} k" "mbx_inv M k" and i: "i < nat (max_mbxid k)" "mbxid (mbx k i) \<noteq> 0"
    and q: "que k (MbxQ i) = []" and m: "m \<noteq> 0" "\<not> posted M m"
  obtains k' where
    "(if mbxatr (mbx k i) AND TA_MPRI \<noteq> 0 then queue_insert_mpri m (MqHead i) k
      else Some (mbx_append i m k)) = Some k'"
    "kinv {} k'" "mbx_inv (M(i := mbx_send k i m (M i))) k'" "tcb k' = tcb k" "que k' = que k"
    "\<And>j. mbx k' j = (if j = i then (mbx k i)\<lparr>mq_tail := mq_tail (mbx k' i)\<rparr> else mbx k j)"
    "k' = k\<lparr>mbxcb_table := mbxcb_table k', msgque := msgque k'\<rparr>"
proof -
  note live = mbx_inv_live [OF inv(2) i]
  have d: "distinct (M i)" "m \<notin> set (M i)" using mails_okD(2) [OF mbx_inv_mails [OF inv(2)]] m(2)
    by (auto simp: posted_def)
  have mo: "mails_ok (M(i := mbx_send k i m (M i)))"
    by (rule mails_ok_add [OF mbx_inv_mails [OF inv(2)] m(2)]) (use d in \<open>auto simp: mbx_send_def\<close>)
  have "\<exists>k'. (if mbxatr (mbx k i) AND TA_MPRI \<noteq> 0 then queue_insert_mpri m (MqHead i) k
        else Some (mbx_append i m k)) = Some k' \<and> kinv {} k' \<and>
      mbx_ok (M(i := mbx_send k i m (M i))) i k' \<and>
      (\<forall>j. mbx k' j = (if j = i then (mbx k i)\<lparr>mq_tail := mq_tail (mbx k' i)\<rparr> else mbx k j)) \<and>
      (\<forall>a. a \<noteq> MqHead i \<and> a \<notin> Msg ` insert m (set (M i)) \<longrightarrow> msgque k' a = msgque k a) \<and>
      tcb k' = tcb k \<and> que k' = que k \<and> msgpri k' = msgpri k \<and> max_mbxid k' = max_mbxid k \<and>
      free_mbxcb k' = free_mbxcb k \<and> k' = k\<lparr>mbxcb_table := mbxcb_table k', msgque := msgque k'\<rparr>"
  proof (cases "mbxatr (mbx k i) AND TA_MPRI = 0")
    case True
    let ?k = "mbx_append i m k"
    note eq = mbx_append_links [OF inv(2) i True, of m]
    have c: "mchain (msgque ?k) (MqHead i) (M i @ [m])"
      using mchain_splice [of "msgque k" "MqHead i" "M i" "[]" m] live(3) d m(1) by (auto simp: eq)
    have "kinv {} ?k" unfolding eq by (intro kinv_upd_mbx kinv_set_next inv(1))
    moreover have "mbx_ok (M(i := M i @ [m])) i ?k"
      using c i(2) q True by (simp add: mbx_ok_def eq)
    moreover have "msgque ?k a = msgque k a" if "a \<noteq> MqHead i" "a \<notin> Msg ` insert m (set (M i))" for a
      using that by (auto simp: eq mchain_end_def)
    ultimately show ?thesis using True by (intro exI [of _ ?k]) (auto simp: mbx_send_def eq mbx_only_links)
  next
    case False
    obtain a x where l: "mpri_loop (msgque k) (msgpri k) (msgpri k m) (MqHead i) = Some (a, x)"
      using mpri_loop_result [OF live(3)] by simp
    let ?k = "set_next a m (set_next (Msg m) x k)"
    let ?ms = "insert_by (\<lambda>x e. msgpri k x > msgpri k e) m (M i)"
    have eq: "queue_insert_mpri m (MqHead i) k = Some ?k" by (simp add: queue_insert_mpri_def l)
    have a: "a = MqHead i \<or> a \<in> Msg ` set (M i)"
      using l mpri_loop_result [OF live(3), of "msgpri k" "msgpri k m"]
        mchain_end_mem [of "MqHead i" _ "M i"] by auto
    have c: "mchain (msgque ?k) (MqHead i) ?ms"
      using mpri_insert [OF live(3) d m(1) _ _ l] by auto
    have "sorted (map (msgpri k) ?ms)" by (rule sorted_wrt_insert_by [OF live(5) [OF False]]) simp
    then have "mbx_ok (M(i := ?ms)) i ?k" using c i(2) q False by (simp add: mbx_ok_def)
    moreover have "kinv {} ?k" by (intro kinv_set_next inv(1))
    ultimately show ?thesis using False a by (intro exI [of _ ?k]) (auto simp: mbx_send_def eq mbx_only_links)
  qed
  then obtain k' where k': "(if mbxatr (mbx k i) AND TA_MPRI \<noteq> 0 then queue_insert_mpri m (MqHead i) k
        else Some (mbx_append i m k)) = Some k'" "kinv {} k'"
      "mbx_ok (M(i := mbx_send k i m (M i))) i k'"
      "\<And>j. mbx k' j = (if j = i then (mbx k i)\<lparr>mq_tail := mq_tail (mbx k' i)\<rparr> else mbx k j)"
      "\<And>a. a \<noteq> MqHead i \<Longrightarrow> a \<notin> Msg ` insert m (set (M i)) \<Longrightarrow> msgque k' a = msgque k a"
      "tcb k' = tcb k" "que k' = que k" "msgpri k' = msgpri k" "max_mbxid k' = max_mbxid k"
      "free_mbxcb k' = free_mbxcb k" "k' = k\<lparr>mbxcb_table := mbxcb_table k', msgque := msgque k'\<rparr>"
    by blast
  have ids: "(\<lambda>j. mbxid (mbx k' j)) = (\<lambda>j. mbxid (mbx k j))"
  proof
    show "mbxid (mbx k' j) = mbxid (mbx k j)" for j by (subst k'(4)) simp
  qed
  have "mbx_inv (M(i := mbx_send k i m (M i))) k'"
  proof (rule mbx_inv_one [OF inv(2) k'(3) mo])
    show "pool_ok (free_mbxcb k') (\<lambda>i. mbxid (mbx k' i)) (nat (max_mbxid k'))"
      using mbx_inv_pool [OF inv(2)] unfolding ids k'(9,10) .
    show "mbx k' j = mbx k j" if "j \<noteq> i" for j using k'(4) [of j] that by simp
    show "msgque k' a = msgque k a" if "a \<noteq> MqHead i" "a \<notin> Msg ` (set (M i) \<union> set ((M(i := mbx_send k i m (M i))) i))" for a
      by (rule k'(5)) (use that in \<open>auto simp: mbx_send_def\<close>)
  qed (simp_all add: k'(6-9) same_tcb_def)
  then show thesis by (rule that [OF k'(1,2) _ k'(6,7,4,11)])
qed


definition snd_mails :: "ID \<Rightarrow> nat \<Rightarrow> kernel \<Rightarrow> mails \<Rightarrow> mails" where
  "snd_mails oid m k M =
     (let i = get_mbxcb oid
      in if snd_ok oid m k \<and> que k (MbxQ i) = [] then M(i := mbx_send k i m (M i)) else M)"

lemma tk_snd_mbx_eq:
  assumes ok: "snd_ok oid m k" and i: "i = get_mbxcb oid"
  shows "tk_snd_mbx oid m k = map_option (\<lambda>k. (E_OK, END_CRITICAL_SECTION k))
    (case que k (MbxQ i) of
       t # _ \<Rightarrow> Some (deliver t m k)
     | [] \<Rightarrow> if mbxatr (mbx k i) AND TA_MPRI \<noteq> 0 then queue_insert_mpri m (MqHead i) k
            else Some (mbx_append i m k))"
  using ok unfolding snd_ok_def
  by (auto simp: tk_snd_mbx_def checked_opt_def i Let_def deliver_def split: list.splits)

lemma tk_snd_mbx_sys:
  assumes sys: "mbx_sys M k" and m: "m \<noteq> 0" "\<not> posted M m"
  obtains e k' where "tk_snd_mbx oid m k = Some (e, k')" "mbx_sys (snd_mails oid m k M) k'"
proof (cases "snd_ok oid m k")
  case False
  with tk_snd_mbx_quiet [OF False] mbx_sys_quiet [OF sys] show thesis
    by (auto simp: snd_mails_def Let_def intro: that)
next
  case True
  let ?i = "get_mbxcb oid"
  note i = snd_okD [OF True mbx_sysD(3) [OF sys] refl]
  show thesis
  proof (cases "que k (MbxQ ?i)")
    case Nil
    obtain k' where "(if mbxatr (mbx k ?i) AND TA_MPRI \<noteq> 0 then queue_insert_mpri m (MqHead ?i) k
        else Some (mbx_append ?i m k)) = Some k'" "kinv {} k'" "mbx_inv (M(?i := mbx_send k ?i m (M ?i))) k'"
      by (rule mbx_enqueue [OF mbx_sysD(2,3) [OF sys] i Nil m])
    then show thesis
      using that [of E_OK "END_CRITICAL_SECTION k'"] tk_snd_mbx_eq [OF True refl] mbx_sysI [of k'] Nil True
      by (simp add: snd_mails_def Let_def)
  next
    case (Cons t ts)
    have t: "t \<in> set (que k (MbxQ ?i))" by (simp add: Cons)
    note d = mbx_deliver [OF mbx_sysD(2,3) [OF sys] t, of m]
    show thesis
      using that [of E_OK "END_CRITICAL_SECTION (deliver t m k)"] tk_snd_mbx_eq [OF True refl] Cons
        mbx_sysI [OF releasedD(1) [OF d(1)] d(2)]
      by (simp add: snd_mails_def Let_def)
  qed
qed

subsection \<open>Receiving\<close>

definition rcv_ok :: "ID \<Rightarrow> D \<Rightarrow> kernel \<Rightarrow> bool" where
  "rcv_ok oid tmout k \<longleftrightarrow>
     CHECK_MBXID oid k = None \<and> CHECK_TMOUT tmout = None \<and> CHECK_DISPATCH k = None \<and>
     mbxid (mbx k (get_mbxcb oid)) \<noteq> 0 \<and>
     \<not> is_diswai (mbxatr (mbx k (get_mbxcb oid))) (tcb k (self k)) TTW_MBX"

definition mbx_wait_state :: "nat \<Rightarrow> nat \<Rightarrow> kernel \<Rightarrow> kernel" where
  "mbx_wait_state i p k =
     upd_tcb (self k) (\<lambda>tc. tc\<lparr>wspec := mbx_wspec (mbxatr (mbx k i)), wercd := E_OK, winfo := WINFO_MBX p\<rparr>) k"

definition rcv_mails :: "ID \<Rightarrow> D \<Rightarrow> kernel \<Rightarrow> mails \<Rightarrow> mails" where
  "rcv_mails oid tmout k M =
     (let i = get_mbxcb oid in if rcv_ok oid tmout k then M(i := tl (M i)) else M)"

lemma tk_rcv_mbx_u_quiet:
  "\<not> rcv_ok oid tmout k \<Longrightarrow> snd (tk_rcv_mbx_u oid p tmout k) \<in> {k, END_CRITICAL_SECTION k}"
  by (auto simp: rcv_ok_def tk_rcv_mbx_u_def checked_def Let_def split: option.splits)

lemma tk_rcv_mbx_u_eq:
  assumes ok: "rcv_ok oid tmout k" and i: "i = get_mbxcb oid"
  shows "tk_rcv_mbx_u oid p tmout k =
    (if headmsg i k \<noteq> 0 then (E_OK, END_CRITICAL_SECTION (mbx_take i p k))
     else
       let k' = gcb_make_wait_with_diswai (MbxQ i) (mbxid (mbx k i)) (mbxatr (mbx k i)) tmout
                  (mbx_wait_state i p k)
       in (wercd (tcb k' (self k)), END_CRITICAL_SECTION k'))"
proof -
  have c: "first_error [CHECK_MBXID oid k, CHECK_TMOUT tmout, CHECK_DISPATCH k] = None"
    "(mbxid (mbx k i) = 0) = False" "is_diswai (mbxatr (mbx k i)) (tcb k (self k)) TTW_MBX = False"
    using ok by (simp_all add: rcv_ok_def i)
  show ?thesis
    unfolding tk_rcv_mbx_u_def checked_def c(1) option.case i [symmetric]
    by (simp only: c Let_def if_False mbx_wait_state_def mbx_wspec_def)
qed

lemma mbx_wait_home [simp]: "wait_home (mbx_wspec atr) oid = Some (MbxQ (INDEX oid))"
  "tskwait (mbx_wspec atr) = TTW_MBX"
  by (simp_all add: mbx_wspec_def)

lemma rcv_okD:
  assumes sys: "mbx_sys M k" and ok: "rcv_ok oid tmout k" and i: "i = get_mbxcb oid"
  shows "i < nat (max_mbxid k)" "mbxid (mbx k i) \<noteq> 0" "mbxid (mbx k i) = ID_of i"
    "self k < NUM_TSKID k" "state (tcb k (self k)) = TS_READY"
    "\<not> is_diswai (mbxatr (mbx k i)) (tcb k (self k)) TTW_MBX"
proof -
  have c: "CHECK_MBXID oid k = None" "CHECK_DISPATCH k = None" "mbxid (mbx k i) \<noteq> 0"
    "\<not> is_diswai (mbxatr (mbx k i)) (tcb k (self k)) TTW_MBX"
    using ok by (simp_all add: rcv_ok_def i)
  show il: "i < nat (max_mbxid k)" using CHECK_MBXID_index [OF c(1)] by (simp add: i)
  show "mbxid (mbx k i) \<noteq> 0" "\<not> is_diswai (mbxatr (mbx k i)) (tcb k (self k)) TTW_MBX" by (fact c)+
  show "mbxid (mbx k i) = ID_of i" by (rule mbx_inv_live(1) [OF mbx_sysD(3) [OF sys] il c(3)])
  show "self k < NUM_TSKID k" "state (tcb k (self k)) = TS_READY"
    using kernel_ok_dispatch [OF mbx_sysD(1) [OF sys] c(2)] by simp_all
qed

lemma mbx_wait_inv:
  assumes sys: "mbx_sys M k" and ok: "rcv_ok oid tmout k" and i: "i = get_mbxcb oid"
    and no: "M i = []"
    and k': "k' = gcb_make_wait_with_diswai (MbxQ i) (mbxid (mbx k i)) (mbxatr (mbx k i)) tmout
      (mbx_wait_state i p k)"
  shows "kinv {} k'" "mbx_inv M k'"
    "tmout \<noteq> TMO_POL \<Longrightarrow> task_waits (MbxQ i) (mbx_wspec (mbxatr (mbx k i))) (WINFO_MBX p)
       (mbxid (mbx k i)) (mbxatr (mbx k i)) k k'"
    "tmout = TMO_POL \<Longrightarrow> task_polls k k' \<and> wercd (tcb k' (self k)) = E_TMOUT"
proof -
  let ?atr = "mbxatr (mbx k i)" and ?ws = "mbx_wspec (mbxatr (mbx k i))"
  note d = rcv_okD [OF sys ok i]
  note inv = mbx_sysD(2) [OF sys] and fi = mbx_sysD(3) [OF sys]
  note live = mbx_inv_live [OF fi d(1,2)]
  have home: "wait_home ?ws (mbxid (mbx k i)) = Some (MbxQ i)" using d(3) by simp
  have waits: "task_waits (MbxQ i) ?ws (WINFO_MBX p) (mbxid (mbx k i)) ?atr k k'" if "tmout \<noteq> TMO_POL"
    unfolding k' by (rule gcb_wait_waits [OF inv d(4,5) home _ mbx_wait_state_def]) (use d(6) that in simp_all)
  then show "tmout \<noteq> TMO_POL \<Longrightarrow> task_waits (MbxQ i) ?ws (WINFO_MBX p) (mbxid (mbx k i)) ?atr k k'" .
  have polls: "task_polls k k' \<and> wercd (tcb k' (self k)) = E_TMOUT" if "tmout = TMO_POL"
    using gcb_wait_polls [OF inv d(5) mbx_wait_state_def, where atr = ?atr and tm = tmout and h = "MbxQ i"
        and oid = "mbxid (mbx k i)"] that d(6)
    unfolding k' by simp
  then show "tmout = TMO_POL \<Longrightarrow> task_polls k k' \<and> wercd (tcb k' (self k)) = E_TMOUT" .
  have "kinv {} k' \<and> mbx_inv M k'"
  proof (cases "tmout = TMO_POL")
    case True
    note td = task_pollsD [OF polls [OF True, THEN conjunct1]]
    have "same_tcb (tcb k' t) (tcb k t)" if "t \<in> set (que k (MbxQ j))" for t j
      using td(8) [of t] self_notin [OF inv d(5) _ that] by (simp add: same_tcb_def)
    then have "mbx_inv M k' = mbx_inv M k"
      by (intro mbx_inv_cong) (simp_all add: td(3) objs_eqD [OF td(2)])
    with td(1) fi show ?thesis by simp
  next
    case False
    note wt = waits [OF False]
    note td = task_waitsD [OF wt]
    note ob = objs_eqD [OF td(2)]
    have q: "que k' (MbxQ j) = (if j = i then wait_insert k ?atr (self k) (que k (MbxQ i)) else que k (MbxQ j))" for j
      using td(13) [of "MbxQ j"] by simp
    have "mbx_ok M i k'"
      using wq_ok_waits [OF wt live(2)] live(3) d(2) no by (simp add: mbx_ok_def ob)
    then have "mbx_inv M k'"
    proof (rule mbx_inv_one [OF fi _ mbx_inv_mails [OF fi]])
      show "pool_ok (free_mbxcb k') (\<lambda>i. mbxid (mbx k' i)) (nat (max_mbxid k'))"
        using mbx_inv_pool [OF fi] by (simp add: ob)
      show "same_tcb (tcb k' t) (tcb k t)" if "j \<noteq> i" "t \<in> set (que k (MbxQ j))" for j t
        using td(11) self_notin [OF inv d(5) _ that(2)] by simp
    qed (simp_all add: ob q)
    with td(1) show ?thesis by simp
  qed
  then show "kinv {} k'" "mbx_inv M k'" by simp_all
qed

lemma mbx_take_inv:
  assumes inv: "kinv {} k" "mbx_inv M k" and i: "i < nat (max_mbxid k)" "mbxid (mbx k i) \<noteq> 0"
    and M: "M i = m # ms"
  shows "kinv {} (mbx_take i p k)" "mbx_inv (M(i := ms)) (mbx_take i p k)"
    "mem_ptr (mbx_take i p k) = (mem_ptr k)(p := m)" "que (mbx_take i p k) = que k"
    "tcb (mbx_take i p k) = tcb k"
proof -
  note live = mbx_inv_live [OF inv(2) i, unfolded M]
  have h: "headmsg i k = m" using mbx_inv_headmsg [OF inv(2) i] M by simp
  let ?k = "mbx_take i p k"
  have eq: "?k = set_next (MqHead i) (nextmsg m k) (k\<lparr>mem_ptr := (mem_ptr k)(p := m)\<rparr>)"
    by (simp add: mbx_take_def Let_def h nextmsg_def)
  show "kinv {} ?k" unfolding eq by (intro kinv_set_next kinv_mem_ptr inv(1))
  show "mem_ptr ?k = (mem_ptr k)(p := m)" "que ?k = que k" "tcb ?k = tcb k" by (simp_all add: eq)
  have ok: "wq_ok h a d w ?k = wq_ok h a d w k" for h a d w by (simp add: wq_ok_def eq)
  have c: "mchain (msgque ?k) (MqHead i) ms"
    using live(3) by (cases ms) (auto simp: eq nextmsg_def mchain_upd image_iff)
  have d: "distinct (m # ms)" using mails_okD(2) [OF mbx_inv_mails [OF inv(2)], of i] M by simp
  have "mbx_ok (M(i := ms)) i ?k"
    using c i(2) live ok by (auto simp: mbx_ok_def eq)
  then show "mbx_inv (M(i := ms)) ?k"
  proof (rule mbx_inv_one [OF inv(2)])
    show "mails_ok (M(i := ms))"
      by (rule mails_ok_sub [OF mbx_inv_mails [OF inv(2)]]) (use d M in auto)
  qed (use mbx_inv_pool [OF inv(2)] in \<open>simp_all add: eq same_tcb_def\<close>)
qed

lemma tk_rcv_mbx_u_sys:
  assumes sys: "mbx_sys M k"
  shows "mbx_sys (rcv_mails oid tmout k M) (snd (tk_rcv_mbx_u oid p tmout k))"
proof (cases "rcv_ok oid tmout k")
  case False
  then show ?thesis using mbx_sys_quiet [OF sys tk_rcv_mbx_u_quiet [OF False]]
    by (simp add: rcv_mails_def Let_def)
next
  case True
  let ?i = "get_mbxcb oid"
  note d = rcv_okD [OF sys True refl]
  note inv = mbx_sysD(2,3) [OF sys]
  show ?thesis
  proof (cases "M ?i")
    case Nil
    then have "rcv_mails oid tmout k M = M" "headmsg ?i k = 0"
      using mbx_inv_headmsg [OF inv(2) d(1,2)] by (auto simp: rcv_mails_def Let_def)
    then show ?thesis using mbx_wait_inv(1,2) [OF sys True refl Nil refl, of p]
      by (simp add: tk_rcv_mbx_u_eq [OF True refl] Let_def mbx_sysI)
  next
    case (Cons m ms)
    then have "headmsg ?i k \<noteq> 0" "rcv_mails oid tmout k M = M(?i := ms)"
      using mbx_inv_headmsg [OF inv(2) d(1,2)] mbx_inv_live(3) [OF inv(2) d(1,2)] True
      by (auto simp: rcv_mails_def Let_def)
    then show ?thesis using mbx_take_inv(1,2) [OF inv d(1,2) Cons, of p]
      by (simp add: tk_rcv_mbx_u_eq [OF True refl] mbx_sysI)
  qed
qed


text \<open>Creation and deletion.\<close>

definition mbx_new :: "t_cmbx \<Rightarrow> nat \<Rightarrow> mbxcb \<Rightarrow> mbxcb" where
  "mbx_new pk i c =
     (let c = c\<lparr>mbxid := ID_of i, mbx_exinf := cmbx_exinf pk, mbxatr := cmbx_mbxatr pk\<rparr>
      in if cmbx_mbxatr pk AND TA_DSNAME \<noteq> 0 then c\<lparr>mbx_name := strncpy (cmbx_dsname pk) 8\<rparr> else c)"

definition cmbx_valid :: "t_cmbx \<Rightarrow> bool" where
  "cmbx_valid pk \<longleftrightarrow> cmbx_mbxatr pk AND NOT VALID_MBXATR = 0"

lemma mbx_new_sel [simp]:
  "mbxid (mbx_new pk i c) = ID_of i" "mbxatr (mbx_new pk i c) = cmbx_mbxatr pk"
  by (simp_all add: mbx_new_def Let_def)

lemma set_next_upd_mbx: "set_next a m (upd_mbx i f k) = upd_mbx i f (set_next a m k)"
  by (cases k) (simp add: set_next_def upd_mbx_def)

lemma tk_cre_mbx_eq:
  assumes "cmbx_valid pk" "free_mbxcb k = i # rest" "que k (MbxQ i) = []"
  shows "tk_cre_mbx pk k =
    (ID_of i, END_CRITICAL_SECTION (upd_mbx i (mbx_new pk i) (set_next (MqHead i) 0 (k\<lparr>free_mbxcb := rest\<rparr>))))"
proof -
  have "QueInit (MbxQ i) (que k) = que k" using assms(3) by (auto simp: fun_eq_iff)
  then show ?thesis using assms(1,2)
    by (simp add: tk_cre_mbx_def cmbx_valid_def checked_def CHECK_RSATR_def Let_def set_next_upd_mbx)
      (simp add: upd_mbx_def mbx_new_def set_next_def)
qed

lemma tk_cre_mbx_fail:
  assumes "\<not> cmbx_valid pk \<or> free_mbxcb k = []"
  shows "snd (tk_cre_mbx pk k) \<in> {k, END_CRITICAL_SECTION k}"
    "fst (tk_cre_mbx pk k) = (if cmbx_valid pk then E_LIMIT else E_RSATR)"
  using assms
  by (auto simp: tk_cre_mbx_def cmbx_valid_def checked_def CHECK_RSATR_def CHECK_def split: option.splits)

lemma mbx_free_empty:
  assumes "mbx_inv M k" "i \<in> set (free_mbxcb k)"
  shows "i < nat (max_mbxid k)" "mbxid (mbx k i) = 0" "que k (MbxQ i) = []" "M i = []"
  using assms mbx_inv_ok [OF assms(1), of i] by (auto simp: mbx_inv_def pool_ok_def mbx_ok_def)

lemma tk_cre_mbx_sys:
  assumes sys: "mbx_sys M k"
  shows "mbx_sys M (snd (tk_cre_mbx pk k))"
proof (cases "cmbx_valid pk \<and> free_mbxcb k \<noteq> []")
  case False
  then have f: "\<not> cmbx_valid pk \<or> free_mbxcb k = []" by blast
  show ?thesis by (rule mbx_sys_quiet [OF sys tk_cre_mbx_fail(1) [OF f]])
next
  case True
  then obtain i rest where f: "free_mbxcb k = i # rest" by (cases "free_mbxcb k") auto
  let ?k = "upd_mbx i (mbx_new pk i) (set_next (MqHead i) 0 (k\<lparr>free_mbxcb := rest\<rparr>))"
  note inv = mbx_sysD(3) [OF sys]
  have i: "i < nat (max_mbxid k)" "mbxid (mbx k i) = 0" "que k (MbxQ i) = []" "M i = []"
    using mbx_free_empty [OF inv, of i] f by simp_all
  have "mbx_ok M i ?k" using i(3,4) by (simp add: mbx_ok_def)
  moreover have "pool_ok rest (\<lambda>j. mbxid (mbx ?k j)) (nat (max_mbxid k))"
    using pool_ok_take(1) [of i rest] mbx_inv_pool [OF inv] f by (simp add: mbxid_upd ID_of_def)
  ultimately have "mbx_inv M ?k"
    by (intro mbx_inv_one [OF inv, of M i]) (simp_all add: same_tcb_def mbx_inv_mails [OF inv])
  with tk_cre_mbx_eq [OF _ f i(3)] True kinv_upd_mbx [OF kinv_set_next [OF kinv_free_mbxcb [OF mbx_sysD(2) [OF sys]]]]
  show ?thesis by (simp add: mbx_sysI)
qed

definition del_mails :: "ID \<Rightarrow> kernel \<Rightarrow> mails \<Rightarrow> mails" where
  "del_mails oid k M =
     (let i = get_mbxcb oid
      in if CHECK_MBXID oid k = None \<and> mbxid (mbx k i) \<noteq> 0 then M(i := []) else M)"

lemma tk_del_mbx_eq:
  assumes "CHECK_MBXID oid k = None" "mbxid (mbx k (get_mbxcb oid)) \<noteq> 0" "i = get_mbxcb oid"
  shows "tk_del_mbx oid k =
    (E_OK, END_CRITICAL_SECTION (upd_mbx i (\<lambda>c. c\<lparr>mbxid := 0\<rparr>)
      ((wait_delete (MbxQ i) k)\<lparr>free_mbxcb := free_mbxcb k @ [i]\<rparr>)))"
  using assms by (simp add: tk_del_mbx_def checked_def Let_def)

lemma tk_del_mbx_sys:
  assumes sys: "mbx_sys M k"
  shows "mbx_sys (del_mails oid k M) (snd (tk_del_mbx oid k))"
proof (cases "CHECK_MBXID oid k = None \<and> mbxid (mbx k (get_mbxcb oid)) \<noteq> 0")
  case False
  then have "snd (tk_del_mbx oid k) \<in> {k, END_CRITICAL_SECTION k}"
    by (auto simp: tk_del_mbx_def checked_def Let_def split: option.splits)
  with False show ?thesis using mbx_sys_quiet [OF sys] by (auto simp: del_mails_def Let_def)
next
  case True
  let ?i = "get_mbxcb oid"
  let ?w = "wait_delete (MbxQ ?i) k"
  let ?k = "upd_mbx ?i (\<lambda>c. c\<lparr>mbxid := 0\<rparr>) (?w\<lparr>free_mbxcb := free_mbxcb k @ [?i]\<rparr>)"
  note inv = mbx_sysD(3) [OF sys] and kv = mbx_sysD(2) [OF sys]
  have i: "?i < nat (max_mbxid k)" using CHECK_MBXID_index True by simp
  have rel: "released (set (que k (MbxQ ?i))) E_DLT k ?w"
    by (rule wait_delete_released [OF kv]) simp_all
  have w: "mbx_inv M ?w" by (rule released_mbx_inv [OF inv rel]) simp_all
  have "mbx_ok (M(?i := [])) ?i ?k"
    using wait_delete_empties [OF kv, of "MbxQ ?i"] by (simp add: mbx_ok_def)
  then have "mbx_inv (M(?i := [])) ?k"
  proof (rule mbx_inv_one [OF w])
    show "mails_ok (M(?i := []))" by (rule mails_ok_sub [OF mbx_inv_mails [OF inv]]) simp_all
    show "pool_ok (free_mbxcb ?k) (\<lambda>i. mbxid (mbx ?k i)) (nat (max_mbxid ?k))"
      using pool_ok_return [OF mbx_inv_pool [OF inv] i] True by (simp add: mbxid_upd)
  qed (simp_all add: same_tcb_def)
  moreover have "kinv {} ?k" by (intro kinv_upd_mbx kinv_free_mbxcb releasedD(1) [OF rel])
  ultimately show ?thesis using tk_del_mbx_eq [OF _ _ refl, of oid k] True
    by (simp add: mbx_sysI del_mails_def)
qed

subsection \<open>The hook\<close>

lemma mbx_waiter:
  assumes inv: "kinv {} k" "mbx_inv M k" and t: "t \<in> set (que k (MbxQ i))" and i: "i < nat (max_mbxid k)"
  shows "mbxid (mbx k i) \<noteq> 0" "get_mbxcb (wid (tcb k t)) = i" "wspec (tcb k t) = mbx_wspec (mbxatr (mbx k i))"
proof -
  show ne: "mbxid (mbx k i) \<noteq> 0" using mbx_inv_ok [OF inv(2) i] t by (auto simp: mbx_ok_def)
  note live = mbx_inv_live [OF inv(2) i ne]
  show "get_mbxcb (wid (tcb k t)) = i" "wspec (tcb k t) = mbx_wspec (mbxatr (mbx k i))"
    using live(1,2) t by (simp_all add: wq_ok_def get_mbxcb_def)
qed

lemma mbx_chg_pri_inv:
  assumes inv: "kinv {} k" "mbx_inv M k" and t: "t \<in> set (que k (MbxQ i))" and i: "i < nat (max_mbxid k)"
    and tpri: "mbxatr (mbx k i) AND TA_TPRI \<noteq> 0" and p: "p < NUM_PRI"
  obtains k' where "mbx_chg_pri t old (set_priority t p k) = Some k'" "pri_changed k k'" "mbx_inv M k'"
    "\<And>u. core (tcb k' u) = core (tcb (set_priority t p k) u)"
    "\<And>h. \<not> rdyq h \<Longrightarrow> h \<noteq> MbxQ i \<Longrightarrow> que k' h = que k h" "objs k' = objs k"
proof -
  let ?k = "gcb_change_priority (MbxQ i) t (set_priority t p k)"
  note w = mbx_waiter [OF inv t i]
  note live = mbx_inv_live [OF inv(2) i w(1)]
  note g = wq_chg_pri [OF inv(1) t _ _ p live(2) tpri, simplified]
  have "que k (MbxQ i) \<noteq> []" using t by (cases "que k (MbxQ i)") auto
  then have "M i = []" by (rule live(4))
  then have "mbx_ok M i ?k"
    using live(3) g(2) w(1) by (auto simp: mbx_ok_def)
  then have "mbx_inv M ?k"
  proof (rule mbx_inv_one [OF inv(2) _ mbx_inv_mails [OF inv(2)]])
    show "que ?k (MbxQ j) = que k (MbxQ j)" if "j \<noteq> i" for j using that g(4) by simp
    show "same_tcb (tcb ?k u) (tcb k u)" if "j \<noteq> i" "u \<in> set (que k (MbxQ j))" for j u
    proof -
      have "u \<noteq> t" using disjoint_queuesD [OF kinvD(6) [OF inv(1)] t, of "MbxQ j"] that by auto
      then show ?thesis by (simp add: same_tcb_def)
    qed
  qed (use mbx_inv_pool [OF inv(2)] in simp_all)
  moreover have "mbx_chg_pri t old (set_priority t p k) = Some ?k"
    using w(2) by (simp add: mbx_chg_pri_def)
  moreover have "pri_changed k ?k" by (rule pri_changed_reorder [OF inv(1) t _ _ p]) simp_all
  ultimately show thesis using g(4) by (intro that [of ?k]) simp_all
qed

subsection \<open>Mailboxes as a class of objects\<close>

definition mbx_ids :: "kernel \<Rightarrow> ID set" where
  "mbx_ids k = pool_ids (\<lambda>i. mbxid (mbx k i)) (nat (max_mbxid k))"

definition mbx_absent :: "ID \<Rightarrow> kernel \<Rightarrow> ER" where
  "mbx_absent oid k = (if 1 \<le> oid \<and> oid \<le> max_mbxid k then E_NOEXS else E_ID)"

lemma mbx_ids_iff:
  "mbx_sys M k \<Longrightarrow> oid \<in> mbx_ids k \<longleftrightarrow> CHECK_MBXID oid k = None \<and> mbxid (mbx k (get_mbxcb oid)) \<noteq> 0"
  using pool_ids_iff [OF mbx_inv_pool [OF mbx_sysD(3)]]
  by (auto simp: mbx_ids_def CHECK_MBXID_def get_mbxcb_def INDEX_def)

lemma mbx_create_live:
  assumes sys: "mbx_sys M k" and v: "cmbx_valid pk" and f: "free_mbxcb k = i # rest"
  shows "fst (tk_cre_mbx pk k) = ID_of i" "mbx_ids (snd (tk_cre_mbx pk k)) = insert (ID_of i) (mbx_ids k)"
    "max_mbxid (snd (tk_cre_mbx pk k)) = max_mbxid k" "i < nat (max_mbxid k)" "ID_of i \<notin> mbx_ids k"
proof -
  note inv = mbx_sysD(3) [OF sys]
  have i: "i < nat (max_mbxid k)" "mbxid (mbx k i) = 0" "que k (MbxQ i) = []"
    using mbx_free_empty [OF inv, of i] f by simp_all
  note eq = tk_cre_mbx_eq [OF v f i(3)]
  show "fst (tk_cre_mbx pk k) = ID_of i" "max_mbxid (snd (tk_cre_mbx pk k)) = max_mbxid k"
    by (simp_all add: eq)
  show "mbx_ids (snd (tk_cre_mbx pk k)) = insert (ID_of i) (mbx_ids k)"
    using pool_ids_upd(1) [OF mbx_inv_pool [OF inv] i(1)]
    by (simp add: eq mbx_ids_def mbxid_upd ID_of_def)
  show "i < nat (max_mbxid k)" by (rule i)
  show "ID_of i \<notin> mbx_ids k" using mbx_ids_iff [OF sys, of "ID_of i"] i(2) by (simp add: get_mbxcb_def)
qed

lemma mbx_ids_full_iff:
  "mbx_sys M k \<Longrightarrow> mbx_ids k = {1..int (nat (max_mbxid k))} \<longleftrightarrow> free_mbxcb k = []"
  unfolding mbx_ids_def by (rule pool_ids_full_iff [OF mbx_inv_pool [OF mbx_sysD(3)]])

interpretation mbx_class: object_class "\<lambda>k. \<exists>M. mbx_sys M k" mbx_ids "\<lambda>k. nat (max_mbxid k)" tk_cre_mbx tk_del_mbx
  cmbx_valid E_LIMIT mbx_absent
proof unfold_locales
  fix k :: kernel and pk :: t_cmbx and oid :: int
  assume "\<exists>M. mbx_sys M k"
  then obtain M where sys: "mbx_sys M k" by blast
  note pool = mbx_inv_pool [OF mbx_sysD(3) [OF sys]]
  show "mbx_ids k \<subseteq> {1..int (nat (max_mbxid k))}"
    using pool_ids_iff [OF pool] by (auto simp: mbx_ids_def)
  show "\<exists>M. mbx_sys M (snd (tk_cre_mbx pk k))" using tk_cre_mbx_sys [OF sys] by blast
  show "\<exists>M. mbx_sys M (snd (tk_del_mbx oid k))" using tk_del_mbx_sys [OF sys] by blast
  have fail: "fst (tk_cre_mbx pk k) = (if cmbx_valid pk then E_LIMIT else E_RSATR) \<and>
      mbx_ids (snd (tk_cre_mbx pk k)) = mbx_ids k \<and> max_mbxid (snd (tk_cre_mbx pk k)) = max_mbxid k"
    if "\<not> cmbx_valid pk \<or> free_mbxcb k = []"
    using tk_cre_mbx_fail [OF that] by (auto simp: mbx_ids_def)
  show "nat (max_mbxid (snd (tk_cre_mbx pk k))) = nat (max_mbxid k)"
    using fail mbx_create_live(3) [OF sys] by (cases "cmbx_valid pk"; cases "free_mbxcb k") auto
  show "fst (tk_cre_mbx pk k) \<in> {1..int (nat (max_mbxid k))} - mbx_ids k \<and>
      mbx_ids (snd (tk_cre_mbx pk k)) = insert (fst (tk_cre_mbx pk k)) (mbx_ids k)"
    if v: "cmbx_valid pk" and "mbx_ids k \<noteq> {1..int (nat (max_mbxid k))}"
  proof -
    obtain i rest where f: "free_mbxcb k = i # rest"
      using \<open>mbx_ids k \<noteq> _\<close> mbx_ids_full_iff [OF sys] by (cases "free_mbxcb k") auto
    show ?thesis using mbx_create_live [OF sys v f] by (auto simp: ID_of_def)
  qed
  show "fst (tk_cre_mbx pk k) = E_LIMIT \<and> mbx_ids (snd (tk_cre_mbx pk k)) = mbx_ids k"
    if "cmbx_valid pk" "mbx_ids k = {1..int (nat (max_mbxid k))}"
    using fail that mbx_ids_full_iff [OF sys] by simp
  show "fst (tk_cre_mbx pk k) < 0 \<and> mbx_ids (snd (tk_cre_mbx pk k)) = mbx_ids k" if "\<not> cmbx_valid pk"
    using fail that by auto
  show "nat (max_mbxid (snd (tk_del_mbx oid k))) = nat (max_mbxid k)"
    by (auto simp: tk_del_mbx_def checked_def Let_def split: option.splits)
  show "fst (tk_del_mbx oid k) = 0 \<and> mbx_ids (snd (tk_del_mbx oid k)) = mbx_ids k - {oid}"
    if "oid \<in> mbx_ids k"
  proof -
    have ok: "CHECK_MBXID oid k = None" "mbxid (mbx k (get_mbxcb oid)) \<noteq> 0"
      using that mbx_ids_iff [OF sys] by simp_all
    have il: "get_mbxcb oid < nat (max_mbxid k)" "oid = ID_of (get_mbxcb oid)"
      using CHECK_MBXID_index [OF ok(1)] by simp_all
    show ?thesis
      using pool_ids_upd(2) [OF pool il(1)] il(2)
      by (simp add: tk_del_mbx_eq [OF ok refl] mbx_ids_def mbxid_upd ID_of_def)
  qed
  show "fst (tk_del_mbx oid k) = mbx_absent oid k \<and> mbx_ids (snd (tk_del_mbx oid k)) = mbx_ids k"
    if "oid \<notin> mbx_ids k"
    using that mbx_ids_iff [OF sys, of oid]
    by (auto simp: tk_del_mbx_def checked_def Let_def CHECK_MBXID_def mbx_absent_def CHECK_def mbx_ids_def)
  show "mbx_absent oid k < 0" by (simp add: mbx_absent_def)
qed simp


subsection \<open>Several messages\<close>

fun send_all :: "ID \<Rightarrow> nat list \<Rightarrow> kernel \<Rightarrow> kernel option" where
  "send_all oid [] k = Some k"
| "send_all oid (m # ms) k =
     (case tk_snd_mbx oid m k of
        Some (e, k') \<Rightarrow> if e = E_OK then send_all oid ms k' else None
      | None \<Rightarrow> None)"

fun recv_n :: "ID \<Rightarrow> nat \<Rightarrow> nat \<Rightarrow> kernel \<Rightarrow> nat list" where
  "recv_n oid p 0 k = []"
| "recv_n oid p (Suc n) k =
     (case tk_rcv_mbx_u oid p TMO_POL k of
        (e, k') \<Rightarrow> if e = E_OK then mem_ptr k' p # recv_n oid p n k' else [])"

definition mbx_ready :: "ID \<Rightarrow> kernel \<Rightarrow> bool" where
  "mbx_ready oid k \<longleftrightarrow> rcv_ok oid TMO_POL k \<and> que k (MbxQ (get_mbxcb oid)) = []"

lemma mbx_ready_cong:
  assumes "mbx_ready oid k" "k' = k\<lparr>mbxcb_table := mbxcb_table k', msgque := msgque k', mem_ptr := mem_ptr k'\<rparr>"
    "mbxid (mbx k' (get_mbxcb oid)) = mbxid (mbx k (get_mbxcb oid))"
    "mbxatr (mbx k' (get_mbxcb oid)) = mbxatr (mbx k (get_mbxcb oid))"
  shows "mbx_ready oid k'"
proof -
  have "max_mbxid k' = max_mbxid k" "in_ddsp k' = in_ddsp k" "tcb k' = tcb k" "self k' = self k" "que k' = que k"
    by (subst assms(2), simp add: in_ddsp_def in_indp_def self_def)+
  then show ?thesis
    using assms(1,3,4) by (simp add: mbx_ready_def rcv_ok_def CHECK_MBXID_def CHECK_DISPATCH_def)
qed

lemma mbx_ready_END:
  assumes "mbx_sys M k" "mbx_ready oid k" "ctxtsk k' = ctxtsk k" "schedtsk k' = schedtsk k"
  shows "END_CRITICAL_SECTION k' = k'"
  using kernel_ok_self(1,4) [OF mbx_sysD(1) [OF assms(1)]] assms(2-4)
  by (simp add: mbx_ready_def rcv_ok_def CHECK_DISPATCH_def END_CRITICAL_SECTION_def)

lemma send_all_result:
  assumes "mbx_sys M k" "mbx_ready oid k" "i = get_mbxcb oid" "distinct ms"
    and "\<And>m. m \<in> set ms \<Longrightarrow> m \<noteq> 0 \<and> \<not> posted M m"
    and "\<And>m. m \<in> set ms \<Longrightarrow> mbxatr (mbx k i) AND TA_MPRI \<noteq> 0 \<Longrightarrow> 0 < msgpri k m"
  shows "\<exists>k'. send_all oid ms k = Some k' \<and> mbx_sys (M(i := fold (mbx_send k i) ms (M i))) k' \<and>
    mbx_ready oid k'"
  using assms
proof (induction ms arbitrary: k M)
  case (Cons m ms)
  note sys = Cons.prems(1) and rd = Cons.prems(2)
  have q: "que k (MbxQ i) = []" and rok: "rcv_ok oid TMO_POL k"
    using rd Cons.prems(3) by (simp_all add: mbx_ready_def)
  note ri = rcv_okD(1,2) [OF sys rok Cons.prems(3)]
  have ok: "snd_ok oid m k"
    using rok Cons.prems(6) [of m] Cons.prems(3) by (auto simp: snd_ok_def rcv_ok_def)
  have m: "m \<noteq> 0" "\<not> posted M m" using Cons.prems(5) [of m] by simp_all
  let ?M = "M(i := mbx_send k i m (M i))"
  obtain k' where k': "(if mbxatr (mbx k i) AND TA_MPRI \<noteq> 0 then queue_insert_mpri m (MqHead i) k
        else Some (mbx_append i m k)) = Some k'" "kinv {} k'" "mbx_inv ?M k'"
      "tcb k' = tcb k" "que k' = que k"
      "\<And>j. mbx k' j = (if j = i then (mbx k i)\<lparr>mq_tail := mq_tail (mbx k' i)\<rparr> else mbx k j)"
      "k' = k\<lparr>mbxcb_table := mbxcb_table k', msgque := msgque k'\<rparr>"
    using mbx_enqueue [OF mbx_sysD(2,3) [OF sys] ri q m] by metis
  have same: "ctxtsk k' = ctxtsk k" "schedtsk k' = schedtsk k" "msgpri k' = msgpri k" "mem_ptr k' = mem_ptr k"
    by (subst k'(7), simp)+
  have atr: "mbxatr (mbx k' i) = mbxatr (mbx k i)" "mbxid (mbx k' i) = mbxid (mbx k i)"
    by (subst k'(6), simp)+
  have E: "END_CRITICAL_SECTION k' = k'" by (rule mbx_ready_END [OF sys rd same(1,2)])
  have eq: "tk_snd_mbx oid m k = Some (E_OK, k')"
    using tk_snd_mbx_eq [OF ok Cons.prems(3)] k'(1) by (simp add: q E)
  have "k' = k\<lparr>mbxcb_table := mbxcb_table k', msgque := msgque k', mem_ptr := mem_ptr k'\<rparr>"
    by (subst k'(7)) (simp add: same(4))
  then have rd': "mbx_ready oid k'" using atr Cons.prems(3) by (intro mbx_ready_cong [OF rd]) simp_all
  have send: "mbx_send k' i = mbx_send k i" by (simp add: mbx_send_def fun_eq_iff atr same(3))
  have post: "n \<noteq> 0 \<and> \<not> posted ?M n" if "n \<in> set ms" for n
    using Cons.prems(4) Cons.prems(5) [of n] that
    by (auto simp: posted_def mbx_send_def split: if_splits)
  have "\<exists>k2. send_all oid ms k' = Some k2 \<and> mbx_sys (?M(i := fold (mbx_send k' i) ms (?M i))) k2 \<and>
      mbx_ready oid k2"
  proof (rule Cons.IH [OF _ rd' Cons.prems(3)])
    show "mbx_sys ?M k'" using mbx_sysI [OF k'(2,3)] by (simp add: E)
    show "distinct ms" using Cons.prems(4) by simp
    show "0 < msgpri k' n" if "n \<in> set ms" "mbxatr (mbx k' i) AND TA_MPRI \<noteq> 0" for n
      using Cons.prems(6) [of n] that by (simp add: atr same(3))
  qed (rule post)
  moreover have "?M(i := fold (mbx_send k' i) ms (?M i)) = M(i := fold (mbx_send k i) (m # ms) (M i))"
    by (simp add: send fun_eq_iff)
  ultimately have "\<exists>k2. send_all oid ms k' = Some k2 \<and>
      mbx_sys (M(i := fold (mbx_send k i) (m # ms) (M i))) k2 \<and> mbx_ready oid k2" by metis
  then show ?case by (simp only: send_all.simps eq option.case prod.case if_True simp_thms)
qed auto

lemma recv_n_result:
  assumes "mbx_sys M k" "mbx_ready oid k" "M (get_mbxcb oid) = ms"
  shows "recv_n oid p (length ms) k = ms"
  using assms
proof (induction ms arbitrary: k M)
  case (Cons m ms)
  let ?i = "get_mbxcb oid"
  note sys = Cons.prems(1) and rd = Cons.prems(2)
  have rok: "rcv_ok oid TMO_POL k" using rd by (simp add: mbx_ready_def)
  note d = rcv_okD [OF sys rok refl]
  note inv = mbx_sysD(2,3) [OF sys]
  note tk = mbx_take_inv [OF inv d(1,2) Cons.prems(3), of p]
  let ?k = "mbx_take ?i p k"
  have ne: "headmsg ?i k \<noteq> 0"
    using mbx_inv_headmsg [OF inv(2) d(1,2)] mbx_inv_live(3) [OF inv(2) d(1,2)] Cons.prems(3) by simp
  have eq: "?k = k\<lparr>mbxcb_table := mbxcb_table ?k, msgque := msgque ?k, mem_ptr := mem_ptr ?k\<rparr>"
    "ctxtsk ?k = ctxtsk k" "schedtsk ?k = schedtsk k" "mbx ?k = mbx k"
    by (simp_all add: mbx_take_def Let_def set_next_def)
  have E: "END_CRITICAL_SECTION ?k = ?k" by (rule mbx_ready_END [OF sys rd eq(2,3)])
  have r: "tk_rcv_mbx_u oid p TMO_POL k = (E_OK, ?k)"
    using ne by (simp add: tk_rcv_mbx_u_eq [OF rok refl] E)
  have "recv_n oid p (length ms) ?k = ms"
  proof (rule Cons.IH)
    show "mbx_sys (M(?i := ms)) ?k" using mbx_sysI [OF tk(1,2)] by (simp add: E)
    show "mbx_ready oid ?k" by (rule mbx_ready_cong [OF rd eq(1)]) (simp_all add: eq(4))
  qed simp
  then show ?case by (simp add: r tk(3))
qed simp

text \<open>Inserting one after the other behind equals is the stable sort.\<close>

lemma filter_insert_by:
  fixes f :: "'a \<Rightarrow> 'b :: linorder"
  assumes "sorted (map f xs)"
  shows "filter (\<lambda>x. c = f x) (insert_by (\<lambda>x e. f x > f e) m xs) =
    filter (\<lambda>x. c = f x) xs @ filter (\<lambda>x. c = f x) [m]"
  using assms
proof (induction xs)
  case (Cons x xs)
  have "filter (\<lambda>x. f m = f x) xs = []" if "f m < f x"
    using Cons.prems that by (force simp: filter_empty_conv)
  with Cons show ?case by auto
qed simp

lemma fold_insert_by:
  fixes f :: "'a \<Rightarrow> 'b :: linorder"
  assumes "sorted (map f ys)"
  shows "sorted (map f (fold (insert_by (\<lambda>x e. f x > f e)) ms ys))"
    and "filter (\<lambda>x. c = f x) (fold (insert_by (\<lambda>x e. f x > f e)) ms ys) =
      filter (\<lambda>x. c = f x) ys @ filter (\<lambda>x. c = f x) ms"
    and "mset (fold (insert_by (\<lambda>x e. f x > f e)) ms ys) = mset ys + mset ms"
  using assms
proof (induction ms arbitrary: ys)
  case (Cons m ms)
  let ?y = "insert_by (\<lambda>x e. f x > f e) m"
  have sorted: "sorted (map f (?y ys))" if "sorted (map f ys)" for ys
    by (rule sorted_wrt_insert_by [OF that]) simp
  have mset: "mset (?y ys) = add_mset m (mset ys)" for ys by (induction ys) auto
  {
    case 1
    then show ?case using Cons.IH(1) [OF sorted] by simp
  next
    case 2
    then show ?case using Cons.IH(2) [OF sorted] filter_insert_by [OF 2] by simp
  next
    case 3
    then show ?case using Cons.IH(3) [OF sorted] by (simp add: mset)
  }
qed simp_all

lemma fold_insert_by_sort:
  fixes f :: "'a \<Rightarrow> 'b :: linorder"
  shows "fold (insert_by (\<lambda>x e. f x > f e)) ms [] = sort_key f ms"
  by (rule properties_for_sort_key [symmetric]) (simp_all add: fold_insert_by)

lemma fold_mbx_send:
  "fold (mbx_send k i) ms [] = (if mbxatr (mbx k i) AND TA_MPRI \<noteq> 0 then sort_key (msgpri k) ms else ms)"
proof (cases "mbxatr (mbx k i) AND TA_MPRI = 0")
  case True
  have "fold (\<lambda>m ms. ms @ [m]) ms ys = ys @ ms" for ys by (induction ms arbitrary: ys) auto
  moreover have "mbx_send k i = (\<lambda>m ms. ms @ [m])" using True by (simp add: mbx_send_def fun_eq_iff)
  ultimately show ?thesis using True by simp
next
  case False
  then have "mbx_send k i = insert_by (\<lambda>x e. msgpri k x > msgpri k e)" by (simp add: mbx_send_def fun_eq_iff)
  then show ?thesis using False fold_insert_by_sort [of "msgpri k" ms] by simp
qed

text \<open>The owner of a message that no mailbox holds may set its priority.\<close>

lemma mbx_sys_msgpri:
  assumes "mbx_sys M k" "\<not> posted M m"
  shows "mbx_sys M (k\<lparr>msgpri := (msgpri k)(m := p)\<rparr>)"
proof -
  let ?k = "k\<lparr>msgpri := (msgpri k)(m := p)\<rparr>"
  have "kernel_ok ?k"
    using mbx_sysD(1) [OF assms(1)]
    by (auto simp: kernel_ok_def ctx_ok_def NUM_TSKID_def intro: kinv_objs_cong [of _ k])
  moreover have "mbx_ok M i ?k = mbx_ok M i k" for i
    using assms(2) by (intro mbx_ok_cong) (auto simp: same_tcb_def posted_def)
  ultimately show ?thesis using mbx_sysD(3) [OF assms(1)] by (simp add: mbx_sys_def mbx_inv_def)
qed


subsection \<open>A concrete run\<close>

text \<open>A mailbox in priority order; the message at 100 has priority 5, the one at 200 priority 3.\<close>

definition ex_cmbx :: t_cmbx where
  "ex_cmbx = \<lparr>cmbx_exinf = 0, cmbx_mbxatr = TA_MPRI, cmbx_dsname = []\<rparr>"

definition ex_mbx :: kernel where
  "ex_mbx =
     (let k = snd (tk_cre_mbx ex_cmbx ex_state)
      in k\<lparr>msgpri := (msgpri k)(100 := 5)\<rparr>\<lparr>msgpri := ((msgpri k)(100 := 5))(200 := 3)\<rparr>)"

definition ex_mbx_wait :: kernel where
  "ex_mbx_wait = snd (tk_rcv_mbx_u 1 300 TMO_FEVR ex_mbx)"

definition no_mails :: mails where
  "no_mails i = []"

lemma no_mails_sel [simp]: "no_mails i = []" "\<not> posted no_mails m"
  by (simp_all add: no_mails_def posted_def)

lemma ex_state_mbx_sys: "mbx_sys no_mails ex_state"
  by (auto simp: mbx_sys_def ex_state_kernel_ok mbx_inv_def mails_ok_def pool_ok_def mbx_ok_def ex_state_que)

lemma ex_cmbx_valid: "cmbx_valid ex_cmbx"
  by (simp add: cmbx_valid_def ex_cmbx_def VALID_MBXATR_def)

lemma ex_mbx_cre:
  "snd (tk_cre_mbx ex_cmbx ex_state) =
     upd_mbx 0 (mbx_new ex_cmbx 0) (set_next (MqHead 0) 0 (ex_state\<lparr>free_mbxcb := [1, 2]\<rparr>))"
proof -
  have "tk_cre_mbx ex_cmbx ex_state = (ID_of 0, END_CRITICAL_SECTION
      (upd_mbx 0 (mbx_new ex_cmbx 0) (set_next (MqHead 0) 0 (ex_state\<lparr>free_mbxcb := [1, 2]\<rparr>))))"
    by (rule tk_cre_mbx_eq [OF ex_cmbx_valid]) (simp_all add: ex_state_que)
  then show ?thesis by (simp add: END_CRITICAL_SECTION_def)
qed

lemma ex_mbx_sel [simp]:
  "mbxid (mbx ex_mbx 0) = 1" "mbxatr (mbx ex_mbx 0) = 2"
  "que ex_mbx = que ex_state" "tcb ex_mbx = tcb ex_state" "self ex_mbx = 0" "max_mbxid ex_mbx = 3"
  "ctxtsk ex_mbx = Some 0" "NUM_TSKID ex_mbx = 5" "schedtsk ex_mbx = Some 0" "isDI ex_mbx = False"
  "isTaskIndependent ex_mbx = False" "dispatch_disabled ex_mbx = 0"
  "msgpri ex_mbx 100 = 5" "msgpri ex_mbx 200 = 3"
  unfolding ex_mbx_def Let_def ex_mbx_cre
  by (simp_all add: ex_cmbx_def ID_of_def) (simp_all add: self_def NUM_TSKID_def upd_mbx_def set_next_def)

lemma ex_mbx_sys: "mbx_sys no_mails ex_mbx"
proof -
  let ?k = "snd (tk_cre_mbx ex_cmbx ex_state)"
  let ?k1 = "?k\<lparr>msgpri := (msgpri ?k)(100 := 5)\<rparr>"
  have "mbx_sys no_mails (?k1\<lparr>msgpri := (msgpri ?k1)(200 := 3)\<rparr>)"
    by (intro mbx_sys_msgpri tk_cre_mbx_sys [OF ex_state_mbx_sys]) simp_all
  then show ?thesis by (simp add: ex_mbx_def Let_def)
qed

lemma ex_mbx_index [simp]: "get_mbxcb 1 = 0"
  by (simp add: get_mbxcb_def INDEX_def)

lemma ex_mbx_rcv_ok: "CHECK_TMOUT tmout = None \<Longrightarrow> rcv_ok 1 tmout ex_mbx"
  by (simp add: rcv_ok_def CHECK_MBXID_def CHECK_DISPATCH_def in_ddsp_def
      in_indp_def is_diswai_def ex_state_tcb ex_tcb_def)

lemma ex_mbx_ready: "mbx_ready 1 ex_mbx"
  using ex_mbx_rcv_ok [of TMO_POL] by (simp add: mbx_ready_def CHECK_TMOUT_def ex_state_que)

lemma ex_mbx_wait_facts:
  "task_waits (MbxQ 0) WSPEC_MBX_TFIFO (WINFO_MBX 300) 1 2 ex_mbx
     (gcb_make_wait_with_diswai (MbxQ 0) 1 2 TMO_FEVR (mbx_wait_state 0 300 ex_mbx))"
  "ex_mbx_wait = END_CRITICAL_SECTION
     (gcb_make_wait_with_diswai (MbxQ 0) 1 2 TMO_FEVR (mbx_wait_state 0 300 ex_mbx))"
proof -
  have ok: "rcv_ok 1 TMO_FEVR ex_mbx" by (rule ex_mbx_rcv_ok) (simp add: CHECK_TMOUT_def)
  have h: "headmsg 0 ex_mbx = 0"
    using mbx_inv_headmsg [OF mbx_sysD(3) [OF ex_mbx_sys], of 0] by simp
  show "task_waits (MbxQ 0) WSPEC_MBX_TFIFO (WINFO_MBX 300) 1 2 ex_mbx
     (gcb_make_wait_with_diswai (MbxQ 0) 1 2 TMO_FEVR (mbx_wait_state 0 300 ex_mbx))"
    using mbx_wait_inv(3) [OF ex_mbx_sys ok ex_mbx_index [symmetric] _ refl] by (simp add: mbx_wspec_def)
  show "ex_mbx_wait = END_CRITICAL_SECTION
     (gcb_make_wait_with_diswai (MbxQ 0) 1 2 TMO_FEVR (mbx_wait_state 0 300 ex_mbx))"
    using h by (simp add: ex_mbx_wait_def tk_rcv_mbx_u_eq [OF ok refl] Let_def)
qed

lemma ex_mbx_wait_sel [simp]:
  "que ex_mbx_wait (MbxQ 0) = [0]" "mbx ex_mbx_wait = mbx ex_mbx"
  "winfo (tcb ex_mbx_wait 0) = WINFO_MBX 300" "msgpri ex_mbx_wait = msgpri ex_mbx"
  "state (tcb ex_mbx_wait 0) = TS_WAIT" "max_mbxid ex_mbx_wait = 3" "mbx_sys no_mails ex_mbx_wait"
proof -
  note d = task_waitsD [OF ex_mbx_wait_facts(1), unfolded ex_mbx_sel]
  show "que ex_mbx_wait (MbxQ 0) = [0]" "mbx ex_mbx_wait = mbx ex_mbx"
    "winfo (tcb ex_mbx_wait 0) = WINFO_MBX 300" "msgpri ex_mbx_wait = msgpri ex_mbx"
    "state (tcb ex_mbx_wait 0) = TS_WAIT" "max_mbxid ex_mbx_wait = 3"
    using d(3,5) d(13) [of "MbxQ 0"] objs_eqD [OF d(2)]
    by (simp_all add: ex_mbx_wait_facts(2) wait_insert_def ex_state_que)
  have "rcv_mails 1 TMO_FEVR ex_mbx no_mails = no_mails" by (auto simp: rcv_mails_def Let_def)
  then show "mbx_sys no_mails ex_mbx_wait"
    using tk_rcv_mbx_u_sys [OF ex_mbx_sys, of 1 TMO_FEVR 300] by (simp add: ex_mbx_wait_def)
qed

subsection \<open>Properties\<close>

text \<open>
  C9: Mailbox calls implement message lists. With \<open>M\<close> the lists that the pointers represent, creating,
  deleting, sending and receiving keep the kernel consistent and lead to pointers that represent the
  lists the abstract operations give; in particular a send returns whenever the message is not already
  in a mailbox, and a mailbox never holds messages while tasks wait for them.
\<close>

theorem mbx_calls_refine:
  assumes "mbx_sys M k" "m \<noteq> 0" "\<not> posted M m"
  shows "mbx_sys M (snd (tk_cre_mbx pk k)) \<and> mbx_sys (del_mails oid k M) (snd (tk_del_mbx oid k)) \<and>
    (\<exists>e k'. tk_snd_mbx oid m k = Some (e, k') \<and> mbx_sys (snd_mails oid m k M) k') \<and>
    mbx_sys (rcv_mails oid tmout k M) (snd (tk_rcv_mbx_u oid p tmout k))"
proof -
  obtain e k' where "tk_snd_mbx oid m k = Some (e, k')" "mbx_sys (snd_mails oid m k M) k'"
    by (rule tk_snd_mbx_sys [OF assms])
  then show ?thesis
    using tk_cre_mbx_sys [OF assms(1)] tk_del_mbx_sys [OF assms(1)] tk_rcv_mbx_u_sys [OF assms(1)] by simp
qed

theorem mbx_calls_refine_witness:
  "\<exists>e k'. tk_snd_mbx 1 100 ex_mbx = Some (e, k') \<and> mbx_sys (no_mails(0 := [100])) k'"
proof -
  have "snd_ok 1 100 ex_mbx" by (simp add: snd_ok_def CHECK_MBXID_def)
  then have "snd_mails 1 100 ex_mbx no_mails = no_mails(0 := [100])"
    by (simp add: snd_mails_def mbx_send_def ex_state_que)
  then show ?thesis using mbx_calls_refine [OF ex_mbx_sys, of 100 _ 1] by simp
qed

text \<open>
  C10: A send to a mailbox on which tasks wait releases the first of them with \<open>E_OK\<close> and stores the
  message behind its pointer, changing no other task and no message list; with nobody waiting the message
  joins the list, at the end or (\<^verbatim>\<open>TA_MPRI\<close>) behind the messages of the same or a better priority, and no
  task changes.
\<close>

theorem tk_snd_mbx_result:
  assumes sys: "mbx_sys M k" and ok: "snd_ok oid m k" and i: "i = get_mbxcb oid"
    and m: "m \<noteq> 0" "\<not> posted M m"
  shows "\<exists>k'. tk_snd_mbx oid m k = Some (E_OK, k') \<and>
    (case que k (MbxQ i) of
       t # ts \<Rightarrow>
         mem_ptr k' = (mem_ptr k)(mbx_ppk_msg (winfo (tcb k t)) := m) \<and> wercd (tcb k' t) = E_OK \<and>
         state (tcb k' t) = (if state (tcb k t) = TS_WAIT then TS_READY else TS_SUSPEND) \<and>
         (\<forall>u. u \<noteq> t \<longrightarrow> state (tcb k' u) = state (tcb k u)) \<and> que k' (MbxQ i) = ts \<and>
         msgque k' = msgque k
     | [] \<Rightarrow>
         tcb k' = tcb k \<and> que k' = que k \<and> mem_ptr k' = mem_ptr k \<and>
         mchain (msgque k') (MqHead i) (mbx_send k i m (M i)))"
proof (cases "que k (MbxQ i)")
  case Nil
  note il = snd_okD [OF ok mbx_sysD(3) [OF sys] i]
  obtain k' where k': "(if mbxatr (mbx k i) AND TA_MPRI \<noteq> 0 then queue_insert_mpri m (MqHead i) k
        else Some (mbx_append i m k)) = Some k'" "mbx_inv (M(i := mbx_send k i m (M i))) k'"
      "tcb k' = tcb k" "que k' = que k"
      "\<And>j. mbx k' j = (if j = i then (mbx k i)\<lparr>mq_tail := mq_tail (mbx k' i)\<rparr> else mbx k j)"
      "k' = k\<lparr>mbxcb_table := mbxcb_table k', msgque := msgque k'\<rparr>"
    using mbx_enqueue [OF mbx_sysD(2,3) [OF sys] il Nil m] by metis
  have "mem_ptr k' = mem_ptr k" "max_mbxid k' = max_mbxid k" by (subst k'(6), simp)+
  moreover have "mbxid (mbx k' i) = mbxid (mbx k i)" by (subst k'(5)) simp
  ultimately show ?thesis
    using mbx_inv_live(3) [OF k'(2), of i] il k'(1,3,4) tk_snd_mbx_eq [OF ok i]
    by (intro exI [of _ "END_CRITICAL_SECTION k'"]) (simp add: Nil)
next
  case (Cons t ts)
  have t: "t \<in> set (que k (MbxQ i))" by (simp add: Cons)
  note d = mbx_deliver [OF mbx_sysD(2,3) [OF sys] t, of m]
  have "t \<notin> set ts" using qinv_distinct [OF kinvD(1) [OF mbx_sysD(2) [OF sys]], of "MbxQ i"] Cons by simp
  then have "filter (\<lambda>u. u \<noteq> t) ts = ts" by (auto intro: filter_True)
  then show ?thesis
    using releasedD(7,8) [OF d(1)] releasedD(9) [OF d(1), of "MbxQ i"] objs_eqD(23,32) [OF d(3)]
      tk_snd_mbx_eq [OF ok i]
    by (intro exI [of _ "END_CRITICAL_SECTION (deliver t m k)"]) (simp add: Cons)
qed

theorem tk_snd_mbx_result_witness:
  "\<exists>k'. tk_snd_mbx 1 100 ex_mbx_wait = Some (E_OK, k') \<and> mem_ptr k' 300 = 100 \<and>
    state (tcb k' 0) = TS_READY"
proof -
  have "snd_ok 1 100 ex_mbx_wait" by (simp add: snd_ok_def CHECK_MBXID_def)
  then show ?thesis
    using tk_snd_mbx_result [OF ex_mbx_wait_sel(7) _ ex_mbx_index [symmetric], of 100] by auto
qed

text \<open>
  C11: A receive takes the first message of the list and stores it behind the pointer; with no message a
  poll fails with \<open>E_TMOUT\<close> without touching lists and queues, and any other call joins the wait queue by
  the mailbox's attribute.
\<close>

theorem tk_rcv_mbx_u_result:
  assumes sys: "mbx_sys M k" and ok: "rcv_ok oid tmout k" and i: "i = get_mbxcb oid"
    and r: "tk_rcv_mbx_u oid p tmout k = (e, k')"
  shows "case M i of
      m # ms \<Rightarrow> e = E_OK \<and> mem_ptr k' = (mem_ptr k)(p := m) \<and> mchain (msgque k') (MqHead i) ms \<and>
        que k' = que k \<and> tcb k' = tcb k
    | [] \<Rightarrow> msgque k' = msgque k \<and> mem_ptr k' = mem_ptr k \<and>
        (if tmout = TMO_POL then
           e = E_TMOUT \<and> que k' = que k \<and> (\<forall>t. state (tcb k' t) = state (tcb k t))
         else state (tcb k' (self k)) = TS_WAIT \<and> winfo (tcb k' (self k)) = WINFO_MBX p \<and>
           que k' (MbxQ i) = wait_insert k (mbxatr (mbx k i)) (self k) (que k (MbxQ i)))"
proof -
  note d = rcv_okD [OF sys ok i]
  note inv = mbx_sysD(2,3) [OF sys]
  note h = mbx_inv_headmsg [OF inv(2) d(1,2)]
  show ?thesis
  proof (cases "M i")
    case (Cons m ms)
    note tk = mbx_take_inv [OF inv d(1,2) Cons, of p]
    have "m \<noteq> 0" using mbx_inv_live(3) [OF inv(2) d(1,2)] Cons by simp
    then have "e = E_OK" "k' = END_CRITICAL_SECTION (mbx_take i p k)"
      using r h Cons by (simp_all add: tk_rcv_mbx_u_eq [OF ok i])
    moreover have "mbxid (mbx (mbx_take i p k) i) = mbxid (mbx k i)" "max_mbxid (mbx_take i p k) = max_mbxid k"
      by (simp_all add: mbx_take_def Let_def)
    ultimately show ?thesis using tk mbx_inv_live(3) [OF tk(2), of i] d(1,2) by (simp add: Cons)
  next
    case Nil
    obtain k2 where k2: "k2 = gcb_make_wait_with_diswai (MbxQ i) (mbxid (mbx k i)) (mbxatr (mbx k i)) tmout
        (mbx_wait_state i p k)" by simp
    note w = mbx_wait_inv [OF sys ok i Nil k2]
    have e: "e = wercd (tcb k2 (self k))" "k' = END_CRITICAL_SECTION k2"
      using r h Nil by (simp_all add: tk_rcv_mbx_u_eq [OF ok i] Let_def k2)
    have "if tmout = TMO_POL then e = E_TMOUT \<and> que k' = que k \<and> (\<forall>t. state (tcb k' t) = state (tcb k t))
        else state (tcb k' (self k)) = TS_WAIT \<and> winfo (tcb k' (self k)) = WINFO_MBX p \<and>
          que k' (MbxQ i) = wait_insert k (mbxatr (mbx k i)) (self k) (que k (MbxQ i))"
      using w(4) task_pollsD(3,4) [of k k2] task_waitsD(3,5) [OF w(3)] task_waitsD(13) [OF w(3), of "MbxQ i"]
      by (simp add: e)
    moreover have "objs k2 = objs k" using w(3,4) task_pollsD(2) [of k k2] task_waitsD(2) by blast
    ultimately show ?thesis using objs_eqD(23,32) [of k2 k] by (simp add: Nil e(2) split: if_splits)
  qed
qed

theorem tk_rcv_mbx_u_result_witness:
  "winfo (tcb ex_mbx_wait 0) = WINFO_MBX 300 \<and> que ex_mbx_wait (MbxQ 0) = [0]"
proof -
  have "rcv_ok 1 TMO_FEVR ex_mbx" by (rule ex_mbx_rcv_ok) (simp add: CHECK_TMOUT_def)
  from tk_rcv_mbx_u_result [OF ex_mbx_sys this ex_mbx_index [symmetric] prod.collapse [symmetric], of 300]
  show ?thesis by (simp add: wait_insert_def ex_state_que flip: ex_mbx_wait_def)
qed

text \<open>
  C12: Messages sent to an empty mailbox come out in order: one receive per message returns them as they
  were sent, or, with \<^verbatim>\<open>TA_MPRI\<close>, stably sorted by their priority.
\<close>

theorem mailbox_order:
  assumes "mbx_sys M k" "mbx_ready oid k" "i = get_mbxcb oid" "M i = []" "distinct ms"
    and "\<forall>m \<in> set ms. m \<noteq> 0 \<and> \<not> posted M m"
    and "\<forall>m \<in> set ms. 0 < msgpri k m"
  shows "\<exists>k'. send_all oid ms k = Some k' \<and>
    recv_n oid p (length ms) k' =
      (if mbxatr (mbx k i) AND TA_MPRI \<noteq> 0 then sort_key (msgpri k) ms else ms)"
proof -
  obtain k' where k': "send_all oid ms k = Some k'" "mbx_sys (M(i := fold (mbx_send k i) ms (M i))) k'"
      "mbx_ready oid k'"
    using send_all_result [OF assms(1-3,5)] assms(6,7) by blast
  let ?ms = "fold (mbx_send k i) ms []"
  have "recv_n oid p (length ?ms) k' = ?ms"
    by (rule recv_n_result [OF k'(2,3)]) (simp add: assms(3,4) [symmetric])
  moreover have "length ?ms = length ms" by (simp add: fold_mbx_send)
  ultimately show ?thesis using k'(1) by (simp add: fold_mbx_send)
qed

theorem mailbox_order_witness:
  "\<exists>k'. send_all 1 [100, 200] ex_mbx = Some k' \<and> recv_n 1 300 2 k' = [200, 100]"
  using mailbox_order [OF ex_mbx_sys ex_mbx_ready ex_mbx_index [symmetric], of "[100, 200]" 300]
  by (simp add: numeral_2_eq_2)

end
