(* ===== verification/Message_Ring.thy ===== *)
theory Message_Ring
  imports Kernel_State
begin

text \<open>
  The ring of a message buffer (first part of \<^verbatim>\<open>messagebuf.c\<close>): messages of any length, each behind a
  header with its size and rounded up to the size of a header, that wrap around at the end of the
  buffer. \<open>ring_rep c ms\<close> says that the ring of the control block \<open>c\<close> holds the messages \<open>ms\<close>, first in
  first out. The locale \<open>message_store\<close> is what the calls of message buffers need of it.
\<close>

subsection \<open>Operations\<close>

text \<open>
  The header is an \<^verbatim>\<open>INT\<close> in the byte order of the machine (\<^verbatim>\<open>BIGENDIAN\<close> is 0). Accesses through a
  null pointer have no result. \<open>memcpy src p dst d n\<close> is the memory \<open>dst\<close> after \<open>n\<close> bytes at \<open>p\<close> in \<open>src\<close>
  have been copied to \<open>d\<close>.
\<close>

definition HEADERSZ :: UW where
  "HEADERSZ = 4"

definition ROUNDSZ :: "int \<Rightarrow> UW" where
  "ROUNDSZ sz = (word_of_int sz + 3) AND NOT 3"

definition memcpy :: "(nat \<Rightarrow> UB) \<Rightarrow> nat \<Rightarrow> (nat \<Rightarrow> UB) \<Rightarrow> nat \<Rightarrow> nat \<Rightarrow> (nat \<Rightarrow> UB)" where
  "memcpy src p dst d n = (\<lambda>a. if d \<le> a \<and> a < d + n then src (p + (a - d)) else dst a)"

definition put_header :: "int \<Rightarrow> nat \<Rightarrow> (nat \<Rightarrow> UB) \<Rightarrow> (nat \<Rightarrow> UB)" where
  "put_header sz off b =
     (\<lambda>a. if off \<le> a \<and> a < off + 4 then ucast (drop_bit (8 * (a - off)) (word_of_int sz :: UW)) else b a)"

definition get_header :: "(nat \<Rightarrow> UB) \<Rightarrow> nat \<Rightarrow> int" where
  "get_header b off =
     sint ((ucast (b off) :: UW) OR push_bit 8 (ucast (b (off + 1))) OR
       push_bit 16 (ucast (b (off + 2))) OR push_bit 24 (ucast (b (off + 3))))"

definition mbf_free :: "mbfcb \<Rightarrow> int \<Rightarrow> bool" where
  "mbf_free c msgsz \<longleftrightarrow> HEADERSZ + word_of_int msgsz \<le> (word_of_int (frbufsz c) :: UW)"

definition mbf_empty :: "mbfcb \<Rightarrow> bool" where
  "mbf_empty c \<longleftrightarrow> frbufsz c = bufsz c"

definition mbf_wrap :: "int \<Rightarrow> int \<Rightarrow> int" where
  "mbf_wrap sz pos = (if sz \<le> pos then 0 else pos)"

definition msg_to_mbf :: "(nat \<Rightarrow> UB) \<Rightarrow> nat \<Rightarrow> int \<Rightarrow> mbfcb \<Rightarrow> mbfcb option" where
  "msg_to_mbf mem msg msgsz c =
     (case mbf_buffer c of
        None \<Rightarrow> None
      | Some b \<Rightarrow>
          let tail = mbf_tail c;
              c = c\<lparr>frbufsz := frbufsz c - sint (HEADERSZ + ROUNDSZ msgsz)\<rparr>;
              b = put_header msgsz (nat tail) b;
              tail = tail + 4;
              tail = mbf_wrap (bufsz c) tail;
              remsz = bufsz c - tail;
              (b, msg, msgsz, tail) =
                (if remsz < msgsz then (memcpy mem msg b (nat tail) (nat remsz), msg + nat remsz, msgsz - remsz, 0)
                 else (b, msg, msgsz, tail));
              b = memcpy mem msg b (nat tail) (nat msgsz);
              tail = tail + sint (ROUNDSZ msgsz);
              tail = mbf_wrap (bufsz c) tail
          in Some (c\<lparr>mbf_tail := tail, mbf_buffer := Some b\<rparr>))"

definition mbf_to_msg :: "(nat \<Rightarrow> UB) \<Rightarrow> nat \<Rightarrow> mbfcb \<Rightarrow> (int \<times> (nat \<Rightarrow> UB) \<times> mbfcb) option" where
  "mbf_to_msg mem msg c =
     (case mbf_buffer c of
        None \<Rightarrow> None
      | Some b \<Rightarrow>
          let head = mbf_head c;
              actsz = get_header b (nat head);
              msgsz = actsz;
              c = c\<lparr>frbufsz := frbufsz c + sint (HEADERSZ + ROUNDSZ msgsz)\<rparr>;
              head = head + 4;
              head = mbf_wrap (bufsz c) head;
              remsz = bufsz c - head;
              (mem, msg, msgsz, head) =
                (if remsz < msgsz then (memcpy b (nat head) mem msg (nat remsz), msg + nat remsz, msgsz - remsz, 0)
                 else (mem, msg, msgsz, head));
              mem = memcpy b (nat head) mem msg (nat msgsz);
              head = head + sint (ROUNDSZ msgsz);
              head = mbf_wrap (bufsz c) head
          in Some (actsz, mem, c\<lparr>mbf_head := head\<rparr>))"

subsection \<open>Sizes and headers\<close>

definition msg_bytes :: "(nat \<Rightarrow> UB) \<Rightarrow> nat \<Rightarrow> int \<Rightarrow> UB list" where
  "msg_bytes mem p n = map (\<lambda>j. mem (p + j)) [0..<nat n]"

lemma msg_bytes_simps [simp]:
  "length (msg_bytes mem p n) = nat n" "j < nat n \<Longrightarrow> msg_bytes mem p n ! j = mem (p + j)"
  "msg_bytes mem p n = [] \<longleftrightarrow> n \<le> 0"
  by (simp_all add: msg_bytes_def)

lemma memcpy_simps [simp]:
  "j < n \<Longrightarrow> memcpy src p dst d n (d + j) = src (p + j)"
  "a < d \<or> d + n \<le> a \<Longrightarrow> memcpy src p dst d n a = dst a"
  by (auto simp: memcpy_def)

lemma msg_bytes_memcpy [simp]: "msg_bytes (memcpy src p dst d (nat n)) d n = msg_bytes src p n"
  by (simp add: msg_bytes_def)

text \<open>The room that a message takes.\<close>

definition round4 :: "nat \<Rightarrow> nat" where
  "round4 n = 4 * ((n + 3) div 4)"

definition slot :: "nat \<Rightarrow> nat" where
  "slot n = 4 + round4 n"

lemma round4_bounds: "n \<le> round4 n" "round4 n < n + 4" "4 dvd round4 n"
  by (simp_all add: round4_def)

lemma round4_fits: "4 dvd m \<Longrightarrow> round4 n \<le> m \<longleftrightarrow> n \<le> m"
  by (auto simp: round4_def elim!: dvdE)

lemma uint_round: "uint ((w :: UW) AND NOT 3) = 4 * (uint w div 4)"
proof -
  have m: "(3 :: UW) = mask 2" by (simp add: mask_eq_exp_minus_1)
  have w: "w AND NOT 3 = push_bit 2 (drop_bit 2 w)"
  proof (rule bit_word_eqI)
    fix j assume "j < LENGTH(32)"
    moreover have "Suc (Suc (j - 2)) = j" if "\<not> j < 2" using that by simp
    ultimately show "bit (w AND NOT 3) j = bit (push_bit 2 (drop_bit 2 w)) j"
      unfolding m by (auto simp: bit_simps)
  qed
  have "0 \<le> 4 * (uint w div 4)" "4 * (uint w div 4) < 4294967296" 
    using uint_bounded [of w] pos_imp_zdiv_nonneg_iff [of 4 "uint w"] by simp_all
  then show ?thesis
    unfolding w by (simp add: push_bit_eq_mult drop_bit_eq_div uint_word_ariths uint_div_distrib mult.commute)
qed

lemma sint_word_of_int32: "- (2 ^ 31) \<le> x \<Longrightarrow> x < 2 ^ 31 \<Longrightarrow> sint (word_of_int x :: UW) = x"
  by (simp add: int_word_sint)

lemma ROUNDSZ_small:
  assumes "round4 n < 2 ^ 31"
  shows "uint (ROUNDSZ (int n)) = int (round4 n)" "sint (ROUNDSZ (int n)) = int (round4 n)"
    "ROUNDSZ (int n) = word_of_int (int (round4 n))"
proof -
  have n: "n + 3 < 2 ^ 32" using assms round4_bounds(1) [of n] by simp
  have "uint (word_of_int (int n) + 3 :: UW) = int n + 3"
    using n by (simp add: uint_word_ariths take_bit_eq_mod unsigned_of_nat)
  then show u: "uint (ROUNDSZ (int n)) = int (round4 n)"
    unfolding ROUNDSZ_def uint_round by (simp add: round4_def zdiv_int)
  show w: "ROUNDSZ (int n) = word_of_int (int (round4 n))"
    using u by (metis word_of_int_uint)
  show "sint (ROUNDSZ (int n)) = int (round4 n)"
    unfolding w by (rule sint_word_of_int32) (use assms in simp_all)
qed

lemma ROUNDSZ_nat:
  assumes "slot n < 2 ^ 31"
  shows "uint (ROUNDSZ (int n)) = int (round4 n)" "sint (ROUNDSZ (int n)) = int (round4 n)"
    "sint (HEADERSZ + ROUNDSZ (int n)) = int (slot n)"
proof -
  have r: "round4 n < 2 ^ 31" using assms by (simp add: slot_def)
  then show "uint (ROUNDSZ (int n)) = int (round4 n)" "sint (ROUNDSZ (int n)) = int (round4 n)"
    by (rule ROUNDSZ_small)+
  show "sint (HEADERSZ + ROUNDSZ (int n)) = int (slot n)"
    using assms sint_word_of_int32 [of "int (slot n)"]
    by (simp add: ROUNDSZ_small(3) [OF r] HEADERSZ_def slot_def add.commute)
qed

text \<open>A header is read as it was written.\<close>

lemma get_put_header: "get_header (put_header sz off b) off = sint (word_of_int sz :: UW)"
proof -
  let ?w = "word_of_int sz :: UW"
  have "(ucast (ucast ?w :: UB) :: UW) OR push_bit 8 (ucast (ucast (drop_bit 8 ?w) :: UB)) OR
      push_bit 16 (ucast (ucast (drop_bit 16 ?w) :: UB)) OR push_bit 24 (ucast (ucast (drop_bit 24 ?w) :: UB)) = ?w"
  proof (rule bit_word_eqI)
    fix j assume "j < LENGTH(32)"
    then have "j < 8 \<or> 8 \<le> j \<and> j < 16 \<or> 16 \<le> j \<and> j < 24 \<or> 24 \<le> j \<and> j < 32" by auto
    then show "bit ((ucast (ucast ?w :: UB) :: UW) OR push_bit 8 (ucast (ucast (drop_bit 8 ?w) :: UB)) OR
      push_bit 16 (ucast (ucast (drop_bit 16 ?w) :: UB)) OR push_bit 24 (ucast (ucast (drop_bit 24 ?w) :: UB))) j = bit ?w j"
      by (auto simp: bit_simps simp del: bit_word_of_int_iff)
  qed
  then show ?thesis by (simp add: get_header_def put_header_def)
qed

lemma get_header_cong: "(\<And>j. j < 4 \<Longrightarrow> b' (off + j) = b (off + j)) \<Longrightarrow> get_header b' off = get_header b off"
proof -
  assume "\<And>j. j < 4 \<Longrightarrow> b' (off + j) = b (off + j)"
  from this [of 0] this [of 1] this [of 2] this [of 3] show ?thesis by (simp add: get_header_def)
qed

lemma put_header_other: "a < off \<or> off + 4 \<le> a \<Longrightarrow> put_header sz off b a = b a"
  by (auto simp: put_header_def)


subsection \<open>The messages of a ring\<close>

definition ring_add :: "nat \<Rightarrow> nat \<Rightarrow> nat \<Rightarrow> nat" where
  "ring_add N off j = (off + j) mod N"

fun ring_at :: "(nat \<Rightarrow> UB) \<Rightarrow> nat \<Rightarrow> nat \<Rightarrow> UB list list \<Rightarrow> bool" where
  "ring_at b N off [] \<longleftrightarrow> True"
| "ring_at b N off (m # ms) \<longleftrightarrow>
     get_header b off = int (length m) \<and> (\<forall>j < length m. b (ring_add N off (4 + j)) = m ! j) \<and>
     ring_at b N (ring_add N off (slot (length m))) ms"

definition used :: "UB list list \<Rightarrow> nat" where
  "used ms = sum_list (map (\<lambda>m. slot (length m)) ms)"

definition ring_rep :: "mbfcb \<Rightarrow> UB list list \<Rightarrow> bool" where
  "ring_rep c ms \<longleftrightarrow>
     0 \<le> bufsz c \<and> bufsz c < 2 ^ 31 \<and> 4 dvd bufsz c \<and> [] \<notin> set ms \<and>
     int (used ms) \<le> bufsz c \<and> frbufsz c = bufsz c - int (used ms) \<and>
     (0 < bufsz c \<longrightarrow>
        0 \<le> mbf_head c \<and> mbf_head c < bufsz c \<and> 4 dvd mbf_head c \<and>
        mbf_tail c = int (ring_add (nat (bufsz c)) (nat (mbf_head c)) (used ms)) \<and>
        (\<exists>b. mbf_buffer c = Some b \<and> ring_at b (nat (bufsz c)) (nat (mbf_head c)) ms))"

lemma used_simps [simp]:
  "used [] = 0" "used (m # ms) = slot (length m) + used ms" "used (ms @ ns) = used ms + used ns"
  by (simp_all add: used_def)

lemma slot_dvd [simp]: "4 dvd slot n" and slot_bound: "4 + n \<le> slot n"
  using round4_bounds [of n] by (simp_all add: slot_def)

lemma used_dvd: "4 dvd used ms"
  by (induction ms) simp_all

lemma slot_fits: "4 dvd m \<Longrightarrow> slot n \<le> m \<longleftrightarrow> 4 + n \<le> m"
  using round4_fits [of "m - 4" n] slot_bound [of n] by (auto simp: slot_def dvd_diff_nat)

lemma ring_add_cases: "off < N \<Longrightarrow> j \<le> N \<Longrightarrow> ring_add N off j = (if off + j < N then off + j else off + j - N)"
  by (auto simp: ring_add_def mod_if)

lemma ring_add_less: "0 < N \<Longrightarrow> ring_add N off j < N"
  by (simp add: ring_add_def)

lemma ring_add_add [simp]: "ring_add N (ring_add N off i) j = ring_add N off (i + j)"
  by (simp add: ring_add_def mod_add_left_eq add.assoc)

lemma ring_add_dvd: "4 dvd N \<Longrightarrow> 4 dvd off \<Longrightarrow> 4 dvd j \<Longrightarrow> 4 dvd ring_add N off j"
  by (simp add: ring_add_def dvd_mod)

lemma ring_add_inj:
  assumes "off < N" "i < N" "j < N" "ring_add N off i = ring_add N off j"
  shows "i = j"
  using assms by (auto simp: ring_add_cases split: if_splits)

text \<open>A header never wraps around.\<close>

lemma ring_add_header:
  assumes "4 dvd N" "4 dvd off" "off < N" "j < 4"
  shows "ring_add N off j = off + j"
proof -
  have "off + 4 \<le> N" using assms(1-3) by (auto elim!: dvdE)
  then show ?thesis using assms(4) by (simp add: ring_add_def)
qed

lemma ring_at_cong:
  assumes "ring_at b N off ms" "4 dvd N" "4 dvd off" "off < N" "used ms \<le> N"
    and "\<And>j. j < used ms \<Longrightarrow> b' (ring_add N off j) = b (ring_add N off j)"
  shows "ring_at b' N off ms"
  using assms
proof (induction ms arbitrary: off)
  case (Cons m ms)
  note s = slot_bound [of "length m"]
  have "get_header b' off = get_header b off"
    by (rule get_header_cong)
       (use Cons.prems(6) [of _] s ring_add_header [OF Cons.prems(2-4)] in \<open>metis add_lessD1 used_simps(2) less_le_trans trans_less_add1 le_add1\<close>)
  moreover have "b' (ring_add N off (4 + j)) = b (ring_add N off (4 + j))" if "j < length m" for j
    by (rule Cons.prems(6)) (use that s in simp)
  moreover have "ring_at b' N (ring_add N off (slot (length m))) ms"
  proof (rule Cons.IH)
    show "ring_at b N (ring_add N off (slot (length m))) ms" using Cons.prems(1) by simp
    show "4 dvd ring_add N off (slot (length m))" by (rule ring_add_dvd [OF Cons.prems(2,3)]) simp
    show "ring_add N off (slot (length m)) < N" by (rule ring_add_less) (use Cons.prems(4) in simp)
    show "b' (ring_add N (ring_add N off (slot (length m))) j) = b (ring_add N (ring_add N off (slot (length m))) j)"
      if "j < used ms" for j
      using Cons.prems(6) [of "slot (length m) + j"] that by simp
  qed (use Cons.prems(2,5) in simp_all)
  ultimately show ?case using Cons.prems(1) by simp
qed simp

lemma ring_at_append:
  "ring_at b N off (ms @ ns) \<longleftrightarrow> ring_at b N off ms \<and> ring_at b N (ring_add N off (used ms)) ns"
  if "off < N"
  using that
proof (induction ms arbitrary: off)
  case Nil
  then show ?case by (simp add: ring_add_def)
next
  case (Cons m ms)
  then show ?case using ring_add_less [of N off "slot (length m)"] by simp
qed


text \<open>Copies to and from the ring, in two parts where it ends.\<close>

definition copy_ring :: "nat \<Rightarrow> (nat \<Rightarrow> UB) \<Rightarrow> nat \<Rightarrow> nat \<Rightarrow> nat \<Rightarrow> (nat \<Rightarrow> UB) \<Rightarrow> (nat \<Rightarrow> UB)" where
  "copy_ring N mem p off n b =
     (if N - off < n then memcpy mem (p + (N - off)) (memcpy mem p b off (N - off)) 0 (n - (N - off))
      else memcpy mem p b off n)"

lemma copy_ring_at:
  assumes "off < N" "n \<le> N"
  shows "j < n \<Longrightarrow> copy_ring N mem p off n b (ring_add N off j) = mem (p + j)"
    and "n \<le> j \<Longrightarrow> j < N \<Longrightarrow> copy_ring N mem p off n b (ring_add N off j) = b (ring_add N off j)"
  using assms by (auto simp: copy_ring_def memcpy_def ring_add_cases)

lemma copy_from_ring:
  assumes "off < N" "n \<le> N"
  shows "(if N - off < n then memcpy b 0 (memcpy b off mem d (N - off)) (d + (N - off)) (n - (N - off))
      else memcpy b off mem d n) = memcpy (\<lambda>j. b (ring_add N off j)) 0 mem d n"
  using assms by (auto simp: memcpy_def ring_add_cases fun_eq_iff add.commute)

text \<open>Where the second part ends: the rounded size goes past the wrap.\<close>

lemma round4_wrap:
  assumes "4 dvd r" "r < n"
  shows "round4 n = r + round4 (n - r)"
proof -
  obtain q where r: "r = 4 * q" using assms(1) by (auto elim!: dvdE)
  then obtain d where "n = 4 * q + d" using assms(2) by (metis less_imp_add_positive)
  moreover have "(4 * q + d + 3) div 4 = q + (d + 3) div 4" by presburger
  ultimately show ?thesis by (simp add: r round4_def)
qed

lemma ring_step:
  assumes "4 dvd N" "4 dvd T" "T < N" "slot n \<le> N"
  shows "(if N \<le> T + 4 then 0 else T + 4) = ring_add N T 4"
    and "(let T1 = ring_add N T 4; T2 = (if N - T1 < n then round4 (n - (N - T1)) else T1 + round4 n)
          in if N \<le> T2 then 0 else T2) = ring_add N T (slot n)"
proof -
  have "T + 4 \<le> N" using assms(1-3) by (auto elim!: dvdE)
  then show T1: "(if N \<le> T + 4 then 0 else T + 4) = ring_add N T 4"
    by (auto simp: ring_add_def)
  let ?T1 = "ring_add N T 4"
  have l: "?T1 < N" by (rule ring_add_less) (use assms(3) in simp)
  have d: "4 dvd ?T1" by (rule ring_add_dvd [OF assms(1,2)]) simp
  have eq: "ring_add N T (slot n) = ring_add N ?T1 (round4 n)" by (simp add: slot_def)
  have r: "round4 n \<le> N - 4" using assms(4) by (simp add: slot_def)
  show "(let T1 = ring_add N T 4; T2 = (if N - T1 < n then round4 (n - (N - T1)) else T1 + round4 n)
          in if N \<le> T2 then 0 else T2) = ring_add N T (slot n)"
  proof (cases "N - ?T1 < n")
    case True
    define d where "d = n - (N - ?T1)"
    have "round4 n = (N - ?T1) + round4 d"
      unfolding d_def by (rule round4_wrap [OF _ True]) (use assms(1) d in simp)
    then have "?T1 + round4 n = N + round4 d" "round4 d < N" using l r by simp_all
    then have "ring_add N ?T1 (round4 n) = round4 d" by (simp add: ring_add_def)
    then show ?thesis using True \<open>round4 d < N\<close> by (simp add: eq Let_def d_def [symmetric])
  next
    case False
    then have "round4 n \<le> N - ?T1" using round4_fits [of "N - ?T1" n] assms(1) d by simp
    then have "?T1 + round4 n \<le> N" using l by simp
    then show ?thesis using False l r by (simp add: eq ring_add_cases Let_def del: ring_add_add)
  qed
qed

lemma msg_to_mbf_ring:
  assumes c: "bufsz c = int N" "mbf_tail c = int T" "mbf_buffer c = Some b"
    and N: "4 dvd N" "4 dvd T" "T < N" "slot n \<le> N" "N < 2 ^ 31"
  obtains b' where
    "msg_to_mbf mem p (int n) c = Some (c\<lparr>frbufsz := frbufsz c - int (slot n),
       mbf_tail := int (ring_add N T (slot n)), mbf_buffer := Some b'\<rparr>)"
    "get_header b' T = int n" "\<And>j. j < n \<Longrightarrow> b' (ring_add N T (4 + j)) = mem (p + j)"
    "\<And>j. slot n \<le> j \<Longrightarrow> j < N \<Longrightarrow> b' (ring_add N T j) = b (ring_add N T j)"
proof -
  let ?T1 = "ring_add N T 4" and ?b1 = "put_header (int n) T b"
  let ?b' = "copy_ring N mem p ?T1 n ?b1"
  have l: "?T1 < N" by (rule ring_add_less) (use N(3) in simp)
  have sn: "slot n < 2 ^ 31" "n \<le> N" using N(4,5) slot_bound [of n] by simp_all
  note R = ROUNDSZ_nat [OF sn(1)]
  show thesis
  proof (rule that)
    have R': "sint (ROUNDSZ (int (n - r))) = int (round4 (n - r))" for r
    proof (rule ROUNDSZ_nat(2))
      have "round4 (n - r) \<le> round4 n" by (simp add: round4_def div_le_mono)
      then show "slot (n - r) < 2 ^ 31" using sn(1) by (simp add: slot_def)
    qed
    have t1: "mbf_wrap (int N) (int T + 4) = int ?T1"
      unfolding mbf_wrap_def using ring_step(1) [OF N(1-4)] by (auto split: if_splits)
    note t2 = ring_step(2) [OF N(1-4), unfolded Let_def]
    show "msg_to_mbf mem p (int n) c = Some (c\<lparr>frbufsz := frbufsz c - int (slot n),
       mbf_tail := int (ring_add N T (slot n)), mbf_buffer := Some ?b'\<rparr>)"
    proof (cases "N - ?T1 < n")
      case True
      then have i: "int N - int ?T1 < int n" "nat (int N - int ?T1) = N - ?T1"
          "int n - (int N - int ?T1) = int (n - (N - ?T1))" using l by simp_all
      have t: "mbf_wrap (int N) (0 + int (round4 (n - (N - ?T1)))) = int (ring_add N T (slot n))"
        unfolding mbf_wrap_def using t2 True by (auto split: if_splits)
      show ?thesis
        unfolding msg_to_mbf_def c(3) option.case Let_def c(2) R(3)
        by (simp add: c(1) t1 copy_ring_def True i(1) i(2) i(3) R' t del: of_nat_diff add_0)
    next
      case False
      then have i: "\<not> int N - int ?T1 < int n" using l by simp
      have t: "mbf_wrap (int N) (int ?T1 + int (round4 n)) = int (ring_add N T (slot n))"
        unfolding mbf_wrap_def using t2 False by (auto split: if_splits)
      show ?thesis
        unfolding msg_to_mbf_def c(3) option.case Let_def c(2) R(3)
        by (simp add: c(1) t1 copy_ring_def False i R t)
    qed
    have d: "ring_add N T j = T + j" if "j < 4" for j by (rule ring_add_header [OF N(1-3) that])
    have other: "?b' (ring_add N T j) = ?b1 (ring_add N T j)" if "4 + n \<le> j \<or> j < 4" "j < N" for j
    proof -
      have "\<exists>i. n \<le> i \<and> i < N \<and> ring_add N T j = ring_add N ?T1 i"
      proof (cases "j < 4")
        case True
        have "4 + (N - 4 + j) = j + N" using N(4) slot_bound [of n] by simp
        then have "ring_add N ?T1 (N - 4 + j) = ring_add N T (j + N)" by (simp only: ring_add_add)
        then have "ring_add N ?T1 (N - 4 + j) = ring_add N T j" by (simp add: ring_add_def add.assoc [symmetric])
        then show ?thesis using True N(4) slot_bound [of n] round4_bounds(1) [of n]
          by (intro exI [of _ "N - 4 + j"]) (auto simp: slot_def)
      next
        case False
        then show ?thesis using that by (intro exI [of _ "j - 4"]) auto
      qed
      then show ?thesis using copy_ring_at(2) [OF l sn(2)] by metis
    qed
    have "get_header ?b' T = get_header ?b1 T"
      by (rule get_header_cong) (use other d N(4) slot_bound [of n] in \<open>metis less_le_trans add_leE\<close>)
    also have "\<dots> = int n" using sn(1) slot_bound [of n] sint_word_of_int32 [of "int n"] by (simp only: get_put_header) simp
    finally show "get_header ?b' T = int n" .
    show "?b' (ring_add N T (4 + j)) = mem (p + j)" if "j < n" for j
      using copy_ring_at(1) [OF l sn(2) that] by simp
    show "?b' (ring_add N T j) = b (ring_add N T j)" if "slot n \<le> j" "j < N" for j
    proof -
      have "?b' (ring_add N T j) = ?b1 (ring_add N T j)" by (rule other) (use that slot_bound [of n] in simp_all)
      also have "\<dots> = b (ring_add N T j)"
      proof (rule put_header_other)
        have "4 \<le> j" using that(1) slot_bound [of n] by simp
        moreover have "T + 4 \<le> N" using N(1-3) by (auto elim!: dvdE)
        ultimately show "ring_add N T j < T \<or> T + 4 \<le> ring_add N T j"
          using that N(3) by (auto simp: ring_add_cases)
      qed
      finally show ?thesis .
    qed
  qed
qed


text \<open>Reading the first message.\<close>

lemma mbf_to_msg_ring:
  assumes c: "bufsz c = int N" "mbf_head c = int H" "mbf_buffer c = Some b" "get_header b H = int n"
    and N: "4 dvd N" "4 dvd H" "H < N" "slot n \<le> N" "N < 2 ^ 31"
  shows "mbf_to_msg mem d c = Some (int n, memcpy (\<lambda>j. b (ring_add N H (4 + j))) 0 mem d n,
    c\<lparr>frbufsz := frbufsz c + int (slot n), mbf_head := int (ring_add N H (slot n))\<rparr>)"
proof -
  let ?H1 = "ring_add N H 4"
  have l: "?H1 < N" by (rule ring_add_less) (use N(3) in simp)
  have sn: "slot n < 2 ^ 31" "n \<le> N" using N(4,5) slot_bound [of n] by simp_all
  note R = ROUNDSZ_nat [OF sn(1)]
  have R': "sint (ROUNDSZ (int (n - r))) = int (round4 (n - r))" for r
  proof (rule ROUNDSZ_nat(2))
    have "round4 (n - r) \<le> round4 n" by (simp add: round4_def div_le_mono)
    then show "slot (n - r) < 2 ^ 31" using sn(1) by (simp add: slot_def)
  qed
  have h1: "mbf_wrap (int N) (int H + 4) = int ?H1"
    unfolding mbf_wrap_def using ring_step(1) [OF N(1-4)] by (auto split: if_splits)
  note h2 = ring_step(2) [OF N(1-4), unfolded Let_def]
  have mem: "(if N - ?H1 < n then memcpy b 0 (memcpy b ?H1 mem d (N - ?H1)) (d + (N - ?H1)) (n - (N - ?H1))
      else memcpy b ?H1 mem d n) = memcpy (\<lambda>j. b (ring_add N H (4 + j))) 0 mem d n"
    using copy_from_ring [OF l sn(2)] by simp
  show ?thesis
  proof (cases "N - ?H1 < n")
    case True
    then have i: "int N - int ?H1 < int n" "nat (int N - int ?H1) = N - ?H1"
        "int n - (int N - int ?H1) = int (n - (N - ?H1))" using l by simp_all
    have t: "mbf_wrap (int N) (0 + int (round4 (n - (N - ?H1)))) = int (ring_add N H (slot n))"
      unfolding mbf_wrap_def using h2 True by (auto split: if_splits)
    show ?thesis
      unfolding mbf_to_msg_def c(3) option.case Let_def c(2) nat_int c(4) R(3)
      using mem by (simp add: c(1) h1 True i(1) i(2) i(3) R' t del: of_nat_diff add_0)
  next
    case False
    then have i: "\<not> int N - int ?H1 < int n" using l by simp
    have t: "mbf_wrap (int N) (int ?H1 + int (round4 n)) = int (ring_add N H (slot n))"
      unfolding mbf_wrap_def using h2 False by (auto split: if_splits)
    show ?thesis
      unfolding mbf_to_msg_def c(3) option.case Let_def c(2) nat_int c(4) R(3)
      using mem by (simp add: c(1) h1 False i R t)
  qed
qed

subsection \<open>A first-in first-out store of messages\<close>

text \<open>Any sequence of stores that fit and of fetches, with the messages that went in and came out.\<close>

datatype store_op = Store "nat \<Rightarrow> UB" nat int | Fetch "nat \<Rightarrow> UB" nat

fun store_run ::
  "('s \<Rightarrow> int \<Rightarrow> bool) \<Rightarrow> ('s \<Rightarrow> bool) \<Rightarrow> ((nat \<Rightarrow> UB) \<Rightarrow> nat \<Rightarrow> int \<Rightarrow> 's \<Rightarrow> 's option) \<Rightarrow>
   ((nat \<Rightarrow> UB) \<Rightarrow> nat \<Rightarrow> 's \<Rightarrow> (int \<times> (nat \<Rightarrow> UB) \<times> 's) option) \<Rightarrow> store_op list \<Rightarrow> 's \<Rightarrow>
   (UB list list \<times> UB list list \<times> 's) option" where
  "store_run fits emp put get [] s = Some ([], [], s)"
| "store_run fits emp put get (Store mem p n # ops) s =
     (if fits s n
      then Option.bind (put mem p n s) (\<lambda>s. map_option (\<lambda>(ins, outs, s). (msg_bytes mem p n # ins, outs, s))
             (store_run fits emp put get ops s))
      else store_run fits emp put get ops s)"
| "store_run fits emp put get (Fetch mem d # ops) s =
     (if emp s then store_run fits emp put get ops s
      else Option.bind (get mem d s) (\<lambda>(n, mem, s). map_option (\<lambda>(ins, outs, s). (ins, msg_bytes mem d n # outs, s))
             (store_run fits emp put get ops s)))"

fun op_size_ok :: "store_op \<Rightarrow> bool" where
  "op_size_ok (Store mem p n) \<longleftrightarrow> 0 < n \<and> n < 2 ^ 31"
| "op_size_ok (Fetch mem d) \<longleftrightarrow> True"

text \<open>What the calls rely on: how much room there is, and that messages come out as they went in.\<close>

locale message_store =
  fixes rep :: "'s \<Rightarrow> UB list list \<Rightarrow> bool" and room :: "'s \<Rightarrow> nat"
    and fits :: "'s \<Rightarrow> int \<Rightarrow> bool" and emp :: "'s \<Rightarrow> bool"
    and put :: "(nat \<Rightarrow> UB) \<Rightarrow> nat \<Rightarrow> int \<Rightarrow> 's \<Rightarrow> 's option"
    and get :: "(nat \<Rightarrow> UB) \<Rightarrow> nat \<Rightarrow> 's \<Rightarrow> (int \<times> (nat \<Rightarrow> UB) \<times> 's) option"
  assumes emp: "rep s ms \<Longrightarrow> emp s \<longleftrightarrow> ms = []"
    and fits: "rep s ms \<Longrightarrow> 0 < n \<Longrightarrow> n < 2 ^ 31 \<Longrightarrow> fits s n \<longleftrightarrow> slot (nat n) \<le> room s"
    and put: "rep s ms \<Longrightarrow> 0 < n \<Longrightarrow> slot (nat n) \<le> room s \<Longrightarrow>
      \<exists>s'. put mem p n s = Some s' \<and> rep s' (ms @ [msg_bytes mem p n]) \<and> room s' = room s - slot (nat n)"
    and get: "rep s (m # ms) \<Longrightarrow>
      \<exists>s'. get mem d s = Some (int (length m), memcpy (\<lambda>j. m ! j) 0 mem d (length m), s') \<and> rep s' ms \<and>
        room s' = room s + slot (length m)"
begin

lemma put_fits:
  assumes "rep s ms" "0 < n" "n < 2 ^ 31" "fits s n"
  obtains s' where "put mem p n s = Some s'" "rep s' (ms @ [msg_bytes mem p n])" "room s' = room s - slot (nat n)"
  using put [OF assms(1,2)] fits [OF assms(1-3)] assms(4) by blast

lemma msg_bytes_list: "msg_bytes (memcpy (\<lambda>j. m ! j) 0 mem d (length m)) d (int (length m)) = m"
  by (rule nth_equalityI) simp_all

text \<open>What went in comes out, whole and in order; the rest is still stored.\<close>

lemma run_fifo:
  assumes "rep s ms" "list_all op_size_ok ops"
  shows "\<exists>ins outs s' ms'. store_run fits emp put get ops s = Some (ins, outs, s') \<and> rep s' ms' \<and> ms @ ins = outs @ ms'"
  using assms
proof (induction ops arbitrary: s ms)
  case (Cons x ops)
  show ?case
  proof (cases x)
    case (Store mem p n)
    show ?thesis
    proof (cases "fits s n")
      case True
      have n: "0 < n" "n < 2 ^ 31" using Cons.prems(2) Store by simp_all
      obtain s1 where s1: "put mem p n s = Some s1" "rep s1 (ms @ [msg_bytes mem p n])"
        by (rule put_fits [OF Cons.prems(1) n True])
      then show ?thesis using Cons.IH [OF s1(2)] Cons.prems(2) True Store by fastforce
    qed (use Cons Store in fastforce)
  next
    case (Fetch mem d)
    show ?thesis
    proof (cases ms)
      case (Cons m ms')
      obtain s1 where s1: "get mem d s = Some (int (length m), memcpy (\<lambda>j. m ! j) 0 mem d (length m), s1)" "rep s1 ms'"
        using get [of s m ms'] Cons.prems(1) Cons by blast
      moreover have "\<not> emp s" using emp Cons.prems(1) Cons by simp
      ultimately show ?thesis
        using Cons.IH [OF s1(2)] Cons.prems(2) Fetch Cons msg_bytes_list [of m] by fastforce
    qed (use Cons Fetch emp in fastforce)
  qed
qed (auto intro: exI [of _ "[]"])

end

text \<open>A ring that holds or can hold something.\<close>

lemma ring_repE:
  assumes "ring_rep c ms" "0 < bufsz c"
  obtains N H b where "bufsz c = int N" "mbf_head c = int H" "mbf_buffer c = Some b" "4 dvd N" "4 dvd H" "H < N"
    "N < 2 ^ 31" "mbf_tail c = int (ring_add N H (used ms))" "used ms \<le> N" "frbufsz c = int (N - used ms)"
    "ring_at b N H ms" "[] \<notin> set ms"
proof -
  have "0 \<le> bufsz c" "0 \<le> mbf_head c" using assms by (simp_all add: ring_rep_def)
  then obtain N H where NH: "bufsz c = int N" "mbf_head c = int H" using nonneg_int_cases by metis
  have dvd: "4 dvd N" "4 dvd H"
    using assms int_dvd_int_iff [of 4 N] int_dvd_int_iff [of 4 H] by (simp_all add: ring_rep_def NH)
  obtain b where "mbf_buffer c = Some b" "ring_at b N H ms" using assms by (auto simp: ring_rep_def NH)
  then show thesis using assms dvd by (intro that [OF NH, of b]) (simp_all add: ring_rep_def NH of_nat_diff)
qed

lemma ring_put:
  assumes rep: "ring_rep c ms" and n: "0 < n" "slot n \<le> nat (frbufsz c)"
  obtains c' where "msg_to_mbf mem p (int n) c = Some c'" "ring_rep c' (ms @ [msg_bytes mem p (int n)])"
    "frbufsz c' = frbufsz c - int (slot n)" "c' = c\<lparr>frbufsz := frbufsz c', mbf_tail := mbf_tail c', mbf_buffer := mbf_buffer c'\<rparr>"
proof -
  have "0 < bufsz c" using rep n(2) slot_bound [of n] by (auto simp: ring_rep_def)
  then obtain N H b where r: "bufsz c = int N" "mbf_head c = int H" "mbf_buffer c = Some b" "4 dvd N" "4 dvd H" "H < N"
      "N < 2 ^ 31" "mbf_tail c = int (ring_add N H (used ms))" "used ms \<le> N" "frbufsz c = int (N - used ms)"
      "ring_at b N H ms" "[] \<notin> set ms"
    by (rule ring_repE [OF rep])
  let ?T = "ring_add N H (used ms)" and ?m = "msg_bytes mem p (int n)"
  have T: "?T < N" "4 dvd ?T" using r(4-6) by (simp_all add: ring_add_less ring_add_dvd used_dvd)
  have s: "slot n \<le> N - used ms" "slot n \<le> N" using n(2) r(10) by simp_all
  obtain b' where b': "msg_to_mbf mem p (int n) c = Some (c\<lparr>frbufsz := frbufsz c - int (slot n),
       mbf_tail := int (ring_add N ?T (slot n)), mbf_buffer := Some b'\<rparr>)"
    "get_header b' ?T = int n" "\<And>j. j < n \<Longrightarrow> b' (ring_add N ?T (4 + j)) = mem (p + j)"
    "\<And>j. slot n \<le> j \<Longrightarrow> j < N \<Longrightarrow> b' (ring_add N ?T j) = b (ring_add N ?T j)"
    by (rule msg_to_mbf_ring [OF r(1,8,3,4) T(2,1) s(2) r(7), of mem p]) (rule that; assumption)
  have old: "ring_at b' N H ms"
  proof (rule ring_at_cong [OF r(11,4,5,6,9)])
    fix j assume j: "j < used ms"
    have "used ms + (N - used ms + j) = j + N" using r(9) by simp
    then have "ring_add N ?T (N - used ms + j) = ring_add N H (j + N)" by (simp only: ring_add_add)
    then have "ring_add N H j = ring_add N ?T (N - used ms + j)" by (simp only: ring_add_def add.assoc [symmetric] mod_add_self2)
    then show "b' (ring_add N H j) = b (ring_add N H j)"
      using b'(4) [of "N - used ms + j"] s(1) j r(9) by simp
  qed
  let ?c = "c\<lparr>frbufsz := frbufsz c - int (slot n), mbf_tail := int (ring_add N ?T (slot n)), mbf_buffer := Some b'\<rparr>"
  have "ring_at b' N H (ms @ [?m])"
    using old b'(2,3) by (simp add: ring_at_append [OF r(6)] del: ring_add_add)
  moreover have "?m \<noteq> []" "used ms + slot n \<le> N" using n(1) s(1) r(9) by simp_all
  ultimately have "ring_rep ?c (ms @ [?m])"
    unfolding ring_rep_def using r int_dvd_int_iff [of 4 N] int_dvd_int_iff [of 4 H] by (auto simp del: msg_bytes_simps(3))
  with b'(1) show thesis by (intro that [of ?c]) simp_all
qed

lemma ring_get:
  assumes rep: "ring_rep c (m # ms)"
  obtains c' where "mbf_to_msg mem d c = Some (int (length m), memcpy (\<lambda>j. m ! j) 0 mem d (length m), c')"
    "ring_rep c' ms" "frbufsz c' = frbufsz c + int (slot (length m))" "c' = c\<lparr>frbufsz := frbufsz c', mbf_head := mbf_head c'\<rparr>"
proof -
  have "0 < bufsz c" using rep slot_bound [of "length m"] by (auto simp: ring_rep_def)
  then obtain N H b where r: "bufsz c = int N" "mbf_head c = int H" "mbf_buffer c = Some b" "4 dvd N" "4 dvd H" "H < N"
      "N < 2 ^ 31" "mbf_tail c = int (ring_add N H (used (m # ms)))" "used (m # ms) \<le> N" "frbufsz c = int (N - used (m # ms))"
      "ring_at b N H (m # ms)" "[] \<notin> set (m # ms)"
    by (rule ring_repE [OF rep])
  let ?n = "length m"
  let ?c = "c\<lparr>frbufsz := frbufsz c + int (slot ?n), mbf_head := int (ring_add N H (slot ?n))\<rparr>"
  have "slot ?n \<le> N" using r(9) by simp
  note g = mbf_to_msg_ring [OF r(1-3) _ r(4-6) this r(7), of mem d]
  have "memcpy (\<lambda>j. b (ring_add N H (4 + j))) 0 mem d ?n = memcpy (\<lambda>j. m ! j) 0 mem d ?n"
    using r(11) by (auto simp: memcpy_def fun_eq_iff simp del: diff_add_assoc diff_add_assoc2 simp flip: add_diff_assoc)
  then have "mbf_to_msg mem d c = Some (int ?n, memcpy (\<lambda>j. m ! j) 0 mem d ?n, ?c)"
    using g r(11) by simp
  moreover have "ring_rep ?c ms"
    using r ring_add_less [of N H] ring_add_dvd [OF r(4,5) slot_dvd, of ?n]
      int_dvd_int_iff [of 4 N] int_dvd_int_iff [of 4 "ring_add N H (slot ?n)"]
    by (simp add: ring_rep_def)
  ultimately show thesis by (intro that [of ?c]) simp_all
qed

interpretation ring: message_store ring_rep "\<lambda>c. nat (frbufsz c)" mbf_free mbf_empty msg_to_mbf mbf_to_msg
proof
  fix c ms
  assume rep: "ring_rep c ms"
  then have B: "0 \<le> bufsz c" "bufsz c < 2 ^ 31" "4 dvd bufsz c" "int (used ms) \<le> bufsz c"
      "frbufsz c = bufsz c - int (used ms)" "[] \<notin> set ms" by (simp_all add: ring_rep_def)
  show "mbf_empty c \<longleftrightarrow> ms = []"
    using B(5) slot_bound by (cases ms) (auto simp: mbf_empty_def slot_def)
  show "mbf_free c n \<longleftrightarrow> slot (nat n) \<le> nat (frbufsz c)" if "0 < n" "n < 2 ^ 31" for n
  proof -
    have "4 dvd frbufsz c" using B(3,5) used_dvd [of ms] int_dvd_int_iff [of 4 "used ms"] by simp
    then have "4 dvd nat (frbufsz c)" using B(4,5) int_dvd_int_iff [of 4 "nat (frbufsz c)"] by simp
    then have "slot (nat n) \<le> nat (frbufsz c) \<longleftrightarrow> 4 + nat n \<le> nat (frbufsz c)" by (rule slot_fits)
    also have "\<dots> \<longleftrightarrow> 4 + n \<le> frbufsz c" using that(1) B(4,5) by auto
    finally have "slot (nat n) \<le> nat (frbufsz c) \<longleftrightarrow> 4 + n \<le> frbufsz c" .
    moreover have "0 \<le> frbufsz c" "frbufsz c < 2 ^ 31" using B(2,4,5) by simp_all
    then have "uint (word_of_int (frbufsz c) :: UW) = frbufsz c" "uint (HEADERSZ + word_of_int n) = 4 + n"
      using that by (simp_all add: HEADERSZ_def uint_word_ariths take_bit_eq_mod word_of_int_inverse uint_word_of_int mod_simps)
    ultimately show ?thesis by (simp add: mbf_free_def word_le_def)
  qed
  show "\<exists>c'. msg_to_mbf mem p n c = Some c' \<and> ring_rep c' (ms @ [msg_bytes mem p n]) \<and>
      nat (frbufsz c') = nat (frbufsz c) - slot (nat n)"
    if n: "0 < n" "slot (nat n) \<le> nat (frbufsz c)" for mem p n
  proof -
    have "0 < nat n" using n(1) by simp
    then obtain c' where "msg_to_mbf mem p (int (nat n)) c = Some c'"
        "ring_rep c' (ms @ [msg_bytes mem p (int (nat n))])" "frbufsz c' = frbufsz c - int (slot (nat n))"
      by (rule ring_put [OF rep _ n(2), of mem p])
    then show ?thesis using n(1) by (intro exI [of _ c']) (simp add: nat_diff_distrib')
  qed
next
  show "\<exists>s'. mbf_to_msg mem d c = Some (int (length m), memcpy (\<lambda>j. m ! j) 0 mem d (length m), s') \<and> ring_rep s' ms \<and>
        nat (frbufsz s') = nat (frbufsz c) + slot (length m)"
    if rep: "ring_rep c (m # ms)" for c m ms mem d
  proof -
    have "0 \<le> frbufsz c" using rep by (simp add: ring_rep_def)
    moreover obtain c' where "mbf_to_msg mem d c = Some (int (length m), memcpy (\<lambda>j. m ! j) 0 mem d (length m), c')"
        "ring_rep c' ms" "frbufsz c' = frbufsz c + int (slot (length m))"
      by (rule ring_get [OF rep, of mem d])
    ultimately show ?thesis by (intro exI [of _ c']) (simp add: nat_add_distrib)
  qed
qed

text \<open>
  C16: The ring of a message buffer is a faithful first-in first-out store. Whatever sequence of stores of
  messages that fit (of any lengths, wherever the ring wraps around) and fetches while it is not empty is
  run on it, the code returns at each step, and the messages that come out are those that were in the ring
  and then those that went in, byte for byte and in order, with the remaining ones still in the ring.
\<close>

theorem ring_fifo:
  assumes "ring_rep c ms" "list_all op_size_ok ops"
  shows "\<exists>ins outs c' ms'. store_run mbf_free mbf_empty msg_to_mbf mbf_to_msg ops c = Some (ins, outs, c') \<and>
    ring_rep c' ms' \<and> ms @ ins = outs @ ms'"
  using assms by (rule ring.run_fifo)

definition ex_ring :: mbfcb where
  "ex_ring = \<lparr>mbfid = 1, mbf_exinf = 0, mbfatr = 0, bufsz = 16, maxmsz = 16, frbufsz = 16, mbf_head = 8,
     mbf_tail = 8, mbf_buffer = Some (\<lambda>_. 0), mbf_name = []\<rparr>"

theorem ring_fifo_witness:
  "\<exists>ins outs c' ms'. store_run mbf_free mbf_empty msg_to_mbf mbf_to_msg
     [Store (\<lambda>a. of_nat a) 7 9, Store (\<lambda>_. 0) 0 1, Fetch (\<lambda>_. 0) 3, Store (\<lambda>_. 1) 0 1] ex_ring = Some (ins, outs, c') \<and>
     ring_rep c' ms' \<and> ins = outs @ ms'"
proof -
  have "ring_rep ex_ring []" by (simp add: ring_rep_def ex_ring_def ring_add_def)
  from ring_fifo [OF this, of "[Store (\<lambda>a. of_nat a) 7 9, Store (\<lambda>_. 0) 0 1, Fetch (\<lambda>_. 0) 3, Store (\<lambda>_. 1) 0 1]"]
  show ?thesis by simp
qed

end
