(* ===== verification/Message_Buffer.thy ===== *)
theory Message_Buffer
  imports Example_State Object_Pool Message_Ring
begin

text \<open>
  Message buffers (\<^verbatim>\<open>messagebuf.c\<close>). Senders wait while their message does not fit into the ring, receivers
  while there is no message. A message is copied when it is stored or handed over, so the messages of
  waiting senders are still in their memory. \<open>mbf_inv k\<close> is the invariant of all message buffers.
\<close>

subsection \<open>Operations\<close>

record t_cmbf =
  cmbf_exinf :: nat
  cmbf_mbfatr :: UW
  cmbf_bufsz :: int
  cmbf_maxmsz :: int
  cmbf_dsname :: "UB list"

record t_rmbf =
  rmbf_exinf :: nat
  rmbf_wtsk :: ID
  rmbf_stsk :: ID
  rmbf_msgsz :: int
  rmbf_frbufsz :: int
  rmbf_maxmsz :: int

definition get_mbfcb :: "ID \<Rightarrow> nat" where
  "get_mbfcb oid = INDEX oid"

definition upd_mbf :: "nat \<Rightarrow> (mbfcb \<Rightarrow> mbfcb) \<Rightarrow> kernel \<Rightarrow> kernel" where
  "upd_mbf i f k = k\<lparr>mbfcb_table := (mbfcb_table k)(i := f (mbfcb_table k i))\<rparr>"

abbreviation mbf :: "kernel \<Rightarrow> nat \<Rightarrow> mbfcb" where
  "mbf k i \<equiv> mbfcb_table k i"

definition messagebuffer_initialize :: "int option \<Rightarrow> bool \<Rightarrow> kernel \<Rightarrow> ER \<times> kernel" where
  "messagebuffer_initialize tmaxmbfid mem k =
     (let k = (case tmaxmbfid of Some n \<Rightarrow> k\<lparr>max_mbfid := n\<rparr> | None \<Rightarrow> k)
      in if tmaxmbfid = None \<or> max_mbfid k < 1 then (E_SYS, k)
      else if \<not> mem then (E_NOMEM, k)
      else
        let k = k\<lparr>free_mbfcb := []\<rparr>;
            k = fold (\<lambda>i k.
                  let k = upd_mbf i (\<lambda>c. c\<lparr>mbfid := 0\<rparr>) k
                  in k\<lparr>free_mbfcb := free_mbfcb k @ [i]\<rparr>)
                [0..<nat (max_mbfid k)] k
        in (E_OK, k))"

text \<open>Each round of the loop takes a sender off the queue.\<close>

partial_function (option) mbf_wakeup :: "nat \<Rightarrow> kernel \<Rightarrow> kernel option" where
  "mbf_wakeup i k =
     (case que k (SmbfQ i) of
        [] \<Rightarrow> Some k
      | t # _ \<Rightarrow>
          let msgsz = smbf_msgsz (winfo (tcb k t))
          in if \<not> mbf_free (mbf k i) msgsz then Some k
             else Option.bind (msg_to_mbf (mem_byte k) (smbf_msg (winfo (tcb k t))) msgsz (mbf k i))
                    (\<lambda>c. mbf_wakeup i (wait_release_ok t (upd_mbf i (\<lambda>_. c) k))))"

definition mbf_chg_pri :: "tid \<Rightarrow> int \<Rightarrow> kernel \<Rightarrow> kernel option" where
  "mbf_chg_pri t oldpri k =
     (let i = get_mbfcb (wid (tcb k t));
          k = (if 0 \<le> oldpri then gcb_change_priority (SmbfQ i) t k else k)
      in mbf_wakeup i k)"

definition mbf_rel_wai :: "tid \<Rightarrow> kernel \<Rightarrow> kernel option" where
  "mbf_rel_wai t k = mbf_chg_pri t (-1) k"

definition VALID_MBFATR :: UW where
  "VALID_MBFATR = TA_TPRI OR TA_NODISWAI OR TA_DSNAME"

text \<open>
  \<open>msgbuf\<close> is what \<^verbatim>\<open>Imalloc\<close> returns. Memory that is allocated and not used is freed again, which is
  outside the model.
\<close>

definition tk_cre_mbf :: "t_cmbf \<Rightarrow> (nat \<Rightarrow> UB) option \<Rightarrow> kernel \<Rightarrow> ER \<times> kernel" where
  "tk_cre_mbf pk msgbuf k =
     checked [CHECK_RSATR (cmbf_mbfatr pk) VALID_MBFATR, CHECK_PAR (0 \<le> cmbf_bufsz pk),
              CHECK_PAR (0 < cmbf_maxmsz pk)] k
       (let size = sint (ROUNDSZ (cmbf_bufsz pk));
            msgbuf = (if 0 < size then msgbuf else None)
        in if 0 < size \<and> msgbuf = None then (E_NOMEM, k)
           else case free_mbfcb k of
             [] \<Rightarrow> (E_LIMIT, END_CRITICAL_SECTION k)
           | i # rest \<Rightarrow>
               let k = k\<lparr>free_mbfcb := rest\<rparr>;
                   k = k\<lparr>que := QueInit (SmbfQ i) (que k)\<rparr>;
                   k = upd_mbf i (\<lambda>c. c\<lparr>mbfid := ID_of i, mbf_exinf := cmbf_exinf pk, mbfatr := cmbf_mbfatr pk\<rparr>) k;
                   k = k\<lparr>que := QueInit (RmbfQ i) (que k)\<rparr>;
                   k = upd_mbf i (\<lambda>c. c\<lparr>mbf_buffer := msgbuf, bufsz := size, frbufsz := size,
                         maxmsz := cmbf_maxmsz pk, mbf_head := 0, mbf_tail := 0\<rparr>) k;
                   k = (if cmbf_mbfatr pk AND TA_DSNAME \<noteq> 0
                        then upd_mbf i (\<lambda>c. c\<lparr>mbf_name := strncpy (cmbf_dsname pk) 8\<rparr>) k else k)
               in (ID_of i, END_CRITICAL_SECTION k))"

definition tk_del_mbf :: "ID \<Rightarrow> kernel \<Rightarrow> ER \<times> kernel" where
  "tk_del_mbf oid k =
     checked [CHECK_MBFID oid k] k
       (let i = get_mbfcb oid
        in if mbfid (mbf k i) = 0 then (E_NOEXS, END_CRITICAL_SECTION k)
           else
             let k = wait_delete (RmbfQ i) k;
                 k = wait_delete (SmbfQ i) k;
                 k = k\<lparr>free_mbfcb := free_mbfcb k @ [i]\<rparr>;
                 k = upd_mbf i (\<lambda>c. c\<lparr>mbfid := 0\<rparr>) k
             in (E_OK, END_CRITICAL_SECTION k))"

text \<open>A message goes straight to a waiting receiver.\<close>

definition mbf_hand_over :: "tid \<Rightarrow> nat \<Rightarrow> int \<Rightarrow> kernel \<Rightarrow> kernel" where
  "mbf_hand_over t msg msgsz k =
     (let k = k\<lparr>mem_byte := memcpy (mem_byte k) msg (mem_byte k) (rmbf_msg (winfo (tcb k t))) (nat msgsz)\<rparr>;
          k = k\<lparr>mem_int := (mem_int k)(rmbf_p_msgsz (winfo (tcb k t)) := msgsz)\<rparr>
      in wait_release_ok t k)"

definition tk_snd_mbf_u :: "ID \<Rightarrow> nat \<Rightarrow> int \<Rightarrow> D \<Rightarrow> kernel \<Rightarrow> (ER \<times> kernel) option" where
  "tk_snd_mbf_u oid msg msgsz tmout k =
     checked_opt [CHECK_MBFID oid k, CHECK_PAR (0 < msgsz), CHECK_TMOUT tmout, CHECK_DISPATCH_POL tmout k] k
       (let i = get_mbfcb oid; t = self k; c = mbf k i
        in if mbfid c = 0 then Some (E_NOEXS, END_CRITICAL_SECTION k)
           else if maxmsz c < msgsz then Some (E_PAR, END_CRITICAL_SECTION k)
           else if \<not> in_indp k \<and> is_diswai (mbfatr c) (tcb k t) TTW_SMBF then Some (E_DISWAI, END_CRITICAL_SECTION k)
           else case que k (RmbfQ i) of
             r # _ \<Rightarrow> Some (E_OK, END_CRITICAL_SECTION (mbf_hand_over r msg msgsz k))
           | [] \<Rightarrow>
               if (in_indp k \<or> gcb_top_of_wait_queue (SmbfQ i) (mbfatr c) t k = t) \<and> mbf_free c msgsz
               then map_option (\<lambda>c. (E_OK, END_CRITICAL_SECTION (upd_mbf i (\<lambda>_. c) k)))
                      (msg_to_mbf (mem_byte k) msg msgsz c)
               else if tmout = TMO_POL then Some (E_TMOUT, END_CRITICAL_SECTION k)
               else
                 let k = upd_tcb t (\<lambda>tc. tc\<lparr>wspec := (if mbfatr c AND TA_TPRI \<noteq> 0 then WSPEC_SMBF_TPRI
                                                         else WSPEC_SMBF_TFIFO),
                                            wercd := E_TMOUT, winfo := WINFO_SMBF msg msgsz\<rparr>) k;
                     k = gcb_make_wait_with_diswai (SmbfQ i) (mbfid c) (mbfatr c) tmout k
                 in Some (wercd (tcb k t), END_CRITICAL_SECTION k))"

definition tk_snd_mbf :: "ID \<Rightarrow> nat \<Rightarrow> int \<Rightarrow> UW \<Rightarrow> kernel \<Rightarrow> (ER \<times> kernel) option" where
  "tk_snd_mbf oid msg msgsz tmout k = tk_snd_mbf_u oid msg msgsz (to_usec_tmo tmout) k"

text \<open>
  The message of a waiting sender is taken from its memory. \<open>p_rcvsz\<close> is the address of the variable
  \<^verbatim>\<open>rcvsz\<close> of the call, which a sender sets when it finds the receiver waiting.
\<close>

definition mbf_take_over :: "tid \<Rightarrow> nat \<Rightarrow> kernel \<Rightarrow> kernel" where
  "mbf_take_over t msg k =
     wait_release_ok t (k\<lparr>mem_byte := memcpy (mem_byte k) (smbf_msg (winfo (tcb k t))) (mem_byte k) msg
       (nat (smbf_msgsz (winfo (tcb k t))))\<rparr>)"

definition tk_rcv_mbf_u :: "ID \<Rightarrow> nat \<Rightarrow> nat \<Rightarrow> D \<Rightarrow> kernel \<Rightarrow> (int \<times> kernel) option" where
  "tk_rcv_mbf_u oid msg p_rcvsz tmout k =
     checked_opt [CHECK_MBFID oid k, CHECK_TMOUT tmout, CHECK_DISPATCH k] k
       (let i = get_mbfcb oid; t = self k; c = mbf k i
        in if mbfid c = 0 then Some (E_NOEXS, END_CRITICAL_SECTION k)
           else if is_diswai (mbfatr c) (tcb k t) TTW_RMBF then Some (E_DISWAI, END_CRITICAL_SECTION k)
           else if \<not> mbf_empty c then
             Option.bind (mbf_to_msg (mem_byte k) msg c) (\<lambda>(rcvsz, mem, c).
               map_option (\<lambda>k. (rcvsz, END_CRITICAL_SECTION k)) (mbf_wakeup i (upd_mbf i (\<lambda>_. c) (k\<lparr>mem_byte := mem\<rparr>))))
           else case que k (SmbfQ i) of
             s # _ \<Rightarrow>
               map_option (\<lambda>k'. (smbf_msgsz (winfo (tcb k s)), END_CRITICAL_SECTION k'))
                 (mbf_wakeup i (mbf_take_over s msg k))
           | [] \<Rightarrow>
               if tmout = TMO_POL then Some (E_TMOUT, END_CRITICAL_SECTION k)
               else
                 let k = upd_tcb t (\<lambda>tc. tc\<lparr>wspec := WSPEC_RMBF, wid := oid, wercd := E_TMOUT,
                                            winfo := WINFO_RMBF msg p_rcvsz\<rparr>) k;
                     k = make_wait tmout (mbfatr c) k;
                     k = que_append t (RmbfQ i) k
                 in Some (wercd (tcb k t), END_CRITICAL_SECTION k))"

definition tk_rcv_mbf :: "ID \<Rightarrow> nat \<Rightarrow> nat \<Rightarrow> UW \<Rightarrow> kernel \<Rightarrow> (int \<times> kernel) option" where
  "tk_rcv_mbf oid msg p_rcvsz tmout k = tk_rcv_mbf_u oid msg p_rcvsz (to_usec_tmo tmout) k"

definition mbf_info :: "nat \<Rightarrow> kernel \<Rightarrow> t_rmbf option" where
  "mbf_info i k =
     map_option (\<lambda>msgsz. \<lparr>rmbf_exinf = mbf_exinf (mbf k i), rmbf_wtsk = wait_tskid (RmbfQ i) k,
         rmbf_stsk = wait_tskid (SmbfQ i) k, rmbf_msgsz = msgsz, rmbf_frbufsz = frbufsz (mbf k i),
         rmbf_maxmsz = maxmsz (mbf k i)\<rparr>)
       (if \<not> mbf_empty (mbf k i) then map_option (\<lambda>b. get_header b (nat (mbf_head (mbf k i)))) (mbf_buffer (mbf k i))
        else case que k (SmbfQ i) of t # _ \<Rightarrow> Some (smbf_msgsz (winfo (tcb k t))) | [] \<Rightarrow> Some 0)"

definition tk_ref_mbf :: "ID \<Rightarrow> kernel \<Rightarrow> ((ER \<times> t_rmbf option) \<times> kernel) option" where
  "tk_ref_mbf oid k =
     (case CHECK_MBFID oid k of
        Some e \<Rightarrow> Some ((e, None), k)
      | None \<Rightarrow>
          let i = get_mbfcb oid
          in if mbfid (mbf k i) = 0 then Some ((E_NOEXS, None), END_CRITICAL_SECTION k)
             else map_option (\<lambda>pk. ((E_OK, Some pk), END_CRITICAL_SECTION k)) (mbf_info i k))"

definition messagebuffer_getname :: "ID \<Rightarrow> kernel \<Rightarrow> ER \<times> UB list option" where
  "messagebuffer_getname oid k =
     (case CHECK_MBFID oid k of
        Some e \<Rightarrow> (e, None)
      | None \<Rightarrow>
          let i = get_mbfcb oid
          in if mbfid (mbf k i) = 0 then (E_NOEXS, None)
             else if mbfatr (mbf k i) AND TA_DSNAME = 0 then (E_OBJ, None)
             else (E_OK, Some (mbf_name (mbf k i))))"

definition td_lst_mbf :: "int \<Rightarrow> kernel \<Rightarrow> int \<times> ID list" where
  "td_lst_mbf nent k =
     id_list (filter (\<lambda>oid. oid \<noteq> 0) (map (\<lambda>i. mbfid (mbf k i)) [0..<nat (max_mbfid k)])) nent"

definition td_ref_mbf :: "ID \<Rightarrow> kernel \<Rightarrow> (ER \<times> t_rmbf option) option" where
  "td_ref_mbf oid k =
     (case CHECK_MBFID oid k of
        Some e \<Rightarrow> Some (e, None)
      | None \<Rightarrow>
          let i = get_mbfcb oid
          in if mbfid (mbf k i) = 0 then Some (E_NOEXS, None) else map_option (\<lambda>pk. (E_OK, Some pk)) (mbf_info i k))"

definition td_smbf_que :: "ID \<Rightarrow> int \<Rightarrow> kernel \<Rightarrow> int \<times> ID list" where
  "td_smbf_que oid nent k =
     (case CHECK_MBFID oid k of
        Some e \<Rightarrow> (e, [])
      | None \<Rightarrow>
          let i = get_mbfcb oid
          in if mbfid (mbf k i) = 0 then (E_NOEXS, []) else que_ids (que k (SmbfQ i)) nent k)"

definition td_rmbf_que :: "ID \<Rightarrow> int \<Rightarrow> kernel \<Rightarrow> int \<times> ID list" where
  "td_rmbf_que oid nent k =
     (case CHECK_MBFID oid k of
        Some e \<Rightarrow> (e, [])
      | None \<Rightarrow>
          let i = get_mbfcb oid
          in if mbfid (mbf k i) = 0 then (E_NOEXS, []) else que_ids (que k (RmbfQ i)) nent k)"

subsection \<open>The invariant of message buffers\<close>

definition smbf_size :: "kernel \<Rightarrow> tid \<Rightarrow> int" where
  "smbf_size k t = smbf_msgsz (winfo (tcb k t))"

definition smbf_bytes :: "kernel \<Rightarrow> tid \<Rightarrow> UB list" where
  "smbf_bytes k t = msg_bytes (mem_byte k) (smbf_msg (winfo (tcb k t))) (smbf_size k t)"

definition smbf_wspec :: "UW \<Rightarrow> wspec" where
  "smbf_wspec atr = (if atr AND TA_TPRI \<noteq> 0 then WSPEC_SMBF_TPRI else WSPEC_SMBF_TFIFO)"

text \<open>All but that the first sender is rightly waiting.\<close>

definition mbf_wf :: "nat \<Rightarrow> kernel \<Rightarrow> bool" where
  "mbf_wf i k \<longleftrightarrow>
     wq_ok (SmbfQ i) (mbfatr (mbf k i)) (mbfid (mbf k i)) (smbf_wspec (mbfatr (mbf k i))) k \<and>
     wq_ok (RmbfQ i) 0 (mbfid (mbf k i)) WSPEC_RMBF k \<and>
     (\<exists>ms. ring_rep (mbf k i) ms) \<and> maxmsz (mbf k i) < 2 ^ 31 \<and>
     (\<forall>t \<in> set (que k (SmbfQ i)). 0 < smbf_size k t \<and> smbf_size k t \<le> maxmsz (mbf k i)) \<and>
     (que k (RmbfQ i) \<noteq> [] \<longrightarrow> mbf_empty (mbf k i) \<and> que k (SmbfQ i) = [])"

definition mbf_blocked :: "nat \<Rightarrow> kernel \<Rightarrow> bool" where
  "mbf_blocked i k \<longleftrightarrow> que k (SmbfQ i) \<noteq> [] \<longrightarrow> \<not> mbf_free (mbf k i) (smbf_size k (hd (que k (SmbfQ i))))"

definition mbf_ok :: "nat \<Rightarrow> kernel \<Rightarrow> bool" where
  "mbf_ok i k \<longleftrightarrow>
     (if mbfid (mbf k i) = 0 then que k (SmbfQ i) = [] \<and> que k (RmbfQ i) = []
      else mbf_wf i k \<and> mbf_blocked i k)"

definition mbf_inv :: "kernel \<Rightarrow> bool" where
  "mbf_inv k \<longleftrightarrow>
     pool_ok (free_mbfcb k) (\<lambda>i. mbfid (mbf k i)) (nat (max_mbfid k)) \<and> (\<forall>i < nat (max_mbfid k). mbf_ok i k)"

definition mbf_sys :: "kernel \<Rightarrow> bool" where
  "mbf_sys k \<longleftrightarrow> kernel_ok k \<and> mbf_inv k"

lemma upd_mbf_frame [simp]:
  "objs (upd_mbf i f k) = upd_mbf i f (objs k)" "tcb_table (upd_mbf i f k) = tcb_table k"
  "que (upd_mbf i f k) = que k" "mbfcb_table (upd_mbf i f k) = (mbfcb_table k)(i := f (mbf k i))"
  "timer_queue (upd_mbf i f k) = timer_queue k" "ctxtsk (upd_mbf i f k) = ctxtsk k"
  "NUM_TSKID (upd_mbf i f k) = NUM_TSKID k" "max_mbfid (upd_mbf i f k) = max_mbfid k"
  "free_mbfcb (upd_mbf i f k) = free_mbfcb k" "schedtsk (upd_mbf i f k) = schedtsk k"
  "self (upd_mbf i f k) = self k" "tmebs (upd_mbf i f k) = tmebs k" "mem_byte (upd_mbf i f k) = mem_byte k"
  "mem_int (upd_mbf i f k) = mem_int k"
  by (simp_all add: upd_mbf_def objs_def NUM_TSKID_def self_def)

lemma upd_mbf_const [simp]:
  "upd_mbf i (\<lambda>_. a) (upd_mbf i f k) = upd_mbf i (\<lambda>_. a) k" "upd_mbf i (\<lambda>_. mbf k i) k = k"
  "upd_mbf i (\<lambda>_. mbf k i) (objs k) = objs k"
  by (simp_all add: upd_mbf_def objs_def)

lemma fixed_objs_upd_mbf [simp]: "fixed_objs (upd_mbf i f k) = fixed_objs k"
  by (simp add: fixed_objs_def upd_mbf_def objs_def)

lemma kinv_upd_mbf [intro]: "kinv X k \<Longrightarrow> kinv X (upd_mbf i f k)"
  by (erule kinv_objs_cong) (simp_all add: upd_mbf_def NUM_TSKID_def)

lemma kinv_mem_byte [intro]: "kinv X k \<Longrightarrow> kinv X (k\<lparr>mem_byte := m\<rparr>)"
  by (erule kinv_objs_cong) (simp_all add: NUM_TSKID_def)

lemma kinv_mem_int [intro]: "kinv X k \<Longrightarrow> kinv X (k\<lparr>mem_int := m\<rparr>)"
  by (erule kinv_objs_cong) (simp_all add: NUM_TSKID_def)

lemma smbf_wait_home [simp]: "wait_home (smbf_wspec atr) oid = Some (SmbfQ (INDEX oid))"
  "tskwait (smbf_wspec atr) = TTW_SMBF"
  by (simp_all add: smbf_wspec_def)

lemma smbf_size_cong: "winfo (tcb k' t) = winfo (tcb k t) \<Longrightarrow> smbf_size k' t = smbf_size k t"
  by (simp add: smbf_size_def)

lemma mbf_ok_cong:
  assumes "mbf k' i = mbf k i" "que k' (SmbfQ i) = que k (SmbfQ i)" "que k' (RmbfQ i) = que k (RmbfQ i)"
    "\<And>t. t \<in> set (que k (SmbfQ i)) \<union> set (que k (RmbfQ i)) \<Longrightarrow> same_tcb (tcb k' t) (tcb k t)"
  shows "mbf_ok i k' = mbf_ok i k"
proof -
  have w: "wq_ok (SmbfQ i) a d w k' = wq_ok (SmbfQ i) a d w k" "wq_ok (RmbfQ i) a d w k' = wq_ok (RmbfQ i) a d w k" for a d w
    by (rule wq_ok_cong [OF assms(2)], rule assms(4), simp, rule wq_ok_cong [OF assms(3)], rule assms(4), simp)
  have s: "smbf_size k' t = smbf_size k t" if "t \<in> set (que k (SmbfQ i))" for t
    using assms(4) [of t] that by (simp add: smbf_size_def same_tcb_def)
  show ?thesis
    unfolding mbf_ok_def mbf_wf_def mbf_blocked_def assms(1-3) w
    using s by (cases "que k (SmbfQ i)") (auto simp del: upd_mbf_frame)
qed

lemma mbf_inv_cong:
  assumes "\<And>i. mbf k' i = mbf k i" "\<And>i. que k' (SmbfQ i) = que k (SmbfQ i)" "\<And>i. que k' (RmbfQ i) = que k (RmbfQ i)"
    "free_mbfcb k' = free_mbfcb k" "max_mbfid k' = max_mbfid k"
    "\<And>i t. t \<in> set (que k (SmbfQ i)) \<union> set (que k (RmbfQ i)) \<Longrightarrow> same_tcb (tcb k' t) (tcb k t)"
  shows "mbf_inv k' = mbf_inv k"
  using mbf_ok_cong [of k' _ k] assms by (simp add: mbf_inv_def)

text \<open>One message buffer changes.\<close>

lemma mbf_inv_one:
  assumes inv: "mbf_inv k" and i: "mbf_ok i k'"
    and pool: "pool_ok (free_mbfcb k') (\<lambda>i. mbfid (mbf k' i)) (nat (max_mbfid k'))"
    and same: "max_mbfid k' = max_mbfid k" "\<And>j. j \<noteq> i \<Longrightarrow> mbf k' j = mbf k j"
      "\<And>j. j \<noteq> i \<Longrightarrow> que k' (SmbfQ j) = que k (SmbfQ j)" "\<And>j. j \<noteq> i \<Longrightarrow> que k' (RmbfQ j) = que k (RmbfQ j)"
      "\<And>j t. j \<noteq> i \<Longrightarrow> t \<in> set (que k (SmbfQ j)) \<union> set (que k (RmbfQ j)) \<Longrightarrow> same_tcb (tcb k' t) (tcb k t)"
  shows "mbf_inv k'"
proof -
  have "mbf_ok j k'" if "j < nat (max_mbfid k)" for j
  proof (cases "j = i")
    case False
    then have "mbf_ok j k' = mbf_ok j k" by (intro mbf_ok_cong same)
    with inv that show ?thesis by (simp add: mbf_inv_def)
  qed (simp add: i)
  then show ?thesis using pool by (simp add: mbf_inv_def same(1))
qed

lemma mbf_inv_pool: "mbf_inv k \<Longrightarrow> pool_ok (free_mbfcb k) (\<lambda>i. mbfid (mbf k i)) (nat (max_mbfid k))"
  and mbf_inv_ok: "mbf_inv k \<Longrightarrow> i < nat (max_mbfid k) \<Longrightarrow> mbf_ok i k"
  by (simp_all add: mbf_inv_def)

lemma mbf_sysI: "kinv {} k \<Longrightarrow> mbf_inv k \<Longrightarrow> mbf_sys (END_CRITICAL_SECTION k)"
  using mbf_inv_cong [of "END_CRITICAL_SECTION k" k]
  by (simp add: mbf_sys_def kernel_ok_END_CRITICAL_SECTION same_tcb_def)

lemma mbf_sysD: "mbf_sys k \<Longrightarrow> kernel_ok k" "mbf_sys k \<Longrightarrow> kinv {} k" "mbf_sys k \<Longrightarrow> mbf_inv k"
  by (simp_all add: mbf_sys_def kernel_ok_kinv)

lemma mbf_sys_quiet: "mbf_sys k \<Longrightarrow> k' \<in> {k, END_CRITICAL_SECTION k} \<Longrightarrow> mbf_sys k'"
  using mbf_sysI mbf_sysD by blast

lemma CHECK_MBFID_index:
  "CHECK_MBFID oid k = None \<Longrightarrow> get_mbfcb oid < nat (max_mbfid k) \<and> oid = ID_of (get_mbfcb oid)"
  by (auto simp: CHECK_MBFID_def get_mbfcb_def INDEX_def ID_of_def)

lemma mbf_inv_live:
  assumes "mbf_inv k" "i < nat (max_mbfid k)" "mbfid (mbf k i) \<noteq> 0"
  shows "mbfid (mbf k i) = ID_of i" "mbf_wf i k" "mbf_blocked i k"
  using assms pool_ok_live [of "free_mbfcb k" "\<lambda>i. mbfid (mbf k i)"]
  by (auto simp: mbf_inv_def mbf_ok_def ID_of_def)

lemma mbf_wfD:
  assumes "mbf_wf i k"
  shows "wq_ok (SmbfQ i) (mbfatr (mbf k i)) (mbfid (mbf k i)) (smbf_wspec (mbfatr (mbf k i))) k"
    "wq_ok (RmbfQ i) 0 (mbfid (mbf k i)) WSPEC_RMBF k" "\<exists>ms. ring_rep (mbf k i) ms" "maxmsz (mbf k i) < 2 ^ 31"
    "t \<in> set (que k (SmbfQ i)) \<Longrightarrow> 0 < smbf_size k t" "t \<in> set (que k (SmbfQ i)) \<Longrightarrow> smbf_size k t \<le> maxmsz (mbf k i)"
    "que k (RmbfQ i) \<noteq> [] \<Longrightarrow> mbf_empty (mbf k i)" "que k (RmbfQ i) \<noteq> [] \<Longrightarrow> que k (SmbfQ i) = []"
  using assms by (auto simp: mbf_wf_def)

lemma mbf_waiter:
  assumes inv: "kinv {} k" "mbf_inv k" and t: "t \<in> set (que k (SmbfQ i)) \<or> t \<in> set (que k (RmbfQ i))"
    and i: "i < nat (max_mbfid k)"
  shows "mbfid (mbf k i) \<noteq> 0" "get_mbfcb (wid (tcb k t)) = i" "t < NUM_TSKID k" "ts_wait (state (tcb k t))"
    "t \<in> set (que k (SmbfQ i)) \<Longrightarrow> wspec (tcb k t) = smbf_wspec (mbfatr (mbf k i))"
    "t \<in> set (que k (RmbfQ i)) \<Longrightarrow> wspec (tcb k t) = WSPEC_RMBF"
proof -
  have "mbf_ok i k" by (rule mbf_inv_ok [OF inv(2) i])
  with t show live: "mbfid (mbf k i) \<noteq> 0" by (auto simp: mbf_ok_def)
  note l = mbf_inv_live [OF inv(2) i live] and w = mbf_wfD [OF mbf_inv_live(2) [OF inv(2) i live]]
  show "get_mbfcb (wid (tcb k t)) = i" using t w(1,2) l(1) by (auto simp: wq_ok_def get_mbfcb_def)
  show "t < NUM_TSKID k" "ts_wait (state (tcb k t))" using t kinv_waiter [OF inv(1)] by auto
  show "wspec (tcb k t) = smbf_wspec (mbfatr (mbf k i))" if "t \<in> set (que k (SmbfQ i))"
    using that w(1) by (simp add: wq_ok_def)
  show "wspec (tcb k t) = WSPEC_RMBF" if "t \<in> set (que k (RmbfQ i))" using that w(2) by (simp add: wq_ok_def)
qed

subsection \<open>Storing the messages of waiting senders\<close>

text \<open>The senders whose messages fit, one after the other.\<close>

fun fill :: "nat \<Rightarrow> (tid \<Rightarrow> nat) \<Rightarrow> tid list \<Rightarrow> tid list" where
  "fill room sz [] = []"
| "fill room sz (t # ts) = (if slot (sz t) \<le> room then t # fill (room - slot (sz t)) sz ts else [])"

lemma fill_cong: "(\<And>t. t \<in> set ts \<Longrightarrow> sz' t = sz t) \<Longrightarrow> fill r sz' ts = fill r sz ts"
  by (induction ts arbitrary: r) auto

lemma fill_prefix: "ts = fill r sz ts @ drop (length (fill r sz ts)) ts"
  by (induction ts arbitrary: r) auto

lemma fill_set: "set (fill r sz ts) \<subseteq> set ts"
  by (induction ts arbitrary: r) auto

definition accepted :: "nat \<Rightarrow> kernel \<Rightarrow> tid list" where
  "accepted i k = fill (nat (frbufsz (mbf k i))) (\<lambda>t. nat (smbf_size k t)) (que k (SmbfQ i))"

definition same_mbf :: "mbfcb \<Rightarrow> mbfcb \<Rightarrow> bool" where
  "same_mbf c' c \<longleftrightarrow> mbfid c' = mbfid c \<and> mbf_exinf c' = mbf_exinf c \<and> mbfatr c' = mbfatr c \<and> bufsz c' = bufsz c \<and>
     maxmsz c' = maxmsz c \<and> mbf_name c' = mbf_name c"

text \<open>
  \<open>stored i ms ts k k'\<close>: the messages of the senders \<open>ts\<close> have joined the messages \<open>ms\<close> of message
  buffer \<open>i\<close>, and the senders have been released.
\<close>

definition stored :: "nat \<Rightarrow> UB list list \<Rightarrow> tid list \<Rightarrow> kernel \<Rightarrow> kernel \<Rightarrow> bool" where
  "stored i ms ts k k' \<longleftrightarrow>
     released (set ts) E_OK k k' \<and> ring_rep (mbf k' i) (ms @ map (smbf_bytes k) ts) \<and>
     same_mbf (mbf k' i) (mbf k i) \<and> objs k' = objs (upd_mbf i (\<lambda>_. mbf k' i) k) \<and>
     que k (SmbfQ i) = ts @ que k' (SmbfQ i)"

lemma storedD:
  assumes "stored i ms ts k k'"
  shows "released (set ts) E_OK k k'" "ring_rep (mbf k' i) (ms @ map (smbf_bytes k) ts)"
    "same_mbf (mbf k' i) (mbf k i)" "objs k' = objs (upd_mbf i (\<lambda>_. mbf k' i) k)"
    "que k (SmbfQ i) = ts @ que k' (SmbfQ i)"
  using assms by (simp_all add: stored_def)

lemma stored_sel:
  assumes "stored i ms ts k k'"
  shows "mbf k' j = (if j = i then mbf k' i else mbf k j)" "mem_byte k' = mem_byte k" "mem_int k' = mem_int k"
    "free_mbfcb k' = free_mbfcb k" "max_mbfid k' = max_mbfid k" "fixed_objs k' = fixed_objs k"
    "smbf_size k' t = smbf_size k t" "smbf_bytes k' t = smbf_bytes k t" "mbfid (mbf k' j) = mbfid (mbf k j)"
proof -
  note o = objs_eqD [OF storedD(4) [OF assms], simplified]
  show m: "mbf k' j = (if j = i then mbf k' i else mbf k j)" using arg_cong [OF o(37), of "\<lambda>f. f j"] by simp
  show "mem_byte k' = mem_byte k" "mem_int k' = mem_int k" "free_mbfcb k' = free_mbfcb k" "max_mbfid k' = max_mbfid k"
    using o by simp_all
  moreover have "winfo (tcb k' t) = winfo (tcb k t)"
    by (rule core_eqD [OF releasedD(6) [OF storedD(1) [OF assms]]])
  ultimately show "smbf_size k' t = smbf_size k t" "smbf_bytes k' t = smbf_bytes k t"
    by (simp_all add: smbf_size_def smbf_bytes_def)
  show "fixed_objs k' = fixed_objs k"
    using fixed_objs_objs [OF storedD(4) [OF assms]] by simp
  show "mbfid (mbf k' j) = mbfid (mbf k j)"
    using m storedD(3) [OF assms] by (simp add: same_mbf_def)
qed

lemma released_upd_mbf:
  assumes "released T e (upd_mbf i f k) k'"
  shows "released T e k k'"
  using assms by (simp add: released_def)

lemma stored_one:
  assumes inv: "kinv {} k" and q: "que k (SmbfQ i) = t # ts" and n: "0 < smbf_size k t"
    and rep: "ring_rep (mbf k i) ms" and room: "slot (nat (smbf_size k t)) \<le> nat (frbufsz (mbf k i))"
  obtains c where "msg_to_mbf (mem_byte k) (smbf_msg (winfo (tcb k t))) (smbf_size k t) (mbf k i) = Some c"
    "stored i ms [t] k (wait_release_ok t (upd_mbf i (\<lambda>_. c) k))"
    "nat (frbufsz c) = nat (frbufsz (mbf k i)) - slot (nat (smbf_size k t))"
proof -
  have "0 < nat (smbf_size k t)" using n by simp
  then obtain c where c: "msg_to_mbf (mem_byte k) (smbf_msg (winfo (tcb k t))) (smbf_size k t) (mbf k i) = Some c"
      "ring_rep c (ms @ [smbf_bytes k t])" "frbufsz c = frbufsz (mbf k i) - int (slot (nat (smbf_size k t)))"
      "c = (mbf k i)\<lparr>frbufsz := frbufsz c, mbf_tail := mbf_tail c, mbf_buffer := mbf_buffer c\<rparr>"
    using ring_put [OF rep _ room, of "mem_byte k" "smbf_msg (winfo (tcb k t))"] n
    unfolding smbf_bytes_def by (metis int_nat_eq less_imp_le)
  let ?u = "upd_mbf i (\<lambda>_. c) k" and ?k = "wait_release_ok t (upd_mbf i (\<lambda>_. c) k)"
  have t: "t < NUM_TSKID k" "ts_wait (state (tcb k t))" using kinv_waiter [OF inv, of t "SmbfQ i"] q by simp_all
  have "released {t} E_OK ?u ?k"
    using released_single [OF kinv_upd_mbf [OF inv], of t _ _ E_OK] t by (simp add: wait_release_ok_def)
  then have r: "released {t} E_OK k ?k" by (rule released_upd_mbf)
  have ob: "objs ?k = objs ?u" by simp
  have m: "mbf ?k i = c" using objs_eqD(37) [OF ob] by simp
  have "t \<notin> set ts" using qinv_distinct [OF kinvD(1) [OF inv], of "SmbfQ i"] q by simp
  then have "filter (\<lambda>u. u \<noteq> t) ts = ts" by (auto simp: filter_id_conv)
  then have "que ?k (SmbfQ i) = ts" using releasedD(9) [OF r, of "SmbfQ i"] q by simp
  then have "stored i ms [t] k ?k"
    using r c(2) c(4) [THEN arg_cong [where f = "\<lambda>x. (mbfid x, mbf_exinf x, mbfatr x, bufsz x, maxmsz x, mbf_name x)"]] q
    by (simp add: stored_def m same_mbf_def)
  moreover have "nat (frbufsz c) = nat (frbufsz (mbf k i)) - slot (nat (smbf_size k t))"
    using c(3) rep by (simp add: ring_rep_def nat_diff_distrib')
  ultimately show thesis using c(1) by (intro that)
qed

lemma stored_refl: "kinv {} k \<Longrightarrow> ring_rep (mbf k i) ms \<Longrightarrow> stored i ms [] k k"
  by (simp add: stored_def released_refl same_mbf_def)

lemma stored_trans:
  assumes a: "stored i ms ts k k'" and b: "stored i (ms @ map (smbf_bytes k) ts) us k' k''"
  shows "stored i ms (ts @ us) k k''"
proof -
  note da = storedD [OF a] and db = storedD [OF b] and s = stored_sel [OF a]
  have "objs k'' = objs (upd_mbf i (\<lambda>_. mbf k'' i) k)"
    using db(4) da(4) by simp
  moreover have "smbf_bytes k' = smbf_bytes k" using s(8) by (simp add: fun_eq_iff)
  ultimately show ?thesis
    using released_trans [OF da(1) db(1)] db(2,3,5) da(3,5)
    by (simp add: stored_def same_mbf_def)
qed

lemma mbf_wakeup_stored:
  assumes "kinv {} k" "ring_rep (mbf k i) ms" "\<And>t. t \<in> set (que k (SmbfQ i)) \<Longrightarrow> 0 < smbf_size k t \<and> smbf_size k t < 2 ^ 31"
  obtains k' where "mbf_wakeup i k = Some k'" "stored i ms (accepted i k) k k'" "mbf_blocked i k'"
proof -
  have "\<exists>k'. mbf_wakeup i k = Some k' \<and> stored i ms (accepted i k) k k' \<and> mbf_blocked i k'"
    using assms
  proof (induction "length (que k (SmbfQ i))" arbitrary: k ms)
    case 0
    then show ?case
      by (subst mbf_wakeup.simps) (simp add: accepted_def stored_refl mbf_blocked_def)
  next
    case (Suc n)
    then obtain t ts where q: "que k (SmbfQ i) = t # ts" by (cases "que k (SmbfQ i)") auto
    have n: "0 < smbf_size k t" "smbf_size k t < 2 ^ 31" using Suc.prems(3) [of t] q by simp_all
    note fits = ring.fits [OF Suc.prems(2) n]
    show ?case
    proof (cases "mbf_free (mbf k i) (smbf_size k t)")
      case False
      then show ?thesis
        using q fits Suc.prems(1,2)
        by (subst mbf_wakeup.simps) (simp add: accepted_def stored_refl mbf_blocked_def smbf_size_def)
    next
      case True
      obtain c where c: "msg_to_mbf (mem_byte k) (smbf_msg (winfo (tcb k t))) (smbf_size k t) (mbf k i) = Some c"
        "stored i ms [t] k (wait_release_ok t (upd_mbf i (\<lambda>_. c) k))"
        "nat (frbufsz c) = nat (frbufsz (mbf k i)) - slot (nat (smbf_size k t))"
        by (rule stored_one [OF Suc.prems(1) q n(1) Suc.prems(2)]) (use True fits in auto)
      let ?k = "wait_release_ok t (upd_mbf i (\<lambda>_. c) k)"
      note d = storedD [OF c(2)] and s = stored_sel [OF c(2)]
      have q1: "que ?k (SmbfQ i) = ts" using d(5) q by simp
      have "\<exists>k'. mbf_wakeup i ?k = Some k' \<and> stored i (ms @ map (smbf_bytes k) [t]) (accepted i ?k) ?k k' \<and> mbf_blocked i k'"
        by (rule Suc.hyps(1) [OF _ releasedD(1) [OF d(1)] d(2)]) (use Suc.hyps(2) Suc.prems(3) q q1 s(7) in simp_all)
      then obtain k' where k': "mbf_wakeup i ?k = Some k'" "stored i (ms @ map (smbf_bytes k) [t]) (accepted i ?k) ?k k'"
        "mbf_blocked i k'" by blast
      have m: "mbf ?k i = c" by simp
      have "accepted i ?k = fill (nat (frbufsz c)) (\<lambda>t. nat (smbf_size k t)) ts"
        unfolding accepted_def q1 m by (rule fill_cong) (simp only: s(7))
      then have "accepted i k = [t] @ accepted i ?k"
        using True fits by (simp add: accepted_def q c(3))
      then have "stored i ms (accepted i k) k k'" using stored_trans [OF c(2) k'(2)] by simp
      moreover have "mbf_wakeup i k = Some k'"
        using True c(1) k'(1) q by (subst mbf_wakeup.simps) (simp add: smbf_size_def)
      ultimately show ?thesis using k'(3) by blast
    qed
  qed
  with that show thesis by blast
qed

text \<open>The invariant after it.\<close>

lemma stored_mbf_wf:
  assumes inv: "kinv {} k" and wf: "mbf_wf i k" and st: "stored i ms ts k k'"
    and nr: "que k (RmbfQ i) = []"
  shows "mbf_wf i k'"
proof -
  note d = storedD [OF st] and s = stored_sel [OF st] and w = mbf_wfD [OF wf]
  have sub: "set ts \<subseteq> set (que k (SmbfQ i))" "set (que k' (SmbfQ i)) \<subseteq> set (que k (SmbfQ i))" by (simp_all add: d(5))
  have "que k' (RmbfQ i) = []" using released_other [OF inv d(1) sub(1), of "RmbfQ i"] nr by simp
  then show ?thesis
    unfolding mbf_wf_def
    using wq_ok_released [OF w(1) d(1)] d(2,3) w(4-6) sub(2) by (auto simp: same_mbf_def s(7))
qed

lemma stored_mbf_inv:
  assumes inv: "kinv {} k" and st: "stored i ms ts k k'" and ok: "mbf_ok i k'"
    and others: "\<And>j. j \<noteq> i \<Longrightarrow> j < nat (max_mbfid k) \<Longrightarrow> mbf_ok j k"
    and pool: "pool_ok (free_mbfcb k) (\<lambda>i. mbfid (mbf k i)) (nat (max_mbfid k))"
  shows "mbf_inv k'"
proof -
  note d = storedD [OF st] and s = stored_sel [OF st]
  have sub: "set ts \<subseteq> set (que k (SmbfQ i))" by (simp add: d(5))
  have "mbf_ok j k' = mbf_ok j k" if "j \<noteq> i" for j
    by (rule mbf_ok_cong)
      (use s(1) [of j] that released_other [OF inv d(1) sub] released_same [OF d(1)] in simp_all)
  then have "mbf_ok j k'" if "j < nat (max_mbfid k)" for j
    using that ok others by (cases "j = i") auto
  moreover have "(\<lambda>j. mbfid (mbf k' j)) = (\<lambda>j. mbfid (mbf k j))" by (simp only: s(9))
  ultimately show ?thesis using pool by (simp add: mbf_inv_def s(4,5))
qed

subsection \<open>Hooks, timeouts and deletion\<close>

text \<open>A message buffer in order but for its first sender: the loop puts that right.\<close>

lemma mbf_wakeup_inv:
  assumes inv: "kinv {} k" and i: "mbfid (mbf k i) \<noteq> 0" "mbf_wf i k"
    and others: "\<And>j. j \<noteq> i \<Longrightarrow> j < nat (max_mbfid k) \<Longrightarrow> mbf_ok j k"
    and pool: "pool_ok (free_mbfcb k) (\<lambda>i. mbfid (mbf k i)) (nat (max_mbfid k))"
  obtains k' ms where "mbf_wakeup i k = Some k'" "mbf_inv k'" "stored i ms (accepted i k) k k'"
proof -
  note w = mbf_wfD [OF i(2)]
  obtain ms where ms: "ring_rep (mbf k i) ms" using w(3) by blast
  have sz: "0 < smbf_size k t \<and> smbf_size k t < 2 ^ 31" if "t \<in> set (que k (SmbfQ i))" for t
    using w(5,6) [OF that] w(4) by simp
  obtain k' where k': "mbf_wakeup i k = Some k'" "stored i ms (accepted i k) k k'" "mbf_blocked i k'"
    by (rule mbf_wakeup_stored [OF inv ms sz])
  note d = storedD [OF k'(2)] and s = stored_sel [OF k'(2)]
  have "mbf_ok i k'"
  proof (cases "que k (RmbfQ i) = []")
    case True
    then have "mbf_wf i k'" by (rule stored_mbf_wf [OF inv i(2) k'(2)])
    then show ?thesis using k'(3) i(1) s(9) by (simp add: mbf_ok_def)
  next
    case False
    then have "que k (SmbfQ i) = []" by (rule w(8))
    then have "k' = k" using k'(1) by (subst (asm) mbf_wakeup.simps) simp
    then show ?thesis using i k'(3) by (simp add: mbf_ok_def)
  qed
  then have "mbf_inv k'" by (rule stored_mbf_inv [OF inv k'(2) _ others pool])
  with k' show thesis by (intro that)
qed

lemma mbf_chg_pri_stored:
  assumes inv: "kinv {} k" "mbf_inv k" and t: "t \<in> set (que k (SmbfQ i))" and i: "i < nat (max_mbfid k)"
    and tpri: "mbfatr (mbf k i) AND TA_TPRI \<noteq> 0" and p: "p < NUM_PRI"
  obtains k' where "mbf_chg_pri t (int old) (set_priority t p k) = Some k'" "pri_changed k k'" "mbf_inv k'"
    "\<And>u. core (tcb k' u) = core (tcb (set_priority t p k) u)"
    "\<And>h. \<not> rdyq h \<Longrightarrow> h \<noteq> SmbfQ i \<Longrightarrow> que k' h = que k h"
    "objs k' = objs (upd_mbf i (\<lambda>_. mbf k' i) k)"
proof -
  let ?k1 = "set_priority t p k" and ?k2 = "gcb_change_priority (SmbfQ i) t (set_priority t p k)"
  have t': "t \<in> set (que k (SmbfQ i)) \<or> t \<in> set (que k (RmbfQ i))" using t by simp
  note w = mbf_waiter [OF inv t' i]
  note live = mbf_inv_live [OF inv(2) i w(1)] and wf = mbf_wfD [OF mbf_inv_live(2) [OF inv(2) i w(1)]]
  note g = wq_chg_pri [OF inv(1) t _ _ p wf(1) tpri, simplified]
  have pc: "pri_changed k ?k2" by (rule pri_changed_reorder [OF inv(1) t _ _ p]) simp_all
  have ne: "que k (RmbfQ i) = []" using wf(8) t by (cases "que k (RmbfQ i)") auto
  have sz: "smbf_size ?k2 u = smbf_size k u" for u by (simp add: smbf_size_def)
  have "mbf_wf i ?k2"
    using g(2,3) wf(3-6) ne g(4) [of "RmbfQ i"] by (simp add: mbf_wf_def sz)
  moreover have "mbf_ok j ?k2" if "j \<noteq> i" "j < nat (max_mbfid k)" for j
  proof -
    have "same_tcb (tcb ?k2 u) (tcb k u)" if "u \<noteq> t" for u using that by (simp add: same_tcb_def)
    moreover have "t \<notin> set (que k (SmbfQ j))" "t \<notin> set (que k (RmbfQ j))"
      using disjoint_queuesD [OF kinvD(6) [OF inv(1)] t] that(1) by simp_all
    ultimately have "mbf_ok j ?k2 = mbf_ok j k" using g(4) that(1) by (intro mbf_ok_cong) auto
    then show ?thesis using mbf_inv_ok [OF inv(2) that(2)] by simp
  qed
  ultimately obtain k' ms where k': "mbf_wakeup i ?k2 = Some k'" "mbf_inv k'" "stored i ms (accepted i ?k2) ?k2 k'"
    using mbf_wakeup_inv [OF g(1), of i] w(1) mbf_inv_pool [OF inv(2)] by auto
  note d = storedD [OF k'(3)] and s = stored_sel [OF k'(3)]
  have sub: "set (accepted i ?k2) \<subseteq> set (que ?k2 (SmbfQ i))" by (simp add: d(5))
  show thesis
  proof (rule that [OF _ _ k'(2)])
    show "mbf_chg_pri t (int old) ?k1 = Some k'" using k'(1) w(2) by (simp add: mbf_chg_pri_def)
    show "pri_changed k k'"
      by (rule pri_changed_trans [OF pc pri_changed_released [OF g(1) d(1) sub]]) (simp_all add: s(6))
    show "core (tcb k' u) = core (tcb ?k1 u)" for u using releasedD(6) [OF d(1), of u] by simp
    show "que k' h = que k h" if "\<not> rdyq h" "h \<noteq> SmbfQ i" for h
      using released_other [OF g(1) d(1) sub that(2,1)] g(4) [OF that(2)] by simp
    show "objs k' = objs (upd_mbf i (\<lambda>_. mbf k' i) k)" using d(4) by simp
  qed
qed

lemma released_mbf_wf:
  assumes wf: "mbf_wf i k" and r: "released T e k k'" and ob: "mbf k' i = mbf k i"
  shows "mbf_wf i k'"
proof -
  note w = mbf_wfD [OF wf]
  have q: "que k' (SmbfQ i) = filter (\<lambda>u. u \<notin> T) (que k (SmbfQ i))" "que k' (RmbfQ i) = filter (\<lambda>u. u \<notin> T) (que k (RmbfQ i))"
    by (rule releasedD(9) [OF r], simp)+
  have s: "smbf_size k' t = smbf_size k t" for t by (rule smbf_size_cong) (rule core_eqD [OF releasedD(6) [OF r]])
  show ?thesis
    using wq_ok_released [OF w(1) r] wq_ok_released [OF w(2) r] w(3-8) by (cases "que k (RmbfQ i)") (auto simp: mbf_wf_def ob q s)
qed

text \<open>Releasing tasks that are not waiting to send.\<close>

lemma released_mbf_inv:
  assumes inv: "mbf_inv k" and r: "released T e k k'" and T: "\<And>i. T \<inter> set (que k (SmbfQ i)) = {}"
    and ob: "mbfcb_table k' = mbfcb_table k" "free_mbfcb k' = free_mbfcb k" "max_mbfid k' = max_mbfid k"
  shows "mbf_inv k'"
proof -
  have q: "que k' (SmbfQ i) = que k (SmbfQ i)" for i
    using releasedD(9) [OF r, of "SmbfQ i"] T [of i] by (auto simp: filter_id_conv)
  have q': "que k' (RmbfQ i) = filter (\<lambda>u. u \<notin> T) (que k (RmbfQ i))" for i by (rule releasedD(9) [OF r]) simp
  have s: "smbf_size k' t = smbf_size k t" for t by (rule smbf_size_cong) (rule core_eqD [OF releasedD(6) [OF r]])
  have "mbf_ok i k'" if "i < nat (max_mbfid k)" for i
    using mbf_inv_ok [OF inv that] released_mbf_wf [OF _ r, of i] by (auto simp: mbf_ok_def mbf_blocked_def ob q q' s)
  then show ?thesis using inv by (simp add: mbf_inv_def ob)
qed

text \<open>Releasing one sender, from outside: the hook then lets others go on.\<close>

lemma mbf_rel_wai_stored:
  assumes inv: "kinv {} k" "mbf_inv k" and t: "t \<in> set (que k (SmbfQ i))" and i: "i < nat (max_mbfid k)"
  obtains k' ms where "mbf_rel_wai t (wait_release t k) = Some k'" "mbf_inv k'"
    "stored i ms (accepted i (wait_release t k)) (wait_release t k) k'"
proof -
  let ?k = "wait_release t k"
  have t': "t \<in> set (que k (SmbfQ i)) \<or> t \<in> set (que k (RmbfQ i))" using t by simp
  note w = mbf_waiter [OF inv t' i]
  have r: "released {t} (wercd (tcb k t)) k ?k" by (rule released_wait_release [OF inv(1) w(3,4)])
  have "mbf_wf i ?k" by (rule released_mbf_wf [OF mbf_inv_live(2) [OF inv(2) i w(1)] r]) simp
  moreover have "mbf_ok j ?k" if "j \<noteq> i" "j < nat (max_mbfid k)" for j
  proof -
    have "que ?k (SmbfQ j) = que k (SmbfQ j)" "que ?k (RmbfQ j) = que k (RmbfQ j)"
      using released_other [OF inv(1) r, of "SmbfQ i"] t that(1) by simp_all
    then have "mbf_ok j ?k = mbf_ok j k" by (intro mbf_ok_cong) (simp_all add: released_same [OF r])
    then show ?thesis using mbf_inv_ok [OF inv(2) that(2)] by simp
  qed
  ultimately obtain k' ms where k': "mbf_wakeup i ?k = Some k'" "mbf_inv k'" "stored i ms (accepted i ?k) ?k k'"
    using mbf_wakeup_inv [OF releasedD(1) [OF r], of i] w(1) mbf_inv_pool [OF inv(2)] by auto
  moreover have "mbf_rel_wai t ?k = Some k'"
    using k'(1) w(2) by (simp add: mbf_rel_wai_def mbf_chg_pri_def)
  ultimately show thesis by (intro that)
qed

subsection \<open>Sending\<close>

definition mbf_snd_error :: "ID \<Rightarrow> int \<Rightarrow> D \<Rightarrow> kernel \<Rightarrow> ER option" where
  "mbf_snd_error oid msgsz tmout k =
     (let c = mbf k (get_mbfcb oid)
      in first_error [CHECK_MBFID oid k, CHECK_PAR (0 < msgsz), CHECK_TMOUT tmout, CHECK_DISPATCH_POL tmout k,
           CHECK (mbfid c \<noteq> 0) E_NOEXS, CHECK (msgsz \<le> maxmsz c) E_PAR,
           CHECK (in_indp k \<or> \<not> is_diswai (mbfatr c) (tcb k (self k)) TTW_SMBF) E_DISWAI])"

lemma tk_snd_mbf_u_error:
  assumes "mbf_snd_error oid n tmout k = Some e"
  shows "\<exists>k'. tk_snd_mbf_u oid msg n tmout k = Some (e, k') \<and> k' \<in> {k, END_CRITICAL_SECTION k}"
  using assms
  by (auto simp: mbf_snd_error_def tk_snd_mbf_u_def checked_opt_def Let_def CHECK_def split: option.splits if_splits)

lemma mbf_snd_okD:
  assumes "mbf_snd_error oid n tmout k = None"
  shows "CHECK_MBFID oid k = None" "0 < n" "mbfid (mbf k (get_mbfcb oid)) \<noteq> 0" "n \<le> maxmsz (mbf k (get_mbfcb oid))"
    "tmout = TMO_POL \<or> \<not> in_ddsp k"
    "in_indp k \<or> \<not> is_diswai (mbfatr (mbf k (get_mbfcb oid))) (tcb k (self k)) TTW_SMBF"
    "first_error [CHECK_MBFID oid k, CHECK_PAR (0 < n), CHECK_TMOUT tmout, CHECK_DISPATCH_POL tmout k] = None"
  using assms
  by (simp_all add: mbf_snd_error_def Let_def first_error_None_iff CHECK_PAR_def CHECK_DISPATCH_POL_def del: first_error.simps)

definition smbf_wait_state :: "nat \<Rightarrow> nat \<Rightarrow> int \<Rightarrow> kernel \<Rightarrow> kernel" where
  "smbf_wait_state i msg n k =
     upd_tcb (self k) (\<lambda>tc. tc\<lparr>wspec := smbf_wspec (mbfatr (mbf k i)), wercd := E_TMOUT, winfo := WINFO_SMBF msg n\<rparr>) k"

text \<open>Whether no waiting sender goes first.\<close>

definition mbf_first :: "nat \<Rightarrow> kernel \<Rightarrow> bool" where
  "mbf_first i k \<longleftrightarrow> in_indp k \<or> gcb_top_of_wait_queue (SmbfQ i) (mbfatr (mbf k i)) (self k) k = self k"

lemma tk_snd_mbf_u_eq:
  assumes ok: "mbf_snd_error oid n tmout k = None" and i: "i = get_mbfcb oid"
  shows "tk_snd_mbf_u oid msg n tmout k =
    (case que k (RmbfQ i) of
       r # _ \<Rightarrow> Some (E_OK, END_CRITICAL_SECTION (mbf_hand_over r msg n k))
     | [] \<Rightarrow>
         if mbf_first i k \<and> mbf_free (mbf k i) n
         then map_option (\<lambda>c. (E_OK, END_CRITICAL_SECTION (upd_mbf i (\<lambda>_. c) k))) (msg_to_mbf (mem_byte k) msg n (mbf k i))
         else if tmout = TMO_POL then Some (E_TMOUT, END_CRITICAL_SECTION k)
         else
           let k' = gcb_make_wait_with_diswai (SmbfQ i) (mbfid (mbf k i)) (mbfatr (mbf k i)) tmout (smbf_wait_state i msg n k)
           in Some (wercd (tcb k' (self k)), END_CRITICAL_SECTION k'))"
proof -
  note d = mbf_snd_okD [OF ok, folded i]
  have c: "(mbfid (mbf k i) = 0) = False" "(maxmsz (mbf k i) < n) = False"
    "(\<not> in_indp k \<and> is_diswai (mbfatr (mbf k i)) (tcb k (self k)) TTW_SMBF) = False"
    using d(3,4,6) by auto
  show ?thesis
    unfolding tk_snd_mbf_u_def checked_opt_def d(7) option.case i [symmetric] Let_def c if_False mbf_first_def
      smbf_wait_state_def smbf_wspec_def
    by (rule refl)
qed

lemma mbf_hand_over_inv:
  assumes inv: "kinv {} k" "mbf_inv k" and r: "r \<in> set (que k (RmbfQ i))"
  shows "released {r} E_OK k (mbf_hand_over r msg n k)" "mbf_inv (mbf_hand_over r msg n k)"
    "mem_byte (mbf_hand_over r msg n k) = memcpy (mem_byte k) msg (mem_byte k) (rmbf_msg (winfo (tcb k r))) (nat n)"
    "mem_int (mbf_hand_over r msg n k) = (mem_int k)(rmbf_p_msgsz (winfo (tcb k r)) := n)"
    "mbf (mbf_hand_over r msg n k) = mbf k"
proof -
  let ?m = "k\<lparr>mem_byte := memcpy (mem_byte k) msg (mem_byte k) (rmbf_msg (winfo (tcb k r))) (nat n),
      mem_int := (mem_int k)(rmbf_p_msgsz (winfo (tcb k r)) := n)\<rparr>"
  have eq: "mbf_hand_over r msg n k = wait_release_ok r ?m" by (simp add: mbf_hand_over_def)
  have w: "r < NUM_TSKID k" "ts_wait (state (tcb k r))" using kinv_waiter [OF inv(1) r] by simp_all
  have N: "NUM_TSKID ?m = NUM_TSKID k" by (simp add: NUM_TSKID_def)
  have kv: "kinv {} ?m" using kinv_mem_int [OF kinv_mem_byte [OF inv(1)]] by simp
  have "released {r} E_OK ?m (mbf_hand_over r msg n k)"
    using released_single [OF kv, of r E_OK] w by (simp add: N wait_release_ok_def eq)
  then show rel: "released {r} E_OK k (mbf_hand_over r msg n k)" using N unfolding released_def by simp
  have ob: "objs (mbf_hand_over r msg n k) = objs ?m" by (simp add: eq)
  note o = objs_eqD [OF ob, simplified]
  show "mem_byte (mbf_hand_over r msg n k) = memcpy (mem_byte k) msg (mem_byte k) (rmbf_msg (winfo (tcb k r))) (nat n)"
    "mem_int (mbf_hand_over r msg n k) = (mem_int k)(rmbf_p_msgsz (winfo (tcb k r)) := n)"
    "mbf (mbf_hand_over r msg n k) = mbf k" using o by simp_all
  have "{r} \<inter> set (que k (SmbfQ j)) = {}" for j
    using disjoint_queuesD [OF kinvD(6) [OF inv(1)] r, of "SmbfQ j"] by simp
  then show "mbf_inv (mbf_hand_over r msg n k)" by (rule released_mbf_inv [OF inv(2) rel]) (use o in simp_all)
qed

lemma mbf_store_inv:
  assumes inv: "mbf_inv k" and i: "i < nat (max_mbfid k)" "mbfid (mbf k i) \<noteq> 0" and r: "que k (RmbfQ i) = []"
    and n: "0 < n" "n \<le> maxmsz (mbf k i)" "mbf_free (mbf k i) n" and rep: "ring_rep (mbf k i) ms"
  obtains c where "msg_to_mbf (mem_byte k) msg n (mbf k i) = Some c" "mbf_inv (upd_mbf i (\<lambda>_. c) k)"
    "ring_rep c (ms @ [msg_bytes (mem_byte k) msg n])"
proof -
  note live = mbf_inv_live [OF inv i] and w = mbf_wfD [OF mbf_inv_live(2) [OF inv i]]
  have n2: "n < 2 ^ 31" using n(2) w(4) by simp
  have "slot (nat n) \<le> nat (frbufsz (mbf k i))" "0 < nat n" using ring.fits [OF rep n(1) n2] n by simp_all
  then obtain c where c: "msg_to_mbf (mem_byte k) msg n (mbf k i) = Some c"
      "ring_rep c (ms @ [msg_bytes (mem_byte k) msg n])" "frbufsz c = frbufsz (mbf k i) - int (slot (nat n))"
      "c = (mbf k i)\<lparr>frbufsz := frbufsz c, mbf_tail := mbf_tail c, mbf_buffer := mbf_buffer c\<rparr>"
    using ring_put [OF rep, of "nat n" "mem_byte k" msg] n(1) by (metis int_nat_eq less_imp_le)
  let ?k = "upd_mbf i (\<lambda>_. c) k"
  have s: "mbfid c = mbfid (mbf k i)" "mbfatr c = mbfatr (mbf k i)" "maxmsz c = maxmsz (mbf k i)"
    by (subst c(4), simp)+
  have sz: "smbf_size ?k t = smbf_size k t" for t by (simp add: smbf_size_def)
  have wq: "wq_ok h a d ws ?k = wq_ok h a d ws k" for h a d ws by (simp add: wq_ok_def)
  have "\<not> mbf_free c (smbf_size k t)" if "t \<in> set (que k (SmbfQ i))" "\<not> mbf_free (mbf k i) (smbf_size k t)" for t
    using that w(5,6) [OF that(1)] w(4) ring.fits [OF rep, of "smbf_size k t"] ring.fits [OF c(2), of "smbf_size k t"] c(3)
    by simp
  then have "mbf_blocked i ?k" using live(3) by (auto simp: mbf_blocked_def sz)
  moreover have "mbf_wf i ?k" using w c(2) r by (auto simp: mbf_wf_def wq s sz)
  ultimately have "mbf_ok i ?k" using i(2) by (simp add: mbf_ok_def s)
  moreover have "(\<lambda>j. mbfid (mbf ?k j)) = (\<lambda>j. mbfid (mbf k j))" by (auto simp: fun_eq_iff s)
  ultimately have "mbf_inv ?k"
    using mbf_inv_pool [OF inv] by (intro mbf_inv_one [OF inv, of i]) (simp_all add: same_tcb_def)
  with c show thesis by (intro that)
qed

lemma smbf_wait_inv:
  assumes sys: "mbf_sys k" and ok: "mbf_snd_error oid n tmout k = None" and i: "i = get_mbfcb oid"
    and r: "que k (RmbfQ i) = []" and no: "\<not> (mbf_first i k \<and> mbf_free (mbf k i) n)" and tm: "tmout \<noteq> TMO_POL"
    and k': "k' = gcb_make_wait_with_diswai (SmbfQ i) (mbfid (mbf k i)) (mbfatr (mbf k i)) tmout (smbf_wait_state i msg n k)"
  shows "task_waits (SmbfQ i) (smbf_wspec (mbfatr (mbf k i))) (WINFO_SMBF msg n) (mbfid (mbf k i)) (mbfatr (mbf k i)) k k'"
    "mbf_inv k'"
proof -
  let ?atr = "mbfatr (mbf k i)" and ?t = "self k"
  note d = mbf_snd_okD [OF ok, folded i]
  have il: "i < nat (max_mbfid k)" using CHECK_MBFID_index [OF d(1)] by (simp add: i)
  note inv = mbf_sysD(2,3) [OF sys] and live = mbf_inv_live [OF mbf_sysD(3) [OF sys] il d(3)]
  note w = mbf_wfD [OF live(2)]
  have nd: "\<not> in_ddsp k" using d(5) tm by simp
  note run = kernel_ok_self [OF mbf_sysD(1) [OF sys] nd]
  have ni: "\<not> in_indp k" using nd by (auto simp: in_ddsp_def)
  have home: "wait_home (smbf_wspec ?atr) (mbfid (mbf k i)) = Some (SmbfQ i)" using live(1) by simp
  show wt: "task_waits (SmbfQ i) (smbf_wspec ?atr) (WINFO_SMBF msg n) (mbfid (mbf k i)) ?atr k k'"
    unfolding k' by (rule gcb_wait_waits [OF inv(1) run(2,3) home _ smbf_wait_state_def]) (use d(6) ni tm in simp_all)
  note td = task_waitsD [OF wt]
  note ob = objs_eqD [OF td(2)]
  have q: "que k' h = (if h = SmbfQ i then wait_insert k ?atr ?t (que k (SmbfQ i)) else que k h)" if "\<not> rdyq h" for h
    using td(13) [OF that] .
  have own: "smbf_size k' ?t = n" using td(5) by (simp add: smbf_size_def)
  have other: "smbf_size k' u = smbf_size k u" if "u \<in> set (que k (SmbfQ i))" for u
    using td(11) [of u] self_notin [OF inv(1) run(3) _ that] by (simp add: smbf_size_def same_tcb_def)
  have "wq_ok (RmbfQ i) 0 (mbfid (mbf k i)) WSPEC_RMBF k'" by (rule wq_ok_empty) (simp add: q r)
  moreover have "0 < smbf_size k' u \<and> smbf_size k' u \<le> maxmsz (mbf k i)"
    if "u = ?t \<or> u \<in> set (que k (SmbfQ i))" for u
    using that own other w(5,6) d(2,4) by auto
  ultimately have "mbf_wf i k'"
    using wq_ok_waits [OF wt w(1)] w(3,4) r by (simp add: mbf_wf_def ob q)
  moreover have "mbf_blocked i k'"
  proof -
    let ?h = "hd (wait_insert k ?atr ?t (que k (SmbfQ i)))"
    have "\<not> mbf_free (mbf k i) (smbf_size k' ?h)"
    proof (cases "?h = ?t")
      case True
      have "que k (SmbfQ i) = [] \<or> (?atr AND TA_TPRI \<noteq> 0 \<and> priority (tcb k ?t) < priority (tcb k (hd (que k (SmbfQ i)))))"
        using True self_notin [OF inv(1) run(3), of "SmbfQ i" "hd (que k (SmbfQ i))"]
        by (cases "que k (SmbfQ i)") (auto simp: wait_insert_def split: if_splits)
      then have "mbf_first i k" by (simp add: mbf_first_def gcb_top_hd)
      with no show ?thesis by (simp only: True own) simp
    next
      case False
      then have h: "?h = hd (que k (SmbfQ i))" "que k (SmbfQ i) \<noteq> []" using wait_insert_hd [of k ?atr ?t "que k (SmbfQ i)"] by auto
      then show ?thesis using live(3) other [of ?h] by (simp add: mbf_blocked_def)
    qed
    then show ?thesis by (simp add: mbf_blocked_def ob q)
  qed
  ultimately have "mbf_ok i k'" using d(3) by (simp add: mbf_ok_def ob)
  moreover have "same_tcb (tcb k' t) (tcb k t)" if "t \<in> set (que k (SmbfQ j)) \<union> set (que k (RmbfQ j))" for j t
  proof -
    have "t \<noteq> ?t" using that self_notin [OF inv(1) run(3), of "SmbfQ j" t] self_notin [OF inv(1) run(3), of "RmbfQ j" t] by auto
    then show ?thesis by (rule td(11))
  qed
  ultimately show "mbf_inv k'"
    using mbf_inv_pool [OF inv(2)] by (intro mbf_inv_one [OF inv(2), of i]) (simp_all add: ob q)
qed

text \<open>What a send does, on every branch.\<close>

definition mbf_unchanged :: "kernel \<Rightarrow> kernel \<Rightarrow> bool" where
  "mbf_unchanged k k' \<longleftrightarrow> tcb_table k' = tcb_table k \<and> que k' = que k \<and> mbfcb_table k' = mbfcb_table k \<and>
     mem_byte k' = mem_byte k \<and> mem_int k' = mem_int k"

lemma mbf_unchanged_quiet: "k' \<in> {k, END_CRITICAL_SECTION k} \<Longrightarrow> mbf_unchanged k k'"
  by (auto simp: mbf_unchanged_def)

definition mbf_handed :: "nat \<Rightarrow> nat \<Rightarrow> int \<Rightarrow> kernel \<Rightarrow> kernel \<Rightarrow> bool" where
  "mbf_handed i msg n k k' \<longleftrightarrow>
     (let r = hd (que k (RmbfQ i))
      in \<not> ts_wait (state (tcb k' r)) \<and> wercd (tcb k' r) = E_OK \<and> que k' (RmbfQ i) = tl (que k (RmbfQ i)) \<and>
         msg_bytes (mem_byte k') (rmbf_msg (winfo (tcb k r))) n = msg_bytes (mem_byte k) msg n \<and>
         mem_int k' (rmbf_p_msgsz (winfo (tcb k r))) = n \<and>
         (\<forall>u. u \<noteq> r \<longrightarrow> state (tcb k' u) = state (tcb k u)) \<and> mbfcb_table k' = mbfcb_table k)"

lemma mbf_hand_over_handed:
  assumes inv: "kinv {} k" "mbf_inv k" and q: "que k (RmbfQ i) = r # rs"
  shows "mbf_handed i msg n k (END_CRITICAL_SECTION (mbf_hand_over r msg n k))"
proof -
  have r: "r \<in> set (que k (RmbfQ i))" by (simp add: q)
  note h = mbf_hand_over_inv [OF inv r, of msg n] and rd = releasedD [OF mbf_hand_over_inv(1) [OF inv r, of msg n]]
  have "r \<notin> set rs" using qinv_distinct [OF kinvD(1) [OF inv(1)], of "RmbfQ i"] q by simp
  then have "filter (\<lambda>u. u \<noteq> r) rs = rs" by (auto simp: filter_id_conv)
  then have "que (mbf_hand_over r msg n k) (RmbfQ i) = rs" using rd(9) [of "RmbfQ i"] q by simp
  moreover have "\<not> ts_wait (state (tcb (mbf_hand_over r msg n k) r))" using rd(8) [of r] by simp
  ultimately show ?thesis using h(3-5) rd(7) [of r] rd(8) q by (simp add: mbf_handed_def)
qed

lemma mbf_snd_cases:
  assumes sys: "mbf_sys k" and i: "i = get_mbfcb oid" and ok: "mbf_snd_error oid n tmout k = None"
    and rep: "ring_rep (mbf k i) ms"
  shows "\<exists>r k'. tk_snd_mbf_u oid msg n tmout k = Some (r, k') \<and> mbf_sys k' \<and>
    (if que k (RmbfQ i) \<noteq> [] then r = E_OK \<and> mbf_handed i msg n k k'
     else if mbf_first i k \<and> mbf_free (mbf k i) n
     then r = E_OK \<and> ring_rep (mbf k' i) (ms @ [msg_bytes (mem_byte k) msg n]) \<and> tcb_table k' = tcb_table k \<and> que k' = que k
     else r = E_TMOUT \<and>
       (if tmout = TMO_POL then mbf_unchanged k k'
        else state (tcb k' (self k)) = TS_WAIT \<and> smbf_bytes k' (self k) = msg_bytes (mem_byte k) msg n \<and>
          que k' (SmbfQ i) = wait_insert k (mbfatr (mbf k i)) (self k) (que k (SmbfQ i)) \<and>
          mbfcb_table k' = mbfcb_table k \<and> (\<forall>u. u \<noteq> self k \<longrightarrow> state (tcb k' u) = state (tcb k u))))"
proof (cases "que k (RmbfQ i)")
  case (Cons r rs)
  have r: "r \<in> set (que k (RmbfQ i))" by (simp add: Cons)
  note h = mbf_hand_over_inv [OF mbf_sysD(2,3) [OF sys] r, of msg n]
  show ?thesis
    using mbf_hand_over_handed [OF mbf_sysD(2,3) [OF sys] Cons, of msg n] mbf_sysI [OF releasedD(1) [OF h(1)] h(2)] Cons
    by (simp add: tk_snd_mbf_u_eq [OF ok i])
next
  case Nil
  note d = mbf_snd_okD [OF ok, folded i]
  have il: "i < nat (max_mbfid k)" using CHECK_MBFID_index [OF d(1)] by (simp add: i)
  show ?thesis
  proof (cases "mbf_first i k \<and> mbf_free (mbf k i) n")
    case True
    obtain c where c: "msg_to_mbf (mem_byte k) msg n (mbf k i) = Some c" "mbf_inv (upd_mbf i (\<lambda>_. c) k)"
        "ring_rep c (ms @ [msg_bytes (mem_byte k) msg n])"
      by (rule mbf_store_inv [OF mbf_sysD(3) [OF sys] il d(3) Nil d(2,4) _ rep]) (use True in simp)
    then show ?thesis
      using True Nil mbf_sysI [OF kinv_upd_mbf [OF mbf_sysD(2) [OF sys]] c(2)] by (simp add: tk_snd_mbf_u_eq [OF ok i])
  next
    case no: False
    show ?thesis
    proof (cases "tmout = TMO_POL")
      case True
      have "mbf_sys (END_CRITICAL_SECTION k)" "mbf_unchanged k (END_CRITICAL_SECTION k)"
        by (rule mbf_sys_quiet [OF sys], simp, rule mbf_unchanged_quiet, simp)
      then show ?thesis using Nil no tk_snd_mbf_u_eq [OF ok i, of msg] by (auto simp: True)
    next
      case False
      define k' where k': "k' = gcb_make_wait_with_diswai (SmbfQ i) (mbfid (mbf k i)) (mbfatr (mbf k i)) tmout (smbf_wait_state i msg n k)"
      note w = smbf_wait_inv [OF sys ok i Nil no False k']
      note td = task_waitsD [OF w(1)]
      have "tk_snd_mbf_u oid msg n tmout k = Some (E_TMOUT, END_CRITICAL_SECTION k')"
        using td(7) by (simp add: tk_snd_mbf_u_eq [OF ok i] Nil no False k' [symmetric])
      moreover have "smbf_bytes k' (self k) = msg_bytes (mem_byte k) msg n"
        by (simp add: smbf_bytes_def smbf_size_def td(5) objs_eqD [OF td(2)])
      ultimately show ?thesis
        using mbf_sysI [OF td(1) w(2)] td(3,12) td(13) [of "SmbfQ i"] objs_eqD(37) [OF td(2)] Nil no False
        by (simp add: smbf_bytes_def smbf_size_def)
    qed
  qed
qed

subsection \<open>Receiving\<close>

definition mbf_rcv_error :: "ID \<Rightarrow> D \<Rightarrow> kernel \<Rightarrow> ER option" where
  "mbf_rcv_error oid tmout k =
     (let c = mbf k (get_mbfcb oid)
      in first_error [CHECK_MBFID oid k, CHECK_TMOUT tmout, CHECK_DISPATCH k, CHECK (mbfid c \<noteq> 0) E_NOEXS,
           CHECK (\<not> is_diswai (mbfatr c) (tcb k (self k)) TTW_RMBF) E_DISWAI])"

lemma tk_rcv_mbf_u_error:
  assumes "mbf_rcv_error oid tmout k = Some e"
  shows "\<exists>k'. tk_rcv_mbf_u oid msg p tmout k = Some (e, k') \<and> k' \<in> {k, END_CRITICAL_SECTION k}"
  using assms
  by (auto simp: mbf_rcv_error_def tk_rcv_mbf_u_def checked_opt_def Let_def CHECK_def split: option.splits if_splits)

lemma mbf_rcv_okD:
  assumes "mbf_rcv_error oid tmout k = None"
  shows "CHECK_MBFID oid k = None" "CHECK_DISPATCH k = None" "mbfid (mbf k (get_mbfcb oid)) \<noteq> 0"
    "\<not> is_diswai (mbfatr (mbf k (get_mbfcb oid))) (tcb k (self k)) TTW_RMBF"
    "first_error [CHECK_MBFID oid k, CHECK_TMOUT tmout, CHECK_DISPATCH k] = None"
  using assms by (simp_all add: mbf_rcv_error_def Let_def first_error_None_iff del: first_error.simps)

definition rmbf_wait_state :: "ID \<Rightarrow> nat \<Rightarrow> nat \<Rightarrow> kernel \<Rightarrow> kernel" where
  "rmbf_wait_state oid msg p k =
     upd_tcb (self k) (\<lambda>tc. tc\<lparr>wspec := WSPEC_RMBF, wid := oid, wercd := E_TMOUT, winfo := WINFO_RMBF msg p\<rparr>) k"

lemma tk_rcv_mbf_u_eq:
  assumes ok: "mbf_rcv_error oid tmout k = None" and i: "i = get_mbfcb oid"
  shows "tk_rcv_mbf_u oid msg p tmout k =
    (if \<not> mbf_empty (mbf k i) then
       Option.bind (mbf_to_msg (mem_byte k) msg (mbf k i)) (\<lambda>(rcvsz, mem, c).
         map_option (\<lambda>k. (rcvsz, END_CRITICAL_SECTION k)) (mbf_wakeup i (upd_mbf i (\<lambda>_. c) (k\<lparr>mem_byte := mem\<rparr>))))
     else case que k (SmbfQ i) of
       s # _ \<Rightarrow> map_option (\<lambda>k'. (smbf_size k s, END_CRITICAL_SECTION k')) (mbf_wakeup i (mbf_take_over s msg k))
     | [] \<Rightarrow>
         if tmout = TMO_POL then Some (E_TMOUT, END_CRITICAL_SECTION k)
         else
           let k' = que_append (self k) (RmbfQ i) (make_wait tmout (mbfatr (mbf k i)) (rmbf_wait_state oid msg p k))
           in Some (wercd (tcb k' (self k)), END_CRITICAL_SECTION k'))"
proof -
  note d = mbf_rcv_okD [OF ok, folded i]
  have c: "(mbfid (mbf k i) = 0) = False" "is_diswai (mbfatr (mbf k i)) (tcb k (self k)) TTW_RMBF = False"
    using d(3,4) by auto
  show ?thesis
    unfolding tk_rcv_mbf_u_def checked_opt_def d(5) option.case i [symmetric] Let_def c if_False
      rmbf_wait_state_def smbf_size_def
    by (rule refl)
qed

text \<open>The receive buffer and the messages of the waiting senders do not overlap.\<close>

definition mbf_apart :: "nat \<Rightarrow> nat \<Rightarrow> int \<Rightarrow> kernel \<Rightarrow> bool" where
  "mbf_apart i msg n k \<longleftrightarrow>
     (\<forall>t \<in> set (que k (SmbfQ i)). let p = smbf_msg (winfo (tcb k t))
        in p + nat (smbf_size k t) \<le> msg \<or> msg + nat n \<le> p)"

lemma mbf_apart_bytes:
  assumes "mbf_apart i msg (int n) k" "mem_byte k' = memcpy src p (mem_byte k) msg n" "t \<in> set (que k (SmbfQ i))"
    "winfo (tcb k' t) = winfo (tcb k t)"
  shows "smbf_bytes k' t = smbf_bytes k t"
  using assms(1,3) unfolding smbf_bytes_def smbf_size_def assms(2,4)
  by (auto simp: mbf_apart_def Let_def smbf_size_def msg_bytes_def memcpy_def)

text \<open>
  The senders a receive lets go on: with messages in the ring those whose messages fit, in order, into what
  is free when the first message has left; with an empty ring the first sender, whose message is taken, and
  then those who fit into the empty ring.
\<close>

definition mbf_serves :: "nat \<Rightarrow> UB list list \<Rightarrow> kernel \<Rightarrow> tid list" where
  "mbf_serves i ms k =
     (let q = que k (SmbfQ i); size = nat (bufsz (mbf k i)); sz = (\<lambda>t. nat (smbf_size k t))
      in case ms of m # rest \<Rightarrow> fill (size - used rest) sz q | [] \<Rightarrow> take 1 q @ fill size sz (drop 1 q))"

definition mbf_received :: "nat \<Rightarrow> nat \<Rightarrow> UB list list \<Rightarrow> int \<Rightarrow> kernel \<Rightarrow> kernel \<Rightarrow> bool" where
  "mbf_received i msg ms r k k' \<longleftrightarrow>
     (let q = que k (SmbfQ i); m = hd (ms @ map (smbf_bytes k) q); ts = mbf_serves i ms k
      in r = int (length m) \<and> m \<noteq> [] \<and> mem_byte k' = memcpy (\<lambda>j. m ! j) 0 (mem_byte k) msg (length m) \<and>
        q = ts @ que k' (SmbfQ i) \<and>
        (\<forall>u. state (tcb k' u) = (if u \<in> set ts then if state (tcb k u) = TS_WAIT then TS_READY else TS_SUSPEND
           else state (tcb k u)) \<and> (u \<in> set ts \<longrightarrow> wercd (tcb k' u) = E_OK)) \<and>
        (\<exists>ms'. ring_rep (mbf k' i) ms' \<and>
          (mbf_apart i msg r k \<longrightarrow>
            m # ms' @ map (smbf_bytes k) (que k' (SmbfQ i)) = ms @ map (smbf_bytes k) q)))"

lemma mbf_wakeup_from:
  assumes inv: "kinv {} k" and i: "mbfid (mbf k i) \<noteq> 0" "mbf_wf i k"
    and others: "\<And>j. j \<noteq> i \<Longrightarrow> j < nat (max_mbfid k) \<Longrightarrow> mbf_ok j k"
    and pool: "pool_ok (free_mbfcb k) (\<lambda>i. mbfid (mbf k i)) (nat (max_mbfid k))" and rep: "ring_rep (mbf k i) ms"
  obtains k' where "mbf_wakeup i k = Some k'" "mbf_inv k'" "stored i ms (accepted i k) k k'"
proof -
  note w = mbf_wfD [OF i(2)]
  have sz: "0 < smbf_size k t \<and> smbf_size k t < 2 ^ 31" if "t \<in> set (que k (SmbfQ i))" for t
    using w(5,6) [OF that] w(4) by simp
  obtain k' where k': "mbf_wakeup i k = Some k'" "stored i ms (accepted i k) k k'"
    using mbf_wakeup_stored [OF inv rep sz] by blast
  moreover obtain k2 where "mbf_wakeup i k = Some k2" "mbf_inv k2"
    using mbf_wakeup_inv [OF inv i others pool] by blast
  ultimately show thesis by (intro that [of k']) simp_all
qed

lemma mbf_take_inv:
  assumes inv: "kinv {} k" "mbf_inv k" and i: "i < nat (max_mbfid k)" "mbfid (mbf k i) \<noteq> 0"
    and rep: "ring_rep (mbf k i) (m # ms)"
  obtains c mem k' where "mbf_to_msg (mem_byte k) msg (mbf k i) = Some (int (length m), mem, c)"
    "mbf_wakeup i (upd_mbf i (\<lambda>_. c) (k\<lparr>mem_byte := mem\<rparr>)) = Some k'" "kinv {} k'" "mbf_inv k'"
    "mbf_received i msg (m # ms) (int (length m)) k k'"
proof -
  let ?mem = "memcpy (\<lambda>j. m ! j) 0 (mem_byte k) msg (length m)"
  note live = mbf_inv_live [OF inv(2) i] and w = mbf_wfD [OF mbf_inv_live(2) [OF inv(2) i]]
  obtain c where c: "mbf_to_msg (mem_byte k) msg (mbf k i) = Some (int (length m), ?mem, c)" "ring_rep c ms"
      "c = (mbf k i)\<lparr>frbufsz := frbufsz c, mbf_head := mbf_head c\<rparr>"
    by (rule ring_get [OF rep])
  let ?k = "upd_mbf i (\<lambda>_. c) (k\<lparr>mem_byte := ?mem\<rparr>)"
  have s: "mbfid c = mbfid (mbf k i)" "mbfatr c = mbfatr (mbf k i)" "maxmsz c = maxmsz (mbf k i)" "bufsz c = bufsz (mbf k i)"
    by (subst c(3), simp)+
  have e: "que k (RmbfQ i) = []" using w(7) ring.emp [OF rep] by auto
  have sz: "smbf_size ?k t = smbf_size k t" for t by (simp add: smbf_size_def)
  have wq: "wq_ok h a d ws ?k = wq_ok h a d ws k" for h a d ws by (simp add: wq_ok_def)
  have wf: "mbf_wf i ?k" using w c(2) e by (auto simp: mbf_wf_def wq s sz)
  have oth: "mbf_ok j ?k" if "j \<noteq> i" "j < nat (max_mbfid k)" for j
  proof -
    have "mbf_ok j ?k = mbf_ok j k" using that(1) by (intro mbf_ok_cong) (simp_all add: same_tcb_def)
    then show ?thesis using mbf_inv_ok [OF inv(2) that(2)] by simp
  qed
  have ids: "(\<lambda>j. mbfid (mbf ?k j)) = (\<lambda>j. mbfid (mbf k j))" by (auto simp: fun_eq_iff s)
  have kv: "kinv {} ?k" by (intro kinv_upd_mbf kinv_mem_byte inv(1))
  have pool: "pool_ok (free_mbfcb ?k) (\<lambda>i. mbfid (mbf ?k i)) (nat (max_mbfid ?k))"
    unfolding ids using mbf_inv_pool [OF inv(2)] by simp
  let ?ts = "accepted i ?k"
  obtain k' where k': "mbf_wakeup i ?k = Some k'" "mbf_inv k'" "stored i ms ?ts ?k k'"
    by (rule mbf_wakeup_from [OF kv _ wf _ pool]) (use i(2) s oth c(2) in auto)
  have "frbufsz c = bufsz (mbf k i) - int (used ms)" "int (used ms) \<le> bufsz (mbf k i)" using c(2) s by (simp_all add: ring_rep_def)
  then have "nat (frbufsz c) = nat (bufsz (mbf k i)) - used ms" by linarith
  then have ts: "mbf_serves i (m # ms) k = ?ts" by (simp add: mbf_serves_def accepted_def sz)
  note d = storedD [OF k'(3)] and st = stored_sel [OF k'(3)] and rd = releasedD [OF storedD(1) [OF k'(3)]]
  have q: "que k (SmbfQ i) = ?ts @ que k' (SmbfQ i)" using d(5) by simp
  have "mbf_received i msg (m # ms) (int (length m)) k k'"
    unfolding mbf_received_def Let_def ts append_Cons list.sel
  proof (intro exI conjI impI)
    show "m \<noteq> []" using rep by (auto simp: ring_rep_def)
    show "mem_byte k' = memcpy (\<lambda>j. m ! j) 0 (mem_byte k) msg (length m)" by (simp add: st(2))
    show "\<forall>u. state (tcb k' u) = (if u \<in> set ?ts then if state (tcb k u) = TS_WAIT then TS_READY else TS_SUSPEND
           else state (tcb k u)) \<and> (u \<in> set ?ts \<longrightarrow> wercd (tcb k' u) = E_OK)" using rd(7,8) by simp
    show "m # (ms @ map (smbf_bytes ?k) ?ts) @ map (smbf_bytes k) (que k' (SmbfQ i)) =
        m # ms @ map (smbf_bytes k) (que k (SmbfQ i))" if "mbf_apart i msg (int (length m)) k"
    proof -
      have "smbf_bytes ?k t = smbf_bytes k t" if "t \<in> set ?ts" for t
        by (rule mbf_apart_bytes [OF \<open>mbf_apart i msg (int (length m)) k\<close>]) (use that q in simp_all)
      then show ?thesis by (simp add: q)
    qed
  qed (use d(2) q in simp_all)
  with c(1) k' rd(1) show thesis by (intro that)
qed

lemma memcpy_msg_bytes: "memcpy (\<lambda>j. msg_bytes mem p n ! j) 0 dst d (nat n) = memcpy mem p dst d (nat n)"
  by (auto simp: memcpy_def fun_eq_iff)

lemma mbf_take_over_inv:
  assumes inv: "kinv {} k" "mbf_inv k" and i: "i < nat (max_mbfid k)" "mbfid (mbf k i) \<noteq> 0"
    and rep: "ring_rep (mbf k i) []" and q: "que k (SmbfQ i) = s # ss"
  obtains k' where "mbf_wakeup i (mbf_take_over s msg k) = Some k'" "kinv {} k'" "mbf_inv k'"
    "mbf_received i msg [] (smbf_size k s) k k'"
proof -
  let ?m = "k\<lparr>mem_byte := memcpy (mem_byte k) (smbf_msg (winfo (tcb k s))) (mem_byte k) msg (nat (smbf_size k s))\<rparr>"
  let ?k = "mbf_take_over s msg k"
  note live = mbf_inv_live [OF inv(2) i] and w = mbf_wfD [OF mbf_inv_live(2) [OF inv(2) i]]
  have eq: "?k = wait_release_ok s ?m" by (simp add: mbf_take_over_def smbf_size_def)
  have sq: "s \<in> set (que k (SmbfQ i))" by (simp add: q)
  have t: "s < NUM_TSKID k" "ts_wait (state (tcb k s))" using kinv_waiter [OF inv(1) sq] by simp_all
  have N: "NUM_TSKID ?m = NUM_TSKID k" by (simp add: NUM_TSKID_def)
  have "released {s} E_OK ?m ?k"
    using released_single [OF kinv_mem_byte [OF inv(1)], of s _ E_OK] t by (simp add: N wait_release_ok_def eq)
  then have r: "released {s} E_OK k ?k" using N unfolding released_def by simp
  have ob: "objs ?k = objs ?m" by (simp add: eq)
  note o = objs_eqD [OF ob, simplified]
  have e: "que k (RmbfQ i) = []" using w(8) q by (cases "que k (RmbfQ i)") auto
  have wf: "mbf_wf i ?k" by (rule released_mbf_wf [OF live(2) r]) (simp add: o)
  have oth: "mbf_ok j ?k" if "j \<noteq> i" "j < nat (max_mbfid k)" for j
  proof -
    have "que ?k (SmbfQ j) = que k (SmbfQ j)" "que ?k (RmbfQ j) = que k (RmbfQ j)"
      using released_other [OF inv(1) r, of "SmbfQ i"] sq that(1) by simp_all
    then have "mbf_ok j ?k = mbf_ok j k" by (intro mbf_ok_cong) (simp_all add: released_same [OF r] o)
    then show ?thesis using mbf_inv_ok [OF inv(2) that(2)] by simp
  qed
  have pool: "pool_ok (free_mbfcb ?k) (\<lambda>i. mbfid (mbf ?k i)) (nat (max_mbfid ?k))"
    using mbf_inv_pool [OF inv(2)] by (simp add: o)
  let ?ts = "accepted i ?k"
  obtain k' where k': "mbf_wakeup i ?k = Some k'" "mbf_inv k'" "stored i [] ?ts ?k k'"
    by (rule mbf_wakeup_from [OF releasedD(1) [OF r] _ wf _ pool]) (use i(2) oth rep in \<open>auto simp: o\<close>)
  note d = storedD [OF k'(3)] and st = stored_sel [OF k'(3)] and rd = releasedD [OF r]
  note rd' = releasedD [OF released_trans [OF r storedD(1) [OF k'(3)]]]
  have "s \<notin> set ss" using qinv_distinct [OF kinvD(1) [OF inv(1)], of "SmbfQ i"] q by simp
  then have "filter (\<lambda>u. u \<noteq> s) ss = ss" by (auto simp: filter_id_conv)
  then have ss: "que ?k (SmbfQ i) = ss" using rd(9) [of "SmbfQ i"] q by simp
  then have q': "ss = ?ts @ que k' (SmbfQ i)" using d(5) by simp
  have fr: "frbufsz (mbf k i) = bufsz (mbf k i)" using rep by (simp add: ring_rep_def)
  have "smbf_size ?k t = smbf_size k t" for t by (rule smbf_size_cong) (rule core_eqD [OF rd(6)])
  then have ts: "mbf_serves i [] k = s # ?ts" by (simp add: mbf_serves_def accepted_def q ss fr o)
  let ?b = "smbf_bytes k s"
  have n: "0 < smbf_size k s" by (rule w(5) [OF sq])
  have mem: "mem_byte ?k = memcpy (mem_byte k) (smbf_msg (winfo (tcb k s))) (mem_byte k) msg (nat (smbf_size k s))"
    by (simp add: o)
  have "mbf_received i msg [] (smbf_size k s) k k'"
    unfolding mbf_received_def Let_def ts append_Nil
  proof (intro exI conjI impI)
    have hd: "hd (map (smbf_bytes k) (que k (SmbfQ i))) = ?b" by (simp add: q)
    show "smbf_size k s = int (length (hd (map (smbf_bytes k) (que k (SmbfQ i)))))" "hd (map (smbf_bytes k) (que k (SmbfQ i))) \<noteq> []"
      unfolding hd using n by (simp_all add: smbf_bytes_def)
    show "mem_byte k' = memcpy (\<lambda>j. hd (map (smbf_bytes k) (que k (SmbfQ i))) ! j) 0 (mem_byte k) msg
        (length (hd (map (smbf_bytes k) (que k (SmbfQ i)))))"
      unfolding hd by (simp add: st(2) mem smbf_bytes_def memcpy_msg_bytes)
    show "que k (SmbfQ i) = (s # ?ts) @ que k' (SmbfQ i)" using q q' by simp
    show "\<forall>u. state (tcb k' u) = (if u \<in> set (s # ?ts) then if state (tcb k u) = TS_WAIT then TS_READY else TS_SUSPEND
           else state (tcb k u)) \<and> (u \<in> set (s # ?ts) \<longrightarrow> wercd (tcb k' u) = E_OK)" using rd'(7,8) by simp
    show "hd (map (smbf_bytes k) (que k (SmbfQ i))) # ([] @ map (smbf_bytes ?k) ?ts) @ map (smbf_bytes k) (que k' (SmbfQ i)) =
        map (smbf_bytes k) (que k (SmbfQ i))"
      if ap: "mbf_apart i msg (smbf_size k s) k"
    proof -
      have "smbf_bytes ?k t = smbf_bytes k t" if "t \<in> set ?ts" for t
      proof (rule mbf_apart_bytes [OF _ mem])
        show "mbf_apart i msg (int (nat (smbf_size k s))) k" using ap n by simp
        show "winfo (tcb ?k t) = winfo (tcb k t)" by (rule core_eqD [OF rd(6)])
      qed (use that q arg_cong [OF q', of set] in simp)
      then show ?thesis unfolding hd using q arg_cong [OF q', of "map (smbf_bytes k)"] by simp
    qed
  qed (use d(2) in simp)
  with k' releasedD(1) [OF d(1)] show thesis by (intro that)
qed

lemma rmbf_wait_inv:
  assumes sys: "mbf_sys k" and ok: "mbf_rcv_error oid tmout k = None" and i: "i = get_mbfcb oid"
    and e: "mbf_empty (mbf k i)" "que k (SmbfQ i) = []"
    and k': "k' = que_append (self k) (RmbfQ i) (make_wait tmout (mbfatr (mbf k i)) (rmbf_wait_state oid msg p k))"
  shows "task_waits (RmbfQ i) WSPEC_RMBF (WINFO_RMBF msg p) oid 0 k k'" "mbf_inv k'"
proof -
  let ?t = "self k"
  note d = mbf_rcv_okD [OF ok, folded i]
  have il: "i < nat (max_mbfid k)" "oid = ID_of i" using CHECK_MBFID_index [OF d(1)] by (simp_all add: i)
  note inv = mbf_sysD(2,3) [OF sys] and live = mbf_inv_live [OF mbf_sysD(3) [OF sys] il(1) d(3)]
  note w = mbf_wfD [OF live(2)]
  have run: "?t < NUM_TSKID k" "state (tcb k ?t) = TS_READY"
    using kernel_ok_dispatch [OF mbf_sysD(1) [OF sys] d(2)] by simp_all
  show wt: "task_waits (RmbfQ i) WSPEC_RMBF (WINFO_RMBF msg p) oid 0 k k'"
    unfolding k' by (rule plain_wait_waits [OF inv(1) run _ _ rmbf_wait_state_def]) (simp_all add: il)
  note td = task_waitsD [OF wt]
  note ob = objs_eqD [OF td(2)]
  have q: "que k' h = (if h = RmbfQ i then wait_insert k 0 ?t (que k (RmbfQ i)) else que k h)" if "\<not> rdyq h" for h
    using td(13) [OF that] .
  have "wq_ok (RmbfQ i) 0 (mbfid (mbf k i)) WSPEC_RMBF k'"
    using wq_ok_waits [OF wt] w(2) live(1) il(2) by (simp add: ID_of_def)
  moreover have "wq_ok (SmbfQ i) a b c k'" for a b c by (rule wq_ok_empty) (simp add: q e)
  ultimately have "mbf_wf i k'" using w(3,4) e by (simp add: mbf_wf_def ob q)
  moreover have "mbf_blocked i k'" by (simp add: mbf_blocked_def q e)
  ultimately have "mbf_ok i k'" using d(3) by (simp add: mbf_ok_def ob)
  moreover have "same_tcb (tcb k' t) (tcb k t)" if "t \<in> set (que k (SmbfQ j)) \<union> set (que k (RmbfQ j))" for j t
  proof -
    have "t \<noteq> ?t" using that self_notin [OF inv(1) run(2), of "SmbfQ j" t] self_notin [OF inv(1) run(2), of "RmbfQ j" t] by auto
    then show ?thesis by (rule td(11))
  qed
  ultimately show "mbf_inv k'"
    using mbf_inv_pool [OF inv(2)] by (intro mbf_inv_one [OF inv(2), of i]) (simp_all add: ob q)
qed

lemma mbf_rcv_cases:
  assumes sys: "mbf_sys k" and i: "i = get_mbfcb oid" and ok: "mbf_rcv_error oid tmout k = None"
    and rep: "ring_rep (mbf k i) ms"
  shows "\<exists>r k'. tk_rcv_mbf_u oid msg p tmout k = Some (r, k') \<and> mbf_sys k' \<and>
    (if ms \<noteq> [] \<or> que k (SmbfQ i) \<noteq> [] then mbf_received i msg ms r k k'
     else r = E_TMOUT \<and>
       (if tmout = TMO_POL then mbf_unchanged k k'
        else state (tcb k' (self k)) = TS_WAIT \<and> winfo (tcb k' (self k)) = WINFO_RMBF msg p \<and>
          que k' (RmbfQ i) = que k (RmbfQ i) @ [self k] \<and> mbfcb_table k' = mbfcb_table k \<and>
          (\<forall>u. u \<noteq> self k \<longrightarrow> state (tcb k' u) = state (tcb k u))))"
proof -
  note d = mbf_rcv_okD [OF ok, folded i] and inv = mbf_sysD(2,3) [OF sys]
  have il: "i < nat (max_mbfid k)" using CHECK_MBFID_index [OF d(1)] by (simp add: i)
  note eq = tk_rcv_mbf_u_eq [OF ok i, of msg p]
  have END: "mbf_received i msg ms r k (END_CRITICAL_SECTION k') \<longleftrightarrow> mbf_received i msg ms r k k'" for ms r k'
    by (simp add: mbf_received_def)
  show ?thesis
  proof (cases ms)
    case (Cons m ms')
    have ne: "\<not> mbf_empty (mbf k i)" using ring.emp [OF rep] Cons by simp
    obtain c mem k' where k': "mbf_to_msg (mem_byte k) msg (mbf k i) = Some (int (length m), mem, c)"
      "mbf_wakeup i (upd_mbf i (\<lambda>_. c) (k\<lparr>mem_byte := mem\<rparr>)) = Some k'" "kinv {} k'" "mbf_inv k'"
      "mbf_received i msg (m # ms') (int (length m)) k k'"
      by (rule mbf_take_inv [OF inv il d(3) rep [unfolded Cons]])
    show ?thesis using eq ne k'(1,2,5) mbf_sysI [OF k'(3,4)] Cons by (simp add: END)
  next
    case Nil
    then have em: "mbf_empty (mbf k i)" using ring.emp [OF rep] by simp
    show ?thesis
    proof (cases "que k (SmbfQ i)")
      case (Cons s ss)
      obtain k' where k': "mbf_wakeup i (mbf_take_over s msg k) = Some k'" "kinv {} k'" "mbf_inv k'"
        "mbf_received i msg [] (smbf_size k s) k k'"
        by (rule mbf_take_over_inv [OF inv il d(3) rep [unfolded Nil] Cons])
      show ?thesis using eq em Cons k'(1,4) mbf_sysI [OF k'(2,3)] Nil by (simp add: END)
    next
      case none: Nil
      show ?thesis
      proof (cases "tmout = TMO_POL")
        case True
        have "mbf_sys (END_CRITICAL_SECTION k)" "mbf_unchanged k (END_CRITICAL_SECTION k)"
          by (rule mbf_sys_quiet [OF sys], simp, rule mbf_unchanged_quiet, simp)
        then show ?thesis using eq em none Nil by (auto simp: True)
      next
        case False
        define k' where k': "k' = que_append (self k) (RmbfQ i) (make_wait tmout (mbfatr (mbf k i)) (rmbf_wait_state oid msg p k))"
        note w = rmbf_wait_inv [OF sys ok i em none k']
        note td = task_waitsD [OF w(1)]
        have "tk_rcv_mbf_u oid msg p tmout k = Some (E_TMOUT, END_CRITICAL_SECTION k')"
          using td(7) eq em none False by (simp add: k' [symmetric])
        then show ?thesis
          using mbf_sysI [OF td(1) w(2)] td(3,5,12) td(13) [of "RmbfQ i"] objs_eqD(37) [OF td(2)] Nil none False
          by (simp add: wait_insert_def)
      qed
    qed
  qed
qed

subsection \<open>Creation and deletion\<close>

definition mbf_new :: "t_cmbf \<Rightarrow> (nat \<Rightarrow> UB) option \<Rightarrow> nat \<Rightarrow> mbfcb \<Rightarrow> mbfcb" where
  "mbf_new pk msgbuf i c =
     (let c = c\<lparr>mbfid := ID_of i, mbf_exinf := cmbf_exinf pk, mbfatr := cmbf_mbfatr pk, mbf_buffer := msgbuf,
            bufsz := sint (ROUNDSZ (cmbf_bufsz pk)), frbufsz := sint (ROUNDSZ (cmbf_bufsz pk)),
            maxmsz := cmbf_maxmsz pk, mbf_head := 0, mbf_tail := 0\<rparr>
      in if cmbf_mbfatr pk AND TA_DSNAME \<noteq> 0 then c\<lparr>mbf_name := strncpy (cmbf_dsname pk) 8\<rparr> else c)"

definition mbf_valid :: "t_cmbf \<Rightarrow> bool" where
  "mbf_valid pk \<longleftrightarrow> cmbf_mbfatr pk AND NOT VALID_MBFATR = 0 \<and> 0 \<le> cmbf_bufsz pk \<and> 0 < cmbf_maxmsz pk"

definition mbf_memory :: "t_cmbf \<Rightarrow> (nat \<Rightarrow> UB) option \<Rightarrow> (nat \<Rightarrow> UB) option" where
  "mbf_memory pk msgbuf = (if 0 < sint (ROUNDSZ (cmbf_bufsz pk)) then msgbuf else None)"

lemma tk_cre_mbf_fail:
  assumes "\<not> mbf_valid pk \<or> 0 < sint (ROUNDSZ (cmbf_bufsz pk)) \<and> msgbuf = None \<or> free_mbfcb k = []"
  shows "fst (tk_cre_mbf pk msgbuf k) < 0" "snd (tk_cre_mbf pk msgbuf k) \<in> {k, END_CRITICAL_SECTION k}"
  using assms
  by (auto simp: mbf_valid_def tk_cre_mbf_def checked_def Let_def CHECK_RSATR_def CHECK_PAR_def CHECK_def split: list.splits)

lemma upd_mbf_comp: "upd_mbf i f (upd_mbf i g k) = upd_mbf i (\<lambda>c. f (g c)) k"
  by (simp add: upd_mbf_def)

lemma upd_mbf_que: "upd_mbf i f (k\<lparr>que := q\<rparr>) = (upd_mbf i f k)\<lparr>que := q\<rparr>"
  by (simp add: upd_mbf_def)

lemma tk_cre_mbf_eq:
  assumes "mbf_valid pk" "\<not> (0 < sint (ROUNDSZ (cmbf_bufsz pk)) \<and> msgbuf = None)" "free_mbfcb k = i # rest"
    "que k (SmbfQ i) = []" "que k (RmbfQ i) = []"
  shows "tk_cre_mbf pk msgbuf k =
    (ID_of i, END_CRITICAL_SECTION (upd_mbf i (mbf_new pk (mbf_memory pk msgbuf) i) (k\<lparr>free_mbfcb := rest\<rparr>)))"
proof -
  have q: "QueInit (SmbfQ i) (que k) = que k" "QueInit (RmbfQ i) (que k) = que k"
    using assms(4,5) by (auto simp: QueInit_def fun_eq_iff)
  have c: "first_error [CHECK_RSATR (cmbf_mbfatr pk) VALID_MBFATR, CHECK_PAR (0 \<le> cmbf_bufsz pk), CHECK_PAR (0 < cmbf_maxmsz pk)] = None"
    using assms(1) by (simp add: first_error_None_iff mbf_valid_def CHECK_RSATR_def CHECK_PAR_def del: first_error.simps)
  have t: "(upd_mbf i f (k\<lparr>free_mbfcb := rest\<rparr>))\<lparr>que := que k\<rparr> = upd_mbf i f (k\<lparr>free_mbfcb := rest\<rparr>)" for f
    by (simp add: upd_mbf_def)
  show ?thesis
    using assms(2)
    unfolding tk_cre_mbf_def checked_def c option.case assms(3) list.case
    by (auto simp: Let_def q t upd_mbf_que upd_mbf_comp mbf_new_def [abs_def] mbf_memory_def)
qed

text \<open>Rounding the size up must stay within an \<^verbatim>\<open>INT\<close>.\<close>

definition mbf_size_ok :: "t_cmbf \<Rightarrow> bool" where
  "mbf_size_ok pk \<longleftrightarrow> cmbf_bufsz pk \<le> 2 ^ 31 - 4 \<and> cmbf_maxmsz pk < 2 ^ 31"

lemma ring_rep_new:
  assumes v: "mbf_valid pk" "mbf_size_ok pk" and m: "\<not> (0 < sint (ROUNDSZ (cmbf_bufsz pk)) \<and> msgbuf = None)"
  shows "ring_rep (mbf_new pk (mbf_memory pk msgbuf) i c) []"
proof -
  obtain n where n: "cmbf_bufsz pk = int n" using v(1) nonneg_int_cases [of "cmbf_bufsz pk"] by (auto simp: mbf_valid_def)
  have "n \<le> 2 ^ 31 - 4" using v(2) n by (simp add: mbf_size_ok_def)
  then have "round4 n \<le> 2 ^ 31 - 4" using round4_fits [of "2 ^ 31 - 4" n] by simp
  then have r: "sint (ROUNDSZ (int n)) = int (round4 n)" "round4 n < 2 ^ 31"
    using ROUNDSZ_small [of n] by simp_all
  have "4 dvd int (round4 n)" using round4_bounds(3) [of n] int_dvd_int_iff [of 4 "round4 n"] by simp
  moreover have "\<exists>b. msgbuf = Some b" if "0 < round4 n" using m that n r(1) by (cases msgbuf) auto
  ultimately show ?thesis
    using r n by (auto simp: ring_rep_def mbf_new_def Let_def mbf_memory_def ring_add_def)
qed

lemma mbf_new_sel [simp]:
  "mbfid (mbf_new pk b i c) = ID_of i" "mbfatr (mbf_new pk b i c) = cmbf_mbfatr pk"
  "maxmsz (mbf_new pk b i c) = cmbf_maxmsz pk"
  by (simp_all add: mbf_new_def Let_def)

lemma kinv_free_mbfcb [intro]: "kinv X k \<Longrightarrow> kinv X (k\<lparr>free_mbfcb := f\<rparr>)"
  by (erule kinv_objs_cong) (simp_all add: NUM_TSKID_def)

lemma mbf_free_empty:
  assumes "mbf_inv k" "i \<in> set (free_mbfcb k)"
  shows "i < nat (max_mbfid k)" "mbfid (mbf k i) = 0" "que k (SmbfQ i) = []" "que k (RmbfQ i) = []"
  using assms mbf_inv_ok [OF assms(1), of i] by (auto simp: mbf_inv_def pool_ok_def mbf_ok_def)

lemma mbfid_upd: "(\<lambda>j. mbfid (if j = i then c else m j)) = (\<lambda>j. mbfid (m j))(i := mbfid c)"
  by (simp add: fun_eq_iff)

lemma tk_cre_mbf_sys:
  assumes sys: "mbf_sys k" and sz: "mbf_size_ok pk"
  shows "mbf_sys (snd (tk_cre_mbf pk msgbuf k))"
proof (cases "\<not> mbf_valid pk \<or> 0 < sint (ROUNDSZ (cmbf_bufsz pk)) \<and> msgbuf = None \<or> free_mbfcb k = []")
  case True
  show ?thesis by (rule mbf_sys_quiet [OF sys tk_cre_mbf_fail(2) [OF True]])
next
  case False
  then obtain i rest where f: "free_mbfcb k = i # rest" by (cases "free_mbfcb k") auto
  have v: "mbf_valid pk" and m: "\<not> (0 < sint (ROUNDSZ (cmbf_bufsz pk)) \<and> msgbuf = None)" using False by auto
  let ?k = "upd_mbf i (mbf_new pk (mbf_memory pk msgbuf) i) (k\<lparr>free_mbfcb := rest\<rparr>)"
  note inv = mbf_sysD(3) [OF sys]
  have i: "i < nat (max_mbfid k)" "que k (SmbfQ i) = []" "que k (RmbfQ i) = []"
    using mbf_free_empty [OF inv, of i] f by simp_all
  have "\<exists>ms. ring_rep (mbf_new pk (mbf_memory pk msgbuf) i (mbf k i)) ms" using ring_rep_new [OF v sz m] by blast
  then have "mbf_wf i ?k" using sz i(2,3) by (simp add: mbf_wf_def wq_ok_empty mbf_size_ok_def)
  then have "mbf_ok i ?k" using i(2) by (simp add: mbf_ok_def mbf_blocked_def ID_of_def)
  moreover have "pool_ok rest (\<lambda>j. mbfid (mbf ?k j)) (nat (max_mbfid k))"
    using pool_ok_take(1) [of i rest] mbf_inv_pool [OF inv] f by (simp add: mbfid_upd ID_of_def)
  ultimately have "mbf_inv ?k"
    by (intro mbf_inv_one [OF inv, of i]) (simp_all add: same_tcb_def)
  with tk_cre_mbf_eq [OF v m f i(2,3)] kinv_upd_mbf [OF kinv_free_mbfcb [OF mbf_sysD(2) [OF sys]]]
  show ?thesis by (simp add: mbf_sysI)
qed

text \<open>Deletion takes every waiting task off, senders and receivers; nobody is left to go on.\<close>

definition mbf_deleted :: "nat \<Rightarrow> kernel \<Rightarrow> kernel" where
  "mbf_deleted i k = wait_delete (SmbfQ i) (wait_delete (RmbfQ i) k)"

lemma mbf_deleted_released:
  assumes inv: "kinv {} k"
  shows "released (set (que k (SmbfQ i)) \<union> set (que k (RmbfQ i))) E_DLT k (mbf_deleted i k)"
    "que (mbf_deleted i k) (SmbfQ i) = []" "que (mbf_deleted i k) (RmbfQ i) = []" "objs (mbf_deleted i k) = objs k"
proof -
  let ?k = "wait_delete (RmbfQ i) k"
  have r: "released (set (que k (RmbfQ i))) E_DLT k ?k" by (rule wait_delete_released [OF inv]) simp_all
  note kv = releasedD(1) [OF r]
  have q: "que ?k (SmbfQ i) = que k (SmbfQ i)" by (rule released_other [OF inv r order_refl]) simp_all
  have s: "released (set (que k (SmbfQ i))) E_DLT ?k (mbf_deleted i k)"
    unfolding mbf_deleted_def q [symmetric] by (rule wait_delete_released [OF kv]) simp_all
  show rel: "released (set (que k (SmbfQ i)) \<union> set (que k (RmbfQ i))) E_DLT k (mbf_deleted i k)"
    using released_trans [OF r s] by (simp add: Un_commute)
  show "que (mbf_deleted i k) (SmbfQ i) = []" "que (mbf_deleted i k) (RmbfQ i) = []"
    using releasedD(9) [OF rel, of "SmbfQ i"] releasedD(9) [OF rel, of "RmbfQ i"] by auto
  show "objs (mbf_deleted i k) = objs k" by (simp add: mbf_deleted_def)
qed

lemma tk_del_mbf_eq:
  assumes "CHECK_MBFID oid k = None" "mbfid (mbf k (get_mbfcb oid)) \<noteq> 0" "i = get_mbfcb oid"
  shows "tk_del_mbf oid k =
    (E_OK, END_CRITICAL_SECTION (upd_mbf i (\<lambda>c. c\<lparr>mbfid := 0\<rparr>) ((mbf_deleted i k)\<lparr>free_mbfcb := free_mbfcb k @ [i]\<rparr>)))"
  using assms by (simp add: tk_del_mbf_def checked_def Let_def mbf_deleted_def)

lemma tk_del_mbf_sys:
  assumes sys: "mbf_sys k"
  shows "mbf_sys (snd (tk_del_mbf oid k))"
proof (cases "CHECK_MBFID oid k = None \<and> mbfid (mbf k (get_mbfcb oid)) \<noteq> 0")
  case False
  then have "snd (tk_del_mbf oid k) \<in> {k, END_CRITICAL_SECTION k}"
    by (auto simp: tk_del_mbf_def checked_def Let_def split: option.splits)
  then show ?thesis by (rule mbf_sys_quiet [OF sys])
next
  case True
  define i where i: "i = get_mbfcb oid"
  let ?w = "mbf_deleted i k"
  let ?k = "upd_mbf i (\<lambda>c. c\<lparr>mbfid := 0\<rparr>) (?w\<lparr>free_mbfcb := free_mbfcb k @ [i]\<rparr>)"
  note inv = mbf_sysD(2,3) [OF sys]
  note w = mbf_deleted_released [OF inv(1), of i] and o = objs_eqD [OF mbf_deleted_released(4) [OF inv(1), of i]]
  have il: "i < nat (max_mbfid k)" "mbfid (mbf k i) \<noteq> 0" using CHECK_MBFID_index True by (simp_all add: i)
  have "mbf_ok i ?k" using w(2,3) by (simp add: mbf_ok_def)
  moreover have q: "que ?w (SmbfQ j) = que k (SmbfQ j)" "que ?w (RmbfQ j) = que k (RmbfQ j)" if "j \<noteq> i" for j
  proof -
    have "u \<notin> set (que k (SmbfQ i)) \<union> set (que k (RmbfQ i))"
      if u: "u \<in> set (que k h)" "\<not> rdyq h" "h \<noteq> SmbfQ i" "h \<noteq> RmbfQ i" for u h
      using disjoint_queuesD [OF kinvD(6) [OF inv(1)] u(1)] u by fastforce
    then show "que ?w (SmbfQ j) = que k (SmbfQ j)" "que ?w (RmbfQ j) = que k (RmbfQ j)"
      using releasedD(9) [OF w(1), of "SmbfQ j"] releasedD(9) [OF w(1), of "RmbfQ j"] that
      by (auto simp: filter_id_conv)
  qed
  moreover have "pool_ok (free_mbfcb ?k) (\<lambda>i. mbfid (mbf ?k i)) (nat (max_mbfid ?k))"
    using pool_ok_return [OF mbf_inv_pool [OF inv(2)] il] by (simp add: mbfid_upd o)
  moreover have "same_tcb (tcb ?w t) (tcb k t)" for t
    by (rule released_same [OF w(1)])
  ultimately have "mbf_inv ?k"
    by (intro mbf_inv_one [OF inv(2), of i]) (simp_all add: o)
  moreover have "kinv {} ?k" by (intro kinv_upd_mbf kinv_free_mbfcb releasedD(1) [OF w(1)])
  ultimately show ?thesis using tk_del_mbf_eq [OF _ _ i] True by (simp add: mbf_sysI i)
qed

subsection \<open>A size that does not fit into an INT\<close>

lemma ROUNDSZ_overflow:
  assumes "2 ^ 31 - 4 < n" "n < 2 ^ 31"
  shows "sint (ROUNDSZ n) = - (2 ^ 31)"
proof -
  have "n = 0x7FFFFFFD \<or> n = 0x7FFFFFFE \<or> n = 0x7FFFFFFF" using assms by auto
  then show ?thesis by (elim disjE) (simp_all add: ROUNDSZ_def)
qed

lemma mbf_free_overflow:
  assumes "frbufsz c = - (2 ^ 31)" "0 < n" "n \<le> 2 ^ 31 - 4"
  shows "mbf_free c n"
proof -
  have "uint (HEADERSZ + word_of_int n) = n + 4"
    using assms(2,3) by (simp add: HEADERSZ_def uint_word_ariths take_bit_eq_mod unsigned_of_int)
  then show ?thesis using assms by (simp add: mbf_free_def word_le_def)
qed

lemma gcb_top_empty: "que k h = [] \<Longrightarrow> gcb_top_of_wait_queue h a t k = t"
  by (simp add: gcb_top_of_wait_queue_def)

subsection \<open>Properties\<close>

text \<open>A message buffer of 16 bytes for messages of up to 8 bytes.\<close>

definition ex_cmbf :: t_cmbf where
  "ex_cmbf = \<lparr>cmbf_exinf = 0, cmbf_mbfatr = 0, cmbf_bufsz = 16, cmbf_maxmsz = 8, cmbf_dsname = []\<rparr>"

definition ex_mbf :: kernel where
  "ex_mbf = snd (tk_cre_mbf ex_cmbf (Some (\<lambda>_. 0)) ex_state)"

lemma ex_state_mbf_sys: "mbf_sys ex_state"
proof -
  have "mbf_inv ex_state" by (auto simp: mbf_inv_def pool_ok_def mbf_ok_def ex_state_que)
  then show ?thesis using ex_state_kernel_ok by (simp add: mbf_sys_def)
qed

lemma ex_cmbf_ok: "mbf_valid ex_cmbf" "mbf_size_ok ex_cmbf" "sint (ROUNDSZ (cmbf_bufsz ex_cmbf)) = 16"
  by (simp_all add: ex_cmbf_def mbf_valid_def mbf_size_ok_def ROUNDSZ_def)

lemma ex_mbf_eq:
  "ex_mbf = END_CRITICAL_SECTION (upd_mbf 0 (mbf_new ex_cmbf (Some (\<lambda>_. 0)) 0) (ex_state\<lparr>free_mbfcb := [1, 2]\<rparr>))"
  using tk_cre_mbf_eq [OF ex_cmbf_ok(1), of "Some (\<lambda>_. 0)" ex_state 0 "[1, 2]"] ex_cmbf_ok(3)
  by (simp add: ex_mbf_def ex_state_que mbf_memory_def)

lemma ex_mbf_sys: "mbf_sys ex_mbf"
  unfolding ex_mbf_def by (rule tk_cre_mbf_sys [OF ex_state_mbf_sys ex_cmbf_ok(2)])

lemma ex_mbf_upd:
  "ex_mbf = upd_mbf 0 (mbf_new ex_cmbf (Some (\<lambda>_. 0)) 0) (ex_state\<lparr>free_mbfcb := [1, 2]\<rparr>)"
  using ex_mbf_eq by (simp add: END_CRITICAL_SECTION_def)

lemma ex_mbf_sel [simp]:
  "mbf ex_mbf 0 = mbf_new ex_cmbf (Some (\<lambda>_. 0)) 0 (mbf ex_state 0)" "max_mbfid ex_mbf = 3"
  "que ex_mbf = que ex_state" "isTaskIndependent ex_mbf = False" "ctxtsk ex_mbf = Some 0" "self ex_mbf = 0" "schedtsk ex_mbf = Some 0"
  "tcb ex_mbf = tcb ex_state" "isDI ex_mbf = False" "dispatch_disabled ex_mbf = 0"
  "free_mbfcb ex_mbf = [1, 2]" "get_mbfcb 1 = 0" "get_mbfcb 2 = 1"
  by (simp_all add: ex_mbf_upd get_mbfcb_def INDEX_def) (simp_all add: upd_mbf_def self_def)

lemma ex_mbf_empty: "ring_rep (mbf ex_mbf 0) []"
  using ring_rep_new [OF ex_cmbf_ok(1,2), of "Some (\<lambda>_. 0)"] by (simp add: mbf_memory_def ex_cmbf_ok(3))

lemma ex_mbf_checks: "mbf_snd_error 1 5 TMO_POL ex_mbf = None" "mbf_rcv_error 1 TMO_POL ex_mbf = None"
  by (simp_all add: mbf_snd_error_def mbf_rcv_error_def Let_def first_error_None_iff CHECK_MBFID_def CHECK_PAR_def
      CHECK_TMOUT_def CHECK_DISPATCH_POL_def CHECK_DISPATCH_def CHECK_def mbf_new_def ex_cmbf_def is_diswai_def
      ex_state_tcb ID_of_def in_ddsp_def in_indp_def del: first_error.simps) (simp_all add: ex_tcb_def)

lemma ex_mbf_room: "mbf_first 0 ex_mbf" "mbf_free (mbf ex_mbf 0) 5" "que ex_mbf (RmbfQ 0) = []" "que ex_mbf (SmbfQ 0) = []"
  by (simp_all add: mbf_first_def gcb_top_empty ex_state_que mbf_free_def mbf_new_def ex_cmbf_def HEADERSZ_def ROUNDSZ_def)

text \<open>
  C13: Every call on message buffers returns (the loop that stores the messages of waiting senders ends, and
  no access goes through a null pointer) and keeps the invariant: the ring holds complete messages, tasks
  wait to receive only while it is empty and nobody sends, and the first waiting sender waits because its
  message does not fit. For creation, rounding the size up must fit into an \<^verbatim>\<open>INT\<close>.
\<close>

theorem mbf_calls_invariant:
  assumes sys: "mbf_sys k"
  shows "(mbf_size_ok pk \<longrightarrow> mbf_sys (snd (tk_cre_mbf pk msgbuf k))) \<and> mbf_sys (snd (tk_del_mbf oid k)) \<and>
    (\<exists>r k'. tk_snd_mbf_u oid msg n tmout k = Some (r, k') \<and> mbf_sys k') \<and>
    (\<exists>r k'. tk_rcv_mbf_u oid msg p tmout k = Some (r, k') \<and> mbf_sys k')"
proof (intro conjI impI)
  show "mbf_sys (snd (tk_cre_mbf pk msgbuf k))" if "mbf_size_ok pk" by (rule tk_cre_mbf_sys [OF sys that])
  show "mbf_sys (snd (tk_del_mbf oid k))" by (rule tk_del_mbf_sys [OF sys])
  have rep: "\<exists>ms. ring_rep (mbf k (get_mbfcb oid)) ms"
    if "CHECK_MBFID oid k = None" "mbfid (mbf k (get_mbfcb oid)) \<noteq> 0"
    using that CHECK_MBFID_index mbf_inv_live(2) [OF mbf_sysD(3) [OF sys]] mbf_wfD(3) by blast
  show "\<exists>r k'. tk_snd_mbf_u oid msg n tmout k = Some (r, k') \<and> mbf_sys k'"
  proof (cases "mbf_snd_error oid n tmout k")
    case None
    then show ?thesis using rep [OF mbf_snd_okD(1,3) [OF None]] mbf_snd_cases [OF sys refl None] by blast
  next
    case (Some e)
    then show ?thesis using tk_snd_mbf_u_error [OF Some] mbf_sys_quiet [OF sys] by blast
  qed
  show "\<exists>r k'. tk_rcv_mbf_u oid msg p tmout k = Some (r, k') \<and> mbf_sys k'"
  proof (cases "mbf_rcv_error oid tmout k")
    case None
    then show ?thesis using rep [OF mbf_rcv_okD(1,3) [OF None]] mbf_rcv_cases [OF sys refl None] by blast
  next
    case (Some e)
    then show ?thesis using tk_rcv_mbf_u_error [OF Some] mbf_sys_quiet [OF sys] by blast
  qed
qed

theorem mbf_calls_invariant_witness:
  "\<exists>r k'. tk_snd_mbf_u 1 100 5 TMO_FEVR ex_mbf = Some (r, k') \<and> mbf_sys k'"
  using mbf_calls_invariant [OF ex_mbf_sys, of ex_cmbf None 1 100 5 TMO_FEVR] by blast

text \<open>
  C14: A send that fails a check returns its error and changes nothing. Otherwise it copies the message to
  the buffer of the first waiting receiver, stores its size there and releases that task alone; or, when no
  waiting sender goes first and the message fits, it appends the message to the ring; or it fails with
  \<open>E_TMOUT\<close> (a poll, without effect) or waits in the order of the attribute with its message.
\<close>

theorem tk_snd_mbf_u_result:
  assumes sys: "mbf_sys k" and i: "i = get_mbfcb oid"
  shows "\<exists>r k'. tk_snd_mbf_u oid msg n tmout k = Some (r, k') \<and>
    (case mbf_snd_error oid n tmout k of
       Some e \<Rightarrow> r = e \<and> mbf_unchanged k k'
     | None \<Rightarrow>
         if que k (RmbfQ i) \<noteq> [] then r = E_OK \<and> mbf_handed i msg n k k'
         else if mbf_first i k \<and> mbf_free (mbf k i) n
         then r = E_OK \<and> tcb_table k' = tcb_table k \<and> que k' = que k \<and>
           (\<forall>ms. ring_rep (mbf k i) ms \<longrightarrow> ring_rep (mbf k' i) (ms @ [msg_bytes (mem_byte k) msg n]))
         else r = E_TMOUT \<and>
           (if tmout = TMO_POL then mbf_unchanged k k'
            else state (tcb k' (self k)) = TS_WAIT \<and> smbf_bytes k' (self k) = msg_bytes (mem_byte k) msg n \<and>
              que k' (SmbfQ i) = wait_insert k (mbfatr (mbf k i)) (self k) (que k (SmbfQ i)) \<and>
              mbfcb_table k' = mbfcb_table k \<and> (\<forall>u. u \<noteq> self k \<longrightarrow> state (tcb k' u) = state (tcb k u))))"
proof (cases "mbf_snd_error oid n tmout k")
  case (Some e)
  then show ?thesis using tk_snd_mbf_u_error [OF Some, of msg] mbf_unchanged_quiet by auto
next
  case None
  note d = mbf_snd_okD(1,3) [OF None]
  obtain ms where rep: "ring_rep (mbf k i) ms"
    using d CHECK_MBFID_index mbf_inv_live(2) [OF mbf_sysD(3) [OF sys]] mbf_wfD(3) i by blast
  obtain r k' where r: "tk_snd_mbf_u oid msg n tmout k = Some (r, k')" using mbf_snd_cases [OF sys i None rep] by blast
  note all = mbf_snd_cases [OF sys i None, of _ msg, unfolded r]
  show ?thesis unfolding r using all [OF rep] all by (auto simp: None split: if_splits)
qed

theorem tk_snd_mbf_u_result_witness:
  "\<exists>k'. tk_snd_mbf_u 1 100 5 TMO_POL ex_mbf = Some (E_OK, k') \<and>
    ring_rep (mbf k' 0) [msg_bytes (mem_byte ex_mbf) 100 5]"
  using tk_snd_mbf_u_result [OF ex_mbf_sys refl, of 1 100 5 TMO_POL] ex_mbf_room ex_mbf_empty
  unfolding ex_mbf_checks(1) ex_mbf_sel(12) by (auto simp del: ex_mbf_sel)

text \<open>
  C15: A receive that fails a check returns its error and changes nothing. Otherwise it takes the first of the
  messages in the ring and in the hands of waiting senders, in that order, and returns its size; the senders
  whose messages then fit are released, and the messages still to come are the others in the same order (if
  the receive buffer does not overlap the messages of waiting senders). With no message a poll fails without
  effect and any other call waits behind the other receivers.
\<close>

theorem tk_rcv_mbf_u_result:
  assumes sys: "mbf_sys k" and i: "i = get_mbfcb oid"
  shows "\<exists>r k'. tk_rcv_mbf_u oid msg p tmout k = Some (r, k') \<and>
    (case mbf_rcv_error oid tmout k of
       Some e \<Rightarrow> r = e \<and> mbf_unchanged k k'
     | None \<Rightarrow> (\<exists>ms. ring_rep (mbf k i) ms) \<and> (\<forall>ms. ring_rep (mbf k i) ms \<longrightarrow>
         (if ms \<noteq> [] \<or> que k (SmbfQ i) \<noteq> [] then mbf_received i msg ms r k k'
          else r = E_TMOUT \<and>
            (if tmout = TMO_POL then mbf_unchanged k k'
             else state (tcb k' (self k)) = TS_WAIT \<and> winfo (tcb k' (self k)) = WINFO_RMBF msg p \<and>
               que k' (RmbfQ i) = que k (RmbfQ i) @ [self k] \<and> mbfcb_table k' = mbfcb_table k \<and>
               (\<forall>u. u \<noteq> self k \<longrightarrow> state (tcb k' u) = state (tcb k u))))))"
proof (cases "mbf_rcv_error oid tmout k")
  case (Some e)
  then show ?thesis using tk_rcv_mbf_u_error [OF Some, of msg p] mbf_unchanged_quiet by auto
next
  case None
  note d = mbf_rcv_okD(1,3) [OF None]
  obtain ms where rep: "ring_rep (mbf k i) ms"
    using d CHECK_MBFID_index mbf_inv_live(2) [OF mbf_sysD(3) [OF sys]] mbf_wfD(3) i by blast
  obtain r k' where r: "tk_rcv_mbf_u oid msg p tmout k = Some (r, k')" using mbf_rcv_cases [OF sys i None rep] by blast
  show ?thesis
    unfolding r None option.case using mbf_rcv_cases [OF sys i None, of _ msg p, unfolded r] rep by blast
qed

text \<open>A message of five bytes in the buffer.\<close>

definition ex_mbf_one :: kernel where
  "ex_mbf_one = (case tk_snd_mbf_u 1 100 5 TMO_POL ex_mbf of Some (_, k) \<Rightarrow> k | None \<Rightarrow> ex_mbf)"

lemma msg_to_mbf_sel:
  "msg_to_mbf mem p n c = Some c' \<Longrightarrow> mbfid c' = mbfid c \<and> mbfatr c' = mbfatr c"
  by (auto simp: msg_to_mbf_def Let_def split: option.splits prod.splits)

lemma ex_mbf_one_facts:
  "mbf_sys ex_mbf_one" "ring_rep (mbf ex_mbf_one 0) [msg_bytes (mem_byte ex_mbf) 100 5]"
  "mbf_rcv_error 1 TMO_POL ex_mbf_one = None" "que ex_mbf_one = que ex_mbf"
proof -
  obtain c where c: "msg_to_mbf (mem_byte ex_mbf) 100 5 (mbf ex_mbf 0) = Some c" "mbf_inv (upd_mbf 0 (\<lambda>_. c) ex_mbf)"
      "ring_rep c ([] @ [msg_bytes (mem_byte ex_mbf) 100 5])"
    by (rule mbf_store_inv [OF mbf_sysD(3) [OF ex_mbf_sys], of 0 5 "[]"])
      (use ex_mbf_room ex_mbf_empty in \<open>simp_all add: ex_cmbf_def ID_of_def\<close>)
  have same: "END_CRITICAL_SECTION (upd_mbf 0 (\<lambda>_. c) ex_mbf) = upd_mbf 0 (\<lambda>_. c) ex_mbf"
    by (simp add: END_CRITICAL_SECTION_def)
  have eq: "ex_mbf_one = END_CRITICAL_SECTION (upd_mbf 0 (\<lambda>_. c) ex_mbf)"
    using tk_snd_mbf_u_eq [OF ex_mbf_checks(1), of 0 100] ex_mbf_room c(1) by (simp add: ex_mbf_one_def del: ex_mbf_sel(1))
  show "mbf_sys ex_mbf_one"
    unfolding eq by (intro mbf_sysI c(2) kinv_upd_mbf mbf_sysD(2) [OF ex_mbf_sys])
  show "ring_rep (mbf ex_mbf_one 0) [msg_bytes (mem_byte ex_mbf) 100 5]" "que ex_mbf_one = que ex_mbf"
    using c(3) by (simp_all add: eq)
  show "mbf_rcv_error 1 TMO_POL ex_mbf_one = None"
    using ex_mbf_checks(2) msg_to_mbf_sel [OF c(1)] unfolding eq same
    by (simp add: mbf_rcv_error_def Let_def first_error_None_iff CHECK_MBFID_def CHECK_DISPATCH_def in_ddsp_def
        in_indp_def upd_mbf_def self_def del: first_error.simps)
qed

theorem tk_rcv_mbf_u_result_witness:
  "\<exists>r k'. tk_rcv_mbf_u 1 200 300 TMO_POL ex_mbf_one = Some (r, k') \<and>
    mbf_received 0 200 [msg_bytes (mem_byte ex_mbf) 100 5] r ex_mbf_one k'"
  using tk_rcv_mbf_u_result [OF ex_mbf_one_facts(1) refl, of 1 200 300 TMO_POL] ex_mbf_one_facts(2)
  unfolding ex_mbf_one_facts(3) ex_mbf_sel(12) by fastforce

text \<open>
  C17: A size in the last three bytes below \<open>2 ^ 31\<close> passes the checks and rounds up to a negative \<^verbatim>\<open>INT\<close>: the
  call succeeds with no memory behind the message buffer, any message seems to fit, and a send then writes
  through the null pointer.
\<close>

theorem tk_cre_mbf_overflow:
  assumes "mbf_sys k" "mbf_valid pk" "2 ^ 31 - 4 < cmbf_bufsz pk" "cmbf_bufsz pk < 2 ^ 31" "free_mbfcb k \<noteq> []"
  shows "\<exists>i k'. tk_cre_mbf pk msgbuf k = (ID_of i, k') \<and> bufsz (mbf k' i) < 0 \<and> mbf_buffer (mbf k' i) = None \<and>
    (\<forall>n msg tmout. mbf_snd_error (ID_of i) n tmout k' = None \<and> n \<le> 2 ^ 31 - 4 \<longrightarrow>
       tk_snd_mbf_u (ID_of i) msg n tmout k' = None)"
proof -
  obtain i rest where f: "free_mbfcb k = i # rest" using assms(5) by (cases "free_mbfcb k") auto
  note r = ROUNDSZ_overflow [OF assms(3,4)]
  note e = mbf_free_empty [OF mbf_sysD(3) [OF assms(1)], of i, unfolded f, simplified]
  define k' where k': "k' = END_CRITICAL_SECTION (upd_mbf i (mbf_new pk (mbf_memory pk msgbuf) i) (k\<lparr>free_mbfcb := rest\<rparr>))"
  have m: "mbf k' i = mbf_new pk None i (mbf k i)" by (simp add: k' mbf_memory_def r)
  have s: "mbf_buffer (mbf k' i) = None" "bufsz (mbf k' i) = - (2 ^ 31)" "frbufsz (mbf k' i) = - (2 ^ 31)"
    by (simp_all add: m mbf_new_def Let_def r)
  have q: "que k' (SmbfQ i) = []" "que k' (RmbfQ i) = []" using e by (simp_all add: k')
  have "tk_snd_mbf_u (ID_of i) msg n tmout k' = None"
    if ok: "mbf_snd_error (ID_of i) n tmout k' = None" and n: "n \<le> 2 ^ 31 - 4" for n msg tmout
  proof -
    have i: "i = get_mbfcb (ID_of i)" by (simp add: get_mbfcb_def)
    have "mbf_free (mbf k' i) n" by (rule mbf_free_overflow [OF s(3) mbf_snd_okD(2) [OF ok] n])
    moreover have "mbf_first i k'" by (simp add: mbf_first_def gcb_top_empty q)
    ultimately show ?thesis by (simp add: tk_snd_mbf_u_eq [OF ok i] q msg_to_mbf_def s)
  qed
  moreover have "tk_cre_mbf pk msgbuf k = (ID_of i, k')"
    unfolding k' by (rule tk_cre_mbf_eq [OF assms(2) _ f e(3,4)]) (simp add: r)
  ultimately show ?thesis using s by (intro exI [of _ i] exI [of _ k']) simp
qed

theorem tk_cre_mbf_overflow_witness:
  "\<exists>i k'. tk_cre_mbf (ex_cmbf\<lparr>cmbf_bufsz := 0x7FFFFFFF\<rparr>) None ex_mbf = (ID_of i, k') \<and> mbf_buffer (mbf k' i) = None \<and> bufsz (mbf k' i) < 0"
  using tk_cre_mbf_overflow [OF ex_mbf_sys, of "ex_cmbf\<lparr>cmbf_bufsz := 0x7FFFFFFF\<rparr>" None]
  by (auto simp: mbf_valid_def ex_cmbf_def)

end
