(* ===== verification/Mutex.thy ===== *)
theory Mutex
  imports Example_State Object_Pool
begin

text \<open>
  Mutexes (\<^verbatim>\<open>mutex.c\<close>) with priority inheritance and priority ceiling. The list of mutexes a task holds,
  linked through \<^verbatim>\<open>mtxcb->mtxlist\<close> in C, is the list \<open>mtxlist\<close> of its TCB. A priority change may run on
  along the chain of owners, through the hooks; the operations that can start one take the hook table.
\<close>

subsection \<open>Operations\<close>

record t_cmtx =
  cmtx_exinf :: nat
  cmtx_mtxatr :: UW
  cmtx_ceilpri :: int
  cmtx_dsname :: "UB list"

record t_rmtx =
  rmtx_exinf :: nat
  rmtx_htsk :: ID
  rmtx_wtsk :: ID

definition get_mtxcb :: "ID \<Rightarrow> nat" where
  "get_mtxcb oid = INDEX oid"

definition upd_mtx :: "nat \<Rightarrow> (mtxcb \<Rightarrow> mtxcb) \<Rightarrow> kernel \<Rightarrow> kernel" where
  "upd_mtx i f k = k\<lparr>mtxcb_table := (mtxcb_table k)(i := f (mtxcb_table k i))\<rparr>"

abbreviation mtx :: "kernel \<Rightarrow> nat \<Rightarrow> mtxcb" where
  "mtx k i \<equiv> mtxcb_table k i"

definition mutex_initialize :: "int option \<Rightarrow> bool \<Rightarrow> kernel \<Rightarrow> ER \<times> kernel" where
  "mutex_initialize tmaxmtxid mem k =
     (let k = (case tmaxmtxid of Some n \<Rightarrow> k\<lparr>max_mtxid := n\<rparr> | None \<Rightarrow> k)
      in if tmaxmtxid = None \<or> max_mtxid k < 1 then (E_SYS, k)
      else if \<not> mem then (E_NOMEM, k)
      else
        let k = k\<lparr>free_mtxcb := []\<rparr>;
            k = fold (\<lambda>i k.
                  let k = upd_mtx i (\<lambda>c. c\<lparr>mtxid := 0\<rparr>) k
                  in k\<lparr>free_mtxcb := free_mtxcb k @ [i]\<rparr>)
                [0..<nat (max_mtxid k)] k
        in (E_OK, k))"

definition mtx_waited :: "nat \<Rightarrow> kernel \<Rightarrow> bool" where
  "mtx_waited i k \<longleftrightarrow> \<not> isQueEmpty (MtxQ i) (que k)"

definition mtx_head_pri :: "nat \<Rightarrow> kernel \<Rightarrow> nat" where
  "mtx_head_pri i k = priority (tcb k (hd (que k (MtxQ i))))"

definition mtx_kind :: "nat \<Rightarrow> kernel \<Rightarrow> UW" where
  "mtx_kind i k = mtxatr (mtx k i) AND TA_CEILING"

text \<open>
  The loop of \<^verbatim>\<open>release_mutex\<close>: the list without the released mutex, and the priority that the base
  priority and the other mutexes give. \<^verbatim>\<open>pri\<close> keeps its value from one round to the next.
\<close>

fun release_loop :: "nat option \<Rightarrow> nat list \<Rightarrow> nat \<Rightarrow> nat \<Rightarrow> kernel \<Rightarrow> nat list \<times> nat" where
  "release_loop rel [] pri newpri k = ([], newpri)"
| "release_loop rel (m # ms) pri newpri k =
     (if rel = Some m then release_loop rel ms pri newpri k
      else
        let pri = (if mtx_kind m k = TA_CEILING then ceilpri (mtx k m)
                   else if mtx_kind m k = TA_INHERIT \<and> mtx_waited m k then mtx_head_pri m k
                   else pri);
            newpri = (if newpri > pri then pri else newpri);
            (ms', newpri) = release_loop rel ms pri newpri k
        in (m # ms', newpri))"

definition release_mutex :: "hooks \<Rightarrow> tid \<Rightarrow> nat option \<Rightarrow> kernel \<Rightarrow> kernel option" where
  "release_mutex hk t rel k =
     (let (ms, newpri) = release_loop rel (mtxlist (tcb k t)) (bpriority (tcb k t)) (bpriority (tcb k t)) k;
          k = upd_tcb t (\<lambda>c. c\<lparr>mtxlist := ms\<rparr>) k
      in if newpri \<noteq> priority (tcb k t) then change_task_priority hk t newpri k else Some k)"

definition reset_priority :: "hooks \<Rightarrow> tid \<Rightarrow> kernel \<Rightarrow> kernel option" where
  "reset_priority hk t k = release_mutex hk t None k"

text \<open>Handing a mutex to the first waiting task, as \<^verbatim>\<open>signal_all_mutex\<close> and \<^verbatim>\<open>_tk_unl_mtx\<close> do.\<close>

definition mtx_pass :: "hooks \<Rightarrow> nat \<Rightarrow> kernel \<Rightarrow> kernel option" where
  "mtx_pass hk i k =
     (case que k (MtxQ i) of
        t # _ \<Rightarrow>
          let k = wait_release_ok t k;
              k = upd_mtx i (\<lambda>c. c\<lparr>mtxtsk := Some t\<rparr>) k;
              k = upd_tcb t (\<lambda>c. c\<lparr>mtxlist := i # mtxlist c\<rparr>) k
          in if mtx_kind i k = TA_CEILING \<and> priority (tcb k t) > ceilpri (mtx k i)
             then change_task_priority hk t (ceilpri (mtx k i)) k
             else Some k
      | [] \<Rightarrow> Some (upd_mtx i (\<lambda>c. c\<lparr>mtxtsk := None\<rparr>) k))"

text \<open>
  \<^verbatim>\<open>signal_all_mutex\<close> leaves the list of the terminating task alone (\<^verbatim>\<open>make_dormant\<close> clears it).
\<close>

fun signal_mutexes :: "hooks \<Rightarrow> nat list \<Rightarrow> kernel \<Rightarrow> kernel option" where
  "signal_mutexes hk [] k = Some k"
| "signal_mutexes hk (m # ms) k = Option.bind (mtx_pass hk m k) (signal_mutexes hk ms)"

definition signal_all_mutex :: "hooks \<Rightarrow> tid \<Rightarrow> kernel \<Rightarrow> kernel option" where
  "signal_all_mutex hk t k = signal_mutexes hk (mtxlist (tcb k t)) k"

fun chg_pri_loop :: "nat list \<Rightarrow> int \<Rightarrow> int \<Rightarrow> int \<Rightarrow> kernel \<Rightarrow> int \<times> int" where
  "chg_pri_loop [] pri hi_pri low_pri k = (hi_pri, low_pri)"
| "chg_pri_loop (m # ms) pri hi_pri low_pri k =
     (let (pri, low_pri) =
            (if mtx_kind m k = TA_CEILING
             then (int (ceilpri (mtx k m)), if int (ceilpri (mtx k m)) > low_pri then int (ceilpri (mtx k m)) else low_pri)
             else if mtx_kind m k = TA_INHERIT \<and> mtx_waited m k then (int (mtx_head_pri m k), low_pri)
             else (pri, low_pri));
          hi_pri = (if pri < hi_pri then pri else hi_pri)
      in chg_pri_loop ms pri hi_pri low_pri k)"

definition chg_pri_mutex :: "tid \<Rightarrow> int \<Rightarrow> kernel \<Rightarrow> int" where
  "chg_pri_mutex t pri k =
     (let low_pri = int (int_priority MIN_PRI);
          i = get_mtxcb (wid (tcb k t));
          low_pri =
            (if ts_wait (state (tcb k t)) \<and> tskwait (wspec (tcb k t)) AND TTW_MTX \<noteq> 0 \<and>
                mtx_kind i k = TA_CEILING \<and> int (ceilpri (mtx k i)) > low_pri
             then int (ceilpri (mtx k i)) else low_pri);
          (hi_pri, low_pri) = chg_pri_loop (mtxlist (tcb k t)) pri pri low_pri k
      in if pri < low_pri then E_ILUSE else hi_pri)"

text \<open>The hooks: \<^verbatim>\<open>mtxtsk\<close> is dereferenced, a mutex with waiting tasks has an owner.\<close>

definition mtx_chg_pri :: "hooks \<Rightarrow> tid \<Rightarrow> int \<Rightarrow> kernel \<Rightarrow> kernel option" where
  "mtx_chg_pri hk t oldpri k =
     (let i = get_mtxcb (wid (tcb k t));
          k = gcb_change_priority (MtxQ i) t k
      in if mtx_kind i k = TA_INHERIT then
           let owner = the (mtxtsk (mtx k i))
           in if priority (tcb k owner) > priority (tcb k t)
              then change_task_priority hk owner (priority (tcb k t)) k
              else if int (priority (tcb k owner)) = oldpri then reset_priority hk owner k
              else Some k
         else Some k)"

definition mtx_rel_wai :: "hooks \<Rightarrow> tid \<Rightarrow> kernel \<Rightarrow> kernel option" where
  "mtx_rel_wai hk t k =
     (let i = get_mtxcb (wid (tcb k t));
          owner = the (mtxtsk (mtx k i))
      in if priority (tcb k owner) = priority (tcb k t) then reset_priority hk owner k else Some k)"

definition VALID_MTXATR :: UW where
  "VALID_MTXATR = TA_CEILING OR TA_NODISWAI OR TA_DSNAME"

definition tk_cre_mtx :: "t_cmtx \<Rightarrow> kernel \<Rightarrow> ER \<times> kernel" where
  "tk_cre_mtx pk k =
     checked [CHECK_RSATR (cmtx_mtxatr pk) VALID_MTXATR,
              (if cmtx_mtxatr pk AND TA_CEILING = TA_CEILING then CHECK_PRI (cmtx_ceilpri pk) else None)] k
       (let cp = (if cmtx_mtxatr pk AND TA_CEILING = TA_CEILING then int_priority (cmtx_ceilpri pk) else 0)
        in case free_mtxcb k of
          [] \<Rightarrow> (E_LIMIT, END_CRITICAL_SECTION k)
        | i # rest \<Rightarrow>
            let k = k\<lparr>free_mtxcb := rest\<rparr>;
                k = k\<lparr>que := QueInit (MtxQ i) (que k)\<rparr>;
                k = upd_mtx i (\<lambda>c. c\<lparr>mtxid := ID_of i, mtx_exinf := cmtx_exinf pk,
                      mtxatr := cmtx_mtxatr pk, ceilpri := cp, mtxtsk := None\<rparr>) k;
                k = (if cmtx_mtxatr pk AND TA_DSNAME \<noteq> 0
                     then upd_mtx i (\<lambda>c. c\<lparr>mtx_name := strncpy (cmtx_dsname pk) 8\<rparr>) k else k)
            in (ID_of i, END_CRITICAL_SECTION k))"

definition tk_del_mtx :: "hooks \<Rightarrow> ID \<Rightarrow> kernel \<Rightarrow> (ER \<times> kernel) option" where
  "tk_del_mtx hk oid k =
     checked_opt [CHECK_MTXID oid k] k
       (let i = get_mtxcb oid
        in if mtxid (mtx k i) = 0 then Some (E_NOEXS, END_CRITICAL_SECTION k)
           else map_option (\<lambda>k.
               let k = wait_delete (MtxQ i) k;
                   k = k\<lparr>free_mtxcb := free_mtxcb k @ [i]\<rparr>;
                   k = upd_mtx i (\<lambda>c. c\<lparr>mtxid := 0\<rparr>) k
               in (E_OK, END_CRITICAL_SECTION k))
             (case mtxtsk (mtx k i) of
                Some t \<Rightarrow> release_mutex hk t (Some i) k
              | None \<Rightarrow> Some k))"

text \<open>The result of a call that waits is read from the caller's cell, as for semaphores.\<close>

definition tk_loc_mtx_u :: "hooks \<Rightarrow> ID \<Rightarrow> D \<Rightarrow> kernel \<Rightarrow> (ER \<times> kernel) option" where
  "tk_loc_mtx_u hk oid tmout k =
     checked_opt [CHECK_MTXID oid k, CHECK_TMOUT tmout, CHECK_DISPATCH k] k
       (let i = get_mtxcb oid; t = self k; c = mtx k i; kind = mtxatr c AND TA_CEILING
        in if mtxid c = 0 then Some (E_NOEXS, END_CRITICAL_SECTION k)
           else if mtxtsk c = ctxtsk k then Some (E_ILUSE, END_CRITICAL_SECTION k)
           else if kind = TA_CEILING \<and> bpriority (tcb k t) < ceilpri c
           then Some (E_ILUSE, END_CRITICAL_SECTION k)
           else if is_diswai (mtxatr c) (tcb k t) TTW_MTX then Some (E_DISWAI, END_CRITICAL_SECTION k)
           else case mtxtsk c of
             None \<Rightarrow>
               let k = upd_mtx i (\<lambda>c. c\<lparr>mtxtsk := Some t\<rparr>) k;
                   k = upd_tcb t (\<lambda>c. c\<lparr>mtxlist := i # mtxlist c\<rparr>) k
               in map_option (\<lambda>k. (E_OK, END_CRITICAL_SECTION k))
                    (if kind = TA_CEILING \<and> priority (tcb k t) > ceilpri c
                     then change_task_priority hk t (ceilpri c) k else Some k)
           | Some owner \<Rightarrow>
               if tmout = TMO_POL then Some (E_TMOUT, END_CRITICAL_SECTION k)
               else map_option (\<lambda>k.
                   let k = upd_tcb t (\<lambda>tc. tc\<lparr>wspec := (if kind = TA_TFIFO then WSPEC_MTX_TFIFO
                                                          else if kind = TA_INHERIT then WSPEC_MTX_INHERIT
                                                          else WSPEC_MTX_TPRI),
                                              wercd := E_TMOUT, wid := mtxid c\<rparr>) k;
                       k = make_wait tmout (mtxatr c) k;
                       k = (if kind = TA_TFIFO then que_append t (MtxQ i) k
                            else queue_insert_tpri t (MtxQ i) k)
                   in (wercd (tcb k t), END_CRITICAL_SECTION k))
                 (if kind = TA_INHERIT \<and> priority (tcb k owner) > priority (tcb k t)
                  then change_task_priority hk owner (priority (tcb k t)) k else Some k))"

definition tk_loc_mtx :: "hooks \<Rightarrow> ID \<Rightarrow> UW \<Rightarrow> kernel \<Rightarrow> (ER \<times> kernel) option" where
  "tk_loc_mtx hk oid tmout k = tk_loc_mtx_u hk oid (to_usec_tmo tmout) k"

definition tk_unl_mtx :: "hooks \<Rightarrow> ID \<Rightarrow> kernel \<Rightarrow> (ER \<times> kernel) option" where
  "tk_unl_mtx hk oid k =
     checked_opt [CHECK_MTXID oid k, CHECK_INTSK k] k
       (let i = get_mtxcb oid
        in if mtxid (mtx k i) = 0 then Some (E_NOEXS, END_CRITICAL_SECTION k)
           else if mtxtsk (mtx k i) \<noteq> ctxtsk k then Some (E_ILUSE, END_CRITICAL_SECTION k)
           else map_option (\<lambda>k. (E_OK, END_CRITICAL_SECTION k))
             (Option.bind (release_mutex hk (self k) (Some i) k) (mtx_pass hk i)))"

definition mtx_info :: "nat \<Rightarrow> kernel \<Rightarrow> t_rmtx" where
  "mtx_info i k = \<lparr>rmtx_exinf = mtx_exinf (mtx k i),
     rmtx_htsk = (case mtxtsk (mtx k i) of Some t \<Rightarrow> tskid (tcb k t) | None \<Rightarrow> 0),
     rmtx_wtsk = wait_tskid (MtxQ i) k\<rparr>"

definition tk_ref_mtx :: "ID \<Rightarrow> kernel \<Rightarrow> (ER \<times> t_rmtx option) \<times> kernel" where
  "tk_ref_mtx oid k =
     (case CHECK_MTXID oid k of
        Some e \<Rightarrow> ((e, None), k)
      | None \<Rightarrow>
          let i = get_mtxcb oid
          in (if mtxid (mtx k i) = 0 then (E_NOEXS, None) else (E_OK, Some (mtx_info i k)),
              END_CRITICAL_SECTION k))"

definition mutex_getname :: "ID \<Rightarrow> kernel \<Rightarrow> ER \<times> UB list option" where
  "mutex_getname oid k =
     (case CHECK_MTXID oid k of
        Some e \<Rightarrow> (e, None)
      | None \<Rightarrow>
          let i = get_mtxcb oid
          in if mtxid (mtx k i) = 0 then (E_NOEXS, None)
             else if mtxatr (mtx k i) AND TA_DSNAME = 0 then (E_OBJ, None)
             else (E_OK, Some (mtx_name (mtx k i))))"

definition td_lst_mtx :: "int \<Rightarrow> kernel \<Rightarrow> int \<times> ID list" where
  "td_lst_mtx nent k =
     id_list (filter (\<lambda>oid. oid \<noteq> 0) (map (\<lambda>i. mtxid (mtx k i)) [0..<nat (max_mtxid k)])) nent"

definition td_ref_mtx :: "ID \<Rightarrow> kernel \<Rightarrow> ER \<times> t_rmtx option" where
  "td_ref_mtx oid k =
     (case CHECK_MTXID oid k of
        Some e \<Rightarrow> (e, None)
      | None \<Rightarrow>
          let i = get_mtxcb oid
          in if mtxid (mtx k i) = 0 then (E_NOEXS, None) else (E_OK, Some (mtx_info i k)))"

definition td_mtx_que :: "ID \<Rightarrow> int \<Rightarrow> kernel \<Rightarrow> int \<times> ID list" where
  "td_mtx_que oid nent k =
     (case CHECK_MTXID oid k of
        Some e \<Rightarrow> (e, [])
      | None \<Rightarrow>
          let i = get_mtxcb oid
          in if mtxid (mtx k i) = 0 then (E_NOEXS, []) else que_ids (que k (MtxQ i)) nent k)"

end
