(* ===== verification/Hooks.thy ===== *)
theory Hooks
  imports Semaphore Eventflag Mailbox Message_Buffer Mutex
begin

text \<open>
  The wait specifications of the objects (\<^verbatim>\<open>wspec_...\<close> of the sources) as a table of hooks. The hooks of
  mutexes call \<open>change_task_priority\<close>, which calls hooks again along the chain of owners: \<open>hooks_n n\<close> is
  the table in which this may happen \<open>n\<close> times, \<open>kernel_hooks k\<close> the one for a kernel with its number of
  tasks.
\<close>

definition hook_table ::
  "(tid \<Rightarrow> int \<Rightarrow> kernel \<Rightarrow> kernel option) \<Rightarrow> (tid \<Rightarrow> kernel \<Rightarrow> kernel option) \<Rightarrow> hooks" where
  "hook_table mtx_chg mtx_rel =
     \<lparr>chg_pri_hook = (\<lambda>ws. case ws of
          WSPEC_SEM_TPRI \<Rightarrow> Some sem_chg_pri
        | WSPEC_FLG_TPRI \<Rightarrow> Some flg_chg_pri
        | WSPEC_MBX_TPRI \<Rightarrow> Some mbx_chg_pri
        | WSPEC_SMBF_TPRI \<Rightarrow> Some mbf_chg_pri
        | WSPEC_MTX_TPRI \<Rightarrow> Some mtx_chg
        | WSPEC_MTX_INHERIT \<Rightarrow> Some mtx_chg
        | _ \<Rightarrow> None),
      rel_wai_hook = (\<lambda>ws. case ws of
          WSPEC_SEM_TFIFO \<Rightarrow> Some sem_rel_wai
        | WSPEC_SEM_TPRI \<Rightarrow> Some sem_rel_wai
        | WSPEC_SMBF_TFIFO \<Rightarrow> Some mbf_rel_wai
        | WSPEC_SMBF_TPRI \<Rightarrow> Some mbf_rel_wai
        | WSPEC_MTX_INHERIT \<Rightarrow> Some mtx_rel
        | _ \<Rightarrow> None)\<rparr>"

fun hooks_n :: "nat \<Rightarrow> hooks" where
  "hooks_n 0 = hook_table (\<lambda>_ _ _. None) (\<lambda>_ _. None)"
| "hooks_n (Suc n) = hook_table (mtx_chg_pri (hooks_n n)) (mtx_rel_wai (hooks_n n))"

definition kernel_hooks :: "kernel \<Rightarrow> hooks" where
  "kernel_hooks k = hooks_n (NUM_TSKID k + 2)"

end
