(* ===== verification/Mutex_Inv.thy ===== *)
theory Mutex_Inv
  imports Mutex
begin

text \<open>
  What holds of mutexes and the tasks that own or wait for them, and what the loops of \<^verbatim>\<open>release_mutex\<close> and
  \<^verbatim>\<open>chg_pri_mutex\<close> compute: the exact priority of a task.
\<close>

subsection \<open>The invariant\<close>

text \<open>
  A mutex waited for has an owner, who lists it and does not wait for it himself; the lists of the tasks
  hold exactly the mutexes they own. \<open>Y\<close> holds mutexes in transit, whose owner field and whose place in the
  lists do not fit: one that is being unlocked or deleted, those of a task that is being terminated.
\<close>

definition mtx_wspec :: "UW \<Rightarrow> wspec" where
  "mtx_wspec atr = (if atr AND TA_CEILING = TA_TFIFO then WSPEC_MTX_TFIFO
                    else if atr AND TA_CEILING = TA_INHERIT then WSPEC_MTX_INHERIT else WSPEC_MTX_TPRI)"

definition mtx_order :: "UW \<Rightarrow> UW" where
  "mtx_order atr = (if atr AND TA_CEILING = TA_TFIFO then TA_TFIFO else TA_TPRI)"

definition exists_task :: "tid \<Rightarrow> kernel \<Rightarrow> bool" where
  "exists_task t k \<longleftrightarrow> t < NUM_TSKID k \<and> state (tcb k t) \<noteq> TS_NONEXIST"

definition mtx_owned :: "nat \<Rightarrow> kernel \<Rightarrow> bool" where
  "mtx_owned i k \<longleftrightarrow>
     (case mtxtsk (mtx k i) of
        None \<Rightarrow> que k (MtxQ i) = []
      | Some u \<Rightarrow> exists_task u k \<and> i \<in> set (mtxlist (tcb k u)) \<and> u \<notin> set (que k (MtxQ i)))"

definition mtx_ok :: "nat set \<Rightarrow> nat \<Rightarrow> kernel \<Rightarrow> bool" where
  "mtx_ok Y i k \<longleftrightarrow>
     (if mtxid (mtx k i) = 0 then que k (MtxQ i) = []
      else wq_ok (MtxQ i) (mtx_order (mtxatr (mtx k i))) (mtxid (mtx k i)) (mtx_wspec (mtxatr (mtx k i))) k \<and>
        (mtx_kind i k = TA_CEILING \<longrightarrow> ceilpri (mtx k i) < NUM_PRI) \<and>
        (i \<notin> Y \<longrightarrow> mtx_owned i k))"

definition held_ok :: "nat set \<Rightarrow> tid \<Rightarrow> kernel \<Rightarrow> bool" where
  "held_ok Y t k \<longleftrightarrow>
     distinct (mtxlist (tcb k t)) \<and>
     (\<forall>i \<in> set (mtxlist (tcb k t)).
        i < nat (max_mtxid k) \<and> mtxid (mtx k i) \<noteq> 0 \<and> (i \<notin> Y \<longrightarrow> mtxtsk (mtx k i) = Some t)) \<and>
     (state (tcb k t) = TS_DORMANT \<longrightarrow> mtxlist (tcb k t) = [])"

definition mtx_inv :: "nat set \<Rightarrow> kernel \<Rightarrow> bool" where
  "mtx_inv Y k \<longleftrightarrow>
     pool_ok (free_mtxcb k) (\<lambda>i. mtxid (mtx k i)) (nat (max_mtxid k)) \<and>
     (\<forall>i. nat (max_mtxid k) \<le> i \<longrightarrow> que k (MtxQ i) = []) \<and>
     (\<forall>i < nat (max_mtxid k). mtx_ok Y i k) \<and>
     (\<forall>t. exists_task t k \<longrightarrow> held_ok Y t k)"

text \<open>
  The priorities that claim a task: its base priority, the ceilings of the ceiling mutexes it holds, and
  the priorities of the tasks that wait for an inheritance mutex it holds. Its priority should be the
  highest, that is the least, of them.
\<close>

definition mtx_claims :: "kernel \<Rightarrow> nat \<Rightarrow> nat set" where
  "mtx_claims k i =
     (if mtx_kind i k = TA_CEILING then {ceilpri (mtx k i)}
      else if mtx_kind i k = TA_INHERIT then (\<lambda>u. priority (tcb k u)) ` set (que k (MtxQ i))
      else {})"

definition claims :: "tid \<Rightarrow> kernel \<Rightarrow> nat set" where
  "claims t k = insert (bpriority (tcb k t)) (\<Union>i \<in> set (mtxlist (tcb k t)). mtx_claims k i)"

definition exact_at :: "nat \<Rightarrow> tid \<Rightarrow> kernel \<Rightarrow> bool" where
  "exact_at p t k \<longleftrightarrow> p = Min (claims t k)"

abbreviation exact :: "tid \<Rightarrow> kernel \<Rightarrow> bool" where
  "exact t k \<equiv> exact_at (priority (tcb k t)) t k"

lemma finite_mtx_claims [simp, intro]: "finite (mtx_claims k i)"
  by (simp add: mtx_claims_def)

lemma finite_claims [simp, intro]: "finite (claims t k)" and claims_ne [simp]: "claims t k \<noteq> {}"
  by (simp_all add: claims_def)

lemma exact_at_iff: "exact_at p t k \<longleftrightarrow> p \<in> claims t k \<and> (\<forall>q \<in> claims t k. p \<le> q)"
  unfolding exact_at_def using Min_eq_iff [of "claims t k" p] by (auto simp: eq_commute [of p])

subsection \<open>The loops over the held mutexes\<close>

lemma wq_head_min:
  assumes "wq_ok h TA_TPRI oid ws k" "que k h \<noteq> []"
  shows "priority (tcb k (hd (que k h))) = Min ((\<lambda>u. priority (tcb k u)) ` set (que k h))"
proof -
  have s: "sorted (map (\<lambda>u. priority (tcb k u)) (que k h))" using assms(1) by (simp add: wq_ok_def)
  obtain u us where "que k h = u # us" using assms(2) by (meson list.exhaust)
  with s show ?thesis by (auto intro!: Min_eqI [symmetric])
qed

lemma mtx_inv_ok: "mtx_inv Y k \<Longrightarrow> i < nat (max_mtxid k) \<Longrightarrow> mtx_ok Y i k"
  by (simp add: mtx_inv_def)

lemma mtx_inv_held: "mtx_inv Y k \<Longrightarrow> exists_task t k \<Longrightarrow> held_ok Y t k"
  by (simp add: mtx_inv_def)

lemma mtx_inv_live:
  assumes "mtx_inv Y k" "i < nat (max_mtxid k)" "mtxid (mtx k i) \<noteq> 0"
  shows "wq_ok (MtxQ i) (mtx_order (mtxatr (mtx k i))) (mtxid (mtx k i)) (mtx_wspec (mtxatr (mtx k i))) k"
    "mtx_kind i k = TA_CEILING \<Longrightarrow> ceilpri (mtx k i) < NUM_PRI" "i \<notin> Y \<Longrightarrow> mtx_owned i k"
    "mtxid (mtx k i) = int i + 1"
  using mtx_inv_ok [OF assms(1,2)] assms(3) pool_ok_live [OF _ assms(2), of "free_mtxcb k" "\<lambda>i. mtxid (mtx k i)"] assms(1)
  by (auto simp: mtx_ok_def mtx_inv_def)

lemma mtx_inv_pool: "mtx_inv Y k \<Longrightarrow> pool_ok (free_mtxcb k) (\<lambda>i. mtxid (mtx k i)) (nat (max_mtxid k))"
  by (simp add: mtx_inv_def)

lemma heldD:
  assumes "mtx_inv Y k" "exists_task t k" "i \<in> set (mtxlist (tcb k t))"
  shows "i < nat (max_mtxid k)" "mtxid (mtx k i) \<noteq> 0" "i \<notin> Y \<Longrightarrow> mtxtsk (mtx k i) = Some t"
    "i \<notin> Y \<Longrightarrow> t \<notin> set (que k (MtxQ i))"
proof -
  show *: "i < nat (max_mtxid k)" "mtxid (mtx k i) \<noteq> 0"
    using mtx_inv_held [OF assms(1,2)] assms(3) by (auto simp: held_ok_def)
  show "mtxtsk (mtx k i) = Some t" if "i \<notin> Y"
    using mtx_inv_held [OF assms(1,2)] assms(3) that by (auto simp: held_ok_def)
  with * show "t \<notin> set (que k (MtxQ i))" if "i \<notin> Y"
    using mtx_inv_live(3) [OF assms(1), of i] that by (simp add: mtx_owned_def)
qed

lemma mtx_waiter:
  assumes inv: "kinv {} k" "mtx_inv Y k" and t: "t \<in> set (que k (MtxQ i))"
  shows "i < nat (max_mtxid k)" "mtxid (mtx k i) \<noteq> 0" "get_mtxcb (wid (tcb k t)) = i"
    "wspec (tcb k t) = mtx_wspec (mtxatr (mtx k i))" "t < NUM_TSKID k" "ts_wait (state (tcb k t))"
    "exists_task t k"
proof -
  show i: "i < nat (max_mtxid k)" using inv(2) t by (cases "i < nat (max_mtxid k)") (auto simp: mtx_inv_def)
  show ne: "mtxid (mtx k i) \<noteq> 0" using mtx_inv_ok [OF inv(2) i] t by (auto simp: mtx_ok_def)
  note live = mtx_inv_live [OF inv(2) i ne]
  show "get_mtxcb (wid (tcb k t)) = i" "wspec (tcb k t) = mtx_wspec (mtxatr (mtx k i))"
    using live(1,4) t by (simp_all add: wq_ok_def get_mtxcb_def INDEX_def)
  show "t < NUM_TSKID k" "ts_wait (state (tcb k t))" using kinv_waiter [OF inv(1) t] by simp_all
  then show "exists_task t k" using wait_state_simps by (auto simp: exists_task_def)
qed

text \<open>What one held mutex contributes to the loops, given the priority carried along.\<close>

lemma Min_insert_le:
  assumes "finite A" "newpri \<le> pri"
  shows "Min (insert (if newpri > p then p else newpri) A) = Min (insert newpri (insert p A))"
  using assms by (cases "A = {}") (auto simp: min_def)

lemma release_loop_list:
  "fst (release_loop rel ms pri newpri k) = filter (\<lambda>m. rel \<noteq> Some m) ms"
  by (induction ms arbitrary: pri newpri) (auto simp: Let_def split_beta)

lemma mtx_claims_head:
  assumes "mtx_inv Y k" "i < nat (max_mtxid k)" "mtxid (mtx k i) \<noteq> 0" "mtx_kind i k = TA_INHERIT" "mtx_waited i k"
  shows "Min (mtx_claims k i) = mtx_head_pri i k" "mtx_claims k i \<noteq> {}"
proof -
  have q: "que k (MtxQ i) \<noteq> []" using assms(5) by (simp add: mtx_waited_def isQueEmpty_def)
  have "wq_ok (MtxQ i) TA_TPRI (mtxid (mtx k i)) (mtx_wspec (mtxatr (mtx k i))) k"
    using mtx_inv_live(1) [OF assms(1-3)] assms(4) by (simp add: mtx_order_def mtx_kind_def)
  from wq_head_min [OF this q] assms(4) q
  show "Min (mtx_claims k i) = mtx_head_pri i k" "mtx_claims k i \<noteq> {}"
    by (simp_all add: mtx_claims_def mtx_head_pri_def)
qed

lemma release_loop_pri:
  assumes inv: "mtx_inv Y k" and ms: "\<And>m. m \<in> set ms \<Longrightarrow> m < nat (max_mtxid k) \<and> mtxid (mtx k m) \<noteq> 0"
    and le: "newpri \<le> pri"
  shows "snd (release_loop rel ms pri newpri k) =
    Min (insert newpri (\<Union>i \<in> {m \<in> set ms. rel \<noteq> Some m}. mtx_claims k i))"
  using ms le
proof (induction ms arbitrary: pri newpri)
  case (Cons m ms)
  let ?U = "\<Union>i \<in> {m \<in> set ms. rel \<noteq> Some m}. mtx_claims k i"
  have fin: "finite ?U" by simp
  show ?case
  proof (cases "rel = Some m")
    case True
    moreover from this have "{x \<in> set (m # ms). rel \<noteq> Some x} = {x \<in> set ms. rel \<noteq> Some x}" by auto
    ultimately show ?thesis using Cons.IH [of newpri pri] Cons.prems by simp
  next
    case False
    let ?p = "if mtx_kind m k = TA_CEILING then ceilpri (mtx k m)
              else if mtx_kind m k = TA_INHERIT \<and> mtx_waited m k then mtx_head_pri m k else pri"
    let ?n = "if newpri > ?p then ?p else newpri"
    have IH: "snd (release_loop rel ms ?p ?n k) = Min (insert ?n ?U)"
      using Cons.prems by (intro Cons.IH) auto
    have U: "(\<Union>i \<in> {x \<in> set (m # ms). rel \<noteq> Some x}. mtx_claims k i) = mtx_claims k m \<union> ?U" using False by auto
    have "Min (insert ?n ?U) = Min (insert newpri (mtx_claims k m \<union> ?U))"
    proof (cases "mtx_claims k m = {}")
      case True
      then have "\<not> (mtx_kind m k = TA_INHERIT \<and> mtx_waited m k)" "mtx_kind m k \<noteq> TA_CEILING"
        using mtx_claims_head(2) [OF inv, of m] Cons.prems(1) [of m] by (auto simp: mtx_claims_def)
      then have "?n = newpri" using Cons.prems(2) by auto
      with True show ?thesis by simp
    next
      case ne: False
      have p: "?p = Min (mtx_claims k m)"
        using ne mtx_claims_head(1) [OF inv, of m] Cons.prems(1) [of m]
        by (auto simp: mtx_claims_def mtx_waited_def isQueEmpty_def split: if_splits)
      have "Min (insert newpri (mtx_claims k m)) = min newpri (Min (mtx_claims k m))"
        using ne by (intro Min_insert) simp_all
      then have n: "?n = Min (insert newpri (mtx_claims k m))"
        unfolding p by (simp add: min_def not_le)
      show ?thesis
        unfolding n using ne fin by (cases "?U = {}") (simp_all add: Min_Un ac_simps)
    qed
    then show ?thesis using False IH U by (simp add: Let_def split_beta)
  qed
qed simp

lemma mtx_claims_upd_tcb [simp]:
  "priority (f (tcb k t)) = priority (tcb k t) \<Longrightarrow> mtx_claims (upd_tcb t f k) i = mtx_claims k i"
  by (auto simp: mtx_claims_def mtx_kind_def)

text \<open>The two loops compute the exact priority, without the released mutex or with the new base priority.\<close>

lemma release_loop_exact:
  assumes inv: "mtx_inv Y k" and t: "exists_task t k"
  shows "release_loop rel (mtxlist (tcb k t)) (bpriority (tcb k t)) (bpriority (tcb k t)) k =
    (let ms = filter (\<lambda>m. rel \<noteq> Some m) (mtxlist (tcb k t))
     in (ms, Min (claims t (upd_tcb t (\<lambda>c. c\<lparr>mtxlist := ms\<rparr>) k))))"
  using release_loop_pri [OF inv _ order_refl, of "mtxlist (tcb k t)"] heldD(1,2) [OF inv t]
  by (intro prod_eqI) (simp_all add: release_loop_list claims_def Let_def)

definition ceilings :: "nat list \<Rightarrow> kernel \<Rightarrow> int set" where
  "ceilings ms k = {int (ceilpri (mtx k i)) | i. i \<in> set ms \<and> mtx_kind i k = TA_CEILING}"

lemma ceilings_simps [simp]:
  "ceilings [] k = {}"
  "ceilings (m # ms) k = (if mtx_kind m k = TA_CEILING then {int (ceilpri (mtx k m))} else {}) \<union> ceilings ms k"
  "finite (ceilings ms k)"
proof -
  show "ceilings [] k = {}"
    "ceilings (m # ms) k = (if mtx_kind m k = TA_CEILING then {int (ceilpri (mtx k m))} else {}) \<union> ceilings ms k"
    by (auto simp: ceilings_def)
  have "ceilings ms k = (\<lambda>i. int (ceilpri (mtx k i))) ` {i \<in> set ms. mtx_kind i k = TA_CEILING}"
    by (auto simp: ceilings_def)
  then show "finite (ceilings ms k)" by simp
qed

lemma chg_pri_loop_hi:
  assumes inv: "mtx_inv Y k" and ms: "\<And>m. m \<in> set ms \<Longrightarrow> m < nat (max_mtxid k) \<and> mtxid (mtx k m) \<noteq> 0"
    and le: "hi \<le> pri"
  shows "fst (chg_pri_loop ms pri hi low k) = Min (insert hi (int ` (\<Union>i \<in> set ms. mtx_claims k i)))"
  using ms le
proof (induction ms arbitrary: pri hi low)
  case (Cons m ms)
  let ?U = "int ` (\<Union>i \<in> set ms. mtx_claims k i)"
  let ?p = "if mtx_kind m k = TA_CEILING then int (ceilpri (mtx k m))
            else if mtx_kind m k = TA_INHERIT \<and> mtx_waited m k then int (mtx_head_pri m k) else pri"
  let ?n = "if ?p < hi then ?p else hi"
  let ?l = "if mtx_kind m k = TA_CEILING \<and> int (ceilpri (mtx k m)) > low then int (ceilpri (mtx k m)) else low"
  have fin: "finite ?U" by simp
  have step: "fst (chg_pri_loop (m # ms) pri hi low k) = fst (chg_pri_loop ms ?p ?n ?l k)"
    by (simp add: Let_def split_beta)
  have IH: "fst (chg_pri_loop ms ?p ?n ?l k) = Min (insert ?n ?U)"
    using Cons.prems by (intro Cons.IH) auto
  have U: "int ` (\<Union>i \<in> set (m # ms). mtx_claims k i) = int ` mtx_claims k m \<union> ?U" by auto
  have "Min (insert ?n ?U) = Min (insert hi (int ` mtx_claims k m \<union> ?U))"
  proof (cases "mtx_claims k m = {}")
    case True
    then have "\<not> (mtx_kind m k = TA_INHERIT \<and> mtx_waited m k)" "mtx_kind m k \<noteq> TA_CEILING"
      using mtx_claims_head(2) [OF inv, of m] Cons.prems(1) [of m] by (auto simp: mtx_claims_def)
    then have "?n = hi" using Cons.prems(2) by auto
    with True show ?thesis by simp
  next
    case ne: False
    have c: "Min (int ` mtx_claims k m) = int (Min (mtx_claims k m))"
      using ne by (intro mono_Min_commute [symmetric]) (simp_all add: mono_def)
    have p: "?p = Min (int ` mtx_claims k m)"
      unfolding c using ne mtx_claims_head(1) [OF inv, of m] Cons.prems(1) [of m]
      by (auto simp: mtx_claims_def mtx_waited_def isQueEmpty_def split: if_splits)
    have "Min (insert hi (int ` mtx_claims k m)) = min hi (Min (int ` mtx_claims k m))"
      using ne by (intro Min_insert) simp_all
    then have n: "?n = Min (insert hi (int ` mtx_claims k m))"
      unfolding p by (simp add: min_def not_le)
    show ?thesis
      unfolding n using ne fin by (cases "?U = {}") (simp_all add: Min_Un ac_simps)
  qed
  then show ?case using step IH U by simp
qed simp

lemma chg_pri_loop_low:
  "snd (chg_pri_loop ms pri hi low k) = Max (insert low (ceilings ms k))"
proof (induction ms arbitrary: pri hi low)
  case (Cons m ms)
  have "Max (insert (max l c) A) = Max (insert l (insert c A))" if "finite A" for l c :: int and A
    using that by (cases "A = {}") (simp_all add: max.assoc)
  from this [of "ceilings ms k" low "int (ceilpri (mtx k m))"] Cons show ?case
    by (auto simp: Let_def split_beta max_def)
qed simp

text \<open>The highest priority that the ceilings of the mutexes held or waited for allow the task.\<close>

definition pri_limit :: "tid \<Rightarrow> kernel \<Rightarrow> int" where
  "pri_limit t k =
     Max ({0} \<union> ceilings (mtxlist (tcb k t)) k \<union>
          (if ts_wait (state (tcb k t)) \<and> tskwait (wspec (tcb k t)) AND TTW_MTX \<noteq> 0
           then ceilings [get_mtxcb (wid (tcb k t))] k else {}))"

lemma chg_pri_mutex_result:
  assumes inv: "mtx_inv Y k" and t: "exists_task t k"
  shows "chg_pri_mutex t (int p) k =
    (if int p < pri_limit t k then E_ILUSE
     else int (Min (claims t (upd_tcb t (\<lambda>c. c\<lparr>bpriority := p\<rparr>) k))))"
proof -
  let ?C = "ceilings (mtxlist (tcb k t)) k" and ?U = "\<Union>i \<in> set (mtxlist (tcb k t)). mtx_claims k i"
  let ?w = "ts_wait (state (tcb k t)) \<and> tskwait (wspec (tcb k t)) AND TTW_MTX \<noteq> 0"
  let ?i = "get_mtxcb (wid (tcb k t))"
  let ?low = "if ?w \<and> mtx_kind ?i k = TA_CEILING \<and> int (ceilpri (mtx k ?i)) > 0 then int (ceilpri (mtx k ?i)) else 0"
  let ?r = "chg_pri_loop (mtxlist (tcb k t)) (int p) (int p) ?low k"
  have eq: "chg_pri_mutex t (int p) k = (if int p < snd ?r then E_ILUSE else fst ?r)"
    by (simp add: chg_pri_mutex_def Let_def split_beta int_priority_def conj_assoc)
  have "fst ?r = Min (insert (int p) (int ` ?U))"
    by (rule chg_pri_loop_hi [OF inv]) (use heldD(1,2) [OF inv t] in auto)
  also have "\<dots> = Min (int ` insert p ?U)" by simp
  also have "\<dots> = int (Min (insert p ?U))"
    by (intro mono_Min_commute [symmetric]) (simp_all add: mono_def)
  finally have hi: "fst ?r = int (Min (claims t (upd_tcb t (\<lambda>c. c\<lparr>bpriority := p\<rparr>) k)))"
    by (simp add: claims_def)
  have max0: "Max (insert 0 (insert c A)) = Max (insert (if 0 < c then c else 0) A)" if "finite A" for c :: int and A
    using that by (cases "A = {}") (auto simp: max_def)
  have "snd ?r = Max (insert ?low ?C)" by (rule chg_pri_loop_low)
  also have "\<dots> = pri_limit t k"
    using max0 [of ?C "int (ceilpri (mtx k ?i))"] by (auto simp: pri_limit_def)
  finally show ?thesis using eq hi by simp
qed

end
