(* ===== verification/Inheritance.thy ===== *)
theory Inheritance
  imports Hooks Mutex_Inv
begin

text \<open>
  Changes of priority and where they lead. A task that waits for an inheritance mutex passes a change on
  to the owner of the mutex, and so on along the chain of owners; a task that waits for another object
  has its hook run. Every such call comes back, within as many nested calls as there are tasks, and
  leaves every task with the exact priority.
\<close>

subsection \<open>Steps\<close>

lemma pri_changed_exists: "pri_changed k k' \<Longrightarrow> exists_task u k' \<longleftrightarrow> exists_task u k"
  using pri_changed_state(1) [of k k' u] fixed_objs_eqD(18) [OF pri_changedD(2), of k k']
  by (simp add: exists_task_def)

lemma mtx_inv_pri_changed:
  assumes inv: "mtx_inv Y k" and pc: "pri_changed k k'"
    and sorted: "\<And>i. i < nat (max_mtxid k) \<Longrightarrow> mtxid (mtx k i) \<noteq> 0 \<Longrightarrow> mtx_order (mtxatr (mtx k i)) \<noteq> 0 \<Longrightarrow>
      sorted (map (\<lambda>u. priority (tcb k' u)) (que k' (MtxQ i)))"
  shows "mtx_inv Y k'"
proof -
  note d = pri_changedD [OF pc] and o = fixed_objs_eqD [OF pri_changedD(2) [OF pc]] and f = fixed_part_eqD [OF pri_changedD(3) [OF pc]]
  note st = pri_changed_state(1,2) [OF pc]
  have q: "set (que k' (MtxQ i)) = set (que k (MtxQ i))" for i by (rule d(6)) simp_all
  then have q0: "que k' (MtxQ i) = [] \<longleftrightarrow> que k (MtxQ i) = []" for i by (metis set_empty)
  have ex: "exists_task u k' = exists_task u k" for u by (rule pri_changed_exists [OF pc])
  have own: "mtx_owned i k' = mtx_owned i k" for i
    by (cases "mtxtsk (mtx k i)") (simp_all add: mtx_owned_def o f q q0 ex)
  have "mtx_ok Y i k'" if i: "i < nat (max_mtxid k)" for i
  proof (cases "mtxid (mtx k i) = 0")
    case True
    then show ?thesis using mtx_inv_ok [OF inv i] q0 by (simp add: mtx_ok_def o)
  next
    case False
    have "mtx_order a AND TA_TPRI \<noteq> 0 \<longleftrightarrow> mtx_order a \<noteq> 0" for a by (simp add: mtx_order_def)
    then show ?thesis
      using False mtx_inv_live [OF inv i False] sorted [OF i False]
      by (simp add: mtx_ok_def o own mtx_kind_def wq_ok_def q f)
  qed
  moreover have "held_ok Y t k'" if "exists_task t k" for t
    using mtx_inv_held [OF inv that] by (simp add: held_ok_def f o st)
  ultimately show ?thesis using inv by (simp add: mtx_inv_def o q0 ex)
qed

text \<open>\<open>pri_step t p k k'\<close>: the priority of \<open>t\<close> is now \<open>p\<close>, and every other priority is as it was.\<close>

definition pri_step :: "nat set \<Rightarrow> tid \<Rightarrow> nat \<Rightarrow> kernel \<Rightarrow> kernel \<Rightarrow> bool" where
  "pri_step Y t p k k' \<longleftrightarrow>
     pri_changed k k' \<and> mtx_inv Y k' \<and>
     (\<forall>u. priority (tcb k' u) = (if u = t then p else priority (tcb k u)))"

lemma pri_stepD:
  assumes "pri_step Y t p k k'"
  shows "pri_changed k k'" "mtx_inv Y k'" "priority (tcb k' u) = (if u = t then p else priority (tcb k u))"
  using assms by (simp_all add: pri_step_def)

lemma mtx_sorted:
  assumes "mtx_inv Y k" "i < nat (max_mtxid k)" "mtxid (mtx k i) \<noteq> 0" "mtx_order (mtxatr (mtx k i)) \<noteq> 0"
  shows "sorted (map (\<lambda>u. priority (tcb k u)) (que k (MtxQ i)))"
proof -
  have "mtx_order (mtxatr (mtx k i)) AND TA_TPRI \<noteq> 0" using assms(4) by (simp add: mtx_order_def split: if_splits)
  with mtx_inv_live(1) [OF assms(1-3)] show ?thesis by (simp add: wq_ok_def)
qed

text \<open>A task on no mutex queue that is kept sorted.\<close>

lemma pri_step_unsorted:
  assumes inv: "mtx_inv Y k" and pc: "pri_changed k k'"
    and t: "\<And>i. t \<in> set (que k (MtxQ i)) \<Longrightarrow> mtx_order (mtxatr (mtx k i)) = 0"
    and q: "\<And>i. que k' (MtxQ i) = que k (MtxQ i)"
    and p: "\<And>u. priority (tcb k' u) = (if u = t then p else priority (tcb k u))"
  shows "pri_step Y t p k k'"
proof -
  have "sorted (map (\<lambda>u. priority (tcb k' u)) (que k' (MtxQ i)))"
    if "i < nat (max_mtxid k)" "mtxid (mtx k i) \<noteq> 0" "mtx_order (mtxatr (mtx k i)) \<noteq> 0" for i
  proof -
    have "t \<notin> set (que k (MtxQ i))" using t that(3) by auto
    then show ?thesis
      unfolding q using mtx_sorted [OF inv that] by (subst sorted_map_cong [of _ _ "\<lambda>u. priority (tcb k u)"]) (auto simp: p)
  qed
  from mtx_inv_pri_changed [OF inv pc this] pc p show ?thesis by (simp add: pri_step_def)
qed

lemma pri_step_reorder:
  assumes kv: "kinv {} k" and inv: "mtx_inv Y k" and t: "t \<in> set (que k (MtxQ i))" and p: "p < NUM_PRI"
    and o: "mtx_order (mtxatr (mtx k i)) \<noteq> 0"
  shows "pri_step Y t p k (gcb_change_priority (MtxQ i) t (set_priority t p k))"
proof -
  let ?k = "gcb_change_priority (MtxQ i) t (set_priority t p k)"
  note w = mtx_waiter [OF kv inv t]
  note live = mtx_inv_live [OF inv w(1,2)]
  have tpri: "mtx_order (mtxatr (mtx k i)) AND TA_TPRI \<noteq> 0" using o by (simp add: mtx_order_def split: if_splits)
  note g = wq_chg_pri [OF kv t _ _ p live(1) tpri, simplified]
  have pc: "pri_changed k ?k" by (rule pri_changed_reorder [OF kv t _ _ p]) simp_all
  have "sorted (map (\<lambda>u. priority (tcb ?k u)) (que ?k (MtxQ j)))"
    if "j < nat (max_mtxid k)" "mtxid (mtx k j) \<noteq> 0" "mtx_order (mtxatr (mtx k j)) \<noteq> 0" for j
  proof (cases "j = i")
    case True
    then show ?thesis using g(2) tpri by (simp add: wq_ok_def)
  next
    case False
    then have "t \<notin> set (que k (MtxQ j))" using disjoint_queuesD [OF kinvD(6) [OF kv] t, of "MtxQ j"] by simp
    moreover have "que ?k (MtxQ j) = que k (MtxQ j)" using g(4) False by simp
    ultimately show ?thesis
      using mtx_sorted [OF inv that]
      by (simp only:) (subst sorted_map_cong [of _ _ "\<lambda>u. priority (tcb k u)"], auto)
  qed
  from mtx_inv_pri_changed [OF inv pc this] pc p show ?thesis by (simp add: pri_step_def)
qed

text \<open>How a step moves the claims: only the owner of an inheritance mutex the task waits for sees it.\<close>

lemma pri_step_mtx_claims:
  assumes st: "pri_step Y t p k k'" and i: "mtx_kind i k = TA_INHERIT \<Longrightarrow> t \<notin> set (que k (MtxQ i))"
  shows "mtx_claims k' i = mtx_claims k i"
proof -
  note d = pri_stepD [OF st] and o = fixed_objs_eqD(16) [OF pri_changedD(2) [OF pri_stepD(1) [OF st]]]
  have "set (que k' (MtxQ i)) = set (que k (MtxQ i))" by (rule pri_changedD(6) [OF d(1)]) simp_all
  then show ?thesis using i by (auto simp: mtx_claims_def mtx_kind_def o d(3))
qed

lemma pri_step_claims:
  assumes st: "pri_step Y t p k k'"
    and u: "\<And>i. i \<in> set (mtxlist (tcb k u)) \<Longrightarrow> mtx_kind i k = TA_INHERIT \<Longrightarrow> t \<notin> set (que k (MtxQ i))"
  shows "claims u k' = claims u k"
proof -
  note f = fixed_part_eqD [OF pri_changedD(3) [OF pri_stepD(1) [OF st]], of u]
  have "(\<Union>i \<in> set (mtxlist (tcb k u)). mtx_claims k' i) = (\<Union>i \<in> set (mtxlist (tcb k u)). mtx_claims k i)"
    by (intro SUP_cong refl pri_step_mtx_claims [OF st] u)
  then show ?thesis by (simp add: claims_def f)
qed

subsection \<open>What the mutexes rely on\<close>

text \<open>
  A change of priority may reach a task that waits for an object of another class, and then runs that
  object's hook. The locale states what the mutexes need of it: the call comes back, the other objects are
  in order again (\<open>oinv\<close>), and no mutex queue has changed. \<open>hk n\<close> is the hook table with room for \<open>n\<close>
  nested calls; \<open>other_objs\<close> is the state of the other objects and \<open>object_queue\<close> are their queues.
\<close>

definition other_objs :: "kernel \<Rightarrow> _" where
  "other_objs k = (semcb_table k, free_semcb k, max_semid k, flgcb_table k, free_flgcb k, max_flgid k,
     mbxcb_table k, free_mbxcb k, max_mbxid k, msgque k, msgpri k, mbfcb_table k, free_mbfcb k, max_mbfid k)"

fun object_queue :: "qhead \<Rightarrow> bool" where
  "object_queue (SemQ i) = True"
| "object_queue (FlgQ i) = True"
| "object_queue (MbxQ i) = True"
| "object_queue (SmbfQ i) = True"
| "object_queue (RmbfQ i) = True"
| "object_queue (CalQ i) = True"
| "object_queue (AcpQ i) = True"
| "object_queue _ = False"

lemma object_queue_not: "object_queue h \<Longrightarrow> \<not> rdyq h" "object_queue h \<Longrightarrow> h \<noteq> FreeTcb" "object_queue h \<Longrightarrow> h \<noteq> MtxQ i"
  by (cases h; simp)+

lemma other_objs_objs:
  assumes "objs k' = objs k"
  shows "other_objs k' = other_objs k"
  unfolding other_objs_def objs_eqD [OF assms] by (rule refl)

lemma pri_step_claims_sub:
  assumes st: "pri_step Y t p k k'"
  shows "claims u k' \<subseteq> insert p (claims u k)"
    and "claims u k - {priority (tcb k t)} \<subseteq> claims u k'"
proof -
  note d = pri_stepD [OF st] and o = fixed_objs_eqD(16) [OF pri_changedD(2) [OF pri_stepD(1) [OF st]]]
  note f = fixed_part_eqD [OF pri_changedD(3) [OF d(1)], of u]
  have q: "set (que k' (MtxQ i)) = set (que k (MtxQ i))" for i by (rule pri_changedD(6) [OF d(1)]) simp_all
  have "mtx_claims k' i \<subseteq> insert p (mtx_claims k i)" "mtx_claims k i - {priority (tcb k t)} \<subseteq> mtx_claims k' i" for i
    by (auto simp: mtx_claims_def mtx_kind_def o d(3) q)
  then show "claims u k' \<subseteq> insert p (claims u k)" "claims u k - {priority (tcb k t)} \<subseteq> claims u k'"
    unfolding claims_def f by fast+
qed

lemma reset_priority_exact:
  assumes "mtx_inv Y k" "exists_task t k"
  shows "reset_priority hks t k =
    (if exact t k then Some k else change_task_priority hks t (Min (claims t k)) k)"
proof -
  have "upd_tcb t (\<lambda>c. c\<lparr>mtxlist := mtxlist (tcb k t)\<rparr>) k = k" by (simp add: upd_tcb_def)
  then show ?thesis
    using release_loop_exact [OF assms, of None]
    by (auto simp: reset_priority_def release_mutex_def Let_def exact_at_def)
qed

text \<open>
  The tasks a change may go on to: with a task that waits for an inheritance mutex its owner.
\<close>

definition follows :: "tid set \<Rightarrow> nat set \<Rightarrow> kernel \<Rightarrow> bool" where
  "follows R Y k \<longleftrightarrow>
     (\<forall>u \<in> R. \<forall>i. u \<in> set (que k (MtxQ i)) \<and> mtx_kind i k = TA_INHERIT \<longrightarrow>
        i \<notin> Y \<and> (\<forall>v. mtxtsk (mtx k i) = Some v \<longrightarrow> v \<in> R))"

lemma follows_cong:
  assumes "pri_changed k k'"
  shows "follows R Y k' = follows R Y k"
proof -
  have "set (que k' (MtxQ i)) = set (que k (MtxQ i))" for i by (rule pri_changedD(6) [OF assms]) simp_all
  then show ?thesis
    by (simp add: follows_def mtx_kind_def fixed_objs_eqD(16) [OF pri_changedD(2) [OF assms]])
qed

text \<open>The fields of a TCB that the objects a task waits for look at.\<close>

definition same_wait :: "tcb \<Rightarrow> tcb \<Rightarrow> bool" where
  "same_wait c' c \<longleftrightarrow> winfo c' = winfo c \<and> wid c' = wid c \<and> wspec c' = wspec c \<and> priority c' = priority c"

locale wait_objects =
  fixes oinv :: "kernel \<Rightarrow> bool" and hk :: "nat \<Rightarrow> hooks"
  assumes chg_hook: "chg_pri_hook (hk (Suc n)) WSPEC_MTX_TPRI = Some (mtx_chg_pri (hk n))"
      "chg_pri_hook (hk (Suc n)) WSPEC_MTX_INHERIT = Some (mtx_chg_pri (hk n))"
      "chg_pri_hook (hk n) WSPEC_MTX_TFIFO = None"
    and rel_hook: "rel_wai_hook (hk (Suc n)) WSPEC_MTX_INHERIT = Some (mtx_rel_wai (hk n))"
      "rel_wai_hook (hk n) WSPEC_MTX_TPRI = None" "rel_wai_hook (hk n) WSPEC_MTX_TFIFO = None"
    and cong: "oinv k \<Longrightarrow> other_objs k' = other_objs k \<Longrightarrow>
      (\<And>h. object_queue h \<Longrightarrow> que k' h = que k h) \<Longrightarrow>
      (\<And>h t. object_queue h \<Longrightarrow> t \<in> set (que k h) \<Longrightarrow> same_tcb (tcb k' t) (tcb k t)) \<Longrightarrow> oinv k'"
    and fields: "oinv k \<Longrightarrow> same_wait (f (tcb k t)) (tcb k t) \<Longrightarrow> oinv (upd_tcb t f k)"
    and change: "kinv {} k \<Longrightarrow> oinv k \<Longrightarrow> h \<in> {Some q | q. object_queue q} \<union> {None} \<Longrightarrow>
      exists_task t k \<Longrightarrow> state (tcb k t) \<noteq> TS_READY \<Longrightarrow> home (tcb k t) = h \<Longrightarrow> p < NUM_PRI \<Longrightarrow>
      \<exists>k'. change_task_priority (hk n) t p k = Some k' \<and> pri_changed k k' \<and> oinv k' \<and>
        (\<forall>u. core (tcb k' u) = core (tcb (set_priority t p k) u)) \<and> (\<forall>i. que k' (MtxQ i) = que k (MtxQ i))"
begin

lemma oinv_objs:
  assumes "oinv k" "objs k' = objs k" "\<And>h. object_queue h \<Longrightarrow> que k' h = que k h"
    "\<And>h t. object_queue h \<Longrightarrow> t \<in> set (que k h) \<Longrightarrow> same_tcb (tcb k' t) (tcb k t)"
  shows "oinv k'"
  by (rule cong [OF assms(1) other_objs_objs [OF assms(2)] assms(3,4)])

lemma core_set_priority:
  assumes "core (tcb k' u) = core (tcb (set_priority t p k) u)" "p < NUM_PRI"
  shows "priority (tcb k' u) = (if u = t then p else priority (tcb k u))"
    and "u \<noteq> t \<Longrightarrow> same_tcb (tcb k' u) (tcb k u)"
  using core_eqD(4) [OF assms(1)] same_tcb_core [OF assms(1)] assms(2) by auto

text \<open>A change that goes no further.\<close>

lemma change_local:
  assumes kv: "kinv {} k" and o: "oinv k" and inv: "mtx_inv Y k" and t: "exists_task t k" and p: "p < NUM_PRI"
    and no: "\<And>i. t \<in> set (que k (MtxQ i)) \<Longrightarrow> mtx_kind i k \<noteq> TA_INHERIT"
  obtains k' where "change_task_priority (hk (Suc n)) t p k = Some k'" "pri_step Y t p k k'" "oinv k'"
proof (cases "\<exists>i. t \<in> set (que k (MtxQ i))")
  case True
  then obtain i where ti: "t \<in> set (que k (MtxQ i))" by blast
  note w = mtx_waiter [OF kv inv ti]
  have st: "state (tcb k t) \<noteq> TS_READY" using w(6) wait_state_simps by blast
  have oo: "oinv k'" if "objs k' = objs k" "\<And>h. object_queue h \<Longrightarrow> que k' h = que k h"
    "\<And>u. u \<noteq> t \<Longrightarrow> tcb k' u = tcb k u" for k'
  proof (rule oinv_objs [OF o that(1,2)])
    fix h u assume "object_queue h" "u \<in> set (que k h)"
    then have "u \<noteq> t" using disjoint_queuesD [OF kinvD(6) [OF kv] ti, of h] object_queue_not(3) [of h i] by auto
    then show "same_tcb (tcb k' u) (tcb k u)" using that(3) by (simp add: same_tcb_def)
  qed
  show thesis
  proof (cases "mtx_order (mtxatr (mtx k i)) = 0")
    case True
    then have ws: "wspec (tcb k t) = WSPEC_MTX_TFIFO" using w(4) by (simp add: mtx_order_def mtx_wspec_def split: if_splits)
    have "change_task_priority (hk (Suc n)) t p k = Some (set_priority t p k)"
      using st w(6) ws by (simp add: change_task_priority_def chg_hook Let_def)
    moreover have "pri_step Y t p k (set_priority t p k)"
    proof (rule pri_step_unsorted [OF inv pri_changed_set_priority [OF kv st p]])
      show "mtx_order (mtxatr (mtx k j)) = 0" if "t \<in> set (que k (MtxQ j))" for j
        using disjoint_queuesD [OF kinvD(6) [OF kv] ti, of "MtxQ j"] that True by simp
    qed (use p in simp_all)
    moreover have "oinv (set_priority t p k)" by (rule oo) simp_all
    ultimately show thesis by (rule that)
  next
    case False
    let ?k = "gcb_change_priority (MtxQ i) t (set_priority t p k)"
    have kvs: "kinv {} (set_priority t p k)" using kinv_set_priority [OF kv] st p by simp
    note g = kinv_gcb_change_priority [OF kvs, of t "MtxQ i", simplified, OF ti]
    have kind: "mtxatr (mtx k i) AND TA_CEILING \<noteq> 0" "mtxatr (mtx k i) AND TA_CEILING \<noteq> TA_INHERIT"
      using False no [OF ti] by (auto simp: mtx_order_def mtx_kind_def)
    then have ws: "wspec (tcb k t) = WSPEC_MTX_TPRI" using w(4) by (simp add: mtx_wspec_def)
    have "change_task_priority (hk (Suc n)) t p k = Some ?k"
      using st w(3,6) ws kind by (simp add: change_task_priority_def chg_hook Let_def mtx_chg_pri_def mtx_kind_def)
    moreover have "pri_step Y t p k ?k" by (rule pri_step_reorder [OF kv inv ti p False])
    moreover have "oinv ?k" by (rule oo) (simp_all add: g(2) object_queue_not)
    ultimately show thesis by (rule that)
  qed
next
  case False
  have step: "pri_step Y t p k k'" if pc: "pri_changed k k'" and c: "\<forall>u. core (tcb k' u) = core (tcb (set_priority t p k) u)"
    and q: "\<forall>i. que k' (MtxQ i) = que k (MtxQ i)" for k'
    by (rule pri_step_unsorted [OF inv pc]) (use False q core_set_priority(1) [OF c [rule_format] p] in auto)
  show thesis
  proof (cases "state (tcb k t) = TS_READY")
    case True
    obtain k' where k': "change_task_priority (hk (Suc n)) t p k = Some k'" "pri_changed k k'"
        "\<And>u. core (tcb k' u) = core (tcb (set_priority t p k) u)"
        "\<And>h. \<not> rdyq h \<Longrightarrow> que k' h = que k h" "objs k' = objs k"
      using change_ready_priority [OF kv _ True p, of "hk (Suc n)"] t unfolding exists_task_def by metis
    have "oinv k'"
    proof (rule oinv_objs [OF o k'(5)])
      show "que k' h = que k h" if "object_queue h" for h using k'(4) object_queue_not(1) [OF that] .
      fix h u assume "object_queue h" "u \<in> set (que k h)"
      then have "u \<noteq> t" using kinv_ready_notin [OF kv True object_queue_not(1)] by blast
      then show "same_tcb (tcb k' u) (tcb k u)" by (rule core_set_priority(2) [OF k'(3) p])
    qed
    then show thesis using k' by (intro that [OF k'(1) step]) simp_all
  next
    case ready: False
    have "home (tcb k t) \<in> {Some q | q. object_queue q} \<union> {None}"
    proof (cases "home (tcb k t)")
      case (Some q)
      have "q \<noteq> FreeTcb" using Some t by (auto simp: exists_task_def)
      moreover have "q \<noteq> RdyQ pp" for pp using Some ready by auto
      moreover have "q \<noteq> MtxQ i" for i using False Some kinv_mem [OF kv, of t "MtxQ i"] t by (auto simp: exists_task_def)
      moreover have "q \<noteq> LockQ l" for l
        using Some ready t by (cases "state (tcb k t)") (auto simp: exists_task_def)
      ultimately show ?thesis using Some by (cases q) auto
    qed simp
    from change [OF kv o this t ready refl p, of "Suc n"] step show thesis by (metis that)
  qed
qed

text \<open>A change of a task that waits for an inheritance mutex, up to the call for the owner.\<close>

lemma change_inherit:
  assumes kv: "kinv {} k" and o: "oinv k" and inv: "mtx_inv Y k" and p: "p < NUM_PRI"
    and t: "t \<in> set (que k (MtxQ i))" "mtx_kind i k = TA_INHERIT" and v: "mtxtsk (mtx k i) = Some v" "v \<noteq> t"
  obtains k1 where "pri_step Y t p k k1" "oinv k1"
    "change_task_priority (hk (Suc n)) t p k =
       (if p < priority (tcb k v) then change_task_priority (hk n) v p k1
        else if priority (tcb k v) = priority (tcb k t) then reset_priority (hk n) v k1
        else Some k1)"
proof -
  let ?k = "gcb_change_priority (MtxQ i) t (set_priority t p k)"
  note w = mtx_waiter [OF kv inv t(1)]
  have st: "state (tcb k t) \<noteq> TS_READY" using w(6) wait_state_simps by blast
  have kvs: "kinv {} (set_priority t p k)" using kinv_set_priority [OF kv] st p by simp
  note g = kinv_gcb_change_priority [OF kvs, of t "MtxQ i", simplified, OF t(1)]
  have kind: "mtxatr (mtx k i) AND TA_CEILING = TA_INHERIT" using t(2) by (simp add: mtx_kind_def)
  then have ws: "wspec (tcb k t) = WSPEC_MTX_INHERIT" using w(4) by (simp add: mtx_wspec_def)
  have "pri_step Y t p k ?k" by (rule pri_step_reorder [OF kv inv t(1) p]) (simp add: mtx_order_def kind)
  moreover have "oinv ?k"
  proof (rule oinv_objs [OF o])
    fix h u assume "object_queue h" "u \<in> set (que k h)"
    then have "u \<noteq> t" using disjoint_queuesD [OF kinvD(6) [OF kv] t(1), of h] object_queue_not(3) [of h i] by auto
    then show "same_tcb (tcb ?k u) (tcb k u)" by (simp add: same_tcb_def)
  qed (simp_all add: g(2) object_queue_not)
  moreover have "change_task_priority (hk (Suc n)) t p k =
       (if p < priority (tcb k v) then change_task_priority (hk n) v p ?k
        else if priority (tcb k v) = priority (tcb k t) then reset_priority (hk n) v ?k
        else Some ?k)"
    using st w(3,6) ws kind v p
    by (simp add: change_task_priority_def chg_hook Let_def mtx_chg_pri_def mtx_kind_def)
  ultimately show thesis by (rule that)
qed

lemma waiter_owner:
  assumes kv: "kinv {} k" and inv: "mtx_inv Y k" and t: "t \<in> set (que k (MtxQ i))" "i \<notin> Y"
  obtains v where "mtxtsk (mtx k i) = Some v" "v \<noteq> t" "exists_task v k" "i \<in> set (mtxlist (tcb k v))"
    "\<And>u j. exists_task u k \<Longrightarrow> u \<noteq> v \<Longrightarrow> j \<in> set (mtxlist (tcb k u)) \<Longrightarrow> t \<notin> set (que k (MtxQ j))"
proof -
  note w = mtx_waiter [OF kv inv t(1)]
  have "mtx_owned i k" by (rule mtx_inv_live(3) [OF inv w(1,2) t(2)])
  then obtain v where v: "mtxtsk (mtx k i) = Some v" "exists_task v k" "i \<in> set (mtxlist (tcb k v))" "v \<notin> set (que k (MtxQ i))"
    using t(1) by (auto simp: mtx_owned_def split: option.splits)
  have "t \<notin> set (que k (MtxQ j))" if "exists_task u k" "u \<noteq> v" "j \<in> set (mtxlist (tcb k u))" for u j
  proof
    assume "t \<in> set (que k (MtxQ j))"
    then have "j = i" using disjoint_queuesD [OF kinvD(6) [OF kv] t(1), of "MtxQ j"] by simp
    with heldD(3) [OF inv that(1,3)] t(2) v(1) that(2) show False by simp
  qed
  with v t(1) show thesis by (intro that [of v]) auto
qed

lemma inherit_step:
  assumes kv: "kinv {} k" and o: "oinv k" and inv: "mtx_inv Y k" and p: "p < NUM_PRI"
    and i: "t \<in> set (que k (MtxQ i))" "mtx_kind i k = TA_INHERIT" "i \<notin> Y"
  obtains v k1 where "mtxtsk (mtx k i) = Some v" "v \<noteq> t" "exists_task v k" "pri_step Y t p k k1" "oinv k1"
    "change_task_priority (hk (Suc n)) t p k =
       (if p < priority (tcb k v) then change_task_priority (hk n) v p k1
        else if priority (tcb k v) = priority (tcb k t) then reset_priority (hk n) v k1
        else Some k1)"
    "\<And>u. exists_task u k \<Longrightarrow> u \<noteq> v \<Longrightarrow> claims u k1 = claims u k"
    "p \<in> claims v k1" "priority (tcb k t) \<in> claims v k"
proof -
  obtain v where v: "mtxtsk (mtx k i) = Some v" "v \<noteq> t" "exists_task v k" "i \<in> set (mtxlist (tcb k v))"
      and others: "\<And>u j. exists_task u k \<Longrightarrow> u \<noteq> v \<Longrightarrow> j \<in> set (mtxlist (tcb k u)) \<Longrightarrow> t \<notin> set (que k (MtxQ j))"
    using waiter_owner [OF kv inv i(1,3)] by metis
  obtain k1 where st: "pri_step Y t p k k1" "oinv k1" and eq: "change_task_priority (hk (Suc n)) t p k =
       (if p < priority (tcb k v) then change_task_priority (hk n) v p k1
        else if priority (tcb k v) = priority (tcb k t) then reset_priority (hk n) v k1
        else Some k1)"
    using change_inherit [OF kv o inv p i(1,2) v(1,2), of n] by metis
  note d = pri_stepD [OF st(1)]
  have same: "claims u k1 = claims u k" if "exists_task u k" "u \<noteq> v" for u
    by (rule pri_step_claims [OF st(1)]) (use others [OF that] in auto)
  have "mtx_kind i k1 = TA_INHERIT"
    using i(2) fixed_objs_eqD(16) [OF pri_changedD(2) [OF d(1)]] by (simp add: mtx_kind_def)
  moreover have "t \<in> set (que k1 (MtxQ i))" using i(1) pri_changedD(6) [OF d(1), of "MtxQ i"] by simp
  ultimately have "p \<in> mtx_claims k1 i" using d(3) [of t] by (force simp: mtx_claims_def)
  then have "p \<in> claims v k1"
    using v(4) fixed_part_eqD(14) [OF pri_changedD(3) [OF d(1)], of v] by (auto simp: claims_def)
  moreover have "priority (tcb k t) \<in> claims v k"
    using v(4) i(1,2) by (auto simp: claims_def mtx_claims_def intro!: bexI [of _ i])
  ultimately show thesis using v(1-3) st eq same by (intro that [of v k1])
qed

text \<open>What becomes of the owner: he follows, or his priority is still exact.\<close>

lemma owner_raised:
  assumes "pri_step Y t p k k1" "p \<in> claims v k1" "exact v k" "p < priority (tcb k v)"
  shows "exact_at p v k1"
  using pri_step_claims_sub(1) [OF assms(1), of v] assms(2-4) unfolding exact_at_iff by force

lemma owner_kept:
  assumes "pri_step Y t p k k1" "v \<noteq> t" "exact v k" "priority (tcb k v) \<le> p" "priority (tcb k v) \<noteq> priority (tcb k t)"
  shows "exact v k1"
proof -
  have "priority (tcb k v) \<in> claims v k1"
    using pri_step_claims_sub(2) [OF assms(1), of v] assms(3,5) by (auto simp: exact_at_iff)
  moreover have "\<forall>q \<in> claims v k1. priority (tcb k v) \<le> q"
    using pri_step_claims_sub(1) [OF assms(1), of v] assms(3,4) by (force simp: exact_at_iff)
  ultimately show ?thesis using pri_stepD(3) [OF assms(1), of v] assms(2) by (simp add: exact_at_iff)
qed

lemma card_drop:
  assumes "card {u. exists_task u k \<and> P u} < Suc n" "exists_task t k" "P t"
    "\<And>u. exists_task u k' \<and> P' u \<longleftrightarrow> exists_task u k \<and> P u \<and> u \<noteq> t"
  shows "card {u. exists_task u k' \<and> P' u} < n"
proof -
  have "{u. exists_task u k' \<and> P' u} = {u. exists_task u k \<and> P u} - {t}" using assms(4) by auto
  moreover have "finite {u. exists_task u k \<and> P u}" by (rule finite_subset [of _ "{..<NUM_TSKID k}"]) (auto simp: exists_task_def)
  ultimately show ?thesis using card_Diff1_less [of "{u. exists_task u k \<and> P u}" t] assms(1-3) by simp
qed

text \<open>
  Raising a priority: each owner along the chain whose priority is lower gets the new one, so each call
  leaves fewer tasks of lower priority.
\<close>

lemma raise:
  assumes "kinv {} k" "oinv k" "mtx_inv Y k" "exists_task t k" "p < priority (tcb k t)" "p < NUM_PRI"
    and "\<And>u. exists_task u k \<Longrightarrow> u \<notin> X \<Longrightarrow> u \<noteq> t \<Longrightarrow> exact u k"
    and "t \<in> X \<or> exact_at p t k"
    and "\<And>x. x \<in> X \<Longrightarrow> x \<noteq> t \<Longrightarrow> priority (tcb k x) \<le> p"
    and "t \<in> R" "follows R Y k"
    and "card {u. exists_task u k \<and> p < priority (tcb k u)} < n"
  shows "\<exists>k'. change_task_priority (hk n) t p k = Some k' \<and> pri_changed k k' \<and> oinv k' \<and> mtx_inv Y k' \<and>
    (\<forall>u. exists_task u k \<longrightarrow> u \<notin> X \<longrightarrow> exact u k') \<and> priority (tcb k' t) = p \<and>
    (\<forall>u. priority (tcb k' u) = priority (tcb k u) \<or> u \<in> R \<and> priority (tcb k' u) = p \<and> p < priority (tcb k u))"
  using assms
proof (induction n arbitrary: k t)
  case (Suc n)
  note kv = Suc.prems(1) and o = Suc.prems(2) and inv = Suc.prems(3) and t = Suc.prems(4) and lt = Suc.prems(5)
    and p = Suc.prems(6) and ex = Suc.prems(7) and tx = Suc.prems(8) and X = Suc.prems(9) and R = Suc.prems(10,11)
  show ?case
  proof (cases "\<exists>i. t \<in> set (que k (MtxQ i)) \<and> mtx_kind i k = TA_INHERIT")
    case False
    then obtain k' where k': "change_task_priority (hk (Suc n)) t p k = Some k'" "pri_step Y t p k k'" "oinv k'"
      using change_local [OF kv o inv t p, of n] by metis
    note d = pri_stepD [OF k'(2)]
    have "claims u k' = claims u k" for u by (rule pri_step_claims [OF k'(2)]) (use False in auto)
    then have "exact u k'" if "exists_task u k" "u \<notin> X" for u
      using ex [OF that] tx that(2) d(3) by (cases "u = t") (auto simp: exact_at_def)
    then show ?thesis using k'(1,3) d R(1) lt by auto
  next
    case True
    then obtain i where i: "t \<in> set (que k (MtxQ i))" "mtx_kind i k = TA_INHERIT" by blast
    then have iY: "i \<notin> Y" using R by (auto simp: follows_def)
    obtain v k1 where v: "mtxtsk (mtx k i) = Some v" "v \<noteq> t" "exists_task v k" and st: "pri_step Y t p k k1" "oinv k1"
        and eq: "change_task_priority (hk (Suc n)) t p k =
          (if p < priority (tcb k v) then change_task_priority (hk n) v p k1
           else if priority (tcb k v) = priority (tcb k t) then reset_priority (hk n) v k1
           else Some k1)"
        and same: "\<And>u. exists_task u k \<Longrightarrow> u \<noteq> v \<Longrightarrow> claims u k1 = claims u k" and inP: "p \<in> claims v k1"
      using inherit_step [OF kv o inv p i iY, of n] by metis
    have vR: "v \<in> R" using R i v(1) by (auto simp: follows_def)
    note d = pri_stepD [OF st(1)] and exists1 = pri_changed_exists [OF pri_stepD(1) [OF st(1)]]
    have ex1: "exact u k1" if "exists_task u k" "u \<notin> X" "u \<noteq> v" for u
      using ex [OF that(1,2)] tx that(2) d(3) same [OF that(1,3)] by (cases "u = t") (auto simp: exact_at_def)
    show ?thesis
    proof (cases "p < priority (tcb k v)")
      case True
      then have "v \<notin> X" using X v(2) by force
      then have exv: "exact_at p v k1" using owner_raised [OF st(1) inP _ True] ex v(2,3) by simp
      have "card {u. exists_task u k1 \<and> p < priority (tcb k1 u)} < n"
        by (rule card_drop [OF Suc.prems(12) t lt]) (use d(3) in \<open>auto simp: exists1\<close>)
      with exv have "\<exists>k'. change_task_priority (hk n) v p k1 = Some k' \<and> pri_changed k1 k' \<and> oinv k' \<and> mtx_inv Y k' \<and>
          (\<forall>u. exists_task u k1 \<longrightarrow> u \<notin> X \<longrightarrow> exact u k') \<and> priority (tcb k' v) = p \<and>
          (\<forall>u. priority (tcb k' u) = priority (tcb k1 u) \<or> u \<in> R \<and> priority (tcb k' u) = p \<and> p < priority (tcb k1 u))"
        using pri_changedD(1) [OF d(1)] st(2) d(2) v(2,3) True p ex1 X vR R(2)
        by (intro Suc.IH) (auto simp: exists1 d(3) follows_cong [OF d(1)])
      then obtain k' where k': "change_task_priority (hk n) v p k1 = Some k'" "pri_changed k1 k'" "oinv k'" "mtx_inv Y k'"
          "\<forall>u. exists_task u k \<longrightarrow> u \<notin> X \<longrightarrow> exact u k'"
          and pri: "\<And>u. priority (tcb k' u) = priority (tcb k1 u) \<or> u \<in> R \<and> priority (tcb k' u) = p \<and> p < priority (tcb k1 u)"
        by (auto simp: exists1)
      have "priority (tcb k' u) = priority (tcb k u) \<or> u \<in> R \<and> priority (tcb k' u) = p \<and> p < priority (tcb k u)" for u
        using pri [of u] d(3) [of u] R(1) lt by (cases "u = t") auto
      moreover have "priority (tcb k' t) = p" using pri [of t] d(3) [of t] by simp
      ultimately show ?thesis using True eq k' pri_changed_trans [OF d(1) k'(2)] by auto
    next
      case False
      then have "exact u k1" if "exists_task u k" "u \<notin> X" for u
        using ex1 [OF that] that ex v(2) lt owner_kept [OF st(1) v(2)] by (cases "u = v") auto
      moreover have "change_task_priority (hk (Suc n)) t p k = Some k1" using eq False lt by simp
      ultimately show ?thesis using d st(2) R(1) lt by auto
    qed
  qed
qed simp

text \<open>
  Lowering a priority: owners who had it from this task get the next one they are entitled to, so each
  call leaves fewer tasks of the old priority.
\<close>

lemma lower:
  assumes "kinv {} k" "oinv k" "mtx_inv Y k" "exists_task t k" "priority (tcb k t) \<le> p" "p < NUM_PRI"
    and "\<And>u. exists_task u k \<Longrightarrow> u \<noteq> t \<Longrightarrow> exact u k" and "exact_at p t k"
    and "t \<in> R" "follows R Y k"
    and "card {u. exists_task u k \<and> priority (tcb k u) = priority (tcb k t)} < n"
  shows "\<exists>k'. change_task_priority (hk n) t p k = Some k' \<and> pri_changed k k' \<and> oinv k' \<and> mtx_inv Y k' \<and>
    (\<forall>u. exists_task u k \<longrightarrow> exact u k') \<and> priority (tcb k' t) = p \<and>
    (\<forall>u. priority (tcb k' u) = priority (tcb k u) \<or>
         u \<in> R \<and> priority (tcb k u) = priority (tcb k t) \<and> priority (tcb k t) < priority (tcb k' u))"
  using assms
proof (induction n arbitrary: k t p)
  case (Suc n)
  note kv = Suc.prems(1) and o = Suc.prems(2) and inv = Suc.prems(3) and t = Suc.prems(4) and le = Suc.prems(5)
    and p = Suc.prems(6) and ex = Suc.prems(7) and tx = Suc.prems(8) and R = Suc.prems(9,10)
  show ?case
  proof (cases "\<exists>i. t \<in> set (que k (MtxQ i)) \<and> mtx_kind i k = TA_INHERIT")
    case False
    then obtain k' where k': "change_task_priority (hk (Suc n)) t p k = Some k'" "pri_step Y t p k k'" "oinv k'"
      using change_local [OF kv o inv t p, of n] by metis
    note d = pri_stepD [OF k'(2)]
    have "claims u k' = claims u k" for u by (rule pri_step_claims [OF k'(2)]) (use False in auto)
    then have "exact u k'" if "exists_task u k" for u
      using ex [OF that] tx d(3) by (cases "u = t") (auto simp: exact_at_def)
    then show ?thesis using k'(1,3) d R(1) le by (auto simp: le_less)
  next
    case True
    then obtain i where i: "t \<in> set (que k (MtxQ i))" "mtx_kind i k = TA_INHERIT" by blast
    then have iY: "i \<notin> Y" using R by (auto simp: follows_def)
    obtain v k1 where v: "mtxtsk (mtx k i) = Some v" "v \<noteq> t" "exists_task v k" and st: "pri_step Y t p k k1" "oinv k1"
        and eq: "change_task_priority (hk (Suc n)) t p k =
          (if p < priority (tcb k v) then change_task_priority (hk n) v p k1
           else if priority (tcb k v) = priority (tcb k t) then reset_priority (hk n) v k1
           else Some k1)"
        and same: "\<And>u. exists_task u k \<Longrightarrow> u \<noteq> v \<Longrightarrow> claims u k1 = claims u k" and inP: "p \<in> claims v k1"
        and old: "priority (tcb k t) \<in> claims v k"
      using inherit_step [OF kv o inv p i iY, of n] by metis
    have vR: "v \<in> R" using R i v(1) by (auto simp: follows_def)
    note d = pri_stepD [OF st(1)] and exists1 = pri_changed_exists [OF pri_stepD(1) [OF st(1)]]
      and sub = pri_step_claims_sub [OF st(1), of v]
    have exv: "exact v k" using ex v(2,3) by simp
    have vle: "priority (tcb k v) \<le> priority (tcb k t)" using exv old by (simp add: exact_at_iff)
    have ex1: "exact u k1" if "exists_task u k" "u \<noteq> v" for u
      using ex [OF that(1)] tx d(3) same [OF that] by (cases "u = t") (auto simp: exact_at_def)
    have step: "priority (tcb k1 u) = priority (tcb k u) \<or>
         u \<in> R \<and> priority (tcb k u) = priority (tcb k t) \<and> priority (tcb k t) < priority (tcb k1 u)" for u
      using d(3) [of u] R(1) le by auto
    show ?thesis
    proof (cases "priority (tcb k v) = priority (tcb k t) \<and> \<not> exact v k1")
      case False
      have "exact v k1" using False owner_kept [OF st(1) v(2) exv] vle le by auto
      then have all: "\<forall>u. exists_task u k \<longrightarrow> exact u k1" using ex1 by metis
      moreover have "change_task_priority (hk (Suc n)) t p k = Some k1"
        using eq vle le reset_priority_exact [OF d(2), of v "hk n"] v(3) \<open>exact v k1\<close> by (simp add: exists1)
      ultimately show ?thesis using d st(2) step by auto
    next
      case True
      let ?q = "Min (claims v k1)"
      have pv: "priority (tcb k1 v) = priority (tcb k t)" using True d(3) v(2) by simp
      have q: "exact_at ?q v k1" by (simp add: exact_at_def)
      have ne: "?q \<noteq> priority (tcb k t)" using True pv by (simp add: exact_at_def)
      have "priority (tcb k t) \<le> ?q"
        using q sub(1) exv True le by (force simp: exact_at_iff)
      then have ql: "priority (tcb k t) < ?q" by (rule le_neq_trans) (rule not_sym [OF ne])
      have "?q \<le> bpriority (tcb k1 v)" by (rule Min_le) (simp_all add: claims_def)
      then have qp: "?q < NUM_PRI"
        using kinvD(2) [OF pri_changedD(1) [OF d(1)]] v(3) exists1 [of v] by (auto simp: tasks_ok_def wf_tcb_def exists_task_def)
      have pt: "p \<noteq> priority (tcb k t)" 
      proof
        assume eq: "p = priority (tcb k t)"
        then have "claims v k1 \<subseteq> claims v k" "p \<in> claims v k1" using sub(1) old inP by auto
        then have "?q = p" using exv True eq unfolding exact_at_iff by (intro Min_eqI) auto
        with ql eq show False by simp
      qed
      have "card {u. exists_task u k1 \<and> priority (tcb k1 u) = priority (tcb k1 v)} < n"
        by (rule card_drop [OF Suc.prems(11) t refl]) (use d(3) pt pv in \<open>auto simp: exists1\<close>)
      then have "\<exists>k'. change_task_priority (hk n) v ?q k1 = Some k' \<and> pri_changed k1 k' \<and> oinv k' \<and> mtx_inv Y k' \<and>
          (\<forall>u. exists_task u k1 \<longrightarrow> exact u k') \<and> priority (tcb k' v) = ?q \<and>
          (\<forall>u. priority (tcb k' u) = priority (tcb k1 u) \<or>
             u \<in> R \<and> priority (tcb k1 u) = priority (tcb k1 v) \<and> priority (tcb k1 v) < priority (tcb k' u))"
        using pri_changedD(1) [OF d(1)] st(2) d(2) v(2,3) qp q ex1 vR R(2) ql pv
        by (intro Suc.IH) (auto simp: exists1 follows_cong [OF d(1)])
      then obtain k' where k': "change_task_priority (hk n) v ?q k1 = Some k'" "pri_changed k1 k'" "oinv k'" "mtx_inv Y k'"
          "\<forall>u. exists_task u k \<longrightarrow> exact u k'"
          and pri: "\<And>u. priority (tcb k' u) = priority (tcb k1 u) \<or> u \<in> R \<and>
            priority (tcb k1 u) = priority (tcb k t) \<and> priority (tcb k t) < priority (tcb k' u)"
        unfolding pv exists1 by blast
      have "priority (tcb k' t) = p" using pri [of t] d(3) [of t] pt by simp
      moreover have "priority (tcb k' u) = priority (tcb k u) \<or>
         u \<in> R \<and> priority (tcb k u) = priority (tcb k t) \<and> priority (tcb k t) < priority (tcb k' u)" for u
        using pri [of u] step [of u] d(3) [of u] pt by (cases "u = t") auto
      moreover have "change_task_priority (hk (Suc n)) t p k = Some k'"
        using eq True le k'(1) reset_priority_exact [OF d(2), of v "hk n"] v(3) by (simp add: exists1)
      ultimately show ?thesis using k' pri_changed_trans [OF d(1) k'(2)] by blast
    qed
  qed
qed simp

end

subsection \<open>The other objects\<close>

text \<open>
  Semaphores, event flags, mailboxes and message buffers keep the contract. A queue of an object outside
  the table is empty; so are the queues of rendezvous ports, which are outside the model.
\<close>

definition queues_in_range :: "kernel \<Rightarrow> bool" where
  "queues_in_range k \<longleftrightarrow>
     (\<forall>i. (nat (max_semid k) \<le> i \<longrightarrow> que k (SemQ i) = []) \<and>
          (nat (max_flgid k) \<le> i \<longrightarrow> que k (FlgQ i) = []) \<and>
          (nat (max_mbxid k) \<le> i \<longrightarrow> que k (MbxQ i) = []) \<and>
          (nat (max_mbfid k) \<le> i \<longrightarrow> que k (SmbfQ i) = [] \<and> que k (RmbfQ i) = []) \<and>
          que k (CalQ i) = [] \<and> que k (AcpQ i) = [])"

definition objects_ok :: "mails \<Rightarrow> kernel \<Rightarrow> bool" where
  "objects_ok M k \<longleftrightarrow> sem_inv k \<and> flg_inv k \<and> mbx_inv M k \<and> mbf_inv k \<and> queues_in_range k"

lemma objects_okD:
  assumes "objects_ok M k"
  shows "sem_inv k" "flg_inv k" "mbx_inv M k"
    "t \<in> set (que k (SemQ i)) \<Longrightarrow> i < nat (max_semid k)"
    "t \<in> set (que k (FlgQ i)) \<Longrightarrow> i < nat (max_flgid k)"
    "t \<in> set (que k (MbxQ i)) \<Longrightarrow> i < nat (max_mbxid k)"
    "mbf_inv k" "t \<in> set (que k (SmbfQ i)) \<Longrightarrow> i < nat (max_mbfid k)"
    "t \<in> set (que k (RmbfQ i)) \<Longrightarrow> i < nat (max_mbfid k)"
    "que k (CalQ i) = []" "que k (AcpQ i) = []" "queues_in_range k"
  using assms by (auto simp: objects_ok_def queues_in_range_def not_less [symmetric])

lemma queues_in_range_cong:
  assumes "queues_in_range k"
    and "max_semid k' = max_semid k" "max_flgid k' = max_flgid k" "max_mbxid k' = max_mbxid k" "max_mbfid k' = max_mbfid k"
    and "\<And>h. object_queue h \<Longrightarrow> que k h = [] \<Longrightarrow> que k' h = []"
  shows "queues_in_range k'"
  using assms(1) assms(6) unfolding queues_in_range_def assms(2-5) by simp

lemma other_objsD:
  assumes "other_objs k' = other_objs k"
  shows "semcb_table k' = semcb_table k" "free_semcb k' = free_semcb k" "max_semid k' = max_semid k"
    "flgcb_table k' = flgcb_table k" "free_flgcb k' = free_flgcb k" "max_flgid k' = max_flgid k"
    "mbxcb_table k' = mbxcb_table k" "free_mbxcb k' = free_mbxcb k" "max_mbxid k' = max_mbxid k"
    "msgque k' = msgque k" "msgpri k' = msgpri k"
    "mbfcb_table k' = mbfcb_table k" "free_mbfcb k' = free_mbfcb k" "max_mbfid k' = max_mbfid k"
  using assms by (simp_all add: other_objs_def)

lemma same_tcb_sem:
  "same_tcb c' c \<Longrightarrow> winfo c' = winfo c \<and> wid c' = wid c \<and> wspec c' = wspec c \<and> priority c' = priority c"
  by (simp add: same_tcb_def)

lemma objects_ok_cong:
  assumes "objects_ok M k" "other_objs k' = other_objs k"
    and q: "\<And>h. object_queue h \<Longrightarrow> que k' h = que k h"
    and t: "\<And>h t. object_queue h \<Longrightarrow> t \<in> set (que k h) \<Longrightarrow> same_tcb (tcb k' t) (tcb k t)"
  shows "objects_ok M k'"
proof -
  note o = other_objsD [OF assms(2)]
  have "sem_inv k' = sem_inv k"
    by (rule sem_inv_cong) (use q same_tcb_sem [OF t [of "SemQ _"]] in \<open>simp_all add: o\<close>)
  moreover have "flg_inv k' = flg_inv k" by (rule flg_inv_cong) (use q t [of "FlgQ _"] in \<open>simp_all add: o\<close>)
  moreover have "mbx_inv M k' = mbx_inv M k" by (rule mbx_inv_cong) (use q t [of "MbxQ _"] in \<open>simp_all add: o\<close>)
  moreover have "mbf_inv k' = mbf_inv k"
    by (rule mbf_inv_cong) (use q t [of "SmbfQ _"] t [of "RmbfQ _"] in \<open>auto simp: o\<close>)
  moreover have "queues_in_range k'"
    by (rule queues_in_range_cong [OF objects_okD(12) [OF assms(1)]]) (use q in \<open>simp_all add: o\<close>)
  ultimately show ?thesis using assms(1) by (simp add: objects_ok_def)
qed

text \<open>In a queue in order of arrival priorities do not count.\<close>

lemma map_set_priority:
  "t \<notin> set ts \<Longrightarrow> map (\<lambda>u. priority (tcb (set_priority t p k) u)) ts = map (\<lambda>u. priority (tcb k u)) ts"
  by auto

lemma wq_ok_set_priority:
  "wq_ok h atr oid ws k \<Longrightarrow> t \<notin> set (que k h) \<or> atr AND TA_TPRI = 0 \<Longrightarrow> wq_ok h atr oid ws (set_priority t p k)"
  using map_set_priority [of t "que k h" p k] by (auto simp: wq_ok_def simp del: set_priority_frame(6) map_eq_conv) auto

lemma sem_inv_set_priority:
  assumes inv: "sem_inv k" and t: "\<And>i. t \<in> set (que k (SemQ i)) \<Longrightarrow> sematr (sem k i) AND TA_TPRI = 0"
  shows "sem_inv (set_priority t p k)"
proof -
  have "sem_ok i (set_priority t p k)" if "sem_ok i k" for i
  proof -
    have w: "sem_want (set_priority t p k) = sem_want k" by (auto simp: sem_want_def)
    have "sem_sorted i (set_priority t p k) = sem_sorted i k"
    proof (cases "t \<in> set (que k (SemQ i))")
      case False
      then show ?thesis by (simp only: sem_sorted_def set_priority_frame(2) set_priority_sel(17) map_set_priority [OF False])
    qed (simp add: sem_sorted_def t)
    moreover have "wid (tcb (set_priority t p k) u) = wid (tcb k u)"
        "wspec (tcb (set_priority t p k) u) = wspec (tcb k u)" for u by simp_all
    ultimately show ?thesis
      using that by (auto simp: sem_ok_def sem_wf_def sem_blocked_def w simp del: set_priority_frame(6) split: if_splits)
  qed
  with inv show ?thesis by (simp add: sem_inv_def)
qed

lemma flg_inv_set_priority:
  assumes inv: "flg_inv k" and t: "\<And>i. t \<in> set (que k (FlgQ i)) \<Longrightarrow> flgatr (flg k i) AND TA_TPRI = 0"
  shows "flg_inv (set_priority t p k)"
proof -
  have w: "flg_want (set_priority t p k) = flg_want k" "flg_mode (set_priority t p k) = flg_mode k"
    by (auto simp: flg_want_def flg_mode_def fun_eq_iff)
  have "flg_ok i (set_priority t p k)" if "flg_ok i k" for i
    using that t [of i] wq_ok_set_priority [of "FlgQ i" "flgatr (flg k i)"] by (auto simp: flg_ok_def w split: if_splits)
  with inv show ?thesis by (simp add: flg_inv_def)
qed

lemma mbx_inv_set_priority:
  assumes inv: "mbx_inv M k" and t: "\<And>i. t \<in> set (que k (MbxQ i)) \<Longrightarrow> mbxatr (mbx k i) AND TA_TPRI = 0"
  shows "mbx_inv M (set_priority t p k)"
proof -
  have "mbx_ok M i (set_priority t p k)" if "mbx_ok M i k" for i
    using that t [of i] wq_ok_set_priority [of "MbxQ i" "mbxatr (mbx k i)"] by (auto simp: mbx_ok_def split: if_splits)
  with inv show ?thesis by (simp add: mbx_inv_def)
qed

lemma mbf_inv_set_priority:
  assumes inv: "mbf_inv k" and t: "\<And>i. t \<in> set (que k (SmbfQ i)) \<Longrightarrow> mbfatr (mbf k i) AND TA_TPRI = 0"
  shows "mbf_inv (set_priority t p k)"
proof -
  have s: "smbf_size (set_priority t p k) = smbf_size k" by (simp add: smbf_size_def fun_eq_iff)
  have "mbf_ok i (set_priority t p k)" if "mbf_ok i k" for i
    using that t [of i] wq_ok_set_priority [of "SmbfQ i" "mbfatr (mbf k i)"] wq_ok_set_priority [of "RmbfQ i" 0]
    by (auto simp: mbf_ok_def mbf_wf_def mbf_blocked_def s split: if_splits)
  with inv show ?thesis by (simp add: mbf_inv_def)
qed

text \<open>The contract, by the class of the object the task waits for.\<close>

lemma hooks_n_table: "\<exists>f g. hooks_n n = hook_table f g"
  by (cases n) auto

lemma objects_one_queue:
  assumes ok: "objects_ok M k" and pc: "pri_changed k k'" and o: "other_objs k' = other_objs (k\<lparr>semcb_table := semcb_table k', mbfcb_table := mbfcb_table k'\<rparr>)"
    and q: "\<And>h. object_queue h \<Longrightarrow> h \<noteq> g \<Longrightarrow> que k' h = que k h"
    and t: "\<And>u. u \<noteq> t \<Longrightarrow> same_tcb (tcb k' u) (tcb k u)" "\<And>h. object_queue h \<Longrightarrow> h \<noteq> g \<Longrightarrow> t \<notin> set (que k h)"
    and g: "\<And>i. g = SemQ i \<Longrightarrow> sem_inv k'" "\<And>i. g = FlgQ i \<Longrightarrow> flg_inv k'" "\<And>i. g = MbxQ i \<Longrightarrow> mbx_inv M k'"
      "\<forall>i. g \<noteq> SemQ i \<Longrightarrow> semcb_table k' = semcb_table k"
      "\<And>i. g = SmbfQ i \<or> g = RmbfQ i \<Longrightarrow> mbf_inv k'" "\<forall>i. g \<noteq> SmbfQ i \<Longrightarrow> mbfcb_table k' = mbfcb_table k"
  shows "objects_ok M k'"
proof -
  note f = other_objsD [OF o]
  have st: "same_tcb (tcb k' u) (tcb k u)" if "object_queue h" "h \<noteq> g" "u \<in> set (que k h)" for h u
  proof -
    have "u \<noteq> t" using t(2) [OF that(1,2)] that(3) by auto
    then show ?thesis by (rule t(1))
  qed
  have "sem_inv k'"
  proof (cases "\<exists>i. g = SemQ i")
    case False
    then have ne: "SemQ i \<noteq> g" "g \<noteq> SemQ i" for i by auto
    have "sem_inv k' = sem_inv k"
      by (intro sem_inv_cong) (use q ne same_tcb_sem [OF st [of "SemQ _"]] f g(4) in auto)
    then show ?thesis using objects_okD(1) [OF ok] by simp
  qed (use g(1) in blast)
  moreover have "flg_inv k'"
  proof (cases "\<exists>i. g = FlgQ i")
    case False
    then have ne: "FlgQ i \<noteq> g" "g \<noteq> FlgQ i" for i by auto
    have "flg_inv k' = flg_inv k" by (intro flg_inv_cong) (use q ne st [of "FlgQ _"] f in auto)
    then show ?thesis using objects_okD(2) [OF ok] by simp
  qed (use g(2) in blast)
  moreover have "mbx_inv M k'"
  proof (cases "\<exists>i. g = MbxQ i")
    case False
    then have ne: "MbxQ i \<noteq> g" "g \<noteq> MbxQ i" for i by auto
    have "mbx_inv M k' = mbx_inv M k" by (intro mbx_inv_cong) (use q ne st [of "MbxQ _"] f in auto)
    then show ?thesis using objects_okD(3) [OF ok] by simp
  qed (use g(3) in blast)
  moreover have "mbf_inv k'"
  proof (cases "\<exists>i. g = SmbfQ i \<or> g = RmbfQ i")
    case False
    then have ne: "SmbfQ i \<noteq> g" "g \<noteq> SmbfQ i" "RmbfQ i \<noteq> g" "g \<noteq> RmbfQ i" for i by auto
    have "mbf_inv k' = mbf_inv k"
      by (intro mbf_inv_cong) (use q ne st [of "SmbfQ _"] st [of "RmbfQ _"] f g(6) in auto)
    then show ?thesis using objects_okD(7) [OF ok] by simp
  qed (use g(5) in blast)
  moreover have "queues_in_range k'"
  proof (rule queues_in_range_cong [OF objects_okD(12) [OF ok]])
    show "que k' h = []" if "object_queue h" "que k h = []" for h
      using pri_changedD(5) [OF pc object_queue_not(1) [OF that(1)]] that(2) by simp
  qed (use f in simp_all)
  ultimately show ?thesis by (simp add: objects_ok_def)
qed

lemma change_no_hook:
  assumes kv: "kinv {} k" and ok: "objects_ok M k" and st: "state (tcb k t) \<noteq> TS_READY" and p: "p < NUM_PRI"
    and no: "ts_wait (state (tcb k t)) \<Longrightarrow> chg_pri_hook hks (wspec (tcb k t)) = None"
    and q: "\<And>i. t \<in> set (que k (SemQ i)) \<Longrightarrow> sematr (sem k i) AND TA_TPRI = 0"
      "\<And>i. t \<in> set (que k (FlgQ i)) \<Longrightarrow> flgatr (flg k i) AND TA_TPRI = 0"
      "\<And>i. t \<in> set (que k (MbxQ i)) \<Longrightarrow> mbxatr (mbx k i) AND TA_TPRI = 0"
      "\<And>i. t \<in> set (que k (SmbfQ i)) \<Longrightarrow> mbfatr (mbf k i) AND TA_TPRI = 0"
  shows "change_task_priority hks t p k = Some (set_priority t p k)" "pri_changed k (set_priority t p k)"
    "objects_ok M (set_priority t p k)"
proof -
  show "change_task_priority hks t p k = Some (set_priority t p k)"
    using st no by (simp add: change_task_priority_def Let_def)
  show "pri_changed k (set_priority t p k)" by (rule pri_changed_set_priority [OF kv st p])
  show "objects_ok M (set_priority t p k)"
    using ok sem_inv_set_priority [OF _ q(1)] flg_inv_set_priority [OF _ q(2)] mbx_inv_set_priority [OF _ q(3)]
      mbf_inv_set_priority [OF _ q(4)]
    by (simp add: objects_ok_def queues_in_range_def)
qed

lemma change_object_waiter:
  assumes kv: "kinv {} k" and ok: "objects_ok M k" and h: "object_queue h" "t \<in> set (que k h)" and p: "p < NUM_PRI"
  shows "\<exists>k'. change_task_priority (hooks_n n) t p k = Some k' \<and> pri_changed k k' \<and> objects_ok M k' \<and>
    (\<forall>u. core (tcb k' u) = core (tcb (set_priority t p k) u)) \<and> (\<forall>i. que k' (MtxQ i) = que k (MtxQ i))"
proof -
  note d = objects_okD [OF ok]
  have w: "ts_wait (state (tcb k t))" using kinv_waiter [OF kv h(2) object_queue_not(1,2) [OF h(1)]] by simp
  then have st: "state (tcb k t) \<noteq> TS_READY" using wait_state_simps by blast
  have only: "t \<in> set (que k g) \<longleftrightarrow> g = h" for g by (rule disjoint_queuesD [OF kinvD(6) [OF kv] h(2)])
  obtain f1 f2 where tbl: "hooks_n n = hook_table f1 f2" using hooks_n_table by blast
  note none = change_no_hook [OF kv ok st p, of "hooks_n n"]
  have hook: "change_task_priority (hooks_n n) t p k = f t (int (priority (tcb k t))) (set_priority t p k)"
    if "chg_pri_hook (hooks_n n) (wspec (tcb k t)) = Some f" for f
    using st w that by (simp add: change_task_priority_def Let_def)
  have by_hook: ?thesis
    if "change_task_priority (hooks_n n) t p k = Some k'" "pri_changed k k'"
      and c: "\<And>u. core (tcb k' u) = core (tcb (set_priority t p k) u)"
      and q: "\<And>g. \<not> rdyq g \<Longrightarrow> g \<noteq> h \<Longrightarrow> que k' g = que k g"
      and inv: "\<And>i. h = SemQ i \<Longrightarrow> sem_inv k'" "\<And>i. h = FlgQ i \<Longrightarrow> flg_inv k'" "\<And>i. h = MbxQ i \<Longrightarrow> mbx_inv M k'"
        "\<And>i. h = SmbfQ i \<or> h = RmbfQ i \<Longrightarrow> mbf_inv k'"
      and o: "\<forall>i. h \<noteq> SemQ i \<Longrightarrow> semcb_table k' = semcb_table k" "\<forall>i. h \<noteq> SmbfQ i \<Longrightarrow> mbfcb_table k' = mbfcb_table k" for k'
  proof -
    have fo: "fixed_objs k' = fixed_objs k" by (rule pri_changedD(2) [OF that(2)])
    have "objects_ok M k'"
    proof (rule objects_one_queue [OF ok that(2), of h t])
      show "other_objs k' = other_objs (k\<lparr>semcb_table := semcb_table k', mbfcb_table := mbfcb_table k'\<rparr>)"
        unfolding other_objs_def fixed_objs_eqD [OF fo] by simp
      show "same_tcb (tcb k' u) (tcb k u)" if "u \<noteq> t" for u using same_tcb_core [OF c [of u]] that by simp
    qed (use q inv only object_queue_not(1) o in auto)
    moreover have "que k' (MtxQ i) = que k (MtxQ i)" for i using q [of "MtxQ i"] object_queue_not(3) [OF h(1), of i] by auto
    ultimately show ?thesis using that(1,2) c by blast
  qed
  show ?thesis
  proof (cases h)
    case (SemQ i)
    note sw = sem_waiter [OF kv d(1) h(2) [unfolded SemQ] d(4) [OF h(2) [unfolded SemQ]]]
    show ?thesis
    proof (cases "sematr (sem k i) AND TA_TPRI = 0")
      case True
      then show ?thesis using none only SemQ sw(5) by (auto simp: tbl hook_table_def sem_wspec_def)
    next
      case False
      then have hk: "chg_pri_hook (hooks_n n) (wspec (tcb k t)) = Some sem_chg_pri"
        using sw(5) by (simp add: tbl hook_table_def sem_wspec_def)
      obtain k' where k': "sem_chg_pri t (int (priority (tcb k t))) (set_priority t p k) = Some k'" "pri_changed k k'"
          "sem_inv k'" "\<And>u. core (tcb k' u) = core (tcb (set_priority t p k) u)"
          "\<And>g. \<not> rdyq g \<Longrightarrow> g \<noteq> SemQ i \<Longrightarrow> que k' g = que k g" "mbfcb_table k' = mbfcb_table k"
        using sem_chg_pri_served [OF kv d(1) h(2) [unfolded SemQ] d(4) [OF h(2) [unfolded SemQ]] False p, of "priority (tcb k t)"] by metis
      show ?thesis by (rule by_hook [OF _ k'(2,4)]) (use hook [OF hk] k' SemQ in simp_all)
    qed
  next
    case (FlgQ i)
    note sw = flg_waiter [OF kv d(2) h(2) [unfolded FlgQ] d(5) [OF h(2) [unfolded FlgQ]]]
    show ?thesis
    proof (cases "flgatr (flg k i) AND TA_TPRI = 0")
      case True
      then show ?thesis using none only FlgQ sw(5) by (auto simp: tbl hook_table_def flg_wspec_def)
    next
      case False
      then have hk: "chg_pri_hook (hooks_n n) (wspec (tcb k t)) = Some flg_chg_pri"
        using sw(5) by (simp add: tbl hook_table_def flg_wspec_def)
      obtain k' where k': "flg_chg_pri t (int (priority (tcb k t))) (set_priority t p k) = Some k'" "pri_changed k k'"
          "flg_inv k'" "\<And>u. core (tcb k' u) = core (tcb (set_priority t p k) u)"
          "\<And>g. \<not> rdyq g \<Longrightarrow> g \<noteq> FlgQ i \<Longrightarrow> que k' g = que k g" "objs k' = objs k"
        using flg_chg_pri_inv [OF kv d(2) h(2) [unfolded FlgQ] d(5) [OF h(2) [unfolded FlgQ]] False p, of "int (priority (tcb k t))"] by metis
      show ?thesis by (rule by_hook [OF _ k'(2,4)]) (use hook [OF hk] k' FlgQ objs_eqD [OF k'(6)] in simp_all)
    qed
  next
    case (MbxQ i)
    note sw = mbx_waiter [OF kv d(3) h(2) [unfolded MbxQ] d(6) [OF h(2) [unfolded MbxQ]]]
    show ?thesis
    proof (cases "mbxatr (mbx k i) AND TA_TPRI = 0")
      case True
      then show ?thesis using none only MbxQ sw(3) by (auto simp: tbl hook_table_def mbx_wspec_def)
    next
      case False
      then have hk: "chg_pri_hook (hooks_n n) (wspec (tcb k t)) = Some mbx_chg_pri"
        using sw(3) by (simp add: tbl hook_table_def mbx_wspec_def)
      obtain k' where k': "mbx_chg_pri t (int (priority (tcb k t))) (set_priority t p k) = Some k'" "pri_changed k k'"
          "mbx_inv M k'" "\<And>u. core (tcb k' u) = core (tcb (set_priority t p k) u)"
          "\<And>g. \<not> rdyq g \<Longrightarrow> g \<noteq> MbxQ i \<Longrightarrow> que k' g = que k g" "objs k' = objs k"
        using mbx_chg_pri_inv [OF kv d(3) h(2) [unfolded MbxQ] d(6) [OF h(2) [unfolded MbxQ]] False p, of "int (priority (tcb k t))"] by metis
      show ?thesis by (rule by_hook [OF _ k'(2,4)]) (use hook [OF hk] k' MbxQ objs_eqD [OF k'(6)] in simp_all)
    qed
  next
    case (SmbfQ i)
    have mem: "t \<in> set (que k (SmbfQ i)) \<or> t \<in> set (que k (RmbfQ i))" using h(2) SmbfQ by simp
    note il = d(8) [OF h(2) [unfolded SmbfQ]]
    note sw = mbf_waiter(5) [OF kv d(7) mem il h(2) [unfolded SmbfQ]]
    show ?thesis
    proof (cases "mbfatr (mbf k i) AND TA_TPRI = 0")
      case True
      then show ?thesis using none only SmbfQ sw by (auto simp: tbl hook_table_def smbf_wspec_def)
    next
      case False
      then have hk: "chg_pri_hook (hooks_n n) (wspec (tcb k t)) = Some mbf_chg_pri"
        using sw by (simp add: tbl hook_table_def smbf_wspec_def)
      obtain k' where k': "mbf_chg_pri t (int (priority (tcb k t))) (set_priority t p k) = Some k'" "pri_changed k k'"
          "mbf_inv k'" "\<And>u. core (tcb k' u) = core (tcb (set_priority t p k) u)"
          "\<And>g. \<not> rdyq g \<Longrightarrow> g \<noteq> SmbfQ i \<Longrightarrow> que k' g = que k g" "objs k' = objs (upd_mbf i (\<lambda>_. mbf k' i) k)"
        using mbf_chg_pri_stored [OF kv d(7) h(2) [unfolded SmbfQ] il False p, of "priority (tcb k t)"] by metis
      have "semcb_table k' = semcb_table k" using objs_eqD(17) [OF k'(6)] by (simp add: upd_mbf_def)
      then show ?thesis by (intro by_hook [OF _ k'(2,4)]) (use hook [OF hk] k' SmbfQ in simp_all)
    qed
  next
    case (RmbfQ i)
    have mem: "t \<in> set (que k (SmbfQ i)) \<or> t \<in> set (que k (RmbfQ i))" using h(2) RmbfQ by simp
    note sw = mbf_waiter(6) [OF kv d(7) mem d(9) [OF h(2) [unfolded RmbfQ]] h(2) [unfolded RmbfQ]]
    show ?thesis using none only RmbfQ sw by (auto simp: tbl hook_table_def)
  qed (use h d(10,11) in simp_all)
qed

lemma objects_ok_fields:
  assumes ok: "objects_ok M k" and f: "same_wait (f (tcb k t)) (tcb k t)"
  shows "objects_ok M (upd_tcb t f k)"
proof -
  have *: "winfo (tcb (upd_tcb t f k) u) = winfo (tcb k u)" "wid (tcb (upd_tcb t f k) u) = wid (tcb k u)"
    "wspec (tcb (upd_tcb t f k) u) = wspec (tcb k u)" "priority (tcb (upd_tcb t f k) u) = priority (tcb k u)" for u
    using f by (simp_all add: same_wait_def)
  have sem: "sem_inv (upd_tcb t f k) = sem_inv k"
    by (rule sem_inv_cong) (simp_all add: * objs_eqD [OF objs_upd_tcb] del: upd_tcb_sel(1))
  have wq: "wq_ok h a d s (upd_tcb t f k) = wq_ok h a d s k" for h a d s
    by (simp add: wq_ok_def * del: upd_tcb_sel(1))
  have "flg_want (upd_tcb t f k) = flg_want k" "flg_mode (upd_tcb t f k) = flg_mode k"
    by (simp_all add: flg_want_def flg_mode_def fun_eq_iff * del: upd_tcb_sel(1))
  then have flg: "flg_inv (upd_tcb t f k) = flg_inv k" by (simp add: flg_inv_def flg_ok_def wq objs_eqD [OF objs_upd_tcb])
  have mbx: "mbx_inv M (upd_tcb t f k) = mbx_inv M k" by (simp add: mbx_inv_def mbx_ok_def wq objs_eqD [OF objs_upd_tcb])
  have "smbf_size (upd_tcb t f k) = smbf_size k" by (simp add: smbf_size_def fun_eq_iff * del: upd_tcb_sel(1))
  then have mbf: "mbf_inv (upd_tcb t f k) = mbf_inv k"
    by (simp add: mbf_inv_def mbf_ok_def mbf_wf_def mbf_blocked_def wq objs_eqD [OF objs_upd_tcb])
  show ?thesis using ok by (simp add: objects_ok_def queues_in_range_def sem flg mbx mbf objs_eqD [OF objs_upd_tcb])
qed

text \<open>The kernel's hook tables meet the contract.\<close>

lemma change_elsewhere:
  assumes kv: "kinv {} k" and ok: "objects_ok M k" and h: "h \<in> {Some q | q. object_queue q} \<union> {None}"
    and t: "exists_task t k" "state (tcb k t) \<noteq> TS_READY" "home (tcb k t) = h" and p: "p < NUM_PRI"
  shows "\<exists>k'. change_task_priority (hooks_n n) t p k = Some k' \<and> pri_changed k k' \<and> objects_ok M k' \<and>
    (\<forall>u. core (tcb k' u) = core (tcb (set_priority t p k) u)) \<and> (\<forall>i. que k' (MtxQ i) = que k (MtxQ i))"
proof (cases h)
  case (Some q)
  then have "t \<in> set (que k q)" using kinv_mem [OF kv, of t q] t by (simp add: exists_task_def)
  then show ?thesis using Some h change_object_waiter [OF kv ok _ _ p] by blast
next
  case None
  then have no: "t \<notin> set (que k g)" for g using kinv_mem [OF kv, of t g] t by (simp add: exists_task_def)
  obtain f1 f2 where tbl: "hooks_n n = hook_table f1 f2" using hooks_n_table by blast
  have "chg_pri_hook (hooks_n n) (wspec (tcb k t)) = None" if "ts_wait (state (tcb k t))"
    using that None t(3) by (cases "state (tcb k t)"; cases "wspec (tcb k t)") (simp_all add: tbl hook_table_def)
  from change_no_hook [OF kv ok t(2) p this] show ?thesis by (simp add: no)
qed

interpretation pri: wait_objects "objects_ok M" hooks_n
proof unfold_locales
  show "chg_pri_hook (hooks_n n) WSPEC_MTX_TFIFO = None" "rel_wai_hook (hooks_n n) WSPEC_MTX_TPRI = None"
    "rel_wai_hook (hooks_n n) WSPEC_MTX_TFIFO = None" for n
    using hooks_n_table [of n] by (auto simp: hook_table_def)
qed ((rule objects_ok_cong objects_ok_fields change_elsewhere; assumption) | simp add: hook_table_def)+

end
