(* ===== verification/Mutex_Lock.thy ===== *)
theory Mutex_Lock
  imports Inheritance
begin

text \<open>
  Locking a mutex, and what the other calls share with it: every task has the priority that its claims give
  it (\<open>mtx_good\<close>), the owner of an inheritance mutex is raised before the caller waits, and the mutex is passed
  on to the first waiter. The lemmas are proved in the context of what the mutexes rely on.
\<close>

definition mtx_good :: "nat set \<Rightarrow> kernel \<Rightarrow> bool" where
  "mtx_good Y k \<longleftrightarrow> mtx_inv Y k \<and> (\<forall>t. exists_task t k \<longrightarrow> exact t k)"

lemma mtx_goodD:
  assumes "mtx_good Y k"
  shows "mtx_inv Y k" "exists_task t k \<Longrightarrow> exact t k"
  using assms by (simp_all add: mtx_good_def)

lemma exists_task_END [simp]: "exists_task t (END_CRITICAL_SECTION k) = exists_task t k"
  by (simp add: exists_task_def)

lemma mtx_claims_cong:
  assumes "mtx k' i = mtx k i" "set (que k' (MtxQ i)) = set (que k (MtxQ i))"
    "\<And>u. u \<in> set (que k (MtxQ i)) \<Longrightarrow> priority (tcb k' u) = priority (tcb k u)"
  shows "mtx_claims k' i = mtx_claims k i"
  using assms(3) by (auto simp: mtx_claims_def mtx_kind_def assms(1,2))

text \<open>What the mutexes do not see.\<close>

lemma mtx_good_cong:
  assumes good: "mtx_good Y k"
    and o: "mtxcb_table k' = mtxcb_table k" "free_mtxcb k' = free_mtxcb k" "max_mtxid k' = max_mtxid k"
    and q: "\<And>i. que k' (MtxQ i) = que k (MtxQ i)"
    and ex: "\<And>t. exists_task t k' = exists_task t k"
    and t: "\<And>t. exists_task t k \<Longrightarrow> priority (tcb k' t) = priority (tcb k t) \<and> bpriority (tcb k' t) = bpriority (tcb k t) \<and>
      mtxlist (tcb k' t) = mtxlist (tcb k t)"
    and w: "\<And>i t. t \<in> set (que k (MtxQ i)) \<Longrightarrow> exists_task t k \<and> wid (tcb k' t) = wid (tcb k t) \<and> wspec (tcb k' t) = wspec (tcb k t)"
    and dorm: "\<And>t. exists_task t k \<Longrightarrow> state (tcb k' t) = TS_DORMANT \<Longrightarrow> state (tcb k t) = TS_DORMANT"
  shows "mtx_good Y k'"
proof -
  note inv = mtx_goodD(1) [OF good]
  have pri: "priority (tcb k' u) = priority (tcb k u)" if "u \<in> set (que k (MtxQ i))" for u i using w [OF that] t by blast
  have own: "mtx_owned i k' = mtx_owned i k" for i
    by (cases "mtxtsk (mtx k i)") (auto simp: mtx_owned_def o q ex t)
  have wq: "wq_ok (MtxQ i) a d s k' = wq_ok (MtxQ i) a d s k" for i a d s
    using sorted_map_cong [of "que k (MtxQ i)" "\<lambda>u. priority (tcb k' u)" "\<lambda>u. priority (tcb k u)"] pri w
    by (auto simp: wq_ok_def q)
  have "mtx_ok Y i k' = mtx_ok Y i k" for i by (simp add: mtx_ok_def o q wq own mtx_kind_def)
  moreover have "held_ok Y u k'" if "exists_task u k" for u
    using mtx_inv_held [OF inv that] t [OF that] dorm [OF that] by (auto simp: held_ok_def o)
  ultimately have "mtx_inv Y k'" using inv by (simp add: mtx_inv_def o q ex)
  moreover have "exact u k'" if u: "exists_task u k" for u
  proof -
    have "mtx_claims k' i = mtx_claims k i" for i by (rule mtx_claims_cong) (simp_all add: o q pri)
    then have "claims u k' = claims u k" using t [OF u] by (simp add: claims_def)
    then show ?thesis using mtx_goodD(2) [OF good u] t [OF u] by (simp add: exact_at_def)
  qed
  ultimately show ?thesis by (simp add: mtx_good_def ex)
qed

lemma mtx_good_END: "mtx_good Y k \<Longrightarrow> kinv {} k \<Longrightarrow> mtx_good Y (END_CRITICAL_SECTION k)"
  by (rule mtx_good_cong) (auto dest: mtx_goodD(1) mtx_waiter(7))

text \<open>A mutex becomes or stops being in transit.\<close>

lemma mtx_inv_mono: "mtx_inv Y k \<Longrightarrow> Y \<subseteq> Z \<Longrightarrow> mtx_inv Z k"
  unfolding mtx_inv_def mtx_ok_def held_ok_def by (auto simp: subset_iff split: if_splits) blast

lemma follows_ready: "state (tcb k t) = s \<Longrightarrow> \<not> ts_wait s \<Longrightarrow> kinv {} k \<Longrightarrow> follows {t} Y k"
  using kinv_waiter [of k t "MtxQ _"] by (auto simp: follows_def)

lemma follows_all: "follows UNIV {} k"
  by (simp add: follows_def)

context wait_objects
begin

text \<open>The exact priority may be given to any task: every task has its exact priority afterwards.\<close>

lemma change_exact:
  assumes kv: "kinv {} k" and o: "oinv k" and inv: "mtx_inv Y k" and t: "exists_task t k" and p: "p < NUM_PRI"
    and ex: "\<And>u. exists_task u k \<Longrightarrow> u \<noteq> t \<Longrightarrow> exact u k" and pt: "exact_at p t k"
    and R: "t \<in> R" "follows R Y k" and n: "NUM_TSKID k < n"
  obtains k' where "change_task_priority (hk n) t p k = Some k'" "pri_changed k k'" "oinv k'" "mtx_good Y k'"
    "priority (tcb k' t) = p" "\<And>u. u \<notin> R \<Longrightarrow> priority (tcb k' u) = priority (tcb k u)"
proof -
  have card: "card {u. exists_task u k \<and> P u} < n" for P
  proof -
    have "card {u. exists_task u k \<and> P u} \<le> card {..<NUM_TSKID k}" by (rule card_mono) (auto simp: exists_task_def)
    then show ?thesis using n by simp
  qed
  have "\<exists>k'. change_task_priority (hk n) t p k = Some k' \<and> pri_changed k k' \<and> oinv k' \<and> mtx_inv Y k' \<and>
      (\<forall>u. exists_task u k \<longrightarrow> exact u k') \<and> priority (tcb k' t) = p \<and> (\<forall>u. u \<notin> R \<longrightarrow> priority (tcb k' u) = priority (tcb k u))"
  proof (cases "p < priority (tcb k t)")
    case True
    have "\<exists>k'. change_task_priority (hk n) t p k = Some k' \<and> pri_changed k k' \<and> oinv k' \<and> mtx_inv Y k' \<and>
      (\<forall>u. exists_task u k \<longrightarrow> u \<notin> {} \<longrightarrow> exact u k') \<and> priority (tcb k' t) = p \<and>
      (\<forall>u. priority (tcb k' u) = priority (tcb k u) \<or> u \<in> R \<and> priority (tcb k' u) = p \<and> p < priority (tcb k u))"
      by (rule raise [OF kv o inv t True p ex _ _ R card]) (use pt in auto)
    then show ?thesis by blast
  next
    case False
    then show ?thesis using lower [OF kv o inv t _ p ex pt R card] by force
  qed
  then show thesis using that pri_changed_exists by (metis mtx_good_def)
qed

lemma claims_bound:
  assumes kv: "kinv {} k" and t: "exists_task t k"
  shows "Min (claims t k) < NUM_PRI"
proof -
  have "Min (claims t k) \<le> bpriority (tcb k t)" by (rule Min_le) (simp_all add: claims_def)
  with kinvD(2) [OF kv] t show ?thesis by (auto simp: tasks_ok_def wf_tcb_def exists_task_def)
qed

lemma reset_good:
  assumes kv: "kinv {} k" and o: "oinv k" and inv: "mtx_inv Y k" and t: "exists_task t k"
    and ex: "\<And>u. exists_task u k \<Longrightarrow> u \<noteq> t \<Longrightarrow> exact u k"
    and R: "t \<in> R" "follows R Y k" and n: "NUM_TSKID k < n"
  obtains k' where "reset_priority (hk n) t k = Some k'" "pri_changed k k'" "oinv k'" "mtx_good Y k'"
    "\<And>u. u \<notin> R \<Longrightarrow> priority (tcb k' u) = priority (tcb k u)"
proof (cases "exact t k")
  case True
  then have "mtx_good Y k" using inv ex by (auto simp: mtx_good_def)
  with True show thesis
    using that [of k] reset_priority_exact [OF inv t] pri_changed_refl [OF kv] o by simp
next
  case False
  obtain k' where "change_task_priority (hk n) t (Min (claims t k)) k = Some k'" "pri_changed k k'" "oinv k'"
      "mtx_good Y k'" "\<And>u. u \<notin> R \<Longrightarrow> priority (tcb k' u) = priority (tcb k u)"
    using change_exact [OF kv o inv t claims_bound [OF kv t] ex _ R n] by (metis exact_at_def)
  with False show thesis using that reset_priority_exact [OF inv t] by simp
qed

end

text \<open>Entering a wait, as \<^verbatim>\<open>_tk_loc_mtx\<close> does it, is what the common routine does with the order bit set.\<close>

lemma mtx_wait_gcb:
  assumes t: "t = self k" and kind: "kind = atr AND TA_CEILING" and tm: "tmout \<noteq> TMO_POL"
    and go: "\<not> is_diswai atr (tcb k t) TTW_MTX"
  shows "(let k = upd_tcb t (\<lambda>tc. tc\<lparr>wspec := (if kind = TA_TFIFO then WSPEC_MTX_TFIFO
                                           else if kind = TA_INHERIT then WSPEC_MTX_INHERIT else WSPEC_MTX_TPRI),
                               wercd := E_TMOUT, wid := oid\<rparr>) k;
             k = make_wait tmout atr k
         in if kind = TA_TFIFO then que_append t h k else queue_insert_tpri t h k) =
    gcb_make_wait_with_diswai h oid ((atr AND TA_NODISWAI) OR mtx_order atr) tmout
      (upd_tcb t (\<lambda>tc. tc\<lparr>wspec := mtx_wspec atr, wercd := E_OK, winfo := winfo tc\<rparr>) k)"
    (is "?lhs = gcb_make_wait_with_diswai h oid ?a tmout ?k0")
proof -
  have nd: "?a AND TA_NODISWAI = atr AND TA_NODISWAI"
    unfolding bit.conj_disj_distrib2 and.assoc by (simp add: mtx_order_def)
  have tp: "?a AND TA_TPRI \<noteq> 0 \<longleftrightarrow> kind \<noteq> TA_TFIFO"
    unfolding bit.conj_disj_distrib2 and.assoc by (simp add: mtx_order_def kind)
  have ws: "mtx_wspec atr = (if kind = TA_TFIFO then WSPEC_MTX_TFIFO
      else if kind = TA_INHERIT then WSPEC_MTX_INHERIT else WSPEC_MTX_TPRI)" by (simp add: mtx_wspec_def kind)
  have tw: "tskwait (mtx_wspec atr) = TTW_MTX" by (simp add: mtx_wspec_def)
  have no: "\<not> is_diswai ?a (tcb ?k0 t) (tskwait (wspec (tcb ?k0 t)))"
    using go by (simp add: is_diswai_def nd tw)
  have mw: "make_wait tmout ?a = make_wait tmout atr" by (rule ext) (simp add: make_wait_def enter_wait_def nd)
  have upd: "upd_tcb t (\<lambda>c. c\<lparr>wid := oid\<rparr>) (set_wercd t E_TMOUT ?k0) =
      upd_tcb t (\<lambda>tc. tc\<lparr>wspec := mtx_wspec atr, wercd := E_TMOUT, wid := oid\<rparr>) k"
    by (simp add: upd_tcb_def set_wercd_def)
  have s: "self ?k0 = t" "self (set_wercd t E_TMOUT ?k0) = t" by (simp_all add: t self_def)
  have "gcb_make_wait_with_diswai h oid ?a tmout ?k0 = gcb_make_wait h oid ?a tmout (set_wercd t E_TMOUT ?k0)"
    using no tm unfolding gcb_make_wait_with_diswai_def Let_def s(1) by simp
  also have "\<dots> = (if kind = TA_TFIFO then que_append t h else queue_insert_tpri t h)
      (make_wait tmout atr (upd_tcb t (\<lambda>tc. tc\<lparr>wspec := mtx_wspec atr, wercd := E_TMOUT, wid := oid\<rparr>) k))"
    using tp by (simp only: gcb_make_wait_def Let_def s(2) upd mw if_distrib [of "\<lambda>f. f _"] not_not if_not_P if_P) simp
  also have "\<dots> = ?lhs" by (simp add: ws Let_def)
  finally show ?thesis by simp
qed

subsection \<open>Frames of the control block updates\<close>

lemma upd_mtx_frame [simp]:
  "tcb_table (upd_mtx i f k) = tcb_table k"
  "que (upd_mtx i f k) = que k" "mtxcb_table (upd_mtx i f k) = (mtxcb_table k)(i := f (mtx k i))"
  "timer_queue (upd_mtx i f k) = timer_queue k" "ctxtsk (upd_mtx i f k) = ctxtsk k"
  "NUM_TSKID (upd_mtx i f k) = NUM_TSKID k" "max_mtxid (upd_mtx i f k) = max_mtxid k"
  "free_mtxcb (upd_mtx i f k) = free_mtxcb k" "schedtsk (upd_mtx i f k) = schedtsk k"
  "self (upd_mtx i f k) = self k" "tmebs (upd_mtx i f k) = tmebs k" "other_objs (upd_mtx i f k) = other_objs k"
  "dispatch_disabled (upd_mtx i f k) = dispatch_disabled k" "isDI (upd_mtx i f k) = isDI k"
  "isTaskIndependent (upd_mtx i f k) = isTaskIndependent k" "exists_task t (upd_mtx i f k) = exists_task t k"
proof -
  show n: "NUM_TSKID (upd_mtx i f k) = NUM_TSKID k" unfolding NUM_TSKID_def upd_mtx_def by simp
  show "exists_task t (upd_mtx i f k) = exists_task t k" unfolding exists_task_def n by (simp add: upd_mtx_def)
qed (simp_all add: upd_mtx_def self_def other_objs_def)

lemma kinv_upd_mtx [simp]: "kinv X k \<Longrightarrow> kinv X (upd_mtx i f k)"
  by (erule kinv_objs_cong) (simp_all add: upd_mtx_def NUM_TSKID_def)

lemma kinv_free_mtxcb [simp]: "kinv X k \<Longrightarrow> kinv X (k\<lparr>free_mtxcb := fs\<rparr>)"
  by (erule kinv_objs_cong) (simp_all add: NUM_TSKID_def)

lemma kinv_upd_mtxlist [simp]: "kinv X k \<Longrightarrow> kinv X (upd_tcb t (\<lambda>c. c\<lparr>mtxlist := ms c\<rparr>) k)"
  by (erule kinv_upd_tcb_other) simp_all

lemma exists_task_upd_tcb [simp]:
  "state (f (tcb k t)) = state (tcb k t) \<Longrightarrow> exists_task u (upd_tcb t f k) = exists_task u k"
  by (simp add: exists_task_def)

lemma exists_task_waits:
  assumes "task_waits h ws wi oid a k k'" "state (tcb k (self k)) = TS_READY"
  shows "exists_task u k' = exists_task u k"
  using task_waitsD(3) [OF assms(1)] task_waitsD(12) [OF assms(1), of u] assms(2)
    objs_eqD(33) [OF task_waitsD(2) [OF assms(1)]]
  by (cases "u = self k") (simp_all add: exists_task_def)

subsection \<open>Waiting for a mutex\<close>

lemma mtx_inv_waits:
  assumes kv: "kinv {} k" and inv: "mtx_inv {} k" and i: "i < nat (max_mtxid k)" "mtxid (mtx k i) \<noteq> 0"
    and v: "mtxtsk (mtx k i) = Some v" "v \<noteq> self k" and self: "state (tcb k (self k)) = TS_READY"
    and w: "task_waits (MtxQ i) (mtx_wspec (mtxatr (mtx k i))) wi (mtxid (mtx k i)) a k k'"
    and a: "a AND TA_TPRI \<noteq> 0 \<longleftrightarrow> mtx_order (mtxatr (mtx k i)) \<noteq> 0"
  shows "mtx_inv {} k'"
proof -
  let ?t = "self k" and ?o = "mtx_order (mtxatr (mtx k i))"
  note d = task_waitsD [OF w] and o = objs_eqD [OF task_waitsD(2) [OF w]]
  have ex: "exists_task u k' = exists_task u k" for u by (rule exists_task_waits [OF w self])
  have q: "que k' (MtxQ j) = (if j = i then wait_insert k a ?t (que k (MtxQ i)) else que k (MtxQ j))" for j
    using d(13) [of "MtxQ j"] by simp
  have notin: "?t \<notin> set (que k (MtxQ j))" for j by (rule kinv_ready_notin [OF kv self]) simp
  have tp: "?o AND TA_TPRI \<noteq> 0 \<longleftrightarrow> ?o \<noteq> 0" by (simp add: mtx_order_def)
  have list: "mtxlist (tcb k' u) = mtxlist (tcb k u)" for u
    using d(10) d(11) [of u] by (cases "u = ?t") (auto simp: same_tcb_def)
  have own: "mtx_owned j k'" if "mtx_owned j k" for j
    using that v notin by (cases "mtxtsk (mtx k j)") (auto simp: mtx_owned_def o ex list q)
  have wq: "wq_ok (MtxQ i) ?o (mtxid (mtx k i)) (mtx_wspec (mtxatr (mtx k i))) k'"
  proof -
    have "wq_ok (MtxQ i) a (mtxid (mtx k i)) (mtx_wspec (mtxatr (mtx k i))) k"
      using mtx_inv_live(1) [OF inv i] a tp by (simp add: wq_ok_def)
    from wq_ok_waits [OF w this] a tp show ?thesis by (simp add: wq_ok_def)
  qed
  have "mtx_ok {} j k'" if j: "j < nat (max_mtxid k)" for j
  proof (cases "mtxid (mtx k j) = 0 \<or> j = i")
    case True
    then show ?thesis
      using i mtx_inv_ok [OF inv j] wq own [of j] mtx_inv_live [OF inv i] by (auto simp: mtx_ok_def o q mtx_kind_def)
  next
    case False
    have "wq_ok (MtxQ j) x y z k' = wq_ok (MtxQ j) x y z k" for x y z
    proof (rule wq_ok_cong)
      show "que k' (MtxQ j) = que k (MtxQ j)" using False q by simp
      show "same_tcb (tcb k' u) (tcb k u)" if "u \<in> set (que k (MtxQ j))" for u
        by (rule d(11)) (use notin [of j] that in auto)
    qed
    then show ?thesis
      using False mtx_inv_live [OF inv j] own [of j] by (simp add: mtx_ok_def o mtx_kind_def)
  qed
  moreover have "held_ok {} u k'" if "exists_task u k" for u
    using mtx_inv_held [OF inv that] d(3) d(12) [of u] self by (cases "u = ?t") (auto simp: held_ok_def o list)
  moreover have "que k' (MtxQ j) = []" if "nat (max_mtxid k) \<le> j" for j
    using inv that i by (auto simp: q mtx_inv_def)
  ultimately show ?thesis using mtx_inv_pool [OF inv] by (simp add: mtx_inv_def o ex)
qed

text \<open>The claims on the owner, who may have the caller's priority already.\<close>

lemma mtx_waits_good:
  assumes kv: "kinv {} k" and inv: "mtx_inv {} k" and i: "i < nat (max_mtxid k)" "mtxid (mtx k i) \<noteq> 0"
    and v: "mtxtsk (mtx k i) = Some v" "v \<noteq> self k" "exists_task v k" and self: "state (tcb k (self k)) = TS_READY"
    and w: "task_waits (MtxQ i) (mtx_wspec (mtxatr (mtx k i))) wi (mtxid (mtx k i)) a k k'"
    and a: "a AND TA_TPRI \<noteq> 0 \<longleftrightarrow> mtx_order (mtxatr (mtx k i)) \<noteq> 0"
    and ex: "\<And>u. exists_task u k \<Longrightarrow> u \<noteq> v \<Longrightarrow> exact u k"
    and exv: "if mtx_kind i k = TA_INHERIT
      then priority (tcb k v) = Min (insert (priority (tcb k (self k))) (claims v k)) else exact v k"
  shows "mtx_good {} k'"
proof -
  let ?t = "self k"
  note d = task_waitsD [OF w] and o = objs_eqD [OF task_waitsD(2) [OF w]]
  note inv' = mtx_inv_waits [OF kv inv i v(1,2) self w a]
  have iv: "i \<in> set (mtxlist (tcb k v))"
    using mtx_inv_live(3) [OF inv i] v(1) by (simp add: mtx_owned_def)
  have q: "set (que k' (MtxQ j)) = (if j = i then insert ?t (set (que k (MtxQ i))) else set (que k (MtxQ j)))" for j
    using d(13) [of "MtxQ j"] by simp
  have same: "bpriority (tcb k' u) = bpriority (tcb k u)" "mtxlist (tcb k' u) = mtxlist (tcb k u)" for u
    using d(9,10) d(11) [of u] by (cases "u = ?t"; simp add: same_tcb_def)+
  have mc: "mtx_claims k' j =
      (if j = i \<and> mtx_kind i k = TA_INHERIT then insert (priority (tcb k ?t)) (mtx_claims k i) else mtx_claims k j)" for j
    by (simp add: mtx_claims_def mtx_kind_def o q d(14))
  have cl: "claims u k' = (if i \<in> set (mtxlist (tcb k u)) \<and> mtx_kind i k = TA_INHERIT
      then insert (priority (tcb k ?t)) (claims u k) else claims u k)" for u
    by (auto simp: claims_def mc same split: if_splits)
  have "exact u k'" if u: "exists_task u k" for u
  proof (cases "u = v")
    case True
    then show ?thesis using exv iv by (auto simp: exact_at_def cl d(14))
  next
    case False
    then have "i \<notin> set (mtxlist (tcb k u))" using heldD(3) [OF inv u] v(1) by fastforce
    then show ?thesis using ex [OF u False] by (simp add: exact_at_def cl d(14))
  qed
  with inv' show ?thesis by (simp add: mtx_good_def exists_task_waits [OF w self])
qed

subsection \<open>Taking, passing on and giving up a mutex\<close>

lemma mtx_inv_settle:
  assumes inv: "mtx_inv Y k" and own: "\<And>i. i \<in> Y \<Longrightarrow> i < nat (max_mtxid k) \<Longrightarrow> mtxid (mtx k i) \<noteq> 0 \<Longrightarrow> mtx_owned i k"
    and list: "\<And>i u. i \<in> Y \<Longrightarrow> exists_task u k \<Longrightarrow> i \<in> set (mtxlist (tcb k u)) \<Longrightarrow> mtxtsk (mtx k i) = Some u"
  shows "mtx_inv {} k"
proof -
  have "mtx_ok {} i k" if i: "i < nat (max_mtxid k)" for i
  proof (cases "mtxid (mtx k i) = 0")
    case False
    then show ?thesis using mtx_inv_live [OF inv i] own [OF _ i] by (auto simp: mtx_ok_def)
  qed (use mtx_inv_ok [OF inv i] in \<open>simp add: mtx_ok_def\<close>)
  moreover have "held_ok {} u k" if "exists_task u k" for u
    using mtx_inv_held [OF inv that] list [OF _ that] by (auto simp: held_ok_def)
  ultimately show ?thesis using inv by (simp add: mtx_inv_def)
qed

text \<open>A mutex that nobody lists gets an owner.\<close>

lemma other_objs_upd_tcb [simp]: "other_objs (upd_tcb t f k) = other_objs k"
  by (simp add: other_objs_def upd_tcb_def)

definition mtx_give :: "nat \<Rightarrow> tid \<Rightarrow> kernel \<Rightarrow> kernel" where
  "mtx_give i t k = upd_tcb t (\<lambda>c. c\<lparr>mtxlist := i # mtxlist c\<rparr>) (upd_mtx i (\<lambda>c. c\<lparr>mtxtsk := Some t\<rparr>) k)"

lemma mtx_give_frame [simp]:
  "tcb_table (mtx_give i t k) = (tcb_table k)(t := (tcb k t)\<lparr>mtxlist := i # mtxlist (tcb k t)\<rparr>)"
  "que (mtx_give i t k) = que k"
  "mtxcb_table (mtx_give i t k) = (mtxcb_table k)(i := (mtx k i)\<lparr>mtxtsk := Some t\<rparr>)"
  "max_mtxid (mtx_give i t k) = max_mtxid k" "free_mtxcb (mtx_give i t k) = free_mtxcb k"
  "exists_task u (mtx_give i t k) = exists_task u k" "NUM_TSKID (mtx_give i t k) = NUM_TSKID k"
  "other_objs (mtx_give i t k) = other_objs k" "ctxtsk (mtx_give i t k) = ctxtsk k"
  "kinv X k \<Longrightarrow> kinv X (mtx_give i t k)"
proof -
  show "exists_task u (mtx_give i t k) = exists_task u k"
    unfolding mtx_give_def by (subst exists_task_upd_tcb) simp_all
  show "other_objs (mtx_give i t k) = other_objs k" by (simp add: mtx_give_def)
qed (simp_all add: mtx_give_def)

lemma mtx_give_inv:
  assumes inv: "mtx_inv Y k" and i: "i < nat (max_mtxid k)" "mtxid (mtx k i) \<noteq> 0" "i \<in> Y"
    and t: "i \<notin> set (mtxlist (tcb k t))" "state (tcb k t) \<noteq> TS_DORMANT"
  shows "mtx_inv Y (mtx_give i t k)"
proof -
  let ?k = "mtx_give i t k"
  have "(\<lambda>u. priority (tcb ?k u)) = (\<lambda>u. priority (tcb k u))" by auto
  then have wq: "wq_ok h a d s ?k = wq_ok h a d s k" for h a d s
    by (auto simp: wq_ok_def)
  have "mtx_ok Y j ?k" if j: "j < nat (max_mtxid k)" for j
  proof (cases "j = i \<or> mtxid (mtx k j) = 0")
    case True
    then show ?thesis using mtx_inv_ok [OF inv j] i mtx_inv_live [OF inv i(1,2)]
      by (auto simp: mtx_ok_def wq mtx_kind_def)
  next
    case False
    then have "mtx_owned j k \<Longrightarrow> mtx_owned j ?k" by (cases "mtxtsk (mtx k j)") (auto simp: mtx_owned_def)
    with False mtx_inv_live [OF inv j] show ?thesis by (simp add: mtx_ok_def wq mtx_kind_def)
  qed
  moreover have "held_ok Y u ?k" if "exists_task u k" for u
    using mtx_inv_held [OF inv that] i t by (auto simp: held_ok_def)
  moreover have "(\<lambda>j. mtxid (mtx ?k j)) = (\<lambda>j. mtxid (mtx k j))" by auto
  ultimately show ?thesis using inv by (simp add: mtx_inv_def)
qed

lemma mtx_give_claims:
  "claims u (mtx_give i t k) = (if u = t then mtx_claims k i \<union> claims t k else claims u k)"
proof -
  have "mtx_claims (mtx_give i t k) j = mtx_claims k j" for j by (auto simp: mtx_claims_def mtx_kind_def)
  then show ?thesis by (auto simp: claims_def)
qed

text \<open>Releasing tasks.\<close>

lemma released_exists: "released T e k k' \<Longrightarrow> exists_task u k' = exists_task u k"
  using releasedD(8) [of T e k k' u] releasedD(5) [of T e k k' u] releasedD(2) [of T e k k']
  by (auto simp: exists_task_def split: if_splits)

lemma released_mtx_inv:
  assumes inv: "mtx_inv Y k" and r: "released T e k k'"
    and o: "mtxcb_table k' = mtxcb_table k" "free_mtxcb k' = free_mtxcb k" "max_mtxid k' = max_mtxid k"
  shows "mtx_inv Y k'"
proof -
  note ex = released_exists [OF r] and c = core_eqD [OF releasedD(6) [OF r]]
  have q: "que k' (MtxQ i) = filter (\<lambda>u. u \<notin> T) (que k (MtxQ i))" for i by (rule releasedD(9) [OF r]) simp
  have own: "mtx_owned i k'" if "mtx_owned i k" for i
    using that by (cases "mtxtsk (mtx k i)") (auto simp: mtx_owned_def o q ex c)
  have "mtx_ok Y i k'" if i: "i < nat (max_mtxid k)" for i
    using mtx_inv_ok [OF inv i] own [of i] wq_ok_released [OF _ r, of "MtxQ i"]
    by (auto simp: mtx_ok_def o q mtx_kind_def)
  moreover have "held_ok Y u k'" if "exists_task u k" for u
    using mtx_inv_held [OF inv that] releasedD(8) [OF r, of u] releasedD(5) [OF r, of u]
    by (auto simp: held_ok_def o c split: if_splits)
  ultimately show ?thesis using inv by (simp add: mtx_inv_def o q ex)
qed

lemma released_claims:
  assumes r: "released T e k k'" and o: "mtxcb_table k' = mtxcb_table k"
    and u: "\<And>i. i \<in> set (mtxlist (tcb k u)) \<Longrightarrow> mtx_kind i k = TA_INHERIT \<Longrightarrow> T \<inter> set (que k (MtxQ i)) = {}"
  shows "claims u k' = claims u k"
proof -
  note c = core_eqD [OF releasedD(6) [OF r]]
  have "mtx_claims k' i = mtx_claims k i" if "i \<in> set (mtxlist (tcb k u))" for i
    using u [OF that] releasedD(9) [OF r, of "MtxQ i"] by (auto simp: mtx_claims_def mtx_kind_def o c)
  then show ?thesis by (simp add: claims_def c)
qed

subsection \<open>A change for a task that does not wait\<close>

text \<open>\<open>pri_only t p k k'\<close>: the priority of \<open>t\<close> is \<open>p\<close> now, the ready queue follows, and that is all.\<close>

definition pri_only :: "tid \<Rightarrow> nat \<Rightarrow> kernel \<Rightarrow> kernel \<Rightarrow> bool" where
  "pri_only t p k k' \<longleftrightarrow>
     pri_changed k k' \<and> objs k' = objs k \<and> (\<forall>u. core (tcb k' u) = core (tcb (set_priority t p k) u)) \<and>
     (\<forall>u. state (tcb k' u) = state (tcb k u) \<and> wercd (tcb k' u) = wercd (tcb k u)) \<and>
     (\<forall>h. \<not> rdyq h \<longrightarrow> que k' h = que k h) \<and> timer_queue k' = timer_queue k"

lemma pri_onlyD:
  assumes "pri_only t p k k'"
  shows "pri_changed k k'" "objs k' = objs k" "core (tcb k' u) = core (tcb (set_priority t p k) u)"
    "state (tcb k' u) = state (tcb k u)" "wercd (tcb k' u) = wercd (tcb k u)"
    "\<not> rdyq h \<Longrightarrow> que k' h = que k h" "timer_queue k' = timer_queue k"
    "p < NUM_PRI \<Longrightarrow> priority (tcb k' u) = (if u = t then p else priority (tcb k u))"
    "u \<noteq> t \<Longrightarrow> same_tcb (tcb k' u) (tcb k u)" "kinv {} k'"
proof -
  show c: "core (tcb k' u) = core (tcb (set_priority t p k) u)" for u using assms by (simp add: pri_only_def)
  show "p < NUM_PRI \<Longrightarrow> priority (tcb k' u) = (if u = t then p else priority (tcb k u))"
    using core_eqD(4) [OF c [of u]] by simp
  show "u \<noteq> t \<Longrightarrow> same_tcb (tcb k' u) (tcb k u)" using same_tcb_core [OF c [of u]] by simp
  have pc: "pri_changed k k'" using assms by (simp add: pri_only_def)
  show "pri_changed k k'" by (rule pc)
  show "kinv {} k'" by (rule pri_changedD(1) [OF pc])
qed (use assms in \<open>simp_all add: pri_only_def\<close>)

lemma change_quiet:
  assumes kv: "kinv {} k" and t: "t < NUM_TSKID k" "\<not> ts_wait (state (tcb k t))" and p: "p < NUM_PRI"
  obtains k' where "change_task_priority hks t p k = Some k'" "pri_only t p k k'"
proof (cases "state (tcb k t) = TS_READY")
  case True
  from change_ready_priority [OF kv t(1) True p, of hks] that show thesis unfolding pri_only_def by metis
next
  case False
  then have "change_task_priority hks t p k = Some (set_priority t p k)"
    using t(2) by (simp add: change_task_priority_def Let_def)
  moreover have "pri_only t p k (set_priority t p k)"
    using pri_changed_set_priority [OF kv False p] unfolding pri_only_def by (auto simp: set_priority_def)
  ultimately show thesis by (rule that)
qed

lemma pri_only_step:
  assumes kv: "kinv {} k" and inv: "mtx_inv Y k" and t: "\<not> ts_wait (state (tcb k t))" and p: "p < NUM_PRI"
    and po: "pri_only t p k k'"
  shows "mtx_inv Y k'" "claims u k' = claims u k"
proof -
  note d = pri_onlyD [OF po]
  have no: "t \<notin> set (que k (MtxQ i))" for i using kinv_waiter(2) [OF kv, of t "MtxQ i"] t by auto
  have st: "pri_step Y t p k k'"
    by (rule pri_step_unsorted [OF inv d(1)]) (use no d(6,8) p in simp_all)
  show "mtx_inv Y k'" by (rule pri_stepD(2) [OF st])
  show "claims u k' = claims u k" by (rule pri_step_claims [OF st no])
qed

context wait_objects
begin

lemma pri_only_oinv:
  assumes kv: "kinv {} k" and o: "oinv k" and t: "\<not> ts_wait (state (tcb k t))" and po: "pri_only t p k k'"
  shows "oinv k'"
proof (rule oinv_objs [OF o pri_onlyD(2) [OF po]])
  show "que k' h = que k h" if "object_queue h" for h using pri_onlyD(6) [OF po] object_queue_not(1) [OF that] .
  fix h u assume "object_queue h" "u \<in> set (que k h)"
  then have "u \<noteq> t" using kinv_waiter(2) [OF kv] object_queue_not t by blast
  then show "same_tcb (tcb k' u) (tcb k u)" by (rule pri_onlyD(9) [OF po])
qed

text \<open>The first waiter gets the mutex, and with a ceiling mutex at least its priority.\<close>

lemma released_oinv:
  assumes kv: "kinv {} k" and o: "oinv k" and r: "released T e k k'" "T \<subseteq> set (que k (MtxQ i))" and ob: "objs k' = objs k"
  shows "oinv k'"
proof (rule oinv_objs [OF o ob])
  show "que k' h = que k h" if "object_queue h" for h
    using released_other [OF kv r object_queue_not(3) [OF that] object_queue_not(1) [OF that]] .
  show "same_tcb (tcb k' t) (tcb k t)" for t by (rule released_same [OF r(1)])
qed

lemma give_oinv:
  assumes kv: "kinv {} k" and o: "oinv k" and t: "\<not> ts_wait (state (tcb k t))"
  shows "oinv (mtx_give i t k)"
proof (rule cong [OF o])
  fix h u assume h: "object_queue h" "u \<in> set (que k h)"
  have "u \<noteq> t" using kinv_waiter(2) [OF kv h(2)] object_queue_not(1,2) [OF h(1)] t by blast
  then show "same_tcb (tcb (mtx_give i t k) u) (tcb k u)" by (simp add: same_tcb_def)
qed simp_all

lemma pass_good:
  assumes kv: "kinv {} k" and o: "oinv k" and inv: "mtx_inv Y k"
    and i: "i < nat (max_mtxid k)" "mtxid (mtx k i) \<noteq> 0" "i \<in> Y" and q: "que k (MtxQ i) = w # ws"
    and ex: "\<And>u. exists_task u k \<Longrightarrow> u \<notin> Z \<Longrightarrow> exact u k" and w: "w \<notin> Z"
    and list: "\<And>u. exists_task u k \<Longrightarrow> u \<notin> Z \<Longrightarrow> i \<notin> set (mtxlist (tcb k u))"
  obtains k1 k' where "mtx_pass hks i k = Some k'" "released {w} E_OK k k1" "objs k1 = objs k" "oinv k'" "mtx_inv Y k'"
    "k' = mtx_give i w k1 \<or> pri_only w (ceilpri (mtx k i)) (mtx_give i w k1) k'"
    "\<And>u. exists_task u k \<Longrightarrow> u \<notin> Z \<Longrightarrow> exact u k'"
proof -
  let ?k1 = "wait_release_ok w k" and ?c = "ceilpri (mtx k i)"
  let ?k2 = "mtx_give i w ?k1"
  have wq: "w \<in> set (que k (MtxQ i))" by (simp add: q)
  note ww = mtx_waiter [OF kv inv wq]
  have r: "released {w} E_OK k ?k1" unfolding wait_release_ok_def by (rule released_single [OF kv ww(5,6)])
  have ob: "objs ?k1 = objs k" by simp
  have ex1: "exists_task u ?k1 = exists_task u k" for u by (rule released_exists [OF r])
  have st: "\<not> ts_wait (state (tcb ?k1 w))" "state (tcb ?k1 w) \<noteq> TS_DORMANT" using releasedD(8) [OF r, of w] by auto
  note c = core_eqD [OF releasedD(6) [OF r]]
  have inv1: "mtx_inv Y ?k1" by (rule released_mtx_inv [OF inv r]) simp_all
  have inv2: "mtx_inv Y ?k2"
    by (rule mtx_give_inv [OF inv1]) (use i st list [OF ww(7) w] c in simp_all)
  have kv2: "kinv {} ?k2" using releasedD(1) [OF r] by simp
  have o2: "oinv ?k2" by (rule give_oinv [OF releasedD(1) [OF r] released_oinv [OF kv o r _ ob] st(1)]) (use wq in simp)
  have cl1: "claims u ?k1 = claims u k" if "exists_task u k" "u \<notin> Z" for u
    by (rule released_claims [OF r]) (use list [OF that] disjoint_queuesD [OF kinvD(6) [OF kv] wq] in auto)
  have ex2: "exact u ?k2" if "exists_task u k" "u \<notin> Z" "u \<noteq> w" for u
    using ex [OF that(1,2)] that(3) by (simp add: exact_at_def mtx_give_claims cl1 [OF that(1,2)] c)
  have clw: "claims w ?k2 = mtx_claims ?k1 i \<union> claims w k" by (simp add: mtx_give_claims cl1 [OF ww(7) w])
  have exw: "exact w k" by (rule ex [OF ww(7) w])
  have pass: "mtx_pass hks i k = (if mtx_kind i k = TA_CEILING \<and> priority (tcb k w) > ?c
      then change_task_priority hks w ?c ?k2 else Some ?k2)"
    by (simp add: mtx_pass_def q Let_def mtx_give_def mtx_kind_def c)
  have q1: "set (que ?k1 (MtxQ i)) \<subseteq> set ws" using releasedD(9) [OF r, of "MtxQ i"] q by auto
  show thesis
  proof (cases "mtx_kind i k = TA_CEILING \<and> priority (tcb k w) > ?c")
    case False
    have "\<forall>x \<in> mtx_claims ?k1 i. priority (tcb k w) \<le> x"
    proof (cases "mtx_kind i k = TA_INHERIT")
      case True
      then have "sorted (map (\<lambda>u. priority (tcb k u)) (w # ws))"
        using mtx_sorted [OF inv i(1,2)] q by (simp add: mtx_order_def mtx_kind_def)
      then show ?thesis using q1 True by (auto simp: mtx_claims_def mtx_kind_def c)
    qed (use False in \<open>auto simp: mtx_claims_def mtx_kind_def\<close>)
    then have "exact w ?k2" using exw by (auto simp: exact_at_iff clw c)
    with ex2 False show thesis by (intro that [of ?k2 ?k1]) (auto simp: pass r ob o2 inv2)
  next
    case True
    have cp: "?c < NUM_PRI" by (rule mtx_inv_live(2) [OF inv i(1,2)]) (use True in simp)
    have st2: "\<not> ts_wait (state (tcb ?k2 w))" "w < NUM_TSKID ?k2"
      using st ww(5) releasedD(2) [OF r] by simp_all
    obtain k' where k': "change_task_priority hks w ?c ?k2 = Some k'" "pri_only w ?c ?k2 k'"
      using change_quiet [OF kv2 st2(2,1) cp] by metis
    note s = pri_only_step [OF kv2 inv2 st2(1) cp k'(2)] and d = pri_onlyD [OF k'(2)]
    have "mtx_claims ?k1 i = {?c}" using True by (simp add: mtx_claims_def mtx_kind_def)
    then have "exact w k'" using exw True by (auto simp: exact_at_iff s(2) clw d(8) [OF cp])
    moreover have "exact u k'" if "exists_task u k" "u \<notin> Z" "u \<noteq> w" for u
      using ex2 [OF that] that(3) by (simp add: exact_at_def s(2) d(8) [OF cp])
    ultimately show thesis
      using pass True k' s(1) pri_only_oinv [OF kv2 o2 st2(1) k'(2)] r ob
      by (intro that [of k' ?k1]) (auto simp del: mtx_give_frame)
  qed
qed

end

subsection \<open>Locking\<close>

text \<open>The error codes of a lock, in the order of the checks; \<open>None\<close>: the call takes the mutex or waits.\<close>

definition loc_mtx_error :: "ID \<Rightarrow> D \<Rightarrow> kernel \<Rightarrow> ER option" where
  "loc_mtx_error oid tmout k =
     (let i = get_mtxcb oid
      in first_error [CHECK_MTXID oid k, CHECK_TMOUT tmout, CHECK_DISPATCH k,
           CHECK (mtxid (mtx k i) \<noteq> 0) E_NOEXS, CHECK (mtxtsk (mtx k i) \<noteq> ctxtsk k) E_ILUSE,
           CHECK (\<not> (mtx_kind i k = TA_CEILING \<and> bpriority (tcb k (self k)) < ceilpri (mtx k i))) E_ILUSE,
           CHECK (\<not> is_diswai (mtxatr (mtx k i)) (tcb k (self k)) TTW_MTX) E_DISWAI,
           CHECK (\<not> (mtxtsk (mtx k i) \<noteq> None \<and> tmout = TMO_POL)) E_TMOUT])"

lemma loc_mtx_error_None:
  assumes "loc_mtx_error oid tmout k = None" "i = get_mtxcb oid"
  shows "CHECK_MTXID oid k = None" "CHECK_TMOUT tmout = None" "CHECK_DISPATCH k = None" "i < nat (max_mtxid k)"
    "mtxid (mtx k i) \<noteq> 0" "mtxtsk (mtx k i) \<noteq> ctxtsk k"
    "\<not> (mtx_kind i k = TA_CEILING \<and> bpriority (tcb k (self k)) < ceilpri (mtx k i))"
    "\<not> is_diswai (mtxatr (mtx k i)) (tcb k (self k)) TTW_MTX" "mtxtsk (mtx k i) \<noteq> None \<Longrightarrow> tmout \<noteq> TMO_POL"
proof -
  have "CHECK_MTXID oid k = None \<and> CHECK_TMOUT tmout = None \<and> CHECK_DISPATCH k = None \<and>
    mtxid (mtx k i) \<noteq> 0 \<and> mtxtsk (mtx k i) \<noteq> ctxtsk k \<and>
    \<not> (mtx_kind i k = TA_CEILING \<and> bpriority (tcb k (self k)) < ceilpri (mtx k i)) \<and>
    \<not> is_diswai (mtxatr (mtx k i)) (tcb k (self k)) TTW_MTX \<and> \<not> (mtxtsk (mtx k i) \<noteq> None \<and> tmout = TMO_POL)"
    using assms(1) unfolding loc_mtx_error_def Let_def first_error_None_iff assms(2) [symmetric] by simp
  then show "CHECK_MTXID oid k = None" "CHECK_TMOUT tmout = None" "CHECK_DISPATCH k = None" "i < nat (max_mtxid k)"
    "mtxid (mtx k i) \<noteq> 0" "mtxtsk (mtx k i) \<noteq> ctxtsk k"
    "\<not> (mtx_kind i k = TA_CEILING \<and> bpriority (tcb k (self k)) < ceilpri (mtx k i))"
    "\<not> is_diswai (mtxatr (mtx k i)) (tcb k (self k)) TTW_MTX" "mtxtsk (mtx k i) \<noteq> None \<Longrightarrow> tmout \<noteq> TMO_POL"
    by (auto simp: assms(2) get_mtxcb_def INDEX_def CHECK_MTXID_def)
qed

lemma first_error_CHECK [simp]: "first_error (CHECK b e # cs) = (if b then first_error cs else Some e)"
  by simp

lemma loc_mtx_fails:
  assumes "loc_mtx_error oid tmout k = Some e"
  shows "tk_loc_mtx_u hks oid tmout k = Some (e, k) \<or> tk_loc_mtx_u hks oid tmout k = Some (e, END_CRITICAL_SECTION k)"
proof (cases "first_error [CHECK_MTXID oid k, CHECK_TMOUT tmout, CHECK_DISPATCH k]")
  case (Some e')
  then have "loc_mtx_error oid tmout k = Some e'"
    by (auto simp: loc_mtx_error_def Let_def split: option.splits)
  with assms Some show ?thesis by (simp add: tk_loc_mtx_u_def checked_opt_def)
next
  case None
  then have *: "loc_mtx_error oid tmout k = (let i = get_mtxcb oid in first_error
      [CHECK (mtxid (mtx k i) \<noteq> 0) E_NOEXS, CHECK (mtxtsk (mtx k i) \<noteq> ctxtsk k) E_ILUSE,
           CHECK (\<not> (mtx_kind i k = TA_CEILING \<and> bpriority (tcb k (self k)) < ceilpri (mtx k i))) E_ILUSE,
           CHECK (\<not> is_diswai (mtxatr (mtx k i)) (tcb k (self k)) TTW_MTX) E_DISWAI,
           CHECK (\<not> (mtxtsk (mtx k i) \<noteq> None \<and> tmout = TMO_POL)) E_TMOUT])"
    by (simp add: loc_mtx_error_def Let_def split: option.splits)
  let ?c = "mtx k (get_mtxcb oid)"
  have "mtxid ?c = 0 \<and> e = E_NOEXS \<or> mtxid ?c \<noteq> 0 \<and> (mtxtsk ?c = ctxtsk k \<and> e = E_ILUSE \<or> mtxtsk ?c \<noteq> ctxtsk k \<and>
    (mtx_kind (get_mtxcb oid) k = TA_CEILING \<and> bpriority (tcb k (self k)) < ceilpri ?c \<and> e = E_ILUSE \<or>
     \<not> (mtx_kind (get_mtxcb oid) k = TA_CEILING \<and> bpriority (tcb k (self k)) < ceilpri ?c) \<and>
     (is_diswai (mtxatr ?c) (tcb k (self k)) TTW_MTX \<and> e = E_DISWAI \<or>
      \<not> is_diswai (mtxatr ?c) (tcb k (self k)) TTW_MTX \<and> mtxtsk ?c \<noteq> None \<and> tmout = TMO_POL \<and> e = E_TMOUT)))"
    using assms unfolding * Let_def first_error_CHECK by (simp split: if_splits)
  then have "tk_loc_mtx_u hks oid tmout k = Some (e, END_CRITICAL_SECTION k)"
    unfolding tk_loc_mtx_u_def checked_opt_def None Let_def option.case mtx_kind_def
    by (cases "mtxtsk ?c"; elim disjE conjE) simp_all
  then show ?thesis by blast
qed

lemma claims_sub:
  assumes pc: "pri_changed k k'" and pri: "\<And>u. priority (tcb k' u) = priority (tcb k u) \<or> priority (tcb k' u) = p"
  shows "claims v k' \<subseteq> insert p (claims v k)"
proof -
  note f = fixed_part_eqD [OF pri_changedD(3) [OF pc], of v] and o = fixed_objs_eqD(16) [OF pri_changedD(2) [OF pc]]
  have q: "set (que k' (MtxQ i)) = set (que k (MtxQ i))" for i by (rule pri_changedD(6) [OF pc]) simp_all
  have pri': "priority (tcb k' u) = p \<or> priority (tcb k' u) \<in> (\<lambda>u. priority (tcb k u)) ` A" if "u \<in> A" for u A
    using pri [of u] that by auto
  have "mtx_claims k' i \<subseteq> insert p (mtx_claims k i)" for i
    by (auto simp: mtx_claims_def mtx_kind_def o q dest: pri')
  then show ?thesis unfolding claims_def f by fast
qed

lemma running_exists: "kernel_ok k \<Longrightarrow> CHECK_DISPATCH k = None \<Longrightarrow> exists_task (self k) k"
  using kernel_ok_dispatch [of k] by (simp add: exists_task_def)

context wait_objects
begin

text \<open>The caller takes a free mutex.\<close>

lemma loc_takes:
  assumes ok: "kernel_ok k" "oinv k" "mtx_good {} k"
    and go: "loc_mtx_error oid tmout k = None" and i: "i = get_mtxcb oid" and free: "mtxtsk (mtx k i) = None"
  obtains k' where "tk_loc_mtx_u hks oid tmout k = Some (E_OK, END_CRITICAL_SECTION k')"
    "k' = mtx_give i (self k) k \<or> pri_only (self k) (ceilpri (mtx k i)) (mtx_give i (self k) k) k'"
    "kinv {} k'" "oinv k'" "mtx_good {} k'"
proof -
  let ?t = "self k" and ?c = "ceilpri (mtx k i)"
  let ?k = "mtx_give i ?t k"
  note g = loc_mtx_error_None [OF go i] and kv = kernel_ok_kinv [OF ok(1)] and inv = mtx_goodD(1) [OF ok(3)]
  note run = kernel_ok_dispatch [OF ok(1) g(3)] and t = running_exists [OF ok(1) g(3)]
  have st: "\<not> ts_wait (state (tcb k ?t))" using run by simp
  have q: "que k (MtxQ i) = []" using mtx_inv_live(3) [OF inv g(4,5)] free by (simp add: mtx_owned_def)
  have list: "i \<notin> set (mtxlist (tcb k u))" if "exists_task u k" for u
    using heldD(3) [OF inv that] free by fastforce
  have inv1: "mtx_inv {i} ?k"
    by (rule mtx_give_inv [OF mtx_inv_mono [OF inv]]) (use g list [OF t] run in simp_all)
  have kv1: "kinv {} ?k" using kv by simp
  have o1: "oinv ?k" by (rule give_oinv [OF kv ok(2) st])
  have cl: "claims u ?k = (if u = ?t then mtx_claims k i \<union> claims u k else claims u k)" for u
    by (simp add: mtx_give_claims)
  have settle: "mtx_inv {} k'" if "mtx_inv {i} k'" "pri_changed ?k k'" for k'
  proof (rule mtx_inv_settle [OF that(1)])
    note o = fixed_objs_eqD(16) [OF pri_changedD(2) [OF that(2)]] and ex = pri_changed_exists [OF that(2)]
      and f = fixed_part_eqD(14) [OF pri_changedD(3) [OF that(2)]]
      and qs = pri_changedD(6) [OF that(2), of "MtxQ i"]
    show "mtx_owned j k'" if "j \<in> {i}" for j using that qs q t by (simp add: mtx_owned_def o ex f)
    show "mtxtsk (mtx k' j) = Some u" if "j \<in> {i}" "exists_task u k'" "j \<in> set (mtxlist (tcb k' u))" for j u
      using that list [of u] by (auto simp: o ex f split: if_splits)
  qed
  have call: "tk_loc_mtx_u hks oid tmout k = map_option (\<lambda>k. (E_OK, END_CRITICAL_SECTION k))
      (if mtx_kind i k = TA_CEILING \<and> priority (tcb k ?t) > ?c then change_task_priority hks ?t ?c ?k else Some ?k)"
    using g free by (simp add: tk_loc_mtx_u_def checked_opt_def i [symmetric] Let_def mtx_give_def mtx_kind_def)
  show thesis
  proof (cases "mtx_kind i k = TA_CEILING \<and> priority (tcb k ?t) > ?c")
    case False
    have "\<forall>x \<in> mtx_claims k i. priority (tcb k ?t) \<le> x" using False q by (auto simp: mtx_claims_def)
    then have "exact u ?k" if "exists_task u k" for u
      using mtx_goodD(2) [OF ok(3) that] by (auto simp: exact_at_iff cl)
    then have "mtx_good {} ?k" using settle [OF inv1 pri_changed_refl [OF kv1]] by (simp add: mtx_good_def)
    moreover have "tk_loc_mtx_u hks oid tmout k = Some (E_OK, END_CRITICAL_SECTION ?k)"
      unfolding call if_not_P [OF False] by simp
    ultimately show thesis using kv1 o1 by (intro that [of ?k]) simp_all
  next
    case True
    have cp: "?c < NUM_PRI" by (rule mtx_inv_live(2) [OF inv g(4,5)]) (use True in simp)
    have st1: "?t < NUM_TSKID ?k" "\<not> ts_wait (state (tcb ?k ?t))" using run by simp_all
    obtain k' where k': "change_task_priority hks ?t ?c ?k = Some k'" "pri_only ?t ?c ?k k'"
      using change_quiet [OF kv1 st1 cp] by metis
    note s = pri_only_step [OF kv1 inv1 st1(2) cp k'(2)] and d = pri_onlyD [OF k'(2)]
    have "mtx_claims k i = {?c}" using True by (simp add: mtx_claims_def)
    then have "exact u k'" if "exists_task u k" for u
      using mtx_goodD(2) [OF ok(3) that] True by (auto simp: exact_at_iff s(2) cl d(8) [OF cp])
    then have "mtx_good {} k'"
      using settle [OF s(1) d(1)] pri_changed_exists [OF d(1)] by (simp add: mtx_good_def)
    then show thesis
      using call True k' d(10) pri_only_oinv [OF kv1 o1 st1(2) k'(2)] by (intro that [of k']) (simp_all del: mtx_give_frame)
  qed
qed

text \<open>Before the caller waits for an inheritance mutex, the owner is raised to the caller's priority.\<close>

lemma raise_owner:
  assumes kv: "kinv {} k" and o: "oinv k" and good: "mtx_good {} k" and v: "exists_task v k"
    and t: "exists_task t k" and n: "NUM_TSKID k < n"
  obtains k' where
    "(if inh \<and> priority (tcb k v) > priority (tcb k t) then change_task_priority (hk n) v (priority (tcb k t)) k
      else Some k) = Some k'"
    "pri_changed k k'" "oinv k'" "mtx_inv {} k'" "\<And>u. exists_task u k \<Longrightarrow> u \<noteq> v \<Longrightarrow> exact u k'"
    "if inh then priority (tcb k' v) = Min (insert (priority (tcb k' t)) (claims v k')) else exact v k'"
    "priority (tcb k' t) = priority (tcb k t)"
proof (cases "inh \<and> priority (tcb k v) > priority (tcb k t)")
  case False
  have "Min (insert (priority (tcb k t)) (claims v k)) = min (priority (tcb k t)) (Min (claims v k))" by (rule Min_insert) simp_all
  moreover have "exact v k" by (rule mtx_goodD(2) [OF good v])
  ultimately have F: "if inh then priority (tcb k v) = Min (insert (priority (tcb k t)) (claims v k)) else exact v k"
  proof -
    obtain m where m: "Min (claims v k) = m" by blast
    assume "Min (insert (priority (tcb k t)) (claims v k)) = min (priority (tcb k t)) (Min (claims v k))" "exact v k"
    then show ?thesis using False unfolding exact_at_def m by (auto simp: min_def)
  qed
  show thesis
    by (rule that [OF _ pri_changed_refl [OF kv] o mtx_goodD(1) [OF good] mtx_goodD(2) [OF good] F refl]) (use False in auto)
next
  case True
  let ?p = "priority (tcb k t)"
  have p: "?p < NUM_PRI" using tasks_ok_priority [OF kinvD(2) [OF kv], of t] t by (simp add: exists_task_def)
  have card: "card {u. exists_task u k \<and> ?p < priority (tcb k u)} < n"
  proof -
    have "card {u. exists_task u k \<and> ?p < priority (tcb k u)} \<le> card {..<NUM_TSKID k}"
      by (rule card_mono) (auto simp: exists_task_def)
    then show ?thesis using n by simp
  qed
  have "\<exists>k'. change_task_priority (hk n) v ?p k = Some k' \<and> pri_changed k k' \<and> oinv k' \<and> mtx_inv {} k' \<and>
    (\<forall>u. exists_task u k \<longrightarrow> u \<notin> {v} \<longrightarrow> exact u k') \<and> priority (tcb k' v) = ?p \<and>
    (\<forall>u. priority (tcb k' u) = priority (tcb k u) \<or> u \<in> UNIV \<and> priority (tcb k' u) = ?p \<and> ?p < priority (tcb k u))"
    by (rule raise [OF kv o mtx_goodD(1) [OF good] v _ p mtx_goodD(2) [OF good] _ _ _ follows_all card]) (use True in simp_all)
  then obtain k' where k': "change_task_priority (hk n) v ?p k = Some k'" "pri_changed k k'" "oinv k'" "mtx_inv {} k'"
      "\<forall>u. exists_task u k \<longrightarrow> u \<noteq> v \<longrightarrow> exact u k'" "priority (tcb k' v) = ?p"
      and pri: "\<And>u. priority (tcb k' u) = priority (tcb k u) \<or> priority (tcb k' u) = ?p \<and> ?p < priority (tcb k u)"
    by auto
  have pt: "priority (tcb k' t) = ?p" using pri [of t] by simp
  have "claims v k' \<subseteq> insert ?p (claims v k)" by (rule claims_sub [OF k'(2)]) (use pri in blast)
  then have "\<forall>q \<in> claims v k'. ?p \<le> q" using mtx_goodD(2) [OF good v] True by (force simp: exact_at_iff)
  then have "Min (insert ?p (claims v k')) = ?p" by (intro Min_eqI) auto
  with True show thesis using that [of k'] k' pt by auto
qed

text \<open>Then the caller waits.\<close>

lemma loc_waits:
  assumes ok: "kernel_ok k" "oinv k" "mtx_good {} k" and n: "NUM_TSKID k < n"
    and go: "loc_mtx_error oid tmout k = None" and i: "i = get_mtxcb oid" and v: "mtxtsk (mtx k i) = Some v"
  obtains k1 k2 a where "tk_loc_mtx_u (hk n) oid tmout k = Some (E_TMOUT, END_CRITICAL_SECTION k2)"
    "pri_changed k k1" "task_waits (MtxQ i) (mtx_wspec (mtxatr (mtx k i))) (winfo (tcb k1 (self k))) (mtxid (mtx k i)) a k1 k2"
    "a AND TA_TPRI \<noteq> 0 \<longleftrightarrow> mtx_order (mtxatr (mtx k i)) \<noteq> 0" "self k1 = self k"
    "kinv {} k2" "oinv k2" "mtx_good {} k2"
proof -
  let ?t = "self k" and ?atr = "mtxatr (mtx k i)"
  let ?a = "(?atr AND TA_NODISWAI) OR mtx_order ?atr"
  note g = loc_mtx_error_None [OF go i] and kv = kernel_ok_kinv [OF ok(1)] and inv = mtx_goodD(1) [OF ok(3)]
  note run = kernel_ok_dispatch [OF ok(1) g(3)] and t = running_exists [OF ok(1) g(3)]
  have ve: "exists_task v k" using mtx_inv_live(3) [OF inv g(4,5)] v by (simp add: mtx_owned_def)
  have vt: "v \<noteq> ?t" using g(6) v run by auto
  obtain k1 where k1: "(if mtx_kind i k = TA_INHERIT \<and> priority (tcb k v) > priority (tcb k ?t)
        then change_task_priority (hk n) v (priority (tcb k ?t)) k else Some k) = Some k1"
      "pri_changed k k1" "oinv k1" "mtx_inv {} k1" "\<And>u. exists_task u k \<Longrightarrow> u \<noteq> v \<Longrightarrow> exact u k1"
      "if mtx_kind i k = TA_INHERIT then priority (tcb k1 v) = Min (insert (priority (tcb k1 ?t)) (claims v k1)) else exact v k1"
      "priority (tcb k1 ?t) = priority (tcb k ?t)"
    by (rule raise_owner [OF kv ok(2,3) ve t n, of "mtx_kind i k = TA_INHERIT"]) (rule that; assumption)
  note o = fixed_objs_eqD [OF pri_changedD(2) [OF k1(2)]] and f = fixed_part_eqD [OF pri_changedD(3) [OF k1(2)]]
    and kv1 = pri_changedD(1) [OF k1(2)] and ex1 = pri_changed_exists [OF k1(2)]
  have st1: "state (tcb k1 ?t) = TS_READY" using pri_changed_state(3) [OF k1(2), of ?t] run by simp
  have dis: "\<not> is_diswai ?atr (tcb k1 ?t) TTW_MTX" using g(8) is_diswai_cong [OF f(13)] by simp
  define k0 where "k0 = upd_tcb ?t (\<lambda>tc. tc\<lparr>wspec := mtx_wspec ?atr, wercd := E_OK, winfo := winfo tc\<rparr>) k1"
  define k2 where "k2 = gcb_make_wait_with_diswai (MtxQ i) (mtxid (mtx k i)) ?a tmout k0"
  have nd: "?a AND TA_NODISWAI = ?atr AND TA_NODISWAI"
    unfolding bit.conj_disj_distrib2 and.assoc by (simp add: mtx_order_def)
  have tp: "?a AND TA_TPRI \<noteq> 0 \<longleftrightarrow> mtx_order ?atr \<noteq> 0"
    unfolding bit.conj_disj_distrib2 and.assoc by (simp add: mtx_order_def)
  have tw: "tskwait (mtx_wspec ?atr) = TTW_MTX" "mtxid (mtx k i) = int i + 1"
    using mtx_inv_live(4) [OF inv g(4,5)] by (simp_all add: mtx_wspec_def)
  have tm: "tmout \<noteq> TMO_POL" using g(9) v by simp
  have w: "task_waits (MtxQ i) (mtx_wspec ?atr) (winfo (tcb k1 ?t)) (mtxid (mtx k i)) ?a k1 k2"
    unfolding k2_def
  proof (rule gcb_wait_waits [OF kv1 _ _ _ _ _ _ tm])
    show "self k1 < NUM_TSKID k1" "state (tcb k1 (self k1)) = TS_READY" using run st1 by (simp_all add: o)
    show "wait_home (mtx_wspec ?atr) (mtxid (mtx k i)) = Some (MtxQ i)" using tw(2) by (simp add: mtx_wspec_def INDEX_def)
    show "k0 = upd_tcb (self k1) (\<lambda>tc. tc\<lparr>wspec := mtx_wspec ?atr, wercd := E_OK, winfo := winfo (tcb k1 ?t)\<rparr>) k1"
      by (simp add: k0_def o upd_tcb_def)
    show "\<not> is_diswai ?a (tcb k1 (self k1)) (tskwait (mtx_wspec ?atr))" using dis by (simp add: is_diswai_def nd tw(1) o)
  qed simp
  have call: "tk_loc_mtx_u (hk n) oid tmout k = Some (wercd (tcb k2 ?t), END_CRITICAL_SECTION k2)"
  proof -
    have "tk_loc_mtx_u (hk n) oid tmout k = map_option (\<lambda>k. (wercd (tcb k ?t), END_CRITICAL_SECTION k))
       (map_option (\<lambda>k'.
          (let k' = upd_tcb ?t (\<lambda>tc. tc\<lparr>wspec := (if ?atr AND TA_CEILING = TA_TFIFO then WSPEC_MTX_TFIFO
                 else if ?atr AND TA_CEILING = TA_INHERIT then WSPEC_MTX_INHERIT else WSPEC_MTX_TPRI),
                 wercd := E_TMOUT, wid := mtxid (mtx k i)\<rparr>) k';
               k' = make_wait tmout ?atr k'
           in if ?atr AND TA_CEILING = TA_TFIFO then que_append ?t (MtxQ i) k' else queue_insert_tpri ?t (MtxQ i) k'))
         (if mtx_kind i k = TA_INHERIT \<and> priority (tcb k v) > priority (tcb k ?t)
          then change_task_priority (hk n) v (priority (tcb k ?t)) k else Some k))"
      using g v tm by (simp add: tk_loc_mtx_u_def checked_opt_def i [symmetric] Let_def mtx_kind_def option.map_comp o_def)
    then show ?thesis
      using mtx_wait_gcb [of ?t k1 "?atr AND TA_CEILING" ?atr tmout "mtxid (mtx k i)" "MtxQ i", OF _ refl tm dis]
      by (simp add: k1(1) o k2_def k0_def)
  qed
  have w': "task_waits (MtxQ i) (mtx_wspec (mtxatr (mtx k1 i))) (winfo (tcb k1 ?t)) (mtxid (mtx k1 i)) ?a k1 k2"
    using w by (simp add: o(16))
  have F: "if mtx_kind i k1 = TA_INHERIT then priority (tcb k1 v) = Min (insert (priority (tcb k1 (self k1))) (claims v k1))
      else exact v k1" using k1(6) by (simp only: mtx_kind_def o)
  have good: "mtx_good {} k2"
    by (rule mtx_waits_good [OF kv1 k1(4) _ _ _ _ _ _ w' _ _ F])
       (use g v vt ve k1(5) st1 tp ex1 in \<open>simp_all add: o\<close>)
  have "oinv k2"
  proof (rule oinv_objs [OF k1(3) task_waitsD(2) [OF w]])
    show "que k2 h = que k1 h" if "object_queue h" for h
      using task_waitsD(13) [OF w object_queue_not(1) [OF that]] object_queue_not(3) [OF that] by simp
    fix h u assume h: "object_queue h" "u \<in> set (que k1 h)"
    have "u \<noteq> self k1" using kinv_ready_notin [OF kv1 st1 object_queue_not(1) [OF h(1)]] h(2) by (auto simp: o)
    then show "same_tcb (tcb k2 u) (tcb k1 u)" by (rule task_waitsD(11) [OF w])
  qed
  with call good w k1(2) tp show thesis
    using task_waitsD(1,7) [OF w] by (intro that [of k2 k1 ?a]) (simp_all add: o)
qed

end

end
