(* ===== verification/Mutex_Unlock.thy ===== *)
theory Mutex_Unlock
  imports Mutex_Lock
begin

text \<open>
  Unlocking, creating and deleting a mutex, and releasing a task that waits for one. A deletion can take back
  inherited priorities only if the mutex is in no deadlock.
\<close>

subsection \<open>Unlocking\<close>

lemma pri_only_or_frame:
  assumes "k' = k \<or> pri_only t p k k'"
  shows "objs k' = objs k" "state (tcb k' u) = state (tcb k u)" "wercd (tcb k' u) = wercd (tcb k u)"
    "\<not> rdyq h \<Longrightarrow> que k' h = que k h" "mtxlist (tcb k' u) = mtxlist (tcb k u)"
    "bpriority (tcb k' u) = bpriority (tcb k u)" "mtxcb_table k' = mtxcb_table k" "max_mtxid k' = max_mtxid k"
    "exists_task u k' = exists_task u k" "timer_queue k' = timer_queue k" "NUM_TSKID k' = NUM_TSKID k"
    "kinv {} k \<Longrightarrow> kinv {} k'" "ctxtsk k' = ctxtsk k" "u \<noteq> t \<Longrightarrow> same_tcb (tcb k' u) (tcb k u)"
proof -
  have ob: "objs k' = objs k" using assms pri_onlyD(2) by auto
  show "objs k' = objs k" by (rule ob)
  show "mtxcb_table k' = mtxcb_table k" "max_mtxid k' = max_mtxid k" "NUM_TSKID k' = NUM_TSKID k" "ctxtsk k' = ctxtsk k"
    using objs_eqD [OF ob] by simp_all
  show "state (tcb k' u) = state (tcb k u)" "wercd (tcb k' u) = wercd (tcb k u)"
    "\<not> rdyq h \<Longrightarrow> que k' h = que k h" "timer_queue k' = timer_queue k"
    "exists_task u k' = exists_task u k" "kinv {} k \<Longrightarrow> kinv {} k'"
    using assms pri_onlyD(4-7,10) [of t p k k'] pri_changed_exists [OF pri_onlyD(1), of t p k k'] by auto
  show "u \<noteq> t \<Longrightarrow> same_tcb (tcb k' u) (tcb k u)" using assms pri_onlyD(9) [of t p k k' u] by (auto simp: same_tcb_def)
  have "mtxlist (tcb k' u) = mtxlist (tcb k u) \<and> bpriority (tcb k' u) = bpriority (tcb k u)"
    using assms fixed_part_eqD(4,14) [OF pri_changedD(3) [OF pri_onlyD(1)], of t p k k' u] by auto
  then show "mtxlist (tcb k' u) = mtxlist (tcb k u)" "bpriority (tcb k' u) = bpriority (tcb k u)" by simp_all
qed

definition unl_mtx_error :: "ID \<Rightarrow> kernel \<Rightarrow> ER option" where
  "unl_mtx_error oid k =
     (let i = get_mtxcb oid
      in first_error [CHECK_MTXID oid k, CHECK_INTSK k, CHECK (mtxid (mtx k i) \<noteq> 0) E_NOEXS,
           CHECK (mtxtsk (mtx k i) = ctxtsk k) E_ILUSE])"

lemma unl_mtx_fails:
  assumes "unl_mtx_error oid k = Some e"
  shows "tk_unl_mtx hks oid k = Some (e, k) \<or> tk_unl_mtx hks oid k = Some (e, END_CRITICAL_SECTION k)"
proof (cases "first_error [CHECK_MTXID oid k, CHECK_INTSK k]")
  case (Some e')
  then have "unl_mtx_error oid k = Some e'" by (auto simp: unl_mtx_error_def Let_def split: option.splits)
  with assms Some show ?thesis by (simp add: tk_unl_mtx_def checked_opt_def)
next
  case None
  then have *: "unl_mtx_error oid k = (let i = get_mtxcb oid in first_error
      [CHECK (mtxid (mtx k i) \<noteq> 0) E_NOEXS, CHECK (mtxtsk (mtx k i) = ctxtsk k) E_ILUSE])"
    by (simp add: unl_mtx_error_def Let_def split: option.splits)
  show ?thesis
    unfolding tk_unl_mtx_def checked_opt_def None Let_def option.case
    using assms unfolding * Let_def first_error_CHECK by (auto split: if_splits)
qed

lemma unl_mtx_error_None:
  assumes "unl_mtx_error oid k = None" "i = get_mtxcb oid"
  shows "CHECK_MTXID oid k = None" "CHECK_INTSK k = None" "i < nat (max_mtxid k)" "mtxid (mtx k i) \<noteq> 0"
    "mtxtsk (mtx k i) = Some (self k)" "ctxtsk k = Some (self k)"
proof -
  have *: "CHECK_MTXID oid k = None \<and> CHECK_INTSK k = None \<and> mtxid (mtx k i) \<noteq> 0 \<and> mtxtsk (mtx k i) = ctxtsk k"
    using assms(1) unfolding unl_mtx_error_def Let_def first_error_None_iff assms(2) [symmetric] by simp
  moreover from this have "ctxtsk k = Some (self k)" by (auto simp: CHECK_INTSK_def in_indp_def self_def)
  ultimately show "CHECK_MTXID oid k = None" "CHECK_INTSK k = None" "i < nat (max_mtxid k)" "mtxid (mtx k i) \<noteq> 0"
    "mtxtsk (mtx k i) = Some (self k)" "ctxtsk k = Some (self k)"
    by (auto simp: assms(2) get_mtxcb_def INDEX_def CHECK_MTXID_def)
qed

text \<open>The owner drops a mutex from his list: it is in transit then.\<close>

definition mtx_drop :: "nat \<Rightarrow> tid \<Rightarrow> kernel \<Rightarrow> kernel" where
  "mtx_drop i t k = upd_tcb t (\<lambda>c. c\<lparr>mtxlist := filter (\<lambda>m. Some i \<noteq> Some m) (mtxlist (tcb k t))\<rparr>) k"

lemma mtx_drop_frame [simp]:
  "tcb_table (mtx_drop i t k) = (tcb_table k)(t := (tcb k t)\<lparr>mtxlist := filter (\<lambda>m. i \<noteq> m) (mtxlist (tcb k t))\<rparr>)"
  "que (mtx_drop i t k) = que k" "mtxcb_table (mtx_drop i t k) = mtxcb_table k"
  "max_mtxid (mtx_drop i t k) = max_mtxid k" "free_mtxcb (mtx_drop i t k) = free_mtxcb k" "objs (mtx_drop i t k) = objs k"
  "exists_task u (mtx_drop i t k) = exists_task u k" "NUM_TSKID (mtx_drop i t k) = NUM_TSKID k"
  "other_objs (mtx_drop i t k) = other_objs k" "ctxtsk (mtx_drop i t k) = ctxtsk k" "self (mtx_drop i t k) = self k"
  "kinv X k \<Longrightarrow> kinv X (mtx_drop i t k)"
proof -
  show "exists_task u (mtx_drop i t k) = exists_task u k" unfolding mtx_drop_def by (subst exists_task_upd_tcb) simp_all
  show "kinv X k \<Longrightarrow> kinv X (mtx_drop i t k)" unfolding mtx_drop_def by (erule kinv_upd_tcb_other) simp_all
qed (simp_all add: mtx_drop_def objs_eqD [OF objs_upd_tcb])

lemma mtx_drop_inv:
  assumes inv: "mtx_inv {} k"
  shows "mtx_inv {i} (mtx_drop i t k)"
proof -
  let ?k = "mtx_drop i t k"
  have "(\<lambda>u. priority (tcb ?k u)) = (\<lambda>u. priority (tcb k u))" by auto
  then have wq: "wq_ok h a d s ?k = wq_ok h a d s k" for h a d s by (auto simp: wq_ok_def)
  have "mtx_ok {i} j ?k" if j: "j < nat (max_mtxid k)" for j
  proof (cases "mtxid (mtx k j) = 0")
    case True
    then show ?thesis using mtx_inv_ok [OF inv j] by (simp add: mtx_ok_def)
  next
    case False
    have "j \<noteq> i \<Longrightarrow> mtx_owned j k \<Longrightarrow> mtx_owned j ?k" by (cases "mtxtsk (mtx k j)") (auto simp: mtx_owned_def)
    with False mtx_inv_live [OF inv j False] show ?thesis by (simp add: mtx_ok_def wq mtx_kind_def)
  qed
  moreover have "held_ok {i} u ?k" if "exists_task u k" for u
    using mtx_inv_held [OF inv that] by (auto simp: held_ok_def)
  ultimately show ?thesis using inv by (simp add: mtx_inv_def)
qed

lemma mtx_drop_claims: "u \<noteq> t \<Longrightarrow> claims u (mtx_drop i t k) = claims u k"
proof -
  have "mtx_claims (mtx_drop i t k) j = mtx_claims k j" for j by (auto simp: mtx_claims_def mtx_kind_def)
  then show "u \<noteq> t \<Longrightarrow> ?thesis" by (simp add: claims_def)
qed

lemma release_mutex_drop:
  assumes inv: "mtx_inv {} k" and t: "exists_task t k"
  shows "release_mutex hks t (Some i) k =
    (let k' = mtx_drop i t k; p = Min (claims t k')
     in if p \<noteq> priority (tcb k t) then change_task_priority hks t p k' else Some k')"
  using release_loop_exact [OF inv t, of "Some i"]
  by (simp add: release_mutex_def Let_def mtx_drop_def del: option.inject)

lemma mtx_inv_owner:
  assumes inv: "mtx_inv Y k" and i: "i \<in> Y"
  shows "mtx_inv Y (upd_mtx i (\<lambda>c. c\<lparr>mtxtsk := x\<rparr>) k)"
proof -
  let ?k = "upd_mtx i (\<lambda>c. c\<lparr>mtxtsk := x\<rparr>) k"
  have wq: "wq_ok h a d s ?k = wq_ok h a d s k" for h a d s by (simp add: wq_ok_def)
  have "mtx_ok Y j ?k" if "j < nat (max_mtxid k)" for j
    using mtx_inv_ok [OF inv that] i
    by (cases "j = i"; cases "mtxtsk (mtx k j)") (auto simp: mtx_ok_def mtx_owned_def wq mtx_kind_def)
  moreover have "held_ok Y u ?k" if "exists_task u k" for u
    using mtx_inv_held [OF inv that] i by (auto simp: held_ok_def)
  moreover have "(\<lambda>j. mtxid (mtx ?k j)) = (\<lambda>j. mtxid (mtx k j))" by auto
  ultimately show ?thesis using inv by (simp add: mtx_inv_def)
qed

lemma pass_inv:
  assumes inv: "mtx_inv {i} k'" and t: "exists_task w k" "i < nat (max_mtxid k)" "mtxid (mtx k i) \<noteq> 0"
    and list: "\<And>u. exists_task u k \<Longrightarrow> i \<notin> set (mtxlist (tcb k u))"
    and r: "released {w} e k k1" "objs k1 = objs k" and k': "k' = mtx_give i w k1 \<or> pri_only w c (mtx_give i w k1) k'"
  shows "mtx_inv {} k'" "\<And>u. mtxlist (tcb k' u) = (if u = w then i # mtxlist (tcb k w) else mtxlist (tcb k u))"
    "mtxcb_table k' = (mtxcb_table k)(i := (mtx k i)\<lparr>mtxtsk := Some w\<rparr>)"
proof -
  note f = pri_only_or_frame [OF k'] and c = core_eqD [OF releasedD(6) [OF r(1)]] and o = objs_eqD [OF r(2)]
  show l: "mtxlist (tcb k' u) = (if u = w then i # mtxlist (tcb k w) else mtxlist (tcb k u))" for u by (simp add: f c)
  show m: "mtxcb_table k' = (mtxcb_table k)(i := (mtx k i)\<lparr>mtxtsk := Some w\<rparr>)" by (simp add: f o)
  have ex: "exists_task u k' = exists_task u k" for u using released_exists [OF r(1)] by (simp add: f)
  have q: "w \<notin> set (que k' (MtxQ i))" using releasedD(9) [OF r(1), of "MtxQ i"] by (simp add: f)
  show "mtx_inv {} k'"
  proof (rule mtx_inv_settle [OF inv])
    show "mtx_owned j k'" if "j \<in> {i}" for j using that t(1) q by (simp add: mtx_owned_def m l ex)
    show "mtxtsk (mtx k' j) = Some u" if "j \<in> {i}" "exists_task u k'" "j \<in> set (mtxlist (tcb k' u))" for j u
      using that list [of u] by (auto simp: m l ex split: if_splits)
  qed
qed

context wait_objects
begin

lemma drop_oinv: "oinv k \<Longrightarrow> oinv (mtx_drop i t k)"
  unfolding mtx_drop_def by (rule fields) (simp_all add: same_wait_def)

text \<open>Unlocking is dropping the mutex, with the priority it gave, and passing it on.\<close>

lemma unlock_good:
  assumes kv: "kinv {} k" and o: "oinv k" and good: "mtx_good {} k"
    and go: "unl_mtx_error oid k = None" and i: "i = get_mtxcb oid" and run: "\<not> ts_wait (state (tcb k (self k)))"
  obtains k1 k' where "tk_unl_mtx hks oid k = Some (E_OK, END_CRITICAL_SECTION k')"
    "k1 = mtx_drop i (self k) k \<or> pri_only (self k) (Min (claims (self k) (mtx_drop i (self k) k))) (mtx_drop i (self k) k) k1"
    "case que k (MtxQ i) of
       [] \<Rightarrow> k' = upd_mtx i (\<lambda>c. c\<lparr>mtxtsk := None\<rparr>) k1
     | w # ws \<Rightarrow> \<exists>k2. released {w} E_OK k1 k2 \<and> objs k2 = objs k1 \<and>
         (k' = mtx_give i w k2 \<or> pri_only w (ceilpri (mtx k i)) (mtx_give i w k2) k')"
    "kinv {} k'" "oinv k'" "mtx_good {} k'"
proof -
  let ?t = "self k"
  let ?k = "mtx_drop i ?t k"
  let ?p = "Min (claims ?t ?k)"
  note g = unl_mtx_error_None [OF go i] and inv = mtx_goodD(1) [OF good]
  have t: "exists_task ?t k" using mtx_inv_live(3) [OF inv g(3,4)] g(5) by (simp add: mtx_owned_def)
  have kv0: "kinv {} ?k" using kv by simp
  have p: "?p < NUM_PRI" using claims_bound [OF kv0, of ?t] t by simp
  have st0: "?t < NUM_TSKID ?k" "\<not> ts_wait (state (tcb ?k ?t))" using t run by (simp_all add: exists_task_def)
  note inv0 = mtx_drop_inv [OF inv, of i ?t] and o0 = drop_oinv [OF o, of i ?t]
  obtain k1 where rel: "release_mutex hks ?t (Some i) k = Some k1" and k1: "k1 = ?k \<or> pri_only ?t ?p ?k k1"
    and p1: "priority (tcb k1 ?t) = ?p"
  proof (cases "?p = priority (tcb k ?t)")
    case True
    then show thesis using that [of ?k] release_mutex_drop [OF inv t, of hks i] by (simp add: Let_def)
  next
    case False
    obtain k1 where "change_task_priority hks ?t ?p ?k = Some k1" "pri_only ?t ?p ?k k1"
      using change_quiet [OF kv0 st0 p] by metis
    with False show thesis
      using that [of k1] release_mutex_drop [OF inv t, of hks i] pri_onlyD(8) [of ?t ?p ?k k1 ?t] p by (simp add: Let_def)
  qed
  note f = pri_only_or_frame [OF k1]
  have inv1: "mtx_inv {i} k1" and cl: "claims u k1 = claims u ?k" for u
    using k1 inv0 pri_only_step [OF kv0 inv0 st0(2) p] by auto
  have o1: "oinv k1" using k1 o0 pri_only_oinv [OF kv0 o0 st0(2)] by auto
  have pri1: "u \<noteq> ?t \<Longrightarrow> priority (tcb k1 u) = priority (tcb k u)" for u
    using f(14) [of u] by (simp add: same_tcb_def)
  have ex1: "exact u k1" if "exists_task u k1" for u
    using mtx_goodD(2) [OF good, of u] that p1 pri1 [of u] mtx_drop_claims [of u ?t i k]
    by (cases "u = ?t") (simp_all add: exact_at_def cl f)
  have list: "i \<notin> set (mtxlist (tcb k1 u))" if "exists_task u k1" for u
    using heldD(3) [OF inv, of u i] that g(5) by (auto simp: f split: if_splits)
  have i1: "i < nat (max_mtxid k1)" "mtxid (mtx k1 i) \<noteq> 0" "i \<in> {i}" using g(3,4) by (simp_all add: f)
  have q1: "que k1 (MtxQ i) = que k (MtxQ i)" by (simp add: f)
  have call: "tk_unl_mtx hks oid k = map_option (\<lambda>k. (E_OK, END_CRITICAL_SECTION k)) (mtx_pass hks i k1)"
    using g rel by (simp add: tk_unl_mtx_def checked_opt_def i [symmetric] Let_def)
  show thesis
  proof (cases "que k (MtxQ i)")
    case Nil
    let ?k' = "upd_mtx i (\<lambda>c. c\<lparr>mtxtsk := None\<rparr>) k1"
    have none: "mtx_inv {i} ?k'" by (rule mtx_inv_owner [OF inv1]) simp
    have "mtx_inv {} ?k'"
      by (rule mtx_inv_settle [OF none]) (use Nil q1 list in \<open>auto simp: mtx_owned_def\<close>)
    moreover have "claims u ?k' = claims u k1" for u
    proof -
      have "mtx_claims ?k' j = mtx_claims k1 j" for j by (auto simp: mtx_claims_def mtx_kind_def)
      then show ?thesis by (simp add: claims_def)
    qed
    ultimately have "mtx_good {} ?k'" using ex1 by (simp add: mtx_good_def exact_at_def)
    moreover have "oinv ?k'" by (rule cong [OF o1]) (simp_all add: same_tcb_def)
    ultimately show thesis
      using call k1 Nil q1 f(12) [OF kv0] by (intro that [of ?k' k1]) (simp_all add: mtx_pass_def)
  next
    case (Cons w ws)
    have wq: "w \<in> set (que k1 (MtxQ i))" by (simp add: q1 Cons)
    note we = mtx_waiter(7) [OF f(12) [OF kv0] inv1 wq]
    obtain k2 k' where k': "mtx_pass hks i k1 = Some k'" "released {w} E_OK k1 k2" "objs k2 = objs k1" "oinv k'" "mtx_inv {i} k'"
        "k' = mtx_give i w k2 \<or> pri_only w (ceilpri (mtx k1 i)) (mtx_give i w k2) k'"
        "\<And>u. exists_task u k1 \<Longrightarrow> u \<notin> {} \<Longrightarrow> exact u k'"
      by (rule pass_good [OF f(12) [OF kv0] o1 inv1 i1 q1 [unfolded Cons] ex1, of "{}" hks]) (use list in auto)
    note p' = pass_inv [OF k'(5) we i1(1,2) list k'(2,3,6)]
    have kv': "kinv {} k'" using pri_only_or_frame(12) [OF k'(6)] releasedD(1) [OF k'(2)] by simp
    have "exists_task u k' = exists_task u k1" for u
      using pri_only_or_frame(9) [OF k'(6)] released_exists [OF k'(2)] by simp
    then have "mtx_good {} k'" using k'(7) p'(1) by (simp add: mtx_good_def)
    then show thesis
      using call k' k1 kv' Cons by (intro that [of k' k1]) (auto simp: f)
  qed
qed

end

subsection \<open>Creating and deleting\<close>

lemma mtx_good_create:
  assumes good: "mtx_good {} k" and free: "free_mtxcb k = i # rest"
    and c: "mtxid c = ID_of i" "mtxtsk c = None" "mtxatr c AND TA_CEILING = TA_CEILING \<Longrightarrow> ceilpri c < NUM_PRI"
    and k': "mtxcb_table k' = (mtxcb_table k)(i := c)" "free_mtxcb k' = rest" "tcb_table k' = tcb_table k"
      "\<And>j. que k' (MtxQ j) = que k (MtxQ j)" "max_mtxid k' = max_mtxid k" "NUM_TSKID k' = NUM_TSKID k"
  shows "mtx_good {} k'"
proof -
  note inv = mtx_goodD(1) [OF good]
  have pool: "pool_ok (i # rest) (\<lambda>j. mtxid (mtx k j)) (nat (max_mtxid k))" using mtx_inv_pool [OF inv] free by simp
  note p = pool_ok_take [OF pool]
  have q: "que k (MtxQ i) = []" using mtx_inv_ok [OF inv p(2)] p(3) by (simp add: mtx_ok_def)
  have ids: "(\<lambda>j. mtxid (((mtxcb_table k)(i := c)) j)) = (\<lambda>j. mtxid (mtx k j))(i := int i + 1)"
    using c(1) by (auto simp: ID_of_def)
  have ex: "exists_task u k' = exists_task u k" for u using k' by (simp add: exists_task_def)
  have list: "i \<notin> set (mtxlist (tcb k u))" if "exists_task u k" for u using heldD(2) [OF inv that] p(3) by auto
  have wq: "wq_ok (MtxQ j) a d s k' = wq_ok (MtxQ j) a d s k" for j a d s by (simp add: wq_ok_def k')
  have "mtx_ok {} j k'" if j: "j < nat (max_mtxid k)" for j
  proof (cases "j = i")
    case True
    then show ?thesis using c q by (simp add: mtx_ok_def k' mtx_owned_def mtx_kind_def)
  next
    case False
    then have "mtx_owned j k' = mtx_owned j k" by (cases "mtxtsk (mtx k j)") (simp_all add: mtx_owned_def k' ex)
    with False mtx_inv_ok [OF inv j] show ?thesis by (simp add: mtx_ok_def k' wq mtx_kind_def)
  qed
  moreover have "held_ok {} u k'" if "exists_task u k" for u
    using mtx_inv_held [OF inv that] list [OF that] by (auto simp: held_ok_def k')
  moreover have "pool_ok (free_mtxcb k') (\<lambda>j. mtxid (mtx k' j)) (nat (max_mtxid k'))"
    unfolding k'(1,2,5) ids by (rule p(1))
  ultimately have "mtx_inv {} k'" using inv by (simp add: mtx_inv_def k'(3,4,5) ex)
  moreover have "exact u k'" if u: "exists_task u k" for u
  proof -
    have "mtx_claims k' j = mtx_claims k j" if "j \<in> set (mtxlist (tcb k u))" for j
      by (rule mtx_claims_cong) (use list [OF u] that in \<open>auto simp: k'\<close>)
    then have "claims u k' = claims u k" by (simp add: claims_def k')
    with mtx_goodD(2) [OF good u] show ?thesis by (simp add: exact_at_def k')
  qed
  ultimately show ?thesis by (simp add: mtx_good_def ex)
qed

lemma exists_task_free_mtxcb [simp]: "exists_task u (k\<lparr>free_mtxcb := fs\<rparr>) = exists_task u k"
  by (simp add: exists_task_def NUM_TSKID_def)

lemma mtx_good_free:
  assumes good: "mtx_good {i} k" and i: "i < nat (max_mtxid k)" "mtxid (mtx k i) \<noteq> 0" and q: "que k (MtxQ i) = []"
    and list: "\<And>u. exists_task u k \<Longrightarrow> i \<notin> set (mtxlist (tcb k u))"
  shows "mtx_good {} (upd_mtx i (\<lambda>c. c\<lparr>mtxid := 0\<rparr>) (k\<lparr>free_mtxcb := free_mtxcb k @ [i]\<rparr>))" (is "mtx_good {} ?k")
proof -
  note inv = mtx_goodD(1) [OF good]
  have ex: "exists_task u ?k = exists_task u k" for u by (simp add: exists_task_def NUM_TSKID_def upd_mtx_def)
  have wq: "wq_ok (MtxQ j) a d s ?k = wq_ok (MtxQ j) a d s k" for j a d s by (simp add: wq_ok_def)
  have "mtx_ok {} j ?k" if j: "j < nat (max_mtxid k)" for j
  proof (cases "j = i")
    case False
    then have "mtx_owned j ?k = mtx_owned j k" by (cases "mtxtsk (mtx k j)") (simp_all add: mtx_owned_def ex)
    with False mtx_inv_ok [OF inv j] show ?thesis by (simp add: mtx_ok_def wq mtx_kind_def)
  qed (simp add: mtx_ok_def q)
  moreover have "held_ok {} u ?k" if "exists_task u k" for u
    using mtx_inv_held [OF inv that] list [OF that] by (auto simp: held_ok_def)
  moreover have "pool_ok (free_mtxcb ?k) (\<lambda>j. mtxid (mtx ?k j)) (nat (max_mtxid ?k))"
  proof -
    have "(\<lambda>j. mtxid (mtx ?k j)) = (\<lambda>j. mtxid (mtx k j))(i := 0)" by auto
    then show ?thesis using pool_ok_return [OF mtx_inv_pool [OF inv] i] by (simp del: upd_mtx_frame(3))
  qed
  ultimately have "mtx_inv {} ?k" using inv by (simp add: mtx_inv_def ex)
  moreover have "exact u ?k" if u: "exists_task u k" for u
  proof -
    have "mtx_claims ?k j = mtx_claims k j" if "j \<in> set (mtxlist (tcb k u))" for j
      by (rule mtx_claims_cong) (use list [OF u] that in \<open>auto\<close>)
    then have "claims u ?k = claims u k" by (simp add: claims_def)
    with mtx_goodD(2) [OF good u] show ?thesis by (simp add: exact_at_def)
  qed
  ultimately show ?thesis by (simp add: mtx_good_def ex)
qed

text \<open>
  Who blocks whom: a task that waits for an inheritance mutex, and its owner. A mutex is in a deadlock
  when a task that waits for it is reached from its owner this way.
\<close>

definition mtx_blocks :: "kernel \<Rightarrow> (tid \<times> tid) set" where
  "mtx_blocks k = {(u, v). \<exists>i. u \<in> set (que k (MtxQ i)) \<and> mtx_kind i k = TA_INHERIT \<and> mtxtsk (mtx k i) = Some v}"

definition mtx_deadlock :: "nat \<Rightarrow> kernel \<Rightarrow> bool" where
  "mtx_deadlock i k \<longleftrightarrow>
     (\<exists>v \<in> set_option (mtxtsk (mtx k i)). \<exists>w \<in> set (que k (MtxQ i)). (v, w) \<in> (mtx_blocks k)\<^sup>*)"

definition del_mtx_error :: "ID \<Rightarrow> kernel \<Rightarrow> ER option" where
  "del_mtx_error oid k = first_error [CHECK_MTXID oid k, CHECK (mtxid (mtx k (get_mtxcb oid)) \<noteq> 0) E_NOEXS]"

lemma del_mtx_fails:
  assumes "del_mtx_error oid k = Some e"
  shows "tk_del_mtx hks oid k = Some (e, k) \<or> tk_del_mtx hks oid k = Some (e, END_CRITICAL_SECTION k)"
  using assms by (auto simp: del_mtx_error_def tk_del_mtx_def checked_opt_def Let_def split: option.splits if_splits)

lemma del_mtx_error_None:
  assumes "del_mtx_error oid k = None" "i = get_mtxcb oid"
  shows "CHECK_MTXID oid k = None" "i < nat (max_mtxid k)" "mtxid (mtx k i) \<noteq> 0"
  using assms by (auto simp: del_mtx_error_def CHECK_MTXID_def CHECK_def get_mtxcb_def INDEX_def split: if_splits)

context wait_objects
begin

text \<open>The owner of the mutex loses it, and everybody has the priority without it.\<close>

lemma drop_for_delete:
  assumes kv: "kinv {} k" and o: "oinv k" and good: "mtx_good {} k" and i: "i < nat (max_mtxid k)" "mtxid (mtx k i) \<noteq> 0"
    and v: "mtxtsk (mtx k i) = Some v" and no: "\<not> mtx_deadlock i k" and n: "NUM_TSKID k < n"
  obtains k' where "release_mutex (hk n) v (Some i) k = Some k'" "pri_changed (mtx_drop i v k) k'" "oinv k'" "mtx_good {i} k'"
proof -
  let ?k = "mtx_drop i v k" and ?R = "(mtx_blocks k)\<^sup>* `` {v}"
  note inv = mtx_goodD(1) [OF good]
  have ve: "exists_task v k" using mtx_inv_live(3) [OF inv i] v by (simp add: mtx_owned_def)
  have kv0: "kinv {} ?k" using kv by simp
  note inv0 = mtx_drop_inv [OF inv, of i v]
  have ex0: "exact u ?k" if "exists_task u ?k" "u \<noteq> v" for u
    using mtx_goodD(2) [OF good, of u] that by (simp add: exact_at_def mtx_drop_claims)
  have blk: "(u, w) \<in> (mtx_blocks k)" if "u \<in> set (que k (MtxQ j))" "mtx_kind j k = TA_INHERIT" "mtxtsk (mtx k j) = Some w" for u j w
    using that by (auto simp: mtx_blocks_def)
  have R: "v \<in> ?R" "follows ?R {i} ?k"
    using no v blk by (auto simp: follows_def mtx_deadlock_def mtx_kind_def intro: rtrancl_into_rtrancl) 
  note p = claims_bound [OF kv0, of v]
  show thesis
  proof (cases "Min (claims v ?k) = priority (tcb k v)")
    case True
    then have "mtx_good {i} ?k" using inv0 ex0 by (auto simp: mtx_good_def exact_at_def)
    then show thesis
      using that [of ?k] release_mutex_drop [OF inv ve, of "hk n" i] True pri_changed_refl [OF kv0] drop_oinv [OF o]
      by (simp add: Let_def)
  next
    case False
    obtain k' where "change_task_priority (hk n) v (Min (claims v ?k)) ?k = Some k'" "pri_changed ?k k'" "oinv k'" "mtx_good {i} k'"
      by (rule change_exact [OF kv0 drop_oinv [OF o] inv0 _ p ex0 _ R, of n]) (use ve n in \<open>simp_all add: exact_at_def\<close>)
    with False show thesis
      using that [of k'] release_mutex_drop [OF inv ve, of "hk n" i] by (simp add: Let_def)
  qed
qed

lemma delete_good:
  assumes kv: "kinv {} k" and o: "oinv k" and good: "mtx_good {} k" and n: "NUM_TSKID k < n"
    and go: "del_mtx_error oid k = None" and i: "i = get_mtxcb oid" and no: "\<not> mtx_deadlock i k"
  obtains k1 k' where "tk_del_mtx (hk n) oid k = Some (E_OK, END_CRITICAL_SECTION k')"
    "k1 = k \<and> mtxtsk (mtx k i) = None \<or> (\<exists>v. mtxtsk (mtx k i) = Some v \<and> pri_changed (mtx_drop i v k) k1)"
    "k' = upd_mtx i (\<lambda>c. c\<lparr>mtxid := 0\<rparr>) (wait_delete (MtxQ i) k1\<lparr>free_mtxcb := free_mtxcb k @ [i]\<rparr>)"
    "kinv {} k'" "oinv k'" "mtx_good {} k'"
proof -
  note g = del_mtx_error_None [OF go i] and inv = mtx_goodD(1) [OF good]
  obtain k1 where k1: "(case mtxtsk (mtx k i) of Some t \<Rightarrow> release_mutex (hk n) t (Some i) k | None \<Rightarrow> Some k) = Some k1"
      "oinv k1" "mtx_good {i} k1" "kinv {} k1"
      "k1 = k \<and> mtxtsk (mtx k i) = None \<or> (\<exists>v. mtxtsk (mtx k i) = Some v \<and> pri_changed (mtx_drop i v k) k1)"
  proof (cases "mtxtsk (mtx k i)")
    case None
    have "mtx_good {i} k" using mtx_inv_mono [OF inv, of "{i}"] mtx_goodD(2) [OF good] by (simp add: mtx_good_def)
    with None show thesis using that [of k] kv o by simp
  next
    case (Some v)
    obtain k' where "release_mutex (hk n) v (Some i) k = Some k'" "pri_changed (mtx_drop i v k) k'" "oinv k'" "mtx_good {i} k'"
      by (rule drop_for_delete [OF kv o good g(2,3) Some no n])
    with Some show thesis using that [of k'] pri_changedD(1) by auto
  qed
  have same: "mtxcb_table k1 = mtxcb_table k" "max_mtxid k1 = max_mtxid k" "free_mtxcb k1 = free_mtxcb k"
    using k1(5) fixed_objs_eqD [OF pri_changedD(2)] by fastforce+
  have list: "i \<notin> set (mtxlist (tcb k1 u))" if u: "exists_task u k1" for u
    using k1(5)
  proof (elim disjE exE conjE)
    assume "k1 = k" "mtxtsk (mtx k i) = None"
    then show ?thesis using heldD(3) [OF inv, of u i] u by auto
  next
    fix v assume v: "mtxtsk (mtx k i) = Some v" "pri_changed (mtx_drop i v k) k1"
    then have "exists_task u k" using pri_changed_exists [OF v(2)] u by simp
    then show ?thesis
      using heldD(3) [OF inv, of u i] v(1) fixed_part_eqD(14) [OF pri_changedD(3) [OF v(2)], of u] by auto
  qed
  let ?w = "wait_delete (MtxQ i) k1" and ?T = "set (que k1 (MtxQ i))"
  have r: "released ?T E_DLT k1 ?w" by (rule wait_delete_released [OF k1(4)]) simp_all
  have q: "que ?w (MtxQ i) = []" by (rule wait_delete_empties [OF k1(4)]) simp_all
  have invw: "mtx_inv {i} ?w" by (rule released_mtx_inv [OF mtx_goodD(1) [OF k1(3)] r]) simp_all
  have "exact u ?w" if u: "exists_task u k1" for u
  proof -
    have "claims u ?w = claims u k1"
    proof (rule released_claims [OF r])
      show "?T \<inter> set (que k1 (MtxQ j)) = {}" if "j \<in> set (mtxlist (tcb k1 u))" for j
        using that list [OF u] disjoint_queuesD [OF kinvD(6) [OF k1(4)], of _ "MtxQ i" "MtxQ j"] by auto
    qed simp
    then show ?thesis
      using mtx_goodD(2) [OF k1(3) u] core_eqD(4) [OF releasedD(6) [OF r, of u]] by (simp add: exact_at_def)
  qed
  then have goodw: "mtx_good {i} ?w" using invw released_exists [OF r] by (simp add: mtx_good_def)
  let ?k' = "upd_mtx i (\<lambda>c. c\<lparr>mtxid := 0\<rparr>) (?w\<lparr>free_mtxcb := free_mtxcb k @ [i]\<rparr>)"
  have "mtx_good {} ?k'"
    using mtx_good_free [OF goodw _ _ q] g list released_exists [OF r] core_eqD(15) [OF releasedD(6) [OF r]]
    by (simp add: same)
  moreover have "oinv ?k'"
    by (rule cong [OF released_oinv [OF k1(4,2) r order_refl wait_delete_objs]]) (simp_all add: other_objs_def upd_mtx_def same_tcb_def)
  moreover have "tk_del_mtx (hk n) oid k = Some (E_OK, END_CRITICAL_SECTION ?k')"
    using g k1(1) by (simp add: tk_del_mtx_def checked_opt_def i [symmetric] Let_def same)
  ultimately show thesis
    using k1(5) releasedD(1) [OF r] by (intro that [of ?k' k1]) simp_all
qed

subsection \<open>Releasing a task that waits for a mutex\<close>

text \<open>The hook of an inheritance mutex takes back the priority the task gave to the owner.\<close>

lemma release_good:
  assumes kv: "kinv {} k" and o: "oinv k" and good: "mtx_good {} k" and t: "t \<in> set (que k (MtxQ i))"
    and r: "released {t} e k k1" "objs k1 = objs k" and n: "NUM_TSKID k < n"
  obtains k' where "call_rel_wai_hook (hk (Suc n)) t k1 = Some k'" "pri_changed k1 k'" "oinv k'" "mtx_good {} k'"
proof -
  note inv = mtx_goodD(1) [OF good] and c = core_eqD [OF releasedD(6) [OF r(1)]]
  note w = mtx_waiter [OF kv inv t] and kv1 = releasedD(1) [OF r(1)] and ob = objs_eqD [OF r(2)]
  have o1: "oinv k1" by (rule released_oinv [OF kv o r(1) _ r(2)]) (use t in auto)
  have inv1: "mtx_inv {} k1" by (rule released_mtx_inv [OF inv r(1)]) (simp_all add: ob)
  have ex1: "exists_task u k1 = exists_task u k" for u by (rule released_exists [OF r(1)])
  have ne: "que k (MtxQ i) \<noteq> []" using t by auto
  then obtain v where v: "mtxtsk (mtx k i) = Some v" "exists_task v k"
    using mtx_inv_live(3) [OF inv w(1,2)] by (auto simp: mtx_owned_def split: option.splits)
  have only: "t \<in> set (que k (MtxQ j)) \<longleftrightarrow> j = i" for j
    using disjoint_queuesD [OF kinvD(6) [OF kv] t, of "MtxQ j"] by simp
  have same: "claims u k1 = claims u k" if "exists_task u k" "u \<noteq> v \<or> mtx_kind i k \<noteq> TA_INHERIT" for u
  proof (rule released_claims [OF r(1)])
    show "{t} \<inter> set (que k (MtxQ j)) = {}" if j: "j \<in> set (mtxlist (tcb k u))" "mtx_kind j k = TA_INHERIT" for j
      using heldD(3) [OF inv \<open>exists_task u k\<close> j(1)] v(1) only [of j] j \<open>u \<noteq> v \<or> mtx_kind i k \<noteq> TA_INHERIT\<close> by auto
  qed (simp add: ob)
  have others: "exact u k1" if "exists_task u k1" "u \<noteq> v \<or> mtx_kind i k \<noteq> TA_INHERIT" for u
    using mtx_goodD(2) [OF good, of u] that same [of u] by (simp add: exact_at_def c ex1)
  have ws: "wspec (tcb k1 t) = mtx_wspec (mtxatr (mtx k i))" "get_mtxcb (wid (tcb k1 t)) = i" using w(3,4) c by simp_all
  show thesis
  proof (cases "mtx_kind i k = TA_INHERIT \<and> priority (tcb k v) = priority (tcb k t)")
    case True
    then have call: "call_rel_wai_hook (hk (Suc n)) t k1 = reset_priority (hk n) v k1"
      using ws v(1) by (simp add: call_rel_wai_hook_def rel_hook mtx_wspec_def mtx_kind_def mtx_rel_wai_def Let_def ob c)
    obtain k' where "reset_priority (hk n) v k1 = Some k'" "pri_changed k1 k'" "oinv k'" "mtx_good {} k'"
      by (rule reset_good [OF kv1 o1 inv1 _ _ UNIV_I follows_all, of v n]) (use others v ex1 n releasedD(2) [OF r(1)] in auto)
    with call show thesis using that by simp
  next
    case False
    then have call: "call_rel_wai_hook (hk (Suc n)) t k1 = Some k1"
      using ws v(1) by (auto simp: call_rel_wai_hook_def rel_hook mtx_wspec_def mtx_kind_def mtx_rel_wai_def Let_def ob c)
    have "exact v k1" if inh: "mtx_kind i k = TA_INHERIT"
    proof -
      have q: "set (que k1 (MtxQ j)) = set (que k (MtxQ j)) - {t}" for j using releasedD(9) [OF r(1), of "MtxQ j"] by auto
      have "mtx_claims k1 j \<subseteq> mtx_claims k j" "mtx_claims k j - {priority (tcb k t)} \<subseteq> mtx_claims k1 j" for j
        by (auto simp: mtx_claims_def mtx_kind_def ob q c)
      then have "claims v k1 \<subseteq> claims v k" "claims v k - {priority (tcb k t)} \<subseteq> claims v k1"
        unfolding claims_def c by fast+
      then show ?thesis using mtx_goodD(2) [OF good v(2)] False inh by (auto simp: exact_at_iff c)
    qed
    then have "mtx_good {} k1" using inv1 others by (auto simp: mtx_good_def)
    with call show thesis using that [of k1] pri_changed_refl [OF kv1] o1 by simp
  qed
qed

end

end
