(* ===== verification/Mutex_Calls.thy ===== *)
theory Mutex_Calls
  imports Mutex_Unlock
begin

text \<open>
  The mutex calls with the kernel's own hook table: they return, keep every task at its exact priority, and
  what a lock and an unlock do.
\<close>

definition mtx_sys :: "mails \<Rightarrow> kernel \<Rightarrow> bool" where
  "mtx_sys M k \<longleftrightarrow> kernel_ok k \<and> objects_ok M k \<and> mtx_good {} k"

lemma mtx_sysD:
  assumes "mtx_sys M k"
  shows "kernel_ok k" "kinv {} k" "objects_ok M k" "mtx_good {} k" "mtx_inv {} k"
  using assms kernel_ok_kinv by (auto simp: mtx_sys_def mtx_good_def)

lemma other_objs_END [simp]: "other_objs (END_CRITICAL_SECTION k) = other_objs k"
  using END_CRITICAL_SECTION_cases [of k] by (auto simp: other_objs_def)

lemma mtx_sys_END:
  assumes "kinv {} k" "objects_ok M k" "mtx_good {} k"
  shows "mtx_sys M (END_CRITICAL_SECTION k)"
  using objects_ok_cong [OF assms(2), of "END_CRITICAL_SECTION k"] kernel_ok_END_CRITICAL_SECTION [OF assms(1)]
    mtx_good_END [OF assms(3,1)] by (simp add: mtx_sys_def same_tcb_def)

text \<open>The table the kernel uses has room for every chain.\<close>

lemma kernel_hooks_n:
  obtains n where "kernel_hooks k = hooks_n n" "NUM_TSKID k < n"
  by (rule that [of "NUM_TSKID k + 2"]) (simp_all add: kernel_hooks_def)

subsection \<open>The calls return and keep the invariant\<close>

lemma tk_cre_mtx_cases:
  obtains "snd (tk_cre_mtx pk k) = k" | "snd (tk_cre_mtx pk k) = END_CRITICAL_SECTION k"
  | i rest nm k1 where "free_mtxcb k = i # rest"
      "cmtx_mtxatr pk AND TA_CEILING = TA_CEILING \<Longrightarrow> CHECK_PRI (cmtx_ceilpri pk) = None"
      "snd (tk_cre_mtx pk k) = END_CRITICAL_SECTION k1"
      "k1 = upd_mtx i (\<lambda>c. c\<lparr>mtxid := ID_of i, mtx_exinf := cmtx_exinf pk, mtxatr := cmtx_mtxatr pk,
         ceilpri := (if cmtx_mtxatr pk AND TA_CEILING = TA_CEILING then int_priority (cmtx_ceilpri pk) else 0),
         mtxtsk := None, mtx_name := nm\<rparr>)
         (k\<lparr>free_mtxcb := rest, que := QueInit (MtxQ i) (que k)\<rparr>)"
proof -
  note goal = that
  let ?c = "cmtx_mtxatr pk AND TA_CEILING = TA_CEILING"
  show thesis
  proof (cases "first_error [CHECK_RSATR (cmtx_mtxatr pk) VALID_MTXATR, if ?c then CHECK_PRI (cmtx_ceilpri pk) else None]")
    case (Some e)
    then have "snd (tk_cre_mtx pk k) = k" by (simp add: tk_cre_mtx_def checked_def)
    then show thesis by (rule goal(1))
  next
    case None
    then have p: "?c \<Longrightarrow> CHECK_PRI (cmtx_ceilpri pk) = None" unfolding first_error_None_iff by simp
    show thesis
    proof (cases "free_mtxcb k")
      case Nil
      with None show thesis using goal(2) by (simp add: tk_cre_mtx_def checked_def Let_def)
    next
      case (Cons i rest)
      let ?nm = "if cmtx_mtxatr pk AND TA_DSNAME \<noteq> 0 then strncpy (cmtx_dsname pk) 8 else mtx_name (mtx k i)"
      show thesis
        by (rule goal(3) [OF Cons p _ refl, of ?nm])
           (use None Cons in \<open>simp_all add: tk_cre_mtx_def checked_def Let_def upd_mtx_def\<close>)
    qed
  qed
qed

lemma tk_cre_mtx_sys:
  assumes sys: "mtx_sys M k"
  shows "mtx_sys M (snd (tk_cre_mtx pk k))"
proof (cases rule: tk_cre_mtx_cases [of pk k])
  case (3 i rest nm k1)
  note s = mtx_sysD [OF sys]
  show ?thesis
  proof -
    let ?k = "k\<lparr>free_mtxcb := rest, que := QueInit (MtxQ i) (que k)\<rparr>"
    have q: "que k (MtxQ i) = []"
    proof -
      have "pool_ok (i # rest) (\<lambda>j. mtxid (mtx k j)) (nat (max_mtxid k))" using mtx_inv_pool [OF s(5)] 3(1) by simp
      from pool_ok_take [OF this] show ?thesis using mtx_inv_ok [OF s(5), of i] by (simp add: mtx_ok_def)
    qed
    then have que: "QueInit (MtxQ i) (que k) = que k" by (auto simp: fun_eq_iff)
    have "kinv {} k1" unfolding 3(4) que
      by (rule kinv_upd_mtx, rule kinv_objs_cong [OF s(2)]) (simp_all add: NUM_TSKID_def)
    moreover have "objects_ok M k1"
      by (rule objects_ok_cong [OF s(3)]) (simp_all add: 3(4) que same_tcb_def other_objs_def upd_mtx_def)
    moreover have "mtx_good {} k1"
      by (rule mtx_good_create [OF s(4) 3(1)])
         (use 3(2) in \<open>auto simp: 3(4) que NUM_TSKID_def CHECK_PRI_def CHK_PRI_def int_priority_def upd_mtx_def\<close>)
    ultimately show ?thesis using 3(3) mtx_sys_END by simp
  qed
qed (use mtx_sysD [OF sys] mtx_sys_END sys in simp_all)

lemma tk_loc_mtx_u_sys:
  assumes sys: "mtx_sys M k"
  obtains r k' where "tk_loc_mtx_u (kernel_hooks k) oid tmout k = Some (r, k')" "mtx_sys M k'"
proof -
  note s = mtx_sysD [OF sys]
  obtain n where n: "kernel_hooks k = hooks_n n" "NUM_TSKID k < n" by (rule kernel_hooks_n)
  show thesis
  proof (cases "loc_mtx_error oid tmout k")
    case (Some e)
    from loc_mtx_fails [OF this, of "kernel_hooks k"] that sys mtx_sys_END [OF s(2-4)] show thesis by blast
  next
    case None
    show thesis
    proof (cases "mtxtsk (mtx k (get_mtxcb oid))")
      case free: None
      show thesis
        by (rule pri.loc_takes [OF s(1,3,4) None refl free, of "kernel_hooks k"]) (use that mtx_sys_END in blast)
    next
      case (Some v)
      show thesis
        by (rule pri.loc_waits [OF s(1,3,4) n(2) None refl Some]) (use that mtx_sys_END n(1) in metis)
    qed
  qed
qed

lemma tk_unl_mtx_sys:
  assumes sys: "mtx_sys M k" and run: "\<not> ts_wait (state (tcb k (self k)))"
  obtains r k' where "tk_unl_mtx (kernel_hooks k) oid k = Some (r, k')" "mtx_sys M k'"
proof -
  note s = mtx_sysD [OF sys]
  show thesis
  proof (cases "unl_mtx_error oid k")
    case (Some e)
    from unl_mtx_fails [OF this, of "kernel_hooks k"] that sys mtx_sys_END [OF s(2-4)] show thesis by blast
  next
    case None
    show thesis
      by (rule pri.unlock_good [OF s(2-4) None refl run, of "kernel_hooks k"]) (use that mtx_sys_END in blast)
  qed
qed

lemma tk_del_mtx_sys:
  assumes sys: "mtx_sys M k" and no: "\<not> mtx_deadlock (get_mtxcb oid) k"
  obtains r k' where "tk_del_mtx (kernel_hooks k) oid k = Some (r, k')" "mtx_sys M k'"
proof -
  note s = mtx_sysD [OF sys]
  obtain n where n: "kernel_hooks k = hooks_n n" "NUM_TSKID k < n" by (rule kernel_hooks_n)
  show thesis
  proof (cases "del_mtx_error oid k")
    case (Some e)
    from del_mtx_fails [OF this, of "kernel_hooks k"] that sys mtx_sys_END [OF s(2-4)] show thesis by blast
  next
    case None
    show thesis
      by (rule pri.delete_good [OF s(2-4) n(2) None refl no]) (use that mtx_sys_END n(1) in metis)
  qed
qed

subsection \<open>Priorities along the chain of owners\<close>

lemma mtx_blocksD:
  assumes sys: "mtx_sys M k" and b: "(t, v) \<in> mtx_blocks k"
  shows "priority (tcb k v) \<le> priority (tcb k t)" "exists_task v k"
proof -
  note s = mtx_sysD [OF sys]
  obtain i where i: "t \<in> set (que k (MtxQ i))" "mtx_kind i k = TA_INHERIT" "mtxtsk (mtx k i) = Some v"
    using b by (auto simp: mtx_blocks_def)
  note w = mtx_waiter [OF s(2,5) i(1)]
  have v: "exists_task v k" "i \<in> set (mtxlist (tcb k v))"
    using mtx_inv_live(3) [OF s(5) w(1,2)] i(3) by (simp_all add: mtx_owned_def)
  then show "exists_task v k" by simp
  have "priority (tcb k t) \<in> claims v k"
    using v(2) i(1,2) by (auto simp: claims_def mtx_claims_def intro!: bexI [of _ i])
  then show "priority (tcb k v) \<le> priority (tcb k t)" using mtx_goodD(2) [OF s(4) v(1)] by (simp add: exact_at_iff)
qed

lemma mtx_chain:
  assumes sys: "mtx_sys M k" and b: "(t, v) \<in> (mtx_blocks k)\<^sup>+"
  shows "priority (tcb k v) \<le> priority (tcb k t)"
  using b
proof induction
  case (step u v)
  with mtx_blocksD(1) [OF sys step(2)] show ?case by simp
qed (rule mtx_blocksD(1) [OF sys])

lemma mtx_reason:
  assumes sys: "mtx_sys M k" and u: "exists_task u k"
  shows "i \<in> set (mtxlist (tcb k u)) \<Longrightarrow> mtx_kind i k = TA_CEILING \<Longrightarrow> priority (tcb k u) \<le> ceilpri (mtx k i)"
    and "priority (tcb k u) = bpriority (tcb k u) \<or>
       (\<exists>j \<in> set (mtxlist (tcb k u)). mtx_kind j k = TA_CEILING \<and> priority (tcb k u) = ceilpri (mtx k j)) \<or>
       (\<exists>w. (w, u) \<in> mtx_blocks k \<and> priority (tcb k u) = priority (tcb k w))"
proof -
  note s = mtx_sysD [OF sys]
  have claim: "priority (tcb k u) \<in> claims u k" "\<forall>q \<in> claims u k. priority (tcb k u) \<le> q"
    using mtx_goodD(2) [OF s(4) u] by (simp_all add: exact_at_iff)
  have own: "mtxtsk (mtx k j) = Some u" if "j \<in> set (mtxlist (tcb k u))" for j
    using heldD(3) [OF s(5) u that] by simp
  show "priority (tcb k u) \<le> ceilpri (mtx k i)" if "i \<in> set (mtxlist (tcb k u))" "mtx_kind i k = TA_CEILING"
    using claim(2) that by (auto simp: claims_def mtx_claims_def intro!: bexI [of _ i])
  show "priority (tcb k u) = bpriority (tcb k u) \<or>
       (\<exists>j \<in> set (mtxlist (tcb k u)). mtx_kind j k = TA_CEILING \<and> priority (tcb k u) = ceilpri (mtx k j)) \<or>
       (\<exists>w. (w, u) \<in> mtx_blocks k \<and> priority (tcb k u) = priority (tcb k w))"
    using claim(1) own by (auto simp: claims_def mtx_claims_def mtx_blocks_def split: if_splits)
qed

subsection \<open>A concrete run\<close>

text \<open>
  An inheritance mutex is created and locked by task 1; task 0, of higher priority, waits for it.
\<close>

definition ex_cmtx :: t_cmtx where
  "ex_cmtx = \<lparr>cmtx_exinf = 0, cmtx_mtxatr = TA_INHERIT, cmtx_ceilpri = 0, cmtx_dsname = []\<rparr>"

definition ex_mtx :: kernel where
  "ex_mtx = mtx_give 0 1 (snd (tk_cre_mtx ex_cmtx ex_state))"

definition ex_mtx_wait :: kernel where
  "ex_mtx_wait = snd (the (tk_loc_mtx_u (kernel_hooks ex_mtx) 1 TMO_FEVR ex_mtx))"

lemma ex_state_mtx_sys: "mtx_sys no_mails ex_state"
proof -
  have "objects_ok no_mails ex_state"
    using ex_state_sem_sys ex_state_flg_sys ex_state_mbx_sys ex_state_mbf_sys
    by (simp add: objects_ok_def queues_in_range_def sem_sys_def flg_sys_def mbx_sys_def mbf_sys_def ex_state_que)
  moreover have "mtxlist (tcb ex_state t) = []" for t by (simp add: ex_state_def ex_tcb_def)
  moreover have "bpriority (tcb ex_state t) = priority (tcb ex_state t)" for t by (simp add: ex_state_def)
  ultimately show ?thesis
    by (auto simp: mtx_sys_def ex_state_kernel_ok mtx_good_def mtx_inv_def pool_ok_def mtx_ok_def ex_state_que
        held_ok_def exact_at_def claims_def)
qed

lemma ex_cre_mtx_eq:
  "snd (tk_cre_mtx ex_cmtx ex_state) = upd_mtx 0 (\<lambda>c. c\<lparr>mtxid := ID_of 0, mtx_exinf := 0, mtxatr := TA_INHERIT,
     ceilpri := 0, mtxtsk := None\<rparr>) (ex_state\<lparr>free_mtxcb := [1, 2]\<rparr>)"
proof -
  have q: "QueInit (MtxQ 0) (que ex_state) = que ex_state" by (auto simp: fun_eq_iff ex_state_que)
  have "ex_state\<lparr>free_mtxcb := [1, 2], que := que ex_state\<rparr> = ex_state\<lparr>free_mtxcb := [1, 2]\<rparr>" by simp
  then show ?thesis
    by (simp add: tk_cre_mtx_def checked_def ex_cmtx_def VALID_MTXATR_def CHECK_RSATR_def Let_def q
        END_CRITICAL_SECTION_def)
qed

lemma ex_mtx_sel [simp]:
  "mtxcb_table ex_mtx 0 = (mtx ex_state 0)\<lparr>mtxid := 1, mtx_exinf := 0, mtxatr := TA_INHERIT, ceilpri := 0, mtxtsk := Some 1\<rparr>"
  "que ex_mtx = que ex_state" "max_mtxid ex_mtx = 3" "ctxtsk ex_mtx = Some 0" "self ex_mtx = 0"
  "NUM_TSKID ex_mtx = 5" "schedtsk ex_mtx = Some 0" "isDI ex_mtx = False"
  "isTaskIndependent ex_mtx = False" "dispatch_disabled ex_mtx = 0"
  "tcb_table ex_mtx = (tcb_table ex_state)(1 := (tcb ex_state 1)\<lparr>mtxlist := [0]\<rparr>)"
proof -
  have "mtxlist (tcb ex_state (Suc 0)) = []" by (simp add: ex_state_def ex_tcb_def)
  then show "tcb_table ex_mtx = (tcb_table ex_state)(1 := (tcb ex_state 1)\<lparr>mtxlist := [0]\<rparr>)"
    by (simp add: ex_mtx_def ex_cre_mtx_eq)
qed (simp_all add: ex_mtx_def ex_cre_mtx_eq ID_of_def mtx_give_def upd_mtx_def self_def NUM_TSKID_def upd_tcb_def)

lemma ex_mtx_sys: "mtx_sys no_mails ex_mtx"
proof -
  let ?c = "snd (tk_cre_mtx ex_cmtx ex_state)"
  have c: "mtx_sys no_mails ?c" by (rule tk_cre_mtx_sys [OF ex_state_mtx_sys])
  note s = mtx_sysD [OF c]
  have sel: "mtxtsk (mtx ?c 0) = None" "mtxid (mtx ?c 0) = 1" "max_mtxid ?c = 3" "que ?c (MtxQ 0) = []"
    "state (tcb ?c 1) = TS_READY" "mtx_kind 0 ?c = TA_INHERIT" "NUM_TSKID ?c = 5"
    by (simp_all add: ex_cre_mtx_eq ex_state_que ex_state_tcb mtx_kind_def ID_of_def) (simp_all add: NUM_TSKID_def upd_mtx_def)
  have list: "0 \<notin> set (mtxlist (tcb ?c u))" if "exists_task u ?c" for u using heldD(3) [OF s(5) that] sel(1) by fastforce
  have t1: "exists_task 1 ?c" using sel(5,7) by (simp add: exists_task_def)
  have inv: "mtx_inv {0} ex_mtx" unfolding ex_mtx_def
    by (rule mtx_give_inv [OF mtx_inv_mono [OF s(5)]]) (use sel list [OF t1] in simp_all)
  have ex: "exists_task u ex_mtx = exists_task u ?c" for u by (simp add: ex_mtx_def)
  have "mtx_inv {} ex_mtx"
  proof (rule mtx_inv_settle [OF inv])
    show "mtx_owned i ex_mtx" if "i \<in> {0}" for i using that t1 ex [of 1] by (simp add: mtx_owned_def ex_state_que)
    show "mtxtsk (mtx ex_mtx i) = Some u" if "i \<in> {0}" "exists_task u ex_mtx" "i \<in> set (mtxlist (tcb ex_mtx u))" for i u
      using that list [of u] unfolding ex by (auto simp: ex_mtx_def split: if_splits)
  qed
  moreover have "exact u ex_mtx" if "exists_task u ?c" for u
  proof -
    have "mtx_claims ?c 0 = {}" using sel by (simp add: mtx_claims_def)
    then have "claims u ex_mtx = claims u ?c" by (simp add: ex_mtx_def mtx_give_claims)
    with mtx_goodD(2) [OF s(4) that] show ?thesis by (cases "u = 1") (simp_all add: exact_at_def ex_mtx_def)
  qed
  ultimately have "mtx_good {} ex_mtx" using ex by (simp add: mtx_good_def)
  moreover have "objects_ok no_mails ex_mtx" unfolding ex_mtx_def
    by (rule pri.give_oinv [OF s(2,3)]) (use sel in simp)
  moreover have "kernel_ok ex_mtx"
    using s(1,2) by (simp add: kernel_ok_def ctx_ok_def) (simp add: ex_mtx_def)
  ultimately show ?thesis by (simp add: mtx_sys_def)
qed

lemma ex_mtx_loc: "loc_mtx_error 1 TMO_FEVR ex_mtx = None"
  by (simp add: loc_mtx_error_def CHECK_MTXID_def CHECK_TMOUT_def CHECK_DISPATCH_def in_ddsp_def in_indp_def
      get_mtxcb_def INDEX_def is_diswai_def ex_state_tcb mtx_kind_def) (simp add: ex_tcb_def)

lemma sched_highest:
  assumes kv: "kinv {} k" and t: "t < NUM_TSKID k" "state (tcb k t) = TS_READY"
    and less: "\<And>u. u < NUM_TSKID k \<Longrightarrow> u \<noteq> t \<Longrightarrow> state (tcb k u) = TS_READY \<Longrightarrow> priority (tcb k t) < priority (tcb k u)"
  shows "schedtsk k = Some t"
proof -
  note q = kinv_kinvq [OF kv] and rq = kinvD(4,5) [OF kv]
  note mem = kinvq_ready_mem [OF q t(1) _ t(2), simplified]
  have "top_priority k \<le> priority (tcb k t)"
    using rq(1) mem by (auto simp: rq_ok_def rq_top_def not_less [symmetric])
  then have ne: "ready_queue_top k \<noteq> None"
    using ready_queue_top_None_iff [OF rq] mem by auto
  then obtain s where s: "ready_queue_top k = Some s" by blast
  note top = kinvq_top [OF q s]
  have "s = t"
  proof (rule ccontr)
    assume "s \<noteq> t"
    from less [OF top(1) this top(3)] top(4) \<open>top_priority k \<le> priority (tcb k t)\<close> show False by simp
  qed
  with s kv show ?thesis by (simp add: kinv_def)
qed

lemma ex_mtx_wait_facts:
  "mtx_sys no_mails ex_mtx_wait" "que ex_mtx_wait (MtxQ 0) = [0]" "mtxtsk (mtx ex_mtx_wait 0) = Some 1"
  "mtx_kind 0 ex_mtx_wait = TA_INHERIT" "max_mtxid ex_mtx_wait = 3" "mtxid (mtx ex_mtx_wait 0) = 1"
  "ctxtsk ex_mtx_wait = Some 1" "isTaskIndependent ex_mtx_wait = False" "state (tcb ex_mtx_wait 1) = TS_READY"
proof -
  note s = mtx_sysD [OF ex_mtx_sys]
  obtain n where n: "kernel_hooks ex_mtx = hooks_n n" "NUM_TSKID ex_mtx < n" by (rule kernel_hooks_n)
  have i: "get_mtxcb 1 = 0" by (simp add: get_mtxcb_def INDEX_def)
  obtain k1 k2 a where k: "tk_loc_mtx_u (hooks_n n) 1 TMO_FEVR ex_mtx = Some (E_TMOUT, END_CRITICAL_SECTION k2)"
    "pri_changed ex_mtx k1" "task_waits (MtxQ 0) (mtx_wspec (mtxatr (mtx ex_mtx 0))) (winfo (tcb k1 (self ex_mtx))) (mtxid (mtx ex_mtx 0)) a k1 k2"
    "self k1 = self ex_mtx" "kinv {} k2" "objects_ok no_mails k2" "mtx_good {} k2"
    by (rule pri.loc_waits [OF s(1,3,4) n(2) ex_mtx_loc i [symmetric]]) (simp, rule that)
  have eq: "ex_mtx_wait = END_CRITICAL_SECTION k2" by (simp add: ex_mtx_wait_def n k(1))
  show "mtx_sys no_mails ex_mtx_wait" unfolding eq by (rule mtx_sys_END [OF k(5-7)])
  show q: "que ex_mtx_wait (MtxQ 0) = [0]"
  proof -
    have "set (que k1 (MtxQ 0)) = {}" using pri_changedD(6) [OF k(2), of "MtxQ 0"] by (simp add: ex_state_que)
    then show ?thesis using task_waitsD(13) [OF k(3), of "MtxQ 0"] k(4) by (simp add: eq wait_insert_def)
  qed
  show "mtxtsk (mtx ex_mtx_wait 0) = Some 1" "mtx_kind 0 ex_mtx_wait = TA_INHERIT" "max_mtxid ex_mtx_wait = 3"
    "mtxid (mtx ex_mtx_wait 0) = 1"
    using objs_eqD(5,25) [OF task_waitsD(2) [OF k(3)]] fixed_objs_eqD(5,16) [OF pri_changedD(2) [OF k(2)]]
    by (simp_all add: eq mtx_kind_def)
  show ind: "isTaskIndependent ex_mtx_wait = False"
    using objs_eqD(10) [OF task_waitsD(2) [OF k(3)]] fixed_objs_eqD(8) [OF pri_changedD(2) [OF k(2)]]
    by (simp add: eq END_CRITICAL_SECTION_def dispatch_def)
  note o1 = fixed_objs_eqD [OF pri_changedD(2) [OF k(2)]] and o2 = objs_eqD [OF task_waitsD(2) [OF k(3)]]
    and f = fixed_part_eqD [OF pri_changedD(3) [OF k(2)]]
  note good = mtx_goodD(2) [OF k(7)]
  have st: "state (tcb k2 u) = state (tcb ex_mtx u)" if "u < 5" "u \<noteq> 0" for u
    using task_waitsD(12) [OF k(3), of u] k(4) that pri_changed_state(3) [OF k(2), of u]
    unfolding less_5_cases by (auto simp: ex_state_tcb)
  have st0: "state (tcb k2 0) = TS_WAIT" using task_waitsD(3) [OF k(3)] k(4) by simp
  have bl: "mtxlist (tcb k2 u) = mtxlist (tcb ex_mtx u)" "bpriority (tcb k2 u) = bpriority (tcb ex_mtx u)" if "u \<noteq> 0" for u
    using task_waitsD(11) [OF k(3), of u] k(4) that f by (simp_all add: same_tcb_def)
  have p2: "priority (tcb k2 2) = 30"
    using good [of 2] st [of 2] bl [of 2]
    by (simp add: exists_task_def o1 o2 ex_state_tcb exact_at_def claims_def) (simp add: ex_tcb_def)
  have p1: "priority (tcb k2 1) \<le> 20"
    using good [of 1] st [of 1] bl(2) [of 1]
    by (simp add: exists_task_def o1 o2 ex_state_tcb exact_at_iff claims_def)
  have "schedtsk k2 = Some 1"
  proof (rule sched_highest [OF k(5)])
    show "1 < NUM_TSKID k2" "state (tcb k2 1) = TS_READY" using st [of 1] by (simp_all add: o1 o2 ex_state_tcb)
    show "priority (tcb k2 1) < priority (tcb k2 u)" if "u < NUM_TSKID k2" "u \<noteq> 1" "state (tcb k2 u) = TS_READY" for u
    proof -
      have "u < 5" using that(1) by (simp add: o1 o2)
      moreover have "u \<noteq> 0" using that(3) st0 by (cases u) simp_all
      ultimately have "u = 2" using that st [of u] unfolding less_5_cases by (auto simp: ex_state_tcb)
      then show ?thesis using p1 p2 by simp
    qed
  qed
  then show "ctxtsk ex_mtx_wait = Some 1"
    using o1(6-8) o2(8-10) k(4) by (simp add: eq END_CRITICAL_SECTION_def dispatch_def o1 o2)
  show "state (tcb ex_mtx_wait 1) = TS_READY" using st [of 1] by (simp add: eq ex_state_tcb)
qed

subsection \<open>Properties\<close>

text \<open>
  C18: Every mutex call returns: the chain of priority changes that a call sets off along the owners of
  inheritance mutexes ends within the number of tasks, deadlocks included. And every call keeps the
  kernel, the other objects and the mutexes consistent: a mutex that is waited for has an owner, it is in the
  list of its owner and in no other, its queue has the order its attribute asks for, and every task has
  exactly the priority that its base priority, the ceilings of its mutexes and the waiters of its
  inheritance mutexes give it. A deletion does so unless the mutex is part of a deadlock.
\<close>

theorem mtx_calls_invariant:
  assumes "mtx_sys M k"
  shows "mtx_sys M (snd (tk_cre_mtx pk k)) \<and>
    (\<exists>r k'. tk_loc_mtx_u (kernel_hooks k) oid tmout k = Some (r, k') \<and> mtx_sys M k') \<and>
    (\<exists>r k'. tk_loc_mtx (kernel_hooks k) oid ms k = Some (r, k') \<and> mtx_sys M k') \<and>
    (\<not> ts_wait (state (tcb k (self k))) \<longrightarrow>
       (\<exists>r k'. tk_unl_mtx (kernel_hooks k) oid k = Some (r, k') \<and> mtx_sys M k')) \<and>
    (\<not> mtx_deadlock (get_mtxcb oid) k \<longrightarrow>
       (\<exists>r k'. tk_del_mtx (kernel_hooks k) oid k = Some (r, k') \<and> mtx_sys M k'))"
  using tk_cre_mtx_sys [OF assms, of pk] tk_loc_mtx_u_sys [OF assms, of oid] tk_unl_mtx_sys [OF assms, of oid]
    tk_del_mtx_sys [OF assms, of oid] unfolding tk_loc_mtx_def by metis

theorem mtx_calls_invariant_witness:
  "(\<exists>r k'. tk_unl_mtx (kernel_hooks ex_mtx_wait) 1 ex_mtx_wait = Some (r, k') \<and> mtx_sys no_mails k') \<and>
   (\<exists>r k'. tk_loc_mtx_u (kernel_hooks ex_mtx_wait) 1 TMO_FEVR ex_mtx_wait = Some (r, k') \<and> mtx_sys no_mails k') \<and>
   (\<exists>r k'. tk_del_mtx (kernel_hooks ex_state) 1 ex_state = Some (r, k') \<and> mtx_sys no_mails k')"
proof -
  have run: "\<not> ts_wait (state (tcb ex_mtx_wait (self ex_mtx_wait)))" using ex_mtx_wait_facts by (simp add: self_def)
  have no: "\<not> mtx_deadlock (get_mtxcb 1) ex_state" by (simp add: mtx_deadlock_def ex_state_que)
  show ?thesis
    using mtx_calls_invariant [OF ex_mtx_wait_facts(1), of undefined 1 TMO_FEVR 0] run
      mtx_calls_invariant [OF ex_state_mtx_sys, of undefined 1 TMO_FEVR 0] no by blast
qed

text \<open>
  C20: What a lock does. The error codes come in the order of \<open>loc_mtx_error\<close> and leave all tasks,
  queues and mutexes as they were. Otherwise a free mutex is the caller's at once, first in his list, and
  nobody else is affected; for a mutex that another task owns the caller joins the wait queue, where the
  attribute says, with the timeout result preset, and the owner is not changed.
\<close>

theorem tk_loc_mtx_u_result:
  assumes sys: "mtx_sys M k" and i: "i = get_mtxcb oid"
  shows "\<exists>r k'. tk_loc_mtx_u (kernel_hooks k) oid tmout k = Some (r, k') \<and>
    (case loc_mtx_error oid tmout k of
       Some e \<Rightarrow> r = e \<and> tcb_table k' = tcb_table k \<and> que k' = que k \<and> mtxcb_table k' = mtxcb_table k
     | None \<Rightarrow>
        (case mtxtsk (mtx k i) of
           None \<Rightarrow> r = E_OK \<and> mtxtsk (mtx k' i) = Some (self k) \<and>
             mtxlist (tcb k' (self k)) = i # mtxlist (tcb k (self k)) \<and>
             (\<forall>u. state (tcb k' u) = state (tcb k u)) \<and>
             (\<forall>u. u \<noteq> self k \<longrightarrow> same_tcb (tcb k' u) (tcb k u))
         | Some v \<Rightarrow> r = E_TMOUT \<and> wercd (tcb k' (self k)) = E_TMOUT \<and> mtxtsk (mtx k' i) = Some v \<and>
             state (tcb k' (self k)) = TS_WAIT \<and> wid (tcb k' (self k)) = oid \<and>
             set (que k' (MtxQ i)) = insert (self k) (set (que k (MtxQ i))) \<and>
             (mtx_kind i k = TA_TFIFO \<longrightarrow> last (que k' (MtxQ i)) = self k) \<and>
             (mtx_kind i k \<noteq> TA_TFIFO \<longrightarrow> sorted (map (\<lambda>u. priority (tcb k' u)) (que k' (MtxQ i))))))"
proof -
  note s = mtx_sysD [OF sys]
  obtain n where n: "kernel_hooks k = hooks_n n" "NUM_TSKID k < n" by (rule kernel_hooks_n)
  show ?thesis
  proof (cases "loc_mtx_error oid tmout k")
    case (Some e)
    have "\<exists>k'. tk_loc_mtx_u (kernel_hooks k) oid tmout k = Some (e, k') \<and>
      tcb_table k' = tcb_table k \<and> que k' = que k \<and> mtxcb_table k' = mtxcb_table k"
      using loc_mtx_fails [OF Some, of "kernel_hooks k"] by (elim disjE) (auto intro: exI)
    with Some show ?thesis by auto
  next
    case None
    note g = loc_mtx_error_None [OF None i]
    show ?thesis
    proof (cases "mtxtsk (mtx k i)")
      case free: None
      obtain k' where k': "tk_loc_mtx_u (kernel_hooks k) oid tmout k = Some (E_OK, END_CRITICAL_SECTION k')"
        "k' = mtx_give i (self k) k \<or> pri_only (self k) (ceilpri (mtx k i)) (mtx_give i (self k) k) k'"
        by (rule pri.loc_takes [OF s(1,3,4) None i free, of "kernel_hooks k"]) (rule that; assumption)
      note f = pri_only_or_frame [OF k'(2)]
      have "same_tcb (tcb k' u) (tcb k u)" if "u \<noteq> self k" for u using f(14) [OF that] that by simp
      then show ?thesis using None free k'(1) f(2,5,7) by simp
    next
      case (Some v)
      obtain k1 k2 a where k: "tk_loc_mtx_u (hooks_n n) oid tmout k = Some (E_TMOUT, END_CRITICAL_SECTION k2)"
        "pri_changed k k1" "task_waits (MtxQ i) (mtx_wspec (mtxatr (mtx k i))) (winfo (tcb k1 (self k))) (mtxid (mtx k i)) a k1 k2"
        "a AND TA_TPRI \<noteq> 0 \<longleftrightarrow> mtx_order (mtxatr (mtx k i)) \<noteq> 0" "self k1 = self k" "mtx_good {} k2"
        by (rule pri.loc_waits [OF s(1,3,4) n(2) None i Some]) (rule that; assumption)
      note w = task_waitsD [OF k(3), unfolded k(5)] and o1 = fixed_objs_eqD [OF pri_changedD(2) [OF k(2)]]
        and o2 = objs_eqD [OF task_waitsD(2) [OF k(3)]]
      have q: "que k2 (MtxQ i) = wait_insert k1 a (self k) (que k1 (MtxQ i))" using w(13) [of "MtxQ i"] by simp
      have "int i + 1 = oid" using g(1) i by (simp add: CHECK_MTXID_def get_mtxcb_def INDEX_def)
      then have oid: "mtxid (mtx k i) = oid" using mtx_inv_live(4) [OF s(5) g(4,5)] by simp
      have sorted: "sorted (map (\<lambda>u. priority (tcb k2 u)) (que k2 (MtxQ i)))" if "mtx_kind i k \<noteq> TA_TFIFO"
        by (rule mtx_sorted [OF mtx_goodD(1) [OF k(6)]])
           (use g(4,5) that in \<open>simp_all add: o1 o2 mtx_order_def mtx_kind_def\<close>)
      have "last (que k2 (MtxQ i)) = self k" if "mtx_kind i k = TA_TFIFO"
        using k(4) that q by (simp add: wait_insert_def mtx_order_def mtx_kind_def)
      then show ?thesis
        using None Some k(1) n(1) w(3,6,7) sorted q oid pri_changedD(6) [OF k(2), of "MtxQ i"] o1(16) o2(25) by simp
    qed
  qed
qed

theorem tk_loc_mtx_u_result_witness:
  "state (tcb ex_mtx_wait 0) = TS_WAIT \<and> wid (tcb ex_mtx_wait 0) = 1"
proof -
  have "mtxtsk (mtx ex_mtx 0) = Some 1" by simp
  then show ?thesis
    using tk_loc_mtx_u_result [OF ex_mtx_sys, of 0 1 TMO_FEVR] ex_mtx_loc
    by (auto simp: ex_mtx_wait_def get_mtxcb_def INDEX_def)
qed

text \<open>
  C21: What an unlock does. The errors of \<open>unl_mtx_error\<close> leave all tasks, queues and mutexes as they
  were. Otherwise the mutex leaves the caller's list; with no task waiting it is free, else the first
  waiter becomes its owner, is released from its wait with \<open>E_OK\<close> and leaves the queue, whose other tasks
  stay where they are.
\<close>

theorem tk_unl_mtx_result:
  assumes sys: "mtx_sys M k" and run: "\<not> ts_wait (state (tcb k (self k)))" and i: "i = get_mtxcb oid"
  shows "\<exists>r k'. tk_unl_mtx (kernel_hooks k) oid k = Some (r, k') \<and>
    (case unl_mtx_error oid k of
       Some e \<Rightarrow> r = e \<and> tcb_table k' = tcb_table k \<and> que k' = que k \<and> mtxcb_table k' = mtxcb_table k
     | None \<Rightarrow> r = E_OK \<and> mtxlist (tcb k' (self k)) = filter (\<lambda>j. i \<noteq> j) (mtxlist (tcb k (self k))) \<and>
        (case que k (MtxQ i) of
           [] \<Rightarrow> mtxtsk (mtx k' i) = None \<and> (\<forall>u. state (tcb k' u) = state (tcb k u))
         | w # ws \<Rightarrow> mtxtsk (mtx k' i) = Some w \<and> mtxlist (tcb k' w) = i # mtxlist (tcb k w) \<and>
             que k' (MtxQ i) = ws \<and> wercd (tcb k' w) = E_OK \<and>
             state (tcb k' w) = (if state (tcb k w) = TS_WAIT then TS_READY else TS_SUSPEND) \<and>
             (\<forall>u. u \<noteq> w \<longrightarrow> state (tcb k' u) = state (tcb k u))))"
proof (cases "unl_mtx_error oid k")
  case (Some e)
  have "\<exists>k'. tk_unl_mtx (kernel_hooks k) oid k = Some (e, k') \<and>
    tcb_table k' = tcb_table k \<and> que k' = que k \<and> mtxcb_table k' = mtxcb_table k"
    using unl_mtx_fails [OF Some, of "kernel_hooks k"] by (elim disjE) (auto intro: exI)
  with Some show ?thesis by auto
next
  case None
  note s = mtx_sysD [OF sys]
  let ?d = "mtx_drop i (self k) k"
  obtain k1 k' where k: "tk_unl_mtx (kernel_hooks k) oid k = Some (E_OK, END_CRITICAL_SECTION k')"
    "k1 = ?d \<or> pri_only (self k) (Min (claims (self k) ?d)) ?d k1"
    "case que k (MtxQ i) of
       [] \<Rightarrow> k' = upd_mtx i (\<lambda>c. c\<lparr>mtxtsk := None\<rparr>) k1
     | w # ws \<Rightarrow> \<exists>k2. released {w} E_OK k1 k2 \<and> objs k2 = objs k1 \<and>
         (k' = mtx_give i w k2 \<or> pri_only w (ceilpri (mtx k i)) (mtx_give i w k2) k')"
    by (rule pri.unlock_good [OF s(2-4) None i run, of "kernel_hooks k"]) (rule that; assumption)
  note f = pri_only_or_frame [OF k(2)]
  show ?thesis
  proof (cases "que k (MtxQ i)")
    case Nil
    with None k(1,3) f(2,5) show ?thesis by simp
  next
    case (Cons w ws)
    then obtain k2 where r: "released {w} E_OK k1 k2" "objs k2 = objs k1" and
        k2: "k' = mtx_give i w k2 \<or> pri_only w (ceilpri (mtx k i)) (mtx_give i w k2) k'"
      using k(3) by auto
    note f' = pri_only_or_frame [OF k2] and c = core_eqD(15) [OF releasedD(6) [OF r(1)]]
    have "ts_wait (state (tcb k w))" using kinv_waiter(2) [OF s(2), of w "MtxQ i"] Cons by simp
    then have w: "w \<noteq> self k" using run by auto
    have "distinct (w # ws)" using qinv_distinct [OF kinvD(1) [OF s(2)], of "MtxQ i"] Cons by simp
    then have q: "que k2 (MtxQ i) = ws" using releasedD(9) [OF r(1), of "MtxQ i"] Cons f(4) by (auto simp: filter_id_conv)
    have st: "state (tcb k' u) = (if u = w then if state (tcb k w) = TS_WAIT then TS_READY else TS_SUSPEND
        else state (tcb k u))" for u
      using releasedD(8) [OF r(1), of u] f'(2) [of u] f(2) by (auto split: if_splits)
    have l: "mtxlist (tcb k' u) = (if u = w then i # mtxlist (tcb k w) else if u = self k then
        filter (\<lambda>j. i \<noteq> j) (mtxlist (tcb k (self k))) else mtxlist (tcb k u))" for u
      using c f'(5) [of u] f(5) w by simp
    have "wercd (tcb k' w) = E_OK" using releasedD(7) [OF r(1), of w] f'(3) [of w] by simp
    moreover have "mtxtsk (mtx k' i) = Some w" using f'(7) by simp
    moreover have "que k' (MtxQ i) = ws" using f'(4) [of "MtxQ i"] q by simp
    ultimately show ?thesis using None Cons k(1) st l w by simp
  qed
qed

theorem tk_unl_mtx_result_witness:
  "\<exists>k'. tk_unl_mtx (kernel_hooks ex_mtx_wait) 1 ex_mtx_wait = Some (E_OK, k') \<and> mtxtsk (mtx k' 0) = Some 0"
proof -
  have self: "self ex_mtx_wait = 1" using ex_mtx_wait_facts by (simp add: self_def)
  have e: "unl_mtx_error 1 ex_mtx_wait = None"
    using ex_mtx_wait_facts by (simp add: unl_mtx_error_def CHECK_MTXID_def CHECK_INTSK_def in_indp_def get_mtxcb_def INDEX_def)
  have "\<not> ts_wait (state (tcb ex_mtx_wait (self ex_mtx_wait)))" using ex_mtx_wait_facts self by simp
  from tk_unl_mtx_result [OF ex_mtx_wait_facts(1) this, of 0 1] e ex_mtx_wait_facts(2)
  show ?thesis by (auto simp: get_mtxcb_def INDEX_def)
qed

end
