(* ===== verification/Release.thy ===== *)
theory Release
  imports Mutex_Calls
begin

text \<open>
  A task that waits for anything can be released from outside, by a timeout, by another task or by its
  termination: the hook of what it waited for returns, gives the semaphore to those who can go on now,
  takes back an inherited priority, and leaves everything in order.
\<close>

subsection \<open>Releasing tasks from queues that nobody else depends on\<close>

lemma released_flg_all:
  assumes inv: "flg_inv k" and r: "released T e k k'"
    and ob: "flgcb_table k' = flgcb_table k" "free_flgcb k' = free_flgcb k" "max_flgid k' = max_flgid k"
  shows "flg_inv k'"
proof -
  have q: "que k' (FlgQ i) = filter (\<lambda>u. u \<notin> T) (que k (FlgQ i))" for i by (rule releasedD(9) [OF r]) simp
  have "flg_ok i k'" if "i < nat (max_flgid k)" for i
    using flg_inv_ok [OF inv that] wq_ok_released [OF _ r, of "FlgQ i"] length_filter_le [of "\<lambda>u. u \<notin> T" "que k (FlgQ i)"]
    by (auto simp: flg_ok_def ob q released_flg_want [OF r] dest: order_trans simp del: length_filter_le)
  then show ?thesis using inv by (simp add: flg_inv_def ob)
qed

lemma released_mtx_good:
  assumes kv: "kinv {} k" and good: "mtx_good {} k" and r: "released T e k k'"
    and ob: "mtxcb_table k' = mtxcb_table k" "free_mtxcb k' = free_mtxcb k" "max_mtxid k' = max_mtxid k"
    and T: "\<And>i. T \<inter> set (que k (MtxQ i)) = {}"
  shows "mtx_good {} k'"
proof (rule mtx_good_cong [OF good ob])
  have "filter (\<lambda>u. u \<notin> T) (que k (MtxQ i)) = que k (MtxQ i)" for i using T [of i] by (auto simp: filter_id_conv)
  then show "que k' (MtxQ i) = que k (MtxQ i)" for i using releasedD(9) [OF r, of "MtxQ i"] by simp
  show "exists_task t k' = exists_task t k" for t by (rule released_exists [OF r])
  note c = core_eqD [OF releasedD(6) [OF r]]
  show "priority (tcb k' t) = priority (tcb k t) \<and> bpriority (tcb k' t) = bpriority (tcb k t) \<and>
      mtxlist (tcb k' t) = mtxlist (tcb k t)" for t by (simp add: c)
  show "exists_task t k \<and> wid (tcb k' t) = wid (tcb k t) \<and> wspec (tcb k' t) = wspec (tcb k t)"
    if "t \<in> set (que k (MtxQ i))" for i t using mtx_waiter(7) [OF kv mtx_goodD(1) [OF good] that] by (simp add: c)
  show "state (tcb k t) = TS_DORMANT" if "state (tcb k' t) = TS_DORMANT" for t
    using releasedD(8) [OF r, of t] that by (auto split: if_splits)
qed

text \<open>All but the objects whose waiters can go on when another one is released.\<close>

definition others_ok :: "mails \<Rightarrow> kernel \<Rightarrow> bool" where
  "others_ok M k \<longleftrightarrow> flg_inv k \<and> mbx_inv M k \<and> mtx_good {} k \<and> queues_in_range k"

lemma others_okI: "objects_ok M k \<Longrightarrow> mtx_good {} k \<Longrightarrow> others_ok M k"
  by (simp add: objects_ok_def others_ok_def)

lemma others_okD: "sem_inv k \<Longrightarrow> mbf_inv k \<Longrightarrow> others_ok M k \<Longrightarrow> objects_ok M k \<and> mtx_good {} k"
  by (simp add: objects_ok_def others_ok_def)

lemma released_others:
  assumes kv: "kinv {} k" and ok: "others_ok M k"
    and r: "released T e k k'" and fo: "fixed_objs k' = fixed_objs k"
    and T: "\<And>i. T \<inter> set (que k (MtxQ i)) = {}"
  shows "others_ok M k'"
proof -
  note o = fixed_objs_eqD [OF fo]
  have "queues_in_range k" using ok by (simp add: others_ok_def)
  then have "queues_in_range k'"
  proof (rule queues_in_range_cong)
    show "que k' h = []" if "object_queue h" "que k h = []" for h
      using releasedD(9) [OF r object_queue_not(1) [OF that(1)]] that(2) by simp
  qed (simp_all add: o)
  moreover have "flg_inv k'" by (rule released_flg_all [OF _ r]) (use ok in \<open>simp_all add: others_ok_def o\<close>)
  moreover have "mbx_inv M k'" by (rule released_mbx_inv [OF _ r]) (use ok in \<open>simp_all add: others_ok_def o\<close>)
  moreover have "mtx_good {} k'"
    by (rule released_mtx_good [OF kv _ r _ _ _ T]) (use ok in \<open>simp_all add: others_ok_def o\<close>)
  ultimately show ?thesis by (simp add: others_ok_def)
qed

lemma released_sem_cong:
  assumes "sem_inv k" and r: "released T e k k'" and T: "\<And>i. T \<inter> set (que k (SemQ i)) = {}"
    and o: "semcb_table k' = semcb_table k" "free_semcb k' = free_semcb k" "max_semid k' = max_semid k"
  shows "sem_inv k'"
proof -
  note c = core_eqD [OF releasedD(6) [OF r]]
  have "filter (\<lambda>u. u \<notin> T) (que k (SemQ i)) = que k (SemQ i)" for i using T [of i] by (auto simp: filter_id_conv)
  then have "sem_inv k' = sem_inv k"
    by (intro sem_inv_cong) (use releasedD(9) [OF r, of "SemQ _"] in \<open>simp_all add: c o\<close>)
  with assms(1) show ?thesis by simp
qed

subsection \<open>The release hooks\<close>

text \<open>
  \<open>let_go M t k k'\<close>: the waiting task \<open>t\<close> has been released with all that follows from it.
\<close>

definition let_go :: "mails \<Rightarrow> tid \<Rightarrow> kernel \<Rightarrow> kernel \<Rightarrow> bool" where
  "let_go M t k k' \<longleftrightarrow> pri_changed (wait_release t k) k' \<and> objects_ok M k' \<and> mtx_good {} k'"

lemma let_go_plain:
  assumes kv: "kinv {} k" and ok: "objects_ok M k" and good: "mtx_good {} k"
    and t: "t < NUM_TSKID k" "ts_wait (state (tcb k t))"
    and no: "\<And>i. t \<notin> set (que k (SemQ i))" "\<And>i. t \<notin> set (que k (MtxQ i))" "\<And>i. t \<notin> set (que k (SmbfQ i))"
  shows "let_go M t k (wait_release t k)"
proof -
  have r: "released {t} (wercd (tcb k t)) k (wait_release t k)" by (rule released_wait_release [OF kv t])
  have "sem_inv (wait_release t k)" by (rule released_sem_cong [OF objects_okD(1) [OF ok] r]) (use no in simp_all)
  moreover have "mbf_inv (wait_release t k)" by (rule released_mbf_inv [OF objects_okD(7) [OF ok] r]) (use no in simp_all)
  moreover have "others_ok M (wait_release t k)"
    by (rule released_others [OF kv others_okI [OF ok good] r fixed_objs_objs [OF wait_release_frame(1)]])
      (use no in simp)
  ultimately show ?thesis
    using others_okD by (simp add: let_go_def pri_changed_refl releasedD(1) [OF r])
qed

text \<open>The hook of an object has released some of its waiters.\<close>

lemma let_go_next:
  assumes kv: "kinv {} k" and ok: "objects_ok M k" and good: "mtx_good {} k"
    and t: "t < NUM_TSKID k" "ts_wait (state (tcb k t))" "t \<in> set (que k h)"
    and h: "h = SemQ i \<or> h = SmbfQ i" and T: "released T E_OK (wait_release t k) k'" "T \<subseteq> set (que (wait_release t k) h)"
    and o: "fixed_objs k' = fixed_objs (wait_release t k)"
  shows "pri_changed (wait_release t k) k'" "others_ok M k'"
    "h \<noteq> SemQ i \<Longrightarrow> semcb_table k' = semcb_table k \<Longrightarrow> sem_inv k'"
    "h \<noteq> SmbfQ i \<Longrightarrow> mbfcb_table k' = mbfcb_table k \<Longrightarrow> mbf_inv k'"
proof -
  let ?k1 = "wait_release t k"
  have r: "released {t} (wercd (tcb k t)) k ?k1" by (rule released_wait_release [OF kv t(1,2)])
  note kv1 = releasedD(1) [OF r] and ob = fixed_objs_objs [OF wait_release_frame(1)]
  have nh: "\<not> rdyq h" using h by auto
  have q: "{t} \<inter> set (que k g) = {}" "T \<inter> set (que ?k1 g) = {}" if "g \<noteq> h" "\<not> rdyq g" for g
  proof -
    have "u \<notin> set (que k g)" if "u \<in> set (que k h)" for u
      using disjoint_queuesD [OF kinvD(6) [OF kv] that, of g] \<open>g \<noteq> h\<close> by simp
    then show "{t} \<inter> set (que k g) = {}" "T \<inter> set (que ?k1 g) = {}"
      using t(3) T(2) releasedD(9) [OF r that(2)] releasedD(9) [OF r nh] by auto
  qed
  have m: "MtxQ j \<noteq> h" for j using h by auto
  have "others_ok M ?k1"
    by (rule released_others [OF kv others_okI [OF ok good] r ob]) (use q(1) [OF m] in simp)
  then show "others_ok M k'" by (rule released_others [OF kv1 _ T(1) o]) (use q(2) [OF m] in simp)
  show "pri_changed ?k1 k'" by (rule pri_changed_released [OF kv1 T(1,2) _ o]) (use h in auto)
  note f = fixed_objs_eqD [OF o]
  show "sem_inv k'" if "h \<noteq> SemQ i" "semcb_table k' = semcb_table k"
  proof (rule released_sem_cong [OF released_sem_cong [OF objects_okD(1) [OF ok] r] T(1)])
    have "SemQ j \<noteq> h" for j using h that(1) by auto
    then show "{t} \<inter> set (que k (SemQ j)) = {}" "T \<inter> set (que ?k1 (SemQ j)) = {}" for j using q by simp_all
  qed (use that(2) f in simp_all)
  show "mbf_inv k'" if "h \<noteq> SmbfQ i" "mbfcb_table k' = mbfcb_table k"
  proof (rule released_mbf_inv [OF released_mbf_inv [OF objects_okD(7) [OF ok] r] T(1)])
    have "SmbfQ j \<noteq> h" for j using h that(1) by auto
    then show "{t} \<inter> set (que k (SmbfQ j)) = {}" "T \<inter> set (que ?k1 (SmbfQ j)) = {}" for j using q by simp_all
  qed (use that(2) f in simp_all)
qed

lemma rel_hook_let_go:
  assumes kv: "kinv {} k" and ok: "objects_ok M k" and good: "mtx_good {} k"
    and t: "t < NUM_TSKID k" "ts_wait (state (tcb k t))" and n: "NUM_TSKID k < n"
  obtains k' where "call_rel_wai_hook (hooks_n (Suc n)) t (wait_release t k) = Some k'" "let_go M t k k'"
proof -
  note goal = that
  let ?k1 = "wait_release t k"
  have r: "released {t} (wercd (tcb k t)) k ?k1" by (rule released_wait_release [OF kv t])
  have home: "home (tcb k t) = wait_home (wspec (tcb k t)) (wid (tcb k t))"
    using t(2) by (cases "state (tcb k t)") auto
  have only: "g = h" if "t \<in> set (que k h)" "t \<in> set (que k g)" for g h
    using that kinv_mem [OF kv] by simp
  have call: "call_rel_wai_hook hks t ?k1 = (case rel_wai_hook hks (wspec (tcb k t)) of Some f \<Rightarrow> f t ?k1 | None \<Rightarrow> Some ?k1)" for hks
    by (simp add: call_rel_wai_hook_def)
  have none: thesis if "rel_wai_hook (hooks_n (Suc n)) (wspec (tcb k t)) = None"
      "\<And>i. t \<notin> set (que k (SemQ i))" "\<And>i. t \<notin> set (que k (MtxQ i))" "\<And>i. t \<notin> set (que k (SmbfQ i))"
    using let_go_plain [OF kv ok good t that(2-4)] that(1) by (intro goal) (simp_all add: call)
  show thesis
  proof (cases "home (tcb k t)")
    case None
    then have "wspec (tcb k t) \<in> {WSPEC_SLP, WSPEC_DLY, WSPEC_RDV} \<or> (\<exists>w. wspec (tcb k t) = WSPEC_TEV w)"
      using home by (cases "wspec (tcb k t)") auto
    then show thesis by (intro none) (use None kinv_mem [OF kv] in \<open>auto simp: hook_table_def\<close>)
  next
    case (Some h)
    then have mem: "t \<in> set (que k h)" using kinv_mem [OF kv] t(1) by simp
    show thesis
    proof (cases h)
      case (SemQ i)
      note mem = mem [unfolded SemQ] and i = objects_okD(4) [OF ok mem [unfolded SemQ]]
      note w = sem_waiter [OF kv objects_okD(1) [OF ok] mem i]
      obtain k' where k': "sem_rel_wai t ?k1 = Some k'" "kinv {} k'" "sem_inv k'"
          "k' = ?k1 \<or> (\<exists>skip ts. set ts \<subseteq> set (que ?k1 (SemQ i)) \<and> served i skip ts ?k1 k')"
        by (rule sem_rel_wai_served [OF kv objects_okD(1) [OF ok] mem i])
      have call': "call_rel_wai_hook (hooks_n (Suc n)) t ?k1 = Some k'"
        using k'(1) w(5) by (simp add: call hook_table_def sem_wspec_def)
      have kv1: "kinv {} ?k1" by (rule releasedD(1) [OF r])
      obtain T where T: "released T E_OK ?k1 k'" "T \<subseteq> set (que ?k1 (SemQ i))" "fixed_objs k' = fixed_objs ?k1"
          "mbfcb_table k' = mbfcb_table k"
      proof (cases "k' = ?k1")
        case True
        then show thesis using that [of "{}"] released_refl [OF kv1] by simp
      next
        case False
        then obtain skip ts where ts: "set ts \<subseteq> set (que ?k1 (SemQ i))" "served i skip ts ?k1 k'" using k'(4) by blast
        note p = served_parts [OF ts(2)]
        have "fixed_objs k' = fixed_objs ?k1"
          using arg_cong [OF p(2), of "\<lambda>k. k\<lparr>semcb_table := undefined, mbfcb_table := undefined\<rparr>"]
          by (simp add: fixed_objs_alt objs_def upd_sem_def)
        moreover have "mbfcb_table k' = mbfcb_table k" using objs_eqD(37) [OF p(2)] by (simp add: upd_sem_def)
        moreover have "set (snd (serve skip (sem_want ?k1) (semcnt (sem ?k1 i)) ts)) \<subseteq> set (que ?k1 (SemQ i))"
          using serve_set [of skip "sem_want ?k1" "semcnt (sem ?k1 i)" ts] ts(1) by blast
        ultimately show thesis using that [OF p(1)] by blast
      qed
      have "SemQ i = SemQ i \<or> SemQ i = SmbfQ i" by simp
      note nx = let_go_next [OF kv ok good t mem this T(1-3)]
      show thesis using goal [OF call'] others_okD [OF k'(3) nx(4) nx(2)] nx(1) T(4) by (simp add: let_go_def)
    next
      case (FlgQ i)
      note fw = flg_waiter(5) [OF kv objects_okD(2) [OF ok] mem [unfolded FlgQ] objects_okD(5) [OF ok mem [unfolded FlgQ]]]
      show thesis
        by (rule none) (use fw only [OF mem [unfolded FlgQ]] in \<open>auto simp: hook_table_def flg_wspec_def\<close>)
    next
      case (MbxQ i)
      note mw = mbx_waiter(3) [OF kv objects_okD(3) [OF ok] mem [unfolded MbxQ] objects_okD(6) [OF ok mem [unfolded MbxQ]]]
      show thesis
        by (rule none) (use mw only [OF mem [unfolded MbxQ]] in \<open>auto simp: hook_table_def mbx_wspec_def\<close>)
    next
      case (SmbfQ i)
      note mem = mem [unfolded SmbfQ] and i = objects_okD(8) [OF ok mem [unfolded SmbfQ]]
      have w: "wspec (tcb k t) = smbf_wspec (mbfatr (mbf k i))"
        using mbf_waiter(5) [OF kv objects_okD(7) [OF ok] _ i mem] mem by blast
      obtain k' ms where k': "mbf_rel_wai t ?k1 = Some k'" "mbf_inv k'" "stored i ms (accepted i ?k1) ?k1 k'"
        by (rule mbf_rel_wai_stored [OF kv objects_okD(7) [OF ok] mem i])
      note st = storedD [OF k'(3)] and f = stored_sel(6) [OF k'(3)]
      have call': "call_rel_wai_hook (hooks_n (Suc n)) t ?k1 = Some k'"
        using k'(1) w by (simp add: call hook_table_def smbf_wspec_def)
      have T: "set (accepted i ?k1) \<subseteq> set (que ?k1 (SmbfQ i))" by (simp add: st(5))
      have "SmbfQ i = SemQ i \<or> SmbfQ i = SmbfQ i" by simp
      note nx = let_go_next [OF kv ok good t mem this st(1) T f]
      have "semcb_table k' = semcb_table k" using objs_eqD(17) [OF st(4)] by (simp add: upd_mbf_def)
      then show thesis using goal [OF call'] others_okD [OF nx(3) k'(2) nx(2)] nx(1) by (simp add: let_go_def)
    next
      case (RmbfQ i)
      have w: "wspec (tcb k t) = WSPEC_RMBF"
        using mbf_waiter(6) [OF kv objects_okD(7) [OF ok] _ objects_okD(9) [OF ok mem [unfolded RmbfQ]] mem [unfolded RmbfQ]]
          mem RmbfQ by blast
      show thesis by (rule none) (use w only [OF mem [unfolded RmbfQ]] in \<open>auto simp: hook_table_def\<close>)
    next
      case (MtxQ i)
      show thesis
        by (rule pri.release_good [OF kv ok good mem [unfolded MtxQ] r _ n])
          (use that in \<open>auto simp: let_go_def\<close>)
    qed (use Some home mem objects_okD(10,11) [OF ok] in auto)
  qed
qed

subsection \<open>The invariant of the whole kernel\<close>

definition sys_ok :: "kernel \<Rightarrow> bool" where
  "sys_ok k \<longleftrightarrow> kinv {} k \<and> (\<exists>M. objects_ok M k) \<and> mtx_good {} k"

lemma sys_okE:
  assumes "sys_ok k"
  obtains M where "kinv {} k" "objects_ok M k" "mtx_good {} k"
  using assms by (auto simp: sys_ok_def)

lemma sys_ok_kinv: "sys_ok k \<Longrightarrow> kinv {} k"
  by (simp add: sys_ok_def)

fun wait_queue :: "qhead \<Rightarrow> bool" where
  "wait_queue (MtxQ i) = True"
| "wait_queue h = object_queue h"

lemma wait_queue_cases [simp]:
  "wait_queue (SemQ i)" "wait_queue (FlgQ i)" "wait_queue (MbxQ i)" "wait_queue (SmbfQ i)" "wait_queue (RmbfQ i)" "object_queue h \<Longrightarrow> wait_queue h"
  by (simp_all, cases h, simp_all)

text \<open>What a step may change that concerns no object and none of its waiters.\<close>

lemma sys_ok_step:
  assumes ok: "sys_ok k" and kv: "kinv {} k'"
    and o: "other_objs k' = other_objs k" "mtxcb_table k' = mtxcb_table k" "free_mtxcb k' = free_mtxcb k"
      "max_mtxid k' = max_mtxid k"
    and q: "\<And>h. wait_queue h \<Longrightarrow> que k' h = que k h"
    and ex: "\<And>t. exists_task t k' = exists_task t k"
    and t: "\<And>t. exists_task t k \<Longrightarrow> priority (tcb k' t) = priority (tcb k t) \<and> bpriority (tcb k' t) = bpriority (tcb k t) \<and>
      mtxlist (tcb k' t) = mtxlist (tcb k t)"
    and w: "\<And>h t. wait_queue h \<Longrightarrow> t \<in> set (que k h) \<Longrightarrow> same_tcb (tcb k' t) (tcb k t)"
    and dorm: "\<And>t. exists_task t k \<Longrightarrow> state (tcb k' t) = TS_DORMANT \<Longrightarrow> state (tcb k t) = TS_DORMANT"
  shows "sys_ok k'"
proof -
  obtain M where kM: "kinv {} k" "objects_ok M k" and good: "mtx_good {} k" using ok by (rule sys_okE)
  have "objects_ok M k'" by (rule objects_ok_cong [OF kM(2) o(1)]) (simp add: q, rule w, simp_all)
  moreover have "mtx_good {} k'"
  proof (rule mtx_good_cong [OF good o(2-4) _ ex t _ dorm])
    show "exists_task t k \<and> wid (tcb k' t) = wid (tcb k t) \<and> wspec (tcb k' t) = wspec (tcb k t)"
      if "t \<in> set (que k (MtxQ i))" for i t
      using mtx_waiter(7) [OF kM(1) mtx_goodD(1) [OF good] that] w [OF _ that] by (simp add: same_tcb_def)
  qed (use q in simp_all)
  ultimately show ?thesis using kv by (auto simp: sys_ok_def)
qed

lemma sys_ok_cong:
  assumes ok: "sys_ok k" and kv: "kinv {} k'"
    and o: "other_objs k' = other_objs k" "mtxcb_table k' = mtxcb_table k" "free_mtxcb k' = free_mtxcb k"
      "max_mtxid k' = max_mtxid k" "NUM_TSKID k' = NUM_TSKID k"
    and q: "\<And>h. \<not> rdyq h \<Longrightarrow> que k' h = que k h"
    and t: "\<And>t. same_tcb (tcb k' t) (tcb k t)" "\<And>t. state (tcb k' t) = state (tcb k t)"
  shows "sys_ok k'"
proof (rule sys_ok_step [OF ok kv o(1-4)])
  show "que k' h = que k h" if "wait_queue h" for h by (rule q) (use that in \<open>cases h; simp\<close>)
qed (use t o(5) in \<open>simp_all add: exists_task_def same_tcb_def\<close>)

lemma sys_ok_END:
  assumes "sys_ok k"
  shows "sys_ok (END_CRITICAL_SECTION k)" "kernel_ok (END_CRITICAL_SECTION k)"
proof -
  show "kernel_ok (END_CRITICAL_SECTION k)" by (rule kernel_ok_END_CRITICAL_SECTION [OF sys_ok_kinv [OF assms]])
  from kernel_ok_kinv [OF this] show "sys_ok (END_CRITICAL_SECTION k)"
    by (rule sys_ok_cong [OF assms]) (simp_all add: same_tcb_def)
qed

end
