(* ===== verification/Time_Calls.thy ===== *)
theory Time_Calls
  imports Hooks "HOL-Library.Signed_Division"
begin

text \<open>
  Time management (\<^verbatim>\<open>time_calls.c\<close>): the system clock, task delay, cyclic handlers and alarm handlers. A
  user handler is code outside the sources: \<open>uh exinf address\<close> is what it does to the kernel (through
  system calls), an argument of every operation that may run one; \<open>None\<close> when it does not return.
\<close>

type_synonym user_handler = "nat \<Rightarrow> nat \<Rightarrow> kernel \<Rightarrow> kernel option"

subsection \<open>The system clock\<close>

record systim =
  tim_hi :: UW
  tim_lo :: UW

definition li_div :: "D \<Rightarrow> D \<Rightarrow> D" where
  "li_div a b = word_of_int (sint a sdiv sint b)"

definition toSYSTIM :: "D \<Rightarrow> systim" where
  "toSYSTIM ltime =
     (let t = li_div ltime 1000
      in \<lparr>tim_hi = ucast (signed_drop_bit 32 t), tim_lo = ucast t\<rparr>)"

text \<open>The residue below a millisecond, in microseconds.\<close>

definition toSYSTIM_us :: "D \<Rightarrow> UW" where
  "toSYSTIM_us ltime = ucast (ltime - li_div ltime 1000 * 1000)"

definition real_time :: "kernel \<Rightarrow> D" where
  "real_time k = current_time k + real_time_ofs k"

definition tk_set_tim :: "systim \<Rightarrow> kernel \<Rightarrow> ER \<times> kernel" where
  "tk_set_tim tim k =
     checked [CHECK_PAR (0 \<le>s tim_hi tim)] k
       (E_OK, END_CRITICAL_SECTION (k\<lparr>real_time_ofs := toLSYSTIM (tim_hi tim) (tim_lo tim) - current_time k\<rparr>))"

definition tk_set_tim_u :: "D \<Rightarrow> kernel \<Rightarrow> ER \<times> kernel" where
  "tk_set_tim_u tim k =
     checked [CHECK_PAR (0 \<le>s tim)] k
       (E_OK, END_CRITICAL_SECTION (k\<lparr>real_time_ofs := tim - current_time k\<rparr>))"

definition tk_get_tim :: "kernel \<Rightarrow> (ER \<times> systim) \<times> kernel" where
  "tk_get_tim k = ((E_OK, toSYSTIM (real_time k)), END_CRITICAL_SECTION k)"

definition tk_get_tim_u :: "kernel \<Rightarrow> (ER \<times> D \<times> UW) \<times> kernel" where
  "tk_get_tim_u k = ((E_OK, real_time k, hw_timer_nsec k), END_CRITICAL_SECTION k)"

definition tk_get_otm :: "kernel \<Rightarrow> (ER \<times> systim) \<times> kernel" where
  "tk_get_otm k = ((E_OK, toSYSTIM (current_time k)), END_CRITICAL_SECTION k)"

definition tk_get_otm_u :: "kernel \<Rightarrow> (ER \<times> D \<times> UW) \<times> kernel" where
  "tk_get_otm_u k = ((E_OK, current_time k, hw_timer_nsec k), END_CRITICAL_SECTION k)"

definition td_get_tim :: "kernel \<Rightarrow> ER \<times> systim \<times> UW" where
  "td_get_tim k = (E_OK, toSYSTIM (real_time k), toSYSTIM_us (real_time k) * 1000 + hw_timer_nsec k)"

definition td_get_tim_u :: "kernel \<Rightarrow> ER \<times> D \<times> UW" where
  "td_get_tim_u k = (E_OK, real_time k, hw_timer_nsec k)"

definition td_get_otm :: "kernel \<Rightarrow> ER \<times> systim \<times> UW" where
  "td_get_otm k = (E_OK, toSYSTIM (current_time k), toSYSTIM_us (current_time k) * 1000 + hw_timer_nsec k)"

definition td_get_otm_u :: "kernel \<Rightarrow> ER \<times> D \<times> UW" where
  "td_get_otm_u k = (E_OK, current_time k, hw_timer_nsec k)"

subsection \<open>Task delay\<close>

text \<open>The result of a call that waits is read from the caller's cell, as for semaphores.\<close>

definition tk_dly_tsk_u :: "D \<Rightarrow> kernel \<Rightarrow> ER \<times> kernel" where
  "tk_dly_tsk_u dlytim k =
     checked [CHECK_DISPATCH k] k
       (let t = self k
        in if dlytim = 0 then (E_OK, k)
           else if waitmask (tcb k t) AND TTW_DLY \<noteq> 0 then (E_DISWAI, END_CRITICAL_SECTION k)
           else
             let k = upd_tcb t (\<lambda>c. c\<lparr>wspec := WSPEC_DLY, wid := 0, wercd := E_OK\<rparr>) k;
                 k = make_wait_reltim dlytim TA_NULL k
             in (wercd (tcb k t), END_CRITICAL_SECTION k))"

definition tk_dly_tsk :: "UW \<Rightarrow> kernel \<Rightarrow> ER \<times> kernel" where
  "tk_dly_tsk dlytim k = tk_dly_tsk_u (to_usec (ucast dlytim)) k"

subsection \<open>Cyclic handlers\<close>

abbreviation (input) TA_STA :: UW where "TA_STA \<equiv> 0x2"
abbreviation (input) TA_PHS :: UW where "TA_PHS \<equiv> 0x4"
abbreviation (input) TCYC_STA :: UW where "TCYC_STA \<equiv> 0x1"

record t_ccyc_u =
  ccyc_exinf :: nat
  ccyc_cycatr :: UW
  ccyc_cychdr :: nat
  ccyc_cyctim_u :: D
  ccyc_cycphs_u :: D
  ccyc_dsname :: "UB list"

record t_ccyc =
  ccycm_exinf :: nat
  ccycm_cycatr :: UW
  ccycm_cychdr :: nat
  ccycm_cyctim :: UW
  ccycm_cycphs :: UW
  ccycm_dsname :: "UB list"

record t_rcyc =
  rcyc_exinf :: nat
  rcyc_lfttim :: D
  rcyc_cycstat :: UW

definition get_cyccb :: "ID \<Rightarrow> nat" where
  "get_cyccb oid = INDEX oid"

definition upd_cyc :: "nat \<Rightarrow> (cyccb \<Rightarrow> cyccb) \<Rightarrow> kernel \<Rightarrow> kernel" where
  "upd_cyc i f k = k\<lparr>cyccb_table := (cyccb_table k)(i := f (cyccb_table k i))\<rparr>"

abbreviation cyc :: "kernel \<Rightarrow> nat \<Rightarrow> cyccb" where
  "cyc k i \<equiv> cyccb_table k i"

definition cyclichandler_initialize :: "int option \<Rightarrow> bool \<Rightarrow> kernel \<Rightarrow> ER \<times> kernel" where
  "cyclichandler_initialize tmaxcycid mem k =
     (let k = (case tmaxcycid of Some n \<Rightarrow> k\<lparr>max_cycid := n\<rparr> | None \<Rightarrow> k)
      in if tmaxcycid = None \<or> max_cycid k < 1 then (E_SYS, k)
      else if \<not> mem then (E_NOMEM, k)
      else
        let k = k\<lparr>free_cyccb := []\<rparr>;
            k = fold (\<lambda>i k.
                  let k = upd_cyc i (\<lambda>c. c\<lparr>cychdr := 0\<rparr>) k
                  in k\<lparr>free_cyccb := free_cyccb k @ [i]\<rparr>)
                [0..<nat (max_cycid k)] k
        in (E_OK, k))"

definition cyc_time :: "nat \<Rightarrow> kernel \<Rightarrow> D" where
  "cyc_time i k = tm_time (tmebs k (CycTmeb i))"

definition cyc_next_time :: "nat \<Rightarrow> kernel \<Rightarrow> D" where
  "cyc_next_time i k =
     (let tm = cyc_time i k + cyctim (cyc k i)
      in if ll_cmp tm (current_time k) \<le>s 0 then
           let tm = current_time k - cyc_time i k;
               n = tm div cyctim (cyc k i);
               n = n + 1
           in cyc_time i k + n * cyctim (cyc k i)
         else tm)"

definition cyc_timer_insert :: "nat \<Rightarrow> D \<Rightarrow> kernel \<Rightarrow> kernel" where
  "cyc_timer_insert i tm k = timer_insert_abs (CycTmeb i) tm CB_call_cychdr k"

definition call_cychdr :: "user_handler \<Rightarrow> nat \<Rightarrow> kernel \<Rightarrow> kernel option" where
  "call_cychdr uh i k =
     (let k = cyc_timer_insert i (cyc_next_time i k) k
      in uh (cyc_exinf (cyc k i)) (cychdr (cyc k i)) k)"

text \<open>The handler runs in a task-independent part.\<close>

definition in_task_independent :: "(kernel \<Rightarrow> kernel option) \<Rightarrow> kernel \<Rightarrow> kernel option" where
  "in_task_independent f k =
     map_option (\<lambda>k'. k'\<lparr>isTaskIndependent := isTaskIndependent k\<rparr>) (f (k\<lparr>isTaskIndependent := True\<rparr>))"

definition immediate_call_cychdr :: "user_handler \<Rightarrow> nat \<Rightarrow> kernel \<Rightarrow> kernel option" where
  "immediate_call_cychdr uh i k =
     (let k = cyc_timer_insert i (cyc_next_time i k) k
      in in_task_independent (uh (cyc_exinf (cyc k i)) (cychdr (cyc k i))) k)"

definition VALID_CYCATR :: UW where
  "VALID_CYCATR = 1 OR TA_STA OR TA_PHS OR TA_DSNAME"

definition tk_cre_cyc_u :: "user_handler \<Rightarrow> t_ccyc_u \<Rightarrow> kernel \<Rightarrow> (ER \<times> kernel) option" where
  "tk_cre_cyc_u uh pk k =
     checked_opt [CHECK_RSATR (ccyc_cycatr pk) VALID_CYCATR, CHECK_PAR (ccyc_cychdr pk \<noteq> 0),
                  CHECK_PAR (ccyc_cyctim_u pk \<noteq> 0)] k
       (case free_cyccb k of
          [] \<Rightarrow> Some (E_LIMIT, END_CRITICAL_SECTION k)
        | i # rest \<Rightarrow>
            let k = k\<lparr>free_cyccb := rest\<rparr>;
                k = upd_cyc i (\<lambda>c. c\<lparr>cyc_exinf := ccyc_exinf pk, cycatr := ccyc_cycatr pk,
                      cychdr := ccyc_cychdr pk, cyctim := ccyc_cyctim_u pk\<rparr>) k;
                k = (if ccyc_cycatr pk AND TA_DSNAME \<noteq> 0
                     then upd_cyc i (\<lambda>c. c\<lparr>cyc_name := strncpy (ccyc_dsname pk) 8\<rparr>) k else k);
                tm = current_time k + ccyc_cycphs_u pk + adjust_time k
            in map_option (\<lambda>k. (ID_of i, END_CRITICAL_SECTION k))
                 (if ccyc_cycatr pk AND TA_STA \<noteq> 0 then
                    let k = upd_cyc i (\<lambda>c. c\<lparr>cycstat := TCYC_STA\<rparr>) k
                    in if ccyc_cycphs_u pk = 0
                       then immediate_call_cychdr uh i (upd_tmeb (CycTmeb i) (\<lambda>e. e\<lparr>tm_time := tm\<rparr>) k)
                       else Some (cyc_timer_insert i tm k)
                  else
                    let k = upd_cyc i (\<lambda>c. c\<lparr>cycstat := 0\<rparr>) k
                    in Some (upd_tmeb (CycTmeb i) (\<lambda>e. e\<lparr>tm_time := tm\<rparr>) k)))"

definition tk_cre_cyc :: "user_handler \<Rightarrow> t_ccyc \<Rightarrow> kernel \<Rightarrow> (ER \<times> kernel) option" where
  "tk_cre_cyc uh pk k =
     tk_cre_cyc_u uh
       \<lparr>ccyc_exinf = ccycm_exinf pk, ccyc_cycatr = ccycm_cycatr pk, ccyc_cychdr = ccycm_cychdr pk,
        ccyc_cyctim_u = to_usec (ucast (ccycm_cyctim pk)), ccyc_cycphs_u = to_usec (ucast (ccycm_cycphs pk)),
        ccyc_dsname = strncpy (ccycm_dsname pk) 8\<rparr> k"

definition tk_del_cyc :: "ID \<Rightarrow> kernel \<Rightarrow> ER \<times> kernel" where
  "tk_del_cyc oid k =
     checked [CHECK_CYCID oid k] k
       (let i = get_cyccb oid
        in if cychdr (cyc k i) = 0 then (E_NOEXS, END_CRITICAL_SECTION k)
           else
             let k = (if cycstat (cyc k i) AND TCYC_STA \<noteq> 0 then timer_delete (CycTmeb i) k else k);
                 k = k\<lparr>free_cyccb := free_cyccb k @ [i]\<rparr>;
                 k = upd_cyc i (\<lambda>c. c\<lparr>cychdr := 0\<rparr>) k
             in (E_OK, END_CRITICAL_SECTION k))"

definition tk_sta_cyc :: "ID \<Rightarrow> kernel \<Rightarrow> ER \<times> kernel" where
  "tk_sta_cyc oid k =
     checked [CHECK_CYCID oid k] k
       (let i = get_cyccb oid
        in if cychdr (cyc k i) = 0 then (E_NOEXS, END_CRITICAL_SECTION k)
           else
             let k = (if cycatr (cyc k i) AND TA_PHS \<noteq> 0 then
                        if cycstat (cyc k i) AND TCYC_STA = 0 then
                          let tm = (if ll_cmp (cyc_time i k) (current_time k) \<le>s 0 then cyc_next_time i k
                                    else cyc_time i k)
                          in cyc_timer_insert i tm k
                        else k
                      else
                        let k = (if cycstat (cyc k i) AND TCYC_STA \<noteq> 0 then timer_delete (CycTmeb i) k else k)
                        in cyc_timer_insert i (current_time k + cyctim (cyc k i) + adjust_time k) k);
                 k = upd_cyc i (\<lambda>c. c\<lparr>cycstat := cycstat c OR TCYC_STA\<rparr>) k
             in (E_OK, END_CRITICAL_SECTION k))"

definition tk_stp_cyc :: "ID \<Rightarrow> kernel \<Rightarrow> ER \<times> kernel" where
  "tk_stp_cyc oid k =
     checked [CHECK_CYCID oid k] k
       (let i = get_cyccb oid
        in if cychdr (cyc k i) = 0 then (E_NOEXS, END_CRITICAL_SECTION k)
           else
             let k = (if cycstat (cyc k i) AND TCYC_STA \<noteq> 0 then timer_delete (CycTmeb i) k else k);
                 k = upd_cyc i (\<lambda>c. c\<lparr>cycstat := cycstat c AND NOT TCYC_STA\<rparr>) k
             in (E_OK, END_CRITICAL_SECTION k))"

text \<open>What is left of a time, not below zero.\<close>

definition left_time :: "D \<Rightarrow> kernel \<Rightarrow> D" where
  "left_time tm k =
     (let tm = tm - current_time k - adjust_time k in if tm <s 0 then 0 else tm)"

definition cyc_info :: "nat \<Rightarrow> kernel \<Rightarrow> t_rcyc" where
  "cyc_info i k =
     (let tm = (if cycstat (cyc k i) AND TCYC_STA = 0 \<and> ll_cmp (cyc_time i k) (current_time k) \<le>s 0
                then cyc_next_time i k else cyc_time i k)
      in \<lparr>rcyc_exinf = cyc_exinf (cyc k i), rcyc_lfttim = left_time tm k, rcyc_cycstat = cycstat (cyc k i)\<rparr>)"

definition tk_ref_cyc_u :: "ID \<Rightarrow> kernel \<Rightarrow> (ER \<times> t_rcyc option) \<times> kernel" where
  "tk_ref_cyc_u oid k =
     (case CHECK_CYCID oid k of
        Some e \<Rightarrow> ((e, None), k)
      | None \<Rightarrow>
          let i = get_cyccb oid
          in (if cychdr (cyc k i) = 0 then (E_NOEXS, None) else (E_OK, Some (cyc_info i k)),
              END_CRITICAL_SECTION k))"

definition rcyc_msec :: "t_rcyc \<Rightarrow> t_rcyc" where
  "rcyc_msec r = r\<lparr>rcyc_lfttim := ucast (ucast (to_msec (rcyc_lfttim r)) :: UW)\<rparr>"

definition tk_ref_cyc :: "ID \<Rightarrow> kernel \<Rightarrow> (ER \<times> t_rcyc option) \<times> kernel" where
  "tk_ref_cyc oid k = (let ((e, r), k) = tk_ref_cyc_u oid k in ((e, map_option rcyc_msec r), k))"

definition cyclichandler_getname :: "ID \<Rightarrow> kernel \<Rightarrow> ER \<times> UB list option" where
  "cyclichandler_getname oid k =
     (case CHECK_CYCID oid k of
        Some e \<Rightarrow> (e, None)
      | None \<Rightarrow>
          let i = get_cyccb oid
          in if cychdr (cyc k i) = 0 then (E_NOEXS, None)
             else if cycatr (cyc k i) AND TA_DSNAME = 0 then (E_OBJ, None)
             else (E_OK, Some (cyc_name (cyc k i))))"

definition td_lst_cyc :: "int \<Rightarrow> kernel \<Rightarrow> int \<times> ID list" where
  "td_lst_cyc nent k =
     id_list (map ID_of (filter (\<lambda>i. cychdr (cyc k i) \<noteq> 0) [0..<nat (max_cycid k)])) nent"

definition td_ref_cyc_u :: "ID \<Rightarrow> kernel \<Rightarrow> ER \<times> t_rcyc option" where
  "td_ref_cyc_u oid k =
     (case CHECK_CYCID oid k of
        Some e \<Rightarrow> (e, None)
      | None \<Rightarrow>
          let i = get_cyccb oid
          in if cychdr (cyc k i) = 0 then (E_NOEXS, None) else (E_OK, Some (cyc_info i k)))"

definition td_ref_cyc :: "ID \<Rightarrow> kernel \<Rightarrow> ER \<times> t_rcyc option" where
  "td_ref_cyc oid k = (let (e, r) = td_ref_cyc_u oid k in (e, map_option rcyc_msec r))"

subsection \<open>Alarm handlers\<close>

abbreviation (input) TALM_STA :: UW where "TALM_STA \<equiv> 0x1"

record t_calm =
  calm_exinf :: nat
  calm_almatr :: UW
  calm_almhdr :: nat
  calm_dsname :: "UB list"

record t_ralm =
  ralm_exinf :: nat
  ralm_lfttim :: D
  ralm_almstat :: UW

definition get_almcb :: "ID \<Rightarrow> nat" where
  "get_almcb oid = INDEX oid"

definition upd_alm :: "nat \<Rightarrow> (almcb \<Rightarrow> almcb) \<Rightarrow> kernel \<Rightarrow> kernel" where
  "upd_alm i f k = k\<lparr>almcb_table := (almcb_table k)(i := f (almcb_table k i))\<rparr>"

abbreviation alm :: "kernel \<Rightarrow> nat \<Rightarrow> almcb" where
  "alm k i \<equiv> almcb_table k i"

definition alarmhandler_initialize :: "int option \<Rightarrow> bool \<Rightarrow> kernel \<Rightarrow> ER \<times> kernel" where
  "alarmhandler_initialize tmaxalmid mem k =
     (let k = (case tmaxalmid of Some n \<Rightarrow> k\<lparr>max_almid := n\<rparr> | None \<Rightarrow> k)
      in if tmaxalmid = None \<or> max_almid k < 1 then (E_SYS, k)
      else if \<not> mem then (E_NOMEM, k)
      else
        let k = k\<lparr>free_almcb := []\<rparr>;
            k = fold (\<lambda>i k.
                  let k = upd_alm i (\<lambda>c. c\<lparr>almhdr := 0\<rparr>) k
                  in k\<lparr>free_almcb := free_almcb k @ [i]\<rparr>)
                [0..<nat (max_almid k)] k
        in (E_OK, k))"

definition call_almhdr :: "user_handler \<Rightarrow> nat \<Rightarrow> kernel \<Rightarrow> kernel option" where
  "call_almhdr uh i k =
     (let k = upd_alm i (\<lambda>c. c\<lparr>almstat := almstat c AND NOT TALM_STA\<rparr>) k
      in uh (alm_exinf (alm k i)) (almhdr (alm k i)) k)"

definition immediate_call_almhdr :: "user_handler \<Rightarrow> nat \<Rightarrow> kernel \<Rightarrow> kernel option" where
  "immediate_call_almhdr uh i k =
     (let k = upd_alm i (\<lambda>c. c\<lparr>almstat := almstat c AND NOT TALM_STA\<rparr>) k
      in in_task_independent (uh (alm_exinf (alm k i)) (almhdr (alm k i))) k)"

definition alm_timer_insert :: "nat \<Rightarrow> D \<Rightarrow> kernel \<Rightarrow> kernel" where
  "alm_timer_insert i reltim k =
     timer_insert_abs (AlmTmeb i) (current_time k + reltim + adjust_time k) CB_call_almhdr k"

definition VALID_ALMATR :: UW where
  "VALID_ALMATR = 1 OR TA_DSNAME"

definition tk_cre_alm :: "t_calm \<Rightarrow> kernel \<Rightarrow> ER \<times> kernel" where
  "tk_cre_alm pk k =
     checked [CHECK_RSATR (calm_almatr pk) VALID_ALMATR, CHECK_PAR (calm_almhdr pk \<noteq> 0)] k
       (case free_almcb k of
          [] \<Rightarrow> (E_LIMIT, END_CRITICAL_SECTION k)
        | i # rest \<Rightarrow>
            let k = k\<lparr>free_almcb := rest\<rparr>;
                k = upd_alm i (\<lambda>c. c\<lparr>alm_exinf := calm_exinf pk, almatr := calm_almatr pk,
                      almhdr := calm_almhdr pk, almstat := 0\<rparr>) k;
                k = (if calm_almatr pk AND TA_DSNAME \<noteq> 0
                     then upd_alm i (\<lambda>c. c\<lparr>alm_name := strncpy (calm_dsname pk) 8\<rparr>) k else k)
            in (ID_of i, END_CRITICAL_SECTION k))"

definition tk_del_alm :: "ID \<Rightarrow> kernel \<Rightarrow> ER \<times> kernel" where
  "tk_del_alm oid k =
     checked [CHECK_ALMID oid k] k
       (let i = get_almcb oid
        in if almhdr (alm k i) = 0 then (E_NOEXS, END_CRITICAL_SECTION k)
           else
             let k = (if almstat (alm k i) AND TALM_STA \<noteq> 0 then timer_delete (AlmTmeb i) k else k);
                 k = k\<lparr>free_almcb := free_almcb k @ [i]\<rparr>;
                 k = upd_alm i (\<lambda>c. c\<lparr>almhdr := 0\<rparr>) k
             in (E_OK, END_CRITICAL_SECTION k))"

definition tk_sta_alm_u :: "user_handler \<Rightarrow> ID \<Rightarrow> D \<Rightarrow> kernel \<Rightarrow> (ER \<times> kernel) option" where
  "tk_sta_alm_u uh oid almtim k =
     checked_opt [CHECK_ALMID oid k] k
       (let i = get_almcb oid
        in if almhdr (alm k i) = 0 then Some (E_NOEXS, END_CRITICAL_SECTION k)
           else
             let k = (if almstat (alm k i) AND TALM_STA \<noteq> 0 then timer_delete (AlmTmeb i) k else k)
             in map_option (\<lambda>k. (E_OK, END_CRITICAL_SECTION k))
                  (if almtim \<noteq> 0
                   then Some (upd_alm i (\<lambda>c. c\<lparr>almstat := almstat c OR TALM_STA\<rparr>) (alm_timer_insert i almtim k))
                   else immediate_call_almhdr uh i k))"

definition tk_sta_alm :: "user_handler \<Rightarrow> ID \<Rightarrow> UW \<Rightarrow> kernel \<Rightarrow> (ER \<times> kernel) option" where
  "tk_sta_alm uh oid almtim k = tk_sta_alm_u uh oid (to_usec (ucast almtim)) k"

definition tk_stp_alm :: "ID \<Rightarrow> kernel \<Rightarrow> ER \<times> kernel" where
  "tk_stp_alm oid k =
     checked [CHECK_ALMID oid k] k
       (let i = get_almcb oid
        in if almhdr (alm k i) = 0 then (E_NOEXS, END_CRITICAL_SECTION k)
           else if almstat (alm k i) AND TALM_STA \<noteq> 0 then
             (E_OK, END_CRITICAL_SECTION
                (upd_alm i (\<lambda>c. c\<lparr>almstat := almstat c AND NOT TALM_STA\<rparr>) (timer_delete (AlmTmeb i) k)))
           else (E_OK, END_CRITICAL_SECTION k))"

definition alm_info :: "nat \<Rightarrow> kernel \<Rightarrow> t_ralm" where
  "alm_info i k =
     \<lparr>ralm_exinf = alm_exinf (alm k i),
      ralm_lfttim = (if almstat (alm k i) AND TALM_STA \<noteq> 0 then left_time (tm_time (tmebs k (AlmTmeb i))) k else 0),
      ralm_almstat = almstat (alm k i)\<rparr>"

definition tk_ref_alm_u :: "ID \<Rightarrow> kernel \<Rightarrow> (ER \<times> t_ralm option) \<times> kernel" where
  "tk_ref_alm_u oid k =
     (case CHECK_ALMID oid k of
        Some e \<Rightarrow> ((e, None), k)
      | None \<Rightarrow>
          let i = get_almcb oid
          in (if almhdr (alm k i) = 0 then (E_NOEXS, None) else (E_OK, Some (alm_info i k)),
              END_CRITICAL_SECTION k))"

definition ralm_msec :: "t_ralm \<Rightarrow> t_ralm" where
  "ralm_msec r = r\<lparr>ralm_lfttim := ucast (ucast (to_msec (ralm_lfttim r)) :: UW)\<rparr>"

definition tk_ref_alm :: "ID \<Rightarrow> kernel \<Rightarrow> (ER \<times> t_ralm option) \<times> kernel" where
  "tk_ref_alm oid k = (let ((e, r), k) = tk_ref_alm_u oid k in ((e, map_option ralm_msec r), k))"

definition alarmhandler_getname :: "ID \<Rightarrow> kernel \<Rightarrow> ER \<times> UB list option" where
  "alarmhandler_getname oid k =
     (case CHECK_ALMID oid k of
        Some e \<Rightarrow> (e, None)
      | None \<Rightarrow>
          let i = get_almcb oid
          in if almhdr (alm k i) = 0 then (E_NOEXS, None)
             else if almatr (alm k i) AND TA_DSNAME = 0 then (E_OBJ, None)
             else (E_OK, Some (alm_name (alm k i))))"

definition td_lst_alm :: "int \<Rightarrow> kernel \<Rightarrow> int \<times> ID list" where
  "td_lst_alm nent k =
     id_list (map ID_of (filter (\<lambda>i. almhdr (alm k i) \<noteq> 0) [0..<nat (max_almid k)])) nent"

definition td_ref_alm_u :: "ID \<Rightarrow> kernel \<Rightarrow> ER \<times> t_ralm option" where
  "td_ref_alm_u oid k =
     (case CHECK_ALMID oid k of
        Some e \<Rightarrow> (e, None)
      | None \<Rightarrow>
          let i = get_almcb oid
          in if almhdr (alm k i) = 0 then (E_NOEXS, None) else (E_OK, Some (alm_info i k)))"

definition td_ref_alm :: "ID \<Rightarrow> kernel \<Rightarrow> ER \<times> t_ralm option" where
  "td_ref_alm oid k = (let (e, r) = td_ref_alm_u oid k in (e, map_option ralm_msec r))"

subsection \<open>The callbacks of the timer events\<close>

fun run_callback :: "hooks \<Rightarrow> user_handler \<Rightarrow> callback \<Rightarrow> tmeb_ref \<Rightarrow> kernel \<Rightarrow> kernel option" where
  "run_callback hk uh CB_wait_release_tmout (TskTmeb t) k = wait_release_tmout hk t k"
| "run_callback hk uh CB_call_cychdr (CycTmeb i) k = call_cychdr uh i k"
| "run_callback hk uh CB_call_almhdr (AlmTmeb i) k = call_almhdr uh i k"
| "run_callback hk uh _ _ k = None"

end
