(* ===== verification/Timer_Queue.thy ===== *)
theory Timer_Queue
  imports Release Time_Calls Task_Sync_Inv
begin

text \<open>
  The timer event queue and the timer interrupt. Times wrap around, so an event is early or late by the
  signed distance \<open>due_in\<close> of its time from now; as long as all distances stay below \<open>2 ^ 62\<close> microseconds
  (some 146,000 years) the comparison of \<^verbatim>\<open>ll_cmp\<close> orders events by them. Then the queue is sorted, the
  loop of \<^verbatim>\<open>timer_handler\<close> ends, and it has called every event that is due and no other.
\<close>

subsection \<open>The order of events\<close>

definition due_in :: "kernel \<Rightarrow> tmeb_ref \<Rightarrow> int" where
  "due_in k e = sint (tm_time (tmebs k e) - current_time k)"

definition due :: "kernel \<Rightarrow> tmeb_ref \<Rightarrow> bool" where
  "due k e \<longleftrightarrow> due_in k e \<le> 0"

definition near :: "kernel \<Rightarrow> tmeb_ref \<Rightarrow> bool" where
  "near k e \<longleftrightarrow> \<bar>due_in k e\<bar> < 2 ^ 62"

definition timers_sorted :: "kernel \<Rightarrow> bool" where
  "timers_sorted k \<longleftrightarrow> sorted (map (due_in k) (timer_queue k)) \<and> (\<forall>e \<in> set (timer_queue k). near k e)"

lemma sint_small: "- (2 ^ 63) \<le> x \<Longrightarrow> x < 2 ^ 63 \<Longrightarrow> sint (word_of_int x :: D) = x"
  by (simp add: sint_sbintrunc' signed_take_bit_int_eq_self)

lemma sint_add_small:
  fixes a b :: D
  assumes "- (2 ^ 63) \<le> sint a + sint b" "sint a + sint b < 2 ^ 63"
  shows "sint (a + b) = sint a + sint b"
proof -
  have "a + b = word_of_int (sint a + sint b)" by simp
  from arg_cong [OF this, of sint] show ?thesis unfolding sint_small [OF assms] .
qed

lemma sint_diff_small:
  fixes a b :: D
  assumes "- (2 ^ 63) \<le> sint a - sint b" "sint a - sint b < 2 ^ 63"
  shows "sint (a - b) = sint a - sint b"
proof -
  have "a - b = word_of_int (sint a - sint b)" by simp
  from arg_cong [OF this, of sint] show ?thesis unfolding sint_small [OF assms] .
qed

lemma ll_cmp_now: "0 <s ll_cmp (tm_time (tmebs k e)) (current_time k) \<longleftrightarrow> \<not> due k e"
  by (simp add: due_def due_in_def ll_cmp_def word_sless_alt not_le)

lemma ll_cmp_near:
  assumes "near k a" "near k b"
  shows "ll_cmp (tm_time (tmebs k a)) (tm_time (tmebs k b)) <s 0 \<longleftrightarrow> due_in k a < due_in k b"
proof -
  have "sint ((tm_time (tmebs k a) - current_time k) - (tm_time (tmebs k b) - current_time k)) = due_in k a - due_in k b"
    unfolding due_in_def by (rule sint_diff_small) (use assms in \<open>auto simp: near_def due_in_def\<close>)
  then show ?thesis by (simp add: ll_cmp_def word_sless_alt)
qed

lemma due_in_cong: "tmebs k' e = tmebs k e \<Longrightarrow> current_time k' = current_time k \<Longrightarrow> due_in k' e = due_in k e"
  by (simp add: due_in_def)

lemma timers_sorted_filter:
  assumes "timers_sorted k" "timer_queue k' = filter P (timer_queue k)" "tmebs k' = tmebs k" "current_time k' = current_time k"
  shows "timers_sorted k'"
proof -
  have "due_in k' = due_in k" by (simp add: fun_eq_iff due_in_def assms)
  with assms(1,2) show ?thesis by (auto simp: timers_sorted_def near_def intro: sorted_filter)
qed

lemmas enqueue_tmeb_sel [simp] = objs_eqD [OF enqueue_tmeb_frame(1)]

text \<open>An insertion puts an event behind all that are due no later.\<close>

lemma insert_by_sorted_filter:
  fixes f :: "'a \<Rightarrow> 'b :: linorder"
  assumes "sorted (map f xs)" and gt: "\<And>x. x \<in> set xs \<Longrightarrow> gt x e \<longleftrightarrow> f e < f x"
  shows "insert_by gt e xs = filter (\<lambda>x. f x \<le> f e) xs @ e # filter (\<lambda>x. f e < f x) xs"
  using assms
proof (induction xs)
  case (Cons x xs)
  show ?case
  proof (cases "f e < f x")
    case True
    with Cons.prems(1) have "\<forall>y \<in> set (x # xs). f e < f y" by auto
    then have "filter (\<lambda>x. f x \<le> f e) (x # xs) = []" "filter (\<lambda>x. f e < f x) (x # xs) = x # xs"
      by (simp_all add: filter_empty_conv filter_id_conv not_le)
    with True Cons.prems(2) show ?thesis by simp
  qed (use Cons in auto)
qed simp

lemma enqueue_tmeb_queue:
  assumes "timers_sorted k" "near k e"
  shows "timer_queue (enqueue_tmeb e k) =
    filter (\<lambda>q. due_in k q \<le> due_in k e) (timer_queue k) @ e # filter (\<lambda>q. due_in k e < due_in k q) (timer_queue k)"
  unfolding enqueue_tmeb_def
  by (simp, rule insert_by_sorted_filter) (use assms in \<open>auto simp: timers_sorted_def ll_cmp_near\<close>)

lemma timers_sorted_enqueue:
  assumes "timers_sorted k" "near k e"
  shows "timers_sorted (enqueue_tmeb e k)"
proof -
  have d: "due_in (enqueue_tmeb e k) = due_in k" by (simp add: fun_eq_iff due_in_def)
  have n: "near (enqueue_tmeb e k) = near k" by (simp add: fun_eq_iff near_def d)
  have "sorted (map (due_in k) (timer_queue (enqueue_tmeb e k)))"
    unfolding enqueue_tmeb_def
    by (simp, rule sorted_wrt_insert_by) (use assms in \<open>auto simp: timers_sorted_def ll_cmp_near\<close>)
  then show ?thesis using assms enqueue_tmeb_queue [OF assms] by (auto simp: timers_sorted_def d n)
qed

lemma timers_sorted_upd_tmeb:
  assumes "timers_sorted k" "e \<notin> set (timer_queue k)"
  shows "timers_sorted (upd_tmeb e f k)"
proof -
  have "due_in (upd_tmeb e f k) q = due_in k q" if "q \<in> set (timer_queue k)" for q
    using that assms(2) by (auto intro: due_in_cong)
  with assms(1) show ?thesis by (auto simp: timers_sorted_def near_def cong: map_cong)
qed

lemma timer_insert_abs_queue:
  assumes "timers_sorted k" "e \<notin> set (timer_queue k)" "\<bar>sint (tm - current_time k)\<bar> < 2 ^ 62"
  shows "timers_sorted (timer_insert_abs e tm cb k)"
    "timer_queue (timer_insert_abs e tm cb k) =
       filter (\<lambda>q. due_in k q \<le> sint (tm - current_time k)) (timer_queue k) @
       e # filter (\<lambda>q. sint (tm - current_time k) < due_in k q) (timer_queue k)"
    "tmebs (timer_insert_abs e tm cb k) = (tmebs k)(e := (tmebs k e)\<lparr>tm_callback := cb, tm_time := tm\<rparr>)"
    "current_time (timer_insert_abs e tm cb k) = current_time k"
    "objs (timer_insert_abs e tm cb k) = objs k" "tcb_table (timer_insert_abs e tm cb k) = tcb_table k"
    "que (timer_insert_abs e tm cb k) = que k"
proof -
  let ?u = "upd_tmeb e (\<lambda>e. e\<lparr>tm_callback := cb, tm_time := tm\<rparr>) k"
  have d: "due_in ?u e = sint (tm - current_time k)" by (simp add: due_in_def)
  then have n: "near ?u e" using assms(3) by (simp add: near_def)
  have s: "timers_sorted ?u" by (rule timers_sorted_upd_tmeb [OF assms(1,2)])
  then show "timers_sorted (timer_insert_abs e tm cb k)"
    unfolding timer_insert_abs_def by (rule timers_sorted_enqueue [OF _ n])
  have q: "due_in ?u q = due_in k q" if "q \<in> set (timer_queue k)" for q
    using that assms(2) by (auto intro: due_in_cong)
  show "timer_queue (timer_insert_abs e tm cb k) =
       filter (\<lambda>q. due_in k q \<le> sint (tm - current_time k)) (timer_queue k) @
       e # filter (\<lambda>q. sint (tm - current_time k) < due_in k q) (timer_queue k)"
    unfolding timer_insert_abs_def enqueue_tmeb_queue [OF s n] d
    by (simp add: q cong: filter_cong)
qed (simp_all add: timer_insert_abs_def)

lemma upd_tmeb_twice: "upd_tmeb e f (upd_tmeb e g k) = upd_tmeb e (\<lambda>c. f (g c)) k"
  by (simp add: upd_tmeb_def)

lemma timer_insert_is_abs:
  "tmout \<noteq> TMO_FEVR \<Longrightarrow> timer_insert e tmout cb k = timer_insert_abs e (current_time k + tmout + adjust_time k) cb k"
  by (simp add: timer_insert_def timer_insert_abs_def Let_def upd_tmeb_twice) (simp add: upd_tmeb_def adjust_time_def)

lemma timer_insert_reltim_is_abs:
  "timer_insert_reltim e tmout cb k = timer_insert_abs e (current_time k + tmout + adjust_time k) cb k"
  by (simp add: timer_insert_reltim_def timer_insert_abs_def Let_def upd_tmeb_twice) (simp add: upd_tmeb_def adjust_time_def)

lemma sint_adjust_time: "sint (adjust_time k) = uint (hw_timer_usec k)"
proof -
  have u: "uint (hw_timer_usec k) < 2 ^ 32" using uint_lt2p [of "hw_timer_usec k"] by simp
  then have "uint (ucast (hw_timer_usec k) :: D) = uint (hw_timer_usec k)"
    by (simp add: unsigned_ucast_eq take_bit_int_eq_self)
  moreover have "signed_take_bit 63 (uint (hw_timer_usec k)) = uint (hw_timer_usec k)"
    by (rule signed_take_bit_int_eq_self) (rule order_trans [OF _ uint_ge_0], use u in simp_all)
  ultimately show ?thesis by (simp add: adjust_time_def sint_uint)
qed

lemma sint_timeout:
  assumes "0 \<le> sint tmout" "sint tmout + uint (hw_timer_usec k) < 2 ^ 62"
  shows "sint (current_time k + tmout + adjust_time k - current_time k) = sint tmout + uint (hw_timer_usec k)"
proof -
  have "0 \<le> sint tmout + uint (hw_timer_usec k)" using assms(1) by simp
  then have "sint (tmout + adjust_time k) = sint tmout + uint (hw_timer_usec k)"
    unfolding sint_adjust_time [symmetric]
    by (intro sint_add_small) (use assms(2) in \<open>simp_all add: sint_adjust_time\<close>)
  then show ?thesis by (simp add: algebra_simps)
qed

text \<open>
  C30: A timeout joins the queue behind every event that is due no later and before all that are due later:
  it is due after the time asked for plus what has passed since the last tick, never before, and nothing
  else moves.
\<close>

theorem timer_insert_order:
  assumes "timers_sorted k" "e \<notin> set (timer_queue k)"
    and "0 \<le> sint tmout" "sint tmout + uint (hw_timer_usec k) < 2 ^ 62"
  shows "let k' = timer_insert e tmout cb k; d = sint tmout + uint (hw_timer_usec k)
    in timers_sorted k' \<and> due_in k' e = d \<and> (\<forall>q. q \<noteq> e \<longrightarrow> due_in k' q = due_in k q) \<and>
       timer_queue k' = filter (\<lambda>q. due_in k q \<le> d) (timer_queue k) @ e # filter (\<lambda>q. d < due_in k q) (timer_queue k) \<and>
       timer_insert_reltim e tmout cb k = k' \<and> timer_queue (timer_delete e k') = timer_queue k"
proof -
  have "tmout \<noteq> TMO_FEVR" using assms(3) by auto
  note i = timer_insert_is_abs [OF this] and d = sint_timeout [OF assms(3,4)]
  have "\<bar>sint (current_time k + tmout + adjust_time k - current_time k)\<bar> < 2 ^ 62"
    unfolding d using assms(3,4) by simp
  note q = timer_insert_abs_queue [OF assms(1,2) this, unfolded d]
  have "filter (\<lambda>q. due_in k q \<le> x) xs @ filter (\<lambda>q. x < due_in k q) xs = xs" if "sorted (map (due_in k) xs)" for xs x
    using that
  proof (induction xs)
    case (Cons a xs)
    show ?case
    proof (cases "due_in k a \<le> x")
      case False
      then have "filter (\<lambda>q. due_in k q \<le> x) xs = []" "filter (\<lambda>q. x < due_in k q) xs = xs"
        using Cons.prems by (auto simp: filter_empty_conv filter_id_conv)
      with False show ?thesis by simp
    qed (use Cons in simp)
  qed simp
  with assms(1,2) show ?thesis
    unfolding Let_def i timer_insert_reltim_is_abs
    using q(1-4) d by (auto simp: due_in_def timers_sorted_def remove1_append)
qed

lemma div_word_small:
  fixes a b :: D
  assumes "0 \<le> sint a" "0 \<le> sint b"
  shows "a div b = word_of_int (sint a div sint b)"
proof -
  have u: "uint x = sint x" if "0 \<le> sint x" for x :: D
    using that sint_lt [of x] by (simp add: uint_sint take_bit_int_eq_self)
  show ?thesis by (simp add: word_div_def u assms)
qed

lemma cyc_next:
  assumes "0 < sint (cyctim (cyc k i))" "sint (cyctim (cyc k i)) < 2 ^ 61"
    and "0 \<le> sint (current_time k - cyc_time i k)" "sint (current_time k - cyc_time i k) < 2 ^ 62"
  defines "c \<equiv> sint (cyctim (cyc k i))" and "late \<equiv> sint (current_time k - cyc_time i k)"
  shows "cyc_next_time i k = cyc_time i k + word_of_int ((late div c + 1) * c)"
    and "sint (cyc_next_time i k - current_time k) = c - late mod c"
proof -
  note c = assms(1,2) [folded c_def] and l = assms(3,4) [folded late_def]
  have wc: "cyctim (cyc k i) = word_of_int c" by (simp add: c_def)
  have now: "current_time k = cyc_time i k + word_of_int late" by (simp add: late_def)
  have wlate: "current_time k - cyc_time i k = word_of_int late" by (simp add: late_def)
  have quot: "(current_time k - cyc_time i k) div cyctim (cyc k i) = word_of_int (late div c)"
    unfolding c_def late_def by (rule div_word_small) (use assms in simp_all)
  have m: "0 \<le> late mod c" "late mod c < c" using c(1) by simp_all
  have late: "late = late div c * c + late mod c" by simp
  have "ll_cmp (cyc_time i k + cyctim (cyc k i)) (current_time k) \<le>s 0 \<longleftrightarrow> sint (word_of_int (c - late) :: D) \<le> 0"
    by (simp add: ll_cmp_def word_sle_eq wc now of_int_diff)
  also have "sint (word_of_int (c - late) :: D) = c - late" by (rule sint_small) (use c l in simp_all)
  finally have branch: "ll_cmp (cyc_time i k + cyctim (cyc k i)) (current_time k) \<le>s 0 \<longleftrightarrow> c \<le> late" by simp
  have nx: "cyc_next_time i k = cyc_time i k + word_of_int ((late div c + 1) * c)"
  proof (cases "c \<le> late")
    case True
    then show ?thesis by (simp add: cyc_next_time_def Let_def branch quot) (simp add: wc of_int_mult of_int_add)
  next
    case False
    then have "late div c = 0" using l by simp
    with False show ?thesis by (simp add: cyc_next_time_def Let_def branch) (simp add: wc)
  qed
  have "cyc_next_time i k - current_time k = word_of_int ((late div c + 1) * c - late)"
    unfolding nx now by (simp add: of_int_diff)
  also have "(late div c + 1) * c - late = c - late mod c" using late by (simp add: algebra_simps)
  finally have "sint (cyc_next_time i k - current_time k) = sint (word_of_int (c - late mod c) :: D)" by simp
  also have "\<dots> = c - late mod c" by (rule sint_small) (use c m in simp_all)
  finally show "sint (cyc_next_time i k - current_time k) = c - late mod c" .
  show "cyc_next_time i k = cyc_time i k + word_of_int ((late div c + 1) * c)" by (rule nx)
qed

lemma cyc_next_bounds:
  assumes "0 < sint (cyctim (cyc k i))" "sint (cyctim (cyc k i)) < 2 ^ 61"
    and "0 \<le> sint (current_time k - cyc_time i k)" "sint (current_time k - cyc_time i k) < 2 ^ 62"
  shows "0 < sint (cyc_next_time i k - current_time k)"
    and "sint (cyc_next_time i k - current_time k) \<le> sint (cyctim (cyc k i))"
  using pos_mod_bound [OF assms(1)] pos_mod_sign [OF assms(1)] unfolding cyc_next(2) [OF assms] by auto

text \<open>
  However late a cyclic handler is, its next time is on the grid of its start time and its period, it is
  the first such time after now, and it is never more than a period away: no drift, no backlog of runs.
\<close>

theorem cyc_next_time_phase:
  assumes "0 < sint (cyctim (cyc k i))" "sint (cyctim (cyc k i)) < 2 ^ 61"
    and "0 \<le> sint (current_time k - cyc_time i k)" "sint (current_time k - cyc_time i k) < 2 ^ 62"
  shows "let c = sint (cyctim (cyc k i)); late = sint (current_time k - cyc_time i k)
    in cyc_next_time i k = cyc_time i k + word_of_int ((late div c + 1) * c) \<and>
       sint (cyc_next_time i k - current_time k) = c - late mod c \<and>
       0 < sint (cyc_next_time i k - current_time k) \<and> sint (cyc_next_time i k - current_time k) \<le> c"
  using cyc_next [OF assms] cyc_next_bounds [OF assms] by (simp add: Let_def)

subsection \<open>The loop of the interrupt handler\<close>

text \<open>
  What the loop relies on: a callback for the first event, once that is due, returns, keeps the invariant
  and the clock, and leaves no event due that was not due before. \<open>R\<close> is whatever the callbacks promise
  in addition.
\<close>

locale timer_callbacks =
  fixes run :: "callback \<Rightarrow> tmeb_ref \<Rightarrow> kernel \<Rightarrow> kernel option"
    and I :: "kernel \<Rightarrow> bool" and R :: "kernel \<Rightarrow> kernel \<Rightarrow> bool"
  assumes R_refl: "I k \<Longrightarrow> R k k"
    and R_trans: "R k k' \<Longrightarrow> R k' k'' \<Longrightarrow> R k k''"
    and queue_ok: "I k \<Longrightarrow> distinct (timer_queue k) \<and> timers_sorted k"
    and fires: "I k \<Longrightarrow> timer_queue k = e # q \<Longrightarrow> due k e \<Longrightarrow>
      \<exists>k'. run (tm_callback (tmebs k e)) e (timer_delete e k) = Some k' \<and> I k' \<and> R k k' \<and>
        current_time k' = current_time k \<and>
        (\<forall>e'. e' \<in> set (timer_queue k') \<and> due k' e' \<longrightarrow> e' \<in> set q \<and> due k e')"
begin

text \<open>Enough fuel: one round for every event that is due, and one to see that no other is.\<close>

lemma events_run:
  assumes "I k" "length (filter (due k) (timer_queue k)) < n"
  obtains k' where "timer_events n run k = Some k'" "I k'" "R k k'" "current_time k' = current_time k"
    "\<And>e. e \<in> set (timer_queue k') \<Longrightarrow> \<not> due k' e"
proof -
  have "\<exists>k'. timer_events n run k = Some k' \<and> I k' \<and> R k k' \<and> current_time k' = current_time k \<and>
      (\<forall>e \<in> set (timer_queue k'). \<not> due k' e)"
    using assms
  proof (induction n arbitrary: k)
    case (Suc n)
    show ?case
    proof (cases "timer_queue k")
      case Nil
      then show ?thesis using Suc.prems(1) R_refl by simp
    next
      case (Cons e q)
      note so = queue_ok [OF Suc.prems(1)]
      show ?thesis
      proof (cases "due k e")
        case False
        have "due_in k e \<le> due_in k e'" if "e' \<in> set q" for e' using so that Cons by (auto simp: timers_sorted_def)
        with False have "\<not> due k e'" if "e' \<in> set q" for e' using that by (force simp: due_def)
        then show ?thesis using False Cons Suc.prems(1) R_refl by (simp add: ll_cmp_now)
      next
        case True
        obtain k1 where k1: "run (tm_callback (tmebs k e)) e (timer_delete e k) = Some k1" "I k1" "R k k1"
            "current_time k1 = current_time k"
            "\<And>e'. e' \<in> set (timer_queue k1) \<Longrightarrow> due k1 e' \<Longrightarrow> e' \<in> set q \<and> due k e'"
          using fires [OF Suc.prems(1) Cons True] by blast
        have "length (filter (due k1) (timer_queue k1)) = card (set (filter (due k1) (timer_queue k1)))"
          using queue_ok [OF k1(2)] by (simp add: distinct_card del: set_filter)
        also have "\<dots> \<le> card (set (filter (due k) q))" by (rule card_mono) (use k1(5) in auto)
        also have "\<dots> \<le> length (filter (due k) q)" by (rule card_length)
        also have "\<dots> < n" using Suc.prems(2) Cons True by simp
        finally obtain k' where "timer_events n run k1 = Some k'" "I k'" "R k1 k'"
            "current_time k' = current_time k1" "\<forall>e \<in> set (timer_queue k'). \<not> due k' e"
          using Suc.IH [OF k1(2)] by blast
        with True Cons k1 R_trans [OF k1(3)] show ?thesis by (simp add: ll_cmp_now)
      qed
    qed
  qed simp
  with that show thesis by blast
qed

end

subsection \<open>The system between two ticks\<close>

text \<open>
  The events of cyclic and alarm handlers carry their own callbacks, and a cycle is positive and no longer
  than \<open>2 ^ 61\<close> microseconds.
\<close>

definition handlers_ok :: "kernel \<Rightarrow> bool" where
  "handlers_ok k \<longleftrightarrow>
     (\<forall>i. (CycTmeb i \<in> set (timer_queue k) \<longrightarrow> tm_callback (tmebs k (CycTmeb i)) = CB_call_cychdr \<and>
             0 < sint (cyctim (cyc k i)) \<and> sint (cyctim (cyc k i)) < 2 ^ 61) \<and>
          (AlmTmeb i \<in> set (timer_queue k) \<longrightarrow> tm_callback (tmebs k (AlmTmeb i)) = CB_call_almhdr))"

definition timers_inv :: "kernel \<Rightarrow> bool" where
  "timers_inv k \<longleftrightarrow> sys_ok k \<and> timers_sorted k \<and> handlers_ok k"

lemma timers_invD:
  assumes "timers_inv k"
  shows "kinv {} k" "timers_sorted k" "handlers_ok k" "mtx_good {} k" "sys_ok k" "distinct (timer_queue k)"
  using assms kinvD(3) [of "{}" k] by (auto simp: timers_inv_def sys_ok_def timers_ok_def)

text \<open>
  What a user handler may do: anything that keeps the invariant and returns, as long as the clock stands,
  it registers no event that is due already, and no task begins to wait (a handler runs in a
  task-independent part, where no call waits) or loses its timeout while it waits.
\<close>

definition waits_end :: "kernel \<Rightarrow> kernel \<Rightarrow> bool" where
  "waits_end k k' \<longleftrightarrow> NUM_TSKID k' = NUM_TSKID k \<and> TIMER_PERIOD k' = TIMER_PERIOD k \<and>
     (\<forall>t < NUM_TSKID k. ts_wait (state (tcb k' t)) \<longrightarrow> ts_wait (state (tcb k t)) \<and>
        (TskTmeb t \<in> set (timer_queue k) \<longrightarrow>
           TskTmeb t \<in> set (timer_queue k') \<and> tmebs k' (TskTmeb t) = tmebs k (TskTmeb t)))"

definition no_new_due :: "kernel \<Rightarrow> kernel \<Rightarrow> bool" where
  "no_new_due k k' \<longleftrightarrow> current_time k' = current_time k \<and>
     (\<forall>e. e \<in> set (timer_queue k') \<and> due k' e \<longrightarrow> e \<in> set (timer_queue k) \<and> due k e)"

definition handler_ok :: "user_handler \<Rightarrow> bool" where
  "handler_ok uh \<longleftrightarrow>
     (\<forall>ex adr k. timers_inv k \<longrightarrow>
        (\<exists>k'. uh ex adr k = Some k' \<and> timers_inv k' \<and> waits_end k k' \<and> no_new_due k k'))"

lemma waits_end_refl: "waits_end k k"
  by (simp add: waits_end_def)

lemma waits_end_trans: "waits_end k k' \<Longrightarrow> waits_end k' k'' \<Longrightarrow> waits_end k k''"
  by (simp add: waits_end_def)

lemma no_new_due_trans: "no_new_due k k' \<Longrightarrow> no_new_due k' k'' \<Longrightarrow> no_new_due k k''"
  by (simp add: no_new_due_def)

text \<open>Taking an event off the queue, and registering one of a handler.\<close>

lemma sys_ok_timers:
  assumes "sys_ok k" "kinv {} k'" "objs k' = objs k" "que k' = que k" "tcb_table k' = tcb_table k"
  shows "sys_ok k'"
  by (rule sys_ok_cong [OF assms(1,2) other_objs_objs [OF assms(3)]])
     (simp_all add: objs_eqD [OF assms(3)] assms(4,5) same_tcb_def)

lemma timers_inv_delete:
  assumes "timers_inv k"
  shows "timers_inv (timer_delete e k)"
proof -
  note i = timers_invD [OF assms]
  have s: "sys_ok (timer_delete e k)"
    by (rule sys_ok_timers [OF i(5) kinv_timer_delete [OF i(1)]]) simp_all
  have q: "timer_queue (timer_delete e k) = filter (\<lambda>x. x \<noteq> e) (timer_queue k)"
    by (simp add: remove1_filter [OF i(6)])
  have "timers_sorted (timer_delete e k)" by (rule timers_sorted_filter [OF i(2) q]) simp_all
  moreover have "handlers_ok (timer_delete e k)"
    using i(3) i(6) by (simp add: handlers_ok_def)
  ultimately show ?thesis using s by (simp add: timers_inv_def)
qed

lemma timers_inv_cyc_insert:
  assumes "timers_inv k" "CycTmeb i \<notin> set (timer_queue k)" "\<bar>sint (tm - current_time k)\<bar> < 2 ^ 62"
    and "0 < sint (cyctim (cyc k i))" "sint (cyctim (cyc k i)) < 2 ^ 61"
  shows "timers_inv (cyc_timer_insert i tm k)"
proof -
  note i = timers_invD [OF assms(1)]
  note ins = timer_insert_abs_queue [OF i(2) assms(2,3), of CB_call_cychdr]
  have "kinv {} (timer_insert_abs (CycTmeb i) tm CB_call_cychdr k)"
    unfolding timer_insert_abs_def
    by (intro kinv_enqueue_tmeb kinv_upd_tmeb_notin i(1) assms(2)) (simp_all add: assms(2))
  from sys_ok_timers [OF i(5) this ins(5,7,6)]
  have s: "sys_ok (cyc_timer_insert i tm k)" by (simp add: cyc_timer_insert_def)
  have "handlers_ok (cyc_timer_insert i tm k)"
    using i(3) assms(4,5) ins(2,3) by (auto simp: handlers_ok_def cyc_timer_insert_def objs_eqD [OF ins(5)])
  with s ins(1) show ?thesis by (simp add: timers_inv_def cyc_timer_insert_def)
qed

text \<open>The three callbacks.\<close>

lemma timeout_fires:
  assumes inv: "timers_inv k" and q: "timer_queue k = TskTmeb t # q" and n: "NUM_TSKID k < n"
  obtains k' where "run_callback (hooks_n (Suc n)) uh (tm_callback (tmebs k (TskTmeb t))) (TskTmeb t)
      (timer_delete (TskTmeb t) k) = Some k'" "timers_inv k'" "\<not> ts_wait (state (tcb k' t))"
    "fixed_objs k' = fixed_objs k" "tmebs k' = tmebs k"
    "timer_queue k' = filter (\<lambda>ev. \<forall>u. ev = TskTmeb u \<longrightarrow> ts_wait (state (tcb k' u))) q"
    "\<forall>u. ts_wait (state (tcb k' u)) \<longrightarrow> ts_wait (state (tcb k u))"
    "\<forall>u. u \<noteq> t \<longrightarrow> \<not> wakeable u k \<longrightarrow> state (tcb k' u) = state (tcb k u)"
    "\<forall>u. wakeable u k' \<longrightarrow> wakeable u k"
proof -
  note goal = that
  note i = timers_invD [OF inv]
  obtain M where M: "objects_ok M k" using i(5) by (auto simp: sys_ok_def)
  have t: "t < NUM_TSKID k" "ts_wait (state (tcb k t))" "tm_callback (tmebs k (TskTmeb t)) = CB_wait_release_tmout"
    using kinvD(3) [OF i(1)] q by (auto simp: timers_ok_def)
  obtain k' where k': "call_rel_wai_hook (hooks_n (Suc n)) t (wait_release t k) = Some k'" "let_go M t k k'"
    using rel_hook_let_go [OF i(1) M i(4) t(1,2) n] by blast
  have pc: "pri_changed (wait_release t k) k'" and ok: "objects_ok M k'" "mtx_good {} k'"
    using k'(2) by (simp_all add: let_go_def)
  note p = pri_changedD [OF pc] and r = releasedD [OF released_wait_release [OF i(1) t(1,2)]]
  have fo: "fixed_objs k' = fixed_objs k" using p(2) fixed_objs_objs [OF wait_release_frame(1)] by simp
  have tq: "timer_queue (wait_release t k) = q" by (simp add: q)
  have wt: "\<not> ts_wait (state (tcb (wait_release t k) t))" using r(8) [of t] t(2) by (cases "state (tcb k t)") auto
  have st: "state (tcb (wait_release t k) u) = state (tcb k u)" if "u \<noteq> t" for u using r(8) [of u] that by simp
  have st': "state (tcb k' u) = state (tcb (wait_release t k) u) \<or> \<not> ts_wait (state (tcb k' u))" for u
    using p(4) [of u] by auto
  have nw: "\<not> ts_wait (state (tcb k' t))" using st' [of t] wt by auto
  have w: "ts_wait (state (tcb k u))" if "ts_wait (state (tcb k' u))" for u
    using st' [of u] that st [of u] nw by (cases "u = t") auto
  have tm: "tmebs k' = tmebs k" using p(8) r(12) by simp
  have tq': "timer_queue k' = filter (\<lambda>ev. \<forall>u. ev = TskTmeb u \<longrightarrow> ts_wait (state (tcb k' u))) q"
    using p(9) tq by simp
  note wk = released_wakeable [OF released_wait_release [OF i(1) t(1,2)]]
  have "timer_queue k' = filter (\<lambda>ev. ev \<noteq> TskTmeb t \<and> (\<forall>u. ev = TskTmeb u \<longrightarrow> ts_wait (state (tcb k' u)))) (timer_queue k)"
    using nw by (simp add: tq' q) (auto intro!: filter_cong)
  from timers_sorted_filter [OF i(2) this tm fixed_objs_eqD(21) [OF fo]] have so: "timers_sorted k'" .
  have "cyccb_table k' = cyccb_table k"
    using arg_cong [OF fo, of cyccb_table] by (simp add: fixed_objs_def objs_def)
  then have ho: "handlers_ok k'" using i(3) by (auto simp: handlers_ok_def tq' tm q)
  show thesis
  proof (rule goal [OF _ _ nw fo tm tq'])
    show "\<forall>u. ts_wait (state (tcb k' u)) \<longrightarrow> ts_wait (state (tcb k u))" using w by blast
    show "run_callback (hooks_n (Suc n)) uh (tm_callback (tmebs k (TskTmeb t))) (TskTmeb t)
        (timer_delete (TskTmeb t) k) = Some k'"
      using k'(1) by (simp add: t(3) wait_release_tmout_def wait_release_def del: hooks_n.simps)
    show "timers_inv k'" using p(1) ok so ho by (auto simp: timers_inv_def sys_ok_def)
    show "\<forall>u. u \<noteq> t \<longrightarrow> \<not> wakeable u k \<longrightarrow> state (tcb k' u) = state (tcb k u)"
      using p(4) st wk by metis
    show "\<forall>u. wakeable u k' \<longrightarrow> wakeable u k" using wakeable_sub [OF pc] wk by blast
  qed
qed

lemma handler_okD:
  assumes "handler_ok uh" "timers_inv k"
  obtains k' where "uh ex adr k = Some k'" "timers_inv k'" "waits_end k k'" "no_new_due k k'"
  using assms unfolding handler_ok_def by blast

lemma cyclic_fires:
  assumes inv: "timers_inv k" and q: "timer_queue k = CycTmeb i # q" and d: "due k (CycTmeb i)" and uh: "handler_ok uh"
  obtains k' where "run_callback hk uh (tm_callback (tmebs k (CycTmeb i))) (CycTmeb i)
      (timer_delete (CycTmeb i) k) = Some k'" "timers_inv k'" "waits_end k k'" "current_time k' = current_time k"
    "\<And>e. e \<in> set (timer_queue k') \<Longrightarrow> due k' e \<Longrightarrow> e \<in> set q \<and> due k e"
proof -
  note goal = that
  note iv = timers_invD [OF inv]
  let ?k = "timer_delete (CycTmeb i) k" and ?tm = "cyc_next_time i (timer_delete (CycTmeb i) k)"
  have h: "tm_callback (tmebs k (CycTmeb i)) = CB_call_cychdr"
      "0 < sint (cyctim (cyc k i))" "sint (cyctim (cyc k i)) < 2 ^ 61"
    using iv(3) q by (auto simp: handlers_ok_def)
  have near: "near k (CycTmeb i)" using iv(2) q by (simp add: timers_sorted_def)
  have dk: "due_in k (CycTmeb i) = - sint (current_time k - cyc_time i k)"
  proof -
    have "current_time k - cyc_time i k = word_of_int (- due_in k (CycTmeb i))"
      by (simp add: due_in_def cyc_time_def)
    moreover have "sint (word_of_int (- due_in k (CycTmeb i)) :: D) = - due_in k (CycTmeb i)"
      by (rule sint_small) (use near in \<open>auto simp: near_def\<close>)
    ultimately show ?thesis by simp
  qed
  have l: "0 \<le> sint (current_time ?k - cyc_time i ?k)" "sint (current_time ?k - cyc_time i ?k) < 2 ^ 62"
    using d near dk by (auto simp: due_def near_def cyc_time_def)
  have c: "0 < sint (cyctim (cyc ?k i))" "sint (cyctim (cyc ?k i)) < 2 ^ 61" using h by simp_all
  have nx: "0 < sint (?tm - current_time k)" "sint (?tm - current_time k) < 2 ^ 62"
    using cyc_next_bounds [OF c l] c by simp_all
  let ?k2 = "cyc_timer_insert i ?tm ?k"
  have di: "timers_inv ?k" by (rule timers_inv_delete [OF inv])
  have q1: "timer_queue ?k = q" by (simp add: q)
  have nq: "CycTmeb i \<notin> set (timer_queue ?k)" using iv(6) by (simp add: q)
  have ab: "\<bar>sint (?tm - current_time ?k)\<bar> < 2 ^ 62" using nx by simp
  have inv2: "timers_inv ?k2" by (rule timers_inv_cyc_insert [OF di nq ab c])
  note ins = timer_insert_abs_queue [OF timers_invD(2) [OF di] nq ab, of CB_call_cychdr, folded cyc_timer_insert_def]
  have due2: "e \<in> set q \<and> due k e" if "e \<in> set (timer_queue ?k2)" "due ?k2 e" for e
  proof (cases "e = CycTmeb i")
    case True
    then have "due_in ?k2 e = sint (?tm - current_time k)" using ins(3,4) by (simp add: due_in_def)
    with that(2) nx show ?thesis by (simp add: due_def)
  next
    case False
    then have "due_in ?k2 e = due_in k e" using ins(3,4) by (simp add: due_in_def)
    with that False ins(2) q1 show ?thesis by (auto simp: due_def)
  qed
  have w2: "waits_end k ?k2"
    using ins(2,3,6) q1 q by (auto simp: waits_end_def objs_eqD [OF ins(5)])
  obtain k' where k': "uh (cyc_exinf (cyc ?k2 i)) (cychdr (cyc ?k2 i)) ?k2 = Some k'" "timers_inv k'"
      "waits_end ?k2 k'" "no_new_due ?k2 k'"
    using handler_okD [OF uh inv2] by blast
  show thesis
  proof (rule goal [OF _ k'(2) waits_end_trans [OF w2 k'(3)]])
    show "run_callback hk uh (tm_callback (tmebs k (CycTmeb i))) (CycTmeb i) ?k = Some k'"
      using k'(1) by (simp add: h(1) call_cychdr_def)
    show "current_time k' = current_time k" using k'(4) ins(4) by (simp add: no_new_due_def)
    show "e \<in> set q \<and> due k e" if "e \<in> set (timer_queue k')" "due k' e" for e
      using k'(4) that due2 by (simp add: no_new_due_def)
  qed
qed

lemma alarm_fires:
  assumes inv: "timers_inv k" and q: "timer_queue k = AlmTmeb i # q" and uh: "handler_ok uh"
  obtains k' where "run_callback hk uh (tm_callback (tmebs k (AlmTmeb i))) (AlmTmeb i)
      (timer_delete (AlmTmeb i) k) = Some k'" "timers_inv k'" "waits_end k k'" "current_time k' = current_time k"
    "\<And>e. e \<in> set (timer_queue k') \<Longrightarrow> due k' e \<Longrightarrow> e \<in> set q \<and> due k e"
proof -
  note goal = that
  note iv = timers_invD [OF inv]
  let ?k = "timer_delete (AlmTmeb i) k"
  define k2 where "k2 = upd_alm i (\<lambda>c. c\<lparr>almstat := almstat c AND NOT 1\<rparr>) ?k"
  have h: "tm_callback (tmebs k (AlmTmeb i)) = CB_call_almhdr" using iv(3) q by (auto simp: handlers_ok_def)
  have di: "timers_inv ?k" by (rule timers_inv_delete [OF inv])
  have f: "tcb_table k2 = tcb_table k" "que k2 = que k" "timer_queue k2 = q" "tmebs k2 = tmebs k"
      "current_time k2 = current_time k" "NUM_TSKID k2 = NUM_TSKID k" "TIMER_PERIOD k2 = TIMER_PERIOD k"
      "cyccb_table k2 = cyccb_table k"
    by (simp_all add: k2_def upd_alm_def NUM_TSKID_def q)
  have kv: "kinv {} k2"
    by (rule kinv_objs_cong [OF timers_invD(1) [OF di]]) (simp_all add: k2_def upd_alm_def NUM_TSKID_def)
  have "sys_ok k2"
    by (rule sys_ok_cong [OF timers_invD(5) [OF di] kv])
       (simp_all add: k2_def upd_alm_def other_objs_def same_tcb_def NUM_TSKID_def)
  moreover have "timers_sorted k2"
    by (rule timers_sorted_filter [OF timers_invD(2) [OF di], where P = "\<lambda>_. True"]) (simp_all add: k2_def upd_alm_def)
  moreover have "handlers_ok k2"
    using timers_invD(3) [OF di] by (simp add: handlers_ok_def k2_def upd_alm_def)
  ultimately have inv2: "timers_inv k2" by (simp add: timers_inv_def)
  obtain k' where k': "uh (alm_exinf (alm k2 i)) (almhdr (alm k2 i)) k2 = Some k'" "timers_inv k'"
      "waits_end k2 k'" "no_new_due k2 k'"
    using handler_okD [OF uh inv2] by blast
  have w2: "waits_end k k2" using q by (auto simp: waits_end_def f)
  have due2: "due k2 = due k" by (simp add: fun_eq_iff due_def due_in_def f)
  show thesis
  proof (rule goal [OF _ k'(2) waits_end_trans [OF w2 k'(3)]])
    show "run_callback hk uh (tm_callback (tmebs k (AlmTmeb i))) (AlmTmeb i) ?k = Some k'"
    proof -
      have "call_almhdr uh i ?k = uh (alm_exinf (alm k2 i)) (almhdr (alm k2 i)) k2"
        by (simp add: call_almhdr_def k2_def Let_def)
      with k'(1) h show ?thesis by simp
    qed
    show "current_time k' = current_time k" using k'(4) f by (simp add: no_new_due_def)
    show "e \<in> set q \<and> due k e" if "e \<in> set (timer_queue k')" "due k' e" for e
      using k'(4) that due2 f by (simp add: no_new_due_def)
  qed
qed

subsection \<open>The callbacks of the kernel\<close>

definition fire_inv :: "nat \<Rightarrow> user_handler \<Rightarrow> kernel \<Rightarrow> bool" where
  "fire_inv n uh k \<longleftrightarrow> timers_inv k \<and> handler_ok uh \<and> NUM_TSKID k < n"

interpretation tc: timer_callbacks "run_callback (hooks_n (Suc n)) uh" "fire_inv n uh" waits_end for n uh
proof
  show "fire_inv n uh k \<Longrightarrow> distinct (timer_queue k) \<and> timers_sorted k" for k
    using timers_invD by (simp add: fire_inv_def)
  show "\<exists>k'. run_callback (hooks_n (Suc n)) uh (tm_callback (tmebs k e)) e (timer_delete e k) = Some k' \<and>
      fire_inv n uh k' \<and> waits_end k k' \<and> current_time k' = current_time k \<and>
      (\<forall>e'. e' \<in> set (timer_queue k') \<and> due k' e' \<longrightarrow> e' \<in> set q \<and> due k e')"
    if inv: "fire_inv n uh k" and q: "timer_queue k = e # q" and d: "due k e" for k e q
  proof -
    have i: "timers_inv k" "handler_ok uh" "NUM_TSKID k < n" using inv by (simp_all add: fire_inv_def)
    have fi: "fire_inv n uh k'" if "timers_inv k'" "waits_end k k'" for k'
      using that i by (simp add: fire_inv_def waits_end_def)
    show ?thesis
    proof (cases e)
      case (TskTmeb t)
      obtain k' where k': "run_callback (hooks_n (Suc n)) uh (tm_callback (tmebs k (TskTmeb t))) (TskTmeb t)
            (timer_delete (TskTmeb t) k) = Some k'" "timers_inv k'" "\<not> ts_wait (state (tcb k' t))"
          "fixed_objs k' = fixed_objs k" "tmebs k' = tmebs k"
          "timer_queue k' = filter (\<lambda>ev. \<forall>u. ev = TskTmeb u \<longrightarrow> ts_wait (state (tcb k' u))) q"
          "\<forall>u. ts_wait (state (tcb k' u)) \<longrightarrow> ts_wait (state (tcb k u))"
        by (rule timeout_fires [OF i(1) q [unfolded TskTmeb] i(3)]) (rule that; assumption)
      note o = fixed_objs_eqD [OF k'(4)]
      have "waits_end k k'"
        unfolding waits_end_def using k'(3,5,6,7) q TskTmeb by (auto simp: o)
      moreover have "due k' = due k" by (simp add: fun_eq_iff due_def due_in_def o k'(5))
      ultimately show ?thesis using k' fi o(21) TskTmeb by (auto simp del: hooks_n.simps)
    next
      case (CycTmeb i)
      show ?thesis
        by (rule cyclic_fires [OF \<open>timers_inv k\<close> q [unfolded CycTmeb] d [unfolded CycTmeb] \<open>handler_ok uh\<close>])
           (use fi CycTmeb in blast)
    next
      case (AlmTmeb i)
      show ?thesis
        by (rule alarm_fires [OF \<open>timers_inv k\<close> q [unfolded AlmTmeb] \<open>handler_ok uh\<close>])
           (use fi AlmTmeb in blast)
    qed
  qed
qed (auto intro: waits_end_refl waits_end_trans)

text \<open>With task timeouts only, no user code runs, and a wait that is not due ends only in a semaphore queue.\<close>

definition tasks_only :: "kernel \<Rightarrow> bool" where
  "tasks_only k \<longleftrightarrow> (\<forall>e \<in> set (timer_queue k). \<exists>t. e = TskTmeb t)"

definition no_early :: "kernel \<Rightarrow> kernel \<Rightarrow> bool" where
  "no_early k k' \<longleftrightarrow> NUM_TSKID k' = NUM_TSKID k \<and> current_time k' = current_time k \<and> tmebs k' = tmebs k \<and>
     set (timer_queue k') \<subseteq> set (timer_queue k) \<and> (\<forall>u. wakeable u k' \<longrightarrow> wakeable u k) \<and>
     (\<forall>t. (TskTmeb t \<in> set (timer_queue k) \<longrightarrow> \<not> due k (TskTmeb t)) \<and> \<not> wakeable t k \<longrightarrow>
        state (tcb k' t) = state (tcb k t))"

lemma no_early_trans: "no_early k k' \<Longrightarrow> no_early k' k'' \<Longrightarrow> no_early k k''"
proof -
  assume a: "no_early k k'" "no_early k' k''"
  then have "due k' = due k" by (simp add: no_early_def fun_eq_iff due_def due_in_def)
  with a show ?thesis by (simp add: no_early_def subset_iff) metis
qed

interpretation te: timer_callbacks "run_callback (hooks_n (Suc n)) uh"
  "\<lambda>k. timers_inv k \<and> NUM_TSKID k < n \<and> tasks_only k" "\<lambda>k k'. no_early k k' \<and> waits_end k k'" for n uh
proof
  show "\<exists>k'. run_callback (hooks_n (Suc n)) uh (tm_callback (tmebs k e)) e (timer_delete e k) = Some k' \<and>
      (timers_inv k' \<and> NUM_TSKID k' < n \<and> tasks_only k') \<and> (no_early k k' \<and> waits_end k k') \<and> current_time k' = current_time k \<and>
      (\<forall>e'. e' \<in> set (timer_queue k') \<and> due k' e' \<longrightarrow> e' \<in> set q \<and> due k e')"
    if inv: "timers_inv k \<and> NUM_TSKID k < n \<and> tasks_only k" and q: "timer_queue k = e # q" and d: "due k e" for k e q
  proof -
    obtain t where t: "e = TskTmeb t" using inv q by (auto simp: tasks_only_def)
    obtain k' where k': "run_callback (hooks_n (Suc n)) uh (tm_callback (tmebs k (TskTmeb t))) (TskTmeb t)
          (timer_delete (TskTmeb t) k) = Some k'" "timers_inv k'" "\<not> ts_wait (state (tcb k' t))"
        "fixed_objs k' = fixed_objs k" "tmebs k' = tmebs k"
        "timer_queue k' = filter (\<lambda>ev. \<forall>u. ev = TskTmeb u \<longrightarrow> ts_wait (state (tcb k' u))) q"
        "\<forall>u. ts_wait (state (tcb k' u)) \<longrightarrow> ts_wait (state (tcb k u))"
        "\<forall>u. u \<noteq> t \<longrightarrow> \<not> wakeable u k \<longrightarrow> state (tcb k' u) = state (tcb k u)"
        "\<forall>u. wakeable u k' \<longrightarrow> wakeable u k"
      by (rule timeout_fires [OF inv [THEN conjunct1] q [unfolded t] inv [THEN conjunct2, THEN conjunct1]])
        (rule that; assumption)
    note o = fixed_objs_eqD [OF k'(4)]
    have sub: "set (timer_queue k') \<subseteq> set q" by (auto simp: k'(6))
    have dk: "due k' = due k" by (simp add: fun_eq_iff due_def due_in_def o k'(5))
    have "no_early k k'"
      unfolding no_early_def using k'(5,8,9) sub q d t by (auto simp: o)
    moreover have "waits_end k k'"
      unfolding waits_end_def using k'(3,5,6,7) q t by (auto simp: o)
    moreover have "tasks_only k'" using inv sub q by (auto simp: tasks_only_def)
    ultimately show ?thesis using k'(1,2) inv o sub dk t by (auto simp del: hooks_n.simps)
  qed
  show "distinct (timer_queue k) \<and> timers_sorted k" if "timers_inv k \<and> NUM_TSKID k < n \<and> tasks_only k" for k
    using that timers_invD by simp
  show "no_early k k \<and> waits_end k k" for k by (simp add: no_early_def waits_end_def)
qed (use no_early_trans waits_end_trans in blast)

subsection \<open>A tick\<close>

lemma kinv_time_slice_sched:
  assumes inv: "kinv {} k" and s: "schedtsk k = Some t"
  shows "kinv {} (let (tsk, k) = time_slice_schedule (Some t) k in k\<lparr>schedtsk := tsk\<rparr>)"
proof -
  note q = kinv_kinvq [OF inv]
  have top: "ready_queue_top k = Some t" using inv s by (simp add: kinv_def)
  note tp = kinvq_top [OF q top] and ts = kinvq_time_slice [OF q kinvq_top(7) [OF q top]]
  let ?k = "snd (time_slice_schedule (Some t) k)"
  have "fst (time_slice_schedule (Some t) k) = Some (hd (que ?k (RdyQ (priority (tcb k t)))))"
    by (rule ts(3)) (simp add: tp)
  moreover have "ready_queue_top ?k = Some (hd (que ?k (RdyQ (top_priority k))))"
    using ready_queue_top_eq [OF kinvqD(4,5) [OF ts(1)]] tp(5) by simp
  ultimately show ?thesis using kinvq_schedtsk [OF ts(1)] tp(4) by (simp add: kinv_def case_prod_unfold Let_def)
qed

text \<open>The clock and the execution time; then, if the running task is the scheduled one, its time slice.\<close>

definition tick_clock :: "kernel \<Rightarrow> kernel" where
  "tick_clock k =
     (let k = k\<lparr>current_time := current_time k + TIMER_PERIOD k\<rparr>
      in case ctxtsk k of None \<Rightarrow> k
         | Some t \<Rightarrow> upd_tcb t (\<lambda>c. if 0 < sysmode c then c\<lparr>stime := stime c + TIMER_PERIOD k\<rparr>
                                else c\<lparr>utime := utime c + TIMER_PERIOD k\<rparr>) k)"

lemma timer_tick_cases:
  "timer_tick k =
     (if ctxtsk k \<noteq> None \<and> schedtsk k = ctxtsk k
      then let (tsk, k) = time_slice_schedule (ctxtsk k) (tick_clock k) in k\<lparr>schedtsk := tsk\<rparr>
      else tick_clock k)"
  by (auto simp: timer_tick_def tick_clock_def Let_def case_prod_unfold split: option.split)

lemma tick_clock_frame [simp]:
  "timer_queue (tick_clock k) = timer_queue k" "tmebs (tick_clock k) = tmebs k"
  "current_time (tick_clock k) = current_time k + TIMER_PERIOD k" "que (tick_clock k) = que k"
  "state (tcb (tick_clock k) t) = state (tcb k t)" "schedtsk (tick_clock k) = schedtsk k"
  "other_objs (tick_clock k) = other_objs k" "mtxcb_table (tick_clock k) = mtxcb_table k"
  "free_mtxcb (tick_clock k) = free_mtxcb k" "max_mtxid (tick_clock k) = max_mtxid k"
  "NUM_TSKID (tick_clock k) = NUM_TSKID k" "TIMER_PERIOD (tick_clock k) = TIMER_PERIOD k"
  "cyccb_table (tick_clock k) = cyccb_table k" "max_tskid (tick_clock k) = max_tskid k"
  by (simp_all add: tick_clock_def Let_def other_objs_def NUM_TSKID_def split: option.split)

lemma tick_clock_same: "same_tcb (tcb (tick_clock k) t) (tcb k t)"
  by (auto simp: tick_clock_def Let_def same_tcb_def split: option.split)

lemma kinv_tick_clock:
  assumes "kinv {} k"
  shows "kinv {} (tick_clock k)"
proof -
  have "kinv {} (k\<lparr>current_time := current_time k + TIMER_PERIOD k\<rparr>)"
    by (rule kinv_objs_cong [OF assms]) (simp_all add: NUM_TSKID_def)
  then show ?thesis
    by (cases "ctxtsk k") (simp_all add: tick_clock_def Let_def, rule kinv_upd_tcb_other, simp_all)
qed

lemma timer_tick_frame:
  "timer_queue (timer_tick k) = timer_queue k" "tmebs (timer_tick k) = tmebs k"
  "current_time (timer_tick k) = current_time k + TIMER_PERIOD k" "state (tcb (timer_tick k) t) = state (tcb k t)"
  "NUM_TSKID (timer_tick k) = NUM_TSKID k" "TIMER_PERIOD (timer_tick k) = TIMER_PERIOD k"
  "cyccb_table (timer_tick k) = cyccb_table k"
  by (simp_all add: timer_tick_cases Let_def case_prod_unfold) (simp_all add: NUM_TSKID_def)

lemma sys_ok_timer_tick:
  assumes ok: "sys_ok k"
  shows "sys_ok (timer_tick k)" "\<not> rdyq h \<Longrightarrow> que (timer_tick k) h = que k h"
proof -
  have kv: "kinv {} k" using ok by (simp add: sys_ok_def)
  note kc = kinv_tick_clock [OF kv]
  have all: "sys_ok (timer_tick k) \<and> (\<forall>h. \<not> rdyq h \<longrightarrow> que (timer_tick k) h = que k h)"
  proof (cases "ctxtsk k \<noteq> None \<and> schedtsk k = ctxtsk k")
    case False
    have "sys_ok (tick_clock k)" by (rule sys_ok_cong [OF ok kc]) (simp_all add: tick_clock_same)
    with False show ?thesis by (auto simp: timer_tick_cases)
  next
    case True
    then obtain t where t: "schedtsk k = Some t" "ctxtsk k = Some t" by auto
    let ?s = "time_slice_schedule (Some t) (tick_clock k)"
    have e: "timer_tick k = (snd ?s)\<lparr>schedtsk := fst ?s\<rparr>"
      using t by (simp add: timer_tick_cases case_prod_unfold Let_def)
    have kt: "kinv {} (timer_tick k)"
      using kinv_time_slice_sched [OF kc, of t] t by (simp add: e case_prod_unfold Let_def)
    have top: "ready_queue_top (tick_clock k) = Some t" using kc t by (simp add: kinv_def)
    note ts = kinvq_time_slice(2) [OF kinv_kinvq [OF kc] kinv_sched(7) [OF kc top]]
    have q: "que (timer_tick k) h = que k h" if "\<not> rdyq h" for h
      using ts [of h] not_rdyq_RdyQ [OF that] by (simp add: e)
    have o: "objs (snd ?s) = objs (tick_clock k)" by simp
    have same: "same_tcb (tcb (timer_tick k) u) (tcb k u)" for u
      using same_tcb_core [OF time_slice_schedule_core [of "Some t" "tick_clock k" u]] tick_clock_same [of k u]
      by (simp add: e same_tcb_def)
    have "other_objs (timer_tick k) = other_objs k"
      using tick_clock_frame(7) [of k] by (simp add: e other_objs_def del: tick_clock_frame(7))
    then have "sys_ok (timer_tick k)"
      by (rule sys_ok_cong [OF ok kt]) (use objs_eqD [OF o] q same in \<open>simp_all add: e NUM_TSKID_def\<close>)
    with q show ?thesis by simp
  qed
  then show "sys_ok (timer_tick k)" "\<not> rdyq h \<Longrightarrow> que (timer_tick k) h = que k h" by blast+
qed

definition period_ok :: "kernel \<Rightarrow> bool" where
  "period_ok k \<longleftrightarrow> 0 < sint (TIMER_PERIOD k) \<and> sint (TIMER_PERIOD k) \<le> 50000"

lemma due_in_tick:
  assumes "period_ok k" "near k e"
  shows "due_in (timer_tick k) e = due_in k e - sint (TIMER_PERIOD k)"
proof -
  have "tm_time (tmebs k e) - (current_time k + TIMER_PERIOD k) = (tm_time (tmebs k e) - current_time k) - TIMER_PERIOD k"
    by simp
  then show ?thesis unfolding due_in_def timer_tick_frame
    by (simp only:) (rule sint_diff_small, use assms in \<open>auto simp: period_ok_def near_def due_in_def\<close>)
qed

lemma timers_inv_tick:
  assumes inv: "timers_inv k" and p: "period_ok k" and fut: "\<And>e. e \<in> set (timer_queue k) \<Longrightarrow> \<not> due k e"
  shows "timers_inv (timer_tick k)"
proof -
  note i = timers_invD [OF inv]
  have d: "due_in (timer_tick k) e = due_in k e - sint (TIMER_PERIOD k)" if "e \<in> set (timer_queue k)" for e
    using due_in_tick [OF p] i(2) that by (simp add: timers_sorted_def)
  have "sorted (map (\<lambda>e. due_in k e - sint (TIMER_PERIOD k)) (timer_queue k))"
    using i(2) by (simp add: timers_sorted_def sorted_wrt_map)
  then have "sorted (map (due_in (timer_tick k)) (timer_queue k))" using d by (simp cong: map_cong)
  moreover have "near (timer_tick k) e" if "e \<in> set (timer_queue k)" for e
    using d [OF that] i(2) that fut [OF that] p by (auto simp: timers_sorted_def near_def period_ok_def due_def)
  ultimately have "timers_sorted (timer_tick k)" by (simp add: timers_sorted_def timer_tick_frame)
  moreover have "handlers_ok (timer_tick k)" using i(3) by (simp add: handlers_ok_def timer_tick_frame)
  ultimately show ?thesis using sys_ok_timer_tick(1) [OF i(5)] by (simp add: timers_inv_def)
qed

lemma timers_inv_END:
  assumes "timers_inv k"
  shows "timers_inv (END_CRITICAL_SECTION k)"
proof -
  note i = timers_invD [OF assms]
  have "sys_ok (END_CRITICAL_SECTION k)"
    by (rule sys_ok_cong [OF i(5) kernel_ok_kinv [OF kernel_ok_END_CRITICAL_SECTION [OF i(1)]]])
       (simp_all add: same_tcb_def)
  moreover have "timers_sorted (END_CRITICAL_SECTION k)"
    by (rule timers_sorted_filter [OF i(2), where P = "\<lambda>_. True"]) simp_all
  moreover have "handlers_ok (END_CRITICAL_SECTION k)" using i(3) by (simp add: handlers_ok_def)
  ultimately show ?thesis by (simp add: timers_inv_def)
qed

lemma tick_due:
  assumes "timers_inv k" "period_ok k" "e \<in> set (timer_queue k)"
  shows "due (timer_tick k) e \<longleftrightarrow> due_in k e \<le> sint (TIMER_PERIOD k)"
  using due_in_tick [OF assms(2)] timers_invD(2) [OF assms(1)] assms(3) by (simp add: timers_sorted_def due_def)

lemma tick_fuel:
  assumes "timers_inv k" "period_ok k"
  shows "filter (due (timer_tick k)) (timer_queue (timer_tick k)) =
    filter (\<lambda>e. due_in k e \<le> sint (TIMER_PERIOD k)) (timer_queue k)"
  using tick_due [OF assms] by (simp add: timer_tick_frame cong: filter_cong)

lemma timed_out_gone:
  assumes inv: "timers_inv k" "period_ok k" and w: "waits_end (timer_tick k) k1"
    and c: "current_time k1 = current_time (timer_tick k)" and fut: "\<And>e. e \<in> set (timer_queue k1) \<Longrightarrow> \<not> due k1 e"
    and t: "t < NUM_TSKID k" "TskTmeb t \<in> set (timer_queue k)" "due_in k (TskTmeb t) \<le> sint (TIMER_PERIOD k)"
  shows "\<not> ts_wait (state (tcb k1 t))"
proof
  assume "ts_wait (state (tcb k1 t))"
  with t w have m: "TskTmeb t \<in> set (timer_queue k1)" "tmebs k1 (TskTmeb t) = tmebs (timer_tick k) (TskTmeb t)"
    by (simp_all add: waits_end_def timer_tick_frame)
  have "\<not> due (timer_tick k) (TskTmeb t)"
    using fut [OF m(1)] due_in_cong [OF m(2) c] by (simp add: due_def)
  with tick_due [OF inv t(2)] t(3) show False by simp
qed

text \<open>
  C28: The timer interrupt returns as long as the user handlers do: with one round for every event that
  falls due in this tick and one more, whatever the handlers register anew. Afterwards the clock has
  advanced by the period, nothing on the queue is due, every task whose timeout has elapsed no longer waits
  (unless it never had that timeout on the queue), and the kernel is in order for the next tick.
\<close>

theorem timer_handler_fires:
  assumes "timers_inv k" "period_ok k" "handler_ok uh" "\<forall>e \<in> set (timer_queue k). \<not> due k e"
    and "length (filter (\<lambda>e. due_in k e \<le> sint (TIMER_PERIOD k)) (timer_queue k)) < n"
  shows "\<exists>k'. timer_handler n (run_callback (kernel_hooks k) uh) k = Some k' \<and>
    current_time k' = current_time k + TIMER_PERIOD k \<and> timers_inv k' \<and> period_ok k' \<and> kernel_ok k' \<and>
    (\<forall>e \<in> set (timer_queue k'). \<not> due k' e) \<and>
    (\<forall>t < NUM_TSKID k. TskTmeb t \<in> set (timer_queue k) \<and> due_in k (TskTmeb t) \<le> sint (TIMER_PERIOD k) \<longrightarrow>
       \<not> ts_wait (state (tcb k' t))) \<and>
    (\<forall>t < NUM_TSKID k. ts_wait (state (tcb k' t)) \<longrightarrow> ts_wait (state (tcb k t)))"
proof -
  let ?k = "timer_tick k"
  note fr = timer_tick_frame
  obtain m where m: "kernel_hooks k = hooks_n (Suc m)" "NUM_TSKID k < m"
    by (rule that [of "NUM_TSKID k + 1"]) (simp_all add: kernel_hooks_def)
  have inv: "fire_inv m uh ?k"
    using timers_inv_tick [OF assms(1,2)] assms(3,4) m(2) by (simp add: fire_inv_def fr)
  have fuel: "length (filter (due ?k) (timer_queue ?k)) < n" using assms(5) by (simp add: tick_fuel [OF assms(1,2)])
  obtain k1 where k1: "timer_events n (run_callback (hooks_n (Suc m)) uh) ?k = Some k1" "fire_inv m uh k1"
      "waits_end ?k k1" "current_time k1 = current_time ?k" "\<And>e. e \<in> set (timer_queue k1) \<Longrightarrow> \<not> due k1 e"
    using tc.events_run [OF inv fuel] by metis
  have i1: "timers_inv k1" using k1(2) by (simp add: fire_inv_def)
  let ?e = "END_CRITICAL_SECTION k1"
  have de: "due ?e = due k1" by (simp add: fun_eq_iff due_def due_in_def)
  note gone = timed_out_gone [OF assms(1,2) k1(3,4,5)]
  have p: "TIMER_PERIOD k1 = TIMER_PERIOD k" using k1(3) by (simp add: waits_end_def fr)
  have "timer_handler n (run_callback (kernel_hooks k) uh) k = Some ?e"
    using k1(1) by (simp add: timer_handler_def m(1) del: hooks_n.simps)
  moreover have "period_ok ?e" using assms(2) p by (simp add: period_ok_def) (simp add: END_CRITICAL_SECTION_def dispatch_def)
  ultimately show ?thesis
    using k1(4) timers_inv_END [OF i1] kernel_ok_END_CRITICAL_SECTION [OF timers_invD(1) [OF i1]] k1(5) gone k1(3)
    by (simp add: fr de waits_end_def)
qed

text \<open>
  C29: A tick is exact. With timeouts of tasks only on the queue, a task that waits for anything but a
  semaphore or room in a message buffer stops waiting in this tick exactly when its timeout falls due in it,
  never before; a waiter of those may in addition be served, when a task ahead of it gives up.
\<close>

theorem timeouts_exact:
  assumes "timers_inv k" "period_ok k" "tasks_only k" "\<forall>e \<in> set (timer_queue k). \<not> due k e"
    and "length (filter (\<lambda>e. due_in k e \<le> sint (TIMER_PERIOD k)) (timer_queue k)) < n"
  shows "\<exists>k'. timer_handler n (run_callback (kernel_hooks k) uh) k = Some k' \<and>
    (\<forall>t < NUM_TSKID k. \<not> wakeable t k \<longrightarrow>
       (ts_wait (state (tcb k' t)) \<longleftrightarrow> ts_wait (state (tcb k t)) \<and>
          \<not> (TskTmeb t \<in> set (timer_queue k) \<and> due_in k (TskTmeb t) \<le> sint (TIMER_PERIOD k)))) \<and>
    (\<forall>t < NUM_TSKID k. wakeable t k \<and> TskTmeb t \<in> set (timer_queue k) \<and>
       due_in k (TskTmeb t) \<le> sint (TIMER_PERIOD k) \<longrightarrow> \<not> ts_wait (state (tcb k' t)))"
proof -
  let ?k = "timer_tick k"
  note fr = timer_tick_frame
  obtain m where m: "kernel_hooks k = hooks_n (Suc m)" "NUM_TSKID k < m"
    by (rule that [of "NUM_TSKID k + 1"]) (simp_all add: kernel_hooks_def)
  have inv: "timers_inv ?k \<and> NUM_TSKID ?k < m \<and> tasks_only ?k"
    using timers_inv_tick [OF assms(1,2)] assms(3,4) m(2) by (simp add: fr tasks_only_def)
  have fuel: "length (filter (due ?k) (timer_queue ?k)) < n" using assms(5) by (simp add: tick_fuel [OF assms(1,2)])
  obtain k1 where k1: "timer_events n (run_callback (hooks_n (Suc m)) uh) ?k = Some k1"
      "no_early ?k k1 \<and> waits_end ?k k1" "current_time k1 = current_time ?k"
      "\<And>e. e \<in> set (timer_queue k1) \<Longrightarrow> \<not> due k1 e"
    using te.events_run [OF inv fuel] by metis
  note gone = timed_out_gone [OF assms(1,2) conjunct2 [OF k1(2)] k1(3,4)]
  have q: "wakeable t ?k = wakeable t k" for t
    by (rule wakeable_cong [OF sys_ok_timer_tick(2)]) (use timers_invD(5) [OF assms(1)] in simp_all)
  have early: "state (tcb k1 t) = state (tcb k t)"
    if "TskTmeb t \<in> set (timer_queue k) \<longrightarrow> \<not> due_in k (TskTmeb t) \<le> sint (TIMER_PERIOD k)" "\<not> wakeable t k" for t
    using k1(2) that tick_due [OF assms(1,2), of "TskTmeb t"] by (simp add: no_early_def fr q)
  have "ts_wait (state (tcb k t))" if "t < NUM_TSKID k" "ts_wait (state (tcb k1 t))" for t
    using k1(2) that by (simp add: waits_end_def fr)
  with early gone have "\<forall>t < NUM_TSKID k. \<not> wakeable t k \<longrightarrow>
       (ts_wait (state (tcb k1 t)) \<longleftrightarrow> ts_wait (state (tcb k t)) \<and>
          \<not> (TskTmeb t \<in> set (timer_queue k) \<and> due_in k (TskTmeb t) \<le> sint (TIMER_PERIOD k)))"
    by metis
  moreover have "timer_handler n (run_callback (kernel_hooks k) uh) k = Some (END_CRITICAL_SECTION k1)"
    using k1(1) by (simp add: timer_handler_def m(1) del: hooks_n.simps)
  ultimately show ?thesis using gone by simp
qed

subsection \<open>Instances\<close>

lemma sys_ok_sleep_wait:
  assumes ok: "sys_ok k" and t: "self k < NUM_TSKID k" "state (tcb k (self k)) = TS_READY"
    and ws: "wait_home ws 0 = None"
  shows "sys_ok (sleep_wait ws tm k)"
proof -
  note kv = sys_ok_kinv [OF ok]
  note st = sleep_wait_state [OF t(2)]
  have o: "objs (sleep_wait ws tm k) = objs k" by simp
  have notin: "self k \<notin> set (que k h)" if "wait_queue h" for h
    by (rule kinv_ready_notin [OF kv t(2)]) (use that in \<open>cases h; simp\<close>)
  show ?thesis
  proof (rule sys_ok_step [OF ok kinv_sleep_wait(1) [OF kv t ws] other_objs_objs [OF o] objs_eqD(25,26,5) [OF o]])
    show "que (sleep_wait ws tm k) h = que k h" if "wait_queue h" for h
      by (rule kinv_sleep_wait(2) [OF kv t ws]) (use that in \<open>cases h; simp\<close>)
    show "same_tcb (tcb (sleep_wait ws tm k) u) (tcb k u)" if "wait_queue h" "u \<in> set (que k h)" for h u
      by (rule same_tcb_core [OF st(4)]) (use notin [OF that(1)] that(2) in auto)
    show "priority (tcb (sleep_wait ws tm k) u) = priority (tcb k u) \<and>
        bpriority (tcb (sleep_wait ws tm k) u) = bpriority (tcb k u) \<and>
        mtxlist (tcb (sleep_wait ws tm k) u) = mtxlist (tcb k u)" for u
      by simp
  qed (use t in \<open>auto simp: exists_task_def st(1) objs_eqD [OF o] simp del: sleep_wait_frame(2) split: if_splits\<close>)
qed

lemma ex_state_sys_ok: "sys_ok ex_state"
  using mtx_sysD [OF ex_state_mtx_sys] by (auto simp: sys_ok_def)

text \<open>Task 0 sleeps for 5 milliseconds, and an alarm is set for 15 milliseconds from now.\<close>

definition ex_sleep :: kernel where
  "ex_sleep = snd (tk_slp_tsk_u 5000 ex_state)"

definition ex_alarm :: kernel where
  "ex_alarm = timer_insert_abs (AlmTmeb 0) 15000 CB_call_almhdr ex_sleep"

lemma ex_sleep_eq: "ex_sleep = END_CRITICAL_SECTION (sleep_wait WSPEC_SLP 5000 ex_state)"
  by (simp add: ex_sleep_def tk_slp_tsk_u_def checked_def CHECK_TMOUT_def CHECK_DISPATCH_def in_ddsp_def in_indp_def
      ex_state_tcb word_sle_eq) (simp add: ex_tcb_def)

lemma ex_sleep_sys: "sys_ok ex_sleep"
  unfolding ex_sleep_eq
  by (rule sys_ok_END(1) [OF sys_ok_sleep_wait [OF ex_state_sys_ok]]) (simp_all add: ex_state_tcb)

lemma ex_state_hw: "hw_timer_usec ex_state = 0"
  by (simp add: ex_state_def)

lemma ex_sleep_timers:
  "timer_queue ex_sleep = [TskTmeb 0]" "tm_time (tmebs ex_sleep (TskTmeb 0)) = 5000" "current_time ex_sleep = 0"
  "TIMER_PERIOD ex_sleep = 10000" "NUM_TSKID ex_sleep = 5" "ts_wait (state (tcb ex_sleep 0))"
  "\<not> wakeable t ex_sleep"
proof -
  note fr = sleep_wait_frame(1) [of WSPEC_SLP 5000 ex_state]
  have "timer_queue (sleep_wait WSPEC_SLP 5000 ex_state) = [TskTmeb 0]"
    "tm_time (tmebs (sleep_wait WSPEC_SLP 5000 ex_state) (TskTmeb 0)) = 5000"
    by (simp_all add: sleep_wait_def make_wait_def timer_insert_def enqueue_tmeb_def Let_def adjust_time_def ex_state_hw
        objs_eqD [OF objs_upd_tmeb])
  then show "timer_queue ex_sleep = [TskTmeb 0]" "tm_time (tmebs ex_sleep (TskTmeb 0)) = 5000"
    by (simp_all add: ex_sleep_eq)
  show "current_time ex_sleep = 0" "NUM_TSKID ex_sleep = 5" by (simp_all add: ex_sleep_eq objs_eqD [OF fr])
  show "TIMER_PERIOD ex_sleep = 10000"
    using objs_eqD(13) [OF fr] by (simp add: ex_sleep_eq END_CRITICAL_SECTION_def dispatch_def)
  show "ts_wait (state (tcb ex_sleep 0))"
    using sleep_wait_state(1) [of ex_state WSPEC_SLP 5000 0] by (simp add: ex_sleep_eq ex_state_tcb del: sleep_wait_frame(2))
  have "que ex_sleep h = []" if "wakes h" for h
    using kinv_sleep_wait(2) [OF sys_ok_kinv [OF ex_state_sys_ok], of WSPEC_SLP h 5000] that
    by (cases h) (simp_all add: ex_sleep_eq ex_state_tcb ex_state_que)
  then show "\<not> wakeable t ex_sleep" by (auto simp: wakeable_def)
qed

lemma ex_sleep_inv:
  "timers_inv ex_sleep" "period_ok ex_sleep" "due_in ex_sleep (TskTmeb 0) = 5000"
proof -
  show d: "due_in ex_sleep (TskTmeb 0) = 5000" by (simp add: due_in_def ex_sleep_timers)
  show "timers_inv ex_sleep"
    using d ex_sleep_sys by (simp add: timers_inv_def timers_sorted_def handlers_ok_def ex_sleep_timers near_def)
  show "period_ok ex_sleep" by (simp add: period_ok_def ex_sleep_timers)
qed

lemma ex_alarm_timers:
  "timer_queue ex_alarm = [TskTmeb 0, AlmTmeb 0]" "timers_inv ex_alarm" "period_ok ex_alarm"
  "due_in ex_alarm (TskTmeb 0) = 5000" "due_in ex_alarm (AlmTmeb 0) = 15000" "NUM_TSKID ex_alarm = 5"
  "TIMER_PERIOD ex_alarm = 10000"
proof -
  have n: "AlmTmeb 0 \<notin> set (timer_queue ex_sleep)" by (simp add: ex_sleep_timers)
  have b: "\<bar>sint ((15000 :: D) - current_time ex_sleep)\<bar> < 2 ^ 62" by (simp add: ex_sleep_timers)
  note i = timers_invD [OF ex_sleep_inv(1)]
  note a = timer_insert_abs_queue [OF i(2) n b, of CB_call_almhdr, folded ex_alarm_def]
  note o = objs_eqD [OF a(5)]
  show q: "timer_queue ex_alarm = [TskTmeb 0, AlmTmeb 0]"
    using ex_sleep_inv(3) by (simp add: a(2) ex_sleep_timers)
  show "due_in ex_alarm (TskTmeb 0) = 5000" "due_in ex_alarm (AlmTmeb 0) = 15000"
    by (simp_all add: due_in_def a(3,4) ex_sleep_timers)
  show "period_ok ex_alarm" "NUM_TSKID ex_alarm = 5" "TIMER_PERIOD ex_alarm = 10000" by (simp_all add: period_ok_def o ex_sleep_timers)
  have "kinv {} ex_alarm" unfolding ex_alarm_def timer_insert_abs_def
    by (intro kinv_enqueue_tmeb kinv_upd_tmeb_notin i(1) n) (simp_all add: ex_sleep_timers)
  then have "sys_ok ex_alarm" by (rule sys_ok_timers [OF ex_sleep_sys _ a(5,7,6)])
  with a(1) show "timers_inv ex_alarm" by (simp add: timers_inv_def handlers_ok_def q a(3))
qed

lemma handler_ok_idle: "handler_ok (\<lambda>_ _ k. Some k)"
  by (simp add: handler_ok_def waits_end_def no_new_due_def)

theorem timer_insert_order_witness:
  "timer_queue (timer_insert (AlmTmeb 0) 15000 CB_call_almhdr ex_sleep) = [TskTmeb 0, AlmTmeb 0]"
proof -
  have "hw_timer_usec ex_sleep = 0"
    using objs_eqD(16) [OF sleep_wait_frame(1) [of WSPEC_SLP 5000 ex_state]]
    by (simp add: ex_sleep_eq END_CRITICAL_SECTION_def dispatch_def ex_state_hw)
  then have u: "uint (hw_timer_usec ex_sleep) = 0" by simp
  have s: "sint (15000 :: D) = 15000" by simp
  have h: "AlmTmeb 0 \<notin> set (timer_queue ex_sleep)" "0 \<le> sint (15000 :: D)"
    "sint (15000 :: D) + uint (hw_timer_usec ex_sleep) < 2 ^ 62" unfolding u s by (simp_all add: ex_sleep_timers)
  have "timer_queue (timer_insert (AlmTmeb 0) 15000 CB_call_almhdr ex_sleep) =
      filter (\<lambda>q. due_in ex_sleep q \<le> 15000) (timer_queue ex_sleep) @
      AlmTmeb 0 # filter (\<lambda>q. 15000 < due_in ex_sleep q) (timer_queue ex_sleep)"
    using timer_insert_order [OF timers_invD(2) [OF ex_sleep_inv(1)] h, of CB_call_almhdr]
    unfolding Let_def u s add_0_right by blast
  then show ?thesis by (simp add: ex_sleep_timers ex_sleep_inv(3))
qed

text \<open>A handler of period 10 milliseconds, last run at time 0, served 25 milliseconds late.\<close>

definition ex_late :: kernel where
  "ex_late = upd_cyc 0 (\<lambda>c. c\<lparr>cyctim := 10000\<rparr>) (ex_state\<lparr>current_time := 25000\<rparr>)"

theorem cyc_next_time_phase_witness: "cyc_next_time 0 ex_late = 30000"
proof -
  have "cyctim (cyc ex_late 0) = 10000" "cyc_time 0 ex_late = 0" "current_time ex_late = 25000"
    by (simp_all add: ex_late_def upd_cyc_def cyc_time_def) (simp add: ex_state_def)
  with cyc_next_time_phase [of ex_late 0] show ?thesis by (simp add: Let_def)
qed

theorem timer_handler_fires_witness:
  "\<exists>k'. timer_handler 2 (run_callback (kernel_hooks ex_alarm) (\<lambda>_ _ k. Some k)) ex_alarm = Some k' \<and>
     \<not> ts_wait (state (tcb k' 0)) \<and> kernel_ok k'"
proof -
  have "\<forall>e \<in> set (timer_queue ex_alarm). \<not> due ex_alarm e"
    "length (filter (\<lambda>e. due_in ex_alarm e \<le> sint (TIMER_PERIOD ex_alarm)) (timer_queue ex_alarm)) < 2"
    "TskTmeb 0 \<in> set (timer_queue ex_alarm)" "due_in ex_alarm (TskTmeb 0) \<le> sint (TIMER_PERIOD ex_alarm)"
    "0 < NUM_TSKID ex_alarm"
    using ex_alarm_timers by (simp_all add: due_def)
  with timer_handler_fires [OF ex_alarm_timers(2,3) handler_ok_idle, of 2] show ?thesis by blast
qed

theorem timeouts_exact_witness:
  "\<exists>k'. timer_handler 2 (run_callback (kernel_hooks ex_sleep) (\<lambda>_ _ _. None)) ex_sleep = Some k' \<and>
     \<not> ts_wait (state (tcb k' 0))"
proof -
  have h: "\<forall>e \<in> set (timer_queue ex_sleep). \<not> due ex_sleep e" "tasks_only ex_sleep"
    "length (filter (\<lambda>e. due_in ex_sleep e \<le> sint (TIMER_PERIOD ex_sleep)) (timer_queue ex_sleep)) < 2"
    using ex_sleep_inv(3) by (simp_all add: due_def ex_sleep_timers tasks_only_def)
  have "TskTmeb 0 \<in> set (timer_queue ex_sleep) \<and> due_in ex_sleep (TskTmeb 0) \<le> sint (TIMER_PERIOD ex_sleep)"
    "0 < NUM_TSKID ex_sleep" "\<not> wakeable 0 ex_sleep"
    using ex_sleep_inv(3) by (simp_all add: ex_sleep_timers)
  with timeouts_exact [OF ex_sleep_inv(1,2) h(2,1,3), of "\<lambda>_ _ _. None"] show ?thesis by blast
qed

end
