(* ===== verification/Clock.thy ===== *)
theory Clock
  imports Timer_Queue
begin

text \<open>
  The system clock of \<^verbatim>\<open>time_calls.c\<close>: setting and reading the real time, in milliseconds as two words and in
  microseconds as one, beside the operating time that only the timer interrupt moves.
\<close>

definition msec_word :: "systim \<Rightarrow> D" where
  "msec_word tim = push_bit 32 (scast (tim_hi tim)) OR ucast (tim_lo tim)"

definition msec_value :: "systim \<Rightarrow> int" where
  "msec_value tim = sint (tim_hi tim) * 2 ^ 32 + uint (tim_lo tim)"

lemma msec_word_parts:
  "ucast (msec_word tim) = tim_lo tim" "ucast (signed_drop_bit 32 (msec_word tim)) = tim_hi tim"
  unfolding msec_word_def
  by (rule bit_word_eqI; auto simp: bit_simps bit_signed_drop_bit_iff dest: bit_imp_le_length)+

lemma msec_word_value: "msec_word tim = word_of_int (msec_value tim)"
proof -
  have disj: "push_bit 32 (scast (tim_hi tim)) OR ucast (tim_lo tim) = push_bit 32 (scast (tim_hi tim)) + (ucast (tim_lo tim) :: D)"
    by (rule disjunctive_add [symmetric]) (auto simp: bit_simps dest: bit_imp_le_length)
  have hi: "push_bit 32 (scast (tim_hi tim)) = (word_of_int (sint (tim_hi tim) * 2 ^ 32) :: D)"
    by (simp add: push_bit_eq_mult)
  have "(ucast (tim_lo tim) :: D) = word_of_int (uint (tim_lo tim))" by simp
  then show ?thesis unfolding msec_word_def msec_value_def of_int_add disj unfolding hi by (rule arg_cong)
qed

lemma li_div_exact:
  assumes "\<bar>v\<bar> * 1000 < 2 ^ 63"
  shows "li_div (word_of_int v * 1000) 1000 = word_of_int v"
proof -
  have "sint (word_of_int (v * 1000) :: D) = v * 1000"
    by (rule sint_small) (use assms in \<open>auto simp: abs_if split: if_splits\<close>)
  moreover have "v * 1000 sdiv 1000 = v" by (simp add: signed_divide_int_def sgn_mult abs_mult) (simp add: sgn_mult_abs)
  ultimately show ?thesis by (simp add: li_div_def)
qed

lemma toSYSTIM_msec:
  assumes "\<bar>msec_value tim\<bar> * 1000 < 2 ^ 63"
  shows "toSYSTIM (toLSYSTIM (tim_hi tim) (tim_lo tim)) = tim"
proof -
  have "toLSYSTIM (tim_hi tim) (tim_lo tim) = word_of_int (msec_value tim) * 1000"
    by (simp add: toLSYSTIM_def flip: msec_word_def msec_word_value)
  then have "li_div (toLSYSTIM (tim_hi tim) (tim_lo tim)) 1000 = msec_word tim"
    using li_div_exact [OF assms] by (simp add: msec_word_value)
  then show ?thesis by (simp add: toSYSTIM_def Let_def msec_word_parts)
qed

lemma real_time_tick:
  "real_time (timer_tick k) = real_time k + TIMER_PERIOD k"
proof -
  have "real_time_ofs (timer_tick k) = real_time_ofs k"
    by (simp add: timer_tick_cases Let_def case_prod_unfold) (simp add: tick_clock_def Let_def split: option.split)
  then show ?thesis by (simp add: real_time_def timer_tick_frame)
qed

text \<open>
  C31: The clock reads what it was set to. A time whose milliseconds fit a signed 64-bit count of
  microseconds, once set, is read back as the same two words, a time in microseconds as the same count, and
  \<open>n\<close> ticks later it reads \<open>n\<close> periods more. A negative time is refused without effect, and the operating
  time does not depend on the clock at all.
\<close>

theorem clock_set_get:
  "(0 \<le>s tim_hi tim \<and> msec_value tim * 1000 < 2 ^ 63 \<longrightarrow>
      fst (tk_set_tim tim k) = E_OK \<and> fst (tk_get_tim (snd (tk_set_tim tim k))) = (E_OK, tim)) \<and>
   (0 \<le>s u \<longrightarrow> fst (tk_set_tim_u u k) = E_OK \<and>
      fst (snd (fst (tk_get_tim_u ((timer_tick ^^ n) (snd (tk_set_tim_u u k)))))) = u + of_nat n * TIMER_PERIOD k) \<and>
   (\<not> 0 \<le>s tim_hi tim \<longrightarrow> tk_set_tim tim k = (E_PAR, k)) \<and>
   (\<not> 0 \<le>s u \<longrightarrow> tk_set_tim_u u k = (E_PAR, k)) \<and>
   fst (tk_get_otm (snd (tk_set_tim tim k))) = fst (tk_get_otm k)"
proof (intro conjI impI; (elim conjE)?)
  have e: "real_time_ofs (END_CRITICAL_SECTION k) = real_time_ofs k" "TIMER_PERIOD (END_CRITICAL_SECTION k) = TIMER_PERIOD k" for k
    by (simp_all add: END_CRITICAL_SECTION_def dispatch_def)
  show "fst (tk_set_tim tim k) = E_OK"
    if "0 \<le>s tim_hi tim" using that by (simp add: tk_set_tim_def checked_def CHECK_PAR_def)
  show "fst (tk_get_tim (snd (tk_set_tim tim k))) = (E_OK, tim)"
    if "0 \<le>s tim_hi tim" "msec_value tim * 1000 < 2 ^ 63"
  proof -
    have "0 \<le> msec_value tim" using that(1) by (simp add: msec_value_def word_sle_eq)
    with that(2) have "\<bar>msec_value tim\<bar> * 1000 < 2 ^ 63" by simp
    from toSYSTIM_msec [OF this] show ?thesis
      using that(1) by (simp add: tk_set_tim_def tk_get_tim_def checked_def CHECK_PAR_def real_time_def e)
  qed
  have "real_time ((timer_tick ^^ n) k) = real_time k + of_nat n * TIMER_PERIOD k \<and> TIMER_PERIOD ((timer_tick ^^ n) k) = TIMER_PERIOD k" for n k
    by (induction n) (simp_all add: real_time_tick timer_tick_frame algebra_simps)
  then show "fst (snd (fst (tk_get_tim_u ((timer_tick ^^ n) (snd (tk_set_tim_u u k)))))) = u + of_nat n * TIMER_PERIOD k"
    if "0 \<le>s u"
    using that by (simp add: tk_set_tim_u_def tk_get_tim_u_def checked_def CHECK_PAR_def e real_time_def)
  show "fst (tk_get_otm (snd (tk_set_tim tim k))) = fst (tk_get_otm k)"
    by (cases "0 \<le>s tim_hi tim") (simp_all add: tk_set_tim_def checked_def CHECK_PAR_def tk_get_otm_def)
qed (simp_all add: tk_set_tim_def tk_set_tim_u_def checked_def CHECK_PAR_def)

theorem clock_set_get_witness:
  "fst (tk_get_tim (snd (tk_set_tim \<lparr>tim_hi = 1, tim_lo = 7\<rparr> ex_state))) = (E_OK, \<lparr>tim_hi = 1, tim_lo = 7\<rparr>) \<and>
   fst (snd (fst (tk_get_tim_u ((timer_tick ^^ 3) (snd (tk_set_tim_u 500 ex_state)))))) = 30500"
proof -
  have "0 \<le>s tim_hi \<lparr>tim_hi = 1, tim_lo = 7\<rparr> \<and> msec_value \<lparr>tim_hi = 1, tim_lo = 7\<rparr> * 1000 < 2 ^ 63" "0 \<le>s (500 :: D)"
    by (simp_all add: msec_value_def word_sle_eq)
  with clock_set_get [of "\<lparr>tim_hi = 1, tim_lo = 7\<rparr>" ex_state 500 3] show ?thesis by simp
qed

end
