(* ===== verification/Klock.thy ===== *)
theory Klock
  imports Example_State
begin

text \<open>
  Kernel locks (\<^verbatim>\<open>klock.c\<close>). A lock is held when its queue head is initialised
  (\<^verbatim>\<open>wtskq.next != NULL\<close>: \<open>lock_held\<close>). \<open>LockOBJ\<close> and \<open>LockSVC\<close> are loops that a waiting task leaves
  through the dispatcher: \<open>LockOBJ_pass\<close> and \<open>LockSVC_pass\<close> are one round, with the flag that ends the
  loop. The list of the extended SVC locks a task holds (\<^verbatim>\<open>svclocked\<close>, linked through \<^verbatim>\<open>locklist\<close>) is a
  list of tasks: each lock is the \<^verbatim>\<open>svclock\<close> field of a TCB.
\<close>

definition set_lock :: "lockid \<Rightarrow> bool \<Rightarrow> kernel \<Rightarrow> kernel" where
  "set_lock l b k = k\<lparr>lock_held := (lock_held k)(l := b)\<rparr>"

definition isLockedOBJ :: "nat \<Rightarrow> kernel \<Rightarrow> bool" where
  "isLockedOBJ n k = lock_held k (ObjLock n)"

text \<open>The running task leaves the ready queue and waits for the lock.\<close>

definition klock_wait :: "lockid \<Rightarrow> kernel \<Rightarrow> kernel" where
  "klock_wait l k =
     (let t = self k;
          k = ready_queue_delete t k;
          k = upd_tcb t (\<lambda>c. c\<lparr>klockwait := True\<rparr>) k;
          k = que_append t (LockQ l) k
      in k\<lparr>schedtsk := ready_queue_top k\<rparr>)"

definition LockOBJ_pass :: "nat \<Rightarrow> kernel \<Rightarrow> bool \<times> kernel" where
  "LockOBJ_pass n k =
     (let l = ObjLock n; t = self k
      in if klocked (tcb k t) then (True, END_CRITICAL_SECTION k)
         else if \<not> lock_held k l then
           let k = set_lock l True (k\<lparr>que := QueInit (LockQ l) (que k)\<rparr>);
               k = upd_tcb t (\<lambda>c. c\<lparr>klocked := True\<rparr>) k;
               k = k\<lparr>klocktsk := Some t\<rparr>
           in (True, END_CRITICAL_SECTION k)
         else (False, END_CRITICAL_SECTION (klock_wait l k)))"

definition UnlockOBJ :: "nat \<Rightarrow> kernel \<Rightarrow> kernel" where
  "UnlockOBJ n k =
     (let l = ObjLock n;
          k = upd_tcb (self k) (\<lambda>c. c\<lparr>klocked := False\<rparr>) k;
          k = k\<lparr>klocktsk := None\<rparr>;
          k = (case QueRemoveNext (LockQ l) (que k) of
                 (None, q) \<Rightarrow> set_lock l False (k\<lparr>que := q\<rparr>)
               | (Some t, q) \<Rightarrow>
                   let k = upd_tcb t (\<lambda>c. c\<lparr>klockwait := False, klocked := True\<rparr>) (k\<lparr>que := q\<rparr>)
                   in ready_queue_insert_top t k)
      in END_CRITICAL_SECTION (k\<lparr>schedtsk := ready_queue_top k\<rparr>))"

definition LockSVC_pass :: "tid \<Rightarrow> kernel \<Rightarrow> bool \<times> kernel" where
  "LockSVC_pass loc k =
     (let l = SvcLock loc; t = self k
      in if (case svclocked (tcb k t) of [] \<Rightarrow> False | u # _ \<Rightarrow> u = loc)
         then (True, END_CRITICAL_SECTION k)
         else if \<not> lock_held k l then
           let k = set_lock l True (k\<lparr>que := QueInit (LockQ l) (que k)\<rparr>);
               k = upd_tcb t (\<lambda>c. c\<lparr>svclocked := loc # svclocked c\<rparr>) k
           in (True, END_CRITICAL_SECTION k)
         else (False, END_CRITICAL_SECTION (klock_wait l k)))"

text \<open>Handing a lock that a task gives up to the first waiting task.\<close>

definition svc_pass :: "tid \<Rightarrow> kernel \<Rightarrow> tid option \<times> kernel" where
  "svc_pass loc k =
     (case QueRemoveNext (LockQ (SvcLock loc)) (que k) of
        (None, q) \<Rightarrow> (None, set_lock (SvcLock loc) False (k\<lparr>que := q\<rparr>))
      | (Some t, q) \<Rightarrow>
          let k = upd_tcb t (\<lambda>c. c\<lparr>klockwait := False, svclocked := loc # svclocked c\<rparr>) (k\<lparr>que := q\<rparr>)
          in (Some t, snd (ready_queue_insert t k)))"

text \<open>\<^verbatim>\<open>svclocked\<close> is dereferenced: the caller holds a lock.\<close>

definition UnlockSVC :: "kernel \<Rightarrow> kernel" where
  "UnlockSVC k =
     (let t = self k; loc = hd (svclocked (tcb k t));
          k = upd_tcb t (\<lambda>c. c\<lparr>svclocked := tl (svclocked c)\<rparr>) k
      in case svc_pass loc k of
           (None, k) \<Rightarrow> END_CRITICAL_SECTION k
         | (Some _, k) \<Rightarrow> END_CRITICAL_SECTION (k\<lparr>schedtsk := ready_queue_top k\<rparr>))"

text \<open>
  \<^verbatim>\<open>AllUnlockSVC\<close> takes locks from the list until it is empty. A task that waits for a lock it holds
  itself is handed that lock once more: one round more than the length of the list is enough. The
  function is called with interrupts disabled, so its end does not dispatch.
\<close>

fun svc_unlock_loop :: "nat \<Rightarrow> tid \<Rightarrow> kernel \<Rightarrow> kernel" where
  "svc_unlock_loop 0 t k = k"
| "svc_unlock_loop (Suc n) t k =
     (case svclocked (tcb k t) of
        [] \<Rightarrow> k
      | loc # _ \<Rightarrow>
          svc_unlock_loop n t (snd (svc_pass loc (upd_tcb t (\<lambda>c. c\<lparr>svclocked := tl (svclocked c)\<rparr>) k))))"

definition AllUnlockSVC :: "tid \<Rightarrow> kernel \<Rightarrow> kernel" where
  "AllUnlockSVC t k =
     (let k = svc_unlock_loop (Suc (length (svclocked (tcb k t)))) t k
      in k\<lparr>schedtsk := ready_queue_top k\<rparr>)"

end
