(* ===== verification/Task_Manage.thy ===== *)
theory Task_Manage
  imports Hooks Klock "HOL-Library.Signed_Division"
begin

text \<open>
  Task management (\<^verbatim>\<open>task_manage.c\<close>). What \<^verbatim>\<open>IAmalloc\<close> finds for the system stack and the user stack is
  an argument of \<open>tk_cre_tsk\<close>, an address (\<open>None\<close> when there is no memory); the calls of \<^verbatim>\<open>IAfree\<close> are a result, the
  list of freed blocks. Calls that may run the hooks of a wait take the hook table.
\<close>

record t_ctsk =
  ctsk_exinf :: nat
  ctsk_tskatr :: UW
  ctsk_task :: nat
  ctsk_itskpri :: int
  ctsk_stksz :: int
  ctsk_sstksz :: int
  ctsk_stkptr :: nat
  ctsk_uatb :: nat
  ctsk_lsid :: int
  ctsk_resid :: ID
  ctsk_dsname :: "UB list"

abbreviation (input) TA_SSTKSZ :: UW where "TA_SSTKSZ \<equiv> 0x2"
abbreviation (input) TA_USERSTACK :: UW where "TA_USERSTACK \<equiv> 0x4"
abbreviation (input) TA_TASKSPACE :: UW where "TA_TASKSPACE \<equiv> 0x8"
abbreviation (input) TA_RESID :: UW where "TA_RESID \<equiv> 0x10"
abbreviation (input) TA_RNG0 :: UW where "TA_RNG0 \<equiv> 0"
abbreviation (input) TA_RNG3 :: UW where "TA_RNG3 \<equiv> 0x300"
abbreviation (input) TA_COP :: UW where "TA_COP \<equiv> 0xF000"

definition VALID_TSKATR :: UW where
  "VALID_TSKATR = 1 OR TA_SSTKSZ OR TA_USERSTACK OR TA_TASKSPACE OR TA_RESID OR TA_RNG3 OR TA_COP OR TA_DSNAME"

definition CHECK_NOCOP :: "UW \<Rightarrow> kernel \<Rightarrow> ER option" where
  "CHECK_NOCOP atr k = CHECK (\<not> (atr AND TA_COP \<noteq> 0 \<and> atr AND available_cop k = 0)) E_NOCOP"

text \<open>The checks before the allocation, in the order of the code.\<close>

definition cre_tsk_checks :: "t_ctsk \<Rightarrow> kernel \<Rightarrow> ER option list" where
  "cre_tsk_checks pk k =
     (let atr = ctsk_tskatr pk
      in [CHECK_RSATR atr VALID_TSKATR, CHECK_PRI (ctsk_itskpri pk), CHECK_NOCOP atr k] @
         (if atr AND TA_USERSTACK \<noteq> 0
          then [CHECK_PAR (atr AND TA_RNG3 \<noteq> TA_RNG0), CHECK_PAR (ctsk_stksz pk = 0)]
          else [CHECK_PAR (0 \<le> ctsk_stksz pk)]) @
         (if atr AND TA_TASKSPACE \<noteq> 0
          then [CHECK_PAR (0 \<le> ctsk_lsid pk \<and> ctsk_lsid pk \<le> 255)] else []) @
         (if atr AND TA_RESID \<noteq> 0 then [CHECK_RESID (ctsk_resid pk) k] else []) @
         (if atr AND TA_SSTKSZ \<noteq> 0 then [CHECK_PAR (1024 \<le> ctsk_sstksz pk)] else []))"

text \<open>
  Stack sizes: the system stack of a task at protection level 0 takes the user stack's part. Sums and
  rounding are those of 32-bit \<^verbatim>\<open>INT\<close>s, which wrap around; \<^verbatim>\<open>/\<close> truncates towards zero.
\<close>

definition wrap_INT :: "int \<Rightarrow> int" where
  "wrap_INT x = sint (word_of_int x :: 32 word)"

definition round8 :: "int \<Rightarrow> int" where
  "round8 n = wrap_INT (n + 7) sdiv 8 * 8"

definition cre_tsk_stacks :: "t_ctsk \<Rightarrow> kernel \<Rightarrow> int \<times> int" where
  "cre_tsk_stacks pk k =
     (let ss = (if ctsk_tskatr pk AND TA_SSTKSZ \<noteq> 0 then ctsk_sstksz pk else default_sstksz k)
      in if ctsk_tskatr pk AND TA_RNG3 = TA_RNG0
         then (round8 (wrap_INT (ss + ctsk_stksz pk)), round8 0)
         else (round8 ss, round8 (ctsk_stksz pk)))"

text \<open>
  A size that leaves room for the rounding is rounded up to a multiple of 8; from \<open>2\<^sup>31 - 7\<close> on the result
  is negative.
\<close>

lemma wrap_INT_small: "- (2 ^ 31) \<le> x \<Longrightarrow> x < 2 ^ 31 \<Longrightarrow> wrap_INT x = x"
  by (simp add: wrap_INT_def sint_sbintrunc' signed_take_bit_int_eq_self)

lemma wrap_INT_over: "2 ^ 31 \<le> x \<Longrightarrow> x < 2 ^ 31 + 2 ^ 32 \<Longrightarrow> wrap_INT x = x - 2 ^ 32"
proof -
  assume x: "2 ^ 31 \<le> x" "x < 2 ^ 31 + 2 ^ 32"
  have "(word_of_int x :: 32 word) = word_of_int (x - 2 ^ 32)"
    by (subst word_uint_eq_iff, unfold uint_word_of_int) (simp add: mod_diff_eq [symmetric])
  then have "wrap_INT x = wrap_INT (x - 2 ^ 32)" by (simp only: wrap_INT_def)
  also have "\<dots> = x - 2 ^ 32" by (rule wrap_INT_small) (use x in simp_all)
  finally show ?thesis .
qed

lemma round8_fits:
  assumes "0 \<le> n" "n < 2 ^ 31 - 7"
  shows "round8 n = (n + 7) div 8 * 8" "n \<le> round8 n" "round8 n < n + 8"
proof -
  show *: "round8 n = (n + 7) div 8 * 8"
    using assms wrap_INT_small [of "n + 7"] by (simp add: round8_def signed_divide_int_def)
  show "n \<le> round8 n" "round8 n < n + 8" unfolding * by presburger+
qed

lemma round8_overflows:
  assumes "2 ^ 31 - 7 \<le> n" "n < 2 ^ 31"
  shows "round8 n < 0"
  using assms wrap_INT_over [of "n + 7"] by (simp add: round8_def signed_divide_int_def sgn_if)

definition tk_cre_tsk ::
  "t_ctsk \<Rightarrow> UW option \<Rightarrow> UW option \<Rightarrow> kernel \<Rightarrow> ER \<times> UW list \<times> kernel" where
  "tk_cre_tsk pk sstack stack k =
     (case first_error (cre_tsk_checks pk k) of
        Some e \<Rightarrow> (e, [], k)
      | None \<Rightarrow>
          let atr = ctsk_tskatr pk; (sstksz, stksz) = cre_tsk_stacks pk k
          in case sstack of
               None \<Rightarrow> (E_NOMEM, [], k)
             | Some ss \<Rightarrow>
                 if 0 < stksz \<and> stack = None then (E_NOMEM, [ss], k)
                 else case QueRemoveNext FreeTcb (que k) of
                   (None, q) \<Rightarrow>
                     (E_LIMIT, ss # (if 0 < stksz then [the stack] else []),
                      END_CRITICAL_SECTION (k\<lparr>que := q\<rparr>))
                 | (Some t, q) \<Rightarrow>
                     let k = k\<lparr>que := q\<rparr>;
                         k = upd_tcb t (\<lambda>c. c
                           \<lparr>exinf := ctsk_exinf pk, tskatr := atr, tskentry := ctsk_task pk,
                            ipriority := int_priority (ctsk_itskpri pk) mod 256,
                            resid := (if atr AND TA_RESID \<noteq> 0 then ctsk_resid pk else 1),
                            stksz := stksz, sstksz := sstksz\<rparr>) k;
                         k = (if atr AND TA_DSNAME \<noteq> 0
                              then upd_tcb t (\<lambda>c. c\<lparr>tskname := strncpy (ctsk_dsname pk) 8\<rparr>) k else k);
                         sm = (if atr AND TA_RNG3 = TA_RNG0 then 1 else 0);
                         k = upd_tcb t (\<lambda>c. c
                           \<lparr>istack := (if 0 < stksz then unat (the stack + word_of_int stksz) else ctsk_stkptr pk),
                            isstack := unat (ss + word_of_int sstksz),
                            isysmode := sm, sysmode := sm,
                            uatb := (if atr AND TA_TASKSPACE \<noteq> 0 then ctsk_uatb pk else 0),
                            lsid := (if atr AND TA_TASKSPACE \<noteq> 0 then ctsk_lsid pk else 0)\<rparr>) k;
                         k = make_dormant t k
                     in (tskid (tcb k t), [], END_CRITICAL_SECTION k))"

text \<open>\<^verbatim>\<open>_del_tsk\<close>\<close>

definition del_tsk :: "tid \<Rightarrow> kernel \<Rightarrow> UW list \<times> kernel" where
  "del_tsk t k =
     (let c = tcb k t;
          frees = (of_nat (isstack c) - word_of_int (sstksz c)) #
            (if 0 < stksz c then [of_nat (istack c) - word_of_int (stksz c)] else []);
          k = que_append t FreeTcb k
      in (frees, upd_tcb t (\<lambda>c. c\<lparr>state := TS_NONEXIST\<rparr>) k))"

definition tk_del_tsk :: "ID \<Rightarrow> kernel \<Rightarrow> ER \<times> UW list \<times> kernel" where
  "tk_del_tsk oid k =
     (case first_error [CHECK_TSKID oid k, CHECK_NONSELF oid k] of
        Some e \<Rightarrow> (e, [], k)
      | None \<Rightarrow>
          let t = get_tcb oid; st = state (tcb k t)
          in if st \<noteq> TS_DORMANT
             then ((if st = TS_NONEXIST then E_NOEXS else E_OBJ), [], END_CRITICAL_SECTION k)
             else let (frees, k) = del_tsk t k in (E_OK, frees, END_CRITICAL_SECTION k))"

definition tk_sta_tsk :: "ID \<Rightarrow> int \<Rightarrow> kernel \<Rightarrow> ER \<times> kernel" where
  "tk_sta_tsk oid stacd k =
     checked [CHECK_TSKID oid k, CHECK_NONSELF oid k] k
       (let t = get_tcb oid; st = state (tcb k t)
        in if st \<noteq> TS_DORMANT
           then ((if st = TS_NONEXIST then E_NOEXS else E_OBJ), END_CRITICAL_SECTION k)
           else (E_OK, END_CRITICAL_SECTION (make_ready t (setup_stacd t stacd k))))"

text \<open>\<^verbatim>\<open>_ter_tsk\<close>; \<^verbatim>\<open>cleanup_context\<close> does nothing on this target.\<close>

definition ter_tsk :: "hooks \<Rightarrow> tid \<Rightarrow> kernel \<Rightarrow> kernel option" where
  "ter_tsk hk t k =
     (let k = (if svclocked (tcb k t) \<noteq> [] then AllUnlockSVC t k else k);
          st = state (tcb k t)
      in Option.bind
           (if st = TS_READY then Some (make_non_ready t k)
            else if ts_wait st then call_rel_wai_hook hk t (wait_cancel t k)
            else Some k)
           (signal_all_mutex hk t))"

text \<open>
  \<^verbatim>\<open>force_dispatch\<close> throws the context away and runs the dispatcher, which enables dispatching again.
  \<open>tk_ext_tsk\<close> and \<open>tk_exd_tsk\<close> do not return to the caller; from a task-independent part they enter the
  monitor, which is not modelled.
\<close>

definition force_dispatch :: "kernel \<Rightarrow> kernel" where
  "force_dispatch k = dispatch (k\<lparr>dispatch_disabled := 0, isDI := False\<rparr>)"

definition tk_ext_tsk :: "hooks \<Rightarrow> kernel \<Rightarrow> kernel option" where
  "tk_ext_tsk hk k =
     map_option (\<lambda>k'. force_dispatch (make_dormant (self k) k')) (ter_tsk hk (self k) k)"

definition tk_exd_tsk :: "hooks \<Rightarrow> kernel \<Rightarrow> (UW list \<times> kernel) option" where
  "tk_exd_tsk hk k =
     map_option (\<lambda>k'. let (frees, k') = del_tsk (self k) k' in (frees, force_dispatch k'))
       (ter_tsk hk (self k) k)"

definition tk_ter_tsk :: "hooks \<Rightarrow> ID \<Rightarrow> kernel \<Rightarrow> (ER \<times> kernel) option" where
  "tk_ter_tsk hk oid k =
     checked_opt [CHECK_TSKID oid k, CHECK_NONSELF oid k] k
       (let t = get_tcb oid; st = state (tcb k t)
        in if \<not> task_alive st
           then Some ((if st = TS_NONEXIST then E_NOEXS else E_OBJ), END_CRITICAL_SECTION k)
           else if klocked (tcb k t) then Some (E_OBJ, END_CRITICAL_SECTION k)
           else map_option (\<lambda>k. (E_OK, END_CRITICAL_SECTION (make_dormant t k))) (ter_tsk hk t k))"

definition tk_chg_pri :: "hooks \<Rightarrow> ID \<Rightarrow> int \<Rightarrow> kernel \<Rightarrow> (ER \<times> kernel) option" where
  "tk_chg_pri hk oid tskpri k =
     checked_opt [CHECK_TSKID_SELF oid k, CHECK_PRI_INI tskpri] k
       (let t = get_tcb_self oid k
        in if state (tcb k t) = TS_NONEXIST then Some (E_NOEXS, END_CRITICAL_SECTION k)
           else
             let pri = (if tskpri = TPRI_INI then ipriority (tcb k t) else int_priority tskpri);
                 ercd = chg_pri_mutex t (int pri) k
             in if ercd < E_OK then Some (ercd, END_CRITICAL_SECTION k)
                else map_option (\<lambda>k. (E_OK, END_CRITICAL_SECTION k))
                  (change_task_priority hk t (nat ercd)
                    (upd_tcb t (\<lambda>c. c\<lparr>bpriority := pri mod 256\<rparr>) k)))"

definition tk_rot_rdq :: "int \<Rightarrow> kernel \<Rightarrow> ER \<times> kernel" where
  "tk_rot_rdq tskpri k =
     checked [CHECK_PRI_RUN tskpri] k
       (E_OK, END_CRITICAL_SECTION
          (if tskpri = TPRI_RUN then
             if in_indp k then rotate_ready_queue_run k
             else rotate_ready_queue (priority (tcb k (self k))) k
           else rotate_ready_queue (int_priority tskpri) k))"

definition tk_chg_slt_u :: "ID \<Rightarrow> D \<Rightarrow> kernel \<Rightarrow> ER \<times> kernel" where
  "tk_chg_slt_u oid slt k =
     checked [CHECK_TSKID_SELF oid k] k
       (let t = get_tcb_self oid k
        in if state (tcb k t) = TS_NONEXIST then (E_NOEXS, END_CRITICAL_SECTION k)
           else (E_OK, END_CRITICAL_SECTION (upd_tcb t (\<lambda>c. c\<lparr>slicetime := slt\<rparr>) k)))"

definition tk_chg_slt :: "ID \<Rightarrow> UW \<Rightarrow> kernel \<Rightarrow> ER \<times> kernel" where
  "tk_chg_slt oid slt k = tk_chg_slt_u oid (to_usec (ucast slt)) k"

definition tk_get_tid :: "kernel \<Rightarrow> ID" where
  "tk_get_tid k = (case ctxtsk k of None \<Rightarrow> 0 | Some t \<Rightarrow> tskid (tcb k t))"


subsection \<open>References\<close>

text \<open>
  The packets. \<open>None\<close>: the packet is not written; \<^verbatim>\<open>_tk_ref_tsk\<close> then copies an uninitialised local
  packet. With \<^verbatim>\<open>E_NOEXS\<close> the microsecond call has cleared the packet.
\<close>

record t_rtsk =
  rtsk_exinf :: nat
  rtsk_tskpri :: int
  rtsk_tskbpri :: int
  rtsk_tskstat :: UW
  rtsk_tskwait :: UW
  rtsk_wid :: ID
  rtsk_wupcnt :: int
  rtsk_suscnt :: int
  rtsk_slicetime :: D
  rtsk_waitmask :: UW
  rtsk_texmask :: UW
  rtsk_tskevent :: UB

record t_itsk =
  itsk_stime :: D
  itsk_utime :: D

definition zero_rtsk :: t_rtsk where
  "zero_rtsk = \<lparr>rtsk_exinf = 0, rtsk_tskpri = 0, rtsk_tskbpri = 0, rtsk_tskstat = 0, rtsk_tskwait = 0,
     rtsk_wid = 0, rtsk_wupcnt = 0, rtsk_suscnt = 0, rtsk_slicetime = 0, rtsk_waitmask = 0,
     rtsk_texmask = 0, rtsk_tskevent = 0\<rparr>"

text \<open>The state of a task as the calls report it; \<open>nodis\<close> is the \<^verbatim>\<open>nodiswai\<close> flag that is looked at.\<close>

definition rtsk_info :: "tid \<Rightarrow> bool \<Rightarrow> kernel \<Rightarrow> t_rtsk" where
  "rtsk_info t nodis k =
     (let c = tcb k t; st = state c; waits = ts_wait st;
          stat = (if st = TS_READY \<and> Some t = ctxtsk k then 1 else push_bit 1 (tstat_code st))
      in \<lparr>rtsk_exinf = exinf c, rtsk_tskpri = ext_tskpri (priority c), rtsk_tskbpri = ext_tskpri (bpriority c),
          rtsk_tskstat = (if waits \<and> nodis then stat OR 0x80 else stat),
          rtsk_tskwait = (if waits then tskwait (wspec c) else 0), rtsk_wid = (if waits then wid c else 0),
          rtsk_wupcnt = wupcnt c, rtsk_suscnt = suscnt c, rtsk_slicetime = slicetime c,
          rtsk_waitmask = waitmask c, rtsk_texmask = texmask c, rtsk_tskevent = tskevt c\<rparr>)"

definition tk_ref_tsk_u :: "ID \<Rightarrow> kernel \<Rightarrow> (ER \<times> t_rtsk option) \<times> kernel" where
  "tk_ref_tsk_u oid k =
     (case CHECK_TSKID_SELF oid k of
        Some e \<Rightarrow> ((e, None), k)
      | None \<Rightarrow>
          let t = get_tcb_self oid k
          in (if state (tcb k t) = TS_NONEXIST then (E_NOEXS, Some zero_rtsk)
              else (E_OK, Some (rtsk_info t (nodiswai (tcb k t)) k)),
              END_CRITICAL_SECTION k))"

definition rtsk_msec :: "t_rtsk \<Rightarrow> t_rtsk" where
  "rtsk_msec r = r\<lparr>rtsk_slicetime := ucast (ucast (to_msec (rtsk_slicetime r)) :: UW)\<rparr>"

definition tk_ref_tsk :: "ID \<Rightarrow> kernel \<Rightarrow> (ER \<times> t_rtsk option) \<times> kernel" where
  "tk_ref_tsk oid k = (let ((e, r), k) = tk_ref_tsk_u oid k in ((e, map_option rtsk_msec r), k))"

text \<open>The execution times, cleared on demand.\<close>

definition inf_tsk_clear :: "tid \<Rightarrow> bool \<Rightarrow> kernel \<Rightarrow> kernel" where
  "inf_tsk_clear t clr k = (if clr then upd_tcb t (\<lambda>c. c\<lparr>stime := 0, utime := 0\<rparr>) k else k)"

definition tk_inf_tsk_u :: "ID \<Rightarrow> bool \<Rightarrow> kernel \<Rightarrow> (ER \<times> t_itsk option) \<times> kernel" where
  "tk_inf_tsk_u oid clr k =
     (case CHECK_TSKID_SELF oid k of
        Some e \<Rightarrow> ((e, None), k)
      | None \<Rightarrow>
          let t = get_tcb_self oid k
          in if state (tcb k t) = TS_NONEXIST then ((E_NOEXS, None), END_CRITICAL_SECTION k)
             else ((E_OK, Some \<lparr>itsk_stime = stime (tcb k t), itsk_utime = utime (tcb k t)\<rparr>),
                   END_CRITICAL_SECTION (inf_tsk_clear t clr k)))"

definition itsk_msec :: "t_itsk \<Rightarrow> t_itsk" where
  "itsk_msec r = \<lparr>itsk_stime = ucast (ucast (to_msec (itsk_stime r)) :: UW),
     itsk_utime = ucast (ucast (to_msec (itsk_utime r)) :: UW)\<rparr>"

definition tk_inf_tsk :: "ID \<Rightarrow> bool \<Rightarrow> kernel \<Rightarrow> (ER \<times> t_itsk option) \<times> kernel" where
  "tk_inf_tsk oid clr k = (let ((e, r), k) = tk_inf_tsk_u oid clr k in ((e, map_option itsk_msec r), k))"

definition tk_get_rid :: "ID \<Rightarrow> kernel \<Rightarrow> ID \<times> kernel" where
  "tk_get_rid oid k =
     checked [CHECK_TSKID_SELF oid k] k
       (let t = get_tcb_self oid k
        in (if state (tcb k t) = TS_NONEXIST then E_NOEXS else resid (tcb k t), END_CRITICAL_SECTION k))"

definition tk_set_rid :: "ID \<Rightarrow> ID \<Rightarrow> kernel \<Rightarrow> ID \<times> kernel" where
  "tk_set_rid oid rid k =
     checked [CHECK_TSKID_SELF oid k, CHECK_RESID rid k] k
       (let t = get_tcb_self oid k
        in if state (tcb k t) = TS_NONEXIST then (E_NOEXS, END_CRITICAL_SECTION k)
           else (resid (tcb k t), END_CRITICAL_SECTION (upd_tcb t (\<lambda>c. c\<lparr>resid := rid\<rparr>) k)))"

subsection \<open>Releasing and disabling waits\<close>

definition tk_rel_wai :: "hooks \<Rightarrow> ID \<Rightarrow> kernel \<Rightarrow> (ER \<times> kernel) option" where
  "tk_rel_wai hk oid k =
     checked_opt [CHECK_TSKID oid k] k
       (let t = get_tcb oid; st = state (tcb k t)
        in if \<not> ts_wait st
           then Some ((if st = TS_NONEXIST then E_NOEXS else E_OBJ), END_CRITICAL_SECTION k)
           else map_option (\<lambda>k. (E_OK, END_CRITICAL_SECTION k)) (wait_release_ng hk t E_RLWAI k))"

abbreviation (input) WAIT_PATTERN :: UW where "WAIT_PATTERN \<equiv> 0x80FF7FCF"

definition tk_dis_wai :: "hooks \<Rightarrow> ID \<Rightarrow> UW \<Rightarrow> kernel \<Rightarrow> (int \<times> kernel) option" where
  "tk_dis_wai hk oid wmask k =
     checked_opt [CHECK_TSKID_SELF oid k,
                  CHECK_PAR (wmask AND NOT WAIT_PATTERN = 0 \<and> wmask AND WAIT_PATTERN \<noteq> 0)] k
       (let t = get_tcb_self oid k
        in if state (tcb k t) = TS_NONEXIST then Some (E_NOEXS, END_CRITICAL_SECTION k)
           else
             let k = upd_tcb t (\<lambda>c. c\<lparr>waitmask := wmask\<rparr>) k
             in if ts_wait (state (tcb k t)) then
                  let tw = tskwait (wspec (tcb k t))
                  in if tw AND wmask \<noteq> 0 \<and> \<not> nodiswai (tcb k t)
                     then map_option (\<lambda>k. (0, END_CRITICAL_SECTION k)) (wait_release_ng hk t E_DISWAI k)
                     else Some (sint tw, END_CRITICAL_SECTION k)
                else Some (0, END_CRITICAL_SECTION k))"

definition tk_ena_wai :: "ID \<Rightarrow> kernel \<Rightarrow> ER \<times> kernel" where
  "tk_ena_wai oid k =
     checked [CHECK_TSKID_SELF oid k] k
       (let t = get_tcb_self oid k
        in if state (tcb k t) = TS_NONEXIST then (E_NOEXS, END_CRITICAL_SECTION k)
           else (E_OK, END_CRITICAL_SECTION (upd_tcb t (\<lambda>c. c\<lparr>waitmask := 0\<rparr>) k)))"

subsection \<open>Debugger support\<close>

definition task_getname :: "ID \<Rightarrow> kernel \<Rightarrow> ER \<times> UB list option" where
  "task_getname oid k =
     (case CHECK_TSKID_SELF oid k of
        Some e \<Rightarrow> (e, None)
      | None \<Rightarrow>
          let t = get_tcb_self oid k
          in if state (tcb k t) = TS_NONEXIST then (E_NOEXS, None)
             else if tskatr (tcb k t) AND TA_DSNAME = 0 then (E_OBJ, None)
             else (E_OK, Some (tskname (tcb k t))))"

definition td_lst_tsk :: "int \<Rightarrow> kernel \<Rightarrow> int \<times> ID list" where
  "td_lst_tsk nent k =
     id_list (map (\<lambda>t. tskid (tcb k t)) (filter (\<lambda>t. state (tcb k t) \<noteq> TS_NONEXIST) [0..<NUM_TSKID k])) nent"

record td_rtsk = t_rtsk +
  rtsk_task :: nat
  rtsk_stksz :: int
  rtsk_sstksz :: int
  rtsk_istack :: nat
  rtsk_isstack :: nat

text \<open>Here the code looks at the \<^verbatim>\<open>nodiswai\<close> flag of \<^verbatim>\<open>ctxtsk\<close>, not of the task that is asked about.\<close>

definition td_ref_tsk_u :: "ID \<Rightarrow> kernel \<Rightarrow> ER \<times> td_rtsk option" where
  "td_ref_tsk_u oid k =
     (case CHECK_TSKID_SELF oid k of
        Some e \<Rightarrow> (e, None)
      | None \<Rightarrow>
          let t = get_tcb_self oid k; c = tcb k t
          in if state c = TS_NONEXIST
             then (E_NOEXS, Some (t_rtsk.extend zero_rtsk
               (td_rtsk.fields 0 0 0 0 0)))
             else (E_OK, Some (t_rtsk.extend (rtsk_info t (nodiswai (tcb k (self k))) k)
               (td_rtsk.fields (tskentry c) (stksz c) (sstksz c) (istack c) (isstack c)))))"

definition td_ref_tsk :: "ID \<Rightarrow> kernel \<Rightarrow> ER \<times> td_rtsk option" where
  "td_ref_tsk oid k =
     (let (e, r) = td_ref_tsk_u oid k
      in (e, map_option (\<lambda>r. r\<lparr>rtsk_slicetime := ucast (ucast (to_msec (rtsk_slicetime r)) :: UW)\<rparr>) r))"

definition td_inf_tsk_u :: "ID \<Rightarrow> bool \<Rightarrow> kernel \<Rightarrow> (ER \<times> t_itsk option) \<times> kernel" where
  "td_inf_tsk_u oid clr k =
     (case CHECK_TSKID_SELF oid k of
        Some e \<Rightarrow> ((e, None), k)
      | None \<Rightarrow>
          let t = get_tcb_self oid k
          in if state (tcb k t) = TS_NONEXIST then ((E_NOEXS, None), k)
             else ((E_OK, Some \<lparr>itsk_stime = stime (tcb k t), itsk_utime = utime (tcb k t)\<rparr>),
                   inf_tsk_clear t clr k))"

definition td_inf_tsk :: "ID \<Rightarrow> bool \<Rightarrow> kernel \<Rightarrow> (ER \<times> t_itsk option) \<times> kernel" where
  "td_inf_tsk oid clr k = (let ((e, r), k) = td_inf_tsk_u oid clr k in ((e, map_option itsk_msec r), k))"

end
