(* ===== verification/Task_Life.thy ===== *)
theory Task_Life
  imports Timer_Queue Task_Manage
begin

text \<open>
  Task management on a consistent kernel: releasing a task from whatever it waits for, changing its
  priority, and its life from creation to deletion.
\<close>

definition kernel_sys :: "kernel \<Rightarrow> bool" where
  "kernel_sys k \<longleftrightarrow> sys_ok k \<and> ctx_ok k \<and> (\<forall>t. ctxtsk k = Some t \<longrightarrow> exists_task t k)"

lemma kernel_sysD:
  assumes "kernel_sys k"
  shows "sys_ok k" "kinv {} k" "kernel_ok k" "ctxtsk k = Some t \<Longrightarrow> exists_task t k"
  using assms by (simp_all add: kernel_sys_def sys_ok_def kernel_ok_def)

lemma kernel_sys_END:
  assumes "sys_ok k" "\<And>t. ctxtsk k = Some t \<Longrightarrow> exists_task t k"
  shows "kernel_sys (END_CRITICAL_SECTION k)"
proof -
  note e = sys_ok_END [OF assms(1)]
  have "exists_task t k" if "ctxtsk (END_CRITICAL_SECTION k) = Some t" for t
    using that assms(2) kinv_sched(1,3) [OF sys_ok_kinv [OF assms(1)], of t] sys_ok_kinv [OF assms(1)]
    by (auto simp: END_CRITICAL_SECTION_def dispatch_def kinv_def exists_task_def split: if_splits)
  with e show ?thesis by (simp add: kernel_sys_def kernel_ok_def)
qed

lemma get_tcb_self_less:
  assumes "kernel_sys k" "CHECK_TSKID_SELF oid k = None"
  shows "get_tcb_self oid k < NUM_TSKID k"
proof (cases "oid = TSK_SELF")
  case True
  then have "\<not> in_indp k" using assms(2) by (auto simp: CHECK_TSKID_SELF_def CHK_TSKID_def)
  then obtain t where "ctxtsk k = Some t" by (auto simp: in_indp_def)
  with kernel_sysD(4) [OF assms(1), of t] True show ?thesis by (simp add: get_tcb_self_def self_def exists_task_def)
next
  case False
  with assms(2) show ?thesis
    by (auto simp: CHECK_TSKID_SELF_def CHK_TSKID_def get_tcb_self_def get_tcb_def INDEX_def NUM_TSKID_def)
qed

subsection \<open>Release\<close>

lemma wait_release_ng_sys:
  assumes ok: "sys_ok k" and t: "t < NUM_TSKID k" "ts_wait (state (tcb k t))"
  obtains k' where "wait_release_ng (kernel_hooks k) t e k = Some k'" "sys_ok k'"
    "state (tcb k' t) = (if state (tcb k t) = TS_WAIT then TS_READY else TS_SUSPEND)" "wercd (tcb k' t) = e"
    "\<forall>u. u \<noteq> t \<longrightarrow> \<not> wakeable u k \<longrightarrow> state (tcb k' u) = state (tcb k u)"
    "\<forall>u. u \<noteq> t \<longrightarrow> state (tcb k' u) = state (tcb k u) \<or> (ts_wait (state (tcb k u)) \<and> state (tcb k' u) \<in> {TS_READY, TS_SUSPEND})"
    "TskTmeb t \<notin> set (timer_queue k')" "fixed_objs k' = fixed_objs k" "\<forall>u. exists_task u k' = exists_task u k"
proof -
  note goal = that
  obtain M where kv: "kinv {} k" and M: "objects_ok M k" and good: "mtx_good {} k" using ok by (rule sys_okE)
  obtain m where m: "kernel_hooks k = hooks_n (Suc m)" "NUM_TSKID k < m"
    by (rule that [of "NUM_TSKID k + 1"]) (simp_all add: kernel_hooks_def)
  obtain k1 where k1: "call_rel_wai_hook (hooks_n (Suc m)) t (wait_release t k) = Some k1" "let_go M t k k1"
    using rel_hook_let_go [OF kv M good t m(2)] by blast
  have pc: "pri_changed (wait_release t k) k1" and s1: "objects_ok M k1" "mtx_good {} k1"
    using k1(2) by (simp_all add: let_go_def)
  note p = pri_changedD [OF pc] and r = releasedD [OF released_wait_release [OF kv t]]
  have ok1: "sys_ok k1" using p(1) s1 by (auto simp: sys_ok_def)
  let ?k = "set_wercd t e k1"
  have sys: "sys_ok ?k"
    by (rule sys_ok_cong [OF ok1 kinv_set_wercd [OF p(1)]]) (simp_all add: same_tcb_def set_wercd_def)
  have st: "state (tcb ?k u) = state (tcb k1 u)" for u by (simp add: set_wercd_def)
  have own: "state (tcb k1 t) = (if state (tcb k t) = TS_WAIT then TS_READY else TS_SUSPEND)"
    using p(4) [of t] r(8) [of t] by auto
  note wk = released_wakeable [OF released_wait_release [OF kv t]]
  show thesis
  proof (rule goal)
    show "wait_release_ng (kernel_hooks k) t e k = Some ?k"
      using k1(1) by (simp add: wait_release_ng_def m(1) del: hooks_n.simps)
    show "\<forall>u. u \<noteq> t \<longrightarrow> \<not> wakeable u k \<longrightarrow> state (tcb ?k u) = state (tcb k u)"
      using p(4) r(8) wk unfolding st by (metis singletonD)
    show "\<forall>u. u \<noteq> t \<longrightarrow> state (tcb ?k u) = state (tcb k u) \<or>
        (ts_wait (state (tcb k u)) \<and> state (tcb ?k u) \<in> {TS_READY, TS_SUSPEND})"
      using p(4) r(8) unfolding st by (metis singletonD)
    show "\<forall>u. exists_task u ?k = exists_task u k"
      using pri_changed_exists [OF pc] released_exists [OF released_wait_release [OF kv t]] by (simp add: set_wercd_def)
    show "TskTmeb t \<notin> set (timer_queue ?k)" using p(9) own by (auto split: if_splits)
    show "fixed_objs ?k = fixed_objs k"
      using p(2) fixed_objs_objs [OF wait_release_frame(1) [of t k]] fixed_objs_objs [OF set_wercd_frame(1) [of t e k1]] by simp
  qed (use sys own in \<open>simp_all add: set_wercd_def\<close>)
qed

text \<open>
  C32: Releasing a task from outside. The checks come in the order of the code and a refused call changes no
  task and no queue. Otherwise the call returns, whatever the task waited for and however many tasks depend
  on it: the task leaves its queue and its timeout, is ready or stays suspended, and its waiting call will
  report \<open>E_RLWAI\<close>; nobody else moves but waiters of a semaphore or a message buffer that can be served now, and all objects
  stay consistent.
\<close>

theorem tk_rel_wai_result:
  assumes sys: "kernel_sys k" and t: "t = get_tcb oid"
  shows "\<exists>r k'. tk_rel_wai (kernel_hooks k) oid k = Some (r, k') \<and> kernel_sys k' \<and>
    (case CHECK_TSKID oid k of
       Some e \<Rightarrow> r = e \<and> k' = k
     | None \<Rightarrow>
         if ts_wait (state (tcb k t)) then
           r = E_OK \<and> state (tcb k' t) = (if state (tcb k t) = TS_WAIT then TS_READY else TS_SUSPEND) \<and>
           wercd (tcb k' t) = E_RLWAI \<and> (\<forall>h. wait_queue h \<longrightarrow> t \<notin> set (que k' h)) \<and> TskTmeb t \<notin> set (timer_queue k') \<and>
           (\<forall>u. u \<noteq> t \<and> \<not> wakeable u k \<longrightarrow> state (tcb k' u) = state (tcb k u)) \<and>
           (\<forall>u. u \<noteq> t \<and> ts_wait (state (tcb k' u)) \<longrightarrow> state (tcb k' u) = state (tcb k u))
         else r = (if state (tcb k t) = TS_NONEXIST then E_NOEXS else E_OBJ) \<and>
           tcb_table k' = tcb_table k \<and> que k' = que k)"
proof (cases "CHECK_TSKID oid k")
  case None
  then have tl: "t < NUM_TSKID k" using CHECK_TSKID_less t by simp
  note ok = kernel_sysD(1) [OF sys]
  show ?thesis
  proof (cases "ts_wait (state (tcb k t))")
    case True
    obtain k' where k': "wait_release_ng (kernel_hooks k) t E_RLWAI k = Some k'" "sys_ok k'"
        "state (tcb k' t) = (if state (tcb k t) = TS_WAIT then TS_READY else TS_SUSPEND)" "wercd (tcb k' t) = E_RLWAI"
        "\<forall>u. u \<noteq> t \<longrightarrow> \<not> wakeable u k \<longrightarrow> state (tcb k' u) = state (tcb k u)"
        "\<forall>u. u \<noteq> t \<longrightarrow> state (tcb k' u) = state (tcb k u) \<or> (ts_wait (state (tcb k u)) \<and> state (tcb k' u) \<in> {TS_READY, TS_SUSPEND})"
        "TskTmeb t \<notin> set (timer_queue k')" "fixed_objs k' = fixed_objs k" "\<forall>u. exists_task u k' = exists_task u k"
      by (rule wait_release_ng_sys [OF ok tl True]) (rule that; assumption)
    note o = fixed_objs_eqD [OF k'(8)]
    have "kernel_sys (END_CRITICAL_SECTION k')"
      by (rule kernel_sys_END [OF k'(2)]) (use kernel_sysD(4) [OF sys] k'(9) in \<open>simp add: o\<close>)
    moreover have "t \<notin> set (que k' h)" if "wait_queue h" for h
      using kinv_waiter(2) [OF sys_ok_kinv [OF k'(2)], of t h] k'(3) that by (cases h) (auto split: if_splits)
    ultimately show ?thesis
      using None True k' t [symmetric] by (auto simp: tk_rel_wai_def checked_opt_def)
  next
    case False
    have "kernel_sys (END_CRITICAL_SECTION k)" by (rule kernel_sys_END [OF ok kernel_sysD(4) [OF sys]])
    with None False t [symmetric] show ?thesis by (simp add: tk_rel_wai_def checked_opt_def)
  qed
qed (use sys in \<open>simp add: tk_rel_wai_def checked_opt_def\<close>)

subsection \<open>Change of the base priority\<close>

lemma mtx_inv_bpriority:
  assumes "mtx_inv Y k"
  shows "mtx_inv Y (upd_tcb t (\<lambda>c. c\<lparr>bpriority := p\<rparr>) k)"
proof -
  let ?k = "upd_tcb t (\<lambda>c. c\<lparr>bpriority := p\<rparr>) k"
  have f: "priority (tcb ?k u) = priority (tcb k u)" "wid (tcb ?k u) = wid (tcb k u)" "wspec (tcb ?k u) = wspec (tcb k u)"
    "mtxlist (tcb ?k u) = mtxlist (tcb k u)" "state (tcb ?k u) = state (tcb k u)" for u by simp_all
  note o = objs_eqD [OF objs_upd_tcb [of t "\<lambda>c. c\<lparr>bpriority := p\<rparr>" k]]
  have "wq_ok h a d s ?k = wq_ok h a d s k" for h a d s by (simp add: wq_ok_def f del: upd_tcb_sel(1))
  moreover have ex: "exists_task u ?k = exists_task u k" for u by simp
  moreover have "mtx_owned i ?k = mtx_owned i k" for i
    by (simp add: mtx_owned_def o ex f del: upd_tcb_sel(1) split: option.split)
  ultimately have "mtx_ok Y i ?k = mtx_ok Y i k" for i by (simp add: mtx_ok_def o mtx_kind_def)
  moreover have "held_ok Y u ?k = held_ok Y u k" for u by (simp add: held_ok_def o f del: upd_tcb_sel(1))
  ultimately show ?thesis using assms by (simp add: mtx_inv_def o ex)
qed

lemma chain_follows:
  assumes "mtx_inv {} k"
  shows "follows {v. (t, v) \<in> (mtx_blocks k)\<^sup>*} {} k"
  unfolding follows_def mtx_blocks_def by (auto intro: rtrancl_into_rtrancl)

text \<open>A new base priority within the limit: the task and its chain of owners are exact again.\<close>

lemma chg_pri_exact:
  assumes ok: "sys_ok k" and ex: "exists_task t k" and pn: "p < NUM_PRI" and lim: "\<not> int p < pri_limit t k"
  obtains k1 where "change_task_priority (kernel_hooks k) t (nat (chg_pri_mutex t (int p) k))
      (upd_tcb t (\<lambda>c. c\<lparr>bpriority := p\<rparr>) k) = Some k1" "\<not> chg_pri_mutex t (int p) k < E_OK"
    "pri_changed (upd_tcb t (\<lambda>c. c\<lparr>bpriority := p\<rparr>) k) k1" "sys_ok k1" "mtx_good {} k1"
    "\<forall>u. (t, u) \<notin> (mtx_blocks k)\<^sup>* \<longrightarrow> priority (tcb k1 u) = priority (tcb k u)"
proof -
  note goal = that
  obtain M where kv: "kinv {} k" and M: "objects_ok M k" and good: "mtx_good {} k" using ok by (rule sys_okE)
  let ?k = "upd_tcb t (\<lambda>c. c\<lparr>bpriority := p\<rparr>) k"
  let ?m = "Min (claims t ?k)" and ?R = "{v. (t, v) \<in> (mtx_blocks k)\<^sup>*}"
  note inv = mtx_goodD(1) [OF good]
  have kv0: "kinv {} ?k" by (rule kinv_upd_tcb [OF kv]) (use pn in \<open>auto simp: wf_tcb_def home_def split: tstat.splits\<close>)
  have M0: "objects_ok M ?k" by (rule objects_ok_fields [OF M]) (simp add: same_wait_def)
  have inv0: "mtx_inv {} ?k" by (rule mtx_inv_bpriority [OF inv])
  have exact: "exact u ?k" if "exists_task u ?k" "u \<noteq> t" for u
    using mtx_goodD(2) [OF good, of u] that by (simp add: exact_at_def claims_def)
  have fol: "follows ?R {} ?k" using chain_follows [OF inv, of t] by (simp add: follows_def mtx_kind_def objs_eqD [OF objs_upd_tcb])
  obtain n where n: "kernel_hooks k = hooks_n n" "NUM_TSKID k < n" by (rule kernel_hooks_n)
  have h: "exists_task t ?k" "exact_at ?m t ?k" "t \<in> ?R" using ex by (simp_all add: exact_at_def)
  have n0: "NUM_TSKID ?k < n" using n(2) by simp
  have m: "?m < NUM_PRI" by (rule pri.claims_bound [OF kv0]) (simp add: ex)
  obtain k1 where k1: "change_task_priority (hooks_n n) t ?m ?k = Some k1" "pri_changed ?k k1" "objects_ok M k1"
      "mtx_good {} k1" "\<forall>u. u \<notin> ?R \<longrightarrow> priority (tcb k1 u) = priority (tcb ?k u)"
    using pri.change_exact [OF kv0 M0 inv0 h(1) m exact h(2,3) fol n0] by (metis (lifting))
  have "sys_ok k1" using pri_changedD(1) [OF k1(2)] k1(3,4) by (auto simp: sys_ok_def)
  then show thesis
    using goal [of k1] chg_pri_mutex_result [OF inv ex, of p] lim k1 n(1) by auto
qed

text \<open>
  C33: Changing a priority. Errors come in the order of the checks, \<open>E_ILUSE\<close> exactly when the new base
  priority is above what a ceiling of a mutex the task holds or waits for allows, all without effect.
  Otherwise the task has the new base priority, and every task again has exactly the priority that its base
  priority and its mutexes give it; only tasks on the chain of owners the task waits for may have changed.
\<close>

theorem tk_chg_pri_result:
  assumes sys: "kernel_sys k" and t: "t = get_tcb_self oid k" and ini: "ipriority (tcb k t) < NUM_PRI"
    and p: "p = (if tskpri = TPRI_INI then ipriority (tcb k t) else int_priority tskpri)"
  shows "\<exists>r k'. tk_chg_pri (kernel_hooks k) oid tskpri k = Some (r, k') \<and> kernel_sys k' \<and>
    (case first_error [CHECK_TSKID_SELF oid k, CHECK_PRI_INI tskpri] of
       Some e \<Rightarrow> r = e \<and> k' = k
     | None \<Rightarrow>
         if state (tcb k t) = TS_NONEXIST then r = E_NOEXS \<and> tcb_table k' = tcb_table k \<and> que k' = que k
         else if int p < pri_limit t k then r = E_ILUSE \<and> tcb_table k' = tcb_table k \<and> que k' = que k
         else r = E_OK \<and> bpriority (tcb k' t) = p \<and>
           (\<forall>u. exists_task u k \<longrightarrow> exists_task u k' \<and> priority (tcb k' u) = Min (claims u k')) \<and>
           (\<forall>u. u \<noteq> t \<longrightarrow> bpriority (tcb k' u) = bpriority (tcb k u)) \<and>
           (\<forall>u. (t, u) \<notin> (mtx_blocks k)\<^sup>* \<longrightarrow> priority (tcb k' u) = priority (tcb k u)))"
proof (cases "first_error [CHECK_TSKID_SELF oid k, CHECK_PRI_INI tskpri]")
  case None
  note ok = kernel_sysD(1) [OF sys]
  have chk: "CHECK_TSKID_SELF oid k = None" "CHECK_PRI_INI tskpri = None"
    using None by (simp_all add: first_error_None_iff del: first_error.simps)
  have same: "kernel_sys (END_CRITICAL_SECTION k)" by (rule kernel_sys_END [OF ok kernel_sysD(4) [OF sys]])
  have good: "mtx_good {} k" using ok by (simp add: sys_ok_def)
  have pn: "p < NUM_PRI"
    using chk(2) ini by (auto simp: p CHECK_PRI_INI_def CHECK_def CHK_PRI_def int_priority_def split: if_splits)
  consider "state (tcb k t) = TS_NONEXIST" | "state (tcb k t) \<noteq> TS_NONEXIST" "int p < pri_limit t k"
    | "state (tcb k t) \<noteq> TS_NONEXIST" "\<not> int p < pri_limit t k" by blast
  then show ?thesis
  proof cases
    case 3
    have ex: "exists_task t k" using 3(1) get_tcb_self_less [OF sys chk(1)] t by (simp add: exists_task_def)
    let ?k = "upd_tcb t (\<lambda>c. c\<lparr>bpriority := p\<rparr>) k"
    obtain k1 where k1: "change_task_priority (kernel_hooks k) t (nat (chg_pri_mutex t (int p) k)) ?k = Some k1"
        "\<not> chg_pri_mutex t (int p) k < E_OK" "pri_changed ?k k1" "sys_ok k1" "mtx_good {} k1"
        "\<forall>u. (t, u) \<notin> (mtx_blocks k)\<^sup>* \<longrightarrow> priority (tcb k1 u) = priority (tcb k u)"
      by (rule chg_pri_exact [OF ok ex pn 3(2)])
    note pc = pri_changedD [OF k1(3)] and o = fixed_objs_eqD [OF pri_changedD(2) [OF k1(3)]]
    have bp: "bpriority (tcb k1 u) = (if u = t then p else bpriority (tcb k u))" for u
      using fixed_part_eqD [OF pc(3), of u] by simp
    have fin: "kernel_sys (END_CRITICAL_SECTION k1)"
      by (rule kernel_sys_END [OF k1(4)]) (use kernel_sysD(4) [OF sys] pri_changed_exists [OF k1(3)] in \<open>simp add: o objs_eqD [OF objs_upd_tcb]\<close>)
    have "exists_task u k1 = exists_task u k" for u using pri_changed_exists [OF k1(3)] by simp
    then have eq: "exists_task u (END_CRITICAL_SECTION k1)"
        "priority (tcb (END_CRITICAL_SECTION k1) u) = Min (claims u (END_CRITICAL_SECTION k1))" if "exists_task u k" for u
      using that mtx_goodD(2) [OF mtx_good_END [OF k1(5) pc(1)], of u] by (simp_all add: exact_at_def)
    have p256: "p mod 256 = p" using pn by simp
    have "tk_chg_pri (kernel_hooks k) oid tskpri k = Some (E_OK, END_CRITICAL_SECTION k1)"
      using None 3 k1(1,2) by (simp add: tk_chg_pri_def checked_opt_def Let_def p256 flip: t p del: first_error.simps)
    then show ?thesis using None 3 fin eq bp k1(6) by (auto simp del: first_error.simps)
  next
    case 2
    have ex: "exists_task t k" using 2(1) get_tcb_self_less [OF sys chk(1)] t by (simp add: exists_task_def)
    have "chg_pri_mutex t (int p) k = E_ILUSE"
      using chg_pri_mutex_result [OF mtx_goodD(1) [OF good] ex, of p] 2(2) by simp
    then have "tk_chg_pri (kernel_hooks k) oid tskpri k = Some (E_ILUSE, END_CRITICAL_SECTION k)"
      using None 2 by (simp add: tk_chg_pri_def checked_opt_def Let_def flip: t p del: first_error.simps)
    with None 2 same show ?thesis by (simp del: first_error.simps)
  next
    case 1
    then have "tk_chg_pri (kernel_hooks k) oid tskpri k = Some (E_NOEXS, END_CRITICAL_SECTION k)"
      using None by (simp add: tk_chg_pri_def checked_opt_def Let_def flip: t del: first_error.simps)
    with None 1 same show ?thesis by (simp del: first_error.simps)
  qed
next
  case (Some e)
  then have "tk_chg_pri (kernel_hooks k) oid tskpri k = Some (e, k)"
    by (simp add: tk_chg_pri_def checked_opt_def del: first_error.simps)
  with Some sys show ?thesis by (simp del: first_error.simps)
qed

subsection \<open>Birth and death of a task\<close>

lemma sys_ok_birth:
  assumes ok: "sys_ok k" and q: "que k FreeTcb = t # rest"
    and f: "state (f (tcb k t)) = TS_DORMANT" "mtxlist (f (tcb k t)) = []" "priority (f (tcb k t)) = p"
      "bpriority (f (tcb k t)) = p" "p < NUM_PRI" "\<not> klocked (f (tcb k t))" "\<not> klockwait (f (tcb k t))"
      "tskid (f (tcb k t)) = tskid (tcb k t)"
  shows "sys_ok (upd_tcb t f (k\<lparr>que := (que k)(FreeTcb := rest)\<rparr>))"
    and "t < NUM_TSKID k" "state (tcb k t) = TS_NONEXIST" "tskid (tcb k t) = ID_of t"
proof -
  let ?q = "k\<lparr>que := (que k)(FreeTcb := rest)\<rparr>"
  let ?k = "upd_tcb t f ?q"
  obtain M where kv: "kinv {} k" and M: "objects_ok M k" and good: "mtx_good {} k" using ok by (rule sys_okE)
  note inv = mtx_goodD(1) [OF good]
  have mem: "t \<in> set (que k FreeTcb)" using q by simp
  then show t: "t < NUM_TSKID k" "state (tcb k t) = TS_NONEXIST" using kinv_mem [OF kv, of t FreeTcb] by simp_all
  then show "tskid (tcb k t) = ID_of t" using kinvD(2) [OF kv] by (simp add: tasks_ok_def)
  have other: "t \<notin> set (que k h)" if "h \<noteq> FreeTcb" for h
    using disjoint_queuesD [OF kinvD(6) [OF kv] mem, of h] that by simp
  have "QueRemove t (que k) = (que k)(FreeTcb := rest)"
    using other q by (auto simp: fun_eq_iff QueRemove_apply)
  then have "kinv {t} ?q" using kinv_que_remove [OF kv, of t] t(2) by (simp add: que_remove_def)
  then have "kinv {t} ?k" by (rule kinv_upd_tcb) (use f t(2) in \<open>auto simp: wf_tcb_def\<close>)
  then have kv': "kinv {} ?k" using f(1) by (simp add: kinv_no_home)
  have N: "NUM_TSKID ?q = NUM_TSKID k" by (simp add: NUM_TSKID_def)
  have ex: "exists_task u ?k \<longleftrightarrow> u = t \<or> exists_task u k" for u using t f(1) N by (auto simp: exists_task_def)
  have nex: "\<not> exists_task t k" using t(2) by (simp add: exists_task_def)
  have cl: "mtx_claims ?k i = mtx_claims k i" for i
    using other [of "MtxQ i"] by (auto simp: mtx_claims_def mtx_kind_def)
  have "mtx_inv {} ?k"
  proof -
    have "wq_ok (MtxQ i) a d s ?k = wq_ok (MtxQ i) a d s k" for i a d s
      by (rule wq_ok_cong) (use other [of "MtxQ i"] in \<open>auto simp: same_tcb_def\<close>)
    moreover have "mtx_owned i k \<Longrightarrow> mtx_owned i ?k" for i
      using nex by (auto simp: mtx_owned_def ex split: option.splits)
    ultimately have "mtx_ok {} i ?k" if "mtx_ok {} i k" for i
      using that by (auto simp: mtx_ok_def mtx_kind_def)
    moreover have "held_ok {} u ?k" if "exists_task u ?k" for u
      using that mtx_inv_held [OF inv, of u] f(2) by (cases "u = t") (auto simp: held_ok_def ex)
    ultimately show ?thesis using inv by (simp add: mtx_inv_def)
  qed
  moreover have "exact u ?k" if "exists_task u ?k" for u
  proof (cases "u = t")
    case True
    then show ?thesis using f(2-4) by (simp add: exact_at_def claims_def)
  next
    case False
    then show ?thesis using mtx_goodD(2) [OF good, of u] that by (simp add: ex exact_at_def claims_def cl)
  qed
  ultimately have "mtx_good {} ?k" by (simp add: mtx_good_def)
  moreover have "objects_ok M ?k"
    by (rule objects_ok_cong [OF M]) (use other object_queue_not in \<open>auto simp: same_tcb_def other_objs_def\<close>)
  ultimately show "sys_ok ?k" using kv' by (auto simp: sys_ok_def)
qed

lemma sys_ok_death:
  assumes ok: "sys_ok k" and t: "t < NUM_TSKID k" "state (tcb k t) = TS_DORMANT"
  shows "sys_ok (upd_tcb t (\<lambda>c. c\<lparr>state := TS_NONEXIST\<rparr>) (que_append t FreeTcb k))"
proof -
  let ?f = "\<lambda>c. c\<lparr>state := TS_NONEXIST\<rparr>"
  let ?k = "upd_tcb t ?f (que_append t FreeTcb k)"
  obtain M where kv: "kinv {} k" and M: "objects_ok M k" and good: "mtx_good {} k" using ok by (rule sys_okE)
  note inv = mtx_goodD(1) [OF good]
  have eq: "?k = que_append t FreeTcb (upd_tcb t ?f k)" by (simp add: que_append_def upd_tcb_def)
  have kt: "kinv {t} k" using kv t by (simp add: kinv_no_home)
  have tm: "TskTmeb t \<notin> set (timer_queue k)" using kinvD(3) [OF kv] t by (auto simp: timers_ok_def)
  have "kinv {t} (upd_tcb t ?f k)" by (rule kinv_upd_tcb [OF kt]) (use tm in \<open>auto simp: wf_tcb_def\<close>)
  then have kv': "kinv {} ?k" unfolding eq by (rule kinv_que_append) (use t in simp_all)
  have no: "t \<notin> set (que k h)" for h using kinv_mem [OF kv, of t h] t by simp
  have q: "que ?k h = que k h" if "h \<noteq> FreeTcb" for h using that by (simp add: que_append_def QueInsert_def)
  have ex: "exists_task u ?k \<longleftrightarrow> u \<noteq> t \<and> exists_task u k" for u by (auto simp: exists_task_def)
  have ext: "exists_task t k" using t by (simp add: exists_task_def)
  have list: "mtxlist (tcb k t) = []" using mtx_inv_held [OF inv ext] t by (simp add: held_ok_def)
  note o = objs_eqD [OF que_append_frame(1) [of t FreeTcb k]]
  have m: "mtxcb_table ?k = mtxcb_table k" "free_mtxcb ?k = free_mtxcb k" "max_mtxid ?k = max_mtxid k" by (simp_all add: o)
  have cl: "mtx_claims ?k i = mtx_claims k i" for i
    using no [of "MtxQ i"] by (auto simp: mtx_claims_def mtx_kind_def q m)
  have "mtx_inv {} ?k"
  proof -
    have "wq_ok (MtxQ i) a d s ?k = wq_ok (MtxQ i) a d s k" for i a d s
      by (rule wq_ok_cong) (use no [of "MtxQ i"] in \<open>auto simp: same_tcb_def q\<close>)
    moreover have "mtx_owned i k \<Longrightarrow> mtx_owned i ?k" for i
      using list by (auto simp: mtx_owned_def ex q m split: option.splits)
    ultimately have "mtx_ok {} i ?k" if "mtx_ok {} i k" for i
      using that by (auto simp: mtx_ok_def mtx_kind_def q m)
    moreover have "held_ok {} u ?k" if "exists_task u ?k" for u
      using that mtx_inv_held [OF inv, of u] by (auto simp: held_ok_def ex m)
    ultimately show ?thesis using inv by (simp add: mtx_inv_def q m)
  qed
  moreover have "exact u ?k" if "exists_task u ?k" for u
    using mtx_goodD(2) [OF good, of u] that by (simp add: ex exact_at_def claims_def cl)
  ultimately have "mtx_good {} ?k" by (simp add: mtx_good_def)
  moreover have "objects_ok M ?k"
    by (rule objects_ok_cong [OF M])
      (use no object_queue_not in \<open>auto simp: q same_tcb_def other_objs_def o\<close>)
  ultimately show "sys_ok ?k" using kv' by (auto simp: sys_ok_def)
qed

definition cre_blocks :: "t_ctsk \<Rightarrow> UW option \<Rightarrow> UW option \<Rightarrow> kernel \<Rightarrow> UW list" where
  "cre_blocks pk sstack stack k =
     (case sstack of None \<Rightarrow> []
      | Some ss \<Rightarrow> ss # (if 0 < snd (cre_tsk_stacks pk k) then (case stack of None \<Rightarrow> [] | Some s \<Rightarrow> [s]) else []))"

lemma END_ctxtsk: "ctxtsk (END_CRITICAL_SECTION k) = ctxtsk k \<or> ctxtsk (END_CRITICAL_SECTION k) = schedtsk k"
  by (simp add: END_CRITICAL_SECTION_def dispatch_def)

text \<open>A successful creation is the birth of the first free TCB.\<close>

lemma tk_cre_tsk_birth:
  assumes ok: "sys_ok k" and chk: "first_error (cre_tsk_checks pk k) = None" and q: "que k FreeTcb = t # rest"
    and mem: "sstack = Some ss" "0 < snd (cre_tsk_stacks pk k) \<Longrightarrow> stack \<noteq> None"
  obtains f where "tk_cre_tsk pk sstack stack k =
      (ID_of t, [], END_CRITICAL_SECTION (upd_tcb t f (k\<lparr>que := (que k)(FreeTcb := rest)\<rparr>)))"
    "state (f (tcb k t)) = TS_DORMANT" "mtxlist (f (tcb k t)) = []" "priority (f (tcb k t)) = int_priority (ctsk_itskpri pk)"
    "bpriority (f (tcb k t)) = int_priority (ctsk_itskpri pk)" "int_priority (ctsk_itskpri pk) < NUM_PRI"
    "\<not> klocked (f (tcb k t))" "\<not> klockwait (f (tcb k t))" "tskid (f (tcb k t)) = tskid (tcb k t)"
    "exinf (f (tcb k t)) = ctsk_exinf pk" "tskentry (f (tcb k t)) = ctsk_task pk"
    "(of_nat (isstack (f (tcb k t))) - word_of_int (sstksz (f (tcb k t)))) #
       (if 0 < stksz (f (tcb k t)) then [of_nat (istack (f (tcb k t))) - word_of_int (stksz (f (tcb k t)))] else []) =
     cre_blocks pk sstack stack k"
proof -
  note goal = that
  have "CHECK_PRI (ctsk_itskpri pk) = None"
    using chk by (simp add: cre_tsk_checks_def first_error_None_iff Let_def del: first_error.simps)
  then have p: "int_priority (ctsk_itskpri pk) < NUM_PRI" by (auto simp: CHECK_PRI_def CHK_PRI_def int_priority_def)
  then have p256: "int_priority (ctsk_itskpri pk) mod 256 = int_priority (ctsk_itskpri pk)" by simp
  have id: "tskid (tcb k t) = ID_of t"
    using kinv_mem [OF sys_ok_kinv [OF ok], of t FreeTcb] q kinvD(2) [OF sys_ok_kinv [OF ok]] by (simp add: tasks_ok_def)
  obtain sstk stk where st: "cre_tsk_stacks pk k = (sstk, stk)" by fastforce
  let ?atr = "ctsk_tskatr pk"
  let ?sm = "if ?atr AND TA_RNG3 = TA_RNG0 then 1 else 0"
  define f1 where "f1 (c :: tcb) = c\<lparr>exinf := ctsk_exinf pk, tskatr := ?atr, tskentry := ctsk_task pk,
      ipriority := int_priority (ctsk_itskpri pk) mod 256,
      resid := (if ?atr AND TA_RESID \<noteq> 0 then ctsk_resid pk else 1), stksz := stk, sstksz := sstk\<rparr>"  for c
  define f2 where "f2 (c :: tcb) = (if ?atr AND TA_DSNAME \<noteq> 0 then c\<lparr>tskname := strncpy (ctsk_dsname pk) 8\<rparr> else c)"  for c
  define f3 where "f3 (c :: tcb) = c\<lparr>istack := (if 0 < stk then unat (the stack + word_of_int stk) else ctsk_stkptr pk), isstack := unat (ss + word_of_int sstk),
            isysmode := ?sm, sysmode := ?sm, uatb := (if ?atr AND TA_TASKSPACE \<noteq> 0 then ctsk_uatb pk else 0),
            lsid := (if ?atr AND TA_TASKSPACE \<noteq> 0 then ctsk_lsid pk else 0)\<rparr>"  for c
  define f4 where "f4 (c :: tcb) = (let rng = drop_bit 8 (tskatr c AND 0x300)
       in c\<lparr>ssframe := (ssframe c)
             \<lparr>fr_rng := rng, fr_thumb := odd (tskentry c), fr_pc := tskentry c - tskentry c mod 2,
              fr_usp := (if 0 < rng then Some (istack c) else fr_usp (ssframe c))\<rparr>\<rparr>)"  for c
  define f where "f c = f4 (dormant_tcb (f3 (f2 (f1 c))))"  for c
  let ?q = "k\<lparr>que := (que k)(FreeTcb := rest)\<rparr>"
  have f2: "(if ?atr AND TA_DSNAME \<noteq> 0 then upd_tcb t (\<lambda>c. c\<lparr>tskname := strncpy (ctsk_dsname pk) 8\<rparr>) k1 else k1) = upd_tcb t f2 k1" for k1
    by (simp add: upd_tcb_def f2_def)
  have fold: "upd_tcb t f4 (upd_tcb t dormant_tcb (upd_tcb t f3 (upd_tcb t f2 (upd_tcb t f1 ?q)))) = upd_tcb t f ?q"
    by (simp add: upd_tcb_twice f_def [abs_def])
  have idf: "tskid (f c) = tskid c" for c by (simp add: f_def f1_def f2_def f3_def f4_def dormant_tcb_def Let_def)
  have "\<not> (0 < stk \<and> stack = None)" using mem(2) st by auto
  then have "tk_cre_tsk pk sstack stack k =
      (let k = upd_tcb t f4 (upd_tcb t dormant_tcb (upd_tcb t f3 (upd_tcb t f2 (upd_tcb t f1 ?q))))
       in (tskid (tcb k t), [], END_CRITICAL_SECTION k))"
    using chk q st mem(1)
    by (simp only: tk_cre_tsk_def QueRemoveNext_def Let_def make_dormant_def setup_context_def f2 f1_def [abs_def]
        f3_def [abs_def] f4_def [abs_def] option.case list.case prod.case if_False)
  then have call: "tk_cre_tsk pk sstack stack k = (ID_of t, [], END_CRITICAL_SECTION (upd_tcb t f ?q))"
    unfolding fold by (simp add: Let_def idf id)
  have blk: "cre_blocks pk sstack stack k = ss # (if 0 < stk then [the stack] else [])"
    using mem st by (auto simp: cre_blocks_def)
  show thesis
    by (rule goal [OF call]) (use p in \<open>simp_all add: f_def f1_def f2_def f3_def f4_def Let_def dormant_tcb_def p256 blk\<close>)
qed

text \<open>
  A user stack size from \<open>2\<^sup>31 - 7\<close> on passes the checks; rounded, it is negative, so no user stack is
  allocated, and the task is created all the same.
\<close>

lemma tk_cre_tsk_no_user_stack:
  assumes ok: "sys_ok k" and chk: "first_error (cre_tsk_checks pk k) = None" and q: "que k FreeTcb = t # rest"
    and big: "ctsk_tskatr pk AND TA_RNG3 \<noteq> TA_RNG0" "2 ^ 31 - 7 \<le> ctsk_stksz pk" "ctsk_stksz pk < 2 ^ 31"
  shows "fst (tk_cre_tsk pk (Some ss) None k) = ID_of t"
proof -
  have "snd (cre_tsk_stacks pk k) < 0" using big(1) round8_overflows [OF big(2,3)] by (simp add: cre_tsk_stacks_def Let_def)
  then have "0 < snd (cre_tsk_stacks pk k) \<Longrightarrow> (None :: UW option) \<noteq> None" by simp
  from tk_cre_tsk_birth [OF ok chk q refl this] show ?thesis by (metis fst_conv)
qed

text \<open>
  What a packet is refused for, in words, and whether a task gets a user stack: it has a protection level other
  than 0 and a size that can be rounded.
\<close>

definition ctsk_error :: "t_ctsk \<Rightarrow> kernel \<Rightarrow> ER option" where
  "ctsk_error pk k =
     (let atr = ctsk_tskatr pk
      in if atr AND NOT VALID_TSKATR \<noteq> 0 then Some E_RSATR
         else if ctsk_itskpri pk < 1 \<or> 140 < ctsk_itskpri pk then Some E_PAR
         else if atr AND TA_COP \<noteq> 0 \<and> atr AND available_cop k = 0 then Some E_NOCOP
         else if atr AND TA_USERSTACK \<noteq> 0 \<and> (atr AND TA_RNG3 = 0 \<or> ctsk_stksz pk \<noteq> 0) then Some E_PAR
         else if atr AND TA_USERSTACK = 0 \<and> ctsk_stksz pk < 0 then Some E_PAR
         else if atr AND TA_TASKSPACE \<noteq> 0 \<and> (ctsk_lsid pk < 0 \<or> 255 < ctsk_lsid pk) then Some E_PAR
         else if atr AND TA_RESID \<noteq> 0 \<and> (ctsk_resid pk < 1 \<or> max_resid k < ctsk_resid pk) then Some E_ID
         else if atr AND TA_SSTKSZ \<noteq> 0 \<and> ctsk_sstksz pk < 1024 then Some E_PAR
         else None)"

lemma cre_tsk_checks_error: "first_error (cre_tsk_checks pk k) = ctsk_error pk k"
  by (simp add: cre_tsk_checks_def ctsk_error_def Let_def CHECK_RSATR_def CHECK_PRI_def CHK_PRI_def CHECK_NOCOP_def
      CHECK_PAR_def CHECK_RESID_def CHECK_def not_le not_less)

definition user_stack :: "t_ctsk \<Rightarrow> bool" where
  "user_stack pk \<longleftrightarrow> ctsk_tskatr pk AND TA_RNG3 \<noteq> 0 \<and> 0 < ctsk_stksz pk \<and> ctsk_stksz pk \<le> 2 ^ 31 - 8"

lemma user_stack_size:
  assumes "- (2 ^ 31) \<le> ctsk_stksz pk" "ctsk_stksz pk < 2 ^ 31"
  shows "0 < snd (cre_tsk_stacks pk k) \<longleftrightarrow> user_stack pk"
proof -
  have "0 < round8 n \<longleftrightarrow> 0 < n \<and> n \<le> 2 ^ 31 - 8" if "- (2 ^ 31) \<le> n" "n < 2 ^ 31" for n :: int
  proof -
    consider "n \<le> 0" | "0 < n" "n < 2 ^ 31 - 7" | "2 ^ 31 - 7 \<le> n" by linarith
    then show ?thesis
    proof cases
      case 1
      then have "round8 n \<le> 0"
        using wrap_INT_small [of "n + 7"] that by (auto simp: round8_def signed_divide_int_def sgn_if)
      with 1 show ?thesis by simp
    qed (use round8_fits(2) [of n] round8_overflows [of n] that in auto)
  qed
  from this [OF assms] show ?thesis by (simp add: cre_tsk_stacks_def user_stack_def Let_def round8_def wrap_INT_def)
qed

definition created_blocks :: "t_ctsk \<Rightarrow> UW option \<Rightarrow> UW option \<Rightarrow> UW list" where
  "created_blocks pk sstack stack =
     (case sstack of None \<Rightarrow> []
      | Some ss \<Rightarrow> ss # (if user_stack pk then (case stack of None \<Rightarrow> [] | Some s \<Rightarrow> [s]) else []))"

text \<open>
  C34: The life of a task. A creation checks its packet first; without memory, or without a free task, it
  fails and gives back exactly what it had allocated. Otherwise the first free TCB becomes a dormant task
  with the attributes of the packet and no other task notices; deleting it again frees exactly the memory
  it was given and returns the TCB to the end of the free list. The kernel stays consistent throughout.
  A task that does not run at protection level 0 gets a user stack of the size it asks for, but none if the
  size is so near \<open>2\<^sup>31\<close> that rounding it up overflows: the task is created without one.
\<close>

theorem task_create_delete:
  assumes sys: "kernel_sys k" and int: "- (2 ^ 31) \<le> ctsk_stksz pk" "ctsk_stksz pk < 2 ^ 31"
  shows "\<exists>r frees k'. tk_cre_tsk pk sstack stack k = (r, frees, k') \<and> kernel_sys k' \<and>
    (case ctsk_error pk k of
       Some e \<Rightarrow> r = e \<and> frees = [] \<and> k' = k
     | None \<Rightarrow>
         if sstack = None \<or> (user_stack pk \<and> stack = None)
         then r = E_NOMEM \<and> frees = created_blocks pk sstack stack \<and> k' = k
         else case que k FreeTcb of
           [] \<Rightarrow> r = E_LIMIT \<and> frees = created_blocks pk sstack stack \<and> tcb_table k' = tcb_table k \<and> que k' = que k
         | t # rest \<Rightarrow> r = ID_of t \<and> frees = [] \<and> state (tcb k t) = TS_NONEXIST \<and>
             state (tcb k' t) = TS_DORMANT \<and> priority (tcb k' t) = int_priority (ctsk_itskpri pk) \<and>
             exinf (tcb k' t) = ctsk_exinf pk \<and> tskentry (tcb k' t) = ctsk_task pk \<and>
             que k' = (que k)(FreeTcb := rest) \<and> (\<forall>u. u \<noteq> t \<longrightarrow> tcb k' u = tcb k u) \<and>
             (\<exists>k''. tk_del_tsk r k' = (E_OK, created_blocks pk sstack stack, k'') \<and> kernel_sys k'' \<and>
                state (tcb k'' t) = TS_NONEXIST \<and> que k'' FreeTcb = rest @ [t] \<and>
                (\<forall>u. exists_task u k'' \<longleftrightarrow> exists_task u k)))"
proof (cases "first_error (cre_tsk_checks pk k)")
  case (Some e)
  then show ?thesis using sys by (simp add: tk_cre_tsk_def flip: cre_tsk_checks_error)
next
  case None
  note eqs = cre_tsk_checks_error [symmetric] created_blocks_def user_stack_size [OF int, of k, symmetric] cre_blocks_def [symmetric]
  note ok = kernel_sysD(1) [OF sys]
  show ?thesis
  proof (cases "sstack = None \<or> (0 < snd (cre_tsk_stacks pk k) \<and> stack = None)")
    case True
    then have "tk_cre_tsk pk sstack stack k = (E_NOMEM, cre_blocks pk sstack stack k, k)"
      using None by (auto simp: tk_cre_tsk_def cre_blocks_def split_beta split: option.split)
    with None True sys show ?thesis unfolding eqs by simp
  next
    case mem: False
    then obtain ss where ss: "sstack = Some ss" by auto
    have mem': "0 < snd (cre_tsk_stacks pk k) \<Longrightarrow> stack \<noteq> None" using mem by simp
    show ?thesis
    proof (cases "que k FreeTcb")
      case Nil
      have "k\<lparr>que := que k\<rparr> = k" by simp
      then have "tk_cre_tsk pk sstack stack k = (E_LIMIT, cre_blocks pk sstack stack k, END_CRITICAL_SECTION k)"
        using None mem' ss Nil by (auto simp: tk_cre_tsk_def cre_blocks_def split_beta QueRemoveNext_def Let_def)
      with None mem Nil kernel_sys_END [OF ok kernel_sysD(4) [OF sys]] show ?thesis unfolding eqs by simp
    next
      case (Cons t rest)
      let ?q = "k\<lparr>que := (que k)(FreeTcb := rest)\<rparr>"
      obtain f where f: "tk_cre_tsk pk sstack stack k = (ID_of t, [], END_CRITICAL_SECTION (upd_tcb t f ?q))"
        "state (f (tcb k t)) = TS_DORMANT" "mtxlist (f (tcb k t)) = []" "priority (f (tcb k t)) = int_priority (ctsk_itskpri pk)"
        "bpriority (f (tcb k t)) = int_priority (ctsk_itskpri pk)" "int_priority (ctsk_itskpri pk) < NUM_PRI"
        "\<not> klocked (f (tcb k t))" "\<not> klockwait (f (tcb k t))" "tskid (f (tcb k t)) = tskid (tcb k t)"
        "exinf (f (tcb k t)) = ctsk_exinf pk" "tskentry (f (tcb k t)) = ctsk_task pk"
        "(of_nat (isstack (f (tcb k t))) - word_of_int (sstksz (f (tcb k t)))) #
           (if 0 < stksz (f (tcb k t)) then [of_nat (istack (f (tcb k t))) - word_of_int (stksz (f (tcb k t)))] else []) =
         cre_blocks pk sstack stack k"
        by (rule tk_cre_tsk_birth [OF ok None Cons ss mem'])
      let ?b = "upd_tcb t f ?q"
      let ?k = "END_CRITICAL_SECTION ?b"
      note b = sys_ok_birth [OF ok Cons, of f, OF f(2-9)]
      have N: "NUM_TSKID ?q = NUM_TSKID k" by (simp add: NUM_TSKID_def)
      have nex: "\<not> exists_task t k" using b(3) by (simp add: exists_task_def)
      have ex: "exists_task u ?k \<longleftrightarrow> u = t \<or> exists_task u k" for u using b(2) f(2) N by (auto simp: exists_task_def)
      have sys': "kernel_sys ?k"
        by (rule kernel_sys_END [OF b(1)]) (use kernel_sysD(4) [OF sys] ex in simp)
      have dead: "sys_ok (upd_tcb t (\<lambda>c. c\<lparr>state := TS_NONEXIST\<rparr>) (que_append t FreeTcb ?k))"
        by (rule sys_ok_death [OF kernel_sysD(1) [OF sys']]) (use b(2) f(2) N in simp_all)
      let ?d = "upd_tcb t (\<lambda>c. c\<lparr>state := TS_NONEXIST\<rparr>) (que_append t FreeTcb ?k)"
      have self: "s \<noteq> t" if "ctxtsk ?k = Some s" for s
      proof
        assume "s = t"
        moreover have "ctxtsk k \<noteq> Some t" using nex kernel_sysD(4) [OF sys] by blast
        ultimately have "schedtsk ?b = Some t" using that END_ctxtsk [of ?b] by auto
        then have "state (tcb ?b t) = TS_READY"
          using kinv_sched(3) [OF sys_ok_kinv [OF b(1)], of t] sys_ok_kinv [OF b(1)] by (simp add: kinv_def)
        with f(2) show False by simp
      qed
      have "CHECK_TSKID (ID_of t) ?k = None"
        using b(2) by (auto simp: CHECK_TSKID_def CHK_TSKID_def ID_of_def NUM_TSKID_def)
      moreover have "CHECK_NONSELF (ID_of t) ?k = None"
      proof (cases "ctxtsk ?k")
        case (Some s)
        then have s: "exists_task s ?k" "s \<noteq> t" using kernel_sysD(4) [OF sys'] self by simp_all
        then have "tskid (tcb ?k s) = ID_of s"
          using kinvD(2) [OF kernel_sysD(2) [OF sys']] unfolding tasks_ok_def exists_task_def by blast
        then show ?thesis using s(2) Some by (simp add: CHECK_NONSELF_def self_def ID_of_def)
      qed (simp add: CHECK_NONSELF_def in_indp_def)
      ultimately have del: "tk_del_tsk (ID_of t) ?k = (E_OK, cre_blocks pk sstack stack k, END_CRITICAL_SECTION ?d)"
        using f(2,12) by (simp add: tk_del_tsk_def get_tcb_def del_tsk_def Let_def)
      have exd: "exists_task u ?d \<longleftrightarrow> exists_task u k" for u
        using nex ex [of u] by (auto simp: exists_task_def)
      have sysd: "kernel_sys (END_CRITICAL_SECTION ?d)"
        by (rule kernel_sys_END [OF dead]) (use kernel_sysD(4) [OF sys'] self ex in \<open>auto simp: exists_task_def\<close>)
      have qd: "que (END_CRITICAL_SECTION ?d) FreeTcb = rest @ [t]" by (simp add: que_append_def QueInsert_def)
      show ?thesis
        unfolding eqs None option.case if_not_P [OF mem] Cons list.case
        using f(1,2,4,10,11) b(3) sys' del sysd qd exd by simp
    qed
  qed
qed

lemma sys_ok_make_ready:
  assumes ok: "sys_ok k" and t: "t < NUM_TSKID k" "home (tcb k t) = None" "priority (tcb k t) < NUM_PRI"
    "bpriority (tcb k t) < NUM_PRI" "state (tcb k t) \<noteq> TS_NONEXIST" "TskTmeb t \<notin> set (timer_queue k)"
  shows "sys_ok (make_ready t k)"
proof -
  have kv: "kinv {} k" by (rule sys_ok_kinv [OF ok])
  have i: "kinv {t} k" using kv t(2) by (simp add: kinv_no_home)
  have kv': "kinv {} (make_ready t k)" using kinv_make_ready [OF i t(1) _ _ t(6)] t by simp
  note o = objs_eqD [OF make_ready_objs [of t k]]
  have c: "core (tcb (make_ready t k) u) = core (tcb k u)" for u by simp
  have st: "state (tcb (make_ready t k) u) = (if u = t then TS_READY else state (tcb k u))" for u by simp
  show ?thesis
  proof (rule sys_ok_step [OF ok kv' other_objs_objs [OF make_ready_objs]])
    show "que (make_ready t k) h = que k h" if "wait_queue h" for h
      using make_ready_que [OF i _ _ t(6), of h] that t by (cases h) simp_all
    show "same_tcb (tcb (make_ready t k) u) (tcb k u)" for u by (rule same_tcb_core [OF c])
  qed (use t core_eqD [OF c] in \<open>auto simp: o exists_task_def st split: if_splits\<close>)
qed

lemma core_ssframe: "core c' = core c \<Longrightarrow> ssframe c' = ssframe c"
  by (drule arg_cong [of _ _ ssframe]) (simp add: core_def)

lemma make_ready_schedtsk:
  assumes kv: "kinv {} k" and t: "priority (tcb k t) < NUM_PRI"
  shows "schedtsk (make_ready t k) =
    (case schedtsk k of None \<Rightarrow> Some t
     | Some s \<Rightarrow> if priority (tcb k t) < priority (tcb k s) then Some t else Some s)"
proof -
  have s: "schedtsk k = ready_queue_top k" using kv by (simp add: kinv_def)
  have top: "ready_queue_top k = (if top_priority k = NUM_PRI then None else Some (hd (que k (RdyQ (top_priority k)))))"
    by (rule ready_queue_top_eq [OF kinvD(4,5) [OF kv]])
  have raised: "fst (ready_queue_insert t (upd_tcb t (\<lambda>c. c\<lparr>state := TS_READY\<rparr>) k)) \<longleftrightarrow> priority (tcb k t) < top_priority k"
    by (simp add: ready_queue_insert_fst)
  show ?thesis
  proof (cases "schedtsk k")
    case None
    then have "top_priority k = NUM_PRI" using s top by (auto split: if_splits)
    with None t raised show ?thesis by (simp add: make_ready_preempt Let_def split_beta preempt_def)
  next
    case (Some u)
    then have "priority (tcb k u) = top_priority k" using kinv_sched(4) [OF kv, of u] s by simp
    with Some raised show ?thesis by (simp add: make_ready_preempt Let_def split_beta preempt_def frame)
  qed
qed

lemma setup_stacd_tcb:
  "state (tcb (setup_stacd t s k) v) = state (tcb k v)" "priority (tcb (setup_stacd t s k) v) = priority (tcb k v)"
  "bpriority (tcb (setup_stacd t s k) v) = bpriority (tcb k v)" "same_tcb (tcb (setup_stacd t s k) v) (tcb k v)"
  by (simp_all add: setup_stacd_def same_tcb_def)

lemma setup_stacd_self:
  "ssframe (tcb (setup_stacd t s k) t) = (ssframe (tcb k t))\<lparr>fr_r0 := s, fr_r1 := exinf (tcb k t)\<rparr>"
  by (simp add: setup_stacd_def)

lemma setup_stacd_frame:
  "NUM_TSKID (setup_stacd t s k) = NUM_TSKID k" "timer_queue (setup_stacd t s k) = timer_queue k"
  "schedtsk (setup_stacd t s k) = schedtsk k" "que (setup_stacd t s k) = que k"
  "ctxtsk (setup_stacd t s k) = ctxtsk k" "objs (setup_stacd t s k) = objs k"
  by (simp_all add: setup_stacd_def)

text \<open>A dormant task made ready with its arguments.\<close>

lemma sys_ok_start:
  assumes ok: "sys_ok k" and tl: "t < NUM_TSKID k" and True: "state (tcb k t) = TS_DORMANT"
  shows "sys_ok (make_ready t (setup_stacd t stacd k))"
    and "exists_task v (make_ready t (setup_stacd t stacd k)) = exists_task v k"
proof -
  let ?u = "setup_stacd t stacd k"
  note u = setup_stacd_tcb [of t stacd k] and fr = setup_stacd_frame [of t stacd k]
  have kv: "kinv {} k" by (rule sys_ok_kinv [OF ok])
  have kvu: "kinv {} ?u" unfolding setup_stacd_def by (rule kinv_upd_tcb_other [OF kv]) simp_all
  have oku: "sys_ok ?u"
    by (rule sys_ok_cong [OF ok kvu other_objs_objs [OF fr(6)]]) (simp_all add: objs_eqD [OF fr(6)] fr u)
  have wf: "priority (tcb k t) < NUM_PRI" "bpriority (tcb k t) < NUM_PRI"
    using kinvD(2) [OF kv] tl True by (auto simp: tasks_ok_def wf_tcb_def)
  have tm: "TskTmeb t \<notin> set (timer_queue k)" using kinvD(3) [OF kv] True by (auto simp: timers_ok_def)
  show "sys_ok (make_ready t ?u)"
    by (rule sys_ok_make_ready [OF oku]) (use tl wf tm True in \<open>simp_all add: fr u\<close>)
  show "exists_task v (make_ready t ?u) = exists_task v k"
    using True tl objs_eqD [OF make_ready_objs [of t ?u]] by (auto simp: exists_task_def u fr)
qed

text \<open>
  C35: Starting a task. Refused calls change nothing; otherwise the dormant task is ready with the start
  code and its extended information as the arguments of its entry, it is scheduled at once exactly when
  its priority is higher than that of the scheduled task, and no other task changes state.
\<close>

theorem tk_sta_tsk_result:
  assumes sys: "kernel_sys k" and t: "t = get_tcb oid"
  shows "\<exists>r k'. tk_sta_tsk oid stacd k = (r, k') \<and> kernel_sys k' \<and>
    (case first_error [CHECK_TSKID oid k, CHECK_NONSELF oid k] of
       Some e \<Rightarrow> r = e \<and> k' = k
     | None \<Rightarrow>
         if state (tcb k t) = TS_DORMANT then
           r = E_OK \<and> state (tcb k' t) = TS_READY \<and> fr_r0 (ssframe (tcb k' t)) = stacd \<and>
           fr_r1 (ssframe (tcb k' t)) = exinf (tcb k t) \<and> (\<forall>u. u \<noteq> t \<longrightarrow> state (tcb k' u) = state (tcb k u)) \<and>
           schedtsk k' = (case schedtsk k of None \<Rightarrow> Some t
             | Some s \<Rightarrow> if priority (tcb k t) < priority (tcb k s) then Some t else Some s)
         else r = (if state (tcb k t) = TS_NONEXIST then E_NOEXS else E_OBJ) \<and>
           tcb_table k' = tcb_table k \<and> que k' = que k)"
proof (cases "first_error [CHECK_TSKID oid k, CHECK_NONSELF oid k]")
  case (Some e)
  then show ?thesis using sys by (simp add: tk_sta_tsk_def checked_def del: first_error.simps)
next
  case None
  note ok = kernel_sysD(1) [OF sys]
  have tl: "t < NUM_TSKID k"
    using None CHECK_TSKID_less [of oid k] t by (simp add: first_error_None_iff del: first_error.simps)
  show ?thesis
  proof (cases "state (tcb k t) = TS_DORMANT")
    case False
    with None t kernel_sys_END [OF ok kernel_sysD(4) [OF sys]] show ?thesis
      by (auto simp: tk_sta_tsk_def checked_def Let_def simp del: first_error.simps)
  next
    case True
    let ?u = "setup_stacd t stacd k"
    note st = sys_ok_start [OF ok tl True, where stacd = stacd]
    note okr = st(1) and ex = st(2) and u = setup_stacd_tcb [of t stacd k] setup_stacd_self [of t stacd k] and fr = setup_stacd_frame [of t stacd k]
    have kvu: "kinv {} ?u" unfolding setup_stacd_def by (rule kinv_upd_tcb_other [OF sys_ok_kinv [OF ok]]) simp_all
    have wf: "priority (tcb k t) < NUM_PRI"
      using kinvD(2) [OF sys_ok_kinv [OF ok]] tl True by (auto simp: tasks_ok_def wf_tcb_def)
    let ?k = "END_CRITICAL_SECTION (make_ready t ?u)"
    have sf: "ssframe (tcb (make_ready t ?u) t) = ssframe (tcb ?u t)"
      using make_ready_core(1) [of t ?u t] by (rule core_ssframe)
    have "kernel_sys ?k"
      by (rule kernel_sys_END [OF okr])
        (use kernel_sysD(4) [OF sys] ex objs_eqD [OF make_ready_objs [of t ?u]] fr in simp)
    moreover have "tk_sta_tsk oid stacd k = (E_OK, ?k)"
      using None True t by (simp add: tk_sta_tsk_def checked_def Let_def del: first_error.simps)
    ultimately show ?thesis
      using None True make_ready_schedtsk [OF kvu, of t] wf sf u fr
      by (auto simp del: first_error.simps split: option.splits)
  qed
qed

subsection \<open>Instances\<close>

lemma ex_state_kernel_sys: "kernel_sys ex_state"
  using ex_state_sys_ok ex_state_kernel_ok by (simp add: kernel_sys_def kernel_ok_def exists_task_def ex_state_tcb)

lemma ex_sleep_kernel_sys: "kernel_sys ex_sleep"
  unfolding ex_sleep_eq
proof (rule kernel_sys_END)
  let ?s = "sleep_wait WSPEC_SLP 5000 ex_state"
  show "sys_ok ?s" by (rule sys_ok_sleep_wait [OF ex_state_sys_ok]) (simp_all add: ex_state_tcb)
  show "exists_task t ?s" if "ctxtsk ?s = Some t" for t
    using that objs_eqD [OF sleep_wait_frame(1) [of WSPEC_SLP 5000 ex_state]]
      sleep_wait_state(1) [of ex_state WSPEC_SLP 5000 0]
    by (simp add: exists_task_def ex_state_tcb del: sleep_wait_frame(2))
qed

theorem tk_rel_wai_result_witness:
  "\<exists>k'. tk_rel_wai (kernel_hooks ex_sleep) 1 ex_sleep = Some (E_OK, k') \<and>
     state (tcb k' 0) = TS_READY \<and> wercd (tcb k' 0) = E_RLWAI \<and> kernel_sys k'"
proof -
  have st: "state (tcb ex_sleep 0) = TS_WAIT"
    using sleep_wait_state(1) [of ex_state WSPEC_SLP 5000 0] by (simp add: ex_sleep_eq ex_state_tcb del: sleep_wait_frame(2))
  have "CHECK_TSKID 1 ex_sleep = None"
    using objs_eqD(1) [OF sleep_wait_frame(1) [of WSPEC_SLP 5000 ex_state]]
    by (simp add: CHECK_TSKID_def CHK_TSKID_def ex_sleep_eq)
  then show ?thesis
    using tk_rel_wai_result [OF ex_sleep_kernel_sys, of 0 1] st by (auto simp: get_tcb_def INDEX_def)
qed

theorem tk_chg_pri_result_witness:
  "\<exists>k'. tk_chg_pri (kernel_hooks ex_state) 2 8 ex_state = Some (E_OK, k') \<and> bpriority (tcb k' 1) = 7 \<and> kernel_sys k'"
proof -
  have t: "(1 :: nat) = get_tcb_self 2 ex_state" by (simp add: get_tcb_self_def get_tcb_def INDEX_def)
  have p: "(7 :: nat) = (if (8 :: int) = TPRI_INI then ipriority (tcb ex_state 1) else int_priority 8)"
    by (simp add: int_priority_def)
  have i: "ipriority (tcb ex_state 1) < NUM_PRI" by (simp add: ex_state_tcb ex_tcb_def)
  have "first_error [CHECK_TSKID_SELF 2 ex_state, CHECK_PRI_INI 8] = None"
    by (simp add: CHECK_TSKID_SELF_def CHK_TSKID_def CHECK_PRI_INI_def CHK_PRI_def)
  moreover have "pri_limit 1 ex_state = 0" by (simp add: pri_limit_def ex_state_tcb) (simp add: ex_tcb_def)
  moreover have "state (tcb ex_state 1) \<noteq> TS_NONEXIST" by (simp add: ex_state_tcb)
  ultimately show ?thesis using tk_chg_pri_result [OF ex_state_kernel_sys t i p] by auto
qed

definition ex_ctsk :: t_ctsk where
  "ex_ctsk = \<lparr>ctsk_exinf = 7, ctsk_tskatr = 0x101, ctsk_task = 0x8000, ctsk_itskpri = 5, ctsk_stksz = 100,
     ctsk_sstksz = 0, ctsk_stkptr = 0, ctsk_uatb = 0, ctsk_lsid = 0, ctsk_resid = 0, ctsk_dsname = []\<rparr>"

theorem task_create_delete_witness:
  "\<exists>k' k''. tk_cre_tsk ex_ctsk (Some 0x10000) (Some 0x20000) ex_state = (5, [], k') \<and> state (tcb k' 4) = TS_DORMANT \<and>
     tk_del_tsk 5 k' = (E_OK, [0x10000, 0x20000], k'') \<and> kernel_sys k''"
proof -
  have c: "ctsk_error ex_ctsk ex_state = None" by (simp add: ctsk_error_def ex_ctsk_def VALID_TSKATR_def)
  have b: "created_blocks ex_ctsk (Some 0x10000) (Some 0x20000) = [0x10000, 0x20000]"
    by (simp add: created_blocks_def user_stack_def ex_ctsk_def)
  have int: "- (2 ^ 31) \<le> ctsk_stksz ex_ctsk" "ctsk_stksz ex_ctsk < 2 ^ 31" by (simp_all add: ex_ctsk_def)
  have q: "que ex_state FreeTcb = [4]" by (simp add: ex_state_que)
  have i: "ID_of 4 = 5" by (simp add: ID_of_def)
  show ?thesis
    using task_create_delete [OF ex_state_kernel_sys int, of "Some 0x10000" "Some 0x20000"]
    unfolding c option.case q list.case b i by auto
qed

theorem tk_sta_tsk_result_witness:
  "\<exists>k'. tk_sta_tsk 4 9 ex_state = (E_OK, k') \<and> state (tcb k' 3) = TS_READY \<and> schedtsk k' = Some 0 \<and> kernel_sys k'"
proof -
  have t: "(3 :: nat) = get_tcb 4" by (simp add: get_tcb_def INDEX_def)
  have c: "first_error [CHECK_TSKID 4 ex_state, CHECK_NONSELF 4 ex_state] = None"
    by (simp add: CHECK_TSKID_def CHK_TSKID_def CHECK_NONSELF_def ex_state_tcb ID_of_def)
  have s: "state (tcb ex_state 3) = TS_DORMANT" by (simp add: ex_state_tcb)
  show ?thesis
    using tk_sta_tsk_result [OF ex_state_kernel_sys t, of 9] unfolding c option.case if_P [OF s]
    by (auto simp: ex_state_tcb)
qed

end
