(* ===== verification/Priority_Runs.thy ===== *)
theory Priority_Runs
  imports Task_Life
begin

text \<open>
  Runs of the calls that lock and unlock mutexes, change priorities, release waiting tasks and bring new
  tasks to life, from a kernel without mutexes: no task that waits for a mutex is held up by an owner of
  lower priority.
\<close>

subsection \<open>The calls keep the kernel in order\<close>

lemma kernel_sys_mtx_sys:
  assumes "kernel_sys k"
  obtains M where "mtx_sys M k"
  using assms by (auto simp: kernel_sys_def sys_ok_def mtx_sys_def kernel_ok_def)

lemma kernel_sys_step:
  assumes sys: "kernel_sys k" and k1: "kinv {} k1" "objects_ok M k1" "mtx_good {} k1"
    and c: "ctxtsk k1 = ctxtsk k" "\<And>u. exists_task u k \<Longrightarrow> exists_task u k1"
  shows "kernel_sys (END_CRITICAL_SECTION k1)"
  by (rule kernel_sys_END) (use k1 c kernel_sysD(4) [OF sys] in \<open>auto simp: sys_ok_def\<close>)

lemma tk_cre_mtx_kernel_sys:
  assumes sys: "kernel_sys k"
  shows "kernel_sys (snd (tk_cre_mtx pk k))"
proof -
  note ok = kernel_sysD(1) [OF sys]
  obtain M where M: "mtx_sys M k" by (rule kernel_sys_mtx_sys [OF sys])
  have sys': "mtx_sys M (snd (tk_cre_mtx pk k))" by (rule tk_cre_mtx_sys [OF M])
  show ?thesis
  proof (cases rule: tk_cre_mtx_cases [of pk k])
    case (3 i rest nm k1)
    have k1: "tcb_table k1 = tcb_table k" "ctxtsk k1 = ctxtsk k" "schedtsk k1 = schedtsk k" "NUM_TSKID k1 = NUM_TSKID k"
      by (simp_all add: 3(4) upd_mtx_def NUM_TSKID_def)
    have "exists_task t k" if "ctxtsk (END_CRITICAL_SECTION k1) = Some t" for t
      using END_ctxtsk [of k1] that kernel_sysD(4) [OF sys, of t] kinv_sched(1,3) [OF kernel_sysD(2) [OF sys], of t]
        kernel_sysD(2) [OF sys] by (auto simp: k1 kinv_def exists_task_def)
    moreover have "sys_ok (END_CRITICAL_SECTION k1)" "kernel_ok (END_CRITICAL_SECTION k1)"
      using mtx_sysD [OF sys'] 3(3) by (auto simp: sys_ok_def)
    ultimately show ?thesis by (simp add: 3(3) kernel_sys_def kernel_ok_def exists_task_def k1)
  qed (use sys kernel_sys_END [OF ok kernel_sysD(4) [OF sys]] in simp_all)
qed

lemma tk_loc_mtx_u_kernel_sys:
  assumes sys: "kernel_sys k"
  obtains r k' where "tk_loc_mtx_u (kernel_hooks k) oid tmout k = Some (r, k')" "kernel_sys k'"
proof -
  obtain M where M: "mtx_sys M k" by (rule kernel_sys_mtx_sys [OF sys])
  note s = mtx_sysD [OF M]
  obtain n where n: "kernel_hooks k = hooks_n n" "NUM_TSKID k < n" by (rule kernel_hooks_n)
  show thesis
  proof (cases "loc_mtx_error oid tmout k")
    case (Some e)
    from loc_mtx_fails [OF this, of "kernel_hooks k"] that sys kernel_sys_step [OF sys s(2-4)] show thesis by blast
  next
    case None
    show thesis
    proof (cases "mtxtsk (mtx k (get_mtxcb oid))")
      case free: None
      obtain k' where k': "tk_loc_mtx_u (kernel_hooks k) oid tmout k = Some (E_OK, END_CRITICAL_SECTION k')"
        "k' = mtx_give (get_mtxcb oid) (self k) k \<or>
           pri_only (self k) (ceilpri (mtx k (get_mtxcb oid))) (mtx_give (get_mtxcb oid) (self k) k) k'"
        "kinv {} k'" "objects_ok M k'" "mtx_good {} k'"
        by (rule pri.loc_takes [OF s(1,3,4) None refl free, of "kernel_hooks k"])
      have "kernel_sys (END_CRITICAL_SECTION k')"
      proof (rule kernel_sys_step [OF sys k'(3-5)])
        show "ctxtsk k' = ctxtsk k" using objs_eqD [OF pri_only_or_frame(1) [OF k'(2)]] by (simp add: mtx_give_def upd_mtx_def)
        show "exists_task u k'" if "exists_task u k" for u
          using pri_only_or_frame(9) [OF k'(2), of u] that by simp
      qed
      with k'(1) that show thesis by blast
    next
      case (Some v)
      obtain k1 k2 a where k: "tk_loc_mtx_u (hooks_n n) oid tmout k = Some (E_TMOUT, END_CRITICAL_SECTION k2)"
        "pri_changed k k1" "task_waits (MtxQ (get_mtxcb oid)) (mtx_wspec (mtxatr (mtx k (get_mtxcb oid))))
           (winfo (tcb k1 (self k))) (mtxid (mtx k (get_mtxcb oid))) a k1 k2"
        "self k1 = self k" "kinv {} k2" "objects_ok M k2" "mtx_good {} k2"
        by (rule pri.loc_waits [OF s(1,3,4) n(2) None refl Some]) (rule that)
      have "kernel_sys (END_CRITICAL_SECTION k2)"
      proof (rule kernel_sys_step [OF sys k(5-7)])
        note o = fixed_objs_eqD [OF pri_changedD(2) [OF k(2)]] objs_eqD [OF task_waitsD(2) [OF k(3)]]
        show "ctxtsk k2 = ctxtsk k" by (simp add: o)
        show "exists_task u k2" if "exists_task u k" for u
        proof -
          have "exists_task u k1" using that pri_changed_exists [OF k(2)] by simp
          then show ?thesis using task_waitsD(3,12) [OF k(3)] by (cases "u = self k1") (simp_all add: exists_task_def o)
        qed
      qed
      with k(1) n(1) that show thesis by metis
    qed
  qed
qed

lemma tk_unl_mtx_kernel_sys:
  assumes sys: "kernel_sys k" and run: "\<not> ts_wait (state (tcb k (self k)))"
  obtains r k' where "tk_unl_mtx (kernel_hooks k) oid k = Some (r, k')" "kernel_sys k'"
proof -
  obtain M where M: "mtx_sys M k" by (rule kernel_sys_mtx_sys [OF sys])
  note s = mtx_sysD [OF M]
  show thesis
  proof (cases "unl_mtx_error oid k")
    case (Some e)
    from unl_mtx_fails [OF this, of "kernel_hooks k"] that sys kernel_sys_step [OF sys s(2-4)] show thesis by blast
  next
    case None
    let ?i = "get_mtxcb oid" and ?t = "self k"
    obtain k1 k' where k: "tk_unl_mtx (kernel_hooks k) oid k = Some (E_OK, END_CRITICAL_SECTION k')"
      "k1 = mtx_drop ?i ?t k \<or> pri_only ?t (Min (claims ?t (mtx_drop ?i ?t k))) (mtx_drop ?i ?t k) k1"
      "case que k (MtxQ ?i) of
         [] \<Rightarrow> k' = upd_mtx ?i (\<lambda>c. c\<lparr>mtxtsk := None\<rparr>) k1
       | w # ws \<Rightarrow> \<exists>k2. released {w} E_OK k1 k2 \<and> objs k2 = objs k1 \<and>
           (k' = mtx_give ?i w k2 \<or> pri_only w (ceilpri (mtx k ?i)) (mtx_give ?i w k2) k')"
      "kinv {} k'" "objects_ok M k'" "mtx_good {} k'"
      by (rule pri.unlock_good [OF s(2-4) None refl run, of "kernel_hooks k"]) (rule that)
    have k1: "ctxtsk k1 = ctxtsk k" "exists_task u k1 = exists_task u k" for u
      using objs_eqD [OF pri_only_or_frame(1) [OF k(2)]] pri_only_or_frame(9) [OF k(2), of u] by simp_all
    have "kernel_sys (END_CRITICAL_SECTION k')"
    proof (rule kernel_sys_step [OF sys k(4-6)])
      show "ctxtsk k' = ctxtsk k"
      proof (cases "que k (MtxQ ?i)")
        case Nil
        with k(3) k1 show ?thesis by (simp add: upd_mtx_def)
      next
        case (Cons w ws)
        then obtain k2 where k2: "objs k2 = objs k1" "k' = mtx_give ?i w k2 \<or> pri_only w (ceilpri (mtx k ?i)) (mtx_give ?i w k2) k'"
          using k(3) by auto
        show ?thesis using objs_eqD [OF pri_only_or_frame(1) [OF k2(2)]] objs_eqD [OF k2(1)] k1(1) by (simp add: mtx_give_def upd_mtx_def)
      qed
      show "exists_task u k'" if "exists_task u k" for u
      proof (cases "que k (MtxQ ?i)")
        case Nil
        with k(3) k1(2) [of u] that show ?thesis by simp
      next
        case (Cons w ws)
        then obtain k2 where k2: "released {w} E_OK k1 k2" "k' = mtx_give ?i w k2 \<or> pri_only w (ceilpri (mtx k ?i)) (mtx_give ?i w k2) k'"
          using k(3) by auto
        show ?thesis using pri_only_or_frame(9) [OF k2(2), of u] released_exists [OF k2(1), of u] k1(2) that by simp
      qed
    qed
    with k(1) that show thesis by blast
  qed
qed

lemma tk_del_mtx_kernel_sys:
  assumes sys: "kernel_sys k" and no: "\<not> mtx_deadlock (get_mtxcb oid) k"
  obtains r k' where "tk_del_mtx (kernel_hooks k) oid k = Some (r, k')" "kernel_sys k'"
proof -
  obtain M where M: "mtx_sys M k" by (rule kernel_sys_mtx_sys [OF sys])
  note s = mtx_sysD [OF M]
  obtain n where n: "kernel_hooks k = hooks_n n" "NUM_TSKID k < n" by (rule kernel_hooks_n)
  show thesis
  proof (cases "del_mtx_error oid k")
    case (Some e)
    from del_mtx_fails [OF this, of "kernel_hooks k"] that sys kernel_sys_step [OF sys s(2-4)] show thesis by blast
  next
    case None
    let ?i = "get_mtxcb oid"
    obtain k1 k' where k: "tk_del_mtx (hooks_n n) oid k = Some (E_OK, END_CRITICAL_SECTION k')"
      "k1 = k \<and> mtxtsk (mtx k ?i) = None \<or> (\<exists>v. mtxtsk (mtx k ?i) = Some v \<and> pri_changed (mtx_drop ?i v k) k1)"
      "k' = upd_mtx ?i (\<lambda>c. c\<lparr>mtxid := 0\<rparr>) (wait_delete (MtxQ ?i) k1\<lparr>free_mtxcb := free_mtxcb k @ [?i]\<rparr>)"
      "kinv {} k'" "objects_ok M k'" "mtx_good {} k'"
      by (rule pri.delete_good [OF s(2-4) n(2) None refl no]) (rule that)
    have drop: "ctxtsk k1 = ctxtsk k" "exists_task u k1 = exists_task u k" "kinv {} k1"
      if "pri_changed (mtx_drop ?i v k) k1" for u v
      using fixed_objs_eqD(19) [OF pri_changedD(2) [OF that]] pri_changed_exists [OF that, of u] pri_changedD(1) [OF that]
      by (simp_all add: objs_eqD [OF mtx_drop_frame(6)])
    have k1: "ctxtsk k1 = ctxtsk k" "exists_task u k1 = exists_task u k" "kinv {} k1" for u
      using k(2) s(2) drop by blast+
    have r: "released (set (que k1 (MtxQ ?i))) E_DLT k1 (wait_delete (MtxQ ?i) k1)"
      by (rule wait_delete_released [OF k1(3)]) simp_all
    have "kernel_sys (END_CRITICAL_SECTION k')"
    proof (rule kernel_sys_step [OF sys k(4-6)])
      show "ctxtsk k' = ctxtsk k" by (simp add: k(3) upd_mtx_def k1)
      show "exists_task u k'" if "exists_task u k" for u
        using released_exists [OF r, of u] that k1(2) [of u] by (simp add: k(3) exists_task_def NUM_TSKID_def upd_mtx_def)
    qed
    with k(1) n(1) that show thesis by metis
  qed
qed

lemma tk_chg_pri_kernel_sys:
  assumes sys: "kernel_sys k" and ini: "tskpri = TPRI_INI \<Longrightarrow> ipriority (tcb k (get_tcb_self oid k)) < NUM_PRI"
  obtains r k' where "tk_chg_pri (kernel_hooks k) oid tskpri k = Some (r, k')" "kernel_sys k'"
proof -
  note goal = that
  note ok = kernel_sysD(1) [OF sys]
  let ?t = "get_tcb_self oid k"
  let ?p = "if tskpri = TPRI_INI then ipriority (tcb k ?t) else int_priority tskpri"
  have good: "mtx_good {} k" using ok by (simp add: sys_ok_def)
  have same: "kernel_sys (END_CRITICAL_SECTION k)" by (rule kernel_sys_END [OF ok kernel_sysD(4) [OF sys]])
  show thesis
  proof (cases "first_error [CHECK_TSKID_SELF oid k, CHECK_PRI_INI tskpri]")
    case (Some e)
    then have "tk_chg_pri (kernel_hooks k) oid tskpri k = Some (e, k)"
      by (simp add: tk_chg_pri_def checked_opt_def del: first_error.simps)
    then show thesis using goal sys by blast
  next
    case None
    have chk: "CHECK_TSKID_SELF oid k = None" "CHECK_PRI_INI tskpri = None"
      using None by (simp_all add: first_error_None_iff del: first_error.simps)
    have pn: "?p < NUM_PRI"
      using chk(2) ini by (auto simp: CHECK_PRI_INI_def CHECK_def CHK_PRI_def int_priority_def split: if_splits)
    show thesis
    proof (cases "state (tcb k ?t) = TS_NONEXIST")
      case True
      then have "tk_chg_pri (kernel_hooks k) oid tskpri k = Some (E_NOEXS, END_CRITICAL_SECTION k)"
        using None by (simp add: tk_chg_pri_def checked_opt_def Let_def del: first_error.simps)
      then show thesis using goal same by blast
    next
      case False
      then have ex: "exists_task ?t k" using get_tcb_self_less [OF sys chk(1)] by (simp add: exists_task_def)
      show thesis
      proof (cases "int ?p < pri_limit ?t k")
        case True
        then have "chg_pri_mutex ?t (int ?p) k = E_ILUSE"
          using chg_pri_mutex_result [OF mtx_goodD(1) [OF good] ex, of ?p] by simp
        then have "tk_chg_pri (kernel_hooks k) oid tskpri k = Some (E_ILUSE, END_CRITICAL_SECTION k)"
          using None False by (simp add: tk_chg_pri_def checked_opt_def Let_def del: first_error.simps)
        then show thesis using goal same by blast
      next
        case lim: False
        let ?k = "upd_tcb ?t (\<lambda>c. c\<lparr>bpriority := ?p\<rparr>) k"
        obtain k1 where k1: "change_task_priority (kernel_hooks k) ?t (nat (chg_pri_mutex ?t (int ?p) k)) ?k = Some k1"
            "\<not> chg_pri_mutex ?t (int ?p) k < E_OK" "pri_changed ?k k1" "sys_ok k1"
          by (rule chg_pri_exact [OF ok ex pn lim])
        have "kernel_sys (END_CRITICAL_SECTION k1)"
          by (rule kernel_sys_END [OF k1(4)])
            (use kernel_sysD(4) [OF sys] pri_changed_exists [OF k1(3)] in
              \<open>simp add: fixed_objs_eqD [OF pri_changedD(2) [OF k1(3)]] objs_eqD [OF objs_upd_tcb]\<close>)
        moreover have "?p mod 256 = ?p" using pn by simp
        then have "tk_chg_pri (kernel_hooks k) oid tskpri k = Some (E_OK, END_CRITICAL_SECTION k1)"
          using None False k1(1,2) by (simp add: tk_chg_pri_def checked_opt_def Let_def del: first_error.simps)
        ultimately show thesis using goal by blast
      qed
    qed
  qed
qed

lemma tk_rel_wai_kernel_sys:
  assumes sys: "kernel_sys k"
  obtains r k' where "tk_rel_wai (kernel_hooks k) oid k = Some (r, k')" "kernel_sys k'"
proof -
  note goal = that
  note ok = kernel_sysD(1) [OF sys]
  let ?t = "get_tcb oid"
  have same: "kernel_sys (END_CRITICAL_SECTION k)" by (rule kernel_sys_END [OF ok kernel_sysD(4) [OF sys]])
  show thesis
  proof (cases "CHECK_TSKID oid k")
    case (Some e)
    then show thesis using goal sys by (simp add: tk_rel_wai_def checked_opt_def)
  next
    case None
    show thesis
    proof (cases "ts_wait (state (tcb k ?t))")
      case True
      obtain k' where k': "wait_release_ng (kernel_hooks k) ?t E_RLWAI k = Some k'" "sys_ok k'"
          "fixed_objs k' = fixed_objs k" "\<forall>u. exists_task u k' = exists_task u k"
        using wait_release_ng_sys [OF ok CHECK_TSKID_less [OF None] True] by metis
      have "kernel_sys (END_CRITICAL_SECTION k')"
        by (rule kernel_sys_END [OF k'(2)]) (use kernel_sysD(4) [OF sys] k'(4) in \<open>simp add: fixed_objs_eqD [OF k'(3)]\<close>)
      then show thesis using goal None True k'(1) by (simp add: tk_rel_wai_def checked_opt_def)
    next
      case False
      then show thesis using goal None same by (simp add: tk_rel_wai_def checked_opt_def)
    qed
  qed
qed

lemma tk_cre_tsk_kernel_sys:
  assumes sys: "kernel_sys k"
  shows "kernel_sys (snd (snd (tk_cre_tsk pk sstack stack k)))"
proof -
  note ok = kernel_sysD(1) [OF sys]
  show ?thesis
  proof (cases "first_error (cre_tsk_checks pk k) \<noteq> None \<or> sstack = None \<or> (0 < snd (cre_tsk_stacks pk k) \<and> stack = None)")
    case True
    then have "tk_cre_tsk pk sstack stack k = (fst (tk_cre_tsk pk sstack stack k), fst (snd (tk_cre_tsk pk sstack stack k)), k)"
      by (cases "first_error (cre_tsk_checks pk k)"; cases sstack) (auto simp: tk_cre_tsk_def split_beta)
    then have "snd (snd (tk_cre_tsk pk sstack stack k)) = k" by (metis snd_conv)
    then show ?thesis using sys by simp
  next
    case False
    then obtain ss where chk: "first_error (cre_tsk_checks pk k) = None" and ss: "sstack = Some ss"
      and mem: "0 < snd (cre_tsk_stacks pk k) \<Longrightarrow> stack \<noteq> None" by auto
    show ?thesis
    proof (cases "que k FreeTcb")
      case Nil
      have "k\<lparr>que := que k\<rparr> = k" by simp
      then have "snd (snd (tk_cre_tsk pk sstack stack k)) = END_CRITICAL_SECTION k"
        using chk mem ss Nil by (auto simp: tk_cre_tsk_def split_beta QueRemoveNext_def Let_def)
      then show ?thesis using kernel_sys_END [OF ok kernel_sysD(4) [OF sys]] by simp
    next
      case (Cons t rest)
      let ?q = "k\<lparr>que := (que k)(FreeTcb := rest)\<rparr>"
      obtain f where f: "tk_cre_tsk pk sstack stack k = (ID_of t, [], END_CRITICAL_SECTION (upd_tcb t f ?q))"
        "state (f (tcb k t)) = TS_DORMANT" "mtxlist (f (tcb k t)) = []" "priority (f (tcb k t)) = int_priority (ctsk_itskpri pk)"
        "bpriority (f (tcb k t)) = int_priority (ctsk_itskpri pk)" "int_priority (ctsk_itskpri pk) < NUM_PRI"
        "\<not> klocked (f (tcb k t))" "\<not> klockwait (f (tcb k t))" "tskid (f (tcb k t)) = tskid (tcb k t)"
        by (rule tk_cre_tsk_birth [OF ok chk Cons ss mem])
      note b = sys_ok_birth [OF ok Cons, of f, OF f(2-9)]
      have "kernel_sys (END_CRITICAL_SECTION (upd_tcb t f ?q))"
        by (rule kernel_sys_END [OF b(1)])
          (use kernel_sysD(4) [OF sys] f(2) b(2) in \<open>auto simp: exists_task_def NUM_TSKID_def\<close>)
      then show ?thesis using f(1) by simp
    qed
  qed
qed

lemma tk_sta_tsk_kernel_sys:
  assumes sys: "kernel_sys k"
  shows "kernel_sys (snd (tk_sta_tsk oid stacd k))"
proof -
  note ok = kernel_sysD(1) [OF sys]
  let ?t = "get_tcb oid"
  have same: "kernel_sys (END_CRITICAL_SECTION k)" by (rule kernel_sys_END [OF ok kernel_sysD(4) [OF sys]])
  show ?thesis
  proof (cases "first_error [CHECK_TSKID oid k, CHECK_NONSELF oid k]")
    case (Some e)
    then show ?thesis using sys by (simp add: tk_sta_tsk_def checked_def del: first_error.simps)
  next
    case None
    have tl: "?t < NUM_TSKID k"
      using None CHECK_TSKID_less [of oid k] by (simp add: first_error_None_iff del: first_error.simps)
    show ?thesis
    proof (cases "state (tcb k ?t) = TS_DORMANT")
      case True
      note st = sys_ok_start [OF ok tl True, where stacd = stacd]
      have "kernel_sys (END_CRITICAL_SECTION (make_ready ?t (setup_stacd ?t stacd k)))"
        by (rule kernel_sys_END [OF st(1)])
          (use kernel_sysD(4) [OF sys] st(2) objs_eqD [OF make_ready_objs] setup_stacd_frame in simp)
      then show ?thesis using None True by (simp add: tk_sta_tsk_def checked_def Let_def del: first_error.simps)
    next
      case False
      then show ?thesis using None same by (auto simp: tk_sta_tsk_def checked_def Let_def simp del: first_error.simps)
    qed
  qed
qed

subsection \<open>Runs\<close>

text \<open>
  The calls of the running task, and what is asked of each: a task that unlocks is running, not waiting; a
  mutex that is deleted is part of no deadlock; the initial priority, where a call goes back to it, is one.
\<close>

datatype pri_call =
    CreMtx t_cmtx | LocMtx ID D | UnlMtx ID | DelMtx ID
  | ChgPri ID int | RelWai ID | CreTsk t_ctsk "UW option" "UW option" | StaTsk ID int

fun do_call :: "pri_call \<Rightarrow> kernel \<Rightarrow> kernel option" where
  "do_call (CreMtx pk) k = Some (snd (tk_cre_mtx pk k))"
| "do_call (LocMtx oid tmout) k = map_option snd (tk_loc_mtx_u (kernel_hooks k) oid tmout k)"
| "do_call (UnlMtx oid) k = map_option snd (tk_unl_mtx (kernel_hooks k) oid k)"
| "do_call (DelMtx oid) k = map_option snd (tk_del_mtx (kernel_hooks k) oid k)"
| "do_call (ChgPri oid pri) k = map_option snd (tk_chg_pri (kernel_hooks k) oid pri k)"
| "do_call (RelWai oid) k = map_option snd (tk_rel_wai (kernel_hooks k) oid k)"
| "do_call (CreTsk pk sstack stack) k = Some (snd (snd (tk_cre_tsk pk sstack stack k)))"
| "do_call (StaTsk oid stacd) k = Some (snd (tk_sta_tsk oid stacd k))"

fun call_allowed :: "pri_call \<Rightarrow> kernel \<Rightarrow> bool" where
  "call_allowed (UnlMtx oid) k \<longleftrightarrow> \<not> ts_wait (state (tcb k (self k)))"
| "call_allowed (DelMtx oid) k \<longleftrightarrow> \<not> mtx_deadlock (get_mtxcb oid) k"
| "call_allowed (ChgPri oid pri) k \<longleftrightarrow> pri = TPRI_INI \<longrightarrow> ipriority (tcb k (get_tcb_self oid k)) < NUM_PRI"
| "call_allowed _ k \<longleftrightarrow> True"

fun run_calls :: "pri_call list \<Rightarrow> kernel \<Rightarrow> kernel option" where
  "run_calls [] k = Some k"
| "run_calls (c # cs) k = (case do_call c k of None \<Rightarrow> None | Some k' \<Rightarrow> run_calls cs k')"

fun calls_allowed :: "pri_call list \<Rightarrow> kernel \<Rightarrow> bool" where
  "calls_allowed [] k \<longleftrightarrow> True"
| "calls_allowed (c # cs) k \<longleftrightarrow>
     call_allowed c k \<and> (case do_call c k of None \<Rightarrow> True | Some k' \<Rightarrow> calls_allowed cs k')"

lemma do_call_kernel_sys:
  assumes "kernel_sys k" "call_allowed c k"
  obtains k' where "do_call c k = Some k'" "kernel_sys k'"
proof (cases c)
  case (CreMtx pk)
  then show thesis using that tk_cre_mtx_kernel_sys [OF assms(1)] by simp
next
  case (LocMtx oid tmout)
  then show thesis using that by (auto intro: tk_loc_mtx_u_kernel_sys [OF assms(1), of oid tmout])
next
  case (UnlMtx oid)
  then show thesis using that assms(2) by (auto intro: tk_unl_mtx_kernel_sys [OF assms(1), of oid])
next
  case (DelMtx oid)
  then show thesis using that assms(2) by (auto intro: tk_del_mtx_kernel_sys [OF assms(1), of oid])
next
  case (ChgPri oid pri)
  then show thesis using that assms(2) by (auto intro: tk_chg_pri_kernel_sys [OF assms(1), of pri oid])
next
  case (RelWai oid)
  then show thesis using that by (auto intro: tk_rel_wai_kernel_sys [OF assms(1), of oid])
next
  case (CreTsk pk sstack stack)
  then show thesis using that tk_cre_tsk_kernel_sys [OF assms(1)] by simp
next
  case (StaTsk oid stacd)
  then show thesis using that tk_sta_tsk_kernel_sys [OF assms(1)] by simp
qed

lemma run_calls_kernel_sys:
  assumes "kernel_sys k" "calls_allowed cs k"
  shows "\<exists>k'. run_calls cs k = Some k' \<and> kernel_sys k'"
  using assms
proof (induction cs arbitrary: k)
  case (Cons c cs)
  obtain k' where "do_call c k = Some k'" "kernel_sys k'"
    by (rule do_call_kernel_sys [of k c]) (use Cons.prems in simp_all)
  with Cons.IH [of k'] Cons.prems(2) show ?case by simp
qed simp

text \<open>A kernel in order that has no mutex yet: every task runs at its base priority.\<close>

definition no_mutexes :: "kernel \<Rightarrow> bool" where
  "no_mutexes k \<longleftrightarrow>
     kernel_ok k \<and> (\<exists>M. objects_ok M k) \<and> (\<forall>t. ctxtsk k = Some t \<longrightarrow> exists_task t k) \<and>
     free_mtxcb k = [0..<nat (max_mtxid k)] \<and>
     (\<forall>i<nat (max_mtxid k). mtxid (mtx k i) = 0) \<and> (\<forall>i. que k (MtxQ i) = []) \<and>
     (\<forall>t. exists_task t k \<longrightarrow> mtxlist (tcb k t) = [] \<and> priority (tcb k t) = bpriority (tcb k t))"

lemma no_mutexes_kernel_sys:
  assumes "no_mutexes k"
  shows "kernel_sys k"
proof -
  have "mtx_good {} k"
    using assms by (auto simp: no_mutexes_def mtx_good_def mtx_inv_def pool_ok_def mtx_ok_def held_ok_def exact_at_def claims_def)
  then show ?thesis using assms by (auto simp: no_mutexes_def kernel_sys_def sys_ok_def kernel_ok_def)
qed

subsection \<open>Properties\<close>

text \<open>
  C19: No unbounded priority inversion. From a kernel without mutexes, whatever mutexes are created, locked,
  unlocked and deleted, whatever priorities are changed, tasks released, created and started: every call
  returns, and while a task then waits for an inheritance mutex, its owner, the owner of the inheritance
  mutex that owner may wait for, and so on along the whole chain, run at least at its priority; no task that
  holds a ceiling mutex runs below the ceiling; and no task has a higher priority than one of these reasons
  gives it.
\<close>

theorem no_priority_inversion:
  assumes start: "no_mutexes k0" and calls: "calls_allowed cs k0"
  shows "\<exists>k. run_calls cs k0 = Some k \<and>
    (\<forall>t v. (t, v) \<in> (mtx_blocks k)\<^sup>+ \<longrightarrow> priority (tcb k v) \<le> priority (tcb k t)) \<and>
    (\<forall>u i. exists_task u k \<and> i \<in> set (mtxlist (tcb k u)) \<and> mtx_kind i k = TA_CEILING \<longrightarrow>
       priority (tcb k u) \<le> ceilpri (mtx k i)) \<and>
    (\<forall>u. exists_task u k \<longrightarrow>
       priority (tcb k u) = bpriority (tcb k u) \<or>
       (\<exists>j \<in> set (mtxlist (tcb k u)). mtx_kind j k = TA_CEILING \<and> priority (tcb k u) = ceilpri (mtx k j)) \<or>
       (\<exists>w. (w, u) \<in> mtx_blocks k \<and> priority (tcb k u) = priority (tcb k w)))"
proof -
  obtain k where k: "run_calls cs k0 = Some k" "kernel_sys k"
    using run_calls_kernel_sys [OF no_mutexes_kernel_sys [OF start] calls] by blast
  obtain M where M: "mtx_sys M k" by (rule kernel_sys_mtx_sys [OF k(2)])
  show ?thesis using k(1) mtx_chain [OF M] mtx_reason [OF M] by blast
qed

subsection \<open>A run\<close>

text \<open>
  Task 0 creates an inheritance mutex, locks it and lowers its own priority, so that task 1 runs; task 1 asks
  for the mutex, waits, and task 0 runs at the priority of task 1.
\<close>

definition ex_run :: "pri_call list" where
  "ex_run = [CreMtx ex_cmtx, LocMtx 1 TMO_FEVR, ChgPri 1 40, LocMtx 1 TMO_FEVR]"

lemma ex_state_no_mutexes: "no_mutexes ex_state"
proof -
  have l: "mtxlist (tcb ex_state t) = []" "bpriority (tcb ex_state t) = priority (tcb ex_state t)" for t
    by (simp_all add: ex_state_def ex_tcb_def)
  show ?thesis using mtx_sysD(1,3) [OF ex_state_mtx_sys]
    by (auto simp: no_mutexes_def l ex_state_que exists_task_def ex_state_tcb upt_rec)
qed

definition ex_owner :: kernel where
  "ex_owner = mtx_give 0 0 (snd (tk_cre_mtx ex_cmtx ex_state))"

lemma ex_owner_sel:
  "mtxcb_table ex_owner 0 = (mtx ex_state 0)\<lparr>mtxid := 1, mtx_exinf := 0, mtxatr := TA_INHERIT, ceilpri := 0, mtxtsk := Some 0\<rparr>"
  "que ex_owner = que ex_state" "max_mtxid ex_owner = 3" "ctxtsk ex_owner = Some 0" "self ex_owner = 0"
  "NUM_TSKID ex_owner = 5" "schedtsk ex_owner = Some 0" "isDI ex_owner = False"
  "isTaskIndependent ex_owner = False" "dispatch_disabled ex_owner = 0" "max_tskid ex_owner = 5"
  "tcb_table ex_owner = (tcb_table ex_state)(0 := (tcb ex_state 0)\<lparr>mtxlist := [0]\<rparr>)"
proof -
  have "mtxlist (tcb ex_state 0) = []" by (simp add: ex_state_def ex_tcb_def)
  then show "tcb_table ex_owner = (tcb_table ex_state)(0 := (tcb ex_state 0)\<lparr>mtxlist := [0]\<rparr>)"
    by (simp add: ex_owner_def ex_cre_mtx_eq)
qed (simp_all add: ex_owner_def ex_cre_mtx_eq ID_of_def mtx_give_def upd_mtx_def self_def NUM_TSKID_def upd_tcb_def)

lemma ex_run_lock:
  "tk_loc_mtx_u (kernel_hooks (snd (tk_cre_mtx ex_cmtx ex_state))) 1 TMO_FEVR (snd (tk_cre_mtx ex_cmtx ex_state)) =
     Some (E_OK, ex_owner)"
proof -
  let ?k = "snd (tk_cre_mtx ex_cmtx ex_state)"
  have sel: "self ?k = 0" "isTaskIndependent ?k = False" "isDI ?k = False" "ctxtsk ?k = Some 0" "max_mtxid ?k = 3"
    "dispatch_disabled ?k = 0" "mtxtsk (mtx ?k 0) = None" "mtxid (mtx ?k 0) = 1" "mtxatr (mtx ?k 0) = TA_INHERIT"
    by (simp_all add: ex_cre_mtx_eq ID_of_def) (simp add: upd_mtx_def self_def)
  have dis: "\<not> is_diswai TA_INHERIT (tcb ?k 0) TTW_MTX"
    by (simp add: ex_cre_mtx_eq is_diswai_def ex_state_tcb) (simp add: upd_mtx_def ex_state_tcb ex_tcb_def)
  have "END_CRITICAL_SECTION ex_owner = ex_owner" by (simp add: END_CRITICAL_SECTION_def ex_owner_sel)
  then show ?thesis
    using dis by (simp add: tk_loc_mtx_u_def checked_opt_def CHECK_MTXID_def CHECK_TMOUT_def CHECK_DISPATCH_def in_ddsp_def
        in_indp_def get_mtxcb_def INDEX_def sel ex_owner_def mtx_give_def Let_def)
qed

lemma ex_owner_sys: "kernel_sys ex_owner"
proof -
  have "kernel_sys (snd (tk_cre_mtx ex_cmtx ex_state))" by (rule tk_cre_mtx_kernel_sys [OF ex_state_kernel_sys])
  then show ?thesis by (rule tk_loc_mtx_u_kernel_sys [of _ 1 TMO_FEVR]) (use ex_run_lock in simp)
qed

text \<open>After the change of its priority task 0 is ready, task 1 runs, and the mutex is still that of task 0.\<close>

lemma ex_run_lower:
  obtains k where "tk_chg_pri (kernel_hooks ex_owner) 1 40 ex_owner = Some (E_OK, k)" "kernel_sys k" "ctxtsk k = Some 1"
    "fixed_objs (k\<lparr>ctxtsk := Some 0\<rparr>) = fixed_objs ex_owner" "bpriority (tcb k 1) = 20"
    "state (tcb k 0) = TS_READY" "state (tcb k 1) = TS_READY" "bpriority (tcb k 0) = 39" "mtxlist (tcb k 0) = [0]"
    "mtxlist (tcb k 1) = []" "waitmask (tcb k 1) = 0" "\<And>i. que k (MtxQ i) = []"
proof -
  note goal = that
  let ?k = "upd_tcb 0 (\<lambda>c. c\<lparr>bpriority := 39\<rparr>) ex_owner"
  note ok = kernel_sysD(1) [OF ex_owner_sys]
  have ex: "exists_task 0 ex_owner" by (simp add: exists_task_def ex_owner_sel ex_state_tcb)
  have lim: "\<not> int 39 < pri_limit 0 ex_owner"
    by (simp add: pri_limit_def ex_owner_sel ceilings_def mtx_kind_def ex_state_tcb)
  obtain k1 where k1: "change_task_priority (kernel_hooks ex_owner) 0 (nat (chg_pri_mutex 0 (int 39) ex_owner)) ?k = Some k1"
      "\<not> chg_pri_mutex 0 (int 39) ex_owner < E_OK" "pri_changed ?k k1" "sys_ok k1" "mtx_good {} k1"
      "\<forall>u. (0, u) \<notin> (mtx_blocks ex_owner)\<^sup>* \<longrightarrow> priority (tcb k1 u) = priority (tcb ex_owner u)"
    by (rule chg_pri_exact [OF ok ex _ lim]) (simp, rule that)
  note pc = pri_changedD [OF k1(3)]
  have fo: "fixed_objs k1 = fixed_objs ex_owner" using pc(2) fixed_objs_objs [OF objs_upd_tcb] by metis
  note o = fixed_objs_eqD [OF fo]
  have st: "state (tcb k1 u) = state (tcb ex_state u)" if "u < 5" for u
    using pri_changed_state(3) [OF k1(3), of u] that unfolding less_5_cases by (auto simp: ex_owner_sel ex_state_tcb)
  have fp: "bpriority (tcb k1 u) = (if u = 0 then 39 else bpriority (tcb ex_state u))"
      "mtxlist (tcb k1 u) = (if u = 0 then [0] else mtxlist (tcb ex_state u))" "waitmask (tcb k1 u) = waitmask (tcb ex_state u)" for u
    using fixed_part_eqD [OF pc(3), of u] by (simp_all add: ex_owner_sel)
  have q: "que k1 (MtxQ i) = []" for i using pc(6) [of "MtxQ i"] by (simp add: ex_owner_sel ex_state_que)
  have "priority (tcb k1 u) = bpriority (tcb k1 u)" if "u < 5" "state (tcb ex_state u) = TS_READY" for u
  proof -
    have "exists_task u k1" using that st by (simp add: exists_task_def o ex_owner_sel)
    moreover have "claims u k1 = {bpriority (tcb k1 u)}"
    proof -
      have "mtxlist (tcb ex_state u) = []" by (simp add: ex_state_def ex_tcb_def)
      moreover have "mtx_claims k1 0 = {}" by (simp add: mtx_claims_def mtx_kind_def o ex_owner_sel q)
      ultimately show ?thesis by (simp add: claims_def fp)
    qed
    ultimately show ?thesis using mtx_goodD(2) [OF k1(5), of u] by (simp add: exact_at_def)
  qed
  then have pri: "priority (tcb k1 0) = 39" "priority (tcb k1 1) = 20" "priority (tcb k1 2) = 30"
    by (simp_all add: fp ex_state_tcb)
  have "schedtsk k1 = Some 1"
  proof (rule sched_highest [OF sys_ok_kinv [OF k1(4)]])
    show "1 < NUM_TSKID k1" "state (tcb k1 1) = TS_READY" by (simp_all add: o ex_owner_sel st ex_state_tcb)
    show "priority (tcb k1 1) < priority (tcb k1 u)" if "u < NUM_TSKID k1" "u \<noteq> 1" "state (tcb k1 u) = TS_READY" for u
    proof -
      have "u < 5" using that(1) by (simp add: o ex_owner_sel)
      then have "u = 0 \<or> u = 2" using that(2,3) st [of u] unfolding less_5_cases by (auto simp: ex_state_tcb)
      then show ?thesis using pri by auto
    qed
  qed
  then have e: "END_CRITICAL_SECTION k1 = k1\<lparr>ctxtsk := Some 1\<rparr>"
    by (simp add: END_CRITICAL_SECTION_def dispatch_def o ex_owner_sel)
  have call: "tk_chg_pri (kernel_hooks ex_owner) 1 40 ex_owner = Some (E_OK, END_CRITICAL_SECTION k1)"
    using k1(1,2) by (simp add: tk_chg_pri_def checked_opt_def CHECK_TSKID_SELF_def CHK_TSKID_def CHECK_PRI_INI_def
        CHK_PRI_def int_priority_def get_tcb_self_def get_tcb_def INDEX_def ex_owner_sel ex_state_tcb Let_def)
  show thesis
  proof (rule goal [OF call])
    show "kernel_sys (END_CRITICAL_SECTION k1)"
      by (rule tk_chg_pri_kernel_sys [OF ex_owner_sys, of 40 1]) (use call in simp_all)
    have "k1\<lparr>ctxtsk := Some 0\<rparr> = k1" using o(19) by (simp add: ex_owner_sel)
    then show "fixed_objs (END_CRITICAL_SECTION k1\<lparr>ctxtsk := Some 0\<rparr>) = fixed_objs ex_owner" using fo by (simp add: e)
  qed (use pri st q fp in \<open>simp_all add: e ex_state_tcb\<close>, simp_all add: ex_tcb_def)
qed

text \<open>Task 1 asks for the mutex and waits behind task 0.\<close>

lemma ex_run_wait:
  assumes k: "kernel_sys k" "ctxtsk k = Some 1" "fixed_objs (k\<lparr>ctxtsk := Some 0\<rparr>) = fixed_objs ex_owner"
    "state (tcb k 1) = TS_READY" "waitmask (tcb k 1) = 0" "\<And>i. que k (MtxQ i) = []"
  obtains k' where "tk_loc_mtx_u (kernel_hooks k) 1 TMO_FEVR k = Some (E_TMOUT, k')" "(1, 0) \<in> mtx_blocks k'"
    "priority (tcb k' 1) \<le> bpriority (tcb k 1)" "\<And>u. bpriority (tcb k' u) = bpriority (tcb k u)"
proof -
  note goal = that
  note o = fixed_objs_eqD [OF k(3)]
  have self: "self k = 1" using k(2) by (simp add: self_def)
  have mtx: "mtxcb_table k 0 = mtxcb_table ex_owner 0" "max_mtxid k = 3" "dispatch_disabled k = 0"
    "isDI k = False" "isTaskIndependent k = False"
    using o(5,6,7,8,16) by (simp_all add: ex_owner_sel)
  have i: "get_mtxcb 1 = 0" by (simp add: get_mtxcb_def INDEX_def)
  have go: "loc_mtx_error 1 TMO_FEVR k = None"
    by (simp add: loc_mtx_error_def CHECK_MTXID_def CHECK_TMOUT_def CHECK_DISPATCH_def in_ddsp_def in_indp_def
        i is_diswai_def mtx_kind_def mtx ex_owner_sel k(2) k(5) [simplified] self)
  obtain M where M: "mtx_sys M k" by (rule kernel_sys_mtx_sys [OF k(1)])
  note s = mtx_sysD [OF M]
  obtain n where n: "kernel_hooks k = hooks_n n" "NUM_TSKID k < n" by (rule kernel_hooks_n)
  have own: "mtxtsk (mtx k 0) = Some 0" by (simp add: mtx ex_owner_sel)
  obtain k1 k2 a where w: "tk_loc_mtx_u (hooks_n n) 1 TMO_FEVR k = Some (E_TMOUT, END_CRITICAL_SECTION k2)"
    "pri_changed k k1" "task_waits (MtxQ 0) (mtx_wspec (mtxatr (mtx k 0))) (winfo (tcb k1 (self k))) (mtxid (mtx k 0)) a k1 k2"
    "self k1 = self k" "kinv {} k2" "objects_ok M k2" "mtx_good {} k2"
    by (rule pri.loc_waits [OF s(1,3,4) n(2) go i [symmetric] own]) (rule that)
  note o1 = fixed_objs_eqD [OF pri_changedD(2) [OF w(2)]] and o2 = objs_eqD [OF task_waitsD(2) [OF w(3)]]
  have q: "que k2 (MtxQ 0) = [1]"
  proof -
    have "que k1 (MtxQ 0) = []" using pri_changedD(6) [OF w(2), of "MtxQ 0"] k(6) by simp
    then show ?thesis using task_waitsD(13) [OF w(3), of "MtxQ 0"] w(4) self by (simp add: wait_insert_def)
  qed
  show thesis
  proof (rule goal)
    show "tk_loc_mtx_u (kernel_hooks k) 1 TMO_FEVR k = Some (E_TMOUT, END_CRITICAL_SECTION k2)" using w(1) n(1) by simp
    show "(1, 0) \<in> mtx_blocks (END_CRITICAL_SECTION k2)"
      using q by (auto simp: mtx_blocks_def mtx_kind_def o1 o2 mtx ex_owner_sel intro!: exI [of _ 0])
    show bp: "bpriority (tcb (END_CRITICAL_SECTION k2) u) = bpriority (tcb k u)" for u
      using task_waitsD(9,11) [OF w(3)] fixed_part_eqD [OF pri_changedD(3) [OF w(2)], of u]
      by (cases "u = self k1") (simp_all add: same_tcb_def)
    have "exists_task 1 k2" using mtx_waiter(7) [OF w(5) mtx_goodD(1) [OF w(7)], of 1 0] q by simp
    then have "priority (tcb k2 1) \<le> bpriority (tcb k2 1)" using mtx_goodD(2) [OF w(7)] by (simp add: exact_at_iff claims_def)
    then show "priority (tcb (END_CRITICAL_SECTION k2) 1) \<le> bpriority (tcb k 1)" using bp [of 1] by simp
  qed
qed

theorem no_priority_inversion_witness:
  "\<exists>k. run_calls ex_run ex_state = Some k \<and> (1, 0) \<in> mtx_blocks k \<and> bpriority (tcb k 0) = 39 \<and>
     priority (tcb k 0) \<le> priority (tcb k 1) \<and> priority (tcb k 1) \<le> 20"
proof -
  obtain k where k: "tk_chg_pri (kernel_hooks ex_owner) 1 40 ex_owner = Some (E_OK, k)" "kernel_sys k" "ctxtsk k = Some 1"
    "fixed_objs (k\<lparr>ctxtsk := Some 0\<rparr>) = fixed_objs ex_owner" "bpriority (tcb k 1) = 20"
    "state (tcb k 0) = TS_READY" "state (tcb k 1) = TS_READY" "bpriority (tcb k 0) = 39" "mtxlist (tcb k 0) = [0]"
    "mtxlist (tcb k 1) = []" "waitmask (tcb k 1) = 0" "\<And>i. que k (MtxQ i) = []"
    by (rule ex_run_lower) (rule that)
  obtain k' where k': "tk_loc_mtx_u (kernel_hooks k) 1 TMO_FEVR k = Some (E_TMOUT, k')" "(1, 0) \<in> mtx_blocks k'"
    "priority (tcb k' 1) \<le> bpriority (tcb k 1)" "\<And>u. bpriority (tcb k' u) = bpriority (tcb k u)"
    by (rule ex_run_wait [OF k(2-4,7,11,12)]) (rule that)
  have run: "run_calls ex_run ex_state = Some k'" by (simp add: ex_run_def ex_run_lock k(1) k'(1))
  have "calls_allowed ex_run ex_state" by (simp add: ex_run_def ex_run_lock k(1) k'(1))
  from no_priority_inversion [OF ex_state_no_mutexes this] run k'(2)
  have "priority (tcb k' 0) \<le> priority (tcb k' 1)" by auto
  then show ?thesis using run k' k(5,8) by auto
qed

end
