(* ===== verification/Alloc_Map.thy ===== *)
theory Alloc_Map
  imports Prelude Complex_Main "HOL-Library.Log_Nat" "HOL-Library.Multiset"
begin

text \<open>
  The allocation map of the garbage collector (\<^verbatim>\<open>src/gc.c\<close>): a hash table with separate chaining. The
  chain of a bucket is a list, the array of buckets a function of the index. Pointers and \<^verbatim>\<open>size_t\<close> have 32
  bits. A \<^verbatim>\<open>double\<close> is the rational number it stands for, and each operation rounds to 53 bits; the values
  that occur are far from the limits of the exponent. The memory for the table itself and for its entries
  is taken to be there, as the code never checks for it.
\<close>

subsection \<open>Double precision numbers\<close>

definition pow2 :: "int \<Rightarrow> rat" where
  "pow2 e = (if 0 \<le> e then 2 ^ nat e else 1 / 2 ^ nat (- e))"

definition exponent_of :: "rat \<Rightarrow> int" where
  "exponent_of x =
     (let (p, q) = quotient_of \<bar>x\<bar>;
          e = int (floorlog 2 (nat p)) - int (floorlog 2 (nat q))
      in if pow2 e \<le> \<bar>x\<bar> then e else e - 1)"

definition round_even :: "rat \<Rightarrow> int" where
  "round_even y =
     (let f = \<lfloor>y\<rfloor>; d = y - of_int f
      in if d < 1 / 2 then f else if 1 / 2 < d then f + 1 else if even f then f else f + 1)"

definition dbl :: "rat \<Rightarrow> rat" where
  "dbl x =
     (if x = 0 then 0
      else let e = exponent_of x - 52 in of_int (round_even (x / pow2 e)) * pow2 e)"

text \<open>Conversion to \<^verbatim>\<open>size_t\<close> cuts off the fraction.\<close>

definition dbl_to_size :: "rat \<Rightarrow> UW" where
  "dbl_to_size x = word_of_int \<lfloor>x\<rfloor>"

abbreviation size_to_dbl :: "UW \<Rightarrow> rat" where
  "size_to_dbl n \<equiv> of_nat (unat n)"

subsection \<open>Prime capacities\<close>

text \<open>\<^verbatim>\<open>is_prime\<close> tries the divisors 6k - 1 and 6k + 1; \<open>i * i\<close> may wrap around.\<close>

partial_function (option) is_prime_loop :: "UW \<Rightarrow> UW \<Rightarrow> bool option" where
  "is_prime_loop n i =
     (if i * i \<le> n then
        if n mod i = 0 \<or> n mod (i + 2) = 0 then Some False else is_prime_loop n (i + 6)
      else Some True)"

definition is_prime :: "UW \<Rightarrow> bool option" where
  "is_prime n =
     (if n \<le> 3 then Some (1 < n)
      else if n mod 2 = 0 \<or> n mod 3 = 0 then Some False
      else is_prime_loop n 5)"

partial_function (option) next_prime :: "UW \<Rightarrow> UW option" where
  "next_prime n =
     (case is_prime n of
        None \<Rightarrow> None
      | Some b \<Rightarrow> if b then Some n else next_prime (n + 1))"

declare is_prime_loop.simps [code] next_prime.simps [code]

definition prime_number :: "nat \<Rightarrow> bool" where
  "prime_number p \<longleftrightarrow> 1 < p \<and> (\<forall>d. d dvd p \<longrightarrow> d = 1 \<or> d = p)"

lemma prime_number_iff:
  "prime_number n \<longleftrightarrow> 1 < n \<and> (\<forall>d\<ge>2. d * d \<le> n \<longrightarrow> \<not> d dvd n)"
proof
  assume *: "1 < n \<and> (\<forall>d\<ge>2. d * d \<le> n \<longrightarrow> \<not> d dvd n)"
  have "d = 1 \<or> d = n" if "d dvd n" for d
  proof (rule ccontr)
    assume no: "\<not> (d = 1 \<or> d = n)"
    obtain e where e: "n = d * e" using \<open>d dvd n\<close> by (rule dvdE)
    have "2 \<le> d" "2 \<le> e" using no e * by (cases d; cases e; auto)+
    then have "\<not> d * d \<le> n" "\<not> e * e \<le> n" using * e by auto
    then show False using e by (metis linear mult_le_mono)
  qed
  with * show "prime_number n" by (simp add: prime_number_def)
next
  assume p: "prime_number n"
  have "\<not> d * d \<le> n" if "2 \<le> d" "d dvd n" for d
  proof
    assume le: "d * d \<le> n"
    have "d = n" using p that by (auto simp: prime_number_def)
    moreover have "n < n * n" using p by (simp add: prime_number_def)
    ultimately show False using le by simp
  qed
  then show "1 < n \<and> (\<forall>d\<ge>2. d * d \<le> n \<longrightarrow> \<not> d dvd n)" using p by (auto simp: prime_number_def)
qed

text \<open>Divisors that are even or divisible by three need not be tried.\<close>

lemma is_prime_loop_correct:
  assumes "unat n < 2 ^ 31" and "\<not> 2 dvd unat n" and "\<not> 3 dvd unat n" and "unat n \<ge> 5"
    and "i mod 6 = 5" and "i < 65000" and "\<forall>d. 2 \<le> d \<and> d < i \<longrightarrow> \<not> d dvd unat n"
  shows "is_prime_loop n (word_of_nat i) = Some (prime_number (unat n))"
  using assms(5-)
proof (induction "unat n - i" arbitrary: i rule: less_induct)
  case less
  let ?n = "unat n"
  have "unat (word_of_nat (i + 2) :: UW) = i + 2" using less.prems(2) by (simp only: unat_of_nat) simp
  then have "unat (word_of_nat i + 2 :: UW) = i + 2" by (simp only: of_nat_add of_nat_numeral)
  moreover have "unat (word_of_nat i :: UW) = i" using less.prems(2) by (simp add: unat_of_nat)
  ultimately have i: "unat (word_of_nat i :: UW) = i" "unat (word_of_nat i + 2 :: UW) = i + 2" by blast+
  have ii: "unat (word_of_nat i * word_of_nat i :: UW) = i * i"
  proof -
    have "i * i < 65000 * 65000" using less.prems(2) by (intro mult_strict_mono) auto
    then have "i * i < 2 ^ 32" by simp
    then show ?thesis using i(1) by (subst unat_mult_lem [THEN iffD1]) (simp_all)
  qed
  have le: "word_of_nat i * word_of_nat i \<le> n \<longleftrightarrow> i * i \<le> ?n" by (simp add: word_le_nat_alt ii)
  have md: "n mod word_of_nat i = 0 \<longleftrightarrow> i dvd ?n" "n mod (word_of_nat i + 2) = 0 \<longleftrightarrow> (i + 2) dvd ?n"
    using i by (simp_all add: unat_eq_0 [symmetric] unat_mod dvd_eq_mod_eq_0)
  have i5: "5 \<le> i" using less.prems(1) by (cases "i < 5") auto
  show ?case
  proof (cases "i * i \<le> ?n")
    case False
    have "\<not> d dvd ?n" if "2 \<le> d" "d * d \<le> ?n" for d
    proof -
      have "d < i" using that(2) False by (meson leI le_trans mult_le_mono)
      then show ?thesis using less.prems(3) that by simp
    qed
    then have "prime_number ?n" using assms(4) by (auto simp: prime_number_iff)
    then show ?thesis using False by (subst is_prime_loop.simps) (simp add: le)
  next
    case True
    show ?thesis
    proof (cases "i dvd ?n \<or> (i + 2) dvd ?n")
      case dv: True
      have "i \<noteq> ?n" using True i5 by auto
      moreover have "i + 2 \<noteq> ?n" 
      proof
        assume "i + 2 = ?n"
        moreover have "5 * i \<le> i * i" using i5 by simp
        ultimately show False using True i5 by linarith
      qed
      ultimately have "\<not> prime_number ?n" using dv i5 by (auto simp: prime_number_def)
      then show ?thesis using True dv by (subst is_prime_loop.simps) (simp add: le md)
    next
      case nd: False
      have "i < 46341"
      proof (rule ccontr)
        assume "\<not> i < 46341"
        then have "46341 * 46341 \<le> i * i" by (intro mult_le_mono) auto
        then show False using True assms(1) by simp
      qed
      moreover have "\<not> d dvd ?n" if d: "2 \<le> d" "d < i + 6" for d
      proof (cases "d < i")
        case False
        then consider "d = i" | "d = i + 1" | "d = i + 2" | "d = i + 3" | "d = i + 4" | "d = i + 5" using d by linarith
        then show ?thesis
        proof cases
          case 2
          then have "2 dvd d" using less.prems(1) by presburger
          then show ?thesis using assms(2) by (meson dvd_trans)
        next
          case 4
          then have "2 dvd d" using less.prems(1) by presburger
          then show ?thesis using assms(2) by (meson dvd_trans)
        next
          case 5
          then have "3 dvd d" using less.prems(1) by presburger
          then show ?thesis using assms(3) by (meson dvd_trans)
        next
          case 6
          then have "2 dvd d" using less.prems(1) by presburger
          then show ?thesis using assms(2) by (meson dvd_trans)
        qed (use nd in auto)
      qed (use less.prems(3) d in auto)
      moreover have "(i + 6) mod 6 = 5" using less.prems(1) by presburger
      moreover have "?n - (i + 6) < ?n - i"
      proof -
        have "5 * i \<le> i * i" using i5 by simp
        then have "i < ?n" using True i5 by linarith
        then show ?thesis by simp
      qed
      ultimately have "is_prime_loop n (word_of_nat (i + 6)) = Some (prime_number ?n)"
        by (intro less.hyps) auto
      then have "is_prime_loop n (word_of_nat i + 6) = Some (prime_number ?n)" by (simp only: of_nat_add of_nat_numeral)
      then show ?thesis using True nd by (subst is_prime_loop.simps) (simp add: le md)
    qed
  qed
qed
lemma is_prime_correct:
  assumes "unat n < 2 ^ 31"
  shows "is_prime n = Some (prime_number (unat n))"
proof -
  have small: "n \<le> 3 \<longleftrightarrow> unat n \<le> 3" "1 < n \<longleftrightarrow> 1 < unat n" by (simp_all add: word_le_nat_alt word_less_nat_alt)
  have dv: "n mod 2 = 0 \<longleftrightarrow> 2 dvd unat n" "n mod 3 = 0 \<longleftrightarrow> 3 dvd unat n"
    by (simp_all add: unat_eq_0 [symmetric] unat_mod dvd_eq_mod_eq_0)
  show ?thesis
  proof (cases "unat n \<le> 3")
    case True
    have "1 < unat n \<longleftrightarrow> prime_number (unat n)"
    proof -
      have "\<not> d * d \<le> unat n" if "2 \<le> d" for d
        using True mult_le_mono [OF that that] by simp
      then show ?thesis by (auto simp: prime_number_iff)
    qed
    then show ?thesis using True by (simp add: is_prime_def small)
  next
    case big: False
    show ?thesis
    proof (cases "2 dvd unat n \<or> 3 dvd unat n")
      case True
      then have "\<not> prime_number (unat n)" using big by (auto simp: prime_number_def)
      then show ?thesis using True big by (simp add: is_prime_def small dv)
    next
      case False
      have "\<not> d dvd unat n" if d: "2 \<le> d" "d < 5" for d
      proof -
        have "d = 2 \<or> d = 3 \<or> d = 4" using d by auto
        moreover have "\<not> 4 dvd unat n" using False by (meson dvd_trans even_numeral)
        ultimately show ?thesis using False by auto
      qed
      moreover have "5 \<le> unat n"
      proof -
        have "unat n \<noteq> 4" using False by auto
        then show ?thesis using big by simp
      qed
      ultimately have "is_prime_loop n (word_of_nat 5) = Some (prime_number (unat n))"
        using False assms by (intro is_prime_loop_correct) auto
      then show ?thesis using False big by (simp add: is_prime_def small dv)
    qed
  qed
qed

text \<open>\<open>next_prime\<close> finds the least prime from its argument on, as far as there is one below \<open>2 ^ 31\<close>.\<close>

lemma next_prime_least:
  assumes "prime_number q" and "unat n \<le> q" and "q < 2 ^ 31"
  shows "\<exists>p. next_prime n = Some p \<and> prime_number (unat p) \<and> unat n \<le> unat p \<and> unat p \<le> q \<and>
    (\<forall>r. unat n \<le> r \<and> r < unat p \<longrightarrow> \<not> prime_number r)"
  using assms
proof (induction "q - unat n" arbitrary: n rule: less_induct)
  case less
  have c: "is_prime n = Some (prime_number (unat n))" using less.prems by (intro is_prime_correct) simp
  show ?case
  proof (cases "prime_number (unat n)")
    case True
    then show ?thesis using c less.prems by (subst next_prime.simps) auto
  next
    case False
    then have lt: "unat n < q" using less.prems by (cases "unat n = q") auto
    then have n1: "unat (n + 1) = Suc (unat n)" using less.prems by (simp add: unat_word_ariths)
    have "q - unat (n + 1) < q - unat n" "unat (n + 1) \<le> q" using lt n1 by simp_all
    from less.hyps [OF this(1) less.prems(1) this(2) less.prems(3)] obtain p where
      p: "next_prime (n + 1) = Some p" "prime_number (unat p)" "unat (n + 1) \<le> unat p" "unat p \<le> q"
        "\<forall>r. unat (n + 1) \<le> r \<and> r < unat p \<longrightarrow> \<not> prime_number r" by blast
    have "\<not> prime_number r" if "unat n \<le> r" "r < unat p" for r
      using that p(5) False n1 by (cases "r = unat n") auto
    then show ?thesis using c False p n1 by (subst next_prime.simps) auto
  qed
qed

lemma prime_1048573: "prime_number 1048573"
proof -
  have "is_prime 1048573 = Some True" by code_simp
  then show ?thesis using is_prime_correct [of 1048573] by simp
qed

subsection \<open>The allocation map\<close>

record allocation =
  aptr :: UW
  asize :: UW
  atag :: UB
  adtor :: UW

record alloc_map =
  capacity :: UW
  min_capacity :: UW
  downsize_factor :: rat
  upsize_factor :: rat
  sweep_factor :: rat
  sweep_limit :: UW
  am_size :: UW
  allocs :: "nat \<Rightarrow> allocation list"

abbreviation (input) GC_TAG_NONE :: UB where "GC_TAG_NONE \<equiv> 0"
abbreviation (input) GC_TAG_ROOT :: UB where "GC_TAG_ROOT \<equiv> 1"
abbreviation (input) GC_TAG_MARK :: UB where "GC_TAG_MARK \<equiv> 2"

definition gc_allocation_new :: "UW \<Rightarrow> UW \<Rightarrow> UW \<Rightarrow> allocation" where
  "gc_allocation_new p sz d = \<lparr>aptr = p, asize = sz, atag = GC_TAG_NONE, adtor = d\<rparr>"

definition gc_allocation_map_load_factor :: "alloc_map \<Rightarrow> rat" where
  "gc_allocation_map_load_factor am = dbl (size_to_dbl (am_size am) / size_to_dbl (capacity am))"

definition gc_allocation_map_new :: "UW \<Rightarrow> UW \<Rightarrow> rat \<Rightarrow> rat \<Rightarrow> rat \<Rightarrow> alloc_map option" where
  "gc_allocation_map_new mincap cap sf df uf =
     (case (next_prime mincap, next_prime cap) of
        (Some mc, Some c) \<Rightarrow>
          let c = (if c < mc then mc else c)
          in Some \<lparr>capacity = c, min_capacity = mc, downsize_factor = df, upsize_factor = uf, sweep_factor = sf,
               sweep_limit = dbl_to_size (dbl (sf * size_to_dbl c)), am_size = 0, allocs = (\<lambda>_. [])\<rparr>
      | _ \<Rightarrow> None)"

definition gc_hash :: "UW \<Rightarrow> UW" where
  "gc_hash p = drop_bit 3 p"

abbreviation bucket :: "UW \<Rightarrow> UW \<Rightarrow> nat" where
  "bucket p cap \<equiv> unat (gc_hash p mod cap)"

text \<open>Resizing moves the entries one by one to the front of their new chain.\<close>

definition rehash :: "UW \<Rightarrow> allocation \<Rightarrow> (nat \<Rightarrow> allocation list) \<Rightarrow> nat \<Rightarrow> allocation list" where
  "rehash cap a b = b(bucket (aptr a) cap := a # b (bucket (aptr a) cap))"

definition gc_allocation_map_resize :: "UW \<Rightarrow> alloc_map \<Rightarrow> alloc_map" where
  "gc_allocation_map_resize new am =
     (if new \<le> min_capacity am then am
      else
        let resized = fold (\<lambda>i b. fold (rehash new) (allocs am i) b) [0..<unat (capacity am)] (\<lambda>_. []);
            am = am\<lparr>capacity := new, allocs := resized\<rparr>
        in am\<lparr>sweep_limit := dbl_to_size (dbl (size_to_dbl (am_size am) +
             dbl (sweep_factor am * size_to_dbl (capacity am - am_size am))))\<rparr>)"

definition gc_allocation_map_resize_to_fit :: "alloc_map \<Rightarrow> (bool \<times> alloc_map) option" where
  "gc_allocation_map_resize_to_fit am =
     (let load_factor = gc_allocation_map_load_factor am
      in if upsize_factor am < load_factor then
           map_option (\<lambda>c. (True, gc_allocation_map_resize c am)) (next_prime (capacity am * 2))
         else if load_factor < downsize_factor am then
           map_option (\<lambda>c. (True, gc_allocation_map_resize c am)) (next_prime (capacity am div 2))
         else Some (False, am))"

definition gc_allocation_map_get :: "alloc_map \<Rightarrow> UW \<Rightarrow> allocation option" where
  "gc_allocation_map_get am p = find (\<lambda>a. aptr a = p) (allocs am (bucket p (capacity am)))"

text \<open>The search of \<^verbatim>\<open>put\<close>: a known pointer has its entry replaced where it is.\<close>

fun upsert_chain :: "allocation \<Rightarrow> allocation list \<Rightarrow> allocation list option" where
  "upsert_chain a [] = None"
| "upsert_chain a (cur # cs) =
     (if aptr cur = aptr a then Some (a # cs) else map_option ((#) cur) (upsert_chain a cs))"

definition gc_allocation_map_put ::
  "alloc_map \<Rightarrow> UW \<Rightarrow> UW \<Rightarrow> UW \<Rightarrow> (allocation option \<times> alloc_map) option" where
  "gc_allocation_map_put am p sz d =
     (let index = bucket p (capacity am); a = gc_allocation_new p sz d
      in case upsert_chain a (allocs am index) of
           Some cs \<Rightarrow> Some (Some a, am\<lparr>allocs := (allocs am)(index := cs)\<rparr>)
         | None \<Rightarrow>
             let am = am\<lparr>allocs := (allocs am)(index := a # allocs am index), am_size := am_size am + 1\<rparr>
             in map_option
                  (\<lambda>(resized, am). (if resized then gc_allocation_map_get am p else Some a, am))
                  (gc_allocation_map_resize_to_fit am))"

text \<open>Removing takes every entry with the pointer out of the chain.\<close>

fun remove_chain :: "UW \<Rightarrow> allocation list \<Rightarrow> UW \<Rightarrow> allocation list \<times> UW" where
  "remove_chain p [] n = ([], n)"
| "remove_chain p (cur # cs) n =
     (if aptr cur = p then remove_chain p cs (n - 1)
      else let (cs', n) = remove_chain p cs n in (cur # cs', n))"

definition gc_allocation_map_remove :: "alloc_map \<Rightarrow> UW \<Rightarrow> bool \<Rightarrow> alloc_map option" where
  "gc_allocation_map_remove am p allow_resize =
     (let index = bucket p (capacity am);
          (cs, n) = remove_chain p (allocs am index) (am_size am);
          am = am\<lparr>allocs := (allocs am)(index := cs), am_size := n\<rparr>
      in if allow_resize then map_option snd (gc_allocation_map_resize_to_fit am) else Some am)"

text \<open>Changing an entry through the pointer that \<^verbatim>\<open>get\<close> returns.\<close>

fun update_chain :: "UW \<Rightarrow> (allocation \<Rightarrow> allocation) \<Rightarrow> allocation list \<Rightarrow> allocation list" where
  "update_chain p f [] = []"
| "update_chain p f (cur # cs) = (if aptr cur = p then f cur # cs else cur # update_chain p f cs)"

definition upd_allocation :: "UW \<Rightarrow> (allocation \<Rightarrow> allocation) \<Rightarrow> alloc_map \<Rightarrow> alloc_map" where
  "upd_allocation p f am =
     (let index = bucket p (capacity am)
      in am\<lparr>allocs := (allocs am)(index := update_chain p f (allocs am index))\<rparr>)"

text \<open>All entries in the order of a walk over the buckets.\<close>

definition all_allocs :: "alloc_map \<Rightarrow> allocation list" where
  "all_allocs am = concat (map (allocs am) [0..<unat (capacity am)])"

subsection \<open>The map that the table stands for\<close>

definition am_ok :: "alloc_map \<Rightarrow> bool" where
  "am_ok am \<longleftrightarrow> 2 \<le> unat (capacity am) \<and>
     (\<forall>i<unat (capacity am). \<forall>a\<in>set (allocs am i). bucket (aptr a) (capacity am) = i) \<and>
     distinct (map aptr (all_allocs am)) \<and>
     unat (am_size am) = length (all_allocs am) \<and> length (all_allocs am) < 2 ^ 31"

lemma bucket_less: "0 < cap \<Longrightarrow> bucket p cap < unat cap"
  by (simp add: word_gt_0 unat_mod unat_gt_0)

lemma am_ok_bucket: "am_ok am \<Longrightarrow> bucket p (capacity am) < unat (capacity am)"
  by (rule bucket_less) (auto simp: am_ok_def word_gt_0 unat_gt_0)

lemma all_allocs_mem: "a \<in> set (all_allocs am) \<longleftrightarrow> (\<exists>i<unat (capacity am). a \<in> set (allocs am i))"
  by (auto simp: all_allocs_def)

text \<open>The table read as a finite map.\<close>

lemma find_distinct:
  "distinct (map f xs) \<Longrightarrow> find (\<lambda>a. f a = p) xs = Some a \<longleftrightarrow> a \<in> set xs \<and> f a = p"
  by (induction xs) (auto simp: rev_image_eqI)

lemma gc_get_iff:
  assumes "am_ok am"
  shows "gc_allocation_map_get am p = Some a \<longleftrightarrow> a \<in> set (all_allocs am) \<and> aptr a = p"
proof -
  note lt = am_ok_bucket [OF assms, of p]
  have "distinct (map aptr (allocs am (bucket p (capacity am))))"
    using assms concat_upt_split [OF lt, of "allocs am"] by (simp add: am_ok_def all_allocs_def)
  moreover have "a \<in> set (allocs am (bucket p (capacity am))) \<and> aptr a = p \<longleftrightarrow> a \<in> set (all_allocs am) \<and> aptr a = p"
    using assms lt by (auto simp: all_allocs_mem am_ok_def)
  ultimately show ?thesis by (simp add: gc_allocation_map_get_def find_distinct)
qed
text \<open>What the table holds is determined by the entries of a walk.\<close>

lemma gc_get_cong:
  assumes "am_ok am" "am_ok am'" "set (all_allocs am') = set (all_allocs am)"
  shows "gc_allocation_map_get am' = gc_allocation_map_get am"
proof
  fix p
  have "gc_allocation_map_get am' p = Some a \<longleftrightarrow> gc_allocation_map_get am p = Some a" for a
    using gc_get_iff [OF assms(1), of p a] gc_get_iff [OF assms(2), of p a] assms(3) by simp
  then show "gc_allocation_map_get am' p = gc_allocation_map_get am p" by (metis not_Some_eq)
qed

lemma fold_fold_concat: "fold (\<lambda>i. fold f (g i)) xs = fold f (concat (map g xs))"
  by (induction xs) auto

lemma fold_rehash: "fold (rehash cap) xs b i = rev (filter (\<lambda>a. bucket (aptr a) cap = i) xs) @ b i"
  by (induction xs arbitrary: b) (auto simp: rehash_def)

lemma mset_buckets:
  assumes "\<forall>a\<in>set xs. h a < n"
  shows "mset (concat (map (\<lambda>i. rev (filter (\<lambda>a. h a = i) xs)) [0..<n])) = mset xs"
  using assms
proof (induction xs)
  case (Cons a xs)
  have other: "concat (map (\<lambda>i. rev (filter (\<lambda>b. h b = i) (a # xs))) ns) = concat (map (\<lambda>i. rev (filter (\<lambda>b. h b = i) xs)) ns)"
    if "h a \<notin> set ns" for ns
    using that by (induction ns) auto
  have "concat (map (\<lambda>i. rev (filter (\<lambda>b. h b = i) (a # xs))) [0..<n]) =
      concat (map (\<lambda>i. rev (filter (\<lambda>b. h b = i) xs)) [0..<h a]) @
      (rev (filter (\<lambda>b. h b = h a) xs) @ [a]) @ concat (map (\<lambda>i. rev (filter (\<lambda>b. h b = i) xs)) [Suc (h a)..<n])"
    by (subst concat_upt_split [of "h a" n]) (use Cons.prems in \<open>simp_all add: other del: filter.simps, simp\<close>)
  then show ?case
    using Cons concat_upt_split [of "h a" n "\<lambda>i. rev (filter (\<lambda>b. h b = i) xs)"] by simp
qed simp

lemma am_okI:
  assumes "2 \<le> unat (capacity am')"
    and "\<forall>i<unat (capacity am'). \<forall>a\<in>set (allocs am' i). bucket (aptr a) (capacity am') = i"
    and "mset (all_allocs am') = mset xs" and "distinct (map aptr xs)"
    and "unat (am_size am') = length xs" and "length xs < 2 ^ 31"
  shows "am_ok am'"
proof -
  have "mset (map aptr (all_allocs am')) = mset (map aptr xs)" using assms(3) by simp
  then have "distinct (map aptr (all_allocs am'))" using assms(4) by (metis mset_eq_imp_distinct_iff)
  moreover have "length (all_allocs am') = length xs" using assms(3) by (rule mset_eq_length)
  ultimately show ?thesis using assms by (simp add: am_ok_def)
qed

lemma resize_keeps:
  assumes ok: "am_ok am" and new: "2 \<le> unat new"
  shows "am_ok (gc_allocation_map_resize new am)"
    and "set (all_allocs (gc_allocation_map_resize new am)) = set (all_allocs am)"
proof -
  have "am_ok (gc_allocation_map_resize new am) \<and> set (all_allocs (gc_allocation_map_resize new am)) = set (all_allocs am)"
  proof (cases "new \<le> min_capacity am")
    case False
    let ?am = "gc_allocation_map_resize new am"
    have sel: "allocs ?am = (\<lambda>i. rev (filter (\<lambda>a. bucket (aptr a) new = i) (all_allocs am)))"
        "capacity ?am = new" "am_size ?am = am_size am"
      using False by (simp_all add: gc_allocation_map_resize_def Let_def fold_fold_concat fold_rehash fun_eq_iff all_allocs_def)
    have "\<forall>a\<in>set (all_allocs am). bucket (aptr a) new < unat new"
      using new by (auto intro!: bucket_less simp: word_gt_0 unat_gt_0)
    from mset_buckets [OF this] have m: "mset (all_allocs ?am) = mset (all_allocs am)"
      by (simp add: all_allocs_def [of ?am] sel)
    have "am_ok ?am"
      by (rule am_okI [OF _ _ m]) (use ok new in \<open>auto simp: sel am_ok_def\<close>)
    with m show ?thesis by (metis set_mset_mset)
  qed (use ok in \<open>simp add: gc_allocation_map_resize_def\<close>)
  then show "am_ok (gc_allocation_map_resize new am)"
    "set (all_allocs (gc_allocation_map_resize new am)) = set (all_allocs am)" by blast+
qed

text \<open>Small enough tables find a prime to grow to.\<close>

definition growable :: "alloc_map \<Rightarrow> bool" where
  "growable am \<longleftrightarrow> 2 * unat (capacity am) \<le> 1048573"

lemma resize_to_fit_keeps:
  assumes ok: "am_ok am" and g: "growable am"
  shows "\<exists>b am'. gc_allocation_map_resize_to_fit am = Some (b, am') \<and> am_ok am' \<and>
    gc_allocation_map_get am' = gc_allocation_map_get am \<and> set (all_allocs am') = set (all_allocs am) \<and> (\<not> b \<longrightarrow> am' = am)"
proof -
  have two: "unat (capacity am * 2) = unat (capacity am) * 2" using g by (simp add: growable_def unat_word_ariths)
  have "\<exists>p. next_prime n = Some p \<and> 2 \<le> unat p" if n: "n = capacity am * 2 \<or> n = capacity am div 2" for n
  proof -
    have "unat n \<le> 1048573" using n two g by (auto simp: growable_def unat_div)
    with next_prime_least [OF prime_1048573, of n] show ?thesis by (force simp: prime_number_def)
  qed
  from this [of "capacity am * 2"] this [of "capacity am div 2"]
  obtain p q where p: "next_prime (capacity am * 2) = Some p" "2 \<le> unat p"
    and q: "next_prime (capacity am div 2) = Some q" "2 \<le> unat q" by blast
  note kp = resize_keeps [OF ok p(2)] and kq = resize_keeps [OF ok q(2)]
  let ?l = "gc_allocation_map_load_factor am"
  consider "upsize_factor am < ?l" | "\<not> upsize_factor am < ?l" "?l < downsize_factor am"
    | "\<not> upsize_factor am < ?l" "\<not> ?l < downsize_factor am" by blast
  then show ?thesis
  proof cases
    case 1
    then have "gc_allocation_map_resize_to_fit am = Some (True, gc_allocation_map_resize p am)"
      by (simp add: gc_allocation_map_resize_to_fit_def Let_def p(1))
    then show ?thesis using kp gc_get_cong [OF ok kp] by blast
  next
    case 2
    then have "gc_allocation_map_resize_to_fit am = Some (True, gc_allocation_map_resize q am)"
      by (simp add: gc_allocation_map_resize_to_fit_def Let_def q(1))
    then show ?thesis using kq gc_get_cong [OF ok kq] by blast
  next
    case 3
    then have "gc_allocation_map_resize_to_fit am = Some (False, am)"
      by (simp add: gc_allocation_map_resize_to_fit_def Let_def)
    then show ?thesis using ok by blast
  qed
qed
text \<open>A change of one bucket.\<close>

lemma all_allocs_split:
  assumes "i < unat (capacity am)"
  shows "\<exists>A B. all_allocs am = A @ allocs am i @ B \<and>
    (\<forall>cs. all_allocs (am\<lparr>allocs := (allocs am)(i := cs)\<rparr>) = A @ cs @ B)"
proof -
  have "map ((allocs am)(i := cs)) [0..<i] = map (allocs am) [0..<i]"
    "map ((allocs am)(i := cs)) [Suc i..<unat (capacity am)] = map (allocs am) [Suc i..<unat (capacity am)]" for cs
    by simp_all
  then show ?thesis
    unfolding all_allocs_def using concat_upt_split [OF assms] by (metis (no_types) fun_upd_same select_convs(8) select_convs(1) update_convs(8) alloc_map.ext_inject alloc_map.surjective)
qed

lemma update_chain_map:
  "distinct (map aptr cs) \<Longrightarrow> update_chain p f cs = map (\<lambda>a. if aptr a = p then f a else a) cs"
proof (induction cs)
  case (Cons c cs)
  have "map (\<lambda>a. if aptr a = p then f a else a) cs = cs" if "aptr c = p"
  proof -
    have "aptr x \<noteq> p" if "x \<in> set cs" for x using Cons.prems that \<open>aptr c = p\<close> by (metis distinct.simps(2) image_eqI list.set_map list.simps(9))
    then show ?thesis by (auto intro!: map_idI)
  qed
  with Cons show ?case by auto
qed simp

lemma upsert_chain_eq:
  "upsert_chain a cs = (if aptr a \<in> aptr ` set cs then Some (update_chain (aptr a) (\<lambda>_. a) cs) else None)"
  by (induction cs) auto

lemma remove_chain_eq:
  "remove_chain p cs n = (filter (\<lambda>a. aptr a \<noteq> p) cs, n - of_nat (length (filter (\<lambda>a. aptr a = p) cs)))"
  by (induction cs arbitrary: n) (auto simp: algebra_simps)

lemma bucket_elsewhere:
  assumes ok: "am_ok am" and A: "all_allocs am = A @ allocs am (bucket p (capacity am)) @ B"
  shows "\<forall>a\<in>set A \<union> set B. aptr a \<noteq> p"
proof (intro ballI notI)
  fix a assume a: "a \<in> set A \<union> set B" "aptr a = p"
  let ?i = "bucket p (capacity am)"
  have "a \<in> set (all_allocs am)" using a A by auto
  then have "a \<in> set (allocs am ?i)" using ok a(2) by (auto simp: all_allocs_mem am_ok_def)
  moreover have "distinct (map aptr (all_allocs am))" using ok by (simp add: am_ok_def)
  ultimately show False using a(1) unfolding A by (auto simp: rev_image_eqI)
qed

text \<open>Changing an entry.\<close>

lemma upd_allocation_keeps:
  assumes ok: "am_ok am" and f: "\<forall>a. aptr a = p \<longrightarrow> aptr (f a) = p"
  shows "am_ok (upd_allocation p f am)"
    and "all_allocs (upd_allocation p f am) = map (\<lambda>a. if aptr a = p then f a else a) (all_allocs am)"
proof -
  let ?i = "bucket p (capacity am)" and ?g = "\<lambda>a. if aptr a = p then f a else a"
  obtain A B where AB: "all_allocs am = A @ allocs am ?i @ B"
      "\<forall>cs. all_allocs (am\<lparr>allocs := (allocs am)(?i := cs)\<rparr>) = A @ cs @ B"
    using all_allocs_split [OF am_ok_bucket [OF ok]] by blast
  have d: "distinct (map aptr (allocs am ?i))" using ok AB(1) by (simp add: am_ok_def)
  have "map ?g A = A" "map ?g B = B" using bucket_elsewhere [OF ok AB(1)] by (auto intro!: map_idI)
  then show all: "all_allocs (upd_allocation p f am) = map ?g (all_allocs am)"
    by (simp add: upd_allocation_def Let_def AB update_chain_map [OF d])
  have ptr: "map aptr (map ?g xs) = map aptr xs" for xs using f by auto
  have "\<forall>i<unat (capacity am). \<forall>a\<in>set (allocs (upd_allocation p f am) i). bucket (aptr a) (capacity am) = i"
  proof (intro allI impI ballI)
    fix i a assume i: "i < unat (capacity am)" and a: "a \<in> set (allocs (upd_allocation p f am) i)"
    have "allocs (upd_allocation p f am) i = (if i = ?i then map ?g (allocs am i) else allocs am i)"
      by (simp add: upd_allocation_def Let_def update_chain_map [OF d])
    then obtain b where b: "b \<in> set (allocs am i)" "aptr a = aptr b" using a f by (auto split: if_splits)
    then show "bucket (aptr a) (capacity am) = i" using ok i by (simp add: am_ok_def)
  qed
  moreover have "distinct (map aptr (all_allocs (upd_allocation p f am)))"
    unfolding all ptr using ok by (simp add: am_ok_def)
  moreover have "capacity (upd_allocation p f am) = capacity am" "am_size (upd_allocation p f am) = am_size am"
    by (simp_all add: upd_allocation_def Let_def)
  moreover have "length (all_allocs (upd_allocation p f am)) = length (all_allocs am)" by (simp add: all)
  ultimately show "am_ok (upd_allocation p f am)" using ok by (simp add: am_ok_def)
qed

lemma gc_get_upd:
  assumes ok: "am_ok am" and f: "\<forall>a. aptr a = p \<longrightarrow> aptr (f a) = p"
  shows "gc_allocation_map_get (upd_allocation p f am) q =
    (if q = p then map_option f (gc_allocation_map_get am p) else gc_allocation_map_get am q)"
proof -
  note k = upd_allocation_keeps [OF ok f]
  have iff: "gc_allocation_map_get (upd_allocation p f am) q = Some b \<longleftrightarrow>
      (\<exists>a. gc_allocation_map_get am q = Some a \<and> b = (if q = p then f a else a))" for b
  proof -
    have "gc_allocation_map_get (upd_allocation p f am) q = Some b \<longleftrightarrow>
        (\<exists>a\<in>set (all_allocs am). b = (if aptr a = p then f a else a) \<and> aptr b = q)"
      unfolding gc_get_iff [OF k(1)] k(2) set_map image_iff by blast
    also have "\<dots> \<longleftrightarrow> (\<exists>a\<in>set (all_allocs am). aptr a = q \<and> b = (if q = p then f a else a))"
      using f by metis
    finally show ?thesis by (auto simp: gc_get_iff [OF ok])
  qed
  show ?thesis using iff by (cases "gc_allocation_map_get am q") (auto, metis not_Some_eq)
qed

text \<open>Removing an entry.\<close>

lemma remove_keeps:
  assumes ok: "am_ok am"
  shows "\<exists>am'. gc_allocation_map_remove am p False = Some am' \<and> am_ok am' \<and> capacity am' = capacity am \<and>
    min_capacity am' = min_capacity am \<and> all_allocs am' = filter (\<lambda>a. aptr a \<noteq> p) (all_allocs am) \<and>
    (\<forall>i. allocs am' i = (if i = bucket p (capacity am) then filter (\<lambda>a. aptr a \<noteq> p) (allocs am i) else allocs am i))"
proof -
  let ?i = "bucket p (capacity am)"
  let ?cs = "filter (\<lambda>a. aptr a \<noteq> p) (allocs am ?i)"
  let ?n = "am_size am - of_nat (length (filter (\<lambda>a. aptr a = p) (allocs am ?i)))"
  let ?am = "am\<lparr>allocs := (allocs am)(?i := ?cs), am_size := ?n\<rparr>"
  obtain A B where AB: "all_allocs am = A @ allocs am ?i @ B"
      "\<forall>cs. all_allocs (am\<lparr>allocs := (allocs am)(?i := cs)\<rparr>) = A @ cs @ B"
    using all_allocs_split [OF am_ok_bucket [OF ok]] by blast
  have sz: "all_allocs (am\<lparr>allocs := b, am_size := n\<rparr>) = all_allocs (am\<lparr>allocs := b\<rparr>)" for b n
    by (simp add: all_allocs_def)
  have "filter (\<lambda>a. aptr a \<noteq> p) A = A" "filter (\<lambda>a. aptr a \<noteq> p) B = B"
    using bucket_elsewhere [OF ok AB(1)] by (auto intro!: filter_True)
  then have all: "all_allocs ?am = filter (\<lambda>a. aptr a \<noteq> p) (all_allocs am)" by (simp add: sz AB)
  let ?k = "length (filter (\<lambda>a. aptr a = p) (allocs am ?i))"
  have len: "length (all_allocs am) = length (all_allocs ?am) + ?k"
    using sum_length_filter_compl [of "\<lambda>a. aptr a = p" "allocs am ?i"] by (simp add: sz AB)
  have "unat (am_size am) = length (all_allocs am)" "length (all_allocs am) < 2 ^ 31" using ok by (simp_all add: am_ok_def)
  then have "unat ?n = length (all_allocs ?am)"
    using len by (simp add: unat_sub_if_size word_size unat_of_nat)
  moreover have "distinct (map aptr (all_allocs ?am))" using ok unfolding all by (simp add: am_ok_def distinct_map_filter)
  ultimately have "am_ok ?am" using ok len by (auto simp: am_ok_def)
  moreover have "gc_allocation_map_remove am p False = Some ?am"
    by (simp add: gc_allocation_map_remove_def Let_def remove_chain_eq)
  ultimately show ?thesis using all by (intro exI [of _ ?am]) simp
qed
lemma am_ok_cons:
  assumes ok: "am_ok am" and new: "gc_allocation_map_get am (aptr a) = None" and len: "length (all_allocs am) < 2 ^ 31 - 1"
    and am': "am' = am\<lparr>allocs := (allocs am)(bucket (aptr a) (capacity am) := a # allocs am (bucket (aptr a) (capacity am))),
      am_size := am_size am + 1\<rparr>"
  shows "am_ok am'" and "gc_allocation_map_get am' = (gc_allocation_map_get am)(aptr a \<mapsto> a)"
proof -
  let ?i = "bucket (aptr a) (capacity am)"
  obtain A B where AB: "all_allocs am = A @ allocs am ?i @ B"
      "\<forall>cs. all_allocs (am\<lparr>allocs := (allocs am)(?i := cs)\<rparr>) = A @ cs @ B"
    using all_allocs_split [OF am_ok_bucket [OF ok]] by blast
  have "all_allocs am' = all_allocs (am\<lparr>allocs := (allocs am)(?i := a # allocs am ?i)\<rparr>)" by (simp add: all_allocs_def am')
  then have m: "mset (all_allocs am') = mset (a # all_allocs am)" by (simp add: AB)
  have none: "\<forall>b\<in>set (all_allocs am). aptr b \<noteq> aptr a" using new gc_get_iff [OF ok, of "aptr a"] by auto
  show ok': "am_ok am'"
    by (rule am_okI [OF _ _ m]) (use ok none len in \<open>auto simp: am' am_ok_def unat_word_ariths\<close>)
  have set': "set (all_allocs am') = insert a (set (all_allocs am))" using m by (metis list.set(2) set_mset_mset)
  have "gc_allocation_map_get am' p = Some b \<longleftrightarrow> ((gc_allocation_map_get am)(aptr a \<mapsto> a)) p = Some b" for p b
    using none by (auto simp: gc_get_iff [OF ok'] gc_get_iff [OF ok] set')
  then show "gc_allocation_map_get am' = (gc_allocation_map_get am)(aptr a \<mapsto> a)" by (metis not_Some_eq ext)
qed

lemma put_keeps:
  assumes ok: "am_ok am" and g: "growable am" and len: "length (all_allocs am) < 2 ^ 31 - 1"
  shows "\<exists>am'. gc_allocation_map_put am p sz d = Some (Some (gc_allocation_new p sz d), am') \<and> am_ok am' \<and>
    gc_allocation_map_get am' = (gc_allocation_map_get am)(p \<mapsto> gc_allocation_new p sz d)"
proof -
  let ?a = "gc_allocation_new p sz d" and ?i = "bucket p (capacity am)"
  have ptr: "aptr ?a = p" by (simp add: gc_allocation_new_def)
  show ?thesis
  proof (cases "p \<in> aptr ` set (allocs am ?i)")
    case True
    then obtain b where "gc_allocation_map_get am p = Some b"
      by (auto simp: gc_get_iff [OF ok] all_allocs_mem) (metis am_ok_bucket ok)
    then have "gc_allocation_map_get (upd_allocation p (\<lambda>_. ?a) am) = (gc_allocation_map_get am)(p \<mapsto> ?a)"
      by (auto simp: fun_eq_iff gc_get_upd [OF ok] ptr)
    moreover have "gc_allocation_map_put am p sz d = Some (Some ?a, upd_allocation p (\<lambda>_. ?a) am)"
      using True by (simp add: gc_allocation_map_put_def upsert_chain_eq ptr upd_allocation_def Let_def)
    ultimately show ?thesis using upd_allocation_keeps(1) [OF ok, of p "\<lambda>_. ?a"] ptr by auto
  next
    case False
    then have new: "gc_allocation_map_get am (aptr ?a) = None"
      by (auto simp: gc_allocation_map_get_def find_None_iff ptr)
    let ?am = "am\<lparr>allocs := (allocs am)(?i := ?a # allocs am ?i), am_size := am_size am + 1\<rparr>"
    have cons: "am_ok ?am" "gc_allocation_map_get ?am = (gc_allocation_map_get am)(p \<mapsto> ?a)"
      using am_ok_cons [OF ok new len, of ?am] by (simp_all add: ptr)
    have "growable ?am" using g by (simp add: growable_def)
    from resize_to_fit_keeps [OF cons(1) this] obtain b am' where
      fit: "gc_allocation_map_resize_to_fit ?am = Some (b, am')" "am_ok am'" "gc_allocation_map_get am' = gc_allocation_map_get ?am"
      by blast
    have "gc_allocation_map_put am p sz d = Some (Some ?a, am')"
      using False fit(1,3) cons(2) by (simp add: gc_allocation_map_put_def upsert_chain_eq ptr Let_def)
    then show ?thesis using fit cons(2) by auto
  qed
qed

lemma remove_get:
  assumes ok: "am_ok am" and g: "b \<Longrightarrow> growable am"
  shows "\<exists>am'. gc_allocation_map_remove am p b = Some am' \<and> am_ok am' \<and>
    gc_allocation_map_get am' = (gc_allocation_map_get am)(p := None)"
proof -
  obtain am1 where r: "gc_allocation_map_remove am p False = Some am1" "am_ok am1" "capacity am1 = capacity am"
      "all_allocs am1 = filter (\<lambda>a. aptr a \<noteq> p) (all_allocs am)"
    using remove_keeps [OF ok, of p] by blast
  have "gc_allocation_map_get am1 q = Some a \<longleftrightarrow> ((gc_allocation_map_get am)(p := None)) q = Some a" for q a
    by (auto simp: gc_get_iff [OF ok] gc_get_iff [OF r(2)] r(4))
  then have get: "gc_allocation_map_get am1 = (gc_allocation_map_get am)(p := None)" by (metis not_Some_eq ext)
  show ?thesis
  proof (cases b)
    case False
    then show ?thesis using r get by simp
  next
    case True
    then have "growable am1" using g r(3) by (simp add: growable_def)
    from resize_to_fit_keeps [OF r(2) this] obtain c am2 where
      fit: "gc_allocation_map_resize_to_fit am1 = Some (c, am2)" "am_ok am2" "gc_allocation_map_get am2 = gc_allocation_map_get am1"
      by blast
    have "gc_allocation_map_remove am p True = Some am2"
      using r(1) fit(1) by (simp add: gc_allocation_map_remove_def Let_def split: prod.splits)
    then show ?thesis using True fit get by auto
  qed
qed

lemma map_new_ok:
  assumes q: "prime_number q" "unat mincap \<le> q" "unat cap \<le> q" "q < 2 ^ 31"
  shows "\<exists>am. gc_allocation_map_new mincap cap sf df uf = Some am \<and> am_ok am \<and> gc_allocation_map_get am = Map.empty \<and>
    prime_number (unat (capacity am)) \<and> mincap \<le> min_capacity am \<and> min_capacity am \<le> capacity am \<and>
    cap \<le> capacity am \<and> unat (capacity am) \<le> q"
proof -
  obtain mc c where p: "next_prime mincap = Some mc" "prime_number (unat mc)" "unat mincap \<le> unat mc" "unat mc \<le> q"
      "next_prime cap = Some c" "prime_number (unat c)" "unat cap \<le> unat c" "unat c \<le> q"
    using next_prime_least [OF q(1,2,4)] next_prime_least [OF q(1,3,4)] by blast
  have two: "2 \<le> unat mc" "2 \<le> unat c" using p(2,6) by (simp_all add: prime_number_def)
  have nil: "concat (map (\<lambda>_. [] :: allocation list) ns) = []" for ns :: "nat list" by simp
  show ?thesis using p two
    by (auto simp: nil gc_allocation_map_new_def Let_def am_ok_def all_allocs_def gc_allocation_map_get_def fun_eq_iff
          word_less_nat_alt word_le_nat_alt)
qed

lemma all_allocs_card:
  assumes "am_ok am"
  shows "length (all_allocs am) = card (dom (gc_allocation_map_get am))"
proof -
  have "dom (gc_allocation_map_get am) = aptr ` set (all_allocs am)" by (auto simp: gc_get_iff [OF assms])
  moreover have "distinct (map aptr (all_allocs am))" using assms by (simp add: am_ok_def)
  ultimately show ?thesis by (metis distinct_card length_map set_map)
qed

text \<open>
  C38: The hash table of allocations is a finite map from pointers to allocations. From a table that is
  well formed and can still grow, an insertion returns the new entry and changes the map at the pointer
  only, also when it replaces an entry, has the table resized or collides with other pointers; a removal
  takes the pointer out, and is without effect on the map for an unknown one; a resize changes nothing. The
  table stays well formed, so its size is the number of entries.
\<close>

theorem alloc_map_refines:
  assumes ok: "am_ok am" and g: "growable am" and len: "length (all_allocs am) < 2 ^ 31 - 1"
  shows "(\<exists>am'. gc_allocation_map_put am p sz d = Some (Some (gc_allocation_new p sz d), am') \<and> am_ok am' \<and>
      gc_allocation_map_get am' = (gc_allocation_map_get am)(p \<mapsto> gc_allocation_new p sz d)) \<and>
    (\<exists>am'. gc_allocation_map_remove am p b = Some am' \<and> am_ok am' \<and>
      gc_allocation_map_get am' = (gc_allocation_map_get am)(p := None)) \<and>
    (\<exists>c am'. gc_allocation_map_resize_to_fit am = Some (c, am') \<and> am_ok am' \<and>
      gc_allocation_map_get am' = gc_allocation_map_get am) \<and>
    unat (am_size am) = card (dom (gc_allocation_map_get am))"
  using put_keeps [OF ok g len] remove_get [OF ok g] resize_to_fit_keeps [OF ok g] all_allocs_card [OF ok] ok
  by (auto simp: am_ok_def)

text \<open>
  The test for primes that tries only divisors of the form 6k - 1 and 6k + 1 is right for all numbers
  below \<open>2 ^ 31\<close>, and the search for a prime capacity finds the least prime that is not smaller, when there
  is one in that range.
\<close>

theorem next_prime_correct:
  assumes "prime_number q" and "unat n \<le> q" and "q < 2 ^ 31"
  shows "is_prime n = Some (prime_number (unat n)) \<and>
    (\<exists>p. next_prime n = Some p \<and> unat p = (LEAST r. prime_number r \<and> unat n \<le> r))"
proof -
  obtain p where p: "next_prime n = Some p" "prime_number (unat p)" "unat n \<le> unat p"
      "\<forall>r. unat n \<le> r \<and> r < unat p \<longrightarrow> \<not> prime_number r"
    using next_prime_least [OF assms] by blast
  have "(LEAST r. prime_number r \<and> unat n \<le> r) = unat p"
    by (rule Least_equality) (use p in \<open>auto simp: not_less [symmetric]\<close>)
  with p(1) show ?thesis using is_prime_correct [of n] assms by simp
qed

lemma prime_1031: "prime_number 1031"
proof -
  have "is_prime 1031 = Some True" by code_simp
  then show ?thesis using is_prime_correct [of 1031] by simp
qed

theorem alloc_map_refines_witness:
  "\<exists>am am'. gc_allocation_map_new 1024 1024 (1 / 2) (1 / 5) (4 / 5) = Some am \<and>
    gc_allocation_map_put am 0x1000 24 0 = Some (Some (gc_allocation_new 0x1000 24 0), am') \<and>
    gc_allocation_map_get am' = [0x1000 \<mapsto> gc_allocation_new 0x1000 24 0]"
proof -
  obtain am where am: "gc_allocation_map_new 1024 1024 (1 / 2) (1 / 5) (4 / 5) = Some am" "am_ok am"
      "gc_allocation_map_get am = Map.empty" "unat (capacity am) \<le> 1031"
    using map_new_ok [OF prime_1031, of 1024 1024 "1 / 2" "1 / 5" "4 / 5"] by auto
  have "growable am" "length (all_allocs am) < 2 ^ 31 - 1"
    using am all_allocs_card [OF am(2)] by (simp_all add: growable_def)
  with am alloc_map_refines [OF am(2), where p = "0x1000" and sz = 24 and d = 0] show ?thesis by auto
qed

theorem next_prime_correct_witness:
  "is_prime 1024 = Some (prime_number 1024) \<and>
    (\<exists>p. next_prime 1024 = Some p \<and> unat p = (LEAST r. prime_number r \<and> 1024 \<le> r))"
  using next_prime_correct [OF prime_1031, of 1024] by simp

end
