(* ===== verification/Collector.thy ===== *)
theory Collector
  imports Alloc_Map
begin

text \<open>
  The mark-and-sweep collector of \<^verbatim>\<open>src/gc.c\<close> on top of the allocation map. The memory is a function from
  addresses to bytes, little-endian as on the target. What \<^verbatim>\<open>malloc\<close>, \<^verbatim>\<open>calloc\<close> and \<^verbatim>\<open>realloc\<close> return is an
  argument (0 for failure), and so is the frame address \<open>tos\<close> from which the stack is scanned. Calls of
  \<^verbatim>\<open>free\<close> and of destructors are recorded in the order they are made; destructors are taken not to use the
  collector. Marking recurses through the objects, so it takes a bound on the depth of the recursion.
\<close>

subsection \<open>State\<close>

datatype gc_event = Dtor UW UW | Free UW

record gc_state =
  gc_allocs :: alloc_map
  paused :: bool
  bos :: UW
  gmem :: "UW \<Rightarrow> UB"
  gc_events :: "gc_event list"

abbreviation (input) PTRSIZE :: UW where "PTRSIZE \<equiv> 4"

text \<open>Reading pointers at every byte address from \<open>lo\<close> to \<open>hi\<close>.\<close>

definition load_ptr :: "(UW \<Rightarrow> UB) \<Rightarrow> UW \<Rightarrow> UW" where
  "load_ptr m p = word_rcat [m (p + 3), m (p + 2), m (p + 1), m p]"

definition scan_range :: "(UW \<Rightarrow> UB) \<Rightarrow> UW \<Rightarrow> UW \<Rightarrow> UW list" where
  "scan_range m lo hi = map (\<lambda>a. load_ptr m (word_of_nat a)) [unat lo..<Suc (unat hi)]"

definition contents :: "(UW \<Rightarrow> UB) \<Rightarrow> allocation \<Rightarrow> UW list" where
  "contents m a = scan_range m (aptr a) (aptr a + asize a - PTRSIZE)"

text \<open>Steps that may fail, one for each element of a list.\<close>

fun each :: "('a \<Rightarrow> 's \<Rightarrow> 's option) \<Rightarrow> 'a list \<Rightarrow> 's \<Rightarrow> 's option" where
  "each f [] s = Some s"
| "each f (x # xs) s = (case f x s of None \<Rightarrow> None | Some s \<Rightarrow> each f xs s)"

definition upd_tag :: "UW \<Rightarrow> (UB \<Rightarrow> UB) \<Rightarrow> gc_state \<Rightarrow> gc_state" where
  "upd_tag p f gc = gc\<lparr>gc_allocs := upd_allocation p (\<lambda>a. a\<lparr>atag := f (atag a)\<rparr>) (gc_allocs gc)\<rparr>"

subsection \<open>Marking\<close>

primrec gc_mark_alloc :: "nat \<Rightarrow> UW \<Rightarrow> gc_state \<Rightarrow> gc_state option" where
  "gc_mark_alloc 0 p gc = None"
| "gc_mark_alloc (Suc n) p gc =
     (case gc_allocation_map_get (gc_allocs gc) p of
        None \<Rightarrow> Some gc
      | Some a \<Rightarrow>
          if atag a AND GC_TAG_MARK \<noteq> 0 then Some gc
          else each (gc_mark_alloc n) (contents (gmem gc) a) (upd_tag p (\<lambda>tag. tag OR GC_TAG_MARK) gc))"

definition gc_mark_stack :: "nat \<Rightarrow> UW \<Rightarrow> gc_state \<Rightarrow> gc_state option" where
  "gc_mark_stack n tos gc = each (gc_mark_alloc n) (scan_range (gmem gc) tos (bos gc - PTRSIZE)) gc"

definition gc_mark_roots :: "nat \<Rightarrow> gc_state \<Rightarrow> gc_state option" where
  "gc_mark_roots n gc =
     each (\<lambda>chunk gc. if atag chunk AND GC_TAG_ROOT \<noteq> 0 then gc_mark_alloc n (aptr chunk) gc else Some gc)
       (all_allocs (gc_allocs gc)) gc"

definition gc_mark :: "nat \<Rightarrow> UW \<Rightarrow> gc_state \<Rightarrow> gc_state option" where
  "gc_mark n tos gc = Option.bind (gc_mark_roots n gc) (gc_mark_stack n tos)"

subsection \<open>Sweeping\<close>

definition sweep_chunk :: "allocation \<Rightarrow> gc_state \<times> UW \<Rightarrow> (gc_state \<times> UW) option" where
  "sweep_chunk chunk s =
     (let (gc, bytes) = s
      in if atag chunk AND GC_TAG_MARK \<noteq> 0 then Some (upd_tag (aptr chunk) (\<lambda>tag. tag AND NOT GC_TAG_MARK) gc, bytes)
         else
           let bytes = bytes + asize chunk;
               gc = (if adtor chunk \<noteq> 0 then gc\<lparr>gc_events := gc_events gc @ [Dtor (adtor chunk) (aptr chunk)]\<rparr> else gc);
               gc = gc\<lparr>gc_events := gc_events gc @ [Free (aptr chunk)]\<rparr>
           in map_option (\<lambda>am. (gc\<lparr>gc_allocs := am\<rparr>, bytes))
                (gc_allocation_map_remove (gc_allocs gc) (aptr chunk) False))"

definition gc_sweep :: "gc_state \<Rightarrow> (UW \<times> gc_state) option" where
  "gc_sweep gc =
     (case each (\<lambda>i s. each sweep_chunk (allocs (gc_allocs (fst s)) i) s) [0..<unat (capacity (gc_allocs gc))] (gc, 0) of
        None \<Rightarrow> None
      | Some (gc, bytes) \<Rightarrow>
          map_option (\<lambda>(_, am). (bytes, gc\<lparr>gc_allocs := am\<rparr>)) (gc_allocation_map_resize_to_fit (gc_allocs gc)))"

definition gc_run :: "nat \<Rightarrow> UW \<Rightarrow> gc_state \<Rightarrow> (UW \<times> gc_state) option" where
  "gc_run n tos gc = Option.bind (gc_mark n tos gc) gc_sweep"

subsection \<open>Starting and stopping\<close>

definition gc_start_ext :: "UW \<Rightarrow> UW \<Rightarrow> UW \<Rightarrow> rat \<Rightarrow> rat \<Rightarrow> rat \<Rightarrow> gc_state \<Rightarrow> gc_state option" where
  "gc_start_ext b initial_capacity mincap downsize_load_factor upsize_load_factor sf gc =
     (let downsize_limit = (if 0 < downsize_load_factor then downsize_load_factor else dbl (1 / 5));
          upsize_limit = (if 0 < upsize_load_factor then upsize_load_factor else dbl (4 / 5));
          sf = (if 0 < sf then sf else dbl (1 / 2));
          initial_capacity = (if initial_capacity < mincap then mincap else initial_capacity)
      in map_option (\<lambda>am. gc\<lparr>paused := False, bos := b, gc_allocs := am\<rparr>)
           (gc_allocation_map_new mincap initial_capacity sf downsize_limit upsize_limit))"

definition gc_start :: "UW \<Rightarrow> gc_state \<Rightarrow> gc_state option" where
  "gc_start b gc = gc_start_ext b 1024 1024 (dbl (1 / 5)) (dbl (4 / 5)) (dbl (1 / 2)) gc"

definition gc_pause :: "gc_state \<Rightarrow> gc_state" where
  "gc_pause gc = gc\<lparr>paused := True\<rparr>"

definition gc_resume :: "gc_state \<Rightarrow> gc_state" where
  "gc_resume gc = gc\<lparr>paused := False\<rparr>"

definition gc_unroot_roots :: "gc_state \<Rightarrow> gc_state" where
  "gc_unroot_roots gc =
     gc\<lparr>gc_allocs := (gc_allocs gc)\<lparr>allocs := \<lambda>i. map (\<lambda>chunk.
       if atag chunk AND GC_TAG_ROOT \<noteq> 0 then chunk\<lparr>atag := atag chunk AND NOT GC_TAG_ROOT\<rparr> else chunk)
       (allocs (gc_allocs gc) i)\<rparr>\<rparr>"

definition gc_stop :: "gc_state \<Rightarrow> (UW \<times> gc_state) option" where
  "gc_stop gc = gc_sweep (gc_unroot_roots gc)"

subsection \<open>Allocating and freeing\<close>

text \<open>\<^verbatim>\<open>calloc\<close> clears the block it returns, \<open>p\<close>; what \<^verbatim>\<open>malloc\<close> returns holds what the memory held before.\<close>

definition gc_mcalloc :: "UW \<Rightarrow> UW \<Rightarrow> UW \<Rightarrow> gc_state \<Rightarrow> gc_state" where
  "gc_mcalloc p cnt sz gc =
     (if cnt \<noteq> 0 \<and> p \<noteq> 0
      then gc\<lparr>gmem := (\<lambda>x. if unat (x - p) < unat cnt * unat sz then 0 else gmem gc x)\<rparr>
      else gc)"

definition gc_allocate :: "nat \<Rightarrow> UW \<Rightarrow> UW \<Rightarrow> UW \<Rightarrow> UW \<Rightarrow> UW \<Rightarrow> UW \<Rightarrow> gc_state \<Rightarrow> (UW \<times> gc_state) option" where
  "gc_allocate n tos first second cnt sz d gc =
     (let alloc_size = (if cnt \<noteq> 0 then cnt * sz else sz)
      in case (if first = 0 \<and> \<not> paused gc then map_option (\<lambda>(_, gc). (second, gc_mcalloc second cnt sz gc)) (gc_run n tos gc)
               else Some (first, gc_mcalloc first cnt sz gc)) of
           None \<Rightarrow> None
         | Some (p, gc) \<Rightarrow>
             if p = 0 then Some (0, gc)
             else case gc_allocation_map_put (gc_allocs gc) p alloc_size d of
               None \<Rightarrow> None
             | Some (Some a, am) \<Rightarrow>
                 let gc = gc\<lparr>gc_allocs := am\<rparr>
                 in if sweep_limit am < am_size am \<and> \<not> paused gc
                    then map_option (\<lambda>(_, gc). (aptr a, gc)) (gc_run n tos gc)
                    else Some (aptr a, gc)
             | Some (None, am) \<Rightarrow>
                 let gc = gc\<lparr>gc_allocs := am\<rparr>
                 in case (if paused gc then Some gc else map_option snd (gc_run n tos gc)) of
                      None \<Rightarrow> None
                    | Some gc \<Rightarrow>
                        case gc_allocation_map_put (gc_allocs gc) p alloc_size d of
                          None \<Rightarrow> None
                        | Some (Some a, am) \<Rightarrow> Some (aptr a, gc\<lparr>gc_allocs := am\<rparr>)
                        | Some (None, am) \<Rightarrow> Some (0, gc\<lparr>gc_allocs := am, gc_events := gc_events gc @ [Free p]\<rparr>))"

definition gc_make_root :: "UW \<Rightarrow> gc_state \<Rightarrow> gc_state" where
  "gc_make_root p gc =
     (case gc_allocation_map_get (gc_allocs gc) p of
        None \<Rightarrow> gc
      | Some _ \<Rightarrow> upd_tag p (\<lambda>tag. tag OR GC_TAG_ROOT) gc)"

definition gc_malloc_ext :: "nat \<Rightarrow> UW \<Rightarrow> UW \<Rightarrow> UW \<Rightarrow> UW \<Rightarrow> UW \<Rightarrow> gc_state \<Rightarrow> (UW \<times> gc_state) option" where
  "gc_malloc_ext n tos first second sz d gc = gc_allocate n tos first second 0 sz d gc"

definition gc_malloc :: "nat \<Rightarrow> UW \<Rightarrow> UW \<Rightarrow> UW \<Rightarrow> UW \<Rightarrow> gc_state \<Rightarrow> (UW \<times> gc_state) option" where
  "gc_malloc n tos first second sz gc = gc_malloc_ext n tos first second sz 0 gc"

definition gc_malloc_static :: "nat \<Rightarrow> UW \<Rightarrow> UW \<Rightarrow> UW \<Rightarrow> UW \<Rightarrow> UW \<Rightarrow> gc_state \<Rightarrow> (UW \<times> gc_state) option" where
  "gc_malloc_static n tos first second sz d gc =
     map_option (\<lambda>(p, gc). (p, gc_make_root p gc)) (gc_malloc_ext n tos first second sz d gc)"

definition gc_calloc_ext ::
  "nat \<Rightarrow> UW \<Rightarrow> UW \<Rightarrow> UW \<Rightarrow> UW \<Rightarrow> UW \<Rightarrow> UW \<Rightarrow> gc_state \<Rightarrow> (UW \<times> gc_state) option" where
  "gc_calloc_ext n tos first second cnt sz d gc = gc_allocate n tos first second cnt sz d gc"

definition gc_calloc :: "nat \<Rightarrow> UW \<Rightarrow> UW \<Rightarrow> UW \<Rightarrow> UW \<Rightarrow> UW \<Rightarrow> gc_state \<Rightarrow> (UW \<times> gc_state) option" where
  "gc_calloc n tos first second cnt sz gc = gc_calloc_ext n tos first second cnt sz 0 gc"

text \<open>
  \<open>q\<close> is what \<^verbatim>\<open>realloc\<close> returns. After a move the code reads the destructor from the entry it has just
  deleted; \<open>stale\<close> stands for what is read there.
\<close>

definition gc_realloc :: "UW \<Rightarrow> UW \<Rightarrow> UW \<Rightarrow> UW \<Rightarrow> gc_state \<Rightarrow> (UW \<times> gc_state) option" where
  "gc_realloc q stale p sz gc =
     (let am = gc_allocs gc; a = gc_allocation_map_get am p
      in if p \<noteq> 0 \<and> a = None then Some (0, gc)
         else if q = 0 then Some (0, gc)
         else if p = 0 then
           (case gc_allocation_map_put am q sz 0 of
              Some (Some a, am) \<Rightarrow> Some (aptr a, gc\<lparr>gc_allocs := am\<rparr>)
            | _ \<Rightarrow> None)
         else if p = q then Some (q, gc\<lparr>gc_allocs := upd_allocation p (\<lambda>a. a\<lparr>asize := sz\<rparr>) am\<rparr>)
         else
           (case gc_allocation_map_remove am p True of
              None \<Rightarrow> None
            | Some am \<Rightarrow> map_option (\<lambda>(_, am). (q, gc\<lparr>gc_allocs := am\<rparr>)) (gc_allocation_map_put am p sz stale)))"

definition gc_free :: "UW \<Rightarrow> gc_state \<Rightarrow> gc_state option" where
  "gc_free p gc =
     (case gc_allocation_map_get (gc_allocs gc) p of
        None \<Rightarrow> Some gc
      | Some a \<Rightarrow>
          let gc = (if adtor a \<noteq> 0 then gc\<lparr>gc_events := gc_events gc @ [Dtor (adtor a) p]\<rparr> else gc);
              gc = gc\<lparr>gc_events := gc_events gc @ [Free p]\<rparr>
          in map_option (\<lambda>am. gc\<lparr>gc_allocs := am\<rparr>) (gc_allocation_map_remove (gc_allocs gc) p True))"

text \<open>\<open>s\<close> is the string without its final zero byte.\<close>

definition gc_strdup :: "nat \<Rightarrow> UW \<Rightarrow> UW \<Rightarrow> UW \<Rightarrow> UB list \<Rightarrow> gc_state \<Rightarrow> (UW \<times> gc_state) option" where
  "gc_strdup n tos first second s gc =
     (let len = word_of_nat (length s) + 1
      in map_option
           (\<lambda>(new, gc). if new = 0 then (0, gc)
              else (new, gc\<lparr>gmem := fold (\<lambda>i m. m(new + word_of_nat i := (s @ [0]) ! i)) [0..<Suc (length s)] (gmem gc)\<rparr>))
           (gc_malloc n tos first second len gc))"
subsection \<open>What is reachable\<close>

text \<open>The first allocation holds a pointer to the second. Every word that looks like a pointer counts.\<close>

definition points :: "gc_state \<Rightarrow> (UW \<times> UW) set" where
  "points gc = {(p, q). \<exists>a b. gc_allocation_map_get (gc_allocs gc) p = Some a \<and>
     gc_allocation_map_get (gc_allocs gc) q = Some b \<and> q \<in> set (contents (gmem gc) a)}"

abbreviation managed :: "gc_state \<Rightarrow> UW set" where
  "managed gc \<equiv> dom (gc_allocation_map_get (gc_allocs gc))"

definition gc_roots :: "UW \<Rightarrow> gc_state \<Rightarrow> UW set" where
  "gc_roots tos gc = managed gc \<inter>
     ({p. \<exists>a. gc_allocation_map_get (gc_allocs gc) p = Some a \<and> atag a AND GC_TAG_ROOT \<noteq> 0} \<union>
      set (scan_range (gmem gc) tos (bos gc - PTRSIZE)))"

definition gc_live :: "UW \<Rightarrow> gc_state \<Rightarrow> UW set" where
  "gc_live tos gc = (points gc)\<^sup>* `` gc_roots tos gc"

definition unmarked :: "gc_state \<Rightarrow> bool" where
  "unmarked gc \<longleftrightarrow> (\<forall>a\<in>set (all_allocs (gc_allocs gc)). atag a AND GC_TAG_MARK = 0)"

text \<open>\<open>gc'\<close> is \<open>gc\<close> with the allocations of \<open>M\<close> marked.\<close>

definition set_mark :: "UW set \<Rightarrow> allocation \<Rightarrow> allocation" where
  "set_mark M a = (if aptr a \<in> M then a\<lparr>atag := atag a OR GC_TAG_MARK\<rparr> else a)"

definition marking :: "gc_state \<Rightarrow> UW set \<Rightarrow> gc_state \<Rightarrow> bool" where
  "marking gc M gc' \<longleftrightarrow> M \<subseteq> managed gc \<and> am_ok (gc_allocs gc') \<and>
     paused gc' = paused gc \<and> bos gc' = bos gc \<and> gmem gc' = gmem gc \<and> gc_events gc' = gc_events gc \<and>
     capacity (gc_allocs gc') = capacity (gc_allocs gc) \<and>
     (\<forall>p. gc_allocation_map_get (gc_allocs gc') p = map_option (set_mark M) (gc_allocation_map_get (gc_allocs gc) p)) \<and>
     all_allocs (gc_allocs gc') = map (set_mark M) (all_allocs (gc_allocs gc))"

lemma or_mark: "((t :: UB) OR 2) AND 2 \<noteq> 0"
proof
  assume "(t OR 2) AND 2 = 0"
  then have "bit ((t OR 2) AND 2) 1 = bit (0 :: UB) 1" by simp
  then show False by (simp add: bit_simps)
qed

lemma gc_get_ptr: "am_ok am \<Longrightarrow> gc_allocation_map_get am p = Some a \<Longrightarrow> aptr a = p"
  by (simp add: gc_get_iff)

lemma finite_managed: "am_ok (gc_allocs gc) \<Longrightarrow> finite (managed gc)"
proof -
  assume ok: "am_ok (gc_allocs gc)"
  have "managed gc = aptr ` set (all_allocs (gc_allocs gc))" by (auto simp: gc_get_iff [OF ok])
  then show ?thesis by simp
qed

lemma set_mark_empty: "set_mark {} = (\<lambda>a. a)"
  by (simp add: set_mark_def fun_eq_iff)

lemma marking_refl: "am_ok (gc_allocs gc) \<Longrightarrow> marking gc {} gc"
  by (simp add: marking_def set_mark_empty option.map_ident)

lemma marking_step:
  assumes m: "marking gc M gc'" and ok: "am_ok (gc_allocs gc)" and p: "p \<in> managed gc"
  shows "marking gc (insert p M) (upd_tag p (\<lambda>tag. tag OR GC_TAG_MARK) gc')"
proof -
  let ?f = "\<lambda>a. a\<lparr>atag := atag a OR GC_TAG_MARK\<rparr>"
  have ok': "am_ok (gc_allocs gc')" using m by (simp add: marking_def)
  have f: "\<forall>a. aptr a = p \<longrightarrow> aptr (?f a) = p" by simp
  have s: "(if aptr (set_mark M a) = p then ?f (set_mark M a) else set_mark M a) = set_mark (insert p M) a" for a
    by (auto simp: set_mark_def or.assoc)
  have s2: "?f (set_mark M a) = set_mark (insert p M) a" if "aptr a = p" for a
    using that by (auto simp: set_mark_def or.assoc)
  have s3: "set_mark M a = set_mark (insert p M) a" if "aptr a \<noteq> p" for a
    using that by (auto simp: set_mark_def)
  have "gc_allocation_map_get (gc_allocs (upd_tag p (\<lambda>tag. tag OR GC_TAG_MARK) gc')) q =
      map_option (set_mark (insert p M)) (gc_allocation_map_get (gc_allocs gc) q)" for q
    using m gc_get_ptr [OF ok] s2 s3
    by (cases "gc_allocation_map_get (gc_allocs gc) q") (auto simp: upd_tag_def gc_get_upd [OF ok' f] marking_def)
  moreover have "all_allocs (gc_allocs (upd_tag p (\<lambda>tag. tag OR GC_TAG_MARK) gc')) =
      map (set_mark (insert p M)) (all_allocs (gc_allocs gc))"
    using m s by (simp add: upd_tag_def upd_allocation_keeps(2) [OF ok' f] marking_def)
  moreover have "am_ok (gc_allocs (upd_tag p (\<lambda>tag. tag OR GC_TAG_MARK) gc'))"
    using upd_allocation_keeps(1) [OF ok' f] by (simp add: upd_tag_def)
  ultimately show ?thesis using m p by (simp add: marking_def upd_tag_def upd_allocation_def Let_def)
qed
text \<open>
  Marking from a pointer: it reaches what can be reached over allocations not marked before, and what it has
  marked points to marked allocations only. The depth of the recursion is at most the number of allocations
  that are still unmarked.
\<close>

definition marks_from :: "gc_state \<Rightarrow> UW set \<Rightarrow> UW set \<Rightarrow> UW set \<Rightarrow> bool" where
  "marks_from gc M P M' \<longleftrightarrow> M \<subseteq> M' \<and> P \<inter> managed gc \<subseteq> M' \<and> M' - M \<subseteq> (points gc)\<^sup>* `` (P \<inter> managed gc) \<and>
     (\<forall>x\<in>M' - M. \<forall>q. (x, q) \<in> points gc \<longrightarrow> q \<in> M')"

lemma marking_marked:
  assumes "marking gc M gc'" "unmarked gc" "am_ok (gc_allocs gc)" "gc_allocation_map_get (gc_allocs gc') p = Some a"
  shows "atag a AND GC_TAG_MARK \<noteq> 0 \<longleftrightarrow> p \<in> M"
proof -
  obtain b where b: "gc_allocation_map_get (gc_allocs gc) p = Some b" "a = set_mark M b"
    using assms(1,4) by (auto simp: marking_def)
  then have "b \<in> set (all_allocs (gc_allocs gc))" "aptr b = p" using gc_get_iff [OF assms(3)] by auto
  then show ?thesis using assms(2) b(2) or_mark by (auto simp: set_mark_def unmarked_def)
qed

lemma marks_from_trans:
  assumes 1: "marks_from gc M P M1" and 2: "marks_from gc M1 Q M2"
  shows "marks_from gc M (P \<union> Q) M2"
  unfolding marks_from_def
proof (intro conjI ballI allI impI)
  show "M \<subseteq> M2" "(P \<union> Q) \<inter> managed gc \<subseteq> M2" using 1 2 by (auto simp: marks_from_def)
  show "M2 - M \<subseteq> (points gc)\<^sup>* `` ((P \<union> Q) \<inter> managed gc)"
  proof
    fix x assume "x \<in> M2 - M"
    then have "x \<in> M2 - M1 \<or> x \<in> M1 - M" by blast
    then have "x \<in> (points gc)\<^sup>* `` (P \<inter> managed gc) \<union> (points gc)\<^sup>* `` (Q \<inter> managed gc)"
      using 1 2 unfolding marks_from_def by blast
    then show "x \<in> (points gc)\<^sup>* `` ((P \<union> Q) \<inter> managed gc)" by blast
  qed
  fix x q assume x: "x \<in> M2 - M" "(x, q) \<in> points gc"
  then consider "x \<in> M2 - M1" | "x \<in> M1 - M" by blast
  then show "q \<in> M2" using x(2) 1 2 unfolding marks_from_def by cases blast+
qed

lemma marks_from_one:
  assumes p: "gc_allocation_map_get (gc_allocs gc) p = Some a"
    and m: "marks_from gc (insert p M) (set (contents (gmem gc) a)) M'"
  shows "marks_from gc M {p} M'"
proof -
  let ?C = "set (contents (gmem gc) a) \<inter> managed gc"
  have e: "(p, q) \<in> points gc \<longleftrightarrow> q \<in> ?C" for q using p by (auto simp: points_def)
  have "(points gc)\<^sup>* `` ?C \<subseteq> (points gc)\<^sup>* `` {p}"
  proof
    fix x assume "x \<in> (points gc)\<^sup>* `` ?C"
    then obtain q where "(p, q) \<in> points gc" "(q, x) \<in> (points gc)\<^sup>*" using e by blast
    then show "x \<in> (points gc)\<^sup>* `` {p}" by (auto intro: converse_rtrancl_into_rtrancl)
  qed
  then have sub: "(points gc)\<^sup>* `` ?C \<union> {p} \<subseteq> (points gc)\<^sup>* `` {p}" by blast
  have m': "M' - insert p M \<subseteq> (points gc)\<^sup>* `` ?C" "insert p M \<subseteq> M'" "?C \<subseteq> M'"
    "\<And>x q. x \<in> M' - insert p M \<Longrightarrow> (x, q) \<in> points gc \<Longrightarrow> q \<in> M'"
    using m unfolding marks_from_def by blast+
  have pp: "{p} \<inter> managed gc = {p}" using p by auto
  show ?thesis
    unfolding marks_from_def
  proof (intro conjI ballI allI impI)
    show "M \<subseteq> M'" "{p} \<inter> managed gc \<subseteq> M'" using m'(2) by auto
    have "M' - M \<subseteq> (points gc)\<^sup>* `` ?C \<union> {p}" using m'(1) by blast
    then show "M' - M \<subseteq> (points gc)\<^sup>* `` ({p} \<inter> managed gc)" unfolding pp using sub by (rule subset_trans)
    fix x q assume x: "x \<in> M' - M" "(x, q) \<in> points gc"
    show "q \<in> M'"
    proof (cases "x = p")
      case True
      then show ?thesis using e x(2) m'(3) by blast
    next
      case False
      then show ?thesis using x m'(4) [of x q] by blast
    qed
  qed
qed

text \<open>Steps that mark so when at most \<open>n\<close> allocations are unmarked.\<close>

definition marks_below :: "gc_state \<Rightarrow> nat \<Rightarrow> (UW \<Rightarrow> gc_state \<Rightarrow> gc_state option) \<Rightarrow> bool" where
  "marks_below gc n f \<longleftrightarrow> (\<forall>p M gc1. marking gc M gc1 \<longrightarrow> card (managed gc - M) < n \<longrightarrow>
     (\<exists>M' gc2. f p gc1 = Some gc2 \<and> marking gc M' gc2 \<and> marks_from gc M {p} M'))"

lemma each_marks:
  assumes ok: "am_ok (gc_allocs gc)" and one: "marks_below gc n f"
    and m: "marking gc M gc1" "card (managed gc - M) < n"
  shows "\<exists>M' gc2. each f ps gc1 = Some gc2 \<and> marking gc M' gc2 \<and> marks_from gc M (set ps) M'"
  using m
proof (induction ps arbitrary: M gc1)
  case Nil
  then show ?case by (auto simp: marks_from_def)
next
  case (Cons p ps)
  obtain M1 gc2 where 1: "f p gc1 = Some gc2" "marking gc M1 gc2" "marks_from gc M {p} M1"
    using one Cons.prems unfolding marks_below_def by blast
  have "card (managed gc - M1) \<le> card (managed gc - M)"
    by (rule card_mono) (use 1(3) finite_managed [OF ok] in \<open>auto simp: marks_from_def\<close>)
  then have "card (managed gc - M1) < n" using Cons.prems(2) by simp
  from Cons.IH [OF 1(2) this] obtain M2 gc3 where
    2: "each f ps gc2 = Some gc3" "marking gc M2 gc3" "marks_from gc M1 (set ps) M2" by blast
  have "marks_from gc M (set (p # ps)) M2" using marks_from_trans [OF 1(3) 2(3)] by simp
  with 1 2 show ?case by auto
qed

lemma gc_mark_alloc_marks:
  assumes ok: "am_ok (gc_allocs gc)" and un: "unmarked gc"
  shows "marks_below gc n (gc_mark_alloc n)"
proof (induction n)
  case (Suc n)
  show ?case
    unfolding marks_below_def
  proof (intro allI impI)
  fix p M gc1 assume same: "marking gc M gc1" and less: "card (managed gc - M) < Suc n"
  have sub: "M \<subseteq> managed gc" and ok1: "am_ok (gc_allocs gc1)"
    and get: "gc_allocation_map_get (gc_allocs gc1) p = map_option (set_mark M) (gc_allocation_map_get (gc_allocs gc) p)"
    using same by (auto simp: marking_def)
  show "\<exists>M' gc2. gc_mark_alloc (Suc n) p gc1 = Some gc2 \<and> marking gc M' gc2 \<and> marks_from gc M {p} M'"
  proof (cases "gc_allocation_map_get (gc_allocs gc) p")
    case None
    then show ?thesis using same get by (auto simp: marks_from_def intro!: exI [of _ M])
  next
    case (Some a)
    then have man: "p \<in> managed gc" by auto
    have tag: "atag (set_mark M a) AND GC_TAG_MARK \<noteq> 0 \<longleftrightarrow> p \<in> M"
      using marking_marked [OF same un ok, of p "set_mark M a"] get Some by simp
    show ?thesis
    proof (cases "p \<in> M")
      case True
      then show ?thesis using same get Some tag by (auto simp: marks_from_def intro!: exI [of _ M])
    next
      case False
      let ?gc1 = "upd_tag p (\<lambda>tag. tag OR GC_TAG_MARK) gc1"
      have m1: "marking gc (insert p M) ?gc1" by (rule marking_step [OF same ok man])
      have "managed gc - insert p M \<subset> managed gc - M" using man False by auto
      then have "card (managed gc - insert p M) < card (managed gc - M)"
        by (rule psubset_card_mono [rotated]) (use finite_managed [OF ok] in simp)
      then have n: "card (managed gc - insert p M) < n" using less by simp
      have "contents (gmem gc1) (set_mark M a) = contents (gmem gc) a"
        using same by (simp add: contents_def set_mark_def marking_def)
      moreover obtain M' gc2 where r: "each (gc_mark_alloc n) (contents (gmem gc) a) ?gc1 = Some gc2"
          "marking gc M' gc2" "marks_from gc (insert p M) (set (contents (gmem gc) a)) M'"
        using each_marks [OF ok Suc m1 n] by blast
      moreover have "marks_from gc M {p} M'" by (rule marks_from_one [OF Some r(3)])
      ultimately show ?thesis using get Some tag False by auto
    qed
  qed
  qed
qed (simp add: marks_below_def)

lemma each_if: "each (\<lambda>a s. if P a then f (g a) s else Some s) xs s = each f (map g (filter P xs)) s"
  by (induction xs arbitrary: s) (auto split: option.splits)

text \<open>Marking as a whole.\<close>

lemma gc_mark_exact_aux:
  assumes ok: "am_ok (gc_allocs gc)" and un: "unmarked gc" and n: "card (managed gc) < n"
  shows "\<exists>gc'. gc_mark n tos gc = Some gc' \<and> marking gc (gc_live tos gc) gc'"
proof -
  note each = each_marks [OF ok gc_mark_alloc_marks [OF ok un, of n]]
  let ?R = "aptr ` {a \<in> set (all_allocs (gc_allocs gc)). atag a AND GC_TAG_ROOT \<noteq> 0}"
  let ?S = "set (scan_range (gmem gc) tos (bos gc - PTRSIZE))"
  have roots: "gc_mark_roots n gc =
      each (gc_mark_alloc n) (map aptr (filter (\<lambda>a. atag a AND GC_TAG_ROOT \<noteq> 0) (all_allocs (gc_allocs gc)))) gc"
    unfolding gc_mark_roots_def by (rule each_if)
  obtain M1 gc1 where 1: "gc_mark_roots n gc = Some gc1" "marking gc M1 gc1" "marks_from gc {} ?R M1"
    using each [OF marking_refl [OF ok]] n unfolding roots by fastforce
  have "card (managed gc - M1) \<le> card (managed gc)" by (rule card_mono) (use finite_managed [OF ok] in auto)
  then have n1: "card (managed gc - M1) < n" using n by simp
  have "gmem gc1 = gmem gc" "bos gc1 = bos gc" using 1(2) by (simp_all add: marking_def)
  then obtain M2 gc2 where 2: "gc_mark_stack n tos gc1 = Some gc2" "marking gc M2 gc2" "marks_from gc M1 ?S M2"
    using each [OF 1(2) n1] unfolding gc_mark_stack_def by force
  have R: "gc_roots tos gc = (?R \<union> ?S) \<inter> managed gc"
    by (auto simp: gc_roots_def gc_get_iff [OF ok] image_iff)
  have all: "marks_from gc {} (?R \<union> ?S) M2"
    by (rule marks_from_trans [OF 1(3) 2(3)])
  have "M2 = gc_live tos gc"
  proof
    show "M2 \<subseteq> gc_live tos gc" using all by (simp add: marks_from_def gc_live_def R)
    have "q \<in> M2" if "(r, q) \<in> (points gc)\<^sup>*" "r \<in> gc_roots tos gc" for r q
      using that by (induction rule: rtrancl_induct) (use all in \<open>auto simp: marks_from_def R\<close>)
    then show "gc_live tos gc \<subseteq> M2" by (auto simp: gc_live_def)
  qed
  with 1(1) 2(1,2) show ?thesis by (auto simp: gc_mark_def)
qed
subsection \<open>What a sweep does\<close>

definition is_marked :: "allocation \<Rightarrow> bool" where
  "is_marked a \<longleftrightarrow> atag a AND GC_TAG_MARK \<noteq> 0"

definition unmark :: "allocation \<Rightarrow> allocation" where
  "unmark a = a\<lparr>atag := atag a AND NOT GC_TAG_MARK\<rparr>"

definition finalise :: "allocation \<Rightarrow> gc_event list" where
  "finalise a = (if adtor a \<noteq> 0 then [Dtor (adtor a) (aptr a)] else []) @ [Free (aptr a)]"

text \<open>A bucket when the allocations with pointers in \<open>P\<close> have been looked at.\<close>

definition sweep_bucket :: "UW set \<Rightarrow> allocation list \<Rightarrow> allocation list" where
  "sweep_bucket P cs =
     map (\<lambda>a. if aptr a \<in> P then unmark a else a) (filter (\<lambda>a. aptr a \<in> P \<longrightarrow> is_marked a) cs)"

lemma aptr_unmark [simp]: "aptr (unmark a) = aptr a"
  by (simp add: unmark_def)

lemma sweep_bucket_other: "\<forall>a\<in>set cs. aptr a \<notin> P \<Longrightarrow> sweep_bucket P cs = cs"
  by (simp add: sweep_bucket_def cong: map_cong filter_cong)

lemma sweep_bucket_twice: "P \<inter> Q = {} \<Longrightarrow> sweep_bucket P (sweep_bucket Q cs) = sweep_bucket (P \<union> Q) cs"
  by (induction cs) (auto simp: sweep_bucket_def)

lemma am_ok_unique:
  assumes "am_ok am" "a \<in> set (all_allocs am)" "b \<in> set (all_allocs am)" "aptr a = aptr b"
  shows "a = b"
  using assms gc_get_iff [OF assms(1), of "aptr b" a] gc_get_iff [OF assms(1), of "aptr b" b] by simp

lemma am_ok_distinct_bucket:
  assumes "am_ok am" "i < unat (capacity am)"
  shows "distinct (map aptr (allocs am i))"
  using assms concat_upt_split [OF assms(2), of "allocs am"] by (simp add: am_ok_def all_allocs_def)

lemma sweep_chunk_step:
  assumes ok: "am_ok (gc_allocs gc)" and x: "x \<in> set (all_allocs (gc_allocs gc))"
  shows "\<exists>am'. sweep_chunk x (gc, t) = Some (gc\<lparr>gc_allocs := am',
      gc_events := gc_events gc @ (if is_marked x then [] else finalise x)\<rparr>, t + (if is_marked x then 0 else asize x)) \<and>
    am_ok am' \<and> capacity am' = capacity (gc_allocs gc) \<and>
    (\<forall>i<unat (capacity (gc_allocs gc)). allocs am' i = sweep_bucket {aptr x} (allocs (gc_allocs gc) i))"
proof -
  let ?am = "gc_allocs gc" and ?p = "aptr x"
  have only: "a = x" if "i < unat (capacity ?am)" "a \<in> set (allocs ?am i)" "aptr a = ?p" for a i
    using am_ok_unique [OF ok _ x that(3)] that by (auto simp: all_allocs_mem)
  have here: "aptr a \<noteq> ?p" if "i < unat (capacity ?am)" "i \<noteq> bucket ?p (capacity ?am)" "a \<in> set (allocs ?am i)" for a i
    using ok that unfolding am_ok_def by metis
  show ?thesis
  proof (cases "is_marked x")
    case True
    let ?f = "\<lambda>a. a\<lparr>atag := atag a AND NOT GC_TAG_MARK\<rparr>"
    let ?am' = "upd_allocation ?p ?f ?am"
    note lt = am_ok_bucket [OF ok, of ?p]
    have f: "\<forall>a. aptr a = ?p \<longrightarrow> aptr (?f a) = ?p" by simp
    have "allocs ?am' i = sweep_bucket {?p} (allocs ?am i)" if i: "i < unat (capacity ?am)" for i
    proof (cases "i = bucket ?p (capacity ?am)")
      case eq: True
      have "filter (\<lambda>a. aptr a \<in> {?p} \<longrightarrow> is_marked a) (allocs ?am i) = allocs ?am i"
        using only [OF i] True by (auto intro!: filter_True)
      then show ?thesis
        using update_chain_map [OF am_ok_distinct_bucket [OF ok i], of ?p ?f]
        by (simp add: eq upd_allocation_def sweep_bucket_def unmark_def Let_def)
    next
      case False
      then show ?thesis using here [OF i False] by (simp add: upd_allocation_def sweep_bucket_other Let_def)
    qed
    moreover have "capacity ?am' = capacity ?am" by (simp add: upd_allocation_def Let_def)
    ultimately show ?thesis
      using True upd_allocation_keeps(1) [OF ok f]
      by (intro exI [of _ ?am']) (simp add: sweep_chunk_def is_marked_def upd_tag_def)
  next
    case False
    obtain am' where r: "gc_allocation_map_remove ?am ?p False = Some am'" "am_ok am'" "capacity am' = capacity ?am"
        "\<forall>i. allocs am' i = (if i = bucket ?p (capacity ?am) then filter (\<lambda>a. aptr a \<noteq> ?p) (allocs ?am i) else allocs ?am i)"
      using remove_keeps [OF ok, of ?p] by blast
    have "allocs am' i = sweep_bucket {?p} (allocs ?am i)" if i: "i < unat (capacity ?am)" for i
    proof (cases "i = bucket ?p (capacity ?am)")
      case eq: True
      have f: "filter (\<lambda>a. aptr a \<in> {?p} \<longrightarrow> is_marked a) (allocs ?am i) = filter (\<lambda>a. aptr a \<noteq> ?p) (allocs ?am i)"
        by (rule filter_cong) (use only [OF i] False in auto)
      show ?thesis unfolding sweep_bucket_def f using r(4) eq by (auto intro!: map_idI [symmetric])
    next
      case False
      then show ?thesis using here [OF i False] r(4) by (simp add: sweep_bucket_other)
    qed
    moreover have "sweep_chunk x (gc, t) = Some (gc\<lparr>gc_allocs := am', gc_events := gc_events gc @ finalise x\<rparr>, t + asize x)"
      using False r(1) by (simp add: sweep_chunk_def is_marked_def finalise_def Let_def)
    ultimately show ?thesis using False r(2,3) by (intro exI [of _ am']) simp
  qed
qed

lemma each_append: "each f (xs @ ys) s = Option.bind (each f xs s) (each f ys)"
  by (induction xs arbitrary: s) (auto split: option.splits)

lemma sweep_list:
  assumes "am_ok (gc_allocs gc)" "set xs \<subseteq> set (all_allocs (gc_allocs gc))" "distinct (map aptr xs)"
  shows "\<exists>am'. each sweep_chunk xs (gc, t) = Some (gc\<lparr>gc_allocs := am',
      gc_events := gc_events gc @ concat (map finalise (filter (\<lambda>a. \<not> is_marked a) xs))\<rparr>,
      t + sum_list (map asize (filter (\<lambda>a. \<not> is_marked a) xs))) \<and>
    am_ok am' \<and> capacity am' = capacity (gc_allocs gc) \<and>
    (\<forall>i<unat (capacity (gc_allocs gc)). allocs am' i = sweep_bucket (aptr ` set xs) (allocs (gc_allocs gc) i))"
  using assms
proof (induction xs arbitrary: gc t)
  case Nil
  then show ?case by (auto simp: sweep_bucket_other intro!: exI [of _ "gc_allocs gc"])
next
  case (Cons x xs)
  let ?am = "gc_allocs gc"
  obtain am1 where 1: "sweep_chunk x (gc, t) = Some (gc\<lparr>gc_allocs := am1,
      gc_events := gc_events gc @ (if is_marked x then [] else finalise x)\<rparr>, t + (if is_marked x then 0 else asize x))"
    "am_ok am1" "capacity am1 = capacity ?am"
    "\<forall>i<unat (capacity ?am). allocs am1 i = sweep_bucket {aptr x} (allocs ?am i)"
    using sweep_chunk_step [OF Cons.prems(1), of x t] Cons.prems(2) by auto
  let ?gc1 = "gc\<lparr>gc_allocs := am1, gc_events := gc_events gc @ (if is_marked x then [] else finalise x)\<rparr>"
  have "y \<in> set (all_allocs am1)" if y: "y \<in> set xs" for y
  proof -
    have "y \<in> set (all_allocs ?am)" using Cons.prems(2) y by auto
    then obtain i where i: "i < unat (capacity ?am)" "y \<in> set (allocs ?am i)" by (auto simp: all_allocs_mem)
    have "aptr y \<noteq> aptr x" using Cons.prems(3) y by (auto simp: rev_image_eqI)
    then have "y \<in> set (allocs am1 i)" using 1(4) i by (auto simp: sweep_bucket_def)
    then show ?thesis using i(1) 1(3) by (auto simp: all_allocs_mem)
  qed
  then have sub: "set xs \<subseteq> set (all_allocs (gc_allocs ?gc1))" by auto
  obtain am2 where 2: "each sweep_chunk xs (?gc1, t + (if is_marked x then 0 else asize x)) = Some (?gc1\<lparr>gc_allocs := am2,
      gc_events := gc_events ?gc1 @ concat (map finalise (filter (\<lambda>a. \<not> is_marked a) xs))\<rparr>,
      t + (if is_marked x then 0 else asize x) + sum_list (map asize (filter (\<lambda>a. \<not> is_marked a) xs)))"
    "am_ok am2" "capacity am2 = capacity am1"
    "\<forall>i<unat (capacity am1). allocs am2 i = sweep_bucket (aptr ` set xs) (allocs am1 i)"
    using Cons.IH [OF _ sub, of "t + (if is_marked x then 0 else asize x)"] 1(2) Cons.prems(3) by auto
  have "sweep_bucket (aptr ` set xs) (sweep_bucket {aptr x} cs) = sweep_bucket (aptr ` set (x # xs)) cs" for cs
    using sweep_bucket_twice [of "aptr ` set xs" "{aptr x}" cs] Cons.prems(3) by simp
  then have "\<forall>i<unat (capacity ?am). allocs am2 i = sweep_bucket (aptr ` set (x # xs)) (allocs ?am i)"
    using 1(3,4) 2(4) by simp
  moreover have "each sweep_chunk (x # xs) (gc, t) = Some (gc\<lparr>gc_allocs := am2,
      gc_events := gc_events gc @ concat (map finalise (filter (\<lambda>a. \<not> is_marked a) (x # xs)))\<rparr>,
      t + sum_list (map asize (filter (\<lambda>a. \<not> is_marked a) (x # xs))))"
    using 1(1) 2(1) by (cases "is_marked x") (simp_all add: add.assoc)
  ultimately show ?case using 1(3) 2(2,3) by auto
qed
text \<open>The walk over the buckets sees every allocation as it was at the start.\<close>

lemma sweep_walk:
  assumes ok: "am_ok (gc_allocs gc)" and k: "k \<le> unat (capacity (gc_allocs gc))"
    and xs: "xs = concat (map (allocs (gc_allocs gc)) [0..<k])"
  shows "\<exists>am'. each (\<lambda>i s. each sweep_chunk (allocs (gc_allocs (fst s)) i) s) [0..<k] (gc, t) = Some (gc\<lparr>gc_allocs := am',
      gc_events := gc_events gc @ concat (map finalise (filter (\<lambda>a. \<not> is_marked a) xs))\<rparr>,
      t + sum_list (map asize (filter (\<lambda>a. \<not> is_marked a) xs))) \<and>
    am_ok am' \<and> capacity am' = capacity (gc_allocs gc) \<and>
    (\<forall>i<unat (capacity (gc_allocs gc)). allocs am' i = sweep_bucket (aptr ` set xs) (allocs (gc_allocs gc) i))"
  using k xs
proof (induction k arbitrary: xs)
  case 0
  then show ?case using ok by (auto simp: sweep_bucket_other intro!: exI [of _ "gc_allocs gc"])
next
  case (Suc k)
  let ?am = "gc_allocs gc" and ?ys = "concat (map (allocs (gc_allocs gc)) [0..<k])"
  have lt: "k < unat (capacity ?am)" using Suc.prems by simp
  obtain am1 where 1: "each (\<lambda>i s. each sweep_chunk (allocs (gc_allocs (fst s)) i) s) [0..<k] (gc, t) =
      Some (gc\<lparr>gc_allocs := am1, gc_events := gc_events gc @ concat (map finalise (filter (\<lambda>a. \<not> is_marked a) ?ys))\<rparr>,
      t + sum_list (map asize (filter (\<lambda>a. \<not> is_marked a) ?ys)))"
    "am_ok am1" "capacity am1 = capacity ?am"
    "\<forall>i<unat (capacity ?am). allocs am1 i = sweep_bucket (aptr ` set ?ys) (allocs ?am i)"
    using Suc.IH [OF _ refl] Suc.prems by auto
  have all: "all_allocs ?am = ?ys @ allocs ?am k @ concat (map (allocs ?am) [Suc k..<unat (capacity ?am)])"
    unfolding all_allocs_def by (rule concat_upt_split [OF lt])
  have "distinct (map aptr (all_allocs ?am))" using ok by (simp add: am_ok_def)
  then have d: "aptr ` set ?ys \<inter> aptr ` set (allocs ?am k) = {}"
    unfolding all by (simp only: map_append distinct_append set_append set_map) blast
  have same: "allocs am1 k = allocs ?am k"
    using 1(4) lt d sweep_bucket_other [of "allocs ?am k" "aptr ` set ?ys"] by auto
  let ?gc1 = "gc\<lparr>gc_allocs := am1, gc_events := gc_events gc @ concat (map finalise (filter (\<lambda>a. \<not> is_marked a) ?ys))\<rparr>"
  have sub: "set (allocs ?am k) \<subseteq> set (all_allocs (gc_allocs ?gc1))"
    using same lt 1(3) by (force simp: all_allocs_mem)
  obtain am2 where 2: "each sweep_chunk (allocs ?am k) (?gc1, t + sum_list (map asize (filter (\<lambda>a. \<not> is_marked a) ?ys))) =
      Some (?gc1\<lparr>gc_allocs := am2, gc_events := gc_events ?gc1 @ concat (map finalise (filter (\<lambda>a. \<not> is_marked a) (allocs ?am k)))\<rparr>,
      t + sum_list (map asize (filter (\<lambda>a. \<not> is_marked a) ?ys)) + sum_list (map asize (filter (\<lambda>a. \<not> is_marked a) (allocs ?am k))))"
    "am_ok am2" "capacity am2 = capacity am1"
    "\<forall>i<unat (capacity am1). allocs am2 i = sweep_bucket (aptr ` set (allocs ?am k)) (allocs am1 i)"
    using sweep_list [OF _ sub, of "t + sum_list (map asize (filter (\<lambda>a. \<not> is_marked a) ?ys))"]
      1(2) am_ok_distinct_bucket [OF ok lt] by auto
  have xs: "xs = ?ys @ allocs ?am k" using Suc.prems(2) by simp
  have "sweep_bucket (aptr ` set (allocs ?am k)) (sweep_bucket (aptr ` set ?ys) cs) = sweep_bucket (aptr ` set xs) cs" for cs
    using sweep_bucket_twice [of "aptr ` set (allocs ?am k)" "aptr ` set ?ys" cs] d xs by (simp add: Int_commute Un_commute image_Un)
  then have "\<forall>i<unat (capacity ?am). allocs am2 i = sweep_bucket (aptr ` set xs) (allocs ?am i)" using 1(3,4) 2(4) by simp
  moreover have "each (\<lambda>i s. each sweep_chunk (allocs (gc_allocs (fst s)) i) s) [0..<Suc k] (gc, t) = Some (gc\<lparr>gc_allocs := am2,
      gc_events := gc_events gc @ concat (map finalise (filter (\<lambda>a. \<not> is_marked a) xs))\<rparr>,
      t + sum_list (map asize (filter (\<lambda>a. \<not> is_marked a) xs)))"
    using 1(1) 2(1) by (simp add: each_append same xs add.assoc)
  ultimately show ?case using 1(3) 2(2,3) by auto
qed

lemma gc_sweep_result:
  assumes ok: "am_ok (gc_allocs gc)" and g: "growable (gc_allocs gc)"
  shows "\<exists>gc'. gc_sweep gc = Some (sum_list (map asize (filter (\<lambda>a. \<not> is_marked a) (all_allocs (gc_allocs gc)))), gc') \<and>
    gc_events gc' = gc_events gc @ concat (map finalise (filter (\<lambda>a. \<not> is_marked a) (all_allocs (gc_allocs gc)))) \<and>
    am_ok (gc_allocs gc') \<and> paused gc' = paused gc \<and> bos gc' = bos gc \<and> gmem gc' = gmem gc \<and>
    set (all_allocs (gc_allocs gc')) = unmark ` {a \<in> set (all_allocs (gc_allocs gc)). is_marked a} \<and>
    (\<exists>b am. capacity am = capacity (gc_allocs gc) \<and> gc_allocation_map_resize_to_fit am = Some (b, gc_allocs gc'))"
proof -
  let ?am = "gc_allocs gc" and ?n = "unat (capacity (gc_allocs gc))"
  obtain am1 where 1: "each (\<lambda>i s. each sweep_chunk (allocs (gc_allocs (fst s)) i) s) [0..<?n] (gc, 0) = Some (gc\<lparr>gc_allocs := am1,
      gc_events := gc_events gc @ concat (map finalise (filter (\<lambda>a. \<not> is_marked a) (all_allocs ?am)))\<rparr>,
      sum_list (map asize (filter (\<lambda>a. \<not> is_marked a) (all_allocs ?am))))"
    "am_ok am1" "capacity am1 = capacity ?am"
    "\<forall>i<?n. allocs am1 i = sweep_bucket (aptr ` set (all_allocs ?am)) (allocs ?am i)"
    using sweep_walk [OF ok order_refl all_allocs_def, of 0] by auto
  have "set (allocs am1 i) = unmark ` {a \<in> set (allocs ?am i). is_marked a}" if i: "i < ?n" for i
  proof -
    have p: "aptr a \<in> aptr ` set (all_allocs ?am)" if "a \<in> set (allocs ?am i)" for a
      using i that by (intro imageI) (auto simp: all_allocs_mem)
    show ?thesis using 1(4) i by (auto simp: sweep_bucket_def p)
  qed
  then have s: "set (all_allocs am1) = unmark ` {a \<in> set (all_allocs ?am). is_marked a}"
    unfolding all_allocs_def using 1(3) by auto
  obtain b am2 where 2: "gc_allocation_map_resize_to_fit am1 = Some (b, am2)" "am_ok am2" "set (all_allocs am2) = set (all_allocs am1)"
    using resize_to_fit_keeps [OF 1(2)] g 1(3) by (auto simp: growable_def)
  show ?thesis using 1(1,3) 2 s by (auto simp: gc_sweep_def)
qed
subsection \<open>Properties\<close>

lemma unmarked_get:
  assumes "am_ok (gc_allocs gc)"
  shows "unmarked gc \<longleftrightarrow> (\<forall>p a. gc_allocation_map_get (gc_allocs gc) p = Some a \<longrightarrow> \<not> is_marked a)"
  by (auto simp: unmarked_def is_marked_def gc_get_iff [OF assms])

lemma word_set_clear:
  assumes "(t :: 'a :: len word) AND m = 0"
  shows "(t OR m) AND NOT m = t"
proof (rule bit_word_eqI)
  fix i assume i: "i < LENGTH('a)"
  have "\<not> (bit t i \<and> bit m i)" using arg_cong [OF assms, of "\<lambda>w. bit w i"] by (simp add: bit_and_iff)
  then show "bit ((t OR m) AND NOT m) i = bit t i" using i by (auto simp: bit_and_iff bit_not_iff bit_or_iff)
qed

lemma unmark_set_mark: "\<not> is_marked a \<Longrightarrow> unmark (set_mark {aptr a} a) = a"
  using word_set_clear [of "atag a" GC_TAG_MARK] by (simp add: is_marked_def unmark_def set_mark_def)

text \<open>
  C36: Marking returns and marks exactly what is reachable: with room for a recursion as deep as there are
  allocations, the mark bit is set for every allocation that the roots or the scanned stack lead to over
  pointers stored anywhere in the allocations between, cyclic structures included, and for no other;
  nothing else changes.
\<close>

theorem gc_mark_exact:
  assumes "am_ok (gc_allocs gc)" and "unmarked gc" and "card (managed gc) < n"
  shows "\<exists>gc'. gc_mark n tos gc = Some gc' \<and> gmem gc' = gmem gc \<and> gc_events gc' = gc_events gc \<and>
    (\<forall>p. gc_allocation_map_get (gc_allocs gc') p =
       (case gc_allocation_map_get (gc_allocs gc) p of
          None \<Rightarrow> None
        | Some a \<Rightarrow> Some (if p \<in> gc_live tos gc then a\<lparr>atag := atag a OR GC_TAG_MARK\<rparr> else a)))"
proof -
  obtain gc' where "gc_mark n tos gc = Some gc'" "marking gc (gc_live tos gc) gc'"
    using gc_mark_exact_aux [OF assms] by blast
  then show ?thesis
    by (auto simp: marking_def set_mark_def gc_get_ptr [OF assms(1)] split: option.split intro!: exI [of _ gc'])
qed

lemma gc_run_result:
  assumes ok: "am_ok (gc_allocs gc)" and un: "unmarked gc" and n: "card (managed gc) < n" and g: "growable (gc_allocs gc)"
    and dead: "dead = filter (\<lambda>a. aptr a \<notin> gc_live tos gc) (all_allocs (gc_allocs gc))"
  shows "\<exists>gc'. gc_run n tos gc = Some (sum_list (map asize dead), gc') \<and>
    gc_events gc' = gc_events gc @ concat (map finalise dead) \<and>
    am_ok (gc_allocs gc') \<and> unmarked gc' \<and> paused gc' = paused gc \<and> bos gc' = bos gc \<and> gmem gc' = gmem gc \<and>
    (\<forall>p. gc_allocation_map_get (gc_allocs gc') p =
       (if p \<in> gc_live tos gc then gc_allocation_map_get (gc_allocs gc) p else None)) \<and>
    (\<exists>b am. capacity am = capacity (gc_allocs gc) \<and> gc_allocation_map_resize_to_fit am = Some (b, gc_allocs gc'))"
proof -
  let ?M = "gc_live tos gc" and ?all = "all_allocs (gc_allocs gc)"
  obtain gc1 where 1: "gc_mark n tos gc = Some gc1" "marking gc ?M gc1" using gc_mark_exact_aux [OF ok un n] by blast
  have ok1: "am_ok (gc_allocs gc1)" and g1: "growable (gc_allocs gc1)" and all1: "all_allocs (gc_allocs gc1) = map (set_mark ?M) ?all"
    using 1(2) g by (simp_all add: marking_def growable_def)
  have un': "\<not> is_marked a" if "a \<in> set ?all" for a using un that by (simp add: unmarked_def is_marked_def)
  have mk: "is_marked (set_mark ?M a) \<longleftrightarrow> aptr a \<in> ?M" if "a \<in> set ?all" for a
    using un' [OF that] or_mark by (simp add: is_marked_def set_mark_def)
  have keep: "set_mark ?M a = a" if "aptr a \<notin> ?M" for a using that by (simp add: set_mark_def)
  have "filter (\<lambda>a. \<not> is_marked (set_mark ?M a)) ?all = dead" unfolding dead by (rule filter_cong) (use mk in auto)
  moreover have "map (set_mark ?M) dead = dead" using keep by (auto simp: dead intro!: map_idI)
  ultimately have d: "filter (\<lambda>a. \<not> is_marked a) (all_allocs (gc_allocs gc1)) = dead" by (simp add: all1 filter_map comp_def)
  obtain gc2 where 2: "gc_sweep gc1 = Some (sum_list (map asize dead), gc2)"
      "gc_events gc2 = gc_events gc1 @ concat (map finalise dead)" "am_ok (gc_allocs gc2)"
      "paused gc2 = paused gc1" "bos gc2 = bos gc1" "gmem gc2 = gmem gc1"
      "set (all_allocs (gc_allocs gc2)) = unmark ` {a \<in> set (all_allocs (gc_allocs gc1)). is_marked a}"
      "\<exists>b am. capacity am = capacity (gc_allocs gc1) \<and> gc_allocation_map_resize_to_fit am = Some (b, gc_allocs gc2)"
    using gc_sweep_result [OF ok1 g1] unfolding d by blast
  have un_mark: "unmark (set_mark ?M a) = a" if "a \<in> set ?all" "aptr a \<in> ?M" for a
  proof -
    have "set_mark ?M a = set_mark {aptr a} a" using that(2) by (simp add: set_mark_def)
    then show ?thesis using unmark_set_mark [OF un' [OF that(1)]] by simp
  qed
  have "set (all_allocs (gc_allocs gc2)) = unmark ` (set_mark ?M ` {a \<in> set ?all. is_marked (set_mark ?M a)})"
    unfolding 2(7) all1 by auto
  also have "\<dots> = (\<lambda>a. unmark (set_mark ?M a)) ` {a \<in> set ?all. aptr a \<in> ?M}" using mk by auto
  also have "\<dots> = {a \<in> set ?all. aptr a \<in> ?M}" using un_mark by force
  finally have all2: "set (all_allocs (gc_allocs gc2)) = {a \<in> set ?all. aptr a \<in> ?M}" .
  have "gc_allocation_map_get (gc_allocs gc2) p = Some a \<longleftrightarrow>
      (if p \<in> ?M then gc_allocation_map_get (gc_allocs gc) p else None) = Some a" for p a
    by (auto simp: gc_get_iff [OF ok] gc_get_iff [OF 2(3)] all2)
  then have get: "gc_allocation_map_get (gc_allocs gc2) p = (if p \<in> ?M then gc_allocation_map_get (gc_allocs gc) p else None)" for p
    by (metis not_Some_eq)
  have "unmarked gc2" using un' by (simp add: unmarked_def all2 is_marked_def)
  moreover have "gc_events gc1 = gc_events gc" "paused gc1 = paused gc" "bos gc1 = bos gc" "gmem gc1 = gmem gc"
      "capacity (gc_allocs gc1) = capacity (gc_allocs gc)"
    using 1(2) by (simp_all add: marking_def)
  ultimately show ?thesis using 1(1) 2(1-6,8) get by (intro exI [of _ gc2]) (simp add: gc_run_def)
qed

text \<open>
  C37: A collection frees exactly the allocations that cannot be reached from a root or from the scanned
  stack: each of them once, after its destructor if it has one, and the result is the sum of their sizes.
  What is reachable stays in the map unchanged; no mark is left, so the next collection starts afresh.
\<close>

theorem gc_run_exact:
  assumes "am_ok (gc_allocs gc)" and "unmarked gc" and "card (managed gc) < n" and "growable (gc_allocs gc)"
  shows "\<exists>dead gc'. dead = filter (\<lambda>a. aptr a \<notin> gc_live tos gc) (all_allocs (gc_allocs gc)) \<and>
    gc_run n tos gc = Some (sum_list (map asize dead), gc') \<and>
    gc_events gc' = gc_events gc @ concat (map finalise dead) \<and> distinct (map aptr dead) \<and>
    am_ok (gc_allocs gc') \<and> unmarked gc' \<and> gmem gc' = gmem gc \<and>
    (\<forall>p. gc_allocation_map_get (gc_allocs gc') p =
       (if p \<in> gc_live tos gc then gc_allocation_map_get (gc_allocs gc) p else None))"
proof -
  have "distinct (map aptr (filter (\<lambda>a. aptr a \<notin> gc_live tos gc) (all_allocs (gc_allocs gc))))"
    using assms(1) by (simp add: am_ok_def distinct_map_filter)
  then show ?thesis using gc_run_result [OF assms refl] by blast
qed
subsection \<open>Allocation, reallocation and the end\<close>

text \<open>Room for two resizes in one call.\<close>

definition roomy :: "alloc_map \<Rightarrow> bool" where
  "roomy am \<longleftrightarrow> 2 * unat (capacity am) \<le> 262139"

lemma prime_262139: "prime_number 262139"
proof -
  have "is_prime 262139 = Some True" by code_simp
  then show ?thesis using is_prime_correct [of 262139] by simp
qed

lemma roomy_growable: "roomy am \<Longrightarrow> growable am"
  by (simp add: roomy_def growable_def)

lemma roomy_resize:
  assumes r: "roomy am" and f: "gc_allocation_map_resize_to_fit am = Some (b, am')"
  shows "growable am'"
proof -
  have "unat c \<le> 262139" if "next_prime n = Some c" "n = capacity am * 2 \<or> n = capacity am div 2" for n c
  proof -
    have "unat n \<le> 262139" using that(2) r by (auto simp: roomy_def unat_div unat_word_ariths)
    then show ?thesis using next_prime_least [OF prime_262139, of n] that(1) by auto
  qed
  then have "2 * unat c \<le> 1048573" if "next_prime n = Some c" "n = capacity am * 2 \<or> n = capacity am div 2" for n c
    using that by fastforce
  from this [OF _ disjI1 [OF refl]] this [OF _ disjI2 [OF refl]] show ?thesis using f r
    by (auto simp: gc_allocation_map_resize_to_fit_def gc_allocation_map_resize_def Let_def growable_def roomy_def split: if_splits)
qed

lemma roomy_put:
  assumes "roomy am" "gc_allocation_map_put am p sz d = Some (r, am')"
  shows "growable am'"
proof (cases "upsert_chain (gc_allocation_new p sz d) (allocs am (bucket p (capacity am)))")
  case None
  let ?a = "gc_allocation_new p sz d" and ?i = "bucket p (capacity am)"
  let ?am = "am\<lparr>allocs := (allocs am)(?i := ?a # allocs am ?i), am_size := am_size am + 1\<rparr>"
  have "roomy ?am" using assms(1) by (simp add: roomy_def)
  then show ?thesis using assms(2) None roomy_resize [of ?am _ am'] by (auto simp: gc_allocation_map_put_def Let_def)
next
  case (Some cs)
  then show ?thesis using assms roomy_growable [OF assms(1)] by (auto simp: gc_allocation_map_put_def growable_def Let_def)
qed

lemma roomy_remove:
  assumes "roomy am" "gc_allocation_map_remove am p b = Some am'"
  shows "growable am'"
proof -
  obtain cs m where r: "remove_chain p (allocs am (bucket p (capacity am))) (am_size am) = (cs, m)" by fastforce
  let ?am = "am\<lparr>allocs := (allocs am)(bucket p (capacity am) := cs), am_size := m\<rparr>"
  have "roomy ?am" using assms(1) by (simp add: roomy_def)
  then show ?thesis using assms(2) roomy_resize [of ?am _ am'] roomy_growable [of ?am]
    by (auto simp: gc_allocation_map_remove_def Let_def r split: if_splits)
qed

text \<open>Room for one more: a table this small is still \<open>roomy\<close> after a collection.\<close>

definition spacious :: "alloc_map \<Rightarrow> bool" where
  "spacious am \<longleftrightarrow> 2 * unat (capacity am) \<le> 65521"

lemma spacious_roomy: "spacious am \<Longrightarrow> roomy am"
  by (simp add: spacious_def roomy_def)

lemma prime_65521: "prime_number 65521"
proof -
  have "is_prime 65521 = Some True" by code_simp
  then show ?thesis using is_prime_correct [of 65521] by simp
qed

lemma spacious_resize:
  assumes r: "spacious am" and f: "gc_allocation_map_resize_to_fit am = Some (b, am')"
  shows "roomy am'"
proof -
  have "2 * unat c \<le> 262139" if "next_prime n = Some c" "n = capacity am * 2 \<or> n = capacity am div 2" for n c
  proof -
    have "unat n \<le> 65521" using that(2) r by (auto simp: spacious_def unat_div unat_word_ariths)
    then show ?thesis using next_prime_least [OF prime_65521, of n] that(1) by auto
  qed
  from this [OF _ disjI1 [OF refl]] this [OF _ disjI2 [OF refl]] show ?thesis using f r
    by (auto simp: gc_allocation_map_resize_to_fit_def gc_allocation_map_resize_def Let_def roomy_def spacious_def split: if_splits)
qed

text \<open>\<open>gc'\<close> is \<open>gc\<close> after a collection: what is not reachable is finalised, the rest is kept.\<close>

definition collected :: "UW \<Rightarrow> gc_state \<Rightarrow> gc_state \<Rightarrow> bool" where
  "collected tos gc gc' \<longleftrightarrow>
     gc_events gc' = gc_events gc @ concat (map finalise (filter (\<lambda>a. aptr a \<notin> gc_live tos gc) (all_allocs (gc_allocs gc)))) \<and>
     paused gc' = paused gc \<and> bos gc' = bos gc \<and> gmem gc' = gmem gc \<and>
     (\<forall>p. gc_allocation_map_get (gc_allocs gc') p =
        (if p \<in> gc_live tos gc then gc_allocation_map_get (gc_allocs gc) p else None))"

lemma gc_run_collected:
  assumes "am_ok (gc_allocs gc)" "unmarked gc" "card (managed gc) < n" "growable (gc_allocs gc)"
  obtains b gc' where "gc_run n tos gc = Some (b, gc')" "collected tos gc gc'" "am_ok (gc_allocs gc')" "unmarked gc'"
    "managed gc' \<subseteq> managed gc" "spacious (gc_allocs gc) \<Longrightarrow> roomy (gc_allocs gc')"
proof -
  note goal = that
  obtain b gc' where r: "gc_run n tos gc = Some (b, gc')" "collected tos gc gc'" "am_ok (gc_allocs gc')" "unmarked gc'"
    "\<exists>b am. capacity am = capacity (gc_allocs gc) \<and> gc_allocation_map_resize_to_fit am = Some (b, gc_allocs gc')"
    using gc_run_result [OF assms refl, of tos] unfolding collected_def by blast
  have g: "gc_allocation_map_get (gc_allocs gc') x = (if x \<in> gc_live tos gc then gc_allocation_map_get (gc_allocs gc) x else None)" for x
    using r(2) by (simp add: collected_def)
  have "managed gc' \<subseteq> managed gc" by (auto simp: g split: if_splits)
  moreover have "roomy (gc_allocs gc')" if sp: "spacious (gc_allocs gc)"
  proof -
    obtain c am where c: "capacity am = capacity (gc_allocs gc)" "gc_allocation_map_resize_to_fit am = Some (c, gc_allocs gc')"
      using r(5) by blast
    show ?thesis by (rule spacious_resize [OF _ c(2)]) (use sp c(1) in \<open>simp add: spacious_def\<close>)
  qed
  ultimately show thesis using goal [OF r(1-4)] by blast
qed

lemma gc_mcalloc_frame [simp]:
  "gc_allocs (gc_mcalloc p cnt sz gc) = gc_allocs gc" "paused (gc_mcalloc p cnt sz gc) = paused gc"
  "unmarked (gc_mcalloc p cnt sz gc) = unmarked gc" "gc_mcalloc 0 cnt sz gc = gc"
  by (simp_all add: gc_mcalloc_def unmarked_def)

text \<open>
  C40: The cases of a reallocation. An unknown pointer and a failure of \<^verbatim>\<open>realloc\<close> give NULL without effect; a
  null pointer is an allocation; a block that grows in place has its size updated. When \<^verbatim>\<open>realloc\<close> moves the
  block, the map goes on managing the old pointer, which \<^verbatim>\<open>realloc\<close> has freed, with whatever is read as its
  destructor, while the block that is returned is not managed.
\<close>

theorem gc_realloc_result:
  assumes ok: "am_ok (gc_allocs gc)" and r: "roomy (gc_allocs gc)" and len: "length (all_allocs (gc_allocs gc)) < 2 ^ 31 - 1"
    and get: "get = gc_allocation_map_get (gc_allocs gc)"
  shows "(p \<noteq> 0 \<and> get p = None \<longrightarrow> gc_realloc q stale p sz gc = Some (0, gc)) \<and>
    (q = 0 \<longrightarrow> gc_realloc q stale p sz gc = Some (0, gc)) \<and>
    (p = 0 \<and> q \<noteq> 0 \<longrightarrow> (\<exists>gc'. gc_realloc q stale p sz gc = Some (q, gc') \<and> am_ok (gc_allocs gc') \<and>
       gc_allocation_map_get (gc_allocs gc') = get(q \<mapsto> gc_allocation_new q sz 0))) \<and>
    (\<forall>a. p \<noteq> 0 \<and> q = p \<and> get p = Some a \<longrightarrow> (\<exists>gc'. gc_realloc q stale p sz gc = Some (q, gc') \<and> am_ok (gc_allocs gc') \<and>
       gc_allocation_map_get (gc_allocs gc') = get(p \<mapsto> a\<lparr>asize := sz\<rparr>))) \<and>
    (\<forall>a. p \<noteq> 0 \<and> q \<noteq> 0 \<and> q \<noteq> p \<and> get p = Some a \<longrightarrow> (\<exists>gc'. gc_realloc q stale p sz gc = Some (q, gc') \<and> am_ok (gc_allocs gc') \<and>
       gc_allocation_map_get (gc_allocs gc') = get(p \<mapsto> gc_allocation_new p sz stale)))"
proof (intro conjI allI impI)
  assume "p \<noteq> 0 \<and> get p = None"
  then show "gc_realloc q stale p sz gc = Some (0, gc)" by (simp add: gc_realloc_def Let_def get)
next
  assume "q = 0"
  then show "gc_realloc q stale p sz gc = Some (0, gc)" by (simp add: gc_realloc_def Let_def)
next
  assume pq: "p = 0 \<and> q \<noteq> 0"
  obtain am' where "gc_allocation_map_put (gc_allocs gc) q sz 0 = Some (Some (gc_allocation_new q sz 0), am')" "am_ok am'"
      "gc_allocation_map_get am' = get(q \<mapsto> gc_allocation_new q sz 0)"
    using put_keeps [OF ok roomy_growable [OF r] len, of q sz 0] by (auto simp: get)
  then show "\<exists>gc'. gc_realloc q stale p sz gc = Some (q, gc') \<and> am_ok (gc_allocs gc') \<and>
      gc_allocation_map_get (gc_allocs gc') = get(q \<mapsto> gc_allocation_new q sz 0)"
    using pq by (auto simp: gc_realloc_def Let_def gc_allocation_new_def)
next
  fix a assume a: "p \<noteq> 0 \<and> q = p \<and> get p = Some a"
  have f: "\<forall>a. aptr a = p \<longrightarrow> aptr (a\<lparr>asize := sz\<rparr>) = p" by simp
  show "\<exists>gc'. gc_realloc q stale p sz gc = Some (q, gc') \<and> am_ok (gc_allocs gc') \<and>
      gc_allocation_map_get (gc_allocs gc') = get(p \<mapsto> a\<lparr>asize := sz\<rparr>)"
    using a upd_allocation_keeps(1) [OF ok f] gc_get_upd [OF ok f]
    by (auto simp: gc_realloc_def Let_def get fun_eq_iff)
next
  fix a assume a: "p \<noteq> 0 \<and> q \<noteq> 0 \<and> q \<noteq> p \<and> get p = Some a"
  obtain am1 where 1: "gc_allocation_map_remove (gc_allocs gc) p True = Some am1" "am_ok am1"
      "gc_allocation_map_get am1 = get(p := None)"
    using remove_get [OF ok, of True p] roomy_growable [OF r] by (auto simp: get)
  have "dom (gc_allocation_map_get am1) \<subseteq> managed gc" using 1(3) get by auto
  then have "length (all_allocs am1) < 2 ^ 31 - 1"
    using card_mono [OF finite_managed [OF ok]] all_allocs_card [OF 1(2)] all_allocs_card [OF ok] len by (metis le_less_trans)
  then obtain am2 where 2: "gc_allocation_map_put am1 p sz stale = Some (Some (gc_allocation_new p sz stale), am2)" "am_ok am2"
      "gc_allocation_map_get am2 = (gc_allocation_map_get am1)(p \<mapsto> gc_allocation_new p sz stale)"
    using put_keeps [OF 1(2) roomy_remove [OF r 1(1)], of p sz stale] by auto
  have "gc_realloc q stale p sz gc = Some (q, gc\<lparr>gc_allocs := am2\<rparr>)"
    using a 1(1) 2(1) by (auto simp: gc_realloc_def Let_def get)
  then show "\<exists>gc'. gc_realloc q stale p sz gc = Some (q, gc') \<and> am_ok (gc_allocs gc') \<and>
      gc_allocation_map_get (gc_allocs gc') = get(p \<mapsto> gc_allocation_new p sz stale)"
    using 2 1(3) by auto
qed

text \<open>Managing a block the allocator gave, and the collection that this may start.\<close>

definition gc_managed :: "nat \<Rightarrow> UW \<Rightarrow> UW \<Rightarrow> UW \<Rightarrow> UW \<Rightarrow> gc_state \<Rightarrow> (UW \<times> gc_state) option" where
  "gc_managed n tos p bytes d gc =
     (case gc_allocation_map_put (gc_allocs gc) p bytes d of
        Some (Some a, am) \<Rightarrow>
          if sweep_limit am < am_size am \<and> \<not> paused gc
          then map_option (\<lambda>(_, gc). (aptr a, gc)) (gc_run n tos (gc\<lparr>gc_allocs := am\<rparr>))
          else Some (aptr a, gc\<lparr>gc_allocs := am\<rparr>)
      | _ \<Rightarrow> None)"

lemma gc_managed_result:
  assumes ok: "am_ok (gc_allocs gc)" and un: "unmarked gc" and r: "roomy (gc_allocs gc)"
    and len: "length (all_allocs (gc_allocs gc)) < 2 ^ 31 - 1" and n: "card (managed gc) + 1 < n"
  obtains am gc' where "gc_allocation_map_put (gc_allocs gc) p bytes d = Some (Some (gc_allocation_new p bytes d), am)"
    "gc_allocation_map_get am = (gc_allocation_map_get (gc_allocs gc))(p \<mapsto> gc_allocation_new p bytes d)"
    "gc_managed n tos p bytes d gc = Some (p, gc')" "am_ok (gc_allocs gc')" "unmarked gc'"
    "if sweep_limit am < am_size am \<and> \<not> paused gc then collected tos (gc\<lparr>gc_allocs := am\<rparr>) gc'
     else gc' = gc\<lparr>gc_allocs := am\<rparr>"
proof -
  note goal = that
  let ?new = "gc_allocation_new p bytes d"
  obtain am where am: "gc_allocation_map_put (gc_allocs gc) p bytes d = Some (Some ?new, am)" "am_ok am"
      "gc_allocation_map_get am = (gc_allocation_map_get (gc_allocs gc))(p \<mapsto> ?new)"
    using put_keeps [OF ok roomy_growable [OF r] len] by blast
  let ?gc = "gc\<lparr>gc_allocs := am\<rparr>"
  have un1: "unmarked ?gc"
    using un am(2,3) unmarked_get [OF ok] by (auto simp: unmarked_get is_marked_def gc_allocation_new_def)
  have eq: "gc_managed n tos p bytes d gc =
      (if sweep_limit am < am_size am \<and> \<not> paused gc then map_option (\<lambda>(_, gc). (p, gc)) (gc_run n tos ?gc)
       else Some (p, ?gc))"
    by (simp add: gc_managed_def am(1)) (simp add: gc_allocation_new_def)
  show thesis
  proof (cases "sweep_limit am < am_size am \<and> \<not> paused gc")
    case False
    then show thesis using goal [OF am(1,3), of ?gc] eq am(2) un1 by auto
  next
    case True
    have "managed ?gc = insert p (managed gc)" using am(3) by simp
    then have c: "card (managed ?gc) < n" using n by (simp add: card_insert_if finite_managed [OF ok])
    obtain b gc' where "gc_run n tos ?gc = Some (b, gc')" "collected tos ?gc gc'" "am_ok (gc_allocs gc')" "unmarked gc'"
        "managed gc' \<subseteq> managed ?gc" "spacious (gc_allocs ?gc) \<Longrightarrow> roomy (gc_allocs gc')"
      by (rule gc_run_collected [of ?gc n tos]) (use c un1 am(2) roomy_put [OF r am(1)] in simp_all)
    then show thesis using goal [OF am(1,3), of gc'] eq True by auto
  qed
qed

lemma gc_allocate_managed:
  assumes "gc_allocation_map_put (gc_allocs gc1) p bytes d = Some (Some a, am)"
    "bytes = (if cnt \<noteq> 0 then cnt * sz else sz)" "p \<noteq> 0"
    "if first = 0 \<and> \<not> paused gc then \<exists>b gc0. gc_run n tos gc = Some (b, gc0) \<and> p = second \<and> gc1 = gc_mcalloc p cnt sz gc0
     else p = first \<and> gc1 = gc_mcalloc p cnt sz gc"
  shows "gc_allocate n tos first second cnt sz d gc = gc_managed n tos p bytes d gc1"
  using assms by (auto simp: gc_allocate_def gc_managed_def Let_def split: if_splits)

text \<open>
  C39: An allocation takes the block it gets from the allocator. If the allocator fails, it collects,
  unless the collector is paused, and asks once more; if that fails as well the answer is 0 and nothing is
  managed. A block is added to the map with its size and destructor, cleared when a count was given. When
  this brings the number of allocations over the limit of the table and the collector is not paused, and
  only then, a collection follows: it frees what is not reachable, the new block as well if its pointer is
  not found in the scanned stack or in a reachable allocation. The answer is the block in any case.
\<close>

theorem gc_allocate_result:
  assumes ok: "am_ok (gc_allocs gc)" and un: "unmarked gc" and r: "spacious (gc_allocs gc)"
    and len: "length (all_allocs (gc_allocs gc)) < 2 ^ 31 - 1" and n: "card (managed gc) + 1 < n"
    and bytes: "bytes = (if cnt \<noteq> 0 then cnt * sz else sz)"
    and p: "p = (if first = 0 \<and> \<not> paused gc then second else first)"
  shows "\<exists>gc0 gc'. gc_allocate n tos first second cnt sz d gc = Some (p, gc') \<and> am_ok (gc_allocs gc') \<and> unmarked gc' \<and>
    (if first = 0 \<and> \<not> paused gc then collected tos gc gc0 else gc0 = gc) \<and>
    (if p = 0 then gc' = gc0
     else \<exists>gc1 am. gc1 = (gc_mcalloc p cnt sz gc0)\<lparr>gc_allocs := am\<rparr> \<and>
       gc_allocation_map_put (gc_allocs gc0) p bytes d = Some (Some (gc_allocation_new p bytes d), am) \<and>
       gc_allocation_map_get am = (gc_allocation_map_get (gc_allocs gc0))(p \<mapsto> gc_allocation_new p bytes d) \<and>
       (if sweep_limit am < am_size am \<and> \<not> paused gc then collected tos gc1 gc' else gc' = gc1))"
proof -
  obtain gc0 where gc0: "if first = 0 \<and> \<not> paused gc then \<exists>b. gc_run n tos gc = Some (b, gc0) else gc0 = gc"
    "if first = 0 \<and> \<not> paused gc then collected tos gc gc0 else gc0 = gc"
    "am_ok (gc_allocs gc0)" "unmarked gc0" "managed gc0 \<subseteq> managed gc" "roomy (gc_allocs gc0)" "paused gc0 = paused gc"
  proof (cases "first = 0 \<and> \<not> paused gc")
    case True
    obtain b gc' where "gc_run n tos gc = Some (b, gc')" "collected tos gc gc'" "am_ok (gc_allocs gc')" "unmarked gc'"
        "managed gc' \<subseteq> managed gc" "spacious (gc_allocs gc) \<Longrightarrow> roomy (gc_allocs gc')"
      by (rule gc_run_collected [of gc n tos]) (use ok un n r roomy_growable [OF spacious_roomy [OF r]] in simp_all)
    then show ?thesis using that [of gc'] True r by (auto simp: collected_def)
  qed (use that [of gc] ok un spacious_roomy [OF r] in auto)
  show ?thesis
  proof (cases "p = 0")
    case True
    then have "gc_allocate n tos first second cnt sz d gc = Some (p, gc0)"
      using gc0(1) p by (auto simp: gc_allocate_def Let_def split: if_splits)
    with True gc0 show ?thesis by (intro exI [of _ gc0]) simp
  next
    case False
    have "card (managed gc0) \<le> card (managed gc)" by (rule card_mono [OF finite_managed [OF ok] gc0(5)])
    then have c: "length (all_allocs (gc_allocs gc0)) < 2 ^ 31 - 1" "card (managed gc0) + 1 < n"
      using len n by (simp_all add: all_allocs_card [OF gc0(3)] all_allocs_card [OF ok])
    let ?gc0 = "gc_mcalloc p cnt sz gc0"
    obtain am gc' where m: "gc_allocation_map_put (gc_allocs ?gc0) p bytes d = Some (Some (gc_allocation_new p bytes d), am)"
      "gc_allocation_map_get am = (gc_allocation_map_get (gc_allocs ?gc0))(p \<mapsto> gc_allocation_new p bytes d)"
      "gc_managed n tos p bytes d ?gc0 = Some (p, gc')" "am_ok (gc_allocs gc')" "unmarked gc'"
      "if sweep_limit am < am_size am \<and> \<not> paused ?gc0 then collected tos (?gc0\<lparr>gc_allocs := am\<rparr>) gc'
       else gc' = ?gc0\<lparr>gc_allocs := am\<rparr>"
      by (rule gc_managed_result [of ?gc0 n p bytes d tos]) (use gc0(3,4,6) c in simp_all)
    have "gc_allocate n tos first second cnt sz d gc = Some (p, gc')"
      using gc_allocate_managed [OF m(1) bytes False] gc0(1) m(3) p by (auto split: if_splits)
    with m gc0(2,7) False show ?thesis by (intro exI [of _ gc0] exI [of _ gc']) auto
  qed
qed

subsection \<open>A small heap\<close>

text \<open>
  Three blocks of eight bytes: the stack holds the address of the first, which points to the second, and
  the second back to the first; the third has a destructor and nobody points to it.
\<close>

definition ex_map :: alloc_map where
  "ex_map = \<lparr>capacity = 2, min_capacity = 2, downsize_factor = 0, upsize_factor = 8, sweep_factor = 1 / 2,
     sweep_limit = 0, am_size = 3,
     allocs = (\<lambda>i. if i = 0 then [gc_allocation_new 0x100 8 0, gc_allocation_new 0x110 8 0, gc_allocation_new 0x120 8 7] else [])\<rparr>"

definition ex_gc :: gc_state where
  "ex_gc = \<lparr>gc_allocs = ex_map, paused = False, bos = 0x208,
     gmem = (\<lambda>_. 0)(0x200 := 0, 0x201 := 1, 0x100 := 0x10, 0x101 := 1, 0x110 := 0, 0x111 := 1), gc_events = []\<rparr>"

lemma ex_all: "all_allocs ex_map = [gc_allocation_new 0x100 8 0, gc_allocation_new 0x110 8 0, gc_allocation_new 0x120 8 7]"
  by (simp add: all_allocs_def ex_map_def upt_rec)

lemma ex_ok: "am_ok (gc_allocs ex_gc)"
proof -
  have "bucket 0x100 2 = 0" "bucket 0x110 2 = 0" "bucket 0x120 2 = 0" by (simp_all add: gc_hash_def)
  then show ?thesis by (simp add: am_ok_def ex_gc_def ex_all) (auto simp: ex_map_def gc_allocation_new_def)
qed

lemma ex_unmarked: "unmarked ex_gc"
  by (simp add: unmarked_def ex_gc_def ex_all gc_allocation_new_def)

lemma ex_spacious: "spacious (gc_allocs ex_gc)"
  by (simp add: spacious_def ex_gc_def ex_map_def)

lemmas ex_roomy = spacious_roomy [OF ex_spacious]

lemma ex_managed: "managed ex_gc = {0x100, 0x110, 0x120}" "card (managed ex_gc) = 3"
proof -
  have "managed ex_gc = aptr ` set (all_allocs (gc_allocs ex_gc))" by (auto simp: gc_get_iff [OF ex_ok])
  then show "managed ex_gc = {0x100, 0x110, 0x120}" by (simp add: ex_gc_def ex_all gc_allocation_new_def)
  then show "card (managed ex_gc) = 3" by simp
qed

lemma ex_get: "gc_allocation_map_get (gc_allocs ex_gc) p = Some a \<longleftrightarrow>
    p = aptr a \<and> a \<in> {gc_allocation_new 0x100 8 0, gc_allocation_new 0x110 8 0, gc_allocation_new 0x120 8 7}"
  by (auto simp: gc_get_iff [OF ex_ok]) (auto simp: ex_gc_def ex_all)

lemma points_iff:
  "gc_allocation_map_get (gc_allocs gc) p = Some a \<Longrightarrow> (p, q) \<in> points gc \<longleftrightarrow> q \<in> set (contents (gmem gc) a) \<inter> managed gc"
  by (auto simp: points_def)

text \<open>With a fourth block at \<open>0x180\<close>, to which nothing points, the same blocks are reachable.\<close>

lemma ex_live_more:
  assumes m: "gmem gc = gmem ex_gc" "bos gc = bos ex_gc"
    and g: "gc_allocation_map_get (gc_allocs gc) =
      (gc_allocation_map_get (gc_allocs ex_gc))(0x180 := x)" "case x of None \<Rightarrow> True | Some a \<Rightarrow> atag a = 0"
  shows "gc_live 0x200 gc = {0x100, 0x110}"
proof -
  have dom: "managed gc = {0x100, 0x110, 0x120} \<union> (if x = None then {} else {0x180})"
    using ex_managed(1) by (cases x) (auto simp: g(1))
  have s: "set (scan_range (gmem ex_gc) 0x200 (bos ex_gc - PTRSIZE)) \<inter> managed gc = {0x100}"
    "set (scan_range (gmem ex_gc) 0x100 0x104) \<inter> managed gc = {0x110}"
    "set (scan_range (gmem ex_gc) 0x110 0x114) \<inter> managed gc = {0x100}"
    unfolding dom by (simp_all add: scan_range_def load_ptr_def ex_gc_def upt_rec word_rcat_def)
  have c: "contents (gmem gc) (gc_allocation_new 0x100 8 0) = scan_range (gmem ex_gc) 0x100 0x104"
    "contents (gmem gc) (gc_allocation_new 0x110 8 0) = scan_range (gmem ex_gc) 0x110 0x114"
    by (simp_all add: contents_def gc_allocation_new_def m)
  have e: "(0x100, q) \<in> points gc \<longleftrightarrow> q = 0x110" "(0x110, q) \<in> points gc \<longleftrightarrow> q = 0x100" for q
  proof -
    have g: "gc_allocation_map_get (gc_allocs gc) 0x100 = Some (gc_allocation_new 0x100 8 0)"
      "gc_allocation_map_get (gc_allocs gc) 0x110 = Some (gc_allocation_new 0x110 8 0)"
      unfolding g(1) by (simp_all add: ex_get gc_allocation_new_def)
    show "(0x100, q) \<in> points gc \<longleftrightarrow> q = 0x110" using s(2) c(1) points_iff [OF g(1), of q] by simp
    show "(0x110, q) \<in> points gc \<longleftrightarrow> q = 0x100" using s(3) c(2) points_iff [OF g(2), of q] by simp
  qed
  have "atag a AND GC_TAG_ROOT = 0" if "gc_allocation_map_get (gc_allocs gc) p = Some a" for p a
    using that g(2) by (auto simp: g(1) ex_get split: if_splits) (simp_all add: gc_allocation_new_def)
  then have r: "{p. \<exists>a. gc_allocation_map_get (gc_allocs gc) p = Some a \<and> atag a AND GC_TAG_ROOT \<noteq> 0} = {}" by auto
  have "gc_roots 0x200 gc = {0x100}" unfolding gc_roots_def r m using s(1) by (metis Int_commute Un_empty_left)
  then have live: "gc_live 0x200 gc = (points gc)\<^sup>* `` {0x100}" by (simp add: gc_live_def)
  have "y \<in> {0x100, 0x110}" if "(0x100, y) \<in> (points gc)\<^sup>*" for y
    using that by (induction rule: rtrancl_induct) (use e in auto)
  moreover have "(0x100, 0x110) \<in> (points gc)\<^sup>*" using e(1) by auto
  ultimately show ?thesis unfolding live by blast
qed

lemma ex_live: "gc_live 0x200 ex_gc = {0x100, 0x110}"
proof (rule ex_live_more [OF refl refl])
  have "0x180 \<notin> managed ex_gc" unfolding ex_managed(1) by simp
  then show "gc_allocation_map_get (gc_allocs ex_gc) = (gc_allocation_map_get (gc_allocs ex_gc))(0x180 := None)" by fastforce
qed simp

theorem gc_mark_exact_witness:
  "\<exists>gc'. gc_mark 4 0x200 ex_gc = Some gc' \<and>
    gc_allocation_map_get (gc_allocs gc') 0x110 = Some ((gc_allocation_new 0x110 8 0)\<lparr>atag := GC_TAG_MARK\<rparr>) \<and>
    gc_allocation_map_get (gc_allocs gc') 0x120 = Some (gc_allocation_new 0x120 8 7)"
proof -
  have "gc_allocation_map_get (gc_allocs ex_gc) 0x110 = Some (gc_allocation_new 0x110 8 0)"
    "gc_allocation_map_get (gc_allocs ex_gc) 0x120 = Some (gc_allocation_new 0x120 8 7)"
    by (simp_all add: ex_get gc_allocation_new_def)
  with gc_mark_exact [OF ex_ok ex_unmarked, where n = 4 and tos = "0x200"] show ?thesis
    by (auto simp: ex_managed(2) ex_live gc_allocation_new_def)
qed

theorem gc_run_exact_witness:
  "\<exists>gc'. gc_run 4 0x200 ex_gc = Some (8, gc') \<and> gc_events gc' = [Dtor 7 0x120, Free 0x120] \<and>
    gc_allocation_map_get (gc_allocs gc') 0x100 = Some (gc_allocation_new 0x100 8 0) \<and>
    gc_allocation_map_get (gc_allocs gc') 0x120 = None"
proof -
  have "gc_allocation_map_get (gc_allocs ex_gc) 0x100 = Some (gc_allocation_new 0x100 8 0)"
    by (simp add: ex_get gc_allocation_new_def)
  moreover have "filter (\<lambda>a. aptr a \<notin> gc_live 0x200 ex_gc) (all_allocs (gc_allocs ex_gc)) = [gc_allocation_new 0x120 8 7]"
    unfolding ex_live by (simp add: ex_gc_def ex_all) (simp add: gc_allocation_new_def)
  moreover have ev: "gc_events ex_gc @ finalise (gc_allocation_new 0x120 8 7) = [Dtor 7 0x120, Free 0x120]"
    "asize (gc_allocation_new 0x120 8 7) = 8"
    by (simp_all add: finalise_def gc_allocation_new_def ex_gc_def)
  ultimately show ?thesis
    using gc_run_exact [OF ex_ok ex_unmarked _ roomy_growable [OF ex_roomy], where n = 4 and tos = "0x200"]
    by (auto simp: ex_managed(2) ex_live ev)
qed

theorem gc_realloc_result_witness:
  "\<exists>gc'. gc_realloc 0x180 99 0x120 64 ex_gc = Some (0x180, gc') \<and>
    gc_allocation_map_get (gc_allocs gc') 0x180 = None \<and>
    gc_allocation_map_get (gc_allocs gc') 0x120 = Some (gc_allocation_new 0x120 64 99)"
proof -
  have g: "gc_allocation_map_get (gc_allocs ex_gc) 0x120 = Some (gc_allocation_new 0x120 8 7)"
    by (simp add: ex_get gc_allocation_new_def)
  have "0x180 \<notin> managed ex_gc" unfolding ex_managed(1) by simp
  then have "gc_allocation_map_get (gc_allocs ex_gc) 0x180 = None" by (simp only: domIff not_not)
  have "length (all_allocs (gc_allocs ex_gc)) < 2 ^ 31 - 1" by (simp add: ex_gc_def ex_all)
  from gc_realloc_result [OF ex_ok ex_roomy this refl, of "0x120" "0x180" 99 64] g \<open>gc_allocation_map_get (gc_allocs ex_gc) 0x180 = None\<close> show ?thesis by auto
qed

text \<open>
  The fourth block goes over the limit: a collection follows, which frees the block nobody points to and,
  as its pointer is not on the stack yet, the new block.
\<close>

theorem gc_allocate_result_witness:
  "\<exists>gc'. gc_allocate 5 0x200 0x180 0 0 16 0 ex_gc = Some (0x180, gc') \<and>
    gc_allocation_map_get (gc_allocs gc') 0x180 = None \<and>
    gc_allocation_map_get (gc_allocs gc') 0x110 = Some (gc_allocation_new 0x110 8 0)"
proof -
  let ?new = "gc_allocation_new 0x180 16 0"
  have len: "length (all_allocs (gc_allocs ex_gc)) < 2 ^ 31 - 1" by (simp add: ex_gc_def ex_all)
  have n: "card (managed ex_gc) + 1 < 5" by (simp add: ex_managed(2))
  have lf: "dbl (rat_of_nat 4 / rat_of_nat 2) = 2" by code_simp
  have run: "\<not> paused ex_gc" by (simp add: ex_gc_def)
  have over: "sweep_limit am < am_size am" if "gc_allocation_map_put (gc_allocs ex_gc) 0x180 16 0 = Some (Some ?new, am)" for am
    using that lf by (auto simp: ex_gc_def ex_map_def gc_allocation_map_put_def gc_hash_def
        gc_allocation_map_resize_to_fit_def gc_allocation_map_load_factor_def gc_allocation_new_def Let_def)
  obtain gc' am where a: "gc_allocate 5 0x200 0x180 0 0 16 0 ex_gc = Some (0x180, gc')"
      "gc_allocation_map_put (gc_allocs ex_gc) 0x180 16 0 = Some (Some ?new, am)"
      "gc_allocation_map_get am = (gc_allocation_map_get (gc_allocs ex_gc))(0x180 := Some ?new)"
      "sweep_limit am < am_size am \<Longrightarrow> collected 0x200 ((gc_mcalloc 0x180 0 16 ex_gc)\<lparr>gc_allocs := am\<rparr>) gc'"
    using gc_allocate_result [OF ex_ok ex_unmarked ex_spacious len n refl refl,
        where first = "0x180" and second = 0 and cnt = 0 and sz = 16 and tos = "0x200" and d = 0] run by auto
  have m: "gc_mcalloc 0x180 0 16 ex_gc = ex_gc" by (simp add: gc_mcalloc_def)
  have "gc_live 0x200 (ex_gc\<lparr>gc_allocs := am\<rparr>) = {0x100, 0x110}"
    by (rule ex_live_more [of _ "Some ?new"]) (use a(3) in \<open>simp_all add: gc_allocation_new_def\<close>)
  moreover have "gc_allocation_map_get (gc_allocs ex_gc) 0x110 = Some (gc_allocation_new 0x110 8 0)"
    by (simp add: ex_get gc_allocation_new_def)
  ultimately show ?thesis using a(1,3) a(4) [OF over [OF a(2)]] by (auto simp: m collected_def)
qed

end
