(* ===== verification/Spec2Isabelle.thy ===== *)
theory Spec2Isabelle
  imports Ready_Order Task_Sync_Runs Clock Priority_Runs Collector
begin

text \<open>
  A verification library for T-Kernel 2.0 with the garbage collector of this repository.

  \<^bold>\<open>The program.\<close> T-Kernel/OS (\<^verbatim>\<open>src/srcpkg/tkernel_source/kernel/tkernel/src\<close>, called the kernel below)
  schedules tasks by priority on one processor and offers them objects to wait for. A system call checks its
  parameters and its context (\<^verbatim>\<open>check.h\<close>), enters a critical section with interrupts disabled, changes
  control blocks and queues, and leaves through \<^verbatim>\<open>END_CRITICAL_SECTION\<close>, which dispatches when another task is
  now the scheduled one. A call that has to wait puts its task on the wait queue of the object
  (\<^verbatim>\<open>wait.c\<close>) and on the timer event queue (\<^verbatim>\<open>timer.c\<close>), and the release of the task, by a call of another task or
  by the timer interrupt, writes the result of the call into a cell of the task. Wait specifications carry
  two hooks, for a change of priority of a waiting task and for its release from outside; through them the
  objects depend on each other: a mutex with priority inheritance changes the priority of its owner, who may
  wait for something himself, and semaphores and message buffers give what a released waiter blocked to
  those behind it. The
  garbage collector (\<^verbatim>\<open>src/src/gc.c\<close>) is a conservative mark-and-sweep collector that user tasks call
  instead of \<^verbatim>\<open>malloc\<close>; its hash table of allocations grows and shrinks by load factors.

  \<^bold>\<open>How it is modelled.\<close> The state of the kernel is the record \<open>kernel\<close> of theory Kernel_State, with one field per
  global variable: tables of control blocks (records named after the structs), free queues, the ready
  queue, the timer event queue, and the cells that calls write through pointers. A system call \<^verbatim>\<open>_tk_x\<close> is the
  function \<open>tk_x\<close> from its parameters and the state to its result and the new state; a call that may fail to
  return gives an \<open>option\<close>, so that returning is always part of what is proved. The checks and early returns
  are in the order of the code (\<open>checked\<close>, \<open>first_error\<close>). Machine integers whose overflow matters
  are words (times, bit patterns, attributes, lengths of allocations) or wrap around explicitly (stack sizes),
  the others are integers. What is not
  in the sources or depends on the machine is an argument: the results of memory allocation, user handlers,
  destructors, and the user's memory, as fields of the state.

  \<^bold>\<open>The theories\<close>, in the order of the code, with the files they model.
  \<^item> Prelude: error codes, attributes, sorted insertion. Simulation, Object_Pool: the interfaces (locales) of a
    component that follows a specification call by call, and of a class of objects with create and delete.
  \<^item> Queue (\<^verbatim>\<open>queue.h\<close>, \<^verbatim>\<open>quesearch.c\<close>): rings of pointers, the same operations on lists, and the proof that one
    implements the other. Bitop (\<^verbatim>\<open>bitsearch1.c\<close> and its siblings): the word-wise search for a set bit.
  \<^item> Kernel_State (\<^verbatim>\<open>kernel.h\<close>, \<^verbatim>\<open>task.h\<close>, \<^verbatim>\<open>winfo.h\<close>, \<^verbatim>\<open>check.h\<close>): data, checks, dispatch. Ready_Queue
    (\<^verbatim>\<open>ready_queue.h\<close>), Task (\<^verbatim>\<open>task.c\<close>), Timer (\<^verbatim>\<open>timer.c\<close>), Wait (\<^verbatim>\<open>wait.c\<close>, \<^verbatim>\<open>wait.h\<close>): the operations that
    all calls share. Kernel_Inv and Wait_Inv: the invariant \<open>kinv\<close> (every task is on exactly the queue its
    state names, bitmap and top priority agree with the queues, \<open>schedtsk\<close> is the first task of highest
    priority, timeouts belong to waiting tasks) and what each operation does to it.
  \<^item> Semaphore, Eventflag, Mailbox (\<^verbatim>\<open>semaphore.c\<close>, \<^verbatim>\<open>eventflag.c\<close>, \<^verbatim>\<open>mailbox.c\<close>): the calls of each class, its
    invariant, and the results of the calls on every branch.
  \<^item> Message_Ring and Message_Buffer (\<^verbatim>\<open>messagebuf.c\<close>): the ring of messages with their headers, proved to be a
    first-in first-out store of byte strings, and the calls with their two wait queues on top of it.
  \<^item> Mutex (\<^verbatim>\<open>mutex.c\<close>), Hooks (the wait specifications), Mutex_Inv, Inheritance, Mutex_Lock, Mutex_Unlock,
    Mutex_Calls: mutexes with priority inheritance and ceiling. The locale \<open>wait_objects\<close> states what mutexes rely
    on in the other objects and their hooks, and it is interpreted on the tables of the kernel.
  \<^item> Task_Sync, Task_Sync_Inv, Task_Sync_Runs (\<^verbatim>\<open>task_sync.c\<close>), Task_Manage, Task_Life (\<^verbatim>\<open>task_manage.c\<close>), Release:
    suspension, sleep and wakeup, task events, the life of a task, and the release of a task from whatever it
    waits for. Priority_Runs: sequences of calls on mutexes, priorities and tasks from a kernel without mutexes.
  \<^item> Time_Calls, Timer_Queue, Clock (\<^verbatim>\<open>time_calls.c\<close>, \<^verbatim>\<open>timer.c\<close>): clock, delay, cyclic and alarm handlers, the
    timer interrupt. Klock (\<^verbatim>\<open>klock.c\<close>): kernel locks. Ready_Order: the ready queue as one ordered list.
  \<^item> Alloc_Map and Collector (\<^verbatim>\<open>gc.c\<close>): the hash table of allocations and the collector.
  \<^item> Example_State: a concrete kernel for the instances of the theorems.

  \<^bold>\<open>What is shown.\<close> Per class of objects: the invariant is kept by every call; the result and the effect of a call
  on every branch, errors in the order of the checks and without effect included; no wakeup is lost. For the
  kernel as a whole (\<open>sys_ok\<close>, \<open>kernel_sys\<close>): with all objects, their hooks and the mutexes together,
  every change of priority and every release returns, leaves every task at exactly the priority that its base
  priority, its ceilings and its waiters give, so that no run of calls leads to a priority inversion, and
  timeouts fire neither early nor late (a semaphore or a message buffer may serve its waiters before). Two
  things are left out there: deleting a mutex that is part of a deadlock of tasks, which the code gets wrong,
  and sizes that the code rounds up beyond the range of \<^verbatim>\<open>INT\<close>, where what it does is shown instead. Representations
  refine abstract ones: rings of pointers and lists, the ring of a message buffer and a list of messages, linked messages and lists, the ready queue and one ordered
  list, the hash table and a finite map. Each result that has hypotheses is followed by an instance of it.

  \<^bold>\<open>Bounds.\<close> Hooks of mutexes call \<open>change_task_priority\<close>, which calls hooks: \<open>hooks_n n\<close> allows \<open>n\<close> nested
  calls, and the number of tasks plus two (\<open>kernel_hooks\<close>) is proved to be enough, deadlocks of tasks included.
  The timer handler takes a number of rounds; one more than the events due is enough. \<open>wait_delete\<close> runs as many
  rounds as tasks wait. An allocation may resize the table three times, so its theorem asks for a table of at
  most 32760 buckets. Marking recurses at most as deep as there are allocations. The search for primes is right
  below \<open>2 ^ 31\<close>. Times are assumed below \<open>2 ^ 62\<close> microseconds from now where they are compared.

  \<^bold>\<open>Not modelled.\<close> Memory pools and fixed-size pools, rendezvous ports (their control blocks and wait
  specifications are there, and their queues are taken to be empty), subsystems, object names and the power modes of the kernel; start-up, dispatcher and trap entries, which are assembly and hardware; the
  system manager, device drivers, monitor and T2EX extension on top of the kernel; the network stack, C
  library and MQTT client, which are third-party code; the demonstration programs. Interrupts arrive
  between calls only: a critical section is one step, as the code disables interrupts for it. What the debugger
  hooks (\<^verbatim>\<open>USE_DBGSPT\<close> call-outs) and the floating point context add is left out.
\<close>

end
